(* ===== verification/Prelude.thy ===== *)
theory Prelude
  imports Main "HOL-Library.Word"
begin

text \<open>
  Shared vocabulary of the development.  Bytes are 8-bit words, a buffer is a list of bytes, and an
  offset (the source's \<^verbatim>\<open>usize\<close>) is a natural number.  The section on slices models Rust's
  \<^verbatim>\<open>&xs[a..b]\<close>, the section on searching models \<^verbatim>\<open>position\<close>, \<^verbatim>\<open>rposition\<close>,
  \<^verbatim>\<open>partition_point\<close> and \<^verbatim>\<open>chunks\<close> of the standard library.  The collection
  \<open>slice_simps\<close> carries the proofs about spliced buffers, \<open>scan_simps\<close> those about line scans.
\<close>

named_theorems slice_simps \<open>rewriting of slices and spliced buffers\<close>
named_theorems scan_simps \<open>counting and searching newlines\<close>

section \<open>Types\<close>

type_synonym byte = "8 word"
type_synonym bytes = "byte list"
type_synonym u32 = "32 word"
type_synonym u64 = "64 word"

abbreviation newline :: byte where
  "newline \<equiv> 10"

section \<open>Slices\<close>

text \<open>
  \<open>slice a b xs\<close> is \<^verbatim>\<open>&xs[a..b]\<close> where Rust accepts the range; \<open>slice_ok\<close> is the check whose
  failure is a panic.
\<close>

definition slice :: "nat \<Rightarrow> nat \<Rightarrow> 'a list \<Rightarrow> 'a list" where
  "slice a b xs = take (b - a) (drop a xs)"

definition slice_ok :: "nat \<Rightarrow> nat \<Rightarrow> 'a list \<Rightarrow> bool" where
  "slice_ok a b xs \<longleftrightarrow> a \<le> b \<and> b \<le> length xs"

text \<open>\<^verbatim>\<open>xs.get(i)\<close>: the element, or \<open>None\<close> past the end.\<close>

definition get_at :: "'a list \<Rightarrow> nat \<Rightarrow> 'a option" where
  "get_at xs i = (if i < length xs then Some (xs ! i) else None)"

definition last_opt :: "'a list \<Rightarrow> 'a option" where
  "last_opt xs = (if xs = [] then None else Some (last xs))"

definition first_opt :: "'a list \<Rightarrow> 'a option" where
  "first_opt xs = (case xs of [] \<Rightarrow> None | x # _ \<Rightarrow> Some x)"

section \<open>Searching\<close>

fun position :: "('a \<Rightarrow> bool) \<Rightarrow> 'a list \<Rightarrow> nat option" where
  "position P [] = None"
| "position P (x # xs) = (if P x then Some 0 else map_option Suc (position P xs))"

definition rposition :: "('a \<Rightarrow> bool) \<Rightarrow> 'a list \<Rightarrow> nat option" where
  "rposition P xs = map_option (\<lambda>i. length xs - 1 - i) (position P (rev xs))"

text \<open>
  \<^verbatim>\<open>partition_point\<close> searches a slice whose elements satisfying \<open>P\<close> come first; its answer is how many
  they are.
\<close>

definition partition_point :: "('a \<Rightarrow> bool) \<Rightarrow> 'a list \<Rightarrow> nat" where
  "partition_point P xs = length (takeWhile P xs)"

function chunks :: "nat \<Rightarrow> 'a list \<Rightarrow> 'a list list" where
  "chunks n xs = (if n = 0 \<or> xs = [] then [] else take n xs # chunks n (drop n xs))"
  by pat_completeness auto
termination
  by (relation "measure (\<lambda>(n, xs). length xs)") auto

declare chunks.simps [simp del]

section \<open>Lemmas on slices\<close>

lemma slice_length [simp, slice_simps]:
  "length (slice a b xs) = min (b - a) (length xs - a)"
  by (simp add: slice_def)

lemma slice_self [simp, slice_simps]: "slice a a xs = []"
  by (simp add: slice_def)

lemma slice_all [simp, slice_simps]: "slice 0 (length xs) xs = xs"
  by (simp add: slice_def)

lemma slice_to_end: "length xs \<le> b \<Longrightarrow> slice a b xs = drop a xs"
  by (simp add: slice_def)

lemma slice_empty: "b \<le> a \<Longrightarrow> slice a b xs = []"
  by (simp add: slice_def)

lemma slice_nth: "i < b - a \<Longrightarrow> b \<le> length xs \<Longrightarrow> slice a b xs ! i = xs ! (a + i)"
  by (simp add: slice_def)

lemma slice_append_slice [slice_simps]:
  assumes "a \<le> b" "b \<le> c"
  shows "slice a b xs @ slice b c xs = slice a c xs"
proof -
  have "drop b xs = drop (b - a) (drop a xs)" using assms by simp
  moreover have "take (c - a) (drop a xs) =
      take (b - a) (drop a xs) @ take (c - a - (b - a)) (drop (b - a) (drop a xs))"
    by (metis assms append_take_drop_id take_add diff_le_mono le_add_diff_inverse)
  ultimately show ?thesis using assms by (simp add: slice_def)
qed

lemma slice_append_drop: "a \<le> b \<Longrightarrow> slice a b xs @ drop b xs = drop a xs"
  by (metis append_take_drop_id drop_drop le_add_diff_inverse2 slice_def)

lemma slice_0: "slice 0 b xs = take b xs"
  by (simp add: slice_def)

lemma slice_drop: "slice a b (drop k xs) = slice (k + a) (k + b) xs"
  by (simp add: slice_def add.commute)

lemma slice_append_left: "b \<le> length xs \<Longrightarrow> slice a b (xs @ ys) = slice a b xs"
  by (simp add: slice_def)

lemma slice_append_right:
  "length xs \<le> a \<Longrightarrow> slice a b (xs @ ys) = slice (a - length xs) (b - length xs) ys"
  by (simp add: slice_def)

lemma set_slice_subset: "set (slice a b xs) \<subseteq> set xs"
  unfolding slice_def by (meson in_set_dropD in_set_takeD subsetI)

lemma slice_snoc: "a \<le> b \<Longrightarrow> b < length xs \<Longrightarrow> slice a (Suc b) xs = slice a b xs @ [xs ! b]"
  by (simp add: slice_def Suc_diff_le take_Suc_conv_app_nth)

lemma slice_Cons: "a < b \<Longrightarrow> b \<le> length xs \<Longrightarrow> slice a b xs = xs ! a # slice (Suc a) b xs"
  by (auto simp: slice_def Cons_nth_drop_Suc [symmetric] take_Cons' dest: less_le_trans)

lemma nth_mem_take: "j < p \<Longrightarrow> j < length xs \<Longrightarrow> xs ! j \<in> set (take p xs)"
  by (metis length_take min_less_iff_conj nth_mem nth_take)

lemma nth_mem_drop: "p \<le> j \<Longrightarrow> j < length xs \<Longrightarrow> xs ! j \<in> set (drop p xs)"
  by (auto simp: in_set_conv_nth intro!: exI [of _ "j - p"])

lemma get_at_Some_iff [simp]: "get_at xs i = Some x \<longleftrightarrow> i < length xs \<and> xs ! i = x"
  by (auto simp: get_at_def)

lemma last_opt_in_set: "last_opt xs = Some x \<Longrightarrow> x \<in> set xs"
  by (auto simp: last_opt_def split: if_splits)

lemma first_opt_in_set: "first_opt xs = Some x \<Longrightarrow> x \<in> set xs"
  by (auto simp: first_opt_def split: list.splits)

lemma last_opt_take:
  "p < length xs \<Longrightarrow> last_opt (take p xs) = (if p = 0 then None else Some (xs ! (p - 1)))"
  by (auto simp: last_opt_def last_conv_nth)

lemma first_opt_drop: "first_opt (drop p xs) = (if p < length xs then Some (xs ! p) else None)"
proof (cases "p < length xs")
  case True
  then have "drop p xs = xs ! p # drop (Suc p) xs" by (rule Cons_nth_drop_Suc [symmetric])
  with True show ?thesis by (simp add: first_opt_def)
qed (simp add: first_opt_def)

section \<open>Lemmas on searching\<close>

lemma find_SomeD: "find P xs = Some x \<Longrightarrow> x \<in> set xs \<and> P x"
  by (auto simp: find_Some_iff)

lemma position_None_iff: "position P xs = None \<longleftrightarrow> (\<forall>x \<in> set xs. \<not> P x)"
  by (induction xs) auto

lemma position_SomeD:
  "position P xs = Some i \<Longrightarrow> i < length xs \<and> P (xs ! i) \<and> (\<forall>j < i. \<not> P (xs ! j))"
proof (induction xs arbitrary: i)
  case (Cons x xs)
  then show ?case
    by (cases i) (auto split: if_splits simp: nth_Cons less_Suc_eq_0_disj)
qed simp

lemma position_SomeI:
  "i < length xs \<Longrightarrow> P (xs ! i) \<Longrightarrow> (\<And>j. j < i \<Longrightarrow> \<not> P (xs ! j)) \<Longrightarrow> position P xs = Some i"
proof (induction xs arbitrary: i)
  case (Cons x xs)
  show ?case
  proof (cases i)
    case 0
    with Cons.prems show ?thesis by simp
  next
    case (Suc k)
    have "\<not> P x" using Cons.prems(3) [of 0] Suc by simp
    moreover have "position P xs = Some k"
    proof (rule Cons.IH)
      show "k < length xs" and "P (xs ! k)" using Cons.prems Suc by auto
      show "\<not> P (xs ! j)" if "j < k" for j
        using Cons.prems(3) [of "Suc j"] Suc that by simp
    qed
    ultimately show ?thesis using Suc by simp
  qed
qed simp

lemma position_Some_iff:
  "position P xs = Some i \<longleftrightarrow> i < length xs \<and> P (xs ! i) \<and> (\<forall>j < i. \<not> P (xs ! j))"
  using position_SomeD position_SomeI by metis

lemma rposition_None_iff: "rposition P xs = None \<longleftrightarrow> (\<forall>x \<in> set xs. \<not> P x)"
  by (auto simp: rposition_def position_None_iff)

lemma rposition_SomeD:
  assumes "rposition P xs = Some i"
  shows "i < length xs \<and> P (xs ! i) \<and> (\<forall>j. i < j \<longrightarrow> j < length xs \<longrightarrow> \<not> P (xs ! j))"
proof -
  obtain k where k: "position P (rev xs) = Some k" and i: "i = length xs - 1 - k"
    using assms by (auto simp: rposition_def)
  from position_SomeD [OF k] have kl: "k < length xs" and Pk: "P (rev xs ! k)"
    and least: "\<forall>j < k. \<not> P (rev xs ! j)" by auto
  have "P (xs ! i)" using Pk kl i by (simp add: rev_nth)
  moreover have "\<not> P (xs ! j)" if "i < j" "j < length xs" for j
  proof -
    have "length xs - 1 - j < k" using that i kl by linarith
    with least have "\<not> P (rev xs ! (length xs - 1 - j))" by blast
    with that show ?thesis by (simp add: rev_nth)
  qed
  ultimately show ?thesis using kl i by auto
qed

lemma partition_point_le [simp]: "partition_point P xs \<le> length xs"
  by (simp add: partition_point_def length_takeWhile_le)

lemma partition_point_before: "i < partition_point P xs \<Longrightarrow> P (xs ! i)"
  unfolding partition_point_def by (metis nth_mem set_takeWhileD takeWhile_nth)

lemma partition_point_at: "partition_point P xs < length xs \<Longrightarrow> \<not> P (xs ! partition_point P xs)"
  unfolding partition_point_def by (rule nth_length_takeWhile)

lemma concat_chunks [simp]: "0 < n \<Longrightarrow> concat (chunks n xs) = xs"
proof (induction n xs rule: chunks.induct)
  case (1 n xs)
  then show ?case by (subst chunks.simps) auto
qed

section \<open>Common prefixes and suffixes\<close>

abbreviation agree_prefix :: "'a list \<Rightarrow> 'a list \<Rightarrow> nat" where
  "agree_prefix xs ys \<equiv> length (takeWhile (\<lambda>(a, b). a = b) (zip xs ys))"

lemma agree_prefix_le: "agree_prefix xs ys \<le> length xs" "agree_prefix xs ys \<le> length ys"
  using length_takeWhile_le [of "\<lambda>(a, b). a = b" "zip xs ys"] by simp_all

lemma agree_prefix_take: "k \<le> agree_prefix xs ys \<Longrightarrow> take k xs = take k ys"
proof (induction xs arbitrary: ys k)
  case (Cons x xs)
  then show ?case by (cases ys; cases k) (auto split: if_splits)
qed simp

lemma agree_prefix_differ:
  "agree_prefix xs ys < length xs \<Longrightarrow> agree_prefix xs ys < length ys \<Longrightarrow>
     xs ! agree_prefix xs ys \<noteq> ys ! agree_prefix xs ys"
  using nth_length_takeWhile [of "\<lambda>(a, b). a = b" "zip xs ys"] by simp

lemma agree_prefix_eqI:
  assumes "take k xs = take k ys" "k \<le> length xs" "k \<le> length ys"
    and "k < length xs \<Longrightarrow> k < length ys \<Longrightarrow> xs ! k \<noteq> ys ! k"
  shows "agree_prefix xs ys = k"
proof (rule ccontr)
  let ?a = "agree_prefix xs ys"
  assume "?a \<noteq> k"
  then consider "?a < k" | "k < ?a" by linarith
  then show False
  proof cases
    case 1
    then have "xs ! ?a = ys ! ?a" using assms(1) by (metis nth_take)
    with 1 assms(2,3) agree_prefix_differ [of xs ys] show False by simp
  next
    case 2
    then have "take (Suc k) xs = take (Suc k) ys" by (intro agree_prefix_take) simp
    then have "xs ! k = ys ! k" by (metis lessI nth_take)
    with 2 assms(4) agree_prefix_le [of xs ys] show False by simp
  qed
qed

lemma agree_suffix_drop:
  assumes "take t (rev (drop h xs)) = take t (rev (drop h ys))"
    and "t \<le> length xs - h" "t \<le> length ys - h" "h \<le> length xs" "h \<le> length ys"
  shows "drop (length xs - t) xs = drop (length ys - t) ys"
proof -
  have "h + (length xs - h - t) = length xs - t" "h + (length ys - h - t) = length ys - t"
    using assms by auto
  with assms(1) show ?thesis by (simp add: take_rev add.commute)
qed

end
