(* ===== verification/Keymap.thy ===== *)
theory Keymap
  imports Prelude "HOL-Library.Multiset"
begin

text \<open>
  The layered key maps of \<^verbatim>\<open>crates/core/src/keymap.rs\<close>: layers of bindings with a rank, a
  seal and a policy for unmatched keys, the stack that keeps them sorted by rank, resolution,
  the static conflict check and the collapse of a stack into one layer.
\<close>

section \<open>Layers\<close>

datatype unmatched_key =
    Ignore | Abort | Insert | Append | Overwrite | ReplaceSelection | Forward | Translate

definition is_open :: "unmatched_key \<Rightarrow> bool" where
  "is_open p \<longleftrightarrow> \<not> (p = Ignore \<or> p = Abort)"

datatype keymap_error =
    DuplicateRank "16 word" string string
  | DuplicateId string

record ('k, 'v) layer =
  l_id :: string
  l_rank :: "16 word"
  l_sealed :: bool
  l_unmatched :: unmatched_key
  l_bindings :: "('k \<times> 'v) list"

definition layer_new :: "string \<Rightarrow> 16 word \<Rightarrow> bool \<Rightarrow> unmatched_key \<Rightarrow> ('k, 'v) layer" where
  "layer_new i r s u = \<lparr>l_id = i, l_rank = r, l_sealed = s, l_unmatched = u, l_bindings = []\<rparr>"

definition bind_key :: "('k, 'v) layer \<Rightarrow> 'k \<Rightarrow> 'v \<Rightarrow> ('k, 'v) layer" where
  "bind_key l k v = l\<lparr>l_bindings := l_bindings l @ [(k, v)]\<rparr>"

text \<open>Lookup takes the first binding of the key, the reverse lookup the first binding of the value.\<close>

definition layer_get :: "('k, 'v) layer \<Rightarrow> 'k \<Rightarrow> 'v option" where
  "layer_get l k = map_option snd (find (\<lambda>b. fst b = k) (l_bindings l))"

definition layer_key_for :: "('k, 'v) layer \<Rightarrow> 'v \<Rightarrow> 'k option" where
  "layer_key_for l v = map_option fst (find (\<lambda>b. snd b = v) (l_bindings l))"

fun duplicate_loop :: "('k \<times> 'v) list \<Rightarrow> 'k list \<Rightarrow> 'k list" where
  "duplicate_loop [] out = out"
| "duplicate_loop ((k, v) # bs) out =
     (if k \<in> fst ` set bs \<and> k \<notin> set out then duplicate_loop bs (out @ [k])
      else duplicate_loop bs out)"

definition duplicate_keys :: "('k, 'v) layer \<Rightarrow> 'k list" where
  "duplicate_keys l = duplicate_loop (l_bindings l) []"

section \<open>The stack\<close>

datatype 'v resolved_key =
    Bound string 'v
  | Unmatched string unmatched_key
  | NoLayer

type_synonym ('k, 'v) layer_stack = "('k, 'v) layer list"

definition stack_new :: "('k, 'v) layer_stack" where
  "stack_new = []"

definition stack_push :: "('k, 'v) layer_stack \<Rightarrow> ('k, 'v) layer
    \<Rightarrow> (keymap_error + unit) \<times> ('k, 'v) layer_stack" where
  "stack_push st l =
     (case find (\<lambda>o'. l_rank o' = l_rank l) st of
        Some other \<Rightarrow> (Inl (DuplicateRank (l_rank l) (l_id other) (l_id l)), st)
      | None \<Rightarrow>
          if \<exists>o' \<in> set st. l_id o' = l_id l then (Inl (DuplicateId (l_id l)), st)
          else
            let at = (case position (\<lambda>o'. l_rank o' < l_rank l) st of Some i \<Rightarrow> i | None \<Rightarrow> length st)
            in (Inr (), take at st @ l # drop at st))"

definition stack_layer :: "('k, 'v) layer_stack \<Rightarrow> string \<Rightarrow> ('k, 'v) layer option" where
  "stack_layer st i = find (\<lambda>l. l_id l = i) st"

definition stack_order :: "('k, 'v) layer_stack \<Rightarrow> string list" where
  "stack_order st = map l_id st"

fun resolve_loop :: "('k, 'v) layer list \<Rightarrow> 'k \<Rightarrow> ('k, 'v) layer option \<Rightarrow> 'v resolved_key" where
  "resolve_loop [] k (Some l) = Unmatched (l_id l) (l_unmatched l)"
| "resolve_loop [] k None = NoLayer"
| "resolve_loop (l # ls) k lst =
     (case layer_get l k of
        Some v \<Rightarrow> Bound (l_id l) v
      | None \<Rightarrow> if l_sealed l then Unmatched (l_id l) (l_unmatched l)
                else resolve_loop ls k (Some l))"

definition resolve :: "('k, 'v) layer_stack \<Rightarrow> 'k \<Rightarrow> 'v resolved_key" where
  "resolve st k = resolve_loop st k None"

fun stack_key_for :: "('k, 'v) layer_stack \<Rightarrow> 'v \<Rightarrow> 'k option" where
  "stack_key_for [] v = None"
| "stack_key_for (l # ls) v =
     (case layer_key_for l v of Some k \<Rightarrow> Some k | None \<Rightarrow> stack_key_for ls v)"

text \<open>
  The static check. The lines are the messages of the source; \<open>dbg\<close> stands for the key's
  \<^verbatim>\<open>Debug\<close> rendering, which the stack takes from its key type.
\<close>

definition msg_twice :: "('k \<Rightarrow> string) \<Rightarrow> ('k, 'v) layer \<Rightarrow> 'k \<Rightarrow> string" where
  "msg_twice dbg l k = l_id l @ '': '' @ dbg k @ '' is bound twice''"

definition msg_shadow :: "('k \<Rightarrow> string) \<Rightarrow> ('k, 'v) layer \<Rightarrow> 'k \<Rightarrow> ('k, 'v) layer \<Rightarrow> string" where
  "msg_shadow dbg l k hi =
     l_id l @ '': prefix '' @ dbg k @ '' is shadowed by a plain binding in '' @ l_id hi"

definition plain_in :: "('v \<Rightarrow> bool) \<Rightarrow> ('k, 'v) layer \<Rightarrow> 'k \<Rightarrow> bool" where
  "plain_in is_prefix hi k =
     (case layer_get hi k of Some w \<Rightarrow> \<not> is_prefix w | None \<Rightarrow> False)"

fun shadow_loop :: "('k \<Rightarrow> string) \<Rightarrow> ('v \<Rightarrow> bool) \<Rightarrow> ('k, 'v) layer list \<Rightarrow> ('k, 'v) layer list
    \<Rightarrow> string list" where
  "shadow_loop dbg is_prefix aboves [] = []"
| "shadow_loop dbg is_prefix aboves (l # ls) =
     concat (map (\<lambda>(k, v). if \<not> is_prefix v then []
                 else map (msg_shadow dbg l k) (filter (\<lambda>a. plain_in is_prefix a k) aboves))
            (l_bindings l))
     @ shadow_loop dbg is_prefix (aboves @ [l]) ls"

definition conflicts :: "('k \<Rightarrow> string) \<Rightarrow> ('k, 'v) layer_stack \<Rightarrow> ('v \<Rightarrow> bool) \<Rightarrow> string list" where
  "conflicts dbg st is_prefix =
     concat (map (\<lambda>l. map (msg_twice dbg l) (duplicate_keys l)) st)
     @ shadow_loop dbg is_prefix [] st"

text \<open>The collapse pushes the bindings in resolution order up to and including the first seal.\<close>

fun collapse_bindings :: "('k, 'v) layer list \<Rightarrow> ('k \<times> 'v) list" where
  "collapse_bindings [] = []"
| "collapse_bindings (l # ls) =
     l_bindings l @ (if l_sealed l then [] else collapse_bindings ls)"

definition collapse :: "('k, 'v) layer_stack \<Rightarrow> string \<Rightarrow> ('k, 'v) layer" where
  "collapse st i =
     (let terminal = (case find l_sealed st of Some l \<Rightarrow> Some l | None \<Rightarrow> last_opt st);
          (rank, sealed, unmatched) =
            (case terminal of
               Some l \<Rightarrow> ((case first_opt st of Some f \<Rightarrow> l_rank f | None \<Rightarrow> l_rank l), True, l_unmatched l)
             | None \<Rightarrow> (0, True, Ignore))
      in (layer_new i rank sealed unmatched)\<lparr>l_bindings := collapse_bindings st\<rparr>)"

section \<open>Lookup\<close>

lemma find_fst_map_of: "map_option snd (find (\<lambda>b. fst b = k) bs) = map_of bs k"
  by (induction bs) auto

lemma layer_get_map_of: "layer_get l k = map_of (l_bindings l) k"
  by (simp add: layer_get_def find_fst_map_of)

lemma layer_get_bind_key:
  "layer_get (bind_key l k v) = (case layer_get l k of None \<Rightarrow> (layer_get l)(k := Some v)
                                 | Some w \<Rightarrow> layer_get l)"
  by (auto simp: fun_eq_iff layer_get_map_of bind_key_def map_add_def split: option.splits)

text \<open>The keys reported are exactly those bound more than once, each once.\<close>

lemma duplicate_loop_set:
  "set (duplicate_loop bs out) = set out \<union> {k. 1 < count_list (map fst bs) k}"
proof (induction bs out rule: duplicate_loop.induct)
  case (2 k v bs out)
  have again: "k \<in> fst ` set bs \<longleftrightarrow> 0 < count_list (map fst bs) k"
    using count_list_0_iff [of "map fst bs" k] by auto
  then show ?case using 2 by auto
qed simp

lemma duplicate_loop_distinct: "distinct out \<Longrightarrow> distinct (duplicate_loop bs out)"
  by (induction bs out rule: duplicate_loop.induct) auto

lemma distinct_iff_count_list: "distinct xs \<longleftrightarrow> (\<forall>x. count_list xs x \<le> 1)"
proof (induction xs)
  case (Cons a xs)
  have "(\<forall>x. count_list (a # xs) x \<le> 1) \<longleftrightarrow> count_list xs a = 0 \<and> (\<forall>x. count_list xs x \<le> 1)"
    (is "?l \<longleftrightarrow> ?r")
  proof
    assume l: ?l
    have "count_list xs x \<le> 1" for x
      using spec [OF l, of x] by (cases "a = x") simp_all
    then show ?r using spec [OF l, of a] by simp
  qed auto
  with Cons show ?case by (simp add: count_list_0_iff)
qed simp

lemma duplicate_loop_Nil_iff: "duplicate_loop bs [] = [] \<longleftrightarrow> distinct (map fst bs)"
proof -
  have "duplicate_loop bs [] = [] \<longleftrightarrow> set (duplicate_loop bs []) = {}" by simp
  also have "\<dots> \<longleftrightarrow> (\<forall>k. \<not> 1 < count_list (map fst bs) k)"
    unfolding duplicate_loop_set by auto
  finally show ?thesis by (simp add: distinct_iff_count_list not_less)
qed

section \<open>The order of the stack\<close>

definition stack_ok :: "('k, 'v) layer_stack \<Rightarrow> bool" where
  "stack_ok st \<longleftrightarrow> sorted_wrt (\<lambda>a b. l_rank b < l_rank a) st \<and> distinct (map l_id st)"

lemma find_None_iff_ball: "find P xs = None \<longleftrightarrow> (\<forall>x \<in> set xs. \<not> P x)"
  by (auto simp: find_None_iff)

lemma sorted_wrt_insert_at:
  assumes s: "sorted_wrt (\<lambda>a b. l_rank b < l_rank a) st"
    and fresh: "\<forall>o' \<in> set st. l_rank o' \<noteq> l_rank l"
    and at: "at = (case position (\<lambda>o'. l_rank o' < l_rank l) st of Some i \<Rightarrow> i | None \<Rightarrow> length st)"
  shows "sorted_wrt (\<lambda>a b. l_rank b < l_rank a) (take at st @ l # drop at st)"
proof -
  have at_le: "at \<le> length st"
    unfolding at by (auto split: option.split dest: position_SomeD)
  have before: "l_rank l < l_rank x" if x: "x \<in> set (take at st)" for x
  proof -
    have "x \<in> set st" using x by (meson in_set_takeD)
    moreover have "\<not> l_rank x < l_rank l"
    proof (cases "position (\<lambda>o'. l_rank o' < l_rank l) st")
      case None
      with \<open>x \<in> set st\<close> show ?thesis by (simp add: position_None_iff)
    next
      case (Some i)
      obtain j where "j < at" "j < length st" "x = st ! j"
        using x by (auto simp: in_set_conv_nth)
      with Some show ?thesis
        unfolding at by (auto dest: position_SomeD)
    qed
    ultimately show ?thesis using fresh by (metis linorder_less_linear)
  qed
  have after: "l_rank x < l_rank l" if x: "x \<in> set (drop at st)" for x
  proof -
    obtain j where j: "at \<le> j" "j < length st" "x = st ! j"
      using x by (auto simp: in_set_conv_nth) (metis add.commute le_add1 less_diff_conv)
    then obtain i where i: "position (\<lambda>o'. l_rank o' < l_rank l) st = Some i" and "at = i"
      unfolding at by (cases "position (\<lambda>o'. l_rank o' < l_rank l) st") auto
    have "l_rank (st ! i) < l_rank l" using position_SomeD [OF i] by simp
    moreover have "l_rank (st ! j) \<le> l_rank (st ! i)"
      using s j \<open>at = i\<close> by (cases "i = j") (auto simp: sorted_wrt_iff_nth_less intro: less_imp_le)
    ultimately show ?thesis using j by simp
  qed
  have "sorted_wrt (\<lambda>a b. l_rank b < l_rank a) (take at st @ drop at st)"
    using s by simp
  then show ?thesis
    using before after by (auto simp: sorted_wrt_append intro: less_trans)
qed

lemma stack_push_ok:
  assumes ok: "stack_ok st" and push: "stack_push st l = (Inr (), st')"
  shows "stack_ok st' \<and> mset st' = add_mset l (mset st)"
proof -
  let ?at = "case position (\<lambda>o'. l_rank o' < l_rank l) st of Some i \<Rightarrow> i | None \<Rightarrow> length st"
  have fresh: "\<forall>o' \<in> set st. l_rank o' \<noteq> l_rank l" "\<forall>o' \<in> set st. l_id o' \<noteq> l_id l"
    and st': "st' = take ?at st @ l # drop ?at st"
    using push by (auto simp: stack_push_def find_None_iff_ball Let_def split: option.splits if_splits)
  have perm: "mset st' = add_mset l (mset st)"
    unfolding st' by (metis append_take_drop_id mset.simps(2) mset_append union_mset_add_mset_right)
  have "distinct (map l_id st')"
  proof -
    have "mset (map l_id st') = mset (map l_id (l # st))"
      by (simp add: perm)
    moreover have "distinct (map l_id (l # st))"
      using ok fresh(2) by (auto simp: stack_ok_def)
    ultimately show ?thesis by (metis mset_eq_imp_distinct_iff)
  qed
  then show ?thesis
    using perm sorted_wrt_insert_at [OF _ fresh(1) refl] ok
    by (simp add: stack_ok_def st')
qed

lemma stack_push_error_iff:
  "fst (stack_push st l) = Inr () \<longleftrightarrow> l_rank l \<notin> l_rank ` set st \<and> l_id l \<notin> l_id ` set st"
proof (cases "find (\<lambda>o'. l_rank o' = l_rank l) st")
  case None
  then have "l_rank l \<notin> l_rank ` set st" by (auto simp: find_None_iff)
  with None show ?thesis by (auto simp: stack_push_def Let_def) (metis image_eqI)
next
  case (Some x)
  then have "x \<in> set st" "l_rank x = l_rank l" by (auto simp: find_Some_iff)
  then have "l_rank l \<in> l_rank ` set st" by (metis image_eqI)
  with Some show ?thesis by (simp add: stack_push_def)
qed

lemma stack_push_error_same: "stack_push st l = (Inl e, st') \<Longrightarrow> st' = st"
  by (auto simp: stack_push_def Let_def split: option.splits if_splits)

section \<open>Resolution\<close>

text \<open>The layers a walk may consult: those up to and including the first sealed one.\<close>

fun reached :: "('k, 'v) layer list \<Rightarrow> ('k, 'v) layer list" where
  "reached [] = []"
| "reached (l # ls) = l # (if l_sealed l then [] else reached ls)"

definition resolve_spec :: "('k, 'v) layer_stack \<Rightarrow> 'k \<Rightarrow> 'v resolved_key" where
  "resolve_spec st k =
     (case find (\<lambda>l. layer_get l k \<noteq> None) (reached st) of
        Some l \<Rightarrow> Bound (l_id l) (the (layer_get l k))
      | None \<Rightarrow> if st = [] then NoLayer
                else Unmatched (l_id (last (reached st))) (l_unmatched (last (reached st))))"

lemma reached_Nil_iff [simp]: "reached st = [] \<longleftrightarrow> st = []"
  by (cases st) auto

lemma resolve_loop_spec:
  "st \<noteq> [] \<Longrightarrow> resolve_loop st k lst = resolve_spec st k"
proof (induction st arbitrary: lst)
  case (Cons l ls)
  show ?case
  proof (cases "ls = []")
    case True
    then show ?thesis by (auto simp: resolve_spec_def split: option.split)
  next
    case False
    then show ?thesis using Cons.IH [OF False]
      by (auto simp: resolve_spec_def split: option.split)
  qed
qed simp

lemma resolve_eq_spec: "resolve st k = resolve_spec st k"
  by (cases "st = []") (simp_all add: resolve_def resolve_loop_spec, simp add: resolve_spec_def)

text \<open>In a stack that pushes built, the layers above the one that answers have a higher rank.\<close>

lemma reached_prefix: "reached st = take (length (reached st)) st"
  by (induction st) auto

lemma reached_subset: "set (reached st) \<subseteq> set st"
  by (subst reached_prefix) (rule set_take_subset)

lemma collapse_bindings_reached: "collapse_bindings st = concat (map l_bindings (reached st))"
  by (induction st) auto

lemma last_reached:
  "st \<noteq> [] \<Longrightarrow> (case find l_sealed st of Some l \<Rightarrow> Some l | None \<Rightarrow> last_opt st) = Some (last (reached st))"
  by (induction st) (auto simp: last_opt_def split: option.splits)

lemma map_of_concat:
  "map_of (concat (map l_bindings ls)) k =
     (case find (\<lambda>l. layer_get l k \<noteq> None) ls of Some l \<Rightarrow> layer_get l k | None \<Rightarrow> None)"
  by (induction ls) (auto simp: layer_get_map_of map_add_def split: option.splits)

text \<open>Stacks as the program builds them: pushes onto the empty stack, refused ones included.\<close>

inductive built :: "('k, 'v) layer_stack \<Rightarrow> bool" where
  built_new: "built stack_new"
| built_push: "built st \<Longrightarrow> built (snd (stack_push st l))"

lemma built_ok: "built st \<Longrightarrow> stack_ok st"
proof (induction rule: built.induct)
  case built_new
  show ?case by (simp add: stack_new_def stack_ok_def)
next
  case (built_push st l)
  show ?case
  proof (cases "stack_push st l")
    case (Pair r st')
    with built_push show ?thesis
      by (cases r) (auto dest: stack_push_ok stack_push_error_same)
  qed
qed

text \<open>
  What the contract asks of resolution, without the order of the list: a layer is visible when no
  sealed layer outranks it, and the visible layer of highest rank that binds the key answers.
\<close>

definition visible :: "('k, 'v) layer_stack \<Rightarrow> ('k, 'v) layer \<Rightarrow> bool" where
  "visible st l \<longleftrightarrow> l \<in> set st \<and> (\<forall>s \<in> set st. l_sealed s \<longrightarrow> l_rank s \<le> l_rank l)"

lemma set_reached_visible:
  "sorted_wrt (\<lambda>a b. l_rank b < l_rank a) st \<Longrightarrow> l \<in> set (reached st) \<longleftrightarrow> visible st l"
proof (induction st)
  case (Cons a st)
  then show ?case
    by (auto simp: visible_def dest: leD intro: less_imp_le)
qed (simp add: visible_def)

lemma reached_sorted:
  "sorted_wrt (\<lambda>a b. l_rank b < l_rank a) st \<Longrightarrow> sorted_wrt (\<lambda>a b. l_rank b < l_rank a) (reached st)"
  by (subst reached_prefix) (rule sorted_wrt_take)

lemma find_highest:
  assumes "sorted_wrt (\<lambda>a b. l_rank b < l_rank a) ls"
  shows "find P ls = Some l \<longleftrightarrow> l \<in> set ls \<and> P l \<and> (\<forall>l' \<in> set ls. l_rank l < l_rank l' \<longrightarrow> \<not> P l')"
  using assms by (induction ls) (auto dest: less_asym)

lemma resolve_single:
  "resolve [l] k = (case layer_get l k of Some v \<Rightarrow> Bound (l_id l) v
                    | None \<Rightarrow> Unmatched (l_id l) (l_unmatched l))"
  by (simp add: resolve_def split: option.split)

lemma built_sorted: "built st \<Longrightarrow> sorted_wrt (\<lambda>a b. l_rank b < l_rank a) st"
  using built_ok by (auto simp: stack_ok_def)

lemma resolve_Bound_iff:
  assumes "built st"
  shows "resolve st k = Bound i v \<longleftrightarrow>
           (\<exists>l. visible st l \<and> l_id l = i \<and> layer_get l k = Some v
              \<and> (\<forall>l'. visible st l' \<and> l_rank l < l_rank l' \<longrightarrow> layer_get l' k = None))"
proof -
  note srt = built_sorted [OF assms]
  have "resolve st k = Bound i v \<longleftrightarrow>
      (\<exists>l. find (\<lambda>l. layer_get l k \<noteq> None) (reached st) = Some l \<and> l_id l = i \<and> layer_get l k = Some v)"
  proof (cases "find (\<lambda>l. layer_get l k \<noteq> None) (reached st)")
    case (Some l)
    then have "layer_get l k \<noteq> None" by (rule find_SomeD [THEN conjunct2])
    then show ?thesis by (auto simp: resolve_eq_spec resolve_spec_def Some simp del: not_None_eq)
  qed (simp add: resolve_eq_spec resolve_spec_def)
  also have "\<dots> \<longleftrightarrow> (\<exists>l. (visible st l \<and> layer_get l k \<noteq> None
      \<and> (\<forall>l'. visible st l' \<longrightarrow> l_rank l < l_rank l' \<longrightarrow> \<not> layer_get l' k \<noteq> None))
      \<and> l_id l = i \<and> layer_get l k = Some v)"
    unfolding find_highest [OF reached_sorted [OF srt]] Ball_def set_reached_visible [OF srt] ..
  finally show ?thesis by auto
qed

text \<open>The last layer a walk reaches is the visible one of lowest rank.\<close>

lemma lowest_visible:
  assumes "built st" and ne: "st \<noteq> []"
  shows "visible st l \<and> (\<forall>l'. visible st l' \<longrightarrow> l_rank l \<le> l_rank l') \<longleftrightarrow> l = last (reached st)"
proof -
  note srt = built_sorted [OF assms(1)]
  note vis = set_reached_visible [OF srt, symmetric]
  have split: "reached st = butlast (reached st) @ [last (reached st)]" using ne by simp
  have above: "l_rank (last (reached st)) < l_rank x" if "x \<in> set (butlast (reached st))" for x
    using reached_sorted [OF srt] that by (subst (asm) split) (simp add: sorted_wrt_append)
  have cases: "x = last (reached st) \<or> x \<in> set (butlast (reached st))" if "x \<in> set (reached st)" for x
    using that by (subst (asm) split) auto
  have mem: "last (reached st) \<in> set (reached st)" using ne by simp
  show ?thesis unfolding vis using above cases mem
    by (metis leD less_imp_le order_refl)
qed

lemma resolve_Unmatched_iff:
  assumes "built st"
  shows "resolve st k = Unmatched i p \<longleftrightarrow>
           (\<forall>l. visible st l \<longrightarrow> layer_get l k = None)
           \<and> (\<exists>l. visible st l \<and> l_id l = i \<and> l_unmatched l = p \<and> (\<forall>l'. visible st l' \<longrightarrow> l_rank l \<le> l_rank l'))"
proof (cases "st = []")
  case True
  then show ?thesis by (simp add: resolve_def visible_def)
next
  case False
  have none: "find (\<lambda>l. layer_get l k \<noteq> None) (reached st) = None \<longleftrightarrow>
       (\<forall>l. visible st l \<longrightarrow> layer_get l k = None)"
    by (auto simp: find_None_iff set_reached_visible [OF built_sorted [OF assms]])
  have "(\<exists>l. visible st l \<and> l_id l = i \<and> l_unmatched l = p \<and> (\<forall>l'. visible st l' \<longrightarrow> l_rank l \<le> l_rank l'))
     \<longleftrightarrow> l_id (last (reached st)) = i \<and> l_unmatched (last (reached st)) = p"
    using lowest_visible [OF assms False] by metis
  moreover have "resolve st k = Unmatched i p \<longleftrightarrow> find (\<lambda>l. layer_get l k \<noteq> None) (reached st) = None
     \<and> l_id (last (reached st)) = i \<and> l_unmatched (last (reached st)) = p"
    using False by (simp add: resolve_eq_spec resolve_spec_def split: option.split)
  ultimately show ?thesis using none by simp
qed

lemma resolve_NoLayer_iff: "resolve st k = NoLayer \<longleftrightarrow> st = []"
  by (auto simp: resolve_eq_spec resolve_spec_def split: option.split)

lemma sorted_ranks_unique:
  assumes "sorted_wrt (\<lambda>a b. l_rank b < l_rank a) xs" "sorted_wrt (\<lambda>a b. l_rank b < l_rank a) ys"
    and "set xs = set ys"
  shows "xs = ys"
  using assms
proof (induction xs arbitrary: ys)
  case (Cons a xs)
  then obtain b ys' where ys: "ys = b # ys'" by (cases ys) auto
  have "a \<in> set ys" "b \<in> set (a # xs)" using Cons.prems(3) ys by auto
  then have "a = b" using Cons.prems(1,2) ys by (auto dest: less_asym)
  moreover have "a \<notin> set xs" "b \<notin> set ys'" using Cons.prems(1,2) ys by auto
  ultimately have "set xs = set ys'" using Cons.prems(3) ys by (metis insert_ident list.set(2))
  with Cons ys \<open>a = b\<close> show ?case by simp
qed simp

section \<open>The properties\<close>

text \<open>Pushing keeps the stack strictly sorted by falling rank with distinct names; it succeeds
  exactly when rank and name are new, then adding that layer and no other; a refused push changes
  nothing and names the layers in conflict.\<close>

theorem push_keeps_order:
  assumes "built st"
  shows "stack_ok st
    \<and> (fst (stack_push st l) = Inr () \<longleftrightarrow> l_rank l \<notin> l_rank ` set st \<and> l_id l \<notin> l_id ` set st)
    \<and> (fst (stack_push st l) = Inr () \<longrightarrow> mset (snd (stack_push st l)) = add_mset l (mset st))
    \<and> (fst (stack_push st l) \<noteq> Inr () \<longrightarrow> snd (stack_push st l) = st)
    \<and> (\<forall>r a b. fst (stack_push st l) = Inl (DuplicateRank r a b) \<longrightarrow>
         b = l_id l \<and> r = l_rank l \<and> (\<exists>x \<in> set st. l_id x = a \<and> l_rank x = r))"
proof -
  have dup: "b = l_id l \<and> r = l_rank l \<and> (\<exists>x \<in> set st. l_id x = a \<and> l_rank x = r)"
    if "fst (stack_push st l) = Inl (DuplicateRank r a b)" for r a b
    using that by (auto simp: stack_push_def Let_def find_Some_iff split: option.splits if_splits)
  have ok: "mset (snd (stack_push st l)) = add_mset l (mset st)" if "fst (stack_push st l) = Inr ()"
    using stack_push_ok [OF built_ok [OF assms], of l "snd (stack_push st l)"] that
    by (simp add: prod_eq_iff)
  have same: "snd (stack_push st l) = st" if "fst (stack_push st l) \<noteq> Inr ()"
    using that stack_push_error_same [of st l _ "snd (stack_push st l)"]
    by (cases "fst (stack_push st l)") (auto simp: prod_eq_iff)
  show ?thesis
    using built_ok [OF assms] stack_push_error_iff [of st l] dup ok same by blast
qed

text \<open>
  C22: Resolution is declared, not decided by insertion order: in every stack built by pushes a
  key is bound exactly to what the visible layer of highest rank binds it to, a miss reports the
  policy of the lowest visible layer, and two stacks of the same layers, pushed in any order, are
  the same stack.\<close>

theorem resolution_declared:
  assumes "built st"
  shows "(resolve st k = Bound i v \<longleftrightarrow>
           (\<exists>l. visible st l \<and> l_id l = i \<and> layer_get l k = Some v
              \<and> (\<forall>l'. visible st l' \<and> l_rank l < l_rank l' \<longrightarrow> layer_get l' k = None)))
    \<and> (resolve st k = Unmatched i p \<longleftrightarrow>
           (\<forall>l. visible st l \<longrightarrow> layer_get l k = None)
           \<and> (\<exists>l. visible st l \<and> l_id l = i \<and> l_unmatched l = p
                \<and> (\<forall>l'. visible st l' \<longrightarrow> l_rank l \<le> l_rank l')))
    \<and> (resolve st k = NoLayer \<longleftrightarrow> st = [])
    \<and> (\<forall>st'. built st' \<and> set st' = set st \<longrightarrow> st' = st)"
proof (intro conjI)
  show "\<forall>st'. built st' \<and> set st' = set st \<longrightarrow> st' = st"
    using sorted_ranks_unique [OF built_sorted built_sorted [OF assms]] by blast
qed (rule resolve_Bound_iff [OF assms] resolve_Unmatched_iff [OF assms] resolve_NoLayer_iff)+

text \<open>What a key does: the value it runs or the policy a miss meets; the layer name is left out.\<close>

fun outcome :: "'v resolved_key \<Rightarrow> 'v + unmatched_key option" where
  "outcome (Bound i v) = Inl v"
| "outcome (Unmatched i p) = Inr (Some p)"
| "outcome NoLayer = Inr None"

text \<open>A collapsed stack resolves every key as the stack does: to the same value, or, on a miss,
  to the same policy. Only the empty stack differs: it resolves to no layer at all, its collapse
  to a layer that ignores.\<close>

theorem collapse_equivalent:
  fixes st :: "('k, 'v) layer_stack"
  shows "(st \<noteq> [] \<longrightarrow> outcome (resolve [collapse st i] k) = outcome (resolve st k))
   \<and> (st = [] \<longrightarrow> resolve st k = NoLayer \<and> resolve [collapse st i] k = Unmatched i Ignore)"
proof (intro conjI impI)
  assume ne: "st \<noteq> []"
  have get: "layer_get (collapse st i) k =
      (case find (\<lambda>l. layer_get l k \<noteq> None) (reached st) of Some l \<Rightarrow> layer_get l k | None \<Rightarrow> None)"
    by (simp add: layer_get_map_of collapse_def Let_def collapse_bindings_reached map_of_concat
        split: prod.split)
  have seal: "l_sealed (collapse st i)" "l_unmatched (collapse st i) = l_unmatched (last (reached st))"
    by (simp_all add: collapse_def last_reached [OF ne] layer_new_def)
  show "outcome (resolve [collapse st i] k) = outcome (resolve st k)"
  proof (cases "find (\<lambda>l. layer_get l k \<noteq> None) (reached st)")
    case (Some l)
    then obtain v where "layer_get l k = Some v" by (auto dest: find_SomeD)
    then show ?thesis using Some
      by (simp add: resolve_eq_spec [of st] resolve_spec_def resolve_single get del: not_None_eq)
  next
    case None
    then show ?thesis using seal ne
      by (simp add: resolve_eq_spec [of st] resolve_spec_def resolve_single get)
  qed
qed (simp_all add: resolve_def collapse_def layer_get_def layer_new_def last_opt_def)

lemma shadow_loop_Nil_iff:
  "shadow_loop dbg is_prefix aboves st = [] \<longleftrightarrow>
     (\<forall>i < length st. \<forall>(k, v) \<in> set (l_bindings (st ! i)). is_prefix v \<longrightarrow>
        (\<forall>a \<in> set aboves \<union> set (take i st). \<not> plain_in is_prefix a k))"
proof (induction st arbitrary: aboves)
  case (Cons l st)
  let ?P = "\<lambda>as b. is_prefix (snd b) \<longrightarrow> (\<forall>a \<in> as. \<not> plain_in is_prefix a (fst b))"
  have here: "concat (map (\<lambda>(k, v). if \<not> is_prefix v then []
                 else map (msg_shadow dbg l k) (filter (\<lambda>a. plain_in is_prefix a k) aboves))
            (l_bindings l)) = [] \<longleftrightarrow> (\<forall>b \<in> set (l_bindings l). ?P (set aboves) b)"
    by (auto simp: filter_empty_conv split: if_splits)
  have rest: "shadow_loop dbg is_prefix (aboves @ [l]) st = [] \<longleftrightarrow>
      (\<forall>i < length st. \<forall>b \<in> set (l_bindings (st ! i)). ?P (insert l (set aboves \<union> set (take i st))) b)"
    unfolding Cons.IH by (simp add: split_beta)
  show ?case
    unfolding shadow_loop.simps append_is_Nil_conv here rest
    by (simp add: All_less_Suc2 split_beta)
qed simp

lemma conflicts_Nil_iff:
  "conflicts dbg st is_prefix = [] \<longleftrightarrow>
     (\<forall>l \<in> set st. distinct (map fst (l_bindings l)))
     \<and> (\<forall>i < length st. \<forall>(k, v) \<in> set (l_bindings (st ! i)). is_prefix v \<longrightarrow>
          (\<forall>j < i. \<forall>w. layer_get (st ! j) k = Some w \<longrightarrow> is_prefix w))"
proof -
  have "(\<forall>a \<in> set (take i st). \<not> plain_in is_prefix a k)
      \<longleftrightarrow> (\<forall>j < i. \<forall>w. layer_get (st ! j) k = Some w \<longrightarrow> is_prefix w)" if "i < length st" for i k
    using that by (fastforce simp: in_set_conv_nth plain_in_def split: option.splits)
  then show ?thesis
    by (simp add: conflicts_def shadow_loop_Nil_iff duplicate_keys_def duplicate_loop_Nil_iff
        split_beta)
qed

lemma resolve_first_binding:
  assumes "i < length st" and "\<forall>j < i. \<not> l_sealed (st ! j)" and "layer_get (st ! i) k \<noteq> None"
  shows "\<exists>j \<le> i. \<exists>v. layer_get (st ! j) k = Some v \<and> resolve_loop st k lst = Bound (l_id (st ! j)) v"
  using assms
proof (induction st arbitrary: i lst)
  case (Cons l st)
  show ?case
  proof (cases "layer_get l k")
    case None
    then obtain i' where i': "i = Suc i'" using Cons.prems by (cases i) auto
    with Cons.prems None have "\<not> l_sealed l" "i' < length st" "\<forall>j < i'. \<not> l_sealed (st ! j)"
      "layer_get (st ! i') k \<noteq> None"
      by (auto simp: All_less_Suc2)
    with Cons.IH [of i' "Some l"] obtain j v where "j \<le> i'" "layer_get (st ! j) k = Some v"
      "resolve_loop st k (Some l) = Bound (l_id (st ! j)) v" by blast
    then show ?thesis
      unfolding i' using None \<open>\<not> l_sealed l\<close> by (intro exI [of _ "Suc j"]) simp
  qed (auto intro!: exI [of _ 0])
qed simp

text \<open>A clean static check means what it promises: the check reports nothing exactly when no
  layer binds a key twice and no prefix key is bound to a plain value in a layer above; and then
  every prefix key of a layer the walk reaches resolves to a prefix, so no key sequence under it
  is unreachable.\<close>

theorem clean_check_prefixes_reachable:
  "(conflicts dbg st is_prefix = [] \<longleftrightarrow>
      (\<forall>l \<in> set st. distinct (map fst (l_bindings l)))
      \<and> (\<forall>i < length st. \<forall>(k, v) \<in> set (l_bindings (st ! i)). is_prefix v \<longrightarrow>
           (\<forall>j < i. \<forall>w. layer_get (st ! j) k = Some w \<longrightarrow> is_prefix w)))
   \<and> (conflicts dbg st is_prefix = [] \<and> i < length st \<and> (\<forall>j < i. \<not> l_sealed (st ! j))
        \<and> (k, v) \<in> set (l_bindings (st ! i)) \<and> is_prefix v
      \<longrightarrow> (\<exists>n w. resolve st k = Bound n w \<and> is_prefix w))"
proof (intro conjI impI)
  assume "conflicts dbg st is_prefix = [] \<and> i < length st \<and> (\<forall>j < i. \<not> l_sealed (st ! j))
        \<and> (k, v) \<in> set (l_bindings (st ! i)) \<and> is_prefix v"
  then have clean: "conflicts dbg st is_prefix = []" and i: "i < length st"
    and open': "\<forall>j < i. \<not> l_sealed (st ! j)" and kv: "(k, v) \<in> set (l_bindings (st ! i))"
    and v: "is_prefix v" by simp_all
  have "distinct (map fst (l_bindings (st ! i)))"
    using clean i by (simp add: conflicts_Nil_iff)
  then have get: "layer_get (st ! i) k = Some v"
    using kv by (simp add: layer_get_map_of)
  have above: "\<forall>j < i. \<forall>w. layer_get (st ! j) k = Some w \<longrightarrow> is_prefix w"
    using clean i kv v by (fastforce simp: conflicts_Nil_iff)
  obtain j w where "j \<le> i" "layer_get (st ! j) k = Some w" "resolve st k = Bound (l_id (st ! j)) w"
    using resolve_first_binding [OF i open', of k None] get by (auto simp: resolve_def)
  moreover have "is_prefix w"
    using calculation(1,2) above get v by (cases "j = i") (simp_all add: order_le_less)
  ultimately show "\<exists>n w. resolve st k = Bound n w \<and> is_prefix w" by blast
qed (rule conflicts_Nil_iff)

subsection \<open>Concrete stacks\<close>

text \<open>An override layer above a sealed base; keys and commands are characters.\<close>

definition demo_over :: "(char, char) layer" where
  "demo_over = bind_key (layer_new ''over'' 20 False Abort) (CHR ''x'') (CHR ''p'')"

definition demo_base :: "(char, char) layer" where
  "demo_base = bind_key (bind_key (layer_new ''base'' 10 True Ignore) (CHR ''x'') (CHR ''p'')) (CHR ''y'') (CHR ''q'')"

definition demo_stack :: "(char, char) layer_stack" where
  "demo_stack = snd (stack_push (snd (stack_push stack_new demo_base)) demo_over)"

lemma demo_built: "built demo_stack"
  unfolding demo_stack_def by (intro built.intros)

lemma demo_stack_eq: "demo_stack = [demo_over, demo_base]"
  by (simp add: demo_stack_def stack_push_def stack_new_def demo_over_def demo_base_def
      bind_key_def layer_new_def)

lemmas demo_simps = demo_over_def demo_base_def bind_key_def layer_new_def

theorem push_keeps_order_witness:
  "stack_ok demo_stack \<and> snd (stack_push demo_stack demo_base) = demo_stack
   \<and> fst (stack_push demo_stack demo_base) \<noteq> Inr ()"
proof -
  have "fst (stack_push demo_stack demo_base) \<noteq> Inr ()"
    by (simp add: demo_stack_eq stack_push_def demo_simps)
  then show ?thesis
    using push_keeps_order [OF demo_built, of demo_base] by blast
qed

theorem resolution_declared_witness:
  "resolve demo_stack (CHR ''y'') = Bound ''base'' (CHR ''q'')
   \<and> (\<exists>l. visible demo_stack l \<and> l_id l = ''base'' \<and> layer_get l (CHR ''y'') = Some (CHR ''q''))"
proof -
  have r: "resolve demo_stack (CHR ''y'') = Bound ''base'' (CHR ''q'')"
    by (simp add: demo_stack_eq resolve_def layer_get_def demo_simps)
  then show ?thesis
    using resolution_declared [OF demo_built, of "CHR ''y''" "''base''" "CHR ''q''"] by blast
qed

theorem collapse_equivalent_witness:
  "outcome (resolve [collapse demo_stack ''one''] (CHR ''z'')) = Inr (Some Ignore)"
proof -
  have "resolve demo_stack (CHR ''z'') = Unmatched ''base'' Ignore" "demo_stack \<noteq> []"
    by (simp_all add: demo_stack_eq resolve_def layer_get_def demo_simps)
  then show ?thesis
    using collapse_equivalent [of demo_stack "''one''" "CHR ''z''"] by simp
qed

theorem clean_check_prefixes_reachable_witness:
  "conflicts (\<lambda>c. [c]) demo_stack (\<lambda>v. v = CHR ''p'') = []
   \<and> (\<exists>n w. resolve demo_stack (CHR ''x'') = Bound n w \<and> w = CHR ''p'')"
proof -
  have c: "conflicts (\<lambda>c. [c]) demo_stack (\<lambda>v. v = CHR ''p'') = []"
    by (simp add: demo_stack_eq conflicts_def duplicate_keys_def plain_in_def layer_get_def demo_simps)
  show ?thesis
    using clean_check_prefixes_reachable [of "\<lambda>c. [c]" demo_stack "\<lambda>v. v = CHR ''p''" 1 "CHR ''x''" "CHR ''p''"] c
    by (simp add: demo_stack_eq demo_simps)
qed

end
