(* ===== verification/Registers.thy ===== *)
theory Registers
  imports Prelude
begin

text \<open>
  The register store of \<^verbatim>\<open>crates/core/src/register.rs\<close>: registers with their paste geometry, the
  slots of the store, and every operation that reads or writes them. A register name is an
  optional character, given by its code point.
\<close>

section \<open>Registers\<close>

datatype reg_kind = Charwise | Linewise | Blockwise

record register =
  r_text :: bytes
  r_kind :: reg_kind
  r_width :: nat
  r_set :: bool

definition reg_default :: register where
  "reg_default = \<lparr>r_text = [], r_kind = Charwise, r_width = 0, r_set = False\<rparr>"

definition charwise :: "bytes \<Rightarrow> register" where
  "charwise t = \<lparr>r_text = t, r_kind = Charwise, r_width = 0, r_set = True\<rparr>"

definition linewise :: "bytes \<Rightarrow> register" where
  "linewise t =
     (let t' = (if last_opt t \<noteq> Some newline then t @ [newline] else t)
      in \<lparr>r_text = t', r_kind = Linewise, r_width = 0, r_set = True\<rparr>)"

definition blockwise_width :: "bytes \<Rightarrow> nat \<Rightarrow> register" where
  "blockwise_width t w = \<lparr>r_text = t, r_kind = Blockwise, r_width = w, r_set = True\<rparr>"

definition is_linewise :: "register \<Rightarrow> bool" where
  "is_linewise r \<longleftrightarrow> r_kind r = Linewise"

definition reg_is_empty :: "register \<Rightarrow> bool" where
  "reg_is_empty r \<longleftrightarrow> r_text r = []"

definition append_reg :: "register \<Rightarrow> register \<Rightarrow> register" where
  "append_reg existing add =
     (if reg_is_empty existing then add
      else
        let bytes = (if is_linewise existing then r_text existing @ r_text add
                     else if is_linewise add then r_text existing @ [newline] @ r_text add
                     else r_text existing @ r_text add)
        in if is_linewise existing \<or> is_linewise add then linewise bytes else charwise bytes)"

section \<open>The store\<close>

type_synonym reg_name = "nat option"

record special_registers =
  s_search :: register
  s_last_ex :: register
  s_inserted :: register
  s_file :: register
  s_alternate :: register

record register_store =
  rs_unnamed :: register
  rs_unnamed_from :: "nat option"
  rs_named :: "register list"
  rs_yank0 :: register
  rs_numbered :: "register list"
  rs_small_delete :: register
  rs_blackhole :: register
  rs_clipboard :: register
  rs_expr :: register
  rs_special :: special_registers

definition special_default :: special_registers where
  "special_default = \<lparr>s_search = reg_default, s_last_ex = reg_default, s_inserted = reg_default,
     s_file = reg_default, s_alternate = reg_default\<rparr>"

definition registers_new :: register_store where
  "registers_new = \<lparr>rs_unnamed = reg_default, rs_unnamed_from = None,
     rs_named = replicate 26 reg_default, rs_yank0 = reg_default,
     rs_numbered = replicate 9 reg_default, rs_small_delete = reg_default,
     rs_blackhole = reg_default, rs_clipboard = reg_default, rs_expr = reg_default,
     rs_special = special_default\<rparr>"

subsection \<open>Names\<close>

abbreviation "ch_quote \<equiv> (34 :: nat)"
abbreviation "ch_hash \<equiv> (35 :: nat)"
abbreviation "ch_percent \<equiv> (37 :: nat)"
abbreviation "ch_star \<equiv> (42 :: nat)"
abbreviation "ch_plus \<equiv> (43 :: nat)"
abbreviation "ch_minus \<equiv> (45 :: nat)"
abbreviation "ch_dot \<equiv> (46 :: nat)"
abbreviation "ch_slash \<equiv> (47 :: nat)"
abbreviation "ch_0 \<equiv> (48 :: nat)"
abbreviation "ch_1 \<equiv> (49 :: nat)"
abbreviation "ch_9 \<equiv> (57 :: nat)"
abbreviation "ch_colon \<equiv> (58 :: nat)"
abbreviation "ch_equals \<equiv> (61 :: nat)"
abbreviation "ch_upper_A \<equiv> (65 :: nat)"
abbreviation "ch_upper_Z \<equiv> (90 :: nat)"
abbreviation "ch_underscore \<equiv> (95 :: nat)"
abbreviation "ch_a \<equiv> (97 :: nat)"
abbreviation "ch_z \<equiv> (122 :: nat)"

definition is_ascii_digit :: "nat \<Rightarrow> bool" where
  "is_ascii_digit c \<longleftrightarrow> ch_0 \<le> c \<and> c \<le> ch_9"

definition is_ascii_uppercase :: "nat \<Rightarrow> bool" where
  "is_ascii_uppercase c \<longleftrightarrow> ch_upper_A \<le> c \<and> c \<le> ch_upper_Z"

definition is_ascii_lowercase :: "nat \<Rightarrow> bool" where
  "is_ascii_lowercase c \<longleftrightarrow> ch_a \<le> c \<and> c \<le> ch_z"

definition to_ascii_lowercase :: "nat \<Rightarrow> nat" where
  "to_ascii_lowercase c = (if is_ascii_uppercase c then c + 32 else c)"

definition is_writable :: "reg_name \<Rightarrow> bool" where
  "is_writable name =
     (case name of None \<Rightarrow> True
      | Some c \<Rightarrow> is_ascii_digit c \<or> is_ascii_uppercase c \<or> is_ascii_lowercase c
          \<or> c \<in> {ch_quote, ch_minus, ch_underscore, ch_hash, ch_plus, ch_star})"

definition reg_index :: "nat \<Rightarrow> nat option" where
  "reg_index c =
     (if is_ascii_uppercase c \<or> is_ascii_lowercase c then Some (to_ascii_lowercase c - ch_a) else None)"

definition is_clipboard :: "reg_name \<Rightarrow> bool" where
  "is_clipboard name \<longleftrightarrow> name = Some ch_plus \<or> name = Some ch_star"

definition is_slot :: "reg_name \<Rightarrow> bool" where
  "is_slot name =
     (case name of None \<Rightarrow> True
      | Some c \<Rightarrow> is_ascii_digit c \<or> is_ascii_lowercase c
          \<or> c \<in> {ch_quote, ch_minus, ch_plus, ch_star, ch_slash, ch_colon, ch_dot, ch_percent, ch_hash})"

subsection \<open>Writing one slot\<close>

definition by_newline :: "bytes \<Rightarrow> register" where
  "by_newline t = (if last_opt t = Some newline then linewise t else charwise t)"

definition set_clipboard_from_external :: "register_store \<Rightarrow> bytes \<Rightarrow> register_store" where
  "set_clipboard_from_external s t =
     (if r_text (rs_clipboard s) = t then s else s\<lparr>rs_clipboard := by_newline t\<rparr>)"

definition set_slot :: "register_store \<Rightarrow> reg_name \<Rightarrow> register \<Rightarrow> bool \<times> register_store" where
  "set_slot s name r =
     (case name of
        None \<Rightarrow> (True, s\<lparr>rs_unnamed := r\<rparr>)
      | Some c \<Rightarrow>
          if c = ch_quote then (True, s\<lparr>rs_unnamed := r\<rparr>)
          else if c = ch_0 then (True, s\<lparr>rs_yank0 := r\<rparr>)
          else if ch_1 \<le> c \<and> c \<le> ch_9 then (True, s\<lparr>rs_numbered := (rs_numbered s)[c - ch_1 := r]\<rparr>)
          else if ch_a \<le> c \<and> c \<le> ch_z then (True, s\<lparr>rs_named := (rs_named s)[c - ch_a := r]\<rparr>)
          else if c = ch_minus then (True, s\<lparr>rs_small_delete := r\<rparr>)
          else if c = ch_plus \<or> c = ch_star then (True, s\<lparr>rs_clipboard := r\<rparr>)
          else if c = ch_slash then (True, s\<lparr>rs_special := (rs_special s)\<lparr>s_search := r\<rparr>\<rparr>)
          else if c = ch_colon then (True, s\<lparr>rs_special := (rs_special s)\<lparr>s_last_ex := r\<rparr>\<rparr>)
          else if c = ch_dot then (True, s\<lparr>rs_special := (rs_special s)\<lparr>s_inserted := r\<rparr>\<rparr>)
          else if c = ch_percent then (True, s\<lparr>rs_special := (rs_special s)\<lparr>s_file := r\<rparr>\<rparr>)
          else if c = ch_hash then (True, s\<lparr>rs_special := (rs_special s)\<lparr>s_alternate := r\<rparr>\<rparr>)
          else (False, s))"

definition filled :: "register_store \<Rightarrow> (reg_name \<times> register) list" where
  "filled s =
     filter (\<lambda>(n, r). r_set r)
       ([(None, rs_unnamed s)]
        @ [(Some ch_0, rs_yank0 s)]
        @ zip (map Some [ch_1..<Suc ch_9]) (rs_numbered s)
        @ [(Some ch_minus, rs_small_delete s)]
        @ zip (map Some [ch_a..<Suc ch_z]) (rs_named s))"

definition set_expr :: "register_store \<Rightarrow> bytes \<Rightarrow> register_store" where
  "set_expr s t = s\<lparr>rs_expr := by_newline t\<rparr>"

definition or_default :: "bytes option \<Rightarrow> bytes" where
  "or_default t = (case t of Some b \<Rightarrow> b | None \<Rightarrow> [])"

definition set_special :: "register_store \<Rightarrow> bytes option \<Rightarrow> bytes option \<Rightarrow> bytes option
    \<Rightarrow> bytes option \<Rightarrow> register_store" where
  "set_special s search last_ex inserted file =
     s\<lparr>rs_special := (rs_special s)\<lparr>s_search := charwise (or_default search),
        s_last_ex := charwise (or_default last_ex), s_inserted := charwise (or_default inserted),
        s_file := charwise (or_default file)\<rparr>\<rparr>"

definition set_alternate :: "register_store \<Rightarrow> bytes option \<Rightarrow> register_store" where
  "set_alternate s name =
     s\<lparr>rs_special := (rs_special s)\<lparr>s_alternate := charwise (or_default name)\<rparr>\<rparr>"

subsection \<open>Reading\<close>

definition reg_get :: "register_store \<Rightarrow> reg_name \<Rightarrow> register" where
  "reg_get s name =
     (case name of
        None \<Rightarrow> rs_unnamed s
      | Some c \<Rightarrow>
          if c = ch_0 then rs_yank0 s
          else if ch_1 \<le> c \<and> c \<le> ch_9 then rs_numbered s ! (c - ch_1)
          else if c = ch_minus then rs_small_delete s
          else if c = ch_underscore then rs_blackhole s
          else if c = ch_plus \<or> c = ch_star then rs_clipboard s
          else if c = ch_equals then rs_expr s
          else if c = ch_slash then s_search (rs_special s)
          else if c = ch_colon then s_last_ex (rs_special s)
          else if c = ch_dot then s_inserted (rs_special s)
          else if c = ch_percent then s_file (rs_special s)
          else if c = ch_hash then s_alternate (rs_special s)
          else if c = ch_quote then rs_unnamed s
          else (case reg_index c of Some i \<Rightarrow> rs_named s ! i | None \<Rightarrow> rs_blackhole s))"

definition numbered_slot :: "register_store \<Rightarrow> nat \<Rightarrow> register option" where
  "numbered_slot s n = (if 1 \<le> n \<and> n \<le> 9 then Some (rs_numbered s ! (n - 1)) else None)"

subsection \<open>Yanks, deletes and macros\<close>

definition into_named :: "register_store \<Rightarrow> nat \<Rightarrow> nat \<Rightarrow> register \<Rightarrow> register_store" where
  "into_named s c i r =
     s\<lparr>rs_named := (rs_named s)[i := (if is_ascii_uppercase c then append_reg (rs_named s ! i) r else r)]\<rparr>"

definition write_reg :: "register_store \<Rightarrow> reg_name \<Rightarrow> register \<Rightarrow> register_store" where
  "write_reg s0 name r =
     (if \<not> is_writable name \<or> name = Some ch_underscore then s0
      else
        let s = s0\<lparr>rs_unnamed_from := Option.bind name reg_index\<rparr>
        in case name of
             None \<Rightarrow> s\<lparr>rs_unnamed := r\<rparr>
           | Some c \<Rightarrow>
               if c = ch_quote then s\<lparr>rs_unnamed := r\<rparr>
               else if c = ch_0 \<or> c = ch_hash then s\<lparr>rs_yank0 := r, rs_unnamed := r\<rparr>
               else if ch_1 \<le> c \<and> c \<le> ch_9 then
                 (let s' = s\<lparr>rs_numbered := (rs_numbered s)[c - ch_1 := r]\<rparr>
                  in s'\<lparr>rs_unnamed := rs_numbered s' ! (c - ch_1)\<rparr>)
               else if c = ch_minus then s\<lparr>rs_small_delete := r, rs_unnamed := r\<rparr>
               else if c = ch_plus \<or> c = ch_star then s\<lparr>rs_clipboard := r, rs_unnamed := r\<rparr>
               else (case reg_index c of
                       Some i \<Rightarrow> (let s' = into_named s c i r in s'\<lparr>rs_unnamed := rs_named s' ! i\<rparr>)
                     | None \<Rightarrow> s))"

definition shift_ring :: "register \<Rightarrow> register list \<Rightarrow> register list" where
  "shift_ring r ns = (rotate (length ns - 1) ns)[0 := r]"

definition delete_ring :: "register_store \<Rightarrow> reg_name \<Rightarrow> register \<Rightarrow> bool \<Rightarrow> register_store" where
  "delete_ring s name r ring_one =
     (if \<not> is_writable name \<or> name = Some ch_underscore then s
      else
        let multiline = (is_linewise r \<or> newline \<in> set (r_text r));
            small = (name = None \<and> \<not> multiline);
            s1 = (if name \<noteq> None then write_reg s name r else s);
            s2 = (if multiline \<or> ring_one
                  then (let s' = s1\<lparr>rs_numbered := shift_ring r (rs_numbered s1)\<rparr>
                        in if \<not> (case name of Some c \<Rightarrow> is_ascii_uppercase c | None \<Rightarrow> False)
                           then s'\<lparr>rs_unnamed := rs_numbered s' ! 0, rs_unnamed_from := None\<rparr> else s')
                  else s1);
            s3 = (if small then s2\<lparr>rs_small_delete := r\<rparr> else s2)
        in if name = None then s3\<lparr>rs_unnamed := r, rs_unnamed_from := None\<rparr> else s3)"

definition delete_reg :: "register_store \<Rightarrow> reg_name \<Rightarrow> register \<Rightarrow> register_store" where
  "delete_reg s name r = delete_ring s name r False"

definition set_macro :: "register_store \<Rightarrow> reg_name \<Rightarrow> register \<Rightarrow> register_store" where
  "set_macro s name r =
     (case name of
        None \<Rightarrow> s
      | Some c \<Rightarrow>
          if c = ch_quote then s\<lparr>rs_yank0 := r, rs_unnamed := r, rs_unnamed_from := None\<rparr>
          else if c = ch_0 then s\<lparr>rs_yank0 := r\<rparr>
          else if ch_1 \<le> c \<and> c \<le> ch_9 then s\<lparr>rs_numbered := (rs_numbered s)[c - ch_1 := r]\<rparr>
          else (case reg_index c of
                  Some i \<Rightarrow>
                    (let s' = into_named s c i r
                     in if rs_unnamed_from s' = Some i then s'\<lparr>rs_unnamed := rs_named s' ! i\<rparr> else s')
                | None \<Rightarrow> s))"

definition yank_reg :: "register_store \<Rightarrow> reg_name \<Rightarrow> register \<Rightarrow> register_store" where
  "yank_reg s name r = write_reg (if name = None then s\<lparr>rs_yank0 := r\<rparr> else s) name r"

definition kill_append :: "register_store \<Rightarrow> register \<Rightarrow> register_store" where
  "kill_append s r = s\<lparr>rs_unnamed := append_reg (rs_unnamed s) r\<rparr>"

definition kill_prepend :: "register_store \<Rightarrow> register \<Rightarrow> register_store" where
  "kill_prepend s r = s\<lparr>rs_unnamed := append_reg r (rs_unnamed s)\<rparr>"

end
