(* ===== verification/Register_Laws.thy ===== *)
theory Register_Laws
  imports Registers
begin

text \<open>
  The laws of the register store: its invariant, the abstract register file it refines, the
  delete ring and the yank register as histories, and the round trip of a trace's register
  records.
\<close>

section \<open>The invariant of the store\<close>

text \<open>
  A register is well formed when linewise content ends in a newline, only a block has a width and
  a register never written is the default one.
\<close>

definition reg_ok :: "register \<Rightarrow> bool" where
  "reg_ok r \<longleftrightarrow> (r_kind r = Linewise \<longrightarrow> last_opt (r_text r) = Some newline)
     \<and> (r_kind r \<noteq> Blockwise \<longrightarrow> r_width r = 0) \<and> (\<not> r_set r \<longrightarrow> r = reg_default)"

definition store_shape :: "register_store \<Rightarrow> bool" where
  "store_shape s \<longleftrightarrow> length (rs_named s) = 26 \<and> length (rs_numbered s) = 9"

definition special_regs :: "special_registers \<Rightarrow> register set" where
  "special_regs sp = {s_search sp, s_last_ex sp, s_inserted sp, s_file sp, s_alternate sp}"

definition registers_ok :: "register_store \<Rightarrow> bool" where
  "registers_ok s \<longleftrightarrow> store_shape s
     \<and> (\<forall>r \<in> {rs_unnamed s, rs_yank0 s, rs_small_delete s, rs_clipboard s, rs_expr s}
             \<union> set (rs_named s) \<union> set (rs_numbered s) \<union> special_regs (rs_special s). reg_ok r)
     \<and> rs_blackhole s = reg_default
     \<and> (\<forall>i. rs_unnamed_from s = Some i \<longrightarrow> i < 26)"

lemma reg_ok_default [simp]: "reg_ok reg_default"
  by (simp add: reg_ok_def reg_default_def)

lemma reg_ok_charwise [simp]: "reg_ok (charwise t)"
  by (simp add: reg_ok_def charwise_def)

lemma reg_ok_linewise [simp]: "reg_ok (linewise t)"
  by (simp add: reg_ok_def linewise_def Let_def last_opt_def)

lemma reg_ok_blockwise_width [simp]: "reg_ok (blockwise_width t w)"
  by (simp add: reg_ok_def blockwise_width_def)

lemma reg_ok_by_newline [simp]: "reg_ok (by_newline t)"
  by (simp add: by_newline_def)

lemma reg_ok_append [simp]: "reg_ok a \<Longrightarrow> reg_ok b \<Longrightarrow> reg_ok (append_reg a b)"
  by (simp add: append_reg_def Let_def)

lemma reg_index_less [simp]: "reg_index c = Some i \<Longrightarrow> i < 26"
  by (auto simp: reg_index_def is_ascii_uppercase_def is_ascii_lowercase_def to_ascii_lowercase_def
      split: if_splits)

lemma bind_reg_index_less: "Option.bind n reg_index = Some i \<Longrightarrow> i < 26"
  by (auto simp: bind_eq_Some_conv)

lemma shift_ring_eq: "ns \<noteq> [] \<Longrightarrow> shift_ring r ns = r # butlast ns"
  by (cases ns rule: rev_cases) (simp_all add: shift_ring_def rotate_append)

lemma set_butlast_subset: "set (butlast xs) \<subseteq> set xs"
  by (auto dest: in_set_butlastD)

lemma registers_ok_new: "registers_ok registers_new"
  by (auto simp: registers_ok_def store_shape_def registers_new_def special_default_def special_regs_def)

lemmas registers_ok_simps = registers_ok_def store_shape_def special_regs_def

lemma named_nth_ok: "registers_ok s \<Longrightarrow> i < 26 \<Longrightarrow> reg_ok (rs_named s ! i)"
  by (auto simp: registers_ok_simps)

lemma numbered_ne: "store_shape s \<Longrightarrow> rs_numbered s \<noteq> []"
  by (auto simp: store_shape_def)

text \<open>One lemma per field: setting it to a well-formed value keeps the invariant.\<close>

lemma registers_ok_updates:
  assumes "registers_ok s" and "reg_ok r"
  shows "registers_ok (s\<lparr>rs_unnamed := r\<rparr>)" "registers_ok (s\<lparr>rs_yank0 := r\<rparr>)"
    "registers_ok (s\<lparr>rs_small_delete := r\<rparr>)" "registers_ok (s\<lparr>rs_clipboard := r\<rparr>)"
    "registers_ok (s\<lparr>rs_expr := r\<rparr>)" "registers_ok (s\<lparr>rs_unnamed_from := None\<rparr>)"
    "registers_ok (s\<lparr>rs_numbered := (rs_numbered s)[i := r]\<rparr>)"
    "registers_ok (s\<lparr>rs_named := (rs_named s)[i := r]\<rparr>)"
    "registers_ok (s\<lparr>rs_numbered := shift_ring r (rs_numbered s)\<rparr>)"
proof -
  show "registers_ok (s\<lparr>rs_numbered := shift_ring r (rs_numbered s)\<rparr>)"
  proof -
    have "rs_numbered s \<noteq> []" using assms numbered_ne by (simp add: registers_ok_def)
    then show ?thesis using assms
      by (auto simp: registers_ok_simps shift_ring_eq dest: in_set_butlastD)
  qed
qed (use assms in \<open>auto simp: registers_ok_simps dest!: set_update_subset_insert [THEN subsetD]\<close>)

lemma into_named_ok:
  "registers_ok s \<Longrightarrow> i < 26 \<Longrightarrow> reg_ok r \<Longrightarrow> registers_ok (into_named s c i r)"
  unfolding into_named_def by (rule registers_ok_updates) (simp_all add: named_nth_ok)

lemma into_named_nth_ok:
  "registers_ok s \<Longrightarrow> i < 26 \<Longrightarrow> reg_ok r \<Longrightarrow> reg_ok (rs_named (into_named s c i r) ! i)"
  using into_named_ok named_nth_ok by blast

lemma registers_ok_special:
  "registers_ok s \<Longrightarrow> \<forall>r \<in> special_regs sp. reg_ok r \<Longrightarrow> registers_ok (s\<lparr>rs_special := sp\<rparr>)"
  by (auto simp: registers_ok_def store_shape_def)

lemma registers_ok_from:
  "registers_ok s \<Longrightarrow> (\<And>i. f = Some i \<Longrightarrow> i < 26) \<Longrightarrow> registers_ok (s\<lparr>rs_unnamed_from := f\<rparr>)"
  by (auto simp: registers_ok_simps)

lemma numbered_nth_ok: "registers_ok s \<Longrightarrow> i < 9 \<Longrightarrow> reg_ok (rs_numbered s ! i)"
  by (auto simp: registers_ok_simps)

lemma write_reg_ok:
  assumes s: "registers_ok s" and r: "reg_ok r"
  shows "registers_ok (write_reg s name r)"
proof -
  let ?s = "s\<lparr>rs_unnamed_from := Option.bind name reg_index\<rparr>"
  have s': "registers_ok ?s"
    using s by (rule registers_ok_from) (rule bind_reg_index_less)
  note up = registers_ok_updates [OF _ r]
  have num: "registers_ok (t\<lparr>rs_numbered := (rs_numbered t)[i := r], rs_unnamed := (rs_numbered t)[i := r] ! i\<rparr>)"
    if "registers_ok t" "i < 9" for t i
    using that up(1) [OF up(7) [OF that(1), of i]] by (simp add: registers_ok_simps)
  have let_named: "registers_ok (let t = into_named ?s c i r in t\<lparr>rs_unnamed := rs_named t ! i\<rparr>)"
    if "reg_index c = Some i" for c i
    unfolding Let_def using that into_named_ok [OF s' _ r] into_named_nth_ok [OF s' _ r]
    by (intro registers_ok_updates) simp_all
  show ?thesis
    unfolding write_reg_def Let_def [of ?s]
    using s s' r up(1) [OF s'] up(1) [OF up(2) [OF s']] up(1) [OF up(3) [OF s']] up(1) [OF up(4) [OF s']]
      num [OF s'] let_named
    by (auto simp: Let_def split: option.split)
qed

lemma special_ok: "registers_ok s \<Longrightarrow> \<forall>r \<in> special_regs (rs_special s). reg_ok r"
  by (simp add: registers_ok_def)

lemma set_slot_ok: "registers_ok s \<Longrightarrow> reg_ok r \<Longrightarrow> registers_ok (snd (set_slot s name r))"
  using special_ok [of s]
  by (auto simp: set_slot_def special_regs_def registers_ok_updates split: option.split
      intro!: registers_ok_special)

lemma delete_ring_ok:
  assumes s: "registers_ok s" and r: "reg_ok r"
  shows "registers_ok (delete_ring s name r b)"
proof -
  note up = registers_ok_updates [OF _ r]
  have w: "registers_ok (write_reg s name r)" by (rule write_reg_ok [OF s r])
  have hd: "shift_ring r (rs_numbered t) ! 0 = r" if "registers_ok t" for t
    using that numbered_ne [of t] by (simp add: shift_ring_eq registers_ok_def)
  have head: "registers_ok (t\<lparr>rs_numbered := shift_ring r (rs_numbered t),
                       rs_unnamed := shift_ring r (rs_numbered t) ! 0, rs_unnamed_from := None\<rparr>)"
    if "registers_ok t" for t
    using up(6) [OF up(1) [OF up(9) [OF that]]] hd [OF that] by simp
  have last: "registers_ok (t\<lparr>rs_unnamed := r, rs_unnamed_from := None\<rparr>)" if "registers_ok t" for t
    using up(6) [OF up(1) [OF that]] by simp
  show ?thesis
    unfolding delete_ring_def Let_def
    using s w head [OF s] head [OF w] up(9) [OF w] up(9) [OF s]
    by (auto intro!: last up(3) split: option.split)
qed

lemma set_macro_ok:
  assumes s: "registers_ok s" and r: "reg_ok r"
  shows "registers_ok (set_macro s name r)"
proof -
  note up = registers_ok_updates [OF _ r]
  have named: "registers_ok (let t = into_named s c i r
      in if rs_unnamed_from t = Some i then t\<lparr>rs_unnamed := rs_named t ! i\<rparr> else t)"
    if "reg_index c = Some i" for c i
    using that into_named_ok [OF s _ r] into_named_nth_ok [OF s _ r]
    by (auto simp: Let_def intro!: registers_ok_updates(1))
  show ?thesis
    unfolding set_macro_def
    using s named up(6) [OF up(1) [OF up(2) [OF s]]] up(2) [OF s] up(7) [OF s]
    by (auto split: option.split)
qed

lemma yank_reg_ok: "registers_ok s \<Longrightarrow> reg_ok r \<Longrightarrow> registers_ok (yank_reg s name r)"
  unfolding yank_reg_def by (rule write_reg_ok) (simp_all add: registers_ok_updates)

lemma unnamed_ok: "registers_ok s \<Longrightarrow> reg_ok (rs_unnamed s)"
  by (simp add: registers_ok_def)

lemma other_ops_ok:
  assumes "registers_ok s"
  shows "registers_ok (set_clipboard_from_external s t)" "registers_ok (set_expr s t)"
    "registers_ok (set_special s a b c d)" "registers_ok (set_alternate s a)"
    "reg_ok r \<Longrightarrow> registers_ok (kill_append s r)" "reg_ok r \<Longrightarrow> registers_ok (kill_prepend s r)"
  using assms unnamed_ok [OF assms] special_ok [OF assms]
  by (auto simp: set_clipboard_from_external_def set_expr_def set_special_def set_alternate_def
      kill_append_def kill_prepend_def special_regs_def
      intro!: registers_ok_updates registers_ok_special)

section \<open>The register file\<close>

text \<open>
  What the store means: a value in each of the slots a name can read. The operations are stated
  as updates of that function, so that what they leave alone is visible.
\<close>

datatype reg_slot =
    Unnamed | Yank0 | Numbered nat | Named nat | Small | Black | Clip | Expr
  | Search | Last_Ex | Inserted | File | Alternate

fun view :: "register_store \<Rightarrow> reg_slot \<Rightarrow> register" where
  "view s Unnamed = rs_unnamed s"
| "view s Yank0 = rs_yank0 s"
| "view s (Numbered i) = (if i < 9 then rs_numbered s ! i else reg_default)"
| "view s (Named i) = (if i < 26 then rs_named s ! i else reg_default)"
| "view s Small = rs_small_delete s"
| "view s Black = rs_blackhole s"
| "view s Clip = rs_clipboard s"
| "view s Expr = rs_expr s"
| "view s Search = s_search (rs_special s)"
| "view s Last_Ex = s_last_ex (rs_special s)"
| "view s Inserted = s_inserted (rs_special s)"
| "view s File = s_file (rs_special s)"
| "view s Alternate = s_alternate (rs_special s)"

definition read_slot :: "reg_name \<Rightarrow> reg_slot" where
  "read_slot name =
     (case name of None \<Rightarrow> Unnamed
      | Some c \<Rightarrow>
          if c = ch_quote then Unnamed else if c = ch_0 then Yank0
          else if is_ascii_digit c then Numbered (c - ch_1)
          else if c = ch_minus then Small else if is_clipboard name then Clip
          else if c = ch_equals then Expr else if c = ch_slash then Search
          else if c = ch_colon then Last_Ex else if c = ch_dot then Inserted
          else if c = ch_percent then File else if c = ch_hash then Alternate
          else (case reg_index c of Some i \<Rightarrow> Named i | None \<Rightarrow> Black))"

text \<open>The names, by the branch of the source they take.\<close>

lemma letterD:
  "reg_index c = Some i \<Longrightarrow> (ch_upper_A \<le> c \<and> c \<le> ch_upper_Z \<or> ch_a \<le> c \<and> c \<le> ch_z) \<and> i < 26"
  by (auto simp: reg_index_def is_ascii_uppercase_def is_ascii_lowercase_def to_ascii_lowercase_def
      split: if_splits)

lemma no_letterD: "reg_index c = None \<Longrightarrow> \<not> (ch_upper_A \<le> c \<and> c \<le> ch_upper_Z) \<and> \<not> (ch_a \<le> c \<and> c \<le> ch_z)"
  by (auto simp: reg_index_def is_ascii_uppercase_def is_ascii_lowercase_def split: if_splits)

lemma letter_facts:
  assumes "reg_index c = Some i"
  shows "c \<noteq> ch_quote" "c \<noteq> ch_hash" "c \<noteq> ch_percent" "c \<noteq> ch_star" "c \<noteq> ch_plus" "c \<noteq> ch_minus"
    "c \<noteq> ch_dot" "c \<noteq> ch_slash" "c \<noteq> ch_0" "\<not> (ch_1 \<le> c \<and> c \<le> ch_9)" "c \<noteq> ch_colon"
    "c \<noteq> ch_equals" "c \<noteq> ch_underscore" "\<not> is_ascii_digit c" "is_ascii_uppercase c \<or> is_ascii_lowercase c"
  using letterD [OF assms]
  by (auto simp: is_ascii_digit_def is_ascii_uppercase_def is_ascii_lowercase_def)

lemma digit_facts:
  assumes "i < 9"
  shows "reg_index (ch_1 + i) = None" "is_ascii_digit (ch_1 + i)" "\<not> is_ascii_uppercase (ch_1 + i)"
    "\<not> is_ascii_lowercase (ch_1 + i)" "ch_1 + i \<le> ch_9"
  using assms
  by (auto simp: reg_index_def is_ascii_digit_def is_ascii_uppercase_def is_ascii_lowercase_def)

lemma reg_name_cases:
  obtains (plain) "name = None" | (quote) "name = Some ch_quote" | (zero) "name = Some ch_0"
  | (digit) i where "i < 9" "name = Some (ch_1 + i)" | (minus) "name = Some ch_minus"
  | (clip) "is_clipboard name" | (hash) "name = Some ch_hash" | (black) "name = Some ch_underscore"
  | (letter) c i where "name = Some c" "reg_index c = Some i"
  | (special) "name \<in> Some ` {ch_equals, ch_slash, ch_colon, ch_dot, ch_percent}"
  | (other) c where "name = Some c" "reg_index c = None" "\<not> is_ascii_digit c"
      "c \<notin> {ch_quote, ch_minus, ch_plus, ch_star, ch_hash, ch_underscore, ch_equals, ch_slash, ch_colon,
              ch_dot, ch_percent}"
proof (cases name)
  case (Some c)
  show ?thesis
  proof (cases "is_ascii_digit c")
    case True
    show ?thesis
    proof (cases "c = ch_0")
      case False
      then have "c - ch_1 < 9" "c = ch_1 + (c - ch_1)" using True by (auto simp: is_ascii_digit_def)
      then show ?thesis using Some digit by metis
    qed (use Some zero in simp)
  next
    case False
    show ?thesis
    proof (cases "reg_index c")
      case None
      then show ?thesis using Some False plain quote minus clip hash black special other
        by (cases "c \<in> {ch_quote, ch_minus, ch_plus, ch_star, ch_hash, ch_underscore, ch_equals, ch_slash,
              ch_colon, ch_dot, ch_percent}") (auto simp: is_clipboard_def)
    qed (use Some letter in simp)
  qed
qed (use plain in simp)

lemma not_letter [simp]:
  "reg_index ch_quote = None" "reg_index ch_hash = None" "reg_index ch_star = None"
  "reg_index ch_plus = None" "reg_index ch_minus = None" "reg_index ch_0 = None"
  "reg_index ch_underscore = None" "reg_index ch_equals = None" "reg_index ch_slash = None"
  "reg_index ch_colon = None" "reg_index ch_dot = None" "reg_index ch_percent = None"
  by (simp_all add: reg_index_def is_ascii_uppercase_def is_ascii_lowercase_def)

lemmas char_simps = is_clipboard_def is_ascii_digit_def is_ascii_uppercase_def is_ascii_lowercase_def

lemma reg_get_view: "reg_get s name = view s (read_slot name)"
proof (cases name rule: reg_name_cases)
  case (digit i)
  then show ?thesis using digit_facts [OF digit(1)]
    by (simp add: reg_get_def read_slot_def is_clipboard_def)
next
  case (letter c i)
  then show ?thesis using letter_facts [OF letter(2)] letterD [OF letter(2)]
    by (auto simp: reg_get_def read_slot_def is_clipboard_def)
next
  case (other c)
  then show ?thesis by (auto simp: reg_get_def read_slot_def char_simps)
qed (auto simp: reg_get_def read_slot_def char_simps)

text \<open>The slot a write goes to: as a read, but \<open>"#\<close> writes \<open>"0\<close>.\<close>

definition write_slot :: "reg_name \<Rightarrow> reg_slot" where
  "write_slot name = (if name = Some ch_hash then Yank0 else read_slot name)"

definition takes_write :: "reg_name \<Rightarrow> bool" where
  "takes_write name \<longleftrightarrow> is_writable name \<and> name \<noteq> Some ch_underscore"

definition appends :: "reg_name \<Rightarrow> bool" where
  "appends name = (case name of Some c \<Rightarrow> is_ascii_uppercase c | None \<Rightarrow> False)"

definition written_reg :: "(reg_slot \<Rightarrow> register) \<Rightarrow> reg_name \<Rightarrow> register \<Rightarrow> register" where
  "written_reg f name r = (if appends name then append_reg (f (write_slot name)) r else r)"

lemma view_named_update: "length (rs_named s) = 26 \<Longrightarrow> i < 26 \<Longrightarrow>
    view (s\<lparr>rs_named := (rs_named s)[i := r]\<rparr>) = (view s)(Named i := r)"
  by (rule ext, rename_tac x, case_tac x) auto

lemma view_numbered_update: "length (rs_numbered s) = 9 \<Longrightarrow> i < 9 \<Longrightarrow>
    view (s\<lparr>rs_numbered := (rs_numbered s)[i := r]\<rparr>) = (view s)(Numbered i := r)"
  by (rule ext, rename_tac x, case_tac x) auto

lemma view_updates:
  "view (s\<lparr>rs_unnamed := r\<rparr>) = (view s)(Unnamed := r)"
  "view (s\<lparr>rs_yank0 := r\<rparr>) = (view s)(Yank0 := r)"
  "view (s\<lparr>rs_small_delete := r\<rparr>) = (view s)(Small := r)"
  "view (s\<lparr>rs_clipboard := r\<rparr>) = (view s)(Clip := r)"
  "view (s\<lparr>rs_expr := r\<rparr>) = (view s)(Expr := r)"
  "view (s\<lparr>rs_unnamed_from := f\<rparr>) = view s"
  "view (s\<lparr>rs_unnamed_from := f, rs_numbered := ns\<rparr>) = view (s\<lparr>rs_numbered := ns\<rparr>)"
  "view (s\<lparr>rs_special := (rs_special s)\<lparr>s_search := r\<rparr>\<rparr>) = (view s)(Search := r)"
  "view (s\<lparr>rs_special := (rs_special s)\<lparr>s_last_ex := r\<rparr>\<rparr>) = (view s)(Last_Ex := r)"
  "view (s\<lparr>rs_special := (rs_special s)\<lparr>s_inserted := r\<rparr>\<rparr>) = (view s)(Inserted := r)"
  "view (s\<lparr>rs_special := (rs_special s)\<lparr>s_file := r\<rparr>\<rparr>) = (view s)(File := r)"
  "view (s\<lparr>rs_special := (rs_special s)\<lparr>s_alternate := r\<rparr>\<rparr>) = (view s)(Alternate := r)"
  by (rule ext, rename_tac x, case_tac x, simp_all)+

lemma view_into_named:
  assumes "length (rs_named s) = 26" and "i < 26"
  shows "view (into_named s c i r) =
    (view s)(Named i := (if is_ascii_uppercase c then append_reg (view s (Named i)) r else r))"
    "rs_named (into_named s c i r) ! i = (if is_ascii_uppercase c then append_reg (view s (Named i)) r else r)"
  using assms by (simp_all add: into_named_def view_named_update)

lemma view_write:
  assumes sh: "store_shape s" and t: "takes_write name"
  shows "view (write_reg s name r) =
    (view s)(write_slot name := written_reg (view s) name r, Unnamed := written_reg (view s) name r)"
proof -
  let ?s = "s\<lparr>rs_unnamed_from := Option.bind name reg_index\<rparr>"
  have w: "write_reg s name r = (case name of
             None \<Rightarrow> ?s\<lparr>rs_unnamed := r\<rparr>
           | Some c \<Rightarrow>
               if c = ch_quote then ?s\<lparr>rs_unnamed := r\<rparr>
               else if c = ch_0 \<or> c = ch_hash then ?s\<lparr>rs_yank0 := r, rs_unnamed := r\<rparr>
               else if ch_1 \<le> c \<and> c \<le> ch_9 then
                 (let s' = ?s\<lparr>rs_numbered := (rs_numbered ?s)[c - ch_1 := r]\<rparr>
                  in s'\<lparr>rs_unnamed := rs_numbered s' ! (c - ch_1)\<rparr>)
               else if c = ch_minus then ?s\<lparr>rs_small_delete := r, rs_unnamed := r\<rparr>
               else if c = ch_plus \<or> c = ch_star then ?s\<lparr>rs_clipboard := r, rs_unnamed := r\<rparr>
               else (case reg_index c of
                       Some i \<Rightarrow> (let s' = into_named ?s c i r in s'\<lparr>rs_unnamed := rs_named s' ! i\<rparr>)
                     | None \<Rightarrow> ?s))"
    using t by (simp add: write_reg_def takes_write_def Let_def)
  have sh': "store_shape ?s" and vs: "view ?s = view s"
    using sh by (simp_all add: store_shape_def view_updates)
  note defs = written_reg_def appends_def write_slot_def read_slot_def
  show ?thesis
  proof (cases name rule: reg_name_cases)
    case (digit i)
    have "(rs_numbered s)[i := r] ! i = r" using sh digit(1) by (simp add: store_shape_def)
    then show ?thesis unfolding w using digit digit_facts [OF digit(1)] sh'
      by (simp add: defs is_clipboard_def Let_def view_updates view_numbered_update store_shape_def)
  next
    case (letter c i)
    have n: "length (rs_named ?s) = 26" "i < 26" using sh letterD [OF letter(2)] by (simp_all add: store_shape_def)
    have "view (write_reg s name r) = view (let s' = into_named ?s c i r in s'\<lparr>rs_unnamed := rs_named s' ! i\<rparr>)"
      unfolding w using letter letter_facts [OF letter(2)] by auto
    also have "\<dots> = (view s)(Named i := (if is_ascii_uppercase c then append_reg (view s (Named i)) r else r),
        Unnamed := (if is_ascii_uppercase c then append_reg (view s (Named i)) r else r))"
      by (simp only: Let_def view_updates view_into_named [OF n] vs)
    also have "\<dots> = (view s)(write_slot name := written_reg (view s) name r, Unnamed := written_reg (view s) name r)"
      using letter letter_facts [OF letter(2)] by (simp add: defs is_clipboard_def)
    finally show ?thesis .
  next
    case (special)
    then show ?thesis using t by (auto simp: takes_write_def is_writable_def char_simps)
  next
    case (other c)
    then show ?thesis using t no_letterD [OF other(2)]
      by (auto simp: takes_write_def is_writable_def char_simps)
  next
    case black
    then show ?thesis using t by (simp add: takes_write_def)
  qed (unfold w, auto simp: defs char_simps view_updates)
qed

lemma write_refused: "\<not> takes_write name \<Longrightarrow> write_reg s name r = s"
  by (simp add: write_reg_def takes_write_def)

lemma write_reg_shape: "store_shape s \<Longrightarrow> store_shape (write_reg s name r)"
  by (auto simp: write_reg_def store_shape_def Let_def into_named_def split: option.split)

subsection \<open>Deletes\<close>

text \<open>A delete shifts the ring when it takes a whole line or more, or when its motion asks for it.\<close>

definition multiline :: "register \<Rightarrow> bool" where
  "multiline r \<longleftrightarrow> is_linewise r \<or> newline \<in> set (r_text r)"

definition deleted :: "(reg_slot \<Rightarrow> register) \<Rightarrow> reg_name \<Rightarrow> register \<Rightarrow> bool \<Rightarrow> reg_slot \<Rightarrow> register" where
  "deleted f name r ring_one =
     (let f1 = (if name = None then f
                else f(write_slot name := written_reg f name r, Unnamed := written_reg f name r));
          shifts = (multiline r \<or> ring_one)
      in (\<lambda>x. case x of
           Unnamed \<Rightarrow> if name = None \<or> (shifts \<and> \<not> appends name) then r else f1 Unnamed
         | Numbered i \<Rightarrow> if \<not> shifts \<or> 9 \<le> i then f1 x else if i = 0 then r else f1 (Numbered (i - 1))
         | Small \<Rightarrow> if name = None \<and> \<not> multiline r then r else f1 Small
         | _ \<Rightarrow> f1 x))"

lemma view_shift:
  assumes "length (rs_numbered s) = 9"
  shows "view (s\<lparr>rs_numbered := shift_ring r (rs_numbered s)\<rparr>) =
    (\<lambda>x. case x of Numbered i \<Rightarrow> if 9 \<le> i then view s x else if i = 0 then r else view s (Numbered (i - 1))
         | _ \<Rightarrow> view s x)"
proof (rule ext)
  fix x
  have ne: "rs_numbered s \<noteq> []" using assms by auto
  show "view (s\<lparr>rs_numbered := shift_ring r (rs_numbered s)\<rparr>) x =
    (case x of Numbered i \<Rightarrow> if 9 \<le> i then view s x else if i = 0 then r else view s (Numbered (i - 1))
     | _ \<Rightarrow> view s x)"
    using assms by (cases x) (auto simp: shift_ring_eq [OF ne] nth_Cons' nth_butlast)
qed

lemma shift_ring_0: "ns \<noteq> [] \<Longrightarrow> shift_ring r ns ! 0 = r"
  by (simp add: shift_ring_eq)

lemma view_delete:
  assumes sh: "store_shape s" and t: "takes_write name"
  shows "view (delete_ring s name r b) = deleted (view s) name r b"
proof -
  define s1 where "s1 = (if name \<noteq> None then write_reg s name r else s)"
  have sh1: "length (rs_numbered s1) = 9" "rs_numbered s1 \<noteq> []"
    using sh write_reg_shape [OF sh, of name r] numbered_ne by (auto simp: s1_def store_shape_def)
  have v1: "view s1 = (if name = None then view s
      else (view s)(write_slot name := written_reg (view s) name r, Unnamed := written_reg (view s) name r))"
    using view_write [OF sh t] by (simp add: s1_def)
  define s2 where "s2 = (if multiline r \<or> b
                  then (let s' = s1\<lparr>rs_numbered := shift_ring r (rs_numbered s1)\<rparr>
                        in if \<not> appends name
                           then s'\<lparr>rs_unnamed := rs_numbered s' ! 0, rs_unnamed_from := None\<rparr> else s')
                  else s1)"
  have d: "delete_ring s name r b =
      (let s3 = (if name = None \<and> \<not> multiline r then s2\<lparr>rs_small_delete := r\<rparr> else s2)
       in if name = None then s3\<lparr>rs_unnamed := r, rs_unnamed_from := None\<rparr> else s3)"
  proof -
    have g: "\<not> (\<not> is_writable name \<or> name = Some ch_underscore)" using t by (simp add: takes_write_def)
    show ?thesis
      unfolding delete_ring_def if_not_P [OF g] Let_def multiline_def [symmetric] s1_def [symmetric]
        appends_def [symmetric] s2_def by (rule refl)
  qed
  have v2: "view s2 = (if multiline r \<or> b then
        (let g = (\<lambda>x. case x of Numbered i \<Rightarrow> if 9 \<le> i then view s1 x else if i = 0 then r else view s1 (Numbered (i - 1))
                   | _ \<Rightarrow> view s1 x)
         in if \<not> appends name then g(Unnamed := r) else g) else view s1)"
    by (simp add: s2_def Let_def view_updates view_shift [OF sh1(1)] shift_ring_0 [OF sh1(2)])
  have v3: "view (delete_ring s name r b) = (if name = None
      then (if \<not> multiline r then (view s2)(Small := r) else view s2)(Unnamed := r) else view s2)"
    by (simp add: d view_updates)
  show ?thesis
    unfolding v3 v2 deleted_def v1 [symmetric] Let_def
    by (rule ext)
       (simp add: appends_def del: view.simps split: reg_slot.split)
qed

lemma delete_refused: "\<not> takes_write name \<Longrightarrow> delete_ring s name r b = s"
  by (simp add: delete_ring_def takes_write_def)

section \<open>Steps of the store\<close>

text \<open>
  Everything the editor, the frontend and a trace do to the store. The registers they hand in are
  built by the constructors, hence well formed.
\<close>

inductive store_step :: "register_store \<Rightarrow> register_store \<Rightarrow> bool" where
  step_write: "reg_ok r \<Longrightarrow> store_step s (write_reg s n r)"
| step_yank: "reg_ok r \<Longrightarrow> store_step s (yank_reg s n r)"
| step_delete: "reg_ok r \<Longrightarrow> store_step s (delete_ring s n r b)"
| step_macro: "reg_ok r \<Longrightarrow> store_step s (set_macro s n r)"
| step_kill_append: "reg_ok r \<Longrightarrow> store_step s (kill_append s r)"
| step_kill_prepend: "reg_ok r \<Longrightarrow> store_step s (kill_prepend s r)"
| step_slot: "reg_ok r \<Longrightarrow> store_step s (snd (set_slot s n r))"
| step_clipboard: "store_step s (set_clipboard_from_external s t)"
| step_expr: "store_step s (set_expr s t)"
| step_special: "store_step s (set_special s a b c d)"
| step_alternate: "store_step s (set_alternate s a)"

inductive_cases store_stepE: "store_step s s'"

inductive store_reach :: "register_store \<Rightarrow> bool" where
  reach_new: "store_reach registers_new"
| reach_step: "store_reach s \<Longrightarrow> store_step s s' \<Longrightarrow> store_reach s'"

lemma store_step_ok: "store_step s s' \<Longrightarrow> registers_ok s \<Longrightarrow> registers_ok s'"
  by (auto elim!: store_stepE intro: write_reg_ok yank_reg_ok delete_ring_ok set_macro_ok set_slot_ok
      other_ops_ok)

lemma store_reach_ok: "store_reach s \<Longrightarrow> registers_ok s"
  by (induction rule: store_reach.induct) (auto intro: registers_ok_new store_step_ok)

lemma registers_ok_shape: "registers_ok s \<Longrightarrow> store_shape s"
  by (simp add: registers_ok_def)

lemma view_ok: "registers_ok s \<Longrightarrow> reg_ok (view s x)"
  by (cases x) (auto simp: registers_ok_simps)

text \<open>
  C37: In every reachable store, every name, known or not, reads a well-formed register: linewise
  content ends in a newline, only a block has a width, a register never written is empty; the
  black hole and every unknown name read empty, whatever was written to them.\<close>

theorem registers_well_formed:
  assumes "store_reach s"
  shows "reg_ok (reg_get s name)
    \<and> length (rs_named s) = 26 \<and> length (rs_numbered s) = 9
    \<and> reg_get s (Some ch_underscore) = reg_default
    \<and> (\<forall>c. reg_index c = None \<and> \<not> is_slot (Some c) \<and> c \<noteq> ch_equals \<longrightarrow> reg_get s (Some c) = reg_default)"
proof -
  note ok = store_reach_ok [OF assms]
  have "reg_get s (Some c) = reg_default" if "reg_index c = None" "\<not> is_slot (Some c)" "c \<noteq> ch_equals" for c
  proof -
    have "c \<noteq> ch_0" "\<not> (ch_1 \<le> c \<and> c \<le> ch_9)" "c \<notin> {ch_quote, ch_minus, ch_plus, ch_star, ch_slash, ch_colon,
        ch_dot, ch_percent, ch_hash}"
      using that(2) by (auto simp: is_slot_def is_ascii_digit_def)
    with that ok show ?thesis by (auto simp: reg_get_def registers_ok_def)
  qed
  then show ?thesis
    using ok view_ok [OF ok] by (simp add: reg_get_view [of s name]) (auto simp: registers_ok_simps reg_get_def)
qed

theorem registers_well_formed_witness:
  "reg_ok (reg_get (write_reg registers_new (Some ch_a) (linewise [120])) (Some ch_upper_A))"
proof -
  have "store_reach (write_reg registers_new (Some ch_a) (linewise [120]))"
    by (intro reach_step [OF reach_new] step_write) simp
  then show ?thesis using registers_well_formed by blast
qed

text \<open>A write changes exactly the slot its name designates and the unnamed register, which both
  read what was written (an uppercase name reads the old content with the new appended); a name
  that cannot be written, and the black hole, change nothing at all.\<close>

theorem write_changes_its_slot:
  assumes "store_reach s"
  shows "reg_get (write_reg s name r) other =
    (if \<not> is_writable name \<or> name = Some ch_underscore then reg_get s other
     else if read_slot other = Unnamed \<or> read_slot other = write_slot name
     then (if appends name then append_reg (reg_get s name) r else r)
     else reg_get s other)"
proof (cases "takes_write name")
  case True
  have "appends name \<Longrightarrow> write_slot name = read_slot name"
    by (auto simp: appends_def write_slot_def is_ascii_uppercase_def)
  then show ?thesis
    using view_write [OF registers_ok_shape [OF store_reach_ok [OF assms]] True, of r] True
    by (auto simp: reg_get_view written_reg_def takes_write_def)
next
  case False
  then show ?thesis using write_refused [OF False] by (auto simp: takes_write_def)
qed

theorem write_changes_its_slot_witness:
  "reg_get (write_reg registers_new (Some ch_a) (charwise [120])) None = charwise [120]
   \<and> reg_get (write_reg registers_new (Some ch_a) (charwise [120])) (Some ch_0) = reg_default"
  unfolding write_changes_its_slot [OF reach_new]
  by (simp add: is_writable_def char_simps read_slot_def write_slot_def reg_index_def
      to_ascii_lowercase_def appends_def reg_get_def registers_new_def)

section \<open>Histories\<close>

text \<open>Yanks and deletes as the editor issues them, in order.\<close>

datatype reg_op = RYank reg_name register | RDelete reg_name register bool

fun run_op :: "reg_op \<Rightarrow> register_store \<Rightarrow> register_store" where
  "run_op (RYank n r) s = yank_reg s n r"
| "run_op (RDelete n r b) s = delete_ring s n r b"

fun op_name :: "reg_op \<Rightarrow> reg_name" where
  "op_name (RYank n r) = n"
| "op_name (RDelete n r b) = n"

text \<open>What an operation adds to the ring, to the yank register and to the small-delete register.\<close>

fun ring_entry :: "reg_op \<Rightarrow> register list" where
  "ring_entry (RYank n r) = []"
| "ring_entry (RDelete n r b) = (if takes_write n \<and> (multiline r \<or> b) then [r] else [])"

fun yank_entry :: "reg_op \<Rightarrow> register list" where
  "yank_entry (RYank n r) = (if n = None then [r] else [])"
| "yank_entry (RDelete n r b) = []"

fun small_entry :: "reg_op \<Rightarrow> register list" where
  "small_entry (RYank n r) = []"
| "small_entry (RDelete n r b) = (if n = None \<and> \<not> multiline r then [r] else [])"

definition names_no_history :: "reg_op \<Rightarrow> bool" where
  "names_no_history p \<longleftrightarrow> (\<forall>i. write_slot (op_name p) \<notin> {Yank0, Small, Numbered i})"

lemma write_keeps_histories:
  assumes sh: "store_shape s" and n: "\<forall>i. write_slot name \<notin> {Yank0, Small, Numbered i}"
  shows "rs_numbered (write_reg s name r) = rs_numbered s" "rs_yank0 (write_reg s name r) = rs_yank0 s"
    "rs_small_delete (write_reg s name r) = rs_small_delete s"
proof -
  have v: "view (write_reg s name r) x = view s x" if "x \<in> {Yank0, Small} \<union> range Numbered" for x
  proof (cases "takes_write name")
    case True
    have "x \<noteq> write_slot name" "x \<noteq> Unnamed" using n that by (auto dest: sym)
    then show ?thesis by (simp add: view_write [OF sh True] del: view.simps)
  qed (simp add: write_refused)
  show "rs_yank0 (write_reg s name r) = rs_yank0 s" "rs_small_delete (write_reg s name r) = rs_small_delete s"
    using v [of Yank0] v [of Small] by simp_all
  show "rs_numbered (write_reg s name r) = rs_numbered s"
  proof (rule nth_equalityI)
    show "length (rs_numbered (write_reg s name r)) = length (rs_numbered s)"
      using sh write_reg_shape [OF sh, of name r] by (simp add: store_shape_def)
    show "rs_numbered (write_reg s name r) ! i = rs_numbered s ! i"
      if "i < length (rs_numbered (write_reg s name r))" for i
      using v [of "Numbered i"] that write_reg_shape [OF sh, of name r] by (simp add: store_shape_def)
  qed
qed

lemma delete_numbered:
  assumes sh: "store_shape s" and n: "\<forall>i. write_slot name \<notin> {Yank0, Small, Numbered i}"
  shows "rs_numbered (delete_ring s name r b) = take 9 (ring_entry (RDelete name r b) @ rs_numbered s)"
    and "rs_yank0 (delete_ring s name r b) = rs_yank0 s"
    and "rs_small_delete (delete_ring s name r b) = last (rs_small_delete s # small_entry (RDelete name r b))"
proof -
  let ?s1 = "if name \<noteq> None then write_reg s name r else s"
  have same: "rs_numbered ?s1 = rs_numbered s" "rs_yank0 ?s1 = rs_yank0 s" "rs_small_delete ?s1 = rs_small_delete s"
    by (simp_all add: write_keeps_histories [OF sh n])
  have len: "length (rs_numbered s) = 9" using sh by (simp add: store_shape_def)
  have num: "rs_numbered (delete_ring s name r b) =
      (if takes_write name \<and> (multiline r \<or> b) then shift_ring r (rs_numbered ?s1)
       else if takes_write name then rs_numbered ?s1 else rs_numbered s)"
    by (simp add: delete_ring_def takes_write_def multiline_def Let_def)
  show "rs_numbered (delete_ring s name r b) = take 9 (ring_entry (RDelete name r b) @ rs_numbered s)"
    using len numbered_ne [OF sh] unfolding num same by (simp add: shift_ring_eq butlast_conv_take)
  show "rs_yank0 (delete_ring s name r b) = rs_yank0 s"
    by (simp add: delete_ring_def Let_def write_keeps_histories [OF sh n])
  have "name = None \<Longrightarrow> takes_write name" by (simp add: takes_write_def is_writable_def)
  then show "rs_small_delete (delete_ring s name r b) = last (rs_small_delete s # small_entry (RDelete name r b))"
    by (auto simp: delete_ring_def takes_write_def multiline_def Let_def write_keeps_histories [OF sh n])
qed

lemma run_op_histories:
  assumes sh: "store_shape s" and n: "names_no_history p"
  shows "rs_numbered (run_op p s) = take 9 (ring_entry p @ rs_numbered s)"
    "rs_yank0 (run_op p s) = last (rs_yank0 s # yank_entry p)"
    "rs_small_delete (run_op p s) = last (rs_small_delete s # small_entry p)"
proof -
  have "rs_numbered (run_op p s) = take 9 (ring_entry p @ rs_numbered s)
      \<and> rs_yank0 (run_op p s) = last (rs_yank0 s # yank_entry p)
      \<and> rs_small_delete (run_op p s) = last (rs_small_delete s # small_entry p)"
  proof (cases p)
    case (RYank name r)
    let ?s = "if name = None then s\<lparr>rs_yank0 := r\<rparr> else s"
    have sh': "store_shape ?s" using sh by (simp add: store_shape_def)
    have n': "\<forall>i. write_slot name \<notin> {Yank0, Small, Numbered i}" using n RYank by (simp add: names_no_history_def)
    show ?thesis
      using write_keeps_histories [OF sh' n', of r] sh
      by (simp add: RYank yank_reg_def store_shape_def)
  next
    case (RDelete name r b)
    then show ?thesis using delete_numbered [OF sh, of name r b] n by (simp add: names_no_history_def)
  qed
  then show "rs_numbered (run_op p s) = take 9 (ring_entry p @ rs_numbered s)"
    "rs_yank0 (run_op p s) = last (rs_yank0 s # yank_entry p)"
    "rs_small_delete (run_op p s) = last (rs_small_delete s # small_entry p)" by simp_all
qed

lemma run_op_shape: "store_shape s \<Longrightarrow> store_shape (run_op p s)"
proof (cases p)
  case (RYank n r)
  assume "store_shape s"
  then have "store_shape (if n = None then s\<lparr>rs_yank0 := r\<rparr> else s)" by (simp add: store_shape_def)
  then show ?thesis by (simp add: RYank yank_reg_def write_reg_shape)
next
  case (RDelete n r b)
  assume sh: "store_shape s"
  have "store_shape (write_reg s n r)" by (rule write_reg_shape [OF sh])
  with sh show ?thesis
    by (simp add: RDelete delete_ring_def Let_def store_shape_def shift_ring_def)
qed

text \<open>
  C21: The delete ring, the yank register and the small-delete register are histories.  After any
  sequence of yanks and deletes that do not name them, \<open>"1\<close> to \<open>"9\<close> hold, newest first, the last nine
  deletes that go to the ring: those that are linewise or hold a newline, and the smaller ones of the
  motions that always use it (\<open>d%\<close>), when the register they name, if any, is one a delete may name.
  \<open>"0\<close> holds the last yank that named no register, and \<open>"-\<close> the last delete that named no register and
  is neither linewise nor holds a newline.  What was there before comes after what was added.\<close>

theorem rings_are_histories:
  assumes "store_reach s" and "\<forall>p \<in> set ops. names_no_history p"
  shows "rs_numbered (fold run_op ops s) = take 9 (rev (concat (map ring_entry ops)) @ rs_numbered s)
    \<and> rs_yank0 (fold run_op ops s) = last (rs_yank0 s # concat (map yank_entry ops))
    \<and> rs_small_delete (fold run_op ops s) = last (rs_small_delete s # concat (map small_entry ops))"
proof -
  have "store_shape (fold run_op ops s) \<and> rs_numbered (fold run_op ops s) = take 9 (rev (concat (map ring_entry ops)) @ rs_numbered s)
    \<and> rs_yank0 (fold run_op ops s) = last (rs_yank0 s # concat (map yank_entry ops))
    \<and> rs_small_delete (fold run_op ops s) = last (rs_small_delete s # concat (map small_entry ops))"
    using assms(2)
  proof (induction ops rule: rev_induct)
    case Nil
    show ?case using registers_ok_shape [OF store_reach_ok [OF assms(1)]] by (simp add: store_shape_def)
  next
    case (snoc p ops)
    let ?s = "fold run_op ops s"
    have one: "rev (ring_entry p) = ring_entry p" by (cases p) simp_all
    have join: "last (last (a # xs) # ys) = last (a # xs @ ys)" for a :: register and xs ys
      by (cases ys) simp_all
    have cut: "take 9 (e @ take 9 xs) = take 9 (e @ xs)" for e xs :: "register list"
      by (simp add: min_def)
    have IH: "store_shape ?s" "rs_numbered ?s = take 9 (rev (concat (map ring_entry ops)) @ rs_numbered s)"
      "rs_yank0 ?s = last (rs_yank0 s # concat (map yank_entry ops))"
      "rs_small_delete ?s = last (rs_small_delete s # concat (map small_entry ops))"
      and p: "names_no_history p" using snoc by simp_all
    note step = run_op_histories [OF IH(1) p, unfolded IH(2-4) cut join]
    show ?case
      using run_op_shape [OF IH(1), of p] step by (simp add: one del: last.simps)
  qed
  then show ?thesis by simp
qed

theorem rings_are_histories_witness:
  "rs_numbered (fold run_op [RDelete None (linewise [97]) False, RYank (Some ch_a) (charwise [99]),
      RDelete None (linewise [98]) False] registers_new) ! 1 = linewise [97]"
proof -
  have "\<forall>p \<in> set [RDelete None (linewise [97]) False, RYank (Some ch_a) (charwise [99]),
      RDelete None (linewise [98]) False]. names_no_history p"
    by (simp add: names_no_history_def write_slot_def read_slot_def char_simps reg_index_def)
  from rings_are_histories [OF reach_new this] show ?thesis
    by (simp add: takes_write_def is_writable_def multiline_def is_linewise_def linewise_def Let_def)
qed

section \<open>The unnamed register follows its letter\<close>

definition unnamed_linked :: "register_store \<Rightarrow> bool" where
  "unnamed_linked s \<longleftrightarrow> (\<forall>i. rs_unnamed_from s = Some i \<longrightarrow> rs_unnamed s = rs_named s ! i)"

inductive vim_reach :: "register_store \<Rightarrow> bool" where
  vim_new: "vim_reach registers_new"
| vim_write: "vim_reach s \<Longrightarrow> reg_ok r \<Longrightarrow> vim_reach (write_reg s n r)"
| vim_yank: "vim_reach s \<Longrightarrow> reg_ok r \<Longrightarrow> vim_reach (yank_reg s n r)"
| vim_delete: "vim_reach s \<Longrightarrow> reg_ok r \<Longrightarrow> vim_reach (delete_ring s n r b)"
| vim_macro: "vim_reach s \<Longrightarrow> reg_ok r \<Longrightarrow> vim_reach (set_macro s n r)"
| vim_clipboard: "vim_reach s \<Longrightarrow> vim_reach (set_clipboard_from_external s t)"
| vim_expr: "vim_reach s \<Longrightarrow> vim_reach (set_expr s t)"
| vim_special: "vim_reach s \<Longrightarrow> vim_reach (set_special s a b' c d)"
| vim_alternate: "vim_reach s \<Longrightarrow> vim_reach (set_alternate s a)"

lemma vim_reach_reach: "vim_reach s \<Longrightarrow> store_reach s"
  by (induction rule: vim_reach.induct) (blast intro: store_reach.intros store_step.intros)+

lemma into_named_from [simp]: "rs_unnamed_from (into_named s c i r) = rs_unnamed_from s"
  by (simp add: into_named_def)

lemma linked_write:
  assumes "store_shape s" "unnamed_linked s"
  shows "unnamed_linked (write_reg s name r)"
  using assms
proof (cases name rule: reg_name_cases)
  case (letter c i)
  then show ?thesis using letter_facts [OF letter(2)] assms
    by (auto simp: write_reg_def unnamed_linked_def Let_def)
next
  case (digit i)
  then show ?thesis using digit_facts [OF digit(1)] assms
    by (auto simp: write_reg_def unnamed_linked_def Let_def)
next
  case (other c)
  then show ?thesis using assms no_letterD [OF other(2)]
    by (auto simp: write_reg_def is_writable_def char_simps)
qed (auto simp: write_reg_def unnamed_linked_def Let_def char_simps is_writable_def)

lemma linked_delete:
  assumes "store_shape s" "unnamed_linked s"
  shows "unnamed_linked (delete_ring s name r b)"
  using linked_write [OF assms, of name r] assms(2)
  by (auto simp: delete_ring_def unnamed_linked_def Let_def)

lemma linked_macro:
  assumes sh: "store_shape s" and l: "unnamed_linked s"
  shows "unnamed_linked (set_macro s name r)"
proof -
  have "unnamed_linked (let t = into_named s c i r
      in if rs_unnamed_from t = Some i then t\<lparr>rs_unnamed := rs_named t ! i\<rparr> else t)" for c i
    using l by (auto simp: unnamed_linked_def Let_def into_named_def nth_list_update_neq)
  then show ?thesis using l by (auto simp: set_macro_def unnamed_linked_def split: option.split)
qed

lemma vim_reach_linked: "vim_reach s \<Longrightarrow> unnamed_linked s"
proof (induction rule: vim_reach.induct)
  case vim_new
  show ?case by (simp add: unnamed_linked_def registers_new_def)
next
  case (vim_yank s r n)
  have "store_shape s" using vim_yank by (blast intro: registers_ok_shape store_reach_ok vim_reach_reach)
  then have "store_shape (if n = None then s\<lparr>rs_yank0 := r\<rparr> else s)" by (simp add: store_shape_def)
  moreover have "unnamed_linked (if n = None then s\<lparr>rs_yank0 := r\<rparr> else s)" using vim_yank by (simp add: unnamed_linked_def)
  ultimately show ?case unfolding yank_reg_def by (rule linked_write)
next
  case (vim_clipboard s t)
  then show ?case by (simp add: unnamed_linked_def set_clipboard_from_external_def)
next
  case (vim_expr s t)
  then show ?case by (simp add: unnamed_linked_def set_expr_def)
next
  case (vim_special s a b' c d)
  then show ?case by (simp add: unnamed_linked_def set_special_def)
next
  case (vim_alternate s a)
  then show ?case by (simp add: unnamed_linked_def set_alternate_def)
qed (blast intro: linked_write linked_delete linked_macro registers_ok_shape store_reach_ok vim_reach_reach)+

text \<open>Recording a macro never disturbs the paste register, except as Vim does: after any editing
  with yanks, deletes and macros, storing into a letter changes that letter (appending for an
  uppercase name), no other letter or ring, and what a plain put reads changes only when the
  unnamed register came from that letter, and then to the same new content.\<close>

theorem macro_and_unnamed:
  assumes "vim_reach s" and "reg_index c = Some i"
  shows "view (set_macro s (Some c) r) =
      (let v = (if is_ascii_uppercase c then append_reg (reg_get s (Some c)) r else r)
       in if rs_unnamed_from s = Some i then (view s)(Named i := v, Unnamed := v) else (view s)(Named i := v))
    \<and> (rs_unnamed_from s = Some i \<longrightarrow> reg_get s None = reg_get s (Some c))"
proof -
  have sh: "store_shape s" by (rule registers_ok_shape [OF store_reach_ok [OF vim_reach_reach [OF assms(1)]]])
  have n: "length (rs_named s) = 26" "i < 26" using sh letterD [OF assms(2)] by (simp_all add: store_shape_def)
  have slot: "read_slot (Some c) = Named i"
    using letter_facts [OF assms(2)] assms(2) by (simp add: read_slot_def is_clipboard_def)
  define v where "v = (if is_ascii_uppercase c then append_reg (reg_get s (Some c)) r else r)"
  have v: "v = (if is_ascii_uppercase c then append_reg (view s (Named i)) r else r)"
    by (simp add: v_def reg_get_view slot)
  have "set_macro s (Some c) r = (let t = into_named s c i r
      in if rs_unnamed_from t = Some i then t\<lparr>rs_unnamed := rs_named t ! i\<rparr> else t)"
    using letter_facts [OF assms(2)] assms(2) by (auto simp: set_macro_def)
  then have "view (set_macro s (Some c) r) =
      (if rs_unnamed_from s = Some i then (view s)(Named i := v, Unnamed := v) else (view s)(Named i := v))"
    using view_into_named [OF n, of c r] by (simp add: Let_def view_updates v into_named_def)
  moreover have "rs_unnamed_from s = Some i \<longrightarrow> reg_get s None = reg_get s (Some c)"
    using vim_reach_linked [OF assms(1)] n slot
    by (auto simp: unnamed_linked_def reg_get_view) (simp add: read_slot_def)
  ultimately show ?thesis by (simp add: Let_def flip: v_def)
qed

theorem macro_and_unnamed_witness:
  "reg_get (set_macro (write_reg registers_new (Some ch_a) (charwise [120])) (Some ch_a) (charwise [121])) None
     = charwise [121]"
proof -
  have "vim_reach (write_reg registers_new (Some ch_a) (charwise [120]))"
    by (intro vim_write vim_new) simp
  moreover have i: "reg_index ch_a = Some 0" by (simp add: reg_index_def char_simps to_ascii_lowercase_def)
  ultimately have "view (set_macro (write_reg registers_new (Some ch_a) (charwise [120])) (Some ch_a) (charwise [121])) Unnamed
      = charwise [121]"
    using macro_and_unnamed [of "write_reg registers_new (Some ch_a) (charwise [120])" ch_a 0 "charwise [121]"]
    by (simp add: write_reg_def is_writable_def char_simps registers_new_def Let_def into_named_def i del: view.simps)
  then show ?thesis by (simp add: reg_get_view read_slot_def)
qed

section \<open>Restoring the registers from a trace\<close>

text \<open>
  A file of slots: what a slot reads after one was put. A client that replays a list of puts
  relies on this only.
\<close>

locale slot_file =
  fixes look :: "'s \<Rightarrow> 'n \<Rightarrow> 'v" and put :: "'n \<Rightarrow> 'v \<Rightarrow> 's \<Rightarrow> 's"
    and ok :: "'s \<Rightarrow> bool" and valid :: "'n \<Rightarrow> bool"
  assumes look_put: "ok s \<Longrightarrow> valid n \<Longrightarrow> look (put n v s) = (look s)(n := v)"
    and ok_put: "ok s \<Longrightarrow> valid n \<Longrightarrow> ok (put n v s)"
begin

lemma look_replay:
  assumes "ok s" "\<forall>p \<in> set ps. valid (fst p)" "distinct (map fst ps)"
  shows "look (fold (\<lambda>p. put (fst p) (snd p)) ps s) n =
    (case map_of ps n of Some v \<Rightarrow> v | None \<Rightarrow> look s n)"
  using assms
proof (induction ps arbitrary: s)
  case (Cons p ps)
  have "map_of ps (fst p) = None" using Cons.prems(3) by (simp add: map_of_eq_None_iff)
  with Cons show ?case
    by (simp add: ok_put look_put split: option.split)
qed simp

end

text \<open>The name a trace gives a slot, and the slots a trace can write.\<close>

fun slot_name :: "reg_slot \<Rightarrow> reg_name" where
  "slot_name Unnamed = None"
| "slot_name Yank0 = Some ch_0"
| "slot_name (Numbered i) = Some (ch_1 + i)"
| "slot_name (Named i) = Some (ch_a + i)"
| "slot_name Small = Some ch_minus"
| "slot_name Black = Some ch_underscore"
| "slot_name Clip = Some ch_plus"
| "slot_name Expr = Some ch_equals"
| "slot_name Search = Some ch_slash"
| "slot_name Last_Ex = Some ch_colon"
| "slot_name Inserted = Some ch_dot"
| "slot_name File = Some ch_percent"
| "slot_name Alternate = Some ch_hash"

fun slot_valid :: "reg_slot \<Rightarrow> bool" where
  "slot_valid (Numbered i) = (i < 9)"
| "slot_valid (Named i) = (i < 26)"
| "slot_valid Black = False"
| "slot_valid Expr = False"
| "slot_valid x = True"

definition put_slot :: "reg_slot \<Rightarrow> register \<Rightarrow> register_store \<Rightarrow> register_store" where
  "put_slot x r s = snd (set_slot s (slot_name x) r)"

lemma set_slot_shape: "store_shape s \<Longrightarrow> store_shape (snd (set_slot s n r))"
  by (auto simp: set_slot_def store_shape_def split: option.split)

lemma view_put_slot:
  assumes "store_shape s" and "slot_valid x"
  shows "view (put_slot x r s) = (view s)(x := r)"
  using assms
  by (cases x)
     (auto simp: put_slot_def set_slot_def view_updates view_named_update view_numbered_update store_shape_def)

interpretation sf: slot_file view put_slot store_shape slot_valid
  by unfold_locales (rule view_put_slot, assumption+, simp add: put_slot_def set_slot_shape)

text \<open>The slots a trace records, in the order it writes them.\<close>

definition trace_slots :: "reg_slot list" where
  "trace_slots = [Unnamed, Yank0] @ map Numbered [0..<9] @ [Small] @ map Named [0..<26]"

lemma zip_slots:
  "length rs = n \<Longrightarrow> zip (map Some [c..<c + n]) rs = map (\<lambda>i. (Some (c + i), rs ! i)) [0..<n]"
  by (rule nth_equalityI) simp_all

lemma filled_slots:
  assumes "store_shape s"
  shows "filled s = map (\<lambda>(x, r). (slot_name x, r)) (filter (\<lambda>(x, r). r_set r) (map (\<lambda>x. (x, view s x)) trace_slots))"
proof -
  have z1: "zip (map Some [ch_1..<Suc ch_9]) (rs_numbered s) = map (\<lambda>i. (Some (ch_1 + i), rs_numbered s ! i)) [0..<9]"
    using zip_slots [of "rs_numbered s" 9 ch_1] assms by (simp add: store_shape_def del: upt_rec_numeral)
  have z2: "zip (map Some [ch_a..<Suc ch_z]) (rs_named s) = map (\<lambda>i. (Some (ch_a + i), rs_named s ! i)) [0..<26]"
    using zip_slots [of "rs_named s" 26 ch_a] assms by (simp add: store_shape_def del: upt_rec_numeral)
  have m: "map (\<lambda>x. (slot_name x, view s x)) (map Numbered [0..<9]) = map (\<lambda>i. (Some (ch_1 + i), rs_numbered s ! i)) [0..<9]"
    "map (\<lambda>x. (slot_name x, view s x)) (map Named [0..<26]) = map (\<lambda>i. (Some (ch_a + i), rs_named s ! i)) [0..<26]"
    by (simp_all del: upt_rec_numeral upt_Suc)
  have "filled s = filter (\<lambda>(n, r). r_set r) (map (\<lambda>x. (slot_name x, view s x)) trace_slots)"
    unfolding filled_def trace_slots_def map_append z1 z2 m by simp
  then show ?thesis by (simp add: filter_map o_def split_beta)
qed

lemma trace_slots_valid: "\<forall>x \<in> set trace_slots. slot_valid x"
  by (auto simp: trace_slots_def)

lemma distinct_trace_slots: "distinct trace_slots"
  by (auto simp: trace_slots_def distinct_map inj_on_def)

text \<open>The registers a trace starts with restore the session's: writing what \<open>filled\<close> lists into
  a fresh store, slot by slot, gives every register of a reachable store that a trace records,
  and every write is accepted.\<close>

theorem trace_restores_registers:
  assumes "store_reach s"
  shows "(\<forall>p \<in> set (filled s). is_slot (fst p) \<and> (\<forall>t. fst (set_slot t (fst p) (snd p))))
    \<and> (\<forall>x \<in> set trace_slots.
         view (fold (\<lambda>p t. snd (set_slot t (fst p) (snd p))) (filled s) registers_new) x = view s x)"
proof -
  note ok = store_reach_ok [OF assms]
  note sh = registers_ok_shape [OF ok]
  let ?ps = "filter (\<lambda>(x, r). r_set r) (map (\<lambda>x. (x, view s x)) trace_slots)"
  have named: "is_slot (slot_name x) \<and> (\<forall>t r. fst (set_slot t (slot_name x) r))" if "slot_valid x" for x
    using that by (cases x) (auto simp: is_slot_def set_slot_def char_simps)
  have valid: "\<forall>p \<in> set ?ps. slot_valid (fst p)" using trace_slots_valid by auto
  have dist: "distinct (map fst ?ps)"
    using distinct_trace_slots by (simp add: filter_map o_def split_beta)
  have new: "store_shape registers_new" using registers_ok_new by (rule registers_ok_shape)
  have fold: "fold (\<lambda>p t. snd (set_slot t (fst p) (snd p))) (filled s) registers_new
      = fold (\<lambda>p. put_slot (fst p) (snd p)) ?ps registers_new"
    unfolding filled_slots [OF sh] by (simp add: fold_map o_def split_beta put_slot_def [abs_def])
  have "view (fold (\<lambda>p. put_slot (fst p) (snd p)) ?ps registers_new) x = view s x" if x: "x \<in> set trace_slots" for x
  proof -
    have "map_of ?ps x = (if r_set (view s x) then Some (view s x) else None)"
    proof (cases "r_set (view s x)")
      case True
      then have "(x, view s x) \<in> set ?ps" using x by auto
      with dist True show ?thesis by simp
    next
      case False
      then have "x \<notin> fst ` set ?ps" by auto
      with False show ?thesis by (simp add: map_of_eq_None_iff)
    qed
    moreover have "view registers_new x = reg_default" by (cases x) (simp_all add: registers_new_def special_default_def)
    moreover have "\<not> r_set (view s x) \<Longrightarrow> view s x = reg_default"
      using view_ok [OF ok, of x] by (simp add: reg_ok_def)
    ultimately show ?thesis using sf.look_replay [OF new valid dist, of x] by auto
  qed
  moreover have "\<forall>p \<in> set (filled s). is_slot (fst p) \<and> (\<forall>t. fst (set_slot t (fst p) (snd p)))"
    unfolding filled_slots [OF sh] using named trace_slots_valid by auto
  ultimately show ?thesis unfolding fold by blast
qed

theorem trace_restores_registers_witness:
  "view (fold (\<lambda>p t. snd (set_slot t (fst p) (snd p)))
       (filled (yank_reg registers_new None (linewise [120]))) registers_new) Yank0
     = linewise [120]"
proof -
  have reach: "store_reach (yank_reg registers_new None (linewise [120]))"
    by (intro reach_step [OF reach_new] step_yank) simp
  have slot: "Yank0 \<in> set trace_slots" by (simp add: trace_slots_def)
  have "view (yank_reg registers_new None (linewise [120])) Yank0 = linewise [120]"
    by (simp add: yank_reg_def write_reg_def is_writable_def)
  with conjunct2 [OF trace_restores_registers [OF reach], rule_format, OF slot] show ?thesis by (rule trans)
qed

end
