(* ===== verification/Line_Diff.thy ===== *)
theory Line_Diff
  imports Prelude
begin

text \<open>
  The recovery prompt's difference view, \<^verbatim>\<open>apps/tui/src/persist/diff.rs\<close>: Myers' search for a shortest
  edit script over lines, with its bounds, the walk back over its trace, and the unified diff
  built from the script.
\<close>

section \<open>The search\<close>

definition CONTEXT :: nat where "CONTEXT = 3"
definition MAX_D :: nat where "MAX_D = 2000"
definition MAX_WORK :: nat where "MAX_WORK = 20000000"
definition MAX_LINES :: nat where "MAX_LINES = 1000000"
definition MAX_OUTPUT :: nat where "MAX_OUTPUT = 100000"

datatype op = Keep | Del | Ins

text \<open>Split into lines, each with its newline; the last one may have none.\<close>

fun split_inclusive :: "bytes \<Rightarrow> bytes \<Rightarrow> bytes list" where
  "split_inclusive acc [] = (if acc = [] then [] else [acc])"
| "split_inclusive acc (c # cs) =
     (if c = newline then (acc @ [c]) # split_inclusive [] cs else split_inclusive (acc @ [c]) cs)"

definition diff_lines :: "bytes \<Rightarrow> bytes list" where
  "diff_lines b = split_inclusive [] b"

text \<open>
  Casts: an \<open>isize\<close> that is negative wraps as \<open>usize\<close>, and a length is stored as \<open>u32\<close>.
\<close>

definition as_usize :: "int \<Rightarrow> nat" where
  "as_usize z = nat (z mod 2 ^ 64)"

definition as_u32 :: "nat \<Rightarrow> nat" where
  "as_u32 x = x mod 2 ^ 32"

function snake :: "'a list \<Rightarrow> 'a list \<Rightarrow> nat \<Rightarrow> nat \<Rightarrow> nat \<Rightarrow> nat \<times> nat \<times> nat" where
  "snake a b x y work =
     (if x < length a \<and> y < length b \<and> a ! x = b ! y then snake a b (x + 1) (y + 1) (work + 1)
      else (x, y, work))"
  by auto
termination
  by (relation "measure (\<lambda>(a, b, x, y, work). length a - x)") auto

text \<open>One diagonal of round \<open>d\<close>: where the walk starts, from the diagonal below or above.\<close>

definition start_x :: "(int \<Rightarrow> nat) \<Rightarrow> int \<Rightarrow> int \<Rightarrow> nat" where
  "start_x get d k =
     (if k = - d \<or> (k \<noteq> d \<and> get (k - 1) < get (k + 1)) then get (k + 1) else get (k - 1) + 1)"

text \<open>The walk back over the trace from the end, producing the script in order.\<close>

function keep_back :: "int \<Rightarrow> int \<Rightarrow> int \<Rightarrow> int \<Rightarrow> op list \<Rightarrow> op list \<times> int \<times> int" where
  "keep_back x y px py ops =
     (if x > px \<and> y > py then keep_back (x - 1) (y - 1) px py (ops @ [Keep]) else (ops, x, y))"
  by auto
termination
  by (relation "measure (\<lambda>(x, y, px, py, ops). nat (x - px))") auto

fun back_rounds :: "nat list list \<Rightarrow> nat \<Rightarrow> int \<Rightarrow> int \<Rightarrow> op list \<Rightarrow> op list \<times> int \<times> int" where
  "back_rounds trace 0 x y ops = (ops, x, y)"
| "back_rounds trace (Suc n) x y ops =
     (let d = int n;
          w = trace ! n;
          get = (\<lambda>k. int (w ! as_usize (k + d + 1)));
          k = x - y;
          prev_k = (if k = - d \<or> (k \<noteq> d \<and> get (k - 1) < get (k + 1)) then k + 1 else k - 1);
          prev_x = get prev_k;
          prev_y = prev_x - prev_k;
          (ops1, x1, y1) = keep_back x y prev_x prev_y ops;
          ops2 = (if d > 0 then ops1 @ [if x1 = prev_x then Ins else Del] else ops1)
      in back_rounds trace n prev_x prev_y ops2)"

definition backtrack :: "nat list list \<Rightarrow> nat \<Rightarrow> nat \<Rightarrow> op list" where
  "backtrack trace n m =
     (let (ops, x, y) = back_rounds trace (length trace) (int n) (int m) [];
          (ops', _, _) = keep_back x y 0 0 ops
      in rev ops')"

text \<open>
  The diagonals of one round, \<open>k = -d, -d + 2, \<dots>, d\<close>. The result is the value \<open>myers\<close> returns
  early with, or the array and the work counted so far.
\<close>

function myers_round :: "'a list \<Rightarrow> 'a list \<Rightarrow> int \<Rightarrow> int \<Rightarrow> nat list list \<Rightarrow> int \<Rightarrow> nat list \<Rightarrow> nat
    \<Rightarrow> op list option + nat list \<times> nat" where
  "myers_round a b off d trace k v work =
     (if k \<le> d then
        let x0 = start_x (\<lambda>j. v ! as_usize (j + off)) d k;
            y0 = as_usize (int x0 - k);
            (x, y, w1) = snake a b x0 y0 work;
            work' = w1 + 1
        in if work' > MAX_WORK then Inl None
           else
             let v' = v[as_usize (k + off) := as_u32 x]
             in if x \<ge> length a \<and> y \<ge> length b then Inl (Some (backtrack trace (length a) (length b)))
                else myers_round a b off d trace (k + 2) v' work'
      else Inr (v, work))"
  by auto
termination
  by (relation "measure (\<lambda>(a, b, off, d, trace, k, v, work). nat (d - k + 1))") auto

text \<open>The rounds \<open>d = 0, \<dots>, max\<close>; \<open>left\<close> counts those still to run.\<close>

fun myers_loop :: "'a list \<Rightarrow> 'a list \<Rightarrow> int \<Rightarrow> nat \<Rightarrow> nat \<Rightarrow> nat list list \<Rightarrow> nat list \<Rightarrow> nat
    \<Rightarrow> op list option" where
  "myers_loop a b off 0 d trace v work = None"
| "myers_loop a b off (Suc left) d trace v work =
     (if d > MAX_D then None
      else
        let trace' = trace @ [slice (as_usize (- int d - 1 + off)) (as_usize (int d + 1 + off) + 1) v]
        in case myers_round a b off (int d) trace' (- int d) v work of
             Inl r \<Rightarrow> r
           | Inr (v', work') \<Rightarrow> myers_loop a b off left (d + 1) trace' v' work')"

definition myers :: "'a list \<Rightarrow> 'a list \<Rightarrow> op list option" where
  "myers a b =
     (let mx = length a + length b
      in if mx = 0 then Some []
         else myers_loop a b (int mx + 1) (mx + 1) 0 [] (replicate (2 * mx + 3) 0) 0)"

section \<open>Scripts\<close>

text \<open>
  A script from \<open>a\<close> to \<open>b\<close>: kept lines are equal on both sides, removed ones come from \<open>a\<close>,
  added ones from \<open>b\<close>, and both sides are used up. Its cost is the number of lines it changes.
\<close>

fun script :: "op list \<Rightarrow> 'a list \<Rightarrow> 'a list \<Rightarrow> bool" where
  "script [] a b \<longleftrightarrow> a = [] \<and> b = []"
| "script (Keep # ops) a b \<longleftrightarrow> (case (a, b) of (x # a', y # b') \<Rightarrow> x = y \<and> script ops a' b' | _ \<Rightarrow> False)"
| "script (Del # ops) a b \<longleftrightarrow> (case a of x # a' \<Rightarrow> script ops a' b | [] \<Rightarrow> False)"
| "script (Ins # ops) a b \<longleftrightarrow> (case b of y # b' \<Rightarrow> script ops a b' | [] \<Rightarrow> False)"

definition cost :: "op list \<Rightarrow> nat" where
  "cost ops = length (filter (\<lambda>q. q \<noteq> Keep) ops)"

end
