(* ===== verification/Diff_Search.thy ===== *)
theory Diff_Search
  imports Line_Diff
begin

text \<open>
  The search for a shortest script is correct: the furthest-reaching points of Myers' rounds as a
  recursive function, the array and the trace of the code holding them, the walk back as a
  script, and the first finished round as the smallest cost.
\<close>

declare snake.simps [simp del] keep_back.simps [simp del] myers_round.simps [simp del]

section \<open>Snakes\<close>

lemma snake_spec:
  "\<exists>j. snake a b x y w = (x + j, y + j, w + j)
     \<and> (\<forall>i < j. x + i < length a \<and> y + i < length b \<and> a ! (x + i) = b ! (y + i))
     \<and> \<not> (x + j < length a \<and> y + j < length b \<and> a ! (x + j) = b ! (y + j))"
proof (induction a b x y w rule: snake.induct)
  case (1 a b x y w)
  show ?case
  proof (cases "x < length a \<and> y < length b \<and> a ! x = b ! y")
    case True
    then obtain j where j: "snake a b (x + 1) (y + 1) (w + 1) = (x + 1 + j, y + 1 + j, w + 1 + j)"
      "\<forall>i < j. x + 1 + i < length a \<and> y + 1 + i < length b \<and> a ! (x + 1 + i) = b ! (y + 1 + i)"
      "\<not> (x + 1 + j < length a \<and> y + 1 + j < length b \<and> a ! (x + 1 + j) = b ! (y + 1 + j))"
      using 1 by blast
    show ?thesis
      using True j by (intro exI [of _ "Suc j"]) (subst snake.simps, auto simp: less_Suc_eq_0_disj)
  next
    case False
    then show ?thesis by (intro exI [of _ 0]) (subst snake.simps, auto)
  qed
qed

text \<open>The end of the snake that starts at column \<open>x\<close> of diagonal \<open>k\<close>.\<close>

definition slide :: "'a list \<Rightarrow> 'a list \<Rightarrow> nat \<Rightarrow> int \<Rightarrow> nat" where
  "slide a b x k = fst (snake a b x (nat (int x - k)) 0)"

lemma snake_slide:
  assumes "k \<le> int x"
  shows "snake a b x (nat (int x - k)) w
    = (slide a b x k, nat (int (slide a b x k) - k), w + (slide a b x k - x))"
    and "x \<le> slide a b x k"
    and "i < slide a b x k - x \<Longrightarrow> x + i < length a \<and> nat (int x - k) + i < length b
        \<and> a ! (x + i) = b ! (nat (int x - k) + i)"
    and "\<not> (slide a b x k < length a \<and> nat (int (slide a b x k) - k) < length b
        \<and> a ! slide a b x k = b ! nat (int (slide a b x k) - k))"
proof -
  obtain j where j: "snake a b x (nat (int x - k)) 0 = (x + j, nat (int x - k) + j, 0 + j)"
     "\<forall>i < j. x + i < length a \<and> nat (int x - k) + i < length b \<and> a ! (x + i) = b ! (nat (int x - k) + i)"
     "\<not> (x + j < length a \<and> nat (int x - k) + j < length b \<and> a ! (x + j) = b ! (nat (int x - k) + j))"
    using snake_spec by blast
  obtain j' where j': "snake a b x (nat (int x - k)) w = (x + j', nat (int x - k) + j', w + j')"
     "\<forall>i < j'. x + i < length a \<and> nat (int x - k) + i < length b \<and> a ! (x + i) = b ! (nat (int x - k) + i)"
     "\<not> (x + j' < length a \<and> nat (int x - k) + j' < length b \<and> a ! (x + j') = b ! (nat (int x - k) + j'))"
    using snake_spec by blast
  have "j' = j" using j(2,3) j'(2,3) by (metis linorder_neqE_nat)
  moreover have s: "slide a b x k = x + j" by (simp add: slide_def j(1))
  moreover have "nat (int x - k) + j = nat (int (x + j) - k)" using assms by simp
  ultimately show "snake a b x (nat (int x - k)) w
      = (slide a b x k, nat (int (slide a b x k) - k), w + (slide a b x k - x))"
    and "x \<le> slide a b x k"
    and "i < slide a b x k - x \<Longrightarrow> x + i < length a \<and> nat (int x - k) + i < length b
        \<and> a ! (x + i) = b ! (nat (int x - k) + i)"
    and "\<not> (slide a b x k < length a \<and> nat (int (slide a b x k) - k) < length b
        \<and> a ! slide a b x k = b ! nat (int (slide a b x k) - k))"
    using j j'(1) by simp_all
qed

lemma slide_le: "x \<le> length a \<Longrightarrow> slide a b x k \<le> length a"
proof -
  assume "x \<le> length a"
  obtain j where j: "snake a b x (nat (int x - k)) 0 = (x + j, nat (int x - k) + j, 0 + j)"
     "\<forall>i < j. x + i < length a \<and> nat (int x - k) + i < length b \<and> a ! (x + i) = b ! (nat (int x - k) + i)"
    using snake_spec by blast
  show ?thesis using j(1) j(2) [rule_format, of "j - 1"] \<open>x \<le> length a\<close> by (cases j) (simp_all add: slide_def)
qed

section \<open>Furthest-reaching points\<close>

fun far :: "'a list \<Rightarrow> 'a list \<Rightarrow> nat \<Rightarrow> int \<Rightarrow> nat" where
  "far a b 0 k = slide a b 0 k"
| "far a b (Suc d) k = slide a b (start_x (far a b d) (int d + 1) k) k"

text \<open>The diagonals of a round.\<close>

definition diag :: "nat \<Rightarrow> int \<Rightarrow> bool" where
  "diag d k \<longleftrightarrow> \<bar>k\<bar> \<le> int d \<and> even (int d + k)"

lemma diag_0 [simp]: "diag 0 k \<longleftrightarrow> k = 0"
  by (auto simp: diag_def)

lemma diag_Suc_up: "diag d k \<Longrightarrow> diag (Suc d) (k + 1)"
  by (auto simp: diag_def)

lemma diag_Suc_down: "diag d k \<Longrightarrow> diag (Suc d) (k - 1)"
  by (auto simp: diag_def)

lemma diag_prev_up: "diag (Suc d) k \<Longrightarrow> k \<noteq> int d + 1 \<Longrightarrow> diag d (k + 1)"
  by (simp add: diag_def) presburger

lemma diag_prev_down: "diag (Suc d) k \<Longrightarrow> k \<noteq> - (int d + 1) \<Longrightarrow> diag d (k - 1)"
  by (simp add: diag_def) presburger

lemma far_ge: "diag d k \<Longrightarrow> k \<le> int (far a b d k)"
proof (induction d arbitrary: k)
  case (Suc d)
  have "k \<le> int (start_x (far a b d) (int d + 1) k)"
    using Suc.IH [of "k + 1"] Suc.IH [of "k - 1"] diag_prev_up [OF Suc.prems] diag_prev_down [OF Suc.prems]
    by (auto simp: start_x_def)
  then show ?case using snake_slide(2) [of k "start_x (far a b d) (int d + 1) k" a b] by simp
qed simp

lemma start_ge: "diag (Suc d) k \<Longrightarrow> k \<le> int (start_x (far a b d) (int d + 1) k)"
  using far_ge [of d "k + 1" a b] far_ge [of d "k - 1" a b] diag_prev_up [of d k] diag_prev_down [of d k]
  by (auto simp: start_x_def)

text \<open>The start of a diagonal is the better of the two neighbours, so both are reached.\<close>

lemma slide_ge: "x \<le> slide a b x k"
  using snake_spec [of a b x "nat (int x - k)" 0] by (auto simp: slide_def)

lemma start_right: "diag d k \<Longrightarrow> far a b d k + 1 \<le> start_x (far a b d) (int d + 1) (k + 1)"
  by (auto simp: start_x_def diag_def)

lemma start_down: "diag d k \<Longrightarrow> far a b d k \<le> start_x (far a b d) (int d + 1) (k - 1)"
  by (auto simp: start_x_def diag_def)

lemma far_right: "diag d k \<Longrightarrow> far a b d k + 1 \<le> far a b (Suc d) (k + 1)"
  using le_trans [OF start_right slide_ge] by simp

lemma far_down: "diag d k \<Longrightarrow> far a b d k \<le> far a b (Suc d) (k - 1)"
  using le_trans [OF start_down slide_ge] by simp

lemma far_stop:
  assumes "diag d k"
  shows "\<not> (far a b d k < length a \<and> nat (int (far a b d k) - k) < length b
        \<and> a ! far a b d k = b ! nat (int (far a b d k) - k))"
  using assms snake_slide(4) [of k 0 a b] snake_slide(4) [OF start_ge, of _ k a b]
  by (cases d) auto

text \<open>A point past an end of a text was not slid to.\<close>

lemma slide_past: "slide a b x k \<noteq> x \<Longrightarrow> k \<le> int x \<Longrightarrow>
    slide a b x k \<le> length a \<and> int (slide a b x k) - k \<le> int (length b)"
proof -
  assume ne: "slide a b x k \<noteq> x" and k: "k \<le> int x"
  define j where "j = slide a b x k - x - 1"
  have j: "slide a b x k = x + j + 1" using ne slide_ge [of x a b k] by (simp add: j_def)
  have "x + j < length a \<and> nat (int x - k) + j < length b"
    using snake_slide(3) [OF k, of j a b] j by simp
  with j k show ?thesis by (simp, arith)
qed

lemma far_le: "far a b d k \<le> length a + d"
proof (induction d arbitrary: k)
  case 0
  show ?case using slide_le [of 0 a b k] by simp
next
  case (Suc d)
  let ?x = "start_x (far a b d) (int d + 1) k"
  have "?x \<le> length a + Suc d"
    using Suc [of "k + 1"] Suc [of "k - 1"] by (auto simp: start_x_def)
  moreover have "slide a b ?x k \<le> max ?x (length a)"
  proof -
    obtain j where j: "snake a b ?x (nat (int ?x - k)) 0 = (?x + j, nat (int ?x - k) + j, 0 + j)"
       "\<forall>i < j. ?x + i < length a" using snake_spec by blast
    show ?thesis
    proof (cases j)
      case (Suc i)
      then have "?x + i < length a" using j(2) by blast
      with Suc j(1) show ?thesis by (simp add: slide_def)
    qed (use j(1) in \<open>simp add: slide_def\<close>)
  qed
  ultimately show ?case by simp
qed

section \<open>The first finished round\<close>

text \<open>A round is finished when one of its points is at or past both ends.\<close>

definition finished :: "'a list \<Rightarrow> 'a list \<Rightarrow> nat \<Rightarrow> int \<Rightarrow> bool" where
  "finished a b d k \<longleftrightarrow> diag d k \<and> length a \<le> far a b d k \<and> int (length b) \<le> int (far a b d k) - k"

text \<open>
  A point below the last line of \<open>b\<close> was reached through a point on that line, in an earlier
  round; likewise to the right of \<open>a\<close>.
\<close>

lemma below_last:
  assumes "diag d k" and "int (far a b d k) - k = int (length b) + int j"
  shows "j \<le> d \<and> diag (d - j) (k + int j) \<and> far a b d k \<le> far a b (d - j) (k + int j)"
  using assms
proof (induction d arbitrary: k j)
  case 0
  then have "k = 0" by simp
  show ?case
  proof (cases "slide a b 0 0 = 0")
    case True
    then show ?thesis using 0 by simp
  next
    case False
    then have "j = 0" using slide_past [of a b 0 0] 0 by simp
    then show ?thesis using 0 by simp
  qed
next
  case (Suc d)
  let ?x = "start_x (far a b d) (int d + 1) k"
  show ?case
  proof (cases "j = 0")
    case False
    have x: "far a b (Suc d) k = ?x"
      using slide_past [of a b ?x k] start_ge [OF Suc.prems(1), of a b] Suc.prems(2) False
      by (cases "slide a b ?x k = ?x") auto
    consider (down) "diag d (k + 1)" "?x = far a b d (k + 1)"
      | (right) "diag d (k - 1)" "?x = far a b d (k - 1) + 1"
      using diag_prev_up [OF Suc.prems(1)] diag_prev_down [OF Suc.prems(1)]
      by (cases "k = - (int d + 1) \<or> (k \<noteq> int d + 1 \<and> far a b d (k - 1) < far a b d (k + 1))")
         (auto simp: start_x_def)
    then show ?thesis
    proof cases
      case down
      have "int (far a b d (k + 1)) - (k + 1) = int (length b) + int (j - 1)"
        using Suc.prems(2) x down(2) False by simp
      from Suc.IH [OF down(1) this] show ?thesis using x down(2) False
        by (auto simp: of_nat_diff Suc_diff_le)
    next
      case right
      have "int (far a b d (k - 1)) - (k - 1) = int (length b) + int j"
        using Suc.prems(2) x right(2) by simp
      from Suc.IH [OF right(1) this] have IH: "j \<le> d" "diag (d - j) (k - 1 + int j)"
        "far a b d (k - 1) \<le> far a b (d - j) (k - 1 + int j)" by auto
      from far_right [OF IH(2), of a b] diag_Suc_up [OF IH(2)] IH show ?thesis
        using x right(2) by (simp add: Suc_diff_le)
    qed
  qed (use Suc.prems in simp)
qed

lemma right_of_last:
  assumes "diag d k" and "far a b d k = length a + j"
  shows "j \<le> d \<and> diag (d - j) (k - int j) \<and> length a \<le> far a b (d - j) (k - int j)"
  using assms
proof (induction d arbitrary: k j)
  case 0
  then have "j = 0" using slide_le [of 0 a b k] by simp
  then show ?case using 0 by simp
next
  case (Suc d)
  let ?x = "start_x (far a b d) (int d + 1) k"
  show ?case
  proof (cases "j = 0")
    case False
    have x: "far a b (Suc d) k = ?x"
      using slide_past [of a b ?x k] start_ge [OF Suc.prems(1), of a b] Suc.prems(2) False
      by (cases "slide a b ?x k = ?x") auto
    consider (down) "diag d (k + 1)" "?x = far a b d (k + 1)"
      | (right) "diag d (k - 1)" "?x = far a b d (k - 1) + 1"
      using diag_prev_up [OF Suc.prems(1)] diag_prev_down [OF Suc.prems(1)]
      by (cases "k = - (int d + 1) \<or> (k \<noteq> int d + 1 \<and> far a b d (k - 1) < far a b d (k + 1))")
         (auto simp: start_x_def)
    then show ?thesis
    proof cases
      case down
      have "far a b d (k + 1) = length a + j" using Suc.prems(2) x down(2) by simp
      from Suc.IH [OF down(1) this] have IH: "j \<le> d" "diag (d - j) (k + 1 - int j)"
        "length a \<le> far a b (d - j) (k + 1 - int j)" by auto
      from far_down [OF IH(2), of a b] diag_Suc_down [OF IH(2)] IH show ?thesis
        by (simp add: Suc_diff_le)
    next
      case right
      have "far a b d (k - 1) = length a + (j - 1)" using Suc.prems(2) x right(2) False by simp
      from Suc.IH [OF right(1) this] show ?thesis using False
        by (auto simp: of_nat_diff Suc_diff_le)
    qed
  qed (use Suc.prems in simp)
qed

text \<open>Hence the first finished round ends exactly at both ends.\<close>

lemma first_finished_exact:
  assumes fin: "finished a b d k" and first: "\<forall>d' < d. \<forall>k'. \<not> finished a b d' k'"
  shows "far a b d k = length a \<and> k = int (length a) - int (length b)"
proof -
  have dk: "diag d k" and x: "length a \<le> far a b d k" and y: "int (length b) \<le> int (far a b d k) - k"
    using fin by (auto simp: finished_def)
  have "far a b d k = length a"
  proof (rule ccontr)
    assume "far a b d k \<noteq> length a"
    define j where "j = far a b d k - length a"
    have j: "far a b d k = length a + j" "0 < j" using x \<open>far a b d k \<noteq> length a\<close> by (simp_all add: j_def)
    note r = right_of_last [OF dk j(1)]
    have "finished a b (d - j) (k - int j)" using r y j by (auto simp: finished_def)
    with first r j(2) show False by simp
  qed
  moreover have "int (far a b d k) - k = int (length b)"
  proof (rule ccontr)
    assume "int (far a b d k) - k \<noteq> int (length b)"
    define j where "j = nat (int (far a b d k) - k - int (length b))"
    have j: "int (far a b d k) - k = int (length b) + int j" "0 < j"
      using y \<open>int (far a b d k) - k \<noteq> int (length b)\<close> by (simp_all add: j_def)
    note r = below_last [OF dk j(1)]
    have "finished a b (d - j) (k + int j)" using r x j by (auto simp: finished_def)
    with first r j(2) show False by simp
  qed
  ultimately show ?thesis by simp
qed

section \<open>Scripts and rounds\<close>

lemma script_snoc:
  "script (ops @ [Keep]) a b \<longleftrightarrow> a \<noteq> [] \<and> b \<noteq> [] \<and> last a = last b \<and> script ops (butlast a) (butlast b)"
  "script (ops @ [Del]) a b \<longleftrightarrow> a \<noteq> [] \<and> script ops (butlast a) b"
  "script (ops @ [Ins]) a b \<longleftrightarrow> b \<noteq> [] \<and> script ops a (butlast b)"
  by (induction ops a b rule: script.induct) (auto split: list.splits)

lemma script_append:
  "script ops a b \<Longrightarrow> script ops' a' b' \<Longrightarrow> script (ops @ ops') (a @ a') (b @ b')"
  by (induction ops a b rule: script.induct) (auto split: list.splits)

lemma cost_snoc [simp]: "cost (ops @ [q]) = cost ops + (if q = Keep then 0 else 1)"
  by (simp add: cost_def)

lemma cost_Nil [simp]: "cost [] = 0"
  by (simp add: cost_def)

text \<open>A script of cost \<open>c\<close> never gets further than round \<open>c\<close> of the search.\<close>

lemma far_covers:
  assumes "script ops (take x a) (take y b)" and "x \<le> length a" and "y \<le> length b"
  shows "diag (cost ops) (int x - int y) \<and> x \<le> far a b (cost ops) (int x - int y)"
  using assms
proof (induction ops arbitrary: x y rule: rev_induct)
  case (snoc q ops)
  have bl: "butlast (take z xs) = take (z - 1) xs" if "z \<le> length xs" for z and xs :: "'a list"
    using that by (simp add: butlast_take)
  show ?case
  proof (cases q)
    case Keep
    with snoc.prems have ne: "x \<noteq> 0" "y \<noteq> 0" "a ! (x - 1) = b ! (y - 1)"
      and s: "script ops (take (x - 1) a) (take (y - 1) b)"
      by (auto simp: script_snoc bl last_conv_nth)
    have k: "int (x - 1) - int (y - 1) = int x - int y" using ne by simp
    from snoc.IH [OF s] snoc.prems ne have IH: "diag (cost ops) (int x - int y)"
      "x - 1 \<le> far a b (cost ops) (int x - int y)" by (simp_all add: k)
    have "far a b (cost ops) (int x - int y) \<noteq> x - 1"
    proof
      assume f: "far a b (cost ops) (int x - int y) = x - 1"
      have "nat (int (x - 1) - (int x - int y)) = y - 1" using ne by simp
      then show False using far_stop [OF IH(1), of a b] snoc.prems ne by (simp add: f)
    qed
    with IH Keep show ?thesis by simp
  next
    case Del
    with snoc.prems have ne: "x \<noteq> 0" and s: "script ops (take (x - 1) a) (take y b)"
      by (auto simp: script_snoc bl)
    from snoc.IH [OF s] snoc.prems ne have IH: "diag (cost ops) (int x - int y - 1)"
      "x - 1 \<le> far a b (cost ops) (int x - int y - 1)" by (simp_all add: of_nat_diff algebra_simps)
    show ?thesis using diag_Suc_up [OF IH(1)] far_right [OF IH(1), of a b] IH(2) Del by simp
  next
    case Ins
    with snoc.prems have ne: "y \<noteq> 0" and s: "script ops (take x a) (take (y - 1) b)"
      by (auto simp: script_snoc bl)
    from snoc.IH [OF s] snoc.prems ne have IH: "diag (cost ops) (int x - int y + 1)"
      "x \<le> far a b (cost ops) (int x - int y + 1)" by (simp_all add: of_nat_diff algebra_simps)
    show ?thesis using diag_Suc_down [OF IH(1)] far_down [OF IH(1), of a b] IH(2) Ins by simp
  qed
qed auto

corollary script_finishes:
  assumes "script ops a b"
  shows "finished a b (cost ops) (int (length a) - int (length b))"
  using far_covers [of ops "length a" a "length b" b] assms by (simp add: finished_def)

section \<open>The walk back\<close>

lemma keep_back_spec:
  "px \<le> x \<Longrightarrow> py \<le> y \<Longrightarrow> keep_back x y px py ops =
     (ops @ replicate (nat (min (x - px) (y - py))) Keep, x - min (x - px) (y - py), y - min (x - px) (y - py))"
proof (induction x y px py ops rule: keep_back.induct)
  case (1 x y px py ops)
  show ?case
  proof (cases "x > px \<and> y > py")
    case True
    have "nat (min (x - px) (y - py)) = Suc (nat (min (x - 1 - px) (y - 1 - py)))"
      using True by (simp add: min_def Suc_nat_eq_nat_zadd1)
    with 1 True show ?thesis
      by (subst keep_back.simps) (simp add: min_def split: if_splits)
  next
    case False
    then have "min (x - px) (y - py) = 0" using 1(2,3) by (auto simp: min_def)
    with False show ?thesis by (subst keep_back.simps) auto
  qed
qed

text \<open>What the trace holds: entry \<open>d\<close> the points of round \<open>d - 1\<close>, entry \<open>0\<close> zeros.\<close>

definition trace_ok :: "'a list \<Rightarrow> 'a list \<Rightarrow> nat list list \<Rightarrow> bool" where
  "trace_ok a b trace \<longleftrightarrow>
     (\<forall>d < length trace. case d of
        0 \<Rightarrow> trace ! 0 ! 2 = 0
      | Suc d' \<Rightarrow> (\<forall>k. diag d' k \<longrightarrow> trace ! d ! as_usize (k + int d + 1) = far a b d' k))"

lemma as_usize_eq: "0 \<le> z \<Longrightarrow> z < 2 ^ 64 \<Longrightarrow> as_usize z = nat z"
  by (simp add: as_usize_def)

text \<open>A snake is a run of kept lines.\<close>

lemma script_keeps:
  assumes "\<forall>i < j. x + i < length a \<and> y + i < length b \<and> a ! (x + i) = b ! (y + i)"
    and "script ops (take x a) (take y b)"
  shows "script (ops @ replicate j Keep) (take (x + j) a) (take (y + j) b)"
  using assms(1)
proof (induction j)
  case (Suc j)
  have lt: "x + j < length a" "y + j < length b" "a ! (x + j) = b ! (y + j)" using Suc.prems by auto
  have "script (ops @ replicate j Keep) (take (x + j) a) (take (y + j) b)" using Suc by simp
  then have "script ((ops @ replicate j Keep) @ [Keep]) (take (x + Suc j) a) (take (y + Suc j) b)"
    unfolding script_snoc using lt by (simp add: take_Suc_conv_app_nth)
  then show ?case by (simp add: replicate_append_same)
qed (use assms(2) in simp)

lemma back_rounds_script:
  assumes "trace_ok a b trace" "d < length trace" "diag d (x - y)" "x = int (far a b d (x - y))"
    and "x \<le> int (length a)" "0 \<le> y" "y \<le> int (length b)" and "int d < 2 ^ 62"
  shows "\<exists>s. back_rounds trace (Suc d) x y ops = (ops @ rev s, 0, -1)
    \<and> script s (take (nat x) a) (take (nat y) b) \<and> cost s = d"
  using assms
proof (induction d arbitrary: x y ops)
  case 0
  have xy: "y = x" using 0 by simp
  have x: "x = int (slide a b 0 0)" using 0 by simp
  have tr: "trace ! 0 ! 2 = 0" using 0(1,2) by (auto simp: trace_ok_def)
  have w: "as_usize 2 = 2" by (simp add: as_usize_def)
  have kb: "keep_back x x 0 (- 1) ops = (ops @ replicate (nat x) Keep, 0, 0)"
    using x by (subst keep_back_spec) (auto simp: min_def)
  have "back_rounds trace (Suc 0) x y ops = (ops @ replicate (nat x) Keep, 0, - 1)"
    by (simp add: xy tr w kb Let_def)
  moreover have "script (replicate (nat x) Keep) (take (nat x) a) (take (nat x) b)"
    using script_keeps [of "nat x" 0 a 0 b "[]"] snake_slide(3) [of 0 0 _ a b] x by simp
  ultimately show ?case
    by (intro exI [of _ "replicate (nat x) Keep"]) (simp add: xy cost_def)
next
  case (Suc d)
  define k where "k = x - y"
  have dk: "diag (Suc d) k" using Suc.prems by (simp add: k_def)
  let ?get = "\<lambda>j. int (trace ! Suc d ! as_usize (j + int (Suc d) + 1))"
  have get: "?get j = int (far a b d j)" if "diag d j" for j
    using Suc.prems(1,2) that by (auto simp: trace_ok_def algebra_simps)
  let ?c = "k = - (int d + 1) \<or> (k \<noteq> int d + 1 \<and> far a b d (k - 1) < far a b d (k + 1))"
  have c: "(k = - int (Suc d) \<or> (k \<noteq> int (Suc d) \<and> ?get (k - 1) < ?get (k + 1))) \<longleftrightarrow> ?c"
    using get [OF diag_prev_up [OF dk]] get [OF diag_prev_down [OF dk]] by auto
  define pk where "pk = (if ?c then k + 1 else k - 1)"
  have dpk: "diag d pk"
    using diag_prev_up [OF dk] diag_prev_down [OF dk] by (auto simp: pk_def)
  define px where "px = int (far a b d pk)"
  define py where "py = px - pk"
  have py0: "0 \<le> py" using far_ge [OF dpk, of a b] by (simp add: py_def px_def)
  define x0 where "x0 = start_x (far a b d) (int d + 1) k"
  have x0: "int x0 = (if ?c then px else px + 1)" by (simp add: x0_def start_x_def px_def pk_def)
  have kx0: "k \<le> int x0" unfolding x0_def by (rule start_ge [OF dk])
  have x: "nat x = slide a b x0 k" "0 \<le> x" using Suc.prems(4) by (simp_all add: k_def x0_def)
  have le: "int x0 \<le> x" using slide_ge [of x0 a b k] x by simp
  define q where "q = (if ?c then Ins else Del)"
  define j where "j = slide a b x0 k - x0"
  have j: "int j = x - int x0" using le x by (simp add: j_def)
  have mn: "min (x - px) (y - py) = int j" "x - int j = int x0" "px \<le> x" "py \<le> y" "py \<le> int x0 - k"
    "int x0 - k \<le> y"
    using x0 j le by (auto simp: py_def pk_def k_def min_def split: if_splits)
  have q: "(if int x0 = px then Ins else Del) = q" using x0 by (auto simp: q_def)
  have kb: "keep_back x y px py ops = (ops @ replicate j Keep, int x0, y - int j)"
    using keep_back_spec [OF mn(3,4), of ops] mn(1,2) by simp
  have step: "back_rounds trace (Suc (Suc d)) x y ops
      = back_rounds trace (Suc d) px py (ops @ replicate j Keep @ [q])"
    unfolding back_rounds.simps(2) [of trace "Suc d"] Let_def k_def [symmetric] c pk_def [symmetric]
      get [OF dpk] px_def [symmetric] py_def [symmetric] kb prod.case
    by (simp add: q)
  have "px \<le> int (length a)" "py \<le> int (length b)" "px - py = pk"
    using mn Suc.prems by (simp_all add: py_def)
  from Suc.IH [of px py "ops @ replicate j Keep @ [q]"] Suc.prems this py0 dpk
  obtain s where s: "back_rounds trace (Suc d) px py (ops @ replicate j Keep @ [q])
      = (ops @ replicate j Keep @ [q] @ rev s, 0, - 1)"
    "script s (take (nat px) a) (take (nat py) b)" "cost s = d"
    by (auto simp: px_def)
  have "script (s @ [q]) (take x0 a) (take (nat (int x0 - k)) b)"
  proof (cases ?c)
    case True
    then have "nat px = x0" "nat (int x0 - k) = Suc (nat py)"
      using x0 py0 by (auto simp: py_def pk_def)
    moreover have "nat py < length b"
      using mn Suc.prems calculation by linarith
    moreover have "q = Ins" unfolding q_def by (rule if_P [OF True])
    ultimately show ?thesis using s(2)
      by (simp add: script_snoc butlast_take take_Suc_conv_app_nth)
  next
    case False
    then have px: "x0 = Suc (nat px)" "nat (int x0 - k) = nat py"
      using x0 py0 by (auto simp: py_def pk_def px_def)
    moreover have "nat px < length a"
      using le Suc.prems px by linarith
    moreover have "q = Del" unfolding q_def by (rule if_not_P [OF False])
    ultimately show ?thesis using s(2)
      by (simp add: script_snoc butlast_take take_Suc_conv_app_nth)
  qed
  then have "script ((s @ [q]) @ replicate j Keep) (take (x0 + j) a) (take (nat (int x0 - k) + j) b)"
    using snake_slide(3) [OF kx0, of _ a b] by (intro script_keeps) (simp_all add: j_def)
  moreover have "x0 + j = nat x" "nat (int x0 - k) + j = nat y"
    using j x kx0 by (auto simp: k_def)
  moreover have "cost ((s @ [q]) @ replicate j Keep) = Suc d"
    using s(3) by (simp add: cost_def q_def)
  ultimately show ?case
    unfolding step s(1) by (intro exI [of _ "(s @ [q]) @ replicate j Keep"]) simp
qed

lemma backtrack_script:
  assumes tr: "trace_ok a b trace" "length trace = Suc d" and fin: "finished a b d k"
    and first: "\<forall>d' < d. \<forall>k'. \<not> finished a b d' k'" and d: "int d < 2 ^ 62"
  shows "script (backtrack trace (length a) (length b)) a b \<and> cost (backtrack trace (length a) (length b)) = d"
proof -
  have e: "far a b d k = length a" "k = int (length a) - int (length b)"
    using first_finished_exact [OF fin first] by auto
  have "diag d k" using fin by (simp add: finished_def)
  then obtain s where s: "back_rounds trace (Suc d) (int (length a)) (int (length b)) [] = ([] @ rev s, 0, -1)"
    "script s (take (nat (int (length a))) a) (take (nat (int (length b))) b)" "cost s = d"
    using back_rounds_script [OF tr(1), of d "int (length a)" "int (length b)" "[]"] tr(2) d e by auto
  have "keep_back 0 (- 1) 0 0 (rev s) = (rev s, 0, - 1)" by (subst keep_back.simps) simp
  with s tr(2) show ?thesis by (simp add: backtrack_def Let_def)
qed

section \<open>The array\<close>

text \<open>
  The array before round \<open>d\<close>: the diagonals of round \<open>d - 1\<close> hold its points. During the round the
  diagonals below \<open>k\<close> hold the new points, those of the other parity the old ones.
\<close>

definition old_row :: "'a list \<Rightarrow> 'a list \<Rightarrow> int \<Rightarrow> nat \<Rightarrow> nat list \<Rightarrow> bool" where
  "old_row a b off d v \<longleftrightarrow> (case d of 0 \<Rightarrow> v ! as_usize (1 + off) = 0
     | Suc d' \<Rightarrow> (\<forall>j. diag d' j \<longrightarrow> v ! as_usize (j + off) = far a b d' j))"

definition array_ok :: "'a list \<Rightarrow> 'a list \<Rightarrow> int \<Rightarrow> nat list \<Rightarrow> bool" where
  "array_ok a b off v \<longleftrightarrow> off = int (length a + length b) + 1 \<and> length v = 2 * (length a + length b) + 3
     \<and> length a + length b \<le> MAX_LINES"

lemma at_inj:
  assumes "array_ok a b off v" "\<bar>j\<bar> \<le> int (length a + length b) + 1"
  shows "as_usize (j + off) = nat (j + off)" "nat (j + off) < length v" "0 \<le> j + off"
proof -
  show 0: "0 \<le> j + off" using assms by (simp add: array_ok_def)
  show "nat (j + off) < length v" using assms by (simp add: array_ok_def nat_less_iff)
  have "j + off < 2 ^ 64" using assms by (auto simp: array_ok_def MAX_LINES_def abs_le_iff)
  then show "as_usize (j + off) = nat (j + off)" using 0 by (rule as_usize_eq [rotated])
qed

lemma start_row:
  assumes "old_row a b off d v" and "diag d k"
  shows "start_x (\<lambda>j. v ! as_usize (j + off)) (int d) k =
    (case d of 0 \<Rightarrow> 0 | Suc d' \<Rightarrow> start_x (far a b d') (int d' + 1) k)"
proof (cases d)
  case 0
  then show ?thesis using assms by (simp add: old_row_def start_x_def)
next
  case (Suc d')
  have get: "v ! as_usize (j + off) = far a b d' j" if "diag d' j" for j
    using assms(1) that by (simp add: Suc old_row_def)
  show ?thesis
    using get [OF diag_prev_up [of d' k]] get [OF diag_prev_down [of d' k]] assms(2)
    by (auto simp: Suc start_x_def)
qed

lemma far_unfold: "far a b d k = slide a b (case d of 0 \<Rightarrow> 0 | Suc d' \<Rightarrow> start_x (far a b d') (int d' + 1) k) k"
  by (cases d) simp_all

lemma start_unfold_ge: "diag d k \<Longrightarrow> k \<le> int (case d of 0 \<Rightarrow> 0 | Suc d' \<Rightarrow> start_x (far a b d') (int d' + 1) k)"
  using start_ge [of _ k a b] by (auto split: nat.split)

section \<open>The work counted\<close>

text \<open>
  The work of a diagonal is one for the diagonal and one for each line slid over; \<open>work_before a b d k\<close> is that of the
  rounds before \<open>d\<close> and of the diagonals of round \<open>d\<close> below \<open>k\<close>.  \<open>search_work a b d\<close> is the work of a whole search
  that ends in round \<open>d\<close>: the diagonal it ends on is the one of both ends.
\<close>

definition origin_x :: "'a list \<Rightarrow> 'a list \<Rightarrow> nat \<Rightarrow> int \<Rightarrow> nat" where
  "origin_x a b d k = (case d of 0 \<Rightarrow> 0 | Suc d' \<Rightarrow> start_x (far a b d') (int d' + 1) k)"

definition diag_work :: "'a list \<Rightarrow> 'a list \<Rightarrow> nat \<Rightarrow> int \<Rightarrow> nat" where
  "diag_work a b d k = far a b d k - origin_x a b d k + 1"

definition diags :: "nat \<Rightarrow> int set" where
  "diags d = {k. diag d k}"

definition work_before :: "'a list \<Rightarrow> 'a list \<Rightarrow> nat \<Rightarrow> int \<Rightarrow> nat" where
  "work_before a b d k = (\<Sum>e < d. \<Sum>j \<in> diags e. diag_work a b e j) + (\<Sum>j \<in> {j \<in> diags d. j < k}. diag_work a b d j)"

definition search_work :: "'a list \<Rightarrow> 'a list \<Rightarrow> nat \<Rightarrow> nat" where
  "search_work a b d = work_before a b d (int (length a) - int (length b) + 1)"

lemma finite_diags [simp]: "finite (diags d)"
  by (rule finite_subset [of _ "{- int d..int d}"]) (auto simp: diags_def diag_def)

lemma work_before_first: "work_before a b d (- int d) = (\<Sum>e < d. \<Sum>j \<in> diags e. diag_work a b e j)"
proof -
  have "{j \<in> diags d. j < - int d} = {}" by (auto simp: diags_def diag_def)
  then show ?thesis by (simp only: work_before_def sum.empty add_0_right)
qed

lemma work_before_next:
  assumes "diag d k"
  shows "work_before a b d (k + 2) = work_before a b d k + diag_work a b d k"
    and "work_before a b d (k + 1) = work_before a b d k + diag_work a b d k"
proof -
  have "j < k + 2 \<longleftrightarrow> j = k \<or> j < k" "j < k + 1 \<longleftrightarrow> j = k \<or> j < k" if "diag d j" for j
    using that assms unfolding diag_def by presburger+
  then have "{j \<in> diags d. j < k + 2} = insert k {j \<in> diags d. j < k}" "{j \<in> diags d. j < k + 1} = insert k {j \<in> diags d. j < k}"
    using assms by (auto simp: diags_def)
  then show "work_before a b d (k + 2) = work_before a b d k + diag_work a b d k"
    "work_before a b d (k + 1) = work_before a b d k + diag_work a b d k" by (simp_all add: work_before_def)
qed

lemma work_before_round: "work_before a b d (int d + 2) = work_before a b (Suc d) (- int (Suc d))"
proof -
  have "{j \<in> diags d. j < int d + 2} = diags d" by (auto simp: diags_def diag_def)
  then show ?thesis unfolding work_before_first by (simp only: work_before_def sum.lessThan_Suc)
qed

lemma work_before_mono:
  assumes "d < e \<or> d = e \<and> k \<le> l"
  shows "work_before a b d k \<le> work_before a b e l"
  using assms
proof
  assume de: "d < e"
  have "(\<Sum>j \<in> {j \<in> diags d. j < k}. diag_work a b d j) \<le> (\<Sum>j \<in> diags d. diag_work a b d j)"
    by (rule sum_mono2) auto
  then have "work_before a b d k \<le> (\<Sum>i < Suc d. \<Sum>j \<in> diags i. diag_work a b i j)" by (simp add: work_before_def)
  also have "\<dots> \<le> (\<Sum>i < e. \<Sum>j \<in> diags i. diag_work a b i j)" by (rule sum_mono2) (use de in auto)
  finally show ?thesis by (simp add: work_before_def)
next
  assume "d = e \<and> k \<le> l"
  moreover have "k \<le> l \<Longrightarrow> (\<Sum>j \<in> {j \<in> diags e. j < k}. diag_work a b e j) \<le> (\<Sum>j \<in> {j \<in> diags e. j < l}. diag_work a b e j)"
    by (rule sum_mono2) auto
  ultimately show ?thesis by (simp add: work_before_def)
qed

text \<open>A closed bound: each of the at most \<open>d + 1\<close> diagonals of a round slides over at most the lines of \<open>a\<close>.\<close>

lemma card_diags: "card (diags d) \<le> d + 1"
proof -
  have "diags d \<subseteq> (\<lambda>i. 2 * int i - int d) ` {..d}"
  proof
    fix k assume "k \<in> diags d"
    then have k: "\<bar>k\<bar> \<le> int d" "even (int d + k)" by (auto simp: diags_def diag_def)
    then obtain z where "int d + k = 2 * z" by (elim evenE)
    then have "k = 2 * int (nat z) - int d" "nat z \<le> d" using k(1) by auto
    then show "k \<in> (\<lambda>i. 2 * int i - int d) ` {..d}" by blast
  qed
  from card_mono [OF _ this] show ?thesis using card_image_le [of "{..d}" "\<lambda>i. 2 * int i - int d"] by simp
qed

lemma diag_work_le:
  assumes "diag d k"
  shows "diag_work a b d k \<le> length a + 1"
proof -
  have k: "k \<le> int (origin_x a b d k)" using start_unfold_ge [OF assms, of a b] by (simp add: origin_x_def)
  have "far a b d k = slide a b (origin_x a b d k) k" using far_unfold [of a b d k] by (simp only: origin_x_def)
  then show ?thesis using slide_past [OF _ k, of a b] by (cases "far a b d k = origin_x a b d k") (auto simp: diag_work_def)
qed

lemma search_work_le: "search_work a b d \<le> (d + 1) * (d + 1) * (length a + 1)"
proof -
  have row: "(\<Sum>j \<in> J. diag_work a b e j) \<le> (d + 1) * (length a + 1)" if "e \<le> d" "J \<subseteq> diags e" for e J
  proof -
    have "(\<Sum>j \<in> J. diag_work a b e j) \<le> of_nat (card J) * (length a + 1)"
      by (rule sum_bounded_above) (use that(2) diag_work_le [of e _ a b] in \<open>auto simp: diags_def\<close>)
    moreover have "card J \<le> d + 1" using card_mono [OF finite_diags that(2)] card_diags [of e] that(1) by simp
    ultimately show ?thesis by (metis le_trans mult_le_mono1 of_nat_id)
  qed
  let ?r = "(d + 1) * (length a + 1)"
  have "(\<Sum>e < d. \<Sum>j \<in> diags e. diag_work a b e j) \<le> of_nat (card {..<d}) * ?r"
    by (rule sum_bounded_above) (rule row, auto)
  then have "(\<Sum>e < d. \<Sum>j \<in> diags e. diag_work a b e j) \<le> d * ?r" by (simp only: card_lessThan of_nat_id)
  moreover have "(\<Sum>j \<in> {j \<in> diags d. j < int (length a) - int (length b) + 1}. diag_work a b d j) \<le> ?r"
    by (rule row) auto
  ultimately have "search_work a b d \<le> d * ?r + ?r" unfolding search_work_def work_before_def by (rule add_mono)
  then show ?thesis by (simp only: distrib_right mult_1 mult.assoc)
qed

text \<open>What a round leaves of the diagonals below \<open>k\<close>.\<close>

definition new_row :: "'a list \<Rightarrow> 'a list \<Rightarrow> int \<Rightarrow> nat \<Rightarrow> int \<Rightarrow> nat list \<Rightarrow> bool" where
  "new_row a b off d k v \<longleftrightarrow>
     (\<forall>j. diag d j \<and> j < k \<longrightarrow> v ! as_usize (j + off) = far a b d j \<and> \<not> finished a b d j)"

lemma row_update:
  assumes ok: "array_ok a b off v" and d: "d \<le> length a + length b" and dk: "diag d k"
    and old: "old_row a b off d v" and new: "new_row a b off d k v"
    and nf: "\<not> finished a b d k"
  defines "v' \<equiv> v[as_usize (k + off) := as_u32 (far a b d k)]"
  shows "array_ok a b off v' \<and> old_row a b off d v' \<and> new_row a b off d (k + 2) v'"
proof -
  have mx: "\<bar>j\<bar> \<le> int (length a + length b) + 1" if "\<bar>j\<bar> \<le> int d + 1" for j
    using that d by simp
  note at = at_inj [OF ok mx]
  have dk': "\<bar>k\<bar> \<le> int d + 1" "even (int d + k)" using dk by (auto simp: diag_def)
  have "far a b d k < 2 ^ 32" using far_le [of a b d k] d ok by (simp add: array_ok_def MAX_LINES_def)
  then have fit: "as_u32 (far a b d k) = far a b d k" by (simp add: as_u32_def)
  have other: "v' ! as_usize (j + off) = v ! as_usize (j + off)" if "\<bar>j\<bar> \<le> int d + 1" "j \<noteq> k" for j
    using that at [OF that(1)] at [OF dk'(1)] by (auto simp: v'_def nat_eq_iff nth_list_update_neq)
  have same: "v' ! as_usize (k + off) = far a b d k"
    using at [OF dk'(1)] by (simp add: v'_def fit)
  have "old_row a b off d v'"
  proof (cases d)
    case 0
    then show ?thesis using old other [of 1] dk by (simp add: old_row_def)
  next
    case (Suc d')
    have "j \<noteq> k" "\<bar>j\<bar> \<le> int d + 1" if "diag d' j" for j
      using that dk by (auto simp: Suc diag_def)
    then show ?thesis using old other by (simp add: old_row_def Suc)
  qed
  moreover have "new_row a b off d (k + 2) v'"
    unfolding new_row_def
  proof (intro allI impI)
    fix j assume j: "diag d j \<and> j < k + 2"
    then have "even (j - k)" using dk by (auto simp: diag_def)
    then have "j = k \<or> j < k" using conjunct2 [OF j] by presburger
    then show "v' ! as_usize (j + off) = far a b d j \<and> \<not> finished a b d j"
      using same nf new other [of j] j by (auto simp: new_row_def diag_def)
  qed
  ultimately show ?thesis using ok by (simp add: array_ok_def v'_def)
qed

text \<open>One diagonal as the code computes it.\<close>

lemma diagonal_step:
  assumes ok: "array_ok a b off v" and d: "d \<le> length a + length b" and dk: "diag d k"
    and old: "old_row a b off d v"
  defines "x0 \<equiv> start_x (\<lambda>j. v ! as_usize (j + off)) (int d) k"
  shows "snake a b x0 (as_usize (int x0 - k)) w = (far a b d k, nat (int (far a b d k) - k), w + (diag_work a b d k - 1))"
proof -
  have x0: "x0 = (case d of 0 \<Rightarrow> 0 | Suc d' \<Rightarrow> start_x (far a b d') (int d' + 1) k)"
    unfolding x0_def by (rule start_row [OF old dk])
  have k: "k \<le> int x0" unfolding x0 by (rule start_unfold_ge [OF dk])
  have f: "far a b d k = slide a b x0 k" unfolding x0 by (rule far_unfold)
  have "x0 \<le> length a + d" using f slide_ge [of x0 a b k] far_le [of a b d k] by linarith
  then have "int x0 - k < 2 ^ 64" using d dk ok by (auto simp: array_ok_def diag_def MAX_LINES_def abs_le_iff)
  then have "as_usize (int x0 - k) = nat (int x0 - k)" using k by (intro as_usize_eq) simp_all
  then show ?thesis using snake_slide(1) [OF k, of a b w] f x0 by (simp add: diag_work_def origin_x_def)
qed

lemma myers_round_spec:
  assumes "array_ok a b off v" "d \<le> length a + length b" "diag d k \<or> k = int d + 2"
    "old_row a b off d v" "new_row a b off d k v" "work = work_before a b d k"
  shows "case myers_round a b off (int d) trace k v work of
      Inl None \<Rightarrow> \<exists>j. diag d j \<and> (\<forall>i < j. \<not> finished a b d i) \<and> MAX_WORK < work_before a b d (j + 1)
    | Inl (Some s) \<Rightarrow> s = backtrack trace (length a) (length b) \<and> (\<exists>j. finished a b d j \<and> work_before a b d (j + 1) \<le> MAX_WORK)
    | Inr (v', work') \<Rightarrow> array_ok a b off v' \<and> old_row a b off (Suc d) v' \<and> (\<forall>j. \<not> finished a b d j)
        \<and> work' = work_before a b (Suc d) (- int (Suc d))"
  using assms
proof (induction "nat (int d - k + 2)" arbitrary: k v work rule: less_induct)
  case less
  show ?case
  proof (cases "k \<le> int d")
    case False
    then have k: "k = int d + 2" using less.prems(3) by (auto simp: diag_def)
    have "\<forall>j. diag d j \<longrightarrow> v ! as_usize (j + off) = far a b d j \<and> \<not> finished a b d j"
      using less.prems(5) unfolding new_row_def k by (auto simp: diag_def)
    then show ?thesis using less.prems(1,6) False work_before_round [of a b d]
      by (subst myers_round.simps) (auto simp: old_row_def finished_def k)
  next
    case True
    then have dk: "diag d k" using less.prems(3) by auto
    let ?x0 = "start_x (\<lambda>j. v ! as_usize (j + off)) (int d) k" and ?w = "work_before a b d (k + 1)"
    have w: "work + (diag_work a b d k - 1) + 1 = ?w" "work_before a b d (k + 2) = ?w"
      using work_before_next [OF dk, of a b] less.prems(6) by (simp_all add: diag_work_def)
    note j = diagonal_step [OF less.prems(1,2) dk less.prems(4), of work]
    let ?v = "v[as_usize (k + off) := as_u32 (far a b d k)]"
    have fin: "length a \<le> far a b d k \<and> length b \<le> nat (int (far a b d k) - k) \<longleftrightarrow> finished a b d k"
      using dk far_ge [OF dk, of a b] by (auto simp: finished_def)
    have step: "myers_round a b off (int d) trace k v work =
      (if ?w > MAX_WORK then Inl None
       else if finished a b d k then Inl (Some (backtrack trace (length a) (length b)))
       else myers_round a b off (int d) trace (k + 2) ?v ?w)"
      unfolding w(1) [symmetric] using True by (subst myers_round.simps) (simp add: j Let_def fin)
    have nf: "\<not> finished a b d i" if "i < k" for i
      using less.prems(5) that by (cases "diag d i") (auto simp: new_row_def finished_def)
    show ?thesis
    proof (cases "?w > MAX_WORK")
      case True
      then show ?thesis using dk nf by (auto simp: step)
    next
      case False
      show ?thesis
      proof (cases "finished a b d k")
        case True
        then show ?thesis using False by (auto simp: step)
      next
        case nfk: False
        note up = row_update [OF less.prems(1,2) dk less.prems(4,5) nfk]
        have k2: "diag d (k + 2) \<or> k + 2 = int d + 2"
          using dk \<open>k \<le> int d\<close> by (auto simp: diag_def) presburger+
        have "nat (int d - (k + 2) + 2) < nat (int d - k + 2)" using \<open>k \<le> int d\<close> by simp
        from less.hyps [OF this _ less.prems(2) k2, of ?v ?w] up w(2) False nfk
        show ?thesis by (simp add: step)
      qed
    qed
  qed
qed

section \<open>The rounds\<close>

lemma trace_push:
  assumes ok: "array_ok a b off v" and d: "d \<le> length a + length b" and old: "old_row a b off d v"
    and tr: "trace_ok a b trace" "length trace = d"
  shows "trace_ok a b (trace @ [slice (as_usize (- int d - 1 + off)) (as_usize (int d + 1 + off) + 1) v])"
proof -
  let ?lo = "as_usize (- int d - 1 + off)" and ?hi = "as_usize (int d + 1 + off)"
  have mx: "\<bar>j\<bar> \<le> int (length a + length b) + 1" if "\<bar>j\<bar> \<le> int d + 1" for j
    using that d by simp
  note at = at_inj [OF ok mx]
  have lo: "?lo = nat (- int d - 1 + off)" "0 \<le> - int d - 1 + off" using at [of "- int d - 1"] by simp_all
  have hi: "?hi = nat (int d + 1 + off)" "?hi < length v" using at [of "int d + 1"] by simp_all
  have win: "slice ?lo (?hi + 1) v ! as_usize (k + int d + 1) = v ! as_usize (k + off)"
    if k: "\<bar>k\<bar> \<le> int d + 1" for k
  proof -
    have "k + int d + 1 < 2 ^ 64" using k d ok by (auto simp: array_ok_def MAX_LINES_def abs_le_iff)
    then have i: "as_usize (k + int d + 1) = nat (k + int d + 1)" using k by (intro as_usize_eq) simp_all
    have e: "?lo + nat (k + int d + 1) = nat (k + off)" using k lo by (simp add: nat_add_distrib [symmetric])
    have "nat (k + int d + 1) < ?hi + 1 - ?lo" using k lo hi(1) by auto
    then show ?thesis using hi(2) at(1) [OF k] by (simp add: i slice_nth e)
  qed
  show ?thesis
    unfolding trace_ok_def
  proof (intro allI impI)
    fix e assume e: "e < length (trace @ [slice ?lo (?hi + 1) v])"
    show "case e of 0 \<Rightarrow> (trace @ [slice ?lo (?hi + 1) v]) ! 0 ! 2 = 0
      | Suc d' \<Rightarrow> (\<forall>k. diag d' k \<longrightarrow> (trace @ [slice ?lo (?hi + 1) v]) ! e ! as_usize (k + int e + 1) = far a b d' k)"
    proof (cases "e < length trace")
      case True
      then show ?thesis using tr(1) unfolding trace_ok_def by (auto simp: nth_append split: nat.split)
    next
      case False
      then have "e = d" using e tr(2) by simp
      have two: "as_usize (2 :: int) = 2" by (simp add: as_usize_def)
      show ?thesis
      proof (cases d)
        case 0
        then show ?thesis using old win [of 1] two tr(2) \<open>e = d\<close> by (simp add: old_row_def)
      next
        case (Suc d')
        have "\<bar>k\<bar> \<le> int d + 1" if "diag d' k" for k using that Suc by (simp add: diag_def)
        then show ?thesis using old win tr(2) \<open>e = d\<close> Suc by (simp add: old_row_def nth_append)
      qed
    qed
  qed
qed

text \<open>
  The search from round \<open>d\<close> on, no earlier round having finished: it finds a script as short as the shortest one,
  \<open>sh\<close>, exactly when that is within \<open>MAX_D\<close> and the work up to its round is within \<open>MAX_WORK\<close>.
\<close>

lemma myers_loop_spec:
  assumes "array_ok a b off v" "left + d = length a + length b + 1" "old_row a b off d v"
    "trace_ok a b trace" "length trace = d" "\<forall>d' < d. \<forall>k. \<not> finished a b d' k"
    and "work = work_before a b d (- int d)" and sh: "script sh a b" "\<forall>s'. script s' a b \<longrightarrow> cost sh \<le> cost s'"
  shows "case myers_loop a b off left d trace v work of
      Some s \<Rightarrow> script s a b \<and> cost s = cost sh \<and> cost sh \<le> MAX_D \<and> search_work a b (cost sh) \<le> MAX_WORK
    | None \<Rightarrow> MAX_D < cost sh \<or> MAX_WORK < search_work a b (cost sh)"
  using assms(1-7)
proof (induction left arbitrary: d trace v work)
  case 0
  have "script (replicate (length a) Del @ replicate (length b) Ins) a b"
  proof -
    have "script (replicate (length a) Del) a []" by (induction a) auto
    moreover have "script (replicate (length b) Ins) [] b" by (induction b) auto
    ultimately show ?thesis using script_append by fastforce
  qed
  from script_finishes [OF this] 0 have "\<not> length a + length b < d" by (auto simp: cost_def)
  with 0 show ?case by simp
next
  case (Suc left)
  let ?tr = "trace @ [slice (as_usize (- int d - 1 + off)) (as_usize (int d + 1 + off) + 1) v]"
  let ?n = "int (length a) - int (length b)"
  have d: "d \<le> length a + length b" using Suc.prems(2) by simp
  have ends: "finished a b (cost sh) ?n" by (rule script_finishes [OF sh(1)])
  then have dsh: "d \<le> cost sh" using Suc.prems(6) by (meson linorder_not_less)
  have tr: "trace_ok a b ?tr" "length ?tr = Suc d"
    using trace_push [OF Suc.prems(1) d Suc.prems(3,4,5)] Suc.prems(5) by simp_all
  have new: "new_row a b off d (- int d) v" by (auto simp: new_row_def diag_def)
  have dg: "diag d (- int d) \<or> - int d = int d + 2" by (simp add: diag_def)
  note round = myers_round_spec [OF Suc.prems(1) d dg Suc.prems(3) new Suc.prems(7), where trace = ?tr]
  show ?case
  proof (cases "d > MAX_D")
    case True
    then show ?thesis using dsh by simp
  next
    case False
    show ?thesis
    proof (cases "myers_round a b off (int d) ?tr (- int d) v work")
      case (Inl r)
      show ?thesis
      proof (cases r)
        case None
        then obtain j where j: "diag d j" "\<forall>i < j. \<not> finished a b d i" "MAX_WORK < work_before a b d (j + 1)"
          using Inl round by auto
        have "d < cost sh \<or> d = cost sh \<and> j + 1 \<le> ?n + 1" using dsh j(2) ends by (cases "d = cost sh") (auto simp: not_le [symmetric])
        from work_before_mono [OF this, of a b] j(3) show ?thesis using Inl None False by (simp add: search_work_def)
      next
        case (Some s)
        then obtain k where s: "s = backtrack ?tr (length a) (length b)" and k: "finished a b d k" "work_before a b d (k + 1) \<le> MAX_WORK"
          using Inl round by auto
        have "int d < 2 ^ 62" using d Suc.prems(1) by (simp add: array_ok_def MAX_LINES_def)
        from backtrack_script [OF tr k(1) Suc.prems(6) this] have sc: "script s a b" "cost s = d" using s by auto
        have "cost sh = d" using sh(2) sc dsh by (metis le_antisym)
        moreover have "k = ?n" using first_finished_exact [OF k(1) Suc.prems(6)] by simp
        ultimately show ?thesis using sc k(2) Inl Some False by (simp add: search_work_def)
      qed
    next
      case (Inr p)
      obtain v' work' where p: "p = (v', work')" by (cases p)
      have ok: "array_ok a b off v'" "old_row a b off (Suc d) v'" "\<forall>j. \<not> finished a b d j"
        "work' = work_before a b (Suc d) (- int (Suc d))" using round Inr p by auto
      have first: "\<forall>d' < Suc d. \<forall>k. \<not> finished a b d' k" using ok(3) Suc.prems(6) by (auto simp: less_Suc_eq)
      have "left + Suc d = length a + length b + 1" using Suc.prems(2) by simp
      from Suc.IH [OF ok(1) this ok(2) tr first ok(4)] show ?thesis using Inr p False by simp
    qed
  qed
qed

section \<open>The properties\<close>

lemma myers_spec:
  assumes "length a + length b \<le> MAX_LINES" and sh: "script sh a b" "\<forall>s'. script s' a b \<longrightarrow> cost sh \<le> cost s'"
  shows "case myers a b of
      Some s \<Rightarrow> script s a b \<and> cost s = cost sh \<and> cost sh \<le> MAX_D \<and> search_work a b (cost sh) \<le> MAX_WORK
    | None \<Rightarrow> MAX_D < cost sh \<or> MAX_WORK < search_work a b (cost sh)"
proof (cases "a = [] \<and> b = []")
  case False
  let ?mx = "length a + length b"
  have "array_ok a b (int ?mx + 1) (replicate (2 * ?mx + 3) 0)" using assms(1) by (simp add: array_ok_def)
  moreover have "old_row a b (int ?mx + 1) 0 (replicate (2 * ?mx + 3) 0)"
    using at_inj(1,2) [OF calculation, of 1] by (simp add: old_row_def)
  ultimately have "case myers_loop a b (int ?mx + 1) (?mx + 1) 0 [] (replicate (2 * ?mx + 3) 0) 0 of
      Some s \<Rightarrow> script s a b \<and> cost s = cost sh \<and> cost sh \<le> MAX_D \<and> search_work a b (cost sh) \<le> MAX_WORK
    | None \<Rightarrow> MAX_D < cost sh \<or> MAX_WORK < search_work a b (cost sh)"
    using work_before_first [of a b 0] by (intro myers_loop_spec [OF _ _ _ _ _ _ _ sh]) (simp_all add: trace_ok_def)
  moreover have "myers a b = myers_loop a b (int ?mx + 1) (?mx + 1) 0 [] (replicate (2 * ?mx + 3) 0) 0"
    using False by (auto simp: myers_def Let_def simp del: myers_loop.simps)
  ultimately show ?thesis by (simp only:)
next
  case True
  have "cost sh = 0" using sh(2) [THEN spec, of "[]"] True by simp
  moreover have "search_work a b 0 \<le> 1" using search_work_le [of a b 0] True by simp
  ultimately show ?thesis using True by (simp add: myers_def MAX_WORK_def)
qed

text \<open>There is a shortest script.\<close>

lemma shortest_script:
  obtains sh where "script sh a b" "\<forall>s'. script s' a b \<longrightarrow> cost sh \<le> cost s'"
proof -
  have "script (replicate (length a) Del) a []" by (induction a) auto
  moreover have "script (replicate (length b) Ins) [] b" by (induction b) auto
  ultimately have "\<exists>s. script s a b" using script_append by fastforce
  then have "script (arg_min cost (\<lambda>s. script s a b)) a b"
    "\<forall>s'. script s' a b \<longrightarrow> cost (arg_min cost (\<lambda>s. script s a b)) \<le> cost s'"
    using arg_min_nat_lemma [of "\<lambda>s. script s a b"] by blast+
  then show ?thesis by (rule that)
qed

lemma myers_Some:
  assumes "length a + length b \<le> MAX_LINES" "myers a b = Some s"
  shows "script s a b \<and> (\<forall>s'. script s' a b \<longrightarrow> cost s \<le> cost s')"
proof -
  obtain sh where "script sh a b" "\<forall>s'. script s' a b \<longrightarrow> cost sh \<le> cost s'" by (rule shortest_script)
  with myers_spec [OF assms(1) this] assms(2) show ?thesis by simp
qed

end
