(* ===== verification/Pos.thy ===== *)
theory Pos
  imports Prelude
begin

text \<open>
  Typed positions and line arithmetic (\<^verbatim>\<open>crates/core/src/pos.rs\<close>): the revision stamp, the conversion
  between byte and character positions of a text, and the one home of "which line is this byte on".
  A \<^verbatim>\<open>Revision\<close> is the 64-bit word of the source.  The lemmas give each scan its declarative meaning,
  and show that the chunked search for a line start finds what the plain list of line starts holds.
\<close>

section \<open>Revisions\<close>

type_synonym revision = u64

definition ZERO :: revision where
  "ZERO = 0"

definition next_rev :: "revision \<Rightarrow> revision" where
  "next_rev r = r + 1"

section \<open>Byte and character positions of a string\<close>

text \<open>
  A \<^verbatim>\<open>&str\<close> is a list of Unicode scalar values; each takes one to four bytes.  \<open>str_prefix\<close> is
  \<^verbatim>\<open>text[..b]\<close>, which panics (\<open>None\<close>) off a character boundary.
\<close>

definition len_utf8 :: "nat \<Rightarrow> nat" where
  "len_utf8 c = (if c < 0x80 then 1 else if c < 0x800 then 2 else if c < 0x10000 then 3 else 4)"

definition str_len :: "nat list \<Rightarrow> nat" where
  "str_len str = sum_list (map len_utf8 str)"

fun str_prefix :: "nat list \<Rightarrow> nat \<Rightarrow> nat list option" where
  "str_prefix str b =
     (if b = 0 then Some []
      else case str of
        [] \<Rightarrow> None
      | c # cs \<Rightarrow> if b < len_utf8 c then None
                 else map_option (Cons c) (str_prefix cs (b - len_utf8 c)))"

fun char_indices :: "nat \<Rightarrow> nat list \<Rightarrow> (nat \<times> nat) list" where
  "char_indices at [] = []"
| "char_indices at (c # cs) = (at, c) # char_indices (at + len_utf8 c) cs"

definition byte_to_char :: "nat list \<Rightarrow> nat \<Rightarrow> nat option" where
  "byte_to_char str b = map_option length (str_prefix str b)"

definition char_to_byte :: "nat list \<Rightarrow> nat \<Rightarrow> nat" where
  "char_to_byte str c =
     (case get_at (char_indices 0 str) c of
        Some (byte, _) \<Rightarrow> byte
      | None \<Rightarrow> str_len str)"

section \<open>Line arithmetic over bytes\<close>

definition count_newlines :: "bytes \<Rightarrow> nat" where
  "count_newlines bs = fold (\<lambda>b n. n + (if b = newline then 1 else 0)) bs 0"

definition line_of :: "bytes \<Rightarrow> nat \<Rightarrow> nat" where
  "line_of bs p = count_newlines (take (min p (length bs)) bs)"

definition line_start :: "bytes \<Rightarrow> nat \<Rightarrow> nat" where
  "line_start bs p =
     (case rposition (\<lambda>c. c = newline) (take (min p (length bs)) bs) of
        None \<Rightarrow> 0
      | Some i \<Rightarrow> i + 1)"

definition line_end :: "bytes \<Rightarrow> nat \<Rightarrow> nat" where
  "line_end bs p =
     (let q = min p (length bs) in
      case position (\<lambda>c. c = newline) (drop q bs) of
        None \<Rightarrow> length bs
      | Some i \<Rightarrow> q + i)"

text \<open>
  The search for the start of line \<open>line\<close>: whole chunks are skipped by their newline count; the chunk
  holding the newline is walked.  \<open>walk_chunk\<close> returns the index of the newline that completes the count,
  or the count reached at the chunk's end.
\<close>

definition CHUNK :: nat where
  "CHUNK = 512"

fun walk_chunk :: "bytes \<Rightarrow> nat \<Rightarrow> nat \<Rightarrow> nat \<Rightarrow> nat + nat" where
  "walk_chunk [] i seen line = Inr seen"
| "walk_chunk (b # bs) i seen line =
     (if b = newline then
        (if seen + 1 = line then Inl i else walk_chunk bs (i + 1) (seen + 1) line)
      else walk_chunk bs (i + 1) seen line)"

fun scan_chunks :: "bytes list \<Rightarrow> nat \<Rightarrow> nat \<Rightarrow> nat \<Rightarrow> nat option" where
  "scan_chunks [] k seen line = None"
| "scan_chunks (chunk # rest) k seen line =
     (let n = count_newlines chunk in
      if seen + n < line then scan_chunks rest (k + 1) (seen + n) line
      else case walk_chunk chunk 0 seen line of
        Inl i \<Rightarrow> Some (k * CHUNK + i + 1)
      | Inr seen' \<Rightarrow> scan_chunks rest (k + 1) seen' line)"

definition nth_line_start :: "bytes \<Rightarrow> nat \<Rightarrow> nat" where
  "nth_line_start bs line =
     (if line = 0 then 0
      else case scan_chunks (chunks CHUNK bs) 0 0 line of
        Some p \<Rightarrow> p
      | None \<Rightarrow> length bs)"

section \<open>The reference list of line starts\<close>

text \<open>
  \<open>ends_from k bs\<close> lists, for a text placed at offset \<open>k\<close>, the offset just after each of its newlines;
  the starts of the lines of \<open>bs\<close> are then \<open>0\<close> and these.
\<close>

fun ends_from :: "nat \<Rightarrow> bytes \<Rightarrow> nat list" where
  "ends_from k [] = []"
| "ends_from k (b # bs) = (if b = newline then [Suc k] else []) @ ends_from (Suc k) bs"

definition starts_spec :: "bytes \<Rightarrow> nat list" where
  "starts_spec bs = 0 # ends_from 0 bs"

section \<open>Lemmas: revisions\<close>

lemma next_rev_greater: "r \<noteq> - 1 \<Longrightarrow> r < next_rev r"
  unfolding next_rev_def
  by (metis inc_less_eq_triv_imp linorder_less_linear word_le_less_eq)

section \<open>Lemmas: characters\<close>

declare str_prefix.simps [simp del]

lemma len_utf8_pos [simp]: "0 < len_utf8 c"
  by (simp add: len_utf8_def)

lemma str_len_simps [simp]:
  "str_len [] = 0" "str_len (c # cs) = len_utf8 c + str_len cs" "str_len (xs @ ys) = str_len xs + str_len ys"
  by (simp_all add: str_len_def)

lemma str_prefix_0 [simp]: "str_prefix str 0 = Some []"
  by (subst str_prefix.simps) simp

lemma str_prefix_sound: "str_prefix str b = Some p \<Longrightarrow> (\<exists>rest. str = p @ rest) \<and> str_len p = b"
proof (induction str b arbitrary: p rule: str_prefix.induct)
  case (1 str b)
  then show ?case
    by (subst (asm) (2) str_prefix.simps) (auto split: if_splits list.splits)
qed

lemma str_prefix_append [simp]: "str_prefix (p @ rest) (str_len p) = Some p"
proof (induction p)
  case (Cons c cs)
  then show ?case by (subst str_prefix.simps) (simp add: not_less)
qed simp

lemma char_indices_nth:
  "i < length str \<Longrightarrow> fst (char_indices at str ! i) = at + str_len (take i str)"
proof (induction str arbitrary: at i)
  case (Cons c cs)
  then show ?case by (cases i) auto
qed simp

lemma length_char_indices [simp]: "length (char_indices at str) = length str"
  by (induction str arbitrary: at) auto

lemma char_to_byte_eq: "char_to_byte str c = str_len (take c str)"
proof (cases "c < length str")
  case True
  then show ?thesis
    by (simp add: char_to_byte_def get_at_def char_indices_nth split_beta)
next
  case False
  then show ?thesis by (simp add: char_to_byte_def get_at_def)
qed

section \<open>Lemmas: newline counts\<close>

lemma count_newlines_acc:
  "fold (\<lambda>b n. n + (if b = newline then 1 else 0)) bs m = m + length (filter (\<lambda>b. b = newline) bs)"
  by (induction bs arbitrary: m) auto

lemma count_newlines_filter: "count_newlines bs = length (filter (\<lambda>b. b = newline) bs)"
  by (simp add: count_newlines_def count_newlines_acc)

lemma count_newlines_simps [simp, scan_simps]:
  "count_newlines [] = 0"
  "count_newlines (b # bs) = (if b = newline then 1 else 0) + count_newlines bs"
  "count_newlines (xs @ ys) = count_newlines xs + count_newlines ys"
  by (simp_all add: count_newlines_filter)

lemma count_newlines_le: "count_newlines bs \<le> length bs"
  by (simp add: count_newlines_filter)

lemma count_newlines_0_iff: "count_newlines bs = 0 \<longleftrightarrow> newline \<notin> set bs"
  by (auto simp: count_newlines_filter filter_empty_conv)

lemma length_ends_from [simp, scan_simps]: "length (ends_from k bs) = count_newlines bs"
  by (induction bs arbitrary: k) auto

lemma ends_from_append [simp, scan_simps]:
  "ends_from k (xs @ ys) = ends_from k xs @ ends_from (k + length xs) ys"
  by (induction xs arbitrary: k) auto

lemma ends_from_shift: "ends_from (k + d) bs = map (\<lambda>s. s + d) (ends_from k bs)"
  by (induction bs arbitrary: k) (auto simp flip: add_Suc)

lemma ends_from_bounds: "s \<in> set (ends_from k bs) \<Longrightarrow> k < s \<and> s \<le> k + length bs"
  by (induction bs arbitrary: k) (fastforce split: if_splits)+

lemma nth_ends_from_bounds:
  "i < count_newlines bs \<Longrightarrow> k < ends_from k bs ! i \<and> ends_from k bs ! i \<le> k + length bs"
  by (metis ends_from_bounds length_ends_from nth_mem)

lemma sorted_ends_from: "sorted_wrt (<) (ends_from k bs)"
  by (induction bs arbitrary: k) (auto dest: ends_from_bounds)

lemma newline_index_Cons:
  "(\<exists>i. x = k + Suc i \<and> i < length (b # bs) \<and> (b # bs) ! i = c) \<longleftrightarrow>
     x = Suc k \<and> b = c \<or> (\<exists>i. x = Suc k + Suc i \<and> i < length bs \<and> bs ! i = c)" (is "?L \<longleftrightarrow> ?R")
proof
  assume ?L
  then obtain i where "x = k + Suc i" "i < length (b # bs)" "(b # bs) ! i = c" by blast
  then show ?R by (cases i) auto
next
  assume ?R
  then show ?L
  proof
    assume "x = Suc k \<and> b = c"
    then show ?L by (intro exI [of _ 0]) simp
  next
    assume "\<exists>i. x = Suc k + Suc i \<and> i < length bs \<and> bs ! i = c"
    then obtain i where "x = Suc k + Suc i" "i < length bs" "bs ! i = c" by blast
    then show ?L by (intro exI [of _ "Suc i"]) simp
  qed
qed

lemma mem_ends_from:
  "x \<in> set (ends_from k bs) \<longleftrightarrow> (\<exists>i. x = k + Suc i \<and> i < length bs \<and> bs ! i = newline)"
proof (induction bs arbitrary: k)
  case (Cons b bs)
  show ?case unfolding newline_index_Cons by (simp add: Cons.IH)
qed simp

lemma ends_from_Nil_iff [simp]: "ends_from k bs = [] \<longleftrightarrow> newline \<notin> set bs"
  using length_ends_from [of k bs] count_newlines_0_iff [of bs] by (metis length_0_conv)

section \<open>Lemmas: the line around a position\<close>

lemma line_start_cases:
  obtains (first) "line_start bs p = 0" "newline \<notin> set (take p bs)"
  | (after) i where "line_start bs p = Suc i" "i < p" "i < length bs" "bs ! i = newline"
      "\<forall>j. i < j \<longrightarrow> j < p \<longrightarrow> j < length bs \<longrightarrow> bs ! j \<noteq> newline"
proof (cases "rposition (\<lambda>c. c = newline) (take (min p (length bs)) bs)")
  case None
  then have "newline \<notin> set (take p bs)" by (auto simp: position_None_iff rposition_None_iff min_def split: if_splits)
  with None show ?thesis by (intro first) (simp_all add: line_start_def)
next
  case (Some i)
  from rposition_SomeD [OF Some] have
    "i < p" "i < length bs" "bs ! i = newline"
    "\<forall>j. i < j \<longrightarrow> j < p \<longrightarrow> j < length bs \<longrightarrow> bs ! j \<noteq> newline" by auto
  with Some show ?thesis by (intro after) (simp_all add: line_start_def)
qed

lemma line_start_le: "line_start bs p \<le> min p (length bs)"
  by (cases rule: line_start_cases [of bs p]) auto

lemma line_end_cases:
  obtains (last) "line_end bs p = length bs" "newline \<notin> set (drop p bs)"
  | (at) "p \<le> line_end bs p" "line_end bs p < length bs" "bs ! line_end bs p = newline"
      "\<forall>j. p \<le> j \<longrightarrow> j < line_end bs p \<longrightarrow> bs ! j \<noteq> newline"
proof (cases "position (\<lambda>c. c = newline) (drop (min p (length bs)) bs)")
  case None
  then have "newline \<notin> set (drop p bs)" by (auto simp: position_None_iff rposition_None_iff min_def split: if_splits)
  with None show ?thesis by (intro last) (simp_all add: line_end_def Let_def)
next
  case (Some i)
  from position_SomeD [OF Some] have *: "i < length bs - min p (length bs)"
    "bs ! (min p (length bs) + i) = newline"
    "\<forall>j < i. bs ! (min p (length bs) + j) \<noteq> newline" by auto
  then have p: "p < length bs" by auto
  have e: "line_end bs p = p + i" using Some p by (simp add: line_end_def Let_def)
  show ?thesis
  proof (rule at)
    show "p \<le> line_end bs p" and "line_end bs p < length bs" and "bs ! line_end bs p = newline"
      using * p e by auto
    show "\<forall>j. p \<le> j \<longrightarrow> j < line_end bs p \<longrightarrow> bs ! j \<noteq> newline"
    proof (intro allI impI)
      fix j assume "p \<le> j" "j < line_end bs p"
      then show "bs ! j \<noteq> newline" using *(3) [THEN spec, of "j - p"] p e by simp
    qed
  qed
qed

lemma line_end_bounds: "min p (length bs) \<le> line_end bs p" "line_end bs p \<le> length bs"
  by (cases rule: line_end_cases [of bs p]; simp)+

lemma line_start_eqI:
  assumes "s \<le> p" "p \<le> length bs" "s = 0 \<or> bs ! (s - 1) = newline"
    and "\<And>j. s \<le> j \<Longrightarrow> j < p \<Longrightarrow> bs ! j \<noteq> newline"
  shows "line_start bs p = s"
proof (cases rule: line_start_cases [of bs p])
  case first
  show ?thesis
  proof (rule ccontr)
    assume "line_start bs p \<noteq> s"
    then have "s \<noteq> 0" using first by simp
    with assms have "bs ! (s - 1) = newline" and "s - 1 < p" by auto
    then have "newline \<in> set (take p bs)" using assms(2) nth_mem_take [of "s - 1" p bs] by simp
    with first show False by simp
  qed
next
  case (after i)
  have "\<not> s \<le> i" using after assms(4) by blast
  moreover have "\<not> Suc i < s"
  proof
    assume "Suc i < s"
    then have "i < s - 1" "s - 1 < p" "s - 1 < length bs" "s \<noteq> 0" using assms by auto
    with after assms(3) show False by blast
  qed
  ultimately show ?thesis using after by simp
qed

lemma line_end_eqI:
  assumes "p \<le> e" "e \<le> length bs" "e = length bs \<or> bs ! e = newline"
    and "\<And>j. p \<le> j \<Longrightarrow> j < e \<Longrightarrow> bs ! j \<noteq> newline"
  shows "line_end bs p = e"
proof (cases rule: line_end_cases [of bs p])
  case last
  show ?thesis
  proof (rule ccontr)
    assume "line_end bs p \<noteq> e"
    with last assms have "e < length bs" "bs ! e = newline" by auto
    with assms(1) have "newline \<in> set (drop p bs)" using nth_mem_drop [of p e bs] by simp
    with last show False by simp
  qed
next
  case at
  have "\<not> line_end bs p < e" using at assms(4) by blast
  moreover have "\<not> e < line_end bs p" using at assms by auto
  ultimately show ?thesis by simp
qed

lemma no_newline_on_line:
  assumes "line_start bs p \<le> j" "j < line_end bs p" "p \<le> length bs"
  shows "bs ! j \<noteq> newline"
proof (cases "j < p")
  case True
  then show ?thesis
  proof (cases rule: line_start_cases [of bs p])
    case first
    then show ?thesis using True assms(3) nth_mem_take [of j p bs] by auto
  next
    case (after i)
    then show ?thesis using True assms by auto
  qed
next
  case False
  then show ?thesis
  proof (cases rule: line_end_cases [of bs p])
    case last
    then show ?thesis using False assms nth_mem_drop [of p j bs] by auto
  next
    case at
    then show ?thesis using False assms by auto
  qed
qed

section \<open>Lemmas: the chunked search\<close>

lemma walk_chunk_ends:
  "seen < line \<Longrightarrow> walk_chunk bs i seen line =
     (if line - seen - 1 < count_newlines bs then Inl (ends_from i bs ! (line - seen - 1) - 1)
      else Inr (seen + count_newlines bs))"
proof (induction bs arbitrary: i seen)
  case (Cons b bs)
  show ?case
  proof (cases "b = newline")
    case False
    then show ?thesis using Cons.IH [OF Cons.prems] by simp
  next
    case True
    show ?thesis
    proof (cases "seen + 1 = line")
      case True
      then show ?thesis using \<open>b = newline\<close> by simp
    next
      case False
      then have "seen + 1 < line" and nz: "line - seen - 1 = Suc (line - (seen + 1) - 1)"
        using Cons.prems by auto
      with Cons.IH [of "seen + 1" "i + 1"] \<open>b = newline\<close> show ?thesis by (simp add: nz)
    qed
  qed
qed simp

lemma scan_chunks_ends:
  "seen < line \<Longrightarrow> scan_chunks (chunks CHUNK bs) k seen line =
     (if line - seen - 1 < count_newlines bs then Some (ends_from (k * CHUNK) bs ! (line - seen - 1))
      else None)"
proof (induction "CHUNK" bs arbitrary: k seen rule: chunks.induct)
  case (1 bs)
  have C: "0 < CHUNK" by (simp add: CHUNK_def)
  show ?case
  proof (cases "bs = []")
    case True
    then show ?thesis by (subst chunks.simps) simp
  next
    case False
    let ?hd = "take CHUNK bs" and ?tl = "drop CHUNK bs" and ?i = "line - seen - 1"
    have ch: "chunks CHUNK bs = ?hd # chunks CHUNK ?tl"
      using False C by (subst chunks.simps) simp
    have cnt: "count_newlines bs = count_newlines ?hd + count_newlines ?tl"
      by (metis append_take_drop_id count_newlines_simps(3))
    have ends: "ends_from (k * CHUNK) bs = ends_from (k * CHUNK) ?hd @ ends_from (Suc k * CHUNK) ?tl"
    proof (cases "length bs \<le> CHUNK")
      case False
      then have "length ?hd = CHUNK" by simp
      then show ?thesis
        by (metis add.commute append_take_drop_id ends_from_append mult_Suc)
    qed simp
    show ?thesis
    proof (cases "seen + count_newlines ?hd < line")
      case True
      have "\<not> (CHUNK = 0 \<or> bs = [])" using False C by simp
      have IH: "scan_chunks (chunks CHUNK ?tl) (Suc k) (seen + count_newlines ?hd) line =
          (if ?i - count_newlines ?hd < count_newlines ?tl
           then Some (ends_from (Suc k * CHUNK) ?tl ! (?i - count_newlines ?hd)) else None)"
        using "1.hyps" [OF \<open>\<not> (CHUNK = 0 \<or> bs = [])\<close> True, of "Suc k"] by (simp add: diff_diff_left add.commute)
      have "scan_chunks (chunks CHUNK bs) k seen line =
          scan_chunks (chunks CHUNK ?tl) (Suc k) (seen + count_newlines ?hd) line"
        unfolding ch using True by simp
      moreover have "\<not> ?i < count_newlines ?hd" using True by arith
      ultimately show ?thesis unfolding IH cnt ends nth_append length_ends_from by auto
    next
      case False
      then have i: "?i < count_newlines ?hd" using "1.prems" by arith
      have "0 < ends_from 0 ?hd ! ?i" using ends_from_bounds [of "ends_from 0 ?hd ! ?i" 0 ?hd] i by simp
      moreover have "ends_from (k * CHUNK) ?hd ! ?i = ends_from 0 ?hd ! ?i + k * CHUNK"
        using ends_from_shift [of 0 "k * CHUNK" ?hd] i by simp
      ultimately show ?thesis using False i "1.prems"
        unfolding ch by (simp add: cnt ends nth_append walk_chunk_ends Let_def)
    qed
  qed
qed

section \<open>Rows, line starts and the list of line starts\<close>

lemma starts_spec_nth_bounds:
  "n < length (starts_spec bs) \<Longrightarrow> starts_spec bs ! n \<le> length bs"
  using nth_ends_from_bounds [of "n - 1" bs 0] by (cases n) (auto simp: starts_spec_def)

lemma sorted_starts_spec: "sorted_wrt (<) (starts_spec bs)"
  by (auto simp: starts_spec_def sorted_ends_from dest: ends_from_bounds)

lemma line_of_le: "line_of bs p < length (starts_spec bs)"
proof -
  have "count_newlines (take (min p (length bs)) bs) \<le> count_newlines bs"
    by (metis append_take_drop_id count_newlines_simps(3) le_add1)
  then show ?thesis by (simp add: line_of_def starts_spec_def)
qed

lemma starts_at_row: "starts_spec bs ! line_of bs p = last (starts_spec (take (min p (length bs)) bs))"
proof -
  let ?q = "min p (length bs)"
  have "starts_spec bs = starts_spec (take ?q bs) @ ends_from (length (take ?q bs)) (drop ?q bs)"
    unfolding starts_spec_def by (metis add_0 append_Cons append_take_drop_id ends_from_append)
  moreover have "length (starts_spec (take ?q bs)) = Suc (line_of bs p)"
    by (simp add: starts_spec_def line_of_def)
  ultimately show ?thesis by (metis last_conv_nth lessI diff_Suc_1 list.size(3) nat.distinct(1) nth_append)
qed

lemma last_starts_spec: "last (starts_spec bs) = line_start bs (length bs)"
proof (rule sym, rule line_start_eqI)
  let ?s = "last (starts_spec bs)"
  have "?s \<in> set (starts_spec bs)" by (simp add: starts_spec_def)
  then have mem: "?s = 0 \<or> (\<exists>i. ?s = Suc i \<and> i < length bs \<and> bs ! i = newline)"
    by (auto simp: starts_spec_def mem_ends_from split: if_splits)
  then show "?s \<le> length bs" and "?s = 0 \<or> bs ! (?s - 1) = newline" by auto
  show "bs ! j \<noteq> newline" if "?s \<le> j" "j < length bs" for j
  proof
    assume "bs ! j = newline"
    with that have "Suc j \<in> set (starts_spec bs)" by (simp add: starts_spec_def mem_ends_from)
    then have "Suc j \<le> ?s"
      using sorted_starts_spec [of bs]
      by (metis in_set_conv_decomp last_appendR last_in_set less_imp_le list.distinct(1) last_ConsL
          sorted_wrt_append list.set_intros(1) last_ConsR order.refl list.simps(15) sorted_wrt.simps(2))
    with that show False by simp
  qed
qed simp

lemma line_start_take: "line_start (take (min p (length bs)) bs) (min p (length bs)) = line_start bs p"
  by (simp add: line_start_def min_def)

lemma starts_nth_row: "starts_spec bs ! line_of bs p = line_start bs p"
  using starts_at_row [of bs p] last_starts_spec [of "take (min p (length bs)) bs"] line_start_take [of p bs]
  by simp

lemma nth_line_start_spec:
  "nth_line_start bs n = (if n < length (starts_spec bs) then starts_spec bs ! n else length bs)"
  using scan_chunks_ends [of 0 n bs 0]
  by (cases n) (auto simp: nth_line_start_def starts_spec_def)

section \<open>Properties\<close>

text \<open>The chunked search of \<^verbatim>\<open>pos::nth_line_start\<close> returns exactly the entry of the list of
  line starts (byte 0 and the byte after every newline), and the end of the buffer when there is no such
  line, for every buffer and every chunk the newline may fall in.\<close>

theorem nth_line_start_correct:
  "nth_line_start bs n = (if n < length (starts_spec bs) then starts_spec bs ! n else length bs)"
  by (rule nth_line_start_spec)

text \<open>The three answers of \<^verbatim>\<open>pos.rs\<close> agree: the start of the line around a byte
  (\<^verbatim>\<open>line_start\<close>, a backward scan) is the entry of the list of line starts at the byte's row
  (\<^verbatim>\<open>line_of\<close>, a newline count).\<close>

theorem line_start_of_row:
  "line_start bs p = starts_spec bs ! line_of bs p"
  by (rule starts_nth_row [symmetric])

text \<open>\<^verbatim>\<open>char_to_byte\<close> always lands on a character boundary, so \<^verbatim>\<open>byte_to_char\<close> of it does not
  panic, and returns the character index it came from (the character count for an index past the end).\<close>

theorem char_byte_round_trip:
  "byte_to_char str (char_to_byte str c) = Some (min c (length str))"
proof -
  have "str_prefix str (str_len (take c str)) = Some (take c str)"
    by (metis append_take_drop_id str_prefix_append)
  then show ?thesis by (simp add: byte_to_char_def char_to_byte_eq min.commute)
qed

end
