(* ===== verification/Char_Boundary.thy ===== *)
theory Char_Boundary
  imports Pos
begin

unbundle bit_operations_syntax

text \<open>
  Character boundaries over bytes that need not be UTF-8 (\<^verbatim>\<open>crates/core/src/motion.rs\<close>): the length of the
  valid character at a byte, the boundary test, and \<open>snap\<close>, which moves a position onto the boundary at or
  before it.  The locale \<open>snapping\<close> is what the position-carrying code (marks, tracked positions) needs of it.
\<close>

section \<open>Definitions\<close>

definition is_cont :: "byte \<Rightarrow> bool" where
  "is_cont c \<longleftrightarrow> c AND 0xC0 = 0x80"

text \<open>The lead byte's length and the range its second byte must fall in; \<open>None\<close> for no multi-byte lead.\<close>

definition lead_spec :: "byte \<Rightarrow> (nat \<times> byte \<times> byte) option" where
  "lead_spec lead =
     (if 0xC2 \<le> lead \<and> lead \<le> 0xDF then Some (2, 0x80, 0xBF)
      else if lead = 0xE0 then Some (3, 0xA0, 0xBF)
      else if lead = 0xED then Some (3, 0x80, 0x9F)
      else if 0xE1 \<le> lead \<and> lead \<le> 0xEF then Some (3, 0x80, 0xBF)
      else if lead = 0xF0 then Some (4, 0x90, 0xBF)
      else if lead = 0xF4 then Some (4, 0x80, 0x8F)
      else if 0xF1 \<le> lead \<and> lead \<le> 0xF3 then Some (4, 0x80, 0xBF)
      else None)"

definition char_len_at :: "bytes \<Rightarrow> nat \<Rightarrow> nat option" where
  "char_len_at b i =
     (case get_at b i of
        None \<Rightarrow> None
      | Some lead \<Rightarrow>
          if lead \<le> 0x7F then Some 1
          else case lead_spec lead of
            None \<Rightarrow> None
          | Some (w, lo, hi) \<Rightarrow>
              if length b < i + w then None
              else let rest = slice (i + 1) (i + w) b in
                if lo \<le> rest ! 0 \<and> rest ! 0 \<le> hi \<and> list_all is_cont (tl rest) then Some w else None)"

definition inside_char :: "bytes \<Rightarrow> nat \<Rightarrow> bool" where
  "inside_char b i =
     (if i = 0 \<or> length b \<le> i \<or> \<not> is_cont (b ! i) then False
      else case find (\<lambda>j. \<not> is_cont (b ! j)) (rev [i - 3..<i]) of
        None \<Rightarrow> False
      | Some j \<Rightarrow> (case char_len_at b j of None \<Rightarrow> False | Some w \<Rightarrow> i < j + w))"

definition is_boundary :: "bytes \<Rightarrow> nat \<Rightarrow> bool" where
  "is_boundary b i \<longleftrightarrow> i = 0 \<or> i = length b \<or> \<not> inside_char b i"

fun prev_boundary_loop :: "bytes \<Rightarrow> nat \<Rightarrow> nat" where
  "prev_boundary_loop b 0 = 0"
| "prev_boundary_loop b (Suc i) = (if is_boundary b i then i else prev_boundary_loop b i)"

definition prev_boundary :: "bytes \<Rightarrow> nat \<Rightarrow> nat" where
  "prev_boundary b pos = prev_boundary_loop b (min pos (length b))"

function next_boundary_loop :: "bytes \<Rightarrow> nat \<Rightarrow> nat" where
  "next_boundary_loop b i = (if i < length b \<and> \<not> is_boundary b i then next_boundary_loop b (i + 1) else i)"
  by pat_completeness auto
termination
  by (relation "measure (\<lambda>(b, i). length b - i)") auto

definition next_boundary :: "bytes \<Rightarrow> nat \<Rightarrow> nat" where
  "next_boundary b pos = next_boundary_loop b (min (pos + 1) (length b))"

definition snap :: "bytes \<Rightarrow> nat \<Rightarrow> nat" where
  "snap b pos = (let p = min pos (length b) in if is_boundary b p then p else prev_boundary b p)"

declare next_boundary_loop.simps [simp del]

text \<open>\<^verbatim>\<open>std::str::from_utf8\<close> accepts the bytes: they are a sequence of whole characters.\<close>

function utf8_valid :: "bytes \<Rightarrow> bool" where
  "utf8_valid b =
     (if b = [] then True
      else case char_len_at b 0 of Some w \<Rightarrow> utf8_valid (drop (max 1 w) b) | None \<Rightarrow> False)"
  by auto
termination
  by (relation "measure length") auto

declare utf8_valid.simps [simp del]

section \<open>Lemmas\<close>

lemma is_boundary_0 [simp]: "is_boundary b 0"
  by (simp add: is_boundary_def)

lemma is_boundary_length [simp]: "is_boundary b (length b)"
  by (simp add: is_boundary_def)

lemma not_cont_boundary: "i < length b \<Longrightarrow> \<not> is_cont (b ! i) \<Longrightarrow> is_boundary b i"
  by (simp add: is_boundary_def inside_char_def)

lemma is_cont_newline [simp]: "\<not> is_cont newline"
  by (simp add: is_cont_def)

lemma prev_boundary_loop_boundary: "is_boundary b (prev_boundary_loop b n)"
  by (induction n) auto

lemma prev_boundary_loop_le: "prev_boundary_loop b n \<le> n - 1"
  by (induction n) auto

lemma prev_boundary_loop_gap: "prev_boundary_loop b n < j \<Longrightarrow> j < n \<Longrightarrow> \<not> is_boundary b j"
  by (induction n) (auto split: if_splits simp: less_Suc_eq)

lemma snap_le: "snap b p \<le> min p (length b)"
  using prev_boundary_loop_le [of b "min p (length b)"] by (auto simp: snap_def prev_boundary_def Let_def)

lemma snap_le_pos: "snap b p \<le> p" and snap_le_length: "snap b p \<le> length b"
  using snap_le [of b p] by auto

lemma snap_boundary: "is_boundary b (snap b p)"
  by (simp add: snap_def prev_boundary_def prev_boundary_loop_boundary Let_def)

lemma snap_gap:
  assumes "snap b p < j" "j \<le> min p (length b)"
  shows "\<not> is_boundary b j"
proof (cases "is_boundary b (min p (length b))")
  case True
  with assms show ?thesis by (simp add: snap_def Let_def)
next
  case False
  then have s: "snap b p = prev_boundary_loop b (min p (length b))"
    by (simp add: snap_def prev_boundary_def Let_def)
  show ?thesis
  proof (cases "j = min p (length b)")
    case False
    then have "j < min p (length b)" using assms(2) by (rule le_neq_implies_less [rotated])
    with assms(1) show ?thesis unfolding s by (rule prev_boundary_loop_gap)
  qed (use False in simp)
qed

lemma snap_fixed: "is_boundary b p \<Longrightarrow> p \<le> length b \<Longrightarrow> snap b p = p"
  by (simp add: snap_def min_absorb1)

lemma boundary_le_snap: "is_boundary b q \<Longrightarrow> q \<le> p \<Longrightarrow> q \<le> length b \<Longrightarrow> q \<le> snap b p"
  using snap_gap [of b p q] by (meson min.bounded_iff not_le)

lemma inside_char_back:
  assumes "inside_char b i"
  shows "\<exists>j. i - 3 \<le> j \<and> j < i \<and> \<not> is_cont (b ! j) \<and> (\<forall>k. j < k \<longrightarrow> k \<le> i \<longrightarrow> is_cont (b ! k))"
proof -
  from assms have i: "i < length b" "is_cont (b ! i)" by (auto simp: inside_char_def split: if_splits)
  from assms obtain j where f: "find (\<lambda>j. \<not> is_cont (b ! j)) (rev [i - 3..<i]) = Some j"
    by (auto simp: inside_char_def split: if_splits option.splits)
  then obtain n where n: "n < length (rev [i - 3..<i])" "j = rev [i - 3..<i] ! n" "\<not> is_cont (b ! j)"
    "\<forall>m < n. is_cont (b ! (rev [i - 3..<i] ! m))"
    by (auto simp: find_Some_iff)
  have idx: "rev [i - 3..<i] ! m = i - Suc m" if "m < length [i - 3..<i]" for m
    using that by (simp add: rev_nth)
  have j: "j = i - Suc n" "Suc n \<le> i" "i - 3 \<le> j" using n idx by auto
  have "is_cont (b ! k)" if "j < k" "k \<le> i" for k
  proof (cases "k = i")
    case False
    then have "i - Suc k < n" "i - Suc k < length [i - 3..<i]" "i - Suc (i - Suc k) = k"
      using that j n(1) by auto
    then show ?thesis using n(4) idx by metis
  qed (use i in simp)
  with j n show ?thesis by (intro exI [of _ j]) auto
qed

lemma snap_near:
  assumes "p \<le> length b"
  shows "p \<le> snap b p + 3"
proof (cases "is_boundary b p")
  case True
  then show ?thesis using assms by (simp add: snap_fixed)
next
  case False
  then have "inside_char b p" and "p < length b" using assms by (auto simp: is_boundary_def)
  from inside_char_back [OF this(1)] obtain j where "p - 3 \<le> j" "j < p" "\<not> is_cont (b ! j)" by blast
  moreover from this \<open>p < length b\<close> have "is_boundary b j" by (intro not_cont_boundary) auto
  ultimately have "j \<le> snap b p" using assms by (intro boundary_le_snap) auto
  with \<open>p - 3 \<le> j\<close> show ?thesis by simp
qed

text \<open>The start of a line is a boundary, so snapping never leaves the line.\<close>

lemma char_len_at_newline: "j < length b \<Longrightarrow> b ! j = newline \<Longrightarrow> char_len_at b j = Some 1"
  by (simp add: char_len_at_def get_at_def)

lemma boundary_after_newline:
  assumes "i < length b" "b ! i = newline"
  shows "is_boundary b (Suc i)"
proof (rule ccontr)
  assume "\<not> is_boundary b (Suc i)"
  then have "inside_char b (Suc i)" by (auto simp: is_boundary_def)
  then obtain j where f: "find (\<lambda>j. \<not> is_cont (b ! j)) (rev [Suc i - 3..<Suc i]) = Some j"
    "case char_len_at b j of None \<Rightarrow> False | Some w \<Rightarrow> Suc i < j + w"
    by (auto simp: inside_char_def split: if_splits option.splits)
  have "rev [Suc i - 3..<Suc i] = i # rev [Suc i - 3..<i]" by simp
  with f(1) assms have "j = i" by simp
  with f(2) assms show False by (simp add: char_len_at_newline)
qed

lemma line_start_boundary: "is_boundary b (line_start b p)"
  by (cases rule: line_start_cases [of b p]) (auto intro: boundary_after_newline)

lemma line_end_boundary: "is_boundary b (line_end b p)"
  by (cases rule: line_end_cases [of b p]) (auto intro: not_cont_boundary)

lemma line_start_le_snap: "line_start b p \<le> snap b p"
  using line_start_le [of b p] by (intro boundary_le_snap line_start_boundary) auto

section \<open>The interface for carried positions\<close>

locale snapping =
  fixes snap_to :: "bytes \<Rightarrow> nat \<Rightarrow> nat"
    and boundary :: "bytes \<Rightarrow> nat \<Rightarrow> bool"
  assumes snap_to_le: "snap_to b p \<le> length b"
    and snap_to_boundary: "boundary b (snap_to b p)"
    and snap_to_fixed: "boundary b p \<Longrightarrow> p \<le> length b \<Longrightarrow> snap_to b p = p"
begin

lemma snap_to_idem: "snap_to b (snap_to b p) = snap_to b p"
  by (intro snap_to_fixed snap_to_boundary snap_to_le)

lemma map_snap_bounds: "map_option (snap_to b) x = Some q \<Longrightarrow> q \<le> length b \<and> boundary b q"
  by (auto simp: snap_to_le snap_to_boundary)

end

interpretation sn: snapping snap is_boundary
  by unfold_locales (simp_all add: snap_le_length snap_boundary snap_fixed)

section \<open>Properties\<close>

text \<open>\<open>snap\<close> moves a position, clamped to the text, onto the greatest character boundary at or before it,
  at most three bytes back and never past the start of its line, whether or not the bytes are UTF-8.\<close>

theorem snap_greatest_boundary:
  "is_boundary b (snap b p) \<and> line_start b p \<le> snap b p \<and> snap b p \<le> min p (length b)
   \<and> min p (length b) \<le> snap b p + 3
   \<and> (\<nexists>q. is_boundary b q \<and> snap b p < q \<and> q \<le> min p (length b))"
proof -
  have "snap b (min p (length b)) = snap b p" by (simp add: snap_def)
  with snap_near [of "min p (length b)" b] have "min p (length b) \<le> snap b p + 3" by simp
  then show ?thesis
    using snap_boundary [of b p] line_start_le_snap [of b p] snap_le [of b p] snap_gap [of b p] by blast
qed

end
