(* ===== verification/Diff_Unified.thy ===== *)
theory Diff_Unified
  imports Diff_Search Char_Boundary
begin

text \<open>
  The unified diff of \<^verbatim>\<open>persist/diff.rs\<close>: the common ends, the middle script, the hunks with their
  context and the bounded output. A \<^verbatim>\<open>String\<close> is its list of code points.
\<close>

section \<open>Text of the output\<close>

abbreviation str :: "string \<Rightarrow> nat list" where
  "str s \<equiv> map of_char s"

fun show_nat :: "nat \<Rightarrow> nat list" where
  "show_nat n = (if n < 10 then [48 + n] else show_nat (n div 10) @ [48 + n mod 10])"

declare show_nat.simps [simp del]

definition diff_range :: "nat \<Rightarrow> nat \<Rightarrow> nat list" where
  "diff_range start count =
     (if count = 0 then show_nat start @ str '',0''
      else if count = 1 then show_nat (start + 1)
      else show_nat (start + 1) @ str '','' @ show_nat count)"

text \<open>
  \<^verbatim>\<open>String::from_utf8_lossy\<close>: valid characters are decoded, each maximal prefix of an ill-formed one
  becomes U+FFFD.
\<close>

definition scalar :: "bytes \<Rightarrow> nat" where
  "scalar cs =
     (case map unat cs of
        [c0] \<Rightarrow> c0
      | [c0, c1] \<Rightarrow> (c0 mod 32) * 64 + c1 mod 64
      | [c0, c1, c2] \<Rightarrow> (c0 mod 16) * 4096 + (c1 mod 64) * 64 + c2 mod 64
      | [c0, c1, c2, c3] \<Rightarrow> (c0 mod 8) * 262144 + (c1 mod 64) * 4096 + (c2 mod 64) * 64 + c3 mod 64
      | _ \<Rightarrow> 0xFFFD)"

definition bad_len :: "bytes \<Rightarrow> nat" where
  "bad_len b =
     (case b of
        lead # c # cs \<Rightarrow>
          (case lead_spec lead of
             Some (w, lo, hi) \<Rightarrow>
               if lo \<le> c \<and> c \<le> hi then 2 + length (takeWhile is_cont (take (w - 2) cs)) else 1
           | None \<Rightarrow> 1)
      | _ \<Rightarrow> 1)"

lemma bad_len_pos [simp]: "0 < bad_len b"
  by (simp add: bad_len_def split: list.split option.split prod.split)

function utf8_lossy :: "bytes \<Rightarrow> nat list" where
  "utf8_lossy b =
     (if b = [] then []
      else case char_len_at b 0 of
        Some w \<Rightarrow> scalar (take w b) # utf8_lossy (drop (max 1 w) b)
      | None \<Rightarrow> 0xFFFD # utf8_lossy (drop (bad_len b) b))"
  by auto
termination
  by (relation "measure length") auto

declare utf8_lossy.simps [simp del]

definition strip_newline :: "bytes \<Rightarrow> bytes" where
  "strip_newline l = (if last_opt l = Some newline then butlast l else l)"

definition show_line :: "bytes \<Rightarrow> nat list" where
  "show_line l = utf8_lossy (strip_newline l)"

section \<open>The diff\<close>

record diff =
  d_lines :: "nat list list"
  d_minimal :: bool
  d_cut :: nat

text \<open>The script of the whole texts: the common ends kept, the middle searched or replaced whole.\<close>

definition common_ends :: "'a list \<Rightarrow> 'a list \<Rightarrow> nat \<times> nat" where
  "common_ends a b =
     (let pre = length (takeWhile (\<lambda>(x, y). x = y) (zip a b));
          suf = length (takeWhile (\<lambda>(x, y). x = y) (zip (rev (drop pre a)) (rev (drop pre b))))
      in (pre, suf))"

definition unified_ops :: "'a list \<Rightarrow> 'a list \<Rightarrow> bool \<times> op list" where
  "unified_ops a b =
     (let (pre, suf) = common_ends a b;
          ma = slice pre (length a - suf) a;
          mb = slice pre (length b - suf) b;
          found = (if length ma + length mb > MAX_LINES then None else myers ma mb);
          mid = (case found of Some ops \<Rightarrow> ops
                 | None \<Rightarrow> replicate (length ma) Del @ replicate (length mb) Ins)
      in (found \<noteq> None, replicate pre Keep @ mid @ replicate suf Keep))"

fun op_pos :: "op list \<Rightarrow> nat \<Rightarrow> nat \<Rightarrow> (nat \<times> nat) list" where
  "op_pos [] i j = []"
| "op_pos (Keep # ops) i j = (i, j) # op_pos ops (i + 1) (j + 1)"
| "op_pos (Del # ops) i j = (i, j) # op_pos ops (i + 1) j"
| "op_pos (Ins # ops) i j = (i, j) # op_pos ops i (j + 1)"

definition changed_ops :: "op list \<Rightarrow> nat list" where
  "changed_ops ops = filter (\<lambda>k. ops ! k \<noteq> Keep) [0..<length ops]"

text \<open>A hunk: the changes no more than \<open>2 * CONTEXT\<close> kept lines apart.\<close>

function hunk_end :: "nat list \<Rightarrow> nat \<Rightarrow> nat \<Rightarrow> nat \<times> nat" where
  "hunk_end changed lst e =
     (if e < length changed \<and> changed ! e - lst \<le> 2 * CONTEXT + 1
      then hunk_end changed (changed ! e) (e + 1) else (lst, e))"
  by auto
termination
  by (relation "measure (\<lambda>(changed, lst, e). length changed - e)") auto

declare hunk_end.simps [simp del]

lemma hunk_end_ge: "e \<le> snd (hunk_end changed lst e)"
proof (induction changed lst e rule: hunk_end.induct)
  case (1 changed lst e)
  then show ?case by (subst hunk_end.simps) auto
qed

definition push_line :: "nat list list \<times> nat \<Rightarrow> nat list \<Rightarrow> nat list list \<times> nat" where
  "push_line st s = (case st of (out, lost) \<Rightarrow>
     if length out < MAX_OUTPUT then (out @ [s], lost) else (out, lost + 1))"

definition no_newline_msg :: "nat list" where
  "no_newline_msg = str (CHR 0x5C # '' No newline at end of file'')"

definition op_line :: "op list \<Rightarrow> (nat \<times> nat) list \<Rightarrow> bytes list \<Rightarrow> bytes list \<Rightarrow> nat \<Rightarrow> nat \<times> bytes" where
  "op_line ops pos a b k =
     (case pos ! k of (i, j) \<Rightarrow>
        (case ops ! k of Keep \<Rightarrow> (32, a ! i) | Del \<Rightarrow> (45, a ! i) | Ins \<Rightarrow> (43, b ! j)))"

definition push_op :: "op list \<Rightarrow> (nat \<times> nat) list \<Rightarrow> bytes list \<Rightarrow> bytes list \<Rightarrow> nat
    \<Rightarrow> nat list list \<times> nat \<Rightarrow> nat list list \<times> nat" where
  "push_op ops pos a b k st =
     (case op_line ops pos a b k of (mark, line) \<Rightarrow>
        let st' = push_line st (mark # show_line line)
        in if last_opt line \<noteq> Some newline then push_line st' no_newline_msg else st')"

definition op_count :: "op list \<Rightarrow> nat \<Rightarrow> nat \<Rightarrow> op \<Rightarrow> nat" where
  "op_count ops from' to' want = length (filter (\<lambda>q. q = Keep \<or> q = want) (slice from' to' ops))"

definition hunk_header :: "op list \<Rightarrow> (nat \<times> nat) list \<Rightarrow> nat \<Rightarrow> nat \<Rightarrow> nat list" where
  "hunk_header ops pos from' to' =
     (case pos ! from' of (ai, bj) \<Rightarrow>
        str ''@@ -'' @ diff_range ai (op_count ops from' to' Del)
        @ str '' +'' @ diff_range bj (op_count ops from' to' Ins) @ str '' @@'')"

function hunk_loop :: "op list \<Rightarrow> (nat \<times> nat) list \<Rightarrow> bytes list \<Rightarrow> bytes list \<Rightarrow> nat list \<Rightarrow> nat
    \<Rightarrow> nat list list \<times> nat \<Rightarrow> nat list list \<times> nat" where
  "hunk_loop ops pos a b changed c st =
     (if c < length changed then
        let (lst, e) = hunk_end changed (changed ! c) (c + 1);
            from' = changed ! c - CONTEXT;
            to' = min (lst + CONTEXT + 1) (length ops);
            st1 = push_line st (hunk_header ops pos from' to');
            st2 = fold (push_op ops pos a b) [from'..<to'] st1
        in hunk_loop ops pos a b changed e st2
      else st)"
  by auto
termination
proof (relation "measure (\<lambda>(ops, pos, a, b, changed, c, st). length changed - c)", goal_cases)
  case (2 ops pos a b changed c st p lst e from' to' st1 st2)
  then have "e = snd (hunk_end changed (changed ! c) (c + 1))" by (metis snd_conv)
  then show ?case using 2 hunk_end_ge [of "c + 1" changed "changed ! c"] by simp
qed auto

declare hunk_loop.simps [simp del]

definition unified :: "nat list \<Rightarrow> bytes \<Rightarrow> bytes \<Rightarrow> diff" where
  "unified name disk recovered =
     (let a = diff_lines disk;
          b = diff_lines recovered;
          (minimal, ops) = unified_ops a b;
          pos = op_pos ops 0 0;
          out = [str ''--- '' @ name @ str '' (on disk)'', str ''+++ '' @ name @ str '' (recovered)''];
          (out', lost) = hunk_loop ops pos a b (changed_ops ops) 0 (out, 0)
      in \<lparr>d_lines = out', d_minimal = minimal, d_cut = lost\<rparr>)"


section \<open>The script\<close>

lemma concat_split_inclusive: "concat (split_inclusive acc b) = acc @ b"
  by (induction acc b rule: split_inclusive.induct) auto

lemma concat_diff_lines: "concat (diff_lines b) = b"
  by (simp add: diff_lines_def concat_split_inclusive)

lemma script_rev: "script ops a b \<Longrightarrow> script (rev ops) (rev a) (rev b)"
proof (induction ops a b rule: script.induct)
  case (2 ops a b)
  then show ?case by (cases a; cases b) (auto simp: script_snoc)
next
  case (3 ops a b)
  then show ?case by (cases a) (auto simp: script_snoc)
next
  case (4 ops a b)
  then show ?case by (cases b) (auto simp: script_snoc)
qed simp

lemma cost_rev [simp]: "cost (rev ops) = cost ops"
  by (simp add: cost_def flip: rev_filter)

lemma cost_append [simp]: "cost (s @ t) = cost s + cost t"
  by (simp add: cost_def)

lemma cost_Cons [simp]: "cost (q # s) = (if q = Keep then 0 else 1) + cost s"
  by (simp add: cost_def)

lemma cost_keeps [simp]: "cost (replicate n Keep) = 0"
  by (simp add: cost_def)

lemma script_replicate_Keep: "script (replicate (length xs) Keep) xs xs"
  by (induction xs) auto

text \<open>Leaving out one line costs at most one change more.\<close>

lemma script_drop_right: "script s a (x # b) \<Longrightarrow> \<exists>s'. script s' a b \<and> cost s' \<le> cost s + 1"
proof (induction s a "x # b" rule: script.induct)
  case (2 ops a)
  then obtain a' where "a = x # a'" "script ops a' b" by (auto split: list.splits)
  then show ?case by (intro exI [of _ "Del # ops"]) auto
next
  case (3 ops a)
  then obtain y a' where a: "a = y # a'" "script ops a' (x # b)" by (auto split: list.splits)
  with 3(1) obtain s' where "script s' a' b" "cost s' \<le> cost ops + 1" by blast
  then show ?case using a by (intro exI [of _ "Del # s'"]) auto
next
  case (4 ops a)
  then show ?case by (intro exI [of _ ops]) auto
qed simp

lemma script_drop_left: "script s (x # a) b \<Longrightarrow> \<exists>s'. script s' a b \<and> cost s' \<le> cost s + 1"
proof (induction s "x # a" b rule: script.induct)
  case (2 ops b)
  then obtain b' where "b = x # b'" "script ops a b'" by (auto split: list.splits)
  then show ?case by (intro exI [of _ "Ins # ops"]) auto
next
  case (3 ops b)
  then show ?case by (intro exI [of _ ops]) auto
next
  case (4 ops b)
  then obtain y b' where b: "b = y # b'" "script ops (x # a) b'" by (auto split: list.splits)
  with 4(1) obtain s' where "script s' a b'" "cost s' \<le> cost ops + 1" by blast
  then show ?case using b by (intro exI [of _ "Ins # s'"]) auto
qed simp

lemma script_trim_one:
  assumes "script s (x # a) (x # b)"
  shows "\<exists>s'. script s' a b \<and> cost s' \<le> cost s"
proof (cases s)
  case (Cons q ops)
  show ?thesis
  proof (cases q)
    case Keep
    then show ?thesis using assms Cons by auto
  next
    case Del
    then have "script ops a (x # b)" using assms Cons by simp
    from script_drop_right [OF this] show ?thesis using Cons Del by auto
  next
    case Ins
    then have "script ops (x # a) b" using assms Cons by simp
    from script_drop_left [OF this] show ?thesis using Cons Ins by auto
  qed
qed (use assms in simp)

lemma script_trim_prefix: "script s (p @ a) (p @ b) \<Longrightarrow> \<exists>s'. script s' a b \<and> cost s' \<le> cost s"
proof (induction p arbitrary: s)
  case (Cons x p)
  then obtain s' where "script s' (p @ a) (p @ b)" "cost s' \<le> cost s" using script_trim_one by fastforce
  with Cons.IH show ?case by (meson le_trans)
qed auto

lemma script_trim_suffix: "script s (a @ q) (b @ q) \<Longrightarrow> \<exists>s'. script s' a b \<and> cost s' \<le> cost s"
proof -
  assume "script s (a @ q) (b @ q)"
  then have "script (rev s) (rev q @ rev a) (rev q @ rev b)" using script_rev by fastforce
  then obtain s' where "script s' (rev a) (rev b)" "cost s' \<le> cost s"
    using script_trim_prefix by fastforce
  then show ?thesis using script_rev [of s' "rev a" "rev b"] by (intro exI [of _ "rev s'"]) simp
qed

lemma common_ends_split:
  assumes "common_ends a b = (pre, suf)"
  shows "a = take pre a @ slice pre (length a - suf) a @ drop (length a - suf) a"
    "b = take pre a @ slice pre (length b - suf) b @ drop (length a - suf) a"
    "length (take pre a) = pre" "length (drop (length a - suf) a) = suf"
proof -
  let ?ra = "rev (drop pre a)" and ?rb = "rev (drop pre b)"
  have pre: "pre = agree_prefix a b" and suf: "suf = agree_prefix ?ra ?rb"
    using assms by (auto simp: common_ends_def Let_def)
  have le: "pre \<le> length a" "pre \<le> length b" "suf \<le> length a - pre" "suf \<le> length b - pre"
    using agree_prefix_le [of a b] agree_prefix_le [of ?ra ?rb] pre suf by simp_all
  have tk: "take pre a = take pre b" unfolding pre by (rule agree_prefix_take) simp
  have dr: "drop (length a - suf) a = drop (length b - suf) b"
    by (rule agree_suffix_drop [of suf pre]) (use le suf agree_prefix_take [of suf ?ra ?rb] in simp_all)
  have sp: "xs = take pre xs @ slice pre (length xs - suf) xs @ drop (length xs - suf) xs"
    if "suf \<le> length xs - pre" "pre \<le> length xs" for xs :: "'a list"
    using that slice_append_drop [of pre "length xs - suf" xs] by (simp add: le_diff_conv2 add.commute)
  show "a = take pre a @ slice pre (length a - suf) a @ drop (length a - suf) a" using sp le(1,3) by blast
  show "b = take pre a @ slice pre (length b - suf) b @ drop (length a - suf) a" using sp [OF le(4,2)] tk dr by simp
  show "length (take pre a) = pre" "length (drop (length a - suf) a) = suf" using le by simp_all
qed

lemma unified_ops_spec:
  assumes "unified_ops a b = (minimal, ops)"
  shows "script ops a b \<and> (minimal \<longrightarrow> (\<forall>s. script s a b \<longrightarrow> cost ops \<le> cost s))"
proof -
  obtain pre suf where ps: "common_ends a b = (pre, suf)" by (cases "common_ends a b")
  define p q ma mb where pq: "p = take pre a" "q = drop (length a - suf) a"
    "ma = slice pre (length a - suf) a" "mb = slice pre (length b - suf) b"
  have ab: "a = p @ ma @ q" "b = p @ mb @ q" and len: "length p = pre" "length q = suf"
    using common_ends_split [OF ps] by (simp_all add: pq)
  define found where "found = (if length ma + length mb > MAX_LINES then None else myers ma mb)"
  define mid where "mid = (case found of Some ops \<Rightarrow> ops
                 | None \<Rightarrow> replicate (length ma) Del @ replicate (length mb) Ins)"
  have ops: "ops = replicate (length p) Keep @ mid @ replicate (length q) Keep" and min: "minimal = (found \<noteq> None)"
    using assms
    unfolding unified_ops_def ps Let_def prod.case pq(3,4) [symmetric] found_def [symmetric] mid_def [symmetric]
    by (simp_all add: len)
  have f: "script s ma mb \<and> (\<forall>s'. script s' ma mb \<longrightarrow> cost s \<le> cost s')" if "found = Some s" for s
    using that myers_Some [of ma mb] by (auto simp: found_def split: if_splits)
  have dels: "script (replicate (length ma) Del) ma []" by (induction ma) auto
  have inss: "script (replicate (length mb) Ins) [] mb" by (induction mb) auto
  have mid: "script mid ma mb"
    using f script_append [OF dels inss] by (auto simp: mid_def split: option.split)
  have "script ops (p @ ma @ q) (p @ mb @ q)"
    unfolding ops by (intro script_append script_replicate_Keep mid)
  moreover have "cost ops \<le> cost s" if m: minimal and s: "script s (p @ ma @ q) (p @ mb @ q)" for s
  proof -
    obtain s1 where s1: "script s1 (ma @ q) (mb @ q)" "cost s1 \<le> cost s" using script_trim_prefix [OF s] by blast
    obtain s2 where s2: "script s2 ma mb" "cost s2 \<le> cost s1" using script_trim_suffix [OF s1(1)] by blast
    have "cost mid \<le> cost s2" using f s2(1) m min by (auto simp: mid_def)
    with s1 s2 show ?thesis by (simp add: ops)
  qed
  ultimately show ?thesis using ab by simp
qed

section \<open>Hunks\<close>

text \<open>The ranges of the script that the hunks show, and the text of one.\<close>

function hunks :: "nat list \<Rightarrow> nat \<Rightarrow> nat \<Rightarrow> (nat \<times> nat) list" where
  "hunks changed n c =
     (if c < length changed then
        (changed ! c - CONTEXT, min (fst (hunk_end changed (changed ! c) (c + 1)) + CONTEXT + 1) n)
        # hunks changed n (snd (hunk_end changed (changed ! c) (c + 1)))
      else [])"
  by auto
termination
proof (relation "measure (\<lambda>(changed, n, c). length changed - c)", goal_cases)
  case (2 changed n c)
  then show ?case using hunk_end_ge [of "c + 1" changed "changed ! c"] by simp
qed auto

declare hunks.simps [simp del]

definition op_text :: "op list \<Rightarrow> (nat \<times> nat) list \<Rightarrow> bytes list \<Rightarrow> bytes list \<Rightarrow> nat \<Rightarrow> nat list list" where
  "op_text ops pos a b k =
     (case op_line ops pos a b k of (mark, line) \<Rightarrow>
        (mark # show_line line) # (if last_opt line \<noteq> Some newline then [no_newline_msg] else []))"

definition hunk_text :: "op list \<Rightarrow> (nat \<times> nat) list \<Rightarrow> bytes list \<Rightarrow> bytes list \<Rightarrow> nat \<times> nat
    \<Rightarrow> nat list list" where
  "hunk_text ops pos a b h =
     hunk_header ops pos (fst h) (snd h) # concat (map (op_text ops pos a b) [fst h..<snd h])"

lemma push_op_text: "push_op ops pos a b k st = fold (\<lambda>l st. push_line st l) (op_text ops pos a b k) st"
  by (simp add: push_op_def op_text_def Let_def split: prod.split)

lemma fold_push_op:
  "fold (push_op ops pos a b) ks st = fold (\<lambda>l st. push_line st l) (concat (map (op_text ops pos a b) ks)) st"
  by (induction ks arbitrary: st) (simp_all add: push_op_text)

lemma hunk_loop_text:
  "hunk_loop ops pos a b changed c st =
     fold (\<lambda>l st. push_line st l)
       (concat (map (hunk_text ops pos a b) (hunks changed (length ops) c))) st"
proof (induction changed "length ops" c arbitrary: st rule: hunks.induct)
  case (1 changed c)
  show ?case
  proof (cases "c < length changed")
    case True
    obtain lst e where h: "hunk_end changed (changed ! c) (c + 1) = (lst, e)"
      by (cases "hunk_end changed (changed ! c) (c + 1)")
    show ?thesis
      using True 1(1) [OF True]
      by (subst hunk_loop.simps, subst hunks.simps)
         (simp add: h [simplified] Let_def hunk_text_def fold_push_op)
  next
    case False
    then show ?thesis by (subst hunk_loop.simps, subst hunks.simps) simp
  qed
qed

lemma fold_push_line:
  "length out \<le> MAX_OUTPUT \<Longrightarrow> fold (\<lambda>l st. push_line st l) ls (out, lost) =
     (take MAX_OUTPUT (out @ ls), lost + (length out + length ls - MAX_OUTPUT))"
proof (induction ls arbitrary: out lost)
  case (Cons l ls)
  show ?case
  proof (cases "length out < MAX_OUTPUT")
    case True
    then show ?thesis using Cons.IH [of "out @ [l]" lost] by (simp add: push_line_def)
  next
    case False
    then have "length out = MAX_OUTPUT" using Cons.prems by simp
    then show ?thesis using Cons.IH [of out "lost + 1"] by (simp add: push_line_def)
  qed
qed simp

text \<open>One hunk takes the changes up to the first gap.\<close>

lemma hunk_end_spec:
  assumes "sorted_wrt (<) changed" "0 < e" "e \<le> length changed" "hunk_end changed (changed ! (e - 1)) e = (lst, e')"
  shows "e \<le> e' \<and> e' \<le> length changed \<and> lst = changed ! (e' - 1)
    \<and> (e' < length changed \<longrightarrow> lst + 2 * CONTEXT + 1 < changed ! e')"
  using assms
proof (induction changed "changed ! (e - 1)" e rule: hunk_end.induct)
  case (1 changed e)
  show ?case
  proof (cases "e < length changed \<and> changed ! e - changed ! (e - 1) \<le> 2 * CONTEXT + 1")
    case True
    then have "hunk_end changed (changed ! e) (e + 1) = (lst, e')"
      using 1(5) by (subst (asm) hunk_end.simps) simp
    with 1(1) [OF True] True 1(2) show ?thesis by auto
  next
    case False
    then have r: "lst = changed ! (e - 1)" "e' = e"
      using 1(5) by (subst (asm) hunk_end.simps, auto)+
    moreover have "lst + 2 * CONTEXT + 1 < changed ! e" if "e < length changed"
      using that False r(1) by auto
    ultimately show ?thesis using 1(4) by simp
  qed
qed

lemma hunks_spec:
  assumes "sorted_wrt (<) changed" "\<forall>k \<in> set changed. k < n"
  shows "sorted_wrt (\<lambda>h h'. snd h \<le> fst h') (hunks changed n c)
    \<and> (\<forall>h \<in> set (hunks changed n c). changed ! c - CONTEXT \<le> fst h \<and> fst h < snd h \<and> snd h \<le> n)
    \<and> (\<forall>i. c \<le> i \<and> i < length changed \<longrightarrow> (\<exists>h \<in> set (hunks changed n c). fst h \<le> changed ! i \<and> changed ! i < snd h))"
  using assms
proof (induction changed n c rule: hunks.induct)
  case (1 changed n c)
  show ?case
  proof (cases "c < length changed")
    case True
    obtain lst e where h: "hunk_end changed (changed ! c) (c + 1) = (lst, e)"
      by (cases "hunk_end changed (changed ! c) (c + 1)")
    note sp = hunk_end_spec [OF 1(2), of "c + 1" lst e, simplified, OF _ h [simplified]]
    have e: "c < e" "e \<le> length changed" "lst = changed ! (e - 1)"
      "e < length changed \<longrightarrow> lst + 2 * CONTEXT + 1 < changed ! e" using sp True by auto
    have mono: "changed ! i \<le> changed ! j" if "i \<le> j" "j < length changed" for i j
      using 1(2) that by (cases "i = j") (auto simp: sorted_wrt_iff_nth_less intro: less_imp_le)
    have lst: "changed ! c \<le> lst" "lst < n" using mono [of c "e - 1"] e 1(3) True by auto
    let ?h = "(changed ! c - CONTEXT, min (lst + CONTEXT + 1) n)"
    have hs: "hunks changed n c = ?h # hunks changed n e"
      using True by (subst hunks.simps) (simp add: h [simplified])
    have IH: "sorted_wrt (\<lambda>h h'. snd h \<le> fst h') (hunks changed n e)"
      "\<forall>h \<in> set (hunks changed n e). changed ! e - CONTEXT \<le> fst h \<and> fst h < snd h \<and> snd h \<le> n"
      "\<forall>i. e \<le> i \<and> i < length changed \<longrightarrow> (\<exists>h \<in> set (hunks changed n e). fst h \<le> changed ! i \<and> changed ! i < snd h)"
      using 1(1) [OF True 1(2,3)] h by auto
    have apart: "snd ?h \<le> fst h' \<and> changed ! c - CONTEXT \<le> fst h'" if h': "h' \<in> set (hunks changed n e)" for h'
    proof -
      have "e < length changed" using h' by (subst (asm) hunks.simps) (auto split: if_splits)
      with e(4) have "lst + 2 * CONTEXT + 1 < changed ! e" by simp
      then have "lst + CONTEXT + 1 \<le> changed ! e - CONTEXT" by (simp add: CONTEXT_def)
      moreover have "changed ! e - CONTEXT \<le> fst h'" using IH(2) h' by auto
      ultimately show ?thesis using lst(1) by auto
    qed
    have here: "fst ?h \<le> changed ! i \<and> changed ! i < snd ?h" if "c \<le> i" "i < e" for i
    proof -
      have "i \<le> e - 1" "e - 1 < length changed" "i < length changed" using that e(2) by auto
      then have "changed ! i \<le> lst" "changed ! c \<le> changed ! i"
        using mono [of i "e - 1"] mono [of c i] that(1) e(3) by auto
      then show ?thesis using lst(2) by auto
    qed
    have first: "fst ?h < snd ?h \<and> snd ?h \<le> n" using lst by auto
    show ?thesis
      unfolding hs
    proof (intro conjI)
      show "sorted_wrt (\<lambda>h h'. snd h \<le> fst h') (?h # hunks changed n e)" using IH(1) apart by simp
      show "\<forall>h \<in> set (?h # hunks changed n e). changed ! c - CONTEXT \<le> fst h \<and> fst h < snd h \<and> snd h \<le> n"
        using IH(2) apart first by auto
      show "\<forall>i. c \<le> i \<and> i < length changed \<longrightarrow>
          (\<exists>h \<in> set (?h # hunks changed n e). fst h \<le> changed ! i \<and> changed ! i < snd h)"
      proof (intro allI impI)
        fix i assume i: "c \<le> i \<and> i < length changed"
        show "\<exists>h \<in> set (?h # hunks changed n e). fst h \<le> changed ! i \<and> changed ! i < snd h"
        proof (cases "i < e")
          case True
          then show ?thesis using here [of i] i by (intro bexI [of _ ?h]) simp_all
        next
          case False
          then show ?thesis using IH(3) i by (meson list.set_intros(2) not_less)
        qed
      qed
    qed
  next
    case False
    then have "hunks changed n c = []" by (subst hunks.simps) simp
    with False show ?thesis by simp
  qed
qed

subsection \<open>Positions\<close>

lemma length_op_pos [simp]: "length (op_pos ops i j) = length ops"
  by (induction ops i j rule: op_pos.induct) simp_all

lemma op_pos_nth:
  "k < length ops \<Longrightarrow> op_pos ops i j ! k =
     (i + length (filter (\<lambda>q. q \<noteq> Ins) (take k ops)), j + length (filter (\<lambda>q. q \<noteq> Del) (take k ops)))"
proof (induction ops i j arbitrary: k rule: op_pos.induct)
  case (2 ops i j)
  then show ?case by (cases k) simp_all
next
  case (3 ops i j)
  then show ?case by (cases k) simp_all
next
  case (4 ops i j)
  then show ?case by (cases k) simp_all
qed simp

lemma script_lengths:
  "script ops a b \<Longrightarrow> length a = length (filter (\<lambda>q. q \<noteq> Ins) ops) \<and> length b = length (filter (\<lambda>q. q \<noteq> Del) ops)"
  by (induction ops a b rule: script.induct) (auto split: list.splits)

lemma filter_take_less:
  "k < length xs \<Longrightarrow> P (xs ! k) \<Longrightarrow> length (filter P (take k xs)) < length (filter P xs)"
  by (subst (2) id_take_nth_drop [of k xs]) simp_all

text \<open>Every row shown reads a line that exists.\<close>

lemma rows_in_range:
  assumes "script ops a b" "k < length ops" "op_pos ops 0 0 ! k = (i, j)"
  shows "(ops ! k \<noteq> Ins \<longrightarrow> i < length a) \<and> (ops ! k \<noteq> Del \<longrightarrow> j < length b)"
  using assms script_lengths [OF assms(1)] filter_take_less [OF assms(2), of "\<lambda>q. q \<noteq> Ins"]
    filter_take_less [OF assms(2), of "\<lambda>q. q \<noteq> Del"]
  by (auto simp: op_pos_nth)

lemma changed_ops_sorted: "sorted_wrt (<) (changed_ops ops)" "\<forall>k \<in> set (changed_ops ops). k < length ops"
  by (auto simp: changed_ops_def sorted_wrt_filter)

section \<open>The properties\<close>

text \<open>
  C17: the bounded search is exact on what the caller gives it, at most \<open>MAX_LINES\<close> lines together.  The script it returns turns one list of lines into the other and no script changes
  fewer lines.  It gives up exactly when the shortest script changes more than \<open>MAX_D\<close> lines or the search for it takes
  more than \<open>MAX_WORK\<close> steps, one for each diagonal walked and one for each line slid over; those steps are at most
  \<open>(d + 1)\<^sup>2 (n + 1)\<close> for a shortest script of \<open>d\<close> changes and \<open>n\<close> old lines.\<close>

theorem myers_shortest:
  assumes "length a + length b \<le> MAX_LINES" "script sh a b" "\<forall>s. script s a b \<longrightarrow> cost sh \<le> cost s"
  shows "(\<forall>ops. myers a b = Some ops \<longrightarrow> script ops a b \<and> cost ops = cost sh)
    \<and> (myers a b = None \<longleftrightarrow> MAX_D < cost sh \<or> MAX_WORK < search_work a b (cost sh))
    \<and> search_work a b (cost sh) \<le> (cost sh + 1) * (cost sh + 1) * (length a + 1)"
  using myers_spec [OF assms] search_work_le [of a b "cost sh"] by (auto split: option.splits)

theorem myers_shortest_witness:
  "\<exists>ops. myers [1, 2, 3 :: nat] [1, 3] = Some ops \<and> script ops [1, 2, 3 :: nat] [1, 3] \<and> cost ops = 1"
proof -
  let ?s = "[Keep, Del, Keep]"
  have l: "length [1, 2, 3 :: nat] + length [1, 3 :: nat] \<le> MAX_LINES" by (simp add: MAX_LINES_def)
  have s: "script ?s [1, 2, 3 :: nat] [1, 3]" "cost ?s = 1" by (simp_all add: cost_def)
  have "cost ?s \<le> cost s'" if "script s' [1, 2, 3 :: nat] [1, 3]" for s'
  proof -
    have "length xs = length ys" if "cost q = 0" "script q xs ys" for q and xs ys :: "nat list"
      using that by (induction q xs ys rule: script.induct) (auto simp: cost_def split: list.splits if_splits)
    from this [OF _ that] s(2) show ?thesis by (cases "cost s'") auto
  qed
  then have m: "\<forall>s'. script s' [1, 2, 3 :: nat] [1, 3] \<longrightarrow> cost ?s \<le> cost s'" by blast
  from myers_shortest [OF l s(1) m] s(2) obtain ops where "myers [1, 2, 3 :: nat] [1, 3] = Some ops"
    "script ops [1, 2, 3 :: nat] [1, 3]" "cost ops = 1"
    by (cases "myers [1, 2, 3 :: nat] [1, 3]") (auto simp: MAX_D_def MAX_WORK_def)
  then show ?thesis by blast
qed

text \<open>
  C32: The unified diff shows the whole difference. Its script turns the disk's lines into the
  recovered ones, and is the smallest when the diff says so; its output is the header and the
  hunks, cut at the bound with the lost lines counted; the hunks are in order and disjoint, every
  removed or added line is in one of them, and every row shown reads a line that exists.\<close>

theorem unified_shows_difference:
  assumes "a = diff_lines disk" "b = diff_lines recovered" "unified_ops a b = (minimal, ops)"
    "hs = hunks (changed_ops ops) (length ops) 0"
  shows "concat a = disk \<and> concat b = recovered \<and> script ops a b
    \<and> (d_minimal (unified name disk recovered) \<longrightarrow> (\<forall>s. script s a b \<longrightarrow> cost ops \<le> cost s))
    \<and> (let text' = [str ''--- '' @ name @ str '' (on disk)'', str ''+++ '' @ name @ str '' (recovered)'']
                   @ concat (map (hunk_text ops (op_pos ops 0 0) a b) hs)
       in d_lines (unified name disk recovered) = take MAX_OUTPUT text'
          \<and> d_cut (unified name disk recovered) = length text' - MAX_OUTPUT)
    \<and> sorted_wrt (\<lambda>h h'. snd h \<le> fst h') hs
    \<and> (\<forall>k < length ops. ops ! k \<noteq> Keep \<longrightarrow> (\<exists>h \<in> set hs. fst h \<le> k \<and> k < snd h))
    \<and> (\<forall>h \<in> set hs. fst h < snd h \<and> (\<forall>k. fst h \<le> k \<and> k < snd h \<longrightarrow> k < length ops
         \<and> (\<forall>i j. op_pos ops 0 0 ! k = (i, j) \<longrightarrow>
              (ops ! k \<noteq> Ins \<longrightarrow> i < length a) \<and> (ops ! k \<noteq> Del \<longrightarrow> j < length b))))"
proof -
  note us = unified_ops_spec [OF assms(3)]
  have u: "unified name disk recovered =
      (let text' = [str ''--- '' @ name @ str '' (on disk)'', str ''+++ '' @ name @ str '' (recovered)'']
                   @ concat (map (hunk_text ops (op_pos ops 0 0) a b) hs)
       in \<lparr>d_lines = take MAX_OUTPUT text', d_minimal = minimal, d_cut = length text' - MAX_OUTPUT\<rparr>)"
    unfolding unified_def Let_def assms(1,2) [symmetric] assms(3) prod.case hunk_loop_text assms(4) [symmetric]
    by (subst fold_push_line) (simp_all add: MAX_OUTPUT_def)
  note hsp = hunks_spec [OF changed_ops_sorted, of ops 0, folded assms(4)]
  have cover: "\<exists>h \<in> set hs. fst h \<le> k \<and> k < snd h" if k: "k < length ops" "ops ! k \<noteq> Keep" for k
  proof -
    have "k \<in> set (changed_ops ops)" using k by (simp add: changed_ops_def)
    then obtain i where "i < length (changed_ops ops)" "changed_ops ops ! i = k" by (auto simp: in_set_conv_nth)
    with hsp show ?thesis by auto
  qed
  have rows: "fst h < snd h \<and> (\<forall>k. fst h \<le> k \<and> k < snd h \<longrightarrow> k < length ops
         \<and> (\<forall>i j. op_pos ops 0 0 ! k = (i, j) \<longrightarrow>
              (ops ! k \<noteq> Ins \<longrightarrow> i < length a) \<and> (ops ! k \<noteq> Del \<longrightarrow> j < length b)))" if "h \<in> set hs" for h
  proof -
    have h: "fst h < snd h" "snd h \<le> length ops" using hsp that by blast+
    have "k < length ops" if "fst h \<le> k \<and> k < snd h" for k using that h(2) by simp
    then show ?thesis using h(1) rows_in_range [OF conjunct1 [OF us]] by blast
  qed
  have lines: "concat a = disk" "concat b = recovered" unfolding assms(1,2) by (rule concat_diff_lines)+
  show ?thesis
  proof (intro conjI)
    show "d_minimal (unified name disk recovered) \<longrightarrow> (\<forall>s. script s a b \<longrightarrow> cost ops \<le> cost s)"
      using us by (simp add: u Let_def)
    show "let text' = [str ''--- '' @ name @ str '' (on disk)'', str ''+++ '' @ name @ str '' (recovered)'']
                   @ concat (map (hunk_text ops (op_pos ops 0 0) a b) hs)
       in d_lines (unified name disk recovered) = take MAX_OUTPUT text'
          \<and> d_cut (unified name disk recovered) = length text' - MAX_OUTPUT"
      unfolding u Let_def by simp
    show "\<forall>k < length ops. ops ! k \<noteq> Keep \<longrightarrow> (\<exists>h \<in> set hs. fst h \<le> k \<and> k < snd h)"
      using cover by blast
  qed (rule lines conjunct1 [OF us] conjunct1 [OF hsp] ballI [OF rows], assumption?)+
qed

theorem unified_shows_difference_witness:
  "script (snd (unified_ops (diff_lines [97, 10]) (diff_lines [98, 10]))) (diff_lines [97, 10]) (diff_lines [98, 10])"
  using unified_shows_difference [OF refl refl prod.collapse [symmetric] refl, of "[97, 10]" "[98, 10]"]
  by blast

end
