(* ===== verification/Snippet.thy ===== *)
theory Snippet
  imports Pos
begin

text \<open>
  The snippet expansion of the language server client, \<^verbatim>\<open>apps/tui/src/lsp/snippet.rs\<close>. A string is its
  list of code points; the parser's position is the list of the characters not read yet. The
  Unicode tests \<open>char::is_alphabetic\<close> and \<open>char::is_alphanumeric\<close> of the standard library are
  arguments.
\<close>

section \<open>The parser\<close>

abbreviation "c_dollar \<equiv> (36 :: nat)"
abbreviation "c_comma \<equiv> (44 :: nat)"
abbreviation "c_colon \<equiv> (58 :: nat)"
abbreviation "c_backslash \<equiv> (92 :: nat)"
abbreviation "c_underscore \<equiv> (95 :: nat)"
abbreviation "c_open \<equiv> (123 :: nat)"
abbreviation "c_pipe \<equiv> (124 :: nat)"
abbreviation "c_close \<equiv> (125 :: nat)"

definition U32_MAX :: nat where "U32_MAX = 4294967295"

record expansion =
  x_text :: "nat list"
  x_cursor :: nat

record parser =
  p_rest :: "nat list"
  p_out :: "nat list"
  p_tabs :: "(nat \<times> nat) list"

definition p_peek :: "parser \<Rightarrow> nat option" where
  "p_peek p = first_opt (p_rest p)"

definition p_advance :: "parser \<Rightarrow> parser" where
  "p_advance p = p\<lparr>p_rest := drop 1 (p_rest p)\<rparr>"

definition p_push :: "nat \<Rightarrow> parser \<Rightarrow> parser" where
  "p_push c p = p\<lparr>p_out := p_out p @ [c]\<rparr>"

definition p_tab :: "nat \<Rightarrow> parser \<Rightarrow> parser" where
  "p_tab n p = p\<lparr>p_tabs := p_tabs p @ [(n, str_len (p_out p))]\<rparr>"

definition p_consume :: "nat \<Rightarrow> parser \<Rightarrow> parser" where
  "p_consume want p = (if p_peek p = Some want then p_advance p else p)"

definition p_skip_while :: "(nat \<Rightarrow> bool) \<Rightarrow> parser \<Rightarrow> parser" where
  "p_skip_while ok p = p\<lparr>p_rest := dropWhile ok (p_rest p)\<rparr>"

text \<open>Digits saturate at \<open>u32::MAX\<close>, which is also the answer when there is no digit.\<close>

definition to_digit :: "nat \<Rightarrow> nat option" where
  "to_digit c = (if 48 \<le> c \<and> c \<le> 57 then Some (c - 48) else None)"

fun number_loop :: "nat list \<Rightarrow> nat \<Rightarrow> bool \<Rightarrow> nat \<times> nat list" where
  "number_loop [] n any = (if \<not> any then U32_MAX else n, [])"
| "number_loop (c # cs) n any =
     (case to_digit c of
        Some d \<Rightarrow> number_loop cs (min U32_MAX (min U32_MAX (n * 10) + d)) True
      | None \<Rightarrow> (if \<not> any then U32_MAX else n, c # cs))"

definition read_number :: "parser \<Rightarrow> nat \<times> parser" where
  "read_number p = (case number_loop (p_rest p) 0 False of (n, r) \<Rightarrow> (n, p\<lparr>p_rest := r\<rparr>))"

fun choice_loop :: "nat list \<Rightarrow> nat list \<Rightarrow> nat list \<times> nat list" where
  "choice_loop [] s = (s, [])"
| "choice_loop (c # cs) s =
     (if c = c_comma \<or> c = c_pipe then (s, c # cs)
      else if c = c_backslash then
        (case cs of e # cs' \<Rightarrow> choice_loop cs' (s @ [e]) | [] \<Rightarrow> (s, []))
      else choice_loop cs (s @ [c]))"

definition read_choice_first :: "parser \<Rightarrow> nat list \<times> parser" where
  "read_choice_first p = (case choice_loop (p_rest p) [] of (s, r) \<Rightarrow> (s, p\<lparr>p_rest := r\<rparr>))"

fun choice_end :: "nat list \<Rightarrow> nat list" where
  "choice_end [] = []"
| "choice_end (c # cs) = (if c = c_pipe then cs else choice_end cs)"

definition skip_to_choice_end :: "parser \<Rightarrow> parser" where
  "skip_to_choice_end p = p\<lparr>p_rest := choice_end (p_rest p)\<rparr>"

text \<open>
  \<open>parse_braced\<close> and \<open>parse_dollar\<close> call the parser again on a default text: \<open>nested\<close> is that
  call. The result \<open>None\<close> stands for a parser that has not returned yet.
\<close>

definition parse_braced :: "(parser \<Rightarrow> parser option) \<Rightarrow> parser \<Rightarrow> parser option" where
  "parse_braced nested p0 =
     (let (n, p) = read_number (p_advance p0)
      in if n \<noteq> U32_MAX then
           (if p_peek p = Some c_colon then
              map_option (p_consume c_close) (nested (p_tab n (p_advance p)))
            else if p_peek p = Some c_pipe then
              (let (s, p1) = read_choice_first (p_tab n (p_advance p))
               in Some (p_consume c_close (skip_to_choice_end (p1\<lparr>p_out := p_out p1 @ s\<rparr>))))
            else Some (p_consume c_close (p_tab n p)))
         else
           (let p1 = p_skip_while (\<lambda>d. d \<noteq> c_close \<and> d \<noteq> c_colon) p
            in if p_peek p1 = Some c_colon then map_option (p_consume c_close) (nested (p_advance p1))
               else Some (p_consume c_close p1)))"

definition parse_dollar :: "(nat \<Rightarrow> bool) \<Rightarrow> (nat \<Rightarrow> bool) \<Rightarrow> (parser \<Rightarrow> parser option) \<Rightarrow> parser
    \<Rightarrow> parser option" where
  "parse_dollar alphabetic alphanumeric nested p0 =
     (let p = p_advance p0
      in case p_peek p of
           Some c \<Rightarrow>
             if c = c_open then parse_braced nested p
             else if to_digit c \<noteq> None then (let (n, p1) = read_number p in Some (p_tab n p1))
             else if alphabetic c \<or> c = c_underscore then
               Some (p_skip_while (\<lambda>d. alphanumeric d \<or> d = c_underscore) p)
             else Some (p_push c_dollar p)
         | None \<Rightarrow> Some (p_push c_dollar p))"

definition parse_escape :: "parser \<Rightarrow> parser" where
  "parse_escape p0 =
     (let p = p_advance p0
      in case p_peek p of
           Some e \<Rightarrow>
             if e = c_dollar \<or> e = c_close \<or> e = c_backslash then p_advance (p_push e p)
             else p_advance (p_push e (p_push c_backslash p))
         | None \<Rightarrow> p_push c_backslash p)"

fun parse :: "(nat \<Rightarrow> bool) \<Rightarrow> (nat \<Rightarrow> bool) \<Rightarrow> nat \<Rightarrow> bool \<Rightarrow> parser \<Rightarrow> parser option" where
  "parse al an 0 nested p = None"
| "parse al an (Suc fuel) nested p =
     (case p_peek p of
        None \<Rightarrow> Some p
      | Some c \<Rightarrow>
          if c = c_close \<and> nested then Some p
          else if c = c_backslash then parse al an fuel nested (parse_escape p)
          else if c = c_dollar then
            (case parse_dollar al an (\<lambda>q. parse al an fuel True q) p of
               None \<Rightarrow> None
             | Some p' \<Rightarrow> parse al an fuel nested p')
          else parse al an fuel nested (p_advance (p_push c p)))"

text \<open>The lowest positive tabstop (the first of several with its number), else \<open>$0\<close>, else the end.\<close>

fun min_tab :: "(nat \<times> nat) list \<Rightarrow> (nat \<times> nat) option" where
  "min_tab [] = None"
| "min_tab (t # ts) =
     (case min_tab ts of None \<Rightarrow> Some t | Some u \<Rightarrow> if fst u < fst t then Some u else Some t)"

definition pick_cursor :: "(nat \<times> nat) list \<Rightarrow> nat \<Rightarrow> nat" where
  "pick_cursor tabs end' =
     (case min_tab (filter (\<lambda>(n, _). 1 \<le> n \<and> n \<noteq> U32_MAX) tabs) of
        Some (_, off) \<Rightarrow> off
      | None \<Rightarrow> (case find (\<lambda>(n, _). n = 0) tabs of Some (_, off) \<Rightarrow> off | None \<Rightarrow> end'))"

definition expand :: "(nat \<Rightarrow> bool) \<Rightarrow> (nat \<Rightarrow> bool) \<Rightarrow> nat \<Rightarrow> nat list \<Rightarrow> expansion option" where
  "expand al an fuel body =
     map_option (\<lambda>p. \<lparr>x_text = p_out p, x_cursor = pick_cursor (p_tabs p) (str_len (p_out p))\<rparr>)
       (parse al an fuel False \<lparr>p_rest = body, p_out = [], p_tabs = []\<rparr>)"


section \<open>Progress\<close>

text \<open>
  What every piece of the parser keeps: it reads forward, it only appends, and every tabstop is at
  a character boundary of the text written so far.
\<close>

definition tabs_ok :: "parser \<Rightarrow> bool" where
  "tabs_ok p \<longleftrightarrow> (\<forall>t \<in> set (p_tabs p). \<exists>k \<le> length (p_out p). snd t = str_len (take k (p_out p)))"

definition steps_to :: "parser \<Rightarrow> parser \<Rightarrow> bool" where
  "steps_to p p' \<longleftrightarrow> length (p_rest p') \<le> length (p_rest p) \<and> (\<exists>w. p_out p' = p_out p @ w)
     \<and> (tabs_ok p \<longrightarrow> tabs_ok p')"

lemma steps_to_refl [simp]: "steps_to p p"
  by (simp add: steps_to_def)

lemma steps_to_trans: "steps_to p q \<Longrightarrow> steps_to q r \<Longrightarrow> steps_to p r"
  by (auto simp: steps_to_def)

lemma steps_to_rest: "length r \<le> length (p_rest p) \<Longrightarrow> steps_to p (p\<lparr>p_rest := r\<rparr>)"
  by (simp add: steps_to_def tabs_ok_def)

lemma steps_to_out: "steps_to p (p\<lparr>p_out := p_out p @ w\<rparr>)"
proof -
  have "\<exists>k \<le> length (p_out p @ w). x = str_len (take k (p_out p @ w))"
    if "\<exists>k \<le> length (p_out p). x = str_len (take k (p_out p))" for x
  proof -
    from that obtain k where "k \<le> length (p_out p)" "x = str_len (take k (p_out p))" by blast
    then show ?thesis by (intro exI [of _ k]) simp
  qed
  then show ?thesis by (simp add: steps_to_def tabs_ok_def)
qed

lemma steps_to_tab: "steps_to p (p_tab n p)"
proof -
  have "\<exists>k \<le> length (p_out p). str_len (p_out p) = str_len (take k (p_out p))"
    by (intro exI [of _ "length (p_out p)"]) simp
  then show ?thesis by (simp add: steps_to_def tabs_ok_def p_tab_def)
qed

lemma steps_to_push: "steps_to p (p_push c p)"
  unfolding p_push_def by (rule steps_to_out)

lemma steps_to_advance: "steps_to p (p_advance p)"
  unfolding p_advance_def by (rule steps_to_rest) simp

lemma steps_to_consume: "steps_to p (p_consume c p)"
  by (simp add: p_consume_def steps_to_advance)

lemma steps_to_skip: "steps_to p (p_skip_while ok p)"
  unfolding p_skip_while_def by (rule steps_to_rest) (simp add: length_dropWhile_le)

lemma number_loop_le: "length (snd (number_loop cs n any)) \<le> length cs"
  by (induction cs n any rule: number_loop.induct) (auto split: option.split)

lemma steps_to_number: "steps_to p (snd (read_number p))"
  using number_loop_le [of "p_rest p" 0 False]
  by (auto simp: read_number_def intro: steps_to_rest split: prod.split)

lemma choice_loop_le: "length (snd (choice_loop cs s)) \<le> length cs"
proof (induction cs s rule: choice_loop.induct)
  case (2 c cs s)
  then show ?case by (cases cs) auto
qed simp

lemma steps_to_choice: "steps_to p (snd (read_choice_first p))"
  using choice_loop_le [of "p_rest p" "[]"]
  by (auto simp: read_choice_first_def intro: steps_to_rest split: prod.split)

lemma choice_end_le: "length (choice_end cs) \<le> length cs"
  by (induction cs) auto

lemma steps_to_choice_end: "steps_to p (skip_to_choice_end p)"
  unfolding skip_to_choice_end_def by (rule steps_to_rest) (rule choice_end_le)

lemmas steps_to_intros = steps_to_tab steps_to_push steps_to_advance steps_to_consume steps_to_skip
  steps_to_number steps_to_choice steps_to_choice_end steps_to_out

text \<open>A call that returns on every shorter input, and only steps forward.\<close>

definition returns :: "(parser \<Rightarrow> parser option) \<Rightarrow> nat \<Rightarrow> bool" where
  "returns f m \<longleftrightarrow> (\<forall>q. length (p_rest q) < m \<longrightarrow> (\<exists>q'. f q = Some q' \<and> steps_to q q'))"

lemma map_option_returns:
  assumes "returns f m" "length (p_rest q) < m" "steps_to p q" "\<And>r. steps_to r (g r)"
  shows "\<exists>q'. map_option g (f q) = Some q' \<and> steps_to p q'"
proof -
  obtain q' where q': "f q = Some q'" "steps_to q q'" using assms(1,2) by (auto simp: returns_def)
  have "steps_to p (g q')"
    by (rule steps_to_trans [OF steps_to_trans [OF assms(3) q'(2)] assms(4)])
  with q'(1) show ?thesis by simp
qed

lemma braced_returns:
  assumes f: "returns f m" and len: "length (p_rest p0) < m"
  shows "\<exists>p'. parse_braced f p0 = Some p' \<and> steps_to p0 p'"
proof -
  obtain n p where np: "read_number (p_advance p0) = (n, p)" by (cases "read_number (p_advance p0)")
  have p: "steps_to p0 p"
    using steps_to_trans [OF steps_to_advance steps_to_number, of p0] by (simp add: np)
  have lt: "length (p_rest q) < m" if "steps_to p0 q" for q using that len by (simp add: steps_to_def)
  show ?thesis
  proof (cases "n = U32_MAX")
    case False
    show ?thesis
    proof (cases "p_peek p = Some c_colon")
      case True
      have s: "steps_to p0 (p_tab n (p_advance p))"
        by (rule steps_to_trans [OF steps_to_trans [OF p steps_to_advance] steps_to_tab])
      show ?thesis
        using map_option_returns [OF f lt [OF s] s steps_to_consume] False True
        by (simp add: parse_braced_def np)
    next
      case nc: False
      obtain s p1 where sp: "read_choice_first (p_tab n (p_advance p)) = (s, p1)"
        by (cases "read_choice_first (p_tab n (p_advance p))")
      have "steps_to (p_tab n (p_advance p)) p1" using steps_to_choice [of "p_tab n (p_advance p)"] by (simp add: sp)
      then have "steps_to p0 p1"
        by (rule steps_to_trans [OF steps_to_trans [OF steps_to_trans [OF p steps_to_advance] steps_to_tab]])
      then have "steps_to p0 (p_consume c_close (skip_to_choice_end (p1\<lparr>p_out := p_out p1 @ s\<rparr>)))"
        by (rule steps_to_trans [OF steps_to_trans [OF steps_to_trans [OF _ steps_to_out] steps_to_choice_end]
              steps_to_consume])
      moreover have "steps_to p0 (p_consume c_close (p_tab n p))"
        by (rule steps_to_trans [OF steps_to_trans [OF p steps_to_tab] steps_to_consume])
      ultimately show ?thesis using False nc by (simp add: parse_braced_def np sp)
    qed
  next
    case True
    let ?p = "p_skip_while (\<lambda>d. d \<noteq> c_close \<and> d \<noteq> c_colon) p"
    have s: "steps_to p0 (p_advance ?p)" "steps_to p0 (p_consume c_close ?p)"
      by (rule steps_to_trans [OF steps_to_trans [OF p steps_to_skip]], rule steps_to_advance steps_to_consume)+
    show ?thesis
      using map_option_returns [OF f lt [OF s(1)] s(1) steps_to_consume] s(2) True
      by (simp add: parse_braced_def np Let_def)
  qed
qed

lemma steps_to_shorter: "p_rest p \<noteq> [] \<Longrightarrow> steps_to (p_advance p) q \<Longrightarrow> length (p_rest q) < length (p_rest p)"
  by (cases "p_rest p") (auto simp: steps_to_def p_advance_def)

lemma dollar_returns:
  assumes f: "returns f m" and len: "length (p_rest p) < Suc m" and ne: "p_rest p \<noteq> []"
  shows "\<exists>p'. parse_dollar al an f p = Some p' \<and> steps_to p p' \<and> length (p_rest p') < length (p_rest p)"
proof -
  let ?q = "p_advance p"
  have "\<exists>p'. parse_dollar al an f p = Some p' \<and> steps_to ?q p'"
  proof (cases "p_peek ?q")
    case None
    then show ?thesis by (simp add: parse_dollar_def steps_to_push)
  next
    case (Some c)
    have "length (p_rest ?q) < m" using len ne by (cases "p_rest p") (auto simp: p_advance_def)
    from braced_returns [OF f this] obtain pb where pb: "parse_braced f ?q = Some pb" "steps_to ?q pb" by blast
    obtain n p1 where np: "read_number ?q = (n, p1)" by (cases "read_number ?q")
    have "steps_to ?q (p_tab n p1)"
      using steps_to_trans [OF steps_to_number steps_to_tab, of ?q n] by (simp add: np)
    then show ?thesis
      by (cases "c = c_open"; cases "to_digit c = None"; cases "al c \<or> c = c_underscore")
         (simp_all add: parse_dollar_def Let_def Some pb np steps_to_push steps_to_skip)
  qed
  then show ?thesis
    using steps_to_trans [OF steps_to_advance [of p]] steps_to_shorter [OF ne] by blast
qed

lemma escape_steps:
  assumes "p_rest p \<noteq> []"
  shows "steps_to p (parse_escape p) \<and> length (p_rest (parse_escape p)) < length (p_rest p)"
proof -
  have "steps_to (p_advance p) (parse_escape p)"
    using steps_to_trans [OF steps_to_push steps_to_advance, of "p_advance p"]
      steps_to_trans [OF steps_to_trans [OF steps_to_push steps_to_push] steps_to_advance, of "p_advance p"]
    by (simp add: parse_escape_def Let_def steps_to_push split: option.split)
  then show ?thesis using steps_to_trans [OF steps_to_advance] steps_to_shorter [OF assms] by blast
qed

text \<open>Enough fuel is more than the characters left; the parser stops at the end or, nested, at a brace.\<close>

lemma parse_returns:
  "length (p_rest p) < fuel \<Longrightarrow>
     \<exists>p'. parse al an fuel nested p = Some p' \<and> steps_to p p'
       \<and> (p_rest p' = [] \<or> nested \<and> p_peek p' = Some c_close)"
proof (induction fuel arbitrary: nested p)
  case (Suc fuel)
  have again: "\<exists>p'. parse al an fuel nested q = Some p' \<and> steps_to p p'
       \<and> (p_rest p' = [] \<or> nested \<and> p_peek p' = Some c_close)"
    if "steps_to p q" "length (p_rest q) < length (p_rest p)" for q
    using Suc.IH [of q nested] Suc.prems that by (meson less_Suc_eq_le order_less_le_trans steps_to_trans)
  show ?case
  proof (cases "p_peek p")
    case None
    then show ?thesis by (simp add: p_peek_def first_opt_def split: if_splits list.splits)
  next
    case (Some c)
    then have ne: "p_rest p \<noteq> []" by (auto simp: p_peek_def first_opt_def)
    have f: "returns (\<lambda>q. parse al an fuel True q) fuel" using Suc.IH by (auto simp: returns_def)
    obtain pd where pd: "parse_dollar al an (\<lambda>q. parse al an fuel True q) p = Some pd" "steps_to p pd"
      "length (p_rest pd) < length (p_rest p)" using dollar_returns [OF f Suc.prems ne] by blast
    have pl: "steps_to p (p_advance (p_push c p))" "length (p_rest (p_advance (p_push c p))) < length (p_rest p)"
      using ne steps_to_trans [OF steps_to_push steps_to_advance, of p c]
      by (simp_all add: p_advance_def p_push_def)
    show ?thesis
      using Some again [OF pd(2,3)] again [OF pl] escape_steps [OF ne] again [of "parse_escape p"] pd(1)
      by simp
  qed
qed simp

text \<open>More fuel never changes an answer.\<close>

lemma braced_mono:
  "(\<And>q r. f q = Some r \<Longrightarrow> g q = Some r) \<Longrightarrow> parse_braced f p = Some r \<Longrightarrow> parse_braced g p = Some r"
  unfolding parse_braced_def Let_def by (auto split: prod.splits if_splits)

lemma dollar_mono:
  "(\<And>q r. f q = Some r \<Longrightarrow> g q = Some r) \<Longrightarrow> parse_dollar al an f p = Some r \<Longrightarrow> parse_dollar al an g p = Some r"
  unfolding parse_dollar_def Let_def using braced_mono [of f g]
  by (auto split: option.splits prod.splits if_splits)

lemma parse_mono: "parse al an fuel nested p = Some r \<Longrightarrow> fuel \<le> fuel' \<Longrightarrow> parse al an fuel' nested p = Some r"
proof (induction fuel arbitrary: fuel' nested p r)
  case (Suc fuel)
  obtain f' where f': "fuel' = Suc f'" "fuel \<le> f'" using Suc.prems(2) by (cases fuel') auto
  have again: "parse al an fuel n q = Some x \<Longrightarrow> parse al an f' n q = Some x" for n q x
    using Suc.IH f'(2) by blast
  have dollar: "parse_dollar al an (\<lambda>q. parse al an fuel True q) p = Some q
      \<Longrightarrow> parse_dollar al an (\<lambda>q. parse al an f' True q) p = Some q" for q
    by (rule dollar_mono [rotated]) (use again in blast)+
  show ?case
    using Suc.prems(1) again dollar unfolding f'(1)
    by (auto split: option.splits if_splits)
qed simp

section \<open>The properties\<close>

lemma min_tab_None [simp]: "min_tab ts = None \<longleftrightarrow> ts = []"
  by (cases ts) (auto split: option.split)

lemma min_tab_spec: "min_tab ts = Some t \<Longrightarrow> t \<in> set ts \<and> (\<forall>u \<in> set ts. fst t \<le> fst u)"
proof (induction ts arbitrary: t)
  case (Cons a ts)
  then show ?case by (auto split: option.splits if_splits)
qed simp

lemma pick_cursor_cases:
  "pick_cursor tabs e \<in> insert e (snd ` set tabs)"
proof (cases "min_tab (filter (\<lambda>(n, _). 1 \<le> n \<and> n \<noteq> U32_MAX) tabs)")
  case (Some t)
  then have "t \<in> set tabs" using min_tab_spec [OF Some] by simp
  with Some show ?thesis by (auto simp: pick_cursor_def split: prod.split intro: rev_image_eqI)
next
  case none: None
  show ?thesis
  proof (cases "find (\<lambda>(n, _). n = 0) tabs")
    case (Some t)
    then have "t \<in> set tabs" unfolding find_Some_iff by (metis nth_mem)
    with none Some show ?thesis
      unfolding pick_cursor_def by (auto split: prod.split intro: rev_image_eqI)
  next
    case None
    with none show ?thesis unfolding pick_cursor_def by simp
  qed
qed

text \<open>
  C33: Every snippet, however malformed, is expanded: with any fuel above its length the parser
  returns, and the answer does not depend on the fuel.\<close>

theorem snippet_terminates:
  assumes "length body < fuel"
  shows "(\<exists>x. expand al an fuel body = Some x) \<and> expand al an fuel body = expand al an (Suc (length body)) body"
proof -
  let ?p = "\<lparr>p_rest = body, p_out = [], p_tabs = []\<rparr>"
  obtain p where p: "parse al an (Suc (length body)) False ?p = Some p"
    using parse_returns [of ?p "Suc (length body)" al an False] by auto
  from parse_mono [OF p, of fuel] assms have "parse al an fuel False ?p = Some p" by simp
  with p show ?thesis by (simp add: expand_def)
qed

theorem snippet_terminates_witness:
  "\<exists>x. expand (\<lambda>c. 97 \<le> c) (\<lambda>c. 97 \<le> c) 20 [c_dollar, c_open, 49, c_colon, c_dollar] = Some x"
proof -
  have "length [c_dollar, c_open, 49, c_colon, c_dollar] < 20" by simp
  from snippet_terminates [OF this] show ?thesis by blast
qed

text \<open>The cursor an expansion reports is a character boundary of its text, for every snippet, and
  it is the start of the lowest positive tabstop when there is one.\<close>

theorem snippet_cursor_on_boundary:
  assumes "expand al an fuel body = Some x" and "length body < fuel"
  shows "(\<exists>k \<le> length (x_text x). x_cursor x = str_len (take k (x_text x)))
    \<and> (\<exists>p. parse al an fuel False \<lparr>p_rest = body, p_out = [], p_tabs = []\<rparr> = Some p
         \<and> (\<forall>(n, off) \<in> set (p_tabs p). 1 \<le> n \<and> n \<noteq> U32_MAX \<longrightarrow>
              (\<exists>(m, off') \<in> set (p_tabs p). 1 \<le> m \<and> m \<le> n \<and> x_cursor x = off')))"
proof -
  let ?p = "\<lparr>p_rest = body, p_out = [], p_tabs = []\<rparr>"
  obtain p where p: "parse al an fuel False ?p = Some p" "steps_to ?p p"
    using parse_returns [of ?p fuel al an False] assms(2) by auto
  have x: "x = \<lparr>x_text = p_out p, x_cursor = pick_cursor (p_tabs p) (str_len (p_out p))\<rparr>"
    using assms(1) p(1) by (simp add: expand_def)
  have ok: "tabs_ok p" using p(2) by (simp add: steps_to_def tabs_ok_def)
  have whole: "\<exists>k \<le> length (p_out p). str_len (p_out p) = str_len (take k (p_out p))"
    by (intro exI [of _ "length (p_out p)"]) simp
  have "\<exists>k \<le> length (p_out p). pick_cursor (p_tabs p) (str_len (p_out p)) = str_len (take k (p_out p))"
    using pick_cursor_cases [of "p_tabs p" "str_len (p_out p)"]
  proof
    assume "pick_cursor (p_tabs p) (str_len (p_out p)) = str_len (p_out p)"
    with whole show ?thesis by simp
  next
    assume "pick_cursor (p_tabs p) (str_len (p_out p)) \<in> snd ` set (p_tabs p)"
    then obtain t where "t \<in> set (p_tabs p)" "pick_cursor (p_tabs p) (str_len (p_out p)) = snd t" by blast
    with ok show ?thesis by (simp add: tabs_ok_def)
  qed
  moreover have "\<exists>(m, off') \<in> set (p_tabs p). 1 \<le> m \<and> m \<le> n \<and> x_cursor x = off'"
    if t: "(n, off) \<in> set (p_tabs p)" "1 \<le> n" "n \<noteq> U32_MAX" for n off
  proof -
    let ?ts = "filter (\<lambda>(n, _). 1 \<le> n \<and> n \<noteq> U32_MAX) (p_tabs p)"
    have in': "(n, off) \<in> set ?ts" using t by simp
    then have "?ts \<noteq> []" by (metis list.set(1) empty_iff)
    then obtain m o' where m: "min_tab ?ts = Some (m, o')"
      by (metis min_tab_None not_None_eq surj_pair)
    have "(m, o') \<in> set ?ts" "m \<le> n" using min_tab_spec [OF m] in' by auto
    moreover have "x_cursor x = o'" using m by (simp add: x pick_cursor_def)
    ultimately show ?thesis by auto
  qed
  ultimately show ?thesis using p(1) x by auto
qed

lemmas snippet_eval = expand_def p_peek_def first_opt_def parse_dollar_def parse_braced_def p_advance_def
  Let_def read_number_def to_digit_def U32_MAX_def p_tab_def read_choice_first_def
  skip_to_choice_end_def p_consume_def p_push_def pick_cursor_def str_len_def len_utf8_def

theorem snippet_cursor_on_boundary_witness:
  "\<exists>x. expand (\<lambda>c. False) (\<lambda>c. False) (Suc (length [233, c_dollar, 49, 97])) [233, c_dollar, 49, 97] = Some x
     \<and> x_cursor x = 2 \<and> (\<exists>k \<le> length (x_text x). x_cursor x = str_len (take k (x_text x)))"
proof -
  have e: "expand (\<lambda>c. False) (\<lambda>c. False) (Suc (length [233, c_dollar, 49, 97])) [233, c_dollar, 49, 97]
      = Some \<lparr>x_text = [233, 97], x_cursor = 2\<rparr>"
    by (simp add: snippet_eval)
  from snippet_cursor_on_boundary [OF e lessI] have "\<exists>k \<le> length (x_text \<lparr>x_text = [233, 97], x_cursor = 2\<rparr>).
      x_cursor \<lparr>x_text = [233, 97], x_cursor = 2\<rparr> = str_len (take k (x_text \<lparr>x_text = [233, 97], x_cursor = 2\<rparr>))"
    by (rule conjunct1)
  with e show ?thesis by (intro exI [of _ "\<lparr>x_text = [233, 97], x_cursor = 2\<rparr>"]) simp
qed

text \<open>The text a client sends to have \<open>t\<close> inserted literally.\<close>

definition escape_snippet :: "nat list \<Rightarrow> nat list" where
  "escape_snippet t = concat (map (\<lambda>c. if c = c_dollar \<or> c = c_close \<or> c = c_backslash then [c_backslash, c] else [c]) t)"

lemma parse_escaped:
  "length (escape_snippet t) < fuel \<Longrightarrow>
     parse al an fuel nested (p\<lparr>p_rest := escape_snippet t\<rparr>) = Some (p\<lparr>p_rest := [], p_out := p_out p @ t\<rparr>)"
proof (induction t arbitrary: fuel p)
  case Nil
  then show ?case by (cases fuel) (simp_all add: escape_snippet_def p_peek_def first_opt_def)
next
  case (Cons c t)
  obtain f where f: "fuel = Suc f" using Cons.prems by (cases fuel) auto
  have len: "length (escape_snippet t) < f" using Cons.prems by (auto simp: f escape_snippet_def split: if_splits)
  note IH = Cons.IH [OF len, of "p\<lparr>p_out := p_out p @ [c]\<rparr>"]
  show ?case
  proof (cases "c = c_dollar \<or> c = c_close \<or> c = c_backslash")
    case True
    then have e: "escape_snippet (c # t) = c_backslash # c # escape_snippet t" by (simp add: escape_snippet_def)
    have "parse_escape (p\<lparr>p_rest := c_backslash # c # escape_snippet t\<rparr>)
        = p\<lparr>p_out := p_out p @ [c], p_rest := escape_snippet t\<rparr>"
      using True by (auto simp: parse_escape_def p_advance_def p_peek_def p_push_def first_opt_def)
    then show ?thesis using IH by (simp add: f e p_peek_def first_opt_def)
  next
    case False
    then have e: "escape_snippet (c # t) = c # escape_snippet t" by (simp add: escape_snippet_def)
    have "p_advance (p_push c (p\<lparr>p_rest := c # escape_snippet t\<rparr>))
        = p\<lparr>p_out := p_out p @ [c], p_rest := escape_snippet t\<rparr>"
      by (simp add: p_advance_def p_push_def)
    then show ?thesis using IH False by (simp add: f e p_peek_def first_opt_def)
  qed
qed

text \<open>Escaping is undone by the expansion: the snippet made by escaping dollar, closing brace and
  backslash expands to the text itself with the cursor at its end.\<close>

theorem snippet_escape_round_trip:
  "expand al an (Suc (length (escape_snippet t))) (escape_snippet t)
     = Some \<lparr>x_text = t, x_cursor = str_len t\<rparr>"
  using parse_escaped [of t "Suc (length (escape_snippet t))" al an False "\<lparr>p_rest = [], p_out = [], p_tabs = []\<rparr>"]
  by (simp add: expand_def pick_cursor_def del: parse.simps)

text \<open>
  A choice that holds an escaped bar: the first choice is read with escapes, the rest is skipped
  without, so the text after the escaped bar is inserted (\<open>${1|a,b\|c|}\<close> expands to \<open>ac|}\<close>).
\<close>

definition escaped_bar :: "nat list" where
  "escaped_bar = [c_dollar, c_open, 49, c_pipe, 97, c_comma, 98, c_backslash, c_pipe, 99, c_pipe, c_close]"

lemma escaped_bar_ends_choices:
  "expand al an (Suc (length escaped_bar)) escaped_bar
     = Some \<lparr>x_text = [97, 99, c_pipe, c_close], x_cursor = 0\<rparr>"
  by (simp add: escaped_bar_def snippet_eval)

end
