(* ===== verification/Lsp_Codec.thy ===== *)
theory Lsp_Codec
  imports Char_Boundary
begin

text \<open>
  The framing of language server messages, \<^verbatim>\<open>apps/tui/src/lsp/codec.rs\<close>. The stream is the list of
  bytes still to be read and a writer is the list of bytes written. \<^verbatim>\<open>serde_json\<close> is a parameter: \<open>to_vec\<close>
  and \<open>from_slice\<close> convert a value, \<open>null\<close> is \<^verbatim>\<open>Value::Null\<close>.
\<close>

section \<open>Text\<close>

text \<open>Printing and parsing of \<open>usize\<close>, and strings as lists of code points.\<close>

fun show_usize :: "nat \<Rightarrow> bytes" where
  "show_usize n = (if n < 10 then [of_nat (48 + n)] else show_usize (n div 10) @ [of_nat (48 + n mod 10)])"

declare show_usize.simps [simp del]

definition header_name :: bytes where
  "header_name = [67, 111, 110, 116, 101, 110, 116, 45, 76, 101, 110, 103, 116, 104, 58]"

text \<open>
  \<^verbatim>\<open>str::trim\<close> over the bytes of a valid string: the characters of Unicode's White\_Space, with the
  encodings of those beyond ASCII.
\<close>

definition ws_chars :: "bytes list" where
  "ws_chars = map (\<lambda>c. [c]) [9, 10, 11, 12, 13, 32]
     @ [[0xC2, 0x85], [0xC2, 0xA0], [0xE1, 0x9A, 0x80]]
     @ map (\<lambda>c. [0xE2, 0x80, c]) [0x80, 0x81, 0x82, 0x83, 0x84, 0x85, 0x86, 0x87, 0x88, 0x89, 0x8A, 0xA8, 0xA9, 0xAF]
     @ [[0xE2, 0x81, 0x9F], [0xE3, 0x80, 0x80]]"

function trim_start :: "bytes \<Rightarrow> bytes" where
  "trim_start b =
     (case find (\<lambda>w. w \<noteq> [] \<and> take (length w) b = w) ws_chars of
        Some w \<Rightarrow> if b = [] \<or> w = [] then b else trim_start (drop (length w) b)
      | None \<Rightarrow> b)"
  by auto
termination
  by (relation "measure length") auto

declare trim_start.simps [simp del]

function trim_end :: "bytes \<Rightarrow> bytes" where
  "trim_end b =
     (case find (\<lambda>w. w \<noteq> [] \<and> length w \<le> length b \<and> drop (length b - length w) b = w) ws_chars of
        Some w \<Rightarrow> if b = [] \<or> w = [] then b else trim_end (take (length b - length w) b)
      | None \<Rightarrow> b)"
  by auto
termination
  by (relation "measure length") auto

declare trim_end.simps [simp del]

definition trim :: "bytes \<Rightarrow> bytes" where
  "trim b = trim_end (trim_start b)"

definition trim_crlf :: "bytes \<Rightarrow> bytes" where
  "trim_crlf l = rev (dropWhile (\<lambda>c. c = 13 \<or> c = newline) (rev l))"

fun digits_value :: "bytes \<Rightarrow> nat \<Rightarrow> nat option" where
  "digits_value [] n = Some n"
| "digits_value (c # cs) n =
     (if 48 \<le> c \<and> c \<le> 57
      then (let m = n * 10 + unat (c - 48) in if m < 2 ^ 64 then digits_value cs m else None)
      else None)"

definition parse_usize :: "bytes \<Rightarrow> nat option" where
  "parse_usize s =
     (let ds = (case s of c # cs \<Rightarrow> if c = 43 then cs else s | [] \<Rightarrow> s)
      in if ds = [] then None else digits_value ds 0)"

section \<open>Frames\<close>

definition MAX_FRAME_BYTES :: nat where "MAX_FRAME_BYTES = 64 * 1024 * 1024"
definition MAX_HEADER_LINE :: nat where "MAX_HEADER_LINE = 1024"

datatype frame_error = InvalidData | UnexpectedEof

definition write_message :: "('v \<Rightarrow> bytes option) \<Rightarrow> bytes \<Rightarrow> 'v \<Rightarrow> bytes option" where
  "write_message to_vec w msg =
     (case to_vec msg of
        None \<Rightarrow> None
      | Some body \<Rightarrow>
          Some (w @ header_name @ [32] @ show_usize (length body) @ [13, 10, 13, 10] @ body))"

text \<open>
  \<^verbatim>\<open>take(n).read_line\<close>: the bytes up to and including a newline, at most \<open>n\<close> of them; an error
  when they are not UTF-8.
\<close>

fun line_bytes :: "nat \<Rightarrow> bytes \<Rightarrow> bytes" where
  "line_bytes 0 s = []"
| "line_bytes (Suc n) [] = []"
| "line_bytes (Suc n) (c # cs) = c # (if c = newline then [] else line_bytes n cs)"

definition read_line :: "nat \<Rightarrow> bytes \<Rightarrow> frame_error + bytes \<times> bytes" where
  "read_line n s =
     (let l = line_bytes n s
      in if utf8_valid l then Inr (l, drop (length l) s) else Inl InvalidData)"

text \<open>The header block: the length it declares, or the end of the stream inside it.\<close>

function read_header :: "bytes \<Rightarrow> nat option \<Rightarrow> frame_error + nat option option \<times> bytes" where
  "read_header s len =
     (case read_line MAX_HEADER_LINE s of
        Inl e \<Rightarrow> Inl e
      | Inr (line, s') \<Rightarrow>
          if line = [] then Inr (None, s')
          else if length line = MAX_HEADER_LINE \<and> last_opt line \<noteq> Some newline then Inl InvalidData
          else
            let trimmed = trim_crlf line
            in if trimmed = [] then Inr (Some len, s')
               else read_header s'
                 (if take (length header_name) trimmed = header_name
                  then parse_usize (trim (drop (length header_name) trimmed)) else len))"
  by auto
termination
proof (relation "measure (\<lambda>(s, len). length s)", goal_cases)
  case (2 s len p line s' trimmed)
  then have "line = line_bytes MAX_HEADER_LINE s" "s' = drop (length line) s" "line \<noteq> []"
    by (auto simp: read_line_def Let_def split: if_splits)
  moreover have "s \<noteq> []" using calculation by (auto simp: MAX_HEADER_LINE_def numeral_eq_Suc)
  ultimately show ?case by simp
qed auto

declare read_header.simps [simp del]

definition read_frame :: "(bytes \<Rightarrow> 'v option) \<Rightarrow> 'v \<Rightarrow> bytes \<Rightarrow> frame_error + 'v option \<times> bytes" where
  "read_frame from_slice null s =
     (case read_header s None of
        Inl e \<Rightarrow> Inl e
      | Inr (None, s1) \<Rightarrow> Inr (None, s1)
      | Inr (Some None, s1) \<Rightarrow> Inr (Some null, s1)
      | Inr (Some (Some len), s1) \<Rightarrow>
          if len > MAX_FRAME_BYTES then
            (if length (take len s1) < len then Inr (None, drop len s1)
             else Inr (Some null, drop len s1))
          else if length s1 < len then Inl UnexpectedEof
          else Inr (Some (case from_slice (take len s1) of Some v \<Rightarrow> v | None \<Rightarrow> null), drop len s1))"

text \<open>A frame takes at least one byte from the stream.\<close>

lemma line_bytes_le: "length (line_bytes n s) \<le> length s"
  by (induction n s rule: line_bytes.induct) auto

lemma read_header_progress: "read_header s len = Inr (Some l, s') \<Longrightarrow> length s' < length s"
proof (induction s len rule: read_header.induct)
  case (1 s len)
  show ?case
  proof (cases "read_line MAX_HEADER_LINE s")
    case (Inl e)
    with 1(2) show ?thesis by (subst (asm) read_header.simps) simp
  next
    case (Inr q)
    obtain line s1 where q: "q = (line, s1)" by (cases q)
    have l: "line = line_bytes MAX_HEADER_LINE s" "s1 = drop (length line) s"
      using Inr q by (auto simp: read_line_def Let_def split: if_splits)
    show ?thesis
    proof (cases "line = []")
      case True
      with 1(2) Inr q show ?thesis by (subst (asm) read_header.simps) simp
    next
      case False
      then have shorter: "length s1 < length s"
        using l(2) line_bytes_le [of MAX_HEADER_LINE s, folded l(1)]
        by (metis diff_less length_drop length_greater_0_conv less_le_trans)
      show ?thesis
      proof (cases "length line = MAX_HEADER_LINE \<and> last_opt line \<noteq> Some newline")
        case True
        with 1(2) Inr q False show ?thesis by (subst (asm) read_header.simps) simp
      next
        case ok: False
        note IH = 1(1) [OF Inr q [symmetric] False ok refl]
        show ?thesis
        proof (cases "trim_crlf line = []")
          case True
          with 1(2) Inr q False ok shorter show ?thesis by (subst (asm) read_header.simps) simp
        next
          case more: False
          have "read_header s1 (if take (length header_name) (trim_crlf line) = header_name
                  then parse_usize (trim (drop (length header_name) (trim_crlf line))) else len) = Inr (Some l, s')"
            using 1(2) Inr q False ok more by (subst (asm) read_header.simps) (simp add: Let_def)
          from IH [OF more this] shorter show ?thesis by simp
        qed
      qed
    qed
  qed
qed

lemma read_frame_progress: "read_frame f null s = Inr (Some v, s') \<Longrightarrow> length s' < length s"
  using read_header_progress [of s None]
  by (auto simp: read_frame_def split: sum.splits prod.splits option.splits if_splits)

text \<open>
  The reader thread: frames until the stream ends or fails, or until the receiver is gone, which
  \<open>alive\<close> decides from the messages it has taken.
\<close>

function spawn_reader :: "(bytes \<Rightarrow> 'v option) \<Rightarrow> 'v \<Rightarrow> ('v list \<Rightarrow> bool) \<Rightarrow> bytes \<Rightarrow> 'v list \<Rightarrow> 'v list" where
  "spawn_reader from_slice null alive s sent =
     (case read_frame from_slice null s of
        Inr (Some v, s') \<Rightarrow>
          if v \<noteq> null then
            (if alive sent then spawn_reader from_slice null alive s' (sent @ [v]) else sent)
          else spawn_reader from_slice null alive s' sent
      | _ \<Rightarrow> sent)"
  by auto
termination
  by (relation "measure (\<lambda>(f, n, a, s, sent). length s)") (auto dest: read_frame_progress)

declare spawn_reader.simps [simp del]


section \<open>Lemmas on the text\<close>

lemma digits_value_snoc:
  "digits_value (xs @ [c]) n = (case digits_value xs n of None \<Rightarrow> None
     | Some m \<Rightarrow> if 48 \<le> c \<and> c \<le> 57 \<and> m * 10 + unat (c - 48) < 2 ^ 64 then Some (m * 10 + unat (c - 48)) else None)"
  by (induction xs n rule: digits_value.induct) (auto simp: Let_def)

lemma digit_byte:
  assumes "n < 10"
  shows "48 \<le> (of_nat (48 + n) :: byte)" "(of_nat (48 + n) :: byte) \<le> 57" "unat (of_nat (48 + n) - 48 :: byte) = n"
proof -
  have "n \<in> {0, 1, 2, 3, 4, 5, 6, 7, 8, 9}" using assms by auto
  then show "48 \<le> (of_nat (48 + n) :: byte)" "(of_nat (48 + n) :: byte) \<le> 57" "unat (of_nat (48 + n) - 48 :: byte) = n"
    by auto
qed

lemma digits_value_show: "n < 2 ^ 64 \<Longrightarrow> digits_value (show_usize n) 0 = Some n"
proof (induction n rule: show_usize.induct)
  case (1 n)
  show ?case
  proof (cases "n < 10")
    case True
    then show ?thesis using digit_byte [OF True] 1(2) by (subst show_usize.simps) (simp add: Let_def)
  next
    case False
    have "digits_value (show_usize (n div 10)) 0 = Some (n div 10)" using 1 False by simp
    moreover have "n div 10 * 10 + n mod 10 = n" by simp
    moreover have "n mod 10 < 10" by simp
    ultimately show ?thesis using False digit_byte [of "n mod 10"] 1(2)
      by (subst show_usize.simps) (simp add: digits_value_snoc)
  qed
qed

lemma show_usize_digits: "\<forall>c \<in> set (show_usize n). 48 \<le> c \<and> c \<le> 57"
proof (induction n rule: show_usize.induct)
  case (1 n)
  then show ?case using digit_byte [of n] digit_byte [of "n mod 10"]
    by (subst show_usize.simps) auto
qed

lemma show_usize_ne: "show_usize n \<noteq> []"
  by (subst show_usize.simps) simp

lemma show_usize_length: "n < 10 ^ k \<Longrightarrow> 0 < k \<Longrightarrow> length (show_usize n) \<le> k"
proof (induction n arbitrary: k rule: show_usize.induct)
  case (1 n)
  show ?case
  proof (cases "n < 10")
    case False
    then obtain j where j: "k = Suc j" "0 < j" using 1(2,3) by (cases k; cases "k - 1") auto
    then have "n div 10 < 10 ^ j" using 1(2) by (simp add: less_mult_imp_div_less mult.commute)
    from 1(1) [OF False this j(2)] show ?thesis using False j by (subst show_usize.simps) simp
  qed (use 1(3) in \<open>subst show_usize.simps, simp\<close>)
qed

lemma ascii_valid: "\<forall>c \<in> set b. c \<le> 0x7F \<Longrightarrow> utf8_valid b"
proof (induction b)
  case (Cons c cs)
  have "char_len_at (c # cs) 0 = Some 1" using Cons.prems by (simp add: char_len_at_def get_at_def)
  then show ?case using Cons by (subst utf8_valid.simps) simp
qed (subst utf8_valid.simps, simp)

lemma line_bytes_line:
  "newline \<notin> set xs \<Longrightarrow> length xs < n \<Longrightarrow> line_bytes n (xs @ newline # rest) = xs @ [newline]"
proof (induction xs arbitrary: n)
  case Nil
  then show ?case by (cases n) simp_all
next
  case (Cons x xs)
  then show ?case by (cases n) auto
qed

lemma trim_crlf_line:
  assumes "xs \<noteq> []" "last xs \<noteq> 13" "last xs \<noteq> newline"
  shows "trim_crlf (xs @ [13, newline]) = xs"
proof -
  obtain ys y where xs: "xs = ys @ [y]" using assms(1) by (cases xs rule: rev_cases) auto
  show ?thesis using assms by (simp add: trim_crlf_def xs)
qed

lemma ws_start_None:
  assumes "\<forall>w \<in> set ws_chars. c \<noteq> hd w"
  shows "find (\<lambda>w. w \<noteq> [] \<and> take (length w) (c # cs) = w) ws_chars = None"
proof -
  have "\<not> (w \<noteq> [] \<and> take (length w) (c # cs) = w)" if "w \<in> set ws_chars" for w
    using assms that by (cases w) auto
  then show ?thesis by (simp add: find_None_iff)
qed

lemma ws_end_None:
  assumes "\<forall>w \<in> set ws_chars. c \<noteq> last w"
  shows "find (\<lambda>w. w \<noteq> [] \<and> length w \<le> length (cs @ [c]) \<and> drop (length (cs @ [c]) - length w) (cs @ [c]) = w)
    ws_chars = None"
proof -
  have "\<not> (w \<noteq> [] \<and> length w \<le> length (cs @ [c]) \<and> drop (length (cs @ [c]) - length w) (cs @ [c]) = w)"
    if "w \<in> set ws_chars" for w
  proof
    assume *: "w \<noteq> [] \<and> length w \<le> length (cs @ [c]) \<and> drop (length (cs @ [c]) - length w) (cs @ [c]) = w"
    then have "last w = last (cs @ [c])" by (metis last_drop length_greater_0_conv diff_less length_append_singleton zero_less_Suc)
    with assms that show False by auto
  qed
  then show ?thesis by (simp add: find_None_iff)
qed

lemma digit_no_ws:
  assumes "48 \<le> c" "c \<le> 57"
  shows "\<forall>w \<in> set ws_chars. c \<noteq> hd w \<and> c \<noteq> last w"
proof -
  have d: "c < 58" "\<not> c < 48" using assms by (auto simp: not_less word_less_nat_alt word_le_nat_alt)
  show ?thesis using d by (auto simp: ws_chars_def)
qed

lemma trim_digits:
  assumes ne: "ds \<noteq> []" and dg: "\<forall>c \<in> set ds. 48 \<le> c \<and> c \<le> 57"
  shows "trim (32 # ds) = ds"
proof -
  obtain e es where c: "ds = e # es" using ne by (cases ds) auto
  obtain ys y where l: "ds = ys @ [y]" using ne by (cases ds rule: rev_cases) auto
  have e: "find (\<lambda>w. w \<noteq> [] \<and> take (length w) ds = w) ws_chars = None"
    unfolding c by (rule ws_start_None) (use digit_no_ws dg c in auto)
  have y: "find (\<lambda>w. w \<noteq> [] \<and> length w \<le> length ds \<and> drop (length ds - length w) ds = w) ws_chars = None"
    unfolding l by (rule ws_end_None) (use digit_no_ws dg l in auto)
  have "find (\<lambda>w. w \<noteq> [] \<and> take (length w) (32 # ds) = w) ws_chars = Some [32]"
    by (simp add: ws_chars_def)
  then have "trim_start (32 # ds) = trim_start ds" by (subst trim_start.simps) simp
  also have "\<dots> = ds" by (subst trim_start.simps) (simp add: e)
  finally show ?thesis unfolding trim_def by (subst trim_end.simps) (simp add: y)
qed

section \<open>Frames of whole messages\<close>

definition frame_bytes :: "bytes \<Rightarrow> bytes" where
  "frame_bytes body = header_name @ [32] @ show_usize (length body) @ [13, 10, 13, 10] @ body"

lemma write_message_frame: "to_vec v = Some body \<Longrightarrow> write_message to_vec w v = Some (w @ frame_bytes body)"
  by (simp add: write_message_def frame_bytes_def)

lemma read_header_frame:
  assumes n: "length body < 2 ^ 64"
  shows "read_header (frame_bytes body @ rest) None = Inr (Some (Some (length body)), body @ rest)"
proof -
  define ds where "ds = show_usize (length body)"
  have ds: "ds \<noteq> []" "\<forall>c \<in> set ds. 48 \<le> c \<and> c \<le> 57"
    using show_usize_ne show_usize_digits by (auto simp: ds_def)
  have "length ds \<le> 20" unfolding ds_def by (rule show_usize_length) (use n in simp_all)
  define l1 where "l1 = header_name @ [32] @ ds @ [13]"
  have asc: "c \<le> 0x7F \<and> c \<noteq> newline" if "c \<in> set l1" for c
  proof -
    have "c \<in> set ds \<or> c \<in> {67, 111, 110, 116, 101, 45, 76, 103, 104, 58, 32, 13}"
      using that by (auto simp: l1_def header_name_def)
    then show ?thesis
    proof
      assume "c \<in> set ds"
      then have "unat c \<le> 57" "48 \<le> unat c" using ds(2) by (auto simp: word_le_nat_alt)
      then show ?thesis by (auto simp: word_le_nat_alt)
    qed auto
  qed
  have len: "length l1 < MAX_HEADER_LINE" using \<open>length ds \<le> 20\<close> by (simp add: l1_def header_name_def MAX_HEADER_LINE_def)
  have s: "frame_bytes body @ rest = l1 @ newline # [13] @ newline # body @ rest"
    by (simp add: frame_bytes_def l1_def ds_def)
  have v1: "utf8_valid (l1 @ [newline])" by (rule ascii_valid) (use asc in auto)
  have r1: "read_line MAX_HEADER_LINE (frame_bytes body @ rest) = Inr (l1 @ [newline], [13] @ newline # body @ rest)"
  proof -
    have "newline \<notin> set l1" using asc by blast
    from line_bytes_line [OF this len] show ?thesis unfolding read_line_def s Let_def using v1 by simp
  qed
  have v2: "utf8_valid ([13] @ [newline])" by (rule ascii_valid) simp
  have r2: "read_line MAX_HEADER_LINE ([13] @ newline # body @ rest) = Inr ([13] @ [newline], body @ rest)"
    unfolding read_line_def using line_bytes_line [of "[13]" MAX_HEADER_LINE "body @ rest"] v2
    by (simp add: MAX_HEADER_LINE_def)
  have "last ds \<in> set ds" using ds(1) by simp
  then have "unat (last ds) \<le> 57" "48 \<le> unat (last ds)" using ds(2) by (auto simp: word_le_nat_alt)
  then have "last ds \<noteq> 13" "last ds \<noteq> newline" by auto
  then have t1: "trim_crlf (l1 @ [newline]) = header_name @ [32] @ ds"
    using trim_crlf_line [of "header_name @ [32] @ ds"] ds(1) by (simp add: l1_def)
  have t2: "trim_crlf ([13] @ [newline]) = []" by (simp add: trim_crlf_def)
  have "hd ds \<in> set ds" using ds(1) by simp
  then have "unat (hd ds) \<ge> 48" using ds(2) by (auto simp: word_le_nat_alt)
  then have "hd ds \<noteq> 43" by auto
  then have pu: "parse_usize (trim (32 # ds)) = Some (length body)"
    using digits_value_show [OF n] ds by (cases ds) (auto simp: trim_digits parse_usize_def Let_def ds_def)
  have "read_header (frame_bytes body @ rest) None = read_header ([13] @ newline # body @ rest) (Some (length body))"
    by (subst read_header.simps) (simp add: r1 [simplified] t1 [simplified] pu last_opt_def header_name_def)
  also have "\<dots> = Inr (Some (Some (length body)), body @ rest)"
    by (subst read_header.simps) (simp add: r2 [simplified] t2 [simplified] last_opt_def)
  finally show ?thesis .
qed

lemma read_frame_frame:
  assumes "length body < 2 ^ 64"
  shows "read_frame from_slice null (frame_bytes body @ rest) =
    Inr (Some (if length body \<le> MAX_FRAME_BYTES
               then (case from_slice body of Some v \<Rightarrow> v | None \<Rightarrow> null) else null), rest)"
  by (simp add: read_frame_def read_header_frame [OF assms])

lemma read_frame_end: "read_frame from_slice null [] = Inr (None, [])"
proof -
  have "line_bytes MAX_HEADER_LINE [] = []" by (simp add: MAX_HEADER_LINE_def numeral_eq_Suc)
  moreover have "utf8_valid []" by (subst utf8_valid.simps) simp
  ultimately have "read_line MAX_HEADER_LINE [] = Inr ([], [])" by (simp add: read_line_def)
  then have "read_header [] None = Inr (None, [])" by (subst read_header.simps) simp
  then show ?thesis by (simp add: read_frame_def)
qed

text \<open>What the client is handed for one body: nothing when it is too large or no message.\<close>

definition delivered :: "(bytes \<Rightarrow> 'v option) \<Rightarrow> 'v \<Rightarrow> bytes \<Rightarrow> 'v list" where
  "delivered from_slice null body =
     (if length body \<le> MAX_FRAME_BYTES
      then (case from_slice body of Some v \<Rightarrow> if v = null then [] else [v] | None \<Rightarrow> []) else [])"

lemma reader_step:
  assumes "length body < 2 ^ 64"
  shows "spawn_reader from_slice null (\<lambda>_. True) (frame_bytes body @ rest) sent =
    spawn_reader from_slice null (\<lambda>_. True) rest (sent @ delivered from_slice null body)"
  by (subst spawn_reader.simps) (simp add: read_frame_frame [OF assms] delivered_def split: option.split)

lemma reader_frames:
  assumes "\<forall>body \<in> set bodies. length body < 2 ^ 64"
  shows "spawn_reader from_slice null (\<lambda>_. True) (concat (map frame_bytes bodies)) sent =
    sent @ concat (map (delivered from_slice null) bodies)"
  using assms
proof (induction bodies arbitrary: sent)
  case Nil
  show ?case by (subst spawn_reader.simps) (simp add: read_frame_end)
next
  case (Cons body bodies)
  then show ?case by (simp add: reader_step)
qed

fun write_all :: "('v \<Rightarrow> bytes option) \<Rightarrow> bytes \<Rightarrow> 'v list \<Rightarrow> bytes option" where
  "write_all to_vec w [] = Some w"
| "write_all to_vec w (v # vs) = Option.bind (write_message to_vec w v) (\<lambda>w'. write_all to_vec w' vs)"

lemma write_all_frames:
  "write_all to_vec w vs = Some out \<Longrightarrow> out = w @ concat (map (\<lambda>v. frame_bytes (the (to_vec v))) vs)
     \<and> (\<forall>v \<in> set vs. to_vec v \<noteq> None)"
proof (induction vs arbitrary: w)
  case (Cons v vs)
  then obtain body where b: "to_vec v = Some body"
    by (cases "to_vec v") (simp_all add: write_message_def)
  have "write_all to_vec (w @ frame_bytes body) vs = Some out"
    using Cons.prems by (simp add: write_message_frame [where to_vec = to_vec and v = v, OF b])
  from Cons.IH [OF this] b show ?case by simp
qed simp

section \<open>The properties\<close>

text \<open>A message that is written is read back, and the stream stays in step whatever follows: a
  body over the cap is drained to its end and reported as no message.\<close>

theorem frame_round_trip:
  assumes "write_message to_vec w v = Some out" and "to_vec v = Some body"
    and "from_slice body = Some v" and "length body < 2 ^ 64"
  shows "\<exists>fr. out = w @ fr \<and> (\<forall>rest. read_frame from_slice null (fr @ rest) =
     Inr (Some (if length body \<le> MAX_FRAME_BYTES then v else null), rest))"
proof (intro exI conjI allI)
  show "out = w @ frame_bytes body"
    using assms(1) write_message_frame [where to_vec = to_vec and v = v, OF assms(2), of w] by simp
  show "read_frame from_slice null (frame_bytes body @ rest) =
     Inr (Some (if length body \<le> MAX_FRAME_BYTES then v else null), rest)" for rest
    by (simp add: read_frame_frame [OF assms(4)] assms(3))
qed

theorem frame_round_trip_witness:
  "\<exists>fr. [7] @ frame_bytes [123, 125] = [7] @ fr \<and> (\<forall>rest. read_frame Some [0] (fr @ rest) =
     Inr (Some (if length [123, 125 :: byte] \<le> MAX_FRAME_BYTES then [123, 125] else [0]), rest))"
  by (rule frame_round_trip [of Some]) (simp_all add: write_message_frame)

text \<open>
  C23: The reader thread forwards, in order, exactly the messages of the stream that are not null
  and fit the cap, when every message it was written from reads back; one that does not fit or
  does not parse costs only itself.\<close>

theorem reader_forwards_messages:
  assumes "write_all to_vec [] vs = Some out"
    and "\<forall>v \<in> set vs. \<forall>body. to_vec v = Some body \<longrightarrow> from_slice body = Some v \<and> length body < 2 ^ 64"
  shows "spawn_reader from_slice null (\<lambda>_. True) out [] =
    filter (\<lambda>v. v \<noteq> null \<and> length (the (to_vec v)) \<le> MAX_FRAME_BYTES) vs"
proof -
  have out: "out = concat (map frame_bytes (map (\<lambda>v. the (to_vec v)) vs))" and some: "\<forall>v \<in> set vs. to_vec v \<noteq> None"
    using write_all_frames [OF assms(1)] by (auto simp: o_def)
  have body: "from_slice (the (to_vec v)) = Some v" "length (the (to_vec v)) < 2 ^ 64" if "v \<in> set vs" for v
    using assms(2) some that by auto
  have "concat (map (delivered from_slice null) (map (\<lambda>v. the (to_vec v)) vs)) =
      filter (\<lambda>v. v \<noteq> null \<and> length (the (to_vec v)) \<le> MAX_FRAME_BYTES) vs"
    using body(1) by (induction vs) (auto simp: delivered_def)
  then show ?thesis
    unfolding out by (subst reader_frames) (use body(2) in auto)
qed

theorem reader_forwards_messages_witness:
  "spawn_reader Some [0] (\<lambda>_. True) (frame_bytes [123, 125] @ frame_bytes [0] @ frame_bytes [91, 93]) []
     = [[123, 125], [91, 93]]"
proof -
  have w: "write_all Some [] [[123, 125], [0], [91, 93]] = Some (frame_bytes [123, 125] @ frame_bytes [0] @ frame_bytes [91, 93])"
    by (simp add: write_message_frame)
  have "filter (\<lambda>v. v \<noteq> [0] \<and> length (the (Some v)) \<le> MAX_FRAME_BYTES) [[123, 125], [0], [91, 93 :: byte]] = [[123, 125], [91, 93]]"
    by (simp add: MAX_FRAME_BYTES_def)
  with reader_forwards_messages [OF w, of Some "[0]"] show ?thesis by simp
qed

end
