(* ===== verification/Edits.thy ===== *)
theory Edits
  imports Pos "HOL-Library.Multiset"
begin

text \<open>
  The canonical edit and the disjoint, position-sorted edit list (\<^verbatim>\<open>crates/core/src/edit.rs\<close>): building
  and checking a list, applying it in one pass, computing its exact inverse, and the edit that turns one
  buffer into another over whole lines.  Applying and inverting slice the buffer; \<open>apply_safe\<close> and
  \<open>inverse_safe\<close> collect the slice bounds whose failure would be a panic in the source.
  The locale \<open>edit_algebra\<close> at the end is what the undo history needs of edit lists.
\<close>

section \<open>Edits\<close>

record edit =
  epos :: nat
  edel :: nat
  eins :: bytes

definition edit_insert :: "nat \<Rightarrow> bytes \<Rightarrow> edit" where
  "edit_insert p bs = \<lparr>epos = p, edel = 0, eins = bs\<rparr>"

definition edit_delete :: "nat \<Rightarrow> nat \<Rightarrow> edit" where
  "edit_delete p d = \<lparr>epos = p, edel = d, eins = []\<rparr>"

definition edit_replace :: "nat \<Rightarrow> nat \<Rightarrow> bytes \<Rightarrow> edit" where
  "edit_replace p d bs = \<lparr>epos = p, edel = d, eins = bs\<rparr>"

definition delta :: "edit \<Rightarrow> int" where
  "delta e = int (length (eins e)) - int (edel e)"

definition edit_end :: "edit \<Rightarrow> nat" where
  "edit_end e = epos e + edel e"

section \<open>The edit between two buffers, over whole lines\<close>

text \<open>
  \<open>head_cut old common\<close> cuts a shared head back to just after its last newline; \<open>cut_tail\<close> is the loop that
  cuts the shared tail forward to the start of a line of both buffers.
\<close>

definition head_cut :: "bytes \<Rightarrow> nat \<Rightarrow> nat" where
  "head_cut old common =
     (case rposition (\<lambda>b. b = newline) (take common old) of None \<Rightarrow> 0 | Some i \<Rightarrow> i + 1)"

fun cut_tail :: "bytes \<Rightarrow> bytes \<Rightarrow> nat \<Rightarrow> nat \<Rightarrow> nat" where
  "cut_tail old new head 0 = 0"
| "cut_tail old new head (Suc t) =
     (let at_old = length old - Suc t; at_new = length new - Suc t in
      if (at_old = head \<or> old ! (at_old - 1) = newline) \<and> (at_new = head \<or> new ! (at_new - 1) = newline)
      then Suc t else cut_tail old new head t)"

definition lines_changed :: "bytes \<Rightarrow> bytes \<Rightarrow> edit" where
  "lines_changed old new =
     (let common = length (takeWhile (\<lambda>(a, b). a = b) (zip old new));
          head = head_cut old common;
          room = min (length old - head) (length new - head);
          same_tail = length (takeWhile (\<lambda>(a, b). a = b)
                        (take room (zip (rev (drop head old)) (rev (drop head new)))));
          tail = cut_tail old new head same_tail
      in edit_replace head (length old - tail - head) (slice head (length new - tail) new))"

text \<open>
  The same edit for an insertion of \<open>tx\<close> at \<open>p\<close>, found without building the new buffer: \<open>new_at\<close> reads a
  byte of it, and the two loops extend the shared head and tail byte by byte.
\<close>

definition new_at :: "bytes \<Rightarrow> nat \<Rightarrow> bytes \<Rightarrow> nat \<Rightarrow> byte" where
  "new_at old p tx i =
     (if i < p then old ! i else if i < p + length tx then tx ! (i - p) else old ! (i - length tx))"

function grow_head :: "bytes \<Rightarrow> nat \<Rightarrow> bytes \<Rightarrow> nat \<Rightarrow> nat" where
  "grow_head old p tx common =
     (if common < length old \<and> old ! common = new_at old p tx common
      then grow_head old p tx (common + 1) else common)"
  by pat_completeness auto
termination
  by (relation "measure (\<lambda>(old, p, tx, common). length old - common)") auto

function grow_tail :: "bytes \<Rightarrow> nat \<Rightarrow> bytes \<Rightarrow> nat \<Rightarrow> nat \<Rightarrow> nat" where
  "grow_tail old p tx room same_tail =
     (if same_tail < room \<and>
         old ! (length old - same_tail - 1) = new_at old p tx (length old + length tx - same_tail - 1)
      then grow_tail old p tx room (same_tail + 1) else same_tail)"
  by pat_completeness auto
termination
  by (relation "measure (\<lambda>(old, p, tx, room, same_tail). room - same_tail)") auto

fun cut_tail_at :: "bytes \<Rightarrow> nat \<Rightarrow> bytes \<Rightarrow> nat \<Rightarrow> nat \<Rightarrow> nat" where
  "cut_tail_at old p tx head 0 = 0"
| "cut_tail_at old p tx head (Suc t) =
     (let at_old = length old - Suc t; at_new = length old + length tx - Suc t in
      if (at_old = head \<or> old ! (at_old - 1) = newline) \<and>
         (at_new = head \<or> new_at old p tx (at_new - 1) = newline)
      then Suc t else cut_tail_at old p tx head t)"

definition lines_changed_by_insert :: "bytes \<Rightarrow> nat \<Rightarrow> bytes \<Rightarrow> edit" where
  "lines_changed_by_insert old p tx =
     (let common = grow_head old p tx p;
          head = head_cut old common;
          room = length old - head;
          same_tail = grow_tail old p tx room (min (length old - p) room);
          tail = cut_tail_at old p tx head same_tail
      in edit_replace head (length old - tail - head)
           (map (new_at old p tx) [head..<length old + length tx - tail]))"

declare grow_head.simps [simp del] grow_tail.simps [simp del]

section \<open>Edit lists\<close>

text \<open>
  \<^verbatim>\<open>Edit::end\<close> adds two \<^verbatim>\<open>usize\<close> values unchecked, so in a build with overflow checks it panics when the sum needs
  more than 64 bits (a release build wraps).  Two callers add before anything has bounded the edit:
  \<^verbatim>\<open>EditList::new\<close>, which compares the end with the next edit's position, and \<^verbatim>\<open>check_bounds\<close>, which compares it with
  the length of the text.  \<open>end_panics e n\<close> is that panic, \<open>n\<close> being the \<^verbatim>\<open>usize\<close> the end is compared with: below
  \<open>2 ^ 64\<close>, so that the second conjunct says nothing of a machine's texts; it only keeps texts longer than any
  memory, which a list of bytes can be, from panicking on edits that lie within them.  \<open>EndOverflow\<close> is the outcome of the
  call that panicked, with the edit's position and length; it is no error of the source.
\<close>

datatype edit_error =
    Overlap nat nat
  | OutOfRange nat nat nat
  | EndOverflow nat nat

definition end_panics :: "edit \<Rightarrow> nat \<Rightarrow> bool" where
  "end_panics e n \<longleftrightarrow> 2 ^ 64 \<le> edit_end e \<and> n < edit_end e"

type_synonym edit_list = "edit list"

definition changes_something :: "edit \<Rightarrow> bool" where
  "changes_something e \<longleftrightarrow> edel e \<noteq> 0 \<or> eins e \<noteq> []"

fun first_overlap :: "edit list \<Rightarrow> edit_error option" where
  "first_overlap (a # b # es) =
     (if epos b = epos a then Some (Overlap (epos a) (epos b))
      else if end_panics a (epos b) then Some (EndOverflow (epos a) (edel a))
      else if epos b < edit_end a then Some (Overlap (epos a) (epos b))
      else first_overlap (b # es))"
| "first_overlap es = None"

definition edit_list_new :: "edit list \<Rightarrow> edit_error + edit_list" where
  "edit_list_new edits =
     (let es = sort_key epos (filter changes_something edits) in
      case first_overlap es of Some err \<Rightarrow> Inl err | None \<Rightarrow> Inr es)"

text \<open>
  \<open>sorted_disjoint\<close> is what \<^verbatim>\<open>from_sorted\<close> asserts in debug builds of the list it is given, which it then
  takes as it is.
\<close>

fun sorted_disjoint :: "edit list \<Rightarrow> bool" where
  "sorted_disjoint (a # b # es) \<longleftrightarrow>
     edit_end a \<le> epos b \<and> epos b \<noteq> epos a \<and> sorted_disjoint (b # es)"
| "sorted_disjoint es \<longleftrightarrow> True"

definition from_sorted :: "edit list \<Rightarrow> edit_list" where
  "from_sorted edits = edits"

fun check_bounds :: "edit_list \<Rightarrow> nat \<Rightarrow> edit_error + unit" where
  "check_bounds [] len = Inr ()"
| "check_bounds (e # es) len =
     (if len < epos e then Inl (OutOfRange (epos e) (edel e) len)
      else if end_panics e len then Inl (EndOverflow (epos e) (edel e))
      else if len < edit_end e then Inl (OutOfRange (epos e) (edel e) len)
      else check_bounds es len)"

fun apply_loop :: "edit list \<Rightarrow> bytes \<Rightarrow> nat \<Rightarrow> bytes \<Rightarrow> bytes" where
  "apply_loop [] buf cur out = out @ drop cur buf"
| "apply_loop (e # es) buf cur out =
     apply_loop es buf (edit_end e) (out @ slice cur (epos e) buf @ eins e)"

definition apply_to :: "edit_list \<Rightarrow> bytes \<Rightarrow> bytes" where
  "apply_to es buf = apply_loop es buf 0 []"

text \<open>The inverse: an edit that would land on the position of the previous one is merged into it.\<close>

definition push_inverse :: "edit list \<Rightarrow> edit \<Rightarrow> edit list" where
  "push_inverse acc e =
     (if acc \<noteq> [] \<and> epos (last acc) = epos e
      then butlast acc @ [(last acc)\<lparr>edel := edel (last acc) + edel e, eins := eins (last acc) @ eins e\<rparr>]
      else acc @ [e])"

fun inverse_loop :: "edit list \<Rightarrow> bytes \<Rightarrow> int \<Rightarrow> edit list \<Rightarrow> edit list" where
  "inverse_loop [] buf d acc = acc"
| "inverse_loop (e # es) buf d acc =
     (let new_pos = nat (int (epos e) + d);
          removed = slice (epos e) (edit_end e) buf
      in inverse_loop es buf (d + delta e)
           (push_inverse acc \<lparr>epos = new_pos, edel = length (eins e), eins = removed\<rparr>))"

definition inverse_edits :: "edit_list \<Rightarrow> bytes \<Rightarrow> edit_list" where
  "inverse_edits es buf = from_sorted (inverse_loop es buf 0 [])"

section \<open>The invariant and the panics\<close>

definition edits_wf :: "edit_list \<Rightarrow> bool" where
  "edits_wf es \<longleftrightarrow>
     sorted_wrt (\<lambda>a b. edit_end a \<le> epos b \<and> epos a < epos b) es \<and> (\<forall>e \<in> set es. changes_something e)"

definition in_bounds :: "edit_list \<Rightarrow> nat \<Rightarrow> bool" where
  "in_bounds es len \<longleftrightarrow> (\<forall>e \<in> set es. edit_end e \<le> len)"

fun apply_safe :: "edit list \<Rightarrow> bytes \<Rightarrow> nat \<Rightarrow> bool" where
  "apply_safe [] buf cur \<longleftrightarrow> cur \<le> length buf"
| "apply_safe (e # es) buf cur \<longleftrightarrow> slice_ok cur (epos e) buf \<and> apply_safe es buf (edit_end e)"

definition inverse_safe :: "edit list \<Rightarrow> bytes \<Rightarrow> bool" where
  "inverse_safe es buf \<longleftrightarrow> (\<forall>e \<in> set es. slice_ok (epos e) (edit_end e) buf)"

section \<open>Building a list\<close>

lemma sorted_disjoint_iff:
  "sorted_disjoint es \<longleftrightarrow> sorted_wrt (\<lambda>a b. edit_end a \<le> epos b \<and> epos a < epos b) es"
proof (induction es rule: sorted_disjoint.induct)
  case (1 a b es)
  have "edit_end a \<le> epos c \<and> epos a < epos c"
    if "edit_end a \<le> epos b" "epos b \<noteq> epos a" "edit_end b \<le> epos c" for c
    using that by (auto simp: edit_end_def)
  then show ?case using 1 by (auto simp: edit_end_def)
qed auto

lemma first_overlap_None_iff:
  "sorted (map epos es) \<Longrightarrow> first_overlap es = None \<longleftrightarrow> sorted_disjoint es"
  by (induction es rule: first_overlap.induct) (auto simp: not_less end_panics_def)

lemma edits_wf_Nil [simp]: "edits_wf []"
  by (simp add: edits_wf_def)

lemma edits_wf_single [simp]: "edits_wf [e] \<longleftrightarrow> changes_something e"
  by (simp add: edits_wf_def)

lemma edits_wf_Cons:
  "edits_wf (e # es) \<longleftrightarrow> changes_something e \<and> edits_wf es \<and>
     (\<forall>f \<in> set es. edit_end e \<le> epos f \<and> epos e < epos f)"
  by (auto simp: edits_wf_def)

lemma edit_list_new_Inr_iff:
  "edit_list_new edits = Inr es \<longleftrightarrow>
     es = sort_key epos (filter changes_something edits) \<and> edits_wf es"
  using first_overlap_None_iff [of "sort_key epos (filter changes_something edits)"]
  by (auto simp: edit_list_new_def Let_def edits_wf_def sorted_disjoint_iff split: option.splits)

lemma edit_list_new_panics:
  assumes "edit_list_new edits = Inl (EndOverflow p d)"
  shows "\<exists>e \<in> set edits. epos e = p \<and> edel e = d \<and> 2 ^ 64 \<le> edit_end e"
proof -
  have "first_overlap es = Some (EndOverflow p d) \<Longrightarrow> \<exists>e \<in> set es. epos e = p \<and> edel e = d \<and> 2 ^ 64 \<le> edit_end e" for es
    by (induction es rule: first_overlap.induct) (auto simp: end_panics_def split: if_splits)
  from this [of "sort_key epos (filter changes_something edits)"] show ?thesis
    using assms by (auto simp: edit_list_new_def Let_def split: option.splits)
qed

lemma edit_list_new_wf: "edit_list_new edits = Inr es \<Longrightarrow> edits_wf es"
  by (rule edit_list_new_Inr_iff [THEN iffD1, THEN conjunct2])

lemma in_bounds_simps [simp]:
  "in_bounds [] n" "in_bounds (e # es) n \<longleftrightarrow> edit_end e \<le> n \<and> in_bounds es n"
  by (simp_all add: in_bounds_def)

lemma check_bounds_Inr_iff: "check_bounds es len = Inr () \<longleftrightarrow> in_bounds es len"
  by (induction es) (auto simp: in_bounds_def edit_end_def end_panics_def)

text \<open>What the check answers of the first edit that does not fit.\<close>

definition misfit_error :: "edit \<Rightarrow> nat \<Rightarrow> edit_error" where
  "misfit_error e len =
     (if epos e \<le> len \<and> 2 ^ 64 \<le> edit_end e then EndOverflow (epos e) (edel e) else OutOfRange (epos e) (edel e) len)"

lemma check_bounds_Inl:
  "check_bounds es len = Inl err \<Longrightarrow> \<exists>e \<in> set es. err = misfit_error e len \<and> len < edit_end e"
  by (induction es) (auto simp: edit_end_def end_panics_def misfit_error_def split: if_splits)

text \<open>
  On machine values the guards are those of the source in the order of the source: the position is compared first, then the
  end is computed, which may panic, and compared.
\<close>

lemma end_panics_usize: "n < 2 ^ 64 \<Longrightarrow> end_panics e n \<longleftrightarrow> 2 ^ 64 \<le> edit_end e"
  by (auto simp: end_panics_def)

text \<open>
  In a list that is sorted and disjoint at most one edit starts within the text and ends outside it; the check panics when
  that edit's end does not fit.
\<close>

lemma check_bounds_panics_iff:
  assumes "edits_wf es"
  shows "check_bounds es len = Inl (EndOverflow p d) \<longleftrightarrow>
    (\<exists>e \<in> set es. epos e \<le> len \<and> end_panics e len \<and> p = epos e \<and> d = edel e)"
  using assms
proof (induction es)
  case (Cons e es)
  have wf: "edits_wf es" "\<forall>f \<in> set es. edit_end e \<le> epos f" using Cons.prems by (simp_all add: edits_wf_Cons)
  have out: "\<not> epos f \<le> len" if "f \<in> set es" "len < edit_end e" for f using wf(2) that by force
  have "len < epos e \<Longrightarrow> len < edit_end e" by (simp add: edit_end_def)
  then show ?case using Cons.IH [OF wf(1)] out by (auto simp: end_panics_def)
qed simp

section \<open>Applying a list\<close>

text \<open>\<open>out_from es buf cur\<close> is what the rest of the pass adds to the output from \<open>cur\<close> on.\<close>

fun out_from :: "edit list \<Rightarrow> bytes \<Rightarrow> nat \<Rightarrow> bytes" where
  "out_from [] buf cur = drop cur buf"
| "out_from (e # es) buf cur = slice cur (epos e) buf @ eins e @ out_from es buf (edit_end e)"

lemma apply_loop_out: "apply_loop es buf cur out = out @ out_from es buf cur"
  by (induction es arbitrary: cur out) auto

lemma apply_to_out: "apply_to es buf = out_from es buf 0"
  by (simp add: apply_to_def apply_loop_out)

lemma apply_to_Nil [simp]: "apply_to [] buf = buf"
  by (simp add: apply_to_out)

text \<open>\<open>from_ok es cur len\<close>: the list is sorted and disjoint, starts at or after \<open>cur\<close> and ends within \<open>len\<close>.\<close>

definition from_ok :: "edit list \<Rightarrow> nat \<Rightarrow> nat \<Rightarrow> bool" where
  "from_ok es cur len \<longleftrightarrow> sorted_wrt (\<lambda>a b. edit_end a \<le> epos b \<and> epos a < epos b) es \<and>
     (\<forall>e \<in> set es. cur \<le> epos e \<and> edit_end e \<le> len) \<and> cur \<le> len"

lemma from_ok_Cons:
  "from_ok (e # es) cur len \<longleftrightarrow>
     cur \<le> epos e \<and> edit_end e \<le> len \<and> from_ok es (edit_end e) len \<and> (\<forall>f \<in> set es. epos e < epos f)"
  by (auto simp: from_ok_def edit_end_def)

lemma from_ok_Nil: "from_ok [] cur len \<longleftrightarrow> cur \<le> len"
  by (simp add: from_ok_def)

lemma from_okI: "edits_wf es \<Longrightarrow> in_bounds es len \<Longrightarrow> from_ok es 0 len"
  by (auto simp: from_ok_def edits_wf_def in_bounds_def)

lemma apply_safe_from_ok: "from_ok es cur (length buf) \<Longrightarrow> apply_safe es buf cur"
  by (induction es arbitrary: cur) (auto simp: from_ok_Cons from_ok_Nil slice_ok_def edit_end_def)

lemma length_out_from:
  "from_ok es cur (length buf) \<Longrightarrow>
     int (length (out_from es buf cur)) = int (length buf) - int cur + sum_list (map delta es)"
proof (induction es arbitrary: cur)
  case (Cons e es)
  then have "cur \<le> epos e" "edit_end e \<le> length buf" "from_ok es (edit_end e) (length buf)"
    by (auto simp: from_ok_Cons)
  then show ?case using Cons.IH [of "edit_end e"] by (simp add: delta_def edit_end_def)
qed (simp add: from_ok_Nil)

section \<open>The inverse\<close>

text \<open>
  \<open>raw_inverse\<close> is the inverse before touching edits are merged.  Merging does not change what the list does,
  because only an edit that inserts nothing shares its inverse position with the next one.
\<close>

fun raw_inverse :: "edit list \<Rightarrow> bytes \<Rightarrow> int \<Rightarrow> edit list" where
  "raw_inverse [] buf d = []"
| "raw_inverse (e # es) buf d =
     \<lparr>epos = nat (int (epos e) + d), edel = length (eins e), eins = slice (epos e) (edit_end e) buf\<rparr> #
     raw_inverse es buf (d + delta e)"

lemma inverse_loop_raw: "inverse_loop es buf d acc = fold (\<lambda>e acc. push_inverse acc e) (raw_inverse es buf d) acc"
  by (induction es arbitrary: d acc) (auto simp: Let_def)

fun merge_ok :: "edit list \<Rightarrow> bool" where
  "merge_ok (a # b # es) \<longleftrightarrow>
     edit_end a \<le> epos b \<and> (epos a = epos b \<longrightarrow> edel a = 0) \<and> merge_ok (b # es)"
| "merge_ok es \<longleftrightarrow> True"

definition merge_edit :: "edit \<Rightarrow> edit \<Rightarrow> edit" where
  "merge_edit l e = l\<lparr>edel := edel l + edel e, eins := eins l @ eins e\<rparr>"

fun merge_run :: "edit \<Rightarrow> edit list \<Rightarrow> edit list" where
  "merge_run l [] = [l]"
| "merge_run l (e # es) = (if epos l = epos e then merge_run (merge_edit l e) es else l # merge_run e es)"

lemma merge_edit_simps [simp]:
  "epos (merge_edit l e) = epos l"
  "edel (merge_edit l e) = edel l + edel e"
  "eins (merge_edit l e) = eins l @ eins e"
  "edit_end (merge_edit l e) = edit_end l + edel e"
  by (simp_all add: merge_edit_def edit_end_def)

lemma fold_push_inverse:
  "fold (\<lambda>e acc. push_inverse acc e) es (acc @ [l]) = acc @ merge_run l es"
proof (induction es arbitrary: acc l)
  case (Cons e es)
  show ?case
  proof (cases "epos l = epos e")
    case True
    then show ?thesis using Cons.IH [of acc "merge_edit l e"]
      by (simp add: push_inverse_def merge_edit_def)
  next
    case False
    then show ?thesis using Cons.IH [of "acc @ [l]" e] by (simp add: push_inverse_def)
  qed
qed simp

lemma inverse_edits_merge:
  "inverse_edits es buf = (case raw_inverse es buf 0 of [] \<Rightarrow> [] | e # r \<Rightarrow> merge_run e r)"
  using fold_push_inverse [where acc = "[]"]
  by (auto simp: inverse_edits_def from_sorted_def inverse_loop_raw push_inverse_def split: list.splits)

lemma merge_ok_merge_edit: "merge_ok (l # e # es) \<Longrightarrow> epos l = epos e \<Longrightarrow> merge_ok (merge_edit l e # es)"
  by (cases es) (auto simp: edit_end_def)

lemma out_from_merge: "merge_ok (l # es) \<Longrightarrow> out_from (merge_run l es) buf cur = out_from (l # es) buf cur"
proof (induction l es arbitrary: cur rule: merge_run.induct)
  case (2 l e es)
  show ?case
  proof (cases "epos l = epos e")
    case True
    with 2 show ?thesis by (simp add: merge_ok_merge_edit) (simp add: edit_end_def)
  next
    case False
    with 2 show ?thesis by simp
  qed
qed simp

lemma epos_hd_merge: "\<exists>r rs. merge_run l es = r # rs \<and> epos r = epos l"
  by (induction l es rule: merge_run.induct) auto

lemma sorted_disjoint_merge: "merge_ok (l # es) \<Longrightarrow> sorted_disjoint (merge_run l es)"
proof (induction l es rule: merge_run.induct)
  case (2 l e es)
  show ?case
  proof (cases "epos l = epos e")
    case True
    with 2 show ?thesis by (simp add: merge_ok_merge_edit)
  next
    case False
    obtain r rs where r: "merge_run e es = r # rs" "epos r = epos e" using epos_hd_merge by blast
    have "sorted_disjoint (merge_run e es)" using 2 False by simp
    with r 2 False show ?thesis by simp
  qed
qed simp

lemma changes_merge:
  "merge_ok (l # es) \<Longrightarrow> list_all changes_something (l # es) \<Longrightarrow>
     list_all changes_something (merge_run l es)"
proof (induction l es rule: merge_run.induct)
  case (2 l e es)
  show ?case
  proof (cases "epos l = epos e")
    case True
    have "changes_something (merge_edit l e)" using 2 by (simp add: changes_something_def)
    with 2 True show ?thesis by (simp add: merge_ok_merge_edit)
  next
    case False
    with 2 show ?thesis by simp
  qed
qed simp

lemma in_bounds_merge:
  "merge_ok (l # es) \<Longrightarrow> in_bounds (l # es) n \<Longrightarrow> in_bounds (merge_run l es) n"
proof (induction l es rule: merge_run.induct)
  case (2 l e es)
  show ?case
  proof (cases "epos l = epos e")
    case True
    moreover have "in_bounds (merge_edit l e # es) n"
      using 2 True by (simp add: edit_end_def)
    ultimately show ?thesis using 2 by (simp add: merge_ok_merge_edit)
  next
    case False
    with 2 show ?thesis by simp
  qed
qed simp

lemma merge_ok_raw:
  "from_ok es cur len \<Longrightarrow> 0 \<le> int cur + d \<Longrightarrow> merge_ok (raw_inverse es buf d)"
proof (induction es arbitrary: cur d)
  case (Cons e es)
  from Cons.prems have e: "cur \<le> epos e" "from_ok es (edit_end e) len" "\<forall>f \<in> set es. epos e < epos f"
    by (auto simp: from_ok_Cons)
  have d: "0 \<le> int (edit_end e) + (d + delta e)"
    using Cons.prems e by (simp add: delta_def edit_end_def)
  from Cons.IH [OF e(2) d] have rest: "merge_ok (raw_inverse es buf (d + delta e))" .
  show ?case
  proof (cases es)
    case (Cons f fs)
    then have "edit_end e \<le> epos f" using e by (simp add: from_ok_Cons)
    then have "length (eins e) = 0" if "nat (int (epos e) + d) = nat (int (epos f) + (d + delta e))"
      using that Cons.prems(2) e(1) unfolding delta_def edit_end_def by linarith
    moreover have "edit_end \<lparr>epos = nat (int (epos e) + d), edel = length (eins e), eins = x\<rparr>
        \<le> nat (int (epos f) + (d + delta e))" for x
      using \<open>edit_end e \<le> epos f\<close> Cons.prems e by (simp add: delta_def edit_end_def)
    ultimately show ?thesis using rest by (simp add: Cons)
  qed simp
qed simp

lemma in_bounds_raw:
  "from_ok es cur (length buf) \<Longrightarrow> 0 \<le> int cur + d \<Longrightarrow>
   int n = int cur + d + int (length (out_from es buf cur)) \<Longrightarrow> in_bounds (raw_inverse es buf d) n"
proof (induction es arbitrary: cur d)
  case (Cons e es)
  from Cons.prems have e: "cur \<le> epos e" "edit_end e \<le> length buf" "from_ok es (edit_end e) (length buf)"
    by (auto simp: from_ok_Cons)
  have "in_bounds (raw_inverse es buf (d + delta e)) n"
    using Cons.prems e by (intro Cons.IH [OF e(3)]) (auto simp: delta_def edit_end_def)
  then show ?case using Cons.prems e by (simp add: edit_end_def)
qed simp

lemma changes_raw:
  "from_ok es cur (length buf) \<Longrightarrow> list_all changes_something es \<Longrightarrow>
     list_all changes_something (raw_inverse es buf d)"
proof (induction es arbitrary: cur d)
  case (Cons e es)
  have "slice (epos e) (edit_end e) buf \<noteq> []" if "edel e \<noteq> 0"
    using that Cons.prems by (auto simp: from_ok_Cons edit_end_def slice_def)
  then show ?case using Cons by (auto simp: from_ok_Cons changes_something_def)
qed simp

lemma raw_inverse_restores:
  "from_ok es cur (length buf) \<Longrightarrow> 0 \<le> int cur + d \<Longrightarrow> drop (nat (int cur + d)) nb = out_from es buf cur \<Longrightarrow>
     out_from (raw_inverse es buf d) nb (nat (int cur + d)) = drop cur buf"
proof (induction es arbitrary: cur d)
  case (Cons e es)
  from Cons.prems have e: "cur \<le> epos e" "edit_end e \<le> length buf" "from_ok es (edit_end e) (length buf)"
    by (auto simp: from_ok_Cons)
  let ?c = "nat (int cur + d)" and ?p = "nat (int (epos e) + d)"
  have p: "?p = ?c + (epos e - cur)" using e Cons.prems(2) by linarith
  have next_pos: "nat (int (edit_end e) + (d + delta e)) = ?p + length (eins e)"
    using Cons.prems(2) e by (simp add: delta_def edit_end_def)
  have len: "length (slice cur (epos e) buf) = epos e - cur" using e by (simp add: edit_end_def)
  have head: "slice ?c ?p nb = slice cur (epos e) buf"
    using Cons.prems(3) len p by (simp add: slice_def)
  have "drop (?p + length (eins e)) nb = drop (epos e - cur + length (eins e)) (drop ?c nb)"
    using p by (simp add: add_ac)
  then have tail: "drop (?p + length (eins e)) nb = out_from es buf (edit_end e)"
    using Cons.prems(3) len by simp
  have "out_from (raw_inverse es buf (d + delta e)) nb (?p + length (eins e)) = drop (edit_end e) buf"
    using Cons.IH [OF e(3), of "d + delta e"] tail Cons.prems(2) e
    by (simp add: next_pos) (simp add: delta_def edit_end_def)
  then show ?case
    using e by (simp add: head edit_end_def slice_append_drop)
qed simp

lemma inverse_edits_wf:
  assumes "edits_wf es" "in_bounds es (length buf)"
  shows "edits_wf (inverse_edits es buf)" "in_bounds (inverse_edits es buf) (length (apply_to es buf))"
proof -
  have ok: "from_ok es 0 (length buf)" using assms by (rule from_okI)
  have m: "merge_ok (raw_inverse es buf 0)" using merge_ok_raw [OF ok] by simp
  have c: "list_all changes_something (raw_inverse es buf 0)"
    using changes_raw [OF ok] assms(1) by (simp add: edits_wf_def list_all_iff)
  have b: "in_bounds (raw_inverse es buf 0) (length (apply_to es buf))"
    using in_bounds_raw [OF ok, of 0] by (simp add: apply_to_out)
  have "edits_wf (inverse_edits es buf) \<and> in_bounds (inverse_edits es buf) (length (apply_to es buf))"
  proof (cases "raw_inverse es buf 0")
    case (Cons e r)
    with m c b sorted_disjoint_merge [of e r] changes_merge [of e r] in_bounds_merge [of e r] show ?thesis
      by (simp add: inverse_edits_merge edits_wf_def sorted_disjoint_iff list_all_iff)
  qed (simp add: inverse_edits_merge)
  then show "edits_wf (inverse_edits es buf)"
    and "in_bounds (inverse_edits es buf) (length (apply_to es buf))" by auto
qed

lemma inverse_edits_restores:
  assumes "edits_wf es" "in_bounds es (length buf)"
  shows "apply_to (inverse_edits es buf) (apply_to es buf) = buf"
proof -
  have ok: "from_ok es 0 (length buf)" using assms by (rule from_okI)
  have m: "merge_ok (raw_inverse es buf 0)" using merge_ok_raw [OF ok] by simp
  have "out_from (inverse_edits es buf) nb 0 = out_from (raw_inverse es buf 0) nb 0" for nb
    using m out_from_merge by (cases "raw_inverse es buf 0") (simp_all add: inverse_edits_merge)
  then show ?thesis using raw_inverse_restores [OF ok, of 0 "apply_to es buf"] by (simp add: apply_to_out)
qed

section \<open>One pass is the edits one at a time, last first\<close>

definition splice_edit :: "edit \<Rightarrow> bytes \<Rightarrow> bytes" where
  "splice_edit e buf = take (epos e) buf @ eins e @ drop (edit_end e) buf"

lemma out_from_past:
  "from_ok es c (length buf) \<Longrightarrow> c \<le> length buf \<Longrightarrow> cur \<le> c \<Longrightarrow>
     out_from es buf cur = slice cur c buf @ out_from es buf c"
proof (cases es)
  case Nil
  then show "cur \<le> c \<Longrightarrow> ?thesis" by (simp add: slice_append_drop)
next
  case (Cons e r)
  assume "from_ok es c (length buf)" "cur \<le> c"
  then show ?thesis using Cons by (simp add: from_ok_Cons slice_append_slice flip: append_assoc)
qed

lemma apply_to_Cons:
  assumes "from_ok (e # es) 0 (length buf)"
  shows "apply_to (e # es) buf = splice_edit e (apply_to es buf)"
proof -
  from assms have e: "edit_end e \<le> length buf" "from_ok es (edit_end e) (length buf)"
    by (auto simp: from_ok_Cons)
  have past: "apply_to es buf = take (edit_end e) buf @ out_from es buf (edit_end e)"
    using out_from_past [OF e(2), of 0] e by (simp add: apply_to_out slice_0)
  have "take (epos e) (apply_to es buf) = take (epos e) buf"
    using e unfolding past by (simp add: edit_end_def min_def)
  moreover have "drop (edit_end e) (apply_to es buf) = out_from es buf (edit_end e)"
    using e unfolding past by simp
  ultimately show ?thesis by (simp add: splice_edit_def apply_to_out slice_0)
qed

lemma from_ok_weaken: "from_ok es c n \<Longrightarrow> d \<le> c \<Longrightarrow> from_ok es d n"
  by (fastforce simp: from_ok_def)

lemma apply_to_splice_edits:
  "from_ok es 0 (length buf) \<Longrightarrow> apply_to es buf = foldr splice_edit es buf"
proof (induction es)
  case (Cons e es)
  then have "from_ok es 0 (length buf)" by (auto simp: from_ok_Cons intro: from_ok_weaken)
  with Cons show ?case by (simp add: apply_to_Cons)
qed simp

section \<open>The edit between two buffers\<close>

lemma head_cut_line_start: "c \<le> length old \<Longrightarrow> head_cut old c = line_start old c"
  by (simp add: head_cut_def line_start_def min_absorb1)

lemma cut_tail_le: "cut_tail old new head t \<le> t"
  by (induction t) (auto simp: Let_def)

lemma cut_tail_lines:
  assumes "cut_tail old new head t \<noteq> 0"
  shows "length old - cut_tail old new head t = head \<or> old ! (length old - cut_tail old new head t - 1) = newline"
    and "length new - cut_tail old new head t = head \<or> new ! (length new - cut_tail old new head t - 1) = newline"
proof -
  let ?P = "\<lambda>n. (length old - n = head \<or> old ! (length old - n - 1) = newline) \<and>
     (length new - n = head \<or> new ! (length new - n - 1) = newline)"
  have "?P (cut_tail old new head t)" using assms
  proof (induction t)
    case (Suc t)
    show ?case
    proof (cases "?P (Suc t)")
      case True
      then have "cut_tail old new head (Suc t) = Suc t" by (simp only: cut_tail.simps Let_def if_True simp_thms)
      with True show ?thesis by (simp only:)
    next
      case False
      then have "cut_tail old new head (Suc t) = cut_tail old new head t"
        by (simp only: cut_tail.simps Let_def if_False)
      moreover from this Suc have "?P (cut_tail old new head t)" by simp
      ultimately show ?thesis by (simp only:)
    qed
  qed simp
  then show "length old - cut_tail old new head t = head \<or> old ! (length old - cut_tail old new head t - 1) = newline"
    and "length new - cut_tail old new head t = head \<or> new ! (length new - cut_tail old new head t - 1) = newline"
    by (simp_all only:)
qed

text \<open>The parts of \<open>lines_changed\<close>: the head, the shared tail and the tail that is kept.\<close>

lemma lines_changed_parts:
  obtains h t where "lines_changed old new = edit_replace h (length old - t - h) (slice h (length new - t) new)"
    "h \<le> length old - t" "h \<le> length new - t" "t \<le> length old" "t \<le> length new"
    "take h old = take h new" "drop (length old - t) old = drop (length new - t) new"
    "h = line_start old (agree_prefix old new)"
    "t = cut_tail old new h (agree_prefix (take (min (length old - h) (length new - h)) (rev (drop h old)))
           (take (min (length old - h) (length new - h)) (rev (drop h new))))"
proof -
  let ?c = "agree_prefix old new"
  define h where "h = line_start old ?c"
  let ?room = "min (length old - h) (length new - h)"
  let ?st = "agree_prefix (take ?room (rev (drop h old))) (take ?room (rev (drop h new)))"
  define t where "t = cut_tail old new h ?st"
  have c: "?c \<le> length old" "?c \<le> length new" by (rule agree_prefix_le)+
  have h: "h \<le> ?c" using line_start_le [of old ?c] by (simp add: h_def)
  have t: "t \<le> ?st" unfolding t_def by (rule cut_tail_le)
  have room: "?st \<le> ?room" using agree_prefix_le(1) [of "take ?room (rev (drop h old))"] by simp
  have "take t (take ?room (rev (drop h old))) = take t (take ?room (rev (drop h new)))"
    using t by (rule agree_prefix_take)
  moreover have tr: "t \<le> ?room" using t room by (rule le_trans)
  ultimately have "take t (rev (drop h old)) = take t (rev (drop h new))"
    by (simp only: take_take min_absorb1)
  then have d: "drop (length old - t) old = drop (length new - t) new"
    using tr h c by (intro agree_suffix_drop [where h = h]) auto
  show thesis
  proof (rule that [of h t])
    show "lines_changed old new = edit_replace h (length old - t - h) (slice h (length new - t) new)"
      unfolding lines_changed_def Let_def take_zip head_cut_line_start [OF c(1)] h_def [symmetric]
        t_def [symmetric] ..
    show "take h old = take h new" using h by (rule agree_prefix_take)
    show "h \<le> length old - t" "h \<le> length new - t" "t \<le> length old" "t \<le> length new"
      using tr h c by linarith+
  qed (fact d h_def t_def)+
qed

lemma apply_to_lines_changed: "apply_to [lines_changed old new] old = new"
proof -
  obtain h t where lc: "lines_changed old new = edit_replace h (length old - t - h) (slice h (length new - t) new)"
    and b: "h \<le> length old - t" "h \<le> length new - t"
    and e: "take h old = take h new" "drop (length old - t) old = drop (length new - t) new"
    by (rule lines_changed_parts)
  have "apply_to [lines_changed old new] old = take h new @ slice h (length new - t) new @ drop (length new - t) new"
  proof -
    have "h + (length old - t - h) = length old - t" using b(1) by simp
    then show ?thesis by (simp only: lc apply_to_out out_from.simps edit_replace_def edit_end_def slice_0
        edit.simps e)
  qed
  also have "\<dots> = new" using b(2) by (simp add: slice_append_drop)
  finally show ?thesis .
qed

lemma in_bounds_lines_changed: "in_bounds [lines_changed old new] (length old)"
proof -
  obtain h t where "lines_changed old new = edit_replace h (length old - t - h) (slice h (length new - t) new)"
    "h \<le> length old - t" by (rule lines_changed_parts)
  then show ?thesis by (simp add: edit_replace_def edit_end_def)
qed

lemma edit_list_new_single:
  "edit_list_new [e] = Inr (if changes_something e then [e] else [])"
  by (simp add: edit_list_new_def)

lemma apply_to_unchanging: "\<not> changes_something e \<Longrightarrow> edit_end e \<le> length buf \<Longrightarrow> apply_to [e] buf = buf"
  by (simp add: apply_to_out changes_something_def edit_end_def slice_0)

lemma line_start_same:
  assumes "take h old = take h new" "h \<le> length old" "h \<le> length new"
  shows "line_start old h = line_start new h"
  using assms by (simp add: line_start_def min_absorb1)

section \<open>The edit of an insertion\<close>

text \<open>\<open>reads_as old p tx new\<close>: the buffer \<open>new\<close> holds, byte by byte, what \<open>new_at\<close> reads.\<close>

definition reads_as :: "bytes \<Rightarrow> nat \<Rightarrow> bytes \<Rightarrow> bytes \<Rightarrow> bool" where
  "reads_as old p tx new \<longleftrightarrow> length new = length old + length tx \<and>
     (\<forall>i < length new. new_at old p tx i = new ! i)"

lemma reads_as_insert: "p \<le> length old \<Longrightarrow> reads_as old p tx (take p old @ tx @ drop p old)"
  by (auto simp: reads_as_def new_at_def nth_append min_def)

lemma grow_head_agree:
  "reads_as old p tx new \<Longrightarrow> c \<le> length old \<Longrightarrow> take c old = take c new \<Longrightarrow>
     grow_head old p tx c = agree_prefix old new"
proof (induction old p tx c rule: grow_head.induct)
  case (1 old p tx c)
  show ?case
  proof (cases "c < length old \<and> old ! c = new_at old p tx c")
    case True
    then have "old ! c = new ! c" "c < length new" using "1.prems"(1) by (auto simp: reads_as_def)
    then have "take (c + 1) old = take (c + 1) new"
      using True "1.prems"(3) by (simp add: take_Suc_conv_app_nth)
    with True 1 show ?thesis by (subst grow_head.simps) simp
  next
    case False
    moreover have "agree_prefix old new = c"
      using False "1.prems" by (intro agree_prefix_eqI) (auto simp: reads_as_def)
    ultimately show ?thesis by (subst grow_head.simps) auto
  qed
qed

lemma grow_tail_agree:
  "reads_as old p tx new \<Longrightarrow> h \<le> length old \<Longrightarrow> room = length old - h \<Longrightarrow> t \<le> room \<Longrightarrow>
    take t (rev (drop h old)) = take t (rev (drop h new)) \<Longrightarrow>
    grow_tail old p tx room t =
      agree_prefix (take room (rev (drop h old))) (take room (rev (drop h new)))"
proof (induction old p tx room t rule: grow_tail.induct)
  case (1 old p tx room t)
  let ?xs = "take room (rev (drop h old))" and ?ys = "take room (rev (drop h new))"
  have ln: "length new = length old + length tx" using "1.prems"(1) by (simp add: reads_as_def)
  have len: "length ?xs = room" "length ?ys = room" using "1.prems"(2,3) ln by auto
  have at: "?xs ! t = old ! (length old - t - 1)" "?ys ! t = new_at old p tx (length old + length tx - t - 1)"
    if "t < room" using that "1.prems"(1-3) ln by (auto simp: rev_nth reads_as_def)
  have take_t: "take t ?xs = take t ?ys" using "1.prems"(4,5) by (simp add: take_take min_absorb1)
  show ?case
  proof (cases "t < room \<and> old ! (length old - t - 1) = new_at old p tx (length old + length tx - t - 1)")
    case True
    with at have "?xs ! t = ?ys ! t" by simp
    then have "take (Suc t) ?xs = take (Suc t) ?ys"
      using True take_t len by (simp only: take_Suc_conv_app_nth)
    then have "take (t + 1) (rev (drop h old)) = take (t + 1) (rev (drop h new))"
      using True by (simp add: take_take min_absorb1)
    with True 1 show ?thesis by (subst grow_tail.simps) simp
  next
    case False
    have "agree_prefix ?xs ?ys = t"
    proof (rule agree_prefix_eqI)
      show "take t ?xs = take t ?ys" by (fact take_t)
      show "t \<le> length ?xs" "t \<le> length ?ys" using len "1.prems"(4) by simp_all
      show "?xs ! t \<noteq> ?ys ! t" if "t < length ?xs" using that False at len by auto
    qed
    with False show ?thesis by (subst grow_tail.simps) auto
  qed
qed

lemma cut_tail_at_eq:
  "reads_as old p tx new \<Longrightarrow> t \<le> length old \<Longrightarrow> cut_tail_at old p tx h t = cut_tail old new h t"
proof (induction t)
  case (Suc t)
  have "new_at old p tx (length old + length tx - Suc t - 1) = new ! (length new - Suc t - 1)"
    using Suc.prems by (auto simp: reads_as_def)
  with Suc show ?case by (simp add: Let_def reads_as_def)
qed simp

lemma lines_changed_by_insert_eq:
  assumes "p \<le> length old"
  shows "lines_changed_by_insert old p tx = lines_changed old (take p old @ tx @ drop p old)"
proof -
  define new where "new = take p old @ tx @ drop p old"
  have r: "reads_as old p tx new" using assms by (simp add: new_def reads_as_insert)
  then have ln: "length new = length old + length tx" by (simp add: reads_as_def)
  have head: "grow_head old p tx p = agree_prefix old new"
    using assms by (intro grow_head_agree [OF r]) (simp_all add: new_def)
  let ?c = "agree_prefix old new"
  define h where "h = head_cut old ?c"
  have h: "h \<le> length old"
    unfolding h_def using agree_prefix_le(1) [of old new] line_start_le [of old ?c]
    by (simp add: head_cut_line_start)
  let ?room = "length old - h"
  let ?t = "min (length old - p) ?room"
  have "take ?t (rev (drop h old)) = take ?t (rev (drop h new))"
  proof -
    have "drop (length old - ?t) old = drop (length new - ?t) new"
      using assms by (simp add: new_def min_def)
    then show ?thesis using h ln
      by (simp add: take_rev min_def add.commute split: if_splits)
  qed
  then have tail: "grow_tail old p tx ?room ?t = agree_prefix (take ?room (rev (drop h old))) (take ?room (rev (drop h new)))"
    by (intro grow_tail_agree [OF r h]) simp_all
  have room: "min ?room (length new - h) = ?room" using ln by simp
  let ?st = "agree_prefix (take ?room (rev (drop h old))) (take ?room (rev (drop h new)))"
  have "?st \<le> ?room" by (rule le_trans [OF agree_prefix_le(1)]) simp
  then have "?st \<le> length old" by simp
  then have cut: "cut_tail_at old p tx h ?st = cut_tail old new h ?st" by (rule cut_tail_at_eq [OF r])
  have read: "map (new_at old p tx) [h..<length old + length tx - k] = slice h (length new - k) new" for k
    using r by (auto simp: reads_as_def slice_nth intro!: nth_equalityI)
  show ?thesis
    by (simp only: lines_changed_by_insert_def lines_changed_def new_def [symmetric] Let_def head
        h_def [symmetric] tail take_zip room cut read)
qed

section \<open>The interface the undo history uses\<close>

text \<open>
  What a client that stores changes and walks them back and forth relies on: applying a valid change,
  computing its inverse before it is applied, and that the inverse is itself valid afterwards and takes
  the buffer back.
\<close>

locale edit_algebra =
  fixes apply_ch :: "'ch \<Rightarrow> 'buf \<Rightarrow> 'buf"
    and invert :: "'ch \<Rightarrow> 'buf \<Rightarrow> 'ch"
    and valid :: "'ch \<Rightarrow> 'buf \<Rightarrow> bool"
  assumes valid_invert: "valid c b \<Longrightarrow> valid (invert c b) (apply_ch c b)"
    and apply_invert: "valid c b \<Longrightarrow> apply_ch (invert c b) (apply_ch c b) = b"
begin

text \<open>A chain of changes, each valid where the ones before it lead.\<close>

fun chain_valid :: "'ch list \<Rightarrow> 'buf \<Rightarrow> bool" where
  "chain_valid [] b \<longleftrightarrow> True"
| "chain_valid (c # cs) b \<longleftrightarrow> valid c b \<and> chain_valid cs (apply_ch c b)"

fun invert_chain :: "'ch list \<Rightarrow> 'buf \<Rightarrow> 'ch list" where
  "invert_chain [] b = []"
| "invert_chain (c # cs) b = invert_chain cs (apply_ch c b) @ [invert c b]"

lemma chain_valid_append:
  "chain_valid (xs @ ys) b \<longleftrightarrow> chain_valid xs b \<and> chain_valid ys (fold apply_ch xs b)"
  by (induction xs arbitrary: b) auto

lemma fold_invert_chain: "chain_valid cs b \<Longrightarrow> fold apply_ch (invert_chain cs b) (fold apply_ch cs b) = b"
  by (induction cs arbitrary: b) (auto simp: apply_invert)

lemma chain_valid_invert: "chain_valid cs b \<Longrightarrow> chain_valid (invert_chain cs b) (fold apply_ch cs b)"
  by (induction cs arbitrary: b) (auto simp: chain_valid_append fold_invert_chain valid_invert)

end

definition edits_valid :: "edit_list \<Rightarrow> bytes \<Rightarrow> bool" where
  "edits_valid es buf \<longleftrightarrow> edits_wf es \<and> in_bounds es (length buf)"

interpretation ea: edit_algebra apply_to inverse_edits edits_valid
  by unfold_locales (simp_all add: edits_valid_def inverse_edits_wf inverse_edits_restores)

section \<open>Properties\<close>

lemma line_start_at_boundary: "p \<le> length bs \<Longrightarrow> p = 0 \<or> bs ! (p - 1) = newline \<Longrightarrow> line_start bs p = p"
  by (rule line_start_eqI) auto

lemma line_start_idem: "line_start bs (line_start bs p) = line_start bs p"
proof (cases rule: line_start_cases [of bs p])
  case first
  then show ?thesis by (simp add: line_start_at_boundary)
next
  case (after i)
  then show ?thesis using line_start_le [of bs p] by (simp add: line_start_at_boundary)
qed

lemma lines_changed_boundaries:
  assumes "e = lines_changed old new"
  shows "line_start old (epos e) = epos e" "line_start new (epos e) = epos e"
    and "edit_end e = length old \<or> line_start old (edit_end e) = edit_end e"
    and "epos e + length (eins e) = length new \<or>
      line_start new (epos e + length (eins e)) = epos e + length (eins e)"
proof -
  obtain h t where lc: "lines_changed old new = edit_replace h (length old - t - h) (slice h (length new - t) new)"
    and b: "h \<le> length old - t" "h \<le> length new - t" "t \<le> length old" "t \<le> length new"
    and e: "take h old = take h new"
    and h: "h = line_start old (agree_prefix old new)"
    and t: "t = cut_tail old new h (agree_prefix (take (min (length old - h) (length new - h)) (rev (drop h old)))
           (take (min (length old - h) (length new - h)) (rev (drop h new))))"
    by (rule lines_changed_parts)
  have pos: "epos e = h" "edit_end e = length old - t" "epos e + length (eins e) = length new - t"
    using b by (simp_all add: assms lc edit_replace_def edit_end_def)
  have ho: "line_start old h = h" unfolding h by (rule line_start_idem)
  have hn: "line_start new h = h" using ho e b line_start_same [of h old new] by simp
  from ho hn show "line_start old (epos e) = epos e" "line_start new (epos e) = epos e"
    by (simp_all only: pos)
  have "t = 0 \<or> (length old - t = h \<or> old ! (length old - t - 1) = newline) \<and>
      (length new - t = h \<or> new ! (length new - t - 1) = newline)"
    using cut_tail_lines unfolding t by blast
  then have "t = 0 \<or> line_start old (length old - t) = length old - t \<and>
      line_start new (length new - t) = length new - t"
    using ho hn line_start_at_boundary [of "length old - t" old] line_start_at_boundary [of "length new - t" new]
    by auto
  then show "edit_end e = length old \<or> line_start old (edit_end e) = edit_end e"
    and "epos e + length (eins e) = length new \<or>
      line_start new (epos e + length (eins e)) = epos e + length (eins e)"
    unfolding pos(2) pos(3) by auto
qed

text \<open>
  C12: Computing the inverse of a valid edit list and applying the list never slice out of range, and the
  inverse, applied to the changed buffer, is a valid list that restores the buffer exactly.  The assertion
  in \<^verbatim>\<open>from_sorted\<close> holds for it.
\<close>

theorem apply_inverse_round_trip:
  assumes "edits_wf es" and "check_bounds es (length buf) = Inr ()"
  shows "inverse_safe es buf \<and> apply_safe es buf 0
    \<and> sorted_disjoint (inverse_edits es buf)
    \<and> check_bounds (inverse_edits es buf) (length (apply_to es buf)) = Inr ()
    \<and> apply_safe (inverse_edits es buf) (apply_to es buf) 0
    \<and> apply_to (inverse_edits es buf) (apply_to es buf) = buf"
proof -
  have b: "in_bounds es (length buf)" using assms(2) by (simp only: check_bounds_Inr_iff)
  note i = inverse_edits_wf [OF assms(1) b]
  have "inverse_safe es buf" using b by (auto simp: inverse_safe_def slice_ok_def in_bounds_def edit_end_def)
  moreover have "apply_safe es buf 0" using assms(1) b by (intro apply_safe_from_ok from_okI)
  moreover have "apply_safe (inverse_edits es buf) (apply_to es buf) 0"
    using i by (intro apply_safe_from_ok from_okI)
  moreover have "sorted_disjoint (inverse_edits es buf)"
    using i(1) by (simp add: edits_wf_def sorted_disjoint_iff)
  ultimately show ?thesis
    using i(2) inverse_edits_restores [OF assms(1) b] by (simp add: check_bounds_Inr_iff)
qed

theorem apply_inverse_round_trip_witness:
  "let es = [edit_delete 0 2, edit_insert 2 [88, 89], edit_replace 5 1 [10]]; buf = [104, 101, 108, 108, 111, 33] in
     apply_to es buf = [88, 89, 108, 108, 111, 10] \<and>
     apply_to (inverse_edits es buf) (apply_to es buf) = buf"
proof -
  let ?es = "[edit_delete 0 2, edit_insert 2 [88, 89], edit_replace 5 1 [10]] :: edit list"
  let ?buf = "[104, 101, 108, 108, 111, 33] :: bytes"
  have "edits_wf ?es"
    by (simp add: edits_wf_def edit_delete_def edit_insert_def edit_replace_def edit_end_def changes_something_def)
  moreover have "check_bounds ?es (length ?buf) = Inr ()"
    by (simp add: edit_delete_def edit_insert_def edit_replace_def edit_end_def end_panics_def)
  ultimately have "apply_to (inverse_edits ?es ?buf) (apply_to ?es ?buf) = ?buf"
    using apply_inverse_round_trip [of ?es ?buf] by blast
  moreover have "apply_to ?es ?buf = [88, 89, 108, 108, 111, 10]"
    by (simp add: apply_to_def edit_delete_def edit_insert_def edit_replace_def edit_end_def slice_def)
  ultimately show ?thesis by (simp only: Let_def)
qed

definition overlap_error :: "edit \<Rightarrow> edit \<Rightarrow> edit_error" where
  "overlap_error a b =
     (if epos b \<noteq> epos a \<and> 2 ^ 64 \<le> edit_end a then EndOverflow (epos a) (edel a) else Overlap (epos a) (epos b))"

text \<open>The list the constructor accepts is the given edits that change something, sorted by position and
  pairwise disjoint; it is rejected only for two edits, adjacent in position order, of which the second
  starts at the first one's position or inside its deleted span; the call panics when that span's end does not fit.\<close>

theorem edit_list_new_correct:
  "case edit_list_new edits of
     Inr es \<Rightarrow> mset es = filter_mset changes_something (mset edits) \<and> edits_wf es
   | Inl err \<Rightarrow> \<exists>xs a b ys. sort_key epos (filter changes_something edits) = xs @ a # b # ys
        \<and> (epos b = epos a \<or> epos b < edit_end a)
        \<and> err = overlap_error a b"
proof (cases "edit_list_new edits")
  case (Inl err)
  have "first_overlap es = Some err \<Longrightarrow> \<exists>xs a b ys. es = xs @ a # b # ys
      \<and> (epos b = epos a \<or> epos b < edit_end a)
      \<and> err = overlap_error a b" for es
  proof (induction es rule: first_overlap.induct)
    case (1 a b es)
    show ?case
    proof (cases "epos b = epos a \<or> epos b < edit_end a")
      case True
      with 1 show ?thesis by (intro exI [of _ "[]"]) (auto simp: end_panics_def overlap_error_def split: if_splits)
    next
      case False
      with 1 obtain xs c d ys where "b # es = xs @ c # d # ys" "epos d = epos c \<or> epos d < edit_end c"
        "err = overlap_error c d"
        by (auto simp: end_panics_def)
      then show ?thesis by (metis append_Cons)
    qed
  qed simp_all
  with Inl show ?thesis by (simp add: edit_list_new_def Let_def split: option.splits)
next
  case (Inr es)
  then have "es = sort_key epos (filter changes_something edits)" "edits_wf es"
    using edit_list_new_Inr_iff [THEN iffD1] by blast+
  with Inr show ?thesis by simp
qed

text \<open>The one ascending pass over a valid list computes what splicing the edits into the buffer one at a
  time, from the last to the first, computes.\<close>

theorem apply_to_is_splicing:
  assumes "edits_wf es" and "check_bounds es (length buf) = Inr ()"
  shows "apply_to es buf = foldr (\<lambda>e b. take (epos e) b @ eins e @ drop (edit_end e) b) es buf"
proof -
  have "from_ok es 0 (length buf)" using assms by (simp add: from_okI check_bounds_Inr_iff)
  then show ?thesis by (simp add: apply_to_splice_edits splice_edit_def [abs_def])
qed

theorem apply_to_is_splicing_witness:
  "apply_to [edit_replace 1 2 [65], edit_insert 4 [66]] [1, 2, 3, 4, 5] =
     foldr (\<lambda>e b. take (epos e) b @ eins e @ drop (edit_end e) b)
       [edit_replace 1 2 [65], edit_insert 4 [66]] [1, 2, 3, 4, 5]"
  by (rule apply_to_is_splicing)
    (simp_all add: edits_wf_def edit_insert_def edit_replace_def edit_end_def end_panics_def changes_something_def)

text \<open>The edit between two buffers turns the old one into the new one, and both ends of it, in the old and
  in the new text, are line starts or the end of the text.\<close>

theorem lines_changed_correct:
  "let e = lines_changed old new in
     apply_to [e] old = new \<and> check_bounds [e] (length old) = Inr ()
   \<and> line_start old (epos e) = epos e \<and> line_start new (epos e) = epos e
   \<and> edit_end e \<in> {length old, line_start old (edit_end e)}
   \<and> epos e + length (eins e) \<in> {length new, line_start new (epos e + length (eins e))}"
proof -
  let ?e = "lines_changed old new"
  have "check_bounds [?e] (length old) = Inr ()"
    using in_bounds_lines_changed [of old new] by (simp only: check_bounds_Inr_iff)
  then show ?thesis
    using apply_to_lines_changed [of old new] lines_changed_boundaries [of ?e old new]
    unfolding Let_def insert_iff empty_iff by metis
qed

text \<open>The edit found without building the new buffer is the edit found by comparing the two buffers.\<close>

theorem lines_changed_by_insert_equiv:
  assumes "p \<le> length old"
  shows "lines_changed_by_insert old p tx = lines_changed old (take p old @ tx @ drop p old)"
  using assms by (rule lines_changed_by_insert_eq)

theorem lines_changed_by_insert_equiv_witness:
  "lines_changed_by_insert [97, 10, 98, 10, 99, 10] 4 [98, 10] =
     lines_changed [97, 10, 98, 10, 99, 10] [97, 10, 98, 10, 98, 10, 99, 10]"
  using lines_changed_by_insert_equiv [of 4 "[97, 10, 98, 10, 99, 10]" "[98, 10]"] by simp

end
