(* ===== verification/Line_Starts.thy ===== *)
theory Line_Starts
  imports Edits
begin

unbundle bit_operations_syntax

text \<open>
  The table of line starts a document keeps (\<^verbatim>\<open>line_starts_of\<close> and \<^verbatim>\<open>carried_line_starts\<close> of
  \<^verbatim>\<open>crates/core/src/document.rs\<close>): one built from the text, 64 bytes at a time through a 64-bit mask of
  newlines, and one carried through an edit list without looking at the text.  Both are shown to be the list
  of line starts, so the two lookups over the table answer what the scans of \<open>Pos\<close> answer.
\<close>

section \<open>Built from the text\<close>

text \<open>\<^verbatim>\<open>u64::trailing_zeros\<close>.\<close>

definition trailing_zeros :: "u64 \<Rightarrow> nat" where
  "trailing_zeros w = (case find (bit w) [0..<64] of Some i \<Rightarrow> i | None \<Rightarrow> 64)"

fun newline_mask :: "bytes \<Rightarrow> nat \<Rightarrow> u64 \<Rightarrow> u64" where
  "newline_mask [] i m = m"
| "newline_mask (c # cs) i m = newline_mask cs (i + 1) (m OR push_bit i (if c = newline then 1 else 0))"

lemma trailing_zeros_bit:
  assumes "w \<noteq> 0"
  shows "trailing_zeros w < 64 \<and> bit w (trailing_zeros w) \<and> (\<forall>j < trailing_zeros w. \<not> bit w j)"
proof (cases "find (bit w) [0..<64]")
  case None
  then have "\<not> bit w i" for i using bit_imp_le_length [of w i] by (fastforce simp: find_None_iff)
  then have "w = 0" by (simp add: bit_eq_iff)
  with assms show ?thesis by simp
next
  case (Some i)
  then show ?thesis unfolding find_Some_iff by (auto simp: trailing_zeros_def Some)
qed

text \<open>\<^verbatim>\<open>mask &= mask - 1\<close> clears the lowest set bit and nothing else.\<close>

lemma clear_lowest_bit:
  assumes "w \<noteq> (0 :: u64)"
  shows "bit (w AND (w - 1)) i \<longleftrightarrow> bit w i \<and> i \<noteq> trailing_zeros w"
proof -
  let ?t = "trailing_zeros w"
  note t = trailing_zeros_bit [OF assms]
  define v where "v = w AND NOT (push_bit ?t 1)"
  have "v AND push_bit ?t 1 = 0" by (rule bit_eqI) (simp add: v_def bit_simps)
  moreover have "v OR push_bit ?t 1 = w"
    by (rule bit_eqI) (use t in \<open>auto simp: v_def bit_simps bit_imp_le_length\<close>)
  ultimately have w: "w = v + 2 ^ ?t" using disjunctive_add_eq_or [of v "push_bit ?t 1"] by simp
  have "v AND mask ?t = 0" by (rule bit_eqI) (use t in \<open>auto simp: v_def bit_simps\<close>)
  then have "v + mask ?t = v OR mask ?t" by (rule disjunctive_add_eq_or)
  moreover have "w - 1 = v + mask ?t" by (subst w) (simp add: mask_eq_exp_minus_1)
  ultimately have "w - 1 = v OR mask ?t" by simp
  then show ?thesis using t by (auto simp: bit_simps v_def dest: bit_imp_le_length)
qed

function push_bits :: "nat \<Rightarrow> u64 \<Rightarrow> nat list \<Rightarrow> nat list" where
  "push_bits k m starts =
     (if m = 0 then starts else push_bits k (m AND (m - 1)) (starts @ [k * 64 + trailing_zeros m + 1]))"
  by pat_completeness auto
termination
proof (relation "measure (\<lambda>(k, m, starts). unat m)")
  fix k :: nat and m :: u64 and starts :: "nat list"
  assume "m \<noteq> 0"
  then have "m AND (m - 1) \<noteq> m" using clear_lowest_bit [of m] trailing_zeros_bit [of m] by metis
  moreover have "m AND (m - 1) \<le> m" by (metis and.commute word_and_le1)
  ultimately have "m AND (m - 1) < m" by simp
  then show "((k, m AND (m - 1), starts @ [k * 64 + trailing_zeros m + 1]), (k, m, starts))
      \<in> measure (\<lambda>(k, m, starts). unat m)" by (simp add: word_less_nat_alt)
qed simp

declare push_bits.simps [simp del]

fun starts_loop :: "bytes list \<Rightarrow> nat \<Rightarrow> nat list \<Rightarrow> nat list" where
  "starts_loop [] k starts = starts"
| "starts_loop (ch # chs) k starts = starts_loop chs (k + 1) (push_bits k (newline_mask ch 0 0) starts)"

definition line_starts_of :: "bytes \<Rightarrow> nat list" where
  "line_starts_of bs = starts_loop (chunks 64 bs) 0 [0]"

section \<open>Carried through an edit list\<close>

definition shifted :: "nat \<Rightarrow> int \<Rightarrow> nat" where
  "shifted s d = nat (int s + d)"

fun inserted_starts :: "nat \<Rightarrow> bytes \<Rightarrow> nat \<Rightarrow> nat list" where
  "inserted_starts at [] j = []"
| "inserted_starts at (c # cs) j = (if c = newline then [at + j + 1] else []) @ inserted_starts at cs (j + 1)"

fun carry_loop :: "edit list \<Rightarrow> nat list \<Rightarrow> nat \<Rightarrow> int \<Rightarrow> nat list \<Rightarrow> nat list" where
  "carry_loop [] starts i d out = out @ map (\<lambda>s. shifted s d) (drop i starts)"
| "carry_loop (e # es) starts i d out =
     (let keep = i + partition_point (\<lambda>s. s \<le> epos e) (drop i starts);
          i' = keep + partition_point (\<lambda>s. s \<le> epos e + edel e) (drop keep starts)
      in carry_loop es starts i' (d + delta e)
           (out @ map (\<lambda>s. shifted s d) (slice i keep starts) @ inserted_starts (shifted (epos e) d) (eins e) 0))"

definition carried_line_starts :: "nat list \<Rightarrow> edit_list \<Rightarrow> nat list" where
  "carried_line_starts starts es = carry_loop es starts 1 0 [0]"

section \<open>Lookups over the table\<close>

definition row_in :: "nat list \<Rightarrow> nat \<Rightarrow> nat" where
  "row_in starts at = partition_point (\<lambda>s. s \<le> at) starts - 1"

section \<open>The mask\<close>

lemma newline_mask_bit:
  "i + length cs \<le> 64 \<Longrightarrow>
     bit (newline_mask cs i m) j \<longleftrightarrow> bit m j \<or> (i \<le> j \<and> j < i + length cs \<and> cs ! (j - i) = newline)"
proof (induction cs arbitrary: i m)
  case (Cons c cs)
  have "bit (push_bit i (if c = newline then 1 else 0) :: u64) j \<longleftrightarrow> j = i \<and> c = newline"
    using Cons.prems by (auto simp: bit_simps)
  moreover have "(i + 1 \<le> j \<and> j < i + 1 + length cs \<and> cs ! (j - (i + 1)) = newline) \<or> (j = i \<and> c = newline) \<longleftrightarrow>
      i \<le> j \<and> j < i + length (c # cs) \<and> (c # cs) ! (j - i) = newline"
  proof (cases "i < j")
    case True
    then have "j - i = Suc (j - (i + 1))" by simp
    with True show ?thesis by simp
  qed auto
  ultimately show ?case using Cons.IH [of "i + 1"] Cons.prems by (auto simp: bit_or_iff)
qed auto

lemma filter_first:
  assumes "t < n" "P t" "\<forall>j < t. \<not> P j" "\<And>j. j < n \<Longrightarrow> Q j \<longleftrightarrow> P j \<and> j \<noteq> t"
  shows "filter P [0..<n] = t # filter Q [0..<n]"
proof -
  have split: "[0..<n] = [0..<t] @ t # [Suc t..<n]"
    using upt_add_eq_append [of 0 t "n - t"] assms(1) by (simp add: upt_conv_Cons)
  have "filter P [0..<t] = []" "filter Q [0..<t] = []" "\<not> Q t"
    using assms by (auto simp: filter_empty_conv)
  moreover have "filter P [Suc t..<n] = filter Q [Suc t..<n]" using assms(4) by (intro filter_cong) auto
  ultimately show ?thesis using assms(2) by (simp add: split)
qed

lemma push_bits_filter:
  "push_bits k m starts = starts @ map (\<lambda>i. k * 64 + i + 1) (filter (bit m) [0..<64])"
proof (induction k m starts rule: push_bits.induct)
  case (1 k m starts)
  show ?case
  proof (cases "m = 0")
    case True
    then show ?thesis by (subst push_bits.simps) simp
  next
    case False
    note t = trailing_zeros_bit [OF False]
    have "filter (bit m) [0..<64] = trailing_zeros m # filter (bit (m AND (m - 1))) [0..<64]"
      by (rule filter_first) (use t clear_lowest_bit [OF False] in auto)
    with False 1 show ?thesis by (subst push_bits.simps) simp
  qed
qed

lemma ends_from_filter:
  "ends_from k bs = map (\<lambda>i. k + i + 1) (filter (\<lambda>i. bs ! i = newline) [0..<length bs])"
proof (induction bs arbitrary: k)
  case (Cons b bs)
  have "[0..<length (b # bs)] = 0 # map Suc [0..<length bs]" by (simp add: map_Suc_upt upt_conv_Cons del: upt_Suc)
  then show ?case using Cons.IH [of "Suc k"] by (simp add: filter_map o_def del: upt_Suc)
qed simp

lemma chunk_starts:
  assumes "length ch \<le> 64"
  shows "push_bits k (newline_mask ch 0 0) starts = starts @ ends_from (k * 64) ch"
proof -
  have "[0..<64] = [0..<length ch] @ [length ch..<64]" using assms by (metis le0 le_add_diff_inverse upt_add_eq_append)
  moreover have "filter (bit (newline_mask ch 0 0)) [length ch..<64] = []"
    using assms by (auto simp: filter_empty_conv newline_mask_bit)
  moreover have "filter (bit (newline_mask ch 0 0)) [0..<length ch] = filter (\<lambda>i. ch ! i = newline) [0..<length ch]"
    using assms by (intro filter_cong) (auto simp: newline_mask_bit)
  ultimately show ?thesis by (simp add: push_bits_filter ends_from_filter)
qed

lemma starts_loop_ends: "starts_loop (chunks 64 bs) k starts = starts @ ends_from (k * 64) bs"
proof (induction "64 :: nat" bs arbitrary: k starts rule: chunks.induct)
  case (1 bs)
  show ?case
  proof (cases "bs = []")
    case True
    then show ?thesis by (subst chunks.simps) simp
  next
    case False
    have ch: "chunks 64 bs = take 64 bs # chunks 64 (drop 64 bs)" using False by (subst chunks.simps) simp
    have e: "ends_from (k * 64) bs = ends_from (k * 64) (take 64 bs) @ ends_from ((k + 1) * 64) (drop 64 bs)"
    proof (cases "64 \<le> length bs")
      case True
      then show ?thesis using ends_from_append [of "k * 64" "take 64 bs" "drop 64 bs"] by (simp add: add.commute)
    qed simp
    have "starts_loop (chunks 64 (drop 64 bs)) (k + 1) (starts @ ends_from (k * 64) (take 64 bs)) =
        (starts @ ends_from (k * 64) (take 64 bs)) @ ends_from ((k + 1) * 64) (drop 64 bs)"
      using False by (intro "1.hyps") simp
    then show ?thesis unfolding ch starts_loop.simps e by (simp add: chunk_starts)
  qed
qed

lemma line_starts_of_spec: "line_starts_of bs = starts_spec bs"
  using starts_loop_ends [of bs 0 "[0]"] by (simp add: line_starts_of_def starts_spec_def)

section \<open>The carried table\<close>

lemma ends_from_takeWhile:
  assumes "cur \<le> p" "p \<le> length bs"
  shows "ends_from cur (drop cur bs) = ends_from cur (slice cur p bs) @ ends_from p (drop p bs)"
    and "takeWhile (\<lambda>s. s \<le> p) (ends_from cur (drop cur bs)) = ends_from cur (slice cur p bs)"
proof -
  show e: "ends_from cur (drop cur bs) = ends_from cur (slice cur p bs) @ ends_from p (drop p bs)"
    using ends_from_append [of cur "slice cur p bs" "drop p bs"] assms by (simp add: slice_append_drop)
  have "\<forall>s \<in> set (ends_from cur (slice cur p bs)). s \<le> p"
    using ends_from_bounds [of _ cur "slice cur p bs"] assms by fastforce
  moreover have "takeWhile (\<lambda>s. s \<le> p) (ends_from p (drop p bs)) = []"
    using ends_from_bounds [of _ p "drop p bs"] by (auto simp: takeWhile_eq_Nil_iff not_le)
  ultimately show "takeWhile (\<lambda>s. s \<le> p) (ends_from cur (drop cur bs)) = ends_from cur (slice cur p bs)"
    by (simp add: e takeWhile_append2)
qed

lemma split_at_partition:
  assumes "drop i starts = ends_from cur (drop cur bs)" "cur \<le> p" "p \<le> length bs"
    and "k = i + partition_point (\<lambda>s. s \<le> p) (drop i starts)"
  shows "slice i k starts = ends_from cur (slice cur p bs)" "drop k starts = ends_from p (drop p bs)"
proof -
  note e = ends_from_takeWhile [OF assms(2,3)]
  have k: "k = i + length (ends_from cur (slice cur p bs))"
    unfolding assms(4) partition_point_def assms(1) e(2) ..
  show "slice i k starts = ends_from cur (slice cur p bs)" by (simp add: slice_def k assms(1) e(1))
  have "drop k starts = drop (length (ends_from cur (slice cur p bs))) (drop i starts)"
    by (simp add: k add.commute)
  then show "drop k starts = ends_from p (drop p bs)" unfolding assms(1) e(1) by simp
qed

lemma map_shifted_ends: "0 \<le> int k + d \<Longrightarrow> map (\<lambda>s. shifted s d) (ends_from k bs) = ends_from (shifted k d) bs"
proof (induction bs arbitrary: k)
  case (Cons b bs)
  then have "map (\<lambda>s. shifted s d) (ends_from (Suc k) bs) = ends_from (shifted (Suc k) d) bs" by simp
  moreover have "shifted (Suc k) d = Suc (shifted k d)" using Cons.prems by (simp add: shifted_def)
  ultimately show ?case by simp
qed simp

lemma inserted_starts_ends: "inserted_starts at cs j = ends_from (at + j) cs"
  by (induction cs arbitrary: j) simp_all

lemma carry_loop_ends:
  assumes "from_ok es cur (length bs)" "drop i starts = ends_from cur (drop cur bs)" "0 \<le> int cur + d"
  shows "carry_loop es starts i d out = out @ ends_from (shifted cur d) (out_from es bs cur)"
  using assms
proof (induction es arbitrary: cur i d out)
  case Nil
  then show ?case by (simp add: map_shifted_ends)
next
  case (Cons e es)
  have o: "cur \<le> epos e" "edit_end e \<le> length bs" "from_ok es (edit_end e) (length bs)"
    using Cons.prems(1) by (simp_all add: from_ok_Cons)
  then have p: "epos e \<le> length bs" by (simp add: edit_end_def)
  let ?keep = "i + partition_point (\<lambda>s. s \<le> epos e) (drop i starts)"
  let ?i = "?keep + partition_point (\<lambda>s. s \<le> epos e + edel e) (drop ?keep starts)"
  note k = split_at_partition [OF Cons.prems(2) o(1) p refl]
  have "epos e \<le> epos e + edel e" "epos e + edel e \<le> length bs" using o(2) by (simp_all add: edit_end_def)
  note k2 = split_at_partition(2) [OF k(2) this refl]
  have d: "0 \<le> int (edit_end e) + (d + delta e)" using Cons.prems(3) o(1) by (simp add: edit_end_def delta_def)
  have mid: "map (\<lambda>s. shifted s d) (slice i ?keep starts) = ends_from (shifted cur d) (slice cur (epos e) bs)"
    using k(1) Cons.prems(3) by (simp add: map_shifted_ends)
  have at: "shifted (epos e) d = shifted cur d + length (slice cur (epos e) bs)"
    using o(1) p Cons.prems(3) by (simp add: shifted_def)
  have ed: "shifted (edit_end e) (d + delta e) = shifted (epos e) d + length (eins e)"
    using o(1) Cons.prems(3) by (simp add: shifted_def edit_end_def delta_def)
  have "carry_loop es starts ?i (d + delta e)
      (out @ ends_from (shifted cur d) (slice cur (epos e) bs) @ inserted_starts (shifted (epos e) d) (eins e) 0) =
      (out @ ends_from (shifted cur d) (slice cur (epos e) bs) @ inserted_starts (shifted (epos e) d) (eins e) 0) @
      ends_from (shifted (edit_end e) (d + delta e)) (out_from es bs (edit_end e))"
    by (rule Cons.IH [OF o(3) _ d]) (use k2 in \<open>simp add: edit_end_def\<close>)
  then show ?case
    unfolding carry_loop.simps Let_def mid ed by (simp add: at inserted_starts_ends)
qed

lemma carried_line_starts_spec:
  assumes "edits_valid es bs"
  shows "carried_line_starts (starts_spec bs) es = starts_spec (apply_to es bs)"
proof -
  have "from_ok es 0 (length bs)" using assms by (simp add: edits_valid_def from_okI)
  then show ?thesis
    using carry_loop_ends [of es 0 bs 1 "starts_spec bs" 0 "[0]"]
    by (simp add: carried_line_starts_def starts_spec_def apply_to_out shifted_def)
qed

section \<open>Lookups\<close>

lemma row_in_spec: "row_in (starts_spec bs) (min at (length bs)) = line_of bs at"
proof -
  let ?q = "min at (length bs)"
  have "takeWhile (\<lambda>s. s \<le> ?q) (ends_from 0 bs) = ends_from 0 (take ?q bs)"
    using ends_from_takeWhile(2) [of 0 ?q bs] by (simp add: slice_0)
  then have "partition_point (\<lambda>s. s \<le> ?q) (starts_spec bs) = Suc (count_newlines (take ?q bs))"
    by (simp add: partition_point_def starts_spec_def)
  then show ?thesis by (simp add: row_in_def line_of_def)
qed

section \<open>Properties\<close>

text \<open>The table of line starts is the same list however it is made: the scan through 64-bit newline masks
  (\<^verbatim>\<open>line_starts_of\<close>) and carrying the old table through a valid edit list (\<^verbatim>\<open>carried_line_starts\<close>)
  both give byte 0 and the byte after every newline of the text, and a row looked up in it is the row the
  scan of \<^verbatim>\<open>pos::line_of\<close> counts.\<close>

theorem line_starts_carried:
  assumes "edits_valid es bs"
  shows "carried_line_starts (line_starts_of bs) es = line_starts_of (apply_to es bs) \<and>
    line_starts_of bs = starts_spec bs \<and> row_in (line_starts_of bs) (min at (length bs)) = line_of bs at"
  using carried_line_starts_spec [OF assms] row_in_spec [of bs at] by (simp add: line_starts_of_spec)

theorem line_starts_carried_witness:
  "carried_line_starts (line_starts_of [97, 10, 98, 10, 99]) [edit_replace 1 2 [10, 10, 120]] =
     line_starts_of (apply_to [edit_replace 1 2 [10, 10, 120]] [97, 10, 98, 10, 99])"
proof -
  have "edits_valid [edit_replace 1 2 [10, 10, 120]] [97, 10, 98, 10, 99]"
    by (simp add: edits_valid_def edits_wf_def changes_something_def edit_replace_def edit_end_def)
  from line_starts_carried [OF this, of 0] show ?thesis by (rule conjunct1)
qed

end
