(* ===== verification/Line_Index.thy ===== *)
theory Line_Index
  imports Line_Starts
begin

text \<open>
  The frontend's line index, \<^verbatim>\<open>apps/tui/src/line_index.rs\<close>: the starts of the lines of one buffer, kept
  for a buffer and a revision and rebuilt when either moves, and one such index for each buffer
  shown in a pane.
\<close>

section \<open>One index\<close>

type_synonym document_key = "u64 \<times> revision"

record line_index =
  li_rev :: "document_key option"
  li_starts :: "nat list"
  li_len :: nat
  li_builds :: u64

definition index_default :: line_index where
  "index_default = \<lparr>li_rev = None, li_starts = [], li_len = 0, li_builds = 0\<rparr>"

fun push_starts :: "nat \<Rightarrow> bytes \<Rightarrow> nat list \<Rightarrow> nat list" where
  "push_starts i [] acc = acc"
| "push_starts i (b # bs) acc = push_starts (i + 1) bs (if b = newline then acc @ [i + 1] else acc)"

definition refresh_for :: "line_index \<Rightarrow> u64 \<Rightarrow> revision \<Rightarrow> bytes \<Rightarrow> line_index" where
  "refresh_for ix doc rv bs =
     (if li_rev ix = Some (doc, rv) then ix
      else \<lparr>li_rev = Some (doc, rv), li_starts = push_starts 0 bs [0], li_len = length bs,
            li_builds = li_builds ix + 1\<rparr>)"

definition li_refresh :: "line_index \<Rightarrow> revision \<Rightarrow> bytes \<Rightarrow> line_index" where
  "li_refresh ix rv bs = refresh_for ix 0 rv bs"

definition li_line_of :: "line_index \<Rightarrow> nat \<Rightarrow> nat" where
  "li_line_of ix byte = partition_point (\<lambda>s. s \<le> byte) (li_starts ix) - 1"

definition li_nth_line_start :: "line_index \<Rightarrow> nat \<Rightarrow> nat" where
  "li_nth_line_start ix line = (case get_at (li_starts ix) line of Some s \<Rightarrow> s | None \<Rightarrow> li_len ix)"

section \<open>The panes\<close>

type_synonym pane_indexes = "u64 \<rightharpoonup> line_index"

definition panes_refresh :: "pane_indexes \<Rightarrow> u64 \<Rightarrow> revision \<Rightarrow> bytes \<Rightarrow> pane_indexes" where
  "panes_refresh m doc rv bs =
     m(doc \<mapsto> refresh_for (case m doc of Some ix \<Rightarrow> ix | None \<Rightarrow> index_default) doc rv bs)"

definition panes_get :: "pane_indexes \<Rightarrow> u64 \<Rightarrow> revision \<Rightarrow> line_index option" where
  "panes_get m doc rv =
     (case m doc of Some ix \<Rightarrow> if li_rev ix = Some (doc, rv) then Some ix else None | None \<Rightarrow> None)"

definition panes_retain :: "pane_indexes \<Rightarrow> (u64 \<Rightarrow> bool) \<Rightarrow> pane_indexes" where
  "panes_retain m shown = m |` Collect shown"

section \<open>The index answers as a scan\<close>

lemma push_starts_spec: "push_starts i bs acc = acc @ ends_from i bs"
  by (induction i bs acc rule: push_starts.induct) simp_all

definition indexes :: "line_index \<Rightarrow> bytes \<Rightarrow> bool" where
  "indexes ix bs \<longleftrightarrow> li_starts ix = starts_spec bs \<and> li_len ix = length bs"

lemma starts_below: "s \<in> set (starts_spec bs) \<Longrightarrow> s \<le> length bs"
  by (auto simp: starts_spec_def dest: ends_from_bounds)

lemma partition_point_cong:
  "(\<And>x. x \<in> set xs \<Longrightarrow> P x = Q x) \<Longrightarrow> partition_point P xs = partition_point Q xs"
  unfolding partition_point_def by (induction xs) auto

lemma indexes_lookups:
  assumes "indexes ix bs"
  shows "li_line_of ix byte = line_of bs byte" "li_nth_line_start ix n = nth_line_start bs n"
proof -
  have "partition_point (\<lambda>s. s \<le> byte) (starts_spec bs) = partition_point (\<lambda>s. s \<le> min byte (length bs)) (starts_spec bs)"
    by (rule partition_point_cong) (use starts_below in auto)
  then show "li_line_of ix byte = line_of bs byte"
    using row_in_spec [of bs byte] assms by (simp add: li_line_of_def indexes_def row_in_def)
  show "li_nth_line_start ix n = nth_line_start bs n"
    using assms by (simp add: li_nth_line_start_def indexes_def nth_line_start_spec get_at_def)
qed

text \<open>
  The steps of the panes when a revision of a buffer names one text, which \<open>tx\<close> gives.
\<close>

inductive panes_run :: "(u64 \<Rightarrow> revision \<Rightarrow> bytes) \<Rightarrow> pane_indexes \<Rightarrow> bool" for tx where
  panes_empty: "panes_run tx Map.empty"
| panes_shown: "panes_run tx m \<Longrightarrow> panes_run tx (panes_refresh m doc rv (tx doc rv))"
| panes_kept: "panes_run tx m \<Longrightarrow> panes_run tx (panes_retain m shown)"

definition panes_ok :: "(u64 \<Rightarrow> revision \<Rightarrow> bytes) \<Rightarrow> pane_indexes \<Rightarrow> bool" where
  "panes_ok tx m \<longleftrightarrow> (\<forall>doc ix. m doc = Some ix \<longrightarrow> (\<exists>rv. li_rev ix = Some (doc, rv) \<and> indexes ix (tx doc rv)))"

lemma refresh_for_ok:
  assumes "li_rev ix = None \<or> (\<exists>rv'. li_rev ix = Some (doc, rv') \<and> indexes ix (tx doc rv'))"
  shows "li_rev (refresh_for ix doc rv (tx doc rv)) = Some (doc, rv)"
    "indexes (refresh_for ix doc rv (tx doc rv)) (tx doc rv)"
  using assms by (auto simp: refresh_for_def indexes_def push_starts_spec starts_spec_def)

lemma panes_run_ok: "panes_run tx m \<Longrightarrow> panes_ok tx m"
proof (induction rule: panes_run.induct)
  case (panes_shown m doc rv)
  let ?ix = "case m doc of Some ix \<Rightarrow> ix | None \<Rightarrow> index_default"
  have "li_rev ?ix = None \<or> (\<exists>rv'. li_rev ?ix = Some (doc, rv') \<and> indexes ?ix (tx doc rv'))"
    using panes_shown.IH by (auto simp: panes_ok_def index_default_def split: option.split)
  from refresh_for_ok [where tx = tx, OF this] show ?case
    using panes_shown.IH by (auto simp: panes_ok_def panes_refresh_def)
qed (auto simp: panes_ok_def panes_retain_def restrict_map_def split: if_splits)

text \<open>
  C38: While a revision of a buffer names one text, every index the panes hand out for it answers
  as the scans of that text do, whatever was shown, refreshed or dropped before; and an index
  just refreshed is there.\<close>

theorem line_index_exact:
  assumes "panes_run tx m"
  shows "(\<forall>doc rv ix. panes_get m doc rv = Some ix \<longrightarrow>
      (\<forall>byte. li_line_of ix byte = line_of (tx doc rv) byte)
      \<and> (\<forall>n. li_nth_line_start ix n = nth_line_start (tx doc rv) n))
    \<and> (\<forall>doc rv. panes_get (panes_refresh m doc rv (tx doc rv)) doc rv \<noteq> None)"
proof -
  have "indexes ix (tx doc rv)" if "panes_get m doc rv = Some ix" for doc rv ix
    using panes_run_ok [OF assms] that
    by (fastforce simp: panes_ok_def panes_get_def split: option.splits if_splits)
  moreover have "panes_get (panes_refresh m doc rv (tx doc rv)) doc rv \<noteq> None" for doc rv
    by (simp add: panes_get_def panes_refresh_def refresh_for_def)
  ultimately show ?thesis using indexes_lookups by blast
qed

theorem line_index_exact_witness:
  "\<exists>ix. panes_get (panes_refresh Map.empty 3 1 [97, 10, 98]) 3 1 = Some ix \<and> li_nth_line_start ix 1 = 2
     \<and> li_nth_line_start ix 1 = nth_line_start [97, 10, 98] 1"
proof -
  let ?tx = "\<lambda>_ _. [97, 10, 98] :: bytes"
  have run: "panes_run ?tx (panes_refresh Map.empty 3 1 [97, 10, 98])" by (rule panes_shown [OF panes_empty])
  obtain ix where ix: "panes_get (panes_refresh Map.empty 3 1 [97, 10, 98]) 3 1 = Some ix"
    by (simp add: panes_get_def panes_refresh_def refresh_for_def index_default_def)
  moreover have "li_nth_line_start ix 1 = 2"
    using ix by (auto simp: panes_get_def panes_refresh_def refresh_for_def index_default_def
        li_nth_line_start_def get_at_def)
  moreover have "li_nth_line_start ix 1 = nth_line_start [97, 10, 98] 1"
    using line_index_exact [OF run] ix by blast
  ultimately show ?thesis by blast
qed

end
