(* ===== verification/Transactions.thy ===== *)
theory Transactions
  imports Edits
begin

text \<open>
  The transaction, the only sanctioned way to change a document (\<^verbatim>\<open>crates/core/src/transaction.rs\<close>): a
  disjoint edit list against a base revision, with its origin and its undo-grouping hint.
\<close>

datatype transaction_origin = UserInput | Macro | Plugin | Lsp | AiAgent | RemotePeer

datatype group_hint = Continue | BreakBefore | JoinPrev

record transaction =
  t_base_revision :: revision
  t_edits :: edit_list
  t_origin :: transaction_origin
  t_group_hint :: group_hint
  t_cursor :: "nat option"

definition transaction_new :: "revision \<Rightarrow> edit_list \<Rightarrow> transaction_origin \<Rightarrow> transaction" where
  "transaction_new base es origin =
     \<lparr>t_base_revision = base, t_edits = es, t_origin = origin, t_group_hint = Continue, t_cursor = None\<rparr>"

definition with_cursor :: "transaction \<Rightarrow> nat \<Rightarrow> transaction" where
  "with_cursor txn c = txn\<lparr>t_cursor := Some c\<rparr>"

definition with_hint :: "transaction \<Rightarrow> group_hint \<Rightarrow> transaction" where
  "with_hint txn hint = txn\<lparr>t_group_hint := hint\<rparr>"

lemma transaction_new_sel [simp]:
  "t_base_revision (transaction_new b es og) = b" "t_edits (transaction_new b es og) = es"
  "t_origin (transaction_new b es og) = og" "t_group_hint (transaction_new b es og) = Continue"
  "t_cursor (transaction_new b es og) = None"
  by (simp_all add: transaction_new_def)

lemma with_sel [simp]:
  "t_base_revision (with_cursor t c) = t_base_revision t" "t_edits (with_cursor t c) = t_edits t"
  "t_origin (with_cursor t c) = t_origin t" "t_group_hint (with_cursor t c) = t_group_hint t"
  "t_cursor (with_cursor t c) = Some c"
  "t_base_revision (with_hint t h) = t_base_revision t" "t_edits (with_hint t h) = t_edits t"
  "t_origin (with_hint t h) = t_origin t" "t_group_hint (with_hint t h) = h"
  "t_cursor (with_hint t h) = t_cursor t"
  by (simp_all add: with_cursor_def with_hint_def)

end
