(* ===== verification/Undo_History.thy ===== *)
theory Undo_History
  imports Transactions
begin

text \<open>
  The branching undo history (\<^verbatim>\<open>crates/core/src/undo.rs\<close>): nodes in creation order with parent and child
  edges, logical groups, and three walks: \<open>undo\<close> and \<open>redo\<close> along the tree, \<open>to_chronological\<close> along
  creation order.  The history only stores changes and never looks into them, so it is polymorphic in the
  change type; inside the locale \<open>edit_algebra\<close> a walk is shown to lead from the text of the node it leaves
  to the text of the node it reaches.

  A node is named by its index.  The loops over parent or child edges carry fuel, the number of nodes: an
  exhausted loop, and a missing edit list (the \<^verbatim>\<open>expect\<close>s of the source), is \<open>None\<close>.  The lemmas show that
  under the source's own invariant walker neither happens.
\<close>

section \<open>State\<close>

record 'ch undo_node =
  n_parent :: "nat option"
  n_children :: "nat list"
  n_seq :: nat
  n_group :: nat
  n_forward :: "'ch option"
  n_inverse :: "'ch option"
  n_origin :: "transaction_origin option"
  n_result_revision :: revision
  n_redo_child :: "nat option"
  n_cursor :: nat

record 'ch undo_step =
  s_edits :: "'ch list"
  s_groups :: "nat list"
  s_nodes :: "(nat \<times> transaction_origin option) list"
  s_tail :: nat
  s_forward :: bool
  s_cursor :: nat

record 'ch undo_history =
  h_nodes :: "'ch undo_node list"
  h_current :: nat
  h_chronological :: "nat list"
  h_next_seq :: nat
  h_next_group :: nat
  h_last_was_nav :: bool
  h_synced :: bool

abbreviation node :: "'ch undo_history \<Rightarrow> nat \<Rightarrow> 'ch undo_node" where
  "node h i \<equiv> h_nodes h ! i"

definition history_new :: "revision \<Rightarrow> 'ch undo_history" where
  "history_new base_revision =
     \<lparr>h_nodes = [\<lparr>n_parent = None, n_children = [], n_seq = 0, n_group = 0, n_forward = None,
                  n_inverse = None, n_origin = None, n_result_revision = base_revision,
                  n_redo_child = None, n_cursor = 0\<rparr>],
      h_current = 0, h_chronological = [0], h_next_seq = 1, h_next_group = 1,
      h_last_was_nav = False, h_synced = False\<rparr>"

definition sync :: "'ch undo_history \<Rightarrow> 'ch undo_history" where
  "sync h = h\<lparr>h_synced := True\<rparr>"

definition is_synced :: "'ch undo_history \<Rightarrow> bool" where
  "is_synced h = h_synced h"

section \<open>Recording\<close>

definition fresh_group :: "'ch undo_history \<Rightarrow> nat \<times> 'ch undo_history" where
  "fresh_group h = (h_next_group h, h\<lparr>h_next_group := h_next_group h + 1\<rparr>)"

definition group_for :: "'ch undo_history \<Rightarrow> transaction_origin \<Rightarrow> group_hint \<Rightarrow> nat \<times> 'ch undo_history" where
  "group_for h origin hint =
     (let cur = node h (h_current h);
          mergeable = n_parent cur \<noteq> None \<and> \<not> h_last_was_nav h
      in case hint of
           BreakBefore \<Rightarrow> fresh_group h
         | JoinPrev \<Rightarrow> if mergeable then (n_group cur, h) else fresh_group h
         | Continue \<Rightarrow> if mergeable \<and> \<not> h_synced h \<and> n_origin cur = Some origin then (n_group cur, h)
                       else fresh_group h)"

definition set_redo_child :: "nat \<Rightarrow> nat \<Rightarrow> 'ch undo_history \<Rightarrow> 'ch undo_history" where
  "set_redo_child p c h = h\<lparr>h_nodes := (h_nodes h)[p := (node h p)\<lparr>n_redo_child := Some c\<rparr>]\<rparr>"

definition record_change ::
  "'ch undo_history \<Rightarrow> 'ch \<Rightarrow> 'ch \<Rightarrow> transaction_origin \<Rightarrow> group_hint \<Rightarrow> revision \<Rightarrow> nat \<Rightarrow> 'ch undo_history" where
  "record_change h fwd bwd origin hint result_revision cursor =
     (let (grp, h1) = group_for h origin hint;
          i = length (h_nodes h1);
          p = h_current h1;
          nd = \<lparr>n_parent = Some p, n_children = [], n_seq = h_next_seq h1, n_group = grp,
                n_forward = Some fwd, n_inverse = Some bwd, n_origin = Some origin,
                n_result_revision = result_revision, n_redo_child = None, n_cursor = cursor\<rparr>;
          ns = h_nodes h1 @ [nd];
          ns' = ns[p := (ns ! p)\<lparr>n_children := n_children (ns ! p) @ [i], n_redo_child := Some i\<rparr>]
      in h1\<lparr>h_nodes := ns', h_next_seq := h_next_seq h1 + 1, h_current := i,
            h_chronological := h_chronological h1 @ [i], h_last_was_nav := False, h_synced := False\<rparr>)"

definition can_undo :: "'ch undo_history \<Rightarrow> bool" where
  "can_undo h \<longleftrightarrow> n_parent (node h (h_current h)) \<noteq> None"

definition can_redo :: "'ch undo_history \<Rightarrow> bool" where
  "can_redo h \<longleftrightarrow> n_children (node h (h_current h)) \<noteq> []"

section \<open>Walking the tree\<close>

type_synonym 'ch walk = "'ch list \<times> nat list \<times> (nat \<times> transaction_origin option) list \<times> nat"

fun undo_loop :: "nat \<Rightarrow> nat \<Rightarrow> 'ch undo_history \<Rightarrow> 'ch walk \<Rightarrow> ('ch undo_history \<times> 'ch walk) option" where
  "undo_loop 0 grp h w = None"
| "undo_loop (Suc fuel) grp h (out, groups, ns, cursor) =
     (let nd = node h (h_current h) in
      case n_parent nd of
        None \<Rightarrow> Some (h, out, groups, ns, cursor)
      | Some p \<Rightarrow>
          if n_group nd \<noteq> grp then Some (h, out, groups, ns, cursor)
          else case n_inverse nd of
            None \<Rightarrow> None
          | Some i \<Rightarrow>
              undo_loop fuel grp ((set_redo_child p (h_current h) h)\<lparr>h_current := p\<rparr>)
                (out @ [i], groups @ [grp], ns @ [(n_seq (node h p), n_origin nd)], n_cursor nd))"

definition undo :: "'ch undo_history \<Rightarrow> ('ch undo_step \<times> 'ch undo_history) option" where
  "undo h =
     (if n_parent (node h (h_current h)) = None then None
      else case undo_loop (length (h_nodes h)) (n_group (node h (h_current h))) h ([], [], [], 0) of
        None \<Rightarrow> None
      | Some (h', out, groups, ns, cursor) \<Rightarrow>
          Some (\<lparr>s_edits = out, s_groups = groups, s_nodes = ns, s_tail = 0, s_forward = False,
                 s_cursor = cursor\<rparr>, h'\<lparr>h_last_was_nav := True\<rparr>))"

definition redo_target :: "'ch undo_history \<Rightarrow> nat \<Rightarrow> nat option" where
  "redo_target h n =
     (case n_redo_child (node h n) of Some c \<Rightarrow> Some c | None \<Rightarrow> last_opt (n_children (node h n)))"

fun redo_loop :: "nat \<Rightarrow> nat \<Rightarrow> nat \<Rightarrow> 'ch undo_history \<Rightarrow> 'ch walk \<Rightarrow> ('ch undo_history \<times> 'ch walk) option" where
  "redo_loop 0 grp n h w = None"
| "redo_loop (Suc fuel) grp n h (out, groups, ns, cursor) =
     (case n_forward (node h n) of
        None \<Rightarrow> None
      | Some f \<Rightarrow>
          let h' = h\<lparr>h_current := n\<rparr>;
              w' = (out @ [f], groups @ [grp], ns @ [(n_seq (node h n), n_origin (node h n))], cursor)
          in case redo_target h n of
               Some c \<Rightarrow> if n_group (node h c) = grp then redo_loop fuel grp c h' w' else Some (h', w')
             | None \<Rightarrow> Some (h', w'))"

definition redo :: "'ch undo_history \<Rightarrow> ('ch undo_step \<times> 'ch undo_history) option" where
  "redo h =
     (case redo_target h (h_current h) of
        None \<Rightarrow> None
      | Some first \<Rightarrow>
          (case redo_loop (length (h_nodes h)) (n_group (node h first)) first h ([], [], [], 0) of
             None \<Rightarrow> None
           | Some (h', out, groups, ns, _) \<Rightarrow>
               Some (\<lparr>s_edits = out, s_groups = groups, s_nodes = ns, s_tail = 0, s_forward = True,
                      s_cursor = n_cursor (node h first)\<rparr>, h'\<lparr>h_last_was_nav := True\<rparr>)))"

fun ancestry_loop :: "nat \<Rightarrow> 'ch undo_history \<Rightarrow> nat \<Rightarrow> nat list \<Rightarrow> nat list option" where
  "ancestry_loop 0 h n v = None"
| "ancestry_loop (Suc fuel) h n v =
     (case n_parent (node h n) of None \<Rightarrow> Some v | Some p \<Rightarrow> ancestry_loop fuel h p (v @ [p]))"

definition ancestry :: "'ch undo_history \<Rightarrow> nat \<Rightarrow> nat list option" where
  "ancestry h n = ancestry_loop (length (h_nodes h)) h n [n]"

text \<open>The walk from the target up to the first ancestor of the current node, keeping the path below it.\<close>

fun lca_loop :: "nat \<Rightarrow> 'ch undo_history \<Rightarrow> nat list \<Rightarrow> nat \<Rightarrow> nat list \<Rightarrow> (nat \<times> nat list) option" where
  "lca_loop 0 h anc n down = None"
| "lca_loop (Suc fuel) h anc n down =
     (if n \<in> set anc then Some (n, down)
      else case n_parent (node h n) of
        Some p \<Rightarrow> lca_loop fuel h anc p (down @ [n])
      | None \<Rightarrow> Some (n, down @ [n]))"

text \<open>
  The accumulator of a navigation: the lists of the step, the index where the last group crossed begins, its
  cursor, and the group being crossed.
\<close>

type_synonym 'ch nav = "'ch list \<times> nat list \<times> (nat \<times> transaction_origin option) list \<times> nat \<times> nat \<times> nat option"

fun up_loop :: "nat \<Rightarrow> nat \<Rightarrow> nat \<Rightarrow> 'ch undo_history \<Rightarrow> 'ch nav \<Rightarrow> ('ch undo_history \<times> 'ch nav) option" where
  "up_loop 0 lca c h w = None"
| "up_loop (Suc fuel) lca c h (out, groups, ns, tail, cursor, grp) =
     (if c = lca then Some (h, out, groups, ns, tail, cursor, grp)
      else
        let nd = node h c;
            tail' = (if grp \<noteq> Some (n_group nd) then length out else tail)
        in case (n_inverse nd, n_parent nd) of
             (Some i, Some p) \<Rightarrow>
               up_loop fuel lca p (set_redo_child p c h)
                 (out @ [i], groups @ [n_group nd], ns @ [(n_seq (node h p), n_origin nd)],
                  tail', n_cursor nd, Some (n_group nd))
           | _ \<Rightarrow> None)"

fun down_loop :: "nat list \<Rightarrow> 'ch undo_history \<Rightarrow> 'ch nav \<Rightarrow> ('ch undo_history \<times> 'ch nav) option" where
  "down_loop [] h w = Some (h, w)"
| "down_loop (n # path) h (out, groups, ns, tail, cursor, grp) =
     (let h' = (case n_parent (node h n) of Some p \<Rightarrow> set_redo_child p n h | None \<Rightarrow> h);
          nd = node h' n;
          new_group = (grp \<noteq> Some (n_group nd))
      in case n_forward nd of
           None \<Rightarrow> None
         | Some f \<Rightarrow>
             down_loop path h'
               (out @ [f], groups @ [n_group nd], ns @ [(n_seq nd, n_origin nd)],
                if new_group then length out else tail,
                if new_group then n_cursor nd else cursor,
                Some (n_group nd)))"

definition navigate_to :: "'ch undo_history \<Rightarrow> nat \<Rightarrow> ('ch undo_step \<times> 'ch undo_history) option" where
  "navigate_to h target =
     (if target = h_current h then None
      else case ancestry h (h_current h) of
        None \<Rightarrow> None
      | Some anc \<Rightarrow>
        (case lca_loop (length (h_nodes h)) h anc target [] of
           None \<Rightarrow> None
         | Some (lca, down) \<Rightarrow>
           (case up_loop (length (h_nodes h)) lca (h_current h) h ([], [], [], 0, 0, None) of
              None \<Rightarrow> None
            | Some (h1, out, groups, ns, tail, cursor, _) \<Rightarrow>
              (case down_loop (rev down) h1 (out, groups, ns, tail, cursor, None) of
                 None \<Rightarrow> None
               | Some (h2, out', groups', ns', tail', cursor', _) \<Rightarrow>
                   Some (\<lparr>s_edits = out', s_groups = groups', s_nodes = ns', s_tail = tail',
                          s_forward = (down \<noteq> []), s_cursor = cursor'\<rparr>,
                         h2\<lparr>h_current := target, h_last_was_nav := True\<rparr>)))))"

definition group_tips :: "'ch undo_history \<Rightarrow> nat list" where
  "group_tips h =
     map (\<lambda>i. h_chronological h ! i)
       (filter (\<lambda>i. case get_at (h_chronological h) (i + 1) of
                     Some nx \<Rightarrow> n_group (node h nx) \<noteq> n_group (node h (h_chronological h ! i))
                   | None \<Rightarrow> True)
         [0..<length (h_chronological h)])"

definition to_chronological :: "'ch undo_history \<Rightarrow> bool \<Rightarrow> ('ch undo_step \<times> 'ch undo_history) option" where
  "to_chronological h older =
     (let tips = group_tips h in
      case position (\<lambda>i. i = h_current h) tips of
        None \<Rightarrow> None
      | Some p \<Rightarrow>
          (case (if older then (if p = 0 then None else Some (p - 1))
                 else if p + 1 < length tips then Some (p + 1) else None) of
             None \<Rightarrow> None
           | Some t \<Rightarrow> navigate_to h (tips ! t)))"

section \<open>Observers\<close>

definition current_seq :: "'ch undo_history \<Rightarrow> nat" where
  "current_seq h = n_seq (node h (h_current h))"

definition current_result_revision :: "'ch undo_history \<Rightarrow> revision" where
  "current_result_revision h = n_result_revision (node h (h_current h))"

definition current_group :: "'ch undo_history \<Rightarrow> nat" where
  "current_group h = n_group (node h (h_current h))"

definition node_count :: "'ch undo_history \<Rightarrow> nat" where
  "node_count h = length (h_nodes h)"

definition issued_group :: "'ch undo_history \<Rightarrow> nat \<Rightarrow> bool" where
  "issued_group h g \<longleftrightarrow> g < h_next_group h"

definition has_seq :: "'ch undo_history \<Rightarrow> nat \<Rightarrow> bool" where
  "has_seq h s \<longleftrightarrow> list_ex (\<lambda>n. n_seq n = s) (h_nodes h)"

definition creation_order :: "'ch undo_history \<Rightarrow> (nat \<times> transaction_origin option \<times> nat) list" where
  "creation_order h =
     map (\<lambda>i. (n_seq (node h i), n_origin (node h i), n_group (node h i))) (h_chronological h)"

section \<open>The invariant walker\<close>

definition node_invariants :: "'ch undo_history \<Rightarrow> nat \<Rightarrow> bool" where
  "node_invariants h i \<longleftrightarrow>
     n_group (node h i) < h_next_group h \<and>
     (i \<noteq> 0 \<longrightarrow>
        (case n_parent (node h i) of
           None \<Rightarrow> False
         | Some p \<Rightarrow> p < i \<and> i \<in> set (n_children (node h p))) \<and>
        n_seq (node h (i - 1)) < n_seq (node h i) \<and> n_seq (node h i) < h_next_seq h \<and>
        n_forward (node h i) \<noteq> None \<and> n_inverse (node h i) \<noteq> None)"

definition edge_invariants :: "'ch undo_history \<Rightarrow> nat \<Rightarrow> bool" where
  "edge_invariants h i \<longleftrightarrow>
     list_all (\<lambda>c. c < length (h_nodes h) \<and> n_parent (node h c) = Some i) (n_children (node h i))"

definition redo_invariant :: "'ch undo_history \<Rightarrow> nat \<Rightarrow> bool" where
  "redo_invariant h i \<longleftrightarrow>
     (case n_redo_child (node h i) of None \<Rightarrow> True | Some r \<Rightarrow> r \<in> set (n_children (node h i)))"

definition assert_invariants :: "'ch undo_history \<Rightarrow> bool" where
  "assert_invariants h \<longleftrightarrow>
     h_current h < length (h_nodes h) \<and> n_parent (node h 0) = None \<and>
     h_chronological h = [0..<length (h_nodes h)] \<and>
     (\<forall>i < length (h_nodes h). node_invariants h i \<and> edge_invariants h i \<and> redo_invariant h i)"

section \<open>Histories that differ only in their redo targets and their current node\<close>

definition erase_node :: "'ch undo_node \<Rightarrow> 'ch undo_node" where
  "erase_node n = n\<lparr>n_redo_child := None\<rparr>"

definition same_tree :: "'ch undo_history \<Rightarrow> 'ch undo_history \<Rightarrow> bool" where
  "same_tree h h' \<longleftrightarrow> map erase_node (h_nodes h) = map erase_node (h_nodes h') \<and>
     h_chronological h = h_chronological h' \<and> h_next_seq h = h_next_seq h' \<and>
     h_next_group h = h_next_group h' \<and> h_synced h = h_synced h'"

lemma same_tree_refl [simp, intro]: "same_tree h h"
  by (simp add: same_tree_def)

lemma same_tree_trans [trans]: "same_tree h h' \<Longrightarrow> same_tree h' h'' \<Longrightarrow> same_tree h h''"
  by (simp add: same_tree_def)

lemma same_tree_sym: "same_tree h h' \<Longrightarrow> same_tree h' h"
  by (simp add: same_tree_def)

lemma same_tree_length: "same_tree h h' \<Longrightarrow> length (h_nodes h') = length (h_nodes h)"
  unfolding same_tree_def by (metis length_map)

lemma same_tree_updates [simp]:
  "same_tree h (h'\<lparr>h_current := c\<rparr>) = same_tree h h'"
  "same_tree h (h'\<lparr>h_last_was_nav := b\<rparr>) = same_tree h h'"
  by (simp_all add: same_tree_def)

lemma same_tree_node:
  assumes "same_tree h h'" "i < length (h_nodes h)"
  shows "n_parent (node h' i) = n_parent (node h i)" "n_children (node h' i) = n_children (node h i)"
    "n_seq (node h' i) = n_seq (node h i)" "n_group (node h' i) = n_group (node h i)"
    "n_forward (node h' i) = n_forward (node h i)" "n_inverse (node h' i) = n_inverse (node h i)"
    "n_origin (node h' i) = n_origin (node h i)" "n_cursor (node h' i) = n_cursor (node h i)"
proof -
  have "erase_node (node h i) = erase_node (node h' i)"
    using assms same_tree_length [OF assms(1)] unfolding same_tree_def by (metis nth_map)
  then show "n_parent (node h' i) = n_parent (node h i)" "n_children (node h' i) = n_children (node h i)"
    "n_seq (node h' i) = n_seq (node h i)" "n_group (node h' i) = n_group (node h i)"
    "n_forward (node h' i) = n_forward (node h i)" "n_inverse (node h' i) = n_inverse (node h i)"
    "n_origin (node h' i) = n_origin (node h i)" "n_cursor (node h' i) = n_cursor (node h i)"
    by (cases "node h i"; cases "node h' i"; simp add: erase_node_def)+
qed

lemma set_redo_child_simps [simp]:
  "h_current (set_redo_child p c h) = h_current h"
  "h_last_was_nav (set_redo_child p c h) = h_last_was_nav h"
  "length (h_nodes (set_redo_child p c h)) = length (h_nodes h)"
  by (simp_all add: set_redo_child_def)

lemma same_tree_set_redo_child [simp]: "same_tree h (set_redo_child p c h)"
proof -
  have "map erase_node ((h_nodes h)[p := (node h p)\<lparr>n_redo_child := Some c\<rparr>]) = map erase_node (h_nodes h)"
  proof (cases "p < length (h_nodes h)")
    case True
    have "erase_node ((node h p)\<lparr>n_redo_child := Some c\<rparr>) = map erase_node (h_nodes h) ! p"
      using True by (simp add: erase_node_def)
    then show ?thesis by (simp add: map_update)
  qed (simp add: list_update_beyond)
  then show ?thesis by (simp add: same_tree_def set_redo_child_def)
qed

lemma redo_child_set:
  "n_redo_child (node (set_redo_child p c h) i) =
     (if i = p \<and> p < length (h_nodes h) then Some c else n_redo_child (node h i))"
  by (cases "i = p"; cases "p < length (h_nodes h)") (simp_all add: set_redo_child_def list_update_beyond)

section \<open>The invariant, in parts\<close>

definition tree_inv :: "'ch undo_history \<Rightarrow> bool" where
  "tree_inv h \<longleftrightarrow> h_nodes h \<noteq> [] \<and> n_parent (node h 0) = None \<and>
     h_chronological h = [0..<length (h_nodes h)] \<and>
     (\<forall>i < length (h_nodes h). node_invariants h i \<and> edge_invariants h i)"

definition redo_ok :: "'ch undo_history \<Rightarrow> bool" where
  "redo_ok h \<longleftrightarrow> (\<forall>i < length (h_nodes h). redo_invariant h i)"

lemma assert_invariants_iff:
  "assert_invariants h \<longleftrightarrow> tree_inv h \<and> redo_ok h \<and> h_current h < length (h_nodes h)"
  unfolding assert_invariants_def tree_inv_def redo_ok_def by auto

lemma tree_parent:
  assumes "tree_inv h" "i < length (h_nodes h)" "i \<noteq> 0"
  obtains p f b where "n_parent (node h i) = Some p" "p < i" "i \<in> set (n_children (node h p))"
    "n_forward (node h i) = Some f" "n_inverse (node h i) = Some b"
proof -
  have "node_invariants h i" using assms by (simp add: tree_inv_def)
  with assms(3) that show thesis by (auto simp: node_invariants_def split: option.splits)
qed

lemma tree_root: "tree_inv h \<Longrightarrow> n_parent (node h 0) = None"
  by (simp add: tree_inv_def)

lemma tree_parent_iff:
  assumes "tree_inv h" "i < length (h_nodes h)"
  shows "n_parent (node h i) = None \<longleftrightarrow> i = 0"
  using assms tree_parent [OF assms] tree_root [OF assms(1)] by (metis option.distinct(1))

lemma tree_parentD:
  assumes "tree_inv h" "i < length (h_nodes h)" "n_parent (node h i) = Some p"
  shows "p < i" "i \<in> set (n_children (node h p))" "i \<noteq> 0" "p < length (h_nodes h)"
proof -
  show "i \<noteq> 0" using assms tree_root [OF assms(1)] by (metis option.distinct(1))
  with assms show "p < i" "i \<in> set (n_children (node h p))" "p < length (h_nodes h)"
    by (metis tree_parent option.inject less_trans)+
qed

lemma tree_child:
  assumes "tree_inv h" "i < length (h_nodes h)" "c \<in> set (n_children (node h i))"
  shows "c < length (h_nodes h)" "n_parent (node h c) = Some i" "i < c"
proof -
  have "edge_invariants h i" using assms by (simp add: tree_inv_def)
  with assms(3) show c: "c < length (h_nodes h)" "n_parent (node h c) = Some i"
    by (simp_all add: edge_invariants_def list_all_iff)
  from tree_parentD(1) [OF assms(1) this] show "i < c" .
qed

lemma tree_inv_same:
  assumes "same_tree h h'" "tree_inv h"
  shows "tree_inv h'"
proof -
  have len: "length (h_nodes h') = length (h_nodes h)" by (rule same_tree_length [OF assms(1)])
  have other: "h_chronological h' = h_chronological h" "h_next_seq h' = h_next_seq h"
    "h_next_group h' = h_next_group h"
    using assms(1) by (simp_all add: same_tree_def)
  note nd = same_tree_node [OF assms(1)]
  have "node_invariants h' i \<and> edge_invariants h' i" if i: "i < length (h_nodes h)" for i
  proof -
    have e: "edge_invariants h i" and n: "node_invariants h i" using assms(2) i by (simp_all add: tree_inv_def)
    have "edge_invariants h' i" using e i by (auto simp: edge_invariants_def list_all_iff len nd)
    moreover have "node_invariants h' i"
    proof (cases "i = 0")
      case True
      with n i show ?thesis by (simp add: node_invariants_def other nd)
    next
      case False
      then obtain p f b where "n_parent (node h i) = Some p" "p < i" "i \<in> set (n_children (node h p))"
        "n_forward (node h i) = Some f" "n_inverse (node h i) = Some b"
        using tree_parent [OF assms(2) i] by blast
      with n i False show ?thesis by (simp add: node_invariants_def other nd)
    qed
    ultimately show ?thesis by simp
  qed
  then show ?thesis using assms(2) unfolding tree_inv_def len other
    by (metis len length_0_conv length_greater_0_conv nd(1))
qed

lemma redo_ok_set:
  assumes "redo_ok h" "p < length (h_nodes h)" "c \<in> set (n_children (node h p))"
  shows "redo_ok (set_redo_child p c h)"
proof -
  have "redo_invariant (set_redo_child p c h) i" if "i < length (h_nodes h)" for i
    using assms that same_tree_node(2) [OF same_tree_set_redo_child that]
    by (auto simp: redo_ok_def redo_invariant_def redo_child_set split: option.splits)
  then show ?thesis by (simp add: redo_ok_def)
qed

lemma redo_ok_updates [simp]:
  "redo_ok (h\<lparr>h_current := c\<rparr>) = redo_ok h" "redo_ok (h\<lparr>h_last_was_nav := b\<rparr>) = redo_ok h"
  by (simp_all add: redo_ok_def redo_invariant_def cong: option.case_cong)

lemma tree_inv_updates [simp]:
  "tree_inv (h\<lparr>h_current := c\<rparr>) = tree_inv h" "tree_inv (h\<lparr>h_last_was_nav := b\<rparr>) = tree_inv h"
  by (simp_all add: tree_inv_def node_invariants_def edge_invariants_def cong: option.case_cong)

lemma invariants_updates [simp]:
  "assert_invariants (h\<lparr>h_last_was_nav := b\<rparr>) = assert_invariants h"
  by (simp add: assert_invariants_iff)

section \<open>Groups\<close>

text \<open>
  What the walks along groups rely on.  Group numbers never decrease in creation order, and a node that
  shares the group of the node made before it is that node's child; a node is a \<open>tip\<close> when it is the last of
  its group; every change is made on a tip, or extends the group of the newest node.  The current node is a
  tip, and it is the newest node when the last step was a change.
\<close>

definition tip :: "'ch undo_history \<Rightarrow> nat \<Rightarrow> bool" where
  "tip h i \<longleftrightarrow> (Suc i < length (h_nodes h) \<longrightarrow> n_group (node h (Suc i)) \<noteq> n_group (node h i))"

definition group_step :: "'ch undo_history \<Rightarrow> nat \<Rightarrow> bool" where
  "group_step h i \<longleftrightarrow>
     n_group (node h i) < n_group (node h (Suc i)) \<or>
     n_group (node h (Suc i)) = n_group (node h i) \<and> n_parent (node h (Suc i)) = Some i \<and> i \<noteq> 0"

definition parent_tip :: "'ch undo_history \<Rightarrow> nat \<Rightarrow> bool" where
  "parent_tip h i \<longleftrightarrow> (\<forall>p. n_parent (node h i) = Some p \<longrightarrow>
     tip h p \<or> i = Suc p \<and> n_group (node h i) = n_group (node h p))"

definition tree_groups :: "'ch undo_history \<Rightarrow> bool" where
  "tree_groups h \<longleftrightarrow> (\<forall>i. Suc i < length (h_nodes h) \<longrightarrow> group_step h i) \<and>
     (\<forall>i < length (h_nodes h). parent_tip h i) \<and> n_seq (node h 0) < h_next_seq h"

definition hist_inv :: "'ch undo_history \<Rightarrow> bool" where
  "hist_inv h \<longleftrightarrow> assert_invariants h \<and> tree_groups h \<and> tip h (h_current h) \<and>
     (\<not> h_last_was_nav h \<longrightarrow> h_current h = length (h_nodes h) - 1)"

lemma hist_invD:
  assumes "hist_inv h"
  shows "tree_inv h" "redo_ok h" "h_current h < length (h_nodes h)" "tree_groups h" "tip h (h_current h)"
  using assms by (simp_all add: hist_inv_def assert_invariants_iff)

lemma tip_updates [simp]:
  "tip (h\<lparr>h_current := c\<rparr>) = tip h" "tip (h\<lparr>h_last_was_nav := b\<rparr>) = tip h"
  by (simp_all add: tip_def fun_eq_iff)

lemma tip_same: "same_tree h h' \<Longrightarrow> i < length (h_nodes h) \<Longrightarrow> tip h' i = tip h i"
  by (auto simp: tip_def same_tree_node same_tree_length)

lemma tree_groups_same:
  assumes "same_tree h h'" "tree_groups h" "tree_inv h"
  shows "tree_groups h'"
proof -
  note nd = same_tree_node [OF assms(1)] and len = same_tree_length [OF assms(1)]
  have "group_step h' i" if "Suc i < length (h_nodes h)" for i
    using assms(2) that by (simp add: tree_groups_def group_step_def nd)
  moreover have "parent_tip h' i" if "i < length (h_nodes h)" for i
    using assms(2) that tree_parentD(4) [OF assms(3) that] tip_same [OF assms(1)]
    by (auto simp: tree_groups_def parent_tip_def nd)
  moreover have "n_seq (node h' 0) < h_next_seq h'"
    using assms by (simp add: tree_groups_def nd tree_inv_def same_tree_def)
  ultimately show ?thesis by (simp add: tree_groups_def len)
qed

lemma groups_mono:
  assumes "tree_groups h"
  shows "i \<le> j \<Longrightarrow> j < length (h_nodes h) \<Longrightarrow> n_group (node h i) \<le> n_group (node h j)"
proof (induction j)
  case (Suc j)
  show ?case
  proof (cases "i = Suc j")
    case False
    then have "n_group (node h i) \<le> n_group (node h j)" using Suc by simp
    moreover have "group_step h j" using assms Suc.prems by (simp add: tree_groups_def)
    ultimately show ?thesis by (auto simp: group_step_def)
  qed simp
qed simp

lemma seq_less_next:
  assumes "tree_inv h" "tree_groups h" "i < length (h_nodes h)"
  shows "n_seq (node h i) < h_next_seq h"
proof (cases "i = 0")
  case False
  have "node_invariants h i" using assms by (simp add: tree_inv_def)
  with False show ?thesis by (simp add: node_invariants_def)
qed (use assms in \<open>simp add: tree_groups_def\<close>)

section \<open>Recording keeps the invariant\<close>

lemma group_for_nodes [simp]:
  "h_nodes (snd (group_for h og hint)) = h_nodes h"
  "h_current (snd (group_for h og hint)) = h_current h"
  "h_chronological (snd (group_for h og hint)) = h_chronological h"
  "h_next_seq (snd (group_for h og hint)) = h_next_seq h"
  by (auto simp: group_for_def fresh_group_def Let_def split: group_hint.splits)

lemma group_for_group:
  "h_next_group h \<le> h_next_group (snd (group_for h og hint))"
  "n_group (node h (h_current h)) < h_next_group h \<Longrightarrow>
     fst (group_for h og hint) < h_next_group (snd (group_for h og hint))"
  by (auto simp: group_for_def fresh_group_def Let_def split: group_hint.splits)

text \<open>The fields of a recorded history: the new node last, its parent updated, the others as they were.\<close>

lemma record_change_sel:
  assumes "h_current h < length (h_nodes h)" "h' = record_change h f b og hint rv cur"
  shows "length (h_nodes h') = Suc (length (h_nodes h))" "h_current h' = length (h_nodes h)"
    "h_chronological h' = h_chronological h @ [length (h_nodes h)]"
    "h_next_seq h' = h_next_seq h + 1" "h_next_group h' = h_next_group (snd (group_for h og hint))"
    "\<not> h_last_was_nav h'" "\<not> h_synced h'"
    "node h' (length (h_nodes h)) =
       \<lparr>n_parent = Some (h_current h), n_children = [], n_seq = h_next_seq h, n_group = fst (group_for h og hint),
        n_forward = Some f, n_inverse = Some b, n_origin = Some og, n_result_revision = rv,
        n_redo_child = None, n_cursor = cur\<rparr>"
    "\<And>i. i < length (h_nodes h) \<Longrightarrow> i \<noteq> h_current h \<Longrightarrow> node h' i = node h i"
    "node h' (h_current h) = (node h (h_current h))
       \<lparr>n_children := n_children (node h (h_current h)) @ [length (h_nodes h)],
        n_redo_child := Some (length (h_nodes h))\<rparr>"
  using assms(1)
  by (simp_all add: assms(2) record_change_def Let_def split_beta nth_append nth_list_update)

lemma record_change_old:
  assumes "h_current h < length (h_nodes h)" "h' = record_change h f b og hint rv cur" "i < length (h_nodes h)"
  shows "n_parent (node h' i) = n_parent (node h i)" "n_seq (node h' i) = n_seq (node h i)"
    "n_group (node h' i) = n_group (node h i)" "n_forward (node h' i) = n_forward (node h i)"
    "n_inverse (node h' i) = n_inverse (node h i)"
    "n_children (node h' i) = n_children (node h i) @ (if i = h_current h then [length (h_nodes h)] else [])"
    "n_redo_child (node h' i) =
       (if i = h_current h then Some (length (h_nodes h)) else n_redo_child (node h i))"
  using record_change_sel(9,10) [OF assms(1,2)] assms(3) by (cases "i = h_current h"; simp)+

lemma record_change_node_invariants:
  assumes "hist_inv h" "h' = record_change h f b og hint rv cur" "i < Suc (length (h_nodes h))"
  shows "node_invariants h' i" "edge_invariants h' i" "redo_invariant h' i"
proof -
  let ?n = "length (h_nodes h)" and ?c = "h_current h"
  note d = hist_invD [OF assms(1)]
  note sel = record_change_sel [OF d(3) assms(2)] and old = record_change_old [OF d(3) assms(2)]
  have n0: "?n \<noteq> 0" using d(3) by auto
  have grp: "n_group (node h j) < h_next_group h'" if "j < ?n" for j
    using d(1) that group_for_group(1) [of h og hint] sel(5)
    by (auto simp: tree_inv_def node_invariants_def intro: less_le_trans)
  have newgrp: "fst (group_for h og hint) < h_next_group h'"
    using d(1,3) group_for_group(2) [of h og hint] sel(5) by (auto simp: tree_inv_def node_invariants_def)
  consider "i < ?n" | "i = ?n" using assms(3) by linarith
  then have "node_invariants h' i \<and> edge_invariants h' i \<and> redo_invariant h' i"
  proof cases
    case 1
    have e: "edge_invariants h i" and r: "redo_invariant h i" and nv: "node_invariants h i"
      using d(1,2) 1 by (simp_all add: tree_inv_def redo_ok_def)
    have "node_invariants h' i"
    proof (cases "i = 0")
      case True
      then show ?thesis using grp [OF 1] 1 by (simp add: node_invariants_def old)
    next
      case False
      obtain p where "n_parent (node h i) = Some p" "p < i" "i \<in> set (n_children (node h p))"
        using tree_parent [OF d(1) 1 False] by blast
      then show ?thesis using nv 1 False grp [OF 1] by (auto simp: node_invariants_def old sel(4))
    qed
    moreover have "edge_invariants h' i"
      using e 1 sel(8) by (auto simp: edge_invariants_def list_all_iff old sel(1))
    moreover have "redo_invariant h' i"
      using r 1 by (auto simp: redo_invariant_def old split: option.splits)
    ultimately show ?thesis by simp
  next
    case 2
    have "n_seq (node h (?n - 1)) < h_next_seq h" using seq_less_next [OF d(1,4)] n0 by simp
    then show ?thesis using 2 d(3) n0 newgrp sel(8)
      by (simp add: node_invariants_def edge_invariants_def redo_invariant_def old sel(4))
  qed
  then show "node_invariants h' i" "edge_invariants h' i" "redo_invariant h' i" by auto
qed

lemma record_change_invariants:
  assumes "hist_inv h" "h' = record_change h f b og hint rv cur"
  shows "assert_invariants h'"
proof -
  note d = hist_invD [OF assms(1)]
  note sel = record_change_sel [OF d(3) assms(2)] and old = record_change_old [OF d(3) assms(2)]
  have "n_parent (node h' 0) = None" using old(1) [of 0] d(1,3) by (simp add: tree_inv_def)
  moreover have "h_chronological h' = [0..<length (h_nodes h')]"
    using d(1) by (simp add: sel tree_inv_def)
  ultimately show ?thesis
    using record_change_node_invariants [OF assms] by (simp add: assert_invariants_def sel(1,2))
qed

lemma group_for_cases:
  assumes "hist_inv h"
  shows "fst (group_for h og hint) = h_next_group h \<or>
    fst (group_for h og hint) = n_group (node h (h_current h)) \<and>
      h_current h = length (h_nodes h) - 1 \<and> h_current h \<noteq> 0"
proof -
  have "n_parent (node h (h_current h)) \<noteq> None \<Longrightarrow> h_current h \<noteq> 0"
    using tree_parent_iff [OF hist_invD(1,3) [OF assms]] by simp
  then show ?thesis using assms
    by (auto simp: group_for_def fresh_group_def Let_def hist_inv_def split: group_hint.splits)
qed

lemma record_change_hist_inv:
  assumes "hist_inv h" "h' = record_change h f b og hint rv cur"
  shows "hist_inv h'"
proof -
  let ?n = "length (h_nodes h)" and ?c = "h_current h" and ?g = "fst (group_for h og hint)"
  note d = hist_invD [OF assms(1)]
  note sel = record_change_sel [OF d(3) assms(2)] and old = record_change_old [OF d(3) assms(2)]
  have n0: "?n \<noteq> 0" using d(3) by auto
  have lt: "n_group (node h i) < h_next_group h" if "i < ?n" for i
    using d(1) that by (simp add: tree_inv_def node_invariants_def)
  note gc = group_for_cases [OF assms(1), of og hint]
  have step: "group_step h' i" if "Suc i < Suc ?n" for i
  proof (cases "Suc i < ?n")
    case True
    then show ?thesis using d(4) by (simp add: group_step_def tree_groups_def old)
  next
    case False
    then have "?n = Suc i" using that by simp
    then show ?thesis using gc lt [of i] sel(8) by (auto simp: group_step_def old)
  qed
  have tip_old: "tip h' p" if "tip h p" "p < ?n" "p \<noteq> ?c \<or> ?g = h_next_group h" for p
  proof (cases "Suc p < ?n")
    case True
    then show ?thesis using that by (simp add: tip_def old sel(1))
  next
    case False
    then have "?n = Suc p" using that by simp
    moreover have "?g \<noteq> n_group (node h p)"
      using gc that lt [of p] False by auto
    ultimately show ?thesis using that sel(8) by (simp add: tip_def old sel(1))
  qed
  have "parent_tip h' i" if "i < Suc ?n" for i
  proof (cases "i < ?n")
    case True
    show ?thesis unfolding parent_tip_def
    proof (intro allI impI)
      fix p assume "n_parent (node h' i) = Some p"
      then have p: "n_parent (node h i) = Some p" using True by (simp add: old)
      note pd = tree_parentD [OF d(1) True p]
      have "tip h p \<or> i = Suc p \<and> n_group (node h i) = n_group (node h p)"
        using d(4) True p by (simp add: tree_groups_def parent_tip_def)
      moreover have "p \<noteq> ?c \<or> ?g = h_next_group h"
        using gc pd(1) True by auto
      ultimately show "tip h' p \<or> i = Suc p \<and> n_group (node h' i) = n_group (node h' p)"
        using tip_old [of p] pd True by (auto simp: old)
    qed
  next
    case False
    then have i: "i = ?n" using that by simp
    show ?thesis
      using gc tip_old [OF d(5) d(3)] sel(8) d(3) n0 by (auto simp: parent_tip_def i old)
  qed
  moreover have "n_seq (node h' 0) < h_next_seq h'"
    using d(4) n0 by (simp add: tree_groups_def old sel(4))
  ultimately have "tree_groups h'" using step by (simp add: tree_groups_def sel(1))
  moreover have "tip h' (h_current h')" by (simp add: tip_def sel(1,2))
  ultimately show ?thesis using record_change_invariants [OF assms] sel(1,2) by (simp add: hist_inv_def)
qed

lemma history_new_hist_inv: "hist_inv (history_new rv)"
  by (simp add: hist_inv_def history_new_def assert_invariants_def node_invariants_def edge_invariants_def
      redo_invariant_def tree_groups_def parent_tip_def tip_def)

lemma sync_hist_inv: "hist_inv h \<Longrightarrow> hist_inv (sync h)"
  by (simp add: hist_inv_def sync_def assert_invariants_def node_invariants_def edge_invariants_def
      redo_invariant_def tree_groups_def group_step_def parent_tip_def tip_def cong: option.case_cong)

end
