(* ===== verification/Undo_Walks.thy ===== *)
theory Undo_Walks
  imports Undo_History
begin

text \<open>
  What the walks over the undo tree do to the text.  A ghost assignment \<open>T\<close> gives each node its text; the
  stored forward and inverse changes fit it (\<open>tree_texts\<close>).  Each walk of \<^verbatim>\<open>undo.rs\<close> (\<open>undo\<close>, \<open>redo\<close>,
  \<open>navigate_to\<close>, \<open>to_chronological\<close>) is shown to return, to keep the history's invariant, and to hand back
  changes that lead from the text of the node it left to the text of the node it reached.  Everything is
  proved from the contract \<open>edit_algebra\<close> of changes and holds for edit lists by its interpretation.
\<close>

section \<open>Paths in the tree\<close>

inductive above :: "'ch undo_history \<Rightarrow> nat \<Rightarrow> nat \<Rightarrow> bool" for h where
  above_refl: "above h i i"
| above_step: "n_parent (node h i) = Some p \<Longrightarrow> above h p q \<Longrightarrow> above h i q"

lemma above_same:
  "above h i q \<Longrightarrow> same_tree h h' \<Longrightarrow> tree_inv h \<Longrightarrow> i < length (h_nodes h) \<Longrightarrow> above h' i q"
proof (induction rule: above.induct)
  case (above_step i p q)
  then show ?case by (metis above.above_step same_tree_node(1) tree_parentD(4))
qed (rule above_refl)

lemma above_trans: "above h i p \<Longrightarrow> above h p q \<Longrightarrow> above h i q"
  by (induction rule: above.induct) (auto intro: above.intros)

inductive_cases above_parentE: "above h i q"

text \<open>A path down from \<open>a\<close>: each node of the list is a child of the one before it.\<close>

fun linked :: "'ch undo_history \<Rightarrow> nat \<Rightarrow> nat list \<Rightarrow> bool" where
  "linked h a [] \<longleftrightarrow> True"
| "linked h a (n # ns) \<longleftrightarrow> n_parent (node h n) = Some a \<and> n < length (h_nodes h) \<and> linked h n ns"

lemma linked_same: "same_tree h h' \<Longrightarrow> linked h a ns \<Longrightarrow> linked h' a ns"
  by (induction ns arbitrary: a) (simp_all add: same_tree_node same_tree_length)

lemma linked_less:
  assumes "tree_inv h"
  shows "linked h a ns \<Longrightarrow> list_all (\<lambda>n. a < n) ns"
proof (induction ns arbitrary: a)
  case (Cons n ns)
  then have "a < n" using tree_parentD(1) [OF assms, of n a] by simp
  moreover have "list_all (\<lambda>m. n < m) ns" using Cons by simp
  ultimately show ?case by (auto simp: list_all_iff)
qed simp

lemma ancestry_loop_returns:
  assumes "tree_inv h"
  shows "n < fuel \<Longrightarrow> n < length (h_nodes h) \<Longrightarrow> n \<in> set v \<Longrightarrow> list_all (above h c) v \<Longrightarrow>
    \<exists>v'. ancestry_loop fuel h n v = Some v' \<and> 0 \<in> set v' \<and> set v \<subseteq> set v' \<and> list_all (above h c) v'"
proof (induction fuel arbitrary: n v)
  case (Suc fuel)
  show ?case
  proof (cases "n_parent (node h n)")
    case None
    then have "n = 0" using tree_parent_iff [OF assms Suc.prems(2)] by simp
    with None Suc.prems show ?thesis by simp
  next
    case (Some p)
    note pd = tree_parentD [OF assms Suc.prems(2) Some]
    have "above h c p"
      using Suc.prems(3,4) Some by (meson above.intros above_trans list_all_iff)
    then have "\<exists>v'. ancestry_loop fuel h p (v @ [p]) = Some v' \<and> 0 \<in> set v' \<and> set (v @ [p]) \<subseteq> set v' \<and>
        list_all (above h c) v'"
      using Suc.prems pd by (intro Suc.IH) auto
    with Some show ?thesis by auto
  qed
qed simp

lemma ancestry_returns:
  assumes "tree_inv h" "n < length (h_nodes h)"
  obtains v where "ancestry h n = Some v" "0 \<in> set v" "list_all (above h n) v"
proof -
  have "list_all (above h n) [n]" by (simp add: above_refl)
  with ancestry_loop_returns [OF assms(1), of n "length (h_nodes h)" "[n]" n] assms(2)
  show thesis by (auto simp: ancestry_def intro: that)
qed

lemma lca_loop_returns:
  assumes "tree_inv h" "0 \<in> set anc"
  shows "n < fuel \<Longrightarrow> n < length (h_nodes h) \<Longrightarrow> linked h n (rev down) \<Longrightarrow> last (n # rev down) = t \<Longrightarrow>
    \<exists>l down'. lca_loop fuel h anc n down = Some (l, down') \<and> l \<in> set anc \<and>
      linked h l (rev down') \<and> last (l # rev down') = t"
proof (induction fuel arbitrary: n down)
  case (Suc fuel)
  show ?case
  proof (cases "n \<in> set anc")
    case True
    then show ?thesis using Suc.prems by simp
  next
    case False
    then have "n \<noteq> 0" using assms(2) by (intro notI) simp
    then obtain p where p: "n_parent (node h n) = Some p"
      using tree_parent_iff [OF assms(1) Suc.prems(2)] by auto
    note pd = tree_parentD [OF assms(1) Suc.prems(2) p]
    have "\<exists>l down'. lca_loop fuel h anc p (down @ [n]) = Some (l, down') \<and> l \<in> set anc \<and>
        linked h l (rev down') \<and> last (l # rev down') = t"
      using Suc.prems p pd by (intro Suc.IH) auto
    with p False show ?thesis by simp
  qed
qed simp

section \<open>Walks lead from text to text\<close>

context edit_algebra
begin

definition edge_text :: "'ch undo_history \<Rightarrow> (nat \<Rightarrow> 'buf) \<Rightarrow> nat \<Rightarrow> bool" where
  "edge_text h T i \<longleftrightarrow> (case (n_parent (node h i), n_forward (node h i), n_inverse (node h i)) of
     (Some p, Some f, Some b) \<Rightarrow> valid f (T p) \<and> T i = apply_ch f (T p) \<and> b = invert f (T p)
   | _ \<Rightarrow> True)"

definition tree_texts :: "'ch undo_history \<Rightarrow> (nat \<Rightarrow> 'buf) \<Rightarrow> bool" where
  "tree_texts h T \<longleftrightarrow> (\<forall>i < length (h_nodes h). edge_text h T i)"

definition leads :: "'ch list \<Rightarrow> 'buf \<Rightarrow> 'buf \<Rightarrow> bool" where
  "leads cs a b \<longleftrightarrow> chain_valid cs a \<and> fold apply_ch cs a = b"

lemma leads_Nil [simp]: "leads [] a b \<longleftrightarrow> a = b"
  by (simp add: leads_def)

lemma leads_snoc: "leads cs a b \<Longrightarrow> valid c b \<Longrightarrow> leads (cs @ [c]) a (apply_ch c b)"
  by (simp add: leads_def chain_valid_append)

lemma tree_texts_same:
  assumes "same_tree h h'" "tree_texts h T"
  shows "tree_texts h' T"
  using assms by (simp add: tree_texts_def edge_text_def same_tree_length same_tree_node)

lemma edge_texts:
  assumes "tree_inv h" "tree_texts h T" "i < length (h_nodes h)" "n_parent (node h i) = Some p"
  obtains f b where "n_forward (node h i) = Some f" "n_inverse (node h i) = Some b"
    "valid f (T p)" "apply_ch f (T p) = T i" "valid b (T i)" "apply_ch b (T i) = T p"
proof -
  obtain f b where fb: "n_forward (node h i) = Some f" "n_inverse (node h i) = Some b"
    using tree_parent [OF assms(1,3)] tree_parentD(3) [OF assms(1,3,4)] by metis
  have "edge_text h T i" using assms(2,3) by (simp add: tree_texts_def)
  then have "valid f (T p)" "T i = apply_ch f (T p)" "b = invert f (T p)"
    using fb assms(4) by (simp_all add: edge_text_def)
  with fb valid_invert [of f "T p"] apply_invert [of f "T p"] show thesis by (intro that) simp_all
qed

text \<open>
  The invariant of a walk that started at node \<open>c0\<close> of \<open>h0\<close> and stands at node \<open>c\<close>: only redo targets have
  changed, the changes collected lead from the one text to the other, and the node list ends at \<open>c\<close>.
\<close>

definition walked ::
  "'ch undo_history \<Rightarrow> (nat \<Rightarrow> 'buf) \<Rightarrow> nat \<Rightarrow> nat \<Rightarrow> 'ch undo_history \<Rightarrow> 'ch list \<Rightarrow> nat list \<Rightarrow>
     (nat \<times> transaction_origin option) list \<Rightarrow> bool" where
  "walked h0 T c0 c h out groups ns \<longleftrightarrow>
     same_tree h0 h \<and> tree_inv h0 \<and> tree_texts h0 T \<and> redo_ok h \<and> c < length (h_nodes h0) \<and>
     leads out (T c0) (T c) \<and> length groups = length out \<and> length ns = length out \<and>
     (out = [] \<longrightarrow> c = c0) \<and> (out \<noteq> [] \<longrightarrow> fst (last ns) = n_seq (node h0 c))"

lemma walkedD:
  assumes "walked h0 T c0 c h out groups ns"
  shows "same_tree h0 h" "tree_inv h" "tree_texts h T" "redo_ok h" "c < length (h_nodes h)"
    "leads out (T c0) (T c)"
  using assms same_tree_length [of h0 h] unfolding walked_def
  by (auto intro: tree_inv_same tree_texts_same)

lemma walked_start:
  "hist_inv h \<Longrightarrow> tree_texts h T \<Longrightarrow> c < length (h_nodes h) \<Longrightarrow> walked h T c c h [] [] []"
  by (simp add: walked_def hist_invD)

lemma walked_up:
  assumes w: "walked h0 T c0 c h out groups ns" and p: "n_parent (node h c) = Some p"
  obtains b where "n_inverse (node h c) = Some b"
    "walked h0 T c0 p (set_redo_child p c h) (out @ [b]) (groups @ [g]) (ns @ [(n_seq (node h p), og)])"
proof -
  note d = walkedD [OF w]
  note pd = tree_parentD [OF d(2,5) p]
  obtain f b where b: "n_inverse (node h c) = Some b" "valid b (T c)" "apply_ch b (T c) = T p"
    by (rule edge_texts [OF d(2,3,5) p])
  have "leads (out @ [b]) (T c0) (T p)" using leads_snoc [OF d(6) b(2)] b(3) by simp
  moreover have "redo_ok (set_redo_child p c h)" by (rule redo_ok_set [OF d(4) pd(4,2)])
  moreover have "same_tree h0 (set_redo_child p c h)" by (rule same_tree_trans [OF d(1)]) simp
  moreover have "p < length (h_nodes h0)" "n_seq (node h p) = n_seq (node h0 p)"
    using pd(4) same_tree_length [OF d(1)] same_tree_node(3) [OF d(1)] by simp_all
  ultimately show thesis using w b(1) by (intro that) (simp_all add: walked_def)
qed

lemma walked_down:
  assumes w: "walked h0 T c0 c h out groups ns" and n: "n_parent (node h n) = Some c" "n < length (h_nodes h)"
    and h': "h' = set_redo_child c n h \<or> h' = h"
  obtains f where "n_forward (node h' n) = Some f"
    "walked h0 T c0 n h' (out @ [f]) (groups @ [g]) (ns @ [(n_seq (node h' n), og)])"
proof -
  note d = walkedD [OF w]
  note pd = tree_parentD [OF d(2) n(2,1)]
  have st: "same_tree h h'" using h' by auto
  obtain f b where f: "n_forward (node h n) = Some f" "valid f (T c)" "apply_ch f (T c) = T n"
    by (rule edge_texts [OF d(2,3) n(2,1)])
  have "leads (out @ [f]) (T c0) (T n)" using leads_snoc [OF d(6) f(2)] f(3) by simp
  moreover have "redo_ok h'" using h' redo_ok_set [OF d(4) pd(4,2)] d(4) by auto
  moreover have s0: "same_tree h0 h'" by (rule same_tree_trans [OF d(1) st])
  moreover have "n < length (h_nodes h0)" "n_seq (node h' n) = n_seq (node h0 n)"
    using n(2) same_tree_length [OF d(1)] same_tree_node(3) [OF s0] by simp_all
  ultimately show thesis using w f(1) same_tree_node(5) [OF st n(2)]
    by (intro that) (simp_all add: walked_def)
qed

lemma walked_current [simp]:
  "walked h0 T c0 c (h\<lparr>h_current := x\<rparr>) out groups ns = walked h0 T c0 c h out groups ns"
  "walked h0 T c0 c (h\<lparr>h_last_was_nav := v\<rparr>) out groups ns = walked h0 T c0 c h out groups ns"
  by (simp_all add: walked_def)

text \<open>A finished walk, ending at a tip, is a history that satisfies the invariant again.\<close>

lemma walked_hist_inv:
  assumes "walked h0 T c0 c h out groups ns" "hist_inv h0" "tip h0 c"
  shows "hist_inv (h\<lparr>h_current := c, h_last_was_nav := True\<rparr>)"
proof -
  note d = walkedD [OF assms(1)] and i = hist_invD [OF assms(2)]
  have c0: "c < length (h_nodes h0)" using assms(1) by (simp add: walked_def)
  have "tree_groups (h\<lparr>h_current := c, h_last_was_nav := True\<rparr>)"
    by (rule tree_groups_same [of h0]) (simp_all add: d i)
  moreover have "tip h c" using tip_same [OF d(1) c0] assms(3) by simp
  ultimately show ?thesis using d by (simp add: hist_inv_def assert_invariants_iff)
qed

section \<open>The loops\<close>

text \<open>Where \<open>undo\<close> stops: at the first node of another group, or at the root.\<close>

lemma undo_loop_returns:
  "walked h0 T c0 (h_current h) h out groups ns \<Longrightarrow> h_current h < fuel \<Longrightarrow>
     \<exists>h' out' groups' ns' cur'. undo_loop fuel grp h (out, groups, ns, cur) = Some (h', out', groups', ns', cur') \<and>
       walked h0 T c0 (h_current h') h' out' groups' ns' \<and>
       (n_parent (node h' (h_current h')) = None \<or> n_group (node h' (h_current h')) \<noteq> grp) \<and>
       (h_current h' = h_current h \<or> (\<exists>c. n_parent (node h' c) = Some (h_current h') \<and>
          c < length (h_nodes h') \<and> n_group (node h' c) = grp))"
proof (induction fuel arbitrary: h out groups ns cur)
  case (Suc fuel)
  let ?c = "h_current h"
  note w = Suc.prems(1)
  note d = walkedD [OF w]
  show ?case
  proof (cases "n_parent (node h ?c)")
    case None
    then show ?thesis using w by (simp add: Let_def)
  next
    case (Some p)
    note pd = tree_parentD [OF d(2,5) Some]
    show ?thesis
    proof (cases "n_group (node h ?c) = grp")
      case False
      then show ?thesis using w Some by (simp add: Let_def)
    next
      case True
      define h1 where "h1 = (set_redo_child p ?c h)\<lparr>h_current := p\<rparr>"
      obtain b where b: "n_inverse (node h ?c) = Some b"
        and w1: "walked h0 T c0 p (set_redo_child p ?c h) (out @ [b]) (groups @ [grp])
           (ns @ [(n_seq (node h p), n_origin (node h ?c))])"
        by (rule walked_up [OF w Some])
      have w1': "walked h0 T c0 (h_current h1) h1 (out @ [b]) (groups @ [grp])
           (ns @ [(n_seq (node h p), n_origin (node h ?c))])"
        using w1 by (simp add: h1_def)
      have c1: "h_current h1 = p" by (simp add: h1_def)
      have "h_current h1 < fuel" using pd(1) Suc.prems(2) by (simp add: h1_def)
      from Suc.IH [OF w1' this, of "n_cursor (node h ?c)"] obtain h' out' groups' ns' cur' where
        r: "undo_loop fuel grp h1 (out @ [b], groups @ [grp], ns @ [(n_seq (node h p), n_origin (node h ?c))],
              n_cursor (node h ?c)) = Some (h', out', groups', ns', cur')"
        and w': "walked h0 T c0 (h_current h') h' out' groups' ns'"
        and stop: "n_parent (node h' (h_current h')) = None \<or> n_group (node h' (h_current h')) \<noteq> grp"
        and frm: "h_current h' = p \<or> (\<exists>c. n_parent (node h' c) = Some (h_current h') \<and>
          c < length (h_nodes h') \<and> n_group (node h' c) = grp)"
        unfolding c1 by blast
      have st: "same_tree h h'" using same_tree_trans [OF same_tree_sym [OF d(1)] walkedD(1) [OF w']] .
      have "n_parent (node h' ?c) = Some p" "?c < length (h_nodes h')" "n_group (node h' ?c) = grp"
        using Some True d(5) same_tree_node [OF st d(5)] same_tree_length [OF st] by simp_all
      then have "\<exists>c. n_parent (node h' c) = Some (h_current h') \<and> c < length (h_nodes h') \<and> n_group (node h' c) = grp"
        using frm by auto
      with r w' stop Some True b show ?thesis by (simp add: Let_def h1_def)
    qed
  qed
qed simp

lemma redo_target_child:
  assumes "redo_ok h" "n < length (h_nodes h)" "redo_target h n = Some c"
  shows "c \<in> set (n_children (node h n))"
  using assms by (auto simp: redo_target_def redo_ok_def redo_invariant_def last_opt_def
      split: option.splits if_splits)

lemma redo_loop_returns:
  "walked h0 T c0 p h out groups ns \<Longrightarrow> n_parent (node h n) = Some p \<Longrightarrow> n < length (h_nodes h) \<Longrightarrow>
   n_group (node h n) = grp \<Longrightarrow> length (h_nodes h) \<le> fuel + n \<Longrightarrow>
     \<exists>h' out' groups' ns' cur'. redo_loop fuel grp n h (out, groups, ns, cur) = Some (h', out', groups', ns', cur') \<and>
       walked h0 T c0 (h_current h') h' out' groups' ns' \<and> h_nodes h' = h_nodes h \<and> out' \<noteq> [] \<and>
       n_group (node h (h_current h')) = grp \<and>
       (case redo_target h (h_current h') of None \<Rightarrow> True | Some c \<Rightarrow> n_group (node h c) \<noteq> grp)"
proof (induction fuel arbitrary: p h n out groups ns)
  case (Suc fuel)
  define h1 where "h1 = h\<lparr>h_current := n\<rparr>"
  have t1: "redo_target h1 = redo_target h" by (simp add: h1_def redo_target_def fun_eq_iff cong: option.case_cong)
  note w = Suc.prems(1)
  note d = walkedD [OF w]
  obtain f where f: "n_forward (node h n) = Some f"
    and w1: "walked h0 T c0 n h (out @ [f]) (groups @ [grp]) (ns @ [(n_seq (node h n), n_origin (node h n))])"
    by (rule walked_down [OF w Suc.prems(2,3) disjI2 [OF refl]])
  have w1': "walked h0 T c0 n h1 (out @ [f]) (groups @ [grp]) (ns @ [(n_seq (node h n), n_origin (node h n))])"
    using w1 by (simp add: h1_def)
  show ?case
  proof (cases "redo_target h n")
    case None
    then show ?thesis using f w1' Suc.prems(4) by (simp add: Let_def h1_def)
  next
    case (Some c)
    have child: "c \<in> set (n_children (node h n))" by (rule redo_target_child [OF d(4) Suc.prems(3) Some])
    note cd = tree_child [OF d(2) Suc.prems(3) child]
    show ?thesis
    proof (cases "n_group (node h c) = grp")
      case False
      then show ?thesis using f w1' Some Suc.prems(4) by (simp add: Let_def h1_def)
    next
      case True
      have "\<exists>h' out' groups' ns' cur'. redo_loop fuel grp c h1 (out @ [f], groups @ [grp],
            ns @ [(n_seq (node h n), n_origin (node h n))], cur) = Some (h', out', groups', ns', cur') \<and>
          walked h0 T c0 (h_current h') h' out' groups' ns' \<and> h_nodes h' = h_nodes h1 \<and> out' \<noteq> [] \<and>
          n_group (node h1 (h_current h')) = grp \<and>
          (case redo_target h1 (h_current h') of None \<Rightarrow> True | Some c \<Rightarrow> n_group (node h1 c) \<noteq> grp)"
        by (rule Suc.IH [OF w1']) (use cd True Suc.prems(5) in \<open>simp_all add: h1_def\<close>)
      then show ?thesis using f Some True unfolding t1 by (simp add: Let_def h1_def cong: option.case_cong)
    qed
  qed
qed simp

lemma up_loop_returns:
  "walked h0 T c0 c h out groups ns \<Longrightarrow> above h c l \<Longrightarrow> c < fuel \<Longrightarrow> (if out = [] then tail = 0 else tail < length out) \<Longrightarrow>
     \<exists>h' out' groups' ns' tail' cur' g'.
       up_loop fuel l c h (out, groups, ns, tail, cur, g) = Some (h', out', groups', ns', tail', cur', g') \<and>
       walked h0 T c0 l h' out' groups' ns' \<and> (if out' = [] then tail' = 0 else tail' < length out') \<and> h_last_was_nav h' = h_last_was_nav h"
proof (induction fuel arbitrary: c h out groups ns tail cur g)
  case (Suc fuel)
  note w = Suc.prems(1)
  note d = walkedD [OF w]
  show ?case
  proof (cases "c = l")
    case True
    then show ?thesis using w Suc.prems(4) by simp
  next
    case False
    with Suc.prems(2) obtain p where p: "n_parent (node h c) = Some p" and ab: "above h p l"
      by (auto elim: above_parentE)
    note pd = tree_parentD [OF d(2,5) p]
    obtain b where b: "n_inverse (node h c) = Some b"
      and w1: "walked h0 T c0 p (set_redo_child p c h) (out @ [b]) (groups @ [n_group (node h c)])
         (ns @ [(n_seq (node h p), n_origin (node h c))])"
      by (rule walked_up [OF w p])
    let ?t = "if g \<noteq> Some (n_group (node h c)) then length out else tail"
    have "\<exists>h' out' groups' ns' tail' cur' g'.
       up_loop fuel l p (set_redo_child p c h) (out @ [b], groups @ [n_group (node h c)],
         ns @ [(n_seq (node h p), n_origin (node h c))], ?t, n_cursor (node h c), Some (n_group (node h c)))
         = Some (h', out', groups', ns', tail', cur', g') \<and>
       walked h0 T c0 l h' out' groups' ns' \<and> (if out' = [] then tail' = 0 else tail' < length out') \<and>
       h_last_was_nav h' = h_last_was_nav (set_redo_child p c h)"
    proof (rule Suc.IH [OF w1])
      show "above (set_redo_child p c h) p l" by (rule above_same [OF ab]) (use d(2) pd(4) in simp_all)
      show "p < fuel" using pd(1) Suc.prems(3) by simp
    qed (use Suc.prems(4) in \<open>auto split: if_splits\<close>)
    then show ?thesis using False p b by (simp add: Let_def)
  qed
qed simp

lemma down_loop_returns:
  "walked h0 T c0 c h out groups ns \<Longrightarrow> linked h c path \<Longrightarrow> (if out = [] then tail = 0 else tail < length out) \<Longrightarrow>
     \<exists>h' out' groups' ns' tail' cur' g'.
       down_loop path h (out, groups, ns, tail, cur, g) = Some (h', out', groups', ns', tail', cur', g') \<and>
       walked h0 T c0 (last (c # path)) h' out' groups' ns' \<and> (if out' = [] then tail' = 0 else tail' < length out')"
proof (induction path arbitrary: c h out groups ns tail cur g)
  case Nil
  then show ?case by simp
next
  case (Cons n path)
  let ?h = "set_redo_child c n h"
  have n: "n_parent (node h n) = Some c" "n < length (h_nodes h)" "linked h n path"
    using Cons.prems(2) by simp_all
  obtain f where f: "n_forward (node ?h n) = Some f"
    and w1: "walked h0 T c0 n ?h (out @ [f]) (groups @ [n_group (node ?h n)])
       (ns @ [(n_seq (node ?h n), n_origin (node ?h n))])"
    by (rule walked_down [OF Cons.prems(1) n(1,2) disjI1 [OF refl]])
  let ?new = "g \<noteq> Some (n_group (node ?h n))"
  let ?t = "if ?new then length out else tail" and ?u = "if ?new then n_cursor (node ?h n) else cur"
  have "\<exists>h' out' groups' ns' tail' cur' g'.
       down_loop path ?h (out @ [f], groups @ [n_group (node ?h n)],
         ns @ [(n_seq (node ?h n), n_origin (node ?h n))], ?t, ?u, Some (n_group (node ?h n)))
         = Some (h', out', groups', ns', tail', cur', g') \<and>
       walked h0 T c0 (last (n # path)) h' out' groups' ns' \<and>
       (if out' = [] then tail' = 0 else tail' < length out')"
    by (rule Cons.IH [OF w1]) (use Cons.prems(3) n(3) linked_same [of h ?h] in \<open>auto split: if_splits\<close>)
  then show ?case using n(1) f by (simp add: Let_def)
qed

section \<open>The steps\<close>

text \<open>
  What every step of the history promises: it keeps the invariant and the tree, its lists are parallel and
  not empty, the last node it names is the one it stands on, and its changes lead from the text of the node
  it left to the text of the node it reached.
\<close>

definition step_ok :: "'ch undo_history \<Rightarrow> (nat \<Rightarrow> 'buf) \<Rightarrow> 'ch undo_step \<Rightarrow> 'ch undo_history \<Rightarrow> bool" where
  "step_ok h T s h' \<longleftrightarrow>
     hist_inv h' \<and> same_tree h h' \<and> tree_texts h' T \<and> h_last_was_nav h' \<and>
     leads (s_edits s) (T (h_current h)) (T (h_current h')) \<and> s_edits s \<noteq> [] \<and>
     length (s_groups s) = length (s_edits s) \<and> length (s_nodes s) = length (s_edits s) \<and>
     fst (last (s_nodes s)) = current_seq h' \<and> s_tail s < length (s_edits s)"

lemma step_okI:
  assumes "walked h T (h_current h) c h1 out groups ns" "hist_inv h" "tip h c" "out \<noteq> []" "t < length out"
  shows "step_ok h T \<lparr>s_edits = out, s_groups = groups, s_nodes = ns, s_tail = t, s_forward = fw, s_cursor = cu\<rparr>
    (h1\<lparr>h_current := c, h_last_was_nav := True\<rparr>)"
proof -
  note d = walkedD [OF assms(1)]
  have "c < length (h_nodes h)" using assms(1) by (simp add: walked_def)
  then have "n_seq (node h1 c) = n_seq (node h c)" by (rule same_tree_node(3) [OF d(1)])
  moreover have "tree_texts (h1\<lparr>h_current := c, h_last_was_nav := True\<rparr>) T"
    by (rule tree_texts_same [OF _ d(3)]) simp
  ultimately show ?thesis using assms d walked_hist_inv [OF assms(1-3)]
    by (simp add: step_ok_def walked_def current_seq_def)
qed

lemma tip_root: "tree_groups h \<Longrightarrow> tip h 0"
  by (auto simp: tree_groups_def tip_def group_step_def)

lemma undo_step:
  assumes "hist_inv h" "tree_texts h T"
  shows "if can_undo h then \<exists>s h'. undo h = Some (s, h') \<and> step_ok h T s h' else undo h = None"
proof (cases "can_undo h")
  case True
  note i = hist_invD [OF assms(1)]
  let ?c = "h_current h" and ?g = "n_group (node h (h_current h))"
  have "\<exists>h' out' groups' ns' cur'. undo_loop (length (h_nodes h)) ?g h ([], [], [], 0) = Some (h', out', groups', ns', cur') \<and>
       walked h T ?c (h_current h') h' out' groups' ns' \<and>
       (n_parent (node h' (h_current h')) = None \<or> n_group (node h' (h_current h')) \<noteq> ?g) \<and>
       (h_current h' = ?c \<or> (\<exists>c. n_parent (node h' c) = Some (h_current h') \<and>
          c < length (h_nodes h') \<and> n_group (node h' c) = ?g))"
    by (rule undo_loop_returns [OF walked_start [OF assms i(3)] i(3)])
  then obtain h' out groups ns cur where
    r: "undo_loop (length (h_nodes h)) ?g h ([], [], [], 0) = Some (h', out, groups, ns, cur)"
    and w: "walked h T ?c (h_current h') h' out groups ns"
    and stop: "n_parent (node h' (h_current h')) = None \<or> n_group (node h' (h_current h')) \<noteq> ?g"
    and frm: "h_current h' = ?c \<or> (\<exists>c. n_parent (node h' c) = Some (h_current h') \<and>
          c < length (h_nodes h') \<and> n_group (node h' c) = ?g)" by blast
  note d = walkedD [OF w]
  have ne: "h_current h' \<noteq> ?c"
    using stop True same_tree_node(1,4) [OF d(1) i(3)] by (auto simp: can_undo_def)
  then obtain c where c: "n_parent (node h' c) = Some (h_current h')" "c < length (h_nodes h')"
    "n_group (node h' c) = ?g" using frm by blast
  have out: "out \<noteq> []" using w ne by (auto simp: walked_def)
  have g': "tree_groups h'" by (rule tree_groups_same [OF d(1) i(4,1)])
  have "tip h' (h_current h')"
  proof (cases "h_current h' = 0")
    case False
    then have "n_group (node h' (h_current h')) \<noteq> ?g" using stop tree_parent_iff [OF d(2,5)] by auto
    then show ?thesis using g' c by (auto simp: tree_groups_def parent_tip_def)
  qed (simp add: tip_root [OF g'])
  then have "tip h (h_current h')" using tip_same [OF d(1), of "h_current h'"] w by (simp add: walked_def)
  from step_okI [OF w assms(1) this out, of 0 False cur] out r True show ?thesis
    by (simp add: undo_def can_undo_def)
next
  case False
  then show ?thesis by (simp add: undo_def can_undo_def)
qed

lemma undo_loop_stops:
  assumes "hist_inv h" "tree_texts h T" "undo_loop (length (h_nodes h)) grp h ([], [], [], 0) = Some (h', w)"
  shows "n_parent (node h' (h_current h')) = None \<or> n_group (node h' (h_current h')) \<noteq> grp"
proof -
  note i = hist_invD [OF assms(1)]
  from undo_loop_returns [OF walked_start [OF assms(1,2) i(3)] i(3), of grp 0] assms(3)
  show ?thesis by auto
qed

lemma only_child_not_tip:
  assumes "tree_inv h" "tree_groups h" "i < length (h_nodes h)" "\<not> tip h i" "c \<in> set (n_children (node h i))"
  shows "c = Suc i \<and> n_group (node h c) = n_group (node h i)"
  using tree_child(1,2) [OF assms(1,3,5)] assms(2,4) by (auto simp: tree_groups_def parent_tip_def)

lemma not_tip_child:
  assumes "tree_inv h" "tree_groups h" "\<not> tip h i"
  shows "Suc i \<in> set (n_children (node h i))"
proof -
  from assms(3) have s: "Suc i < length (h_nodes h)" "n_group (node h (Suc i)) = n_group (node h i)"
    by (auto simp: tip_def)
  then have "n_parent (node h (Suc i)) = Some i" using assms(2) by (auto simp: tree_groups_def group_step_def)
  then show ?thesis using tree_parentD(2) [OF assms(1) s(1)] by simp
qed

lemma redo_target_None_iff:
  assumes "redo_ok h" "i < length (h_nodes h)"
  shows "redo_target h i = None \<longleftrightarrow> n_children (node h i) = []"
  using assms by (auto simp: redo_target_def redo_ok_def redo_invariant_def last_opt_def split: option.splits)

text \<open>A node where the redo walk stops is the tip of its group.\<close>

lemma redo_stop_tip:
  assumes "tree_inv h" "redo_ok h" "tree_groups h" "i < length (h_nodes h)"
    and "case redo_target h i of None \<Rightarrow> True | Some c \<Rightarrow> n_group (node h c) \<noteq> n_group (node h i)"
  shows "tip h i"
proof (rule ccontr)
  assume nt: "\<not> tip h i"
  then have "redo_target h i \<noteq> None"
    using not_tip_child [OF assms(1,3) nt] redo_target_None_iff [OF assms(2,4)] by auto
  then obtain c where c: "redo_target h i = Some c" by auto
  then show False
    using only_child_not_tip [OF assms(1,3,4) nt redo_target_child [OF assms(2,4) c]] assms(5) c by auto
qed

lemma redo_step:
  assumes "hist_inv h" "tree_texts h T"
  shows "if can_redo h then \<exists>s h'. redo h = Some (s, h') \<and> step_ok h T s h' else redo h = None"
proof (cases "redo_target h (h_current h)")
  case None
  then show ?thesis
    using redo_target_None_iff [OF hist_invD(2,3) [OF assms(1)]] by (simp add: redo_def can_redo_def)
next
  case (Some first)
  note i = hist_invD [OF assms(1)]
  have child: "first \<in> set (n_children (node h (h_current h)))" by (rule redo_target_child [OF i(2,3) Some])
  note cd = tree_child [OF i(1,3) child]
  let ?g = "n_group (node h first)"
  have "\<exists>h' out' groups' ns' cur'. redo_loop (length (h_nodes h)) ?g first h ([], [], [], 0) = Some (h', out', groups', ns', cur') \<and>
       walked h T (h_current h) (h_current h') h' out' groups' ns' \<and> h_nodes h' = h_nodes h \<and> out' \<noteq> [] \<and>
       n_group (node h (h_current h')) = ?g \<and>
       (case redo_target h (h_current h') of None \<Rightarrow> True | Some c \<Rightarrow> n_group (node h c) \<noteq> ?g)"
    by (rule redo_loop_returns [OF walked_start [OF assms i(3)] cd(2,1)]) simp_all
  then obtain h' out groups ns cur where
    r: "redo_loop (length (h_nodes h)) ?g first h ([], [], [], 0) = Some (h', out, groups, ns, cur)"
    and w: "walked h T (h_current h) (h_current h') h' out groups ns" and out: "out \<noteq> []"
    and g: "n_group (node h (h_current h')) = ?g"
    and stop: "case redo_target h (h_current h') of None \<Rightarrow> True | Some c \<Rightarrow> n_group (node h c) \<noteq> ?g"
    by blast
  have c: "h_current h' < length (h_nodes h)" using w by (simp add: walked_def)
  have "tip h (h_current h')" by (rule redo_stop_tip [OF i(1,2,4) c]) (use stop in \<open>simp only: g\<close>)
  from step_okI [OF w assms(1) this out, of 0 True "n_cursor (node h first)"] out r Some
  have "\<exists>s h'. redo h = Some (s, h') \<and> step_ok h T s h'" by (simp add: redo_def)
  moreover have "can_redo h" using child by (auto simp: can_redo_def)
  ultimately show ?thesis by simp
qed

lemma navigate_step:
  assumes "hist_inv h" "tree_texts h T" "t < length (h_nodes h)" "t \<noteq> h_current h" "tip h t"
  shows "\<exists>s h'. navigate_to h t = Some (s, h') \<and> step_ok h T s h' \<and> h_current h' = t"
proof -
  let ?c = "h_current h" and ?n = "length (h_nodes h)"
  note i = hist_invD [OF assms(1)]
  obtain anc where anc: "ancestry h ?c = Some anc" "0 \<in> set anc" "list_all (above h ?c) anc"
    by (rule ancestry_returns [OF i(1,3)])
  have "\<exists>l down. lca_loop ?n h anc t [] = Some (l, down) \<and> l \<in> set anc \<and>
      linked h l (rev down) \<and> last (l # rev down) = t"
    by (rule lca_loop_returns [OF i(1) anc(2)]) (use assms(3) in simp_all)
  then obtain l down where l: "lca_loop ?n h anc t [] = Some (l, down)" "l \<in> set anc"
    "linked h l (rev down)" "last (l # rev down) = t" by blast
  have "above h ?c l" using anc(3) l(2) by (simp add: list_all_iff)
  then have "\<exists>h' out' groups' ns' tail' cur' g'.
       up_loop ?n l ?c h ([], [], [], 0, 0, None) = Some (h', out', groups', ns', tail', cur', g') \<and>
       walked h T ?c l h' out' groups' ns' \<and> (if out' = [] then tail' = 0 else tail' < length out') \<and>
       h_last_was_nav h' = h_last_was_nav h"
    by (intro up_loop_returns [OF walked_start [OF assms(1,2) i(3)]]) (use i(3) in simp_all)
  then obtain h1 out groups ns tail cur g where
    u: "up_loop ?n l ?c h ([], [], [], 0, 0, None) = Some (h1, out, groups, ns, tail, cur, g)"
    and w1: "walked h T ?c l h1 out groups ns" and t1: "if out = [] then tail = 0 else tail < length out"
    by blast
  have "linked h1 l (rev down)" by (rule linked_same [OF walkedD(1) [OF w1] l(3)])
  from down_loop_returns [OF w1 this t1, of cur None] obtain h2 out' groups' ns' tail' cur' g' where
    dn: "down_loop (rev down) h1 (out, groups, ns, tail, cur, None) = Some (h2, out', groups', ns', tail', cur', g')"
    and w2: "walked h T ?c t h2 out' groups' ns'" and t2: "if out' = [] then tail' = 0 else tail' < length out'"
    unfolding l(4) by blast
  have out: "out' \<noteq> []" using w2 assms(4) by (auto simp: walked_def)
  with t2 have "tail' < length out'" by simp
  from step_okI [OF w2 assms(1,5) out this, of "down \<noteq> []" cur'] assms(4) anc(1) l(1) u dn
  show ?thesis by (simp add: navigate_to_def)
qed

end

section \<open>Chronological steps\<close>

lemma group_tips_tips: "tree_inv h \<Longrightarrow> group_tips h = filter (tip h) [0..<length (h_nodes h)]"
proof -
  assume "tree_inv h"
  then have ch: "h_chronological h = [0..<length (h_nodes h)]" by (simp add: tree_inv_def)
  have "filter (\<lambda>i. case get_at (h_chronological h) (i + 1) of
          Some nx \<Rightarrow> n_group (node h nx) \<noteq> n_group (node h (h_chronological h ! i)) | None \<Rightarrow> True)
        [0..<length (h_chronological h)] = filter (tip h) [0..<length (h_nodes h)]"
    by (rule filter_cong) (auto simp: ch tip_def get_at_def split: option.splits if_splits)
  moreover have "map ((!) (h_chronological h)) (filter (tip h) [0..<length (h_nodes h)]) =
      filter (tip h) [0..<length (h_nodes h)]"
    by (rule map_idI) (simp add: ch)
  ultimately show ?thesis by (simp add: group_tips_def)
qed

lemma tip_position:
  assumes "hist_inv h"
  obtains p where "position (\<lambda>i. i = h_current h) (group_tips h) = Some p" "p < length (group_tips h)"
    "group_tips h ! p = h_current h"
proof -
  note i = hist_invD [OF assms]
  have "h_current h \<in> set (group_tips h)" using i(3,5) by (simp add: group_tips_tips [OF i(1)])
  then obtain p where p: "position (\<lambda>i. i = h_current h) (group_tips h) = Some p"
    using position_None_iff [of "\<lambda>i. i = h_current h" "group_tips h"] by (cases "position (\<lambda>i. i = h_current h) (group_tips h)") auto
  with position_SomeD [OF p] show thesis by (intro that) auto
qed

lemma distinct_group_tips: "tree_inv h \<Longrightarrow> distinct (group_tips h)"
  by (simp add: group_tips_tips)

text \<open>The states \<open>g-\<close> and \<open>g+\<close> step between, and where the history stands among them.\<close>

definition chrono_target :: "'ch undo_history \<Rightarrow> bool \<Rightarrow> nat option" where
  "chrono_target h older =
     (let tips = filter (tip h) [0..<length (h_nodes h)] in
      if older then last_opt (filter (\<lambda>i. i < h_current h) tips)
      else first_opt (filter (\<lambda>i. h_current h < i) tips))"

lemma sorted_split_at:
  fixes xs :: "nat list"
  assumes "sorted_wrt (<) xs" "p < length xs" "xs ! p = c"
  shows "filter (\<lambda>i. i < c) xs = take p xs" "filter (\<lambda>i. c < i) xs = drop (Suc p) xs"
proof -
  have xs: "xs = take p xs @ c # drop (Suc p) xs" using assms(2,3) id_take_nth_drop by blast
  have "sorted_wrt (<) (take p xs @ c # drop (Suc p) xs)" using assms(1) xs by simp
  then have lt: "\<And>x. x \<in> set (take p xs) \<Longrightarrow> x < c" and gt: "\<And>x. x \<in> set (drop (Suc p) xs) \<Longrightarrow> c < x"
    by (simp_all add: sorted_wrt_append)
  have "filter (\<lambda>i. i < c) (take p xs) = take p xs" "filter (\<lambda>i. i < c) (drop (Suc p) xs) = []"
    "filter (\<lambda>i. c < i) (take p xs) = []" "filter (\<lambda>i. c < i) (drop (Suc p) xs) = drop (Suc p) xs"
    using lt gt by (force simp: filter_empty_conv filter_id_conv)+
  moreover have "filter P xs = filter P (take p xs) @ filter P [c] @ filter P (drop (Suc p) xs)" for P
    by (subst xs) simp
  ultimately show "filter (\<lambda>i. i < c) xs = take p xs" "filter (\<lambda>i. c < i) xs = drop (Suc p) xs" by simp_all
qed

lemma sorted_tips: "sorted_wrt (<) (filter (tip h) [0..<n])"
  by (simp add: sorted_wrt_filter)

lemma to_chronological_target:
  assumes "hist_inv h"
  shows "to_chronological h older = (case chrono_target h older of None \<Rightarrow> None | Some t \<Rightarrow> navigate_to h t)"
proof -
  let ?tips = "filter (tip h) [0..<length (h_nodes h)]"
  note i = hist_invD [OF assms]
  obtain p where p: "position (\<lambda>i. i = h_current h) ?tips = Some p" "p < length ?tips" "?tips ! p = h_current h"
    using tip_position [OF assms] unfolding group_tips_tips [OF i(1)] by blast
  note sp = sorted_split_at [OF sorted_tips p(2,3)]
  show ?thesis using p
    by (cases older) (simp_all add: to_chronological_def chrono_target_def sp Let_def last_opt_take first_opt_drop
        group_tips_tips [OF i(1)] del: filter_filter)
qed

lemma chrono_target_SomeD:
  assumes "chrono_target h older = Some t"
  shows "t < length (h_nodes h)" "tip h t" "if older then t < h_current h else h_current h < t"
proof -
  let ?tips = "filter (tip h) [0..<length (h_nodes h)]"
  have "t \<in> set (if older then filter (\<lambda>i. i < h_current h) ?tips else filter (\<lambda>i. h_current h < i) ?tips)"
    using assms unfolding chrono_target_def Let_def by (metis last_opt_in_set first_opt_in_set)
  then show "t < length (h_nodes h)" "tip h t" "if older then t < h_current h else h_current h < t"
    by (auto split: if_splits)
qed

section \<open>Undo leaves the trail that redo follows\<close>

fun redo_chain :: "'ch undo_history \<Rightarrow> nat \<Rightarrow> nat \<Rightarrow> nat list \<Rightarrow> bool" where
  "redo_chain h grp a [] \<longleftrightarrow> True"
| "redo_chain h grp a (n # ns) \<longleftrightarrow>
     n_redo_child (node h a) = Some n \<and> n_group (node h n) = grp \<and> a < n \<and> n < length (h_nodes h) \<and>
     redo_chain h grp n ns"

lemma redo_chain_set: "p < a \<Longrightarrow> redo_chain h grp a ns \<Longrightarrow> redo_chain (set_redo_child p c h) grp a ns"
proof (induction ns arbitrary: a)
  case (Cons n ns)
  then show ?case by (simp add: redo_child_set same_tree_node(4) [OF same_tree_set_redo_child])
qed simp

lemma redo_chain_updates [simp]:
  "redo_chain (h\<lparr>h_current := x\<rparr>) grp a ns = redo_chain h grp a ns"
  "redo_chain (h\<lparr>h_last_was_nav := v\<rparr>) grp a ns = redo_chain h grp a ns"
  by (induction ns arbitrary: a) simp_all

lemma undo_loop_chain:
  "tree_inv h \<Longrightarrow> h_current h < length (h_nodes h) \<Longrightarrow> redo_chain h grp (h_current h) path \<Longrightarrow>
   last (h_current h # path) = c0 \<Longrightarrow> undo_loop fuel grp h w = Some (h', w') \<Longrightarrow>
     h_current h' \<le> h_current h \<and> same_tree h h' \<and>
     (\<exists>path'. redo_chain h' grp (h_current h') path' \<and> last (h_current h' # path') = c0)"
proof (induction fuel arbitrary: h path w)
  case (Suc fuel)
  obtain out groups ns cur where w: "w = (out, groups, ns, cur)" by (cases w)
  let ?c = "h_current h"
  show ?case
  proof (cases "n_parent (node h ?c) = None \<or> n_group (node h ?c) \<noteq> grp")
    case True
    then have "h' = h" using Suc.prems(5) unfolding w by (auto simp: Let_def split: option.splits)
    with Suc.prems(3,4) show ?thesis by (intro conjI exI [of _ path]) simp_all
  next
    case False
    then obtain p where p: "n_parent (node h ?c) = Some p" and g: "n_group (node h ?c) = grp" by auto
    note pd = tree_parentD [OF Suc.prems(1,2) p]
    define h1 where "h1 = (set_redo_child p ?c h)\<lparr>h_current := p\<rparr>"
    have st: "same_tree h h1" by (simp add: h1_def)
    obtain w1 where r: "undo_loop fuel grp h1 w1 = Some (h', w')"
      using Suc.prems(5) p g unfolding w by (auto simp: Let_def h1_def split: option.splits)
    have "redo_chain h1 grp p (?c # path)"
      using pd(1,4) Suc.prems(2,3) g redo_chain_set [OF pd(1) Suc.prems(3)]
      by (simp add: h1_def redo_child_set same_tree_node(4) [OF same_tree_set_redo_child])
    then have "h_current h' \<le> h_current h1 \<and> same_tree h1 h' \<and>
        (\<exists>path'. redo_chain h' grp (h_current h') path' \<and> last (h_current h' # path') = c0)"
      using Suc.prems(4) pd(4) tree_inv_same [OF st Suc.prems(1)]
      by (intro Suc.IH [OF _ _ _ _ r, of "?c # path"]) (simp_all add: h1_def)
    then show ?thesis using pd(1) same_tree_trans [OF st] by (auto simp: h1_def)
  qed
qed simp

lemma redo_loop_chain:
  "redo_chain h grp n path \<Longrightarrow>
   (case redo_target h (last (n # path)) of None \<Rightarrow> True | Some c \<Rightarrow> n_group (node h c) \<noteq> grp) \<Longrightarrow>
   redo_loop fuel grp n h w = Some (h', w') \<Longrightarrow> h_current h' = last (n # path)"
proof (induction fuel arbitrary: h n path w)
  case (Suc fuel)
  obtain out groups ns cur where w: "w = (out, groups, ns, cur)" by (cases w)
  define h1 where "h1 = h\<lparr>h_current := n\<rparr>"
  have t1: "redo_target h1 m = redo_target h m" "n_group (node h1 m) = n_group (node h m)" for m
    by (simp_all add: h1_def redo_target_def cong: option.case_cong)
  show ?case
  proof (cases path)
    case Nil
    then show ?thesis using Suc.prems unfolding w by (auto simp: Let_def split: option.splits if_splits)
  next
    case (Cons m ms)
    then have t: "redo_target h n = Some m" "n_group (node h m) = grp"
      using Suc.prems(1) by (simp_all add: redo_target_def)
    then obtain w1 where "redo_loop fuel grp m h1 w1 = Some (h', w')"
      using Suc.prems(3) unfolding w by (auto simp: Let_def h1_def split: option.splits)
    moreover have "redo_chain h1 grp m ms" using Suc.prems(1) Cons by (simp add: h1_def)
    moreover have "case redo_target h1 (last (m # ms)) of None \<Rightarrow> True | Some c \<Rightarrow> n_group (node h1 c) \<noteq> grp"
      using Suc.prems(2) Cons by (simp only: t1 last.simps list.distinct if_False)
    ultimately show ?thesis using Suc.IH [of h1 m ms w1] Cons by simp
  qed
qed simp

lemma tip_child_group:
  assumes "tree_inv h" "tree_groups h" "tip h i" "i < length (h_nodes h)" "c \<in> set (n_children (node h i))"
  shows "n_group (node h c) \<noteq> n_group (node h i)"
proof
  assume eq: "n_group (node h c) = n_group (node h i)"
  note cd = tree_child [OF assms(1,4,5)]
  have "n_group (node h i) \<le> n_group (node h (Suc i))" "n_group (node h (Suc i)) \<le> n_group (node h c)"
    using groups_mono [OF assms(2)] cd by simp_all
  then have "n_group (node h (Suc i)) = n_group (node h i)" using eq by simp
  then show False using assms(3) cd by (simp add: tip_def)
qed

section \<open>The contract of the history, for any change type\<close>

context edit_algebra
begin

lemma chrono_step:
  assumes "hist_inv h" "tree_texts h T"
  shows "case chrono_target h older of
      None \<Rightarrow> to_chronological h older = None
    | Some t \<Rightarrow> \<exists>s h'. to_chronological h older = Some (s, h') \<and> step_ok h T s h' \<and> h_current h' = t"
proof (cases "chrono_target h older")
  case (Some t)
  note t = chrono_target_SomeD [OF Some]
  have "t \<noteq> h_current h" using t(3) by (auto split: if_splits)
  from navigate_step [OF assms t(1) this t(2)] Some show ?thesis
    by (simp add: to_chronological_target [OF assms(1)])
qed (simp add: to_chronological_target [OF assms(1)])

lemma undo_then_redo:
  assumes "hist_inv h" "tree_texts h T" "undo h = Some (s, h')"
  shows "\<exists>s2 h2. redo h' = Some (s2, h2) \<and> step_ok h' T s2 h2 \<and> h_current h2 = h_current h"
proof -
  note i = hist_invD [OF assms(1)]
  let ?c = "h_current h" and ?g = "n_group (node h (h_current h))"
  have ok: "step_ok h T s h'" using undo_step [OF assms(1,2)] assms(3) by (auto split: if_splits)
  then have i': "hist_inv h'" "tree_texts h' T" and st: "same_tree h h'" by (simp_all add: step_ok_def)
  note j = hist_invD [OF i'(1)]
  obtain h1 w where r: "undo_loop (length (h_nodes h)) ?g h ([], [], [], 0) = Some (h1, w)"
    and h1: "h' = h1\<lparr>h_last_was_nav := True\<rparr>" and up: "n_parent (node h ?c) \<noteq> None"
    using assms(3) by (auto simp: undo_def split: option.splits if_splits)
  obtain path where path: "redo_chain h' ?g (h_current h') path" "last (h_current h' # path) = ?c"
    using undo_loop_chain [OF i(1,3) _ _ r, of "[]" ?c] h1 by auto
  have "?c < length (h_nodes h')" using i(3) same_tree_length [OF st] by simp
  moreover have "tip h' ?c" using tip_same [OF st i(3)] i(5) by simp
  ultimately have "n_group (node h' c) \<noteq> ?g" if "redo_target h' ?c = Some c" for c
    using tip_child_group [OF j(1,4) _ _ redo_target_child [OF j(2) _ that]] same_tree_node(4) [OF st i(3)] by simp
  then have stop: "case redo_target h' ?c of None \<Rightarrow> True | Some c \<Rightarrow> n_group (node h' c) \<noteq> ?g"
    by (simp split: option.splits)
  have "h_current h' \<noteq> ?c"
    using undo_loop_stops [OF assms(1,2) r] up h1 same_tree_node(1,4) [OF st i(3)] by auto
  then obtain n ns where ns: "path = n # ns" using path(2) by (cases path) auto
  then have t: "redo_target h' (h_current h') = Some n" "n_group (node h' n) = ?g"
    using path(1) by (simp_all add: redo_target_def)
  then have "can_redo h'" using redo_target_None_iff [OF j(2,3)] by (simp add: can_redo_def)
  then obtain s2 h2 where r2: "redo h' = Some (s2, h2)" "step_ok h' T s2 h2" using redo_step [OF i'] by auto
  then obtain h3 w3 where r3: "redo_loop (length (h_nodes h')) ?g n h' ([], [], [], 0) = Some (h3, w3)"
    and h3: "h_current h2 = h_current h3"
    using t by (auto simp: redo_def split: option.splits)
  have "h_current h3 = last (n # ns)"
    by (rule redo_loop_chain [OF _ _ r3]) (use path ns stop in simp_all)
  with r2 h3 path(2) ns show ?thesis by auto
qed

lemma record_texts:
  assumes "hist_inv h" "tree_texts h T" "valid f (T (h_current h))"
    and "h' = record_change h f (invert f (T (h_current h))) og hint rv cur"
  shows "tree_texts h' (T(length (h_nodes h) := apply_ch f (T (h_current h))))"
proof -
  let ?n = "length (h_nodes h)"
  note i = hist_invD [OF assms(1)]
  note sel = record_change_sel [OF i(3) assms(4)] and old = record_change_old [OF i(3) assms(4)]
  have "edge_text h' (T(?n := apply_ch f (T (h_current h)))) j" if "j < Suc ?n" for j
  proof (cases "j < ?n")
    case True
    have e: "edge_text h T j" using assms(2) True by (simp add: tree_texts_def)
    show ?thesis
    proof (cases "n_parent (node h j)")
      case (Some p)
      then have "p < ?n" using tree_parentD(4) [OF i(1) True] by simp
      with e True Some show ?thesis by (auto simp: edge_text_def old split: option.splits)
    qed (simp add: edge_text_def old True)
  next
    case False
    then show ?thesis using that sel(8) i(3) assms(3) by (simp add: edge_text_def less_Suc_eq)
  qed
  then show ?thesis by (simp add: tree_texts_def sel(1))
qed

lemma new_texts: "tree_texts (history_new rv) T"
  by (simp add: tree_texts_def edge_text_def history_new_def)

lemma sync_texts: "tree_texts (sync h) T = tree_texts h T"
  by (simp add: tree_texts_def edge_text_def sync_def)

end

section \<open>Histories of edit lists\<close>

text \<open>
  The histories a document can reach: a new one, then changes that fit the text of the current node, syncs
  and steps, in any order.  \<open>T\<close> is the text of each node.
\<close>

inductive hist_reach :: "edit_list undo_history \<Rightarrow> (nat \<Rightarrow> bytes) \<Rightarrow> bool" where
  reach_new: "hist_reach (history_new rv) T"
| reach_record: "hist_reach h T \<Longrightarrow> edits_valid f (T (h_current h)) \<Longrightarrow>
    hist_reach (record_change h f (inverse_edits f (T (h_current h))) og hint rv cu)
      (T(length (h_nodes h) := apply_to f (T (h_current h))))"
| reach_sync: "hist_reach h T \<Longrightarrow> hist_reach (sync h) T"
| reach_undo: "hist_reach h T \<Longrightarrow> undo h = Some (s, h') \<Longrightarrow> hist_reach h' T"
| reach_redo: "hist_reach h T \<Longrightarrow> redo h = Some (s, h') \<Longrightarrow> hist_reach h' T"
| reach_chrono: "hist_reach h T \<Longrightarrow> to_chronological h older = Some (s, h') \<Longrightarrow> hist_reach h' T"

lemma step_ok_of:
  assumes "hist_inv h" "ea.tree_texts h T"
  shows "undo h = Some (s, h') \<Longrightarrow> ea.step_ok h T s h'" "redo h = Some (s, h') \<Longrightarrow> ea.step_ok h T s h'"
    "to_chronological h older = Some (s, h') \<Longrightarrow> ea.step_ok h T s h'"
  using ea.undo_step [OF assms] ea.redo_step [OF assms] ea.chrono_step [OF assms, of older]
  by (auto split: if_splits option.splits)

lemma hist_reach_inv: "hist_reach h T \<Longrightarrow> hist_inv h \<and> ea.tree_texts h T"
proof (induction rule: hist_reach.induct)
  case (reach_new rv T)
  show ?case by (simp add: history_new_hist_inv ea.new_texts)
next
  case (reach_record h T f og hint rv cu)
  then show ?case
    by (intro conjI record_change_hist_inv [OF _ refl] ea.record_texts [OF _ _ _ refl]) simp_all
next
  case (reach_sync h T)
  then show ?case by (simp add: sync_hist_inv ea.sync_texts)
next
  case (reach_undo h T s h')
  then have "ea.step_ok h T s h'" using step_ok_of(1) by blast
  then show ?case by (simp add: ea.step_ok_def)
next
  case (reach_redo h T s h')
  then have "ea.step_ok h T s h'" using step_ok_of(2) by blast
  then show ?case by (simp add: ea.step_ok_def)
next
  case (reach_chrono h T older s h')
  then have "ea.step_ok h T s h'" using step_ok_of(3) by blast
  then show ?case by (simp add: ea.step_ok_def)
qed

lemma reach_one:
  "hist_reach (record_change (history_new 0) [edit_insert 0 [104]] (inverse_edits [edit_insert 0 [104]] []) UserInput Continue 1 0)
     ((\<lambda>_. [])(1 := [104]))"
proof -
  have "edits_valid [edit_insert 0 [104]] ((\<lambda>_. []) (h_current (history_new 0 :: edit_list undo_history)))"
    by (simp add: edits_valid_def edits_wf_def changes_something_def edit_insert_def edit_end_def)
  from reach_record [OF reach_new this, where og=UserInput and hint=Continue and rv=1 and cu=0]
  show ?thesis by (simp add: history_new_def apply_to_def edit_insert_def edit_end_def)
qed

section \<open>Properties\<close>

text \<open>The undo history keeps every condition its own \<^verbatim>\<open>assert_invariants\<close> checks (the tree edges, creation
  order, issued groups, redo targets among the children), whatever sequence of changes, syncs, undos, redos
  and chronological steps led to it; and \<^verbatim>\<open>undo\<close> and \<^verbatim>\<open>redo\<close> return a step exactly when
  \<^verbatim>\<open>can_undo\<close> and \<^verbatim>\<open>can_redo\<close> say so (their loops end, and none of their \<^verbatim>\<open>expect\<close>s fails).\<close>

theorem history_invariants:
  assumes "hist_reach h T"
  shows "assert_invariants h \<and> (undo h = None \<longleftrightarrow> \<not> can_undo h) \<and> (redo h = None \<longleftrightarrow> \<not> can_redo h)"
proof -
  have i: "hist_inv h" "ea.tree_texts h T" using hist_reach_inv [OF assms] by simp_all
  then have "assert_invariants h" by (simp add: hist_inv_def)
  then show ?thesis using ea.undo_step [OF i] ea.redo_step [OF i] by (auto split: if_splits)
qed

theorem history_invariants_witness:
  "assert_invariants (record_change (history_new 0) [edit_insert 0 [104]] (inverse_edits [edit_insert 0 [104]] []) UserInput Continue 1 0)"
  using history_invariants [OF reach_one] by simp

text \<open>
  C15: undoing restores the text exactly, and by whole groups: the inverse edit lists of the step are all
  applicable in order, they turn the text of the current node into the text of the node the history moves to,
  and that node is the root or belongs to another group.  A redo right after it returns to the node that was
  left, and its edit lists bring its text back byte for byte.\<close>

theorem undo_then_redo_restores:
  assumes "hist_reach h T" "undo h = Some (s, h')"
  shows "ea.chain_valid (s_edits s) (T (h_current h)) \<and>
      fold apply_to (s_edits s) (T (h_current h)) = T (h_current h') \<and>
      (n_parent (node h' (h_current h')) = None \<or> current_group h' \<noteq> current_group h) \<and>
      (\<exists>s2 h2. redo h' = Some (s2, h2) \<and> h_current h2 = h_current h \<and>
         fold apply_to (s_edits s2) (fold apply_to (s_edits s) (T (h_current h))) = T (h_current h))"
proof -
  have i: "hist_inv h" "ea.tree_texts h T" using hist_reach_inv [OF assms(1)] by simp_all
  have "ea.step_ok h T s h'" by (rule step_ok_of(1) [OF i assms(2)])
  then have f: "ea.chain_valid (s_edits s) (T (h_current h))"
    "fold apply_to (s_edits s) (T (h_current h)) = T (h_current h')"
    by (simp_all add: ea.step_ok_def ea.leads_def)
  obtain h1 w where r: "undo_loop (length (h_nodes h)) (current_group h) h ([], [], [], 0) = Some (h1, w)"
    and h1: "h' = h1\<lparr>h_last_was_nav := True\<rparr>"
    using assms(2) by (auto simp: undo_def current_group_def split: option.splits if_splits)
  from ea.undo_loop_stops [OF i r] have
    g: "n_parent (node h' (h_current h')) = None \<or> current_group h' \<noteq> current_group h"
    by (simp add: h1 current_group_def)
  from ea.undo_then_redo [OF i assms(2)] f have "\<exists>s2 h2. redo h' = Some (s2, h2) \<and> h_current h2 = h_current h \<and>
      fold apply_to (s_edits s2) (fold apply_to (s_edits s) (T (h_current h))) = T (h_current h)"
    by (auto simp: ea.step_ok_def ea.leads_def)
  with f g show ?thesis by simp
qed

theorem undo_then_redo_restores_witness:
  "\<exists>s2 h2. redo (snd (the (undo (record_change (history_new 0) [edit_insert 0 [104]]
       (inverse_edits [edit_insert 0 [104]] []) UserInput Continue 1 0)))) = Some (s2, h2) \<and> h_current h2 = 1"
proof -
  let ?h = "record_change (history_new 0) [edit_insert 0 [104]] (inverse_edits [edit_insert 0 [104]] []) UserInput Continue 1 0"
  have c: "h_current ?h = 1" and u: "can_undo ?h"
    by (simp_all add: can_undo_def record_change_def history_new_def group_for_def fresh_group_def)
  have "undo ?h \<noteq> None" using ea.undo_step hist_reach_inv [OF reach_one] u by (metis option.distinct(1))
  then obtain s h' where s: "undo ?h = Some (s, h')" by auto
  from undo_then_redo_restores [OF reach_one s] s c show ?thesis by auto
qed

text \<open>
  C16: \<^verbatim>\<open>g-\<close> and \<^verbatim>\<open>g+\<close> step through the states after each logical change in creation order, across
  branches: \<^verbatim>\<open>to_chronological\<close> returns nothing exactly when there is no older (newer) group tip, and
  otherwise moves to the nearest one, with edit lists that are applicable in order and produce its text.\<close>

theorem chronological_step_correct:
  assumes "hist_reach h T"
  shows "case chrono_target h older of
      None \<Rightarrow> to_chronological h older = None
    | Some t \<Rightarrow> \<exists>s h'. to_chronological h older = Some (s, h') \<and> h_current h' = t \<and>
        ea.chain_valid (s_edits s) (T (h_current h)) \<and> fold apply_to (s_edits s) (T (h_current h)) = T t"
proof -
  have i: "hist_inv h" "ea.tree_texts h T" using hist_reach_inv [OF assms] by simp_all
  from ea.chrono_step [OF i, of older] show ?thesis
    by (auto simp: ea.step_ok_def ea.leads_def split: option.splits)
qed

theorem chronological_step_correct_witness:
  "\<exists>s h'. to_chronological (record_change (history_new 0) [edit_insert 0 [104]]
      (inverse_edits [edit_insert 0 [104]] []) UserInput Continue 1 0) True = Some (s, h') \<and> h_current h' = 0"
proof -
  let ?h = "record_change (history_new 0) [edit_insert 0 [104]] (inverse_edits [edit_insert 0 [104]] []) UserInput Continue 1 0"
  have "chrono_target ?h True = Some 0"
    by (simp add: chrono_target_def tip_def record_change_def history_new_def group_for_def fresh_group_def
        last_opt_def upt_rec)
  with chronological_step_correct [OF reach_one, of True] show ?thesis by auto
qed

text \<open>A change joins the group of the change before it exactly when it follows it directly (no undo, redo or
  chronological step in between, and not at the root) and either asks to (\<^verbatim>\<open>JoinPrev\<close>) or continues it with
  the same origin and no sync in between; a change of another origin never merges.  Otherwise its group is
  new: no node of the history has it.\<close>

theorem grouping_by_origin:
  assumes "hist_reach h T" "h' = record_change h f b og hint rv cu"
  shows "if n_parent (node h (h_current h)) \<noteq> None \<and> \<not> h_last_was_nav h \<and>
           (hint = JoinPrev \<or> hint = Continue \<and> \<not> h_synced h \<and> n_origin (node h (h_current h)) = Some og)
         then current_group h' = current_group h
         else current_group h' \<notin> n_group ` set (h_nodes h)"
proof -
  have i: "hist_inv h" using hist_reach_inv [OF assms(1)] by simp
  note d = hist_invD [OF i] and sel = record_change_sel [OF hist_invD(3) [OF i] assms(2)]
  have "current_group h' = fst (group_for h og hint)" by (simp add: current_group_def sel)
  moreover have "h_next_group h \<notin> n_group ` set (h_nodes h)"
    using d(1) by (auto simp: tree_inv_def node_invariants_def in_set_conv_nth)
  ultimately show ?thesis
    by (cases hint) (auto simp: group_for_def fresh_group_def Let_def current_group_def)
qed

theorem grouping_by_origin_witness:
  "current_group (record_change (record_change (history_new 0) [edit_insert 0 [104]]
     (inverse_edits [edit_insert 0 [104]] []) UserInput Continue 1 0) [] [] UserInput Continue 2 0) = 1"
proof -
  let ?h = "record_change (history_new 0) [edit_insert 0 [104]] (inverse_edits [edit_insert 0 [104]] []) UserInput Continue 1 0"
  have "n_parent (node ?h (h_current ?h)) \<noteq> None" "\<not> h_last_was_nav ?h" "\<not> h_synced ?h"
    "n_origin (node ?h (h_current ?h)) = Some UserInput" "current_group ?h = 1"
    by (simp_all add: record_change_def history_new_def group_for_def fresh_group_def current_group_def)
  with grouping_by_origin [OF reach_one refl, where f="[]" and b="[]" and og=UserInput and hint=Continue and rv=2 and cu=0]
  show ?thesis by simp
qed

end
