(* ===== verification/Change_Log.thy ===== *)
theory Change_Log
  imports Transactions
begin

text \<open>
  The bounded, drainable change log a recovery journal is written from (\<^verbatim>\<open>crates/core/src/change_log.rs\<close>).
  \<open>log_inv\<close> says what the log owes its reader: while it records, its entries chain, revision to revision
  and text to text, from the state at the last drain to the current one, and otherwise it holds nothing.
  \<open>writer\<close> is the reader's side: what it makes of a drain.
\<close>

section \<open>Definitions\<close>

datatype change_kind =
    Fresh nat nat
  | Navigate nat

record change_entry =
  c_base_revision :: revision
  c_result_revision :: revision
  c_origin :: transaction_origin
  c_group_hint :: group_hint
  c_forward :: edit_list
  c_inverse :: edit_list
  c_kind :: change_kind

definition EDIT_OVERHEAD :: nat where
  "EDIT_OVERHEAD = 16"

definition list_bytes :: "edit_list \<Rightarrow> nat" where
  "list_bytes es = sum_list (map (\<lambda>e. length (eins e) + EDIT_OVERHEAD) es)"

definition payload_bytes :: "change_entry \<Rightarrow> nat" where
  "payload_bytes e = list_bytes (c_forward e) + list_bytes (c_inverse e)"

record change_log_cap =
  cap_entries :: nat
  cap_bytes :: nat

definition default_cap :: change_log_cap where
  "default_cap = \<lparr>cap_entries = 4096, cap_bytes = 8 * 2 ^ 20\<rparr>"

datatype checkpoint_reason = NotRecording | Started | Overflow

datatype change_drain =
    Changes "change_entry list"
  | Checkpoint checkpoint_reason bytes revision nat

record change_log =
  l_recording :: bool
  l_entries :: "change_entry list"
  l_bytes :: nat
  l_lost :: "checkpoint_reason option"
  l_cap :: change_log_cap

definition log_default :: change_log where
  "log_default = \<lparr>l_recording = False, l_entries = [], l_bytes = 0, l_lost = None, l_cap = default_cap\<rparr>"

definition wants :: "change_log \<Rightarrow> bool" where
  "wants l \<longleftrightarrow> l_recording l \<and> l_lost l = None"

definition is_recording :: "change_log \<Rightarrow> bool" where
  "is_recording l = l_recording l"

definition log_clear :: "change_log \<Rightarrow> change_log" where
  "log_clear l = l\<lparr>l_entries := [], l_bytes := 0, l_lost := None\<rparr>"

definition set_recording :: "change_log \<Rightarrow> bool \<Rightarrow> change_log" where
  "set_recording l on =
     (if on = l_recording l then l
      else let l' = log_clear (l\<lparr>l_recording := on\<rparr>) in
           if on then l'\<lparr>l_lost := Some Started\<rparr> else l')"

definition set_cap :: "change_log \<Rightarrow> change_log_cap \<Rightarrow> change_log" where
  "set_cap l cap = l\<lparr>l_cap := cap\<rparr>"

text \<open>\<open>push\<close>; the sum of the bytes saturates at the largest \<^verbatim>\<open>usize\<close>.\<close>

definition log_push :: "change_log \<Rightarrow> change_entry \<Rightarrow> change_log" where
  "log_push l entry =
     (if \<not> wants l then l
      else let bytes = min (l_bytes l + payload_bytes entry) (2 ^ 64 - 1) in
           if cap_entries (l_cap l) \<le> length (l_entries l) \<or> cap_bytes (l_cap l) < bytes
           then (log_clear l)\<lparr>l_lost := Some Overflow\<rparr>
           else l\<lparr>l_bytes := bytes, l_entries := l_entries l @ [entry]\<rparr>)"

definition drain :: "change_log \<Rightarrow> bytes \<Rightarrow> revision \<Rightarrow> nat \<Rightarrow> change_drain \<times> change_log" where
  "drain l tx rv nd =
     (let (reason, l1) = (if l_recording l then (l_lost l, l\<lparr>l_lost := None\<rparr>) else (Some NotRecording, l)) in
      case reason of
        Some r \<Rightarrow> (Checkpoint r tx rv nd, log_clear l1)
      | None \<Rightarrow> (Changes (l_entries l1), l1\<lparr>l_bytes := 0, l_entries := []\<rparr>))"

section \<open>The writer, and what the log owes it\<close>

definition writer :: "change_drain \<Rightarrow> bytes \<Rightarrow> bytes" where
  "writer dr base =
     (case dr of Changes es \<Rightarrow> fold (\<lambda>e t. apply_to (c_forward e) t) es base | Checkpoint r tx rv nd \<Rightarrow> tx)"

definition unwriter :: "change_entry list \<Rightarrow> bytes \<Rightarrow> bytes" where
  "unwriter es t = fold (\<lambda>e t. apply_to (c_inverse e) t) (rev es) t"

fun log_chain :: "change_entry list \<Rightarrow> revision \<Rightarrow> bytes \<Rightarrow> revision \<Rightarrow> bytes \<Rightarrow> bool" where
  "log_chain [] r t r' t' \<longleftrightarrow> r = r' \<and> t = t'"
| "log_chain (e # es) r t r' t' \<longleftrightarrow>
     c_base_revision e = r \<and> c_result_revision e = next_rev r \<and> edits_valid (c_forward e) t \<and>
     c_inverse e = inverse_edits (c_forward e) t \<and>
     log_chain es (c_result_revision e) (apply_to (c_forward e) t) r' t'"

definition log_bounded :: "change_log \<Rightarrow> bool" where
  "log_bounded l \<longleftrightarrow> l_bytes l = min (sum_list (map payload_bytes (l_entries l))) (2 ^ 64 - 1)"

definition log_inv :: "change_log \<Rightarrow> revision \<Rightarrow> bytes \<Rightarrow> revision \<Rightarrow> bytes \<Rightarrow> bool" where
  "log_inv l r t r' t' \<longleftrightarrow> log_bounded l \<and> (if wants l then log_chain (l_entries l) r t r' t' else l_entries l = [])"

section \<open>Lemmas\<close>

lemma log_chain_snoc:
  "log_chain (es @ [e]) r t r' t' \<longleftrightarrow>
     (\<exists>r1 t1. log_chain es r t r1 t1 \<and> c_base_revision e = r1 \<and> c_result_revision e = next_rev r1 \<and>
        edits_valid (c_forward e) t1 \<and> c_inverse e = inverse_edits (c_forward e) t1 \<and>
        r' = c_result_revision e \<and> t' = apply_to (c_forward e) t1)"
  by (induction es arbitrary: r t) auto

lemma log_chain_forward: "log_chain es r t r' t' \<Longrightarrow> fold (\<lambda>e t. apply_to (c_forward e) t) es t = t'"
  by (induction es arbitrary: r t) auto

lemma log_chain_backward: "log_chain es r t r' t' \<Longrightarrow> unwriter es t' = t"
proof (induction es arbitrary: r t)
  case (Cons e es)
  then have v: "edits_valid (c_forward e) t" "c_inverse e = inverse_edits (c_forward e) t"
    and u: "unwriter es t' = apply_to (c_forward e) t" by auto
  have "unwriter (e # es) t' = apply_to (c_inverse e) (unwriter es t')" by (simp add: unwriter_def)
  with v u show ?case by (simp add: ea.apply_invert)
qed (simp add: unwriter_def)

lemma log_default_inv: "log_inv log_default r t r' t'"
  by (simp add: log_inv_def log_default_def wants_def log_bounded_def)

lemma log_clear_simps [simp]:
  "l_entries (log_clear l) = []" "l_bytes (log_clear l) = 0" "l_lost (log_clear l) = None"
  "l_recording (log_clear l) = l_recording l" "l_cap (log_clear l) = l_cap l"
  by (simp_all add: log_clear_def)

lemma set_recording_inv: "log_inv l r t r' t' \<Longrightarrow> log_inv (set_recording l on) r t r' t'"
  by (auto simp: log_inv_def set_recording_def wants_def log_bounded_def Let_def)

lemma set_cap_inv: "log_inv l r t r' t' \<Longrightarrow> log_inv (set_cap l cap) r t r' t'"
  by (simp add: log_inv_def set_cap_def wants_def log_bounded_def)

text \<open>An entry that records the step from the current text keeps the chain; without it the log is silent.\<close>

lemma log_push_inv:
  assumes "log_inv l r t r1 t1" "c_base_revision e = r1" "c_result_revision e = next_rev r1"
    and "edits_valid (c_forward e) t1" "c_inverse e = inverse_edits (c_forward e) t1"
  shows "log_inv (log_push l e) r t (next_rev r1) (apply_to (c_forward e) t1)"
proof (cases "wants l")
  case False
  then show ?thesis using assms(1) by (simp add: log_inv_def log_push_def)
next
  case True
  then have c: "log_chain (l_entries l) r t r1 t1" and b: "log_bounded l" using assms(1) by (simp_all add: log_inv_def)
  from c assms have "log_chain (l_entries l @ [e]) r t (next_rev r1) (apply_to (c_forward e) t1)"
    by (auto simp: log_chain_snoc)
  with True b show ?thesis
    by (auto simp: log_inv_def log_push_def wants_def log_bounded_def Let_def)
qed

lemma log_inv_silent: "\<not> wants l \<Longrightarrow> log_inv l r t r1 t1 \<Longrightarrow> log_inv l r t r2 t2"
  by (simp add: log_inv_def)

lemma drain_inv: "log_inv (snd (drain l t' r' nd)) r' t' r' t'"
  by (auto simp: drain_def log_inv_def wants_def log_bounded_def split: option.splits if_splits)

lemma drain_writer:
  assumes "log_inv l r t r' t'"
  shows "writer (fst (drain l t' r' nd)) t = t'"
  using assms log_chain_forward [of "l_entries l" r t r' t']
  by (auto simp: drain_def log_inv_def wants_def writer_def split: option.splits if_splits)

section \<open>Properties\<close>

text \<open>A drain loses nothing.  If the log's entries chain from the state at the last drain to the current
  one, what the writer makes of the drain is the current text: either the entries replayed over its base, or
  a checkpoint of the whole text; the deltas it gets undo back to its base too, and the emptied log starts a
  new chain at the current state.\<close>

theorem drain_reproduces_text:
  assumes "log_inv l r t r' t'"
  shows "writer (fst (drain l t' r' nd)) t = t' \<and>
    (case fst (drain l t' r' nd) of
       Changes es \<Rightarrow> unwriter es t' = t \<and> log_chain es r t r' t'
     | Checkpoint reason tx rv n \<Rightarrow> tx = t' \<and> rv = r' \<and> n = nd) \<and>
    log_inv (snd (drain l t' r' nd)) r' t' r' t' \<and> l_entries (snd (drain l t' r' nd)) = []"
proof -
  have "case fst (drain l t' r' nd) of
       Changes es \<Rightarrow> unwriter es t' = t \<and> log_chain es r t r' t'
     | Checkpoint reason tx rv n \<Rightarrow> tx = t' \<and> rv = r' \<and> n = nd"
    using assms log_chain_backward [of "l_entries l" r t r' t']
    by (auto simp: drain_def log_inv_def wants_def split: option.splits if_splits)
  moreover have "l_entries (snd (drain l t' r' nd)) = []"
    by (auto simp: drain_def split: option.splits if_splits)
  ultimately show ?thesis using drain_writer [OF assms] drain_inv by blast
qed

theorem drain_reproduces_text_witness:
  "let e = \<lparr>c_base_revision = 3, c_result_revision = 4, c_origin = UserInput, c_group_hint = Continue,
            c_forward = [edit_insert 0 [104]], c_inverse = [edit_delete 0 1], c_kind = Fresh 1 0\<rparr>;
       l = \<lparr>l_recording = True, l_entries = [e], l_bytes = 33, l_lost = None, l_cap = default_cap\<rparr> in
   writer (fst (drain l [104, 105] 4 1)) [105] = [104, 105]"
proof -
  let ?e = "\<lparr>c_base_revision = 3, c_result_revision = 4, c_origin = UserInput, c_group_hint = Continue,
            c_forward = [edit_insert 0 [104]], c_inverse = [edit_delete 0 1], c_kind = Fresh 1 0\<rparr>"
  let ?l = "\<lparr>l_recording = True, l_entries = [?e], l_bytes = 33, l_lost = None, l_cap = default_cap\<rparr>"
  have "log_inv ?l 3 [105] 4 [104, 105]"
    by (simp add: log_inv_def log_bounded_def wants_def payload_bytes_def list_bytes_def EDIT_OVERHEAD_def
        edit_insert_def edit_delete_def next_rev_def edits_valid_def edits_wf_def changes_something_def
        edit_end_def apply_to_def inverse_edits_def from_sorted_def push_inverse_def)
  from drain_reproduces_text [OF this, of 1] show ?thesis by simp
qed

text \<open>The log is bounded.  Pushing onto a log within its cap leaves a log within its cap, and an entry is
  never dropped silently: either it is the last entry of the log, or the log is empty and marked lost, so the
  next drain is a checkpoint.\<close>

theorem log_push_bounded:
  assumes "length (l_entries l) \<le> cap_entries (l_cap l)" "l_bytes l \<le> cap_bytes (l_cap l)" "wants l"
  shows "length (l_entries (log_push l e)) \<le> cap_entries (l_cap l) \<and> l_bytes (log_push l e) \<le> cap_bytes (l_cap l) \<and>
    (l_entries (log_push l e) = l_entries l @ [e] \<and> wants (log_push l e) \<or>
     l_entries (log_push l e) = [] \<and> l_lost (log_push l e) = Some Overflow \<and>
       (\<forall>tx rv nd. fst (drain (log_push l e) tx rv nd) = Checkpoint Overflow tx rv nd))"
  using assms by (auto simp: log_push_def wants_def drain_def Let_def)

theorem log_push_bounded_witness:
  "length (l_entries (log_push (log_default\<lparr>l_recording := True\<rparr>)
     \<lparr>c_base_revision = 0, c_result_revision = 1, c_origin = UserInput, c_group_hint = Continue,
      c_forward = [], c_inverse = [], c_kind = Navigate 0\<rparr>)) \<le> 4096"
  using log_push_bounded [of "log_default\<lparr>l_recording := True\<rparr>"
     "\<lparr>c_base_revision = 0, c_result_revision = 1, c_origin = UserInput, c_group_hint = Continue,
      c_forward = [], c_inverse = [], c_kind = Navigate 0\<rparr>"]
  by (simp add: log_default_def default_cap_def wants_def)

end
