(* ===== verification/Line_Undo.thy ===== *)
theory Line_Undo
  imports Edits
begin

text \<open>
  The line \<^verbatim>\<open>U\<close> restores (\<^verbatim>\<open>crates/core/src/line_undo.rs\<close>): which line is saved, how its number follows
  other edits, when it is dropped, and the swap that \<^verbatim>\<open>U\<close> applies.  \<open>saved_ok\<close> is the invariant of the saved
  copy (it is one line); every operation keeps it.
\<close>

section \<open>Definitions\<close>

record saved_line =
  sv_line :: nat
  sv_text :: bytes
  sv_col :: nat

record line_undo =
  lu_saved :: "saved_line option"
  lu_armed :: bool
  lu_cursor :: "nat option"

definition line_undo_default :: line_undo where
  "line_undo_default = \<lparr>lu_saved = None, lu_armed = False, lu_cursor = None\<rparr>"

definition bounds_at :: "bytes \<Rightarrow> nat \<Rightarrow> nat \<times> nat" where
  "bounds_at tx p =
     (let q = min p (length tx);
          start = (case rposition (\<lambda>b. b = newline) (take q tx) of None \<Rightarrow> 0 | Some i \<Rightarrow> i + 1);
          stop = (case position (\<lambda>b. b = newline) (drop q tx) of None \<Rightarrow> length tx | Some i \<Rightarrow> q + i)
      in (start, stop))"

fun nth_start :: "bytes \<Rightarrow> nat \<Rightarrow> nat \<Rightarrow> nat option" where
  "nth_start tx 0 start = Some start"
| "nth_start tx (Suc n) start =
     (case position (\<lambda>b. b = newline) (drop start tx) of
        None \<Rightarrow> None
      | Some i \<Rightarrow> nth_start tx n (start + i + 1))"

definition bounds_of :: "bytes \<Rightarrow> nat \<Rightarrow> (nat \<times> nat) option" where
  "bounds_of tx n = map_option (bounds_at tx) (nth_start tx n 0)"

definition lu_line_of :: "bytes \<Rightarrow> nat \<Rightarrow> nat" where
  "lu_line_of tx p = length (filter (\<lambda>b. b = newline) (take (min p (length tx)) tx))"

definition newlines :: "bytes \<Rightarrow> int" where
  "newlines bs = int (length (filter (\<lambda>b. b = newline) bs))"

definition changes_lines :: "bytes \<Rightarrow> edit_list \<Rightarrow> bool" where
  "changes_lines pre es \<longleftrightarrow>
     list_ex (\<lambda>e. newline \<in> set (eins e) \<or> newline \<in> set (slice (epos e) (edit_end e) pre)) es"

definition prime :: "line_undo \<Rightarrow> nat \<Rightarrow> bool \<Rightarrow> line_undo" where
  "prime lu cursor arm = lu\<lparr>lu_cursor := Some cursor, lu_armed := lu_armed lu \<or> arm\<rparr>"

definition lu_clear :: "line_undo \<Rightarrow> bool \<Rightarrow> line_undo" where
  "lu_clear lu disarm =
     (let lu' = lu\<lparr>lu_saved := None\<rparr> in if disarm then lu'\<lparr>lu_armed := False\<rparr> else lu')"

text \<open>
  \<open>survives s e pre ed\<close>: whether the saved line \<open>[s, e)\<close> outlives the edit, and the lines the edit adds
  before it when it touches its start.
\<close>

definition survives :: "nat \<Rightarrow> nat \<Rightarrow> bytes \<Rightarrow> edit \<Rightarrow> bool \<times> int" where
  "survives s e pre ed =
     (let p = epos ed; stop = edit_end ed; ins = eins ed in
      if e < p then (True, 0)
      else if p = e \<and> edel ed = 0 \<and> s < e then
        (case first_opt ins of None \<Rightarrow> True | Some b \<Rightarrow> b = newline, 0)
      else if stop = s \<and> (p < s \<or> s < e \<or> 0 < edel ed) then
        (let starts_line = (case last_opt ins of Some b \<Rightarrow> b = newline
                            | None \<Rightarrow> p = 0 \<or> pre ! (p - 1) = newline)
         in (starts_line, if starts_line then newlines ins - newlines (slice p stop pre) else 0))
      else if p = s \<and> s = e \<and> edel ed = 0 then
        (if last_opt ins = Some newline then (True, newlines ins) else (first_opt ins = Some newline, 0))
      else (stop < s, 0))"

fun follow_loop :: "nat \<Rightarrow> nat \<Rightarrow> bytes \<Rightarrow> edit list \<Rightarrow> int \<Rightarrow> int option" where
  "follow_loop s e pre [] shift = Some shift"
| "follow_loop s e pre (ed # eds) shift =
     (let (ok, added) = survives s e pre ed; shift1 = shift + added in
      if \<not> ok then None
      else follow_loop s e pre eds
             (if edit_end ed < s
              then shift1 + (newlines (eins ed) - newlines (slice (epos ed) (edit_end ed) pre)) else shift1))"

definition follow :: "line_undo \<Rightarrow> bytes \<Rightarrow> edit_list \<Rightarrow> line_undo" where
  "follow lu pre es =
     (case lu_saved lu of
        None \<Rightarrow> lu
      | Some sv \<Rightarrow>
          (case bounds_of pre (sv_line sv) of
             None \<Rightarrow> lu\<lparr>lu_saved := None\<rparr>
           | Some (s, e) \<Rightarrow>
               (case follow_loop s e pre es 0 of
                  None \<Rightarrow> lu\<lparr>lu_saved := None\<rparr>
                | Some shift \<Rightarrow>
                    lu\<lparr>lu_saved := Some (sv\<lparr>sv_line := nat (max (int (sv_line sv) + shift) 0)\<rparr>)\<rparr>)))"

definition on_edit :: "line_undo \<Rightarrow> bytes \<Rightarrow> edit_list \<Rightarrow> bool \<Rightarrow> line_undo" where
  "on_edit lu0 pre es fresh =
     (let cursor = lu_cursor lu0;
          lu = lu0\<lparr>lu_cursor := None, lu_armed := lu_armed lu0 \<or> fresh\<rparr>
      in if es = [] then lu
         else
           let lo = epos (hd es);
               one_line = newline \<notin> set (slice lo (edit_end (last es)) pre) \<and>
                          \<not> list_ex (\<lambda>e. newline \<in> set (eins e)) es
           in if one_line then
                (if lu_armed lu then
                   let lu1 = lu\<lparr>lu_armed := False\<rparr>; line = lu_line_of pre lo in
                   if map_option sv_line (lu_saved lu) \<noteq> Some line then
                     let (s, e) = bounds_at pre lo;
                         col = (case cursor of
                                  Some c \<Rightarrow> if s \<le> c \<and> c \<le> e then c - s else lo - s
                                | None \<Rightarrow> lo - s)
                     in lu1\<lparr>lu_saved := Some \<lparr>sv_line = line, sv_text = slice s e pre, sv_col = col\<rparr>\<rparr>
                   else lu1
                 else lu)
              else if \<not> changes_lines pre es then lu
              else if list_ex (\<lambda>e. newline \<in> set (slice (epos e) (edit_end e) pre) \<and>
                        (epos e = 0 \<or> pre ! (epos e - 1) = newline \<or> edit_end e = length pre)) es
              then lu\<lparr>lu_saved := None\<rparr>
              else follow lu pre es)"

definition on_reapply :: "line_undo \<Rightarrow> bytes \<Rightarrow> edit_list \<Rightarrow> line_undo" where
  "on_reapply lu pre es =
     (let lu' = lu\<lparr>lu_cursor := None\<rparr> in if changes_lines pre es then follow lu' pre es else lu')"

definition available :: "line_undo \<Rightarrow> bytes \<Rightarrow> bool" where
  "available lu tx \<longleftrightarrow> (case lu_saved lu of None \<Rightarrow> False | Some sv \<Rightarrow> bounds_of tx (sv_line sv) \<noteq> None)"

definition lu_swap :: "line_undo \<Rightarrow> bytes \<Rightarrow> nat \<Rightarrow> (nat \<times> nat \<times> bytes \<times> nat) option \<times> line_undo" where
  "lu_swap lu tx cursor =
     (case lu_saved lu of
        None \<Rightarrow> (None, lu)
      | Some sv \<Rightarrow>
          (case bounds_of tx (sv_line sv) of
             None \<Rightarrow> (None, lu\<lparr>lu_saved := None\<rparr>)
           | Some (s, e) \<Rightarrow>
               (Some (s, e, sv_text sv, sv_col sv),
                lu\<lparr>lu_saved := Some (sv\<lparr>sv_text := slice s e tx,
                                     sv_col := if s \<le> cursor \<and> cursor \<le> e then cursor - s else sv_col sv\<rparr>),
                   lu_cursor := None\<rparr>)))"

section \<open>Line bounds\<close>

lemma bounds_at_eq: "bounds_at tx p = (line_start tx p, line_end tx p)"
  by (simp add: bounds_at_def line_start_def line_end_def Let_def)

lemma lu_line_of_eq: "lu_line_of tx p = line_of tx p"
  by (simp add: lu_line_of_def line_of_def count_newlines_filter)

lemma newlines_eq: "newlines bs = int (count_newlines bs)"
  by (simp add: newlines_def count_newlines_filter)

text \<open>A position search over newlines gives the head of the list of line ends.\<close>

lemma position_ends:
  "position (\<lambda>b. b = newline) bs = (case ends_from k bs of [] \<Rightarrow> None | e # _ \<Rightarrow> Some (e - k - 1))"
proof (induction bs arbitrary: k)
  case (Cons b bs)
  note IH = Cons.IH
  show ?case
  proof (cases "b = newline")
    case False
    show ?thesis
    proof (cases "ends_from (Suc k) bs")
      case Nil
      then show ?thesis using False IH [of "Suc k"] by (simp del: ends_from_Nil_iff)
    next
      case (Cons e es)
      then have "Suc k < e" using ends_from_bounds [of e "Suc k" bs] by simp
      then have "Suc (e - Suc k - 1) = e - k - 1" by simp
      then show ?thesis using False IH [of "Suc k"] Cons by simp
    qed
  qed simp
qed simp

lemma ends_from_tail:
  assumes "ends_from k (drop k bs) = e # es" "k \<le> length bs"
  shows "es = ends_from e (drop e bs)" "k < e" "e \<le> length bs"
proof -
  show b: "k < e" "e \<le> length bs" using ends_from_bounds [of e k "drop k bs"] assms by auto
  have sp: "ends_from k (drop k bs) = ends_from k (slice k e bs) @ ends_from e (drop e bs)"
    using ends_from_append [of k "slice k e bs" "drop e bs"] b by (simp add: slice_append_drop)
  have "filter (\<lambda>s. s \<le> e) (ends_from e (drop e bs)) = []"
    using ends_from_bounds [of _ e "drop e bs"] by (fastforce simp: filter_empty_conv)
  moreover have "sorted_wrt (<) (e # es)" using assms(1) sorted_ends_from [of k "drop k bs"] by simp
  then have "filter (\<lambda>s. s \<le> e) es = []" by (auto simp: filter_empty_conv)
  moreover have "filter (\<lambda>s. s \<le> e) (ends_from k (slice k e bs)) = ends_from k (slice k e bs)"
    using ends_from_bounds [of _ k "slice k e bs"] b by (fastforce simp: filter_id_conv)
  ultimately have "ends_from k (slice k e bs) = [e]"
    using assms(1) sp by (metis append_Nil2 filter.simps(2) filter_append order_refl)
  with assms(1) sp show "es = ends_from e (drop e bs)" by simp
qed

lemma nth_start_ends:
  "k \<le> length tx \<Longrightarrow> nth_start tx n k = get_at (k # ends_from k (drop k tx)) n"
proof (induction n arbitrary: k)
  case (Suc n)
  show ?case
  proof (cases "ends_from k (drop k tx)")
    case Nil
    then show ?thesis using position_ends [of "drop k tx" k] by (simp add: get_at_def del: ends_from_Nil_iff)
  next
    case (Cons e es)
    note t = ends_from_tail [OF Cons Suc.prems]
    have "nth_start tx (Suc n) k = nth_start tx n e"
      using position_ends [of "drop k tx" k] Cons t(2) by simp
    then show ?thesis using Suc.IH [OF t(3)] t(1) Cons by (simp add: get_at_def)
  qed
qed (simp add: get_at_def)

lemma bounds_of_eq:
  "bounds_of tx n = (if n < length (starts_spec tx)
     then Some (starts_spec tx ! n, line_end tx (starts_spec tx ! n)) else None)"
proof -
  have "nth_start tx n 0 = get_at (starts_spec tx) n" using nth_start_ends [of 0 tx n] by (simp add: starts_spec_def)
  moreover have "line_start tx (starts_spec tx ! n) = starts_spec tx ! n" if "n < length (starts_spec tx)"
  proof (rule line_start_at_boundary)
    show "starts_spec tx ! n \<le> length tx" by (rule starts_spec_nth_bounds [OF that])
    have "starts_spec tx ! n \<in> set (starts_spec tx)" using that by simp
    then show "starts_spec tx ! n = 0 \<or> tx ! (starts_spec tx ! n - 1) = newline"
      by (auto simp: starts_spec_def mem_ends_from)
  qed
  ultimately show ?thesis by (simp add: bounds_of_def get_at_def bounds_at_eq)
qed

section \<open>The invariant of the saved copy\<close>

definition saved_ok :: "line_undo \<Rightarrow> bool" where
  "saved_ok lu \<longleftrightarrow> (case lu_saved lu of None \<Rightarrow> True
     | Some sv \<Rightarrow> newline \<notin> set (sv_text sv))"

lemma newline_not_on_line:
  assumes "p \<le> length tx"
  shows "newline \<notin> set (slice (line_start tx p) (line_end tx p) tx)"
proof
  assume "newline \<in> set (slice (line_start tx p) (line_end tx p) tx)"
  then obtain i where i: "i < length (slice (line_start tx p) (line_end tx p) tx)"
    "slice (line_start tx p) (line_end tx p) tx ! i = newline" by (auto simp: in_set_conv_nth)
  then have "tx ! (line_start tx p + i) = newline"
    using slice_nth [of i "line_end tx p" "line_start tx p" tx] line_end_bounds(2) [of tx p] by simp
  moreover have "tx ! (line_start tx p + i) \<noteq> newline"
    by (rule no_newline_on_line [of tx p]) (use i(1) assms in auto)
  ultimately show False by simp
qed

lemma bounds_ofD:
  assumes "bounds_of tx n = Some (s, e)"
  shows "s \<le> e" "e \<le> length tx" "newline \<notin> set (slice s e tx)" "line_start tx s = s" "line_end tx s = e"
    "line_of tx s = n" "length (slice s e tx) = e - s"
proof -
  have n: "n < length (starts_spec tx)" and s: "s = starts_spec tx ! n" and e: "e = line_end tx s"
    using assms by (auto simp: bounds_of_eq split: if_splits)
  have sl: "s \<le> length tx" using starts_spec_nth_bounds [OF n] s by simp
  show ls: "line_start tx s = s"
  proof (rule line_start_at_boundary [OF sl])
    have "s \<in> set (starts_spec tx)" using n s by simp
    then show "s = 0 \<or> tx ! (s - 1) = newline" by (auto simp: starts_spec_def mem_ends_from)
  qed
  have r: "line_of tx s < length (starts_spec tx)" by (rule line_of_le)
  have "starts_spec tx ! line_of tx s = starts_spec tx ! n"
    using ls s by (simp add: starts_nth_row)
  moreover have "distinct (starts_spec tx)" using sorted_starts_spec [of tx] by (simp add: strict_sorted_iff)
  ultimately show "line_of tx s = n" using n r by (simp add: nth_eq_iff_index_eq)
  show "s \<le> e" "e \<le> length tx" "line_end tx s = e" using line_end_bounds(1) [of s tx] line_end_bounds(2) [of tx s] sl e by simp_all
  then show "length (slice s e tx) = e - s" by simp
  show "newline \<notin> set (slice s e tx)" using newline_not_on_line [OF sl] ls e by simp
qed

lemma saved_ok_updates [simp]:
  "saved_ok (lu\<lparr>lu_cursor := c\<rparr>) = saved_ok lu" "saved_ok (lu\<lparr>lu_armed := a\<rparr>) = saved_ok lu"
  "saved_ok (lu\<lparr>lu_saved := None\<rparr>)"
  by (simp_all add: saved_ok_def)

lemma follow_ok: "saved_ok lu \<Longrightarrow> saved_ok (follow lu pre es)"
  by (auto simp: saved_ok_def follow_def split: option.splits)

lemma on_reapply_ok: "saved_ok lu \<Longrightarrow> saved_ok (on_reapply lu pre es)"
  by (simp add: on_reapply_def Let_def follow_ok)

lemma lu_swap_ok: "saved_ok lu \<Longrightarrow> saved_ok (snd (lu_swap lu tx cursor))"
  by (auto simp: saved_ok_def lu_swap_def bounds_ofD split: option.splits dest: bounds_ofD)

lemma on_edit_ok:
  assumes "saved_ok lu" "edits_valid es pre"
  shows "saved_ok (on_edit lu pre es fresh)"
proof (cases "es = []")
  case False
  then have "hd es \<in> set es" by simp
  then have "edit_end (hd es) \<le> length pre" using assms(2) by (simp add: edits_valid_def in_bounds_def)
  then have lo: "epos (hd es) \<le> length pre" by (simp add: edit_end_def)
  let ?s = "line_start pre (epos (hd es))" and ?e = "line_end pre (epos (hd es))"
  have "newline \<notin> set (slice ?s ?e pre)" by (rule newline_not_on_line [OF lo])
  then have new: "saved_ok (lu'\<lparr>lu_saved := Some \<lparr>sv_line = n, sv_text = slice ?s ?e pre,
      sv_col = (case cu of Some c \<Rightarrow> if ?s \<le> c \<and> c \<le> ?e then c - ?s else epos (hd es) - ?s
                | None \<Rightarrow> epos (hd es) - ?s)\<rparr>\<rparr>)" for lu' n cu
    by (auto simp: saved_ok_def split: option.splits)
  show ?thesis using assms(1) False unfolding on_edit_def Let_def bounds_at_eq
    by (simp add: new follow_ok)
qed (use assms(1) in \<open>simp add: on_edit_def\<close>)

section \<open>Swapping a line\<close>

lemma apply_replace:
  assumes "s \<le> e" "e \<le> length tx"
  shows "apply_to [edit_replace s (e - s) tx'] tx = take s tx @ tx' @ drop e tx"
  using assms by (simp add: apply_to_out edit_replace_def edit_end_def slice_0)

lemma replace_line_bounds:
  assumes "bounds_of tx n = Some (s, e)" "newline \<notin> set new"
  shows "bounds_of (take s tx @ new @ drop e tx) n = Some (s, s + length new)"
proof -
  let ?t = "take s tx @ new @ drop e tx"
  note b = bounds_ofD [OF assms(1)]
  have sl: "s \<le> length tx" using b(1,2) by simp
  have sb: "s = 0 \<or> tx ! (s - 1) = newline"
    using b(4) sl by (cases rule: line_start_cases [of tx s]) auto
  have "line_start ?t s = s"
    by (rule line_start_at_boundary) (use sl sb in \<open>auto simp: nth_append\<close>)
  moreover have "line_of ?t s = n" using b(6) sl by (simp add: line_of_def)
  moreover have "line_end ?t s = s + length new"
  proof (rule line_end_eqI)
    show "s + length new \<le> length ?t" using sl by simp
    have "e = length tx \<or> tx ! e = newline" using b(5) by (cases rule: line_end_cases [of tx s]) auto
    then show "s + length new = length ?t \<or> ?t ! (s + length new) = newline"
      using sl b(2) by (auto simp: nth_append)
    show "?t ! j \<noteq> newline" if "s \<le> j" "j < s + length new" for j
    proof -
      have "?t ! j = new ! (j - s)" and "j - s < length new" using that sl by (auto simp: nth_append)
      then show ?thesis using assms(2) nth_mem by metis
    qed
  qed simp
  ultimately show ?thesis
    using line_of_le [of ?t s] starts_nth_row [of ?t s] unfolding bounds_of_eq by simp
qed

section \<open>Touching edits\<close>

text \<open>
  Two edits of one list may touch.  The test that the saved line still starts a line looks at the byte before
  the edit in the old text, which an edit touching it may have deleted: here \<^verbatim>\<open>ab\<close>, \<^verbatim>\<open>cd\<close>, \<^verbatim>\<open>ef\<close> become the
  one line \<^verbatim>\<open>aef\<close>, and the saved line \<^verbatim>\<open>ef\<close>, joined to another, is kept as line 0.
\<close>

lemma touching_edits_keep_joined_line:
  "let pre = [97, 98, 10, 99, 100, 10, 101, 102]; es = [edit_delete 1 2, edit_delete 3 3];
       lu = \<lparr>lu_saved = Some \<lparr>sv_line = 2, sv_text = [101], sv_col = 0\<rparr>, lu_armed = False, lu_cursor = None\<rparr> in
   edits_valid es pre \<and> apply_to es pre = [97, 101, 102] \<and>
   lu_saved (on_reapply lu pre es) = Some \<lparr>sv_line = 0, sv_text = [101], sv_col = 0\<rparr>"
  by (simp add: Let_def edits_valid_def edits_wf_def changes_something_def edit_delete_def edit_end_def
      apply_to_def slice_def on_reapply_def changes_lines_def follow_def bounds_of_eq starts_spec_def
      line_end_def survives_def newlines_def first_opt_def last_opt_def)

section \<open>Properties\<close>

text \<open>The copy kept for \<^verbatim>\<open>U\<close> is always the text of one line, whatever changes, undo or redo steps
  and swaps follow; so \<^verbatim>\<open>U\<close> never adds or removes a line, and the span it replaces is a whole line of the
  text.\<close>

theorem line_undo_invariant:
  assumes "saved_ok lu"
  shows "saved_ok line_undo_default \<and> saved_ok (prime lu c arm) \<and> saved_ok (lu_clear lu d) \<and>
    (edits_valid es pre \<longrightarrow> saved_ok (on_edit lu pre es fresh)) \<and>
    saved_ok (on_reapply lu pre es) \<and> saved_ok (snd (lu_swap lu tx c)) \<and>
    (\<forall>s e new col. fst (lu_swap lu tx c) = Some (s, e, new, col) \<longrightarrow>
       s \<le> e \<and> e \<le> length tx \<and> line_start tx s = s \<and> line_end tx s = e \<and>
       count_newlines (apply_to [edit_replace s (e - s) new] tx) = count_newlines tx)"
proof -
  have "s \<le> e \<and> e \<le> length tx \<and> line_start tx s = s \<and> line_end tx s = e \<and>
      count_newlines (apply_to [edit_replace s (e - s) new] tx) = count_newlines tx"
    if sw: "fst (lu_swap lu tx c) = Some (s, e, new, col)" for s e new col
  proof -
    obtain sv where sv: "lu_saved lu = Some sv" "bounds_of tx (sv_line sv) = Some (s, e)"
      "new = sv_text sv"
      using sw by (auto simp: lu_swap_def split: option.splits prod.splits)
    note b = bounds_ofD [OF sv(2)]
    have "tx = take s tx @ slice s e tx @ drop e tx" using b(1) by (simp add: slice_append_drop)
    then have "count_newlines tx = count_newlines (take s tx) + count_newlines (slice s e tx) + count_newlines (drop e tx)"
      by (metis count_newlines_simps(3) add.assoc)
    moreover have "count_newlines (slice s e tx) = 0" "count_newlines new = 0"
      using b(3) assms sv by (simp_all add: count_newlines_0_iff saved_ok_def)
    ultimately show ?thesis using assms sv b by (simp add: saved_ok_def apply_replace)
  qed
  moreover have "saved_ok line_undo_default" "saved_ok (prime lu c arm)" "saved_ok (lu_clear lu d)"
    using assms by (simp_all add: saved_ok_def line_undo_default_def prime_def lu_clear_def Let_def)
  ultimately show ?thesis using assms on_edit_ok on_reapply_ok lu_swap_ok by blast
qed

theorem line_undo_invariant_witness:
  "saved_ok (on_edit line_undo_default [97, 98] [edit_insert 1 [99]] True)"
proof -
  have "saved_ok line_undo_default" by (simp add: saved_ok_def line_undo_default_def)
  moreover have "edits_valid [edit_insert 1 [99]] [97, 98]"
    by (simp add: edits_valid_def edits_wf_def changes_something_def edit_insert_def edit_end_def)
  ultimately show ?thesis using line_undo_invariant [of line_undo_default _ _ _ "[edit_insert 1 [99]]" "[97, 98]"] by blast
qed

text \<open>\<^verbatim>\<open>U\<close> twice is the identity on the text.  A swap replaces the line it saved; a second one, on the text
  the first made, finds the same line and puts back what the first took out.\<close>

theorem line_undo_twice:
  assumes "saved_ok lu" "lu_swap lu tx c = (Some (s, e, new, col), lu1)"
    and "tx1 = apply_to [edit_replace s (e - s) new] tx"
  shows "\<exists>e2 old col2 lu2. lu_swap lu1 tx1 c2 = (Some (s, e2, old, col2), lu2) \<and>
    apply_to [edit_replace s (e2 - s) old] tx1 = tx"
proof -
  obtain sv where sv: "lu_saved lu = Some sv" "bounds_of tx (sv_line sv) = Some (s, e)" "new = sv_text sv"
    using assms(2) by (auto simp: lu_swap_def split: option.splits)
  note b = bounds_ofD [OF sv(2)]
  have nn: "newline \<notin> set new" using assms(1) sv by (simp add: saved_ok_def)
  have t1: "tx1 = take s tx @ new @ drop e tx" using assms(3) b by (simp add: apply_replace)
  have b1: "bounds_of tx1 (sv_line sv) = Some (s, s + length new)"
    unfolding t1 by (rule replace_line_bounds [OF sv(2) nn])
  have "apply_to [edit_replace s (s + length new - s) (slice s e tx)] tx1 =
      take s tx1 @ slice s e tx @ drop (s + length new) tx1"
    using bounds_ofD(1,2) [OF b1] by (rule apply_replace)
  also have "\<dots> = tx" using b(1,2) by (simp add: t1 slice_append_drop)
  finally show ?thesis using assms(2) sv b1 by (auto simp: lu_swap_def)
qed

theorem line_undo_twice_witness:
  "\<exists>e2 old col2 lu2. lu_swap (snd (lu_swap \<lparr>lu_saved = Some \<lparr>sv_line = 1, sv_text = [120], sv_col = 0\<rparr>,
       lu_armed = False, lu_cursor = None\<rparr> [97, 10, 98, 99, 10] 2)) [97, 10, 120, 10] 2 =
       (Some (2, e2, old, col2), lu2) \<and> apply_to [edit_replace 2 (e2 - 2) old] [97, 10, 120, 10] = [97, 10, 98, 99, 10]"
proof -
  let ?lu = "\<lparr>lu_saved = Some \<lparr>sv_line = 1, sv_text = [120], sv_col = 0\<rparr>, lu_armed = False, lu_cursor = None\<rparr>"
  have b: "bounds_of [97, 10, 98, 99, 10] 1 = Some (2, 4)"
    by (simp add: bounds_of_eq starts_spec_def line_end_def)
  have "saved_ok ?lu" by (simp add: saved_ok_def)
  moreover have "lu_swap ?lu [97, 10, 98, 99, 10] 2 = (Some (2, 4, [120], 0), snd (lu_swap ?lu [97, 10, 98, 99, 10] 2))"
    using b by (simp add: lu_swap_def)
  moreover have "[97, 10, 120, 10] = apply_to [edit_replace 2 (4 - 2) [120]] [97, 10, 98, 99, 10]"
    by (simp add: apply_to_def edit_replace_def edit_end_def slice_def)
  ultimately show ?thesis by (rule line_undo_twice)
qed

end
