(* ===== verification/Undo_Cursor.thy ===== *)
theory Undo_Cursor
  imports Edits
begin

text \<open>
  Where an undo, redo or chronological step leaves the cursor and the change marks
  (\<^verbatim>\<open>crates/core/src/undo_cursor.rs\<close>): the line-granular entries derived from an applied edit list, the
  placement over the entries of the last group, and the marks around the changed lines.
\<close>

section \<open>Definitions\<close>

record undo_entry =
  en_top :: nat
  en_oldsize :: nat
  en_newsize :: nat
  en_same :: nat

definition saturating_add_signed :: "nat \<Rightarrow> int \<Rightarrow> nat" where
  "saturating_add_signed n d = nat (max (int n + d) 0)"

fun same_lines_loop :: "bytes \<Rightarrow> nat \<Rightarrow> bytes \<Rightarrow> nat \<Rightarrow> nat \<Rightarrow> nat \<Rightarrow> nat" where
  "same_lines_loop old a new b i 0 = i"
| "same_lines_loop old a new b i (Suc n) =
     (let ae = map_option (\<lambda>k. a + k) (position (\<lambda>c. c = newline) (drop a old));
          be = map_option (\<lambda>k. b + k) (position (\<lambda>c. c = newline) (drop b new));
          la = slice a (case ae of Some x \<Rightarrow> x | None \<Rightarrow> length old) old;
          lb = slice b (case be of Some y \<Rightarrow> y | None \<Rightarrow> length new) new
      in if la \<noteq> lb then i
         else case (ae, be) of
                (Some x, Some y) \<Rightarrow> same_lines_loop old (x + 1) new (y + 1) (i + 1) n
              | _ \<Rightarrow> i + 1)"

definition same_lines :: "bytes \<Rightarrow> nat \<Rightarrow> bytes \<Rightarrow> nat \<Rightarrow> nat \<Rightarrow> nat" where
  "same_lines old a new b n = same_lines_loop old a new b 0 n"

definition is_whole_lines :: "bytes \<Rightarrow> edit \<Rightarrow> bool" where
  "is_whole_lines old e \<longleftrightarrow>
     (epos e = 0 \<or> old ! (epos e - 1) = newline) \<and>
     (edel e = 0 \<or> old ! (epos e + edel e - 1) = newline) \<and>
     (case last_opt (eins e) of None \<Rightarrow> True | Some c \<Rightarrow> c = newline)"

definition is_tail_lines :: "bytes \<Rightarrow> edit \<Rightarrow> bool" where
  "is_tail_lines old e \<longleftrightarrow>
     \<not> is_whole_lines old e \<and> epos e + edel e = length old \<and> 0 < epos e \<and> old ! (epos e - 1) \<noteq> newline \<and>
     (0 < edel e \<or> eins e \<noteq> []) \<and> (edel e = 0 \<or> old ! epos e = newline) \<and>
     (eins e = [] \<or> eins e ! 0 = newline \<and> last_opt (eins e) \<noteq> Some newline)"

text \<open>The entry of one edit, at row \<open>old_line\<close> of the old text.\<close>

definition entry_of :: "bytes \<Rightarrow> bytes \<Rightarrow> edit \<Rightarrow> nat \<Rightarrow> int \<Rightarrow> int \<Rightarrow> undo_entry" where
  "entry_of old new e old_line byte_delta line_delta =
     (let pos = epos e;
          del_nl = count_newlines (slice pos (pos + edel e) old);
          ins_nl = count_newlines (eins e);
          whole = is_whole_lines old e;
          tail = is_tail_lines old e;
          (oldsize, newsize) = (if whole \<or> tail then (del_nl, ins_nl) else (del_nl + 1, ins_nl + 1));
          new_pos = saturating_add_signed pos byte_delta;
          top = saturating_add_signed old_line line_delta + (if tail then 1 else 0);
          (old_from, new_from) = (if tail then (pos + 1, new_pos + 1) else (line_start old pos, line_start new new_pos))
      in \<lparr>en_top = top, en_oldsize = oldsize, en_newsize = newsize,
          en_same = same_lines old old_from new new_from (min oldsize newsize)\<rparr>)"

fun entries_loop :: "edit list \<Rightarrow> bytes \<Rightarrow> bytes \<Rightarrow> nat \<Rightarrow> nat \<Rightarrow> int \<Rightarrow> int \<Rightarrow> undo_entry list \<Rightarrow> undo_entry list" where
  "entries_loop [] old new scan old_line byte_delta line_delta out = out"
| "entries_loop (e # es) old new scan old_line byte_delta line_delta out =
     (let old_line' = old_line + count_newlines (slice scan (epos e) old) in
      entries_loop es old new (epos e) old_line'
        (byte_delta + (int (length (eins e)) - int (edel e)))
        (line_delta + (int (count_newlines (eins e)) - int (count_newlines (slice (epos e) (epos e + edel e) old))))
        (out @ [entry_of old new e old_line' byte_delta line_delta]))"

definition entries :: "bytes \<Rightarrow> bytes \<Rightarrow> edit_list \<Rightarrow> undo_entry list \<Rightarrow> undo_entry list" where
  "entries old new es out = entries_loop es old new 0 0 0 0 out"

record change_marks =
  m_start_line :: nat
  m_end_line :: nat
  m_last_change_line :: "nat option"

definition change_marks_default :: change_marks where
  "change_marks_default = \<lparr>m_start_line = 0, m_end_line = 0, m_last_change_line = None\<rparr>"

record undo_cursor =
  u_line :: nat
  u_col :: "nat option"
  u_marks :: change_marks

definition marks_step :: "undo_entry \<Rightarrow> int \<times> int \<times> int option \<Rightarrow> int \<times> int \<times> int option" where
  "marks_step e st =
     (case st of (start, stop, dot) \<Rightarrow>
        let top = int (en_top e); old = int (en_oldsize e); new = int (en_newsize e);
            start1 = (if old \<noteq> new \<and> top + old < start then start + (new - old) else start);
            stop1 = (if old \<noteq> new \<and> top + old < stop then stop + (new - old) else stop);
            dot1 = (if 0 < old \<or> 0 < new then Some (top + 1) else dot)
        in (min start1 (top + 1),
            if new = 0 \<and> stop1 < top + 1 then top + 1
            else if stop1 < top + new then top + new else stop1,
            dot1))"

definition clamp_line :: "int \<Rightarrow> int \<Rightarrow> nat" where
  "clamp_line lines n = nat (max 1 (min n lines) - 1)"

definition marks_of :: "undo_entry list \<Rightarrow> nat \<Rightarrow> nat \<Rightarrow> change_marks" where
  "marks_of es lines_before lines_after =
     (let (start, stop, dot) = fold marks_step es (int lines_before, 0, None);
          lines = int (max lines_after 1)
      in \<lparr>m_start_line = clamp_line lines start, m_end_line = clamp_line lines stop,
          m_last_change_line = map_option (clamp_line lines) dot\<rparr>)"

fun place_loop :: "undo_entry list \<Rightarrow> nat \<Rightarrow> nat \<Rightarrow> nat option \<Rightarrow> bool \<Rightarrow> nat" where
  "place_loop [] uh_lnum lnum newlnum pinned = lnum"
| "place_loop (e # es) uh_lnum lnum newlnum pinned =
     (if en_top e \<le> uh_lnum \<and> uh_lnum \<le> en_top e + en_newsize e + 1 then
        place_loop es uh_lnum uh_lnum newlnum True
      else if \<not> pinned \<and> (case newlnum of None \<Rightarrow> True | Some n \<Rightarrow> en_top e < n) then
        (if en_same e = en_newsize e \<and> newlnum = None \<and> es = [] then
           place_loop es uh_lnum (en_top e + 1) (Some (en_top e)) pinned
         else if en_same e < en_newsize e then
           place_loop es uh_lnum (en_top e + en_same e + 1) (Some (en_top e + en_same e)) pinned
         else place_loop es uh_lnum lnum newlnum pinned)
      else place_loop es uh_lnum lnum newlnum pinned)"

definition place :: "undo_entry list \<Rightarrow> nat \<times> nat \<Rightarrow> nat \<Rightarrow> nat \<Rightarrow> undo_cursor" where
  "place es uh cur_line lines =
     (let uh_lnum = fst uh + 1;
          lnum0 = place_loop es uh_lnum (cur_line + 1) None False;
          lines' = max lines 1;
          lnum1 = max 1 (min lnum0 lines');
          lnum = (if uh_lnum + 1 = lnum1 \<and> 1 < lnum1 then lnum1 - 1 else lnum1)
      in \<lparr>u_line = lnum - 1, u_col = (if uh_lnum = lnum then Some (snd uh) else None),
          u_marks = change_marks_default\<rparr>)"

definition line_col :: "bytes \<Rightarrow> nat \<Rightarrow> nat \<times> nat" where
  "line_col tx off = (let p = min off (length tx) in (line_of tx p, p - line_start tx p))"

definition line_count :: "bytes \<Rightarrow> nat" where
  "line_count tx =
     (let n = count_newlines tx + 1 in if last_opt tx = Some newline then n - 1 else n)"

section \<open>Entries\<close>

lemma length_entries_loop: "length (entries_loop es old new s l b d out) = length out + length es"
  by (induction es arbitrary: s l b d out) (simp_all add: Let_def)

lemma entry_of_sizes:
  "int (en_newsize (entry_of old new e l b d)) - int (en_oldsize (entry_of old new e l b d)) =
     int (count_newlines (eins e)) - int (count_newlines (slice (epos e) (edit_end e) old))"
  by (simp add: entry_of_def Let_def edit_end_def)

text \<open>How many lines a list of entries adds.\<close>

definition rows_of :: "undo_entry list \<Rightarrow> int" where
  "rows_of es = sum_list (map (\<lambda>e. int (en_newsize e) - int (en_oldsize e)) es)"

lemma count_split: "a \<le> b \<Longrightarrow> count_newlines (drop a xs) = count_newlines (slice a b xs) + count_newlines (drop b xs)"
  using slice_append_drop [of a b xs] count_newlines_simps(3) by metis

lemma entries_loop_rows:
  "from_ok es cur (length old) \<Longrightarrow>
     rows_of (entries_loop es old new s l b d out) =
       rows_of out + int (count_newlines (out_from es old cur)) - int (count_newlines (drop cur old))"
proof (induction es arbitrary: cur s l b d out)
  case (Cons e es)
  have o: "cur \<le> epos e" "edit_end e \<le> length old" "from_ok es (edit_end e) (length old)"
    using Cons.prems by (simp_all add: from_ok_Cons)
  have "count_newlines (drop cur old) =
      count_newlines (slice cur (epos e) old) + count_newlines (slice (epos e) (edit_end e) old) +
      count_newlines (drop (edit_end e) old)"
    using count_split [OF o(1), of old] count_split [of "epos e" "edit_end e" old] by (simp add: edit_end_def)
  then show ?case
    by (simp add: Cons.IH [OF o(3)] Let_def) (simp add: rows_of_def entry_of_sizes)
qed (simp add: rows_of_def)

lemma place_line:
  obtains l where "1 \<le> l" "l \<le> max lines 1"
    "place es uh cur_line lines =
       \<lparr>u_line = l - 1, u_col = (if fst uh + 1 = l then Some (snd uh) else None), u_marks = change_marks_default\<rparr>"
proof -
  define l1 where "l1 = max 1 (min (place_loop es (fst uh + 1) (cur_line + 1) None False) (max lines 1))"
  define l where "l = (if fst uh + 1 + 1 = l1 \<and> 1 < l1 then l1 - 1 else l1)"
  have "1 \<le> l1" "l1 \<le> max lines 1" by (simp_all add: l1_def)
  then have "1 \<le> l" "l \<le> max lines 1" by (auto simp: l_def)
  moreover have "place es uh cur_line lines =
      \<lparr>u_line = l - 1, u_col = (if fst uh + 1 = l then Some (snd uh) else None), u_marks = change_marks_default\<rparr>"
    by (simp only: place_def Let_def l_def l1_def)
  ultimately show thesis by (rule that)
qed

section \<open>Properties\<close>

text \<open>The entries of an applied edit list account for every line it adds or removes: there is one per edit,
  and the line counts before and after the step differ by exactly what the entries' sizes say.\<close>

theorem entries_account_for_lines:
  assumes "edits_valid es old"
  shows "length (entries old (apply_to es old) es []) = length es \<and>
    rows_of (entries old (apply_to es old) es []) =
      int (count_newlines (apply_to es old)) - int (count_newlines old)"
proof -
  have "from_ok es 0 (length old)" using assms by (simp add: edits_valid_def from_okI)
  from entries_loop_rows [OF this, of "apply_to es old" 0 0 0 0 "[]"] show ?thesis
    by (simp add: entries_def length_entries_loop apply_to_out rows_of_def)
qed

theorem entries_account_for_lines_witness:
  "rows_of (entries [97, 10, 98] (apply_to [edit_replace 1 1 [10, 99, 10]] [97, 10, 98]) [edit_replace 1 1 [10, 99, 10]] []) = 1"
proof -
  have "edits_valid [edit_replace 1 1 [10, 99, 10]] [97, 10, 98]"
    by (simp add: edits_valid_def edits_wf_def changes_something_def edit_replace_def edit_end_def)
  moreover have "apply_to [edit_replace 1 1 [10, 99, 10]] [97, 10, 98] = [97, 10, 99, 10, 98]"
    by (simp add: apply_to_def edit_replace_def edit_end_def slice_def)
  ultimately show ?thesis using entries_account_for_lines [of "[edit_replace 1 1 [10, 99, 10]]" "[97, 10, 98]"] by simp
qed

text \<open>The cursor and the marks a step leaves are on lines of the text after it, whatever the entries and
  the saved cursor: no line is past the last one, and a column is given only on the line the saved cursor
  names.\<close>

theorem placement_in_range:
  "u_line (place es uh cur_line lines) < max lines 1 \<and>
   (u_col (place es uh cur_line lines) \<noteq> None \<longrightarrow> u_line (place es uh cur_line lines) = fst uh) \<and>
   m_start_line (marks_of es lb lines) < max lines 1 \<and>
   m_end_line (marks_of es lb lines) < max lines 1 \<and>
   (\<forall>n. m_last_change_line (marks_of es lb lines) = Some n \<longrightarrow> n < max lines 1)"
proof -
  have c: "clamp_line (int (max lines 1)) n < max lines 1" for n
    unfolding clamp_line_def by (cases lines) auto
  have "m_start_line (marks_of es lb lines) < max lines 1" "m_end_line (marks_of es lb lines) < max lines 1"
    "\<And>n. m_last_change_line (marks_of es lb lines) = Some n \<Longrightarrow> n < max lines 1"
    using c by (auto simp: marks_of_def Let_def split_beta)
  moreover obtain l where "1 \<le> l" "l \<le> max lines 1" "place es uh cur_line lines =
      \<lparr>u_line = l - 1, u_col = (if fst uh + 1 = l then Some (snd uh) else None), u_marks = change_marks_default\<rparr>"
    by (rule place_line)
  then have "u_line (place es uh cur_line lines) < max lines 1"
    "u_col (place es uh cur_line lines) \<noteq> None \<longrightarrow> u_line (place es uh cur_line lines) = fst uh" by auto
  ultimately show ?thesis by blast
qed

theorem placement_in_range_witness:
  "u_line (place [] (0, 3) 7 2) < 2"
  using placement_in_range [of "[]" "(0, 3)" 7 2 0] by simp

text \<open>\<^verbatim>\<open>line_col\<close> names a position exactly: the start of its line plus its column is the offset, clamped to
  the text, and the column stays on the line.\<close>

theorem line_col_round_trip:
  "starts_spec tx ! fst (line_col tx off) + snd (line_col tx off) = min off (length tx) \<and>
   starts_spec tx ! fst (line_col tx off) + snd (line_col tx off) \<le> line_end tx off"
  using line_start_le [of tx "min off (length tx)"] line_end_bounds(1) [of off tx]
  by (simp add: line_col_def Let_def starts_nth_row)

end
