(* ===== verification/Anchor_Map.thy ===== *)
theory Anchor_Map
  imports Edits
begin

text \<open>
  How one byte position follows an edit list (\<^verbatim>\<open>map_one\<close>, \<^verbatim>\<open>map_byte_inside\<close> and \<^verbatim>\<open>map_byte\<close> of
  \<^verbatim>\<open>crates/core/src/anchor.rs\<close>), with the vocabulary of anchors.  The search-and-stop routine is shown
  equal to carrying the position through the edits one at a time, to stay inside the new text, to keep the
  order of positions of one bias, and to stay with the byte the bias clings to.
\<close>

section \<open>Definitions\<close>

datatype bias = Before | After

datatype anchor_policy = Clamp | Invalidate

datatype line_gravity = Drop | Keep | Cursor

datatype track = Byte bias | Line line_gravity

definition map_one :: "nat \<Rightarrow> nat \<Rightarrow> nat \<Rightarrow> nat \<Rightarrow> bias \<Rightarrow> nat \<times> bool" where
  "map_one a pos del ins bi =
     (let stop = pos + del in
      if a < pos then (a, False)
      else if stop < a then (a - del + ins, False)
      else
        let inside = pos < a \<and> a < stop in
        case bi of Before \<Rightarrow> (pos, inside) | After \<Rightarrow> (pos + ins, inside))"

fun map_byte_loop :: "edit list \<Rightarrow> int \<Rightarrow> nat \<Rightarrow> bool \<Rightarrow> bias \<Rightarrow> nat \<times> bool" where
  "map_byte_loop [] sh cur inside bi = (cur, inside)"
| "map_byte_loop (e # es) sh cur inside bi =
     (let pos = nat (int (epos e) + sh) in
      if cur < pos then (cur, inside)
      else
        let (n, ins) = map_one cur pos (edel e) (length (eins e)) bi in
        map_byte_loop es (sh + delta e) n (inside \<or> ins) bi)"

definition map_byte_inside :: "edit list \<Rightarrow> nat \<Rightarrow> bias \<Rightarrow> nat \<times> bool" where
  "map_byte_inside es p bi =
     (let i = partition_point (\<lambda>e. edit_end e < p) es;
          sh = sum_list (map delta (take i es))
      in map_byte_loop (drop i es) sh (nat (int p + sh)) False bi)"

definition map_byte :: "edit_list \<Rightarrow> nat \<Rightarrow> bias \<Rightarrow> nat" where
  "map_byte es p bi = fst (map_byte_inside es p bi)"

section \<open>One edit at a time\<close>

text \<open>The reference: every edit in turn, shifted into the frame the edits before it leave.\<close>

fun sequential :: "edit list \<Rightarrow> int \<Rightarrow> nat \<Rightarrow> bool \<Rightarrow> bias \<Rightarrow> nat \<times> bool" where
  "sequential [] sh cur inside bi = (cur, inside)"
| "sequential (e # es) sh cur inside bi =
     (let (n, ins) = map_one cur (nat (int (epos e) + sh)) (edel e) (length (eins e)) bi in
      sequential es (sh + delta e) n (inside \<or> ins) bi)"

text \<open>\<open>framed es cur sh len\<close>: the edits from \<open>cur\<close> on, whose shifted start is not negative.\<close>

abbreviation framed :: "edit list \<Rightarrow> nat \<Rightarrow> int \<Rightarrow> nat \<Rightarrow> bool" where
  "framed es cur sh len \<equiv> from_ok es cur len \<and> 0 \<le> int cur + sh"

lemma framed_step:
  assumes "framed (e # es) cur sh len"
  shows "cur \<le> epos e" "edit_end e \<le> len" "framed es (edit_end e) (sh + delta e) len"
    "0 \<le> int (epos e) + sh"
    "nat (int (edit_end e) + (sh + delta e)) = nat (int (epos e) + sh) + length (eins e)"
  using assms by (auto simp: from_ok_Cons edit_end_def delta_def)

lemma sequential_left:
  "framed es cur sh len \<Longrightarrow> int a < int cur + sh \<Longrightarrow> sequential es sh a inside bi = (a, inside)"
proof (induction es arbitrary: cur sh)
  case (Cons e es)
  note f = framed_step [OF Cons.prems(1)]
  have "a < nat (int (epos e) + sh)" using Cons.prems(2) f(1) by linarith
  then have "map_one a (nat (int (epos e) + sh)) (edel e) (length (eins e)) bi = (a, False)"
    by (simp add: map_one_def Let_def)
  moreover have "int a < int (edit_end e) + (sh + delta e)"
    using Cons.prems(2) f(1) by (simp add: edit_end_def delta_def)
  ultimately show ?case using Cons.IH [OF f(3)] by simp
qed simp

lemma map_byte_loop_sequential:
  "framed es cur sh len \<Longrightarrow> map_byte_loop es sh a inside bi = sequential es sh a inside bi"
proof (induction es arbitrary: cur sh a inside)
  case (Cons e es)
  note f = framed_step [OF Cons.prems]
  show ?case
  proof (cases "a < nat (int (epos e) + sh)")
    case True
    then have l: "int a < int (epos e) + sh" by linarith
    have fr: "framed (e # es) (epos e) sh len" using Cons.prems f by (simp add: from_ok_Cons)
    show ?thesis using True sequential_left [OF fr l, of inside bi] by (simp add: Let_def)
  next
    case False
    then show ?thesis using Cons.IH [OF f(3)] by (simp add: Let_def split_beta)
  qed
qed simp

lemma sequential_right:
  assumes "framed (es @ fs) cur sh len" "\<forall>e \<in> set es. edit_end e < p"
  shows "sequential (es @ fs) sh (nat (int p + sh)) inside bi =
    sequential fs (sh + sum_list (map delta es)) (nat (int p + (sh + sum_list (map delta es)))) inside bi"
  using assms
proof (induction es arbitrary: cur sh)
  case (Cons e es)
  have "framed (e # (es @ fs)) cur sh len" using Cons.prems(1) by simp
  note f = framed_step [OF this]
  have lt: "edit_end e < p" using Cons.prems(2) by simp
  then have "map_one (nat (int p + sh)) (nat (int (epos e) + sh)) (edel e) (length (eins e)) bi =
      (nat (int p + (sh + delta e)), False)"
    using f(4) by (auto simp: map_one_def Let_def edit_end_def delta_def)
  then show ?case using Cons.IH [OF f(3)] Cons.prems(2) by (simp add: add.assoc)
qed simp

lemma edit_ends_sorted: "from_ok es cur len \<Longrightarrow> sorted_wrt (\<lambda>a b. edit_end a \<le> edit_end b) es"
  unfolding from_ok_def by (auto simp: edit_end_def elim!: sorted_wrt_mono_rel [rotated])

lemma framed_append:
  "framed (as @ bs) c sh len \<Longrightarrow> \<exists>c'. framed bs c' (sh + sum_list (map delta as)) len"
proof (induction as arbitrary: c sh)
  case (Cons e as)
  have "framed (e # (as @ bs)) c sh len" using Cons.prems by simp
  from Cons.IH [OF framed_step(3) [OF this]] show ?case by (simp add: add.assoc)
qed auto

lemma map_byte_inside_sequential:
  assumes "from_ok es 0 len"
  shows "map_byte_inside es p bi = sequential es 0 p False bi"
proof -
  define i where "i = partition_point (\<lambda>e. edit_end e < p) es"
  let ?sh = "sum_list (map delta (take i es))"
  have "\<forall>e \<in> set (take i es). edit_end e < p"
    unfolding i_def partition_point_def by (metis set_takeWhileD takeWhile_eq_take)
  then have s: "sequential es 0 p False bi = sequential (drop i es) ?sh (nat (int p + ?sh)) False bi"
    using sequential_right [where es="take i es" and fs="drop i es" and cur=0 and sh=0 and len=len] assms by simp
  obtain c where "framed (drop i es) c ?sh len"
    using framed_append [where as="take i es" and bs="drop i es" and c=0 and sh=0 and len=len] assms by auto
  then have "map_byte_loop (drop i es) ?sh (nat (int p + ?sh)) False bi =
      sequential (drop i es) ?sh (nat (int p + ?sh)) False bi" by (rule map_byte_loop_sequential)
  then show ?thesis using s by (simp add: map_byte_inside_def i_def Let_def)
qed

section \<open>Bounds and order\<close>

lemma map_one_mono: "a \<le> b \<Longrightarrow> fst (map_one a pos del ins bi) \<le> fst (map_one b pos del ins bi)"
  by (cases bi) (auto simp: map_one_def Let_def)

lemma sequential_mono: "a \<le> b \<Longrightarrow> fst (sequential es sh a i bi) \<le> fst (sequential es sh b j bi)"
proof (induction es arbitrary: sh a b i j)
  case (Cons e es)
  have "fst (map_one a (nat (int (epos e) + sh)) (edel e) (length (eins e)) bi) \<le>
      fst (map_one b (nat (int (epos e) + sh)) (edel e) (length (eins e)) bi)"
    by (rule map_one_mono [OF Cons.prems])
  from Cons.IH [OF this] show ?case by (simp add: split_beta)
qed simp

lemma sequential_bound:
  "framed es cur sh len \<Longrightarrow> int a \<le> int len + sh \<Longrightarrow>
     int (fst (sequential es sh a inside bi)) \<le> int len + sh + sum_list (map delta es)"
proof (induction es arbitrary: cur sh a inside)
  case (Cons e es)
  note f = framed_step [OF Cons.prems(1)]
  let ?m = "map_one a (nat (int (epos e) + sh)) (edel e) (length (eins e)) bi"
  have "int (fst ?m) \<le> int len + (sh + delta e)"
    using f Cons.prems(2) by (cases bi) (auto simp: map_one_def Let_def edit_end_def delta_def)
  from Cons.IH [OF f(3) this] show ?case by (simp add: split_beta algebra_simps)
qed simp

lemma map_byte_bound:
  assumes "edits_valid es buf" "p \<le> length buf"
  shows "map_byte es p bi \<le> length (apply_to es buf)"
proof -
  have f: "from_ok es 0 (length buf)" using assms(1) by (simp add: edits_valid_def from_okI)
  have "int (fst (sequential es 0 p False bi)) \<le> int (length buf) + 0 + sum_list (map delta es)"
    by (rule sequential_bound) (use f assms(2) in simp_all)
  then show ?thesis
    using length_out_from [OF f] map_byte_inside_sequential [OF f, of p bi] by (simp add: map_byte_def apply_to_out)
qed

section \<open>The byte a position clings to\<close>

text \<open>A byte of the old text survives when no edit deletes it.\<close>

definition kept :: "edit list \<Rightarrow> nat \<Rightarrow> bool" where
  "kept es p \<longleftrightarrow> (\<forall>e \<in> set es. \<not> (epos e \<le> p \<and> p < edit_end e))"

lemma out_from_cut: "from_ok es q len \<Longrightarrow> cur \<le> q \<Longrightarrow> q \<le> length buf \<Longrightarrow>
    out_from es buf cur = slice cur q buf @ out_from es buf q"
proof (cases es)
  case (Cons e es')
  assume "from_ok es q len" "cur \<le> q" "q \<le> length buf"
  then show ?thesis using Cons slice_append_slice [of cur q "epos e" buf] by (simp add: from_ok_Cons)
qed (simp add: slice_append_drop)

lemma sequential_after:
  "framed es cur sh (length buf) \<Longrightarrow> cur \<le> p \<Longrightarrow> p < length buf \<Longrightarrow> kept es p \<Longrightarrow>
     \<exists>n. fst (sequential es sh (nat (int p + sh)) i After) = nat (int cur + sh) + n \<and>
       n < length (out_from es buf cur) \<and> out_from es buf cur ! n = buf ! p"
proof (induction es arbitrary: cur sh i)
  case Nil
  then show ?case by (intro exI [of _ "p - cur"]) (auto simp: nat_add_distrib)
next
  case (Cons e es)
  note f = framed_step [OF Cons.prems(1)]
  show ?case
  proof (cases "p < epos e")
    case True
    have fr: "framed (e # es) (epos e) sh (length buf)" using Cons.prems(1) f by (simp add: from_ok_Cons)
    have "int (nat (int p + sh)) < int (epos e) + sh" using True Cons.prems(1,2) by simp
    then have "fst (sequential (e # es) sh (nat (int p + sh)) i After) = nat (int p + sh)"
      using sequential_left [OF fr] by simp
    moreover have "nat (int p + sh) = nat (int cur + sh) + (p - cur)" using Cons.prems(1,2) by linarith
    moreover have l: "p - cur < length (slice cur (epos e) buf)" using True Cons.prems(2,3) by auto
    moreover have "p - cur < length (out_from (e # es) buf cur)"
      unfolding out_from.simps length_append by (rule trans_less_add1 [OF l])
    moreover have "out_from (e # es) buf cur ! (p - cur) = buf ! p"
    proof -
      have "epos e \<le> length buf" using f(2) by (simp add: edit_end_def)
      then have "slice cur (epos e) buf ! (p - cur) = buf ! p"
        using slice_nth [of "p - cur" "epos e" cur buf] True Cons.prems(2) by simp
      then show ?thesis using l by (simp add: nth_append del: slice_length)
    qed
    ultimately show ?thesis by (intro exI [of _ "p - cur"]) (simp del: sequential.simps out_from.simps)
  next
    case False
    then have le: "edit_end e \<le> p" using Cons.prems(4) by (auto simp: kept_def not_less)
    have m: "fst (map_one (nat (int p + sh)) (nat (int (epos e) + sh)) (edel e) (length (eins e)) After) =
        nat (int p + (sh + delta e))"
      using le f(4) by (auto simp: map_one_def Let_def edit_end_def delta_def)
    have "kept es p" using Cons.prems(4) by (simp add: kept_def)
    from Cons.IH [OF f(3) le Cons.prems(3) this] obtain n where
      n: "fst (sequential es (sh + delta e) (nat (int p + (sh + delta e)))
             (i \<or> snd (map_one (nat (int p + sh)) (nat (int (epos e) + sh)) (edel e) (length (eins e)) After)) After) =
           nat (int (edit_end e) + (sh + delta e)) + n"
      "n < length (out_from es buf (edit_end e))" "out_from es buf (edit_end e) ! n = buf ! p" by blast
    have "nat (int (epos e) + sh) = nat (int cur + sh) + (epos e - cur)" using f(1) Cons.prems(1) by linarith
    moreover have "length (slice cur (epos e) buf) = epos e - cur" using f(2) by (simp add: edit_end_def)
    ultimately show ?thesis using n m f(5)
      by (intro exI [of _ "epos e - cur + length (eins e) + n"]) (simp add: split_beta nth_append)
  qed
qed

section \<open>Properties\<close>

text \<open>Carrying a position through an edit list by searching for the first edit that reaches it and stopping at
  the first one past it gives the same offset, and the same "was inside a deleted span", as applying every
  edit's rule in turn, also where edits touch.\<close>

theorem map_byte_equals_sequential:
  assumes "edits_wf es" "in_bounds es len"
  shows "map_byte_inside es p bi = sequential es 0 p False bi"
  by (rule map_byte_inside_sequential [OF from_okI [OF assms]])

theorem map_byte_equals_sequential_witness:
  "map_byte_inside [edit_delete 2 2, edit_insert 4 [90]] 4 After = (3, False)"
proof -
  let ?es = "[edit_delete 2 2, edit_insert 4 [90]]"
  have "edits_wf ?es" "in_bounds ?es 9"
    by (simp_all add: edits_wf_def changes_something_def edit_insert_def edit_delete_def edit_end_def)
  from map_byte_equals_sequential [OF this, of 4 After] show ?thesis
    by (simp add: edit_insert_def edit_delete_def map_one_def delta_def)
qed

text \<open>A position inside the text is carried to a position inside the new text, positions of one bias keep
  their order, and an \<^verbatim>\<open>After\<close> position whose byte survives the edits still stands before that byte.\<close>

theorem map_byte_keeps_place:
  assumes "edits_valid es buf" "p \<le> q" "q \<le> length buf"
  shows "map_byte es q bi \<le> length (apply_to es buf) \<and> map_byte es p bi \<le> map_byte es q bi \<and>
    (q < length buf \<and> kept es q \<longrightarrow>
       map_byte es q After < length (apply_to es buf) \<and> apply_to es buf ! map_byte es q After = buf ! q)"
proof -
  have f: "from_ok es 0 (length buf)" using assms(1) by (simp add: edits_valid_def from_okI)
  note s = map_byte_inside_sequential [OF f]
  have "map_byte es p bi \<le> map_byte es q bi"
    using sequential_mono [OF assms(2), of es 0 False bi False] by (simp add: map_byte_def s)
  moreover have "map_byte es q After < length (apply_to es buf) \<and> apply_to es buf ! map_byte es q After = buf ! q"
    if "q < length buf" "kept es q"
    using sequential_after [where es=es and cur=0 and sh=0 and buf=buf and p=q and i=False] f that by (auto simp: map_byte_def s apply_to_out)
  ultimately show ?thesis using map_byte_bound [OF assms(1,3)] by blast
qed

theorem map_byte_keeps_place_witness:
  "map_byte [edit_insert 1 [120, 121]] 2 After \<le> 5 \<and>
   apply_to [edit_insert 1 [120, 121]] [97, 98, 99] ! map_byte [edit_insert 1 [120, 121]] 2 After = 99"
proof -
  have v: "edits_valid [edit_insert 1 [120, 121]] [97, 98, 99]"
    by (simp add: edits_valid_def edits_wf_def changes_something_def edit_insert_def edit_end_def)
  have "kept [edit_insert 1 [120, 121]] 2" by (simp add: kept_def edit_insert_def edit_end_def)
  moreover have "length (apply_to [edit_insert 1 [120, 121]] [97, 98, 99]) = 5"
    by (simp add: apply_to_def edit_insert_def edit_end_def)
  ultimately show ?thesis using map_byte_keeps_place [OF v, of 2 2 After] by simp
qed

end
