(* ===== verification/Line_Map.thy ===== *)
theory Line_Map
  imports Anchor_Map Char_Boundary
begin

text \<open>
  The line rule for marks (\<^verbatim>\<open>LineMap\<close>, \<^verbatim>\<open>Lines\<close> and \<^verbatim>\<open>Tracked\<close> of \<^verbatim>\<open>crates/core/src/anchor.rs\<close>): a
  position on a line follows whole lines inserted or deleted above it, keeps its column, and goes where its
  line's gravity says when the line is deleted.  \<^verbatim>\<open>Lines\<close> is a cache of line bounds behind a
  \<^verbatim>\<open>RefCell\<close>; \<open>lines_of\<close> models it with the cache as an argument, and shows that a lookup always returns the
  bounds a scan would, so the rule itself is written over the scans.
\<close>

section \<open>The cache of lines\<close>

definition lines_of :: "(nat \<times> nat) list \<Rightarrow> bytes \<Rightarrow> nat \<Rightarrow> (nat \<times> nat) \<times> (nat \<times> nat) list" where
  "lines_of lns tx p =
     (let q = min p (length tx);
          i = partition_point (\<lambda>(s, _). s \<le> q) lns;
          hit = (if i = 0 then None
                 else case get_at lns (i - 1) of
                        Some (s, e) \<Rightarrow> if q \<le> e then Some (s, e) else None
                      | None \<Rightarrow> None)
      in case hit of
           Some l \<Rightarrow> (l, lns)
         | None \<Rightarrow> let l = (line_start tx q, line_end tx q) in (l, take i lns @ l # drop i lns))"

section \<open>The map\<close>

record line_map =
  lm_old :: bytes
  lm_new :: bytes
  lm_edits :: "edit list"
  lm_prefix :: "int list"

fun prefix_sums :: "int \<Rightarrow> edit list \<Rightarrow> int list" where
  "prefix_sums s [] = []"
| "prefix_sums s (e # es) = (s + delta e) # prefix_sums (s + delta e) es"

definition line_map_new :: "bytes \<Rightarrow> bytes \<Rightarrow> edit_list \<Rightarrow> line_map" where
  "line_map_new old new es = \<lparr>lm_old = old, lm_new = new, lm_edits = es, lm_prefix = 0 # prefix_sums 0 es\<rparr>"

definition line_start_at :: "line_map \<Rightarrow> nat \<Rightarrow> bool" where
  "line_start_at m p \<longleftrightarrow> p = 0 \<or> get_at (lm_old m) (p - 1) = Some newline"

definition ends_with_nl :: "bytes \<Rightarrow> bool" where
  "ends_with_nl bs \<longleftrightarrow> last_opt bs = Some newline"

definition starts_with_nl :: "bytes \<Rightarrow> bool" where
  "starts_with_nl bs \<longleftrightarrow> first_opt bs = Some newline"

definition start_aligned :: "line_map \<Rightarrow> edit \<Rightarrow> bool" where
  "start_aligned m e \<longleftrightarrow>
     line_start_at m (epos e) \<and> line_start_at m (edit_end e) \<and> (eins e = [] \<or> ends_with_nl (eins e))"

definition end_aligned :: "line_map \<Rightarrow> edit \<Rightarrow> bool" where
  "end_aligned m e \<longleftrightarrow>
     get_at (lm_old m) (epos e) = Some newline \<and>
     (edit_end e = length (lm_old m) \<or> get_at (lm_old m) (edit_end e) = Some newline) \<and>
     (eins e = [] \<or> starts_with_nl (eins e))"

definition at_col :: "line_map \<Rightarrow> nat \<Rightarrow> nat \<Rightarrow> nat" where
  "at_col m ls0 col =
     (let ls = min ls0 (length (lm_new m)); le = line_end (lm_new m) ls in ls + min col (le - ls))"

definition new_line_start :: "line_map \<Rightarrow> nat \<Rightarrow> nat" where
  "new_line_start m p0 =
     (let p = min p0 (length (lm_new m));
          p' = (if p = length (lm_new m) \<and> 0 < p \<and> lm_new m ! (p - 1) = newline then p - 1 else p)
      in line_start (lm_new m) p')"

definition is_join :: "line_map \<Rightarrow> edit \<Rightarrow> bool" where
  "is_join m e \<longleftrightarrow>
     get_at (lm_old m) (epos e) = Some newline \<and>
     list_all (\<lambda>c. c = 32 \<or> c = 9) (slice (epos e + 1) (edit_end e) (lm_old m)) \<and>
     list_all (\<lambda>c. c = 32 \<or> c = 9) (eins e)"

text \<open>\<^verbatim>\<open>split\<close> on newlines: the pieces between them.\<close>

fun split_nl :: "bytes \<Rightarrow> bytes list" where
  "split_nl [] = [[]]"
| "split_nl (c # cs) = (if c = newline then [] # split_nl cs
                        else case split_nl cs of [] \<Rightarrow> [[c]] | p # ps \<Rightarrow> (c # p) # ps)"

definition moved_to :: "line_map \<Rightarrow> edit \<Rightarrow> (bytes \<times> nat) option" where
  "moved_to m f =
     (if line_start_at m (epos f) \<and> ends_with_nl (eins f) then Some (butlast (eins f), 0)
      else if starts_with_nl (eins f) \<and> (epos f = length (lm_old m) \<or> lm_old m ! epos f = newline)
      then Some (tl (eins f), 1)
      else None)"

fun moved_loop :: "line_map \<Rightarrow> edit \<Rightarrow> bytes \<Rightarrow> nat \<Rightarrow> nat \<Rightarrow> edit list \<Rightarrow> nat \<Rightarrow> nat option" where
  "moved_loop m e gone j col [] k = None"
| "moved_loop m e gone j col (f # fs) k =
     (if edel f \<noteq> 0 \<or> epos f = epos e then moved_loop m e gone j col fs (k + 1)
      else case moved_to m f of
        None \<Rightarrow> moved_loop m e gone j col fs (k + 1)
      | Some (body, first) \<Rightarrow>
          if body \<noteq> gone then moved_loop m e gone j col fs (k + 1)
          else
            let at = nat (int (epos f) + lm_prefix m ! k) + first;
                start = sum_list (map (\<lambda>l. length l + 1) (take j (split_nl body)))
            in Some (at_col m (at + start) col))"

definition moved :: "line_map \<Rightarrow> edit \<Rightarrow> nat \<Rightarrow> nat \<Rightarrow> bool \<Rightarrow> nat option" where
  "moved m e j col lead =
     (if eins e \<noteq> [] then None
      else
        let gone0 = slice (epos e + (if lead then 1 else 0)) (edit_end e) (lm_old m) in
        if lead then moved_loop m e gone0 j col (lm_edits m) 0
        else if ends_with_nl gone0 then moved_loop m e (butlast gone0) j col (lm_edits m) 0
        else None)"

definition ins_starts :: "bytes \<Rightarrow> bool \<Rightarrow> nat list" where
  "ins_starts ins lead =
     (if \<not> lead \<and> ins \<noteq> [] then [0] else []) @
     map Suc (filter (\<lambda>k. ins ! k = newline \<and> (lead \<or> k + 1 < length ins)) [0..<length ins])"

definition replaced :: "line_map \<Rightarrow> edit \<Rightarrow> nat \<Rightarrow> nat \<Rightarrow> nat \<Rightarrow> line_gravity \<Rightarrow> bool \<Rightarrow> nat option" where
  "replaced m e base j col gravity lead =
     (let starts = ins_starts (eins e) lead in
      case get_at starts j of
        Some s \<Rightarrow> Some (at_col m (base + s) col)
      | None \<Rightarrow>
          (case gravity of
             Drop \<Rightarrow> None
           | Keep \<Rightarrow>
               let after = base + length (eins e) + (if lead \<and> edit_end e < length (lm_old m) then 1 else 0)
               in Some (at_col m (new_line_start m after) col)
           | Cursor \<Rightarrow>
               Some (case last_opt starts of
                       Some s \<Rightarrow> base + s
                     | None \<Rightarrow> if lead then line_start (lm_new m) base
                              else if base = 0 then 0
                              else line_start (lm_new m) (base - 1))))"

text \<open>
  What the edit \<open>e\<close> that reaches the line \<open>[ls, le)\<close> does to the position \<open>p\<close> on it: \<open>None\<close> when it leaves
  the line in place, \<open>Some None\<close> when it drops the position.
\<close>

definition line_case :: "line_map \<Rightarrow> edit \<Rightarrow> int \<Rightarrow> nat \<Rightarrow> nat \<Rightarrow> nat \<Rightarrow> line_gravity \<Rightarrow> nat option option" where
  "line_case m e d ls le p gravity =
     (let base = nat (int (epos e) + d); col = p - ls in
      if start_aligned m e \<and> ls < edit_end e then
        (let j = count_newlines (slice (epos e) ls (lm_old m)) in
         Some (case moved m e j col False of
                 Some to \<Rightarrow> Some to
               | None \<Rightarrow> replaced m e base j col gravity False))
      else if epos e < ls \<and> end_aligned m e then
        (let j = count_newlines (slice (epos e + 1) ls (lm_old m)) in
         Some (case moved m e j col True of
                 Some to \<Rightarrow> Some to
               | None \<Rightarrow> replaced m e base j col gravity True))
      else if epos e < ls then
        Some (if le < edit_end e then
                (case gravity of
                   Drop \<Rightarrow> None
                 | Keep \<Rightarrow> Some (base + length (eins e))
                 | Cursor \<Rightarrow> Some (line_start (lm_new m) base))
              else if eins e = [] \<and> \<not> is_join m e then
                (let start = line_start (lm_new m) base in Some (at_col m start (base - start + col)))
              else if edit_end e \<le> p then Some (nat (int p + d + delta e))
              else Some (base + length (eins e)))
      else None)"

fun line_walk :: "line_map \<Rightarrow> edit list \<Rightarrow> int \<Rightarrow> nat \<Rightarrow> nat \<Rightarrow> nat \<Rightarrow> line_gravity \<Rightarrow> nat option option \<times> int" where
  "line_walk m [] d ls le p gravity = (None, d)"
| "line_walk m (e # es) d ls le p gravity =
     (if ls < epos e then (None, d)
      else if edit_end e = ls \<and> epos e < ls \<and> (start_aligned m e \<or> \<not> end_aligned m e) then
        line_walk m es (d + delta e) ls le p gravity
      else if edel e = 0 \<and> epos e = ls \<and> ends_with_nl (eins e) then
        line_walk m es (d + delta e) ls le p gravity
      else (line_case m e d ls le p gravity, d))"

definition map_offset :: "line_map \<Rightarrow> nat \<Rightarrow> line_gravity \<Rightarrow> nat option" where
  "map_offset m p0 gravity =
     (let p = min p0 (length (lm_old m));
          ls = line_start (lm_old m) p;
          le = line_end (lm_old m) p;
          i = partition_point (\<lambda>e. edit_end e < ls) (lm_edits m);
          (out, d) = line_walk m (drop i (lm_edits m)) (lm_prefix m ! i) ls le p gravity
      in map_option (snap (lm_new m))
           (case out of
              Some r \<Rightarrow> r
            | None \<Rightarrow> Some (at_col m (nat (int ls + d)) (p - ls))))"

section \<open>Tracked positions\<close>

record tracked =
  tk_pos :: "nat option"
  tk_track :: track
  tk_restore :: bool

definition tracked_line :: "nat option \<Rightarrow> line_gravity \<Rightarrow> tracked" where
  "tracked_line p g = \<lparr>tk_pos = p, tk_track = Line g, tk_restore = False\<rparr>"

definition restored :: "tracked \<Rightarrow> tracked" where
  "restored t = t\<lparr>tk_restore := True\<rparr>"

definition tracked_apply :: "tracked \<Rightarrow> edit_list \<Rightarrow> line_map \<Rightarrow> tracked" where
  "tracked_apply t es m =
     t\<lparr>tk_pos := (case tk_pos t of
         None \<Rightarrow> None
       | Some p \<Rightarrow>
           (case tk_track t of
              Byte bi \<Rightarrow> Some (snap (lm_new m) (fst (map_byte_inside es p bi)))
            | Line g \<Rightarrow> map_offset m p g))\<rparr>"

section \<open>The cache returns what a scan returns\<close>

definition is_line :: "bytes \<Rightarrow> nat \<times> nat \<Rightarrow> bool" where
  "is_line tx l \<longleftrightarrow> fst l \<le> length tx \<and> line_start tx (fst l) = fst l \<and> line_end tx (fst l) = snd l"

definition cache_ok :: "bytes \<Rightarrow> (nat \<times> nat) list \<Rightarrow> bool" where
  "cache_ok tx lns \<longleftrightarrow> sorted_wrt (\<lambda>a b. fst a < fst b) lns \<and> (\<forall>l \<in> set lns. is_line tx l)"

lemma on_line:
  assumes "is_line tx (s, e)" "s \<le> q" "q \<le> e"
  shows "line_start tx q = s" "line_end tx q = e"
proof -
  have s: "s \<le> length tx" "line_start tx s = s" "line_end tx s = e" using assms(1) by (simp_all add: is_line_def)
  have el: "e \<le> length tx" using line_end_bounds(2) [of tx s] s by simp
  have nn: "tx ! j \<noteq> newline" if "s \<le> j" "j < e" for j
    using no_newline_on_line [of tx s j] s that by simp
  show "line_start tx q = s"
  proof (rule line_start_eqI [OF assms(2)])
    show "q \<le> length tx" using assms(3) el by simp
    show "s = 0 \<or> tx ! (s - 1) = newline" using s(2) by (cases rule: line_start_cases [of tx s]) auto
  qed (use nn assms(3) in auto)
  show "line_end tx q = e"
  proof (rule line_end_eqI [OF assms(3) el])
    show "e = length tx \<or> tx ! e = newline" using s(3) by (cases rule: line_end_cases [of tx s]) auto
  qed (use nn assms(2) in auto)
qed

lemma line_around:
  assumes "q \<le> length tx"
  shows "is_line tx (line_start tx q, line_end tx q)" "line_start tx q \<le> q" "q \<le> line_end tx q"
proof -
  have b: "line_start tx q \<le> q" "q \<le> line_end tx q" "line_end tx q \<le> length tx"
    using line_start_le [of tx q] line_end_bounds(1) [of q tx] line_end_bounds(2) [of tx q] assms by auto
  then show "line_start tx q \<le> q" "q \<le> line_end tx q" by auto
  have "line_end tx (line_start tx q) = line_end tx q"
  proof (rule line_end_eqI)
    show "line_end tx q = length tx \<or> tx ! line_end tx q = newline"
      by (cases rule: line_end_cases [of tx q]) auto
  qed (use b assms no_newline_on_line [of tx q] in auto)
  then show "is_line tx (line_start tx q, line_end tx q)" using b by (simp add: is_line_def line_start_idem)
qed

lemma lines_of_hit:
  assumes "cache_ok tx lns" "q \<le> length tx" "i = partition_point (\<lambda>(s, _). s \<le> q) lns"
    and "i \<noteq> 0" "lns ! (i - 1) = (s, e)" "q \<le> e"
  shows "(s, e) = (line_start tx q, line_end tx q)"
proof -
  have i: "i - 1 < length lns" using assms(3,4) partition_point_le [of "\<lambda>(s, _). s \<le> q" lns] by linarith
  have "is_line tx (s, e)" using assms(1,5) i nth_mem by (fastforce simp: cache_ok_def)
  moreover have "i - 1 < partition_point (\<lambda>(s, _). s \<le> q) lns" using assms(3,4) by simp
  from partition_point_before [OF this] have "s \<le> q" using assms(5) by simp
  ultimately show ?thesis using on_line [of tx s e q] assms(6) by simp
qed

lemma lines_of_miss:
  assumes "cache_ok tx lns" "q \<le> length tx" "i = partition_point (\<lambda>(s, _). s \<le> q) lns"
    and miss: "i = 0 \<or> snd (lns ! (i - 1)) < q"
  shows "cache_ok tx (take i lns @ (line_start tx q, line_end tx q) # drop i lns)"
proof -
  let ?l = "(line_start tx q, line_end tx q)"
  note a = line_around [OF assms(2)]
  have srt: "sorted_wrt (\<lambda>a b. fst a < fst b) (take i lns @ drop i lns)" and
    ln: "\<And>l. l \<in> set lns \<Longrightarrow> is_line tx l" using assms(1) by (simp_all add: cache_ok_def)
  have i: "i \<le> length lns" by (simp add: assms(3))
  have right: "fst ?l < fst l" if "l \<in> set (drop i lns)" for l
  proof (cases "i < length lns")
    case True
    then have "\<not> (case lns ! i of (s, _) \<Rightarrow> s \<le> q)" using partition_point_at [of "\<lambda>(s, _). s \<le> q" lns] assms(3) by simp
    then have "q < fst (lns ! i)" by (simp add: split_beta not_le)
    moreover have "drop i lns = lns ! i # drop (Suc i) lns" using True by (rule Cons_nth_drop_Suc [symmetric])
    then have "fst (lns ! i) \<le> fst l" using that srt by (auto simp: sorted_wrt_append)
    ultimately show ?thesis using a(2) by simp
  qed (use that in simp)
  have left: "fst l < fst ?l" if "l \<in> set (take i lns)" for l
  proof -
    have i0: "i \<noteq> 0" using that by (intro notI) simp
    let ?p = "lns ! (i - 1)"
    have p: "?p \<in> set lns" "is_line tx ?p" using i0 i ln [of ?p] by (auto intro: nth_mem)
    have "snd ?p < q" using miss i0 by simp
    moreover have "line_end tx (fst ?p) = snd ?p" using p(2) by (simp add: is_line_def)
    ultimately have nl: "snd ?p < length tx" "tx ! snd ?p = newline" "fst ?p \<le> snd ?p"
      using assms(2) line_end_bounds(1) [of "fst ?p" tx] p(2)
      by (cases rule: line_end_cases [of tx "fst ?p"]; auto simp: is_line_def)+
    have "\<not> fst ?l \<le> snd ?p" using no_newline_on_line [of tx q "snd ?p"] nl \<open>snd ?p < q\<close> a(3) assms(2) by auto
    moreover have "take i lns = take (i - 1) lns @ [?p]"
      using i0 i by (metis Suc_diff_1 Suc_le_lessD not_gr0 take_Suc_conv_app_nth)
    then have "fst l \<le> fst ?p" using that srt by (auto simp: sorted_wrt_append)
    ultimately show ?thesis using nl(3) by simp
  qed
  have "is_line tx l" if "l \<in> set (take i lns @ ?l # drop i lns)" for l
    using that a(1) ln [of l] in_set_takeD [of l i lns] in_set_dropD [of l i lns] by auto
  moreover have "fst a < fst b" if "a \<in> set (take i lns)" "b \<in> set (drop i lns)" for a b
    using left [OF that(1)] right [OF that(2)] by simp
  then have "sorted_wrt (\<lambda>a b. fst a < fst b) (take i lns @ ?l # drop i lns)"
    using assms(1) left right unfolding sorted_wrt_append
    by (simp add: cache_ok_def sorted_wrt_take sorted_wrt_drop)
  ultimately show ?thesis by (simp add: cache_ok_def)
qed

lemma lines_of_ok:
  assumes "cache_ok tx lns"
  shows "fst (lines_of lns tx p) = (line_start tx p, line_end tx p) \<and> cache_ok tx (snd (lines_of lns tx p))"
proof -
  define q where "q = min p (length tx)"
  define i where "i = partition_point (\<lambda>(s, _). s \<le> q) lns"
  have q: "q \<le> length tx" by (simp add: q_def)
  have eq: "line_start tx q = line_start tx p" "line_end tx q = line_end tx p"
    by (simp_all add: line_start_def line_end_def q_def)
  have unf: "lines_of lns tx p =
     (case (if i = 0 then None
            else case get_at lns (i - 1) of
                   Some (s, e) \<Rightarrow> if q \<le> e then Some (s, e) else None
                 | None \<Rightarrow> None) of
        Some l \<Rightarrow> (l, lns)
      | None \<Rightarrow> ((line_start tx q, line_end tx q), take i lns @ (line_start tx q, line_end tx q) # drop i lns))"
    by (simp only: lines_of_def Let_def q_def i_def)
  have il: "i \<noteq> 0 \<Longrightarrow> i - 1 < length lns"
    using partition_point_le [of "\<lambda>(s, _). s \<le> q" lns] unfolding i_def by linarith
  show ?thesis
  proof (cases "i = 0 \<or> snd (lns ! (i - 1)) < q")
    case True
    then have "lines_of lns tx p = ((line_start tx q, line_end tx q),
        take i lns @ (line_start tx q, line_end tx q) # drop i lns)"
      using il unfolding unf by (auto simp: get_at_def split_beta not_less)
    then show ?thesis using lines_of_miss [OF assms q i_def True] eq by simp
  next
    case False
    obtain s e where l: "lns ! (i - 1) = (s, e)" by (cases "lns ! (i - 1)")
    have le: "q \<le> e" using False l by simp
    have "(s, e) = (line_start tx q, line_end tx q)" by (rule lines_of_hit [OF assms q i_def _ l le]) (use False in simp)
    moreover have "lines_of lns tx p = ((s, e), lns)"
      using False il l le unfolding unf by (simp add: get_at_def)
    ultimately show ?thesis using assms eq by simp
  qed
qed

section \<open>Where the line rule lands\<close>

lemma replaced_drops: "replaced m e base j col g lead = None \<Longrightarrow> g = Drop"
  by (cases g) (auto simp: replaced_def Let_def split: option.splits)

lemma line_case_drops: "line_case m e d ls le p g = Some None \<Longrightarrow> g = Drop"
  by (cases g) (auto simp: line_case_def Let_def split: if_splits option.splits dest: replaced_drops)

lemma line_walk_drops: "fst (line_walk m es d ls le p g) = Some None \<Longrightarrow> g = Drop"
  by (induction es arbitrary: d) (auto split: if_splits dest: line_case_drops)

lemma map_offset_drops:
  assumes "map_offset m p g = None"
  shows "g = Drop"
proof -
  define q where "q = min p (length (lm_old m))"
  define ls where "ls = line_start (lm_old m) q"
  define i where "i = partition_point (\<lambda>e. edit_end e < ls) (lm_edits m)"
  define w where "w = line_walk m (drop i (lm_edits m)) (lm_prefix m ! i) ls (line_end (lm_old m) q) q g"
  have "map_offset m p g = map_option (snap (lm_new m))
      (case fst w of Some r \<Rightarrow> r | None \<Rightarrow> Some (at_col m (nat (int ls + snd w)) (q - ls)))"
    by (simp only: map_offset_def Let_def q_def ls_def i_def w_def split_beta)
  with assms have "fst w = Some None" by (auto split: option.splits)
  then show ?thesis unfolding w_def by (rule line_walk_drops)
qed

lemma map_offset_range: "map_offset m p g = Some q \<Longrightarrow> q \<le> length (lm_new m) \<and> is_boundary (lm_new m) q"
  unfolding map_offset_def Let_def split_beta by (rule sn.map_snap_bounds)

section \<open>Characters do not cross lines\<close>

lemma lead_spec_width: "lead_spec c = Some (w, lo, hi) \<Longrightarrow> 2 \<le> w \<and> 0x80 \<le> lo"
  by (auto simp: lead_spec_def split: if_splits)

lemma nth_tl_pred: "k \<noteq> 0 \<Longrightarrow> k < length r \<Longrightarrow> tl r ! (k - 1) = r ! k \<and> k - 1 < length (tl r)"
  by (cases r; cases k) auto

lemma char_len_at_local:
  assumes "S = [] \<or> hd S = newline" "j < length L"
  shows "char_len_at (P @ L @ S) (length P + j) = char_len_at L j"
proof -
  let ?b = "P @ L @ S"
  have g: "get_at ?b (length P + j) = Some (L ! j)" "get_at L j = Some (L ! j)"
    using assms(2) by (simp_all add: nth_append)
  have sp: "(if length ?b < length P + j + w then None
      else let rest = slice (length P + j + 1) (length P + j + w) ?b in
        if lo \<le> rest ! 0 \<and> rest ! 0 \<le> hi \<and> list_all is_cont (tl rest) then Some w else None) =
      (if length L < j + w then None
      else let rest = slice (j + 1) (j + w) L in
        if lo \<le> rest ! 0 \<and> rest ! 0 \<le> hi \<and> list_all is_cont (tl rest) then Some w else None)"
    if w: "lead_spec (L ! j) = Some (w, lo, hi)" for w lo hi
  proof (cases "length L < j + w")
    case False
    then have "slice (length P + j + 1) (length P + j + w) ?b = slice (j + 1) (j + w) L"
      using slice_append_right [of P "length P + j + 1" "length P + j + w" "L @ S"]
        slice_append_left [of "j + w" L "j + 1" S] by simp
    then show ?thesis using False by simp
  next
    case True
    show ?thesis
    proof (cases "length ?b < length P + j + w")
      case False
      let ?r = "slice (length P + j + 1) (length P + j + w) ?b" and ?k = "length L - j - 1"
      have S: "S \<noteq> []" using False True by auto
      have k: "?k < length ?r" using True False assms(2) by auto
      have "?r ! ?k = ?b ! (length P + j + 1 + ?k)" by (rule slice_nth) (use k False in auto)
      also have "length P + j + 1 + ?k = length (P @ L)" using assms(2) by simp
      also have "?b ! length (P @ L) = hd S" using S by (simp add: nth_append hd_conv_nth)
      finally have nl: "?r ! ?k = newline" using assms(1) S by simp
      have "\<not> (lo \<le> ?r ! 0 \<and> list_all is_cont (tl ?r))"
      proof (cases "?k = 0")
        case True
        have "\<not> (0x80 :: byte) \<le> newline" by simp
        then show ?thesis using True nl lead_spec_width [OF w] by (metis order_trans)
      next
        case False
        then have "tl ?r ! (?k - 1) = newline" "?k - 1 < length (tl ?r)" using nl nth_tl_pred [OF False k] by simp_all
        then have "\<not> list_all is_cont (tl ?r)" by (metis is_cont_newline list_all_length)
        then show ?thesis by simp
      qed
      then show ?thesis using True False by (auto simp: Let_def)
    qed (use True in simp)
  qed
  show ?thesis
  proof (cases "lead_spec (L ! j)")
    case None
    then show ?thesis by (simp add: char_len_at_def g)
  next
    case (Some x)
    obtain w lo hi where x: "x = (w, lo, hi)" by (cases x)
    show ?thesis
      unfolding char_len_at_def g option.case Some x prod.case by (simp only: sp [OF Some [unfolded x]])
  qed
qed

lemma inside_char_iff:
  "inside_char b i \<longleftrightarrow> i < length b \<and> is_cont (b ! i) \<and>
     (\<exists>j w. i - 3 \<le> j \<and> j < i \<and> \<not> is_cont (b ! j) \<and> (\<forall>k. j < k \<longrightarrow> k \<le> i \<longrightarrow> is_cont (b ! k)) \<and>
        char_len_at b j = Some w \<and> i < j + w)" (is "?L \<longleftrightarrow> ?R")
proof
  assume ?L
  then obtain j w where f: "find (\<lambda>j. \<not> is_cont (b ! j)) (rev [i - 3..<i]) = Some j"
    and w: "char_len_at b j = Some w" "i < j + w" and i: "i < length b" "is_cont (b ! i)"
    by (auto simp: inside_char_def split: if_splits option.splits)
  obtain j' where j': "i - 3 \<le> j'" "j' < i" "\<not> is_cont (b ! j')" "\<forall>k. j' < k \<longrightarrow> k \<le> i \<longrightarrow> is_cont (b ! k)"
    using inside_char_back [OF \<open>?L\<close>] by blast
  from f have "\<not> is_cont (b ! j)" "j < i" "i - 3 \<le> j" by (auto simp: find_Some_iff rev_nth)
  moreover have "j' \<le> j"
  proof (rule ccontr)
    assume "\<not> j' \<le> j"
    obtain n where n: "n < length (rev [i - 3..<i])" "j = rev [i - 3..<i] ! n"
      "\<forall>m < n. is_cont (b ! (rev [i - 3..<i] ! m))" using f by (auto simp: find_Some_iff)
    have "j = i - Suc n" using n by (simp add: rev_nth)
    then have "i - Suc j' < n" using \<open>\<not> j' \<le> j\<close> j'(2) by linarith
    moreover have "rev [i - 3..<i] ! (i - Suc j') = j'" using j'(1,2) by (simp add: rev_nth)
    ultimately show False using n(3) j'(3) by metis
  qed
  ultimately have "j = j'" using j'(4) by (metis le_neq_implies_less less_imp_le)
  then show ?R using i j' w by blast
next
  assume ?R
  then obtain j w where j: "i < length b" "is_cont (b ! i)" "i - 3 \<le> j" "j < i" "\<not> is_cont (b ! j)"
    "\<forall>k. j < k \<longrightarrow> k \<le> i \<longrightarrow> is_cont (b ! k)" "char_len_at b j = Some w" "i < j + w" by blast
  have "find (\<lambda>j. \<not> is_cont (b ! j)) (rev [i - 3..<i]) = Some j"
    unfolding find_Some_iff
  proof (intro exI [of _ "i - Suc j"] conjI allI impI)
    show "i - Suc j < length (rev [i - 3..<i])" "j = rev [i - 3..<i] ! (i - Suc j)"
      using j(3,4) by (auto simp: rev_nth)
    show "\<not> \<not> is_cont (b ! (rev [i - 3..<i] ! m))" if "m < i - Suc j" for m
    proof -
      have "rev [i - 3..<i] ! m = i - Suc m" using that j(3) by (simp add: rev_nth)
      then show ?thesis using that j(6) by simp
    qed
    show "\<not> is_cont (b ! (rev [i - 3..<i] ! (i - Suc j)))" using j(3,4,5) by (simp add: rev_nth)
  qed
  with j show ?L by (simp add: inside_char_def)
qed

lemma boundary_local:
  assumes P: "P = [] \<or> last P = newline" and S: "S = [] \<or> hd S = newline" and k: "k \<le> length L"
  shows "is_boundary (P @ L @ S) (length P + k) = is_boundary L k"
proof -
  let ?b = "P @ L @ S"
  consider "k = 0" | "k = length L" | "0 < k" "k < length L" using k by linarith
  then show ?thesis
  proof cases
    case 1
    have "is_boundary ?b (length P)"
    proof (cases "P = []")
      case False
      then have "?b ! (length P - 1) = newline" using P by (simp add: nth_append last_conv_nth)
      moreover have "length P - 1 < length ?b" using False by (cases P) auto
      ultimately show ?thesis using False boundary_after_newline [of "length P - 1" ?b] by simp
    qed simp
    then show ?thesis using 1 by simp
  next
    case 2
    have "is_boundary ?b (length P + length L)"
    proof (cases "S = []")
      case True
      then show ?thesis using is_boundary_length [of ?b] by simp
    next
      case False
      then have "?b ! (length P + length L) = newline" using S by (simp add: nth_append hd_conv_nth)
      then show ?thesis using False by (intro not_cont_boundary) auto
    qed
    then show ?thesis using 2 by simp
  next
    case 3
    have nth: "?b ! (length P + i) = L ! i" if "i < length L" for i using that by (simp add: nth_append)
    have "inside_char ?b (length P + k) \<longleftrightarrow> inside_char L k"
    proof
      assume "inside_char ?b (length P + k)"
      then obtain j w where j: "is_cont (?b ! (length P + k))" "length P + k - 3 \<le> j" "j < length P + k"
        "\<not> is_cont (?b ! j)" "\<forall>i. j < i \<longrightarrow> i \<le> length P + k \<longrightarrow> is_cont (?b ! i)"
        "char_len_at ?b j = Some w" "length P + k < j + w" unfolding inside_char_iff by blast
      have "length P \<le> j"
      proof (rule ccontr)
        assume "\<not> length P \<le> j"
        then have ne: "P \<noteq> []" "j \<le> length P - 1" by auto
        have nl: "?b ! (length P - 1) = newline" using P ne by (simp add: nth_append last_conv_nth)
        show False
        proof (cases "j = length P - 1")
          case True
          moreover have "length P - 1 < length ?b" using ne(1) by (cases P) auto
          ultimately have "char_len_at ?b j = Some 1" using nl by (intro char_len_at_newline) simp_all
          then show False using j(6,7) True ne by (cases P) auto
        next
          case False
          then show False using j(5) nl ne by (metis is_cont_newline le_add1 le_neq_implies_less less_imp_le
                length_greater_0_conv diff_less zero_less_one order.trans)
        qed
      qed
      then obtain i where i: "j = length P + i" using le_iff_add by blast
      have "i < k" using i j(3) by simp
      then have il: "i < length L" using 3 by simp
      have c: "is_cont (L ! n)" if "i < n" "n \<le> k" for n
        using j(5) [THEN spec, of "length P + n"] that i nth [of n] 3 by simp
      show "inside_char L k" unfolding inside_char_iff
        using j i il nth 3 c char_len_at_local [OF S il, of P] by (intro conjI exI [of _ i] exI [of _ w]) auto
    next
      assume "inside_char L k"
      then obtain j w where j: "is_cont (L ! k)" "k - 3 \<le> j" "j < k" "\<not> is_cont (L ! j)"
        "\<forall>i. j < i \<longrightarrow> i \<le> k \<longrightarrow> is_cont (L ! i)" "char_len_at L j = Some w" "k < j + w"
        unfolding inside_char_iff by blast
      have jl: "j < length L" using j(3) 3 by simp
      have c: "is_cont (?b ! n)" if "length P + j < n" "n \<le> length P + k" for n
        using j(5) [THEN spec, of "n - length P"] that nth [of "n - length P"] 3 by auto
      show "inside_char ?b (length P + k)" unfolding inside_char_iff
        using j jl nth 3 c char_len_at_local [OF S jl, of P]
        by (intro conjI exI [of _ "length P + j"] exI [of _ w]) auto
    qed
    then show ?thesis using 3 by (simp add: is_boundary_def)
  qed
qed

section \<open>Lines no edit touches\<close>

fun out_upto :: "edit list \<Rightarrow> bytes \<Rightarrow> nat \<Rightarrow> bytes" where
  "out_upto [] buf cur = []"
| "out_upto (e # es) buf cur = slice cur (epos e) buf @ eins e @ out_upto es buf (edit_end e)"

fun end_of :: "edit list \<Rightarrow> nat \<Rightarrow> nat" where
  "end_of [] cur = cur"
| "end_of (e # es) cur = end_of es (edit_end e)"

lemma out_from_append: "out_from (as @ bs) buf cur = out_upto as buf cur @ out_from bs buf (end_of as cur)"
  by (induction as arbitrary: cur) simp_all

lemma from_ok_append:
  "from_ok (as @ bs) cur len \<Longrightarrow> from_ok as cur len \<and> from_ok bs (end_of as cur) len \<and> cur \<le> end_of as cur \<and>
     end_of as cur \<le> len"
proof (induction as arbitrary: cur)
  case (Cons e as)
  then have "from_ok (as @ bs) (edit_end e) len" "cur \<le> epos e" "edit_end e \<le> len" "\<forall>f \<in> set (as @ bs). epos e < epos f"
    by (simp_all add: from_ok_Cons)
  with Cons.IH show ?case by (fastforce simp: from_ok_Cons edit_end_def)
qed (auto simp: from_ok_def)

lemma length_out_upto:
  "from_ok as cur (length buf) \<Longrightarrow>
     int (length (out_upto as buf cur)) = int (end_of as cur) - int cur + sum_list (map delta as)"
proof (induction as arbitrary: cur)
  case (Cons e as)
  then have "cur \<le> epos e" "edit_end e \<le> length buf" "from_ok as (edit_end e) (length buf)"
    by (auto simp: from_ok_Cons)
  then show ?case using Cons.IH [of "edit_end e"] by (simp add: delta_def edit_end_def)
qed simp

lemma end_of_less: "\<forall>e \<in> set as. edit_end e < q \<Longrightarrow> cur < q \<Longrightarrow> end_of as cur < q"
  by (induction as arbitrary: cur) auto

lemma prefix_sums_nth: "i < length es \<Longrightarrow> prefix_sums s es ! i = s + sum_list (map delta (take (Suc i) es))"
  by (induction es arbitrary: s i) (auto simp: nth_Cons split: nat.splits)

lemma lm_prefix_nth: "i \<le> length es \<Longrightarrow> lm_prefix (line_map_new old new es) ! i = sum_list (map delta (take i es))"
  using prefix_sums_nth [of "i - 1" es 0] by (cases i) (auto simp: line_map_new_def)

text \<open>The edits before a line and the edits after it.\<close>

definition line_untouched :: "edit list \<Rightarrow> nat \<Rightarrow> nat \<Rightarrow> bool" where
  "line_untouched es ls le \<longleftrightarrow> list_all (\<lambda>e. edit_end e < ls \<or> le < epos e) es"

definition delta_before :: "edit list \<Rightarrow> nat \<Rightarrow> int" where
  "delta_before es ls = sum_list (map delta (takeWhile (\<lambda>e. edit_end e < ls) es))"

lemma edits_after:
  assumes "from_ok es 0 len" "line_untouched es ls le"
  shows "\<forall>e \<in> set (dropWhile (\<lambda>e. edit_end e < ls) es). le < epos e"
proof (cases "dropWhile (\<lambda>e. edit_end e < ls) es")
  case (Cons f fs)
  have f: "f \<in> set es" using Cons by (metis list.set_intros(1) set_dropWhileD)
  have "\<not> edit_end f < ls" using Cons hd_dropWhile [of "\<lambda>e. edit_end e < ls" es] by simp
  then have l: "le < epos f" using f assms(2) by (auto simp: line_untouched_def list_all_iff)
  have "es = takeWhile (\<lambda>e. edit_end e < ls) es @ f # fs" using Cons by (metis takeWhile_dropWhile_id)
  then have "sorted_wrt (\<lambda>a b. edit_end a \<le> epos b \<and> epos a < epos b) (takeWhile (\<lambda>e. edit_end e < ls) es @ f # fs)"
    using assms(1) by (simp add: from_ok_def)
  then have "\<forall>g \<in> set fs. epos f < epos g" by (simp add: sorted_wrt_append)
  then show ?thesis using l Cons by auto
qed (simp del: dropWhile_eq_Nil_conv)

lemma untouched_split:
  assumes v: "edits_valid es old" and l: "is_line old (ls, le)" and u: "line_untouched es ls le"
  obtains P S where "apply_to es old = P @ slice ls le old @ S" "int (length P) = int ls + delta_before es ls"
    "P = [] \<or> last P = newline" "S = [] \<or> hd S = newline"
proof -
  let ?A = "takeWhile (\<lambda>e. edit_end e < ls) es" and ?B = "dropWhile (\<lambda>e. edit_end e < ls) es"
  let ?c = "end_of ?A 0"
  have f: "from_ok (?A @ ?B) 0 (length old)" using v by (simp add: edits_valid_def from_okI)
  note fa = from_ok_append [OF f]
  have after: "\<forall>e \<in> set ?B. le < epos e" by (rule edits_after [OF _ u]) (use f in simp)
  have A: "\<forall>e \<in> set ?A. edit_end e < ls" by (auto dest: set_takeWhileD)
  have ls: "ls \<le> length old" "line_start old ls = ls" "line_end old ls = le" using l by (simp_all add: is_line_def)
  have le: "ls \<le> le" "le \<le> length old"
    using line_end_bounds(1) [of ls old] line_end_bounds(2) [of old ls] ls by simp_all
  have c: "?c \<le> ls"
  proof (cases "ls = 0")
    case True
    then have "?A = []" by (auto simp: takeWhile_eq_Nil_iff)
    then show ?thesis by simp
  qed (use end_of_less [OF A, of 0] in simp)
  have Bq: "from_ok ?B q (length old)" if "q \<le> le + 1" "q \<le> length old" for q
    using fa after that by (auto simp: from_ok_def)
  let ?P = "out_upto ?A old 0 @ slice ?c ls old" and ?S = "out_from ?B old le"
  show thesis
  proof (rule that [of ?P ?S])
    have "apply_to es old = out_upto ?A old 0 @ out_from ?B old ?c"
      using out_from_append [of ?A ?B old 0] by (simp add: apply_to_out)
    also have "out_from ?B old ?c = slice ?c ls old @ out_from ?B old ls"
      by (rule out_from_cut [OF Bq c ls(1)]) (use le ls in auto)
    also have "out_from ?B old ls = slice ls le old @ ?S"
      by (rule out_from_cut [OF Bq le]) (use le in auto)
    finally show "apply_to es old = ?P @ slice ls le old @ ?S" by simp
    show "int (length ?P) = int ls + delta_before es ls"
      using length_out_upto [of ?A 0 old] fa c ls(1) by (simp add: delta_before_def)
    show "?P = [] \<or> last ?P = newline"
    proof (cases "ls = 0")
      case True
      then have "?A = []" by (auto simp: takeWhile_eq_Nil_iff)
      then show ?thesis using True by simp
    next
      case False
      then have lt: "?c < ls" using end_of_less [OF A] by simp
      have "old ! (ls - 1) = newline" using ls(2) False by (cases rule: line_start_cases [of old ls]) auto
      moreover have "slice ?c ls old = slice ?c (ls - 1) old @ [old ! (ls - 1)]"
        using slice_snoc [of ?c "ls - 1" old] lt ls(1) by simp
      ultimately show ?thesis by simp
    qed
    show "?S = [] \<or> hd ?S = newline"
    proof (cases "le = length old")
      case True
      have "?B = []"
      proof (rule ccontr)
        assume "?B \<noteq> []"
        then have "hd ?B \<in> set ?B" by simp
        then have "le < epos (hd ?B)" "edit_end (hd ?B) \<le> length old" using after fa by (auto simp: from_ok_def)
        then show False using True by (simp add: edit_end_def)
      qed
      then show ?thesis using True by (simp del: dropWhile_eq_Nil_conv)
    next
      case False
      then have lt: "le < length old" using le by simp
      then have nl: "old ! le = newline" using ls(3) by (cases rule: line_end_cases [of old ls]) auto
      have "?S = slice le (le + 1) old @ out_from ?B old (le + 1)"
        by (rule out_from_cut [OF Bq]) (use lt in auto)
      moreover have "slice le (le + 1) old = [newline]" using slice_snoc [of le le old] lt nl by simp
      ultimately show ?thesis by simp
    qed
  qed
qed

lemma newline_free_line:
  assumes "p \<le> length tx"
  shows "newline \<notin> set (slice (line_start tx p) (line_end tx p) tx)"
proof
  assume "newline \<in> set (slice (line_start tx p) (line_end tx p) tx)"
  then obtain i where i: "i < line_end tx p - line_start tx p"
    "slice (line_start tx p) (line_end tx p) tx ! i = newline" by (auto simp: in_set_conv_nth)
  then have "tx ! (line_start tx p + i) = newline"
    using slice_nth [of i "line_end tx p" "line_start tx p" tx] line_end_bounds(2) [of tx p] by simp
  moreover have "tx ! (line_start tx p + i) \<noteq> newline"
    by (rule no_newline_on_line [of tx p]) (use i(1) assms in auto)
  ultimately show False by simp
qed

lemma line_end_middle:
  assumes "newline \<notin> set L" "S = [] \<or> hd S = newline"
  shows "line_end (P @ L @ S) (length P) = length P + length L"
proof (rule line_end_eqI)
  show "length P + length L = length (P @ L @ S) \<or> (P @ L @ S) ! (length P + length L) = newline"
    using assms(2) by (cases S) (auto simp: nth_append)
  show "(P @ L @ S) ! j \<noteq> newline" if "length P \<le> j" "j < length P + length L" for j
  proof -
    have "(P @ L @ S) ! j = L ! (j - length P)" "j - length P < length L" using that by (auto simp: nth_append)
    then show ?thesis using assms(1) nth_mem by metis
  qed
qed simp_all

lemma line_prefix_newline:
  assumes "is_line tx (s, e)"
  shows "take s tx = [] \<or> last (take s tx) = newline"
proof (cases "s = 0")
  case False
  have s: "s \<le> length tx" "line_start tx s = s" using assms by (simp_all add: is_line_def)
  then have "tx ! (s - 1) = newline" using False by (cases rule: line_start_cases [of tx s]) auto
  moreover have "take s tx = take (s - 1) tx @ [tx ! (s - 1)]"
    using take_Suc_conv_app_nth [of "s - 1" tx] s(1) False by simp
  ultimately show ?thesis by simp
qed simp

lemma map_offset_untouched:
  assumes v: "edits_valid es old" and p: "p \<le> length old" "is_boundary old p"
    and u: "line_untouched es (line_start old p) (line_end old p)"
    and m: "m = line_map_new old (apply_to es old) es"
  shows "map_offset m p g = Some (nat (int p + delta_before es (line_start old p)))"
proof -
  let ?ls = "line_start old p" and ?le = "line_end old p" and ?new = "apply_to es old"
  let ?L = "slice ?ls ?le old" and ?i = "partition_point (\<lambda>e. edit_end e < ?ls) es"
  note a = line_around [OF p(1)]
  have ll: "?le \<le> length old" by (rule line_end_bounds(2))
  obtain P S where new: "?new = P @ ?L @ S" and len: "int (length P) = int ?ls + delta_before es ?ls"
    and PS: "P = [] \<or> last P = newline" "S = [] \<or> hd S = newline"
    by (rule untouched_split [OF v a(1) u])
  have pl: "length P = nat (int ?ls + delta_before es ?ls)" "0 \<le> int ?ls + delta_before es ?ls" using len by simp_all
  have f: "from_ok es 0 (length old)" using v by (simp add: edits_valid_def from_okI)
  have "take ?i es = takeWhile (\<lambda>e. edit_end e < ?ls) es"
    unfolding partition_point_def by (rule takeWhile_eq_take [symmetric])
  then have pre: "lm_prefix m ! ?i = delta_before es ?ls"
    using lm_prefix_nth [of ?i es old ?new] by (simp add: m delta_before_def)
  have drop: "drop ?i es = dropWhile (\<lambda>e. edit_end e < ?ls) es"
    unfolding partition_point_def by (rule dropWhile_eq_drop [symmetric])
  have walk: "line_walk m (drop ?i es) (delta_before es ?ls) ?ls ?le p g = (None, delta_before es ?ls)"
    using edits_after [OF f u] a(2,3) unfolding drop
    by (cases "dropWhile (\<lambda>e. edit_end e < ?ls) es") (auto simp del: dropWhile_eq_Nil_conv)
  have lenL: "length ?L = ?le - ?ls" using ll by simp
  have "line_end ?new (length P) = length P + length ?L"
    unfolding new by (rule line_end_middle [OF newline_free_line [OF p(1)] PS(2)])
  then have col: "at_col m (length P) (p - ?ls) = length P + (p - ?ls)"
    using lenL a(2,3) by (simp add: at_col_def m line_map_new_def Let_def new)
  have colL: "p - ?ls \<le> length ?L" unfolding lenL using a(3) by (rule diff_le_mono)
  have "is_boundary ?L (p - ?ls)"
  proof -
    have old: "old = take ?ls old @ ?L @ drop ?le old" using a(2,3) by (simp add: slice_append_drop)
    have "?ls \<le> length old" using a(2) p(1) by simp
    moreover have "take ?ls old = [] \<or> last (take ?ls old) = newline"
      by (rule line_prefix_newline [OF a(1)])
    moreover have "drop ?le old = [] \<or> hd (drop ?le old) = newline"
      by (cases rule: line_end_cases [of old p]) (auto simp: hd_drop_conv_nth)
    ultimately have "is_boundary (take ?ls old @ ?L @ drop ?le old) (length (take ?ls old) + (p - ?ls)) =
        is_boundary ?L (p - ?ls)" using lenL a(2,3) by (intro boundary_local) auto
    then show ?thesis using old p(2) a(2) \<open>?ls \<le> length old\<close> by simp
  qed
  then have "is_boundary ?new (length P + (p - ?ls))"
    unfolding new using boundary_local [OF PS, of "p - ?ls" ?L] colL by blast
  then have "snap ?new (length P + (p - ?ls)) = length P + (p - ?ls)"
    by (rule snap_fixed) (use a(2,3) lenL in \<open>simp add: new\<close>)
  moreover have "nat (int p + delta_before es ?ls) = length P + (p - ?ls)" using a(2) pl len by linarith
  ultimately show ?thesis using walk pre col p(1) pl
    by (simp add: map_offset_def m line_map_new_def Let_def)
qed

section \<open>Properties\<close>

text \<open>The cache of line bounds is transparent.  Whatever lines it holds, a lookup returns the start and end a
  scan of the text finds, and the cache stays a sorted list of lines of the text.\<close>

theorem lines_cache_transparent:
  assumes "cache_ok tx lns"
  shows "fst (lines_of lns tx p) = (line_start tx p, line_end tx p) \<and> cache_ok tx (snd (lines_of lns tx p))"
  by (rule lines_of_ok [OF assms])

theorem lines_cache_transparent_witness:
  "fst (lines_of [] [97, 10, 98] 2) = (line_start [97, 10, 98] 2, line_end [97, 10, 98] 2)"
proof -
  have "cache_ok [97, 10, 98] []" by (simp add: cache_ok_def)
  from lines_cache_transparent [OF this, of 2] show ?thesis by (rule conjunct1)
qed

text \<open>A mark is never left outside the text or inside a character: where the line rule maps it is a character
  boundary of the new text, for every change; and only a \<^verbatim>\<open>Drop\<close> mark is ever lost (the \<^verbatim>\<open>expect\<close>
  that \<^verbatim>\<open>Keep\<close> never drops cannot fail).\<close>

theorem line_rule_total:
  "(\<forall>q. map_offset m p g = Some q \<longrightarrow> q \<le> length (lm_new m) \<and> is_boundary (lm_new m) q) \<and>
   (map_offset m p g = None \<longrightarrow> g = Drop)"
  using map_offset_range map_offset_drops by blast

theorem line_rule_total_witness:
  "map_offset (line_map_new [97, 10, 98] [98] [edit_delete 0 2]) 0 Keep \<noteq> None"
  using line_rule_total [of "line_map_new [97, 10, 98] [98] [edit_delete 0 2]" 0 Keep] by auto

text \<open>
  a mark on a line that no edit touches stays on that line at its column: the line rule moves it by exactly
  what the edits above it add, whatever those edits are.\<close>

theorem mark_follows_untouched_line:
  assumes "edits_valid es old" "p \<le> length old" "is_boundary old p"
    and "line_untouched es (line_start old p) (line_end old p)"
  shows "map_offset (line_map_new old (apply_to es old) es) p g =
    Some (nat (int p + delta_before es (line_start old p)))"
  by (rule map_offset_untouched [OF assms refl])

theorem mark_follows_untouched_line_witness:
  "map_offset (line_map_new [97, 10, 98, 99] (apply_to [edit_insert 0 [120, 10]] [97, 10, 98, 99]) [edit_insert 0 [120, 10]]) 3 Drop
     = Some 5"
proof -
  have "edits_valid [edit_insert 0 [120, 10]] [97, 10, 98, 99]"
    by (simp add: edits_valid_def edits_wf_def changes_something_def edit_insert_def edit_end_def)
  moreover have "is_boundary [97, 10, 98, 99] 3" by (rule not_cont_boundary) (simp_all add: is_cont_def)
  moreover have s: "line_start [97, 10, 98, 99] 3 = 2"
    by (simp add: line_start_def rposition_def)
  moreover have "line_untouched [edit_insert 0 [120, 10]] 2 (line_end [97, 10, 98, 99] 3)"
    by (simp add: line_untouched_def edit_insert_def edit_end_def)
  moreover have "delta_before [edit_insert 0 [120, 10]] 2 = 2"
    by (simp add: delta_before_def edit_insert_def edit_end_def delta_def)
  ultimately show ?thesis
    using mark_follows_untouched_line [of "[edit_insert 0 [120, 10]]" "[97, 10, 98, 99]" 3 Drop] by simp
qed

end
