(* ===== verification/Fenwick.thy ===== *)
theory Fenwick
  imports Prelude
begin

text \<open>
  The tree of pending shifts of the anchor store (\<^verbatim>\<open>Shifts\<close> of \<^verbatim>\<open>crates/core/src/anchor.rs\<close>): adding
  a delta from a rank on, and reading the shift at a rank, both along the indices a Fenwick tree visits.
  The locale \<open>range_shift\<close> is the contract the anchor store relies on; the proof for the tree goes by
  halving: the even indices of a tree are a tree of half the size.
\<close>

section \<open>Definitions\<close>

type_synonym shifts = "int list"

text \<open>\<^verbatim>\<open>usize::isolate_lowest_one\<close>: the lowest set bit of a number.\<close>

fun lowest_one :: "nat \<Rightarrow> nat" where
  "lowest_one n = (if n = 0 then 0 else if odd n then 1 else 2 * lowest_one (n div 2))"

declare lowest_one.simps [simp del]

lemma lowest_one_pos: "0 < n \<Longrightarrow> 0 < lowest_one n"
proof (induction n rule: lowest_one.induct)
  case (1 n)
  then show ?case by (subst lowest_one.simps) (auto elim: evenE)
qed

lemma lowest_one_double [simp]: "lowest_one (2 * n) = 2 * lowest_one n"
  by (subst lowest_one.simps) (simp add: lowest_one.simps [of 0])

lemma lowest_one_odd: "odd n \<Longrightarrow> lowest_one n = 1"
  by (subst lowest_one.simps) (auto elim: oddE)

definition shifts_reset :: "nat \<Rightarrow> shifts" where
  "shifts_reset n = replicate n 0"

text \<open>The loops start at \<open>r + 1\<close>, so the index of \<open>add_loop\<close> is never 0.\<close>

function add_loop :: "shifts \<Rightarrow> nat \<Rightarrow> int \<Rightarrow> shifts" where
  "add_loop t i d =
     (if 0 < i \<and> i \<le> length t then add_loop (t[i - 1 := t ! (i - 1) + d]) (i + lowest_one i) d else t)"
  by pat_completeness auto
termination
  by (relation "measure (\<lambda>(t, i, d). Suc (length t) - i)") (auto dest: lowest_one_pos)

definition add_from :: "shifts \<Rightarrow> nat \<Rightarrow> int \<Rightarrow> shifts" where
  "add_from t r d = add_loop t (r + 1) d"

function at_loop :: "shifts \<Rightarrow> nat \<Rightarrow> int \<Rightarrow> int" where
  "at_loop t i s = (if 0 < i then at_loop t (i - lowest_one i) (s + t ! (i - 1)) else s)"
  by pat_completeness auto
termination
  by (relation "measure (\<lambda>(t, i, s). i)") (auto simp: lowest_one_pos)

definition shift_at :: "shifts \<Rightarrow> nat \<Rightarrow> int" where
  "shift_at t r = at_loop t (r + 1) 0"

declare add_loop.simps [simp del] at_loop.simps [simp del]

section \<open>The contract\<close>

locale range_shift =
  fixes reset :: "nat \<Rightarrow> 't" and add :: "'t \<Rightarrow> nat \<Rightarrow> int \<Rightarrow> 't" and at :: "'t \<Rightarrow> nat \<Rightarrow> int" and size_of :: "'t \<Rightarrow> nat"
  assumes size_reset: "size_of (reset n) = n"
    and size_add: "size_of (add t r d) = size_of t"
    and at_reset: "r < n \<Longrightarrow> at (reset n) r = 0"
    and at_add: "i < size_of t \<Longrightarrow> at (add t r d) i = at t i + (if r \<le> i then d else 0)"
begin

text \<open>A batch of additions: the shift at a rank grows by the deltas added at or before it.\<close>

definition add_all :: "(nat \<times> int) list \<Rightarrow> 't \<Rightarrow> 't" where
  "add_all ps t = fold (\<lambda>(r, d) t. add t r d) ps t"

lemma size_add_all [simp]: "size_of (add_all ps t) = size_of t"
  by (induction ps arbitrary: t) (auto simp: add_all_def size_add)

lemma at_add_all:
  "i < size_of t \<Longrightarrow> at (add_all ps t) i = at t i + sum_list (map snd (filter (\<lambda>(r, d). r \<le> i) ps))"
proof (induction ps arbitrary: t)
  case (Cons p ps)
  obtain r d where p: "p = (r, d)" by (cases p)
  have "at (add_all ps (add t r d)) i = at (add t r d) i + sum_list (map snd (filter (\<lambda>(r, d). r \<le> i) ps))"
    using Cons by (simp add: size_add)
  then show ?case using Cons.prems at_add by (simp add: add_all_def p)
qed (simp add: add_all_def)

end

section \<open>Halving\<close>

definition half :: "shifts \<Rightarrow> shifts" where
  "half t = map (\<lambda>j. t ! (2 * j + 1)) [0..<length t div 2]"

lemma length_half [simp]: "length (half t) = length t div 2"
  by (simp add: half_def)

lemma half_nth: "j < length t div 2 \<Longrightarrow> half t ! j = t ! (2 * j + 1)"
  by (simp add: half_def)

lemma half_update_even: "j < length t div 2 \<Longrightarrow> half (t[2 * j + 1 := x]) = (half t)[j := x]"
  by (rule nth_equalityI) (auto simp: half_nth nth_list_update)

lemma half_update_odd: "half (t[2 * j := x]) = half t"
proof (rule nth_equalityI)
  show "half (t[2 * j := x]) ! i = half t ! i" if "i < length (half (t[2 * j := x]))" for i
  proof -
    have "2 * i + 1 \<noteq> 2 * j" by presburger
    then show ?thesis using that by (simp add: half_nth)
  qed
qed simp

lemma length_add_loop [simp]: "length (add_loop t i d) = length t"
proof (induction t i d rule: add_loop.induct)
  case (1 t i d)
  then show ?case by (subst add_loop.simps) simp
qed

lemma at_loop_even: "2 * j \<le> length t \<Longrightarrow> at_loop t (2 * j) s = at_loop (half t) j s"
proof (induction j arbitrary: s rule: less_induct)
  case (less j)
  show ?case
  proof (cases "j = 0")
    case True
    then show ?thesis by (simp add: at_loop.simps [of _ 0])
  next
    case False
    have "half t ! (j - 1) = t ! (2 * j - 1)"
      using less.prems False half_nth [of "j - 1" t] by (cases j) auto
    moreover have "2 * j - 2 * lowest_one j = 2 * (j - lowest_one j)" by simp
    moreover have "at_loop t (2 * (j - lowest_one j)) (s + t ! (2 * j - 1)) =
        at_loop (half t) (j - lowest_one j) (s + t ! (2 * j - 1))"
      using less.prems False lowest_one_pos [of j] by (intro less.IH) auto
    ultimately show ?thesis using False
      by (subst at_loop.simps, subst (2) at_loop.simps) simp
  qed
qed

lemma at_loop_half:
  "i \<le> length t \<Longrightarrow> at_loop t i s = at_loop (half t) (i div 2) (s + (if odd i then t ! (i - 1) else 0))"
proof (cases "odd i")
  case True
  assume "i \<le> length t"
  have e: "i - 1 = 2 * (i div 2)" using True by presburger
  have "at_loop t i s = at_loop t (i - 1) (s + t ! (i - 1))"
    using True by (subst at_loop.simps) (auto simp: lowest_one_odd elim: oddE)
  also have "\<dots> = at_loop (half t) (i div 2) (s + t ! (i - 1))"
    unfolding e by (rule at_loop_even) (use \<open>i \<le> length t\<close> e in simp)
  finally show ?thesis using True by simp
next
  case False
  assume "i \<le> length t"
  then show ?thesis using False at_loop_even [of "i div 2" t s] by simp
qed

lemma at_loop_acc: "at_loop t i s = s + at_loop t i 0"
proof (induction i arbitrary: s rule: less_induct)
  case (less i)
  show ?case
  proof (cases "i = 0")
    case False
    have l: "i - lowest_one i < i" using False lowest_one_pos [of i] by simp
    show ?thesis using False less.IH [OF l, of "s + t ! (i - 1)"] less.IH [OF l, of "t ! (i - 1)"]
      by (subst at_loop.simps, subst (2) at_loop.simps) simp
  qed (simp add: at_loop.simps [of _ 0])
qed

lemma add_loop_even:
  "half (add_loop t (2 * j) d) = add_loop (half t) j d \<and> (\<forall>k. add_loop t (2 * j) d ! (2 * k) = t ! (2 * k))"
proof (induction "Suc (length t) - j" arbitrary: t j rule: less_induct)
  case less
  show ?case
  proof (cases "0 < j \<and> j \<le> length t div 2")
    case False
    then have "\<not> (0 < 2 * j \<and> 2 * j \<le> length t)" by auto
    then have "add_loop t (2 * j) d = t" by (subst add_loop.simps) (simp only: if_False)
    moreover have "add_loop (half t) j d = half t" using False by (subst add_loop.simps) auto
    ultimately show ?thesis by simp
  next
    case True
    then have j: "0 < 2 * j \<and> 2 * j \<le> length t" by auto
    let ?t = "t[2 * j - 1 := t ! (2 * j - 1) + d]"
    have i: "2 * j - 1 = 2 * (j - 1) + 1" using True by (cases j) auto
    have jl: "j - 1 < length t div 2" using True by auto
    have h: "half ?t = (half t)[j - 1 := half t ! (j - 1) + d]"
      unfolding i using half_update_even [OF jl] half_nth [OF jl] by simp
    have l: "Suc (length ?t) - (j + lowest_one j) < Suc (length t) - j"
    proof -
      have "0 < lowest_one j" "j \<le> length t" using True j lowest_one_pos by simp_all
      then show ?thesis unfolding length_list_update by linarith
    qed
    have "add_loop t (2 * j) d = add_loop ?t (2 * (j + lowest_one j)) d"
      using j by (subst add_loop.simps) (simp add: distrib_left)
    moreover have "add_loop (half t) j d = add_loop (half ?t) (j + lowest_one j) d"
      using True unfolding h by (subst add_loop.simps) simp
    moreover have "?t ! (2 * k) = t ! (2 * k)" for k
    proof -
      have "2 * k \<noteq> 2 * j - 1" using True by presburger
      then show ?thesis by simp
    qed
    ultimately show ?thesis using less.hyps [OF l] by simp
  qed
qed

lemma add_loop_odd:
  assumes "odd i" "i \<le> length t"
  shows "half (add_loop t i d) = add_loop (half t) ((i + 1) div 2) d"
    and "add_loop t i d ! (2 * k) = (if 2 * k = i - 1 then t ! (2 * k) + d else t ! (2 * k))"
proof -
  let ?t = "t[i - 1 := t ! (i - 1) + d]"
  obtain m where m: "i = 2 * m + 1" using assms(1) by (elim oddE)
  have s: "add_loop t i d = add_loop ?t (2 * (m + 1)) d"
    using assms m by (subst add_loop.simps) (simp add: lowest_one_odd)
  have h: "half ?t = half t" using half_update_odd [of t m] m by simp
  show "half (add_loop t i d) = add_loop (half t) ((i + 1) div 2) d"
    using add_loop_even [of ?t "m + 1" d] s h m by simp
  show "add_loop t i d ! (2 * k) = (if 2 * k = i - 1 then t ! (2 * k) + d else t ! (2 * k))"
    using add_loop_even [of ?t "m + 1" d] s m assms(2) by (auto simp: nth_list_update)
qed

text \<open>The heart of the tree: an addition at \<open>p\<close> is seen by a reading at \<open>q\<close> exactly when \<open>p \<le> q\<close>.\<close>

lemma at_add_loop:
  "0 < p \<Longrightarrow> q \<le> length t \<Longrightarrow> at_loop (add_loop t p d) q 0 = at_loop t q 0 + (if p \<le> q then d else 0)"
proof (induction "length t" arbitrary: t p q rule: less_induct)
  case less
  show ?case
  proof (cases "p \<le> length t \<and> q \<noteq> 0")
    case False
    then show ?thesis
    proof (cases "q = 0")
      case True
      then show ?thesis using less.prems by (simp add: at_loop.simps [of _ 0])
    next
      case False
      then have "\<not> p \<le> length t" using \<open>\<not> (p \<le> length t \<and> q \<noteq> 0)\<close> by simp
      then show ?thesis using less.prems by (subst add_loop.simps) simp
    qed
  next
    case True
    then have len: "length (half t) < length t" using less.prems(1) by (cases t) auto
    have q2: "q div 2 \<le> length (half t)" using less.prems(2) by (simp add: div_le_mono)
    define p' where "p' = (p + 1) div 2"
    have p': "0 < p'" using less.prems(1) by (simp add: p'_def)
    have h: "half (add_loop t p d) = add_loop (half t) p' d"
    proof (cases "odd p")
      case True
      then show ?thesis using add_loop_odd(1) \<open>p \<le> length t \<and> q \<noteq> 0\<close> by (simp add: p'_def)
    next
      case False
      then have "p = 2 * p'" by (auto simp: p'_def elim: evenE)
      then show ?thesis using add_loop_even [of t p' d] by simp
    qed
    have IH: "at_loop (add_loop (half t) p' d) (q div 2) 0 = at_loop (half t) (q div 2) 0 + (if p' \<le> q div 2 then d else 0)"
      by (rule less.hyps [OF len p' q2])
    define z where "z = (if odd q then add_loop t p d ! (q - 1) else 0)"
    define w where "w = (if odd q then t ! (q - 1) else 0)"
    have "at_loop (add_loop t p d) q 0 = z + at_loop (add_loop (half t) p' d) (q div 2) 0"
      using at_loop_half [of q "add_loop t p d" 0] less.prems(2) at_loop_acc [of _ _ z] by (simp add: h z_def)
    moreover have "at_loop t q 0 = w + at_loop (half t) (q div 2) 0"
      using at_loop_half [of q t 0] less.prems(2) at_loop_acc [of _ _ w] by (simp add: w_def)
    moreover have "z = w + (if odd q \<and> p = q then d else 0)"
    proof (cases "odd q")
      case True
      then obtain m where m: "q = 2 * m + 1" by (elim oddE)
      show ?thesis
      proof (cases "odd p")
        case True
        have "add_loop t p d ! (2 * m) = (if 2 * m = p - 1 then t ! (2 * m) + d else t ! (2 * m))"
          using True \<open>p \<le> length t \<and> q \<noteq> 0\<close> by (intro add_loop_odd(2)) auto
        moreover have "2 * m = p - 1 \<longleftrightarrow> p = q" using less.prems(1) m by auto
        ultimately show ?thesis using m by (simp add: z_def w_def)
      next
        case False
        then have "p = 2 * p'" by (auto simp: p'_def elim: evenE)
        then have "add_loop t p d ! (2 * m) = t ! (2 * m)" using add_loop_even [of t p' d] by simp
        moreover have "p \<noteq> q" using False \<open>odd q\<close> by auto
        ultimately show ?thesis using m by (simp add: z_def w_def)
      qed
    qed (simp add: z_def w_def)
    moreover have "p \<le> q \<longleftrightarrow> odd q \<and> p = q \<or> p' \<le> q div 2" "\<not> (odd q \<and> p = q \<and> p' \<le> q div 2)"
      unfolding p'_def by presburger+
    then have "(if odd q \<and> p = q then d else 0) + (if p' \<le> q div 2 then d else 0) = (if p \<le> q then d else 0)"
      by auto
    ultimately show ?thesis using IH by simp
  qed
qed

interpretation fw: range_shift shifts_reset add_from shift_at length
proof
  show "shift_at (shifts_reset n) r = 0" if "r < n" for n r
  proof -
    have "i \<le> n \<Longrightarrow> at_loop (replicate n 0) i s = s" for i s
    proof (induction i arbitrary: s rule: less_induct)
      case (less i)
      then show ?case using lowest_one_pos [of i] by (subst at_loop.simps) simp
    qed
    then show ?thesis using that by (simp add: shift_at_def shifts_reset_def)
  qed
qed (auto simp: shifts_reset_def add_from_def shift_at_def at_add_loop)

section \<open>Properties\<close>

text \<open>The Fenwick tree implements a suffix addition.  After adding \<open>d\<close> from rank \<open>r\<close> on, the shift read
  at any rank has grown by \<open>d\<close> exactly when that rank is at or after \<open>r\<close>, though both walk only the indices
  the lowest set bits lead through; the tree keeps its size.\<close>

theorem add_from_shifts_suffix:
  assumes "i < length t"
  shows "shift_at (add_from t r d) i = shift_at t i + (if r \<le> i then d else 0) \<and>
    length (add_from t r d) = length t"
  using fw.at_add [OF assms] fw.size_add by simp

theorem add_from_shifts_suffix_witness:
  "shift_at (add_from (shifts_reset 5) 2 7) 4 = 7 \<and> shift_at (add_from (shifts_reset 5) 2 7) 1 = 0"
  using add_from_shifts_suffix [of 4 "shifts_reset 5" 2 7] add_from_shifts_suffix [of 1 "shifts_reset 5" 2 7]
    fw.at_reset [of 4 5] fw.at_reset [of 1 5]
  by (simp add: shifts_reset_def)

end
