(* ===== verification/Anchor_Store.thy ===== *)
theory Anchor_Store
  imports Line_Map Fenwick
begin

text \<open>
  The anchor store (\<^verbatim>\<open>AnchorStore\<close> of \<^verbatim>\<open>crates/core/src/anchor.rs\<close>): generation-checked slots, an
  offset-ordered list of live slots, and a tree of pending shifts, so that a change moves only the anchors on
  the lines it touches and shifts the rest lazily.

  The source keeps an anchor's offset less the shift pending at its rank in a \<^verbatim>\<open>usize\<close> and always reads it
  through \<^verbatim>\<open>as isize\<close>; here it is that integer.  A rank is \<open>None\<close> where the source has \<^verbatim>\<open>UNRANKED\<close>.
  The lemmas about sweeps are in \<open>Anchor_Sweep\<close>.
\<close>

section \<open>State\<close>

record anchor =
  an_off :: int
  an_track :: track
  an_policy :: anchor_policy
  an_inval :: bool
  an_rank :: "nat option"

record slot =
  sl_gen :: u32
  sl_anchor :: "anchor option"

record anchor_store =
  st_slots :: "slot list"
  st_free :: "nat list"
  st_order :: "nat list"
  st_shift :: shifts
  st_stale :: bool

record anchor_id =
  id_slot :: nat
  id_gen :: u32

record resolved =
  rs_off :: nat
  rs_inval :: bool

definition store_new :: anchor_store where
  "store_new = \<lparr>st_slots = [], st_free = [], st_order = [], st_shift = [], st_stale = False\<rparr>"

section \<open>Creating, removing and reading\<close>

definition insert_tracked :: "anchor_store \<Rightarrow> nat \<Rightarrow> track \<Rightarrow> anchor_policy \<Rightarrow> anchor_id \<times> anchor_store" where
  "insert_tracked st off tr po =
     (let a = \<lparr>an_off = int off, an_track = tr, an_policy = po, an_inval = False, an_rank = None\<rparr>;
          st1 = st\<lparr>st_stale := True\<rparr>
      in if st_free st \<noteq> [] then
           (let sl = last (st_free st);
                s = st_slots st ! sl
            in (\<lparr>id_slot = sl, id_gen = sl_gen s\<rparr>,
                st1\<lparr>st_free := butlast (st_free st), st_slots := (st_slots st)[sl := s\<lparr>sl_anchor := Some a\<rparr>]\<rparr>))
         else
           (\<lparr>id_slot = length (st_slots st), id_gen = 0\<rparr>,
            st1\<lparr>st_slots := st_slots st @ [\<lparr>sl_gen = 0, sl_anchor = Some a\<rparr>]\<rparr>))"

definition anchor_insert :: "anchor_store \<Rightarrow> nat \<Rightarrow> bias \<Rightarrow> anchor_policy \<Rightarrow> anchor_id \<times> anchor_store" where
  "anchor_insert st off bi po = insert_tracked st off (Byte bi) po"

definition insert_line :: "anchor_store \<Rightarrow> nat \<Rightarrow> line_gravity \<Rightarrow> anchor_id \<times> anchor_store" where
  "insert_line st off g = insert_tracked st off (Line g) Clamp"

definition anchor_remove :: "anchor_store \<Rightarrow> anchor_id \<Rightarrow> bool \<times> anchor_store" where
  "anchor_remove st i =
     (case get_at (st_slots st) (id_slot i) of
        Some s \<Rightarrow>
          if sl_gen s = id_gen i \<and> sl_anchor s \<noteq> None then
            (True, st\<lparr>st_slots := (st_slots st)[id_slot i := \<lparr>sl_gen = sl_gen s + 1, sl_anchor = None\<rparr>],
                      st_free := st_free st @ [id_slot i], st_stale := True\<rparr>)
          else (False, st)
      | None \<Rightarrow> (False, st))"

definition anchor_get :: "anchor_store \<Rightarrow> anchor_id \<Rightarrow> anchor option" where
  "anchor_get st i =
     (case get_at (st_slots st) (id_slot i) of
        Some s \<Rightarrow> if sl_gen s = id_gen i then sl_anchor s else None
      | None \<Rightarrow> None)"

definition offset_of :: "anchor_store \<Rightarrow> anchor \<Rightarrow> nat" where
  "offset_of st a =
     (case an_rank a of
        None \<Rightarrow> nat (an_off a)
      | Some r \<Rightarrow> nat (an_off a + shift_at (st_shift st) r))"

definition anchor_contains :: "anchor_store \<Rightarrow> anchor_id \<Rightarrow> bool" where
  "anchor_contains st i \<longleftrightarrow> anchor_get st i \<noteq> None"

definition try_resolve :: "anchor_store \<Rightarrow> anchor_id \<Rightarrow> resolved option" where
  "try_resolve st i =
     map_option (\<lambda>a. \<lparr>rs_off = offset_of st a, rs_inval = an_inval a\<rparr>) (anchor_get st i)"

definition store_len :: "anchor_store \<Rightarrow> nat" where
  "store_len st = length (st_slots st) - length (st_free st)"

definition store_is_empty :: "anchor_store \<Rightarrow> bool" where
  "store_is_empty st \<longleftrightarrow> store_len st = 0"

definition resolved_entry :: "anchor_store \<Rightarrow> nat \<Rightarrow> (anchor_id \<times> resolved) option" where
  "resolved_entry st i =
     map_option (\<lambda>a. (\<lparr>id_slot = i, id_gen = sl_gen (st_slots st ! i)\<rparr>,
                      \<lparr>rs_off = offset_of st a, rs_inval = an_inval a\<rparr>))
       (sl_anchor (st_slots st ! i))"

definition store_resolved :: "anchor_store \<Rightarrow> (anchor_id \<times> resolved) list" where
  "store_resolved st =
     (if st_stale st
      then sort_key (\<lambda>(_, r). rs_off r) (List.map_filter (resolved_entry st) [0..<length (st_slots st)])
      else List.map_filter (resolved_entry st) (st_order st))"

section \<open>Rebuilding the order\<close>

definition set_anchor :: "nat \<Rightarrow> anchor \<Rightarrow> anchor_store \<Rightarrow> anchor_store" where
  "set_anchor i a st = st\<lparr>st_slots := (st_slots st)[i := (st_slots st ! i)\<lparr>sl_anchor := Some a\<rparr>]\<rparr>"

definition live_offsets :: "anchor_store \<Rightarrow> (nat \<times> nat) list" where
  "live_offsets st =
     List.map_filter (\<lambda>i. map_option (\<lambda>a. (offset_of st a, i)) (sl_anchor (st_slots st ! i)))
       [0..<length (st_slots st)]"

fun rank_loop :: "(nat \<times> nat) list \<Rightarrow> nat \<Rightarrow> anchor_store \<Rightarrow> anchor_store" where
  "rank_loop [] r st = st"
| "rank_loop ((off, i) # ls) r st =
     (let a = the (sl_anchor (st_slots st ! i));
          st1 = set_anchor i (a\<lparr>an_off := int off, an_rank := Some r\<rparr>) st
      in rank_loop ls (r + 1) (st1\<lparr>st_order := st_order st1 @ [i]\<rparr>))"

text \<open>\<^verbatim>\<open>sort_unstable\<close> on pairs of offset and slot: slots are distinct, so the order is the lexicographic one.\<close>

definition normalize :: "anchor_store \<Rightarrow> anchor_store" where
  "normalize st =
     (let ls = sort_key fst (sort_key snd (live_offsets st));
          st1 = rank_loop ls 0 (st\<lparr>st_order := []\<rparr>)
      in st1\<lparr>st_shift := shifts_reset (length (st_order st1)), st_stale := False\<rparr>)"

definition at_rank :: "anchor_store \<Rightarrow> nat \<Rightarrow> nat" where
  "at_rank st r =
     nat (an_off (the (sl_anchor (st_slots st ! (st_order st ! r)))) + shift_at (st_shift st) r)"

section \<open>Carrying the anchors through a change\<close>

function partition_loop :: "(nat \<Rightarrow> bool) \<Rightarrow> nat \<Rightarrow> nat \<Rightarrow> nat" where
  "partition_loop P lo hi =
     (if lo < hi then
        (let mid = (lo + hi) div 2 in if P mid then partition_loop P (mid + 1) hi else partition_loop P lo mid)
      else lo)"
  by pat_completeness auto
termination
  by (relation "measure (\<lambda>(P, lo, hi). hi - lo)") auto

declare partition_loop.simps [simp del]

definition partition_by :: "nat \<Rightarrow> (nat \<Rightarrow> bool) \<Rightarrow> nat" where
  "partition_by n P = partition_loop P 0 n"

definition map_anchor :: "anchor \<Rightarrow> nat \<Rightarrow> edit list \<Rightarrow> line_map option \<Rightarrow> nat \<times> bool" where
  "map_anchor a p es m =
     (case (an_track a, m) of
        (Line g, Some m) \<Rightarrow>
          (case map_offset m p g of
             Some q \<Rightarrow> (q, False)
           | None \<Rightarrow> (the (map_offset m p Keep), True))
      | (Line _, None) \<Rightarrow> (fst (map_byte_inside es p After), False)
      | (Byte bi, _) \<Rightarrow>
          (let (q, inside) = map_byte_inside es p bi in (q, inside \<and> an_policy a = Invalidate)))"

type_synonym region = "nat \<times> nat \<times> int"

definition region_of :: "line_map option \<Rightarrow> edit \<Rightarrow> nat \<times> nat" where
  "region_of m e =
     (case m of
        Some m \<Rightarrow>
          (let ls = line_start (lm_old m) (epos e);
               ws = line_start (lm_old m) (ls - 1);
               le = line_end (lm_old m) (edit_end e)
           in (ws, line_end (lm_old m) (le + 1)))
      | None \<Rightarrow> (epos e, edit_end e))"

definition push_region :: "line_map option \<Rightarrow> region list \<Rightarrow> edit \<Rightarrow> region list" where
  "push_region m regs e =
     (let (ws, we) = region_of m e in
      case last_opt regs of
        Some (ws0, we0, d0) \<Rightarrow>
          if ws \<le> we0 then butlast regs @ [(ws0, max we0 we, d0 + delta e)] else regs @ [(ws, we, delta e)]
      | None \<Rightarrow> regs @ [(ws, we, delta e)])"

definition build_regions :: "line_map option \<Rightarrow> edit list \<Rightarrow> region list" where
  "build_regions m es = fold (\<lambda>e regs. push_region m regs e) es []"

type_synonym moved_anchor = "nat \<times> nat \<times> bool"
type_synonym region_plan = "nat \<times> nat \<times> moved_anchor list"

definition plan_region :: "anchor_store \<Rightarrow> edit list \<Rightarrow> line_map option \<Rightarrow> region \<Rightarrow> region_plan" where
  "plan_region st es m rg =
     (case rg of (ws, we, d) \<Rightarrow>
        let n = length (st_order st);
            lo = partition_by n (\<lambda>r. at_rank st r < ws);
            hi = lo + partition_by (n - lo) (\<lambda>r. at_rank st (lo + r) \<le> we);
            mv = map (\<lambda>r. let sl = st_order st ! r;
                              a = the (sl_anchor (st_slots st ! sl));
                              (to, gone) = map_anchor a (at_rank st r) es m
                          in (to, sl, gone)) [lo..<hi]
        in (lo, hi, sort_key fst mv))"

definition write_one :: "nat \<Rightarrow> int \<Rightarrow> moved_anchor \<Rightarrow> anchor_store \<Rightarrow> anchor_store" where
  "write_one r left mv st =
     (case mv of (to, sl, gone) \<Rightarrow>
        let st1 = st\<lparr>st_order := (st_order st)[r := sl]\<rparr>;
            pending = shift_at (st_shift st1) r;
            a = the (sl_anchor (st_slots st1 ! sl))
        in set_anchor sl (a\<lparr>an_rank := Some r, an_off := int to - left - pending,
                            an_inval := an_inval a \<or> gone\<rparr>) st1)"

fun write_loop :: "moved_anchor list \<Rightarrow> nat \<Rightarrow> int \<Rightarrow> anchor_store \<Rightarrow> anchor_store" where
  "write_loop [] r left st = st"
| "write_loop (mv # mvs) r left st = write_loop mvs (r + 1) left (write_one r left mv st)"

fun write_regions :: "(region_plan \<times> region) list \<Rightarrow> int \<Rightarrow> anchor_store \<Rightarrow> anchor_store" where
  "write_regions [] left st = st"
| "write_regions (((lo, hi, mvs), (ws, we, d)) # ps) left st =
     (let left' = left - d;
          st1 = write_loop mvs lo left' st
      in write_regions ps left' (st1\<lparr>st_shift := add_from (st_shift st1) hi d\<rparr>))"

definition store_apply :: "anchor_store \<Rightarrow> edit_list \<Rightarrow> line_map option \<Rightarrow> anchor_store" where
  "store_apply st0 es m =
     (if es = [] \<or> store_is_empty st0 then st0
      else
        let st = (if st_stale st0 then normalize st0 else st0);
            regions = build_regions m es;
            n = length (st_order st);
            plan = map (plan_region st es m) regions;
            total = sum_list (map (\<lambda>(_, _, d). d) regions);
            st1 = write_regions (rev (zip plan regions)) total st;
            inverted = (\<lambda>r. 0 < r \<and> r < n \<and> at_rank st1 r < at_rank st1 (r - 1))
        in if list_ex (\<lambda>(lo, hi, _). inverted lo \<or> inverted hi) plan
           then st1\<lparr>st_stale := True\<rparr> else st1)"

definition apply_edits :: "anchor_store \<Rightarrow> edit_list \<Rightarrow> anchor_store" where
  "apply_edits st es = store_apply st es None"

definition apply_change :: "anchor_store \<Rightarrow> bytes \<Rightarrow> bytes \<Rightarrow> edit_list \<Rightarrow> anchor_store" where
  "apply_change st old new es = store_apply st es (Some (line_map_new old new es))"

section \<open>The invariant walker\<close>

definition order_invariants :: "anchor_store \<Rightarrow> bool" where
  "order_invariants st \<longleftrightarrow>
     length (st_order st) = store_len st \<and> length (st_shift st) = length (st_order st) \<and>
     list_all (\<lambda>r. let i = st_order st ! r in
                i < length (st_slots st) \<and> sl_anchor (st_slots st ! i) \<noteq> None \<and>
                an_rank (the (sl_anchor (st_slots st ! i))) = Some r \<and>
                (0 < r \<longrightarrow> at_rank st (r - 1) \<le> at_rank st r))
       [0..<length (st_order st)]"

definition store_assert_invariants :: "anchor_store \<Rightarrow> nat \<Rightarrow> bool" where
  "store_assert_invariants st len \<longleftrightarrow>
     distinct (st_free st) \<and>
     list_all (\<lambda>f. f < length (st_slots st) \<and> sl_anchor (st_slots st ! f) = None) (st_free st) \<and>
     length (filter (\<lambda>s. sl_anchor s = None) (st_slots st)) = length (st_free st) \<and>
     list_all (\<lambda>s. case sl_anchor s of None \<Rightarrow> True | Some a \<Rightarrow> offset_of st a \<le> len) (st_slots st) \<and>
     (\<not> st_stale st \<longrightarrow> order_invariants st)"

section \<open>The invariant\<close>

text \<open>
  The absolute offset of an anchor as an integer; the invariant says it is never negative, so reading it as a
  \<^verbatim>\<open>usize\<close> is exact.
\<close>

definition abs_off :: "anchor_store \<Rightarrow> anchor \<Rightarrow> int" where
  "abs_off st a = an_off a + (case an_rank a of None \<Rightarrow> 0 | Some r \<Rightarrow> shift_at (st_shift st) r)"

definition live :: "anchor_store \<Rightarrow> nat \<Rightarrow> anchor \<Rightarrow> bool" where
  "live st i a \<longleftrightarrow> i < length (st_slots st) \<and> sl_anchor (st_slots st ! i) = Some a"

definition free_ok :: "anchor_store \<Rightarrow> bool" where
  "free_ok st \<longleftrightarrow> distinct (st_free st) \<and>
     set (st_free st) = {i. i < length (st_slots st) \<and> sl_anchor (st_slots st ! i) = None}"

definition rank_below :: "nat \<Rightarrow> anchor \<Rightarrow> bool" where
  "rank_below n a \<longleftrightarrow> (case an_rank a of None \<Rightarrow> True | Some r \<Rightarrow> r < n)"

definition ranks_ok :: "anchor_store \<Rightarrow> bool" where
  "ranks_ok st \<longleftrightarrow>
     (\<forall>i a. live st i a \<longrightarrow> 0 \<le> abs_off st a \<and> rank_below (length (st_shift st)) a)"

definition ordered :: "anchor_store \<Rightarrow> bool" where
  "ordered st \<longleftrightarrow> distinct (st_order st) \<and> set (st_order st) = {i. \<exists>a. live st i a} \<and>
     length (st_shift st) = length (st_order st) \<and>
     (\<forall>r < length (st_order st). \<exists>a. live st (st_order st ! r) a \<and> an_rank a = Some r)"

definition sorted_ranks :: "anchor_store \<Rightarrow> bool" where
  "sorted_ranks st \<longleftrightarrow> (\<forall>r. Suc r < length (st_order st) \<longrightarrow> at_rank st r \<le> at_rank st (Suc r))"

definition store_ok :: "anchor_store \<Rightarrow> bool" where
  "store_ok st \<longleftrightarrow> free_ok st \<and> ranks_ok st \<and> (\<not> st_stale st \<longrightarrow> ordered st \<and> sorted_ranks st)"

lemma offset_of_abs: "offset_of st a = nat (abs_off st a)"
  by (simp add: offset_of_def abs_off_def split: option.splits)

lemma live_unique: "live st i a \<Longrightarrow> live st i b \<Longrightarrow> a = b"
  by (simp add: live_def)

lemma abs_off_cong: "st_shift st' = st_shift st \<Longrightarrow> abs_off st' a = abs_off st a"
  by (simp add: abs_off_def cong: option.case_cong)

lemma store_new_ok: "store_ok store_new"
  by (simp add: store_ok_def store_new_def free_ok_def ranks_ok_def ordered_def sorted_ranks_def live_def)

text \<open>The lookup by slot that the operations below are about.\<close>

lemma anchor_get_live: "anchor_get st i = Some a \<longleftrightarrow> live st (id_slot i) a \<and> sl_gen (st_slots st ! id_slot i) = id_gen i"
  by (auto simp: anchor_get_def live_def get_at_def)

section \<open>Handles\<close>

lemma insert_tracked_free:
  assumes "free_ok st" "st_free st \<noteq> []"
  shows "last (st_free st) < length (st_slots st)" "sl_anchor (st_slots st ! last (st_free st)) = None"
  using assms last_in_set [OF assms(2)] by (auto simp: free_ok_def)

lemma distinct_butlast_set:
  assumes "distinct xs" "xs \<noteq> []"
  shows "set (butlast xs) = set xs - {last xs}"
proof -
  have xs: "butlast xs @ [last xs] = xs" using assms(2) by simp
  then have "distinct (butlast xs @ [last xs])" "set xs = insert (last xs) (set (butlast xs))"
    using assms(1) by (simp_all, metis list.set(1) list.simps(15) set_append Un_insert_right Un_empty_right)
  then show ?thesis by auto
qed

text \<open>The two ways an anchor gets its slot, with the slot as it was before.\<close>

lemma insert_tracked_cases:
  assumes "free_ok st" "insert_tracked st off tr po = (i, st')"
  obtains (reuse) s where "st_free st \<noteq> []" "id_slot i = last (st_free st)" "id_gen i = sl_gen s"
      "id_slot i < length (st_slots st)" "st_slots st ! id_slot i = s" "sl_anchor s = None"
      "st' = st\<lparr>st_stale := True, st_free := butlast (st_free st), st_slots := (st_slots st)[id_slot i := s\<lparr>sl_anchor :=
         Some \<lparr>an_off = int off, an_track = tr, an_policy = po, an_inval = False, an_rank = None\<rparr>\<rparr>]\<rparr>"
  | (fresh) "st_free st = []" "id_slot i = length (st_slots st)" "id_gen i = 0"
      "st' = st\<lparr>st_stale := True, st_slots := st_slots st @ [\<lparr>sl_gen = 0, sl_anchor =
         Some \<lparr>an_off = int off, an_track = tr, an_policy = po, an_inval = False, an_rank = None\<rparr>\<rparr>]\<rparr>"
proof (cases "st_free st = []")
  case True
  with assms(2) show thesis by (intro fresh) (auto simp: insert_tracked_def Let_def)
next
  case False
  with assms(2) insert_tracked_free [OF assms(1) False] show thesis
    by (intro reuse [of "st_slots st ! last (st_free st)"]) (auto simp: insert_tracked_def Let_def)
qed

lemma slot_update:
  "sl_anchor (xs[k := s\<lparr>sl_anchor := Some a\<rparr>] ! j) = (if j = k \<and> k < length xs then Some a else sl_anchor (xs ! j))"
  by (cases "k < length xs") (auto simp: nth_list_update list_update_beyond)

lemma slot_update_gen:
  "sl_gen (xs[k := (xs ! k)\<lparr>sl_anchor := x\<rparr>] ! j) = sl_gen (xs ! j)"
  by (cases "k < length xs") (auto simp: nth_list_update list_update_beyond)

lemma insert_tracked_ok:
  assumes "store_ok st"
  shows "store_ok (snd (insert_tracked st off tr po))"
proof -
  define a where "a = \<lparr>an_off = int off, an_track = tr, an_policy = po, an_inval = False, an_rank = None\<rparr>"
  have f: "free_ok st" and rk: "ranks_ok st" using assms by (simp_all add: store_ok_def)
  obtain i st' where ins: "insert_tracked st off tr po = (i, st')" by (cases "insert_tracked st off tr po")
  have sh: "st_shift st' = st_shift st" and stale: "st_stale st'"
    using ins by (auto simp: insert_tracked_def Let_def split: if_splits)
  have lv: "live st' k b \<Longrightarrow> b = a \<or> live st k b" for k b
    using f ins by (cases rule: insert_tracked_cases)
      (auto simp: live_def a_def slot_update nth_append split: if_splits)
  have "ranks_ok st'" unfolding ranks_ok_def
  proof (intro allI impI)
    fix k b assume l: "live st' k b"
    have "b = a \<Longrightarrow> abs_off st' b = int off" by (simp add: abs_off_def a_def)
    moreover have "rank_below n a" for n by (simp add: rank_below_def a_def)
    ultimately show "0 \<le> abs_off st' b \<and> rank_below (length (st_shift st')) b"
      using lv [OF l] rk abs_off_cong [OF sh, of b] by (auto simp: ranks_ok_def sh)
  qed
  moreover have "free_ok st'"
    using f ins
  proof (cases rule: insert_tracked_cases)
    case (reuse s)
    have d: "distinct (st_free st)" "set (st_free st) = {k. k < length (st_slots st) \<and> sl_anchor (st_slots st ! k) = None}"
      using f by (simp_all add: free_ok_def)
    have "set (butlast (st_free st)) = set (st_free st) - {id_slot i}"
      using distinct_butlast_set [OF d(1) reuse(1)] reuse(2) by simp
    then show ?thesis using d reuse(4)
      unfolding free_ok_def reuse(7) by (auto simp: distinct_butlast slot_update)
  next
    case fresh
    then show ?thesis using f by (auto simp: free_ok_def nth_append)
  qed
  ultimately show ?thesis using ins stale by (simp add: store_ok_def)
qed

lemma id_eqI: "id_slot i = id_slot j \<Longrightarrow> id_gen i = id_gen j \<Longrightarrow> i = (j :: anchor_id)"
  by (cases i; cases j) simp

lemma try_resolve_insert:
  assumes "store_ok st" "insert_tracked st off tr po = (i, st')"
  shows "try_resolve st' i = Some \<lparr>rs_off = off, rs_inval = False\<rparr>" "try_resolve st i = None"
    "j \<noteq> i \<Longrightarrow> try_resolve st' j = try_resolve st j"
proof -
  have f: "free_ok st" using assms(1) by (simp add: store_ok_def)
  have sh: "st_shift st' = st_shift st" using assms(2) by (auto simp: insert_tracked_def Let_def split: if_splits)
  have "anchor_get st' i = Some \<lparr>an_off = int off, an_track = tr, an_policy = po, an_inval = False, an_rank = None\<rparr>"
    using f assms(2) by (cases rule: insert_tracked_cases) (simp_all add: anchor_get_def get_at_def)
  then show "try_resolve st' i = Some \<lparr>rs_off = off, rs_inval = False\<rparr>"
    by (simp add: try_resolve_def offset_of_def)
  have "anchor_get st i = None"
    using f assms(2) by (cases rule: insert_tracked_cases) (simp_all add: anchor_get_def get_at_def)
  then show "try_resolve st i = None" by (simp add: try_resolve_def)
  have "anchor_get st' j = anchor_get st j" if "j \<noteq> i"
    using f assms(2)
  proof (cases rule: insert_tracked_cases)
    case (reuse s)
    have g: "sl_gen s \<noteq> id_gen j" if "id_slot j = id_slot i" using that \<open>j \<noteq> i\<close> id_eqI [of j i] reuse(3) by auto
    show ?thesis
    proof (cases "id_slot j = id_slot i")
      case True
      then show ?thesis using g reuse(4,5) unfolding reuse(7) by (simp add: anchor_get_def get_at_def)
    next
      case False
      then show ?thesis unfolding reuse(7) by (simp add: anchor_get_def get_at_def)
    qed
  next
    case fresh
    have "id_gen j \<noteq> 0" if "id_slot j = length (st_slots st)" using that \<open>j \<noteq> i\<close> id_eqI [of j i] fresh by auto
    then show ?thesis unfolding fresh(4) by (auto simp: anchor_get_def get_at_def nth_append)
  qed
  then show "j \<noteq> i \<Longrightarrow> try_resolve st' j = try_resolve st j"
    by (simp add: try_resolve_def offset_of_abs abs_off_cong [OF sh])
qed

lemma anchor_remove_cases:
  assumes "anchor_remove st i = (b, st')"
  obtains (dead) "\<not> b" "st' = st" "anchor_get st i = None"
  | (gone) a where "b" "live st (id_slot i) a" "anchor_get st i = Some a"
      "st' = st\<lparr>st_slots := (st_slots st)[id_slot i := \<lparr>sl_gen = id_gen i + 1, sl_anchor = None\<rparr>],
         st_free := st_free st @ [id_slot i], st_stale := True\<rparr>"
proof (cases "anchor_get st i")
  case None
  with assms show thesis
    by (intro dead) (auto simp: anchor_remove_def anchor_get_def get_at_def split: if_splits)
next
  case (Some a)
  with assms show thesis
    by (intro gone [of a]) (auto simp: anchor_get_live anchor_remove_def live_def get_at_def split: if_splits)
qed

lemma anchor_remove_ok:
  assumes "store_ok st"
  shows "store_ok (snd (anchor_remove st i))"
proof -
  obtain b st' where r: "anchor_remove st i = (b, st')" by (cases "anchor_remove st i")
  have f: "free_ok st" and rk: "ranks_ok st" using assms by (simp_all add: store_ok_def)
  from r show ?thesis
  proof (cases rule: anchor_remove_cases)
    case dead
    then show ?thesis using assms r by simp
  next
    case (gone a)
    have "live st k c" if "live st' k c" for k c
      using that gone(2) unfolding gone(4) live_def by (cases "k = id_slot i") auto
    moreover have "abs_off st' c = abs_off st c" for c by (rule abs_off_cong) (simp add: gone)
    moreover have "st_shift st' = st_shift st" by (simp add: gone)
    ultimately have "ranks_ok st'" using rk unfolding ranks_ok_def by metis
    moreover have "free_ok st'"
      using f gone(2) unfolding gone(4) free_ok_def live_def by (auto simp: nth_list_update)
    moreover have "st_stale st'" unfolding gone by simp
    ultimately show ?thesis using r by (simp add: store_ok_def)
  qed
qed

lemma try_resolve_remove:
  assumes "anchor_remove st i = (b, st')"
  shows "b \<longleftrightarrow> try_resolve st i \<noteq> None" "try_resolve st' i = None" "j \<noteq> i \<Longrightarrow> try_resolve st' j = try_resolve st j"
proof -
  have sh: "st_shift st' = st_shift st" using assms by (cases rule: anchor_remove_cases) simp_all
  show "b \<longleftrightarrow> try_resolve st i \<noteq> None"
    using assms by (cases rule: anchor_remove_cases) (simp_all add: try_resolve_def)
  have "anchor_get st' i = None"
    using assms by (cases rule: anchor_remove_cases) (auto simp: anchor_get_def get_at_def live_def)
  then show "try_resolve st' i = None" by (simp add: try_resolve_def)
  have "anchor_get st' j = anchor_get st j" if "j \<noteq> i"
    using assms
  proof (cases rule: anchor_remove_cases)
    case (gone a)
    have "sl_gen (st_slots st ! id_slot i) = id_gen i" using gone(3) by (simp add: anchor_get_live)
    moreover have "id_gen i \<noteq> id_gen j" if "id_slot j = id_slot i" using that \<open>j \<noteq> i\<close> id_eqI [of j i] by auto
    ultimately show ?thesis unfolding gone(4) using gone(2)
      by (cases "id_slot j = id_slot i") (auto simp: anchor_get_def get_at_def live_def)
  qed simp
  then show "j \<noteq> i \<Longrightarrow> try_resolve st' j = try_resolve st j"
    by (simp add: try_resolve_def offset_of_abs abs_off_cong [OF sh])
qed

section \<open>Handles as an interface\<close>

text \<open>
  What a client of handles relies on: a new handle is fresh and resolves to what was put in, a removed one
  resolves to nothing, and no other handle notices either.
\<close>

locale handle_store =
  fixes ins :: "'st \<Rightarrow> 'x \<Rightarrow> 'h \<times> 'st" and del :: "'st \<Rightarrow> 'h \<Rightarrow> bool \<times> 'st"
    and look :: "'st \<Rightarrow> 'h \<Rightarrow> 'r option" and value_of :: "'x \<Rightarrow> 'r" and ok :: "'st \<Rightarrow> bool"
  assumes ins_ok: "ok st \<Longrightarrow> ok (snd (ins st x))"
    and del_ok: "ok st \<Longrightarrow> ok (snd (del st h))"
    and look_ins: "ok st \<Longrightarrow> look (snd (ins st x)) (fst (ins st x)) = Some (value_of x)"
    and ins_fresh: "ok st \<Longrightarrow> look st (fst (ins st x)) = None"
    and look_ins_other: "ok st \<Longrightarrow> h \<noteq> fst (ins st x) \<Longrightarrow> look (snd (ins st x)) h = look st h"
    and look_del: "ok st \<Longrightarrow> look (snd (del st h)) h = None"
    and look_del_other: "ok st \<Longrightarrow> h' \<noteq> h \<Longrightarrow> look (snd (del st h)) h' = look st h'"
    and del_live: "ok st \<Longrightarrow> fst (del st h) \<longleftrightarrow> look st h \<noteq> None"
begin

fun ins_all :: "'st \<Rightarrow> 'x list \<Rightarrow> 'h list \<times> 'st" where
  "ins_all st [] = ([], st)"
| "ins_all st (x # xs) = (let (h, st1) = ins st x; (hs, st2) = ins_all st1 xs in (h # hs, st2))"

fun del_all :: "'st \<Rightarrow> 'h list \<Rightarrow> nat \<times> 'st" where
  "del_all st [] = (0, st)"
| "del_all st (h # hs) =
     (let (b, st1) = del st h; (n, st2) = del_all st1 hs in ((if b then 1 else 0) + n, st2))"

lemma ins_all_keeps: "ok st \<Longrightarrow> look st h = Some v \<Longrightarrow> look (snd (ins_all st xs)) h = Some v"
proof (induction xs arbitrary: st)
  case (Cons x xs)
  have "h \<noteq> fst (ins st x)" using ins_fresh [OF Cons.prems(1)] Cons.prems(2) by auto
  then have "look (snd (ins st x)) h = Some v" using look_ins_other [OF Cons.prems(1)] Cons.prems(2) by simp
  with Cons.IH ins_ok [OF Cons.prems(1)] show ?case by (simp add: split_beta Let_def)
qed simp

lemma ins_all_ok: "ok st \<Longrightarrow> ok (snd (ins_all st xs))"
  by (induction xs arbitrary: st) (simp_all add: split_beta Let_def ins_ok)

lemma ins_all_look:
  "ok st \<Longrightarrow> length (fst (ins_all st xs)) = length xs \<and>
     (\<forall>k < length xs. look (snd (ins_all st xs)) (fst (ins_all st xs) ! k) = Some (value_of (xs ! k)))"
proof (induction xs arbitrary: st)
  case (Cons x xs)
  let ?s1 = "snd (ins st x)"
  have ok1: "ok ?s1" by (rule ins_ok [OF Cons.prems])
  have "look (snd (ins_all ?s1 xs)) (fst (ins st x)) = Some (value_of x)"
    by (rule ins_all_keeps [OF ok1 look_ins [OF Cons.prems]])
  with Cons.IH [OF ok1] show ?case by (auto simp: split_beta Let_def nth_Cons split: nat.splits)
qed simp

lemma del_all_look: "ok st \<Longrightarrow> look (snd (del_all st hs)) h = (if h \<in> set hs then None else look st h)"
proof (induction hs arbitrary: st)
  case (Cons k hs)
  have "look (snd (del st k)) h = (if h = k then None else look st h)"
    using look_del [OF Cons.prems] look_del_other [OF Cons.prems] by auto
  with Cons.IH [OF del_ok [OF Cons.prems]] show ?case by (auto simp: split_beta Let_def)
qed simp

lemma del_all_ok: "ok st \<Longrightarrow> ok (snd (del_all st hs))"
  by (induction hs arbitrary: st) (simp_all add: split_beta Let_def del_ok)

end

interpretation hs: handle_store "\<lambda>st (off, tr, po). insert_tracked st off tr po" anchor_remove try_resolve
  "\<lambda>(off, tr, po). \<lparr>rs_off = off, rs_inval = False\<rparr>" store_ok
proof
  fix st :: anchor_store and x :: "nat \<times> track \<times> anchor_policy" and h h' :: anchor_id
  assume ok: "store_ok st"
  obtain off tr po where x: "x = (off, tr, po)" by (cases x)
  obtain i st' where ins: "insert_tracked st off tr po = (i, st')" by (cases "insert_tracked st off tr po")
  obtain b st2 where del: "anchor_remove st h = (b, st2)" by (cases "anchor_remove st h")
  note ri = try_resolve_insert [OF ok ins] and rd = try_resolve_remove [OF del]
  show "store_ok (snd (case x of (off, tr, po) \<Rightarrow> insert_tracked st off tr po))"
    using insert_tracked_ok [OF ok] by (simp add: x)
  show "store_ok (snd (anchor_remove st h))" by (rule anchor_remove_ok [OF ok])
  show "try_resolve (snd (case x of (off, tr, po) \<Rightarrow> insert_tracked st off tr po))
      (fst (case x of (off, tr, po) \<Rightarrow> insert_tracked st off tr po)) =
      Some (case x of (off, tr, po) \<Rightarrow> \<lparr>rs_off = off, rs_inval = False\<rparr>)"
    using ri(1) by (simp add: x ins)
  show "try_resolve st (fst (case x of (off, tr, po) \<Rightarrow> insert_tracked st off tr po)) = None"
    using ri(2) by (simp add: x ins)
  show "try_resolve (snd (case x of (off, tr, po) \<Rightarrow> insert_tracked st off tr po)) h = try_resolve st h"
    if "h \<noteq> fst (case x of (off, tr, po) \<Rightarrow> insert_tracked st off tr po)"
    using ri(3) [of h] that by (simp add: x ins)
  show "try_resolve (snd (anchor_remove st h)) h = None" using rd(2) by (simp add: del)
  show "try_resolve (snd (anchor_remove st h)) h' = try_resolve st h'" if "h' \<noteq> h"
    using rd(3) [OF that] by (simp add: del)
  show "fst (anchor_remove st h) \<longleftrightarrow> try_resolve st h \<noteq> None" using rd(1) by (simp add: del)
qed

end
