(* ===== verification/Anchor_Sweep.thy ===== *)
theory Anchor_Sweep
  imports Anchor_Store
begin

text \<open>
  The batched sweep of the anchor store (\<^verbatim>\<open>AnchorStore::apply\<close> of \<^verbatim>\<open>crates/core/src/anchor.rs\<close>)
  refines moving every anchor by its own rule: rebuilding the order changes no offset, and carrying the touched
  regions right to left with lazy shifts for the rest leaves every live anchor where \<open>map_anchor\<close> puts it.
\<close>

section \<open>Writing one anchor\<close>

lemma set_anchor_simps [simp]:
  "length (st_slots (set_anchor i a st)) = length (st_slots st)"
  "st_free (set_anchor i a st) = st_free st" "st_order (set_anchor i a st) = st_order st"
  "st_shift (set_anchor i a st) = st_shift st" "st_stale (set_anchor i a st) = st_stale st"
  by (simp_all add: set_anchor_def)

lemma set_anchor_slot:
  "sl_anchor (st_slots (set_anchor i a st) ! j) = (if j = i \<and> i < length (st_slots st) then Some a else sl_anchor (st_slots st ! j))"
  "sl_gen (st_slots (set_anchor i a st) ! j) = sl_gen (st_slots st ! j)"
  by (simp_all add: set_anchor_def slot_update slot_update_gen)

text \<open>\<open>same_ids\<close>: the slots, their generations and the free list are as they were.\<close>

definition same_ids :: "anchor_store \<Rightarrow> anchor_store \<Rightarrow> bool" where
  "same_ids st st' \<longleftrightarrow> length (st_slots st') = length (st_slots st) \<and> st_free st' = st_free st \<and>
     (\<forall>j. sl_gen (st_slots st' ! j) = sl_gen (st_slots st ! j)) \<and>
     (\<forall>j. sl_anchor (st_slots st' ! j) = None \<longleftrightarrow> sl_anchor (st_slots st ! j) = None)"

lemma same_ids_refl [simp]: "same_ids st st"
  by (simp add: same_ids_def)

lemma same_ids_trans [trans]: "same_ids a b \<Longrightarrow> same_ids b c \<Longrightarrow> same_ids a c"
  by (simp add: same_ids_def)

lemma same_ids_set_anchor: "live st i b \<Longrightarrow> same_ids st (set_anchor i a st)"
  by (auto simp: same_ids_def set_anchor_slot live_def)

lemma same_ids_updates [simp]:
  "same_ids st (st'\<lparr>st_order := xs\<rparr>) = same_ids st st'" "same_ids st (st'\<lparr>st_shift := t\<rparr>) = same_ids st st'"
  "same_ids st (st'\<lparr>st_stale := b\<rparr>) = same_ids st st'" "same_ids (st\<lparr>st_order := xs\<rparr>) st' = same_ids st st'"
  by (simp_all add: same_ids_def)

lemma same_ids_free_ok: "same_ids st st' \<Longrightarrow> free_ok st \<Longrightarrow> free_ok st'"
  by (simp add: same_ids_def free_ok_def)

lemma same_ids_live: "same_ids st st' \<Longrightarrow> (\<exists>a. live st' i a) \<longleftrightarrow> (\<exists>a. live st i a)"
  unfolding same_ids_def live_def by (metis not_Some_eq option.exhaust)

section \<open>Rebuilding the order\<close>

lemma map_filter_cons: "List.map_filter f (x # xs) = (case f x of None \<Rightarrow> List.map_filter f xs | Some y \<Rightarrow> y # List.map_filter f xs)"
  by (simp add: List.map_filter_simps)

lemma map_filter_snoc: "List.map_filter f (xs @ ys) = List.map_filter f xs @ List.map_filter f ys"
  by (induction xs) (auto simp: List.map_filter_simps split: option.splits)

lemma set_map_filter: "set (List.map_filter f xs) = {y. \<exists>x \<in> set xs. f x = Some y}"
  by (induction xs) (auto simp: List.map_filter_simps split: option.splits)

lemma live_offsets_snd:
  "map snd (live_offsets st) = filter (\<lambda>i. sl_anchor (st_slots st ! i) \<noteq> None) [0..<length (st_slots st)]"
proof -
  have "map snd (List.map_filter (\<lambda>i. map_option (\<lambda>a. (offset_of st a, i)) (sl_anchor (st_slots st ! i))) xs) =
      filter (\<lambda>i. sl_anchor (st_slots st ! i) \<noteq> None) xs" for xs
    by (induction xs) (auto simp: List.map_filter_simps split: option.splits)
  then show ?thesis by (simp add: live_offsets_def)
qed

lemma mem_live_offsets: "(off, i) \<in> set (live_offsets st) \<longleftrightarrow> (\<exists>a. live st i a \<and> off = offset_of st a)"
  by (auto simp: live_offsets_def set_map_filter live_def)

definition sorted_live :: "anchor_store \<Rightarrow> (nat \<times> nat) list" where
  "sorted_live st = sort_key fst (sort_key snd (live_offsets st))"

lemma sorted_live_facts:
  "set (sorted_live st) = set (live_offsets st)" "distinct (map snd (sorted_live st))" "sorted (map fst (sorted_live st))"
proof -
  show "set (sorted_live st) = set (live_offsets st)" "sorted (map fst (sorted_live st))" by (simp_all add: sorted_live_def)
  have "mset (map snd (sorted_live st)) = mset (map snd (live_offsets st))" by (simp add: sorted_live_def)
  moreover have "distinct (map snd (live_offsets st))" by (simp add: live_offsets_snd)
  ultimately show "distinct (map snd (sorted_live st))" by (metis mset_eq_imp_distinct_iff)
qed

lemma rank_loop_facts:
  "(\<And>off i. (off, i) \<in> set ls \<Longrightarrow> \<exists>a. live st i a) \<Longrightarrow> distinct (map snd ls) \<Longrightarrow> st' = rank_loop ls r st \<Longrightarrow>
     same_ids st st' \<and> st_order st' = st_order st @ map snd ls \<and> st_shift st' = st_shift st \<and>
     (\<forall>j. j \<notin> snd ` set ls \<longrightarrow> sl_anchor (st_slots st' ! j) = sl_anchor (st_slots st ! j)) \<and>
     (\<forall>k < length ls. sl_anchor (st_slots st' ! snd (ls ! k)) =
        Some ((the (sl_anchor (st_slots st ! snd (ls ! k))))\<lparr>an_off := int (fst (ls ! k)), an_rank := Some (r + k)\<rparr>))"
proof (induction ls arbitrary: r st st')
  case (Cons l ls)
  obtain off i where l: "l = (off, i)" by (cases l)
  obtain a where a: "live st i a" using Cons.prems(1) [of off i] l by auto
  define b where "b = a\<lparr>an_off := int off, an_rank := Some r\<rparr>"
  define st1 where "st1 = (set_anchor i b st)\<lparr>st_order := st_order st @ [i]\<rparr>"
  have the_a: "the (sl_anchor (st_slots st ! i)) = a" using a by (simp add: live_def)
  have st': "st' = rank_loop ls (r + 1) st1"
    using Cons.prems(3) unfolding l st1_def b_def by (simp add: Let_def the_a)
  have s1: "same_ids st st1" using same_ids_set_anchor [OF a] by (simp add: st1_def)
  have slot: "sl_anchor (st_slots st1 ! j) = (if j = i then Some b else sl_anchor (st_slots st ! j))" for j
    using a by (simp add: st1_def set_anchor_slot live_def)
  have li: "i \<notin> snd ` set ls" using Cons.prems(2) l by auto
  have lv: "\<exists>a. live st1 j a" if "(off', j) \<in> set ls" for off' j
    using Cons.prems(1) [of off' j] that same_ids_live [OF s1] by simp
  note IH = Cons.IH [OF lv _ st']
  have d: "distinct (map snd ls)" using Cons.prems(2) by simp
  have nth: "sl_anchor (st_slots st' ! snd ((l # ls) ! k)) =
      Some ((the (sl_anchor (st_slots st ! snd ((l # ls) ! k))))\<lparr>an_off := int (fst ((l # ls) ! k)), an_rank := Some (r + k)\<rparr>)"
    if "k < length (l # ls)" for k
  proof (cases k)
    case 0
    then show ?thesis using IH d li slot l the_a by (simp add: b_def)
  next
    case (Suc m)
    then have m: "m < length ls" using that by simp
    then have "snd (ls ! m) \<noteq> i" using li by (metis image_eqI nth_mem)
    then show ?thesis using Suc m IH d slot by simp
  qed
  have "sl_anchor (st_slots st' ! j) = sl_anchor (st_slots st ! j)" if "j \<notin> snd ` set (l # ls)" for j
    using that IH d slot l by simp
  then show ?case using nth IH d same_ids_trans [OF s1] l by (simp add: st1_def)
qed simp

lemma normalize_facts:
  assumes "store_ok st" "st' = normalize st"
  shows "store_ok st'" "\<not> st_stale st'" "same_ids st st'"
    and "live st i a \<Longrightarrow> \<exists>r. live st' i (a\<lparr>an_off := int (offset_of st a), an_rank := Some r\<rparr>) \<and>
          offset_of st' (a\<lparr>an_off := int (offset_of st a), an_rank := Some r\<rparr>) = offset_of st a"
proof -
  let ?ls = "sorted_live st"
  note ls = sorted_live_facts [of st]
  define st1 where "st1 = rank_loop ?ls 0 (st\<lparr>st_order := []\<rparr>)"
  have st': "st' = st1\<lparr>st_shift := shifts_reset (length (st_order st1)), st_stale := False\<rparr>"
    by (simp add: assms(2) normalize_def st1_def sorted_live_def Let_def)
  have lv: "\<exists>a. live (st\<lparr>st_order := []\<rparr>) i a" if "(off, i) \<in> set ?ls" for off i
    using that unfolding ls(1) mem_live_offsets by (auto simp: live_def)
  note rl = rank_loop_facts [OF lv ls(2) st1_def]
  have ids: "same_ids st st'" using rl by (simp add: st')
  have ord: "st_order st' = map snd ?ls" using rl by (simp add: st')
  have sh: "st_shift st' = shifts_reset (length ?ls)" using rl by (simp add: st')
  have at0: "shift_at (st_shift st') r = 0" if "r < length ?ls" for r using fw.at_reset [OF that] by (simp add: sh)
  have len: "length (st_shift st') = length ?ls" by (simp add: sh fw.size_reset)
  have ex: "\<exists>b. live st (snd (?ls ! k)) b \<and> fst (?ls ! k) = offset_of st b \<and>
      live st' (snd (?ls ! k)) (b\<lparr>an_off := int (offset_of st b), an_rank := Some k\<rparr>)" if k: "k < length ?ls" for k
  proof -
    have "(fst (?ls ! k), snd (?ls ! k)) \<in> set ?ls" using k by simp
    then obtain b where b: "live st (snd (?ls ! k)) b" "fst (?ls ! k) = offset_of st b"
      unfolding ls(1) mem_live_offsets by blast
    have "sl_anchor (st_slots st' ! snd (?ls ! k)) = Some (b\<lparr>an_off := int (offset_of st b), an_rank := Some k\<rparr>)"
      using rl k b by (simp add: st' live_def)
    then show ?thesis using b ids by (auto simp: live_def same_ids_def)
  qed
  have idx: "\<exists>k < length ?ls. snd (?ls ! k) = j" if "live st j b" for j b
  proof -
    have "(offset_of st b, j) \<in> set ?ls" using that unfolding ls(1) mem_live_offsets by blast
    then show ?thesis by (metis in_set_conv_nth snd_conv)
  qed
  have off: "offset_of st' (b\<lparr>an_off := int (offset_of st b), an_rank := Some k\<rparr>) = offset_of st b"
    if "k < length ?ls" for k b using at0 [OF that] by (simp add: offset_of_def)
  show "same_ids st st'" by (rule ids)
  show "\<not> st_stale st'" by (simp add: st')
  show live': "\<exists>r. live st' i (a\<lparr>an_off := int (offset_of st a), an_rank := Some r\<rparr>) \<and>
          offset_of st' (a\<lparr>an_off := int (offset_of st a), an_rank := Some r\<rparr>) = offset_of st a" if lia: "live st i a" for i a
  proof -
    obtain k where k: "k < length ?ls" "snd (?ls ! k) = i" using idx [OF lia] by blast
    then show ?thesis using ex [OF k(1)] off [OF k(1)] live_unique [OF lia] by auto
  qed
  have "ordered st'" unfolding ordered_def
  proof (intro conjI allI impI)
    show "distinct (st_order st')" using ls(2) by (simp add: ord)
    show "set (st_order st') = {i. \<exists>a. live st' i a}"
      using same_ids_live [OF ids] ls(1) by (auto simp: ord mem_live_offsets) (metis image_eqI mem_live_offsets snd_conv)
    show "length (st_shift st') = length (st_order st')" by (simp add: len ord)
    show "\<exists>a. live st' (st_order st' ! r) a \<and> an_rank a = Some r" if "r < length (st_order st')" for r
      using ex [of r] that by (force simp: ord)
  qed
  moreover have "sorted_ranks st'" unfolding sorted_ranks_def
  proof (intro allI impI)
    fix r assume "Suc r < length (st_order st')"
    then have r: "Suc r < length ?ls" by (simp add: ord)
    have at: "at_rank st' k = fst (?ls ! k)" if "k < length ?ls" for k
      using ex [OF that] at0 [OF that] that by (auto simp: at_rank_def ord live_def)
    have "map fst ?ls ! r \<le> map fst ?ls ! Suc r" using ls(3) r by (intro sorted_nth_mono) simp_all
    then show "at_rank st' r \<le> at_rank st' (Suc r)" using at r by simp
  qed
  moreover have "ranks_ok st'" unfolding ranks_ok_def
  proof (intro allI impI)
    fix i b assume b: "live st' i b"
    then obtain c where c: "live st i c" using same_ids_live [OF ids] by blast
    obtain k where k: "k < length ?ls" "snd (?ls ! k) = i" using idx [OF c] by blast
    then have "b = c\<lparr>an_off := int (offset_of st c), an_rank := Some k\<rparr>"
      using ex [OF k(1)] live_unique [OF c] live_unique [OF b] by auto
    then show "0 \<le> abs_off st' b \<and> rank_below (length (st_shift st')) b"
      using at0 [OF k(1)] k(1) by (simp add: abs_off_def rank_below_def len)
  qed
  moreover have "free_ok st'" using same_ids_free_ok [OF ids] assms(1) by (simp add: store_ok_def)
  ultimately show "store_ok st'" by (simp add: store_ok_def)
qed

section \<open>The binary search\<close>

lemma partition_loop_facts:
  "(\<And>i k. i \<le> k \<Longrightarrow> k < n \<Longrightarrow> P k \<Longrightarrow> P i) \<Longrightarrow> lo \<le> hi \<Longrightarrow> hi \<le> n \<Longrightarrow>
   (\<And>i. i < lo \<Longrightarrow> P i) \<Longrightarrow> (\<And>i. hi \<le> i \<Longrightarrow> i < n \<Longrightarrow> \<not> P i) \<Longrightarrow> k = partition_loop P lo hi \<Longrightarrow>
     k \<le> n \<and> (\<forall>i < k. P i) \<and> (\<forall>i. k \<le> i \<longrightarrow> i < n \<longrightarrow> \<not> P i)"
proof (induction P lo hi arbitrary: k rule: partition_loop.induct)
  case (1 P lo hi)
  show ?case
  proof (cases "lo < hi")
    case True
    let ?m = "(lo + hi) div 2"
    have m: "lo \<le> ?m" "?m < hi" using True by auto
    show ?thesis
    proof (cases "P ?m")
      case P: True
      have k: "k = partition_loop P (?m + 1) hi" using "1.prems"(6) True P by (subst (asm) partition_loop.simps) (simp add: Let_def)
      have "P i" if "i < ?m + 1" for i using "1.prems"(1) [of i ?m] that P m "1.prems"(3) by simp
      then show ?thesis using "1.prems" m k by (intro "1.IH"(1) [OF True refl P]) auto
    next
      case nP: False
      have k: "k = partition_loop P lo ?m" using "1.prems"(6) True nP by (subst (asm) partition_loop.simps) (simp add: Let_def)
      have "\<not> P i" if "?m \<le> i" "i < n" for i using "1.prems"(1) [of ?m i] that nP by blast
      then show ?thesis using "1.prems" m k by (intro "1.IH"(2) [OF True refl nP]) auto
    qed
  next
    case False
    then have "k = lo" using "1.prems"(6) by (subst (asm) partition_loop.simps) simp
    then show ?thesis using False "1.prems" by auto
  qed
qed

lemma partition_by_facts:
  assumes "\<forall>i k. i \<le> k \<longrightarrow> k < n \<longrightarrow> P k \<longrightarrow> P i"
  shows "partition_by n P \<le> n" "i < partition_by n P \<Longrightarrow> P i"
    "partition_by n P \<le> i \<Longrightarrow> i < n \<Longrightarrow> \<not> P i"
proof -
  have "partition_by n P \<le> n \<and> (\<forall>i < partition_by n P. P i) \<and> (\<forall>i. partition_by n P \<le> i \<longrightarrow> i < n \<longrightarrow> \<not> P i)"
    by (rule partition_loop_facts [of n P 0 n, OF _ _ _ _ _ partition_by_def]) (use assms in simp_all)
  then show "partition_by n P \<le> n" "i < partition_by n P \<Longrightarrow> P i"
    "partition_by n P \<le> i \<Longrightarrow> i < n \<Longrightarrow> \<not> P i" by simp_all
qed

section \<open>The regions a change touches\<close>

definition in_region :: "region \<Rightarrow> nat \<Rightarrow> bool" where
  "in_region rg p = (case rg of (ws, we, _) \<Rightarrow> ws \<le> p \<and> p \<le> we)"

definition touched :: "region list \<Rightarrow> nat \<Rightarrow> bool" where
  "touched regs p = list_ex (\<lambda>rg. in_region rg p) regs"

definition left_delta :: "region list \<Rightarrow> nat \<Rightarrow> int" where
  "left_delta regs p = sum_list (map (\<lambda>(ws, we, d). if we < p then d else 0) regs)"

definition separated :: "region list \<Rightarrow> bool" where
  "separated regs \<longleftrightarrow> sorted_wrt (\<lambda>(ws, we, d) (ws', we', d'). we < ws') regs \<and> list_all (\<lambda>(ws, we, d). ws \<le> we) regs"

lemma left_delta_simps [simp]:
  "left_delta [] p = 0" "left_delta ((ws, we, d) # regs) p = (if we < p then d else 0) + left_delta regs p"
  "left_delta (xs @ ys) p = left_delta xs p + left_delta ys p"
  by (simp_all add: left_delta_def)

lemma touched_simps [simp]:
  "touched [] p = False" "touched (rg # regs) p = (in_region rg p \<or> touched regs p)"
  "touched (xs @ ys) p = (touched xs p \<or> touched ys p)"
  by (simp_all add: touched_def)

text \<open>Outside the regions, what lies left of a position is exactly the edits whose own region does.\<close>

definition regions_inv :: "line_map option \<Rightarrow> edit list \<Rightarrow> region list \<Rightarrow> bool" where
  "regions_inv m ds regs \<longleftrightarrow> separated regs \<and> (ds \<noteq> [] \<longrightarrow> regs \<noteq> []) \<and>
     list_all (\<lambda>(ws, we, d). list_ex (\<lambda>e. fst (region_of m e) = ws) ds) regs \<and>
     (\<forall>p. \<not> touched regs p \<longrightarrow>
        left_delta regs p = sum_list (map (\<lambda>e. if snd (region_of m e) < p then delta e else 0) ds) \<and>
        list_all (\<lambda>e. snd (region_of m e) < p \<or> p < fst (region_of m e)) ds)"

lemma push_region_inv:
  assumes inv: "regions_inv m ds regs" and le: "fst (region_of m e) \<le> snd (region_of m e)"
    and mono: "\<forall>d \<in> set ds. fst (region_of m d) \<le> fst (region_of m e)"
  shows "regions_inv m (ds @ [e]) (push_region m regs e)"
proof (cases "regs = []")
  case True
  obtain ws we where w: "region_of m e = (ws, we)" by (cases "region_of m e")
  have "ds = []" using inv True by (auto simp: regions_inv_def)
  then show ?thesis using True w le
    by (auto simp: regions_inv_def push_region_def last_opt_def separated_def in_region_def)
next
  case False
  obtain ws we where w: "region_of m e = (ws, we)" by (cases "region_of m e")
  obtain rs ws0 we0 d0 where r: "regs = rs @ [(ws0, we0, d0)]"
    by (metis False append_butlast_last_id prod_cases3)
  have sep: "separated (rs @ [(ws0, we0, d0)])" and ex: "list_ex (\<lambda>e. fst (region_of m e) = ws0) ds"
    using inv by (simp_all add: regions_inv_def r)
  have w0: "ws0 \<le> ws" using ex mono w by (auto simp: list_ex_iff)
  have s0: "ws0 \<le> we0" using sep by (simp add: separated_def)
  have old: "left_delta regs p = sum_list (map (\<lambda>e. if snd (region_of m e) < p then delta e else 0) ds) \<and>
      list_all (\<lambda>e. snd (region_of m e) < p \<or> p < fst (region_of m e)) ds" if "\<not> touched regs p" for p
    using inv that by (simp add: regions_inv_def)
  have starts: "list_all (\<lambda>(ws, we, d). list_ex (\<lambda>e. fst (region_of m e) = ws) (ds @ [e])) regs"
    using inv by (auto simp: regions_inv_def list_all_iff)
  show ?thesis
  proof (cases "ws \<le> we0")
    case True
    have p: "push_region m regs e = rs @ [(ws0, max we0 we, d0 + delta e)]"
      using True by (simp add: push_region_def w r last_opt_def)
    have "separated (push_region m regs e)" using sep s0 unfolding p by (auto simp: separated_def sorted_wrt_append)
    moreover have "left_delta (push_region m regs e) q =
          sum_list (map (\<lambda>e. if snd (region_of m e) < q then delta e else 0) (ds @ [e])) \<and>
        list_all (\<lambda>e. snd (region_of m e) < q \<or> q < fst (region_of m e)) (ds @ [e])"
      if "\<not> touched (push_region m regs e) q" for q
    proof -
      have q: "q < ws0 \<or> max we0 we < q" and "\<not> touched rs q" using that unfolding p by (auto simp: in_region_def)
      then have "\<not> touched regs q" by (auto simp: r in_region_def)
      from old [OF this] q w0 s0 le show ?thesis unfolding p by (auto simp: r w)
    qed
    moreover have "list_all (\<lambda>(ws, we, d). list_ex (\<lambda>e. fst (region_of m e) = ws) (ds @ [e])) (push_region m regs e)"
      using starts by (simp only: p) (simp add: r)
    moreover have "push_region m regs e \<noteq> []" unfolding p by simp
    ultimately show ?thesis by (simp add: regions_inv_def)
  next
    case False
    have p: "push_region m regs e = regs @ [(ws, we, delta e)]"
      using False by (simp add: push_region_def w r last_opt_def)
    have "separated (regs @ [(ws, we, delta e)])"
      using sep s0 False le unfolding r by (fastforce simp: separated_def sorted_wrt_append w)
    then have "separated (push_region m regs e)" by (simp only: p)
    moreover have "left_delta (push_region m regs e) q =
          sum_list (map (\<lambda>e. if snd (region_of m e) < q then delta e else 0) (ds @ [e])) \<and>
        list_all (\<lambda>e. snd (region_of m e) < q \<or> q < fst (region_of m e)) (ds @ [e])"
      if "\<not> touched (push_region m regs e) q" for q
    proof -
      have "\<not> touched regs q" "q < ws \<or> we < q" using that unfolding p by (auto simp: in_region_def)
      with old show ?thesis unfolding p by (auto simp: w)
    qed
    moreover have "list_all (\<lambda>(ws, we, d). list_ex (\<lambda>e. fst (region_of m e) = ws) (ds @ [e])) (push_region m regs e)"
      using starts by (simp only: p) (simp add: w)
    moreover have "push_region m regs e \<noteq> []" unfolding p by simp
    ultimately show ?thesis by (simp add: regions_inv_def)
  qed
qed

lemma build_regions_inv:
  assumes "\<And>e. e \<in> set es \<Longrightarrow> fst (region_of m e) \<le> snd (region_of m e)"
    and "sorted_wrt (\<lambda>a b. fst (region_of m a) \<le> fst (region_of m b)) es"
  shows "regions_inv m es (build_regions m es)"
  using assms
proof (induction es rule: rev_induct)
  case Nil
  show ?case by (simp add: regions_inv_def build_regions_def separated_def)
next
  case (snoc e es)
  then have "regions_inv m es (build_regions m es)" by (simp add: sorted_wrt_append)
  then have "regions_inv m (es @ [e]) (push_region m (build_regions m es) e)"
    using snoc.prems by (intro push_region_inv) (auto simp: sorted_wrt_append)
  then show ?case by (simp add: build_regions_def)
qed

end
