(* ===== verification/Anchor_Refine.thy ===== *)
theory Anchor_Refine
  imports Anchor_Sweep
begin

text \<open>
  The write-back of the anchor store's sweep, region by region from the right: after the regions down to rank
  \<open>b\<close> are written and \<open>L\<close> bytes of growth lie left of them, every anchor of rank \<open>b\<close> or more stands \<open>L\<close>
  short of its final place, and the ranks below are untouched (\<open>stage\<close>).  From this the refinement follows:
  one sweep moves every live anchor to where its own rule, \<open>map_anchor\<close>, puts it.
\<close>

section \<open>Writing one region\<close>

abbreviation mv_slot :: "moved_anchor \<Rightarrow> nat" where
  "mv_slot mv \<equiv> fst (snd mv)"

definition written :: "anchor \<Rightarrow> moved_anchor \<Rightarrow> nat \<Rightarrow> int \<Rightarrow> shifts \<Rightarrow> anchor" where
  "written a mv r left t =
     a\<lparr>an_rank := Some r, an_off := int (fst mv) - left - shift_at t r, an_inval := an_inval a \<or> snd (snd mv)\<rparr>"

lemma write_one_facts:
  assumes "live st (mv_slot mv) a" "st' = write_one r left mv st"
  shows "same_ids st st'" "st_order st' = (st_order st)[r := mv_slot mv]" "st_shift st' = st_shift st"
    "live st' (mv_slot mv) (written a mv r left (st_shift st))"
    "j \<noteq> mv_slot mv \<Longrightarrow> sl_anchor (st_slots st' ! j) = sl_anchor (st_slots st ! j)" "st_stale st' = st_stale st"
proof -
  obtain to sl gone where mv: "mv = (to, sl, gone)" by (cases mv)
  have the_a: "the (sl_anchor (st_slots st ! sl)) = a" and l: "sl < length (st_slots st)"
    using assms(1) by (simp_all add: mv live_def)
  have st': "st' = set_anchor sl (written a mv r left (st_shift st)) (st\<lparr>st_order := (st_order st)[r := sl]\<rparr>)"
    by (simp add: assms(2) write_one_def mv Let_def the_a written_def)
  have "live (st\<lparr>st_order := (st_order st)[r := sl]\<rparr>) sl a" using assms(1) by (simp add: live_def mv)
  from same_ids_set_anchor [OF this] show "same_ids st st'" by (simp add: st')
  show "st_order st' = (st_order st)[r := mv_slot mv]" "st_shift st' = st_shift st"
    "live st' (mv_slot mv) (written a mv r left (st_shift st))" "st_stale st' = st_stale st"
    "j \<noteq> mv_slot mv \<Longrightarrow> sl_anchor (st_slots st' ! j) = sl_anchor (st_slots st ! j)"
    using l by (simp_all add: st' mv live_def set_anchor_slot)
qed

lemma write_loop_facts:
  "(\<And>mv. mv \<in> set mvs \<Longrightarrow> \<exists>a. live st (mv_slot mv) a) \<Longrightarrow> distinct (map mv_slot mvs) \<Longrightarrow>
   r + length mvs \<le> length (st_order st) \<Longrightarrow> st' = write_loop mvs r left st \<Longrightarrow>
     same_ids st st' \<and> st_order st' = take r (st_order st) @ map mv_slot mvs @ drop (r + length mvs) (st_order st) \<and>
     st_shift st' = st_shift st \<and> st_stale st' = st_stale st \<and>
     (\<forall>j. j \<notin> mv_slot ` set mvs \<longrightarrow> sl_anchor (st_slots st' ! j) = sl_anchor (st_slots st ! j)) \<and>
     (\<forall>k < length mvs. \<forall>a. live st (mv_slot (mvs ! k)) a \<longrightarrow>
        live st' (mv_slot (mvs ! k)) (written a (mvs ! k) (r + k) left (st_shift st)))"
proof (induction mvs arbitrary: r st)
  case (Cons mv mvs)
  obtain a where a: "live st (mv_slot mv) a" using Cons.prems(1) [of mv] by auto
  define st1 where "st1 = write_one r left mv st"
  note w = write_one_facts [OF a st1_def]
  have st': "st' = write_loop mvs (r + 1) left st1" using Cons.prems(4) by (simp add: st1_def)
  have lv: "\<exists>a. live st1 (mv_slot v) a" if "v \<in> set mvs" for v
    using Cons.prems(1) [of v] that same_ids_live [OF w(1)] by simp
  have d: "distinct (map mv_slot mvs)" and nin: "mv_slot mv \<notin> mv_slot ` set mvs" using Cons.prems(2) by auto
  have len: "r + 1 + length mvs \<le> length (st_order st1)" using Cons.prems(3) by (simp add: w(2))
  note IH = Cons.IH [OF lv d len st']
  have r: "r < length (st_order st)" using Cons.prems(3) by simp
  have nth: "live st' (mv_slot ((mv # mvs) ! k)) (written b ((mv # mvs) ! k) (r + k) left (st_shift st))"
    if k: "k < length (mv # mvs)" and b: "live st (mv_slot ((mv # mvs) ! k)) b" for k b
  proof (cases k)
    case 0
    then have "b = a" using b live_unique [OF a] by simp
    moreover have "sl_anchor (st_slots st' ! mv_slot mv) = sl_anchor (st_slots st1 ! mv_slot mv)" using IH nin by blast
    ultimately show ?thesis using 0 w(4) IH by (simp add: live_def same_ids_def)
  next
    case (Suc i)
    then have i: "i < length mvs" using k by simp
    then have "mv_slot (mvs ! i) \<noteq> mv_slot mv" using nin by (metis image_eqI nth_mem)
    then have "live st1 (mv_slot (mvs ! i)) b" using b Suc w(1,5) by (simp add: live_def same_ids_def)
    with IH i show ?thesis using Suc w(3) by simp
  qed
  have "st_order st' = take r (st_order st) @ map mv_slot (mv # mvs) @ drop (r + length (mv # mvs)) (st_order st)"
    using IH r by (simp add: w(2) take_Suc_conv_app_nth take_update_cancel)
  moreover have "sl_anchor (st_slots st' ! j) = sl_anchor (st_slots st ! j)" if "j \<notin> mv_slot ` set (mv # mvs)" for j
    using that IH w(5) [of j] by simp
  ultimately show ?case using nth IH w(3,6) same_ids_trans [OF w(1)] by auto
qed auto

section \<open>The write-back in stages\<close>

definition staged :: "anchor_store \<Rightarrow> (nat \<Rightarrow> int) \<Rightarrow> (nat \<Rightarrow> bool) \<Rightarrow> nat \<Rightarrow> int \<Rightarrow> anchor_store \<Rightarrow> nat \<Rightarrow> bool" where
  "staged st F G b L st' r \<longleftrightarrow>
     (let i = st_order st' ! r in
      \<exists>a a0. live st' i a \<and> an_rank a = Some r \<and> live st i a0 \<and> an_track a = an_track a0 \<and> an_policy a = an_policy a0 \<and>
        (r < b \<longrightarrow> a = a0 \<and> shift_at (st_shift st') r = shift_at (st_shift st) r) \<and>
        (b \<le> r \<longrightarrow> an_off a + shift_at (st_shift st') r = F i - L \<and> an_inval a = (an_inval a0 \<or> G i)))"

definition stage :: "anchor_store \<Rightarrow> (nat \<Rightarrow> int) \<Rightarrow> (nat \<Rightarrow> bool) \<Rightarrow> nat set \<Rightarrow> nat \<Rightarrow> int \<Rightarrow> anchor_store \<Rightarrow> bool" where
  "stage st F G K b L st' \<longleftrightarrow>
     same_ids st st' \<and> mset (st_order st') = mset (st_order st) \<and> length (st_shift st') = length (st_order st) \<and>
     st_stale st' = st_stale st \<and> b \<le> length (st_order st) \<and> (b \<in> K \<or> b = length (st_order st)) \<and>
     take b (st_order st') = take b (st_order st) \<and>
     (\<forall>r < length (st_order st). staged st F G b L st' r) \<and>
     (\<forall>r. b \<le> r \<longrightarrow> Suc r < length (st_order st) \<longrightarrow> Suc r \<notin> K \<longrightarrow> F (st_order st' ! r) \<le> F (st_order st' ! Suc r))"

text \<open>The ranks between two regions already stand where they should, less the growth to their left.\<close>

definition gap_ok :: "anchor_store \<Rightarrow> (nat \<Rightarrow> int) \<Rightarrow> (nat \<Rightarrow> bool) \<Rightarrow> int \<Rightarrow> nat \<Rightarrow> bool" where
  "gap_ok st F G L r \<longleftrightarrow> F (st_order st ! r) = int (at_rank st r) + L \<and> \<not> G (st_order st ! r)"

lemma rank_abs:
  assumes "store_ok st" "\<not> st_stale st" "r < length (st_order st)"
  obtains a where "live st (st_order st ! r) a" "an_rank a = Some r"
    "an_off a + shift_at (st_shift st) r = int (at_rank st r)" "offset_of st a = at_rank st r"
proof -
  obtain a where a: "live st (st_order st ! r) a" "an_rank a = Some r"
    using assms by (auto simp: store_ok_def ordered_def)
  then have "0 \<le> abs_off st a" using assms(1) by (auto simp: store_ok_def ranks_ok_def)
  then show thesis using a by (intro that [of a]) (auto simp: abs_off_def at_rank_def live_def offset_of_def)
qed

lemma at_rank_mono:
  assumes "store_ok st" "\<not> st_stale st" "i \<le> k" "k < length (st_order st)"
  shows "at_rank st i \<le> at_rank st k"
  using assms(3,4)
proof (induction k)
  case (Suc k)
  have "at_rank st k \<le> at_rank st (Suc k)" using assms(1,2) Suc.prems by (simp add: store_ok_def sorted_ranks_def)
  then show ?case using Suc by (cases "i = Suc k") auto
qed simp

lemma stage_lower:
  assumes ok: "store_ok st" "\<not> st_stale st" and s: "stage st F G K b L st'" and c: "c \<le> b" "c \<in> K \<or> c = length (st_order st)"
    and gap: "\<And>r. c \<le> r \<Longrightarrow> r < b \<Longrightarrow> gap_ok st F G L r"
  shows "stage st F G K c L st'"
proof -
  let ?n = "length (st_order st)"
  have tk: "take b (st_order st') = take b (st_order st)" and b: "b \<le> ?n" using s by (simp_all add: stage_def)
  have len: "length (st_order st') = ?n" using s by (metis stage_def size_mset)
  have same: "st_order st' ! r = st_order st ! r" if "r < b" for r using tk that by (metis nth_take)
  have "staged st F G c L st' r" if r: "r < ?n" for r
  proof -
    have old: "staged st F G b L st' r" using s r by (simp add: stage_def)
    show ?thesis
    proof (cases "c \<le> r \<and> r < b")
      case True
      obtain a where a: "live st (st_order st ! r) a" "an_off a + shift_at (st_shift st) r = int (at_rank st r)"
        using rank_abs [OF ok r] by metis
      have eq: "st_order st' ! r = st_order st ! r" using same True by blast
      obtain a' a0 where o: "live st' (st_order st ! r) a'" "an_rank a' = Some r" "live st (st_order st ! r) a0" "a' = a0"
          "shift_at (st_shift st') r = shift_at (st_shift st) r"
        using old True unfolding staged_def Let_def eq by blast
      have "a0 = a" by (rule live_unique [OF o(3) a(1)])
      then show ?thesis using o a True gap [of r] unfolding staged_def Let_def eq gap_ok_def
        by (intro exI [of _ a]) simp
    next
      case False
      then show ?thesis using old c(1) unfolding staged_def Let_def by fastforce
    qed
  qed
  moreover have "F (st_order st' ! r) \<le> F (st_order st' ! Suc r)" if "c \<le> r" "Suc r < ?n" "Suc r \<notin> K" for r
  proof (cases "Suc r < b")
    case True
    have "at_rank st r \<le> at_rank st (Suc r)" using at_rank_mono [OF ok] that(2) by simp
    then show ?thesis using gap [of r] gap [of "Suc r"] True that(1) same by (simp add: gap_ok_def)
  next
    case False
    have "b \<noteq> Suc r" using s that by (auto simp: stage_def)
    then have "b \<le> r" using False by simp
    then show ?thesis using s that by (simp add: stage_def)
  qed
  moreover have "take c (st_order st') = take c (st_order st)" using tk c(1) by (metis min.absorb1 take_take)
  ultimately show ?thesis using s c b by (simp add: stage_def)
qed


lemma mset_split3: "lo \<le> hi \<Longrightarrow> hi \<le> length xs \<Longrightarrow> mset xs = mset (take lo xs) + mset (map ((!) xs) [lo..<hi]) + mset (drop hi xs)"
proof -
  assume le: "lo \<le> hi" "hi \<le> length xs"
  have "xs = take lo xs @ map ((!) xs) [lo..<hi] @ drop hi xs"
    using le by (intro nth_equalityI) (auto simp: nth_append)
  then show ?thesis by (metis mset_append add.assoc)
qed

text \<open>What one region's plan must say about the store it was made from.\<close>

definition moves_ok :: "anchor_store \<Rightarrow> (nat \<Rightarrow> int) \<Rightarrow> (nat \<Rightarrow> bool) \<Rightarrow> nat \<Rightarrow> nat \<Rightarrow> moved_anchor list \<Rightarrow> bool" where
  "moves_ok st F G lo hi mvs \<longleftrightarrow>
     mset (map mv_slot mvs) = mset (map ((!) (st_order st)) [lo..<hi]) \<and> sorted (map fst mvs) \<and>
     list_all (\<lambda>(to, sl, gone). int to = F sl \<and> gone = G sl) mvs"

lemma region_step:
  assumes ok: "store_ok st" "\<not> st_stale st" and s: "stage st F G K hi L st'" and lo: "lo \<le> hi" "lo \<in> K"
    and mv: "moves_ok st F G lo hi mvs" and st1: "st1 = write_loop mvs lo (L - d) st'"
    and st2: "st2 = st1\<lparr>st_shift := add_from (st_shift st1) hi d\<rparr>" and hiK: "hi \<in> K \<or> hi = length (st_order st)"
  shows "stage st F G K lo (L - d) st2"
proof -
  let ?n = "length (st_order st)" and ?o = "st_order st'"
  have tk: "take hi ?o = take hi (st_order st)" and hi: "hi \<le> ?n" and ids: "same_ids st st'"
    and ms: "mset ?o = mset (st_order st)" and sh: "length (st_shift st') = ?n"
    using s by (simp_all add: stage_def)
  have len: "length ?o = ?n" by (metis ms size_mset)
  have "length (map mv_slot mvs) = length (map ((!) (st_order st)) [lo..<hi])"
    by (rule mset_eq_length) (use mv in \<open>simp only: moves_ok_def\<close>)
  then have lm: "length mvs = hi - lo" by simp
  have seg: "map ((!) (st_order st)) [lo..<hi] = map ((!) ?o) [lo..<hi]"
    using tk by (auto intro!: map_cong) (metis nth_take)
  have slots: "mset (map mv_slot mvs) = mset (map ((!) ?o) [lo..<hi])" using mv seg by (simp add: moves_ok_def)
  have dist: "distinct ?o" using ok ms by (metis mset_eq_imp_distinct_iff ordered_def store_ok_def)
  have d: "distinct (map mv_slot mvs)"
  proof -
    have "distinct (map ((!) ?o) [lo..<hi])" using dist hi len by (simp add: distinct_map inj_on_nth)
    then show ?thesis using slots by (metis mset_eq_imp_distinct_iff)
  qed
  have slot_at: "\<exists>r. lo \<le> r \<and> r < hi \<and> ?o ! r = mv_slot m" if "m \<in> set mvs" for m
  proof -
    have "mv_slot m \<in> set (map mv_slot mvs)" using that by simp
    then have "mv_slot m \<in> set (map ((!) ?o) [lo..<hi])" using slots by (metis set_mset_mset)
    then show ?thesis by auto
  qed
  have old: "staged st F G hi L st' r" if "r < ?n" for r using s that by (simp add: stage_def)
  have lv: "\<exists>a. live st' (mv_slot m) a" if "m \<in> set mvs" for m
  proof -
    obtain r where "lo \<le> r" "r < hi" "?o ! r = mv_slot m" using slot_at \<open>m \<in> set mvs\<close> by blast
    then show ?thesis using old [of r] hi by (auto simp: staged_def Let_def)
  qed
  have room: "lo + length mvs \<le> length ?o" using lm hi lo len by simp
  note w = write_loop_facts [OF lv d room st1]
  have o1: "st_order st2 = take lo ?o @ map mv_slot mvs @ drop hi ?o" using w lm lo by (simp add: st2)
  have s2: "shift_at (st_shift st2) r = shift_at (st_shift st') r + (if hi \<le> r then d else 0)" if "r < ?n" for r
    using fw.at_add [of r "st_shift st'" hi d] that w sh by (simp add: st2)
  have nth: "st_order st2 ! r = (if lo \<le> r \<and> r < hi then mv_slot (mvs ! (r - lo)) else ?o ! r)" if "r < ?n" for r
    using that lo hi len lm by (auto simp: o1 nth_append)
  have outside: "?o ! r \<notin> mv_slot ` set mvs" if "r < ?n" "\<not> (lo \<le> r \<and> r < hi)" for r
  proof
    assume "?o ! r \<in> mv_slot ` set mvs"
    then obtain k where k: "lo \<le> k" "k < hi" "?o ! k = ?o ! r" using slot_at by fastforce
    then have "k = r" using dist len hi that(1) by (simp add: nth_eq_iff_index_eq)
    then show False using k that(2) by simp
  qed
  have live2: "live st2 i a = live st1 i a" for i a by (simp add: st2 live_def)
  have "staged st F G lo (L - d) st2 r" if r: "r < ?n" for r
  proof (cases "lo \<le> r \<and> r < hi")
    case True
    define m where "m = mvs ! (r - lo)"
    have k: "r - lo < length mvs" and m: "m \<in> set mvs" using True lm by (auto simp: m_def)
    obtain r0 where r0: "lo \<le> r0" "r0 < hi" "?o ! r0 = mv_slot m" using slot_at [OF m] by blast
    obtain a a0 where a: "live st' (mv_slot m) a" "live st (mv_slot m) a0" "a = a0"
      using old [of r0] r0 hi unfolding staged_def Let_def by auto
    have "live st1 (mv_slot m) (written a m r (L - d) (st_shift st'))"
      using w k a(1) True unfolding m_def by (metis le_add_diff_inverse)
    moreover have "int (fst m) = F (mv_slot m) \<and> snd (snd m) = G (mv_slot m)"
      using mv m by (auto simp: moves_ok_def list_all_iff split_beta)
    ultimately show ?thesis using a True s2 [OF r] nth [OF r]
      unfolding staged_def Let_def live2 m_def [symmetric]
      by (intro exI [of _ "written a m r (L - d) (st_shift st')"] exI [of _ a0]) (simp add: written_def m_def [symmetric])
  next
    case False
    have "live st1 (?o ! r) a = live st' (?o ! r) a" for a
      using w outside [OF r False] by (simp add: live_def same_ids_def)
    then have lv2: "live st2 (?o ! r) a = live st' (?o ! r) a" for a by (simp add: live2)
    have eq: "st_order st2 ! r = ?o ! r" using nth [OF r] False by simp
    obtain a a0 where a: "live st' (?o ! r) a" "an_rank a = Some r" "live st (?o ! r) a0"
        "an_track a = an_track a0" "an_policy a = an_policy a0"
        "r < hi \<Longrightarrow> a = a0 \<and> shift_at (st_shift st') r = shift_at (st_shift st) r"
        "hi \<le> r \<Longrightarrow> an_off a + shift_at (st_shift st') r = F (?o ! r) - L \<and> an_inval a = (an_inval a0 \<or> G (?o ! r))"
      using old [OF r] unfolding staged_def Let_def by blast
    have lt: "r < lo \<Longrightarrow> r < hi" and ge: "lo \<le> r \<Longrightarrow> hi \<le> r" using False lo by auto
    show ?thesis unfolding staged_def Let_def eq lv2 using a s2 [OF r] lt ge
      by (intro exI [of _ a] exI [of _ a0]) auto
  qed
  moreover have "F (st_order st2 ! r) \<le> F (st_order st2 ! Suc r)" if r: "lo \<le> r" "Suc r < ?n" "Suc r \<notin> K" for r
  proof (cases "Suc r < hi")
    case True
    let ?k = "r - lo"
    have k: "Suc ?k < length mvs" "Suc r - lo = Suc ?k" using True r(1) lm by auto
    have "F (mv_slot m) = int (fst m)" if "m \<in> set mvs" for m
      using mv that by (auto simp: moves_ok_def list_all_iff split_beta)
    moreover have "map fst mvs ! ?k \<le> map fst mvs ! Suc ?k"
      using mv k by (intro sorted_nth_mono) (simp_all add: moves_ok_def)
    ultimately show ?thesis using True r k nth [of r] nth [of "Suc r"] by simp
  next
    case False
    have "Suc r \<noteq> hi" using hiK r by auto
    then have "hi \<le> r" using False by simp
    then show ?thesis using s r nth [of r] nth [of "Suc r"] by (simp add: stage_def)
  qed
  moreover have "mset (st_order st2) = mset (st_order st)"
    using mset_split3 [OF lo(1), of ?o] hi len slots ms by (simp add: o1)
  moreover have "take lo (st_order st2) = take lo (st_order st)"
    using tk lo hi len by (simp add: o1) (metis min.absorb1 take_take)
  moreover have "same_ids st st2" using w same_ids_trans [OF ids] by (simp add: st2)
  ultimately show ?thesis using s w lo hi sh by (simp add: stage_def st2 fw.size_add)
qed


section \<open>All regions\<close>

fun steps_ok :: "anchor_store \<Rightarrow> (nat \<Rightarrow> int) \<Rightarrow> (nat \<Rightarrow> bool) \<Rightarrow> nat set \<Rightarrow> nat \<Rightarrow> int \<Rightarrow> (region_plan \<times> region) list \<Rightarrow> bool" where
  "steps_ok st F G K b L [] = (L = 0 \<and> (\<forall>r < b. gap_ok st F G 0 r))"
| "steps_ok st F G K b L (((lo, hi, mvs), (ws, we, d)) # ps) =
     (lo \<le> hi \<and> hi \<le> b \<and> lo \<in> K \<and> hi \<in> K \<and> (\<forall>r. hi \<le> r \<and> r < b \<longrightarrow> gap_ok st F G L r) \<and>
      moves_ok st F G lo hi mvs \<and> steps_ok st F G K lo (L - d) ps)"

lemma write_regions_stage:
  assumes ok: "store_ok st" "\<not> st_stale st"
  shows "stage st F G K b L st' \<Longrightarrow> steps_ok st F G K b L ps \<Longrightarrow> stage st F G (insert 0 K) 0 0 (write_regions ps L st')"
proof (induction ps arbitrary: b L st')
  case Nil
  then have "stage st F G (insert 0 K) b 0 st'" by (auto simp: stage_def)
  moreover have "gap_ok st F G 0 r" if "r < b" for r using Nil.prems(2) that by simp
  ultimately show ?case using stage_lower [OF ok, of F G "insert 0 K" b 0 st' 0] by simp
next
  case (Cons p ps)
  obtain lo hi mvs ws we d where p: "p = ((lo, hi, mvs), (ws, we, d))" by (metis prod_cases3 surj_pair)
  have pre: "lo \<le> hi" "hi \<le> b" "lo \<in> K" "hi \<in> K" "moves_ok st F G lo hi mvs" "steps_ok st F G K lo (L - d) ps"
    and gap: "\<And>r. hi \<le> r \<Longrightarrow> r < b \<Longrightarrow> gap_ok st F G L r"
    using Cons.prems(2) unfolding p steps_ok.simps by auto
  define st1 where "st1 = write_loop mvs lo (L - d) st'"
  have "stage st F G K hi L st'" by (rule stage_lower [OF ok Cons.prems(1) pre(2) disjI1 [OF pre(4)] gap])
  from region_step [OF ok this pre(1,3,5) st1_def refl disjI1 [OF pre(4)]]
  have "stage st F G K lo (L - d) (st1\<lparr>st_shift := add_from (st_shift st1) hi d\<rparr>)" .
  from Cons.IH [OF this pre(6)] show ?case by (simp only: p write_regions.simps Let_def st1_def)
qed

text \<open>Where an anchor ends up: by its own rule inside a region, shifted by what lies left of it outside.\<close>

definition target :: "anchor_store \<Rightarrow> edit list \<Rightarrow> line_map option \<Rightarrow> region list \<Rightarrow> anchor \<Rightarrow> int \<times> bool" where
  "target st es m regs a =
     (let p = offset_of st a in
      if touched regs p then (let (q, gone) = map_anchor a p es m in (int q, gone))
      else (int p + left_delta regs p, False))"

definition slot_target :: "anchor_store \<Rightarrow> edit list \<Rightarrow> line_map option \<Rightarrow> region list \<Rightarrow> nat \<Rightarrow> int \<times> bool" where
  "slot_target st es m regs i = target st es m regs (the (sl_anchor (st_slots st ! i)))"

definition cuts :: "region_plan list \<Rightarrow> nat set" where
  "cuts plan = (\<Union>(lo, hi, _) \<in> set plan. {lo, hi})"

lemma separated_sides:
  assumes "separated (P @ (ws, we, d) # Q)"
  shows "ws \<le> we" "(ws', we', d') \<in> set P \<Longrightarrow> we' < ws" "(ws', we', d') \<in> set Q \<Longrightarrow> we < ws' \<and> ws' \<le> we'"
    "(ws', we', d') \<in> set P \<Longrightarrow> ws' \<le> we'"
  using assms by (fastforce simp: separated_def sorted_wrt_append list_all_iff)+

lemma left_delta_all: "list_all (\<lambda>(ws, we, d). we < p) P \<Longrightarrow> left_delta P p = sum_list (map (\<lambda>(_, _, d). d) P)"
  by (induction P) auto

lemma left_delta_none: "list_all (\<lambda>(ws, we, d). p \<le> we) Q \<Longrightarrow> left_delta Q p = 0"
  by (induction Q) auto

lemma between_regions:
  assumes "\<And>ws we d. (ws, we, d) \<in> set P \<Longrightarrow> we < p" "\<And>ws we d. (ws, we, d) \<in> set Q \<Longrightarrow> p < ws \<and> ws \<le> we"
  shows "\<not> touched (P @ Q) p" "left_delta (P @ Q) p = sum_list (map (\<lambda>(_, _, d). d) P)"
proof -
  show "\<not> touched (P @ Q) p" using assms by (fastforce simp: touched_def in_region_def list_ex_iff)
  have "list_all (\<lambda>(ws, we, d). p \<le> we) Q" using assms(2) by (fastforce simp: list_all_iff)
  moreover have "list_all (\<lambda>(ws, we, d). we < p) P" using assms(1) by (auto simp: list_all_iff)
  ultimately show "left_delta (P @ Q) p = sum_list (map (\<lambda>(_, _, d). d) P)"
    by (simp add: left_delta_all left_delta_none)
qed


lemma plan_region_facts:
  assumes ok: "store_ok st" "\<not> st_stale st" and le: "ws \<le> we" and pl: "plan_region st es m (ws, we, d) = (lo, hi, mvs)"
  shows "lo \<le> hi" "hi \<le> length (st_order st)" "r < length (st_order st) \<Longrightarrow> r < lo \<longleftrightarrow> at_rank st r < ws"
    "r < length (st_order st) \<Longrightarrow> r < hi \<longleftrightarrow> at_rank st r \<le> we"
proof -
  let ?n = "length (st_order st)"
  have lo: "lo = partition_by ?n (\<lambda>r. at_rank st r < ws)"
    and hi: "hi = lo + partition_by (?n - lo) (\<lambda>r. at_rank st (lo + r) \<le> we)"
    using pl by (auto simp: plan_region_def Let_def)
  have m1: "\<forall>i k. i \<le> k \<longrightarrow> k < ?n \<longrightarrow> at_rank st k < ws \<longrightarrow> at_rank st i < ws"
    using at_rank_mono [OF ok] by (meson le_less_trans)
  note p1 = partition_by_facts [of ?n "\<lambda>r. at_rank st r < ws", OF m1, folded lo]
  have m2: "\<forall>i k. i \<le> k \<longrightarrow> k < ?n - lo \<longrightarrow> at_rank st (lo + k) \<le> we \<longrightarrow> at_rank st (lo + i) \<le> we"
  proof (intro allI impI)
    fix i k assume "i \<le> k" "k < ?n - lo" "at_rank st (lo + k) \<le> we"
    then show "at_rank st (lo + i) \<le> we" using at_rank_mono [OF ok, of "lo + i" "lo + k"] by linarith
  qed
  note p2 = partition_by_facts [of "?n - lo" "\<lambda>r. at_rank st (lo + r) \<le> we", OF m2]
  show "lo \<le> hi" by (simp add: hi)
  show "hi \<le> ?n" using p1(1) p2(1) by (simp add: hi)
  show lt: "r < lo \<longleftrightarrow> at_rank st r < ws" if "r < ?n" for r using p1(2) p1(3) that by (meson not_le)
  show "r < hi \<longleftrightarrow> at_rank st r \<le> we" if r: "r < ?n" for r
  proof (cases "r < lo")
    case True
    then show ?thesis using lt [OF r] le \<open>lo \<le> hi\<close> by simp
  next
    case False
    then have "r - lo < ?n - lo" "lo + (r - lo) = r" using r by simp_all
    then show ?thesis using p2(2) [of "r - lo"] p2(3) [of "r - lo"] False by (simp add: hi) linarith
  qed
qed

definition goal_of :: "anchor_store \<Rightarrow> edit list \<Rightarrow> line_map option \<Rightarrow> region list \<Rightarrow> nat \<Rightarrow> int" where
  "goal_of st es m regs i = fst (slot_target st es m regs i)"

definition gone_of :: "anchor_store \<Rightarrow> edit list \<Rightarrow> line_map option \<Rightarrow> region list \<Rightarrow> nat \<Rightarrow> bool" where
  "gone_of st es m regs i = snd (slot_target st es m regs i)"

lemma slot_target_rank:
  assumes ok: "store_ok st" "\<not> st_stale st" "r < length (st_order st)"
  shows "slot_target st es m regs (st_order st ! r) =
    (if touched regs (at_rank st r)
     then (let (q, gone) = map_anchor (the (sl_anchor (st_slots st ! (st_order st ! r)))) (at_rank st r) es m in (int q, gone))
     else (int (at_rank st r) + left_delta regs (at_rank st r), False))"
proof -
  obtain a where "live st (st_order st ! r) a" "offset_of st a = at_rank st r" using rank_abs [OF ok] by blast
  then show ?thesis by (simp add: slot_target_def target_def live_def Let_def)
qed

lemma plan_moves:
  assumes ok: "store_ok st" "\<not> st_stale st" and le: "ws \<le> we" and mem: "(ws, we, d) \<in> set regs"
    and pl: "plan_region st es m (ws, we, d) = (lo, hi, mvs)"
  shows "moves_ok st (goal_of st es m regs) (gone_of st es m regs) lo hi mvs"
proof -
  note pf = plan_region_facts [OF ok le pl]
  let ?f = "\<lambda>r. let sl = st_order st ! r; a = the (sl_anchor (st_slots st ! sl));
      (to, gone) = map_anchor a (at_rank st r) es m in (to, sl, gone)"
  have mvs: "mvs = sort_key fst (map ?f [lo..<hi])" using pl by (auto simp: plan_region_def Let_def)
  have sl: "mv_slot (?f r) = st_order st ! r" for r by (simp add: Let_def split_beta)
  have "mset (map mv_slot mvs) = mset (map mv_slot (map ?f [lo..<hi]))"
    by (simp only: mvs mset_map mset_sort)
  also have "map mv_slot (map ?f [lo..<hi]) = map ((!) (st_order st)) [lo..<hi]"
    unfolding map_map by (rule map_cong) (auto simp only: comp_def sl)
  finally have slots: "mset (map mv_slot mvs) = mset (map ((!) (st_order st)) [lo..<hi])" .
  have "int (fst v) = goal_of st es m regs (mv_slot v) \<and> snd (snd v) = gone_of st es m regs (mv_slot v)"
    if "v \<in> set mvs" for v
  proof -
    obtain r where r: "lo \<le> r" "r < hi" "v = ?f r" using \<open>v \<in> set mvs\<close> by (auto simp: mvs)
    have rn: "r < length (st_order st)" using r pf(2) by simp
    have "in_region (ws, we, d) (at_rank st r)" using r pf(3) [OF rn] pf(4) [OF rn] by (simp add: in_region_def)
    then have "touched regs (at_rank st r)" using mem by (auto simp: touched_def list_ex_iff)
    then show ?thesis using slot_target_rank [OF ok rn, of es m regs] unfolding r(3) goal_of_def gone_of_def sl
      by (simp add: Let_def split_beta)
  qed
  then show ?thesis using slots by (simp add: moves_ok_def list_all_iff split_beta mvs)
qed

lemma plan_steps:
  assumes ok: "store_ok st" "\<not> st_stale st"
  shows "regs = P @ Q \<Longrightarrow> separated regs \<Longrightarrow> b \<le> length (st_order st) \<Longrightarrow>
    (\<And>r. r < length (st_order st) \<Longrightarrow> r < b \<longleftrightarrow> list_all (\<lambda>q. at_rank st r < fst q) Q) \<Longrightarrow>
    cuts (map (plan_region st es m) P) \<subseteq> K \<Longrightarrow>
    steps_ok st (goal_of st es m regs) (gone_of st es m regs) K b (sum_list (map (\<lambda>(_, _, d). d) P))
      (rev (zip (map (plan_region st es m) P) P))"
proof (induction P arbitrary: Q b rule: rev_induct)
  case Nil
  have "gap_ok st (goal_of st es m regs) (gone_of st es m regs) 0 r" if "r < b" for r
  proof -
    have r: "r < length (st_order st)" using that Nil.prems(3) by simp
    have left: "at_rank st r < ws \<and> ws \<le> we" if "(ws, we, d) \<in> set regs" for ws we d
      using Nil.prems(1,2) Nil.prems(4) [OF r] \<open>r < b\<close> that by (fastforce simp: list_all_iff separated_def)
    from between_regions [of "[]" _ regs, OF _ left] slot_target_rank [OF ok r, of es m regs]
    show ?thesis by (simp add: gap_ok_def goal_of_def gone_of_def)
  qed
  then show ?case by simp
next
  case (snoc rg P)
  obtain ws we d where rg: "rg = (ws, we, d)" by (cases rg)
  have regs: "regs = P @ (ws, we, d) # Q" using snoc.prems(1) by (simp add: rg)
  note sep = separated_sides [OF snoc.prems(2) [unfolded regs]]
  obtain lo hi mvs where pl: "plan_region st es m (ws, we, d) = (lo, hi, mvs)" by (metis prod_cases3)
  note pf = plan_region_facts [OF ok sep(1) pl]
  have all: "list_all (\<lambda>q. at_rank st r < fst q) Q" if "at_rank st r \<le> we" for r
    using sep(3) that by (fastforce simp: list_all_iff)
  have hb: "hi \<le> b"
  proof (rule ccontr)
    assume "\<not> hi \<le> b"
    then have "b < hi" "b < length (st_order st)" using pf(2) by auto
    then show False using pf(4) [of b] all [of b] snoc.prems(4) [of b] by simp
  qed
  have "gap_ok st (goal_of st es m regs) (gone_of st es m regs) (sum_list (map (\<lambda>(_, _, d). d) (P @ [rg]))) r"
    if "hi \<le> r" "r < b" for r
  proof -
    have r: "r < length (st_order st)" using that snoc.prems(3) by simp
    have "we < at_rank st r" using pf(4) [OF r] that(1) by simp
    then have left: "we' < at_rank st r" if "(ws', we', d') \<in> set (P @ [rg])" for ws' we' d'
      using that sep(1) sep(2) [of ws' we' d'] by (auto simp: rg)
    have right: "at_rank st r < ws' \<and> ws' \<le> we'" if "(ws', we', d') \<in> set Q" for ws' we' d'
      using snoc.prems(4) [OF r] \<open>r < b\<close> sep(3) [OF that] that by (fastforce simp: list_all_iff)
    from between_regions [of "P @ [rg]" "at_rank st r" Q, OF left right] slot_target_rank [OF ok r, of es m regs]
    show ?thesis by (simp add: gap_ok_def goal_of_def gone_of_def regs rg)
  qed
  moreover have "moves_ok st (goal_of st es m regs) (gone_of st es m regs) lo hi mvs"
    by (rule plan_moves [OF ok sep(1) _ pl]) (simp add: regs)
  moreover have "lo \<in> K" "hi \<in> K" using snoc.prems(5) by (simp_all add: cuts_def rg pl)
  moreover have "steps_ok st (goal_of st es m regs) (gone_of st es m regs) K lo (sum_list (map (\<lambda>(_, _, d). d) P))
      (rev (zip (map (plan_region st es m) P) P))"
  proof (rule snoc.IH [of "(ws, we, d) # Q"])
    show "cuts (map (plan_region st es m) P) \<subseteq> K" using snoc.prems(5) by (auto simp: cuts_def)
    show "r < lo \<longleftrightarrow> list_all (\<lambda>q. at_rank st r < fst q) ((ws, we, d) # Q)" if "r < length (st_order st)" for r
      using pf(3) [OF that] all [of r] sep(1) by auto
  qed (use snoc.prems pf in \<open>simp_all add: rg\<close>)
  ultimately show ?case using pf(1) hb by (simp add: rg pl)
qed


section \<open>The whole sweep\<close>

lemma stage_start:
  assumes ok: "store_ok st" "\<not> st_stale st"
  shows "stage st F G K (length (st_order st)) L st"
proof -
  have "staged st F G (length (st_order st)) L st r" if r: "r < length (st_order st)" for r
  proof -
    obtain a where "live st (st_order st ! r) a" "an_rank a = Some r" using rank_abs [OF ok r] by metis
    then show ?thesis using r by (auto simp: staged_def Let_def)
  qed
  then show ?thesis using ok by (simp add: stage_def store_ok_def ordered_def)
qed

lemma sweep_stage:
  assumes ok: "store_ok st" "\<not> st_stale st" and sep: "separated regs" and plan: "plan = map (plan_region st es m) regs"
  shows "stage st (goal_of st es m regs) (gone_of st es m regs) (insert 0 (cuts plan)) 0 0
    (write_regions (rev (zip plan regs)) (sum_list (map (\<lambda>(_, _, d). d) regs)) st)"
proof (rule write_regions_stage [OF ok stage_start [OF ok]])
  show "steps_ok st (goal_of st es m regs) (gone_of st es m regs) (cuts plan) (length (st_order st))
      (sum_list (map (\<lambda>(_, _, d). d) regs)) (rev (zip plan regs))"
    unfolding plan by (rule plan_steps [OF ok, of _ regs "[]"]) (simp_all add: sep)
qed

lemma stage_end:
  assumes ok: "store_ok st" "\<not> st_stale st" and s: "stage st F G K 0 0 st'"
    and pos: "\<forall>i a. live st i a \<longrightarrow> 0 \<le> F i"
  shows "live st i a \<Longrightarrow> \<exists>a'. live st' i a' \<and> abs_off st' a' = F i \<and> an_inval a' = (an_inval a \<or> G i) \<and> an_track a' = an_track a"
    "same_ids st st'" "free_ok st'" "ranks_ok st'" "ordered st'" "\<not> st_stale st'"
    "(\<And>r. Suc r < length (st_order st') \<Longrightarrow> Suc r \<in> K \<Longrightarrow> at_rank st' r \<le> at_rank st' (Suc r)) \<Longrightarrow> sorted_ranks st'"
proof -
  let ?n = "length (st_order st)"
  have ids: "same_ids st st'" and ms: "mset (st_order st') = mset (st_order st)" and sh: "length (st_shift st') = ?n"
    and stl: "\<not> st_stale st'" and stg: "\<And>r. r < ?n \<Longrightarrow> staged st F G 0 0 st' r"
    using s ok(2) by (simp_all add: stage_def)
  have len: "length (st_order st') = ?n" by (rule mset_eq_length [OF ms])
  have o: "ordered st" using ok by (simp add: store_ok_def)
  have set': "set (st_order st') = {i. \<exists>a. live st i a}" using mset_eq_setD [OF ms] o by (simp add: ordered_def)
  have at: "\<exists>a a0. live st' (st_order st' ! r) a \<and> an_rank a = Some r \<and> live st (st_order st' ! r) a0 \<and>
      abs_off st' a = F (st_order st' ! r) \<and> an_inval a = (an_inval a0 \<or> G (st_order st' ! r)) \<and> an_track a = an_track a0"
    if "r < ?n" for r
    using stg [OF that] unfolding staged_def Let_def abs_off_def by force
  have idx: "\<exists>r < ?n. st_order st' ! r = i" if "live st i b" for i b
    using that set' len by (metis (mono_tags, lifting) in_set_conv_nth mem_Collect_eq)
  show res: "\<exists>a'. live st' i a' \<and> abs_off st' a' = F i \<and> an_inval a' = (an_inval a \<or> G i) \<and> an_track a' = an_track a"
    if lv: "live st i a" for i a
  proof -
    obtain r where r: "r < ?n" "st_order st' ! r = i" using idx [OF lv] by blast
    obtain a' a0 where a': "live st' i a'" "live st i a0" "abs_off st' a' = F i" "an_inval a' = (an_inval a0 \<or> G i)"
        "an_track a' = an_track a0"
      using at [OF r(1)] unfolding r(2) by blast
    moreover have "a0 = a" by (rule live_unique [OF a'(2) lv])
    ultimately show ?thesis by blast
  qed
  show "same_ids st st'" by (rule ids)
  show "free_ok st'" using same_ids_free_ok [OF ids] ok by (simp add: store_ok_def)
  show "\<not> st_stale st'" by (rule stl)
  show "ordered st'" unfolding ordered_def
  proof (intro conjI allI impI)
    show "distinct (st_order st')" using o mset_eq_imp_distinct_iff [OF ms] by (simp add: ordered_def)
    show "set (st_order st') = {i. \<exists>a. live st' i a}" using set' same_ids_live [OF ids] by simp
    show "length (st_shift st') = length (st_order st')" by (simp add: sh len)
    show "\<exists>a. live st' (st_order st' ! r) a \<and> an_rank a = Some r" if "r < length (st_order st')" for r
      using at [of r] that len by auto
  qed
  show "ranks_ok st'" unfolding ranks_ok_def
  proof (intro allI impI)
    fix i b assume b: "live st' i b"
    then obtain a where a: "live st i a" using same_ids_live [OF ids] by blast
    obtain r where r: "r < ?n" "st_order st' ! r = i" using idx [OF a] by blast
    obtain a' where a': "live st' i a'" "an_rank a' = Some r" "abs_off st' a' = F i"
      using at [OF r(1)] unfolding r(2) by blast
    have "b = a'" by (rule live_unique [OF b a'(1)])
    then show "0 \<le> abs_off st' b \<and> rank_below (length (st_shift st')) b"
      using a' pos [rule_format, OF a] r(1) sh by (simp add: rank_below_def)
  qed
  show "sorted_ranks st'" if cut: "\<And>r. Suc r < length (st_order st') \<Longrightarrow> Suc r \<in> K \<Longrightarrow> at_rank st' r \<le> at_rank st' (Suc r)"
    unfolding sorted_ranks_def
  proof (intro allI impI)
    fix r assume r: "Suc r < length (st_order st')"
    have val: "at_rank st' k = nat (F (st_order st' ! k))" if "k < ?n" for k
      using at [OF that] by (auto simp: at_rank_def live_def abs_off_def)
    show "at_rank st' r \<le> at_rank st' (Suc r)"
    proof (cases "Suc r \<in> K")
      case True
      then show ?thesis by (rule cut [OF r])
    next
      case False
      then have "F (st_order st' ! r) \<le> F (st_order st' ! Suc r)" using s r len by (simp add: stage_def)
      then show ?thesis using val [of r] val [of "Suc r"] r len by simp
    qed
  qed
qed

end
