(* ===== verification/Anchor_Apply.thy ===== *)
theory Anchor_Apply
  imports Anchor_Refine
begin

text \<open>
  What a change does to the anchors, stated against the rules themselves: outside the touched regions a
  position moves by what the edits left of it add, which is what its own rule says, so one sweep of the store
  (\<^verbatim>\<open>AnchorStore::apply\<close>) equals moving every anchor by itself.
\<close>

section \<open>Positions no edit reaches\<close>

lemma framed_shift_nonneg:
  "framed es cur sh len \<Longrightarrow> cur \<le> p \<Longrightarrow> \<forall>e \<in> set es. edit_end e \<le> p \<Longrightarrow> 0 \<le> int p + sh + sum_list (map delta es)"
proof (induction es arbitrary: cur sh)
  case (Cons e es)
  note f = framed_step [OF Cons.prems(1)]
  from Cons.IH [OF f(3)] Cons.prems(3) show ?case by (simp add: algebra_simps)
qed simp

lemma map_byte_untouched:
  assumes f: "from_ok es 0 len" and u: "line_untouched es p p"
  shows "map_byte_inside es p bi = (nat (int p + delta_before es p), False)" "0 \<le> int p + delta_before es p"
proof -
  let ?A = "takeWhile (\<lambda>e. edit_end e < p) es" and ?B = "dropWhile (\<lambda>e. edit_end e < p) es"
  have ab: "framed (?A @ ?B) 0 0 len" using f by simp
  have A: "\<forall>e \<in> set ?A. edit_end e < p" by (auto dest: set_takeWhileD)
  have "framed ?A 0 0 len" using from_ok_append [of ?A ?B 0 len] f by simp
  from framed_shift_nonneg [OF this, of p] A show "0 \<le> int p + delta_before es p"
    by (auto simp: delta_before_def intro: less_imp_le)
  have "map_byte_inside es p bi = sequential (?A @ ?B) 0 p False bi" using map_byte_inside_sequential [OF f] by simp
  also have "\<dots> = sequential ?B (delta_before es p) (nat (int p + delta_before es p)) False bi"
    using sequential_right [OF ab A, of False bi] by (simp add: delta_before_def)
  also have "\<dots> = (nat (int p + delta_before es p), False)"
  proof (cases ?B)
    case (Cons e B)
    obtain c where c: "framed ?B c (delta_before es p) len" using framed_append [OF ab] by (auto simp: delta_before_def)
    have "p < epos e" using edits_after [OF f u] Cons by simp
    moreover have "framed ?B (epos e) (delta_before es p) len" using c unfolding Cons by (auto simp: from_ok_Cons)
    ultimately show ?thesis using sequential_left [of ?B "epos e"] \<open>0 \<le> int p + delta_before es p\<close> by simp
  qed (simp del: dropWhile_eq_Nil_conv)
  finally show "map_byte_inside es p bi = (nat (int p + delta_before es p), False)" .
qed

lemma line_start_after_newline:
  assumes "j < p" "p \<le> length bs" "bs ! j = newline"
  shows "j < line_start bs p"
proof (cases rule: line_start_cases [of bs p])
  case first
  have "bs ! j \<in> set (take p bs)" using assms by (auto simp: in_set_conv_nth intro!: exI [of _ j])
  then show ?thesis using first assms(3) by simp
next
  case (after i)
  then show ?thesis using assms by (metis less_Suc_eq_le linorder_not_le order_less_le_trans)
qed

lemma line_start_mono: "p \<le> q \<Longrightarrow> q \<le> length bs \<Longrightarrow> line_start bs p \<le> line_start bs q"
proof (cases rule: line_start_cases [of bs p])
  case (after i)
  assume "p \<le> q" "q \<le> length bs"
  then show ?thesis using line_start_after_newline [of i q bs] after by simp
qed simp

lemma line_end_before:
  assumes "p < line_start bs q"
  shows "line_end bs p < line_start bs q"
proof (cases rule: line_start_cases [of bs q])
  case first
  then show ?thesis using assms by simp
next
  case (after i)
  show ?thesis
  proof (rule ccontr)
    assume "\<not> ?thesis"
    then have i: "i < line_end bs p" "p \<le> i" using after assms by auto
    have "drop p bs ! (i - p) = bs ! i" "i - p < length (drop p bs)" using i(2) after(3) by simp_all
    then have "bs ! i \<in> set (drop p bs)" by (metis nth_mem)
    moreover have "bs ! i \<noteq> newline" if "\<forall>j. p \<le> j \<longrightarrow> j < line_end bs p \<longrightarrow> bs ! j \<noteq> newline" using that i by blast
    ultimately show False using after(4) by (cases rule: line_end_cases [of bs p]) auto
  qed
qed

text \<open>A line map of the change being applied, or none.\<close>

definition map_for :: "bytes \<Rightarrow> edit list \<Rightarrow> line_map option \<Rightarrow> bool" where
  "map_for old es m \<longleftrightarrow> m = None \<or> m = Some (line_map_new old (apply_to es old) es)"

lemma region_of_around:
  assumes "map_for old es m" "edit_end e \<le> length old"
  shows "fst (region_of m e) \<le> epos e" "edit_end e \<le> snd (region_of m e)" "fst (region_of m e) \<le> snd (region_of m e)"
proof -
  have pe: "epos e \<le> edit_end e" by (simp add: edit_end_def)
  show a: "fst (region_of m e) \<le> epos e"
    using line_start_le [of old "epos e"] line_start_le [of old "line_start old (epos e) - 1"] assms(1)
    by (auto simp: region_of_def map_for_def line_map_new_def Let_def)
  show b: "edit_end e \<le> snd (region_of m e)"
    using line_end_bounds(1) [of "edit_end e" old] line_end_bounds(2) [of old "edit_end e"]
      line_end_bounds(1) [of "line_end old (edit_end e) + 1" old] assms
    by (auto simp: region_of_def map_for_def line_map_new_def Let_def)
  show "fst (region_of m e) \<le> snd (region_of m e)" using a b pe by linarith
qed

lemma region_of_sorted:
  assumes "map_for old es m" "from_ok es 0 (length old)"
  shows "sorted_wrt (\<lambda>a b. fst (region_of m a) \<le> fst (region_of m b)) es"
proof -
  have fst_mono: "fst (region_of m a) \<le> fst (region_of m b)" if "epos a < epos b" "epos b \<le> length old" for a b
  proof -
    have "line_start old (epos a) \<le> line_start old (epos b)" by (rule line_start_mono) (use that in simp_all)
    moreover have "line_start old (epos b) \<le> length old" using line_start_le [of old "epos b"] by simp
    ultimately have "line_start old (line_start old (epos a) - 1) \<le> line_start old (line_start old (epos b) - 1)"
      by (intro line_start_mono) simp_all
    then show ?thesis using assms(1) that by (auto simp: region_of_def map_for_def line_map_new_def Let_def)
  qed
  have "\<forall>e \<in> set es. epos e \<le> length old" using assms(2) by (auto simp: from_ok_def edit_end_def)
  moreover have "sorted_wrt (\<lambda>a b. edit_end a \<le> epos b \<and> epos a < epos b) es" using assms(2) by (simp add: from_ok_def)
  ultimately show ?thesis using fst_mono by (auto simp: sorted_wrt_iff_nth_less)
qed


section \<open>Outside the regions\<close>

lemma delta_before_sum:
  assumes f: "from_ok es 0 len" and u: "line_untouched es p p"
    and P: "\<And>e. e \<in> set es \<Longrightarrow> P e \<longleftrightarrow> edit_end e < p"
  shows "sum_list (map (\<lambda>e. if P e then delta e else 0) es) = delta_before es p"
proof -
  let ?A = "takeWhile (\<lambda>e. edit_end e < p) es" and ?B = "dropWhile (\<lambda>e. edit_end e < p) es"
  have "map (\<lambda>e. if P e then delta e else 0) ?A = map delta ?A"
    using P by (auto dest: set_takeWhileD)
  then have "sum_list (map (\<lambda>e. if P e then delta e else 0) ?A) = delta_before es p" by (simp only: delta_before_def)
  moreover have "\<not> P e" if "e \<in> set ?B" for e
  proof -
    have "p < epos e" using edits_after [OF f u] that by blast
    then show ?thesis using P [OF set_dropWhileD [OF that]] by (simp add: edit_end_def)
  qed
  then have "map (\<lambda>e. if P e then delta e else 0) ?B = map (\<lambda>_. 0) ?B" by simp
  then have "sum_list (map (\<lambda>e. if P e then delta e else 0) ?B) = 0" by (simp only: sum_list_0)
  moreover have "sum_list (map (\<lambda>e. if P e then delta e else 0) (?A @ ?B)) =
      sum_list (map (\<lambda>e. if P e then delta e else 0) ?A) + sum_list (map (\<lambda>e. if P e then delta e else 0) ?B)"
    by (simp only: map_append sum_list_append)
  ultimately show ?thesis by simp
qed

lemma outside_regions:
  assumes v: "edits_valid es old" and m: "map_for old es m" and out: "\<not> touched (build_regions m es) p"
  shows "line_untouched es p p" "left_delta (build_regions m es) p = delta_before es p"
    "list_all (\<lambda>e. snd (region_of m e) < p \<or> p < fst (region_of m e)) es"
proof -
  have f: "from_ok es 0 (length old)" using v by (simp add: edits_valid_def from_okI)
  have around: "edit_end e \<le> length old" if "e \<in> set es" for e using f that by (simp add: from_ok_def)
  have "regions_inv m es (build_regions m es)"
    by (rule build_regions_inv) (use region_of_around(3) [OF m around] region_of_sorted [OF m f] in simp_all)
  then have ld: "left_delta (build_regions m es) p = sum_list (map (\<lambda>e. if snd (region_of m e) < p then delta e else 0) es)"
    and all: "list_all (\<lambda>e. snd (region_of m e) < p \<or> p < fst (region_of m e)) es"
    using out by (simp_all add: regions_inv_def)
  show "list_all (\<lambda>e. snd (region_of m e) < p \<or> p < fst (region_of m e)) es" by (rule all)
  have side: "(snd (region_of m e) < p \<longleftrightarrow> edit_end e < p) \<and> (edit_end e < p \<or> p < epos e)" if "e \<in> set es" for e
    using all that region_of_around [OF m around [OF that]] by (fastforce simp: list_all_iff edit_end_def)
  then show u: "line_untouched es p p" by (simp add: line_untouched_def list_all_iff)
  show "left_delta (build_regions m es) p = delta_before es p"
    unfolding ld by (rule delta_before_sum [OF f u]) (use side in blast)
qed

lemma line_outside_regions:
  assumes v: "edits_valid es old" and p: "p \<le> length old"
    and all: "list_all (\<lambda>e. snd (region_of (Some (line_map_new old new es)) e) < p \<or>
      p < fst (region_of (Some (line_map_new old new es)) e)) es"
  shows "line_untouched es (line_start old p) (line_end old p)" "delta_before es (line_start old p) = delta_before es p"
proof -
  let ?m = "Some (line_map_new old new es)"
  have side: "edit_end e < line_start old p \<or> line_end old p < epos e" if e: "e \<in> set es" for e
  proof -
    have b: "edit_end e \<le> length old" using v e by (auto simp: edits_valid_def in_bounds_def)
    let ?le = "line_end old (edit_end e)" and ?ls = "line_start old (epos e)"
    let ?we = "line_end old (?le + 1)" and ?ws = "line_start old (?ls - 1)"
    have "?we < p \<or> p < ?ws" using all e by (auto simp: list_all_iff region_of_def line_map_new_def Let_def)
    then show ?thesis
    proof
      assume we: "?we < p"
      then have "old ! ?we = newline" using p by (cases rule: line_end_cases [of old "?le + 1"]) auto
      then have "?we < line_start old p" using line_start_after_newline [OF we p] by simp
      moreover have "edit_end e \<le> ?le" using line_end_bounds(1) [of "edit_end e" old] b by simp
      moreover have "min (?le + 1) (length old) \<le> ?we" by (rule line_end_bounds(1))
      ultimately show ?thesis using line_end_bounds(2) [of old "edit_end e"] we p by linarith
    next
      assume "p < ?ws"
      then have "line_end old p < ?ws" by (rule line_end_before)
      moreover have "?ws \<le> epos e" using line_start_le [of old "?ls - 1"] line_start_le [of old "epos e"] by linarith
      ultimately show ?thesis by simp
    qed
  qed
  then show u: "line_untouched es (line_start old p) (line_end old p)" by (simp add: line_untouched_def list_all_iff)
  have "edit_end e < line_start old p \<longleftrightarrow> edit_end e < p" if "e \<in> set es" for e
    using side [OF that] line_start_le [of old p] line_end_bounds(1) [of p old] p by (fastforce simp: edit_end_def)
  then have "takeWhile (\<lambda>e. edit_end e < line_start old p) es = takeWhile (\<lambda>e. edit_end e < p) es"
    by (intro takeWhile_cong) simp_all
  then show "delta_before es (line_start old p) = delta_before es p" by (simp add: delta_before_def)
qed

text \<open>A line anchor stands at a character boundary of the text; a byte anchor may stand anywhere.\<close>

definition anchor_on :: "bytes \<Rightarrow> anchor \<Rightarrow> nat \<Rightarrow> bool" where
  "anchor_on old a p \<longleftrightarrow> (case an_track a of Line _ \<Rightarrow> p \<le> length old \<and> is_boundary old p | Byte _ \<Rightarrow> True)"

lemma map_anchor_outside:
  assumes v: "edits_valid es old" and m: "map_for old es m" and out: "\<not> touched (build_regions m es) p"
    and on: "m \<noteq> None \<longrightarrow> anchor_on old a p"
  shows "map_anchor a p es m = (nat (int p + left_delta (build_regions m es) p), False)"
    "0 \<le> int p + left_delta (build_regions m es) p"
proof -
  have f: "from_ok es 0 (length old)" using v by (simp add: edits_valid_def from_okI)
  note o = outside_regions [OF v m out]
  note u = map_byte_untouched [OF f o(1)]
  show "0 \<le> int p + left_delta (build_regions m es) p" using u(2) by (simp add: o(2))
  show "map_anchor a p es m = (nat (int p + left_delta (build_regions m es) p), False)"
  proof (cases "an_track a")
    case (Byte bi)
    then show ?thesis using u(1) by (simp add: map_anchor_def o(2))
  next
    case (Line g)
    show ?thesis
    proof (cases m)
      case None
      then show ?thesis using Line u(1) o(2) by (simp add: map_anchor_def)
    next
      case (Some lm)
      then have lm: "lm = line_map_new old (apply_to es old) es" using m by (simp add: map_for_def)
      have p: "p \<le> length old" "is_boundary old p" using on Some Line by (simp_all add: anchor_on_def)
      note lo = line_outside_regions [OF v p(1) o(3) [unfolded Some lm]]
      have "map_offset lm p g = Some (nat (int p + delta_before es p))" for g
        using map_offset_untouched [OF v p lo(1) lm, of g] by (simp add: lo(2))
      then show ?thesis using Some Line o(2) by (simp add: map_anchor_def)
    qed
  qed
qed


section \<open>One sweep moves every anchor by its rule\<close>

definition anchors_on :: "bytes \<Rightarrow> anchor_store \<Rightarrow> bool" where
  "anchors_on old st \<longleftrightarrow> (\<forall>i a. live st i a \<longrightarrow> anchor_on old a (offset_of st a))"

definition sweep :: "anchor_store \<Rightarrow> edit list \<Rightarrow> line_map option \<Rightarrow> anchor_store" where
  "sweep st es m =
     (let regions = build_regions m es;
          n = length (st_order st);
          plan = map (plan_region st es m) regions;
          total = sum_list (map (\<lambda>(_, _, d). d) regions);
          st1 = write_regions (rev (zip plan regions)) total st;
          inverted = (\<lambda>r. 0 < r \<and> r < n \<and> at_rank st1 r < at_rank st1 (r - 1))
      in if list_ex (\<lambda>(lo, hi, _). inverted lo \<or> inverted hi) plan
         then st1\<lparr>st_stale := True\<rparr> else st1)"

lemma store_apply_sweep:
  "store_apply st es m =
     (if es = [] \<or> store_is_empty st then st else sweep (if st_stale st then normalize st else st) es m)"
  by (simp add: store_apply_def sweep_def Let_def)

lemma sweep_facts:
  assumes ok: "store_ok st" "\<not> st_stale st" and v: "edits_valid es old" and m: "map_for old es m"
    and on: "m \<noteq> None \<longrightarrow> anchors_on old st"
  shows "store_ok (sweep st es m)" "same_ids st (sweep st es m)"
    "live st i a \<Longrightarrow> \<exists>a'. live (sweep st es m) i a' \<and>
       offset_of (sweep st es m) a' = fst (map_anchor a (offset_of st a) es m) \<and>
       an_inval a' = (an_inval a \<or> snd (map_anchor a (offset_of st a) es m)) \<and> an_track a' = an_track a"
proof -
  let ?regs = "build_regions m es"
  define plan where "plan = map (plan_region st es m) ?regs"
  define st1 where "st1 = write_regions (rev (zip plan ?regs)) (sum_list (map (\<lambda>(_, _, d). d) ?regs)) st"
  define inv where "inv = (\<lambda>r. 0 < r \<and> r < length (st_order st) \<and> at_rank st1 r < at_rank st1 (r - 1))"
  have sw: "sweep st es m = (if list_ex (\<lambda>(lo, hi, _). inv lo \<or> inv hi) plan then st1\<lparr>st_stale := True\<rparr> else st1)"
    by (simp add: sweep_def Let_def plan_def st1_def inv_def)
  have f: "from_ok es 0 (length old)" using v by (simp add: edits_valid_def from_okI)
  have "edit_end e \<le> length old" if "e \<in> set es" for e using f that by (simp add: from_ok_def)
  then have "regions_inv m es ?regs"
    by (intro build_regions_inv) (use region_of_around(3) [OF m] region_of_sorted [OF m f] in simp_all)
  then have sep: "separated ?regs" by (simp add: regions_inv_def)
  have tgt: "goal_of st es m ?regs i = int (fst (map_anchor a (offset_of st a) es m))"
    "gone_of st es m ?regs i = snd (map_anchor a (offset_of st a) es m)" if lv: "live st i a" for i a
  proof -
    have an: "the (sl_anchor (st_slots st ! i)) = a" using lv by (simp add: live_def)
    have "m \<noteq> None \<longrightarrow> anchor_on old a (offset_of st a)" using on lv by (auto simp: anchors_on_def)
    note out = map_anchor_outside [OF v m _ this]
    show "goal_of st es m ?regs i = int (fst (map_anchor a (offset_of st a) es m))"
      "gone_of st es m ?regs i = snd (map_anchor a (offset_of st a) es m)"
      using out by (auto simp: goal_of_def gone_of_def slot_target_def target_def an Let_def split_beta)
  qed
  note stg = sweep_stage [OF ok sep plan_def, folded st1_def]
  have pos: "\<forall>i a. live st i a \<longrightarrow> 0 \<le> goal_of st es m ?regs i" using tgt(1) by simp
  note fin = stage_end [OF ok stg pos]
  have len: "length (st_order st1) = length (st_order st)"
    using stg unfolding stage_def by (metis size_mset)
  have srt: "sorted_ranks st1" if no: "\<not> list_ex (\<lambda>(lo, hi, _). inv lo \<or> inv hi) plan"
  proof (rule fin(7))
    fix r assume r: "Suc r < length (st_order st1)" "Suc r \<in> insert 0 (cuts plan)"
    then have "Suc r \<in> cuts plan" by simp
    then have "\<not> inv (Suc r)" using no by (auto simp: cuts_def list_ex_iff)
    then show "at_rank st1 r \<le> at_rank st1 (Suc r)" using r(1) len by (simp add: inv_def)
  qed
  have lv': "live (st1\<lparr>st_stale := b\<rparr>) j c = live st1 j c" "abs_off (st1\<lparr>st_stale := b\<rparr>) c = abs_off st1 c" for b j c
    by (simp add: live_def, rule abs_off_cong, simp)
  show "store_ok (sweep st es m)"
    using fin(3,4,5) srt by (simp add: sw store_ok_def free_ok_def ranks_ok_def lv')
  show "same_ids st (sweep st es m)" using fin(2) by (simp add: sw)
  show "\<exists>a'. live (sweep st es m) i a' \<and>
       offset_of (sweep st es m) a' = fst (map_anchor a (offset_of st a) es m) \<and>
       an_inval a' = (an_inval a \<or> snd (map_anchor a (offset_of st a) es m)) \<and> an_track a' = an_track a"
    if lia: "live st i a"
  proof -
    obtain a' where a': "live st1 i a'" "abs_off st1 a' = goal_of st es m ?regs i"
      "an_inval a' = (an_inval a \<or> gone_of st es m ?regs i)" "an_track a' = an_track a" using fin(1) [OF lia] by blast
    have "live (sweep st es m) i a'" "abs_off (sweep st es m) a' = abs_off st1 a'" using a'(1) by (simp_all add: sw lv')
    then show ?thesis using a' tgt [OF lia] by (intro exI [of _ a']) (simp add: offset_of_abs)
  qed
qed

text \<open>The reference: every anchor moved by itself.\<close>

definition carry :: "anchor_store \<Rightarrow> edit list \<Rightarrow> line_map option \<Rightarrow> anchor_id \<Rightarrow> resolved option" where
  "carry st es m i =
     map_option (\<lambda>a. let (q, gone) = map_anchor a (offset_of st a) es m in \<lparr>rs_off = q, rs_inval = an_inval a \<or> gone\<rparr>)
       (anchor_get st i)"

lemma carry_live:
  assumes ids: "same_ids st st'"
    and lv: "\<And>i a. live st i a \<Longrightarrow> \<exists>a'. live st' i a' \<and> f a' = g a"
  shows "map_option f (anchor_get st' i) = map_option g (anchor_get st i)"
proof (cases "anchor_get st i")
  case None
  then have "anchor_get st' i = None" using ids
    by (auto simp: anchor_get_def get_at_def same_ids_def split: if_splits)
  then show ?thesis using None by simp
next
  case (Some a)
  then have l: "live st (id_slot i) a" "sl_gen (st_slots st ! id_slot i) = id_gen i" by (simp_all add: anchor_get_live)
  then obtain a' where "live st' (id_slot i) a'" "f a' = g a" using lv by blast
  moreover have "sl_gen (st_slots st' ! id_slot i) = id_gen i" using ids l(2) by (simp add: same_ids_def)
  ultimately show ?thesis using Some by (metis anchor_get_live option.simps(9))
qed

lemma empty_store_none:
  assumes "store_ok st" "store_is_empty st"
  shows "\<not> live st i a"
proof
  assume l: "live st i a"
  have f: "distinct (st_free st)" "set (st_free st) = {j. j < length (st_slots st) \<and> sl_anchor (st_slots st ! j) = None}"
    using assms(1) by (simp_all add: store_ok_def free_ok_def)
  have "i \<notin> set (st_free st)" unfolding f(2) using l by (simp add: live_def)
  moreover have "set (st_free st) \<subseteq> {..<length (st_slots st)}" unfolding f(2) by auto
  ultimately have "set (st_free st) \<subseteq> {..<length (st_slots st)} - {i}" by blast
  then have "card (set (st_free st)) \<le> length (st_slots st) - 1"
    using card_mono [of "{..<length (st_slots st)} - {i}"] l by (simp add: live_def)
  then have "length (st_free st) \<le> length (st_slots st) - 1" using distinct_card [OF f(1)] by simp
  moreover have "length (st_slots st) \<le> length (st_free st)" using assms(2) by (simp add: store_is_empty_def store_len_def)
  moreover have "0 < length (st_slots st)" using l by (auto simp: live_def)
  ultimately show False by linarith
qed

lemma map_anchor_cong [simp]: "map_anchor (a\<lparr>an_off := x, an_rank := r\<rparr>) p es m = map_anchor a p es m"
  by (simp add: map_anchor_def cong: track.case_cong option.case_cong)

lemma normalize_carry:
  assumes ok: "store_ok st"
  shows "carry (normalize st) es m i = carry st es m i" "anchors_on old st \<Longrightarrow> anchors_on old (normalize st)"
proof -
  note nf = normalize_facts [OF ok refl]
  show "carry (normalize st) es m i = carry st es m i" unfolding carry_def
  proof (rule carry_live [OF nf(3)])
    fix j a assume "live st j a"
    from nf(4) [OF this] obtain r where
      "live (normalize st) j (a\<lparr>an_off := int (offset_of st a), an_rank := Some r\<rparr>)"
      "offset_of (normalize st) (a\<lparr>an_off := int (offset_of st a), an_rank := Some r\<rparr>) = offset_of st a" by blast
    then show "\<exists>a'. live (normalize st) j a' \<and>
        (let (q, gone) = map_anchor a' (offset_of (normalize st) a') es m in \<lparr>rs_off = q, rs_inval = an_inval a' \<or> gone\<rparr>) =
        (let (q, gone) = map_anchor a (offset_of st a) es m in \<lparr>rs_off = q, rs_inval = an_inval a \<or> gone\<rparr>)"
      by (intro exI [of _ "a\<lparr>an_off := int (offset_of st a), an_rank := Some r\<rparr>"]) (simp add: map_anchor_cong)
  qed
  show "anchors_on old (normalize st)" if on: "anchors_on old st" unfolding anchors_on_def
  proof (intro allI impI)
    fix j b assume b: "live (normalize st) j b"
    then obtain a where a: "live st j a" using same_ids_live [OF nf(3)] by blast
    from nf(4) [OF this] obtain r where
      r: "live (normalize st) j (a\<lparr>an_off := int (offset_of st a), an_rank := Some r\<rparr>)"
      "offset_of (normalize st) (a\<lparr>an_off := int (offset_of st a), an_rank := Some r\<rparr>) = offset_of st a" by blast
    have "b = a\<lparr>an_off := int (offset_of st a), an_rank := Some r\<rparr>" by (rule live_unique [OF b r(1)])
    then show "anchor_on old b (offset_of (normalize st) b)" using on a r(2) by (simp add: anchors_on_def anchor_on_def)
  qed
qed


lemma store_apply_facts:
  assumes ok: "store_ok st" and v: "edits_valid es old" and m: "map_for old es m" and on: "m \<noteq> None \<longrightarrow> anchors_on old st"
  shows "store_ok (store_apply st es m)" "try_resolve (store_apply st es m) i = carry st es m i"
    "same_ids st (store_apply st es m)"
proof -
  let ?st' = "if st_stale st then normalize st else st"
  have *: "store_ok (store_apply st es m) \<and> try_resolve (store_apply st es m) i = carry st es m i \<and>
      same_ids st (store_apply st es m)"
  proof (cases "es = [] \<or> store_is_empty st")
    case True
    then have same: "store_apply st es m = st" by (auto simp: store_apply_sweep)
    have "\<lparr>rs_off = offset_of st a, rs_inval = an_inval a\<rparr> =
        (let (q, gone) = map_anchor a (offset_of st a) es m in \<lparr>rs_off = q, rs_inval = an_inval a \<or> gone\<rparr>)"
      if lv: "live st j a" for j a
    proof -
      have "es = []" using True empty_store_none [OF ok _] lv by blast
      then have "\<not> touched (build_regions m es) (offset_of st a)" "left_delta (build_regions m es) (offset_of st a) = 0"
        by (simp_all add: build_regions_def)
      moreover have "m \<noteq> None \<longrightarrow> anchor_on old a (offset_of st a)" using on lv by (auto simp: anchors_on_def)
      ultimately show ?thesis using map_anchor_outside(1) [OF v m] by simp
    qed
    then have "try_resolve st i = carry st es m i" unfolding try_resolve_def carry_def
      by (intro carry_live) auto
    then show ?thesis using same ok by simp
  next
    case False
    note nf = normalize_facts [OF ok refl]
    have ok': "store_ok ?st'" "\<not> st_stale ?st'" "same_ids st ?st'" and on': "m \<noteq> None \<longrightarrow> anchors_on old ?st'"
      and cr: "carry ?st' es m i = carry st es m i"
      using nf(1,2,3) ok on normalize_carry [OF ok] by auto
    note sf = sweep_facts [OF ok'(1,2) v m on']
    have "try_resolve (sweep ?st' es m) i = carry ?st' es m i" unfolding try_resolve_def carry_def
    proof (rule carry_live [OF sf(2)])
      fix j a assume "live ?st' j a"
      from sf(3) [OF this] show "\<exists>a'. live (sweep ?st' es m) j a' \<and>
          \<lparr>rs_off = offset_of (sweep ?st' es m) a', rs_inval = an_inval a'\<rparr> =
          (let (q, gone) = map_anchor a (offset_of ?st' a) es m in \<lparr>rs_off = q, rs_inval = an_inval a \<or> gone\<rparr>)"
        by (auto simp: split_beta Let_def)
    qed
    then show ?thesis using False sf(1) same_ids_trans [OF ok'(3) sf(2)] cr by (simp only: store_apply_sweep) simp
  qed
  then show "store_ok (store_apply st es m)" "try_resolve (store_apply st es m) i = carry st es m i"
    "same_ids st (store_apply st es m)" by blast+
qed

text \<open>An anchor keeps its kind: each one afterwards is one from before, moved by its rule.\<close>

lemma store_apply_track:
  assumes ok: "store_ok st" and v: "edits_valid es old" and m: "map_for old es m" and on: "m \<noteq> None \<longrightarrow> anchors_on old st"
    and a': "live (store_apply st es m) i a'"
  shows "\<exists>a. live st i a \<and> an_track a = an_track a' \<and>
    offset_of (store_apply st es m) a' = fst (map_anchor a (offset_of st a) es m)"
proof -
  obtain a where a: "live st i a" using same_ids_live [OF store_apply_facts(3) [OF ok v m on]] a' by blast
  let ?id = "\<lparr>id_slot = i, id_gen = sl_gen (st_slots st ! i)\<rparr>"
  have "sl_gen (st_slots (store_apply st es m) ! i) = sl_gen (st_slots st ! i)"
    using store_apply_facts(3) [OF ok v m on] by (simp add: same_ids_def)
  then have g: "anchor_get st ?id = Some a" "anchor_get (store_apply st es m) ?id = Some a'"
    using a a' by (simp_all add: anchor_get_live)
  have off: "offset_of (store_apply st es m) a' = fst (map_anchor a (offset_of st a) es m)"
    using store_apply_facts(2) [OF ok v m on, of ?id] g by (simp add: try_resolve_def carry_def split_beta Let_def)
  have "an_track a' = an_track a"
  proof (cases "es = [] \<or> store_is_empty st")
    case True
    then show ?thesis using a a' live_unique by (auto simp: store_apply_sweep)
  next
    case False
    let ?st' = "if st_stale st then normalize st else st"
    note nf = normalize_facts [OF ok refl]
    have ok': "store_ok ?st'" "\<not> st_stale ?st'" and on': "m \<noteq> None \<longrightarrow> anchors_on old ?st'"
      using nf(1,2) ok on normalize_carry(2) [OF ok] by auto
    obtain b where b: "live ?st' i b" "an_track b = an_track a"
      using nf(4) [OF a] a by (cases "st_stale st") fastforce+
    have "store_apply st es m = sweep ?st' es m" using False by (simp only: store_apply_sweep) simp
    then have "live (sweep ?st' es m) i a'" using a' by simp
    with sweep_facts(3) [OF ok' v m on' b(1)] b(2) live_unique show ?thesis by metis
  qed
  with a off show ?thesis by auto
qed

section \<open>Bounds\<close>

definition within :: "anchor_store \<Rightarrow> nat \<Rightarrow> bool" where
  "within st n \<longleftrightarrow> (\<forall>i a. live st i a \<longrightarrow> offset_of st a \<le> n)"

lemma map_anchor_bound:
  assumes "edits_valid es old" "map_for old es m" "p \<le> length old"
  shows "fst (map_anchor a p es m) \<le> length (apply_to es old)"
proof -
  have b: "fst (map_byte_inside es p bi) \<le> length (apply_to es old)" for bi
    using map_byte_bound [OF assms(1,3)] by (simp add: map_byte_def)
  have l: "map_offset lm p g = Some q \<Longrightarrow> q \<le> length (apply_to es old)" if "m = Some lm" for lm g q
    using map_offset_range [of lm p g q] assms(2) that by (auto simp: map_for_def line_map_new_def)
  have "map_offset lm p Keep \<noteq> None" for lm using map_offset_drops by blast
  then show ?thesis using b l by (auto simp: map_anchor_def split_beta Let_def split: track.splits option.splits)
qed

lemma within_resolve: "within st n \<longleftrightarrow> (\<forall>i r. try_resolve st i = Some r \<longrightarrow> rs_off r \<le> n)"
proof
  assume "within st n"
  then show "\<forall>i r. try_resolve st i = Some r \<longrightarrow> rs_off r \<le> n"
    by (auto simp: try_resolve_def within_def anchor_get_live)
next
  assume r: "\<forall>i r. try_resolve st i = Some r \<longrightarrow> rs_off r \<le> n"
  show "within st n" unfolding within_def
  proof (intro allI impI)
    fix i a assume "live st i a"
    then have "anchor_get st \<lparr>id_slot = i, id_gen = sl_gen (st_slots st ! i)\<rparr> = Some a" by (simp add: anchor_get_live)
    then show "offset_of st a \<le> n" using r by (force simp: try_resolve_def)
  qed
qed

lemma store_apply_within:
  assumes "store_ok st" "edits_valid es old" "map_for old es m" "m \<noteq> None \<longrightarrow> anchors_on old st" "within st (length old)"
  shows "within (store_apply st es m) (length (apply_to es old))"
  unfolding within_resolve
proof (intro allI impI)
  fix i r assume "try_resolve (store_apply st es m) i = Some r"
  then obtain a where a: "anchor_get st i = Some a" "r = (let (q, gone) = map_anchor a (offset_of st a) es m in
      \<lparr>rs_off = q, rs_inval = an_inval a \<or> gone\<rparr>)"
    using store_apply_facts(2) [OF assms(1-4)] by (auto simp: carry_def)
  then have "offset_of st a \<le> length old" using assms(5) by (auto simp: within_def anchor_get_live)
  from map_anchor_bound [OF assms(2,3) this, of a] a(2) show "rs_off r \<le> length (apply_to es old)"
    by (simp add: split_beta Let_def)
qed

lemma store_ok_asserts:
  assumes "store_ok st" "within st n"
  shows "store_assert_invariants st n"
proof -
  have f: "distinct (st_free st)" "set (st_free st) = {j. j < length (st_slots st) \<and> sl_anchor (st_slots st ! j) = None}"
    using assms(1) by (simp_all add: store_ok_def free_ok_def)
  have "length (filter (\<lambda>s. sl_anchor s = None) (st_slots st)) = card {j. j < length (st_slots st) \<and> sl_anchor (st_slots st ! j) = None}"
    by (rule length_filter_conv_card)
  also have "\<dots> = length (st_free st)" using distinct_card [OF f(1)] by (simp only: f(2))
  finally have cnt: "length (filter (\<lambda>s. sl_anchor s = None) (st_slots st)) = length (st_free st)" .
  have fr: "list_all (\<lambda>f. f < length (st_slots st) \<and> sl_anchor (st_slots st ! f) = None) (st_free st)"
    unfolding list_all_iff f(2) by simp
  have bnd: "list_all (\<lambda>s. case sl_anchor s of None \<Rightarrow> True | Some a \<Rightarrow> offset_of st a \<le> n) (st_slots st)"
    using assms(2) by (auto simp: within_def live_def list_all_length split: option.split)
  have "order_invariants st" if "\<not> st_stale st"
  proof -
    have o: "ordered st" "sorted_ranks st" using assms(1) that by (simp_all add: store_ok_def)
    have "length (st_order st) = card {i. \<exists>a. live st i a}"
      using o(1) distinct_card [of "st_order st"] by (simp add: ordered_def)
    also have "{i. \<exists>a. live st i a} = {..<length (st_slots st)} - set (st_free st)" unfolding f(2) live_def by auto
    also have "card \<dots> = length (st_slots st) - length (st_free st)"
      using distinct_card [OF f(1)] f(2) by (subst card_Diff_subset) auto
    finally have len: "length (st_order st) = store_len st" by (simp add: store_len_def)
    have "at_rank st (r - 1) \<le> at_rank st r" if "r < length (st_order st)" "0 < r" for r
      using o(2) that by (cases r) (auto simp: sorted_ranks_def)
    then show ?thesis using o(1) len by (auto simp: order_invariants_def ordered_def list_all_iff live_def Let_def)
  qed
  then show ?thesis using f(1) fr cnt bnd by (simp add: store_assert_invariants_def)
qed


section \<open>A handle after its removal\<close>

text \<open>
  What may happen to a store after an anchor of the slot \<open>sl\<close> was removed: any anchors put in, any removed, any changes
  carried; \<open>n\<close> counts the later removals of anchors in that slot, each of which moves its 32-bit generation on by one.
\<close>

inductive anchor_steps :: "nat \<Rightarrow> anchor_store \<Rightarrow> nat \<Rightarrow> anchor_store \<Rightarrow> bool" for sl st where
  steps_here: "anchor_steps sl st 0 st"
| steps_insert: "anchor_steps sl st n st1 \<Longrightarrow> anchor_steps sl st n (snd (insert_tracked st1 off tr po))"
| steps_remove: "anchor_steps sl st n st1 \<Longrightarrow> anchor_remove st1 k = (b, st2) \<Longrightarrow>
    anchor_steps sl st (if b \<and> id_slot k = sl then n + 1 else n) st2"
| steps_change: "anchor_steps sl st n st1 \<Longrightarrow> edits_valid es old \<Longrightarrow> anchors_on old st1 \<Longrightarrow>
    anchor_steps sl st n (apply_change st1 old (apply_to es old) es)"

lemma insert_keeps_gen:
  assumes "free_ok st" "sl < length (st_slots st)"
  shows "sl < length (st_slots (snd (insert_tracked st off tr po)))"
    "sl_gen (st_slots (snd (insert_tracked st off tr po)) ! sl) = sl_gen (st_slots st ! sl)"
proof -
  obtain i st' where ins: "insert_tracked st off tr po = (i, st')" by (cases "insert_tracked st off tr po")
  from assms(1) ins have "sl < length (st_slots st') \<and> sl_gen (st_slots st' ! sl) = sl_gen (st_slots st ! sl)"
    by (cases rule: insert_tracked_cases) (use assms(2) in \<open>auto simp: nth_append nth_list_update\<close>)
  then show "sl < length (st_slots (snd (insert_tracked st off tr po)))"
    "sl_gen (st_slots (snd (insert_tracked st off tr po)) ! sl) = sl_gen (st_slots st ! sl)" by (simp_all add: ins)
qed

lemma remove_moves_gen:
  assumes "anchor_remove st k = (b, st')" "sl < length (st_slots st)"
  shows "sl < length (st_slots st') \<and>
    sl_gen (st_slots st' ! sl) = sl_gen (st_slots st ! sl) + (if b \<and> id_slot k = sl then 1 else 0)"
  using assms(1)
proof (cases rule: anchor_remove_cases)
  case (gone a)
  have "sl_gen (st_slots st ! id_slot k) = id_gen k" using gone(3) by (simp add: anchor_get_live)
  then show ?thesis using gone(1) assms(2) unfolding gone(4) by (auto simp: nth_list_update)
qed (use assms(2) in simp)

lemma anchor_steps_gen:
  assumes "anchor_steps sl st n st'" "store_ok st" "sl < length (st_slots st)"
  shows "store_ok st' \<and> sl < length (st_slots st') \<and> sl_gen (st_slots st' ! sl) = sl_gen (st_slots st ! sl) + of_nat n"
  using assms(1)
proof induction
  case (steps_insert n st1 off tr po)
  then have "free_ok st1" by (simp add: store_ok_def)
  then show ?case using steps_insert.IH insert_tracked_ok insert_keeps_gen by simp
next
  case (steps_remove n st1 k b st2)
  then show ?case using remove_moves_gen [OF steps_remove.hyps(2), of sl] anchor_remove_ok [of st1 k] by auto
next
  case (steps_change n st1 es old)
  have "map_for old es (Some (line_map_new old (apply_to es old) es))" by (simp add: map_for_def)
  note f = store_apply_facts [OF conjunct1 [OF steps_change.IH] steps_change.hyps(2) this, folded apply_change_def]
  then show ?case using steps_change by (simp add: same_ids_def)
qed (use assms(2,3) in simp)

lemma removed_stays_dead:
  assumes "store_ok st" "anchor_remove st j = (True, st1)" "anchor_steps (id_slot j) st1 n st2" "n + 1 < 2 ^ 32"
  shows "store_ok st2 \<and> try_resolve st2 j = None"
proof -
  from assms(2) have g: "id_slot j < length (st_slots st1)" "sl_gen (st_slots st1 ! id_slot j) = id_gen j + 1"
    by (cases rule: anchor_remove_cases; auto simp: live_def)+
  have "store_ok st1" using anchor_remove_ok [OF assms(1), of j] by (simp add: assms(2))
  note s = anchor_steps_gen [OF assms(3) this g(1)]
  have "sl_gen (st_slots st2 ! id_slot j) = id_gen j + of_nat (n + 1)" using s g(2) by (simp add: add.assoc)
  moreover have "(of_nat m :: u32) \<noteq> 0" if "0 < m" "m < 2 ^ 32" for m
    using that by (auto simp: word_of_nat_eq_0_iff dest: dvd_imp_le)
  from this [OF _ assms(4)] have "(of_nat (n + 1) :: u32) \<noteq> 0" by simp
  ultimately have "sl_gen (st_slots st2 ! id_slot j) \<noteq> id_gen j" by simp
  then show ?thesis using s by (simp add: try_resolve_def anchor_get_def get_at_def)
qed

section \<open>Properties\<close>

text \<open>
  C39: anchor handles are checked by generation.  A new anchor's handle named nothing before, resolves to the
  offset it was made with, and leaves what every other handle resolves to as it was.  Removing reports whether the handle
  was live and leaves what every other handle resolves to as it was.  Whatever is put in, removed and carried
  afterwards, also when the slot is taken again, the removed handle resolves to nothing until its slot has been
  emptied \<open>2 ^ 32\<close> times (the removal itself counted), when its wrapping generation comes round.\<close>

theorem handles_generation_checked:
  assumes "store_ok st" "insert_tracked st off tr po = (i, st1)" "anchor_remove st1 j = (b, st2)"
    and "anchor_steps (id_slot j) st2 n st3" "n + 1 < 2 ^ 32"
  shows "try_resolve st i = None \<and> try_resolve st1 i = Some \<lparr>rs_off = off, rs_inval = False\<rparr> \<and>
    (\<forall>k. k \<noteq> i \<longrightarrow> try_resolve st1 k = try_resolve st k) \<and>
    (b \<longleftrightarrow> try_resolve st1 j \<noteq> None) \<and> (\<forall>k. k \<noteq> j \<longrightarrow> try_resolve st2 k = try_resolve st1 k) \<and>
    (b \<longrightarrow> store_ok st3 \<and> try_resolve st3 j = None)"
proof -
  have ok1: "store_ok st1" using insert_tracked_ok [OF assms(1), of off tr po] by (simp add: assms(2))
  have "b \<longrightarrow> store_ok st3 \<and> try_resolve st3 j = None" using removed_stays_dead [OF ok1 _ assms(4,5)] assms(3) by simp
  then show ?thesis using try_resolve_insert [OF assms(1,2)] try_resolve_remove [OF assms(3)] by simp
qed

theorem handles_generation_checked_witness:
  "\<exists>i st1 st2 k st3. insert_tracked store_new 4 (Byte After) Clamp = (i, st1) \<and> anchor_remove st1 i = (True, st2) \<and>
     insert_tracked st2 1 (Byte After) Clamp = (k, st3) \<and> id_slot k = id_slot i \<and> try_resolve st3 i = None"
proof -
  obtain i st1 where i: "insert_tracked store_new 4 (Byte After) Clamp = (i, st1)"
    by (cases "insert_tracked store_new 4 (Byte After) Clamp")
  obtain b st2 where r: "anchor_remove st1 i = (b, st2)" by (cases "anchor_remove st1 i")
  obtain k st3 where k: "insert_tracked st2 1 (Byte After) Clamp = (k, st3)"
    by (cases "insert_tracked st2 1 (Byte After) Clamp")
  have st: "anchor_steps (id_slot i) st2 0 st3" using steps_insert [OF steps_here, of "id_slot i" st2 1 "Byte After" Clamp] by (simp only: k snd_conv)
  have "id_slot k = id_slot i"
    using i r k by (auto simp: insert_tracked_def store_new_def anchor_remove_def get_at_def)
  then show ?thesis using handles_generation_checked [OF store_new_ok i r st] i r k by auto
qed

text \<open>
  C14: the batched sweep refines the per-anchor rules.  However many edits a change has and however their touched
  regions merge, after \<^verbatim>\<open>apply_change\<close> (and, with byte rules only, after \<^verbatim>\<open>apply\<close>) every handle resolves
  to exactly where moving that anchor alone through the edits puts it, with the same invalidation flag; handles
  that named nothing still do; and the store's invariant holds again.\<close>

theorem sweep_refines_rules:
  assumes "store_ok st" "edits_valid es old" "anchors_on old st" "new = apply_to es old"
  shows "(\<forall>i. try_resolve (apply_change st old new es) i = carry st es (Some (line_map_new old new es)) i) \<and>
    (\<forall>i. try_resolve (apply_edits st es) i = carry st es None i) \<and>
    store_ok (apply_change st old new es) \<and> store_ok (apply_edits st es)"
proof -
  have "map_for old es (Some (line_map_new old new es))" "map_for old es None" by (simp_all add: map_for_def assms(4))
  then show ?thesis unfolding apply_change_def apply_edits_def
    using store_apply_facts [OF assms(1,2)] assms(3) by simp
qed

theorem sweep_refines_rules_witness:
  "\<exists>st i. st_slots st \<noteq> [] \<and> try_resolve (apply_edits st [edit_insert 1 [120, 121]]) i = Some \<lparr>rs_off = 6, rs_inval = False\<rparr>"
proof -
  let ?es = "[edit_insert 1 [120, 121]]" and ?old = "[97, 98, 99, 100, 101]"
  obtain i st where ins: "insert_tracked store_new 4 (Byte After) Clamp = (i, st)"
    by (cases "insert_tracked store_new 4 (Byte After) Clamp")
  have ok: "store_ok st" using insert_tracked_ok [OF store_new_ok, of 4 "Byte After" Clamp] by (simp add: ins)
  have v: "edits_valid ?es ?old"
    by (simp add: edits_valid_def edits_wf_def changes_something_def edit_insert_def edit_end_def)
  have st: "i = \<lparr>id_slot = 0, id_gen = 0\<rparr>" "st_slots st = [\<lparr>sl_gen = 0, sl_anchor =
      Some \<lparr>an_off = 4, an_track = Byte After, an_policy = Clamp, an_inval = False, an_rank = None\<rparr>\<rparr>]"
    using ins by (auto simp: insert_tracked_def store_new_def Let_def)
  have "anchors_on ?old st" by (auto simp: anchors_on_def anchor_on_def live_def st)
  from sweep_refines_rules [OF ok v this refl]
  have "try_resolve (apply_edits st ?es) i = carry st ?es None i" by blast
  also have "\<dots> = Some \<lparr>rs_off = 6, rs_inval = False\<rparr>"
    by (simp add: carry_def anchor_get_def get_at_def st map_anchor_def offset_of_def map_byte_inside_def
        partition_point_def edit_insert_def edit_end_def delta_def)
  finally show ?thesis using st(2) by (intro exI [of _ st] exI [of _ i]) simp
qed

text \<open>
  carrying the anchors through a change keeps them consistent with the new text: every live anchor lies within
  it, and everything the debug walker checks (the free list, the live order, its ranks and its sortedness) holds.\<close>

theorem anchors_stay_in_text:
  assumes "store_ok st" "edits_valid es old" "anchors_on old st" "within st (length old)" "new = apply_to es old"
  shows "store_assert_invariants (apply_change st old new es) (length new) \<and>
    (\<forall>i r. try_resolve (apply_change st old new es) i = Some r \<longrightarrow> rs_off r \<le> length new)"
proof -
  let ?m = "Some (line_map_new old new es)"
  have m: "map_for old es ?m" by (simp add: map_for_def assms(5))
  have w: "within (store_apply st es ?m) (length new)"
    using store_apply_within [OF assms(1,2) m _ assms(4)] assms(3,5) by simp
  moreover have "store_ok (store_apply st es ?m)" using store_apply_facts(1) [OF assms(1,2) m] assms(3) by simp
  ultimately show ?thesis unfolding apply_change_def using store_ok_asserts within_resolve by blast
qed

theorem anchors_stay_in_text_witness:
  "\<exists>st r. store_len st = 1 \<and>
     try_resolve (apply_change st [97, 10] (apply_to [edit_delete 0 2] [97, 10]) [edit_delete 0 2]) \<lparr>id_slot = 0, id_gen = 0\<rparr> = Some r \<and>
     rs_off r \<le> length (apply_to [edit_delete 0 2] [97, 10])"
proof -
  let ?es = "[edit_delete 0 2]" and ?old = "[97, 10] :: bytes" and ?i = "\<lparr>id_slot = 0, id_gen = 0\<rparr>"
  let ?m = "Some (line_map_new ?old (apply_to ?es ?old) ?es)"
  obtain i st where ins: "insert_tracked store_new 0 (Line Keep) Clamp = (i, st)"
    by (cases "insert_tracked store_new 0 (Line Keep) Clamp")
  have ok: "store_ok st" using insert_tracked_ok [OF store_new_ok, of 0 "Line Keep" Clamp] by (simp add: ins)
  have st: "st_slots st = [\<lparr>sl_gen = 0, sl_anchor =
      Some \<lparr>an_off = 0, an_track = Line Keep, an_policy = Clamp, an_inval = False, an_rank = None\<rparr>\<rparr>]" "st_free st = []"
    using ins by (auto simp: insert_tracked_def store_new_def Let_def)
  have v: "edits_valid ?es ?old"
    by (simp add: edits_valid_def edits_wf_def changes_something_def edit_delete_def edit_end_def)
  have on: "anchors_on ?old st" by (auto simp: anchors_on_def anchor_on_def live_def st offset_of_def)
  have wi: "within st (length ?old)" by (auto simp: within_def live_def st offset_of_def)
  have "try_resolve (apply_change st ?old (apply_to ?es ?old) ?es) ?i = carry st ?es ?m ?i"
    unfolding apply_change_def by (rule store_apply_facts(2) [OF ok v]) (simp_all add: map_for_def on)
  moreover have "carry st ?es ?m ?i \<noteq> None" by (simp add: carry_def anchor_get_def get_at_def st)
  ultimately obtain r where r: "try_resolve (apply_change st ?old (apply_to ?es ?old) ?es) ?i = Some r" by auto
  with anchors_stay_in_text [OF ok v on wi refl] have "rs_off r \<le> length (apply_to ?es ?old)" by blast
  with r show ?thesis using st by (intro exI [of _ st] exI [of _ r]) (simp add: store_len_def)
qed

end
