(* ===== verification/Document.thy ===== *)
theory Document
  imports Undo_Walks Change_Log Line_Starts Line_Undo Undo_Cursor Anchor_Apply
begin

text \<open>
  The editable document (\<^verbatim>\<open>crates/core/src/document.rs\<close>) and its snapshots
  (\<^verbatim>\<open>crates/core/src/snapshot.rs\<close>): the text, its revision, anchors, undo history, the line \<^verbatim>\<open>U\<close>
  restores, the marks each undo group saved, pinned positions and the change log, changed only by
  transactions, undo steps and \<^verbatim>\<open>U\<close>.

  The two \<^verbatim>\<open>OnceLock\<close> caches are \<open>None\<close> until filled; the readers that fill them return the document too.
  The positions a caller passes as \<^verbatim>\<open>&mut [Tracked]\<close> are returned updated.
\<close>

section \<open>Snapshots\<close>

type_synonym anchor_index = "(anchor_id \<times> resolved) list"

definition from_entries :: "(anchor_id \<times> resolved) list \<Rightarrow> anchor_index" where
  "from_entries es = es"

definition index_resolve :: "anchor_index \<Rightarrow> anchor_id \<Rightarrow> resolved option" where
  "index_resolve ix i = map_option snd (List.find (\<lambda>(k, _). k = i) ix)"

record document_snapshot =
  sn_revision :: revision
  sn_text :: bytes
  sn_anchors :: anchor_index

definition snapshot_new :: "revision \<Rightarrow> bytes \<Rightarrow> anchor_index \<Rightarrow> document_snapshot" where
  "snapshot_new rv tx ix = \<lparr>sn_revision = rv, sn_text = tx, sn_anchors = ix\<rparr>"

definition snapshot_resolve :: "document_snapshot \<Rightarrow> anchor_id \<Rightarrow> resolved option" where
  "snapshot_resolve s i = index_resolve (sn_anchors s) i"

section \<open>State\<close>

text \<open>
  \<open>UnreachableOverlap\<close> and \<open>TxnEndOverflow\<close> are panics, not errors of the source: the \<^verbatim>\<open>unreachable!\<close> of
  \<^verbatim>\<open>apply_inner\<close>, and the overflow of \<^verbatim>\<open>Edit::end\<close> in \<^verbatim>\<open>check_bounds\<close>.
\<close>

datatype txn_error =
    StaleBaseRevision revision revision
  | TxnOutOfRange nat nat nat
  | UnreachableOverlap
  | TxnEndOverflow nat nat

record document =
  d_id :: u64
  d_text :: bytes
  d_revision :: revision
  d_anchors :: anchor_store
  d_undo :: "edit_list undo_history"
  d_index :: "anchor_index option"
  d_line_starts :: "nat list option"
  d_starts_before :: "(nat list \<times> edit_list) option"
  d_saved_node :: "nat option"
  d_line_undo :: line_undo
  d_undo_block :: "bool option"
  d_mark_undo :: "nat \<rightharpoonup> nat option list"
  d_pinned :: "tracked list"
  d_changes :: change_log
  d_modifiable :: bool

definition rebuild_index :: "document \<Rightarrow> document" where
  "rebuild_index d = d\<lparr>d_index := None\<rparr>"

definition starting_at :: "u64 \<Rightarrow> bytes \<Rightarrow> revision \<Rightarrow> document" where
  "starting_at i initial rv =
     rebuild_index
       \<lparr>d_id = i, d_text = initial, d_revision = rv, d_anchors = store_new, d_undo = history_new rv,
        d_index = None, d_line_starts = None, d_starts_before = None, d_saved_node = None,
        d_line_undo = line_undo_default, d_undo_block = None, d_mark_undo = Map.empty, d_pinned = [],
        d_changes = log_default, d_modifiable = True\<rparr>"

definition document_new :: "u64 \<Rightarrow> bytes \<Rightarrow> document" where
  "document_new i initial = starting_at i initial ZERO"

definition replacing :: "u64 \<Rightarrow> bytes \<Rightarrow> revision \<Rightarrow> document" where
  "replacing i initial last_rv = starting_at i initial (next_rev last_rv)"

section \<open>Line lookups\<close>

definition line_starts :: "document \<Rightarrow> nat list \<times> document" where
  "line_starts d =
     (case d_line_starts d of
        Some ss \<Rightarrow> (ss, d)
      | None \<Rightarrow>
          let ss = (case d_starts_before d of
                      Some (ss0, es) \<Rightarrow> carried_line_starts ss0 es
                    | None \<Rightarrow> line_starts_of (d_text d))
          in (ss, d\<lparr>d_line_starts := Some ss\<rparr>))"

definition carry_line_starts :: "document \<Rightarrow> edit_list \<Rightarrow> document" where
  "carry_line_starts d es =
     d\<lparr>d_starts_before := map_option (\<lambda>ss. (ss, es)) (d_line_starts d), d_line_starts := None\<rparr>"

definition doc_line_of :: "document \<Rightarrow> nat \<Rightarrow> nat \<times> document" where
  "doc_line_of d at = (let (ss, d') = line_starts d in (row_in ss (min at (length (d_text d))), d'))"

definition doc_nth_line_start :: "document \<Rightarrow> nat \<Rightarrow> nat \<times> document" where
  "doc_nth_line_start d line =
     (let (ss, d') = line_starts d
      in (case get_at ss line of Some s \<Rightarrow> s | None \<Rightarrow> length (d_text d), d'))"

section \<open>Anchors\<close>

definition create_line_anchor :: "document \<Rightarrow> nat \<Rightarrow> line_gravity \<Rightarrow> anchor_id \<times> document" where
  "create_line_anchor d off g =
     (let (i, st) = insert_line (d_anchors d) off g in (i, rebuild_index (d\<lparr>d_anchors := st\<rparr>)))"

definition create_anchor :: "document \<Rightarrow> nat \<Rightarrow> bias \<Rightarrow> anchor_policy \<Rightarrow> anchor_id \<times> document" where
  "create_anchor d off bi po =
     (let (i, st) = anchor_insert (d_anchors d) off bi po in (i, rebuild_index (d\<lparr>d_anchors := st\<rparr>)))"

fun insert_all :: "anchor_store \<Rightarrow> (nat \<times> bias \<times> anchor_policy) list \<Rightarrow> anchor_id list \<times> anchor_store" where
  "insert_all st [] = ([], st)"
| "insert_all st ((off, bi, po) # specs) =
     (let (i, st1) = anchor_insert st off bi po; (ids, st2) = insert_all st1 specs in (i # ids, st2))"

definition create_anchors :: "document \<Rightarrow> (nat \<times> bias \<times> anchor_policy) list \<Rightarrow> anchor_id list \<times> document" where
  "create_anchors d specs =
     (let (ids, st) = insert_all (d_anchors d) specs in (ids, rebuild_index (d\<lparr>d_anchors := st\<rparr>)))"

fun remove_all :: "anchor_store \<Rightarrow> anchor_id list \<Rightarrow> nat \<times> anchor_store" where
  "remove_all st [] = (0, st)"
| "remove_all st (i # ids) =
     (let (b, st1) = anchor_remove st i; (n, st2) = remove_all st1 ids in ((if b then 1 else 0) + n, st2))"

definition remove_anchors :: "document \<Rightarrow> anchor_id list \<Rightarrow> nat \<times> document" where
  "remove_anchors d ids =
     (let (n, st) = remove_all (d_anchors d) ids; d1 = d\<lparr>d_anchors := st\<rparr>
      in (n, if 0 < n then rebuild_index d1 else d1))"

definition remove_anchor :: "document \<Rightarrow> anchor_id \<Rightarrow> bool \<times> document" where
  "remove_anchor d i =
     (let (b, st) = anchor_remove (d_anchors d) i; d1 = d\<lparr>d_anchors := st\<rparr>
      in (b, if b then rebuild_index d1 else d1))"

definition resolve_anchor :: "document \<Rightarrow> anchor_id \<Rightarrow> resolved option" where
  "resolve_anchor d i = try_resolve (d_anchors d) i"

definition anchor_count :: "document \<Rightarrow> nat" where
  "anchor_count d = store_len (d_anchors d)"

definition snapshot :: "document \<Rightarrow> document_snapshot \<times> document" where
  "snapshot d =
     (let ix = (case d_index d of Some ix \<Rightarrow> ix | None \<Rightarrow> from_entries (store_resolved (d_anchors d)))
      in (snapshot_new (d_revision d) (d_text d) ix, d\<lparr>d_index := Some ix\<rparr>))"

section \<open>Positions carried with the changes\<close>

definition pin_tracked :: "document \<Rightarrow> tracked list \<Rightarrow> nat \<times> document" where
  "pin_tracked d ts =
     (length (d_pinned d), d\<lparr>d_pinned := d_pinned d @ map (\<lambda>t. t\<lparr>tk_restore := False\<rparr>) ts\<rparr>)"

definition take_pinned :: "document \<Rightarrow> tracked list \<times> document" where
  "take_pinned d = (d_pinned d, d\<lparr>d_pinned := []\<rparr>)"

definition track_change :: "document \<Rightarrow> bytes \<Rightarrow> edit_list \<Rightarrow> tracked list \<Rightarrow> tracked list \<times> document" where
  "track_change d old es ts =
     (if ts = [] \<and> d_pinned d = [] then (ts, d)
      else
        let m = line_map_new old (d_text d) es
        in (map (\<lambda>t. tracked_apply t es m) ts, d\<lparr>d_pinned := map (\<lambda>t. tracked_apply t es m) (d_pinned d)\<rparr>))"

definition restorable :: "tracked list \<Rightarrow> nat option list" where
  "restorable ts = map tk_pos (filter tk_restore ts)"

section \<open>Applying a transaction\<close>

definition apply_empty :: "document \<Rightarrow> transaction \<Rightarrow> document" where
  "apply_empty d txn =
     (let base = d_revision d;
          d1 = d\<lparr>d_revision := next_rev (d_revision d)\<rparr>
      in if wants (d_changes d1) then
           d1\<lparr>d_changes := log_push (d_changes d1)
             \<lparr>c_base_revision = base, c_result_revision = d_revision d1, c_origin = t_origin txn,
              c_group_hint = t_group_hint txn, c_forward = [], c_inverse = [],
              c_kind = Navigate (current_seq (d_undo d1))\<rparr>\<rparr>
         else d1)"

definition block_hint :: "document \<Rightarrow> group_hint \<Rightarrow> group_hint \<times> document" where
  "block_hint d hint =
     (case d_undo_block d of
        Some True \<Rightarrow> (JoinPrev, d)
      | Some False \<Rightarrow> (hint, d\<lparr>d_undo_block := Some True\<rparr>)
      | None \<Rightarrow> (hint, d))"

definition start_cursor :: "bytes \<Rightarrow> transaction \<Rightarrow> nat" where
  "start_cursor tx txn =
     (case t_cursor txn of
        Some c \<Rightarrow> c
      | None \<Rightarrow> (case first_opt (t_edits txn) of Some e \<Rightarrow> line_start tx (epos e) | None \<Rightarrow> 0))"

definition record_in :: "document \<Rightarrow> transaction \<Rightarrow> edit_list \<Rightarrow> revision \<Rightarrow> nat option list \<Rightarrow> document" where
  "record_in d txn bwd prev saved =
     (let (hint, d1) = block_hint d (t_group_hint txn);
          cursor = start_cursor (d_text d1) txn;
          group_before = current_group (d_undo d1);
          parent = current_seq (d_undo d1);
          logged = wants (d_changes d1);
          d2 = d1\<lparr>d_undo := record_change (d_undo d1) (t_edits txn) bwd (t_origin txn) hint (d_revision d1) cursor\<rparr>;
          d3 = (if logged then
                  d2\<lparr>d_changes := log_push (d_changes d2)
                    \<lparr>c_base_revision = prev, c_result_revision = d_revision d2, c_origin = t_origin txn,
                     c_group_hint = t_group_hint txn, c_forward = t_edits txn, c_inverse = bwd,
                     c_kind = Fresh (current_seq (d_undo d2)) parent\<rparr>\<rparr>
                else d2);
          grp = current_group (d_undo d3)
      in if grp \<noteq> group_before \<and> saved \<noteq> [] then d3\<lparr>d_mark_undo := (d_mark_undo d3)(grp \<mapsto> saved)\<rparr> else d3)"

definition commit :: "document \<Rightarrow> transaction \<Rightarrow> bool \<Rightarrow> tracked list \<Rightarrow> tracked list \<times> document" where
  "commit d txn track_line ts =
     (let bwd = inverse_edits (t_edits txn) (d_text d);
          new_text = apply_to (t_edits txn) (d_text d);
          fresh = (t_group_hint txn = BreakBefore);
          d1 = (if track_line then d\<lparr>d_line_undo := on_edit (d_line_undo d) (d_text d) (t_edits txn) fresh\<rparr> else d);
          saved = restorable ts;
          old = d_text d1;
          d2 = carry_line_starts (d1\<lparr>d_text := new_text\<rparr>) (t_edits txn);
          (ts', d3) = track_change d2 old (t_edits txn) ts;
          prev = d_revision d3;
          d4 = d3\<lparr>d_revision := next_rev (d_revision d3)\<rparr>;
          d5 = d4\<lparr>d_anchors := apply_change (d_anchors d4) old (d_text d4) (t_edits txn)\<rparr>
      in (ts', rebuild_index (record_in d5 txn bwd prev saved)))"

definition apply_inner ::
  "document \<Rightarrow> transaction \<Rightarrow> bool \<Rightarrow> tracked list \<Rightarrow> (txn_error + revision) \<times> tracked list \<times> document" where
  "apply_inner d txn track_line ts =
     (if t_base_revision txn \<noteq> d_revision d then (Inl (StaleBaseRevision (t_base_revision txn) (d_revision d)), ts, d)
      else case check_bounds (t_edits txn) (length (d_text d)) of
        Inl (OutOfRange p n len) \<Rightarrow> (Inl (TxnOutOfRange p n len), ts, d)
      | Inl (Overlap a b) \<Rightarrow> (Inl UnreachableOverlap, ts, d)
      | Inl (EndOverflow p n) \<Rightarrow> (Inl (TxnEndOverflow p n), ts, d)
      | Inr _ \<Rightarrow>
          if t_edits txn = [] then let d' = apply_empty d txn in (Inr (d_revision d'), ts, d')
          else let (ts', d') = commit d txn track_line ts in (Inr (d_revision d'), ts', d'))"

definition apply_tracked :: "document \<Rightarrow> transaction \<Rightarrow> tracked list \<Rightarrow> (txn_error + revision) \<times> tracked list \<times> document" where
  "apply_tracked d txn ts = apply_inner d txn True ts"

definition apply_txn :: "document \<Rightarrow> transaction \<Rightarrow> (txn_error + revision) \<times> document" where
  "apply_txn d txn = (let (r, _, d') = apply_inner d txn True [] in (r, d'))"

definition begin_undo_block :: "document \<Rightarrow> document" where
  "begin_undo_block d = d\<lparr>d_undo_block := (case d_undo_block d of None \<Rightarrow> Some False | Some b \<Rightarrow> Some b)\<rparr>"

definition end_undo_block :: "document \<Rightarrow> document" where
  "end_undo_block d = d\<lparr>d_undo_block := None\<rparr>"

definition in_undo_block :: "document \<Rightarrow> bool" where
  "in_undo_block d \<longleftrightarrow> d_undo_block d \<noteq> None"

section \<open>Undo and redo\<close>

definition reapply :: "document \<Rightarrow> edit_list \<Rightarrow> nat \<times> transaction_origin option \<Rightarrow> tracked list \<Rightarrow> tracked list \<times> document" where
  "reapply d es nd ts =
     (let new_text = apply_to es (d_text d);
          d1 = d\<lparr>d_line_undo := on_reapply (d_line_undo d) (d_text d) es\<rparr>;
          d2 = (if wants (d_changes d1) then
                  d1\<lparr>d_changes := log_push (d_changes d1)
                    \<lparr>c_base_revision = d_revision d1, c_result_revision = next_rev (d_revision d1),
                     c_origin = (case snd nd of Some og \<Rightarrow> og | None \<Rightarrow> UserInput), c_group_hint = Continue,
                     c_forward = es, c_inverse = inverse_edits es (d_text d1), c_kind = Navigate (fst nd)\<rparr>\<rparr>
                else d1);
          old = d_text d2;
          d3 = carry_line_starts (d2\<lparr>d_text := new_text\<rparr>) es;
          d4 = d3\<lparr>d_revision := next_rev (d_revision d3)\<rparr>;
          d5 = d4\<lparr>d_anchors := apply_change (d_anchors d4) old (d_text d4) es\<rparr>;
          (ts', d6) = track_change d5 old es ts
      in (ts', rebuild_index d6))"

fun put_back :: "bytes \<Rightarrow> tracked list \<Rightarrow> nat option list \<Rightarrow> tracked list" where
  "put_back tx [] saved = []"
| "put_back tx (t # ts) saved =
     (if tk_restore t then
        (case saved of
           [] \<Rightarrow> t # ts
         | s # ss \<Rightarrow>
             (case s of Some p \<Rightarrow> t\<lparr>tk_pos := Some (snap tx (min p (length tx)))\<rparr> | None \<Rightarrow> t) # put_back tx ts ss)
      else t # put_back tx ts saved)"

definition restore_marks :: "document \<Rightarrow> nat \<Rightarrow> nat option list \<Rightarrow> tracked list \<Rightarrow> tracked list \<times> document" where
  "restore_marks d grp before ts =
     (case d_mark_undo d grp of
        None \<Rightarrow> (ts, d)
      | Some saved \<Rightarrow> (put_back (d_text d) ts saved, d\<lparr>d_mark_undo := (d_mark_undo d)(grp \<mapsto> before)\<rparr>))"

record replay_state =
  r_doc :: document
  r_tracked :: "tracked list"
  r_entries :: "undo_entry list"
  r_uh :: "nat \<times> nat"
  r_lines_before :: nat
  r_before :: "nat option list"

definition replay_enter :: "edit_list undo_step \<Rightarrow> nat \<Rightarrow> replay_state \<Rightarrow> replay_state" where
  "replay_enter s i r =
     (let r1 = (if i = 0 \<or> get_at (s_groups s) (i - 1) \<noteq> get_at (s_groups s) i
                then r\<lparr>r_before := restorable (r_tracked r)\<rparr> else r)
      in if i = s_tail s then
           let r2 = r1\<lparr>r_lines_before := line_count (d_text (r_doc r1))\<rparr>
           in if s_forward s then r2\<lparr>r_uh := line_col (d_text (r_doc r2)) (s_cursor s)\<rparr> else r2
         else r1)"

definition replay_leave :: "edit_list undo_step \<Rightarrow> nat \<Rightarrow> replay_state \<Rightarrow> replay_state" where
  "replay_leave s i r =
     (case get_at (s_groups s) i of
        Some g \<Rightarrow>
          if get_at (s_groups s) (i + 1) \<noteq> Some g then
            (let (ts, d) = restore_marks (r_doc r) g (r_before r) (r_tracked r)
             in r\<lparr>r_doc := d, r_tracked := ts, r_before := []\<rparr>)
          else r
      | None \<Rightarrow> r)"

definition replay_one :: "edit_list undo_step \<Rightarrow> nat \<Rightarrow> edit_list \<Rightarrow> replay_state \<Rightarrow> replay_state" where
  "replay_one s i es r =
     (let r1 = replay_enter s i r;
          old = d_text (r_doc r1);
          (ts, d) = reapply (r_doc r1) es (s_nodes s ! i) (r_tracked r1);
          r2 = r1\<lparr>r_doc := d, r_tracked := ts\<rparr>;
          r3 = (if s_tail s \<le> i then r2\<lparr>r_entries := entries old (d_text d) es (r_entries r2)\<rparr> else r2)
      in replay_leave s i r3)"

fun replay_loop :: "edit_list undo_step \<Rightarrow> nat \<Rightarrow> edit_list list \<Rightarrow> replay_state \<Rightarrow> replay_state" where
  "replay_loop s i [] r = r"
| "replay_loop s i (es # rest) r = replay_loop s (i + 1) rest (replay_one s i es r)"

definition replay :: "document \<Rightarrow> edit_list undo_step \<Rightarrow> nat \<Rightarrow> tracked list \<Rightarrow> undo_cursor \<times> tracked list \<times> document" where
  "replay d s cursor ts =
     (let cur_line = line_of (d_text d) cursor;
          r = replay_loop s 0 (s_edits s)
                \<lparr>r_doc = d, r_tracked = ts, r_entries = [], r_uh = (0, 0),
                 r_lines_before = line_count (d_text d), r_before = []\<rparr>;
          tx = d_text (r_doc r);
          uh = (if s_forward s then r_uh r else line_col tx (s_cursor s));
          lines = line_count tx;
          placed = place (r_entries r) uh cur_line lines
      in (placed\<lparr>u_marks := marks_of (r_entries r) (r_lines_before r) lines\<rparr>, r_tracked r, r_doc r))"

definition navigate ::
  "document \<Rightarrow> (edit_list undo_step \<times> edit_list undo_history) option \<Rightarrow> nat \<Rightarrow> tracked list \<Rightarrow>
     undo_cursor option \<times> tracked list \<times> document" where
  "navigate d step cursor ts =
     (case step of
        None \<Rightarrow> (None, ts, d)
      | Some (s, h) \<Rightarrow> let (u, ts', d') = replay (d\<lparr>d_undo := h\<rparr>) s cursor ts in (Some u, ts', d'))"

definition undo_tracked :: "document \<Rightarrow> nat \<Rightarrow> tracked list \<Rightarrow> undo_cursor option \<times> tracked list \<times> document" where
  "undo_tracked d cursor ts = navigate d (undo (d_undo d)) cursor ts"

definition redo_tracked :: "document \<Rightarrow> nat \<Rightarrow> tracked list \<Rightarrow> undo_cursor option \<times> tracked list \<times> document" where
  "redo_tracked d cursor ts = navigate d (redo (d_undo d)) cursor ts"

definition chronological_tracked :: "document \<Rightarrow> bool \<Rightarrow> nat \<Rightarrow> tracked list \<Rightarrow> undo_cursor option \<times> tracked list \<times> document" where
  "chronological_tracked d older cursor ts = navigate d (to_chronological (d_undo d) older) cursor ts"

definition undo_from :: "document \<Rightarrow> nat \<Rightarrow> undo_cursor option \<times> document" where
  "undo_from d cursor = (let (u, _, d') = undo_tracked d cursor [] in (u, d'))"

definition redo_from :: "document \<Rightarrow> nat \<Rightarrow> undo_cursor option \<times> document" where
  "redo_from d cursor = (let (u, _, d') = redo_tracked d cursor [] in (u, d'))"

definition chronological_from :: "document \<Rightarrow> bool \<Rightarrow> nat \<Rightarrow> undo_cursor option \<times> document" where
  "chronological_from d older cursor = (let (u, _, d') = chronological_tracked d older cursor [] in (u, d'))"

definition doc_undo :: "document \<Rightarrow> revision option \<times> document" where
  "doc_undo d = (let (u, d') = undo_from d 0 in (map_option (\<lambda>_. d_revision d') u, d'))"

definition doc_redo :: "document \<Rightarrow> revision option \<times> document" where
  "doc_redo d = (let (u, d') = redo_from d 0 in (map_option (\<lambda>_. d_revision d') u, d'))"

definition undo_chronological :: "document \<Rightarrow> bool \<Rightarrow> revision option \<times> document" where
  "undo_chronological d older =
     (let (u, d') = chronological_from d older 0 in (map_option (\<lambda>_. d_revision d') u, d'))"

section \<open>The line undo\<close>

definition prime_line_undo :: "document \<Rightarrow> nat \<Rightarrow> bool \<Rightarrow> document" where
  "prime_line_undo d cursor new_command = d\<lparr>d_line_undo := prime (d_line_undo d) cursor new_command\<rparr>"

definition clear_line_undo :: "document \<Rightarrow> bool \<Rightarrow> document" where
  "clear_line_undo d disarm = d\<lparr>d_line_undo := lu_clear (d_line_undo d) disarm\<rparr>"

definition can_line_undo :: "document \<Rightarrow> bool" where
  "can_line_undo d = available (d_line_undo d) (d_text d)"

definition swap_txn :: "revision \<Rightarrow> nat \<Rightarrow> nat \<Rightarrow> bytes \<Rightarrow> transaction_origin \<Rightarrow> nat \<Rightarrow> (edit_error + transaction)" where
  "swap_txn rv s e tx origin cursor =
     (case edit_list_new [edit_replace s (e - s) tx] of
        Inl err \<Rightarrow> Inl err
      | Inr es \<Rightarrow> Inr (with_cursor (with_hint (transaction_new rv es origin) BreakBefore) cursor))"

text \<open>Where an \<^verbatim>\<open>expect\<close> of the source would panic the result is \<open>None\<close> as a whole.\<close>

definition line_undo_tracked ::
  "document \<Rightarrow> nat \<Rightarrow> transaction_origin \<Rightarrow> tracked list \<Rightarrow> (nat option \<times> tracked list \<times> document) option" where
  "line_undo_tracked d cursor origin ts =
     (let (sw, lu) = lu_swap (d_line_undo d) (d_text d) cursor;
          d1 = d\<lparr>d_line_undo := lu\<rparr>
      in case sw of
           None \<Rightarrow> Some (None, ts, d1)
         | Some (s, e, tx, col) \<Rightarrow>
             (case swap_txn (d_revision d1) s e tx origin cursor of
                Inl _ \<Rightarrow> None
              | Inr txn \<Rightarrow>
                  (case apply_inner d1 txn False ts of
                     (Inl _, _, _) \<Rightarrow> None
                   | (Inr _, ts', d2) \<Rightarrow> Some (Some (s + min col (length tx)), ts', d2))))"

definition doc_line_undo :: "document \<Rightarrow> nat \<Rightarrow> (nat option \<times> document) option" where
  "doc_line_undo d cursor = map_option (\<lambda>(r, _, d'). (r, d')) (line_undo_tracked d cursor UserInput [])"

section \<open>Saving\<close>

definition is_modified :: "document \<Rightarrow> bool" where
  "is_modified d \<longleftrightarrow> d_saved_node d \<noteq> Some (current_seq (d_undo d))"

definition mark_saved :: "document \<Rightarrow> document" where
  "mark_saved d = d\<lparr>d_saved_node := Some (current_seq (d_undo d)), d_undo := sync (d_undo d)\<rparr>"

definition mark_unsaved :: "document \<Rightarrow> document" where
  "mark_unsaved d = d\<lparr>d_saved_node := None\<rparr>"

definition sync_undo :: "document \<Rightarrow> document" where
  "sync_undo d = d\<lparr>d_undo := sync (d_undo d)\<rparr>"

definition reload_tracked :: "document \<Rightarrow> bytes \<Rightarrow> tracked list \<Rightarrow> bool \<times> tracked list \<times> document" where
  "reload_tracked d bs ts =
     (case edit_list_new [lines_changed (d_text d) bs] of
        Inl _ \<Rightarrow> (False, ts, d)
      | Inr es \<Rightarrow>
          (let txn = transaction_new (d_revision d) es UserInput;
               (r, ts', d1) = apply_tracked (sync_undo d) txn ts
           in (\<not> isl r, ts', mark_saved (sync_undo d1))))"

definition set_modifiable :: "document \<Rightarrow> bool \<Rightarrow> document" where
  "set_modifiable d on = d\<lparr>d_modifiable := on\<rparr>"

section \<open>The change log\<close>

definition record_changes :: "document \<Rightarrow> bool \<Rightarrow> document" where
  "record_changes d on = d\<lparr>d_changes := set_recording (d_changes d) on\<rparr>"

definition set_change_log_cap :: "document \<Rightarrow> change_log_cap \<Rightarrow> document" where
  "set_change_log_cap d cap = d\<lparr>d_changes := set_cap (d_changes d) cap\<rparr>"

definition drain_changes :: "document \<Rightarrow> change_drain \<times> document" where
  "drain_changes d =
     (let (dr, l) = drain (d_changes d) (d_text d) (d_revision d) (current_seq (d_undo d))
      in (dr, d\<lparr>d_changes := l\<rparr>))"

section \<open>The invariant walker\<close>

definition doc_assert_invariants :: "document \<Rightarrow> bool" where
  "doc_assert_invariants d \<longleftrightarrow>
     assert_invariants (d_undo d) \<and> store_assert_invariants (d_anchors d) (length (d_text d)) \<and>
     (case d_saved_node d of None \<Rightarrow> True | Some sq \<Rightarrow> has_seq (d_undo d) sq) \<and>
     (\<forall>g \<in> dom (d_mark_undo d). issued_group (d_undo d) g) \<and>
     list_all (\<lambda>t. case tk_pos t of None \<Rightarrow> True | Some p \<Rightarrow> p \<le> length (d_text d)) (d_pinned d) \<and>
     (case d_index d of None \<Rightarrow> True | Some ix \<Rightarrow> map_of ix = map_of (store_resolved (d_anchors d)))"

end
