(* ===== verification/Document_Inv.thy ===== *)
theory Document_Inv
  imports Document
begin

text \<open>
  The document's invariant and that every operation keeps it: the text is the text of the undo tree's current
  node, anchors and pinned positions lie within it, the caches agree with it, the saved state names the node
  it was saved at, and the change log chains from the state at the last drain to the current one.
\<close>

section \<open>What a change of the text leaves as it was\<close>

lemma track_change_sel [simp]:
  "d_id (snd (track_change d old es ts)) = d_id d" "d_text (snd (track_change d old es ts)) = d_text d"
  "d_revision (snd (track_change d old es ts)) = d_revision d" "d_anchors (snd (track_change d old es ts)) = d_anchors d"
  "d_undo (snd (track_change d old es ts)) = d_undo d" "d_index (snd (track_change d old es ts)) = d_index d"
  "d_line_starts (snd (track_change d old es ts)) = d_line_starts d"
  "d_starts_before (snd (track_change d old es ts)) = d_starts_before d"
  "d_saved_node (snd (track_change d old es ts)) = d_saved_node d"
  "d_line_undo (snd (track_change d old es ts)) = d_line_undo d"
  "d_undo_block (snd (track_change d old es ts)) = d_undo_block d"
  "d_mark_undo (snd (track_change d old es ts)) = d_mark_undo d"
  "d_changes (snd (track_change d old es ts)) = d_changes d"
  "d_modifiable (snd (track_change d old es ts)) = d_modifiable d"
  "d_pinned (snd (track_change d old es ts)) =
     map (\<lambda>t. tracked_apply t es (line_map_new old (d_text d) es)) (d_pinned d)"
  "fst (track_change d old es ts) = map (\<lambda>t. tracked_apply t es (line_map_new old (d_text d) es)) ts"
  by (simp_all add: track_change_def Let_def)

lemma carry_line_starts_sel [simp]:
  "d_id (carry_line_starts d es) = d_id d" "d_text (carry_line_starts d es) = d_text d"
  "d_revision (carry_line_starts d es) = d_revision d" "d_anchors (carry_line_starts d es) = d_anchors d"
  "d_undo (carry_line_starts d es) = d_undo d" "d_index (carry_line_starts d es) = d_index d"
  "d_line_starts (carry_line_starts d es) = None"
  "d_starts_before (carry_line_starts d es) = map_option (\<lambda>ss. (ss, es)) (d_line_starts d)"
  "d_saved_node (carry_line_starts d es) = d_saved_node d" "d_line_undo (carry_line_starts d es) = d_line_undo d"
  "d_undo_block (carry_line_starts d es) = d_undo_block d" "d_mark_undo (carry_line_starts d es) = d_mark_undo d"
  "d_pinned (carry_line_starts d es) = d_pinned d" "d_changes (carry_line_starts d es) = d_changes d"
  "d_modifiable (carry_line_starts d es) = d_modifiable d"
  by (simp_all add: carry_line_starts_def)

lemma block_hint_sel [simp]:
  "d_text (snd (block_hint d hint)) = d_text d" "d_revision (snd (block_hint d hint)) = d_revision d"
  "d_anchors (snd (block_hint d hint)) = d_anchors d" "d_undo (snd (block_hint d hint)) = d_undo d"
  "d_index (snd (block_hint d hint)) = d_index d" "d_line_starts (snd (block_hint d hint)) = d_line_starts d"
  "d_starts_before (snd (block_hint d hint)) = d_starts_before d"
  "d_saved_node (snd (block_hint d hint)) = d_saved_node d" "d_line_undo (snd (block_hint d hint)) = d_line_undo d"
  "d_mark_undo (snd (block_hint d hint)) = d_mark_undo d" "d_pinned (snd (block_hint d hint)) = d_pinned d"
  "d_changes (snd (block_hint d hint)) = d_changes d" "d_id (snd (block_hint d hint)) = d_id d"
  by (simp_all add: block_hint_def split: option.splits bool.splits)

definition effective_hint :: "document \<Rightarrow> group_hint \<Rightarrow> group_hint" where
  "effective_hint d hint = fst (block_hint d hint)"

lemma effective_hint_eq: "effective_hint d hint = (if d_undo_block d = Some True then JoinPrev else hint)"
  by (simp add: effective_hint_def block_hint_def split: option.splits bool.splits)

lemma record_in_sel [simp]:
  "d_text (record_in d txn bwd prev saved) = d_text d" "d_revision (record_in d txn bwd prev saved) = d_revision d"
  "d_anchors (record_in d txn bwd prev saved) = d_anchors d" "d_index (record_in d txn bwd prev saved) = d_index d"
  "d_line_starts (record_in d txn bwd prev saved) = d_line_starts d"
  "d_starts_before (record_in d txn bwd prev saved) = d_starts_before d"
  "d_saved_node (record_in d txn bwd prev saved) = d_saved_node d"
  "d_line_undo (record_in d txn bwd prev saved) = d_line_undo d" "d_pinned (record_in d txn bwd prev saved) = d_pinned d"
  "d_id (record_in d txn bwd prev saved) = d_id d"
  "d_undo (record_in d txn bwd prev saved) =
     record_change (d_undo d) (t_edits txn) bwd (t_origin txn) (effective_hint d (t_group_hint txn)) (d_revision d)
       (start_cursor (d_text d) txn)"
  by (simp_all add: record_in_def Let_def split_beta effective_hint_def)

lemma record_in_changes:
  "d_changes (record_in d txn bwd prev saved) =
     (if wants (d_changes d) then
        log_push (d_changes d)
          \<lparr>c_base_revision = prev, c_result_revision = d_revision d, c_origin = t_origin txn,
           c_group_hint = t_group_hint txn, c_forward = t_edits txn, c_inverse = bwd,
           c_kind = Fresh (current_seq (d_undo (record_in d txn bwd prev saved))) (current_seq (d_undo d))\<rparr>
      else d_changes d)"
  by (simp add: record_in_def Let_def split_beta)

lemma record_in_marks:
  "d_mark_undo (record_in d txn bwd prev saved) =
     (let g = current_group (d_undo (record_in d txn bwd prev saved)) in
      if g \<noteq> current_group (d_undo d) \<and> saved \<noteq> [] then (d_mark_undo d)(g \<mapsto> saved) else d_mark_undo d)"
  by (simp add: record_in_def Let_def split_beta)

section \<open>The invariant\<close>

definition text_inv :: "(nat \<Rightarrow> bytes) \<Rightarrow> document \<Rightarrow> bool" where
  "text_inv T d \<longleftrightarrow> hist_inv (d_undo d) \<and> ea.tree_texts (d_undo d) T \<and> T (h_current (d_undo d)) = d_text d"

definition anchors_inv :: "document \<Rightarrow> bool" where
  "anchors_inv d \<longleftrightarrow> store_ok (d_anchors d) \<and> within (d_anchors d) (length (d_text d)) \<and> anchors_on (d_text d) (d_anchors d)"

definition caches_inv :: "document \<Rightarrow> bool" where
  "caches_inv d \<longleftrightarrow>
     (\<forall>ss. d_line_starts d = Some ss \<longrightarrow> ss = starts_spec (d_text d)) \<and>
     (\<forall>ss es. d_starts_before d = Some (ss, es) \<longrightarrow> carried_line_starts ss es = starts_spec (d_text d)) \<and>
     (\<forall>ix. d_index d = Some ix \<longrightarrow> ix = store_resolved (d_anchors d))"

definition pos_ok :: "bytes \<Rightarrow> tracked \<Rightarrow> bool" where
  "pos_ok tx t \<longleftrightarrow> (case tk_pos t of None \<Rightarrow> True | Some p \<Rightarrow> p \<le> length tx)"

definition saved_inv :: "(nat \<Rightarrow> bytes) \<Rightarrow> bytes \<Rightarrow> document \<Rightarrow> bool" where
  "saved_inv T S d \<longleftrightarrow>
     (\<forall>q. d_saved_node d = Some q \<longrightarrow> (\<exists>i < length (h_nodes (d_undo d)). n_seq (node (d_undo d) i) = q \<and> T i = S))"

definition marks_inv :: "document \<Rightarrow> bool" where
  "marks_inv d \<longleftrightarrow> (\<forall>g \<in> dom (d_mark_undo d). issued_group (d_undo d) g) \<and> list_all (pos_ok (d_text d)) (d_pinned d) \<and>
     saved_ok (d_line_undo d)"

text \<open>
  \<open>T\<close> is the text of each undo node, \<open>S\<close> the text last saved, \<open>r0\<close> and \<open>t0\<close> the revision and the text at
  the last drain of the change log.
\<close>

definition doc_inv :: "(nat \<Rightarrow> bytes) \<Rightarrow> bytes \<Rightarrow> revision \<Rightarrow> bytes \<Rightarrow> document \<Rightarrow> bool" where
  "doc_inv T S r0 t0 d \<longleftrightarrow> text_inv T d \<and> anchors_inv d \<and> caches_inv d \<and> saved_inv T S d \<and> marks_inv d \<and>
     log_inv (d_changes d) r0 t0 (d_revision d) (d_text d)"

lemmas doc_inv_parts = text_inv_def anchors_inv_def caches_inv_def saved_inv_def marks_inv_def

lemma starting_at_inv: "doc_inv (\<lambda>_. tx) S rv tx (starting_at i tx rv)"
proof -
  have "text_inv (\<lambda>_. tx) (starting_at i tx rv)"
    by (simp add: text_inv_def starting_at_def rebuild_index_def history_new_hist_inv ea.new_texts)
  moreover have "anchors_inv (starting_at i tx rv)"
    using store_new_ok by (simp add: anchors_inv_def starting_at_def rebuild_index_def within_def anchors_on_def live_def store_new_def)
  moreover have "marks_inv (starting_at i tx rv)"
    by (simp add: marks_inv_def starting_at_def rebuild_index_def saved_ok_def line_undo_default_def)
  ultimately show ?thesis
    by (simp add: doc_inv_def caches_inv_def saved_inv_def starting_at_def rebuild_index_def log_default_inv)
qed

text \<open>The seq of a node names it.\<close>

lemma seq_mono:
  assumes "tree_inv h"
  shows "i < j \<Longrightarrow> j < length (h_nodes h) \<Longrightarrow> n_seq (node h i) < n_seq (node h j)"
proof (induction j)
  case (Suc j)
  have "n_seq (node h j) < n_seq (node h (Suc j))"
    using assms Suc.prems(2) by (auto simp: tree_inv_def node_invariants_def split: option.splits)
  then show ?case using Suc by (cases "i = j") auto
qed simp

lemma seq_inj:
  assumes "tree_inv h" "i < length (h_nodes h)" "j < length (h_nodes h)" "n_seq (node h i) = n_seq (node h j)"
  shows "i = j"
  using seq_mono [OF assms(1), of i j] seq_mono [OF assms(1), of j i] assms(2-4) by (metis less_irrefl linorder_neqE_nat)

lemma doc_inv_asserts:
  assumes "doc_inv T S r0 t0 d"
  shows "doc_assert_invariants d"
proof -
  have "assert_invariants (d_undo d)" using assms by (simp add: doc_inv_def text_inv_def hist_inv_def)
  moreover have "store_assert_invariants (d_anchors d) (length (d_text d))"
    using assms by (intro store_ok_asserts) (simp_all add: doc_inv_def anchors_inv_def)
  moreover have "case d_saved_node d of None \<Rightarrow> True | Some sq \<Rightarrow> has_seq (d_undo d) sq"
    using assms by (auto simp: doc_inv_def saved_inv_def has_seq_def list_ex_length split: option.splits)
  moreover have "list_all (\<lambda>t. case tk_pos t of None \<Rightarrow> True | Some p \<Rightarrow> p \<le> length (d_text d)) (d_pinned d)"
    using assms by (simp add: doc_inv_def marks_inv_def pos_ok_def [abs_def])
  moreover have "case d_index d of None \<Rightarrow> True | Some ix \<Rightarrow> map_of ix = map_of (store_resolved (d_anchors d))"
    using assms by (auto simp: doc_inv_def caches_inv_def split: option.splits)
  ultimately show ?thesis using assms by (simp add: doc_assert_invariants_def doc_inv_def marks_inv_def)
qed


section \<open>Moving the text\<close>

text \<open>What a committed transaction and a re-applied step share.\<close>

definition moved_by :: "edit_list \<Rightarrow> document \<Rightarrow> document \<Rightarrow> bool" where
  "moved_by es d d' \<longleftrightarrow> d_text d' = apply_to es (d_text d) \<and> d_revision d' = next_rev (d_revision d) \<and>
     d_anchors d' = apply_change (d_anchors d) (d_text d) (d_text d') es \<and> d_line_starts d' = None \<and>
     d_starts_before d' = map_option (\<lambda>ss. (ss, es)) (d_line_starts d) \<and> d_index d' = None \<and>
     d_pinned d' = map (\<lambda>t. tracked_apply t es (line_map_new (d_text d) (d_text d') es)) (d_pinned d)"

lemma anchors_on_moved:
  assumes "store_ok st" "edits_valid es old" "anchors_on old st"
  shows "anchors_on (apply_to es old) (apply_change st old (apply_to es old) es)"
  unfolding anchors_on_def
proof (intro allI impI)
  let ?m = "Some (line_map_new old (apply_to es old) es)" and ?st' = "apply_change st old (apply_to es old) es"
  have m: "map_for old es ?m" by (simp add: map_for_def)
  fix i a' assume a': "live ?st' i a'"
  show "anchor_on (apply_to es old) a' (offset_of ?st' a')"
  proof (cases "an_track a'")
    case (Line g)
    then have "\<exists>a. live st i a \<and> an_track a = Line g \<and> offset_of ?st' a' = fst (map_anchor a (offset_of st a) es ?m)"
      using store_apply_track [OF assms(1,2) m _ a' [unfolded apply_change_def]] assms(3) by (simp add: apply_change_def)
    then obtain a where a: "an_track a = Line g" "offset_of ?st' a' = fst (map_anchor a (offset_of st a) es ?m)" by blast
    have "\<exists>q g'. map_offset (line_map_new old (apply_to es old) es) (offset_of st a) g' = Some q \<and>
        offset_of ?st' a' = q"
    proof (cases "map_offset (line_map_new old (apply_to es old) es) (offset_of st a) g")
      case (Some q)
      then show ?thesis using a by (auto simp: map_anchor_def)
    next
      case None
      have "map_offset (line_map_new old (apply_to es old) es) (offset_of st a) Keep \<noteq> None"
        using map_offset_drops by blast
      then show ?thesis using None a by (auto simp: map_anchor_def)
    qed
    then show ?thesis using map_offset_range Line by (fastforce simp: anchor_on_def line_map_new_def)
  qed (simp add: anchor_on_def)
qed


lemma tracked_apply_ok:
  assumes "edits_valid es old" "new = apply_to es old"
  shows "pos_ok new (tracked_apply t es (line_map_new old new es))"
proof -
  have "snap new p \<le> length new" for p using snap_le [of new p] by simp
  moreover have "map_offset (line_map_new old new es) p g = Some q \<Longrightarrow> q \<le> length new" for p g q
    using map_offset_range [of "line_map_new old new es" p g q] by (simp add: line_map_new_def)
  ultimately show ?thesis
    by (auto simp: pos_ok_def tracked_apply_def line_map_new_def split: option.splits track.splits)
qed

lemma moved_by_inv:
  assumes mv: "moved_by es d d'" and v: "edits_valid es (d_text d)" and a: "anchors_inv d" and c: "caches_inv d"
  shows "anchors_inv d'" "caches_inv d'" "list_all (pos_ok (d_text d')) (d_pinned d')"
proof -
  note f = mv [unfolded moved_by_def]
  have st: "store_ok (d_anchors d)" "within (d_anchors d) (length (d_text d))" "anchors_on (d_text d) (d_anchors d)"
    using a by (simp_all add: anchors_inv_def)
  have m: "map_for (d_text d) es (Some (line_map_new (d_text d) (d_text d') es))" using f by (simp add: map_for_def)
  have "store_ok (d_anchors d')" "within (d_anchors d') (length (d_text d'))"
    using store_apply_facts(1) [OF st(1) v m] store_apply_within [OF st(1) v m _ st(2)] f st(3)
    by (simp_all add: apply_change_def)
  moreover have "anchors_on (d_text d') (d_anchors d')" using anchors_on_moved [OF st(1) v st(3)] f by simp
  ultimately show "anchors_inv d'" by (simp add: anchors_inv_def)
  show "caches_inv d'" using f c carried_line_starts_spec [OF v] by (auto simp: caches_inv_def)
  show "list_all (pos_ok (d_text d')) (d_pinned d')" using f tracked_apply_ok [OF v] by (simp add: list_all_iff)
qed

section \<open>Transactions\<close>

lemma commit_moved: "moved_by (t_edits txn) d (snd (commit d txn trk ts))"
  by (simp add: moved_by_def commit_def Let_def split_beta rebuild_index_def)

lemma commit_sel:
  assumes "d' = snd (commit d txn trk ts)"
  shows "d_saved_node d' = d_saved_node d" "d_id d' = d_id d"
    "d_undo d' = record_change (d_undo d) (t_edits txn) (inverse_edits (t_edits txn) (d_text d)) (t_origin txn)
       (effective_hint d (t_group_hint txn)) (next_rev (d_revision d)) (start_cursor (apply_to (t_edits txn) (d_text d)) txn)"
    "d_line_undo d' = (if trk then on_edit (d_line_undo d) (d_text d) (t_edits txn) (t_group_hint txn = BreakBefore) else d_line_undo d)"
  by (simp_all add: assms commit_def Let_def split_beta rebuild_index_def effective_hint_eq)

lemma commit_log:
  assumes "d' = snd (commit d txn trk ts)"
  shows "\<exists>k. d_changes d' =
    (if wants (d_changes d) then
       log_push (d_changes d)
         \<lparr>c_base_revision = d_revision d, c_result_revision = next_rev (d_revision d), c_origin = t_origin txn,
          c_group_hint = t_group_hint txn, c_forward = t_edits txn,
          c_inverse = inverse_edits (t_edits txn) (d_text d), c_kind = k\<rparr>
     else d_changes d)"
  by (auto simp: assms commit_def Let_def split_beta rebuild_index_def record_in_changes)

lemma commit_marks:
  assumes "d' = snd (commit d txn trk ts)"
  shows "dom (d_mark_undo d') \<subseteq> insert (current_group (d_undo d')) (dom (d_mark_undo d))"
  by (auto simp: assms commit_def Let_def split_beta rebuild_index_def record_in_marks split: if_splits)

lemma log_changed:
  assumes "log_inv l r0 t0 r t" "edits_valid es t"
    and "l' = (if wants l then log_push l
           \<lparr>c_base_revision = r, c_result_revision = next_rev r, c_origin = og, c_group_hint = gh,
            c_forward = es, c_inverse = inverse_edits es t, c_kind = k\<rparr> else l)"
  shows "log_inv l' r0 t0 (next_rev r) (apply_to es t)"
proof (cases "wants l")
  case True
  let ?e = "\<lparr>c_base_revision = r, c_result_revision = next_rev r, c_origin = og, c_group_hint = gh,
    c_forward = es, c_inverse = inverse_edits es t, c_kind = k\<rparr>"
  have "log_inv (log_push l ?e) r0 t0 (next_rev r) (apply_to (c_forward ?e) t)"
    by (rule log_push_inv [OF assms(1)]) (use assms(2) in simp_all)
  then show ?thesis using True assms(3) by simp
next
  case False
  then show ?thesis using log_inv_silent [OF False assms(1)] assms(3) by simp
qed

lemma commit_inv:
  assumes inv: "doc_inv T S r0 t0 d" and v: "edits_valid (t_edits txn) (d_text d)" and d': "d' = snd (commit d txn trk ts)"
  shows "doc_inv (T(length (h_nodes (d_undo d)) := d_text d')) S r0 t0 d'"
proof -
  let ?n = "length (h_nodes (d_undo d))" and ?T = "T(length (h_nodes (d_undo d)) := d_text d')"
  have ti: "text_inv T d" and ai: "anchors_inv d" and ci: "caches_inv d" and si: "saved_inv T S d" and mi: "marks_inv d"
    and li: "log_inv (d_changes d) r0 t0 (d_revision d) (d_text d)" using inv by (simp_all add: doc_inv_def)
  have h: "hist_inv (d_undo d)" "ea.tree_texts (d_undo d) T" "T (h_current (d_undo d)) = d_text d"
    using ti by (simp_all add: text_inv_def)
  note cur = hist_invD(3) [OF h(1)] and sel = commit_sel [OF d'] and mv = commit_moved [of txn d trk ts, folded d']
  note rs = record_change_sel [OF cur sel(3)] and ro = record_change_old [OF cur sel(3)]
  have tx: "d_text d' = apply_to (t_edits txn) (d_text d)" and rv: "d_revision d' = next_rev (d_revision d)"
    using mv by (simp_all add: moved_by_def)
  note mo = moved_by_inv [OF mv v ai ci]
  have "hist_inv (d_undo d')" by (rule record_change_hist_inv [OF h(1) sel(3)])
  moreover have "ea.tree_texts (d_undo d') ?T"
    using ea.record_texts [OF h(1,2), of "t_edits txn" "d_undo d'"] v sel(3) by (simp add: h(3) tx)
  ultimately have "text_inv ?T d'" by (simp add: text_inv_def rs(2))
  moreover have "saved_inv ?T S d'" unfolding saved_inv_def
  proof (intro allI impI)
    fix q assume "d_saved_node d' = Some q"
    then obtain i where i: "i < ?n" "n_seq (node (d_undo d) i) = q" "T i = S" using si sel(1) by (auto simp: saved_inv_def)
    then show "\<exists>i < length (h_nodes (d_undo d')). n_seq (node (d_undo d') i) = q \<and> ?T i = S"
      using ro(2) [OF i(1)] by (intro exI [of _ i]) (simp add: rs(1))
  qed
  moreover have "marks_inv d'"
  proof -
    have "h_next_group (d_undo d) \<le> h_next_group (snd (group_for (d_undo d) og hi))" for og hi
      by (simp add: group_for_def fresh_group_def Let_def split: group_hint.splits)
    then have grp: "h_next_group (d_undo d) \<le> h_next_group (d_undo d')" by (simp add: rs(5))
    have "node_invariants (d_undo d') (h_current (d_undo d'))"
      using hist_invD(1,3) [OF \<open>hist_inv (d_undo d')\<close>] by (simp add: tree_inv_def)
    then have cg: "issued_group (d_undo d') (current_group (d_undo d'))"
      by (simp add: node_invariants_def issued_group_def current_group_def)
    have "issued_group (d_undo d') g" if "g \<in> dom (d_mark_undo d')" for g
    proof (cases "g = current_group (d_undo d')")
      case False
      then have "g \<in> dom (d_mark_undo d)" using commit_marks [OF d'] that by blast
      then have "g < h_next_group (d_undo d)" using mi by (simp add: marks_inv_def issued_group_def)
      then show ?thesis using grp by (simp add: issued_group_def)
    qed (use cg in simp)
    moreover have "saved_ok (d_line_undo d')" using sel(4) mi on_edit_ok [OF _ v] by (simp add: marks_inv_def)
    ultimately show ?thesis using mo(3) by (simp add: marks_inv_def)
  qed
  moreover have "log_inv (d_changes d') r0 t0 (d_revision d') (d_text d')"
    using commit_log [OF d'] log_changed [OF li v] unfolding tx rv by blast
  ultimately show ?thesis using mo(1,2) by (simp add: doc_inv_def)
qed


lemma commit_tracked:
  assumes "edits_valid (t_edits txn) (d_text d)" "commit d txn trk ts = (ts', d')"
  shows "list_all (pos_ok (d_text d')) ts'"
proof -
  have tx: "d_text d' = apply_to (t_edits txn) (d_text d)" using commit_moved [of txn d trk ts] assms(2) by (simp add: moved_by_def)
  have "ts' = map (\<lambda>t. tracked_apply t (t_edits txn) (line_map_new (d_text d) (d_text d') (t_edits txn))) ts"
    using assms(2) unfolding tx by (auto simp: commit_def Let_def split_beta)
  then show ?thesis using tracked_apply_ok [OF assms(1) tx] by (simp add: list_all_iff)
qed

lemma apply_empty_sel [simp]:
  "d_text (apply_empty d txn) = d_text d" "d_revision (apply_empty d txn) = next_rev (d_revision d)"
  "d_anchors (apply_empty d txn) = d_anchors d" "d_undo (apply_empty d txn) = d_undo d"
  "d_index (apply_empty d txn) = d_index d" "d_line_starts (apply_empty d txn) = d_line_starts d"
  "d_starts_before (apply_empty d txn) = d_starts_before d" "d_saved_node (apply_empty d txn) = d_saved_node d"
  "d_line_undo (apply_empty d txn) = d_line_undo d" "d_mark_undo (apply_empty d txn) = d_mark_undo d"
  "d_pinned (apply_empty d txn) = d_pinned d" "d_id (apply_empty d txn) = d_id d"
  by (simp_all add: apply_empty_def Let_def)

lemma apply_nil [simp]: "apply_to [] t = t" "inverse_edits [] t = []" "edits_valid [] t"
  by (simp_all add: apply_to_def inverse_edits_def from_sorted_def edits_valid_def edits_wf_def in_bounds_def)

lemma apply_empty_inv:
  assumes "doc_inv T S r0 t0 d"
  shows "doc_inv T S r0 t0 (apply_empty d txn)"
proof -
  let ?d = "apply_empty d txn"
  have "\<exists>k. d_changes ?d = (if wants (d_changes d) then
       log_push (d_changes d)
         \<lparr>c_base_revision = d_revision d, c_result_revision = next_rev (d_revision d), c_origin = t_origin txn,
          c_group_hint = t_group_hint txn, c_forward = [], c_inverse = inverse_edits [] (d_text d), c_kind = k\<rparr>
     else d_changes d)"
    by (auto simp: apply_empty_def Let_def)
  moreover have "log_inv (d_changes d) r0 t0 (d_revision d) (d_text d)" using assms by (simp add: doc_inv_def)
  ultimately have "log_inv (d_changes ?d) r0 t0 (next_rev (d_revision d)) (apply_to [] (d_text d))"
    using log_changed apply_nil(3) by blast
  then show ?thesis using assms by (simp add: doc_inv_def doc_inv_parts)
qed

text \<open>The answer to a transaction whose edit \<open>e\<close> does not fit a text of \<open>len\<close> bytes, and the ways a transaction ends.\<close>

definition refusal :: "edit \<Rightarrow> nat \<Rightarrow> txn_error" where
  "refusal e len =
     (if epos e \<le> len \<and> 2 ^ 64 \<le> edit_end e then TxnEndOverflow (epos e) (edel e) else TxnOutOfRange (epos e) (edel e) len)"

lemma apply_inner_cases:
  assumes wf: "edits_wf (t_edits txn)" and r: "apply_inner d txn trk ts = (res, ts', d')"
  obtains (stale) "res = Inl (StaleBaseRevision (t_base_revision txn) (d_revision d))" "t_base_revision txn \<noteq> d_revision d"
      "d' = d" "ts' = ts"
  | (range) e where "e \<in> set (t_edits txn)" "length (d_text d) < edit_end e"
      "res = Inl (refusal e (length (d_text d)))" "t_base_revision txn = d_revision d" "d' = d" "ts' = ts"
  | (idle) "res = Inr (next_rev (d_revision d))" "t_base_revision txn = d_revision d" "t_edits txn = []"
      "d' = apply_empty d txn" "ts' = ts"
  | (committed) "res = Inr (next_rev (d_revision d))" "t_base_revision txn = d_revision d" "t_edits txn \<noteq> []"
      "edits_valid (t_edits txn) (d_text d)" "commit d txn trk ts = (ts', d')"
proof (cases "t_base_revision txn = d_revision d")
  case False
  with r show thesis by (intro stale) (auto simp: apply_inner_def)
next
  case base: True
  show thesis
  proof (cases "check_bounds (t_edits txn) (length (d_text d))")
    case (Inl err)
    from check_bounds_Inl [OF Inl] obtain e where e: "e \<in> set (t_edits txn)" "length (d_text d) < edit_end e"
      "err = misfit_error e (length (d_text d))" by blast
    with r base Inl show thesis
      by (intro range [of e]) (auto simp: apply_inner_def refusal_def misfit_error_def simp del: power_numeral split: if_splits)
  next
    case (Inr u)
    then have b: "in_bounds (t_edits txn) (length (d_text d))" using check_bounds_Inr_iff by simp
    show thesis
    proof (cases "t_edits txn = []")
      case True
      with r base Inr show thesis by (intro idle) (auto simp: apply_inner_def Let_def)
    next
      case False
      have "d_revision (snd (commit d txn trk ts)) = next_rev (d_revision d)"
        using commit_moved [of txn d trk ts] by (simp add: moved_by_def)
      with r base Inr False b wf show thesis
        by (intro committed) (auto simp: apply_inner_def edits_valid_def split_beta Let_def)
    qed
  qed
qed

lemma apply_inner_inv:
  assumes inv: "doc_inv T S r0 t0 d" and wf: "edits_wf (t_edits txn)" and r: "apply_inner d txn trk ts = (res, ts', d')"
  shows "\<exists>T'. doc_inv T' S r0 t0 d' \<and> (\<forall>i < length (h_nodes (d_undo d)). T' i = T i)"
  using wf r
proof (cases rule: apply_inner_cases)
  case idle
  then show ?thesis using apply_empty_inv [OF inv] by auto
next
  case committed
  then show ?thesis using commit_inv [OF inv committed(4), of d' trk ts]
    by (intro exI [of _ "T(length (h_nodes (d_undo d)) := d_text d')"]) simp
qed (use inv in auto)

section \<open>Undo steps\<close>

definition mid_inv :: "revision \<Rightarrow> bytes \<Rightarrow> document \<Rightarrow> bool" where
  "mid_inv r0 t0 d \<longleftrightarrow> anchors_inv d \<and> caches_inv d \<and> marks_inv d \<and> log_inv (d_changes d) r0 t0 (d_revision d) (d_text d)"

lemma reapply_facts:
  assumes "reapply d es nd ts = (ts', d')"
  shows "moved_by es d d'" "d_undo d' = d_undo d" "d_saved_node d' = d_saved_node d" "d_mark_undo d' = d_mark_undo d"
    "d_id d' = d_id d" "d_line_undo d' = on_reapply (d_line_undo d) (d_text d) es"
    "d_changes d' = (if wants (d_changes d) then log_push (d_changes d)
       \<lparr>c_base_revision = d_revision d, c_result_revision = next_rev (d_revision d),
        c_origin = (case snd nd of Some og \<Rightarrow> og | None \<Rightarrow> UserInput), c_group_hint = Continue,
        c_forward = es, c_inverse = inverse_edits es (d_text d), c_kind = Navigate (fst nd)\<rparr> else d_changes d)"
    "ts' = map (\<lambda>t. tracked_apply t es (line_map_new (d_text d) (d_text d') es)) ts"
  using assms by (auto simp: moved_by_def reapply_def Let_def split_beta rebuild_index_def)

lemma reapply_inv:
  assumes r: "reapply d es nd ts = (ts', d')" and inv: "mid_inv r0 t0 d" and v: "edits_valid es (d_text d)"
  shows "mid_inv r0 t0 d'" "d_text d' = apply_to es (d_text d)" "list_all (pos_ok (d_text d')) ts'"
proof -
  note f = reapply_facts [OF r]
  have li: "log_inv (d_changes d) r0 t0 (d_revision d) (d_text d)" and ai: "anchors_inv d" and ci: "caches_inv d" and mi: "marks_inv d"
    using inv by (simp_all add: mid_inv_def)
  show tx: "d_text d' = apply_to es (d_text d)" using f(1) by (simp add: moved_by_def)
  have rv: "d_revision d' = next_rev (d_revision d)" using f(1) by (simp add: moved_by_def)
  have "log_inv (d_changes d') r0 t0 (d_revision d') (d_text d')" using log_changed [OF li v f(7)] unfolding tx rv .
  moreover have "marks_inv d'" using mi moved_by_inv(3) [OF f(1) v ai ci] on_reapply_ok f(2,4,6) by (simp add: marks_inv_def)
  ultimately show "mid_inv r0 t0 d'" using moved_by_inv(1,2) [OF f(1) v ai ci] by (simp add: mid_inv_def)
  show "list_all (pos_ok (d_text d')) ts'" using tracked_apply_ok [OF v tx] f(8) by (simp add: list_all_iff)
qed

lemma put_back_ok: "list_all (pos_ok tx) ts \<Longrightarrow> list_all (pos_ok tx) (put_back tx ts saved)"
proof (induction tx ts saved rule: put_back.induct)
  case (2 tx t ts saved)
  have "snap tx p \<le> length tx" for p by (rule snap_le_length)
  with 2 show ?case by (auto simp: pos_ok_def split: list.splits option.splits)
qed simp

lemma restore_marks_facts:
  assumes "restore_marks d g before ts = (ts', d')" "mid_inv r0 t0 d" "list_all (pos_ok (d_text d)) ts"
  shows "mid_inv r0 t0 d'" "d_text d' = d_text d" "d_undo d' = d_undo d" "d_saved_node d' = d_saved_node d"
    "d_revision d' = d_revision d" "list_all (pos_ok (d_text d')) ts'" "d_id d' = d_id d"
proof -
  have "dom (d_mark_undo d') = dom (d_mark_undo d)" using assms(1) by (auto simp: restore_marks_def split: option.splits if_splits)
  moreover have "\<exists>mu. d' = d\<lparr>d_mark_undo := mu\<rparr>" using assms(1) unfolding restore_marks_def
    by (cases "d_mark_undo d g") (auto intro: exI [of _ "d_mark_undo d"])
  ultimately show "mid_inv r0 t0 d'" "d_text d' = d_text d" "d_undo d' = d_undo d" "d_saved_node d' = d_saved_node d"
    "d_revision d' = d_revision d" "d_id d' = d_id d"
    using assms(2) by (auto simp: mid_inv_def doc_inv_parts)
  show "list_all (pos_ok (d_text d')) ts'"
    using assms(1,3) put_back_ok by (auto simp: restore_marks_def split: option.splits)
qed

end
