(* ===== verification/Document_Steps.thy ===== *)
theory Document_Steps
  imports Document_Inv
begin

text \<open>
  Undo, redo, chronological steps, \<^verbatim>\<open>U\<close>, saving and reloading on the document, the reachable documents as a
  step relation, and the document's properties.
\<close>

section \<open>Replaying a step\<close>

definition replaying :: "revision \<Rightarrow> bytes \<Rightarrow> edit_list undo_history \<Rightarrow> nat option \<Rightarrow> replay_state \<Rightarrow> bool" where
  "replaying r0 t0 h q r \<longleftrightarrow> mid_inv r0 t0 (r_doc r) \<and> d_undo (r_doc r) = h \<and> d_saved_node (r_doc r) = q \<and>
     list_all (pos_ok (d_text (r_doc r))) (r_tracked r)"

lemma replay_enter_sel [simp]:
  "r_doc (replay_enter s i r) = r_doc r" "r_tracked (replay_enter s i r) = r_tracked r"
  by (simp_all add: replay_enter_def Let_def)

lemma replay_leave_facts:
  assumes "replaying r0 t0 h q r"
  shows "replaying r0 t0 h q (replay_leave s i r)" "d_text (r_doc (replay_leave s i r)) = d_text (r_doc r)"
    "d_revision (r_doc (replay_leave s i r)) = d_revision (r_doc r)"
proof -
  have "replaying r0 t0 h q (replay_leave s i r) \<and> d_text (r_doc (replay_leave s i r)) = d_text (r_doc r) \<and>
      d_revision (r_doc (replay_leave s i r)) = d_revision (r_doc r)"
  proof (cases "get_at (s_groups s) i")
    case None
    then show ?thesis using assms by (simp add: replay_leave_def)
  next
    case (Some g)
    obtain ts d where rm: "restore_marks (r_doc r) g (r_before r) (r_tracked r) = (ts, d)"
      by (cases "restore_marks (r_doc r) g (r_before r) (r_tracked r)")
    have "mid_inv r0 t0 (r_doc r)" "list_all (pos_ok (d_text (r_doc r))) (r_tracked r)"
      using assms by (simp_all add: replaying_def)
    note f = restore_marks_facts [OF rm this]
    have "replay_leave s i r = (if get_at (s_groups s) (i + 1) \<noteq> Some g
        then r\<lparr>r_doc := d, r_tracked := ts, r_before := []\<rparr> else r)"
      unfolding replay_leave_def Some by (simp only: option.case Let_def prod.case rm)
    then show ?thesis using assms f by (simp only: replaying_def) auto
  qed
  then show "replaying r0 t0 h q (replay_leave s i r)" "d_text (r_doc (replay_leave s i r)) = d_text (r_doc r)"
    "d_revision (r_doc (replay_leave s i r)) = d_revision (r_doc r)" by blast+
qed

lemma replay_one_facts:
  assumes inv: "replaying r0 t0 h q r" and v: "edits_valid es (d_text (r_doc r))"
  shows "replaying r0 t0 h q (replay_one s i es r)"
    "d_text (r_doc (replay_one s i es r)) = apply_to es (d_text (r_doc r))"
    "d_revision (r_doc (replay_one s i es r)) = next_rev (d_revision (r_doc r))"
proof -
  obtain ts d where ra: "reapply (r_doc r) es (s_nodes s ! i) (r_tracked r) = (ts, d)"
    by (cases "reapply (r_doc r) es (s_nodes s ! i) (r_tracked r)")
  note rf = reapply_facts [OF ra]
  have mid: "mid_inv r0 t0 (r_doc r)" using inv by (simp add: replaying_def)
  note ri = reapply_inv [OF ra mid v]
  define r2 where "r2 = (replay_enter s i r)\<lparr>r_doc := d, r_tracked := ts\<rparr>"
  define r3 where "r3 = (if s_tail s \<le> i then r2\<lparr>r_entries := entries (d_text (r_doc r)) (d_text d) es (r_entries r2)\<rparr> else r2)"
  have one: "replay_one s i es r = replay_leave s i r3" by (simp add: replay_one_def Let_def ra r3_def r2_def)
  have "replaying r0 t0 h q r3" using inv ri rf(2,3) by (simp add: r3_def r2_def replaying_def)
  note l = replay_leave_facts [OF this, of s i]
  have "d_text (r_doc r3) = apply_to es (d_text (r_doc r))" "d_revision (r_doc r3) = next_rev (d_revision (r_doc r))"
    using ri(2) rf(1) by (simp_all add: r3_def r2_def moved_by_def)
  then show "replaying r0 t0 h q (replay_one s i es r)"
    "d_text (r_doc (replay_one s i es r)) = apply_to es (d_text (r_doc r))"
    "d_revision (r_doc (replay_one s i es r)) = next_rev (d_revision (r_doc r))"
    unfolding one using l by simp_all
qed

lemma replay_loop_facts:
  "replaying r0 t0 h q r \<Longrightarrow> ea.chain_valid ess (d_text (r_doc r)) \<Longrightarrow>
     replaying r0 t0 h q (replay_loop s i ess r) \<and>
     d_text (r_doc (replay_loop s i ess r)) = fold apply_to ess (d_text (r_doc r)) \<and>
     d_revision (r_doc (replay_loop s i ess r)) = (next_rev ^^ length ess) (d_revision (r_doc r))"
proof (induction ess arbitrary: i r)
  case (Cons es ess)
  have "edits_valid es (d_text (r_doc r))" using Cons.prems(2) by simp
  note o = replay_one_facts [OF Cons.prems(1) this, of s i]
  from Cons.IH [OF o(1)] o(2,3) Cons.prems(2) show ?case by (simp add: funpow_swap1)
qed simp

lemma place_line_range: "u_line (place es uh c n) < max n 1"
proof -
  obtain l where "1 \<le> l" "l \<le> max n 1" "u_line (place es uh c n) = l - 1"
    using place_line [of n es uh c] by (metis undo_cursor.select_convs(1))
  then show ?thesis by simp
qed

lemma replay_facts:
  assumes "replaying r0 t0 h q \<lparr>r_doc = d, r_tracked = ts, r_entries = [], r_uh = (0, 0),
      r_lines_before = line_count (d_text d), r_before = []\<rparr>"
    and "ea.chain_valid (s_edits s) (d_text d)" "replay d s cursor ts = (u, ts', d')"
  shows "mid_inv r0 t0 d'" "d_undo d' = h" "d_saved_node d' = q" "list_all (pos_ok (d_text d')) ts'"
    "d_text d' = fold apply_to (s_edits s) (d_text d)" "d_revision d' = (next_rev ^^ length (s_edits s)) (d_revision d)"
    "u_line u < max (line_count (d_text d')) 1"
proof -
  let ?r = "\<lparr>r_doc = d, r_tracked = ts, r_entries = [], r_uh = (0, 0),
      r_lines_before = line_count (d_text d), r_before = []\<rparr>"
  define r where "r = replay_loop s 0 (s_edits s) ?r"
  have res: "ts' = r_tracked r" "d' = r_doc r" using assms(3) by (auto simp: replay_def Let_def r_def)
  have "u_line u = u_line (place (r_entries r) (if s_forward s then r_uh r else line_col (d_text (r_doc r)) (s_cursor s))
      (line_of (d_text d) cursor) (line_count (d_text (r_doc r))))"
    using assms(3) by (auto simp: replay_def Let_def r_def)
  then show "u_line u < max (line_count (d_text d')) 1" using place_line_range by (simp add: res)
  have "replaying r0 t0 h q r \<and> d_text (r_doc r) = fold apply_to (s_edits s) (d_text d) \<and>
      d_revision (r_doc r) = (next_rev ^^ length (s_edits s)) (d_revision d)"
    using replay_loop_facts [OF assms(1), of "s_edits s" s 0, folded r_def] assms(2) by simp
  then show "mid_inv r0 t0 d'" "d_undo d' = h" "d_saved_node d' = q" "list_all (pos_ok (d_text d')) ts'"
    "d_text d' = fold apply_to (s_edits s) (d_text d)" "d_revision d' = (next_rev ^^ length (s_edits s)) (d_revision d)"
    unfolding res replaying_def by blast+
qed

lemma step_inv:
  assumes inv: "doc_inv T S r0 t0 d" and ok: "ea.step_ok (d_undo d) T s h" and ts: "list_all (pos_ok (d_text d)) ts"
    and r: "navigate d (Some (s, h)) cursor ts = (u, ts', d')"
  shows "doc_inv T S r0 t0 d'" "d_undo d' = h" "d_text d' = T (h_current h)" "list_all (pos_ok (d_text d')) ts'"
    "d_saved_node d' = d_saved_node d" "d_revision d' = (next_rev ^^ length (s_edits s)) (d_revision d)"
    "\<exists>c. u = Some c \<and> u_line c < max (line_count (d_text d')) 1"
proof -
  have st: "same_tree (d_undo d) h" and hi: "hist_inv h" "ea.tree_texts h T"
    and ld: "ea.leads (s_edits s) (T (h_current (d_undo d))) (T (h_current h))"
    using ok by (simp_all add: ea.step_ok_def)
  have tx: "T (h_current (d_undo d)) = d_text d" using inv by (simp add: doc_inv_def text_inv_def)
  obtain c where u: "u = Some c" and rp: "replay (d\<lparr>d_undo := h\<rparr>) s cursor ts = (c, ts', d')"
    using r by (auto simp: navigate_def split: prod.splits)
  have "h_next_group h = h_next_group (d_undo d)" using st by (simp add: same_tree_def)
  then have "mid_inv r0 t0 (d\<lparr>d_undo := h\<rparr>)"
    using inv by (simp add: mid_inv_def doc_inv_def doc_inv_parts issued_group_def)
  then have "replaying r0 t0 h (d_saved_node d) \<lparr>r_doc = d\<lparr>d_undo := h\<rparr>, r_tracked = ts, r_entries = [], r_uh = (0, 0),
      r_lines_before = line_count (d_text (d\<lparr>d_undo := h\<rparr>)), r_before = []\<rparr>"
    using ts by (simp add: replaying_def)
  moreover have "ea.chain_valid (s_edits s) (d_text (d\<lparr>d_undo := h\<rparr>))" using ld tx by (simp add: ea.leads_def)
  ultimately have f: "mid_inv r0 t0 d'" "d_undo d' = h" "d_saved_node d' = d_saved_node d" "list_all (pos_ok (d_text d')) ts'"
    "d_text d' = fold apply_to (s_edits s) (d_text (d\<lparr>d_undo := h\<rparr>))"
    "d_revision d' = (next_rev ^^ length (s_edits s)) (d_revision (d\<lparr>d_undo := h\<rparr>))"
    "u_line c < max (line_count (d_text d')) 1"
    by (rule replay_facts [OF _ _ rp])+
  show "d_undo d' = h" "list_all (pos_ok (d_text d')) ts'" "d_saved_node d' = d_saved_node d"
    "d_revision d' = (next_rev ^^ length (s_edits s)) (d_revision d)"
    "\<exists>c. u = Some c \<and> u_line c < max (line_count (d_text d')) 1" using f u by simp_all
  show tx': "d_text d' = T (h_current h)" using f(5) ld tx by (simp add: ea.leads_def)
  have "saved_inv T S d'" unfolding saved_inv_def f(2,3)
  proof (intro allI impI)
    fix q assume "d_saved_node d = Some q"
    then obtain i where i: "i < length (h_nodes (d_undo d))" "n_seq (node (d_undo d) i) = q" "T i = S"
      using inv by (auto simp: doc_inv_def saved_inv_def)
    then show "\<exists>i < length (h_nodes h). n_seq (node h i) = q \<and> T i = S"
      using same_tree_node(3) [OF st i(1)] same_tree_length [OF st] by (intro exI [of _ i]) simp
  qed
  then show "doc_inv T S r0 t0 d'" using f(1,2) hi tx' by (simp add: doc_inv_def mid_inv_def text_inv_def)
qed


lemma doc_inv_hist:
  assumes "doc_inv T S r0 t0 d"
  shows "hist_inv (d_undo d)" "ea.tree_texts (d_undo d) T" "T (h_current (d_undo d)) = d_text d"
  using assms by (simp_all add: doc_inv_def text_inv_def)

lemma navigate_inv:
  assumes inv: "doc_inv T S r0 t0 d" and ts: "list_all (pos_ok (d_text d)) ts"
    and st: "step \<in> {undo (d_undo d), redo (d_undo d), to_chronological (d_undo d) older}"
    and r: "navigate d step cursor ts = (u, ts', d')"
  shows "doc_inv T S r0 t0 d'" "list_all (pos_ok (d_text d')) ts'" "d_saved_node d' = d_saved_node d"
proof -
  have "doc_inv T S r0 t0 d' \<and> list_all (pos_ok (d_text d')) ts' \<and> d_saved_node d' = d_saved_node d"
  proof (cases step)
    case None
    then show ?thesis using r inv ts by (simp add: navigate_def)
  next
    case (Some sh)
    obtain s h where sh: "sh = (s, h)" by (cases sh)
    have ok: "ea.step_ok (d_undo d) T s h"
      using step_ok_of [OF doc_inv_hist(1,2) [OF inv], where s=s and h'=h] st Some sh by auto
    from step_inv [OF inv ok ts r [unfolded Some sh]] show ?thesis by blast
  qed
  then show "doc_inv T S r0 t0 d'" "list_all (pos_ok (d_text d')) ts'" "d_saved_node d' = d_saved_node d" by blast+
qed

section \<open>The line undo\<close>

lemma apply_inner_ok:
  assumes "t_base_revision txn = d_revision d" "edits_valid (t_edits txn) (d_text d)"
    and "apply_inner d txn trk ts = (res, ts', d')"
  shows "res = Inr (next_rev (d_revision d))" "d_text d' = apply_to (t_edits txn) (d_text d)"
    "d_saved_node d' = d_saved_node d" "d_revision d' = next_rev (d_revision d)"
proof -
  have wf: "edits_wf (t_edits txn)" using assms(2) by (simp add: edits_valid_def)
  have "res = Inr (next_rev (d_revision d)) \<and> d_text d' = apply_to (t_edits txn) (d_text d) \<and>
      d_saved_node d' = d_saved_node d \<and> d_revision d' = next_rev (d_revision d)"
    using wf assms(3)
  proof (cases rule: apply_inner_cases)
    case stale
    then show ?thesis using assms(1) by simp
  next
    case (range f)
    then show ?thesis using assms(2) by (auto simp: edits_valid_def in_bounds_def)
  next
    case idle
    then show ?thesis by simp
  next
    case committed
    then show ?thesis using commit_moved [of txn d trk ts] commit_sel(1) [of d' d txn trk ts]
      by (simp add: moved_by_def)
  qed
  then show "res = Inr (next_rev (d_revision d))" "d_text d' = apply_to (t_edits txn) (d_text d)"
    "d_saved_node d' = d_saved_node d" "d_revision d' = next_rev (d_revision d)" by blast+
qed

text \<open>An edit that changes nothing may be left out.\<close>

lemma apply_single:
  assumes "edit_end e \<le> length tx" "es = (if changes_something e then [e] else [])"
  shows "apply_to es tx = apply_to [e] tx" "edits_valid es tx"
  using assms by (auto simp: changes_something_def apply_to_def edit_end_def slice_def edits_valid_def edits_wf_def in_bounds_def)

lemma lu_swap_line:
  assumes "saved_ok lu" "lu_swap lu tx c = (Some (s, e, new, col), lu')"
  shows "s \<le> e" "e \<le> length tx" "count_newlines (apply_to [edit_replace s (e - s) new] tx) = count_newlines tx"
proof -
  obtain sv where sv: "lu_saved lu = Some sv" "bounds_of tx (sv_line sv) = Some (s, e)" "new = sv_text sv"
    using assms(2) by (auto simp: lu_swap_def split: option.splits prod.splits)
  note b = bounds_ofD [OF sv(2)]
  show "s \<le> e" "e \<le> length tx" by (rule b)+
  have "tx = take s tx @ slice s e tx @ drop e tx" using b(1) by (simp add: slice_append_drop)
  then have "count_newlines tx = count_newlines (take s tx) + count_newlines (slice s e tx) + count_newlines (drop e tx)"
    by (metis count_newlines_simps(3) add.assoc)
  moreover have "count_newlines (slice s e tx) = 0" "count_newlines new = 0"
    using b(3) assms(1) sv by (simp_all add: count_newlines_0_iff saved_ok_def)
  ultimately show "count_newlines (apply_to [edit_replace s (e - s) new] tx) = count_newlines tx"
    using b by (simp add: apply_replace)
qed

lemma line_undo_inv:
  assumes inv: "doc_inv T S r0 t0 d"
  shows "\<exists>r ts' d' T'. line_undo_tracked d c og ts = Some (r, ts', d') \<and> doc_inv T' S r0 t0 d' \<and>
    d_saved_node d' = d_saved_node d \<and> (\<forall>i < length (h_nodes (d_undo d)). T' i = T i) \<and>
    count_newlines (d_text d') = count_newlines (d_text d)"
proof -
  obtain sw lu where sl: "lu_swap (d_line_undo d) (d_text d) c = (sw, lu)" by (cases "lu_swap (d_line_undo d) (d_text d) c")
  define d1 where "d1 = d\<lparr>d_line_undo := lu\<rparr>"
  have so: "saved_ok (d_line_undo d)" using inv by (simp add: doc_inv_def marks_inv_def)
  then have "saved_ok lu" using lu_swap_ok [OF so, of "d_text d" c] by (simp add: sl)
  then have inv1: "doc_inv T S r0 t0 d1" using inv by (simp add: d1_def doc_inv_def doc_inv_parts)
  show ?thesis
  proof (cases sw)
    case None
    then show ?thesis using sl inv1 by (auto simp: line_undo_tracked_def d1_def)
  next
    case (Some x)
    then obtain s e tx col where x: "sw = Some (s, e, tx, col)" by (metis prod_cases4)
    note ln = lu_swap_line [OF so sl [unfolded x]]
    let ?e = "edit_replace s (e - s) tx"
    define es where "es = (if changes_something ?e then [?e] else [])"
    define txn where "txn = with_cursor (with_hint (transaction_new (d_revision d1) es og) BreakBefore) c"
    have tx: "swap_txn (d_revision d1) s e tx og c = Inr txn"
      by (simp add: swap_txn_def edit_list_new_single txn_def es_def)
    have "edit_end ?e \<le> length (d_text d1)" using ln(1,2) by (simp add: d1_def edit_replace_def edit_end_def)
    note one = apply_single [OF this es_def]
    obtain res ts' d2 where ap: "apply_inner d1 txn False ts = (res, ts', d2)" by (metis prod_cases3)
    have v: "edits_valid (t_edits txn) (d_text d1)" and wf: "edits_wf (t_edits txn)"
      using one(2) by (simp_all add: txn_def edits_valid_def)
    have "t_base_revision txn = d_revision d1" by (simp add: txn_def)
    note ok = apply_inner_ok [OF this v ap]
    obtain T' where "doc_inv T' S r0 t0 d2" "\<forall>i < length (h_nodes (d_undo d1)). T' i = T i"
      using apply_inner_inv [OF inv1 wf ap] by blast
    moreover have "count_newlines (d_text d2) = count_newlines (d_text d)"
      using ok(2) one(1) ln(3) by (simp add: txn_def d1_def)
    moreover have "line_undo_tracked d c og ts = Some (Some (s + min col (length tx)), ts', d2)"
      using sl x tx ap ok(1) by (auto simp: line_undo_tracked_def d1_def)
    ultimately show ?thesis using ok(3) by (auto simp: d1_def)
  qed
qed

section \<open>Reloading\<close>

lemma sync_doc_inv: "doc_inv T S r0 t0 d \<Longrightarrow> doc_inv T S r0 t0 (sync_undo d)"
  by (simp add: doc_inv_def doc_inv_parts sync_undo_def sync_hist_inv ea.sync_texts)
    (simp add: sync_def issued_group_def)

lemma mark_saved_inv:
  assumes "doc_inv T S r0 t0 d"
  shows "doc_inv T (d_text d) r0 t0 (mark_saved d)"
proof -
  have "saved_inv T (d_text d) (mark_saved d)"
    using hist_invD(3) [OF doc_inv_hist(1) [OF assms]] doc_inv_hist(3) [OF assms]
    by (auto simp: saved_inv_def mark_saved_def current_seq_def sync_def)
  moreover have "doc_inv T S r0 t0 (sync_undo d)" by (rule sync_doc_inv [OF assms])
  ultimately show ?thesis
    by (simp add: doc_inv_def text_inv_def anchors_inv_def caches_inv_def marks_inv_def mark_saved_def sync_undo_def)
qed

lemma reload_inv:
  assumes inv: "doc_inv T S r0 t0 d" and r: "reload_tracked d bs ts = (ok, ts', d')"
  shows "ok" "d_text d' = bs" "\<not> is_modified d'" "\<exists>T'. doc_inv T' bs r0 t0 d'"
proof -
  let ?e = "lines_changed (d_text d) bs"
  define es where "es = (if changes_something ?e then [?e] else [])"
  define txn where "txn = transaction_new (d_revision d) es UserInput"
  have inv1: "doc_inv T S r0 t0 (sync_undo d)" by (rule sync_doc_inv [OF inv])
  obtain res ts2 d2 where ap: "apply_inner (sync_undo d) txn True ts = (res, ts2, d2)" by (metis prod_cases3)
  have "edit_end ?e \<le> length (d_text d)" using in_bounds_lines_changed [of "d_text d" bs] by simp
  note one = apply_single [OF this es_def]
  have v: "edits_valid (t_edits txn) (d_text (sync_undo d))" and wf: "edits_wf (t_edits txn)"
    using one(2) by (simp_all add: txn_def edits_valid_def sync_undo_def)
  have "t_base_revision txn = d_revision (sync_undo d)" by (simp add: txn_def sync_undo_def)
  note a = apply_inner_ok [OF this v ap]
  have res: "ok = (\<not> isl res)" "d' = mark_saved (sync_undo d2)"
    using r ap by (auto simp: reload_tracked_def edit_list_new_single apply_tracked_def txn_def es_def)
  have tx: "d_text d2 = bs" using a(2) one(1) apply_to_lines_changed [of "d_text d" bs] by (simp add: txn_def sync_undo_def)
  show ok using res(1) a(1) by simp
  show "d_text d' = bs" by (simp add: res(2) mark_saved_def sync_undo_def tx)
  show "\<not> is_modified d'" by (simp add: res(2) is_modified_def mark_saved_def current_seq_def sync_def)
  obtain T' where "doc_inv T' S r0 t0 d2" using apply_inner_inv [OF inv1 wf ap] by blast
  from mark_saved_inv [OF sync_doc_inv [OF this]] show "\<exists>T'. doc_inv T' bs r0 t0 d'"
    unfolding res(2) by (auto simp: sync_undo_def tx)
qed


section \<open>Creating and removing anchors\<close>

definition spot_ok :: "bytes \<Rightarrow> track \<Rightarrow> nat \<Rightarrow> bool" where
  "spot_ok tx tr off \<longleftrightarrow> off \<le> length tx \<and> (case tr of Line _ \<Rightarrow> is_boundary tx off | Byte _ \<Rightarrow> True)"

definition anchored :: "bytes \<Rightarrow> anchor_store \<Rightarrow> bool" where
  "anchored tx st \<longleftrightarrow> store_ok st \<and> within st (length tx) \<and> anchors_on tx st"

lemma offset_of_cong: "st_shift st' = st_shift st \<Longrightarrow> offset_of st' a = offset_of st a"
  by (simp only: offset_of_abs abs_off_cong [of st' st])

lemma insert_anchored:
  assumes a: "anchored tx st" and sp: "spot_ok tx tr off" and ins: "insert_tracked st off tr po = (i, st')"
  shows "anchored tx st'"
proof -
  define b where "b = \<lparr>an_off = int off, an_track = tr, an_policy = po, an_inval = False, an_rank = None\<rparr>"
  have ok: "store_ok st" using a by (simp add: anchored_def)
  have f: "free_ok st" using ok by (simp add: store_ok_def)
  have sh: "st_shift st' = st_shift st" using ins by (auto simp: insert_tracked_def Let_def split: if_splits)
  have lv: "c = b \<or> live st k c" if "live st' k c" for k c
    using f ins that by (cases rule: insert_tracked_cases)
      (auto simp: live_def b_def slot_update nth_append split: if_splits)
  have ob: "offset_of st' b = off" by (simp add: b_def offset_of_def)
  have "offset_of st' c \<le> length tx \<and> anchor_on tx c (offset_of st' c)" if "live st' k c" for k c
    using lv [OF that]
  proof
    assume "c = b"
    then show ?thesis using sp ob by (auto simp: spot_ok_def anchor_on_def b_def split: track.splits)
  next
    assume "live st k c"
    then show ?thesis using a offset_of_cong [OF sh] by (simp add: anchored_def within_def anchors_on_def)
  qed
  moreover have "store_ok st'" using insert_tracked_ok [OF ok, of off tr po] by (simp add: ins)
  ultimately show ?thesis by (simp add: anchored_def within_def anchors_on_def)
qed

lemma remove_anchored:
  assumes a: "anchored tx st" and r: "anchor_remove st i = (b, st')"
  shows "anchored tx st'"
proof -
  have ok: "store_ok st'" using anchor_remove_ok [of st i] a r by (simp add: anchored_def)
  have sh: "st_shift st' = st_shift st" using r by (cases rule: anchor_remove_cases) simp_all
  have "live st k c" if "live st' k c" for k c
    using r
  proof (cases rule: anchor_remove_cases)
    case (gone a)
    then show ?thesis using that by (cases "k = id_slot i") (auto simp: live_def)
  qed (use that in simp)
  then show ?thesis using a ok unfolding anchored_def within_def anchors_on_def offset_of_cong [OF sh] by blast
qed

lemma insert_all_anchored:
  "anchored tx st \<Longrightarrow> list_all (\<lambda>(off, _, _). off \<le> length tx) specs \<Longrightarrow> anchored tx (snd (insert_all st specs))"
proof (induction st specs rule: insert_all.induct)
  case (2 st off bi po specs)
  obtain i st1 where i: "anchor_insert st off bi po = (i, st1)" by (cases "anchor_insert st off bi po")
  have "anchored tx st1" by (rule insert_anchored [OF "2.prems"(1), of "Byte bi" off po i])
    (use "2.prems"(2) i in \<open>simp_all add: spot_ok_def anchor_insert_def\<close>)
  with "2.IH" [OF i [symmetric] refl] "2.prems"(2) i show ?case by (simp add: split_beta Let_def)
qed simp

lemma remove_all_anchored: "anchored tx st \<Longrightarrow> anchored tx (snd (remove_all st ids))"
proof (induction st ids rule: remove_all.induct)
  case (2 st i ids)
  obtain b st1 where b: "anchor_remove st i = (b, st1)" by (cases "anchor_remove st i")
  have "anchored tx st1" by (rule remove_anchored [OF "2.prems" b])
  with "2.IH" [OF b [symmetric] refl] b show ?case by (simp add: split_beta Let_def)
qed simp

lemma remove_all_none: "fst (remove_all st ids) = 0 \<Longrightarrow> snd (remove_all st ids) = st"
proof (induction st ids rule: remove_all.induct)
  case (2 st i ids)
  obtain b st1 where b: "anchor_remove st i = (b, st1)" by (cases "anchor_remove st i")
  have nb: "\<not> b" using "2.prems" b by (auto simp: split_beta Let_def split: if_splits)
  have "st1 = st" using b by (cases rule: anchor_remove_cases) (use nb in simp_all)
  with "2.IH" [OF b [symmetric] refl] "2.prems" b nb show ?case by (simp add: split_beta Let_def)
qed simp

lemma anchors_changed_inv:
  assumes "doc_inv T S r0 t0 d" "anchored (d_text d) st" "ix = None \<or> st = d_anchors d \<and> ix = d_index d"
  shows "doc_inv T S r0 t0 (d\<lparr>d_anchors := st, d_index := ix\<rparr>)"
  using assms by (auto simp: doc_inv_def doc_inv_parts anchored_def)

section \<open>Snapshots\<close>

lemma map_of_filter_map:
  assumes "distinct xs" "\<And>x. x \<in> set xs \<Longrightarrow> f x \<noteq> None \<Longrightarrow> fst (the (f x)) = g x" "inj_on g (set xs)"
  shows "x \<in> set xs \<Longrightarrow> map_of (List.map_filter f xs) (g x) = map_option snd (f x)"
  using assms
proof (induction xs)
  case (Cons y ys)
  show ?case
  proof (cases "x = y")
    case True
    have "g y \<noteq> g z" if "z \<in> set ys" for z using Cons.prems(2,4) that by (auto simp: inj_on_def)
    then have "map_of (List.map_filter f ys) (g y) = None"
      using Cons.prems(3) by (fastforce simp: map_of_eq_None_iff set_map_filter)
    then show ?thesis using True Cons.prems(3) [of y] by (cases "f y") (auto simp: map_filter_cons)
  next
    case False
    then have x: "x \<in> set ys" using Cons.prems(1) by simp
    have "g x \<noteq> g y" using Cons.prems(1,4) False by (auto simp: inj_on_def)
    moreover have "map_of (List.map_filter f ys) (g x) = map_option snd (f x)"
      using Cons.IH [OF x] Cons.prems by (auto simp: inj_on_def)
    ultimately show ?thesis using Cons.prems(3) [of y] by (cases "f y") (auto simp: map_filter_cons)
  qed
qed simp

lemma find_map_of: "map_option snd (List.find (\<lambda>(k, _). k = i) ix) = map_of ix i"
  by (induction ix) auto

lemma map_of_sorted:
  assumes "distinct (map fst xs)"
  shows "map_of (sort_key f xs) = map_of xs"
proof -
  have "distinct (map fst (sort_key f xs))"
    using assms by (metis mset_eq_imp_distinct_iff mset_map mset_sort)
  then show ?thesis using assms by (intro map_of_eqI) (auto simp: map_of_eq_Some_iff intro!: map_of_eq_Some_iff [THEN iffD1])
qed


lemma resolved_lookup:
  assumes "distinct xs" "set xs \<subseteq> {..<length (st_slots st)}" "\<And>j a. live st j a \<Longrightarrow> j \<in> set xs"
  shows "map_of (List.map_filter (resolved_entry st) xs) i = try_resolve st i"
proof (cases "id_slot i \<in> set xs \<and> sl_gen (st_slots st ! id_slot i) = id_gen i")
  case True
  let ?g = "\<lambda>j. \<lparr>id_slot = j, id_gen = sl_gen (st_slots st ! j)\<rparr>"
  have "map_of (List.map_filter (resolved_entry st) xs) (?g (id_slot i)) = map_option snd (resolved_entry st (id_slot i))"
    by (rule map_of_filter_map [OF assms(1)]) (use True in \<open>auto simp: resolved_entry_def inj_on_def\<close>)
  moreover have "?g (id_slot i) = i" using True by (cases i) simp
  ultimately have "map_of (List.map_filter (resolved_entry st) xs) i = map_option snd (resolved_entry st (id_slot i))"
    by (simp only:)
  moreover have "id_slot i < length (st_slots st)" using True assms(2) by auto
  ultimately show ?thesis using True
    by (simp add: resolved_entry_def try_resolve_def anchor_get_def get_at_def option.map_comp comp_def)
next
  case False
  have "anchor_get st i \<noteq> Some a" for a using False assms(3) [of "id_slot i" a] by (auto simp: anchor_get_live)
  then have "anchor_get st i = None" by (metis option.exhaust)
  then have "try_resolve st i = None" by (simp add: try_resolve_def)
  moreover have "i \<notin> fst ` set (List.map_filter (resolved_entry st) xs)"
    using False by (auto simp: set_map_filter resolved_entry_def)
  ultimately show ?thesis by (simp add: map_of_eq_None_iff)
qed

lemma store_resolved_lookup:
  assumes "store_ok st"
  shows "index_resolve (store_resolved st) i = try_resolve st i"
proof -
  have all: "map_of (List.map_filter (resolved_entry st) [0..<length (st_slots st)]) i = try_resolve st i" for i
    by (rule resolved_lookup) (auto simp: live_def)
  have d: "distinct (map fst (List.map_filter (resolved_entry st) [0..<n]))" for n
  proof (induction n)
    case (Suc n)
    then show ?case
      by (auto simp: map_filter_snoc map_filter_cons List.map_filter_simps resolved_entry_def set_map_filter split: option.splits)
  qed (simp add: List.map_filter_simps)
  have "map_of (store_resolved st) i = try_resolve st i"
  proof (cases "st_stale st")
    case True
    then show ?thesis by (simp only: store_resolved_def if_True map_of_sorted [OF d] all)
  next
    case False
    then have o: "ordered st" using assms by (simp add: store_ok_def)
    then have "map_of (List.map_filter (resolved_entry st) (st_order st)) i = try_resolve st i"
      by (intro resolved_lookup) (auto simp: ordered_def live_def)
    then show ?thesis using False by (simp add: store_resolved_def)
  qed
  then show ?thesis by (simp add: index_resolve_def find_map_of)
qed

end
