(* ===== verification/Document_Safety.thy ===== *)
theory Document_Safety
  imports Document_Steps
begin

text \<open>
  The documents a frontend can reach, as a step relation over the operations of \<^verbatim>\<open>Document\<close>, and the
  document's properties: its invariants, atomic transactions, exact undo, the modified flag, the change
  log's drains, snapshots, reloads and line lookups.
\<close>

section \<open>The step relation\<close>

text \<open>
  \<open>edit_step\<close> is every operation that neither saves nor drains.  Its conditions are what the operations'
  types promise: an \<^verbatim>\<open>EditList\<close> is well-formed, and positions handed over lie in the text (a line anchor's
  at a character boundary).
\<close>

inductive edit_step :: "document \<Rightarrow> document \<Rightarrow> bool" where
  step_apply: "edits_wf (t_edits txn) \<Longrightarrow> apply_tracked d txn ts = (res, ts', d') \<Longrightarrow> edit_step d d'"
| step_undo: "list_all (pos_ok (d_text d)) ts \<Longrightarrow> undo_tracked d c ts = (u, ts', d') \<Longrightarrow> edit_step d d'"
| step_redo: "list_all (pos_ok (d_text d)) ts \<Longrightarrow> redo_tracked d c ts = (u, ts', d') \<Longrightarrow> edit_step d d'"
| step_chrono: "list_all (pos_ok (d_text d)) ts \<Longrightarrow> chronological_tracked d older c ts = (u, ts', d') \<Longrightarrow> edit_step d d'"
| step_line_undo: "line_undo_tracked d c og ts = Some (r, ts', d') \<Longrightarrow> edit_step d d'"
| step_sync: "edit_step d (sync_undo d)"
| step_unsaved: "edit_step d (mark_unsaved d)"
| step_begin: "edit_step d (begin_undo_block d)"
| step_end: "edit_step d (end_undo_block d)"
| step_prime: "edit_step d (prime_line_undo d c new_command)"
| step_clear: "edit_step d (clear_line_undo d disarm)"
| step_modifiable: "edit_step d (set_modifiable d on)"
| step_record: "edit_step d (record_changes d on)"
| step_cap: "edit_step d (set_change_log_cap d cap)"
| step_line_anchor: "spot_ok (d_text d) (Line g) off \<Longrightarrow> create_line_anchor d off g = (i, d') \<Longrightarrow> edit_step d d'"
| step_anchor: "spot_ok (d_text d) (Byte bi) off \<Longrightarrow> create_anchor d off bi po = (i, d') \<Longrightarrow> edit_step d d'"
| step_anchors: "list_all (\<lambda>(off, _, _). off \<le> length (d_text d)) specs \<Longrightarrow> create_anchors d specs = (ids, d') \<Longrightarrow> edit_step d d'"
| step_remove: "remove_anchor d i = (b, d') \<Longrightarrow> edit_step d d'"
| step_removes: "remove_anchors d ids = (n, d') \<Longrightarrow> edit_step d d'"
| step_pin: "list_all (pos_ok (d_text d)) ts \<Longrightarrow> pin_tracked d ts = (n, d') \<Longrightarrow> edit_step d d'"
| step_take: "take_pinned d = (ts, d') \<Longrightarrow> edit_step d d'"
| step_snapshot: "snapshot d = (sn, d') \<Longrightarrow> edit_step d d'"
| step_lines: "line_starts d = (ss, d') \<Longrightarrow> edit_step d d'"

inductive doc_reach :: "document \<Rightarrow> bool" where
  reach_start: "doc_reach (starting_at i tx rv)"
| reach_edit: "doc_reach d \<Longrightarrow> edit_step d d' \<Longrightarrow> doc_reach d'"
| reach_save: "doc_reach d \<Longrightarrow> doc_reach (mark_saved d)"
| reach_reload: "doc_reach d \<Longrightarrow> reload_tracked d bs ts = (ok, ts', d') \<Longrightarrow> doc_reach d'"
| reach_drain: "doc_reach d \<Longrightarrow> drain_changes d = (dr, d') \<Longrightarrow> doc_reach d'"

section \<open>Steps keep the invariant\<close>

lemma line_starts_inv:
  assumes "doc_inv T S r0 t0 d" "line_starts d = (ss, d')"
  shows "ss = starts_spec (d_text d)" "doc_inv T S r0 t0 d'"
proof -
  have "ss = starts_spec (d_text d) \<and> doc_inv T S r0 t0 d'"
    using assms by (auto simp: doc_inv_def doc_inv_parts line_starts_def line_starts_of_spec Let_def split: option.splits)
  then show "ss = starts_spec (d_text d)" "doc_inv T S r0 t0 d'" by blast+
qed

lemma snapshot_inv:
  assumes "doc_inv T S r0 t0 d" "snapshot d = (sn, d')"
  shows "sn_anchors sn = store_resolved (d_anchors d)" "doc_inv T S r0 t0 d'"
proof -
  have "sn_anchors sn = store_resolved (d_anchors d) \<and> doc_inv T S r0 t0 d'"
    using assms by (auto simp: doc_inv_def doc_inv_parts snapshot_def snapshot_new_def from_entries_def Let_def split: option.splits)
  then show "sn_anchors sn = store_resolved (d_anchors d)" "doc_inv T S r0 t0 d'" by blast+
qed

lemma anchored_doc: "doc_inv T S r0 t0 d \<Longrightarrow> anchored (d_text d) (d_anchors d)"
  by (simp add: doc_inv_def anchors_inv_def anchored_def)

lemma anchor_steps_inv:
  assumes inv: "doc_inv T S r0 t0 d"
  shows "spot_ok (d_text d) (Line g) off \<Longrightarrow> doc_inv T S r0 t0 (snd (create_line_anchor d off g))"
    "spot_ok (d_text d) (Byte bi) off \<Longrightarrow> doc_inv T S r0 t0 (snd (create_anchor d off bi po))"
    "list_all (\<lambda>(off, _, _). off \<le> length (d_text d)) specs \<Longrightarrow> doc_inv T S r0 t0 (snd (create_anchors d specs))"
    "doc_inv T S r0 t0 (snd (remove_anchor d i))" "doc_inv T S r0 t0 (snd (remove_anchors d ids))"
proof -
  note an = anchored_doc [OF inv]
  have reset: "doc_inv T S r0 t0 (rebuild_index (d\<lparr>d_anchors := st\<rparr>))" if "anchored (d_text d) st" for st
    using anchors_changed_inv [OF inv that, of None] by (simp add: rebuild_index_def)
  show "doc_inv T S r0 t0 (snd (create_line_anchor d off g))" if "spot_ok (d_text d) (Line g) off"
    using reset [OF insert_anchored [OF an that surjective_pairing, of Clamp]]
    by (simp add: create_line_anchor_def insert_line_def split_beta Let_def)
  show "doc_inv T S r0 t0 (snd (create_anchor d off bi po))" if "spot_ok (d_text d) (Byte bi) off"
    using reset [OF insert_anchored [OF an that surjective_pairing, of po]]
    by (simp add: create_anchor_def anchor_insert_def split_beta Let_def)
  show "doc_inv T S r0 t0 (snd (create_anchors d specs))" if "list_all (\<lambda>(off, _, _). off \<le> length (d_text d)) specs"
    using reset [OF insert_all_anchored [OF an that]] by (simp add: create_anchors_def split_beta Let_def)
  obtain b st where r: "anchor_remove (d_anchors d) i = (b, st)" by (cases "anchor_remove (d_anchors d) i")
  have "st = d_anchors d" if "\<not> b" using r by (cases rule: anchor_remove_cases) (use that in simp_all)
  then show "doc_inv T S r0 t0 (snd (remove_anchor d i))"
    using r reset [OF remove_anchored [OF an r]] inv by (cases b) (simp_all add: remove_anchor_def Let_def)
  show "doc_inv T S r0 t0 (snd (remove_anchors d ids))"
    using reset [OF remove_all_anchored [OF an, of ids]] remove_all_none [of "d_anchors d" ids] inv
    by (cases "fst (remove_all (d_anchors d) ids) = 0") (simp_all add: remove_anchors_def split_beta Let_def)
qed

lemma light_steps_inv:
  assumes "doc_inv T S r0 t0 d"
  shows "doc_inv T S r0 t0 (mark_unsaved d)" "doc_inv T S r0 t0 (begin_undo_block d)" "doc_inv T S r0 t0 (end_undo_block d)"
    "doc_inv T S r0 t0 (prime_line_undo d c nc)" "doc_inv T S r0 t0 (clear_line_undo d dis)"
    "doc_inv T S r0 t0 (set_modifiable d on)" "doc_inv T S r0 t0 (record_changes d on)"
    "doc_inv T S r0 t0 (set_change_log_cap d cap)" "doc_inv T S r0 t0 (snd (take_pinned d))"
    "list_all (pos_ok (d_text d)) ts \<Longrightarrow> doc_inv T S r0 t0 (snd (pin_tracked d ts))"
proof -
  note d = doc_inv_def doc_inv_parts
  show "doc_inv T S r0 t0 (mark_unsaved d)" "doc_inv T S r0 t0 (begin_undo_block d)" "doc_inv T S r0 t0 (end_undo_block d)"
    "doc_inv T S r0 t0 (set_modifiable d on)" "doc_inv T S r0 t0 (snd (take_pinned d))"
    using assms by (simp_all add: d mark_unsaved_def begin_undo_block_def end_undo_block_def set_modifiable_def take_pinned_def)
  show "doc_inv T S r0 t0 (prime_line_undo d c nc)" "doc_inv T S r0 t0 (clear_line_undo d dis)"
    using assms by (simp_all add: d prime_line_undo_def clear_line_undo_def saved_ok_def prime_def lu_clear_def Let_def)
  show "doc_inv T S r0 t0 (record_changes d on)" "doc_inv T S r0 t0 (set_change_log_cap d cap)"
    using assms by (simp_all add: d record_changes_def set_change_log_cap_def set_recording_inv set_cap_inv)
  show "list_all (pos_ok (d_text d)) ts \<Longrightarrow> doc_inv T S r0 t0 (snd (pin_tracked d ts))"
  proof -
    have "pos_ok (d_text d) (t\<lparr>tk_restore := False\<rparr>) = pos_ok (d_text d) t" for t by (simp add: pos_ok_def)
    then show "list_all (pos_ok (d_text d)) ts \<Longrightarrow> doc_inv T S r0 t0 (snd (pin_tracked d ts))"
      using assms by (simp add: d pin_tracked_def list.pred_map comp_def)
  qed
qed

text \<open>A step keeps the texts of the nodes there are, and the saved state unless it forgets it.\<close>

lemma edit_step_inv:
  assumes "edit_step d d'" "doc_inv T S r0 t0 d"
  shows "\<exists>T'. doc_inv T' S r0 t0 d'"
  using assms
proof (induction rule: edit_step.induct)
  case (step_apply txn d ts res ts' d')
  then show ?case using apply_inner_inv [of T S r0 t0 d txn True ts] by (auto simp: apply_tracked_def)
next
  case (step_undo d ts c u ts' d')
  then have "navigate d (undo (d_undo d)) c ts = (u, ts', d')" by (simp add: undo_tracked_def)
  from navigate_inv(1) [OF step_undo(3,1) _ this] show ?case by blast
next
  case (step_redo d ts c u ts' d')
  then have "navigate d (redo (d_undo d)) c ts = (u, ts', d')" by (simp add: redo_tracked_def)
  from navigate_inv(1) [OF step_redo(3,1) _ this] show ?case by blast
next
  case (step_chrono d ts older c u ts' d')
  then have "navigate d (to_chronological (d_undo d) older) c ts = (u, ts', d')" by (simp add: chronological_tracked_def)
  from navigate_inv(1) [OF step_chrono(3,1) _ this] show ?case by blast
next
  case (step_line_undo d c og ts r ts' d')
  then show ?case using line_undo_inv [of T S r0 t0 d c og ts] by auto
next
  case (step_sync d)
  then show ?case using sync_doc_inv by blast
next
  case (step_line_anchor d g off i d')
  then show ?case using anchor_steps_inv(1) by (metis snd_conv)
next
  case (step_anchor d bi off po i d')
  then show ?case using anchor_steps_inv(2) by (metis snd_conv)
next
  case (step_anchors d specs ids d')
  then show ?case using anchor_steps_inv(3) by (metis snd_conv)
next
  case (step_remove d i b d')
  then show ?case using anchor_steps_inv(4) by (metis snd_conv)
next
  case (step_removes d ids n d')
  then show ?case using anchor_steps_inv(5) by (metis snd_conv)
next
  case (step_pin d ts n d')
  then show ?case using light_steps_inv(10) by (metis snd_conv)
next
  case (step_take d ts d')
  then show ?case using light_steps_inv(9) by (metis snd_conv)
next
  case (step_snapshot d sn d')
  then show ?case using snapshot_inv(2) by blast
next
  case (step_lines d ss d')
  then show ?case using line_starts_inv(2) by blast
next
  case (step_unsaved d)
  then show ?case using light_steps_inv(1) by blast
next
  case (step_begin d)
  then show ?case using light_steps_inv(2) by blast
next
  case (step_end d)
  then show ?case using light_steps_inv(3) by blast
next
  case (step_prime d c new_command)
  then show ?case using light_steps_inv(4) by blast
next
  case (step_clear d disarm)
  then show ?case using light_steps_inv(5) by blast
next
  case (step_modifiable d on)
  then show ?case using light_steps_inv(6) by blast
next
  case (step_record d on)
  then show ?case using light_steps_inv(7) by blast
next
  case (step_cap d cap)
  then show ?case using light_steps_inv(8) by blast
qed

lemma edit_steps_inv: "edit_step\<^sup>*\<^sup>* d d' \<Longrightarrow> doc_inv T S r0 t0 d \<Longrightarrow> \<exists>T'. doc_inv T' S r0 t0 d'"
  by (induction arbitrary: T rule: converse_rtranclp_induct) (blast dest: edit_step_inv)+

lemma doc_reach_inv: "doc_reach d \<Longrightarrow> \<exists>T S r0 t0. doc_inv T S r0 t0 d"
proof (induction rule: doc_reach.induct)
  case (reach_start i tx rv)
  show ?case using starting_at_inv by blast
next
  case (reach_edit d d')
  then show ?case using edit_step_inv by blast
next
  case (reach_save d)
  then show ?case using mark_saved_inv by blast
next
  case (reach_reload d bs ts ok ts' d')
  then show ?case using reload_inv(4) by blast
next
  case (reach_drain d dr d')
  then obtain T S r0 t0 where i: "doc_inv T S r0 t0 d" by blast
  have "d' = d\<lparr>d_changes := snd (drain (d_changes d) (d_text d) (d_revision d) (current_seq (d_undo d)))\<rparr>"
    using reach_drain(2) by (auto simp: drain_changes_def split_beta Let_def)
  then have "doc_inv T S (d_revision d) (d_text d) d'" using i drain_inv by (simp add: doc_inv_def doc_inv_parts)
  then show ?case by blast
qed

end
