(* ===== verification/Document_Laws.thy ===== *)
theory Document_Laws
  imports Document_Safety
begin

text \<open>The properties of the document.\<close>

section \<open>Undoing a change of its own group\<close>

lemma undo_own_group:
  assumes h: "hist_inv h" and r: "h1 = record_change h f b og hint rv cu" and fresh: "fst (group_for h og hint) = h_next_group h"
    and same: "h_nodes h2 = h_nodes h1" "h_current h2 = h_current h1"
  shows "\<exists>s h'. undo h2 = Some (s, h') \<and> h_current h' = h_current h"
proof -
  note d = hist_invD [OF h]
  note sel = record_change_sel [OF d(3) r] and old = record_change_old [OF d(3) r]
  let ?n = "length (h_nodes h)" and ?c = "h_current h"
  have nd: "node h2 ?n = \<lparr>n_parent = Some ?c, n_children = [], n_seq = h_next_seq h, n_group = h_next_group h,
      n_forward = Some f, n_inverse = Some b, n_origin = Some og, n_result_revision = rv, n_redo_child = None, n_cursor = cu\<rparr>"
    using sel(8) fresh same(1) by simp
  have cur: "h_current h2 = ?n" "length (h_nodes h2) = Suc ?n" using sel(1,2) same by simp_all
  have "0 < ?n" using d(3) by linarith
  then obtain k where fuel: "length (h_nodes h2) = Suc (Suc k)" using cur(2) gr0_implies_Suc by auto
  have "n_group (node h ?c) < h_next_group h" using d(1,3) by (simp add: tree_inv_def node_invariants_def)
  moreover have "n_group (node (set_redo_child ?c ?n h2) ?c) = n_group (node h ?c)"
    using d(3) old(3) [OF d(3)] same(1) cur(2) by (simp add: set_redo_child_def nth_list_update)
  ultimately have stop: "n_group (node (set_redo_child ?c ?n h2) ?c) \<noteq> h_next_group h" by simp
  let ?w = "([b], [h_next_group h], [(n_seq (node h2 ?c), Some og)], cu)"
  have "undo_loop (Suc k) (h_next_group h) ((set_redo_child ?c ?n h2)\<lparr>h_current := ?c\<rparr>) ?w =
      Some ((set_redo_child ?c ?n h2)\<lparr>h_current := ?c\<rparr>, ?w)"
    using stop by (simp add: Let_def split: option.splits)
  then have "undo_loop (length (h_nodes h2)) (h_next_group h) h2 ([], [], [], 0) =
      Some ((set_redo_child ?c ?n h2)\<lparr>h_current := ?c\<rparr>, ?w)"
    unfolding fuel by (subst undo_loop.simps) (simp only: cur(1) nd Let_def undo_node.select_convs option.case append_Nil if_True if_False simp_thms)
  then show ?thesis by (simp add: undo_def cur nd)
qed

lemma group_fresh:
  "hint = BreakBefore \<or> hint = Continue \<and> h_synced h \<Longrightarrow> fst (group_for h og hint) = h_next_group h"
  by (auto simp: group_for_def fresh_group_def Let_def)

text \<open>An undo on the document goes to the text of the node the history moves to.\<close>

lemma doc_undo_text:
  assumes inv: "doc_inv T S r0 t0 d" and u: "undo (d_undo d) = Some (s, h)" and r: "doc_undo d = (rv, d')"
  shows "d_text d' = T (h_current h)" "d_undo d' = h" "rv = Some (d_revision d')" "doc_inv T S r0 t0 d'"
proof -
  have ok: "ea.step_ok (d_undo d) T s h" by (rule step_ok_of(1) [OF doc_inv_hist(1,2) [OF inv] u])
  obtain c ts' where n: "navigate d (Some (s, h)) 0 [] = (c, ts', d')" "rv = map_option (\<lambda>_. d_revision d') c"
    using r u by (auto simp: doc_undo_def undo_from_def undo_tracked_def split: prod.splits)
  from step_inv [OF inv ok _ n(1)] n(2)
  show "d_text d' = T (h_current h)" "d_undo d' = h" "rv = Some (d_revision d')" "doc_inv T S r0 t0 d'" by auto
qed

lemma doc_redo_text:
  assumes inv: "doc_inv T S r0 t0 d" and u: "redo (d_undo d) = Some (s, h)" and r: "doc_redo d = (rv, d')"
  shows "d_text d' = T (h_current h)" "d_undo d' = h" "rv = Some (d_revision d')" "doc_inv T S r0 t0 d'"
proof -
  have ok: "ea.step_ok (d_undo d) T s h" by (rule step_ok_of(2) [OF doc_inv_hist(1,2) [OF inv] u])
  obtain c ts' where n: "navigate d (Some (s, h)) 0 [] = (c, ts', d')" "rv = map_option (\<lambda>_. d_revision d') c"
    using r u by (auto simp: doc_redo_def redo_from_def redo_tracked_def split: prod.splits)
  from step_inv [OF inv ok _ n(1)] n(2)
  show "d_text d' = T (h_current h)" "d_undo d' = h" "rv = Some (d_revision d')" "doc_inv T S r0 t0 d'" by auto
qed

text \<open>A committed change with a group of its own is taken back by one undo, and brought back by one redo.\<close>

lemma commit_undo:
  assumes inv: "doc_inv T S r0 t0 d" and v: "edits_valid (t_edits txn) (d_text d)" and d1: "d1 = snd (commit d txn trk ts)"
    and fresh: "fst (group_for (d_undo d) (t_origin txn) (effective_hint d (t_group_hint txn))) = h_next_group (d_undo d)"
    and inv2: "doc_inv (T(length (h_nodes (d_undo d)) := d_text d1)) S' r1 t1 d2" and t2: "d_text d2 = d_text d1"
    and same: "h_nodes (d_undo d2) = h_nodes (d_undo d1)" "h_current (d_undo d2) = h_current (d_undo d1)"
  shows "\<exists>r2 d3. doc_undo d2 = (Some r2, d3) \<and> d_text d3 = d_text d \<and>
    (\<exists>r3 d4. doc_redo d3 = (Some r3, d4) \<and> d_text d4 = d_text d1)"
proof -
  let ?n = "length (h_nodes (d_undo d))"
  note h = doc_inv_hist [OF inv] and h2 = doc_inv_hist [OF inv2]
  have c: "h_current (d_undo d) < ?n" by (rule hist_invD(3) [OF h(1)])
  obtain s h' where u: "undo (d_undo d2) = Some (s, h')" "h_current h' = h_current (d_undo d)"
    using undo_own_group [OF h(1) commit_sel(3) [OF d1] fresh same] by blast
  obtain rv d3 where du: "doc_undo d2 = (rv, d3)" by (cases "doc_undo d2")
  note t3 = doc_undo_text [OF inv2 u(1) du]
  have tx3: "d_text d3 = d_text d" using t3(1) u(2) c h(3) by simp
  obtain s2 h4 where rd: "redo h' = Some (s2, h4)" "h_current h4 = h_current (d_undo d2)"
    using ea.undo_then_redo [OF h2(1,2) u(1)] by blast
  obtain rv4 d4 where dr: "doc_redo d3 = (rv4, d4)" by (cases "doc_redo d3")
  note t4 = doc_redo_text [OF t3(4) rd(1) [folded t3(2)] dr]
  have "d_text d4 = d_text d1" using t4(1) rd(2) h2(3) t2 by simp
  then show ?thesis using du dr t3(3) t4(3) tx3 by auto
qed

lemma nonempty_undo:
  assumes "doc_inv T S r0 t0 d"
  shows "fst (doc_undo d) \<noteq> None \<longleftrightarrow> can_undo (d_undo d)" "fst (doc_redo d) \<noteq> None \<longleftrightarrow> can_redo (d_undo d)"
proof -
  note h = doc_inv_hist(1,2) [OF assms]
  have "undo (d_undo d) \<noteq> None \<longleftrightarrow> can_undo (d_undo d)" "redo (d_undo d) \<noteq> None \<longleftrightarrow> can_redo (d_undo d)"
    using ea.undo_step [OF h] ea.redo_step [OF h] by (auto split: if_splits)
  moreover have "fst (navigate d st c ts) \<noteq> None \<longleftrightarrow> st \<noteq> None" for st c ts
    by (auto simp: navigate_def split_beta Let_def split: option.splits)
  ultimately show "fst (doc_undo d) \<noteq> None \<longleftrightarrow> can_undo (d_undo d)" "fst (doc_redo d) \<noteq> None \<longleftrightarrow> can_redo (d_undo d)"
    by (simp_all add: doc_undo_def doc_redo_def undo_from_def redo_from_def undo_tracked_def redo_tracked_def split_beta Let_def)
qed

lemma drain_changes_inv:
  assumes i: "doc_inv T S r0 t0 d" and r: "drain_changes d = (dr, d')"
  shows "doc_inv T S (d_revision d) (d_text d) d'" "d_text d' = d_text d" "writer dr t0 = d_text d"
proof -
  have d': "d' = d\<lparr>d_changes := snd (drain (d_changes d) (d_text d) (d_revision d) (current_seq (d_undo d)))\<rparr>"
    and dr: "dr = fst (drain (d_changes d) (d_text d) (d_revision d) (current_seq (d_undo d)))"
    using r by (auto simp: drain_changes_def split_beta Let_def)
  show "doc_inv T S (d_revision d) (d_text d) d'" using d' i drain_inv by (simp add: doc_inv_def doc_inv_parts)
  show "d_text d' = d_text d" by (simp add: d')
  show "writer dr t0 = d_text d" unfolding dr
    using i drain_writer [of "d_changes d" r0 t0 "d_revision d" "d_text d"] by (simp add: doc_inv_def)
qed

text \<open>A reload that changes the text is a change of its own group.\<close>

lemma reload_undo:
  assumes inv: "doc_inv T S r0 t0 d" and r: "reload_tracked d bs ts = (ok, ts', d')" and ne: "bs \<noteq> d_text d"
    and blk: "d_undo_block d \<noteq> Some True"
  shows "\<exists>r2 d2. doc_undo d' = (Some r2, d2) \<and> d_text d2 = d_text d"
proof -
  let ?e = "lines_changed (d_text d) bs" and ?d = "sync_undo d"
  define txn where "txn = transaction_new (d_revision d) [?e] UserInput"
  have b: "edit_end ?e \<le> length (d_text d)" using in_bounds_lines_changed [of "d_text d" bs] by simp
  have ch: "changes_something ?e"
  proof (rule ccontr)
    assume "\<not> changes_something ?e"
    from apply_single(1) [OF b, of "[]"] this have "apply_to [?e] (d_text d) = d_text d" by simp
    then show False using apply_to_lines_changed [of "d_text d" bs] ne by simp
  qed
  have v: "edits_valid (t_edits txn) (d_text ?d)" using apply_single(2) [OF b, of "[?e]"] ch by (simp add: txn_def sync_undo_def)
  define d1 where "d1 = snd (commit ?d txn True ts)"
  have inv0: "doc_inv T S r0 t0 ?d" by (rule sync_doc_inv [OF inv])
  have ap: "apply_inner ?d txn True ts = (Inr (d_revision d1), fst (commit ?d txn True ts), d1)"
  proof -
    have "check_bounds (t_edits txn) (length (d_text ?d)) = Inr ()" using v by (simp only: check_bounds_Inr_iff edits_valid_def)
    moreover have "t_base_revision txn = d_revision ?d" "t_edits txn \<noteq> []" by (simp_all add: txn_def sync_undo_def)
    ultimately show ?thesis by (simp only: apply_inner_def d1_def) (simp add: split_beta Let_def)
  qed
  have d': "d' = mark_saved (sync_undo d1)"
    using r ap ch by (simp add: reload_tracked_def edit_list_new_single apply_tracked_def txn_def)
  have "fst (group_for (d_undo ?d) (t_origin txn) (effective_hint ?d (t_group_hint txn))) = h_next_group (d_undo ?d)"
    using blk by (intro group_fresh) (simp add: effective_hint_eq txn_def sync_undo_def sync_def transaction_new_def)
  moreover have "h_nodes (d_undo d') = h_nodes (d_undo d1)" "h_current (d_undo d') = h_current (d_undo d1)" "d_text d' = d_text d1"
    by (simp_all add: d' mark_saved_def sync_undo_def sync_def)
  ultimately show ?thesis
    using commit_undo [OF inv0 v d1_def _ mark_saved_inv [OF sync_doc_inv [OF commit_inv [OF inv0 v d1_def]], folded d']]
    by (auto simp: sync_undo_def)
qed

text \<open>Between two drains the document may also be saved and reloaded.\<close>

inductive undrained :: "document \<Rightarrow> document \<Rightarrow> bool" where
  und_edit: "edit_step d d' \<Longrightarrow> undrained d d'"
| und_save: "undrained d (mark_saved d)"
| und_reload: "reload_tracked d bs ts = (ok, ts', d') \<Longrightarrow> undrained d d'"

lemma undrained_inv: "undrained d d' \<Longrightarrow> doc_inv T S r0 t0 d \<Longrightarrow> \<exists>T' S'. doc_inv T' S' r0 t0 d'"
  by (induction rule: undrained.induct) (blast dest: edit_step_inv mark_saved_inv reload_inv(4))+

lemma undrained_steps_inv: "undrained\<^sup>*\<^sup>* d d' \<Longrightarrow> doc_inv T S r0 t0 d \<Longrightarrow> \<exists>T' S'. doc_inv T' S' r0 t0 d'"
  by (induction arbitrary: T S rule: converse_rtranclp_induct) (blast dest: undrained_inv)+

section \<open>A sample document\<close>

abbreviation sample_doc :: document where
  "sample_doc \<equiv> starting_at 1 [104, 105] 0"

abbreviation sample_txn :: transaction where
  "sample_txn \<equiv> with_hint (transaction_new 0 [edit_insert 2 [33]] UserInput) BreakBefore"

abbreviation sample_changed :: document where
  "sample_changed \<equiv> snd (snd (apply_tracked sample_doc sample_txn []))"

lemma sample_wf: "edits_wf (t_edits sample_txn)"
  by (simp add: with_hint_def transaction_new_def edits_wf_def changes_something_def edit_insert_def)

lemma sample_apply: "apply_tracked sample_doc sample_txn [] = (Inr 1, [], sample_changed)"
proof -
  have "edits_valid (t_edits sample_txn) (d_text sample_doc)"
    using sample_wf by (simp add: edits_valid_def in_bounds_def with_hint_def transaction_new_def starting_at_def
        rebuild_index_def edit_end_def edit_insert_def)
  moreover obtain res ts' d' where ap: "apply_inner sample_doc sample_txn True [] = (res, ts', d')" by (metis prod_cases3)
  moreover have "t_base_revision sample_txn = d_revision sample_doc"
    by (simp add: with_hint_def transaction_new_def starting_at_def rebuild_index_def)
  ultimately have "res = Inr (next_rev (d_revision sample_doc))" by (metis apply_inner_ok(1))
  moreover have "d_revision sample_doc = 0" by (simp add: starting_at_def rebuild_index_def)
  ultimately have r: "res = Inr 1" by (simp add: next_rev_def)
  from sample_wf ap have "ts' = []"
    by (cases rule: apply_inner_cases) (auto simp: commit_def track_change_def split_beta Let_def)
  with r ap show ?thesis by (simp add: apply_tracked_def)
qed

lemma sample_step: "edit_step sample_doc sample_changed"
  by (rule step_apply [OF sample_wf sample_apply])

lemma sample_reach: "doc_reach sample_changed"
  by (rule reach_edit [OF reach_start sample_step])

section \<open>Properties\<close>

text \<open>
  C2: whatever a document goes through (transactions accepted or refused, undo, redo, chronological steps, \<^verbatim>\<open>U\<close>,
  anchors made and removed, positions pinned, saves, reloads, drains), everything \<^verbatim>\<open>Document::assert_invariants\<close>
  checks holds: the undo tree, the anchors in the text, the saved node and the groups of the saved marks known to
  the history, the pinned positions in the text, a filled anchor index equal to the store.  And \<^verbatim>\<open>undo\<close> and
  \<^verbatim>\<open>redo\<close> answer exactly when the history has a step that way.\<close>

theorem document_invariants:
  assumes "doc_reach d"
  shows "doc_assert_invariants d \<and> (fst (doc_undo d) \<noteq> None \<longleftrightarrow> can_undo (d_undo d)) \<and>
    (fst (doc_redo d) \<noteq> None \<longleftrightarrow> can_redo (d_undo d))"
  using doc_reach_inv [OF assms] doc_inv_asserts nonempty_undo by blast

theorem document_invariants_witness: "doc_assert_invariants sample_changed"
  using document_invariants [OF sample_reach] by simp

text \<open>
  C5: a transaction is all or nothing.  Refused, it leaves the document and the caller's positions as they were, and
  says why: its base revision is not the document's, or one of its edits ends past the text (never the overlap the
  code declares unreachable).  The one outcome that is no error value is the panic of \<^verbatim>\<open>Edit::end\<close>: it comes only for an
  edit that starts within the text and whose end needs more than 64 bits, before anything was touched.  Accepted, the
  text is the edit list applied to the old text and the revision is the next one, which is greater unless the counter
  wraps.\<close>

theorem transaction_atomic:
  assumes "edits_wf (t_edits txn)" "apply_tracked d txn ts = (res, ts', d')"
  shows "case res of
      Inl err \<Rightarrow> d' = d \<and> ts' = ts \<and>
        (err = StaleBaseRevision (t_base_revision txn) (d_revision d) \<and> t_base_revision txn \<noteq> d_revision d \<or>
         (\<exists>e \<in> set (t_edits txn). length (d_text d) < edit_end e \<and>
            err = (if epos e \<le> length (d_text d) \<and> 2 ^ 64 \<le> edit_end e then TxnEndOverflow (epos e) (edel e)
              else TxnOutOfRange (epos e) (edel e) (length (d_text d)))))
    | Inr r \<Rightarrow> t_base_revision txn = d_revision d \<and> in_bounds (t_edits txn) (length (d_text d)) \<and>
        d_text d' = apply_to (t_edits txn) (d_text d) \<and> d_revision d' = r \<and> r = next_rev (d_revision d) \<and>
        (d_revision d = - 1 \<or> d_revision d < r)"
  using assms(1) assms(2) [unfolded apply_tracked_def]
proof (cases rule: apply_inner_cases)
  case committed
  then show ?thesis using commit_moved [of txn d True ts] next_rev_greater [of "d_revision d"]
    by (auto simp: moved_by_def edits_valid_def)
next
  case idle
  then show ?thesis using next_rev_greater [of "d_revision d"] by (auto simp: in_bounds_def)
next
  case (range e)
  then show ?thesis unfolding refusal_def by auto
qed auto

theorem transaction_atomic_witness: "d_text sample_changed = apply_to [edit_insert 2 [33]] [104, 105] \<and> d_revision sample_changed = 1"
  using transaction_atomic [OF sample_wf sample_apply]
  by (simp add: with_hint_def transaction_new_def starting_at_def rebuild_index_def)

text \<open>
  C6: a change that starts its own undo group is undone by one undo, byte for byte, and brought back by one redo,
  from any state of the document.\<close>

theorem apply_then_undo_redo:
  assumes "doc_reach d" "edits_wf (t_edits txn)" "t_edits txn \<noteq> []" "t_group_hint txn = BreakBefore"
    and "d_undo_block d \<noteq> Some True" "apply_tracked d txn ts = (Inr r, ts', d1)"
  shows "\<exists>r2 d2 r3 d3. doc_undo d1 = (Some r2, d2) \<and> d_text d2 = d_text d \<and>
    doc_redo d2 = (Some r3, d3) \<and> d_text d3 = d_text d1"
proof -
  obtain T S r0 t0 where inv: "doc_inv T S r0 t0 d" using doc_reach_inv [OF assms(1)] by blast
  from assms(2) assms(6) [unfolded apply_tracked_def] show ?thesis
  proof (cases rule: apply_inner_cases)
    case committed
    then have d1: "d1 = snd (commit d txn True ts)" by simp
    have "fst (group_for (d_undo d) (t_origin txn) (effective_hint d (t_group_hint txn))) = h_next_group (d_undo d)"
      using assms(4,5) by (intro group_fresh) (simp add: effective_hint_eq)
    from commit_undo [OF inv committed(4) d1 this commit_inv [OF inv committed(4) d1]] show ?thesis by auto
  qed (use assms(3) in auto)
qed

theorem apply_then_undo_redo_witness: "d_text (snd (doc_undo sample_changed)) = [104, 105]"
proof -
  have "t_edits sample_txn \<noteq> []" "t_group_hint sample_txn = BreakBefore" "d_undo_block sample_doc \<noteq> Some True"
    by (simp_all add: with_hint_def transaction_new_def starting_at_def rebuild_index_def)
  from apply_then_undo_redo [OF reach_start sample_wf this sample_apply] show ?thesis
    by (auto simp: starting_at_def rebuild_index_def)
qed

text \<open>
  C7: the modified flag never lies.  After a save, whatever is edited, undone, redone or navigated, a document
  that reports itself unmodified holds exactly the bytes that were saved.\<close>

theorem saved_state_exact:
  assumes "doc_reach d" "edit_step\<^sup>*\<^sup>* (mark_saved d) d2" "\<not> is_modified d2"
  shows "d_text d2 = d_text d"
proof -
  obtain T S r0 t0 where "doc_inv T S r0 t0 d" using doc_reach_inv [OF assms(1)] by blast
  from edit_steps_inv [OF assms(2) mark_saved_inv [OF this]] obtain T' where i: "doc_inv T' (d_text d) r0 t0 d2" by blast
  note h = doc_inv_hist [OF i]
  have "d_saved_node d2 = Some (current_seq (d_undo d2))" using assms(3) by (simp add: is_modified_def)
  then obtain k where k: "k < length (h_nodes (d_undo d2))" "n_seq (node (d_undo d2) k) = current_seq (d_undo d2)" "T' k = d_text d"
    using i by (auto simp: doc_inv_def saved_inv_def)
  have "k = h_current (d_undo d2)"
    using seq_inj [OF hist_invD(1) [OF h(1)] k(1) hist_invD(3) [OF h(1)]] k(2) by (simp add: current_seq_def)
  then show ?thesis using k(3) h(3) by simp
qed

theorem saved_state_exact_witness: "d_text (mark_saved sample_changed) = d_text sample_changed"
  using saved_state_exact [OF sample_reach rtranclp.rtrancl_refl]
  by (simp add: is_modified_def mark_saved_def current_seq_def sync_def)

text \<open>
  C8: a journal writer that keeps the text it had at one drain and applies what the next drain hands it holds the
  document's text, whatever happened in between: edits, undo steps, saves, reloads, recording switched off and on
  again, the cap of the log reached.\<close>

theorem drains_reproduce_document:
  assumes "doc_reach d" "drain_changes d = (dr1, d1)" "undrained\<^sup>*\<^sup>* d1 d2" "drain_changes d2 = (dr2, d3)"
  shows "writer dr2 (d_text d) = d_text d2 \<and> d_text d3 = d_text d2"
proof -
  obtain T S r0 t0 where "doc_inv T S r0 t0 d" using doc_reach_inv [OF assms(1)] by blast
  from undrained_steps_inv [OF assms(3) drain_changes_inv(1) [OF this assms(2)]]
  obtain T' S' where "doc_inv T' S' (d_revision d) (d_text d) d2" by blast
  from drain_changes_inv(2,3) [OF this assms(4)] show ?thesis by simp
qed

theorem drains_reproduce_document_witness:
  "let d1 = snd (drain_changes (record_changes sample_doc True)); d2 = snd (snd (apply_tracked d1 sample_txn []))
   in writer (fst (drain_changes d2)) [104, 105] = d_text d2"
proof -
  let ?d = "record_changes sample_doc True"
  let ?d1 = "snd (drain_changes ?d)"
  let ?d2 = "snd (snd (apply_tracked ?d1 sample_txn []))"
  have "doc_reach ?d" by (rule reach_edit [OF reach_start step_record])
  moreover have "edit_step ?d1 ?d2" by (rule step_apply [OF sample_wf]) (simp add: prod_eq_iff)
  ultimately have "writer (fst (drain_changes ?d2)) (d_text ?d) = d_text ?d2"
    using drains_reproduce_document [OF _ surjective_pairing _ surjective_pairing] und_edit r_into_rtranclp by metis
  moreover have "d_text ?d = [104, 105]" by (simp add: record_changes_def starting_at_def rebuild_index_def)
  ultimately show ?thesis by (simp add: Let_def)
qed

text \<open>
  a snapshot is the document at that moment: its revision, its text, and for every handle, live or stale, the
  answer the anchor store itself gives; and it is the same whether the shared anchor index was cached or rebuilt.\<close>

theorem snapshot_agrees:
  assumes "doc_reach d" "snapshot d = (sn, d')"
  shows "sn_revision sn = d_revision d \<and> sn_text sn = d_text d \<and> (\<forall>i. snapshot_resolve sn i = resolve_anchor d i) \<and>
    fst (snapshot d') = sn \<and> fst (snapshot (rebuild_index d)) = sn"
proof -
  obtain T S r0 t0 where inv: "doc_inv T S r0 t0 d" using doc_reach_inv [OF assms(1)] by blast
  then have "store_ok (d_anchors d)" by (simp add: doc_inv_def anchors_inv_def)
  moreover have ix: "sn_anchors sn = store_resolved (d_anchors d)" by (rule snapshot_inv(1) [OF inv assms(2)])
  ultimately have "snapshot_resolve sn i = resolve_anchor d i" for i
    by (simp add: snapshot_resolve_def resolve_anchor_def store_resolved_lookup)
  moreover have "sn_revision sn = d_revision d" "sn_text sn = d_text d" "fst (snapshot d') = sn"
    using assms(2) by (auto simp: snapshot_def snapshot_new_def Let_def split: option.splits)
  moreover have "fst (snapshot (rebuild_index d)) = sn"
    using ix calculation(2,3) by (simp add: snapshot_def snapshot_new_def rebuild_index_def from_entries_def Let_def)
  ultimately show ?thesis by blast
qed

theorem snapshot_agrees_witness: "snapshot_resolve (fst (snapshot sample_changed)) \<lparr>id_slot = 0, id_gen = 0\<rparr> = resolve_anchor sample_changed \<lparr>id_slot = 0, id_gen = 0\<rparr>"
  using snapshot_agrees [OF sample_reach surjective_pairing] by blast

text \<open>The cached line table, built from the text or carried through the edits since, answers as a scan of the text
  would: the rows of bytes and the starts of lines, also past the last line, where the end of the text is returned.\<close>

theorem document_line_lookups:
  assumes "doc_reach d"
  shows "fst (line_starts d) = starts_spec (d_text d) \<and> fst (doc_line_of d at) = line_of (d_text d) at \<and>
    fst (doc_nth_line_start d n) = nth_line_start (d_text d) n"
proof -
  obtain T S r0 t0 where inv: "doc_inv T S r0 t0 d" using doc_reach_inv [OF assms] by blast
  have ss: "fst (line_starts d) = starts_spec (d_text d)" using line_starts_inv(1) [OF inv] by (cases "line_starts d") simp
  then show ?thesis
    by (simp add: doc_line_of_def doc_nth_line_start_def split_beta Let_def row_in_spec nth_line_start_spec get_at_def)
qed

theorem document_line_lookups_witness: "fst (doc_nth_line_start sample_changed 1) = nth_line_start (d_text sample_changed) 1"
  using document_line_lookups [OF sample_reach] by blast

text \<open>
  \<^verbatim>\<open>U\<close> never panics: its edit is in bounds and its base is current, so both \<^verbatim>\<open>expect\<close>s hold; it keeps the
  number of lines, and the document's invariants.\<close>

theorem line_undo_never_panics:
  assumes "doc_reach d"
  shows "\<exists>r ts' d'. line_undo_tracked d c og ts = Some (r, ts', d') \<and> doc_assert_invariants d' \<and>
    count_newlines (d_text d') = count_newlines (d_text d)"
  using doc_reach_inv [OF assms] line_undo_inv [of _ _ _ _ d c og ts] doc_inv_asserts by blast

theorem line_undo_never_panics_witness: "line_undo_tracked sample_changed 0 UserInput [] \<noteq> None"
  using line_undo_never_panics [OF sample_reach, of 0 UserInput "[]"] by auto

text \<open>
  C36: a reload always succeeds; the text is then the file's bytes, the document counts as saved and its invariants
  hold.  When the bytes differ from the old text and no undo block that already holds a change is open, one undo brings
  the old text back.\<close>

theorem reload_exact:
  assumes "doc_reach d" "reload_tracked d bs ts = (ok, ts', d')"
  shows "ok \<and> d_text d' = bs \<and> \<not> is_modified d' \<and> doc_assert_invariants d' \<and>
    (bs \<noteq> d_text d \<and> d_undo_block d \<noteq> Some True \<longrightarrow> (\<exists>r2 d2. doc_undo d' = (Some r2, d2) \<and> d_text d2 = d_text d))"
proof -
  obtain T S r0 t0 where "doc_inv T S r0 t0 d" using doc_reach_inv [OF assms(1)] by blast
  from reload_inv [OF this assms(2)] reload_undo [OF this assms(2)] show ?thesis using doc_inv_asserts by blast
qed

theorem reload_exact_witness: "\<exists>d'. doc_undo (snd (snd (reload_tracked sample_doc [10] []))) = (Some d', snd (doc_undo (snd (snd (reload_tracked sample_doc [10] []))))) \<and>
    d_text (snd (snd (reload_tracked sample_doc [10] []))) = [10]"
proof -
  obtain ok ts' d' where r: "reload_tracked sample_doc [10] [] = (ok, ts', d')" by (metis prod_cases3)
  have "d_undo_block sample_doc \<noteq> Some True" "d_text sample_doc \<noteq> [10]" by (simp_all add: starting_at_def rebuild_index_def)
  with reload_exact [OF reach_start r] r show ?thesis by auto
qed

end
