(* ===== verification/File_Format.thy ===== *)
theory File_Format
  imports Pos
begin

text \<open>
  Line endings and byte order marks of files (\<^verbatim>\<open>apps/tui/src/persist/encoding.rs\<close>): the style of a file is
  read once, the editor's bytes have it removed, and a save puts it back.  The round trips in both directions are
  at the end of the theory.
\<close>

section \<open>Formats\<close>

datatype eol = Lf | Crlf | Cr

text \<open>Names are lists of Unicode scalar values: \<^verbatim>\<open>unix\<close>, \<^verbatim>\<open>dos\<close> and \<^verbatim>\<open>mac\<close>.\<close>

definition eol_name :: "eol \<Rightarrow> nat list" where
  "eol_name e = (case e of Lf \<Rightarrow> [117, 110, 105, 120] | Crlf \<Rightarrow> [100, 111, 115] | Cr \<Rightarrow> [109, 97, 99])"

definition eol_from_name :: "nat list \<Rightarrow> eol option" where
  "eol_from_name n =
     (if n = [117, 110, 105, 120] then Some Lf
      else if n = [100, 111, 115] then Some Crlf
      else if n = [109, 97, 99] then Some Cr
      else None)"

record file_format =
  f_eol :: eol
  f_bom :: bool
  f_final_newline :: bool
  f_eof :: bool
  f_binary :: bool

definition CTRL_Z :: byte where
  "CTRL_Z = 0x1A"

definition BOM :: bytes where
  "BOM = [0xEF, 0xBB, 0xBF]"

definition format_default :: file_format where
  "format_default = \<lparr>f_eol = Lf, f_bom = False, f_final_newline = True, f_eof = False, f_binary = False\<rparr>"

definition starts_with :: "'a list \<Rightarrow> 'a list \<Rightarrow> bool" where
  "starts_with xs p \<longleftrightarrow> take (length p) xs = p"

section \<open>Strings: splitting and trimming\<close>

fun split_on :: "nat \<Rightarrow> nat list \<Rightarrow> nat list list" where
  "split_on c [] = [[]]"
| "split_on c (x # xs) =
     (if x = c then [] # split_on c xs
      else case split_on c xs of [] \<Rightarrow> [[x]] | p # ps \<Rightarrow> (x # p) # ps)"

definition is_whitespace :: "nat \<Rightarrow> bool" where
  "is_whitespace c \<longleftrightarrow> (9 \<le> c \<and> c \<le> 13) \<or> c = 0x20 \<or> c = 0x85 \<or> c = 0xA0 \<or> c = 0x1680 \<or> (0x2000 \<le> c \<and> c \<le> 0x200A) \<or>
     c = 0x2028 \<or> c = 0x2029 \<or> c = 0x202F \<or> c = 0x205F \<or> c = 0x3000"

definition str_trim :: "nat list \<Rightarrow> nat list" where
  "str_trim s = rev (dropWhile is_whitespace (rev (dropWhile is_whitespace s)))"

section \<open>Detection\<close>

text \<open>\<^verbatim>\<open>body.windows(2).filter(|w| w == b"\r\n").count()\<close>.\<close>

fun crlf_count :: "bytes \<Rightarrow> nat" where
  "crlf_count (a # b # rest) = (if a = 13 \<and> b = newline then 1 else 0) + crlf_count (b # rest)"
| "crlf_count xs = 0"

definition listed :: "nat list \<Rightarrow> eol list" where
  "listed ffs = List.map_filter (\<lambda>n. eol_from_name (str_trim n)) (split_on 44 ffs)"

definition choose_eol :: "eol list \<Rightarrow> eol \<Rightarrow> bytes \<Rightarrow> eol" where
  "choose_eol fs dflt body =
     (let crlf = crlf_count body; lf_total = count_newlines body; bare_lf = lf_total - crlf
      in case fs of
           [] \<Rightarrow> dflt
         | [one] \<Rightarrow> one
         | e0 # _ \<Rightarrow>
             if Crlf \<in> set fs \<and> 0 < crlf \<and> bare_lf = 0 then Crlf
             else if 0 < lf_total \<and> Lf \<in> set fs then Lf
             else if lf_total = 0 \<and> Cr \<in> set fs \<and> 13 \<in> set body then Cr
             else if 0 < lf_total \<and> Crlf \<in> set fs then Crlf
             else e0)"

definition detect_with :: "bytes \<Rightarrow> nat list \<Rightarrow> eol \<Rightarrow> file_format" where
  "detect_with raw ffs dflt =
     (let bom = starts_with raw BOM;
          body = (if bom then drop (length BOM) raw else raw);
          e = choose_eol (listed ffs) dflt body;
          eof = (e = Crlf \<and> last_opt body = Some CTRL_Z);
          body1 = (if eof then take (length body - 1) body else body);
          final = (if e = Cr then 13 else newline)
      in \<lparr>f_eol = e, f_bom = bom, f_final_newline = (body1 = [] \<or> last_opt body1 = Some final),
          f_eof = eof, f_binary = False\<rparr>)"

definition unix_dos :: "nat list" where
  "unix_dos = eol_name Lf @ [44] @ eol_name Crlf"

definition detect :: "bytes \<Rightarrow> file_format" where
  "detect raw = detect_with raw unix_dos Lf"

definition binary_format :: "bytes \<Rightarrow> file_format" where
  "binary_format raw =
     \<lparr>f_eol = Lf, f_bom = False, f_final_newline = (raw = [] \<or> last_opt raw = Some newline), f_eof = False, f_binary = True\<rparr>"

section \<open>Conversion\<close>

fun strip_cr :: "bytes \<Rightarrow> bytes" where
  "strip_cr [] = []"
| "strip_cr (b # rest) = (if b = 13 \<and> first_opt rest = Some newline then strip_cr rest else b # strip_cr rest)"

definition to_buffer :: "file_format \<Rightarrow> bytes \<Rightarrow> bytes" where
  "to_buffer f raw =
     (if f_binary f then raw
      else
        let body = (if f_bom f \<and> starts_with raw BOM then drop (length BOM) raw else raw);
            body1 = (if last_opt body = Some CTRL_Z \<and> f_eof f then butlast body else body)
        in case f_eol f of
             Crlf \<Rightarrow> strip_cr body1
           | Cr \<Rightarrow> map (\<lambda>b. if b = 13 then newline else b) body1
           | Lf \<Rightarrow> body1)"

definition normalize_read :: "bytes \<Rightarrow> bytes" where
  "normalize_read raw = to_buffer (detect raw) raw"

fun add_cr :: "bytes \<Rightarrow> bytes" where
  "add_cr [] = []"
| "add_cr (b # rest) = (if b = newline then [13, b] else [b]) @ add_cr rest"

definition to_disk :: "file_format \<Rightarrow> bytes \<Rightarrow> bytes" where
  "to_disk f buffer =
     (if f_binary f then buffer
      else (if f_bom f then BOM else []) @
        (case f_eol f of
           Crlf \<Rightarrow> add_cr buffer
         | Cr \<Rightarrow> map (\<lambda>b. if b = newline then 13 else b) buffer
         | Lf \<Rightarrow> buffer) @
        (if f_eof f then [CTRL_Z] else []))"

section \<open>Lemmas\<close>

lemma eol_names: "eol_from_name (eol_name e) = Some e"
  by (cases e) (simp_all add: eol_from_name_def eol_name_def)

lemma last_opt_split: "last_opt xs = Some x \<longleftrightarrow> xs \<noteq> [] \<and> xs = butlast xs @ [x]"
proof
  assume "last_opt xs = Some x"
  then have "xs \<noteq> []" "last xs = x" by (auto simp: last_opt_def split: if_splits)
  then show "xs \<noteq> [] \<and> xs = butlast xs @ [x]" by auto
next
  assume a: "xs \<noteq> [] \<and> xs = butlast xs @ [x]"
  then have "last xs = x" by (metis last_snoc)
  then show "last_opt xs = Some x" using a by (simp add: last_opt_def)
qed

text \<open>Every newline follows a carriage return; \<open>p\<close> is the byte before.\<close>

fun crlf_ok :: "byte \<Rightarrow> bytes \<Rightarrow> bool" where
  "crlf_ok p [] \<longleftrightarrow> True"
| "crlf_ok p (b # rest) \<longleftrightarrow> (b = newline \<longrightarrow> p = 13) \<and> crlf_ok b rest"

lemma crlf_count_le: "crlf_count (p # xs) \<le> count_newlines xs"
  by (induction xs arbitrary: p) (simp_all add: add_mono)

lemma crlf_count_ok: "count_newlines xs \<le> crlf_count (p # xs) \<Longrightarrow> crlf_ok p xs"
proof (induction xs arbitrary: p)
  case (Cons b xs)
  have "crlf_count (b # xs) \<le> count_newlines xs" by (rule crlf_count_le)
  with Cons show ?case by (auto split: if_splits)
qed simp

lemma crlf_only: "count_newlines xs - crlf_count xs = 0 \<Longrightarrow> crlf_ok 0 xs"
  using crlf_count_ok [of xs 0] by (cases xs) auto

lemma crlf_ok_none: "newline \<notin> set xs \<Longrightarrow> crlf_ok p xs"
  by (induction xs arbitrary: p) auto

lemma crlf_ok_butlast: "crlf_ok p xs \<Longrightarrow> crlf_ok p (butlast xs)"
  by (induction xs arbitrary: p) auto

lemma add_strip: "crlf_ok p xs \<Longrightarrow> add_cr (strip_cr xs) = (if first_opt xs = Some newline then [13] else []) @ xs"
proof (induction xs arbitrary: p)
  case (Cons b rest)
  then have "first_opt rest = Some newline \<Longrightarrow> b = 13" by (cases rest) (auto simp: first_opt_def)
  with Cons show ?case by (auto simp: first_opt_def)
qed (simp add: first_opt_def)

lemma add_cr_head: "first_opt (add_cr xs) \<noteq> Some newline"
  by (cases xs) (auto simp: first_opt_def)

lemma strip_add: "strip_cr (add_cr xs) = xs"
  using add_cr_head by (induction xs) (auto simp: first_opt_def)

lemma mac_round: "newline \<notin> set xs \<Longrightarrow> map (\<lambda>b. if b = newline then 13 else b) (map (\<lambda>b. if b = 13 then newline else b) xs) = xs"
  by (induction xs) auto

text \<open>With \<^verbatim>\<open>unix\<close> among the formats, what the chosen one converts it converts back.\<close>

lemma choose_eol_safe:
  assumes "Lf \<in> set fs" "e = choose_eol fs dflt body"
  shows "(e = Crlf \<longrightarrow> crlf_ok 0 body) \<and> (e = Cr \<longrightarrow> newline \<notin> set body)"
proof -
  have none: "count_newlines body = 0 \<Longrightarrow> newline \<notin> set body" by (simp add: count_newlines_0_iff)
  consider "fs = [Lf]" | e0 e1 es where "fs = e0 # e1 # es"
    using assms(1) by (cases fs rule: remdups_adj.cases) auto
  then show ?thesis
  proof cases
    case 2
    then show ?thesis using assms none crlf_only [of body] crlf_ok_none [of body 0]
      by (auto simp: choose_eol_def Let_def split: if_splits)
  qed (use assms in \<open>simp add: choose_eol_def\<close>)
qed

section \<open>Properties\<close>

text \<open>
  C35: opening a file and saving it without an edit writes the same bytes, whatever they are, for every
  \<^verbatim>\<open>'fileformats'\<close> that lists \<^verbatim>\<open>unix\<close> (the default does).  In the other direction, what is written
  under a format and read back under that same format (not one detected anew from the bytes) is the buffer, unless the
  format is \<^verbatim>\<open>mac\<close>, not binary, and the buffer holds a carriage return.\<close>

theorem format_round_trip:
  assumes "Lf \<in> set (listed ffs)" "f_eol g \<noteq> Cr \<or> 13 \<notin> set buf \<or> f_binary g"
  shows "to_disk (detect_with raw ffs dflt) (to_buffer (detect_with raw ffs dflt) raw) = raw \<and>
    to_buffer g (to_disk g buf) = buf"
proof
  define bom where "bom = starts_with raw BOM"
  define body where "body = (if bom then drop (length BOM) raw else raw)"
  define e where "e = choose_eol (listed ffs) dflt body"
  define eof where "eof = (e = Crlf \<and> last_opt body = Some CTRL_Z)"
  define body1 where "body1 = (if eof then butlast body else body)"
  note safe = choose_eol_safe [OF assms(1) e_def]
  have raw: "raw = (if bom then BOM else []) @ body"

  proof (cases bom)
    case True
    then have "take (length BOM) raw = BOM" by (simp add: bom_def starts_with_def)
    then have "BOM @ drop (length BOM) raw = raw" using append_take_drop_id [of "length BOM" raw] by simp
    then show ?thesis using True by (simp add: body_def)
  qed (simp add: body_def)
  have body: "body = body1 @ (if eof then [CTRL_Z] else [])" 
  proof (cases eof)
    case True
    then have "last_opt body = Some CTRL_Z" by (simp add: eof_def)
    then have "butlast body @ [CTRL_Z] = body" using last_opt_split by metis
    then show ?thesis using True by (simp add: body1_def)
  qed (simp add: body1_def)
  have crlf: "crlf_ok 0 body1" if "e = Crlf" using safe that crlf_ok_butlast by (auto simp: body1_def)
  have cr: "newline \<notin> set body1" if "e = Cr" using safe that body by auto
  let ?f = "detect_with raw ffs dflt"
  have f: "f_eol ?f = e" "f_bom ?f = bom" "f_eof ?f = eof" "\<not> f_binary ?f"
    by (simp_all add: detect_with_def Let_def bom_def body_def e_def eof_def)
  have "to_buffer ?f raw = (case e of Crlf \<Rightarrow> strip_cr body1 | Cr \<Rightarrow> map (\<lambda>b. if b = 13 then newline else b) body1 | Lf \<Rightarrow> body1)"
    using f by (simp add: to_buffer_def Let_def body1_def eof_def body_def bom_def conj_commute cong: eol.case_cong)
  moreover have "first_opt body1 \<noteq> Some newline" if "e = Crlf" using crlf [OF that] by (cases body1) (auto simp: first_opt_def)
  ultimately show "to_disk ?f (to_buffer ?f raw) = raw"
    using f add_strip [OF crlf] mac_round [OF cr] raw body by (auto simp: to_disk_def split: eol.splits)
next
  show "to_buffer g (to_disk g buf) = buf"
  proof (cases "f_binary g")
    case False
    define mid where "mid = (case f_eol g of Crlf \<Rightarrow> add_cr buf | Cr \<Rightarrow> map (\<lambda>b. if b = newline then 13 else b) buf | Lf \<Rightarrow> buf)"
    have "to_disk g buf = (if f_bom g then BOM else []) @ mid @ (if f_eof g then [CTRL_Z] else [])"
      using False by (simp add: to_disk_def mid_def)
    then have "to_buffer g (to_disk g buf) = (case f_eol g of Crlf \<Rightarrow> strip_cr mid | Cr \<Rightarrow> map (\<lambda>b. if b = 13 then newline else b) mid | Lf \<Rightarrow> mid)"
      using False by (auto simp: to_buffer_def Let_def starts_with_def last_opt_def butlast_append split: eol.splits)
    moreover have "map (\<lambda>b. if b = 13 then newline else b) (map (\<lambda>b. if b = newline then 13 else b) buf) = buf" if "13 \<notin> set buf"
      using that by (induction buf) auto
    ultimately show ?thesis using assms(2) False strip_add by (auto simp: mid_def split: eol.splits)
  qed (simp add: to_buffer_def to_disk_def)
qed

theorem format_round_trip_witness:
  "to_disk (detect [97, 13, 10, 98, 13, 10, 26]) (to_buffer (detect [97, 13, 10, 98, 13, 10, 26]) [97, 13, 10, 98, 13, 10, 26]) =
     [97, 13, 10, 98, 13, 10, 26] \<and> to_buffer (detect [97, 13, 10, 98, 13, 10, 26]) [97, 13, 10, 98, 13, 10, 26] = [97, 10, 98, 10]"
proof
  have l: "Lf \<in> set (listed unix_dos)"
    by (simp add: listed_def unix_dos_def eol_name_def eol_from_name_def str_trim_def is_whitespace_def List.map_filter_def)
  show "to_disk (detect [97, 13, 10, 98, 13, 10, 26]) (to_buffer (detect [97, 13, 10, 98, 13, 10, 26]) [97, 13, 10, 98, 13, 10, 26]) =
     [97, 13, 10, 98, 13, 10, 26]"
    unfolding detect_def using format_round_trip [OF l, of format_default "[]" "[97, 13, 10, 98, 13, 10, 26]" Lf] by simp
qed (simp add: detect_def detect_with_def choose_eol_def to_buffer_def Let_def starts_with_def BOM_def CTRL_Z_def last_opt_def
    first_opt_def listed_def unix_dos_def eol_name_def eol_from_name_def str_trim_def is_whitespace_def List.map_filter_def)

end
