(* ===== verification/Tab_Stops.thy ===== *)
theory Tab_Stops
  imports File_Format Registers
begin

text \<open>
  The tab stops of \<^verbatim>\<open>crates/core/src/cells.rs\<close> (\<open>VarStops\<close>, \<open>Tabs\<close>, \<open>padding\<close>, \<open>start_col\<close>): a line is laid
  out with a stop every \<open>ts\<close> columns, or with the widths of a stop list whose last width repeats.
  A \<open>VarStops\<close> value is the list of its first \<open>n\<close> widths.  The routines the source writes as scans with a
  division at the end are related to the one-tab walk \<open>tab_walk\<close>.
\<close>

section \<open>Stop lists\<close>

definition MAX_VAR_STOPS :: nat where "MAX_VAR_STOPS = 64"
definition MAX_STOP :: nat where "MAX_STOP = 9999"

type_synonym var_stops = "nat list"

definition stops_none :: var_stops where "stops_none = []"

text \<open>\<^verbatim>\<open>str::parse::<usize>\<close> of a part that holds only digits: it fails on overflow.\<close>

fun usize_of :: "nat list \<Rightarrow> nat \<Rightarrow> nat option" where
  "usize_of [] n = Some n"
| "usize_of (c # cs) n = (let m = n * 10 + (c - ch_0) in if m < 2 ^ 64 then usize_of cs m else None)"

fun stops_loop :: "nat list list \<Rightarrow> var_stops \<Rightarrow> var_stops option" where
  "stops_loop [] out = Some out"
| "stops_loop (part # parts) out =
     (if part = [] \<or> \<not> list_all is_ascii_digit part then None
      else case usize_of part 0 of
        None \<Rightarrow> None
      | Some n \<Rightarrow>
          if n = 0 \<or> MAX_STOP < n \<or> length out = MAX_VAR_STOPS then None
          else if 2 ^ 16 \<le> n then None
          else stops_loop parts (out @ [n]))"

definition stops_parse :: "nat list \<Rightarrow> var_stops option" where
  "stops_parse s = (if s = [] \<or> s = [ch_0] then Some stops_none else stops_loop (split_on 44 s) stops_none)"

definition stops_count :: "var_stops \<Rightarrow> nat" where
  "stops_count v = length v"

definition stops_sum :: "var_stops \<Rightarrow> nat \<Rightarrow> nat" where
  "stops_sum s k = sum_list (take k s) + (k - length s) * (if s = [] then 0 else last s)"

text \<open>The decimal text of a width, and the option value of a list (\<^verbatim>\<open>stops_text\<close> of \<^verbatim>\<open>editor/mod.rs\<close>).\<close>

fun show_dec :: "nat \<Rightarrow> nat list" where
  "show_dec n = (if n < 10 then [ch_0 + n] else show_dec (n div 10) @ [ch_0 + n mod 10])"

declare show_dec.simps [simp del]

fun join_with :: "nat \<Rightarrow> nat list list \<Rightarrow> nat list" where
  "join_with c [] = []"
| "join_with c [p] = p"
| "join_with c (p # ps) = p @ c # join_with c ps"

definition stops_text :: "var_stops \<Rightarrow> nat list" where
  "stops_text v = join_with 44 (map show_dec v)"

section \<open>The routines\<close>

record tabs =
  tb_ts :: nat
  tb_vts :: var_stops

definition tabs_uniform :: "nat \<Rightarrow> tabs" where
  "tabs_uniform ts = \<lparr>tb_ts = (if ts = 0 then 1 else ts), tb_vts = stops_none\<rparr>"

definition tabs_new :: "nat \<Rightarrow> var_stops \<Rightarrow> tabs" where
  "tabs_new ts vts = \<lparr>tb_ts = max ts 1, tb_vts = vts\<rparr>"

text \<open>The scans over the stops: \<open>tabcol\<close> is the sum of the widths already passed.\<close>

fun padding_scan :: "nat list \<Rightarrow> nat \<Rightarrow> nat \<Rightarrow> nat option \<times> nat" where
  "padding_scan [] tabcol col = (None, tabcol)"
| "padding_scan (w # ws) tabcol col =
     (if tabcol + w > col then (Some (tabcol + w - col), tabcol + w) else padding_scan ws (tabcol + w) col)"

definition padding :: "nat \<Rightarrow> nat \<Rightarrow> var_stops \<Rightarrow> nat" where
  "padding col ts s =
     (if s = [] then (let ts = (if ts = 0 then 8 else ts) in ts - col mod ts)
      else case padding_scan s 0 col of
        (Some p, _) \<Rightarrow> p
      | (None, tabcol) \<Rightarrow> last s - (col - tabcol) mod last s)"

fun start_scan :: "nat list \<Rightarrow> nat \<Rightarrow> nat \<Rightarrow> nat option \<times> nat" where
  "start_scan [] tabcol col = (None, tabcol)"
| "start_scan (w # ws) tabcol col =
     (if tabcol + w > col then (Some (tabcol + w - w), tabcol + w) else start_scan ws (tabcol + w) col)"

definition start_col :: "nat \<Rightarrow> nat \<Rightarrow> var_stops \<Rightarrow> nat" where
  "start_col col ts s =
     (if s = [] then (let ts = max ts 1 in col - col mod ts)
      else case start_scan s 0 col of
        (Some p, _) \<Rightarrow> p
      | (None, tabcol) \<Rightarrow> (let excess = tabcol mod last s in col - (col - excess) mod last s))"

definition tabs_padding :: "tabs \<Rightarrow> nat \<Rightarrow> nat" where
  "tabs_padding t col = padding col (tb_ts t) (tb_vts t)"

definition tabs_start_col :: "tabs \<Rightarrow> nat \<Rightarrow> nat" where
  "tabs_start_col t col = start_col col (tb_ts t) (tb_vts t)"

text \<open>\<open>prev\<close> is the width before the scanned one, \<open>None\<close> at the first.\<close>

fun interval_scan :: "nat list \<Rightarrow> nat option \<Rightarrow> nat \<Rightarrow> nat \<Rightarrow> bool \<Rightarrow> nat option" where
  "interval_scan [] prev tabcol col left = None"
| "interval_scan (w # ws) prev tabcol col left =
     (if tabcol + w > col then
        Some (case prev of
                None \<Rightarrow> if left then col else w
              | Some p \<Rightarrow> if left then p else w)
      else interval_scan ws (Some w) (tabcol + w) col left)"

definition interval_width :: "tabs \<Rightarrow> nat \<Rightarrow> bool \<Rightarrow> nat" where
  "interval_width t col left =
     (let s = tb_vts t in
      if s = [] then tb_ts t
      else case interval_scan s None 0 col left of Some w \<Rightarrow> w | None \<Rightarrow> last s)"

text \<open>
  \<open>fromto_find\<close> is the first loop of \<open>fromto\<close>: the padding to the first stop past \<open>from\<close>, the sum reached
  and the stops after the one it broke at.  \<open>fromto_fill\<close> is the second: it takes whole widths while they
  fit.
\<close>

fun fromto_find :: "nat list \<Rightarrow> nat \<Rightarrow> nat \<Rightarrow> nat option \<times> nat \<times> nat list" where
  "fromto_find [] tabcol c = (None, tabcol, [])"
| "fromto_find (w # ws) tabcol c =
     (if tabcol + w > c then (Some (tabcol + w - c), tabcol + w, ws) else fromto_find ws (tabcol + w) c)"

fun fromto_fill :: "nat list \<Rightarrow> nat \<Rightarrow> nat \<Rightarrow> nat \<Rightarrow> nat \<times> nat" where
  "fromto_fill ws lst tbs sp =
     (if sp = 0 then (tbs + sp div lst, sp mod lst)
      else case ws of
        [] \<Rightarrow> (tbs + sp div lst, sp mod lst)
      | w # ws' \<Rightarrow> if sp < w then (tbs, sp) else fromto_fill ws' lst (tbs + 1) (sp - w))"

declare fromto_fill.simps [simp del]

definition fromto :: "tabs \<Rightarrow> nat \<Rightarrow> nat \<Rightarrow> nat \<times> nat" where
  "fromto t from_col to_col =
     (let spaces = to_col - from_col; s = tb_vts t in
      if s = [] then
        (let ts = tb_ts t;
             initspc = ts - from_col mod ts;
             (tbs, sp) = (if initspc \<le> spaces then (1, spaces - initspc) else (0, spaces))
         in (tbs + sp div ts, sp mod ts))
      else
        (case fromto_find s 0 from_col of (pad0, tabcol, ws) \<Rightarrow>
          (let lst = last s;
               pad = (case pad0 of Some p \<Rightarrow> p | None \<Rightarrow> lst - (from_col - tabcol) mod lst)
           in if spaces < pad then (0, spaces) else fromto_fill ws lst 1 (spaces - pad))))"

definition tabs_fill :: "tabs \<Rightarrow> nat \<Rightarrow> bytes" where
  "tabs_fill t cols = (case fromto t 0 cols of (n, s) \<Rightarrow> replicate n 9 @ replicate s 32)"

section \<open>What a tab does\<close>

text \<open>The column after \<open>n\<close> tabs typed at column \<open>c\<close>.\<close>

definition tab_walk :: "tabs \<Rightarrow> nat \<Rightarrow> nat \<Rightarrow> nat" where
  "tab_walk t n c = ((\<lambda>c. c + tabs_padding t c) ^^ n) c"

definition stops_ok :: "var_stops \<Rightarrow> bool" where
  "stops_ok v \<longleftrightarrow> length v \<le> MAX_VAR_STOPS \<and> list_all (\<lambda>w. 0 < w \<and> w \<le> MAX_STOP) v"

definition layout_ok :: "tabs \<Rightarrow> bool" where
  "layout_ok t \<longleftrightarrow> 0 < tb_ts t \<and> stops_ok (tb_vts t)"

section \<open>Scans\<close>

lemma fromto_find_padding:
  "fst (fromto_find s tc c) = fst (padding_scan s tc c) \<and> fst (snd (fromto_find s tc c)) = snd (padding_scan s tc c)"
  by (induction s arbitrary: tc) auto

text \<open>The scan stops at the first stop past the column; from there on it is the scan of the rest.\<close>

lemma fromto_find_hit:
  "fromto_find s tc0 c = (Some p, tc, ws) \<Longrightarrow> tc0 \<le> c \<Longrightarrow> c + p = tc \<and> 0 < p"
  by (induction s arbitrary: tc0) (auto split: if_splits)

lemma fromto_find_sum:
  "fromto_find s tc0 c = (Some p, tc, ws) \<Longrightarrow> sum_list s + tc0 = sum_list ws + tc"
proof (induction s arbitrary: tc0)
  case (Cons w s)
  show ?case using Cons.prems Cons.IH [of "tc0 + w"] by (simp add: add.assoc add.left_commute split: if_splits)
qed simp

lemma fromto_find_rest:
  assumes "fromto_find s tc0 c = (Some p, tc, ws)" "tc0 \<le> c" "tc \<le> c'"
  shows "padding_scan s tc0 c' = padding_scan ws tc c'"
  using assms
proof (induction s arbitrary: tc0)
  case (Cons w s)
  show ?case
  proof (cases "tc0 + w > c")
    case False
    then have "fromto_find s (tc0 + w) c = (Some p, tc, ws)" using Cons.prems by simp
    moreover have "c \<le> c'" using fromto_find_hit [OF Cons.prems(1,2)] Cons.prems(3) by simp
    ultimately show ?thesis using Cons.IH [of "tc0 + w"] Cons.prems False by simp
  qed (use Cons.prems in auto)
qed simp

lemma fromto_find_None:
  assumes "fromto_find s tc0 c = (None, tc, ws)" "tc0 \<le> c"
  shows "ws = []" "tc = tc0 + sum_list s" "tc \<le> c"
  using assms by (induction s arbitrary: tc0) (fastforce split: if_splits)+

lemma padding_scan_end: "tc + sum_list s \<le> c \<Longrightarrow> padding_scan s tc c = (None, tc + sum_list s)"
  by (induction s arbitrary: tc) auto

section \<open>One tab\<close>

lemma next_multiple:
  fixes c w :: nat
  assumes "0 < w"
  shows "c + (w - c mod w) = (c div w + 1) * w"
proof -
  have "c = c div w * w + c mod w" by simp
  moreover have "c mod w < w" using assms by simp
  moreover have "(c div w + 1) * w = c div w * w + w" by simp
  ultimately show ?thesis by linarith
qed

lemma stops_last: "stops_ok v \<Longrightarrow> v \<noteq> [] \<Longrightarrow> 0 < last v"
  by (auto simp: stops_ok_def list_all_iff)

lemma padding_past_end:
  assumes "v \<noteq> []" "sum_list v \<le> c"
  shows "padding c ts v = last v - (c - sum_list v) mod last v"
  using assms padding_scan_end [of 0 v c] by (simp add: padding_def)

lemma padding_pos:
  assumes "layout_ok t"
  shows "0 < tabs_padding t c"
proof (cases "tb_vts t = []")
  case True
  then show ?thesis using assms by (simp add: tabs_padding_def padding_def layout_ok_def Let_def)
next
  case False
  then have l: "0 < last (tb_vts t)" using assms stops_last by (simp add: layout_ok_def)
  obtain p tc ws where f: "fromto_find (tb_vts t) 0 c = (p, tc, ws)" by (cases "fromto_find (tb_vts t) 0 c") auto
  then have ps: "padding_scan (tb_vts t) 0 c = (p, tc)"
    using fromto_find_padding [of "tb_vts t" 0 c] by (simp add: prod_eq_iff)
  show ?thesis
  proof (cases p)
    case None
    then show ?thesis using False ps l by (simp add: tabs_padding_def padding_def)
  next
    case (Some q)
    then show ?thesis using False ps fromto_find_hit [of _ 0 c q tc ws] f
      by (simp add: tabs_padding_def padding_def)
  qed
qed

lemma tab_walk_0 [simp]: "tab_walk t 0 c = c"
  by (simp add: tab_walk_def)

lemma tab_walk_Suc: "tab_walk t (Suc n) c = tab_walk t n (c + tabs_padding t c)"
  by (simp add: tab_walk_def funpow_Suc_right del: funpow.simps)

text \<open>Equal steps: from a column all of whose successors have stops \<open>w\<close> apart.\<close>

lemma tab_walk_even:
  assumes "\<And>j. tabs_padding t (c + j * w) = w"
  shows "tab_walk t n c = c + n * w"
proof (induction n)
  case (Suc n)
  have "tab_walk t (Suc n) c = tab_walk t n c + tabs_padding t (tab_walk t n c)" by (simp add: tab_walk_def)
  then show ?case using Suc assms [of n] by simp
qed simp

definition fills :: "tabs \<Rightarrow> nat \<Rightarrow> nat \<Rightarrow> nat \<times> nat \<Rightarrow> bool" where
  "fills t c d r \<longleftrightarrow> tab_walk t (fst r) c + snd r = d \<and> snd r < tabs_padding t (tab_walk t (fst r) c)"

lemma fills_even:
  assumes "\<And>j. tabs_padding t (c + j * w) = w" "0 < w"
  shows "fills t c (c + sp) (sp div w, sp mod w)"
  using assms tab_walk_even [of t c w] by (simp add: fills_def add.assoc)

lemma fills_step:
  assumes "fills t (c + tabs_padding t c) d (n, r)"
  shows "fills t c d (Suc n, r)"
  using assms by (simp add: fills_def tab_walk_Suc)

text \<open>The uniform layout.\<close>

lemma uniform_padding: "tb_vts t = [] \<Longrightarrow> 0 < tb_ts t \<Longrightarrow> tabs_padding t c = tb_ts t - c mod tb_ts t"
  by (simp add: tabs_padding_def padding_def Let_def)

lemma uniform_aligned:
  assumes "tb_vts t = []" "0 < tb_ts t"
  shows "tabs_padding t (c + tabs_padding t c + j * tb_ts t) = tb_ts t"
proof -
  have "(c + (tb_ts t - c mod tb_ts t) + j * tb_ts t) mod tb_ts t = 0"
    by (simp only: next_multiple [OF assms(2)] mod_mult_self1 mod_mult_self2_is_0)
  then show ?thesis using assms by (simp add: uniform_padding)
qed

lemma fromto_uniform:
  assumes "tb_vts t = []" "0 < tb_ts t" "c \<le> d"
  shows "fills t c d (fromto t c d)"
proof (cases "tabs_padding t c \<le> d - c")
  case True
  let ?p = "tabs_padding t c"
  have "fills t (c + ?p) (c + ?p + (d - c - ?p)) ((d - c - ?p) div tb_ts t, (d - c - ?p) mod tb_ts t)"
    by (rule fills_even) (use assms uniform_aligned [of t c] in auto)
  then have "fills t (c + ?p) d ((d - c - ?p) div tb_ts t, (d - c - ?p) mod tb_ts t)"
    using True assms(3) by simp
  from fills_step [OF this] show ?thesis using True assms by (simp add: fromto_def Let_def uniform_padding)
next
  case False
  then have lt: "d - c < tb_ts t" "d - c < tabs_padding t c" using assms(1,2) by (auto simp: uniform_padding)
  then have "fromto t c d = (0, d - c)" using False assms by (simp add: fromto_def Let_def uniform_padding)
  then show ?thesis using lt assms(3) by (simp add: fills_def)
qed

section \<open>The stop list\<close>

lemma listed_padding_end:
  assumes "tb_vts t \<noteq> []" "0 < last (tb_vts t)" "sum_list (tb_vts t) \<le> c" "(c - sum_list (tb_vts t)) mod last (tb_vts t) = 0"
  shows "tabs_padding t (c + j * last (tb_vts t)) = last (tb_vts t)"
proof -
  have "c + j * last (tb_vts t) - sum_list (tb_vts t) = (c - sum_list (tb_vts t)) + j * last (tb_vts t)" using assms(3) by simp
  then have "(c + j * last (tb_vts t) - sum_list (tb_vts t)) mod last (tb_vts t) = 0"
    by (simp only: mod_mult_self1 assms(4))
  then show ?thesis using assms(1-3) padding_past_end [of "tb_vts t" "c + j * last (tb_vts t)" "tb_ts t"]
    by (simp add: tabs_padding_def)
qed

lemma fill_listed:
  assumes "tb_vts t \<noteq> []" "list_all ((<) 0) ws"
    and "\<And>c'. tc \<le> c' \<Longrightarrow> padding_scan (tb_vts t) 0 c' = padding_scan ws tc c'"
    and "sum_list ws + tc = sum_list (tb_vts t)" "0 < last (tb_vts t)"
  shows "\<exists>k r. fromto_fill ws (last (tb_vts t)) n sp = (n + k, r) \<and> fills t tc (tc + sp) (k, r)"
  using assms(2-4)
proof (induction ws arbitrary: tc n sp)
  case Nil
  then have "fills t tc (tc + sp) (sp div last (tb_vts t), sp mod last (tb_vts t))"
    using listed_padding_end [of t tc] assms(1,5) by (intro fills_even) simp_all
  moreover have "fromto_fill [] (last (tb_vts t)) n sp = (n + sp div last (tb_vts t), sp mod last (tb_vts t))"
    by (simp add: fromto_fill.simps [of "[]"])
  ultimately show ?case by blast
next
  case (Cons w ws)
  have pad: "tabs_padding t tc = w"
    using Cons.prems assms(1) by (simp add: tabs_padding_def padding_def)
  have w: "0 < w" using Cons.prems(1) by simp
  show ?case
  proof (cases "sp < w")
    case True
    have "fromto_fill (w # ws) (last (tb_vts t)) n sp = (n + 0, sp)"
      using True w by (simp add: fromto_fill.simps [of "w # ws"])
    moreover have "fills t tc (tc + sp) (0, sp)" using True pad by (simp add: fills_def)
    ultimately show ?thesis by blast
  next
    case False
    then have st: "fromto_fill (w # ws) (last (tb_vts t)) n sp = fromto_fill ws (last (tb_vts t)) (n + 1) (sp - w)"
      using w by (simp add: fromto_fill.simps [of "w # ws"])
    have "\<exists>k r. fromto_fill ws (last (tb_vts t)) (n + 1) (sp - w) = (n + 1 + k, r) \<and> fills t (tc + w) (tc + w + (sp - w)) (k, r)"
    proof (rule Cons.IH)
      show "list_all ((<) 0) ws" using Cons.prems(1) by simp
      show "padding_scan (tb_vts t) 0 c' = padding_scan ws (tc + w) c'" if "tc + w \<le> c'" for c'
        using Cons.prems(2) [of c'] that by simp
      show "sum_list ws + (tc + w) = sum_list (tb_vts t)" using Cons.prems(3) by simp
    qed
    then obtain k r where kr: "fromto_fill ws (last (tb_vts t)) (n + 1) (sp - w) = (n + 1 + k, r)"
      "fills t (tc + w) (tc + w + (sp - w)) (k, r)" by blast
    have "fills t tc (tc + sp) (Suc k, r)" using kr(2) False pad by (intro fills_step) simp
    then show ?thesis using st kr(1) by (intro exI [of _ "Suc k"] exI [of _ r]) simp
  qed
qed

lemma find_rest_pos:
  "fromto_find s tc0 c = (p, tc, ws) \<Longrightarrow> list_all ((<) (0::nat)) s \<Longrightarrow> list_all ((<) 0) ws"
  by (induction s arbitrary: tc0) (auto split: if_splits)

lemma fromto_listed:
  assumes "layout_ok t" "tb_vts t \<noteq> []" "c \<le> d"
  shows "fills t c d (fromto t c d)"
proof -
  let ?s = "tb_vts t" and ?l = "last (tb_vts t)"
  have pos: "list_all ((<) 0) ?s" and l: "0 < ?l"
    using assms(1,2) by (auto simp: layout_ok_def stops_ok_def list_all_iff)
  obtain p tc ws where f: "fromto_find ?s 0 c = (p, tc, ws)" by (cases "fromto_find ?s 0 c") auto
  then have ps: "padding_scan ?s 0 c = (p, tc)" using fromto_find_padding [of ?s 0 c] by (simp add: prod_eq_iff)
  let ?pad = "tabs_padding t c"
  have pad: "?pad = (case p of Some q \<Rightarrow> q | None \<Rightarrow> ?l - (c - tc) mod ?l)"
    using ps assms(2) by (simp add: tabs_padding_def padding_def split: option.splits)
  have ft: "fromto t c d = (if d - c < ?pad then (0, d - c) else fromto_fill ws ?l 1 (d - c - ?pad))"
    using f assms(2) pad by (simp add: fromto_def Let_def)
  show ?thesis
  proof (cases "d - c < ?pad")
    case True
    then show ?thesis using ft assms(3) by (simp add: fills_def)
  next
    case False
    let ?sp = "d - c - ?pad"
    have "\<exists>k r. fromto_fill ws ?l 1 ?sp = (1 + k, r) \<and> fills t (c + ?pad) (c + ?pad + ?sp) (k, r)"
    proof (cases p)
      case (Some q)
      note fs = f [unfolded Some]
      have "c + ?pad = tc" using fromto_find_hit [OF fs] pad Some by simp
      then show ?thesis
        using fill_listed [of t ws tc 1 ?sp] assms(2) find_rest_pos [OF f pos] fromto_find_rest [OF fs] fromto_find_sum [OF fs] l
        by simp
    next
      case None
      note fn = fromto_find_None [OF f [unfolded None]]
      have e: "tc = sum_list ?s" "tc \<le> c" "ws = []" using fn by simp_all
      have "(c + ?pad - sum_list ?s) mod ?l = 0"
      proof -
        have "c + ?pad - sum_list ?s = (c - tc) + (?l - (c - tc) mod ?l)" using e pad None l by simp
        also have "\<dots> = ((c - tc) div ?l + 1) * ?l" by (rule next_multiple [OF l])
        finally show ?thesis by simp
      qed
      then have "fills t (c + ?pad) (c + ?pad + ?sp) (?sp div ?l, ?sp mod ?l)"
        using listed_padding_end [of t "c + ?pad"] assms(2) l e by (intro fills_even) simp_all
      moreover have "fromto_fill [] ?l 1 ?sp = (1 + ?sp div ?l, ?sp mod ?l)" by (simp add: fromto_fill.simps [of "[]"])
      ultimately show ?thesis unfolding e(3) by blast
    qed
    then obtain k r where "fromto_fill ws ?l 1 ?sp = (Suc k, r)" "fills t (c + ?pad) (c + ?pad + ?sp) (k, r)" by auto
    then show ?thesis using False ft fills_step [of t c d k r] assms(3) by simp
  qed
qed

lemma fromto_fills:
  assumes "layout_ok t" "c \<le> d"
  shows "fills t c d (fromto t c d)"
  using assms fromto_listed fromto_uniform by (cases "tb_vts t = []") (auto simp: layout_ok_def)

section \<open>The interval of a column\<close>

lemma scans_agree:
  assumes "tc \<le> c"
  shows "case padding_scan s tc c of
           (Some p, _) \<Rightarrow> \<exists>a w. fst (start_scan s tc c) = Some a \<and> interval_scan s prv tc c False = Some w \<and> a \<le> c \<and> a + w = c + p
         | (None, x) \<Rightarrow> start_scan s tc c = (None, x) \<and> interval_scan s prv tc c False = None \<and> x = tc + sum_list s \<and> x \<le> c"
  using assms
proof (induction s arbitrary: tc prv)
  case (Cons w s)
  show ?case
  proof (cases "tc + w > c")
    case False
    then show ?thesis using Cons.IH [of "tc + w" "Some w"] by (simp add: add.assoc split: prod.splits option.splits)
  qed (use Cons.prems in \<open>simp split: option.splits\<close>)
qed simp

lemma interval_holds:
  assumes "layout_ok t"
  shows "tabs_start_col t c \<le> c \<and> tabs_start_col t c + interval_width t c False = c + tabs_padding t c"
proof (cases "tb_vts t = []")
  case True
  then have "c mod tb_ts t \<le> c" "c mod tb_ts t < tb_ts t" using assms by (simp_all add: layout_ok_def)
  moreover have "max (tb_ts t) 1 = tb_ts t" using assms by (simp add: layout_ok_def)
  ultimately show ?thesis using True assms
    by (simp add: tabs_start_col_def start_col_def interval_width_def uniform_padding layout_ok_def)
next
  case False
  let ?s = "tb_vts t" and ?l = "last (tb_vts t)"
  have l: "0 < ?l" using False assms stops_last by (simp add: layout_ok_def)
  note sc = scans_agree [of 0 c ?s None, simplified]
  show ?thesis
  proof (cases "padding_scan ?s 0 c")
    case (Pair p x)
    show ?thesis
    proof (cases p)
      case None
      have x: "start_scan ?s 0 c = (None, x)" "interval_scan ?s None 0 c False = None" "x = sum_list ?s" "x \<le> c"
        using sc Pair None by simp_all
      have e: "x mod ?l \<le> c" using x(4) mod_less_eq_dividend [of x ?l] by (rule le_trans [rotated])
      have m: "(c - x mod ?l) mod ?l = (c - x) mod ?l"
      proof -
        have "c - x mod ?l = (c - x) + x div ?l * ?l" using x(4) div_mult_mod_eq [of x ?l] by linarith
        then show ?thesis by (simp only: mod_mult_self1)
      qed
      have b: "(c - x) mod ?l < ?l" "(c - x) mod ?l \<le> c" using l le_trans [OF mod_less_eq_dividend [of "c - x" ?l] diff_le_self] by simp_all
      show ?thesis
        using False Pair None x(1,2) m b
        by (simp add: tabs_start_col_def start_col_def interval_width_def tabs_padding_def padding_def)
    next
      case (Some q)
      then obtain a w where "fst (start_scan ?s 0 c) = Some a" "interval_scan ?s None 0 c False = Some w" "a \<le> c" "a + w = c + q"
        using sc Pair by auto
      then show ?thesis using False Pair Some
        by (cases "start_scan ?s 0 c")
          (simp add: tabs_start_col_def start_col_def interval_width_def tabs_padding_def padding_def)
    qed
  qed
qed

section \<open>Parsing and printing stop lists\<close>

lemma stops_loop_ok: "stops_loop ps out = Some v \<Longrightarrow> stops_ok out \<Longrightarrow> stops_ok v"
proof (induction ps arbitrary: out)
  case (Cons p ps)
  from Cons.prems(1) obtain n where n: "0 < n" "n \<le> MAX_STOP" "length out \<noteq> MAX_VAR_STOPS" "stops_loop ps (out @ [n]) = Some v"
    by (auto split: if_splits option.splits)
  moreover have "stops_ok (out @ [n])" using n Cons.prems(2) by (simp add: stops_ok_def)
  ultimately show ?case using Cons.IH by blast
qed simp

lemma stops_parse_ok: "stops_parse s = Some v \<Longrightarrow> stops_ok v"
  using stops_loop_ok [of "split_on 44 s" "[]" v]
  by (auto simp: stops_parse_def stops_none_def stops_ok_def split: if_splits)

lemma usize_of_append:
  "usize_of (xs @ ys) n = (case usize_of xs n of None \<Rightarrow> None | Some m \<Rightarrow> usize_of ys m)"
  by (induction xs arbitrary: n) (simp_all add: Let_def)

lemma show_dec_digits: "show_dec n \<noteq> [] \<and> list_all is_ascii_digit (show_dec n)"
proof (induction n rule: show_dec.induct)
  case (1 n)
  then show ?case by (cases "n < 10") (auto simp: show_dec.simps [of n] is_ascii_digit_def)
qed

lemma usize_of_show: "n < 2 ^ 64 \<Longrightarrow> usize_of (show_dec n) 0 = Some n"
proof (induction n rule: show_dec.induct)
  case (1 n)
  show ?case
  proof (cases "n < 10")
    case True
    then show ?thesis by (simp add: show_dec.simps [of n])
  next
    case False
    moreover have "n div 10 * 10 + n mod 10 = n" by simp
    ultimately show ?thesis using 1 by (simp add: show_dec.simps [of n] usize_of_append Let_def)
  qed
qed

lemma split_on_none: "c \<notin> set p \<Longrightarrow> split_on c p = [p]"
  by (induction p) simp_all

lemma split_on_append: "c \<notin> set p \<Longrightarrow> split_on c (p @ c # q) = p # split_on c q"
  by (induction p) simp_all

lemma split_join:
  "ps \<noteq> [] \<Longrightarrow> list_all (\<lambda>p. c \<notin> set p) ps \<Longrightarrow> split_on c (join_with c ps) = ps"
  by (induction c ps rule: join_with.induct) (simp_all add: split_on_none split_on_append)

lemma stops_loop_show:
  "list_all (\<lambda>w. 0 < w \<and> w \<le> MAX_STOP) v \<Longrightarrow> length out + length v \<le> MAX_VAR_STOPS \<Longrightarrow>
   stops_loop (map show_dec v) out = Some (out @ v)"
proof (induction v arbitrary: out)
  case (Cons w v)
  have "usize_of (show_dec w) 0 = Some w" using Cons.prems by (intro usize_of_show) (simp add: MAX_STOP_def)
  then show ?case using Cons show_dec_digits [of w] by (simp add: MAX_STOP_def)
qed simp

lemma show_dec_no_comma: "44 \<notin> set (show_dec n)"
  using show_dec_digits [of n] by (auto simp: list_all_iff is_ascii_digit_def)

lemma show_dec_zero: "show_dec w = [ch_0] \<Longrightarrow> w = 0"
  using show_dec_digits [of "w div 10"] by (simp add: show_dec.simps [of w] split: if_splits)

lemma join_nonempty: "list_all (\<lambda>p. p \<noteq> []) ps \<Longrightarrow> ps \<noteq> [] \<Longrightarrow> join_with c ps \<noteq> []"
  by (induction c ps rule: join_with.induct) simp_all

lemma join_single: "list_all (\<lambda>p. p \<noteq> []) ps \<Longrightarrow> join_with c ps = [x] \<Longrightarrow> ps = [[x]]"
  by (induction c ps rule: join_with.induct) (auto simp: append_eq_Cons_conv)

lemma stops_round_trip:
  assumes "stops_ok v"
  shows "stops_parse (stops_text v) = Some v"
proof (cases "v = []")
  case False
  have ne: "list_all (\<lambda>p. p \<noteq> []) (map show_dec v)" using show_dec_digits by (simp add: list_all_iff)
  have "stops_text v \<noteq> []" using join_nonempty [OF ne] False by (simp add: stops_text_def)
  moreover have "stops_text v \<noteq> [ch_0]"
  proof
    assume "stops_text v = [ch_0]"
    then have "map show_dec v = [[ch_0]]" using join_single [OF ne] by (simp add: stops_text_def)
    then obtain w where "v = [w]" "show_dec w = [ch_0]" by auto
    then show False using assms show_dec_zero [of w] by (simp add: stops_ok_def)
  qed
  moreover have "split_on 44 (stops_text v) = map show_dec v"
    using False show_dec_no_comma by (simp add: stops_text_def split_join list_all_iff)
  ultimately show ?thesis using assms stops_loop_show [of v "[]"]
    by (simp add: stops_parse_def stops_none_def stops_ok_def)
qed (simp add: stops_text_def stops_parse_def stops_none_def)

section \<open>Laying text out\<close>

text \<open>The column a run of tabs and other one-cell bytes reaches.\<close>

fun layout :: "tabs \<Rightarrow> nat \<Rightarrow> bytes \<Rightarrow> nat" where
  "layout t c [] = c"
| "layout t c (b # bs) = layout t (if b = 9 then c + tabs_padding t c else c + 1) bs"

lemma layout_append: "layout t c (xs @ ys) = layout t (layout t c xs) ys"
  by (induction xs arbitrary: c) simp_all

lemma layout_tabs: "layout t c (replicate n 9) = tab_walk t n c"
  by (induction n arbitrary: c) (simp_all add: tab_walk_Suc)

lemma layout_spaces: "layout t c (replicate n 32) = c + n"
  by (induction n arbitrary: c) simp_all

text \<open>
  C30: on any valid tab stops (a tabstop, or a stop list with its last width repeating), the tabs and spaces
  \<open>fromto\<close> chooses for the columns from \<open>c\<close> to \<open>d\<close> reach exactly \<open>d\<close>, and its spaces are too few for one
  more tab; the indent \<open>fill\<close> writes is exactly as wide as asked.\<close>

theorem tab_fill_exact:
  assumes "layout_ok t" "c \<le> d"
  shows "(case fromto t c d of (n, sp) \<Rightarrow> tab_walk t n c + sp = d \<and> sp < tabs_padding t (tab_walk t n c)) \<and>
    layout t 0 (tabs_fill t cols) = cols"
  using fromto_fills [OF assms] fromto_fills [OF assms(1), of 0 cols]
  by (simp add: fills_def tabs_fill_def layout_append layout_tabs layout_spaces split_beta)

theorem tab_fill_exact_witness:
  "fromto (tabs_new 8 [4, 2]) 1 11 = (4, 1) \<and> layout (tabs_new 8 [4, 2]) 0 (tabs_fill (tabs_new 8 [4, 2]) 7) = 7"
proof -
  have "layout_ok (tabs_new 8 [4, 2])" by (simp add: layout_ok_def tabs_new_def stops_ok_def MAX_VAR_STOPS_def MAX_STOP_def)
  from tab_fill_exact [OF this, of 1 11 7]
  show ?thesis by (simp add: fromto_def tabs_new_def fromto_fill.simps Let_def)
qed

end
