(* ===== verification/Editor_Options.thy ===== *)
theory Editor_Options
  imports Tab_Stops
begin

text \<open>
  The option values a view carries (\<^verbatim>\<open>EditorOption\<close>, \<^verbatim>\<open>IndentConfig\<close>, \<^verbatim>\<open>FormatConfig\<close>, \<^verbatim>\<open>ViewOptions\<close> of
  \<^verbatim>\<open>crates/core/src/editor/mod.rs\<close>) and the display options of \<^verbatim>\<open>window_options.rs\<close>.  A string is its list of
  code points, an \<^verbatim>\<open>i64\<close> an integer; the bounds the setters clamp to are written out.
\<close>

section \<open>The options\<close>

definition chars :: "string \<Rightarrow> nat list" where
  "chars s = map of_char s"

datatype indent_style = Space | Tab

datatype caret_gravity = OnChar | BetweenChar

datatype editor_option =
    IgnoreCase bool | SmartCase bool | ShiftWidth nat | TabStop nat | ExpandTab bool | TextWidth nat
  | SoftTabStop int | AutoIndent bool | SmartIndent bool | CopyIndent bool | PreserveIndent bool
  | SmartTab bool | ShiftRound bool | CaretGravity caret_gravity | FormatOptions "nat list"
  | Comments "nat list" | CommentString "nat list" | FormatListPat "nat list" | FormatPrg "nat list"
  | EqualPrg "nat list" | CinWords "nat list" | JoinSpaces bool | WrapMargin int | VarTabStop "nat list"
  | VarSoftTabStop "nat list" | Lisp bool | LispWords "nat list" | CIndent bool | CinOptions "nat list"
  | CinKeys "nat list" | CinScopeDecls "nat list"

definition is_global :: "editor_option \<Rightarrow> bool" where
  "is_global opt =
     (case opt of
        IgnoreCase _ \<Rightarrow> True | SmartCase _ \<Rightarrow> True | SmartTab _ \<Rightarrow> True | ShiftRound _ \<Rightarrow> True
      | CaretGravity _ \<Rightarrow> True | JoinSpaces _ \<Rightarrow> True | FormatPrg _ \<Rightarrow> True | EqualPrg _ \<Rightarrow> True
      | _ \<Rightarrow> False)"

definition MAX_OPTION_INT :: nat where "MAX_OPTION_INT = 2147483647"
definition MAX_TABSTOP :: nat where "MAX_TABSTOP = 9999"

record indent_config =
  ic_tab_width :: nat
  ic_shift_width :: nat
  ic_style :: indent_style
  ic_soft_tab :: int
  ic_vts :: var_stops
  ic_vsts :: var_stops
  ic_autoindent :: bool
  ic_smartindent :: bool
  ic_copyindent :: bool
  ic_preserveindent :: bool
  ic_smarttab :: bool
  ic_shiftround :: bool

record search_case =
  sc_ignore :: bool
  sc_smart :: bool

record format_config =
  fc_options :: "nat list"
  fc_comments :: "nat list"
  fc_commentstring :: "nat list"
  fc_listpat :: "nat list"
  fc_prg :: "nat list"
  fc_equalprg :: "nat list"
  fc_cinwords :: "nat list"
  fc_lisp :: bool
  fc_lispwords :: "nat list"
  fc_cindent :: bool
  fc_cinoptions :: "nat list"
  fc_cinkeys :: "nat list"
  fc_cinscopedecls :: "nat list"
  fc_joinspaces :: bool
  fc_wrapmargin :: int

definition fc_has :: "format_config \<Rightarrow> nat \<Rightarrow> bool" where
  "fc_has f c \<longleftrightarrow> c \<in> set (fc_options f)"

record view_options =
  vo_indent :: indent_config
  vo_text_width :: nat
  vo_format :: format_config
  vo_search_case :: search_case
  vo_caret :: caret_gravity

definition DEFAULT_COMMENTS :: "nat list" where
  "DEFAULT_COMMENTS = chars ''s1:/*,mb:*,ex:*/,://,b:#,:%,:XCOMM,n:>,fb:-,fb:'' @ [0x2022]"

text \<open>\<^verbatim>\<open>r"^\s*\d\+[\]:.)}\t ]\s*"\<close>, whose backslashes stand for themselves.\<close>

definition DEFAULT_LISTPAT :: "nat list" where
  "DEFAULT_LISTPAT = chars ''^'' @ 92 # chars ''s*'' @ 92 # chars ''d'' @ 92 # chars ''+['' @ 92 # chars '']:.)}''
     @ 92 # chars ''t ]'' @ 92 # chars ''s*''"

definition DEFAULT_CINWORDS :: "nat list" where
  "DEFAULT_CINWORDS = chars ''if,else,while,do,for,switch''"

definition DEFAULT_LISPWORDS :: "nat list" where
  "DEFAULT_LISPWORDS =
     chars ''defun,define,defmacro,set!,lambda,if,case,let,flet,let*,'' @
     chars ''letrec,do,do*,define-syntax,let-syntax,letrec-syntax,destructuring-bind,defpackage,defparameter,'' @
     chars ''defstruct,deftype,defvar,do-all-symbols,do-external-symbols,do-symbols,dolist,dotimes,ecase,etypecase,'' @
     chars ''eval-when,labels,macrolet,multiple-value-bind,multiple-value-call,multiple-value-prog1,'' @
     chars ''multiple-value-setq,prog1,progv,typecase,unless,unwind-protect,when,with-input-from-string,'' @
     chars ''with-open-file,with-open-stream,with-output-to-string,with-package-iterator,define-condition,'' @
     chars ''handler-bind,handler-case,restart-bind,restart-case,with-simple-restart,store-value,use-value,'' @
     chars ''muffle-warning,abort,continue,with-slots,with-slots*,with-accessors,with-accessors*,defclass,'' @
     chars ''defmethod,print-unreadable-object''"

definition DEFAULT_CINKEYS :: "nat list" where
  "DEFAULT_CINKEYS = chars ''0{,0},0),0],:,0#,!^F,o,O,e''"

definition DEFAULT_CINSCOPEDECLS :: "nat list" where
  "DEFAULT_CINSCOPEDECLS = chars ''public,protected,private''"

definition options_default :: view_options where
  "options_default =
     \<lparr>vo_indent =
        \<lparr>ic_tab_width = 4, ic_shift_width = 4, ic_style = Space, ic_soft_tab = 0, ic_vts = stops_none,
         ic_vsts = stops_none, ic_autoindent = True, ic_smartindent = False, ic_copyindent = False,
         ic_preserveindent = False, ic_smarttab = True, ic_shiftround = False\<rparr>,
      vo_text_width = 0,
      vo_format =
        \<lparr>fc_options = chars ''tcqj'', fc_comments = DEFAULT_COMMENTS, fc_commentstring = [],
         fc_listpat = DEFAULT_LISTPAT, fc_prg = [], fc_equalprg = [], fc_cinwords = DEFAULT_CINWORDS,
         fc_lisp = False, fc_lispwords = DEFAULT_LISPWORDS, fc_cindent = False, fc_cinoptions = [],
         fc_cinkeys = DEFAULT_CINKEYS, fc_cinscopedecls = DEFAULT_CINSCOPEDECLS, fc_joinspaces = False,
         fc_wrapmargin = 0\<rparr>,
      vo_search_case = \<lparr>sc_ignore = False, sc_smart = False\<rparr>,
      vo_caret = OnChar\<rparr>"

section \<open>Setting\<close>

definition clamp :: "'a::linorder \<Rightarrow> 'a \<Rightarrow> 'a \<Rightarrow> 'a" where
  "clamp n lo hi = (if n < lo then lo else if hi < n then hi else n)"

definition clamp_i32 :: "int \<Rightarrow> int" where
  "clamp_i32 n = clamp n (- (2 ^ 31)) (2 ^ 31 - 1)"

definition set_ic :: "(indent_config \<Rightarrow> indent_config) \<Rightarrow> view_options \<Rightarrow> view_options" where
  "set_ic f o1 = o1\<lparr>vo_indent := f (vo_indent o1)\<rparr>"

definition set_fc :: "(format_config \<Rightarrow> format_config) \<Rightarrow> view_options \<Rightarrow> view_options" where
  "set_fc f o1 = o1\<lparr>vo_format := f (vo_format o1)\<rparr>"

definition set_sc :: "(search_case \<Rightarrow> search_case) \<Rightarrow> view_options \<Rightarrow> view_options" where
  "set_sc f o1 = o1\<lparr>vo_search_case := f (vo_search_case o1)\<rparr>"

fun options_set :: "editor_option \<Rightarrow> view_options \<Rightarrow> view_options" where
  "options_set (IgnoreCase v) o1 = set_sc (sc_ignore_update (\<lambda>_. v)) o1"
| "options_set (SmartCase v) o1 = set_sc (sc_smart_update (\<lambda>_. v)) o1"
| "options_set (ShiftWidth n) o1 = set_ic (ic_shift_width_update (\<lambda>_. min n MAX_OPTION_INT)) o1"
| "options_set (TabStop n) o1 = set_ic (ic_tab_width_update (\<lambda>_. clamp n 1 MAX_TABSTOP)) o1"
| "options_set (ExpandTab v) o1 = set_ic (ic_style_update (\<lambda>_. if v then Space else Tab)) o1"
| "options_set (TextWidth n) o1 = o1\<lparr>vo_text_width := min n MAX_OPTION_INT\<rparr>"
| "options_set (VarTabStop v) o1 =
     (case stops_parse v of Some s \<Rightarrow> set_ic (ic_vts_update (\<lambda>_. s)) o1 | None \<Rightarrow> o1)"
| "options_set (VarSoftTabStop v) o1 =
     (case stops_parse v of Some s \<Rightarrow> set_ic (ic_vsts_update (\<lambda>_. s)) o1 | None \<Rightarrow> o1)"
| "options_set (SoftTabStop n) o1 = set_ic (ic_soft_tab_update (\<lambda>_. clamp_i32 n)) o1"
| "options_set (AutoIndent v) o1 = set_ic (ic_autoindent_update (\<lambda>_. v)) o1"
| "options_set (SmartIndent v) o1 = set_ic (ic_smartindent_update (\<lambda>_. v)) o1"
| "options_set (CopyIndent v) o1 = set_ic (ic_copyindent_update (\<lambda>_. v)) o1"
| "options_set (PreserveIndent v) o1 = set_ic (ic_preserveindent_update (\<lambda>_. v)) o1"
| "options_set (SmartTab v) o1 = set_ic (ic_smarttab_update (\<lambda>_. v)) o1"
| "options_set (ShiftRound v) o1 = set_ic (ic_shiftround_update (\<lambda>_. v)) o1"
| "options_set (CaretGravity g) o1 = o1\<lparr>vo_caret := g\<rparr>"
| "options_set (FormatOptions v) o1 = set_fc (fc_options_update (\<lambda>_. v)) o1"
| "options_set (Comments v) o1 = set_fc (fc_comments_update (\<lambda>_. v)) o1"
| "options_set (CommentString v) o1 = set_fc (fc_commentstring_update (\<lambda>_. v)) o1"
| "options_set (FormatListPat v) o1 = set_fc (fc_listpat_update (\<lambda>_. v)) o1"
| "options_set (FormatPrg v) o1 = set_fc (fc_prg_update (\<lambda>_. v)) o1"
| "options_set (EqualPrg v) o1 = set_fc (fc_equalprg_update (\<lambda>_. v)) o1"
| "options_set (CinWords v) o1 = set_fc (fc_cinwords_update (\<lambda>_. v)) o1"
| "options_set (JoinSpaces v) o1 = set_fc (fc_joinspaces_update (\<lambda>_. v)) o1"
| "options_set (Lisp v) o1 = set_fc (fc_lisp_update (\<lambda>_. v)) o1"
| "options_set (LispWords v) o1 = set_fc (fc_lispwords_update (\<lambda>_. v)) o1"
| "options_set (CIndent v) o1 = set_fc (fc_cindent_update (\<lambda>_. v)) o1"
| "options_set (CinOptions v) o1 = set_fc (fc_cinoptions_update (\<lambda>_. v)) o1"
| "options_set (CinKeys v) o1 = set_fc (fc_cinkeys_update (\<lambda>_. v)) o1"
| "options_set (CinScopeDecls v) o1 = set_fc (fc_cinscopedecls_update (\<lambda>_. v)) o1"
| "options_set (WrapMargin n) o1 = set_fc (fc_wrapmargin_update (\<lambda>_. clamp_i32 n)) o1"

definition editing_options :: "view_options \<Rightarrow> editor_option list" where
  "editing_options o1 =
     (let ic = vo_indent o1; fc = vo_format o1; sc = vo_search_case o1 in
     [IgnoreCase (sc_ignore sc), SmartCase (sc_smart sc), TabStop (ic_tab_width ic),
      ShiftWidth (ic_shift_width ic), ExpandTab (ic_style ic = Space), TextWidth (vo_text_width o1),
      SoftTabStop (ic_soft_tab ic), VarTabStop (stops_text (ic_vts ic)), VarSoftTabStop (stops_text (ic_vsts ic)),
      AutoIndent (ic_autoindent ic), SmartIndent (ic_smartindent ic), CopyIndent (ic_copyindent ic),
      PreserveIndent (ic_preserveindent ic), SmartTab (ic_smarttab ic), ShiftRound (ic_shiftround ic),
      CaretGravity (vo_caret o1), FormatOptions (fc_options fc), Comments (fc_comments fc),
      CommentString (fc_commentstring fc), FormatListPat (fc_listpat fc), FormatPrg (fc_prg fc),
      EqualPrg (fc_equalprg fc), CinWords (fc_cinwords fc), JoinSpaces (fc_joinspaces fc),
      WrapMargin (fc_wrapmargin fc), Lisp (fc_lisp fc), LispWords (fc_lispwords fc), CIndent (fc_cindent fc),
      CinOptions (fc_cinoptions fc), CinKeys (fc_cinkeys fc), CinScopeDecls (fc_cinscopedecls fc)])"

definition options_set_indent :: "nat \<Rightarrow> indent_style \<Rightarrow> view_options \<Rightarrow> view_options" where
  "options_set_indent tab_width style o1 =
     (let tw = clamp tab_width 1 MAX_TABSTOP
      in set_ic (\<lambda>i. i\<lparr>ic_tab_width := tw, ic_shift_width := tw, ic_style := style\<rparr>) o1)"

definition options_set_search_case :: "bool \<Rightarrow> bool \<Rightarrow> view_options \<Rightarrow> view_options" where
  "options_set_search_case ig sm o1 = o1\<lparr>vo_search_case := \<lparr>sc_ignore = ig, sc_smart = sm\<rparr>\<rparr>"

definition options_set_caret :: "caret_gravity \<Rightarrow> view_options \<Rightarrow> view_options" where
  "options_set_caret g o1 = o1\<lparr>vo_caret := g\<rparr>"

section \<open>Reading the indent\<close>

definition indent_tabs :: "indent_config \<Rightarrow> tabs" where
  "indent_tabs i = tabs_new (ic_tab_width i) (ic_vts i)"

definition indent_shift_width :: "indent_config \<Rightarrow> nat" where
  "indent_shift_width i = (if ic_shift_width i = 0 then interval_width (indent_tabs i) 0 False else ic_shift_width i)"

definition indent_whitespace :: "indent_config \<Rightarrow> nat \<Rightarrow> bytes" where
  "indent_whitespace i cols =
     (case ic_style i of Space \<Rightarrow> replicate cols 32 | Tab \<Rightarrow> tabs_fill (indent_tabs i) cols)"

section \<open>Window options\<close>

record window_options =
  wo_wrap :: bool
  wo_linebreak :: bool
  wo_breakindent :: bool
  wo_breakindentopt :: "nat list"
  wo_number :: bool
  wo_relativenumber :: bool
  wo_numberwidth :: int
  wo_signcolumn :: "nat list"
  wo_list :: bool
  wo_sidescrolloff :: "int option"
  wo_showbreak :: "nat list option"
  wo_listchars :: "nat list option"
  wo_cursorline :: bool
  wo_cursorlineopt :: "nat list"
  wo_cursorcolumn :: bool
  wo_colorcolumn :: "nat list"
  wo_foldcolumn :: "nat list"
  wo_smoothscroll :: bool
  wo_fillchars :: "nat list option"

definition window_default :: window_options where
  "window_default =
     \<lparr>wo_wrap = True, wo_linebreak = False, wo_breakindent = False, wo_breakindentopt = [], wo_number = False,
      wo_relativenumber = False, wo_numberwidth = 4, wo_signcolumn = chars ''auto'', wo_list = False,
      wo_sidescrolloff = None, wo_showbreak = None, wo_listchars = None, wo_cursorline = False,
      wo_cursorlineopt = chars ''both'', wo_cursorcolumn = False, wo_colorcolumn = [],
      wo_foldcolumn = chars ''0'', wo_smoothscroll = False, wo_fillchars = None\<rparr>"

section \<open>The options stay in their bounds\<close>

definition options_ok :: "view_options \<Rightarrow> bool" where
  "options_ok o1 \<longleftrightarrow>
     (let ic = vo_indent o1 in
      1 \<le> ic_tab_width ic \<and> ic_tab_width ic \<le> MAX_TABSTOP \<and> ic_shift_width ic \<le> MAX_OPTION_INT \<and>
      stops_ok (ic_vts ic) \<and> stops_ok (ic_vsts ic) \<and> - (2 ^ 31) \<le> ic_soft_tab ic \<and> ic_soft_tab ic < 2 ^ 31 \<and>
      vo_text_width o1 \<le> MAX_OPTION_INT \<and> - (2 ^ 31) \<le> fc_wrapmargin (vo_format o1) \<and> fc_wrapmargin (vo_format o1) < 2 ^ 31)"

lemmas option_setters = set_ic_def set_fc_def set_sc_def

lemma clamp_bounds: "lo \<le> hi \<Longrightarrow> lo \<le> clamp n lo hi \<and> clamp n lo hi \<le> hi"
  by (auto simp: clamp_def)

lemma clamp_tabstop: "1 \<le> clamp n 1 MAX_TABSTOP" "clamp n 1 MAX_TABSTOP \<le> MAX_TABSTOP"
  using clamp_bounds [of 1 MAX_TABSTOP n] by (simp_all add: MAX_TABSTOP_def)

lemma clamp_i32_bounds: "- (2 ^ 31) \<le> clamp_i32 n" "clamp_i32 n < 2 ^ 31"
  by (auto simp: clamp_i32_def clamp_def)

lemma clamp_fixed: "lo \<le> n \<Longrightarrow> n \<le> hi \<Longrightarrow> clamp n lo hi = n"
  by (auto simp: clamp_def)

lemma options_default_ok: "options_ok options_default"
  by (simp add: options_ok_def options_default_def stops_none_def stops_ok_def MAX_TABSTOP_def MAX_OPTION_INT_def)

lemma options_set_ok: "options_ok o1 \<Longrightarrow> options_ok (options_set opt o1)"
  using clamp_tabstop clamp_i32_bounds stops_parse_ok
  by (cases opt) (simp_all add: options_ok_def option_setters Let_def split: option.splits)

lemma options_set_indent_ok: "options_ok o1 \<Longrightarrow> options_ok (options_set_indent w st o1)"
  using clamp_tabstop [of w] by (simp add: options_ok_def options_set_indent_def set_ic_def Let_def MAX_TABSTOP_def MAX_OPTION_INT_def)

lemma indent_layout_ok: "options_ok o1 \<Longrightarrow> layout_ok (indent_tabs (vo_indent o1))"
  by (simp add: options_ok_def indent_tabs_def layout_ok_def tabs_new_def Let_def)

text \<open>
  the list of settings a trace starts with reproduces the options it was taken from: replayed on any other
  options it gives exactly those, whatever sequence of settings led to them.\<close>

theorem options_round_trip:
  assumes "o1 = fold options_set opts options_default"
  shows "fold options_set (editing_options o1) o2 = o1"
proof -
  have ok: "options_ok o1"
    unfolding assms using options_default_ok
    by (induction opts arbitrary: rule: rev_induct) (simp_all add: options_set_ok)
  have st: "(if ic_style (vo_indent o1) = Space then Space else Tab) = ic_style (vo_indent o1)"
    by (cases "ic_style (vo_indent o1)") simp_all
  have c: "clamp (ic_tab_width (vo_indent o1)) (Suc 0) MAX_TABSTOP = ic_tab_width (vo_indent o1)"
    "clamp_i32 (ic_soft_tab (vo_indent o1)) = ic_soft_tab (vo_indent o1)"
    "clamp_i32 (fc_wrapmargin (vo_format o1)) = fc_wrapmargin (vo_format o1)"
    "min (ic_shift_width (vo_indent o1)) MAX_OPTION_INT = ic_shift_width (vo_indent o1)"
    "min (vo_text_width o1) MAX_OPTION_INT = vo_text_width o1"
    using ok by (auto simp: options_ok_def Let_def clamp_i32_def intro!: clamp_fixed)
  have v: "stops_parse (stops_text (ic_vts (vo_indent o1))) = Some (ic_vts (vo_indent o1))"
    "stops_parse (stops_text (ic_vsts (vo_indent o1))) = Some (ic_vsts (vo_indent o1))"
    using ok by (auto simp: options_ok_def Let_def intro!: stops_round_trip)
  show ?thesis
    by (rule view_options.equality; (rule indent_config.equality format_config.equality search_case.equality)?)
      (simp_all add: editing_options_def Let_def option_setters c v st)
qed

theorem options_round_trip_witness:
  "fold options_set (editing_options (options_set (VarTabStop (chars ''4,2'')) options_default)) options_default =
     options_set (VarTabStop (chars ''4,2'')) options_default"
  by (rule options_round_trip [of _ "[VarTabStop (chars ''4,2'')]"]) simp

end
