(* ===== verification/View.thy ===== *)
theory View
  imports Document_Laws Editor_Options
begin

text \<open>
  The view of \<^verbatim>\<open>crates/core/src/editor/mod.rs\<close>: the per-window state over a document, with every position it
  keeps (cursor, selection, marks, change list, jumplist), the operations that record, walk and carry
  those positions, and the invariant the source asserts (\<^verbatim>\<open>View::assert_invariants\<close>).

  The record keeps the fields these operations and the workspace read or write.  The five option fields
  (\<open>indent\<close>, \<open>text_width\<close>, \<open>format\<close>, \<open>search_case\<close>, \<open>caret\<close>) are kept together as the \<^verbatim>\<open>ViewOptions\<close> value that
  \<^verbatim>\<open>View::options\<close> and \<^verbatim>\<open>View::set_options\<close> convert them to.  The session state of single commands (the
  Replace stack, the block insert, the smart indent, the kill and insert flags) is not touched here and left out.
  A \<^verbatim>\<open>char\<close> is its code point.
\<close>

section \<open>The view\<close>

datatype select_kind = SelCharwise | SelLinewise | SelBlockwise

datatype mode =
    Normal | Insert | Replace | VirtualReplace | Visual select_kind | Select select_kind | Terminal | TerminalNormal

text \<open>A wanted column: known, or the column of a position in a text, measured when read.\<close>

datatype want = WantCol nat | WantAt bytes nat tabs bool

record editor_view =
  v_doc :: u64
  v_top :: nat
  v_scroll :: "(nat \<times> nat) option"
  v_scrolloff :: "int option"
  v_leftcol :: nat
  v_skipcol :: nat
  v_window :: window_options
  v_cursor :: nat
  v_mode :: mode
  v_last_was_edit :: bool
  v_registers :: register_store
  v_pending_register :: "nat option"
  v_anchor :: "nat option"
  v_mark :: "nat option"
  v_last_visual :: "(nat \<times> nat \<times> select_kind) option"
  v_options :: view_options
  v_text_cols :: nat
  v_curswant :: want
  v_changes :: "nat list"
  v_new_change :: bool
  v_change_idx :: nat
  v_named_marks :: "nat option list"
  v_visual_one_end :: "nat option"
  v_last_insert :: "nat option"
  v_change_start :: "nat option"
  v_change_end :: "nat option"
  v_insert_start :: "nat option"
  v_insstart :: "nat option"
  v_jumps :: "nat list"
  v_keep_jumps :: bool
  v_jump_idx :: nat

definition mark_slot :: "nat \<Rightarrow> nat option" where
  "mark_slot c =
     (if ch_a \<le> c \<and> c \<le> ch_z then Some (c - ch_a)
      else if ch_upper_A \<le> c \<and> c \<le> ch_upper_Z then Some (26 + c - ch_upper_A)
      else if ch_0 \<le> c \<and> c \<le> ch_9 then Some (52 + c - ch_0)
      else None)"

definition MAX_CHANGES :: nat where "MAX_CHANGES = 100"
definition TRACKED_FIXED :: nat where "TRACKED_FIXED = 67"

definition view_fresh :: "u64 \<Rightarrow> editor_view" where
  "view_fresh d =
     \<lparr>v_doc = d, v_top = 0, v_scroll = None, v_scrolloff = None, v_leftcol = 0, v_skipcol = 0,
      v_window = window_default, v_cursor = 0, v_mode = Normal, v_last_was_edit = False,
      v_registers = registers_new, v_pending_register = None, v_anchor = None, v_mark = None,
      v_last_visual = None, v_options = options_default, v_text_cols = 80, v_curswant = WantCol 0,
      v_changes = [], v_new_change = False, v_change_idx = 0, v_named_marks = replicate 62 None,
      v_visual_one_end = None, v_last_insert = None, v_change_start = None, v_change_end = None,
      v_insert_start = None, v_insstart = None, v_jumps = [], v_keep_jumps = False, v_jump_idx = 0\<rparr>"

section \<open>Carrying the positions\<close>

definition snap_in :: "bytes \<Rightarrow> nat \<Rightarrow> nat" where
  "snap_in b p = snap b (min p (length b))"

definition snap_offsets :: "bytes \<Rightarrow> editor_view \<Rightarrow> editor_view" where
  "snap_offsets b v =
     v\<lparr>v_changes := map (snap_in b) (v_changes v),
       v_named_marks := map (map_option (snap_in b)) (v_named_marks v),
       v_last_insert := map_option (snap_in b) (v_last_insert v),
       v_last_visual := map_option (\<lambda>(a, e, k). (snap_in b a, snap_in b e, k)) (v_last_visual v),
       v_anchor := map_option (snap_in b) (v_anchor v),
       v_mark := map_option (snap_in b) (v_mark v),
       v_change_start := map_option (snap_in b) (v_change_start v),
       v_change_end := map_option (snap_in b) (v_change_end v),
       v_insert_start := map_option (snap_in b) (v_insert_start v),
       v_insstart := map_option (snap_in b) (v_insstart v),
       v_jumps := map (snap_in b) (v_jumps v)\<rparr>"

definition view_tracked :: "editor_view \<Rightarrow> tracked list" where
  "view_tracked v =
     (let (va, ve) = (case v_last_visual v of None \<Rightarrow> (None, None) | Some (a, e, _) \<Rightarrow> (Some a, Some e)) in
      map (\<lambda>m. restored (tracked_line m Drop)) (take 26 (v_named_marks v))
      @ [restored (tracked_line va Keep), restored (tracked_line ve Keep)]
      @ map (\<lambda>m. tracked_line m Keep) (slice 26 52 (v_named_marks v))
      @ [tracked_line (v_last_insert v) Drop, tracked_line (v_change_start v) Keep, tracked_line (v_change_end v) Keep]
      @ map (\<lambda>m. tracked_line m Keep) (drop 52 (v_named_marks v))
      @ map (\<lambda>p. tracked_line (Some p) Keep) (v_changes v)
      @ map (\<lambda>p. tracked_line (Some p) Keep) (v_jumps v))"

definition tracked_pos :: "tracked list \<Rightarrow> nat \<Rightarrow> nat option" where
  "tracked_pos ts i = (case get_at ts i of None \<Rightarrow> None | Some t \<Rightarrow> tk_pos t)"

definition or_zero :: "nat option \<Rightarrow> nat" where
  "or_zero x = (case x of None \<Rightarrow> 0 | Some p \<Rightarrow> p)"

definition untrack :: "tracked list \<Rightarrow> editor_view \<Rightarrow> editor_view" where
  "untrack ts v =
     (let pos = tracked_pos ts; n = length (v_changes v) in
      v\<lparr>v_named_marks := map pos [0..<26] @ map (\<lambda>i. pos (i + 2)) [26..<52] @ map (\<lambda>i. pos (i + 5)) [52..<62],
        v_last_visual :=
          (case (v_last_visual v, pos 26, pos 27) of
             (Some (_, _, kind), Some a, Some e) \<Rightarrow> Some (a, e, kind)
           | _ \<Rightarrow> v_last_visual v),
        v_last_insert := pos 54,
        v_change_start := pos 55,
        v_change_end := pos 56,
        v_changes := map (\<lambda>i. or_zero (pos (TRACKED_FIXED + i))) [0..<n],
        v_jumps := map (\<lambda>i. or_zero (pos (TRACKED_FIXED + n + i))) [0..<length (v_jumps v)]\<rparr>)"

section \<open>Marks\<close>

definition set_named_mark :: "nat \<Rightarrow> nat \<Rightarrow> editor_view \<Rightarrow> editor_view" where
  "set_named_mark c p v =
     (case mark_slot c of Some i \<Rightarrow> v\<lparr>v_named_marks := (v_named_marks v)[i := Some p]\<rparr> | None \<Rightarrow> v)"

definition last_visual_bounds :: "editor_view \<Rightarrow> (nat \<times> nat \<times> select_kind) option" where
  "last_visual_bounds v = map_option (\<lambda>(a, e, k). (min a e, max a e, k)) (v_last_visual v)"

definition named_mark :: "editor_view \<Rightarrow> nat \<Rightarrow> nat option" where
  "named_mark v c =
     (if c = 94 then v_last_insert v
      else if c = 60 \<or> c = 62 then
        map_option (\<lambda>(s, e, _). if c = 60 then s else e) (last_visual_bounds v)
      else case mark_slot c of None \<Rightarrow> None | Some i \<Rightarrow> v_named_marks v ! i)"

definition last_change :: "editor_view \<Rightarrow> nat option" where
  "last_change v = last_opt (v_changes v)"

definition context_mark :: "editor_view \<Rightarrow> nat option" where
  "context_mark v = last_opt (v_jumps v)"

definition marks_snapshot :: "editor_view \<Rightarrow> (nat \<times> nat) list" where
  "marks_snapshot v =
     List.map_filter (\<lambda>c. map_option (Pair c) (named_mark v c))
       ([ch_a..<Suc ch_z] @ [ch_upper_A..<Suc ch_upper_Z] @ [ch_0..<Suc ch_9])
     @ (case last_change v of None \<Rightarrow> [] | Some p \<Rightarrow> [(46, p)])
     @ (case v_last_insert v of None \<Rightarrow> [] | Some p \<Rightarrow> [(94, p)])"

section \<open>The change list\<close>

definition change_line_col :: "bytes \<Rightarrow> nat \<Rightarrow> nat \<times> nat" where
  "change_line_col b p = (let p = min p (length b) in (line_of b p, p - line_start b p))"

definition far_enough :: "editor_view \<Rightarrow> bytes \<Rightarrow> nat \<Rightarrow> bool" where
  "far_enough v b p =
     (case last_opt (v_changes v) of
        None \<Rightarrow> True
      | Some prv \<Rightarrow>
          (let (line, col) = change_line_col b p; (l, c) = change_line_col b prv;
               cols = (if vo_text_width (v_options v) = 0 then 79 else vo_text_width (v_options v))
           in l \<noteq> line \<or> c + cols < col \<or> col + cols < c))"

definition push_bounded :: "nat \<Rightarrow> nat list \<Rightarrow> nat list" where
  "push_bounded p ps = (if length (ps @ [p]) > MAX_CHANGES then drop 1 (ps @ [p]) else ps @ [p])"

definition push_change :: "bytes \<Rightarrow> nat \<Rightarrow> bool \<Rightarrow> editor_view \<Rightarrow> editor_view" where
  "push_change b p new_step v =
     (if v_keep_jumps v then v
      else
        let v1 = v\<lparr>v_new_change := v_new_change v \<or> new_step\<rparr>;
            v2 = (if (v_new_change v1 \<or> v_changes v1 = []) \<and> far_enough v1 b p
                  then v1\<lparr>v_new_change := False, v_changes := push_bounded p (v_changes v1)\<rparr> else v1);
            v3 = (if v_changes v2 = [] then v2 else v2\<lparr>v_changes := butlast (v_changes v2) @ [p]\<rparr>)
        in v3\<lparr>v_change_idx := length (v_changes v3)\<rparr>)"

definition nav_change :: "bool \<Rightarrow> editor_view \<Rightarrow> nat option \<times> editor_view" where
  "nav_change older v =
     (if v_changes v = [] then (None, v)
      else if older then
        (if v_change_idx v = 0 then (None, v)
         else let v' = v\<lparr>v_change_idx := v_change_idx v - 1\<rparr> in (get_at (v_changes v') (v_change_idx v'), v'))
      else if length (v_changes v) \<le> v_change_idx v + 1 then (None, v)
      else let v' = v\<lparr>v_change_idx := v_change_idx v + 1\<rparr> in (get_at (v_changes v') (v_change_idx v'), v'))"

section \<open>The jumplist\<close>

definition push_jump :: "nat \<Rightarrow> editor_view \<Rightarrow> editor_view" where
  "push_jump p v =
     (if v_keep_jumps v then v
      else
        let v1 = (if last_opt (v_jumps v) \<noteq> Some p then v\<lparr>v_jumps := push_bounded p (v_jumps v)\<rparr> else v)
        in v1\<lparr>v_jump_idx := length (v_jumps v1)\<rparr>)"

definition jump_line :: "bytes \<Rightarrow> nat \<Rightarrow> nat" where
  "jump_line b p = line_of b (min p (length b))"

text \<open>\<open>i\<close> is the index of the entry the loop is at, \<open>idx\<close> the walk cursor, \<open>acc\<close> the entries kept so far.\<close>

fun clean_loop :: "bytes \<Rightarrow> nat list \<Rightarrow> nat \<Rightarrow> nat \<Rightarrow> nat list \<Rightarrow> nat \<times> nat list" where
  "clean_loop b [] i idx acc = (idx, acc)"
| "clean_loop b (p # ps) i idx acc =
     clean_loop b ps (i + 1) (if idx = i then length acc else idx)
       (if jump_line b p \<notin> set (map (jump_line b) ps) then acc @ [p] else acc)"

definition clean_jumps :: "bytes \<Rightarrow> nat \<Rightarrow> editor_view \<Rightarrow> editor_view" where
  "clean_jumps b now v =
     (let len = length (v_jumps v);
          (idx, acc) = clean_loop b (v_jumps v) 0 (v_jump_idx v) [];
          v1 = v\<lparr>v_jump_idx := (if idx = len then length acc else idx), v_jumps := acc\<rparr>
      in if v_jump_idx v1 = length acc \<and> (case last_opt acc of None \<Rightarrow> False | Some p \<Rightarrow> jump_line b p = jump_line b now)
         then v1\<lparr>v_jumps := butlast acc, v_jump_idx := v_jump_idx v1 - 1\<rparr> else v1)"

definition nav_jump :: "bool \<Rightarrow> nat \<Rightarrow> bytes \<Rightarrow> editor_view \<Rightarrow> nat option \<times> editor_view" where
  "nav_jump older now b v =
     (let v = clean_jumps b now v; len = length (v_jumps v) in
      if older then
        (if v_jump_idx v = 0 \<or> len = 0 then (None, v)
         else if v_jump_idx v = len then
           (let v1 = v\<lparr>v_jumps := push_bounded now (v_jumps v)\<rparr>;
                v2 = v1\<lparr>v_jump_idx := length (v_jumps v1) - 1\<rparr>
            in if v_jump_idx v2 = 0 then (None, v2)
               else let v3 = v2\<lparr>v_jump_idx := v_jump_idx v2 - 1\<rparr> in (get_at (v_jumps v3) (v_jump_idx v3), v3))
         else let v3 = v\<lparr>v_jump_idx := v_jump_idx v - 1\<rparr> in (get_at (v_jumps v3) (v_jump_idx v3), v3))
      else if len \<le> v_jump_idx v + 1 then (None, v)
      else let v3 = v\<lparr>v_jump_idx := v_jump_idx v + 1\<rparr> in (get_at (v_jumps v3) (v_jump_idx v3), v3))"

text \<open>\<open>:mark\<close>: the boolean says whether \<open>c\<close> names a mark.\<close>

definition visual_end_set :: "nat \<Rightarrow> nat \<Rightarrow> editor_view \<Rightarrow> editor_view" where
  "visual_end_set c p v =
     (let start = (c = 60) in
      case v_last_visual v of
        None \<Rightarrow> v\<lparr>v_visual_one_end := Some c, v_last_visual := Some (p, p, SelCharwise)\<rparr>
      | Some (a, e, kind) \<Rightarrow>
          (case v_visual_one_end v of
             Some only \<Rightarrow>
               if only = c then v\<lparr>v_last_visual := Some (p, p, kind)\<rparr>
               else v\<lparr>v_visual_one_end := None,
                      v_last_visual := Some (if start then (p, a, kind) else (a, p, kind))\<rparr>
           | None \<Rightarrow> v\<lparr>v_last_visual := Some (if start then (p, e, kind) else (a, p, kind))\<rparr>))"

definition set_mark :: "nat \<Rightarrow> nat \<Rightarrow> editor_view \<Rightarrow> bool \<times> editor_view" where
  "set_mark c p v =
     (if c = 39 \<or> c = 96 then (True, push_jump p v)
      else if c = 91 then (True, v\<lparr>v_change_start := Some p\<rparr>)
      else if c = 93 then (True, v\<lparr>v_change_end := Some p\<rparr>)
      else if c = 60 \<or> c = 62 then (True, visual_end_set c p v)
      else if mark_slot c \<noteq> None then (True, set_named_mark c p v)
      else (False, v))"

section \<open>The invariant\<close>

definition check_pos :: "bytes \<Rightarrow> nat \<Rightarrow> bool" where
  "check_pos b p \<longleftrightarrow> p \<le> length b \<and> (utf8_valid b \<longrightarrow> p = 0 \<or> p = length b \<or> \<not> is_cont (b ! p))"

definition check_opt :: "bytes \<Rightarrow> nat option \<Rightarrow> bool" where
  "check_opt b x = (case x of None \<Rightarrow> True | Some p \<Rightarrow> check_pos b p)"

definition view_assert_invariants :: "bytes \<Rightarrow> editor_view \<Rightarrow> bool" where
  "view_assert_invariants b v \<longleftrightarrow>
     check_pos b (v_cursor v) \<and> list_all (\<lambda>t. check_opt b (tk_pos t)) (view_tracked v) \<and>
     check_opt b (v_anchor v) \<and> check_opt b (v_mark v) \<and> check_opt b (v_insert_start v) \<and> check_opt b (v_insstart v) \<and>
     length (v_changes v) \<le> MAX_CHANGES \<and> length (v_jumps v) \<le> MAX_CHANGES \<and>
     v_change_idx v \<le> length (v_changes v) \<and> v_jump_idx v \<le> length (v_jumps v)"

section \<open>The editor state\<close>

record editor_state =
  es_doc :: document
  es_view :: editor_view
  es_origin :: transaction_origin

definition view_tab_end :: "editor_view \<Rightarrow> bool" where
  "view_tab_end v =
     (case v_mode v of
        Normal \<Rightarrow> vo_caret (v_options v) = OnChar
      | Visual _ \<Rightarrow> (case v_anchor v of None \<Rightarrow> True | Some a \<Rightarrow> a \<le> v_cursor v)
      | _ \<Rightarrow> False)"

definition wanted_col :: "editor_state \<Rightarrow> want" where
  "wanted_col st =
     WantAt (d_text (es_doc st)) (v_cursor (es_view st)) (indent_tabs (vo_indent (v_options (es_view st))))
       (view_tab_end (es_view st))"

definition on_view :: "(editor_view \<Rightarrow> editor_view) \<Rightarrow> editor_state \<Rightarrow> editor_state" where
  "on_view f st = st\<lparr>es_view := f (es_view st)\<rparr>"

definition editor_new :: "bytes \<Rightarrow> editor_state" where
  "editor_new initial =
     (let d = mark_saved (document_new 1 initial);
          st = \<lparr>es_doc = d, es_view = view_fresh (d_id d), es_origin = UserInput\<rparr>
      in on_view (\<lambda>v. v\<lparr>v_curswant := wanted_col st\<rparr>) st)"

definition with_tracked :: "(document \<Rightarrow> tracked list \<Rightarrow> 'r \<times> tracked list \<times> document) \<Rightarrow> editor_state \<Rightarrow> 'r \<times> editor_state" where
  "with_tracked f st =
     (case f (es_doc st) (view_tracked (es_view st)) of
        (r, ts, d) \<Rightarrow> (r, st\<lparr>es_doc := d, es_view := untrack ts (es_view st)\<rparr>))"

definition editor_apply_txn :: "transaction \<Rightarrow> editor_state \<Rightarrow> (txn_error + revision) \<times> editor_state" where
  "editor_apply_txn txn = with_tracked (\<lambda>d ts. apply_tracked d txn ts)"

definition editor_set_cursor :: "nat \<Rightarrow> editor_state \<Rightarrow> editor_state" where
  "editor_set_cursor p st =
     (let b = d_text (es_doc st); st1 = on_view (\<lambda>v. v\<lparr>v_cursor := snap b (min p (length b))\<rparr>) st
      in on_view (\<lambda>v. v\<lparr>v_curswant := wanted_col st1\<rparr>) st1)"

definition settle_offsets :: "editor_state \<Rightarrow> editor_state" where
  "settle_offsets st =
     (let b = d_text (es_doc st)
      in on_view (\<lambda>v. snap_offsets b (v\<lparr>v_cursor := snap b (v_cursor v)\<rparr>)) st)"

text \<open>
  A batch of edits from outside the editor (\<^verbatim>\<open>EditorState::apply_edits\<close>): all of it or none.  The cursor moves
  with its text.
\<close>

definition MAX_APPLY_EDITS :: nat where "MAX_APPLY_EDITS = 2 ^ 20"
definition MAX_APPLY_EDIT_BYTES :: nat where "MAX_APPLY_EDIT_BYTES = 2147483647"

definition edit_boundary :: "bytes \<Rightarrow> nat \<Rightarrow> bool" where
  "edit_boundary b p \<longleftrightarrow> p = length b \<or> p < length b \<and> \<not> is_cont (b ! p)"

definition edits_refused :: "bytes \<Rightarrow> (nat \<times> nat \<times> bytes) list \<Rightarrow> bool" where
  "edits_refused b edits \<longleftrightarrow>
     edits = [] \<or> MAX_APPLY_EDITS < length edits \<or>
     MAX_APPLY_EDIT_BYTES < fold (\<lambda>(_, _, t) n. min (2 ^ 64 - 1) (n + length t)) edits 0 \<or>
     \<not> list_all (\<lambda>(s, e, _). s \<le> e \<and> e \<le> length b \<and> edit_boundary b s \<and> edit_boundary b e) edits"

definition editor_apply_edits :: "(nat \<times> nat \<times> bytes) list \<Rightarrow> transaction_origin \<Rightarrow> editor_state \<Rightarrow> bool \<times> editor_state" where
  "editor_apply_edits edits origin st =
     (let b = d_text (es_doc st) in
      if edits_refused b edits then (False, st)
      else case edit_list_new (map (\<lambda>(s, e, t). edit_replace s (e - s) t) edits) of
        Inl _ \<Rightarrow> (False, st)
      | Inr es \<Rightarrow>
          (let cursor = map_byte es (v_cursor (es_view st)) After;
               txn = with_hint (transaction_new (d_revision (es_doc st)) es origin) BreakBefore;
               (r, st1) = editor_apply_txn txn st
           in if isl r then (False, st1)
              else
                let st2 = on_view (\<lambda>v. v\<lparr>v_last_was_edit := True\<rparr>) st1;
                    st3 = editor_set_cursor (min cursor (length (d_text (es_doc st2)))) st2
                in (True, settle_offsets st3)))"

definition swap_registers :: "register_store \<Rightarrow> editor_state \<Rightarrow> register_store \<times> editor_state" where
  "swap_registers rs st = (v_registers (es_view st), on_view (\<lambda>v. v\<lparr>v_registers := rs\<rparr>) st)"

definition editor_assert_invariants :: "editor_state \<Rightarrow> bool" where
  "editor_assert_invariants st \<longleftrightarrow>
     v_doc (es_view st) = d_id (es_doc st) \<and> doc_assert_invariants (es_doc st) \<and>
     view_assert_invariants (d_text (es_doc st)) (es_view st)"

end
