(* ===== verification/View_Laws.thy ===== *)
theory View_Laws
  imports View
begin

text \<open>
  What the operations of a view keep: the positions stay inside the text and on character boundaries, the
  change list and the jumplist stay within their bounds, and the walks over them go where the entries say.
\<close>

unbundle bit_operations_syntax

section \<open>Boundaries of valid text\<close>

lemma cont_range_list: "list_all (\<lambda>n. (n::int) AND 192 = 128) [128..191]"
  by code_simp

lemma not_cont_range_list: "list_all (\<lambda>n. (n::int) AND 192 \<noteq> 128) ([0..127] @ [192..255])"
  by code_simp

lemma is_cont_iff: "is_cont c \<longleftrightarrow> 0x80 \<le> c \<and> c \<le> 0xBF"
proof -
  have u: "is_cont c \<longleftrightarrow> uint c AND 192 = 128"
    by (simp add: is_cont_def word_uint_eq_iff unsigned_and_eq)
  have b: "0 \<le> uint c" "uint c < 256" using uint_lt2p [of c] by simp_all
  have "uint c AND 192 = 128 \<longleftrightarrow> 128 \<le> uint c \<and> uint c \<le> 191"
  proof (cases "128 \<le> uint c \<and> uint c \<le> 191")
    case True
    then have "uint c \<in> {128..191}" by (simp only: atLeastAtMost_iff)
    with cont_range_list [unfolded list_all_iff set_upto] have "uint c AND 192 = 128" by (rule bspec)
    then show ?thesis using True by simp
  next
    case False
    then have "uint c \<in> {0..127} \<union> {192..255}" using b unfolding Un_iff atLeastAtMost_iff by linarith
    with not_cont_range_list [unfolded list_all_iff set_append set_upto] have "uint c AND 192 \<noteq> 128" by (rule bspec)
    then show ?thesis using False by simp
  qed
  then show ?thesis by (simp add: u word_le_def)
qed

lemma lead_spec_facts:
  assumes "lead_spec c = Some (w, lo, hi)"
  shows "2 \<le> w" "w \<le> 4" "0x80 \<le> lo" "hi \<le> 0xBF" "\<not> is_cont c"
proof -
  have w: "2 \<le> w \<and> w \<le> 4 \<and> 0x80 \<le> lo \<and> hi \<le> 0xBF"
    using assms by (auto simp: lead_spec_def split: if_splits)
  then show "2 \<le> w" "w \<le> 4" "0x80 \<le> lo" "hi \<le> 0xBF" by simp_all
  have "0xC2 \<le> c" using assms by (auto simp: lead_spec_def word_le_nat_alt split: if_splits)
  moreover have "(0xBF :: byte) < 0xC2" by simp
  ultimately have "0xBF < c" by (rule less_le_trans [rotated])
  then show "\<not> is_cont c" by (simp add: is_cont_iff not_le)
qed

lemma char_len_facts:
  assumes "char_len_at b i = Some w"
  shows "1 \<le> w" "w \<le> 4" "i + w \<le> length b" "\<not> is_cont (b ! i)" "\<And>k. i < k \<Longrightarrow> k < i + w \<Longrightarrow> is_cont (b ! k)"
proof -
  have i: "i < length b" using assms by (auto simp: char_len_at_def get_at_def split: if_splits)
  have "1 \<le> w \<and> w \<le> 4 \<and> i + w \<le> length b \<and> \<not> is_cont (b ! i) \<and> (\<forall>k>i. k < i + w \<longrightarrow> is_cont (b ! k))"
  proof (cases "b ! i \<le> 0x7F")
    case True
    moreover have "(0x7F :: byte) < 0x80" by simp
    ultimately have "b ! i < 0x80" by (rule le_less_trans)
    then have "\<not> is_cont (b ! i)" by (simp add: is_cont_iff not_le)
    moreover have "w = 1" using assms i True by (simp add: char_len_at_def get_at_def)
    ultimately show ?thesis using i by simp
  next
    case False
    then obtain w' lo hi where l: "lead_spec (b ! i) = Some (w', lo, hi)" "\<not> length b < i + w'"
      "lo \<le> slice (i + 1) (i + w') b ! 0" "slice (i + 1) (i + w') b ! 0 \<le> hi"
      "list_all is_cont (tl (slice (i + 1) (i + w') b))" "w = w'"
      using assms i by (auto simp: char_len_at_def get_at_def Let_def split: option.splits if_splits prod.splits)
    note f = lead_spec_facts [OF l(1)]
    have len: "length (slice (i + 1) (i + w) b) = w - 1" using l(2,6) by simp
    have nth: "slice (i + 1) (i + w) b ! m = b ! (i + 1 + m)" if "m < w - 1" for m
      using that l(2,6) slice_nth [of m "i + w" "i + 1" b] by simp
    have "is_cont (b ! k)" if k: "i < k" "k < i + w" for k
    proof (cases "k = i + 1")
      case True
      then have "b ! k = slice (i + 1) (i + w) b ! 0" using nth [of 0] k by simp
      then have "lo \<le> b ! k" "b ! k \<le> hi" using l(3,4,6) by simp_all
      then show ?thesis using f(3,4) unfolding is_cont_iff by (blast intro: order.trans)
    next
      case False
      then have "i + 2 \<le> k" using k by simp
      then obtain m where m: "k = i + 2 + m" using le_iff_add [of "i + 2" k] by auto
      have "m < length (tl (slice (i + 1) (i + w) b))" using len k m by simp
      then have "is_cont (tl (slice (i + 1) (i + w) b) ! m)" using l(5,6) by (auto simp: list_all_length)
      moreover have "tl (slice (i + 1) (i + w) b) ! m = b ! k"
        using nth [of "Suc m"] k m len by (simp add: nth_tl)
      ultimately show ?thesis by simp
    qed
    then show ?thesis using f l by simp
  qed
  then show "1 \<le> w" "w \<le> 4" "i + w \<le> length b" "\<not> is_cont (b ! i)" "\<And>k. i < k \<Longrightarrow> k < i + w \<Longrightarrow> is_cont (b ! k)"
    by auto
qed

lemma char_len_at_drop: "char_len_at (drop i b) 0 = char_len_at b i"
  by (auto simp: char_len_at_def get_at_def slice_drop Let_def split: option.splits)

lemma utf8_inside:
  assumes "utf8_valid (drop i b)" "i \<le> p" "p < length b" "is_cont (b ! p)"
  shows "inside_char b p"
  using assms
proof (induction "length b - i" arbitrary: i rule: less_induct)
  case less
  have "drop i b \<noteq> []" using less.prems by simp
  then obtain w where w: "char_len_at b i = Some w" "utf8_valid (drop (max 1 w) (drop i b))"
    using less.prems(1) by (auto simp: utf8_valid.simps [of "drop i b"] char_len_at_drop split: option.splits)
  note f = char_len_facts [OF w(1)]
  show ?case
  proof (cases "p < i + w")
    case True
    have "i \<noteq> p" using f(4) less.prems(4) by auto
    then have "p - 3 \<le> i \<and> i < p \<and> \<not> is_cont (b ! i) \<and> (\<forall>k. i < k \<longrightarrow> k \<le> p \<longrightarrow> is_cont (b ! k)) \<and> char_len_at b i = Some w \<and> p < i + w"
      using f True less.prems(2) w(1) by auto
    then show ?thesis unfolding inside_char_iff using less.prems(3,4) by blast
  next
    case False
    have "utf8_valid (drop (i + w) b)" using w(2) f(1) by (simp add: max_absorb2 add.commute)
    then show ?thesis using less.hyps [of "i + w"] less.prems False f(1,3) by simp
  qed
qed

lemma utf8_boundary:
  assumes "is_boundary b p" "p \<le> length b"
  shows "check_pos b p"
  using assms utf8_inside [of 0 b p] by (auto simp: check_pos_def is_boundary_def)

section \<open>The invariant of a view\<close>

text \<open>The bounds of the lists, and the positions: inside the text and on a boundary.\<close>

definition lists_ok :: "editor_view \<Rightarrow> bool" where
  "lists_ok v \<longleftrightarrow> length (v_named_marks v) = 62 \<and> length (v_changes v) \<le> MAX_CHANGES \<and> length (v_jumps v) \<le> MAX_CHANGES \<and>
     v_change_idx v \<le> length (v_changes v) \<and> v_jump_idx v \<le> length (v_jumps v)"

definition spot :: "bytes \<Rightarrow> nat \<Rightarrow> bool" where
  "spot b p \<longleftrightarrow> p \<le> length b \<and> is_boundary b p"

definition spot_opt :: "bytes \<Rightarrow> nat option \<Rightarrow> bool" where
  "spot_opt b x = (case x of None \<Rightarrow> True | Some p \<Rightarrow> spot b p)"

definition marks_ok :: "bytes \<Rightarrow> editor_view \<Rightarrow> bool" where
  "marks_ok b v \<longleftrightarrow> list_all (spot_opt b) (v_named_marks v) \<and> list_all (spot b) (v_changes v) \<and> list_all (spot b) (v_jumps v) \<and>
     spot_opt b (v_last_insert v) \<and> spot_opt b (v_change_start v) \<and> spot_opt b (v_change_end v) \<and>
     spot_opt b (map_option fst (v_last_visual v)) \<and> spot_opt b (map_option (fst \<circ> snd) (v_last_visual v))"

definition session_ok :: "bytes \<Rightarrow> editor_view \<Rightarrow> bool" where
  "session_ok b v \<longleftrightarrow> spot_opt b (v_anchor v) \<and> spot_opt b (v_mark v) \<and> spot_opt b (v_insert_start v) \<and> spot_opt b (v_insstart v)"

definition view_inv :: "bytes \<Rightarrow> editor_view \<Rightarrow> bool" where
  "view_inv b v \<longleftrightarrow> spot b (v_cursor v) \<and> marks_ok b v \<and> session_ok b v \<and> lists_ok v"

lemma spot_opt_simps [simp]: "spot_opt b None" "spot_opt b (Some p) = spot b p"
  by (simp_all add: spot_opt_def)

lemma spot_0 [simp]: "spot b 0"
  by (simp add: spot_def)

lemma snap_spot [simp]: "spot b (snap b p)"
  by (simp add: spot_def snap_le_length snap_boundary)

lemma snap_in_spot [simp]: "spot b (snap_in b p)"
  by (simp add: snap_in_def)

lemma snap_in_opt [simp]: "spot_opt b (map_option (snap_in b) x)"
  by (cases x) simp_all

lemma snap_in_fixed: "spot b p \<Longrightarrow> snap_in b p = p"
  by (simp add: snap_in_def spot_def snap_fixed min_absorb1)

lemma spot_check: "spot b p \<Longrightarrow> check_pos b p"
  by (simp add: spot_def utf8_boundary)

lemma spot_opt_check: "spot_opt b x \<Longrightarrow> check_opt b x"
  by (cases x) (simp_all add: check_opt_def spot_check)

lemma tracked_line_pos [simp]: "tk_pos (tracked_line x g) = x" "tk_pos (restored t) = tk_pos t"
  by (simp_all add: tracked_line_def restored_def)

lemma view_tracked_spots:
  assumes "marks_ok b v"
  shows "list_all (\<lambda>t. spot_opt b (tk_pos t)) (view_tracked v)"
  using assms
  by (auto simp: view_tracked_def marks_ok_def list_all_iff slice_def Let_def split: option.splits
      dest!: in_set_takeD in_set_dropD)

lemma view_inv_asserts:
  assumes "view_inv b v"
  shows "view_assert_invariants b v"
proof -
  have "list_all (\<lambda>t. check_opt b (tk_pos t)) (view_tracked v)"
    using view_tracked_spots [of b v] assms spot_opt_check by (auto simp: view_inv_def list_all_iff)
  then show ?thesis using assms
    by (simp add: view_assert_invariants_def view_inv_def session_ok_def lists_ok_def spot_check spot_opt_check)
qed

lemma snap_offsets_ok:
  assumes "lists_ok v"
  shows "marks_ok b (snap_offsets b v) \<and> session_ok b (snap_offsets b v) \<and> lists_ok (snap_offsets b v)"
proof -
  have "spot_opt b (map_option fst (v_last_visual (snap_offsets b v)))"
    "spot_opt b (map_option (fst \<circ> snd) (v_last_visual (snap_offsets b v)))"
    by (cases "v_last_visual v"; auto simp: snap_offsets_def)+
  then show ?thesis using assms
    by (simp add: marks_ok_def session_ok_def lists_ok_def list_all_iff) (simp add: snap_offsets_def)
qed

lemma view_fresh_inv: "view_inv b (view_fresh d)"
  by (simp add: view_inv_def view_fresh_def marks_ok_def session_ok_def lists_ok_def list_all_iff)

section \<open>Tracking and untracking\<close>

lemma view_tracked_length: "lists_ok v \<Longrightarrow> length (view_tracked v) = TRACKED_FIXED + length (v_changes v) + length (v_jumps v)"
  by (simp add: view_tracked_def lists_ok_def TRACKED_FIXED_def Let_def split_beta)

lemma tracked_pos_spot: "list_all (\<lambda>t. spot_opt b (tk_pos t)) ts \<Longrightarrow> spot_opt b (tracked_pos ts i)"
  by (auto simp: tracked_pos_def get_at_def list_all_length)

lemma or_zero_spot: "spot_opt b x \<Longrightarrow> spot b (or_zero x)"
  by (cases x) (simp_all add: or_zero_def)

lemma untrack_lists: "lists_ok v \<Longrightarrow> lists_ok (untrack ts v)"
  by (simp add: untrack_def lists_ok_def Let_def)

lemma untrack_ok:
  assumes ts: "list_all (\<lambda>t. spot_opt b (tk_pos t)) ts" and vis: "v_last_visual v = None \<or> tracked_pos ts 26 \<noteq> None \<and> tracked_pos ts 27 \<noteq> None"
  shows "marks_ok b (untrack ts v)"
proof -
  note p = tracked_pos_spot [OF ts]
  have lv: "spot_opt b (map_option fst (v_last_visual (untrack ts v)))"
    "spot_opt b (map_option (fst \<circ> snd) (v_last_visual (untrack ts v)))"
    using vis p [of 26] p [of 27] by (auto simp: untrack_def Let_def split: option.splits)
  have "list_all (spot_opt b) (v_named_marks (untrack ts v))"
    using p by (auto simp: untrack_def Let_def list_all_iff simp del: upt_Suc)
  moreover have "list_all (spot b) (v_changes (untrack ts v))" "list_all (spot b) (v_jumps (untrack ts v))"
    using p by (auto simp: untrack_def Let_def list_all_iff or_zero_spot)
  ultimately show ?thesis using lv p by (simp add: marks_ok_def) (simp add: untrack_def Let_def)
qed

lemma untrack_sel [simp]:
  "v_doc (untrack ts v) = v_doc v" "v_cursor (untrack ts v) = v_cursor v" "v_registers (untrack ts v) = v_registers v"
  "v_anchor (untrack ts v) = v_anchor v" "v_mark (untrack ts v) = v_mark v"
  "v_insert_start (untrack ts v) = v_insert_start v" "v_insstart (untrack ts v) = v_insstart v"
  by (simp_all add: untrack_def Let_def)

text \<open>The parts of the list \<open>view_tracked\<close> lays out, by position.\<close>

lemma tracked_pos_append:
  "tracked_pos (xs @ ys) i = (if i < length xs then tk_pos (xs ! i) else tracked_pos ys (i - length xs))"
  by (auto simp: tracked_pos_def get_at_def nth_append)

lemma tracked_pos_map:
  "tracked_pos (map f xs) i = (if i < length xs then tk_pos (f (xs ! i)) else None)"
  by (simp add: tracked_pos_def get_at_def)

lemma tracked_pos_Cons: "tracked_pos (t # ts) i = (if i = 0 then tk_pos t else tracked_pos ts (i - 1))"
  by (auto simp: tracked_pos_def get_at_def nth_Cons')

lemmas tracked_pos_simps = tracked_pos_append tracked_pos_map tracked_pos_Cons

lemma untrack_tracked:
  assumes "lists_ok v"
  shows "untrack (view_tracked v) v = v"
proof -
  let ?m = "v_named_marks v" and ?p = "tracked_pos (view_tracked v)"
  have len: "length ?m = 62" using assms by (simp add: lists_ok_def)
  have pos: "?p i = ?m ! i" if "i < 26" for i
    using that len by (simp add: view_tracked_def Let_def split_beta tracked_pos_simps)
  have pos2: "?p (i + 2) = ?m ! i" if "26 \<le> i" "i < 52" for i
  proof -
    have "i - 26 < 26" using that by simp
    then show ?thesis using that len slice_nth [of "i - 26" 52 26 ?m]
      by (simp add: view_tracked_def Let_def split_beta tracked_pos_simps)
  qed
  have pos5: "?p (i + 5) = ?m ! i" if "52 \<le> i" "i < 62" for i
  proof -
    have "i - 52 < 10" "\<not> i - 23 < 26" using that by simp_all
    then show ?thesis using that len by (simp add: view_tracked_def Let_def split_beta tracked_pos_simps)
  qed
  have vis: "?p 26 = map_option fst (v_last_visual v)" "?p 27 = map_option (fst \<circ> snd) (v_last_visual v)"
    using len by (auto simp: view_tracked_def Let_def tracked_pos_simps split: option.splits)
  have fix3: "?p 54 = v_last_insert v" "?p 55 = v_change_start v" "?p 56 = v_change_end v"
    using len by (simp_all add: view_tracked_def Let_def split_beta tracked_pos_simps)
  have ch: "?p (67 + i) = Some (v_changes v ! i)" if "i < length (v_changes v)" for i
    using that len by (simp add: view_tracked_def Let_def split_beta tracked_pos_simps)
  have ju: "?p (67 + length (v_changes v) + i) = Some (v_jumps v ! i)" if "i < length (v_jumps v)" for i
    using that len by (simp add: view_tracked_def Let_def split_beta tracked_pos_simps)
  have "map ?p [0..<26] @ map (\<lambda>i. ?p (i + 2)) [26..<52] @ map (\<lambda>i. ?p (i + 5)) [52..<62] = map ((!) ?m) ([0..<26] @ [26..<52] @ [52..<62])"
    unfolding map_append
    by (intro arg_cong2 [where f = append] map_cong refl; simp only: set_upt atLeastLessThan_iff pos pos2 pos5)
  also have "[0..<26] @ [26..<52] @ [52..<62] = [0..<62]" using upt_add_eq_append [of 0 26 36] by simp
  also have "map ((!) ?m) [0..<62] = ?m" using map_nth [of ?m] len by simp
  finally have named: "map ?p [0..<26] @ map (\<lambda>i. ?p (i + 2)) [26..<52] @ map (\<lambda>i. ?p (i + 5)) [52..<62] = ?m" .
  have chs: "map (\<lambda>i. or_zero (?p (TRACKED_FIXED + i))) [0..<length (v_changes v)] = v_changes v"
    by (rule nth_equalityI) (simp_all add: TRACKED_FIXED_def ch or_zero_def)
  have jus: "map (\<lambda>i. or_zero (?p (TRACKED_FIXED + length (v_changes v) + i))) [0..<length (v_jumps v)] = v_jumps v"
    by (rule nth_equalityI) (simp_all add: TRACKED_FIXED_def ju or_zero_def)
  have lv: "(case (v_last_visual v, ?p 26, ?p 27) of (Some (_, _, kind), Some a, Some e) \<Rightarrow> Some (a, e, kind) | _ \<Rightarrow> v_last_visual v)
      = v_last_visual v"
    unfolding vis by (auto split: option.splits)
  show ?thesis unfolding untrack_def Let_def named chs jus lv fix3 by simp
qed

section \<open>The change list\<close>

lemma push_bounded_facts:
  assumes "length ps \<le> MAX_CHANGES"
  shows "length (push_bounded p ps) \<le> MAX_CHANGES" "push_bounded p ps \<noteq> []" "last (push_bounded p ps) = p"
    "set (push_bounded p ps) \<subseteq> insert p (set ps)"
  using assms by (auto simp: push_bounded_def MAX_CHANGES_def dest: in_set_dropD)

lemma list_all_push: "list_all P ps \<Longrightarrow> P p \<Longrightarrow> length ps \<le> MAX_CHANGES \<Longrightarrow> list_all P (push_bounded p ps)"
  using push_bounded_facts(4) [of ps p] by (auto simp: list_all_iff)

text \<open>What recording a change leaves: the newest entry is the change, at most one entry more.\<close>

definition changes_after :: "bytes \<Rightarrow> nat \<Rightarrow> bool \<Rightarrow> editor_view \<Rightarrow> nat list" where
  "changes_after b p new_step v =
     (if (v_new_change v \<or> new_step \<or> v_changes v = []) \<and> far_enough v b p then push_bounded p (v_changes v)
      else butlast (v_changes v) @ [p])"

lemma far_enough_new_change [simp]: "far_enough (v\<lparr>v_new_change := x\<rparr>) b p = far_enough v b p"
  by (simp add: far_enough_def Let_def split_beta split: option.splits)

lemma far_enough_Nil: "v_changes v = [] \<Longrightarrow> far_enough v b p"
  by (simp add: far_enough_def last_opt_def)

lemma push_change_lists:
  assumes "\<not> v_keep_jumps v" "lists_ok v"
  shows "v_changes (push_change b p ns v) = changes_after b p ns v"
    and "v_change_idx (push_change b p ns v) = length (changes_after b p ns v)"
proof -
  note f = push_bounded_facts [of "v_changes v" p]
  have "length (v_changes v) \<le> MAX_CHANGES" using assms(2) by (simp add: lists_ok_def)
  then have "butlast (push_bounded p (v_changes v)) @ [p] = push_bounded p (v_changes v)"
    using f by (metis append_butlast_last_id)
  then show "v_changes (push_change b p ns v) = changes_after b p ns v"
    "v_change_idx (push_change b p ns v) = length (changes_after b p ns v)"
    using assms(1) f(2) \<open>length (v_changes v) \<le> MAX_CHANGES\<close> far_enough_Nil [of v b p]
    by (auto simp: push_change_def changes_after_def Let_def)
qed

lemma push_change_sel [simp]:
  "v_jumps (push_change b p ns v) = v_jumps v" "v_jump_idx (push_change b p ns v) = v_jump_idx v"
  "v_named_marks (push_change b p ns v) = v_named_marks v" "v_last_insert (push_change b p ns v) = v_last_insert v"
  "v_last_visual (push_change b p ns v) = v_last_visual v" "v_change_start (push_change b p ns v) = v_change_start v"
  "v_change_end (push_change b p ns v) = v_change_end v" "v_cursor (push_change b p ns v) = v_cursor v"
  "v_anchor (push_change b p ns v) = v_anchor v" "v_mark (push_change b p ns v) = v_mark v"
  "v_insert_start (push_change b p ns v) = v_insert_start v" "v_insstart (push_change b p ns v) = v_insstart v"
  by (simp_all add: push_change_def Let_def)

lemma changes_after_facts:
  assumes "lists_ok v"
  shows "length (changes_after b p ns v) \<le> MAX_CHANGES" "changes_after b p ns v \<noteq> []" "last (changes_after b p ns v) = p"
    "length (changes_after b p ns v) \<le> Suc (length (v_changes v))" "set (changes_after b p ns v) \<subseteq> insert p (set (v_changes v))"
proof -
  have l: "length (v_changes v) \<le> MAX_CHANGES" using assms by (simp add: lists_ok_def)
  note f = push_bounded_facts [OF l, of p]
  show "length (changes_after b p ns v) \<le> MAX_CHANGES" "changes_after b p ns v \<noteq> []" "last (changes_after b p ns v) = p"
    using f l by (auto simp: changes_after_def MAX_CHANGES_def)
  show "length (changes_after b p ns v) \<le> Suc (length (v_changes v))" by (auto simp: changes_after_def push_bounded_def)
  show "set (changes_after b p ns v) \<subseteq> insert p (set (v_changes v))"
    using f(4) by (auto simp: changes_after_def dest: in_set_butlastD)
qed

lemma push_change_inv:
  assumes "view_inv b v" "spot b p"
  shows "view_inv b (push_change c p ns v)"
proof (cases "v_keep_jumps v")
  case True
  then show ?thesis using assms by (simp add: push_change_def)
next
  case False
  have l: "lists_ok v" using assms(1) by (simp add: view_inv_def)
  note f = changes_after_facts [OF l, of c p ns] and g = push_change_lists [OF False l, of c p ns]
  have "list_all (spot b) (changes_after c p ns v)"
    using f(5) assms by (auto simp: view_inv_def marks_ok_def list_all_iff)
  then show ?thesis using assms(1) f(1) by (simp add: view_inv_def marks_ok_def session_ok_def lists_ok_def g)
qed

lemma nav_change_inv: "view_inv b v \<Longrightarrow> view_inv b (snd (nav_change older v))"
  by (auto simp: nav_change_def Let_def view_inv_def marks_ok_def session_ok_def lists_ok_def)

lemma nav_change_spot:
  assumes "view_inv b v" "nav_change older v = (Some p, v')"
  shows "spot b p"
  using assms by (auto simp: nav_change_def Let_def get_at_def view_inv_def marks_ok_def list_all_length split: if_splits)

text \<open>The \<open>k\<close>-th \<open>g;\<close> after a change lands on the \<open>k\<close>-th newest entry.\<close>

fun walk_older :: "nat \<Rightarrow> editor_view \<Rightarrow> nat option \<times> editor_view" where
  "walk_older 0 v = nav_change True v"
| "walk_older (Suc k) v = walk_older k (snd (nav_change True v))"

lemma walk_older_nth:
  "k < v_change_idx v \<Longrightarrow> v_change_idx v \<le> length (v_changes v) \<Longrightarrow>
   fst (walk_older k v) = Some (v_changes v ! (v_change_idx v - Suc k))"
proof (induction k arbitrary: v)
  case 0
  then have "v_changes v \<noteq> []" by auto
  then show ?case using 0 by (simp add: nav_change_def Let_def get_at_def)
next
  case (Suc k)
  then have "v_changes v \<noteq> []" by auto
  then have "snd (nav_change True v) = v\<lparr>v_change_idx := v_change_idx v - 1\<rparr>"
    using Suc.prems by (simp add: nav_change_def Let_def)
  then show ?case using Suc.IH [of "v\<lparr>v_change_idx := v_change_idx v - 1\<rparr>"] Suc.prems by simp
qed

section \<open>The jumplist\<close>

text \<open>The reference: an entry stays if no later one is on its line.\<close>

fun newest_per_line :: "bytes \<Rightarrow> nat list \<Rightarrow> nat list" where
  "newest_per_line b [] = []"
| "newest_per_line b (p # ps) =
     (if jump_line b p \<in> jump_line b ` set ps then newest_per_line b ps else p # newest_per_line b ps)"

lemma newest_lines: "jump_line b ` set (newest_per_line b ps) = jump_line b ` set ps"
  by (induction ps) auto

lemma newest_subset: "set (newest_per_line b ps) \<subseteq> set ps"
  by (induction ps) auto

lemma newest_distinct: "distinct (map (jump_line b) (newest_per_line b ps))"
proof (induction ps)
  case (Cons p ps)
  then show ?case using newest_lines [of b ps] by (auto simp: image_iff)
qed simp

lemma newest_length: "length (newest_per_line b ps) \<le> length ps"
  by (induction ps) auto

lemma newest_suffix: "\<exists>pre. newest_per_line b (xs @ ys) = pre @ newest_per_line b ys"
  by (induction xs) auto

lemma clean_loop_spec:
  assumes "length acc \<le> i"
  shows "clean_loop b ps i idx acc =
    (if idx < i \<or> i + length ps \<le> idx then idx
     else length acc + length (newest_per_line b ps) - length (newest_per_line b (drop (idx - i) ps)),
     acc @ newest_per_line b ps)"
  using assms
proof (induction ps arbitrary: i idx acc)
  case (Cons p ps)
  let ?acc = "if jump_line b p \<notin> set (map (jump_line b) ps) then acc @ [p] else acc"
  have acc: "length ?acc \<le> i + 1" "length acc \<le> i" using Cons.prems by auto
  have n: "?acc @ newest_per_line b ps = acc @ newest_per_line b (p # ps)" by auto
  then have nl: "length ?acc + length (newest_per_line b ps) = length acc + length (newest_per_line b (p # ps))"
    by (metis length_append)
  have ih: "clean_loop b (p # ps) i idx acc = clean_loop b ps (i + 1) (if idx = i then length acc else idx) ?acc" by simp
  show ?case
  proof (cases "idx = i")
    case True
    then show ?thesis using Cons.IH [OF acc(1), of "length acc"] ih n acc(2) by simp
  next
    case False
    have d: "drop (idx - i) (p # ps) = drop (idx - (i + 1)) ps" if "i < idx" using that by (simp add: drop_Cons')
    show ?thesis
      using False Cons.IH [OF acc(1), of idx] ih n nl d by (auto simp: not_less)
  qed
qed simp

definition popped :: "bytes \<Rightarrow> nat \<Rightarrow> nat \<Rightarrow> nat list \<Rightarrow> bool" where
  "popped b now idx ps \<longleftrightarrow> idx = length ps \<and> ps \<noteq> [] \<and> jump_line b (last ps) = jump_line b now"

text \<open>The walk cursor follows its entry: as many entries as before stand after it, less those folded away.\<close>

definition folded_idx :: "bytes \<Rightarrow> editor_view \<Rightarrow> nat" where
  "folded_idx b v =
     length (newest_per_line b (v_jumps v)) - length (newest_per_line b (drop (v_jump_idx v) (v_jumps v)))"

lemma clean_jumps_spec:
  assumes "v_jump_idx v \<le> length (v_jumps v)"
  shows "clean_jumps b now v =
    (let ps = newest_per_line b (v_jumps v); idx = folded_idx b v in
     if popped b now idx ps then v\<lparr>v_jumps := butlast ps, v_jump_idx := idx - 1\<rparr>
     else v\<lparr>v_jumps := ps, v_jump_idx := idx\<rparr>)"
proof -
  let ?n = "newest_per_line b (v_jumps v)"
  obtain idx where cl: "clean_loop b (v_jumps v) 0 (v_jump_idx v) [] = (idx, ?n)"
    "idx = (if length (v_jumps v) \<le> v_jump_idx v then v_jump_idx v else folded_idx b v)"
    using clean_loop_spec [of "[]" 0 b "v_jumps v" "v_jump_idx v"] by (auto simp: folded_idx_def)
  have "(if idx = length (v_jumps v) then length ?n else idx) = folded_idx b v"
  proof (cases "v_jump_idx v = length (v_jumps v)")
    case True
    then show ?thesis using cl(2) by (simp add: folded_idx_def)
  next
    case False
    obtain p ps where dp: "drop (v_jump_idx v) (v_jumps v) = p # ps"
      using False assms by (metis Cons_nth_drop_Suc le_neq_implies_less)
    then have "newest_per_line b (drop (v_jump_idx v) (v_jumps v)) \<noteq> []"
      using newest_lines [of b "p # ps"] by auto
    then have "folded_idx b v < length (v_jumps v)"
      using newest_length [of b "v_jumps v"] False assms by (cases "newest_per_line b (drop (v_jump_idx v) (v_jumps v))") (auto simp: folded_idx_def)
    then show ?thesis using cl(2) False assms by simp
  qed
  then show ?thesis
    using cl(1) by (simp add: clean_jumps_def popped_def last_opt_def Let_def)
qed

lemma folded_idx_le: "folded_idx b v \<le> length (newest_per_line b (v_jumps v))"
  by (simp add: folded_idx_def)

lemma clean_jumps_facts:
  assumes "lists_ok v"
  shows "v_jump_idx (clean_jumps b now v) \<le> length (v_jumps (clean_jumps b now v))"
    "length (v_jumps (clean_jumps b now v)) \<le> length (v_jumps v)"
    "set (v_jumps (clean_jumps b now v)) \<subseteq> set (v_jumps v)"
    "distinct (map (jump_line b) (v_jumps (clean_jumps b now v)))"
proof -
  let ?n = "newest_per_line b (v_jumps v)"
  have idx: "v_jump_idx v \<le> length (v_jumps v)" using assms by (simp add: lists_ok_def)
  note f = clean_jumps_spec [OF idx, of b now] newest_length [of b "v_jumps v"] newest_subset [of b "v_jumps v"]
    newest_distinct [of b "v_jumps v"] folded_idx_le [of b v]
  show "v_jump_idx (clean_jumps b now v) \<le> length (v_jumps (clean_jumps b now v))"
    "length (v_jumps (clean_jumps b now v)) \<le> length (v_jumps v)"
    "set (v_jumps (clean_jumps b now v)) \<subseteq> set (v_jumps v)"
    "distinct (map (jump_line b) (v_jumps (clean_jumps b now v)))"
    using f by (auto simp: Let_def popped_def distinct_butlast map_butlast dest: in_set_butlastD)
qed

lemma jump_update_inv:
  assumes "view_inv b v" "list_all (spot b) js" "length js \<le> MAX_CHANGES" "i \<le> length js"
  shows "view_inv b (v\<lparr>v_jumps := js, v_jump_idx := i\<rparr>)"
  using assms by (simp add: view_inv_def marks_ok_def session_ok_def lists_ok_def)

lemma clean_jumps_inv:
  assumes "view_inv b v"
  shows "view_inv b (clean_jumps c now v)"
proof -
  have l: "lists_ok v" using assms by (simp add: view_inv_def)
  have "v_jump_idx v \<le> length (v_jumps v)" using l by (simp add: lists_ok_def)
  from clean_jumps_spec [OF this, of c now] have "\<exists>js i. clean_jumps c now v = v\<lparr>v_jumps := js, v_jump_idx := i\<rparr>"
    unfolding Let_def by (cases "popped c now (folded_idx c v) (newest_per_line c (v_jumps v))") (simp_all only: if_True if_False, blast+)
  then obtain js i where e: "clean_jumps c now v = v\<lparr>v_jumps := js, v_jump_idx := i\<rparr>" by blast
  note f = clean_jumps_facts [OF l, of c now, unfolded e, simplified]
  show ?thesis unfolding e
    by (rule jump_update_inv [OF assms]) (use assms f in \<open>auto simp: view_inv_def marks_ok_def lists_ok_def list_all_iff\<close>)
qed

lemma push_jump_inv:
  assumes "view_inv b v" "spot b p"
  shows "view_inv b (push_jump p v)"
proof -
  have m: "length (v_jumps v) \<le> MAX_CHANGES" "list_all (spot b) (v_jumps v)" using assms(1) by (simp_all add: view_inv_def lists_ok_def marks_ok_def)
  note b = push_bounded_facts(1) [OF m(1), of p] list_all_push [OF m(2) assms(2) m(1)]
  show ?thesis
  proof (cases "v_keep_jumps v")
    case False
    show ?thesis
    proof (cases "last_opt (v_jumps v) = Some p")
      case True
      then have "push_jump p v = v\<lparr>v_jump_idx := length (v_jumps v)\<rparr>" using False by (simp add: push_jump_def Let_def)
      then show ?thesis using jump_update_inv [OF assms(1) m(2,1) order.refl] by simp
    next
      case F: False
      then have "push_jump p v = v\<lparr>v_jumps := push_bounded p (v_jumps v), v_jump_idx := length (push_bounded p (v_jumps v))\<rparr>"
        using False by (simp add: push_jump_def Let_def)
      then show ?thesis using jump_update_inv [OF assms(1) b(2,1) order.refl] by simp
    qed
  qed (use assms in \<open>simp add: push_jump_def\<close>)
qed

lemma jump_idx_inv: "view_inv b v \<Longrightarrow> i \<le> length (v_jumps v) \<Longrightarrow> view_inv b (v\<lparr>v_jump_idx := i\<rparr>)"
  by (simp add: view_inv_def marks_ok_def session_ok_def lists_ok_def)

lemma nav_jump_inv:
  assumes "view_inv b v" "spot b now"
  shows "view_inv b (snd (nav_jump older now c v)) \<and> spot_opt b (fst (nav_jump older now c v))"
proof -
  let ?c = "clean_jumps c now v" and ?js = "push_bounded now (v_jumps (clean_jumps c now v))"
  have i: "view_inv b ?c" using assms(1) by (rule clean_jumps_inv)
  then have m: "length (v_jumps ?c) \<le> MAX_CHANGES" "list_all (spot b) (v_jumps ?c)" "v_jump_idx ?c \<le> length (v_jumps ?c)"
    by (simp_all add: view_inv_def lists_ok_def marks_ok_def)
  note b = push_bounded_facts(1) [OF m(1), of now] list_all_push [OF m(2) assms(2) m(1)]
  have g: "spot_opt b (get_at ps k)" if "list_all (spot b) ps" for ps k using that by (simp add: get_at_def list_all_length)
  have u: "view_inv b (?c\<lparr>v_jumps := ?js, v_jump_idx := k\<rparr>)" if "k \<le> length ?js" for k
    using jump_update_inv [OF i b(2,1) that] .
  show ?thesis
    using i m b g [OF m(2)] g [OF b(2)] u jump_idx_inv [OF i]
    by (simp add: nav_jump_def Let_def) 
qed

text \<open>
  C29: the first \<open>CTRL-O\<close> from a position remembers it: whenever it jumps, to the newest entry on another line, the
  next \<open>CTRL-I\<close> comes back to exactly where it was pressed, although both walks fold the list first and the list is
  bounded.\<close>

theorem ctrl_o_then_ctrl_i:
  assumes "lists_ok v" "v_jump_idx v = length (v_jumps v)" "nav_jump True now b v = (Some p, v')"
  shows "fst (nav_jump False p b v') = Some now \<and> p \<in> set (v_jumps v) \<and> jump_line b p \<noteq> jump_line b now"
proof -
  let ?n = "newest_per_line b (v_jumps v)"
  have fi: "folded_idx b v = length ?n" using assms(2) by (simp add: folded_idx_def)
  define ps where "ps = (if popped b now (length ?n) ?n then butlast ?n else ?n)"
  have cl: "clean_jumps b now v = v\<lparr>v_jumps := ps, v_jump_idx := length ps\<rparr>"
    using clean_jumps_spec [of v b now] assms(2) by (simp add: fi ps_def Let_def)
  have dist: "distinct (map (jump_line b) ps)" using newest_distinct [of b "v_jumps v"] by (simp add: ps_def distinct_butlast map_butlast)
  have "length ps \<le> length ?n" by (simp add: ps_def)
  then have len: "length ps \<le> MAX_CHANGES" using newest_length [of b "v_jumps v"] assms(1) by (simp add: lists_ok_def)
  have ne: "ps \<noteq> []" using assms(3) by (auto simp: nav_jump_def cl Let_def)
  then obtain qs q where qs: "ps = qs @ [q]" by (metis append_butlast_last_id)
  have line: "jump_line b q \<noteq> jump_line b now"
  proof (cases "popped b now (length ?n) ?n")
    case True
    then have n: "?n = qs @ [q] @ [last ?n]" "jump_line b (last ?n) = jump_line b now"
      using qs by (auto simp: ps_def popped_def) (metis append_assoc append_butlast_last_id append_Cons append_Nil)
    then have "distinct (map (jump_line b) (qs @ [q] @ [last ?n]))" using newest_distinct [of b "v_jumps v"] by metis
    then show ?thesis using n(2) by simp
  next
    case False
    then show ?thesis using qs by (auto simp: ps_def popped_def)
  qed
  let ?js = "push_bounded now ps"
  have js: "\<exists>rs. ?js = rs @ [q, now]" using qs len by (auto simp: push_bounded_def drop_Cons' MAX_CHANGES_def)
  then obtain rs where rs: "?js = rs @ [q, now]" by blast
  have v': "p = q" "v' = v\<lparr>v_jumps := ?js, v_jump_idx := length rs\<rparr>"
    using assms(3) ne rs by (auto simp: nav_jump_def cl Let_def get_at_def nth_append)
  obtain pre where pre: "newest_per_line b ?js = pre @ [q, now]"
    using newest_suffix [of b rs "[q, now]"] rs line by auto
  have "folded_idx b v' = length pre" unfolding folded_idx_def v'(2) using line rs pre by simp
  then have "clean_jumps b p v' = v'\<lparr>v_jumps := pre @ [q, now], v_jump_idx := length pre\<rparr>"
    using clean_jumps_spec [of v' b p] rs pre v'(2) by (simp add: popped_def Let_def)
  then have "fst (nav_jump False p b v') = Some now" by (simp add: nav_jump_def Let_def get_at_def nth_append)
  moreover have "set ps \<subseteq> set ?n" by (auto simp: ps_def dest: in_set_butlastD)
  then have "q \<in> set (v_jumps v)" using newest_subset [of b "v_jumps v"] qs by auto
  ultimately show ?thesis using v' line by simp
qed

theorem ctrl_o_then_ctrl_i_witness:
  "fst (nav_jump False 0 [10, 97] (snd (nav_jump True 1 [10, 97] ((view_fresh 1)\<lparr>v_jumps := [0], v_jump_idx := 1\<rparr>)))) = Some 1"
proof -
  let ?v = "(view_fresh 1)\<lparr>v_jumps := [0], v_jump_idx := 1\<rparr>"
  have "lists_ok ?v" "v_jump_idx ?v = length (v_jumps ?v)" by (simp_all add: lists_ok_def view_fresh_def MAX_CHANGES_def)
  moreover have "fst (nav_jump True 1 [10, 97] ?v) = Some 0"
    by (simp add: nav_jump_def clean_jumps_def jump_line_def line_of_def count_newlines_def push_bounded_def last_opt_def get_at_def
        view_fresh_def MAX_CHANGES_def Let_def)
  then have "nav_jump True 1 [10, 97] ?v = (Some 0, snd (nav_jump True 1 [10, 97] ?v))" by (metis prod.collapse)
  ultimately show ?thesis using ctrl_o_then_ctrl_i by blast
qed

end
