(* ===== verification/Workspace.thy ===== *)
theory Workspace
  imports View_Laws "HOL-Library.Monad_Syntax"
begin

text \<open>
  The workspace of \<^verbatim>\<open>crates/core/src/workspace.rs\<close>: the arenas of documents and views, the flat window layout, the
  buffer list, and the lending of one document and view to a command.  A retired slot is \<open>None\<close>.  An operation
  that can panic (an index out of range, an \<^verbatim>\<open>expect\<close>) returns an option, \<open>None\<close> being the panic.

  The clipboard provider (\<^verbatim>\<open>Box<dyn Clipboard>\<close>) is not part of the state: only \<^verbatim>\<open>Workspace::apply\<close>, which runs
  the planner, uses it.
\<close>

section \<open>State\<close>

datatype split_dir = Horizontal | Vertical

datatype option_level = Both | Local | Global

datatype sub_range = CurrentLine | WholeFile | Lines nat nat

record buffer_info =
  bi_id :: u64
  bi_name :: "nat list"
  bi_current :: bool
  bi_alt :: bool
  bi_modified :: bool

record workspace =
  ws_docs :: "document option list"
  ws_views :: "editor_view option list"
  ws_windows :: "nat list"
  ws_split :: split_dir
  ws_focus :: nat
  ws_names :: "nat list option list"
  ws_order :: "u64 list"
  ws_alt :: "u64 option"
  ws_defaults :: view_options
  ws_window_defaults :: window_options
  ws_beeped :: bool
  ws_refused :: bool
  ws_not_modifiable :: bool
  ws_clipboard_read :: "register option"
  ws_registers :: register_store
  ws_pins :: "(nat \<times> nat \<times> nat) list"
  ws_origin :: transaction_origin

definition ws_new :: "bytes \<Rightarrow> workspace" where
  "ws_new initial =
     (let st = editor_new initial in
      \<lparr>ws_docs = [Some (es_doc st)], ws_views = [Some (es_view st)], ws_windows = [0], ws_split = Horizontal,
       ws_focus = 0, ws_names = [None], ws_order = [d_id (es_doc st)], ws_alt = None,
       ws_defaults = options_default, ws_window_defaults = window_default, ws_beeped = False, ws_refused = False,
       ws_not_modifiable = False, ws_clipboard_read = None, ws_registers = registers_new, ws_pins = [],
       ws_origin = UserInput\<rparr>)"

section \<open>Lookups\<close>

text \<open>\<^verbatim>\<open>id.0 as usize - 1\<close>, which underflows for the id 0.\<close>

definition doc_slot :: "u64 \<Rightarrow> nat option" where
  "doc_slot i = (if i = 0 then None else Some (unat i - 1))"

definition slot_get :: "'a option list \<Rightarrow> nat \<Rightarrow> 'a option" where
  "slot_get xs i = (case get_at xs i of None \<Rightarrow> None | Some x \<Rightarrow> x)"

definition slot_set :: "'a list \<Rightarrow> nat \<Rightarrow> 'a \<Rightarrow> 'a list option" where
  "slot_set xs i x = (if i < length xs then Some (xs[i := x]) else None)"

definition ws_document :: "workspace \<Rightarrow> u64 \<Rightarrow> document option" where
  "ws_document ws i = (case doc_slot i of None \<Rightarrow> None | Some s \<Rightarrow> slot_get (ws_docs ws) s)"

definition doc_is_live :: "workspace \<Rightarrow> u64 \<Rightarrow> bool" where
  "doc_is_live ws i \<longleftrightarrow> ws_document ws i \<noteq> None"

definition focused_vid :: "workspace \<Rightarrow> nat option" where
  "focused_vid ws = get_at (ws_windows ws) (ws_focus ws)"

definition focused_view_of :: "workspace \<Rightarrow> editor_view option" where
  "focused_view_of ws = do { vid \<leftarrow> focused_vid ws; slot_get (ws_views ws) vid }"

definition focused_buffer :: "workspace \<Rightarrow> u64 option" where
  "focused_buffer ws = map_option v_doc (focused_view_of ws)"

definition ws_pane :: "workspace \<Rightarrow> nat \<Rightarrow> (bool \<times> editor_view \<times> document) option" where
  "ws_pane ws i =
     do {
       vid \<leftarrow> get_at (ws_windows ws) i;
       v \<leftarrow> slot_get (ws_views ws) vid;
       s \<leftarrow> doc_slot (v_doc v);
       d \<leftarrow> slot_get (ws_docs ws) s;
       Some (i = ws_focus ws, v, d)
     }"

definition window_buffers :: "workspace \<Rightarrow> u64 list" where
  "window_buffers ws = List.map_filter (\<lambda>w. map_option v_doc (slot_get (ws_views ws) w)) (ws_windows ws)"

definition buffer_name :: "workspace \<Rightarrow> u64 \<Rightarrow> nat list option option" where
  "buffer_name ws i = do { s \<leftarrow> doc_slot i; Some (slot_get (ws_names ws) s) }"

definition ws_alternate :: "workspace \<Rightarrow> u64 option" where
  "ws_alternate ws = (case ws_alt ws of Some i \<Rightarrow> if doc_is_live ws i then Some i else None | None \<Rightarrow> None)"

definition no_name :: "nat list" where
  "no_name = chars ''[No Name]''"

definition buffer_row :: "workspace \<Rightarrow> u64 \<Rightarrow> u64 \<Rightarrow> buffer_info" where
  "buffer_row ws current i =
     \<lparr>bi_id = i,
      bi_name = (case buffer_name ws i of Some (Some n) \<Rightarrow> n | _ \<Rightarrow> no_name),
      bi_current = (i = current),
      bi_alt = (Some i = ws_alternate ws),
      bi_modified = (case ws_document ws i of Some d \<Rightarrow> is_modified d | None \<Rightarrow> False)\<rparr>"

definition ws_buffers :: "workspace \<Rightarrow> buffer_info list option" where
  "ws_buffers ws =
     do {
       current \<leftarrow> focused_buffer ws;
       Some (map (buffer_row ws current) (filter (doc_is_live ws) (ws_order ws)))
     }"

section \<open>Lending a view to a command\<close>

text \<open>
  \<open>lend_loop\<close> pins, in the lent document, the positions of every other view of it (the lent view is out of its
  slot), the cursor last.  A pin is the view's slot and its range of the pinned list.
\<close>

fun lend_loop :: "editor_view option list \<Rightarrow> nat \<Rightarrow> document \<Rightarrow> (nat \<times> nat \<times> nat) list \<Rightarrow> document \<times> (nat \<times> nat \<times> nat) list" where
  "lend_loop [] i d pins = (d, pins)"
| "lend_loop (None # vs) i d pins = lend_loop vs (i + 1) d pins"
| "lend_loop (Some v # vs) i d pins =
     (if v_doc v \<noteq> d_id d then lend_loop vs (i + 1) d pins
      else
        let t = view_tracked v @ [tracked_line (Some (v_cursor v)) Cursor];
            (at, d') = pin_tracked d t
        in lend_loop vs (i + 1) d' (pins @ [(i, at, at + length t)]))"

definition lend :: "document \<Rightarrow> editor_view \<Rightarrow> workspace \<Rightarrow> editor_state \<times> workspace" where
  "lend d v ws =
     (let (d1, pins) = lend_loop (ws_views ws) 0 d (ws_pins ws);
          st = \<lparr>es_doc = d1, es_view = v, es_origin = UserInput\<rparr>;
          (rs, st1) = swap_registers (ws_registers ws) st
      in (st1\<lparr>es_origin := ws_origin ws\<rparr>, ws\<lparr>ws_pins := pins, ws_registers := rs\<rparr>))"

text \<open>The positions read back into one view; \<open>None\<close> when the pinned range is empty (the \<^verbatim>\<open>expect\<close>).\<close>

definition unpin :: "document \<Rightarrow> tracked list \<Rightarrow> editor_view \<Rightarrow> editor_view option" where
  "unpin d part v =
     (if part = [] then None
      else
        let v1 = untrack (butlast part) v;
            c = min (or_zero (tk_pos (last part))) (length (d_text d))
        in Some (v1\<lparr>v_cursor := snap (d_text d) c\<rparr>))"

fun reclaim_loop :: "document \<Rightarrow> tracked list \<Rightarrow> (nat \<times> nat \<times> nat) list \<Rightarrow> editor_view option list \<Rightarrow> editor_view option list option" where
  "reclaim_loop d pinned [] vs = Some vs"
| "reclaim_loop d pinned ((vid, s, e) # pins) vs =
     do {
       slot \<leftarrow> get_at vs vid;
       case slot of
         None \<Rightarrow> reclaim_loop d pinned pins vs
       | Some v \<Rightarrow>
           do {
             part \<leftarrow> (if slice_ok s e pinned then Some (slice s e pinned) else None);
             v' \<leftarrow> unpin d part v;
             reclaim_loop d pinned pins (vs[vid := Some v'])
           }
     }"

definition reclaim :: "editor_state \<Rightarrow> workspace \<Rightarrow> ((document \<times> editor_view) \<times> workspace) option" where
  "reclaim st ws =
     (let (rs, st1) = swap_registers (ws_registers ws) st;
          (pinned, d) = take_pinned (es_doc st1)
      in do {
           vs \<leftarrow> reclaim_loop d pinned (ws_pins ws) (ws_views ws);
           Some ((d, es_view st1), ws\<lparr>ws_registers := rs, ws_pins := [], ws_views := vs\<rparr>)
         })"

definition with_view :: "nat \<Rightarrow> (editor_state \<Rightarrow> 'r \<times> editor_state) \<Rightarrow> workspace \<Rightarrow> ('r \<times> workspace) option" where
  "with_view vid f ws =
     do {
       v \<leftarrow> slot_get (ws_views ws) vid;
       s \<leftarrow> doc_slot (v_doc v);
       d \<leftarrow> slot_get (ws_docs ws) s;
       (let (st, ws1) = lend d v (ws\<lparr>ws_views := (ws_views ws)[vid := None], ws_docs := (ws_docs ws)[s := None]\<rparr>);
            (r, st') = f st
        in do {
             dvw \<leftarrow> reclaim st' ws1;
             (case dvw of ((d', v'), ws2) \<Rightarrow>
                do {
                  docs \<leftarrow> slot_set (ws_docs ws2) s (Some d');
                  views \<leftarrow> slot_set (ws_views ws2) vid (Some v');
                  Some (r, ws2\<lparr>ws_docs := docs, ws_views := views\<rparr>)
                })
           })
     }"

definition with_focused :: "(editor_state \<Rightarrow> 'r \<times> editor_state) \<Rightarrow> workspace \<Rightarrow> ('r \<times> workspace) option" where
  "with_focused f ws = do { vid \<leftarrow> focused_vid ws; with_view vid f ws }"

definition set_focused_cursor :: "nat \<Rightarrow> workspace \<Rightarrow> (unit \<times> workspace) option" where
  "set_focused_cursor p = with_focused (\<lambda>st. ((), editor_set_cursor p st))"

definition on_registers :: "(register_store \<Rightarrow> register_store) \<Rightarrow> editor_state \<Rightarrow> unit \<times> editor_state" where
  "on_registers g st = ((), on_view (\<lambda>v. v\<lparr>v_registers := g (v_registers v)\<rparr>) st)"

definition ws_set_register_raw :: "reg_name \<Rightarrow> bytes \<Rightarrow> workspace \<Rightarrow> (unit \<times> workspace) option" where
  "ws_set_register_raw name bs = with_focused (on_registers (\<lambda>rs. set_macro rs name (charwise bs)))"

definition ws_set_special_registers ::
  "bytes option \<Rightarrow> bytes option \<Rightarrow> bytes option \<Rightarrow> bytes option \<Rightarrow> workspace \<Rightarrow> (unit \<times> workspace) option" where
  "ws_set_special_registers search last_ex inserted file =
     with_focused (on_registers (\<lambda>rs. set_special rs search last_ex inserted file))"

definition ws_apply_edits :: "(nat \<times> nat \<times> bytes) list \<Rightarrow> transaction_origin \<Rightarrow> workspace \<Rightarrow> (bool \<times> workspace) option" where
  "ws_apply_edits edits origin = with_focused (editor_apply_edits edits origin)"

section \<open>Windows\<close>

definition focus_next :: "workspace \<Rightarrow> workspace" where
  "focus_next ws =
     (if ws_windows ws \<noteq> [] then ws\<lparr>ws_focus := (ws_focus ws + 1) mod length (ws_windows ws)\<rparr> else ws)"

definition focus_prev :: "workspace \<Rightarrow> workspace" where
  "focus_prev ws =
     (if ws_windows ws \<noteq> [] then ws\<lparr>ws_focus := (ws_focus ws + length (ws_windows ws) - 1) mod length (ws_windows ws)\<rparr> else ws)"

definition focus_window :: "nat \<Rightarrow> workspace \<Rightarrow> workspace" where
  "focus_window i ws =
     (if ws_windows ws \<noteq> [] then ws\<lparr>ws_focus := min i (length (ws_windows ws) - 1)\<rparr> else ws)"

definition insert_at :: "nat \<Rightarrow> 'a \<Rightarrow> 'a list \<Rightarrow> 'a list" where
  "insert_at i x xs = take i xs @ x # drop i xs"

definition remove_at :: "nat \<Rightarrow> 'a list \<Rightarrow> 'a list" where
  "remove_at i xs = take i xs @ drop (Suc i) xs"

definition ws_split_window :: "split_dir \<Rightarrow> workspace \<Rightarrow> (nat \<times> workspace) option" where
  "ws_split_window dir ws =
     do {
       src \<leftarrow> focused_vid ws;
       v \<leftarrow> slot_get (ws_views ws) src;
       (let new_vid = length (ws_views ws); at = ws_focus ws + 1 in
        Some (new_vid, ws\<lparr>ws_split := dir, ws_views := ws_views ws @ [Some v],
                          ws_windows := insert_at at new_vid (ws_windows ws), ws_focus := at\<rparr>))
     }"

definition close_focused :: "workspace \<Rightarrow> (bool \<times> workspace) option" where
  "close_focused ws =
     (if length (ws_windows ws) \<le> 1 then Some (False, ws)
      else
        do {
          w \<leftarrow> focused_vid ws;
          views \<leftarrow> slot_set (ws_views ws) w None;
          (let wins = remove_at (ws_focus ws) (ws_windows ws) in
           Some (True, ws\<lparr>ws_windows := wins, ws_views := views,
                          ws_focus := (if length wins \<le> ws_focus ws then length wins - 1 else ws_focus ws)\<rparr>))
        })"

fun retire_views :: "nat list \<Rightarrow> editor_view option list \<Rightarrow> editor_view option list option" where
  "retire_views [] vs = Some vs"
| "retire_views (w # others) vs = do { vs' \<leftarrow> slot_set vs w None; retire_views others vs' }"

definition only :: "workspace \<Rightarrow> (nat \<times> workspace) option" where
  "only ws =
     (if length (ws_windows ws) \<le> 1 then Some (0, ws)
      else
        do {
          w \<leftarrow> focused_vid ws;
          (let others = remove_at (ws_focus ws) (ws_windows ws) in
           do {
             views \<leftarrow> retire_views others (ws_views ws);
             Some (length others, ws\<lparr>ws_views := views, ws_windows := [w], ws_focus := 0\<rparr>)
           })
        })"

text \<open>Per-window settings: the view is changed if its slot is live.\<close>

definition on_window :: "nat \<Rightarrow> (editor_view \<Rightarrow> editor_view) \<Rightarrow> workspace \<Rightarrow> workspace option" where
  "on_window i f ws =
     do {
       vid \<leftarrow> get_at (ws_windows ws) i;
       slot \<leftarrow> get_at (ws_views ws) vid;
       Some (ws\<lparr>ws_views := (ws_views ws)[vid := map_option f slot]\<rparr>)
     }"

definition ws_set_top :: "nat \<Rightarrow> nat \<Rightarrow> workspace \<Rightarrow> workspace option" where
  "ws_set_top i row = on_window i (\<lambda>v. v\<lparr>v_top := row\<rparr>)"

definition ws_set_text_cols :: "nat \<Rightarrow> nat \<Rightarrow> workspace \<Rightarrow> workspace option" where
  "ws_set_text_cols i cols = on_window i (\<lambda>v. v\<lparr>v_text_cols := max cols 1\<rparr>)"

definition ws_set_leftcol :: "nat \<Rightarrow> nat \<Rightarrow> workspace \<Rightarrow> workspace option" where
  "ws_set_leftcol i col = on_window i (\<lambda>v. v\<lparr>v_leftcol := col\<rparr>)"

definition ws_set_skipcol :: "nat \<Rightarrow> nat \<Rightarrow> workspace \<Rightarrow> workspace option" where
  "ws_set_skipcol i col = on_window i (\<lambda>v. v\<lparr>v_skipcol := col\<rparr>)"

definition ws_set_scroll :: "nat \<Rightarrow> nat \<Rightarrow> nat \<Rightarrow> workspace \<Rightarrow> workspace option" where
  "ws_set_scroll i lns height = on_window i (\<lambda>v. v\<lparr>v_scroll := Some (lns, height)\<rparr>)"

definition set_focused_scrolloff :: "int option \<Rightarrow> workspace \<Rightarrow> workspace option" where
  "set_focused_scrolloff so ws = on_window (ws_focus ws) (\<lambda>v. v\<lparr>v_scrolloff := so\<rparr>) ws"

definition push_focused_jump :: "nat \<Rightarrow> workspace \<Rightarrow> workspace option" where
  "push_focused_jump p ws = on_window (ws_focus ws) (push_jump p) ws"

definition focused_doc :: "workspace \<Rightarrow> document option" where
  "focused_doc ws =
     do { v \<leftarrow> focused_view_of ws; s \<leftarrow> doc_slot (v_doc v); slot_get (ws_docs ws) s }"

definition place_focused_cursor :: "nat \<Rightarrow> workspace \<Rightarrow> workspace option" where
  "place_focused_cursor p ws =
     do {
       d \<leftarrow> focused_doc ws;
       on_window (ws_focus ws) (\<lambda>v. v\<lparr>v_cursor := min p (length (d_text d))\<rparr>) ws
     }"

definition mark_line :: "sub_range \<Rightarrow> bytes \<Rightarrow> nat \<Rightarrow> nat" where
  "mark_line rg b cursor =
     (let lns = count_newlines b + (if last_opt b \<noteq> Some newline then 1 else 0) in
      case rg of
        CurrentLine \<Rightarrow> line_of b cursor
      | WholeFile \<Rightarrow> lns - 1
      | Lines _ lst \<Rightarrow> clamp lst 1 (max lns 1) - 1)"

definition set_mark_on_line :: "sub_range \<Rightarrow> nat \<Rightarrow> workspace \<Rightarrow> workspace option" where
  "set_mark_on_line rg name ws =
     do {
       d \<leftarrow> focused_doc ws;
       on_window (ws_focus ws)
         (\<lambda>v. set_named_mark name (nth_line_start (d_text d) (mark_line rg (d_text d) (v_cursor v))) v) ws
     }"

section \<open>Buffers\<close>

definition push_view :: "u64 \<Rightarrow> workspace \<Rightarrow> nat \<times> workspace" where
  "push_view i ws =
     (let v = (view_fresh i)\<lparr>v_options := ws_defaults ws, v_window := ws_window_defaults ws\<rparr>
      in (length (ws_views ws), ws\<lparr>ws_views := ws_views ws @ [Some v]\<rparr>))"

definition add_buffer :: "bytes \<Rightarrow> nat list option \<Rightarrow> workspace \<Rightarrow> u64 \<times> workspace" where
  "add_buffer bs name ws =
     (let i = of_nat (length (ws_docs ws)) + 1;
          d = mark_saved (document_new i bs);
          ws1 = ws\<lparr>ws_docs := ws_docs ws @ [Some d], ws_names := ws_names ws @ [name]\<rparr>;
          (_, ws2) = push_view i ws1
      in (i, ws2\<lparr>ws_order := ws_order ws2 @ [i]\<rparr>))"

definition shown_elsewhere :: "workspace \<Rightarrow> nat \<Rightarrow> bool" where
  "shown_elsewhere ws vid \<longleftrightarrow> vid \<in> set (remove_at (ws_focus ws) (ws_windows ws))"

definition reusable_view :: "workspace \<Rightarrow> u64 \<Rightarrow> nat option" where
  "reusable_view ws i =
     find (\<lambda>vid. (case slot_get (ws_views ws) vid of Some v \<Rightarrow> v_doc v = i | None \<Rightarrow> False) \<and> \<not> shown_elsewhere ws vid)
       [0..<length (ws_views ws)]"

definition view_for_buffer :: "u64 \<Rightarrow> workspace \<Rightarrow> (nat \<times> workspace) option" where
  "view_for_buffer i ws =
     (case reusable_view ws i of
        Some vid \<Rightarrow> Some (vid, ws)
      | None \<Rightarrow>
          do {
            p \<leftarrow> ws_pane ws (ws_focus ws);
            (let opts = v_window (fst (snd p)); (vid, ws1) = push_view i ws in
             Some (vid, ws1\<lparr>ws_views := (ws_views ws1)[vid := map_option (\<lambda>v. v\<lparr>v_window := opts\<rparr>) (ws_views ws1 ! vid)]\<rparr>))
          })"

definition focus_buffer :: "u64 \<Rightarrow> workspace \<Rightarrow> (bool \<times> workspace) option" where
  "focus_buffer i ws =
     (if \<not> doc_is_live ws i then Some (False, ws)
      else
        do {
          current \<leftarrow> focused_buffer ws;
          if current = i then Some (True, ws)
          else
            do {
              r \<leftarrow> view_for_buffer i (ws\<lparr>ws_alt := Some current\<rparr>);
              (case r of (vid, ws1) \<Rightarrow>
                 do {
                   wins \<leftarrow> slot_set (ws_windows ws1) (ws_focus ws1) vid;
                   Some (True, ws1\<lparr>ws_windows := wins\<rparr>)
                 })
            }
        })"

definition cycle_buffer :: "bool \<Rightarrow> workspace \<Rightarrow> workspace option" where
  "cycle_buffer forward ws =
     (let live = filter (doc_is_live ws) (ws_order ws); n = length live in
      if n \<le> 1 then Some ws
      else
        do {
          current \<leftarrow> focused_buffer ws;
          (case position (\<lambda>i. i = current) live of
             None \<Rightarrow> Some ws
           | Some pos \<Rightarrow>
               do {
                 r \<leftarrow> focus_buffer (live ! (if forward then (pos + 1) mod n else (pos + n - 1) mod n)) ws;
                 Some (snd r)
               })
        })"

definition replacement_of :: "u64 \<Rightarrow> workspace \<Rightarrow> u64 option" where
  "replacement_of i ws =
     (case (case ws_alt ws of Some a \<Rightarrow> if a \<noteq> i \<and> doc_is_live ws a then Some a else None | None \<Rightarrow> None) of
        Some a \<Rightarrow> Some a
      | None \<Rightarrow>
          (case position (\<lambda>b. b = i) (ws_order ws) of
             None \<Rightarrow> None
           | Some p \<Rightarrow> find (\<lambda>b. b \<noteq> i \<and> doc_is_live ws b) (rotate (p + 1) (ws_order ws))))"

fun repoint_loop :: "u64 \<Rightarrow> u64 \<Rightarrow> nat list \<Rightarrow> workspace \<Rightarrow> workspace option" where
  "repoint_loop i rep [] ws = Some ws"
| "repoint_loop i rep (k # ks) ws =
     do {
       vid \<leftarrow> get_at (ws_windows ws) k;
       slot \<leftarrow> get_at (ws_views ws) vid;
       (if map_option v_doc slot = Some i
        then (let (nv, ws1) = push_view rep ws in repoint_loop i rep ks (ws1\<lparr>ws_windows := (ws_windows ws1)[k := nv]\<rparr>))
        else repoint_loop i rep ks ws)
     }"

definition remove_buffer :: "u64 \<Rightarrow> workspace \<Rightarrow> (bool \<times> workspace) option" where
  "remove_buffer i ws =
     (if \<not> doc_is_live ws i then Some (False, ws)
      else
        let (rep, ws1) = (case replacement_of i ws of Some r \<Rightarrow> (r, ws) | None \<Rightarrow> add_buffer [] None ws) in
        do {
          ws2 \<leftarrow> repoint_loop i rep [0..<length (ws_windows ws1)] ws1;
          s \<leftarrow> doc_slot i;
          docs \<leftarrow> slot_set (ws_docs ws2) s None;
          names \<leftarrow> slot_set (ws_names ws2) s None;
          Some (True,
            ws2\<lparr>ws_views := map (\<lambda>v. if map_option v_doc v = Some i then None else v) (ws_views ws2),
                ws_docs := docs, ws_names := names,
                ws_order := filter (\<lambda>b. b \<noteq> i) (ws_order ws2),
                ws_alt := (if ws_alt ws2 = Some i then None else ws_alt ws2)\<rparr>)
        })"

definition ws_set_alternate :: "u64 option \<Rightarrow> workspace \<Rightarrow> workspace" where
  "ws_set_alternate i ws = ws\<lparr>ws_alt := i\<rparr>"

definition set_buffer_name :: "u64 \<Rightarrow> nat list \<Rightarrow> workspace \<Rightarrow> workspace option" where
  "set_buffer_name i name ws =
     do {
       s \<leftarrow> doc_slot i;
       Some (ws\<lparr>ws_names := (if s < length (ws_names ws) then (ws_names ws)[s := Some name] else ws_names ws)\<rparr>)
     }"

definition set_focused_name :: "nat list option \<Rightarrow> workspace \<Rightarrow> workspace option" where
  "set_focused_name name ws =
     do {
       i \<leftarrow> focused_buffer ws;
       s \<leftarrow> doc_slot i;
       names \<leftarrow> slot_set (ws_names ws) s name;
       Some (ws\<lparr>ws_names := names\<rparr>)
     }"

definition set_focused_buffer_name :: "nat list \<Rightarrow> workspace \<Rightarrow> workspace option" where
  "set_focused_buffer_name name = set_focused_name (Some name)"

definition clear_focused_buffer_name :: "workspace \<Rightarrow> workspace option" where
  "clear_focused_buffer_name = set_focused_name None"

text \<open>Every view of buffer \<open>i\<close> keeps its place, clamped into the text \<open>b\<close>.\<close>

definition resettle :: "u64 \<Rightarrow> bytes \<Rightarrow> editor_view option \<Rightarrow> editor_view option" where
  "resettle i b slot =
     map_option (\<lambda>v. if v_doc v = i then snap_offsets b (v\<lparr>v_cursor := snap b (v_cursor v)\<rparr>) else v) slot"

definition reload_focused :: "bytes \<Rightarrow> workspace \<Rightarrow> workspace option" where
  "reload_focused bs ws =
     do {
       i \<leftarrow> focused_buffer ws;
       s \<leftarrow> doc_slot i;
       slot \<leftarrow> get_at (ws_docs ws) s;
       (let last_rv = (case slot of Some d \<Rightarrow> d_revision d | None \<Rightarrow> ZERO);
            modifiable = (case slot of Some d \<Rightarrow> d_modifiable d | None \<Rightarrow> True);
            d = set_modifiable (mark_saved (replacing i bs last_rv)) modifiable
        in place_focused_cursor 0
             (ws\<lparr>ws_views := map (resettle i (d_text d)) (ws_views ws), ws_docs := (ws_docs ws)[s := Some d]\<rparr>))
     }"

definition ws_update_doc :: "u64 \<Rightarrow> (document \<Rightarrow> document) \<Rightarrow> workspace \<Rightarrow> workspace" where
  "ws_update_doc i f ws =
     (case doc_slot i of
        None \<Rightarrow> ws
      | Some s \<Rightarrow> if s < length (ws_docs ws) then ws\<lparr>ws_docs := (ws_docs ws)[s := map_option f (ws_docs ws ! s)]\<rparr> else ws)"

definition reload_undoable :: "u64 \<Rightarrow> bytes \<Rightarrow> workspace \<Rightarrow> (bool \<times> workspace) option" where
  "reload_undoable i bs ws =
     (case ws_document ws i of
        None \<Rightarrow> Some (False, ws)
      | Some d \<Rightarrow>
          if d_text d = bs then Some (False, ws_update_doc i mark_saved ws)
          else
            do {
              cur \<leftarrow> focused_buffer ws;
              r \<leftarrow> (if i = cur then with_focused (with_tracked (\<lambda>d ts. reload_tracked d bs ts)) ws
                   else (case reload_tracked d bs [] of (ok, _, d') \<Rightarrow> Some (ok, ws_update_doc i (\<lambda>_. d') ws)));
              (case r of (ok, ws1) \<Rightarrow>
                 do {
                   s \<leftarrow> doc_slot i;
                   slot \<leftarrow> get_at (ws_docs ws1) s;
                   Some (ok, case slot of
                               None \<Rightarrow> ws1
                             | Some d2 \<Rightarrow> ws1\<lparr>ws_views := map (resettle i (d_text d2)) (ws_views ws1)\<rparr>)
                 })
            })"

section \<open>Options\<close>

definition update_options :: "(view_options \<Rightarrow> view_options) \<Rightarrow> editor_view \<Rightarrow> editor_view" where
  "update_options f v = v\<lparr>v_options := f (v_options v)\<rparr>"

definition all_views :: "(editor_view \<Rightarrow> editor_view) \<Rightarrow> workspace \<Rightarrow> workspace" where
  "all_views f ws = ws\<lparr>ws_views := map (map_option f) (ws_views ws)\<rparr>"

definition set_default_search_case :: "bool \<Rightarrow> bool \<Rightarrow> workspace \<Rightarrow> workspace" where
  "set_default_search_case ig sm ws =
     all_views (update_options (options_set_search_case ig sm))
       (ws\<lparr>ws_defaults := options_set_search_case ig sm (ws_defaults ws)\<rparr>)"

definition ws_set_caret_gravity :: "caret_gravity \<Rightarrow> workspace \<Rightarrow> workspace" where
  "ws_set_caret_gravity g ws =
     all_views (update_options (options_set_caret g)) (ws\<lparr>ws_defaults := options_set_caret g (ws_defaults ws)\<rparr>)"

definition set_keep_jumps :: "bool \<Rightarrow> workspace \<Rightarrow> workspace" where
  "set_keep_jumps on = all_views (\<lambda>v. v\<lparr>v_keep_jumps := on\<rparr>)"

definition keep_jumps :: "workspace \<Rightarrow> bool" where
  "keep_jumps ws \<longleftrightarrow> list_ex (\<lambda>slot. case slot of Some v \<Rightarrow> v_keep_jumps v | None \<Rightarrow> False) (ws_views ws)"

definition ws_set_indent :: "nat \<Rightarrow> indent_style \<Rightarrow> workspace \<Rightarrow> workspace option" where
  "ws_set_indent w style ws =
     on_window (ws_focus ws) (update_options (options_set_indent w style))
       (ws\<lparr>ws_defaults := options_set_indent w style (ws_defaults ws)\<rparr>)"

definition set_option_in :: "editor_option \<Rightarrow> option_level \<Rightarrow> workspace \<Rightarrow> workspace option" where
  "set_option_in opt level ws =
     (if is_global opt then
        Some (all_views (update_options (options_set opt)) (ws\<lparr>ws_defaults := options_set opt (ws_defaults ws)\<rparr>))
      else
        let ws1 = (if level \<noteq> Local then ws\<lparr>ws_defaults := options_set opt (ws_defaults ws)\<rparr> else ws)
        in if level \<noteq> Global then on_window (ws_focus ws1) (update_options (options_set opt)) ws1 else Some ws1)"

definition ws_set_option :: "editor_option \<Rightarrow> workspace \<Rightarrow> workspace option" where
  "ws_set_option opt = set_option_in opt Both"

definition update_window_options :: "option_level \<Rightarrow> (window_options \<Rightarrow> window_options) \<Rightarrow> workspace \<Rightarrow> workspace option" where
  "update_window_options level change ws =
     (let ws1 = (if level \<noteq> Local then ws\<lparr>ws_window_defaults := change (ws_window_defaults ws)\<rparr> else ws)
      in if level \<noteq> Global then on_window (ws_focus ws1) (\<lambda>v. v\<lparr>v_window := change (v_window v)\<rparr>) ws1 else Some ws1)"

section \<open>Registers and flags\<close>

definition ws_set_alternate_register :: "bytes option \<Rightarrow> workspace \<Rightarrow> workspace" where
  "ws_set_alternate_register name ws = ws\<lparr>ws_registers := Registers.set_alternate (ws_registers ws) name\<rparr>"

definition register_snapshot :: "workspace \<Rightarrow> (nat \<times> reg_kind \<times> bytes) list" where
  "register_snapshot ws =
     (let rs = ws_registers ws in
      map (\<lambda>(n, r). (n, r_kind r, r_text r))
        (filter (\<lambda>(n, r). r_set r)
          ([(ch_quote, reg_get rs None), (ch_0, rs_yank0 rs)]
           @ map (\<lambda>c. (c, reg_get rs (Some c))) [ch_1..<Suc ch_9]
           @ [(ch_minus, reg_get rs (Some ch_minus))]
           @ map (\<lambda>c. (c, reg_get rs (Some c))) [ch_a..<Suc ch_z])))"

definition take_beep :: "workspace \<Rightarrow> bool \<times> workspace" where
  "take_beep ws = (ws_beeped ws, ws\<lparr>ws_beeped := False\<rparr>)"

definition ws_beep :: "workspace \<Rightarrow> workspace" where
  "ws_beep ws = ws\<lparr>ws_beeped := True\<rparr>"

definition ws_set_origin :: "transaction_origin \<Rightarrow> workspace \<Rightarrow> workspace" where
  "ws_set_origin o1 ws = ws\<lparr>ws_origin := o1\<rparr>"

section \<open>The invariant walker\<close>

definition ws_assert_invariants :: "workspace \<Rightarrow> bool" where
  "ws_assert_invariants ws \<longleftrightarrow>
     length (ws_names ws) = length (ws_docs ws) \<and>
     (\<forall>i < length (ws_docs ws). case ws_docs ws ! i of
        None \<Rightarrow> True | Some d \<Rightarrow> d_id d = of_nat i + 1 \<and> doc_assert_invariants d) \<and>
     (\<forall>i < length (ws_views ws). case ws_views ws ! i of
        None \<Rightarrow> True
      | Some v \<Rightarrow> (case ws_document ws (v_doc v) of None \<Rightarrow> False | Some d \<Rightarrow> view_assert_invariants (d_text d) v)) \<and>
     ws_windows ws \<noteq> [] \<and> ws_focus ws < length (ws_windows ws) \<and>
     list_all (\<lambda>w. slot_get (ws_views ws) w \<noteq> None) (ws_windows ws) \<and> distinct (ws_windows ws) \<and>
     list_all (doc_is_live ws) (ws_order ws) \<and> distinct (ws_order ws) \<and>
     length (ws_order ws) = length (filter (\<lambda>d. d \<noteq> None) (ws_docs ws)) \<and>
     (case ws_alt ws of None \<Rightarrow> True | Some a \<Rightarrow> doc_is_live ws a) \<and>
     ws_pins ws = [] \<and>
     list_all (\<lambda>slot. case slot of None \<Rightarrow> True | Some d \<Rightarrow> d_pinned d = []) (ws_docs ws)"

end
