(* ===== verification/Editor_Commands.thy ===== *)
theory Editor_Commands
  imports View_Laws
begin

text \<open>
  What running a command on an editor state (a document and one view of it) must keep for the workspace that lent
  it: the document's and the view's invariant, their ids, and the positions pinned in the document for the other
  views.  The locale \<open>command\<close> is that contract; batches of edits, reloads, cursor placement and register writes
  meet it.
\<close>

section \<open>Carried positions\<close>

text \<open>A tracked position before and after a change from text \<open>b\<close> to text \<open>b'\<close>.\<close>

definition carried :: "bytes \<Rightarrow> bytes \<Rightarrow> tracked \<Rightarrow> tracked \<Rightarrow> bool" where
  "carried b b' t t' \<longleftrightarrow> tk_track t' = tk_track t \<and> (spot_opt b (tk_pos t) \<longrightarrow> spot_opt b' (tk_pos t')) \<and>
     (tk_pos t' = None \<longrightarrow> tk_pos t = None \<or> tk_track t = Line Drop)"

abbreviation carries :: "bytes \<Rightarrow> bytes \<Rightarrow> tracked list \<Rightarrow> tracked list \<Rightarrow> bool" where
  "carries b b' \<equiv> list_all2 (carried b b')"

abbreviation spots :: "bytes \<Rightarrow> tracked list \<Rightarrow> bool" where
  "spots b \<equiv> list_all (\<lambda>t. spot_opt b (tk_pos t))"

lemma carried_refl [simp]: "carried b b t t"
  by (simp add: carried_def)

lemma carries_refl [simp]: "carries b b ts ts"
  by (simp add: list_all2_refl)

lemma carries_spots: "carries b b' ts ts' \<Longrightarrow> spots b ts \<Longrightarrow> spots b' ts'"
  by (auto simp: list_all2_conv_all_nth list_all_length carried_def)

lemma tracked_apply_carried: "carried old new t (tracked_apply t es (line_map_new old new es))"
proof -
  have m: "lm_new (line_map_new old new es) = new" by (simp add: line_map_new_def)
  show ?thesis
  proof (cases "tk_pos t")
    case (Some p)
    show ?thesis
    proof (cases "tk_track t")
      case (Line g)
      let ?q = "map_offset (line_map_new old new es) p g"
      have "spot_opt new ?q" using map_offset_range [of "line_map_new old new es" p g] m by (cases ?q) (auto simp: spot_def)
      moreover have "?q = None \<Longrightarrow> g = Drop" by (rule map_offset_drops)
      ultimately show ?thesis using Some Line by (simp add: carried_def tracked_apply_def)
    qed (simp add: carried_def tracked_apply_def Some m)
  qed (simp add: carried_def tracked_apply_def)
qed

lemma map_carries: "carries old new ts (map (\<lambda>t. tracked_apply t es (line_map_new old new es)) ts)"
  by (simp add: list_all2_conv_all_nth tracked_apply_carried)

section \<open>What the document does to them\<close>

definition doc_carries :: "document \<Rightarrow> tracked list \<Rightarrow> document \<Rightarrow> tracked list \<Rightarrow> bool" where
  "doc_carries d ts d' ts' \<longleftrightarrow> d_id d' = d_id d \<and> carries (d_text d) (d_text d') ts ts' \<and>
     carries (d_text d) (d_text d') (d_pinned d) (d_pinned d')"

lemma doc_carries_refl [simp]: "doc_carries d ts d ts"
  by (simp add: doc_carries_def)

lemma commit_tracks:
  assumes "commit d txn trk ts = (ts', d')"
  shows "d_text d' = apply_to (t_edits txn) (d_text d)"
    "ts' = map (\<lambda>t. tracked_apply t (t_edits txn) (line_map_new (d_text d) (d_text d') (t_edits txn))) ts"
    "d_pinned d' = map (\<lambda>t. tracked_apply t (t_edits txn) (line_map_new (d_text d) (d_text d') (t_edits txn))) (d_pinned d)"
proof -
  have d': "d' = snd (commit d txn trk ts)" "ts' = fst (commit d txn trk ts)" using assms by simp_all
  show tx: "d_text d' = apply_to (t_edits txn) (d_text d)" using commit_moved [of txn d trk ts] d' by (simp add: moved_by_def)
  show "ts' = map (\<lambda>t. tracked_apply t (t_edits txn) (line_map_new (d_text d) (d_text d') (t_edits txn))) ts"
    "d_pinned d' = map (\<lambda>t. tracked_apply t (t_edits txn) (line_map_new (d_text d) (d_text d') (t_edits txn))) (d_pinned d)"
    unfolding tx by (simp_all add: d' commit_def Let_def split_beta rebuild_index_def)
qed

lemma commit_carries:
  assumes "commit d txn trk ts = (ts', d')"
  shows "doc_carries d ts d' ts'"
  using commit_tracks [OF assms] map_carries commit_sel(2) [of d' d txn trk ts] assms by (simp add: doc_carries_def)

lemma apply_tracked_carries:
  assumes "edits_wf (t_edits txn)" "apply_tracked d txn ts = (r, ts', d')"
  shows "doc_carries d ts d' ts'"
proof -
  have "apply_inner d txn True ts = (r, ts', d')" using assms(2) by (simp add: apply_tracked_def)
  with assms(1) show ?thesis
  proof (cases rule: apply_inner_cases)
    case idle
    then show ?thesis by (simp add: doc_carries_def)
  next
    case committed
    then show ?thesis using commit_carries by blast
  qed simp_all
qed

lemma reload_carries:
  assumes "reload_tracked d bs ts = (ok, ts', d')"
  shows "doc_carries d ts d' ts'"
proof -
  let ?e = "lines_changed (d_text d) bs"
  define es where "es = (if changes_something ?e then [?e] else [])"
  define txn where "txn = transaction_new (d_revision d) es UserInput"
  have "edit_end ?e \<le> length (d_text d)" using in_bounds_lines_changed [of "d_text d" bs] by simp
  from apply_single(2) [OF this es_def] have wf: "edits_wf (t_edits txn)" by (simp add: txn_def edits_valid_def)
  obtain r ts2 d2 where ap: "apply_tracked (sync_undo d) txn ts = (r, ts2, d2)" by (metis prod_cases3)
  have "ts' = ts2" "d' = mark_saved (sync_undo d2)"
    using assms ap by (auto simp: reload_tracked_def edit_list_new_single txn_def es_def Let_def)
  then show ?thesis using apply_tracked_carries [OF wf ap] by (simp add: doc_carries_def mark_saved_def sync_undo_def)
qed

section \<open>The contract of a command\<close>

definition doc_ok :: "document \<Rightarrow> bool" where
  "doc_ok d \<longleftrightarrow> (\<exists>T S r0 t0. doc_inv T S r0 t0 d)"

definition editor_ok :: "editor_state \<Rightarrow> bool" where
  "editor_ok st \<longleftrightarrow> v_doc (es_view st) = d_id (es_doc st) \<and> doc_ok (es_doc st) \<and>
     view_inv (d_text (es_doc st)) (es_view st) \<and> spots (d_text (es_doc st)) (d_pinned (es_doc st))"

definition editor_keeps :: "editor_state \<Rightarrow> editor_state \<Rightarrow> bool" where
  "editor_keeps st st' \<longleftrightarrow> editor_ok st' \<and> d_id (es_doc st') = d_id (es_doc st) \<and>
     carries (d_text (es_doc st)) (d_text (es_doc st')) (d_pinned (es_doc st)) (d_pinned (es_doc st'))"

lemma doc_ok_asserts: "doc_ok d \<Longrightarrow> doc_assert_invariants d"
  by (auto simp: doc_ok_def intro: doc_inv_asserts)

lemma editor_ok_asserts: "editor_ok st \<Longrightarrow> editor_assert_invariants st"
  by (simp add: editor_ok_def editor_assert_invariants_def doc_ok_asserts view_inv_asserts)

lemma editor_keeps_refl: "editor_ok st \<Longrightarrow> editor_keeps st st"
  by (simp add: editor_keeps_def)

locale command =
  fixes run :: "editor_state \<Rightarrow> 'r \<times> editor_state"
  assumes run_keeps: "editor_ok st \<Longrightarrow> editor_keeps st (snd (run st))"

subsection \<open>Commands on the view alone\<close>

text \<open>A change of the view that keeps its buffer and its invariant.\<close>

lemma on_view_keeps:
  assumes "editor_ok st" "v_doc (f (es_view st)) = v_doc (es_view st)" "view_inv (d_text (es_doc st)) (f (es_view st))"
  shows "editor_keeps st (on_view f st)"
  using assms by (simp add: editor_keeps_def editor_ok_def on_view_def)

lemma view_inv_fields [simp]:
  "view_inv b (v\<lparr>v_curswant := w\<rparr>) = view_inv b v" "view_inv b (v\<lparr>v_registers := rs\<rparr>) = view_inv b v"
  "view_inv b (v\<lparr>v_last_was_edit := x\<rparr>) = view_inv b v" "view_inv b (v\<lparr>v_options := os\<rparr>) = view_inv b v"
  "view_inv b (v\<lparr>v_window := wo\<rparr>) = view_inv b v" "view_inv b (v\<lparr>v_top := n\<rparr>) = view_inv b v"
  "view_inv b (v\<lparr>v_text_cols := n\<rparr>) = view_inv b v" "view_inv b (v\<lparr>v_leftcol := n\<rparr>) = view_inv b v"
  "view_inv b (v\<lparr>v_skipcol := n\<rparr>) = view_inv b v" "view_inv b (v\<lparr>v_scroll := sc\<rparr>) = view_inv b v"
  "view_inv b (v\<lparr>v_scrolloff := so\<rparr>) = view_inv b v" "view_inv b (v\<lparr>v_keep_jumps := x\<rparr>) = view_inv b v"
  by (simp_all add: view_inv_def marks_ok_def session_ok_def lists_ok_def)

lemma set_cursor_view_inv: "view_inv b v \<Longrightarrow> spot b p \<Longrightarrow> view_inv b (v\<lparr>v_cursor := p\<rparr>)"
  by (simp add: view_inv_def marks_ok_def session_ok_def lists_ok_def)

lemma settled_inv: "lists_ok v \<Longrightarrow> view_inv b (snap_offsets b (v\<lparr>v_cursor := snap b c\<rparr>))"
proof -
  assume l: "lists_ok v"
  have "v_cursor (snap_offsets b (v\<lparr>v_cursor := snap b c\<rparr>)) = snap b c" by (simp add: snap_offsets_def)
  moreover have "lists_ok (v\<lparr>v_cursor := snap b c\<rparr>)" using l by (simp add: lists_ok_def)
  ultimately show ?thesis using snap_offsets_ok [of "v\<lparr>v_cursor := snap b c\<rparr>" b] by (simp add: view_inv_def)
qed

lemma set_cursor_keeps: "editor_ok st \<Longrightarrow> editor_keeps st (editor_set_cursor p st)"
  by (simp add: editor_keeps_def editor_ok_def editor_set_cursor_def on_view_def Let_def set_cursor_view_inv)

interpretation cursor_command: command "\<lambda>st. ((), editor_set_cursor p st)" for p
  by unfold_locales (simp add: set_cursor_keeps)

subsection \<open>Commands through tracked positions\<close>

lemma view_tracked_visual:
  assumes "lists_ok v" "v_last_visual v \<noteq> None" "i = 26 \<or> i = 27"
  shows "tk_track (view_tracked v ! i) = Line Keep" "tk_pos (view_tracked v ! i) \<noteq> None"
  using assms
  by (auto simp: view_tracked_def lists_ok_def Let_def nth_append restored_def tracked_line_def)

text \<open>The last Visual area is never dropped, so what comes back for it is two positions.\<close>

lemma carries_visual:
  assumes "lists_ok v" "carries b b' (view_tracked v) ts" "v_last_visual v \<noteq> None" "i = 26 \<or> i = 27"
  shows "tracked_pos ts i \<noteq> None"
proof -
  have i: "i < length (view_tracked v)" "length ts = length (view_tracked v)"
    using assms(2,4) view_tracked_length [OF assms(1)] by (auto simp: TRACKED_FIXED_def list_all2_lengthD)
  then have "carried b b' (view_tracked v ! i) (ts ! i)" using assms(2) by (simp add: list_all2_conv_all_nth)
  then have "tk_pos (ts ! i) \<noteq> None" using view_tracked_visual [OF assms(1,3,4)] by (auto simp: carried_def)
  then show ?thesis using i by (simp add: tracked_pos_def get_at_def del: not_None_eq)
qed

lemma untrack_inv:
  assumes v: "lists_ok v" "marks_ok b v" and c: "carries b b' (view_tracked v) ts"
  shows "marks_ok b' (untrack ts v) \<and> lists_ok (untrack ts v)"
proof -
  have "spots b' ts" using carries_spots [OF c view_tracked_spots [OF v(2)]] .
  moreover have "v_last_visual v = None \<or> tracked_pos ts 26 \<noteq> None \<and> tracked_pos ts 27 \<noteq> None"
    using carries_visual [OF v(1) c] by blast
  ultimately show ?thesis using untrack_ok untrack_lists [OF v(1)] by blast
qed

text \<open>
  Running a document operation on the view's tracked positions keeps everything but what the command places itself:
  the cursor and the session positions.
\<close>

definition half_keeps :: "editor_state \<Rightarrow> editor_state \<Rightarrow> bool" where
  "half_keeps st st' \<longleftrightarrow> doc_ok (es_doc st') \<and> d_id (es_doc st') = d_id (es_doc st) \<and>
     v_doc (es_view st') = v_doc (es_view st) \<and> lists_ok (es_view st') \<and> marks_ok (d_text (es_doc st')) (es_view st') \<and>
     carries (d_text (es_doc st)) (d_text (es_doc st')) (d_pinned (es_doc st)) (d_pinned (es_doc st'))"

lemma with_tracked_half:
  assumes "editor_ok st" "with_tracked f st = (r, st')"
    and f: "\<And>ts' d'. f (es_doc st) (view_tracked (es_view st)) = (r, ts', d') \<Longrightarrow> doc_ok d' \<and> doc_carries (es_doc st) (view_tracked (es_view st)) d' ts'"
  shows "half_keeps st st'"
proof -
  obtain ts' d' where e: "f (es_doc st) (view_tracked (es_view st)) = (r, ts', d')"
    "st' = st\<lparr>es_doc := d', es_view := untrack ts' (es_view st)\<rparr>"
    using assms(2) by (auto simp: with_tracked_def split: prod.splits)
  have "doc_ok d'" "doc_carries (es_doc st) (view_tracked (es_view st)) d' ts'" using f [OF e(1)] by auto
  moreover have "lists_ok (es_view st)" "marks_ok (d_text (es_doc st)) (es_view st)" using assms(1) by (simp_all add: editor_ok_def view_inv_def)
  ultimately show ?thesis using untrack_inv [of "es_view st" "d_text (es_doc st)" "d_text d'" ts'] e(2)
    by (simp add: half_keeps_def doc_carries_def)
qed

lemma settle_keeps:
  assumes "editor_ok st" "half_keeps st st'"
  shows "editor_keeps st (settle_offsets st')"
proof -
  have "view_inv (d_text (es_doc st')) (es_view (settle_offsets st'))"
    using settled_inv [of "es_view st'" "d_text (es_doc st')" "v_cursor (es_view st')"] assms(2)
    by (simp add: settle_offsets_def on_view_def half_keeps_def Let_def)
  moreover have "v_doc (es_view (settle_offsets st')) = v_doc (es_view st')" "es_doc (settle_offsets st') = es_doc st'"
    by (simp_all add: settle_offsets_def on_view_def snap_offsets_def Let_def)
  moreover have "spots (d_text (es_doc st')) (d_pinned (es_doc st'))"
    using assms carries_spots by (simp add: half_keeps_def editor_ok_def) blast
  ultimately show ?thesis using assms by (simp add: editor_keeps_def half_keeps_def editor_ok_def)
qed

lemma apply_doc_ok: "doc_ok d \<Longrightarrow> edits_wf (t_edits txn) \<Longrightarrow> apply_tracked d txn ts = (r, ts', d') \<Longrightarrow> doc_ok d'"
  unfolding doc_ok_def apply_tracked_def using apply_inner_inv by blast

lemma reload_doc_ok: "doc_ok d \<Longrightarrow> reload_tracked d bs ts = (ok, ts', d') \<Longrightarrow> doc_ok d'"
  unfolding doc_ok_def using reload_inv(4) by blast

lemma apply_txn_half:
  assumes "editor_ok st" "edits_wf (t_edits txn)" "editor_apply_txn txn st = (r, st')"
  shows "half_keeps st st'"
proof (rule with_tracked_half [OF assms(1) assms(3) [unfolded editor_apply_txn_def]])
  fix ts' d' assume "apply_tracked (es_doc st) txn (view_tracked (es_view st)) = (r, ts', d')"
  then show "doc_ok d' \<and> doc_carries (es_doc st) (view_tracked (es_view st)) d' ts'"
    using apply_doc_ok apply_tracked_carries assms(1,2) by (simp add: editor_ok_def) blast
qed

section \<open>A batch of edits\<close>

lemma refused_bounds:
  assumes "\<not> edits_refused b edits" "edit_list_new (map (\<lambda>(s, e, t). edit_replace s (e - s) t) edits) = Inr es"
  shows "edits_valid es b"
proof -
  have "in_bounds es (length b)"
    unfolding in_bounds_def
  proof
    fix x assume "x \<in> set es"
    then have "x \<in> (\<lambda>(s, e, t). edit_replace s (e - s) t) ` set edits"
      using edit_list_new_Inr_iff [THEN iffD1, OF assms(2)] by auto
    then obtain s e t where "(s, e, t) \<in> set edits" "x = edit_replace s (e - s) t" by auto
    then show "edit_end x \<le> length b"
      using assms(1) by (auto simp: edits_refused_def list_all_iff edit_end_def edit_replace_def)
  qed
  then show ?thesis using edit_list_new_wf [OF assms(2)] by (simp add: edits_valid_def)
qed

text \<open>The three ways a batch goes: refused by its ranges, refused by an overlap, or applied as a whole.\<close>

lemma apply_edits_cases [case_names refused overlap applied]:
  assumes "editor_apply_edits edits origin st = (ok, st')"
  obtains "edits_refused (d_text (es_doc st)) edits" "\<not> ok" "st' = st"
  | err where "\<not> edits_refused (d_text (es_doc st)) edits" "\<not> ok" "st' = st"
      "edit_list_new (map (\<lambda>(s, e, t). edit_replace s (e - s) t) edits) = Inl err"
  | es r st1 where "\<not> edits_refused (d_text (es_doc st)) edits" "ok"
      "edit_list_new (map (\<lambda>(s, e, t). edit_replace s (e - s) t) edits) = Inr es"
      "editor_apply_txn (with_hint (transaction_new (d_revision (es_doc st)) es origin) BreakBefore) st = (Inr r, st1)"
      "d_text (es_doc st1) = apply_to es (d_text (es_doc st))"
      "st' = settle_offsets (editor_set_cursor (min (map_byte es (v_cursor (es_view st)) After) (length (d_text (es_doc st1))))
        (on_view (\<lambda>v. v\<lparr>v_last_was_edit := True\<rparr>) st1))"
proof (cases "edits_refused (d_text (es_doc st)) edits")
  case True
  then show ?thesis using assms by (intro that(1)) (simp_all add: editor_apply_edits_def)
next
  case ok: False
  show ?thesis
  proof (cases "edit_list_new (map (\<lambda>(s, e, t). edit_replace s (e - s) t) edits)")
    case (Inl err)
    then show ?thesis using assms ok by (intro that(2)) (simp_all add: editor_apply_edits_def)
  next
    case (Inr es)
    define txn where "txn = with_hint (transaction_new (d_revision (es_doc st)) es origin) BreakBefore"
    obtain r st1 where ap: "editor_apply_txn txn st = (r, st1)" by (cases "editor_apply_txn txn st")
    then obtain ts d where t: "apply_inner (es_doc st) txn True (view_tracked (es_view st)) = (r, ts, d)" "es_doc st1 = d"
      by (auto simp: editor_apply_txn_def with_tracked_def apply_tracked_def split: prod.splits)
    have base: "t_base_revision txn = d_revision (es_doc st)" and te: "t_edits txn = es"
      by (simp_all add: txn_def with_hint_def transaction_new_def)
    have "edits_valid (t_edits txn) (d_text (es_doc st))" using refused_bounds [OF ok Inr] by (simp add: te)
    note a = apply_inner_ok [OF base this t(1)]
    show ?thesis
    proof (rule that(3) [OF ok _ Inr])
      show "editor_apply_txn (with_hint (transaction_new (d_revision (es_doc st)) es origin) BreakBefore) st
          = (Inr (next_rev (d_revision (es_doc st))), st1)" using ap a(1) by (simp add: txn_def)
      show "d_text (es_doc st1) = apply_to es (d_text (es_doc st))" using a(2) t(2) by (simp add: te)
    qed (use assms ok Inr ap a(1) in \<open>simp_all add: editor_apply_edits_def txn_def on_view_def Let_def\<close>)
  qed
qed

lemma half_keeps_cursor:
  assumes "half_keeps st st1"
  shows "half_keeps st (editor_set_cursor p (on_view (\<lambda>v. v\<lparr>v_last_was_edit := x\<rparr>) st1))"
  using assms by (simp add: half_keeps_def editor_set_cursor_def on_view_def Let_def marks_ok_def lists_ok_def)

lemma apply_edits_keeps:
  assumes "editor_ok st"
  shows "editor_keeps st (snd (editor_apply_edits edits origin st))"
proof -
  obtain ok st' where e: "editor_apply_edits edits origin st = (ok, st')" by (cases "editor_apply_edits edits origin st")
  then show ?thesis
  proof (cases rule: apply_edits_cases)
    case (applied es r st1)
    have "edits_wf (t_edits (with_hint (transaction_new (d_revision (es_doc st)) es origin) BreakBefore))"
      using edit_list_new_wf [OF applied(3)] by (simp add: with_hint_def transaction_new_def)
    from apply_txn_half [OF assms this applied(4)] show ?thesis
      using settle_keeps [OF assms half_keeps_cursor] by (simp add: e applied(6))
  qed (use editor_keeps_refl [OF assms] e in simp_all)
qed

interpretation edits_command: command "editor_apply_edits edits origin" for edits origin
  by unfold_locales (rule apply_edits_keeps)

section \<open>Reloading through the view\<close>

lemma reload_half:
  assumes "editor_ok st" "with_tracked (\<lambda>d ts. reload_tracked d bs ts) st = (ok, st')"
  shows "half_keeps st st'"
proof (rule with_tracked_half [OF assms])
  fix ts' d' assume "reload_tracked (es_doc st) bs (view_tracked (es_view st)) = (ok, ts', d')"
  then show "doc_ok d' \<and> doc_carries (es_doc st) (view_tracked (es_view st)) d' ts'"
    using reload_doc_ok reload_carries assms(1) by (simp add: editor_ok_def) blast
qed

end
