(* ===== verification/Workspace_Lend.thy ===== *)
theory Workspace_Lend
  imports Workspace Editor_Commands
begin

text \<open>
  The workspace's invariant, and the lending of a document and a view to a command: the positions of the other
  views are pinned, carried by the command and read back, and the register store is lent and taken back.  A command
  that meets the contract \<open>command\<close> runs without a panic and keeps the invariant.
\<close>

section \<open>Slots\<close>

lemma slot_get_Some [simp]: "slot_get xs i = Some x \<longleftrightarrow> i < length xs \<and> xs ! i = Some x"
  by (auto simp: slot_get_def get_at_def split: option.splits)

lemma slot_get_None: "slot_get xs i = None \<longleftrightarrow> i < length xs \<longrightarrow> xs ! i = None"
  by (auto simp: slot_get_def get_at_def split: option.splits)

lemma slot_get_update: "i < length xs \<Longrightarrow> slot_get (xs[i := x]) j = (if j = i then x else slot_get xs j)"
  by (auto simp: slot_get_def get_at_def nth_list_update)

lemma slot_get_append: "slot_get (xs @ [x]) j = (if j = length xs then x else slot_get xs j)"
  by (auto simp: slot_get_def get_at_def nth_append)

lemma slot_get_map: "slot_get (map f xs) j = (if j < length xs then f (xs ! j) else None)"
  by (auto simp: slot_get_def get_at_def)

definition find_doc :: "document option list \<Rightarrow> u64 \<Rightarrow> document option" where
  "find_doc docs i = (case doc_slot i of None \<Rightarrow> None | Some s \<Rightarrow> slot_get docs s)"

lemma ws_document_eq: "ws_document ws i = find_doc (ws_docs ws) i"
  by (simp add: ws_document_def find_doc_def)

definition doc_key :: "nat \<Rightarrow> u64" where
  "doc_key s = of_nat s + 1"

lemma unat_doc_key: "s + 1 < 2 ^ 64 \<Longrightarrow> unat (doc_key s) = s + 1"
proof -
  assume s: "s + 1 < 2 ^ 64"
  have "doc_key s = of_nat (s + 1)" by (simp add: doc_key_def)
  then have "unat (doc_key s) = (s + 1) mod 2 ^ LENGTH(64)" by (simp only: unat_of_nat)
  then show ?thesis using s by simp
qed

lemma doc_key_inj:
  assumes "s + 1 < 2 ^ 64" "t + 1 < 2 ^ 64" "doc_key s = doc_key t"
  shows "s = t"
proof -
  have "s + 1 = unat (doc_key s)" by (rule unat_doc_key [OF assms(1), symmetric])
  also have "\<dots> = unat (doc_key t)" by (simp only: assms(3))
  also have "\<dots> = t + 1" by (rule unat_doc_key [OF assms(2)])
  finally show ?thesis by (rule add_right_imp_eq)
qed

lemma doc_slot_Some: "doc_slot i = Some s \<longleftrightarrow> i = doc_key s \<and> s + 1 < 2 ^ 64"
proof
  assume "doc_slot i = Some s"
  then have i: "i \<noteq> 0" "s = unat i - 1" by (simp_all add: doc_slot_def split: if_splits)
  then have u: "unat i = s + 1" by (simp add: unat_gt_0 Suc_leI)
  moreover have "s + 1 < 2 ^ 64" using unsigned_less [where 'a = nat, of i] u by simp
  ultimately show "i = doc_key s \<and> s + 1 < 2 ^ 64" using unat_doc_key [of s] by (simp add: word_unat_eq_iff)
next
  assume "i = doc_key s \<and> s + 1 < 2 ^ 64"
  then have "unat i = s + 1" using unat_doc_key by blast
  then show "doc_slot i = Some s" by (auto simp: doc_slot_def)
qed

lemma doc_slot_same: "doc_slot i = Some s \<Longrightarrow> doc_slot j = Some s \<longleftrightarrow> j = i"
  by (auto simp: doc_slot_Some)

lemma find_doc_Some: "find_doc docs i = Some d \<longleftrightarrow> (\<exists>s. doc_slot i = Some s \<and> s < length docs \<and> docs ! s = Some d)"
  by (simp add: find_doc_def split: option.splits)

lemma find_doc_update:
  assumes "doc_slot i = Some s" "s < length docs"
  shows "find_doc (docs[s := x]) j = (if j = i then x else find_doc docs j)"
proof (cases "doc_slot j")
  case (Some t)
  then show ?thesis using assms doc_slot_same [OF assms(1), of j] by (auto simp: find_doc_def slot_get_update)
qed (use assms in \<open>auto simp: find_doc_def\<close>)

section \<open>The invariant\<close>

definition docs_inv :: "document option list \<Rightarrow> bool" where
  "docs_inv docs \<longleftrightarrow> length docs < 2 ^ 64 \<and>
     (\<forall>s d. slot_get docs s = Some d \<longrightarrow> d_id d = doc_key s \<and> doc_ok d \<and> d_pinned d = [])"

definition views_inv :: "document option list \<Rightarrow> editor_view option list \<Rightarrow> bool" where
  "views_inv docs views \<longleftrightarrow>
     (\<forall>i v. slot_get views i = Some v \<longrightarrow> (\<exists>d. find_doc docs (v_doc v) = Some d \<and> view_inv (d_text d) v))"

definition layout_inv :: "editor_view option list \<Rightarrow> nat list \<Rightarrow> nat \<Rightarrow> bool" where
  "layout_inv views wins focus \<longleftrightarrow> focus < length wins \<and> distinct wins \<and> (\<forall>w \<in> set wins. slot_get views w \<noteq> None)"

definition order_inv :: "document option list \<Rightarrow> nat list option list \<Rightarrow> u64 list \<Rightarrow> u64 option \<Rightarrow> bool" where
  "order_inv docs names order alt \<longleftrightarrow> length names = length docs \<and> distinct order \<and>
     (\<forall>i. i \<in> set order \<longleftrightarrow> find_doc docs i \<noteq> None) \<and> (\<forall>a. alt = Some a \<longrightarrow> find_doc docs a \<noteq> None)"

definition ws_inv :: "workspace \<Rightarrow> bool" where
  "ws_inv ws \<longleftrightarrow> docs_inv (ws_docs ws) \<and> views_inv (ws_docs ws) (ws_views ws) \<and>
     layout_inv (ws_views ws) (ws_windows ws) (ws_focus ws) \<and>
     order_inv (ws_docs ws) (ws_names ws) (ws_order ws) (ws_alt ws) \<and> ws_pins ws = []"

lemma docs_inv_find: "docs_inv docs \<Longrightarrow> find_doc docs i = Some d \<Longrightarrow> d_id d = i \<and> doc_ok d \<and> d_pinned d = []"
  by (auto simp: docs_inv_def find_doc_Some doc_slot_Some)

text \<open>The live ids are the live slots.\<close>

lemma live_count:
  assumes "length docs < 2 ^ 64"
  shows "card {i. find_doc docs i \<noteq> None} = length (filter (\<lambda>d. d \<noteq> None) docs)"
proof -
  have "{i. find_doc docs i \<noteq> None} = doc_key ` {s. s < length docs \<and> docs ! s \<noteq> None}"
  proof (intro set_eqI iffI)
    fix i assume "i \<in> {i. find_doc docs i \<noteq> None}"
    then show "i \<in> doc_key ` {s. s < length docs \<and> docs ! s \<noteq> None}" by (auto simp: find_doc_Some doc_slot_Some)
  next
    fix i assume "i \<in> doc_key ` {s. s < length docs \<and> docs ! s \<noteq> None}"
    then obtain s d where "i = doc_key s" "s < length docs" "docs ! s = Some d" by auto
    then have "find_doc docs i = Some d" using assms by (auto simp: find_doc_Some doc_slot_Some)
    then show "i \<in> {i. find_doc docs i \<noteq> None}" by simp
  qed
  moreover have "inj_on doc_key {s. s < length docs \<and> docs ! s \<noteq> None}"
  proof (rule inj_onI)
    fix s t assume "s \<in> {s. s < length docs \<and> docs ! s \<noteq> None}" "t \<in> {s. s < length docs \<and> docs ! s \<noteq> None}"
      and e: "doc_key s = doc_key t"
    then have "s < length docs" "t < length docs" by blast+
    then have "s + 1 < 2 ^ 64" "t + 1 < 2 ^ 64" using le_less_trans [OF Suc_leI assms] by (simp_all only: Suc_eq_plus1)
    then show "s = t" using e by (rule doc_key_inj)
  qed
  ultimately show ?thesis by (simp add: card_image length_filter_conv_card)
qed

lemma ws_inv_asserts:
  assumes "ws_inv ws"
  shows "ws_assert_invariants ws"
proof -
  have i: "docs_inv (ws_docs ws)" "views_inv (ws_docs ws) (ws_views ws)" "layout_inv (ws_views ws) (ws_windows ws) (ws_focus ws)"
    "order_inv (ws_docs ws) (ws_names ws) (ws_order ws) (ws_alt ws)" "ws_pins ws = []"
    using assms by (simp_all add: ws_inv_def)
  have "set (ws_order ws) = {i. find_doc (ws_docs ws) i \<noteq> None}" "distinct (ws_order ws)"
    using i(4) by (simp_all add: order_inv_def set_eq_iff)
  then have "length (ws_order ws) = card {i. find_doc (ws_docs ws) i \<noteq> None}" using distinct_card by metis
  then have n: "length (ws_order ws) = length (filter (\<lambda>d. d \<noteq> None) (ws_docs ws))" using i(1) live_count by (simp add: docs_inv_def)
  have d: "\<forall>k < length (ws_docs ws). case ws_docs ws ! k of None \<Rightarrow> True | Some d \<Rightarrow> d_id d = of_nat k + 1 \<and> doc_assert_invariants d"
    "list_all (\<lambda>slot. case slot of None \<Rightarrow> True | Some d \<Rightarrow> d_pinned d = []) (ws_docs ws)"
    using i(1) by (auto simp: docs_inv_def doc_key_def list_all_length doc_ok_asserts split: option.splits)
  have v: "\<forall>k < length (ws_views ws). case ws_views ws ! k of None \<Rightarrow> True
      | Some v \<Rightarrow> (case ws_document ws (v_doc v) of None \<Rightarrow> False | Some d \<Rightarrow> view_assert_invariants (d_text d) v)"
    using i(2) by (auto simp: views_inv_def ws_document_eq split: option.splits) (metis option.inject option.distinct(1) view_inv_asserts)+
  have w: "ws_windows ws \<noteq> [] \<and> ws_focus ws < length (ws_windows ws)" "list_all (\<lambda>w. slot_get (ws_views ws) w \<noteq> None) (ws_windows ws)"
    "distinct (ws_windows ws)"
    using i(3) by (auto simp: layout_inv_def list_all_iff simp del: not_None_eq)
  have o: "length (ws_names ws) = length (ws_docs ws)" "list_all (doc_is_live ws) (ws_order ws)" "distinct (ws_order ws)"
    "case ws_alt ws of None \<Rightarrow> True | Some a \<Rightarrow> doc_is_live ws a"
    using i(4) by (auto simp: order_inv_def list_all_iff doc_is_live_def ws_document_eq split: option.splits)
  show ?thesis unfolding ws_assert_invariants_def using n d v w o i(5) by (simp only: simp_thms)
qed

section \<open>Pinning and reading back\<close>

definition pinned_of :: "editor_view \<Rightarrow> tracked list" where
  "pinned_of v = map (\<lambda>t. t\<lparr>tk_restore := False\<rparr>) (view_tracked v @ [tracked_line (Some (v_cursor v)) Cursor])"

text \<open>The views of document \<open>i\<close> in the arena, with their slots.\<close>

fun peers :: "u64 \<Rightarrow> nat \<Rightarrow> editor_view option list \<Rightarrow> (nat \<times> editor_view) list" where
  "peers i k [] = []"
| "peers i k (None # vs) = peers i (k + 1) vs"
| "peers i k (Some v # vs) = (if v_doc v = i then (k, v) # peers i (k + 1) vs else peers i (k + 1) vs)"

fun pin_ranges :: "nat \<Rightarrow> (nat \<times> editor_view) list \<Rightarrow> (nat \<times> nat \<times> nat) list" where
  "pin_ranges n [] = []"
| "pin_ranges n ((i, v) # ps) = (i, n, n + length (pinned_of v)) # pin_ranges (n + length (pinned_of v)) ps"

definition pinned_all :: "(nat \<times> editor_view) list \<Rightarrow> tracked list" where
  "pinned_all ps = concat (map (\<lambda>p. pinned_of (snd p)) ps)"

lemma peers_iff: "(j, v) \<in> set (peers i k vs) \<longleftrightarrow> k \<le> j \<and> j < k + length vs \<and> vs ! (j - k) = Some v \<and> v_doc v = i"
proof (induction i k vs arbitrary: j rule: peers.induct)
  case (2 i k vs)
  then show ?case by (cases "j = k") (auto simp: nth_Cons')
next
  case (3 i k u vs)
  then show ?case by (cases "j = k") (auto simp: nth_Cons')
qed simp

lemma peers_distinct: "distinct (map fst (peers i k vs))"
proof (induction i k vs rule: peers.induct)
  case (3 i k u vs)
  then show ?case by (auto simp: peers_iff)
qed simp_all

lemma lend_loop_peers:
  "lend_loop vs k d pins =
     (let ps = peers (d_id d) k vs
      in (d\<lparr>d_pinned := d_pinned d @ pinned_all ps\<rparr>, pins @ pin_ranges (length (d_pinned d)) ps))"
proof (induction vs k d pins rule: lend_loop.induct)
  case (3 v vs k d pins)
  show ?case
  proof (cases "v_doc v = d_id d")
    case True
    let ?d = "d\<lparr>d_pinned := d_pinned d @ pinned_of v\<rparr>"
    have p: "pin_tracked d (view_tracked v @ [tracked_line (Some (v_cursor v)) Cursor]) = (length (d_pinned d), ?d)"
      by (simp add: pin_tracked_def pinned_of_def)
    have l: "length (pinned_of v) = Suc (length (view_tracked v))" by (simp add: pinned_of_def)
    have "lend_loop (Some v # vs) k d pins =
        lend_loop vs (k + 1) ?d (pins @ [(k, length (d_pinned d), length (d_pinned d) + length (pinned_of v))])"
      using True p l by (simp add: Let_def)
    also have "\<dots> = (let ps = peers (d_id ?d) (k + 1) vs
      in (?d\<lparr>d_pinned := d_pinned ?d @ pinned_all ps\<rparr>,
          (pins @ [(k, length (d_pinned d), length (d_pinned d) + length (pinned_of v))]) @ pin_ranges (length (d_pinned ?d)) ps))"
      using "3.IH"(2) [OF _ refl p [symmetric]] True l by simp
    finally show ?thesis using True by (simp add: Let_def pinned_all_def)
  next
    case False
    then show ?thesis using "3.IH"(1) by simp
  qed
qed (simp_all add: pinned_all_def)

text \<open>A view at rest after its pinned positions \<open>q\<close> are read back over the text \<open>b\<close>.\<close>

definition rested :: "bytes \<Rightarrow> tracked list \<Rightarrow> editor_view \<Rightarrow> editor_view" where
  "rested b q v = (untrack (butlast q) v)\<lparr>v_cursor := snap b (min (or_zero (tk_pos (last q))) (length b))\<rparr>"

lemma unpin_rested: "q \<noteq> [] \<Longrightarrow> unpin d q v = Some (rested (d_text d) q v)"
  by (simp add: unpin_def rested_def Let_def)

definition session_free :: "editor_view \<Rightarrow> bool" where
  "session_free v \<longleftrightarrow> v_anchor v = None \<and> v_mark v = None \<and> v_insert_start v = None \<and> v_insstart v = None"

lemma carried_unrestored [simp]: "carried b b' (t\<lparr>tk_restore := x\<rparr>) t' = carried b b' t t'"
  by (simp add: carried_def)

lemma rested_inv:
  assumes "view_inv b v" "carries b b' (pinned_of v) q" "session_free v \<or> b' = b"
  shows "view_inv b' (rested b' q v)"
proof -
  obtain q1 t where q: "q = q1 @ [t]" "carries b b' (view_tracked v) q1"
    using assms(2) by (auto simp: pinned_of_def list_all2_append1 list_all2_map1 list_all2_Cons1)
  have "lists_ok v" "marks_ok b v" using assms(1) by (simp_all add: view_inv_def)
  from untrack_inv [OF this q(2)] have "marks_ok b' (untrack q1 v)" "lists_ok (untrack q1 v)" by simp_all
  then have "marks_ok b' (rested b' q v)" "lists_ok (rested b' q v)" by (simp_all add: q(1) rested_def marks_ok_def lists_ok_def)
  moreover have "session_ok b' (rested b' q v)" using assms(1,3) by (auto simp: session_ok_def session_free_def rested_def view_inv_def)
  moreover have "spot b' (v_cursor (rested b' q v))" by (simp add: rested_def)
  ultimately show ?thesis by (simp add: view_inv_def)
qed

lemma rested_doc [simp]: "v_doc (rested b q v) = v_doc v"
  by (simp add: rested_def)

lemma list_all2_concat1:
  "list_all2 P (concat xss) ys \<Longrightarrow> \<exists>yss. ys = concat yss \<and> list_all2 (list_all2 P) xss yss"
proof (induction xss arbitrary: ys)
  case (Cons xs xss)
  then obtain us vs where "ys = us @ vs" "list_all2 P xs us" "list_all2 P (concat xss) vs"
    by (auto simp: list_all2_append1)
  moreover from Cons.IH [OF this(3)] obtain yss where "vs = concat yss" "list_all2 (list_all2 P) xss yss" by blast
  ultimately have "ys = concat (us # yss) \<and> list_all2 (list_all2 P) (xs # xss) (us # yss)" by simp
  then show ?case by blast
qed simp

text \<open>The ranges read back cut the pinned list into the parts that were pinned, so no slice is out of range.\<close>

lemma reclaim_ranges:
  assumes "list_all2 (\<lambda>p q. length q = length (pinned_of (snd p))) ps qs" "distinct (map fst ps)"
    and "\<forall>p \<in> set ps. fst p < length vs \<and> vs ! fst p = Some (snd p)"
  shows "\<exists>vs'. reclaim_loop d (pre @ concat qs) (pin_ranges (length pre) ps) vs = Some vs' \<and> length vs' = length vs \<and>
    (\<forall>j. j \<notin> fst ` set ps \<longrightarrow> vs' ! j = vs ! j) \<and>
    list_all2 (\<lambda>p q. vs' ! fst p = Some (rested (d_text d) q (snd p))) ps qs"
  using assms
proof (induction ps qs arbitrary: pre vs rule: list_all2_induct)
  case (Cons p ps q qs)
  obtain i v where p: "p = (i, v)" by (cases p)
  have q: "length q = length (pinned_of v)" "q \<noteq> []" using Cons.hyps(1) p by (auto simp: pinned_of_def)
  have i: "i < length vs" "vs ! i = Some v" "i \<notin> fst ` set ps" using Cons.prems p by auto
  let ?vs = "vs[i := Some (rested (d_text d) q v)]"
  have "\<forall>r \<in> set ps. fst r < length ?vs \<and> ?vs ! fst r = Some (snd r)"
    using Cons.prems(2) i by (auto simp: nth_list_update)
  from Cons.IH [of ?vs "pre @ q", OF _ this] Cons.prems(1) obtain vs' where
    vs': "reclaim_loop d ((pre @ q) @ concat qs) (pin_ranges (length (pre @ q)) ps) ?vs = Some vs'" "length vs' = length ?vs"
      "\<forall>j. j \<notin> fst ` set ps \<longrightarrow> vs' ! j = ?vs ! j" "list_all2 (\<lambda>p q. vs' ! fst p = Some (rested (d_text d) q (snd p))) ps qs"
    by auto
  have s: "slice (length pre) (length pre + length (pinned_of v)) (pre @ concat (q # qs)) = q"
    "slice_ok (length pre) (length pre + length (pinned_of v)) (pre @ concat (q # qs))"
    using q(1) by (simp_all add: slice_def slice_ok_def)
  have "reclaim_loop d (pre @ concat (q # qs)) (pin_ranges (length pre) (p # ps)) vs = Some vs'"
    using vs'(1) i q s by (simp add: p get_at_def unpin_rested)
  moreover have "vs' ! i = Some (rested (d_text d) q v)" using vs'(3) i by simp
  ultimately show ?case using vs' by (auto simp: p)
qed simp

text \<open>The views after a document came to text \<open>b\<close>, each pinned position of its views in relation \<open>P\<close>; the others untouched.\<close>

definition carried_views :: "(tracked \<Rightarrow> tracked \<Rightarrow> bool) \<Rightarrow> u64 \<Rightarrow> bytes \<Rightarrow> editor_view option list \<Rightarrow> editor_view option list \<Rightarrow> bool" where
  "carried_views P i b vs vs' \<longleftrightarrow> length vs' = length vs \<and>
     (\<forall>j < length vs. case vs ! j of
        None \<Rightarrow> vs' ! j = None
      | Some u \<Rightarrow> (if v_doc u = i then (\<exists>q. list_all2 P (pinned_of u) q \<and> vs' ! j = Some (rested b q u)) else vs' ! j = Some u))"

lemma carried_viewsD:
  assumes "carried_views P i b vs vs'" "j < length vs" "vs ! j = Some u"
  shows "v_doc u = i \<Longrightarrow> \<exists>q. list_all2 P (pinned_of u) q \<and> vs' ! j = Some (rested b q u)" "v_doc u \<noteq> i \<Longrightarrow> vs' ! j = Some u"
proof -
  have "case vs ! j of None \<Rightarrow> vs' ! j = None
      | Some u \<Rightarrow> (if v_doc u = i then (\<exists>q. list_all2 P (pinned_of u) q \<and> vs' ! j = Some (rested b q u)) else vs' ! j = Some u)"
    using assms(1,2) by (simp add: carried_views_def)
  then show "v_doc u = i \<Longrightarrow> \<exists>q. list_all2 P (pinned_of u) q \<and> vs' ! j = Some (rested b q u)" "v_doc u \<noteq> i \<Longrightarrow> vs' ! j = Some u"
    by (simp_all add: assms(3))
qed

lemma carried_views_None: "carried_views P i b vs vs' \<Longrightarrow> j < length vs \<Longrightarrow> vs ! j = None \<Longrightarrow> vs' ! j = None"
  by (auto simp: carried_views_def split: option.splits)

lemma reclaim_peers:
  assumes "list_all2 P (pinned_all (peers i 0 vs)) q"
  shows "\<exists>vs'. reclaim_loop d q (pin_ranges 0 (peers i 0 vs)) vs = Some vs' \<and> carried_views P i (d_text d) vs vs'"
proof -
  let ?ps = "peers i 0 vs"
  from list_all2_concat1 [OF assms [unfolded pinned_all_def]] obtain qs where
    q: "q = concat qs" "list_all2 (\<lambda>p q. list_all2 P (pinned_of (snd p)) q) ?ps qs" by (auto simp: list_all2_map1)
  have len: "list_all2 (\<lambda>p q. length q = length (pinned_of (snd p))) ?ps qs"
    using q(2) by (rule list_all2_mono) (simp add: list_all2_lengthD)
  have at: "\<forall>p \<in> set ?ps. fst p < length vs \<and> vs ! fst p = Some (snd p)" using peers_iff [of _ _ i 0 vs] by auto
  from reclaim_ranges [OF len peers_distinct at, of d "[]"] obtain vs' where
    vs': "reclaim_loop d (concat qs) (pin_ranges 0 ?ps) vs = Some vs'" "length vs' = length vs"
      "\<forall>j. j \<notin> fst ` set ?ps \<longrightarrow> vs' ! j = vs ! j"
      "list_all2 (\<lambda>p q. vs' ! fst p = Some (rested (d_text d) q (snd p))) ?ps qs" by auto
  have "carried_views P i (d_text d) vs vs'"
    unfolding carried_views_def
  proof (intro conjI allI impI)
    fix j assume j: "j < length vs"
    show "case vs ! j of None \<Rightarrow> vs' ! j = None
      | Some u \<Rightarrow> (if v_doc u = i then \<exists>q. list_all2 P (pinned_of u) q \<and> vs' ! j = Some (rested (d_text d) q u) else vs' ! j = Some u)"
    proof (cases "\<exists>u. vs ! j = Some u \<and> v_doc u = i")
      case True
      then obtain u where u: "vs ! j = Some u" "v_doc u = i" by blast
      then have "(j, u) \<in> set ?ps" using j by (simp add: peers_iff)
      then obtain k where k: "k < length ?ps" "?ps ! k = (j, u)" by (auto simp: in_set_conv_nth)
      have "list_all2 P (pinned_of u) (qs ! k)" "vs' ! j = Some (rested (d_text d) (qs ! k) u)"
        using list_all2_nthD [OF q(2) k(1)] list_all2_nthD [OF vs'(4) k(1)] k(2) by simp_all
      then show ?thesis using u by auto
    next
      case False
      then have "j \<notin> fst ` set ?ps" using peers_iff [of j _ i 0 vs] by auto
      then show ?thesis using vs'(3) False by (auto split: option.splits)
    qed
  qed (rule vs'(2))
  then show ?thesis using vs'(1) q(1) by blast
qed

section \<open>Running a command through the workspace\<close>

text \<open>What a command is lent: the document with the other views' positions pinned, the view with the shared registers.\<close>

definition lent :: "nat \<Rightarrow> editor_view \<Rightarrow> document \<Rightarrow> workspace \<Rightarrow> editor_state" where
  "lent vid v d ws =
     \<lparr>es_doc = d\<lparr>d_pinned := pinned_all (peers (d_id d) 0 ((ws_views ws)[vid := None]))\<rparr>,
      es_view = v\<lparr>v_registers := ws_registers ws\<rparr>, es_origin = ws_origin ws\<rparr>"

lemma pinned_spots:
  assumes "\<And>j u. slot_get vs j = Some u \<Longrightarrow> v_doc u = i \<Longrightarrow> view_inv b u"
  shows "spots b (pinned_all (peers i 0 vs))"
proof -
  have "spots b (pinned_of u)" if "(j, u) \<in> set (peers i 0 vs)" for j u
  proof -
    have "view_inv b u" using assms [of j u] that by (simp add: peers_iff)
    then have "marks_ok b u" "spot b (v_cursor u)" by (simp_all add: view_inv_def)
    then show ?thesis using view_tracked_spots [of b u] by (simp add: pinned_of_def list.pred_map comp_def)
  qed
  then show ?thesis by (auto simp: pinned_all_def list_all_iff)
qed

lemma views_invD:
  assumes "views_inv docs views" "slot_get views j = Some u" "find_doc docs (v_doc u) = Some d"
  shows "view_inv (d_text d) u"
  using assms unfolding views_inv_def by (metis option.inject)

lemma pin_doc_ok:
  assumes "doc_ok d" "spots (d_text d) ts"
  shows "doc_ok (d\<lparr>d_pinned := ts\<rparr>)"
proof -
  obtain T S r0 t0 where i: "doc_inv T S r0 t0 d" using assms(1) by (auto simp: doc_ok_def)
  have "list_all (pos_ok (d_text d)) ts" using assms(2) by (auto simp: list_all_iff pos_ok_def spot_def split: option.splits)
  then have "doc_inv T S r0 t0 (d\<lparr>d_pinned := ts\<rparr>)" using i by (simp add: doc_inv_def doc_inv_parts)
  then show ?thesis by (auto simp: doc_ok_def)
qed

lemma lent_ok:
  assumes "docs_inv (ws_docs ws)" "views_inv (ws_docs ws) (ws_views ws)" "slot_get (ws_views ws) vid = Some v"
    "find_doc (ws_docs ws) (v_doc v) = Some d"
  shows "editor_ok (lent vid v d ws)"
proof -
  have d: "d_id d = v_doc v" "doc_ok d" using docs_inv_find [OF assms(1,4)] by simp_all
  have "view_inv (d_text d) u" if "slot_get ((ws_views ws)[vid := None]) j = Some u" "v_doc u = d_id d" for j u
  proof (rule views_invD [OF assms(2)])
    show "slot_get (ws_views ws) j = Some u" using that(1) assms(3) by (auto simp: nth_list_update split: if_splits)
    show "find_doc (ws_docs ws) (v_doc u) = Some d" using that(2) d(1) assms(4) by simp
  qed
  then have "spots (d_text d) (pinned_all (peers (d_id d) 0 ((ws_views ws)[vid := None])))" by (rule pinned_spots)
  then show ?thesis using d pin_doc_ok [OF d(2)] views_invD [OF assms(2-4)] by (simp add: editor_ok_def lent_def)
qed

lemma with_view_result:
  assumes inv: "docs_inv (ws_docs ws)" "views_inv (ws_docs ws) (ws_views ws)" "ws_pins ws = []"
    and at: "slot_get (ws_views ws) vid = Some v" "find_doc (ws_docs ws) (v_doc v) = Some d" "doc_slot (v_doc v) = Some s"
    and c: "list_all2 P (d_pinned (es_doc (lent vid v d ws))) (d_pinned (es_doc st'))" and f: "f (lent vid v d ws) = (r, st')"
  shows "\<exists>vs. carried_views P (v_doc v) (d_text (es_doc st')) ((ws_views ws)[vid := None]) vs \<and>
    with_view vid f ws = Some (r, ws\<lparr>ws_docs := (ws_docs ws)[s := Some ((es_doc st')\<lparr>d_pinned := []\<rparr>)],
      ws_views := vs[vid := Some ((es_view st')\<lparr>v_registers := v_registers v\<rparr>)], ws_registers := v_registers (es_view st')\<rparr>)"
proof -
  let ?vs0 = "(ws_views ws)[vid := None]"
  have d: "d_id d = v_doc v" "d_pinned d = []" using docs_inv_find [OF inv(1) at(2)] by simp_all
  have s: "s < length (ws_docs ws)" "ws_docs ws ! s = Some d" using at(2,3) by (simp_all add: find_doc_Some)
  let ?ps = "peers (d_id d) 0 ?vs0"
  let ?ws0 = "ws\<lparr>ws_views := ?vs0, ws_docs := (ws_docs ws)[s := None]\<rparr>"
  let ?ws1 = "?ws0\<lparr>ws_pins := pin_ranges 0 ?ps, ws_registers := v_registers v\<rparr>"
  have l: "lend d v ?ws0 = (lent vid v d ws, ?ws1)"
    by (simp add: lend_def lend_loop_peers lent_def inv(3) d(2) swap_registers_def on_view_def Let_def)
  let ?d' = "(es_doc st')\<lparr>d_pinned := []\<rparr>"
  have c: "list_all2 P (pinned_all ?ps) (d_pinned (es_doc st'))" using c by (simp add: lent_def)
  obtain vs where vs: "reclaim_loop ?d' (d_pinned (es_doc st')) (pin_ranges 0 ?ps) ?vs0 = Some vs"
    "carried_views P (v_doc v) (d_text ?d') ?vs0 vs"
    using reclaim_peers [OF c, of ?d'] d(1) by auto
  have rc: "reclaim st' ?ws1 = Some ((?d', (es_view st')\<lparr>v_registers := v_registers v\<rparr>),
      ?ws1\<lparr>ws_registers := v_registers (es_view st'), ws_pins := [], ws_views := vs\<rparr>)"
    using vs(1) by (simp add: reclaim_def swap_registers_def on_view_def take_pinned_def Let_def)
  have len: "vid < length vs" using vs(2) at(1) by (simp add: carried_views_def)
  have w: "with_view vid f ws = Some (r, ws\<lparr>ws_docs := (ws_docs ws)[s := Some ?d'],
      ws_views := vs[vid := Some ((es_view st')\<lparr>v_registers := v_registers v\<rparr>)], ws_registers := v_registers (es_view st')\<rparr>)"
    unfolding with_view_def
    using at s by (simp add: l f rc slot_get_def get_at_def slot_set_def len inv(3))
  then show ?thesis using vs(2) by auto
qed

subsection \<open>The invariant kept\<close>

text \<open>
  The other views of the lent document hold no position of a running command (Visual anchor, Emacs mark, start of an
  insertion): those are neither pinned nor clamped.
\<close>

definition others_idle :: "nat \<Rightarrow> workspace \<Rightarrow> bool" where
  "others_idle vid ws \<longleftrightarrow>
     (\<forall>v. slot_get (ws_views ws) vid = Some v \<longrightarrow>
       (\<forall>j < length (ws_views ws). case ws_views ws ! j of None \<Rightarrow> True | Some u \<Rightarrow> j = vid \<or> v_doc u \<noteq> v_doc v \<or> session_free u))"

lemma with_view_keeps:
  assumes ws: "ws_inv ws" and v: "slot_get (ws_views ws) vid = Some v" and cmd: "command f"
    and idle: "others_idle vid ws \<or> (\<forall>st. d_text (es_doc (snd (f st))) = d_text (es_doc st))"
  shows "\<exists>d s vs r st'. find_doc (ws_docs ws) (v_doc v) = Some d \<and> doc_slot (v_doc v) = Some s \<and>
    editor_ok (lent vid v d ws) \<and> f (lent vid v d ws) = (r, st') \<and> editor_keeps (lent vid v d ws) st' \<and>
    carried_views (carried (d_text d) (d_text (es_doc st'))) (v_doc v) (d_text (es_doc st')) ((ws_views ws)[vid := None]) vs \<and>
    (let ws' = ws\<lparr>ws_docs := (ws_docs ws)[s := Some ((es_doc st')\<lparr>d_pinned := []\<rparr>)],
         ws_views := vs[vid := Some ((es_view st')\<lparr>v_registers := v_registers v\<rparr>)], ws_registers := v_registers (es_view st')\<rparr>
     in with_view vid f ws = Some (r, ws') \<and> ws_inv ws')"
proof -
  have i: "docs_inv (ws_docs ws)" "views_inv (ws_docs ws) (ws_views ws)" "layout_inv (ws_views ws) (ws_windows ws) (ws_focus ws)"
    "order_inv (ws_docs ws) (ws_names ws) (ws_order ws) (ws_alt ws)" "ws_pins ws = []"
    using ws by (simp_all add: ws_inv_def)
  obtain d where d: "find_doc (ws_docs ws) (v_doc v) = Some d" using i(2) v unfolding views_inv_def by blast
  then obtain s where s: "doc_slot (v_doc v) = Some s" "s < length (ws_docs ws)" "ws_docs ws ! s = Some d" by (auto simp: find_doc_Some)
  have ok: "editor_ok (lent vid v d ws)" by (rule lent_ok [OF i(1,2) v d])
  obtain r st' where f: "f (lent vid v d ws) = (r, st')" by (cases "f (lent vid v d ws)")
  have k: "editor_keeps (lent vid v d ws) st'" using command.run_keeps [OF cmd ok] f by simp
  have kc: "carries (d_text d) (d_text (es_doc st')) (d_pinned (es_doc (lent vid v d ws))) (d_pinned (es_doc st'))"
    using k by (simp add: editor_keeps_def lent_def)
  from with_view_result [where f = f and ws = ws and vid = vid, OF i(1,2,5) v d s(1) kc f] obtain vs where
    c: "carried_views (carried (d_text d) (d_text (es_doc st'))) (v_doc v) (d_text (es_doc st')) ((ws_views ws)[vid := None]) vs"
    and w: "with_view vid f ws = Some (r, ws\<lparr>ws_docs := (ws_docs ws)[s := Some ((es_doc st')\<lparr>d_pinned := []\<rparr>)],
      ws_views := vs[vid := Some ((es_view st')\<lparr>v_registers := v_registers v\<rparr>)], ws_registers := v_registers (es_view st')\<rparr>)"
    by blast
  let ?d' = "(es_doc st')\<lparr>d_pinned := []\<rparr>" and ?v' = "(es_view st')\<lparr>v_registers := v_registers v\<rparr>"
  let ?docs = "(ws_docs ws)[s := Some ?d']" and ?views = "vs[vid := Some ?v']"
  have ko: "editor_ok st'" "d_id (es_doc st') = v_doc v" using k docs_inv_find [OF i(1) d] by (simp_all add: editor_keeps_def lent_def)
  have dk: "v_doc v = doc_key s" using s(1) by (simp add: doc_slot_Some)
  have di: "docs_inv ?docs"
    unfolding docs_inv_def
  proof (intro conjI allI impI)
    show "length ?docs < 2 ^ 64" using i(1) by (simp add: docs_inv_def)
    fix t e assume "slot_get ?docs t = Some e"
    then have "t = s \<and> e = ?d' \<or> slot_get (ws_docs ws) t = Some e"
      using s(2) by (auto simp: nth_list_update split: if_splits)
    moreover have "doc_ok ?d'" using pin_doc_ok [of "es_doc st'" "[]"] ko(1) by (simp add: editor_ok_def)
    ultimately show "d_id e = doc_key t" "doc_ok e" "d_pinned e = []" using i(1) ko(2) dk unfolding docs_inv_def by auto
  qed
  have fd: "find_doc ?docs j = (if j = v_doc v then Some ?d' else find_doc (ws_docs ws) j)" for j
    by (rule find_doc_update [OF s(1,2)])
  have len: "length vs = length (ws_views ws)" using c by (simp add: carried_views_def)
  have at: "?views ! vid = Some ?v'" "vid < length ?views" using v len by simp_all
  have vi: "views_inv ?docs ?views"
    unfolding views_inv_def
  proof (intro allI impI)
    fix j u assume j: "slot_get ?views j = Some u"
    show "\<exists>e. find_doc ?docs (v_doc u) = Some e \<and> view_inv (d_text e) u"
    proof (cases "j = vid")
      case True
      then show ?thesis using j at ko by (auto simp: fd editor_ok_def)
    next
      case False
      then have ju: "vs ! j = Some u" "j < length (ws_views ws)" using j len by simp_all
      then obtain u0 where u0: "ws_views ws ! j = Some u0" using carried_views_None [OF c, of j] False by (cases "ws_views ws ! j") auto
      note cd = carried_viewsD [OF c, of j u0, simplified, OF ju(2), simplified nth_list_update_neq [OF False [symmetric]], OF u0]
      show ?thesis
      proof (cases "v_doc u0 = v_doc v")
        case True
        then obtain q where q: "carries (d_text d) (d_text ?d') (pinned_of u0) q" "u = rested (d_text ?d') q u0"
          using cd(1) ju(1) by auto
        have "view_inv (d_text d) u0" using views_invD [OF i(2), of j u0 d] u0 ju(2) d True by simp
        moreover have "session_free u0 \<or> d_text ?d' = d_text d"
        proof (cases "others_idle vid ws")
          case True
          then have "session_free u0" using v u0 ju(2) False \<open>v_doc u0 = v_doc v\<close> by (auto simp: others_idle_def split: option.splits)
          then show ?thesis ..
        next
          case False
          then have "d_text (es_doc (snd (f (lent vid v d ws)))) = d_text (es_doc (lent vid v d ws))" using idle by blast
          then show ?thesis unfolding f by (simp add: lent_def)
        qed
        ultimately have "view_inv (d_text ?d') u" using rested_inv q by blast
        then show ?thesis using q(2) True by (simp add: fd)
      next
        case other: False
        then have "u = u0" using cd(2) ju(1) by simp
        moreover obtain e where "find_doc (ws_docs ws) (v_doc u0) = Some e" "view_inv (d_text e) u0"
          using i(2) u0 ju(2) unfolding views_inv_def slot_get_Some by blast
        ultimately show ?thesis using other by (simp add: fd)
      qed
    qed
  qed
  have live: "slot_get ?views w \<noteq> None" if "slot_get (ws_views ws) w \<noteq> None" for w
  proof -
    from that obtain u where u: "w < length (ws_views ws)" "ws_views ws ! w = Some u" by auto
    then show ?thesis
      using carried_viewsD [OF c, of w u] at len
      by (cases "w = vid"; cases "v_doc u = v_doc v") (auto simp: slot_get_None nth_list_update)
  qed
  have li: "layout_inv ?views (ws_windows ws) (ws_focus ws)" using i(3) live by (auto simp: layout_inv_def simp del: not_None_eq)
  have oi: "order_inv ?docs (ws_names ws) (ws_order ws) (ws_alt ws)" using i(4) d by (auto simp: order_inv_def fd)
  show ?thesis using d s(1) ok f k c w di vi li oi i(5)
    by (intro exI [of _ d] exI [of _ s] exI [of _ vs] exI [of _ r] exI [of _ st']) (simp add: ws_inv_def)
qed

end
