(* ===== verification/Workspace_Inv.thy ===== *)
theory Workspace_Inv
  imports Workspace_Lend
begin

text \<open>
  Every operation of the workspace returns (no index out of range, no failed \<^verbatim>\<open>expect\<close>) and keeps the invariant
  \<open>ws_inv\<close>: commands on the focused window, windows, buffers, reloads and options.
\<close>

section \<open>Views in the arena\<close>

definition view_fits :: "document option list \<Rightarrow> editor_view \<Rightarrow> bool" where
  "view_fits docs u \<longleftrightarrow> (\<exists>d. find_doc docs (v_doc u) = Some d \<and> view_inv (d_text d) u)"

lemma views_inv_fits: "views_inv docs vs \<longleftrightarrow> (\<forall>u. Some u \<in> set vs \<longrightarrow> view_fits docs u)"
proof -
  have "views_inv docs vs \<longleftrightarrow> (\<forall>i u. i < length vs \<and> vs ! i = Some u \<longrightarrow> view_fits docs u)"
    by (simp add: views_inv_def view_fits_def)
  then show ?thesis by (auto simp: in_set_conv_nth)
qed

lemma views_inv_append: "views_inv docs (vs @ [Some u]) \<longleftrightarrow> views_inv docs vs \<and> view_fits docs u"
  by (auto simp: views_inv_fits)

lemma views_inv_update:
  assumes "views_inv docs vs" "\<And>u. x = Some u \<Longrightarrow> view_fits docs u"
  shows "views_inv docs (vs[i := x])"
  using assms set_update_subset_insert [of vs i x] by (auto simp: views_inv_fits)

lemma views_inv_map:
  assumes "views_inv docs vs" "\<And>u. view_fits docs u \<Longrightarrow> view_fits docs (f u)"
  shows "views_inv docs (map (map_option f) vs)"
  using assms by (auto simp: views_inv_fits dest!: sym [of "Some _"])

lemma view_fits_change:
  assumes "view_fits docs u" "v_doc u' = v_doc u" "\<And>b. view_inv b u \<Longrightarrow> view_inv b u'"
  shows "view_fits docs u'"
  using assms by (auto simp: view_fits_def)

lemma layout_inv_views:
  assumes "layout_inv vs wins focus" "\<And>w. w \<in> set wins \<Longrightarrow> slot_get vs w \<noteq> None \<Longrightarrow> slot_get vs' w \<noteq> None"
  shows "layout_inv vs' wins focus"
  using assms by (simp add: layout_inv_def)

lemma ws_invD:
  assumes "ws_inv ws"
  shows "docs_inv (ws_docs ws)" "views_inv (ws_docs ws) (ws_views ws)" "layout_inv (ws_views ws) (ws_windows ws) (ws_focus ws)"
    "order_inv (ws_docs ws) (ws_names ws) (ws_order ws) (ws_alt ws)" "ws_pins ws = []"
  using assms by (simp_all add: ws_inv_def)

lemma window_at:
  assumes "ws_inv ws" "k < length (ws_windows ws)"
  obtains vid v d s where "ws_windows ws ! k = vid" "vid < length (ws_views ws)" "ws_views ws ! vid = Some v"
    "find_doc (ws_docs ws) (v_doc v) = Some d" "view_inv (d_text d) v" "doc_slot (v_doc v) = Some s"
    "s < length (ws_docs ws)" "ws_docs ws ! s = Some d" "view_fits (ws_docs ws) v"
proof -
  have "slot_get (ws_views ws) (ws_windows ws ! k) \<noteq> None" using ws_invD(3) [OF assms(1)] assms(2) by (simp add: layout_inv_def)
  then obtain v where v: "slot_get (ws_views ws) (ws_windows ws ! k) = Some v" by blast
  then obtain d where d: "find_doc (ws_docs ws) (v_doc v) = Some d" "view_inv (d_text d) v"
    using ws_invD(2) [OF assms(1)] unfolding views_inv_def by blast
  show ?thesis using that [of "ws_windows ws ! k" v d] v d by (auto simp: find_doc_Some view_fits_def)
qed

lemma focused_at:
  assumes "ws_inv ws"
  obtains vid v d s where "focused_vid ws = Some vid" "ws_windows ws ! ws_focus ws = vid" "ws_focus ws < length (ws_windows ws)"
    "vid < length (ws_views ws)" "ws_views ws ! vid = Some v" "focused_view_of ws = Some v" "focused_buffer ws = Some (v_doc v)"
    "find_doc (ws_docs ws) (v_doc v) = Some d" "view_inv (d_text d) v" "focused_doc ws = Some d" "view_fits (ws_docs ws) v"
    "doc_slot (v_doc v) = Some s" "s < length (ws_docs ws)" "ws_docs ws ! s = Some d"
proof -
  have f: "ws_focus ws < length (ws_windows ws)" using ws_invD(3) [OF assms] by (simp add: layout_inv_def)
  from window_at [OF assms f] obtain vid v d s where
    w: "ws_windows ws ! ws_focus ws = vid" "vid < length (ws_views ws)" "ws_views ws ! vid = Some v"
      "find_doc (ws_docs ws) (v_doc v) = Some d" "view_inv (d_text d) v" "doc_slot (v_doc v) = Some s"
      "s < length (ws_docs ws)" "ws_docs ws ! s = Some d" "view_fits (ws_docs ws) v" .
  have fv: "focused_vid ws = Some vid" "focused_view_of ws = Some v"
    using w f by (simp_all add: focused_vid_def focused_view_of_def get_at_def slot_get_def)
  show ?thesis
    by (rule that [OF fv(1) w(1) f w(2,3) fv(2) _ w(4,5) _ w(9,6,7,8)])
      (use w fv in \<open>simp_all add: focused_buffer_def focused_doc_def slot_get_def get_at_def\<close>)
qed

section \<open>Commands on the focused window\<close>

lemma registers_keeps: "editor_ok st \<Longrightarrow> editor_keeps st (snd (on_registers g st))"
  by (simp add: on_registers_def on_view_keeps [where f = "\<lambda>v. v\<lparr>v_registers := g (v_registers v)\<rparr>"] editor_ok_def)

interpretation registers_command: command "on_registers g" for g
  by unfold_locales (rule registers_keeps)

lemma with_focused_ok:
  assumes "ws_inv ws" "command f"
    and "\<And>vid. focused_vid ws = Some vid \<Longrightarrow> others_idle vid ws \<or> (\<forall>st. d_text (es_doc (snd (f st))) = d_text (es_doc st))"
  shows "\<exists>r ws'. with_focused f ws = Some (r, ws') \<and> ws_inv ws' \<and> ws_windows ws' = ws_windows ws \<and> ws_focus ws' = ws_focus ws"
proof -
  obtain vid v where v: "focused_vid ws = Some vid" "slot_get (ws_views ws) vid = Some v"
    by (rule focused_at [OF assms(1)]) (simp add: that)
  from with_view_keeps [OF assms(1) v(2) assms(2) assms(3) [OF v(1)]] show ?thesis
    by (auto simp: with_focused_def v(1) Let_def)
qed

section \<open>Windows\<close>

lemma insert_at_set [simp]: "set (insert_at i x xs) = insert x (set xs)"
proof -
  have "set xs = set (take i xs) \<union> set (drop i xs)" by (metis append_take_drop_id set_append)
  then show ?thesis by (auto simp: insert_at_def)
qed

lemma insert_at_distinct: "distinct xs \<Longrightarrow> x \<notin> set xs \<Longrightarrow> distinct (insert_at i x xs)"
proof -
  assume x: "distinct xs" "x \<notin> set xs"
  have "x \<notin> set (take i xs)" "x \<notin> set (drop i xs)" using x(2) in_set_takeD in_set_dropD by metis+
  moreover have "set (take i xs) \<inter> set (drop i xs) = {}" using x(1) distinct_append [of "take i xs" "drop i xs"] by simp
  ultimately show ?thesis using x(1) by (simp add: insert_at_def)
qed

lemma insert_at_length [simp]: "length (insert_at i x xs) = Suc (length xs)"
  by (simp add: insert_at_def)

lemma remove_at_length: "i < length xs \<Longrightarrow> length (remove_at i xs) = length xs - 1"
  by (simp add: remove_at_def)

lemma remove_at_set:
  assumes "distinct xs" "i < length xs"
  shows "set (remove_at i xs) = set xs - {xs ! i}" "distinct (remove_at i xs)"
proof -
  obtain as x bs where xs: "xs = as @ x # bs" "length as = i" using id_take_nth_drop [OF assms(2)] assms(2) by (metis length_take less_imp_le min_absorb2)
  then have "remove_at i xs = as @ bs" "xs ! i = x" by (auto simp: remove_at_def)
  then show "set (remove_at i xs) = set xs - {xs ! i}" "distinct (remove_at i xs)" using assms(1) xs(1) by auto
qed

lemma ws_inv_fields [simp]:
  "ws_inv (ws\<lparr>ws_defaults := os\<rparr>) = ws_inv ws" "ws_inv (ws\<lparr>ws_window_defaults := wo\<rparr>) = ws_inv ws"
  "ws_inv (ws\<lparr>ws_registers := rs\<rparr>) = ws_inv ws" "ws_inv (ws\<lparr>ws_beeped := x\<rparr>) = ws_inv ws"
  "ws_inv (ws\<lparr>ws_origin := o1\<rparr>) = ws_inv ws"
  by (simp_all add: ws_inv_def)

lemma focus_moves_ok:
  assumes "ws_inv ws"
  shows "ws_inv (focus_next ws)" "ws_inv (focus_prev ws)" "ws_inv (focus_window i ws)"
  using assms by (auto simp: focus_next_def focus_prev_def focus_window_def ws_inv_def layout_inv_def)

lemma split_ok:
  assumes "ws_inv ws"
  shows "\<exists>n ws'. ws_split_window dir ws = Some (n, ws') \<and> ws_inv ws'"
proof -
  note i = ws_invD [OF assms]
  obtain vid v where v: "focused_vid ws = Some vid" "vid < length (ws_views ws)" "ws_views ws ! vid = Some v" "view_fits (ws_docs ws) v"
    by (rule focused_at [OF assms]) (simp add: that)
  let ?n = "length (ws_views ws)"
  have "w < ?n" if "w \<in> set (ws_windows ws)" for w using i(3) that by (auto simp: layout_inv_def)
  then have "?n \<notin> set (ws_windows ws)" by blast
  then have l: "layout_inv (ws_views ws @ [Some v]) (insert_at (ws_focus ws + 1) ?n (ws_windows ws)) (ws_focus ws + 1)"
    using i(3) by (auto simp: layout_inv_def insert_at_distinct slot_get_append simp del: not_None_eq slot_get_Some)
  have "ws_split_window dir ws = Some (?n, ws\<lparr>ws_split := dir, ws_views := ws_views ws @ [Some v],
      ws_windows := insert_at (ws_focus ws + 1) ?n (ws_windows ws), ws_focus := ws_focus ws + 1\<rparr>)"
    using v by (simp add: ws_split_window_def slot_get_def get_at_def Let_def)
  then show ?thesis using i l v(4) by (simp add: ws_inv_def views_inv_append)
qed

lemma close_focused_ok:
  assumes "ws_inv ws"
  shows "\<exists>ok ws'. close_focused ws = Some (ok, ws') \<and> ws_inv ws' \<and> ws_docs ws' = ws_docs ws"
proof (cases "length (ws_windows ws) \<le> 1")
  case True
  then show ?thesis using assms by (auto simp: close_focused_def)
next
  case False
  note i = ws_invD [OF assms]
  obtain vid where v: "focused_vid ws = Some vid" "ws_windows ws ! ws_focus ws = vid" "ws_focus ws < length (ws_windows ws)" "vid < length (ws_views ws)"
    by (rule focused_at [OF assms]) (simp add: that)
  let ?wins = "remove_at (ws_focus ws) (ws_windows ws)" and ?views = "(ws_views ws)[vid := None]"
  let ?f = "if length ?wins \<le> ws_focus ws then length ?wins - 1 else ws_focus ws"
  have d: "distinct (ws_windows ws)" using i(3) by (simp add: layout_inv_def)
  note r = remove_at_set [OF d v(3)] remove_at_length [OF v(3)]
  have "layout_inv ?views ?wins ?f"
    using i(3) r v(2,4) False by (auto simp: layout_inv_def slot_get_update simp del: not_None_eq slot_get_Some)
  moreover have "views_inv (ws_docs ws) ?views" using i(2) by (rule views_inv_update) simp
  ultimately show ?thesis using i v False by (auto simp: close_focused_def slot_set_def ws_inv_def Let_def)
qed

lemma retire_views_ok:
  "\<forall>w \<in> set others. w < length vs \<Longrightarrow>
   \<exists>vs'. retire_views others vs = Some vs' \<and> length vs' = length vs \<and> (\<forall>j. slot_get vs' j = (if j \<in> set others then None else slot_get vs j))"
proof (induction others arbitrary: vs)
  case (Cons w others vs)
  then have "\<forall>x \<in> set others. x < length (vs[w := None])" by simp
  from Cons.IH [OF this] Cons.prems show ?case
    by (auto simp: slot_set_def slot_get_update simp del: slot_get_Some)
qed simp

lemma only_ok:
  assumes "ws_inv ws"
  shows "\<exists>n ws'. only ws = Some (n, ws') \<and> ws_inv ws' \<and> ws_docs ws' = ws_docs ws"
proof (cases "length (ws_windows ws) \<le> 1")
  case True
  then show ?thesis using assms by (simp add: only_def)
next
  case False
  note i = ws_invD [OF assms]
  obtain vid where v: "focused_vid ws = Some vid" "ws_windows ws ! ws_focus ws = vid" "ws_focus ws < length (ws_windows ws)"
    by (rule focused_at [OF assms]) (simp add: that)
  let ?others = "remove_at (ws_focus ws) (ws_windows ws)"
  have d: "distinct (ws_windows ws)" using i(3) by (simp add: layout_inv_def)
  note r = remove_at_set [OF d v(3)]
  have "\<forall>w \<in> set ?others. w < length (ws_views ws)" using i(3) r(1) by (auto simp: layout_inv_def)
  from retire_views_ok [OF this] obtain vs where
    vs: "retire_views ?others (ws_views ws) = Some vs" "\<And>j. slot_get vs j = (if j \<in> set ?others then None else slot_get (ws_views ws) j)" by blast
  have "vid \<in> set (ws_windows ws)" using v(2,3) by auto
  then have "layout_inv vs [vid] 0" using i(3) r(1) v(2) by (auto simp: layout_inv_def vs(2) simp del: not_None_eq slot_get_Some)
  moreover have "views_inv (ws_docs ws) vs" using i(2) by (auto simp: views_inv_def vs(2) simp del: slot_get_Some split: if_splits)
  ultimately show ?thesis using i v vs(1) False by (simp add: only_def ws_inv_def Let_def)
qed

text \<open>A change of the view in window \<open>k\<close>.\<close>

lemma on_window_ok:
  assumes "ws_inv ws" "k < length (ws_windows ws)"
    and f: "\<And>u d. find_doc (ws_docs ws) (v_doc u) = Some d \<Longrightarrow> ws_views ws ! (ws_windows ws ! k) = Some u \<Longrightarrow>
      view_inv (d_text d) u \<Longrightarrow> v_doc (f u) = v_doc u \<and> view_inv (d_text d) (f u)"
  shows "\<exists>ws'. on_window k f ws = Some ws' \<and> ws_inv ws' \<and> ws_docs ws' = ws_docs ws \<and> ws_windows ws' = ws_windows ws \<and> ws_focus ws' = ws_focus ws"
proof -
  note i = ws_invD [OF assms(1)]
  obtain vid v d where v: "ws_windows ws ! k = vid" "vid < length (ws_views ws)" "ws_views ws ! vid = Some v"
    "find_doc (ws_docs ws) (v_doc v) = Some d" "view_inv (d_text d) v"
    by (rule window_at [OF assms(1,2)]) (simp add: that)
  have fv: "v_doc (f v) = v_doc v" "view_inv (d_text d) (f v)" using f v by auto
  have "views_inv (ws_docs ws) ((ws_views ws)[vid := Some (f v)])"
    by (rule views_inv_update [OF i(2)]) (use fv v(4) in \<open>simp add: view_fits_def\<close>)
  moreover have "layout_inv ((ws_views ws)[vid := Some (f v)]) (ws_windows ws) (ws_focus ws)"
    by (rule layout_inv_views [OF i(3)]) (use v(2) in \<open>simp add: slot_get_update del: slot_get_Some not_None_eq\<close>)
  ultimately show ?thesis using i v assms(2) by (simp add: on_window_def get_at_def ws_inv_def)
qed

lemma on_window_stale: "\<not> k < length (ws_windows ws) \<Longrightarrow> on_window k f ws = None"
  by (simp add: on_window_def get_at_def)

lemma line_start_spot: "spot b (nth_line_start b n)"
proof -
  have le: "nth_line_start b n \<le> length b" using starts_spec_nth_bounds [of n b] by (simp add: nth_line_start_spec)
  have "\<not> inside_char b (nth_line_start b n)"
  proof
    let ?p = "nth_line_start b n"
    assume "inside_char b ?p"
    then obtain j w where j: "j < ?p" "\<not> is_cont (b ! j)" "\<forall>k. j < k \<longrightarrow> k \<le> ?p \<longrightarrow> is_cont (b ! k)" "char_len_at b j = Some w" "?p < j + w"
      and p: "?p < length b"
      unfolding inside_char_iff by blast
    have "nth_line_start b n \<in> set (ends_from 0 b)"
      using j(1) p nth_mem [of n "starts_spec b"] by (auto simp: nth_line_start_spec starts_spec_def split: if_splits)
    then have nl: "b ! (?p - 1) = newline" by (auto simp: mem_ends_from)
    show False
    proof (cases "j = ?p - 1")
      case True
      then show ?thesis using j nl by (auto simp: char_len_at_def get_at_def split: if_splits)
    next
      case False
      then have "is_cont (b ! (?p - 1))" using j(1) j(3) [THEN spec, of "?p - 1"] by simp
      then show ?thesis using nl by simp
    qed
  qed
  then show ?thesis using le by (simp add: spot_def is_boundary_def)
qed

section \<open>Buffers\<close>

lemma find_doc_append:
  assumes "length docs + 1 < 2 ^ 64"
  shows "find_doc (docs @ [x]) j = (if j = doc_key (length docs) then x else find_doc docs j)"
proof (cases "doc_slot j")
  case (Some t)
  then have j: "j = doc_key t" "t + 1 < 2 ^ 64" by (simp_all add: doc_slot_Some)
  have "j = doc_key (length docs) \<longleftrightarrow> t = length docs" using j doc_key_inj [OF j(2) assms] by metis
  then show ?thesis using Some by (simp add: find_doc_def slot_get_append)
next
  case None
  have "j \<noteq> doc_key (length docs)"
  proof
    assume "j = doc_key (length docs)"
    then have "doc_slot j = Some (length docs)" unfolding doc_slot_Some using assms by blast
    then show False using None by simp
  qed
  then show ?thesis using None by (simp add: find_doc_def)
qed

lemma find_doc_beyond: "length docs + 1 < 2 ^ 64 \<Longrightarrow> find_doc docs (doc_key (length docs)) = None"
proof -
  assume "length docs + 1 < 2 ^ 64"
  then have "doc_slot (doc_key (length docs)) = Some (length docs)" unfolding doc_slot_Some by blast
  then show ?thesis by (simp add: find_doc_def slot_get_None)
qed

text \<open>A document as the workspace makes one.\<close>

lemma fresh_doc_ok:
  "doc_ok (mark_saved (starting_at i bs rv))" "d_id (mark_saved (starting_at i bs rv)) = i"
  "d_pinned (mark_saved (starting_at i bs rv)) = []" "d_text (mark_saved (starting_at i bs rv)) = bs"
proof -
  have "doc_inv (\<lambda>_. bs) (d_text (starting_at i bs rv)) rv bs (mark_saved (starting_at i bs rv))" by (rule mark_saved_inv [OF starting_at_inv])
  then show "doc_ok (mark_saved (starting_at i bs rv))" by (auto simp: doc_ok_def)
qed (simp_all add: mark_saved_def sync_undo_def starting_at_def rebuild_index_def)

definition fresh_view :: "u64 \<Rightarrow> workspace \<Rightarrow> editor_view" where
  "fresh_view i ws = (view_fresh i)\<lparr>v_options := ws_defaults ws, v_window := ws_window_defaults ws\<rparr>"

lemma push_view_eq: "push_view i ws = (length (ws_views ws), ws\<lparr>ws_views := ws_views ws @ [Some (fresh_view i ws)]\<rparr>)"
  by (simp add: push_view_def fresh_view_def)

lemma fresh_view_fits: "find_doc docs i \<noteq> None \<Longrightarrow> view_fits docs (fresh_view i ws)"
  using view_fresh_inv [of _ i] by (auto simp: view_fits_def fresh_view_def) (auto simp: view_fresh_def)

lemma push_view_ok:
  assumes "ws_inv ws" "view_fits (ws_docs ws) u"
  shows "ws_inv (ws\<lparr>ws_views := ws_views ws @ [Some u]\<rparr>)"
proof -
  note i = ws_invD [OF assms(1)]
  have "layout_inv (ws_views ws @ [Some u]) (ws_windows ws) (ws_focus ws)"
    by (rule layout_inv_views [OF i(3)]) (simp add: slot_get_append del: not_None_eq slot_get_Some)
  then show ?thesis using i assms(2) by (simp add: ws_inv_def views_inv_append)
qed

lemma add_buffer_ok:
  assumes "ws_inv ws" "length (ws_docs ws) + 1 < 2 ^ 64"
  shows "\<exists>ws'. add_buffer bs name ws = (doc_key (length (ws_docs ws)), ws') \<and> ws_inv ws' \<and>
    ws_windows ws' = ws_windows ws \<and> ws_focus ws' = ws_focus ws \<and> ws_alt ws' = ws_alt ws \<and>
    (\<forall>k < length (ws_views ws). ws_views ws' ! k = ws_views ws ! k) \<and> length (ws_views ws) \<le> length (ws_views ws') \<and>
    ws_order ws' = ws_order ws @ [doc_key (length (ws_docs ws))] \<and>
    ws_docs ws' = ws_docs ws @ [Some (mark_saved (document_new (doc_key (length (ws_docs ws))) bs))]"
proof -
  note i = ws_invD [OF assms(1)]
  let ?i = "doc_key (length (ws_docs ws))"
  let ?d = "mark_saved (document_new ?i bs)"
  let ?docs = "ws_docs ws @ [Some ?d]"
  have d: "doc_ok ?d" "d_id ?d = ?i" "d_pinned ?d = []" "d_text ?d = bs" by (simp_all add: document_new_def fresh_doc_ok)
  note fd = find_doc_append [OF assms(2), of "Some ?d"] and nf = find_doc_beyond [OF assms(2)]
  have "length ?docs < 2 ^ 64" using assms(2) by simp
  then have di: "docs_inv ?docs" using i(1) d by (auto simp: docs_inv_def slot_get_append simp del: slot_get_Some)
  have fits: "view_fits ?docs u" if "view_fits (ws_docs ws) u" for u
    using that nf by (auto simp: view_fits_def fd)
  then have vi: "views_inv ?docs (ws_views ws)" using i(2) by (simp add: views_inv_fits)
  have "?i \<notin> set (ws_order ws)" using i(4) nf by (simp add: order_inv_def)
  then have oi: "order_inv ?docs (ws_names ws @ [name]) (ws_order ws @ [?i]) (ws_alt ws)" using i(4) by (auto simp: order_inv_def fd)
  let ?ws1 = "ws\<lparr>ws_docs := ?docs, ws_names := ws_names ws @ [name], ws_order := ws_order ws @ [?i]\<rparr>"
  have w1: "ws_inv ?ws1" using di vi oi i by (simp add: ws_inv_def)
  have fv: "view_fits (ws_docs ?ws1) (fresh_view ?i ws)" using fresh_view_fits [of ?docs ?i ws] by (simp add: fd)
  have "add_buffer bs name ws = (?i, ?ws1\<lparr>ws_views := ws_views ?ws1 @ [Some (fresh_view ?i ws)]\<rparr>)"
    by (simp add: add_buffer_def push_view_eq fresh_view_def doc_key_def Let_def)
  then show ?thesis using push_view_ok [OF w1 fv] by (simp add: nth_append)
qed

lemma reusable_view_Some:
  assumes "reusable_view ws i = Some vid"
  shows "vid < length (ws_views ws)" "\<exists>v. ws_views ws ! vid = Some v \<and> v_doc v = i" "vid \<notin> set (remove_at (ws_focus ws) (ws_windows ws))"
proof -
  have "vid \<in> set [0..<length (ws_views ws)]"
    "(case slot_get (ws_views ws) vid of Some v \<Rightarrow> v_doc v = i | None \<Rightarrow> False) \<and> \<not> shown_elsewhere ws vid"
    using find_SomeD [OF assms [unfolded reusable_view_def]] by simp_all
  then show "vid < length (ws_views ws)" "\<exists>v. ws_views ws ! vid = Some v \<and> v_doc v = i" "vid \<notin> set (remove_at (ws_focus ws) (ws_windows ws))"
    by (auto simp: shown_elsewhere_def split: option.splits)
qed

lemma update_as_remove:
  assumes "i < length xs"
  shows "set (xs[i := x]) = insert x (set (remove_at i xs))" "distinct xs \<Longrightarrow> x \<notin> set (remove_at i xs) \<Longrightarrow> distinct (xs[i := x])"
proof -
  obtain as y bs where xs: "xs = as @ y # bs" "length as = i" using id_take_nth_drop [OF assms] assms by (metis length_take less_imp_le min_absorb2)
  then have "remove_at i xs = as @ bs" "xs[i := x] = as @ x # bs" by (auto simp: remove_at_def list_update_append)
  then show "set (xs[i := x]) = insert x (set (remove_at i xs))" "distinct xs \<Longrightarrow> x \<notin> set (remove_at i xs) \<Longrightarrow> distinct (xs[i := x])"
    using xs(1) by auto
qed

lemma view_for_buffer_ok:
  assumes "ws_inv ws" "find_doc (ws_docs ws) i \<noteq> None"
  shows "\<exists>vid ws'. view_for_buffer i ws = Some (vid, ws') \<and> ws_inv ws' \<and> vid < length (ws_views ws') \<and>
    (\<exists>v. ws_views ws' ! vid = Some v \<and> v_doc v = i) \<and> vid \<notin> set (remove_at (ws_focus ws) (ws_windows ws)) \<and>
    ws_docs ws' = ws_docs ws \<and> ws_order ws' = ws_order ws \<and> ws_windows ws' = ws_windows ws \<and> ws_focus ws' = ws_focus ws \<and>
    ws_alt ws' = ws_alt ws \<and> ws_names ws' = ws_names ws"
proof (cases "reusable_view ws i")
  case (Some vid)
  then show ?thesis using reusable_view_Some [OF Some] assms(1) by (simp add: view_for_buffer_def)
next
  case None
  note inv = ws_invD [OF assms(1)]
  obtain vid v d s where v: "focused_vid ws = Some vid" "ws_windows ws ! ws_focus ws = vid" "ws_focus ws < length (ws_windows ws)"
    "vid < length (ws_views ws)" "ws_views ws ! vid = Some v" "doc_slot (v_doc v) = Some s" "s < length (ws_docs ws)" "ws_docs ws ! s = Some d"
    by (rule focused_at [OF assms(1)]) (simp add: that)
  have p: "ws_pane ws (ws_focus ws) = Some (True, v, d)" using v by (simp add: ws_pane_def get_at_def slot_get_def)
  let ?u = "(fresh_view i ws)\<lparr>v_window := v_window v\<rparr>" and ?n = "length (ws_views ws)"
  have "view_fits (ws_docs ws) ?u" by (rule view_fits_change [OF fresh_view_fits [OF assms(2), of ws]]) simp_all
  note ok = push_view_ok [OF assms(1) this]
  have "view_for_buffer i ws = Some (?n, ws\<lparr>ws_views := ws_views ws @ [Some ?u]\<rparr>)"
    using None p by (simp add: view_for_buffer_def push_view_eq Let_def list_update_append)
  moreover have "?n \<notin> set (remove_at (ws_focus ws) (ws_windows ws))"
  proof -
    have "distinct (ws_windows ws)" "\<forall>w \<in> set (ws_windows ws). w < ?n" using inv(3) by (auto simp: layout_inv_def)
    then show ?thesis using remove_at_set(1) [of "ws_windows ws" "ws_focus ws"] v(3) by auto
  qed
  moreover have "v_doc ?u = i" by (simp add: fresh_view_def view_fresh_def)
  ultimately show ?thesis using ok by simp
qed

lemma focus_buffer_ok:
  assumes "ws_inv ws"
  shows "\<exists>ws'. focus_buffer i ws = Some (doc_is_live ws i, ws') \<and> ws_inv ws' \<and> ws_docs ws' = ws_docs ws \<and> ws_order ws' = ws_order ws \<and>
    length (ws_windows ws') = length (ws_windows ws) \<and>
    focused_buffer ws' = (if doc_is_live ws i then Some i else focused_buffer ws)"
proof (cases "doc_is_live ws i")
  case False
  then show ?thesis using assms by (simp add: focus_buffer_def)
next
  case live: True
  note inv = ws_invD [OF assms]
  obtain vid v where v: "focused_buffer ws = Some (v_doc v)" "ws_focus ws < length (ws_windows ws)" "view_fits (ws_docs ws) v"
    by (rule focused_at [OF assms]) (simp add: that)
  show ?thesis
  proof (cases "v_doc v = i")
    case True
    then show ?thesis using v live assms by (simp add: focus_buffer_def)
  next
    case False
    let ?ws0 = "ws\<lparr>ws_alt := Some (v_doc v)\<rparr>"
    have "find_doc (ws_docs ws) (v_doc v) \<noteq> None" using v(3) by (auto simp: view_fits_def)
    then have w0: "ws_inv ?ws0" using inv by (simp add: ws_inv_def order_inv_def)
    have "find_doc (ws_docs ?ws0) i \<noteq> None" using live by (simp add: doc_is_live_def ws_document_eq)
    from view_for_buffer_ok [OF w0 this] obtain nv ws1 u where
      e: "view_for_buffer i ?ws0 = Some (nv, ws1)" and w1: "ws_inv ws1" and n: "nv < length (ws_views ws1)" "ws_views ws1 ! nv = Some u" "v_doc u = i"
        "nv \<notin> set (remove_at (ws_focus ws) (ws_windows ws))"
      and same: "ws_docs ws1 = ws_docs ws" "ws_order ws1 = ws_order ws" "ws_windows ws1 = ws_windows ws" "ws_focus ws1 = ws_focus ws"
      by auto
    let ?ws2 = "ws1\<lparr>ws_windows := (ws_windows ws)[ws_focus ws := nv]\<rparr>"
    note i1 = ws_invD [OF w1]
    note up = update_as_remove [OF v(2), of nv]
    have dist: "distinct (ws_windows ws)" using inv(3) by (simp add: layout_inv_def)
    have l: "layout_inv (ws_views ws1) ((ws_windows ws)[ws_focus ws := nv]) (ws_focus ws)"
      unfolding layout_inv_def
    proof (intro conjI ballI)
      show "ws_focus ws < length ((ws_windows ws)[ws_focus ws := nv])" using v(2) by simp
      show "distinct ((ws_windows ws)[ws_focus ws := nv])" using up(2) dist n(4) by blast
      fix w assume "w \<in> set ((ws_windows ws)[ws_focus ws := nv])"
      then have "w = nv \<or> w \<in> set (ws_windows ws)" using up(1) remove_at_set(1) [OF dist v(2)] by blast
      then show "slot_get (ws_views ws1) w \<noteq> None" using i1(3) n(1,2) same(3) by (auto simp: layout_inv_def)
    qed
    have "focus_buffer i ws = Some (True, ?ws2)"
      using live v(1,2) False e by (simp add: focus_buffer_def slot_set_def same)
    moreover have "ws_inv ?ws2" using i1 l same(4) by (simp add: ws_inv_def)
    moreover have "focused_buffer ?ws2 = Some i"
      using v(2) n by (simp add: focused_buffer_def focused_view_of_def focused_vid_def get_at_def slot_get_def same)
    ultimately show ?thesis using live same by simp
  qed
qed

end
