(* ===== verification/Workspace_Buffers.thy ===== *)
theory Workspace_Buffers
  imports Workspace_Inv
begin

text \<open>
  The buffer operations of the workspace: walking the buffer list, removing a buffer, names and alternates, the
  reloads and the options.  Each returns and keeps \<open>ws_inv\<close>.
\<close>

section \<open>Walking the buffer list\<close>

lemma live_order: "ws_inv ws \<Longrightarrow> filter (doc_is_live ws) (ws_order ws) = ws_order ws"
  by (simp add: filter_id_conv ws_inv_def order_inv_def doc_is_live_def ws_document_eq)

definition cycle_target :: "bool \<Rightarrow> nat \<Rightarrow> nat \<Rightarrow> nat" where
  "cycle_target forward n k = (if forward then (k + 1) mod n else (k + n - 1) mod n)"

lemma cycle_buffer_ok:
  assumes "ws_inv ws" "focused_buffer ws = Some (ws_order ws ! k)" "k < length (ws_order ws)"
  shows "\<exists>ws'. cycle_buffer forward ws = Some ws' \<and> ws_inv ws' \<and> ws_docs ws' = ws_docs ws \<and> ws_order ws' = ws_order ws \<and>
    focused_buffer ws' = Some (ws_order ws ! cycle_target forward (length (ws_order ws)) k)"
proof -
  let ?o = "ws_order ws" and ?t = "cycle_target forward (length (ws_order ws)) k"
  have dist: "distinct ?o" and live: "\<And>i. i \<in> set ?o \<Longrightarrow> doc_is_live ws i"
    using ws_invD(4) [OF assms(1)] by (simp_all add: order_inv_def doc_is_live_def ws_document_eq)
  show ?thesis
  proof (cases "length ?o \<le> 1")
    case True
    then have "k = 0" "length ?o = 1" using assms(3) by simp_all
    then have "?t = k" by (simp add: cycle_target_def)
    then show ?thesis using True assms by (simp add: cycle_buffer_def live_order)
  next
    case False
    have "position (\<lambda>i. i = ?o ! k) ?o = Some k"
      using assms(3) dist by (intro position_SomeI) (auto simp: nth_eq_iff_index_eq)
    moreover have "0 < length ?o" using assms(3) by linarith
    then have "?t < length ?o" by (simp add: cycle_target_def)
    then have "doc_is_live ws (?o ! ?t)" using live nth_mem by blast
    ultimately have "cycle_buffer forward ws = focus_buffer (?o ! ?t) ws \<bind> (\<lambda>r. Some (snd r))"
      using False assms(2) by (simp add: cycle_buffer_def live_order [OF assms(1)] cycle_target_def Let_def)
    then show ?thesis using focus_buffer_ok [OF assms(1), of "?o ! ?t"] \<open>doc_is_live ws (?o ! ?t)\<close> by auto
  qed
qed

lemma focused_in_order:
  assumes "ws_inv ws"
  obtains k where "focused_buffer ws = Some (ws_order ws ! k)" "k < length (ws_order ws)"
proof -
  obtain v :: editor_view and d where "focused_buffer ws = Some (v_doc v)" "find_doc (ws_docs ws) (v_doc v) = Some d"
    by (rule focused_at [OF assms]) (blast intro: that)
  then have "v_doc v \<in> set (ws_order ws)" using ws_invD(4) [OF assms] by (simp add: order_inv_def)
  then show ?thesis using that \<open>focused_buffer ws = Some (v_doc v)\<close> by (metis in_set_conv_nth)
qed

section \<open>Removing a buffer\<close>

definition shown_doc :: "workspace \<Rightarrow> nat \<Rightarrow> u64 option" where
  "shown_doc ws k = map_option v_doc (slot_get (ws_views ws) (ws_windows ws ! k))"

lemma repoint_ok:
  assumes "ws_inv ws" "find_doc (ws_docs ws) rep \<noteq> None" "rep \<noteq> i" "\<forall>k \<in> set ks. k < length (ws_windows ws)"
  shows "\<exists>ws'. repoint_loop i rep ks ws = Some ws' \<and> ws_inv ws' \<and> ws_docs ws' = ws_docs ws \<and> ws_order ws' = ws_order ws \<and>
    ws_names ws' = ws_names ws \<and> ws_alt ws' = ws_alt ws \<and> ws_focus ws' = ws_focus ws \<and> length (ws_windows ws') = length (ws_windows ws) \<and>
    (\<forall>k < length (ws_windows ws). shown_doc ws' k =
       (if shown_doc ws k = Some i \<and> k \<in> set ks then Some rep else shown_doc ws k))"
  using assms
proof (induction ks arbitrary: ws)
  case (Cons k ks)
  note inv = ws_invD [OF Cons.prems(1)]
  have kl: "k < length (ws_windows ws)" using Cons.prems(4) by simp
  obtain vid v where v: "ws_windows ws ! k = vid" "vid < length (ws_views ws)" "ws_views ws ! vid = Some v"
    by (rule window_at [OF Cons.prems(1) kl]) (simp add: that)
  have sk: "shown_doc ws k = Some (v_doc v)" using v by (simp add: shown_doc_def slot_get_def get_at_def)
  show ?case
  proof (cases "v_doc v = i")
    case False
    then have "repoint_loop i rep (k # ks) ws = repoint_loop i rep ks ws" using v kl by (simp add: get_at_def)
    then show ?thesis using Cons.IH [OF Cons.prems(1-3)] Cons.prems(4) sk False by auto
  next
    case True
    let ?n = "length (ws_views ws)"
    let ?ws1 = "ws\<lparr>ws_views := ws_views ws @ [Some (fresh_view rep ws)]\<rparr>"
    let ?ws2 = "?ws1\<lparr>ws_windows := (ws_windows ws)[k := ?n]\<rparr>"
    have w1: "ws_inv ?ws1" by (rule push_view_ok [OF Cons.prems(1) fresh_view_fits [OF Cons.prems(2)]])
    have lt: "\<forall>w \<in> set (ws_windows ws). w < ?n" and dist: "distinct (ws_windows ws)" using inv(3) by (auto simp: layout_inv_def)
    note up = update_as_remove [OF kl, of ?n]
    have sub: "set (remove_at k (ws_windows ws)) \<subseteq> set (ws_windows ws)" using remove_at_set(1) [OF dist kl] by blast
    have l: "layout_inv (ws_views ?ws1) ((ws_windows ws)[k := ?n]) (ws_focus ws)"
      unfolding layout_inv_def
    proof (intro conjI ballI)
      show "ws_focus ws < length ((ws_windows ws)[k := ?n])" using inv(3) by (simp add: layout_inv_def)
      show "distinct ((ws_windows ws)[k := ?n])" using up(2) dist sub lt by blast
      fix w assume "w \<in> set ((ws_windows ws)[k := ?n])"
      then have "w = ?n \<or> w \<in> set (ws_windows ws)" using up(1) sub by blast
      then show "slot_get (ws_views ?ws1) w \<noteq> None"
        using inv(3) by (auto simp: layout_inv_def slot_get_append simp del: slot_get_Some not_None_eq)
    qed
    have w2: "ws_inv ?ws2" using ws_invD [OF w1] l by (simp add: ws_inv_def)
    have sh: "shown_doc ?ws2 m = (if m = k then Some rep else shown_doc ws m)" if "m < length (ws_windows ws)" for m
    proof (cases "m = k")
      case True
      then show ?thesis using kl by (simp add: shown_doc_def slot_get_append fresh_view_def view_fresh_def)
    next
      case False
      have "ws_windows ws ! m < ?n" using lt nth_mem [OF that] by (rule bspec)
      then show ?thesis using False by (simp add: shown_doc_def slot_get_append)
    qed
    have r: "repoint_loop i rep (k # ks) ws = repoint_loop i rep ks ?ws2"
      using v kl True by (simp add: get_at_def push_view_eq)
    have "find_doc (ws_docs ?ws2) rep \<noteq> None" "\<forall>k \<in> set ks. k < length (ws_windows ?ws2)" using Cons.prems(2,4) by simp_all
    from Cons.IH [OF w2 this(1) Cons.prems(3) this(2)] obtain ws' where
      ws': "repoint_loop i rep ks ?ws2 = Some ws'" "ws_inv ws'" "ws_docs ws' = ws_docs ws" "ws_order ws' = ws_order ws"
        "ws_names ws' = ws_names ws" "ws_alt ws' = ws_alt ws" "ws_focus ws' = ws_focus ws" "length (ws_windows ws') = length (ws_windows ws)"
      and s: "\<And>m. m < length (ws_windows ws) \<Longrightarrow> shown_doc ws' m = (if shown_doc ?ws2 m = Some i \<and> m \<in> set ks then Some rep else shown_doc ?ws2 m)"
      by auto
    have "shown_doc ws' m = (if shown_doc ws m = Some i \<and> m \<in> set (k # ks) then Some rep else shown_doc ws m)"
      if "m < length (ws_windows ws)" for m
      using s [OF that] sh [OF that] sk True Cons.prems(3) by auto
    then show ?thesis unfolding r using ws' by blast
  qed
qed simp

lemma replacement_Some:
  assumes "replacement_of i ws = Some r"
  shows "r \<noteq> i" "find_doc (ws_docs ws) r \<noteq> None"
proof -
  have "r \<noteq> i \<and> doc_is_live ws r"
    using assms by (auto simp: replacement_of_def split: option.splits if_splits dest: find_SomeD)
  then show "r \<noteq> i" "find_doc (ws_docs ws) r \<noteq> None" by (simp_all add: doc_is_live_def ws_document_eq)
qed

lemma replacement_None:
  assumes "ws_inv ws" "doc_is_live ws i" "replacement_of i ws = None" "doc_is_live ws j"
  shows "j = i"
proof -
  have o: "\<And>b. b \<in> set (ws_order ws) \<longleftrightarrow> doc_is_live ws b"
    using ws_invD(4) [OF assms(1)] by (simp add: order_inv_def doc_is_live_def ws_document_eq)
  then obtain p where p: "position (\<lambda>b. b = i) (ws_order ws) = Some p" using assms(2) position_None_iff by (metis (mono_tags, lifting) not_None_eq)
  then have "find (\<lambda>b. b \<noteq> i \<and> doc_is_live ws b) (rotate (p + 1) (ws_order ws)) = None"
    using assms(3) by (simp add: replacement_of_def split: option.splits if_splits)
  then have "\<forall>b \<in> set (ws_order ws). b = i \<or> \<not> doc_is_live ws b" by (auto simp: find_None_iff)
  then show ?thesis using assms(4) o by blast
qed

lemma remove_buffer_ok:
  assumes "ws_inv ws" "length (ws_docs ws) + 1 < 2 ^ 64"
  shows "\<exists>ws'. remove_buffer i ws = Some (doc_is_live ws i, ws') \<and> ws_inv ws' \<and>
    (if doc_is_live ws i then
       find_doc (ws_docs ws') i = None \<and> (\<forall>j. j \<noteq> i \<longrightarrow> find_doc (ws_docs ws) j \<noteq> None \<longrightarrow> find_doc (ws_docs ws') j = find_doc (ws_docs ws) j) \<and>
       length (ws_windows ws') = length (ws_windows ws) \<and> ws_focus ws' = ws_focus ws \<and> ws_alt ws' \<noteq> Some i \<and>
       (\<exists>rep. rep \<noteq> i \<and> find_doc (ws_docs ws') rep \<noteq> None \<and>
         (\<forall>k < length (ws_windows ws). shown_doc ws' k = (if shown_doc ws k = Some i then Some rep else shown_doc ws k)))
     else ws' = ws)"
proof (cases "doc_is_live ws i")
  case False
  then show ?thesis using assms(1) by (simp add: remove_buffer_def)
next
  case live: True
  then obtain d where d: "find_doc (ws_docs ws) i = Some d" by (auto simp: doc_is_live_def ws_document_eq)
  then obtain s where s: "doc_slot i = Some s" "s < length (ws_docs ws)" by (auto simp: find_doc_Some)
  have "\<exists>rep ws1. (case replacement_of i ws of Some r \<Rightarrow> (r, ws) | None \<Rightarrow> add_buffer [] None ws) = (rep, ws1) \<and> ws_inv ws1 \<and>
      rep \<noteq> i \<and> find_doc (ws_docs ws1) rep \<noteq> None \<and> length (ws_docs ws) \<le> length (ws_docs ws1) \<and> ws_windows ws1 = ws_windows ws \<and> ws_focus ws1 = ws_focus ws \<and>
      (\<forall>j. find_doc (ws_docs ws) j \<noteq> None \<longrightarrow> find_doc (ws_docs ws1) j = find_doc (ws_docs ws) j) \<and>
      (\<forall>k < length (ws_windows ws). shown_doc ws1 k = shown_doc ws k)"
  proof (cases "replacement_of i ws")
    case (Some r)
    then show ?thesis using replacement_Some [OF Some] assms(1) by simp
  next
    case None
    let ?i = "doc_key (length (ws_docs ws))"
    note nf = find_doc_beyond [OF assms(2)]
    from add_buffer_ok [OF assms, of "[]" None] obtain ws1 where
      a: "add_buffer [] None ws = (?i, ws1)" "ws_inv ws1" "ws_windows ws1 = ws_windows ws" "ws_focus ws1 = ws_focus ws"
        "\<forall>k < length (ws_views ws). ws_views ws1 ! k = ws_views ws ! k" "length (ws_views ws) \<le> length (ws_views ws1)"
        "ws_docs ws1 = ws_docs ws @ [Some (mark_saved (document_new ?i []))]" by blast
    have fd: "find_doc (ws_docs ws1) j = (if j = ?i then Some (mark_saved (document_new ?i [])) else find_doc (ws_docs ws) j)" for j
      unfolding a(7) by (rule find_doc_append [OF assms(2)])
    have "?i \<noteq> i" using nf d by auto
    moreover have "shown_doc ws1 k = shown_doc ws k" if "k < length (ws_windows ws)" for k
    proof -
      have "slot_get (ws_views ws) (ws_windows ws ! k) \<noteq> None"
        using ws_invD(3) [OF assms(1)] nth_mem [OF that] unfolding layout_inv_def by blast
      then have "ws_windows ws ! k < length (ws_views ws)" by auto
      then show ?thesis using a(3,5,6) by (simp add: shown_doc_def slot_get_def get_at_def)
    qed
    moreover have "find_doc (ws_docs ws1) ?i \<noteq> None" "length (ws_docs ws) \<le> length (ws_docs ws1)" by (simp_all add: fd) (simp add: a(7))
    moreover have "find_doc (ws_docs ws1) j = find_doc (ws_docs ws) j" if "find_doc (ws_docs ws) j \<noteq> None" for j using that nf by (auto simp: fd)
    ultimately show ?thesis using None a(1-4) by simp
  qed
  then obtain rep ws1 where
    r: "(case replacement_of i ws of Some r \<Rightarrow> (r, ws) | None \<Rightarrow> add_buffer [] None ws) = (rep, ws1)" "ws_inv ws1" "rep \<noteq> i"
      "find_doc (ws_docs ws1) rep \<noteq> None" "length (ws_docs ws) \<le> length (ws_docs ws1)" "ws_windows ws1 = ws_windows ws" "ws_focus ws1 = ws_focus ws"
      "\<And>j. find_doc (ws_docs ws) j \<noteq> None \<Longrightarrow> find_doc (ws_docs ws1) j = find_doc (ws_docs ws) j"
      "\<And>k. k < length (ws_windows ws) \<Longrightarrow> shown_doc ws1 k = shown_doc ws k"
    by blast
  have "\<forall>k \<in> set [0..<length (ws_windows ws1)]. k < length (ws_windows ws1)" by simp
  from repoint_ok [OF r(2,4,3) this] obtain ws2 where
    w2: "repoint_loop i rep [0..<length (ws_windows ws1)] ws1 = Some ws2" "ws_inv ws2" "ws_docs ws2 = ws_docs ws1"
      "ws_focus ws2 = ws_focus ws" "length (ws_windows ws2) = length (ws_windows ws)"
    and sh: "\<And>k. k < length (ws_windows ws) \<Longrightarrow> shown_doc ws2 k = (if shown_doc ws k = Some i then Some rep else shown_doc ws k)"
    using r(6,7,9) by auto
  note i2 = ws_invD [OF w2(2)]
  let ?docs = "(ws_docs ws2)[s := None]" and ?names = "(ws_names ws2)[s := None]" and ?alt = "if ws_alt ws2 = Some i then None else ws_alt ws2"
    and ?views = "map (\<lambda>v. if map_option v_doc v = Some i then None else v) (ws_views ws2)"
    and ?order = "filter (\<lambda>b. b \<noteq> i) (ws_order ws2)"
  let ?ws' = "ws2\<lparr>ws_views := ?views, ws_docs := ?docs, ws_names := ?names, ws_order := ?order, ws_alt := ?alt\<rparr>"
  have sl: "s < length (ws_docs ws2)" using s(2) r(5) w2(3) by simp
  then have nl: "s < length (ws_names ws2)" using i2(4) by (simp add: order_inv_def)
  have fd: "find_doc ?docs j = (if j = i then None else find_doc (ws_docs ws2) j)" for j by (rule find_doc_update [OF s(1) sl])
  have rm: "remove_buffer i ws = Some (True, ?ws')"
    using live w2(1) s(1) sl nl by (simp add: remove_buffer_def r(1) slot_set_def)
  have di: "docs_inv ?docs" using i2(1) sl by (auto simp: docs_inv_def nth_list_update split: if_splits)
  have vi: "views_inv ?docs ?views"
    unfolding views_inv_fits
  proof (intro allI impI)
    fix u assume "Some u \<in> set ?views"
    then have "Some u \<in> set (ws_views ws2)" "v_doc u \<noteq> i" by (auto split: if_splits)
    then show "view_fits ?docs u" using i2(2) by (simp add: views_inv_fits view_fits_def fd)
  qed
  have sg: "slot_get ?views w = (if map_option v_doc (slot_get (ws_views ws2) w) = Some i then None else slot_get (ws_views ws2) w)" for w
    by (auto simp: slot_get_def get_at_def)
  have lw: "slot_get ?views w = slot_get (ws_views ws2) w" if w: "w \<in> set (ws_windows ws2)" for w
  proof -
    obtain k where k: "k < length (ws_windows ws2)" "ws_windows ws2 ! k = w" using w by (auto simp: in_set_conv_nth)
    then have "shown_doc ws2 k \<noteq> Some i" using sh [of k] w2(5) r(3) by simp
    then show ?thesis unfolding sg using k(2) by (auto simp: shown_doc_def)
  qed
  have li: "layout_inv ?views (ws_windows ws2) (ws_focus ws2)"
    by (rule layout_inv_views [OF i2(3)]) (simp only: lw simp_thms)
  have oi: "order_inv ?docs ?names ?order ?alt" using i2(4) by (auto simp: order_inv_def fd)
  have inv': "ws_inv ?ws'" using di vi li oi i2(5) by (simp add: ws_inv_def)
  define ws' where "ws' = ?ws'"
  have fd': "find_doc (ws_docs ws') j = (if j = i then None else find_doc (ws_docs ws1) j)" for j
    using fd [of j] w2(3) by (simp add: ws'_def)
  have shown: "shown_doc ws' k = (if shown_doc ws k = Some i then Some rep else shown_doc ws k)" if "k < length (ws_windows ws)" for k
    using lw [of "ws_windows ws2 ! k"] sh [OF that] that w2(5) by (simp add: ws'_def shown_doc_def)
  have rest: "ws_inv ws'" "length (ws_windows ws') = length (ws_windows ws)" "ws_focus ws' = ws_focus ws" "ws_alt ws' \<noteq> Some i"
    using inv' w2(4,5) by (simp_all add: ws'_def)
  have "remove_buffer i ws = Some (doc_is_live ws i, ws')" using rm live by (simp add: ws'_def)
  moreover have "find_doc (ws_docs ws') j = find_doc (ws_docs ws) j" if "j \<noteq> i" "find_doc (ws_docs ws) j \<noteq> None" for j
    using r(8) [OF that(2)] that(1) by (simp add: fd')
  moreover have "find_doc (ws_docs ws') rep \<noteq> None" using r(3,4) by (simp add: fd')
  moreover have "find_doc (ws_docs ws') i = None" by (simp add: fd')
  ultimately show ?thesis using live rest shown r(3) by (intro exI [of _ ws']) (simp only: if_True simp_thms, blast)
qed

section \<open>Names and the alternate\<close>

lemma set_alternate_ok: "ws_inv ws \<Longrightarrow> (\<And>a. i = Some a \<Longrightarrow> doc_is_live ws a) \<Longrightarrow> ws_inv (ws_set_alternate i ws)"
  by (simp add: ws_set_alternate_def ws_inv_def order_inv_def doc_is_live_def ws_document_eq)

lemma names_inv: "ws_inv ws \<Longrightarrow> length names = length (ws_names ws) \<Longrightarrow> ws_inv (ws\<lparr>ws_names := names\<rparr>)"
  by (simp add: ws_inv_def order_inv_def)

lemma set_buffer_name_ok: "ws_inv ws \<Longrightarrow> i \<noteq> 0 \<Longrightarrow> \<exists>ws'. set_buffer_name i name ws = Some ws' \<and> ws_inv ws'"
  by (auto simp: set_buffer_name_def doc_slot_def intro: names_inv)

lemma set_focused_name_ok:
  assumes "ws_inv ws"
  shows "\<exists>ws'. set_focused_name name ws = Some ws' \<and> ws_inv ws'"
proof -
  obtain v :: editor_view and s where v: "focused_buffer ws = Some (v_doc v)" "doc_slot (v_doc v) = Some s" "s < length (ws_docs ws)"
    by (rule focused_at [OF assms]) (blast intro: that)
  then have "s < length (ws_names ws)" using ws_invD(4) [OF assms] by (simp add: order_inv_def)
  then show ?thesis using v names_inv [OF assms] by (simp add: set_focused_name_def slot_set_def)
qed

section \<open>Replacing a document's text\<close>

lemma resettle_slots [simp]: "slot_get (map (resettle i b) vs) w = resettle i b (slot_get vs w)"
  by (auto simp: slot_get_def get_at_def resettle_def)

lemma resettle_layout: "layout_inv vs wins focus \<Longrightarrow> layout_inv (map (resettle i b) vs) wins focus"
  by (rule layout_inv_views) (simp_all add: resettle_def del: not_None_eq slot_get_Some)

lemma resettle_views:
  assumes "\<And>u. Some u \<in> set vs \<Longrightarrow> lists_ok u \<and> (v_doc u \<noteq> i \<longrightarrow> view_fits docs u)"
    and "find_doc docs' i = Some d'" "\<And>j. j \<noteq> i \<Longrightarrow> find_doc docs' j = find_doc docs j"
  shows "views_inv docs' (map (resettle i (d_text d')) vs)"
  unfolding views_inv_fits
proof (intro allI impI)
  fix u assume "Some u \<in> set (map (resettle i (d_text d')) vs)"
  then obtain x where x: "x \<in> set vs" "Some u = resettle i (d_text d') x" unfolding set_map by blast
  have "x \<noteq> None"
  proof
    assume "x = None"
    then show False using x(2) by (simp add: resettle_def)
  qed
  then obtain u0 where u0: "Some u0 \<in> set vs" "Some u = resettle i (d_text d') (Some u0)" using x by blast
  show "view_fits docs' u"
  proof (cases "v_doc u0 = i")
    case True
    then have u: "u = snap_offsets (d_text d') (u0\<lparr>v_cursor := snap (d_text d') (v_cursor u0)\<rparr>)" using u0(2) by (simp add: resettle_def)
    moreover have "v_doc u = i" using True by (simp add: u snap_offsets_def)
    ultimately show ?thesis using settled_inv [of u0 "d_text d'" "v_cursor u0"] assms(1) [OF u0(1)] assms(2) by (simp add: view_fits_def)
  next
    case False
    then show ?thesis using u0 assms(1) [OF u0(1)] assms(3) by (simp add: resettle_def view_fits_def)
  qed
qed

lemma views_lists: "views_inv docs vs \<Longrightarrow> Some u \<in> set vs \<Longrightarrow> lists_ok u \<and> view_fits docs u"
  by (auto simp: views_inv_fits view_fits_def view_inv_def)

lemma swap_doc:
  assumes "docs_inv docs" "order_inv docs names order alt" "doc_slot i = Some s" "find_doc docs i \<noteq> None"
    and "d_id d' = i" "doc_ok d'" "d_pinned d' = []"
  shows "docs_inv (docs[s := Some d'])" "order_inv (docs[s := Some d']) names order alt"
    "find_doc (docs[s := Some d']) j = (if j = i then Some d' else find_doc docs j)"
proof -
  have s: "s < length docs" "i = doc_key s" using assms(3,4) by (auto simp: find_doc_Some) (simp add: doc_slot_Some)
  show fd: "find_doc (docs[s := Some d']) j = (if j = i then Some d' else find_doc docs j)" for j
    by (rule find_doc_update [OF assms(3) s(1)])
  show "docs_inv (docs[s := Some d'])" using assms(1,5-7) s by (auto simp: docs_inv_def nth_list_update split: if_splits)
  show "order_inv (docs[s := Some d']) names order alt" using assms(2,4) by (auto simp: order_inv_def fd)
qed

lemma place_cursor_ok:
  assumes "ws_inv ws" "\<And>d. focused_doc ws = Some d \<Longrightarrow> spot (d_text d) (min p (length (d_text d)))"
  shows "\<exists>ws'. place_focused_cursor p ws = Some ws' \<and> ws_inv ws' \<and> ws_docs ws' = ws_docs ws"
proof -
  obtain vid v d where v: "ws_windows ws ! ws_focus ws = vid" "ws_focus ws < length (ws_windows ws)" "ws_views ws ! vid = Some v"
    "focused_doc ws = Some d" "find_doc (ws_docs ws) (v_doc v) = Some d"
    by (rule focused_at [OF assms(1)]) (blast intro: that)
  have "spot (d_text d) (min p (length (d_text d)))" by (rule assms(2) [OF v(4)])
  then have "\<exists>ws'. on_window (ws_focus ws) (\<lambda>v. v\<lparr>v_cursor := min p (length (d_text d))\<rparr>) ws = Some ws' \<and> ws_inv ws' \<and>
      ws_docs ws' = ws_docs ws \<and> ws_windows ws' = ws_windows ws \<and> ws_focus ws' = ws_focus ws"
    using v by (intro on_window_ok [OF assms(1)]) (auto simp: set_cursor_view_inv)
  then show ?thesis using v(4) by (auto simp: place_focused_cursor_def)
qed

lemma modifiable_ok: "doc_ok d \<Longrightarrow> doc_ok (set_modifiable d on)"
  unfolding doc_ok_def using light_steps_inv(6) by blast

lemma reload_focused_ok:
  assumes "ws_inv ws"
  shows "\<exists>ws'. reload_focused bs ws = Some ws' \<and> ws_inv ws' \<and>
    map_option d_text (find_doc (ws_docs ws') (the (focused_buffer ws))) = Some bs"
proof -
  note inv = ws_invD [OF assms]
  obtain v :: editor_view and d s where v: "focused_buffer ws = Some (v_doc v)" "doc_slot (v_doc v) = Some s" "s < length (ws_docs ws)"
    "ws_docs ws ! s = Some d" "find_doc (ws_docs ws) (v_doc v) = Some d"
    by (rule focused_at [OF assms]) (blast intro: that)
  let ?d = "set_modifiable (mark_saved (replacing (v_doc v) bs (d_revision d))) (d_modifiable d)"
  have d: "doc_ok ?d" "d_id ?d = v_doc v" "d_pinned ?d = []" "d_text ?d = bs"
    using fresh_doc_ok [of "v_doc v" bs "next_rev (d_revision d)"] modifiable_ok by (simp_all add: replacing_def) (simp_all add: set_modifiable_def)
  have "find_doc (ws_docs ws) (v_doc v) \<noteq> None" using v(5) by simp
  note sw = swap_doc [OF inv(1,4) v(2) this d(2,1,3)]
  let ?ws1 = "ws\<lparr>ws_views := map (resettle (v_doc v) (d_text ?d)) (ws_views ws), ws_docs := (ws_docs ws)[s := Some ?d]\<rparr>"
  have "views_inv ((ws_docs ws)[s := Some ?d]) (map (resettle (v_doc v) (d_text ?d)) (ws_views ws))"
    by (rule resettle_views [where docs = "ws_docs ws"]) (use views_lists [OF inv(2)] sw(3) in auto)
  then have w1: "ws_inv ?ws1" using sw(1,2) resettle_layout [OF inv(3)] inv(5) by (simp add: ws_inv_def)
  have "reload_focused bs ws = place_focused_cursor 0 ?ws1" using v by (simp add: reload_focused_def get_at_def Let_def)
  then show ?thesis using place_cursor_ok [OF w1, of 0] sw(3) [of "v_doc v"] v(1) d(4) by auto
qed

lemma update_doc_eq:
  assumes "doc_slot i = Some s" "s < length (ws_docs ws)" "ws_docs ws ! s = Some d"
  shows "ws_update_doc i f ws = ws\<lparr>ws_docs := (ws_docs ws)[s := Some (f d)]\<rparr>"
  using assms by (simp add: ws_update_doc_def)

text \<open>What carrying leaves: the slots as they were, and views with their bounds kept.\<close>

lemma carried_live:
  assumes "carried_views P i b vs vs'" "slot_get vs w \<noteq> None"
  shows "slot_get vs' w \<noteq> None"
proof -
  obtain u where "w < length vs" "vs ! w = Some u" using assms(2) by auto
  then show ?thesis using carried_viewsD [OF assms(1), of w u] assms(1)
    by (cases "v_doc u = i") (auto simp: slot_get_None carried_views_def)
qed

lemma carried_lists:
  assumes c: "carried_views P i b vs vs'" and ok: "\<And>u. Some u \<in> set vs \<Longrightarrow> lists_ok u \<and> view_fits docs u" and u: "Some u \<in> set vs'"
  shows "lists_ok u \<and> (v_doc u \<noteq> i \<longrightarrow> view_fits docs u)"
proof -
  obtain j where j: "j < length vs" "vs' ! j = Some u" using u c by (auto simp: in_set_conv_nth carried_views_def)
  then obtain u0 where u0: "vs ! j = Some u0" using carried_views_None [OF c, of j] by (cases "vs ! j") auto
  then have l0: "lists_ok u0 \<and> view_fits docs u0" using ok [of u0] j(1) nth_mem by metis
  show ?thesis
  proof (cases "v_doc u0 = i")
    case True
    then obtain q where "u = rested b q u0" using carried_viewsD(1) [OF c j(1) u0] j(2) by auto
    then show ?thesis using l0 True untrack_lists [of u0 "butlast q"] by (simp add: rested_def lists_ok_def)
  next
    case False
    then show ?thesis using carried_viewsD(2) [OF c j(1) u0] j(2) l0 by simp
  qed
qed

text \<open>
  \<open>:e\<close> as an undoable change: the focused buffer goes through its view, another one through the document; then every
  view of the buffer is settled, so no idleness of the other views is needed.  \<open>reloaded\<close> is the state before that.
\<close>

definition reloaded :: "u64 \<Rightarrow> nat \<Rightarrow> bytes \<Rightarrow> workspace \<Rightarrow> document \<Rightarrow> workspace \<Rightarrow> bool" where
  "reloaded i s bs ws d' ws1 \<longleftrightarrow> (\<exists>vs rs. ws1 = ws\<lparr>ws_docs := (ws_docs ws)[s := Some d'], ws_views := vs, ws_registers := rs\<rparr>) \<and>
     d_id d' = i \<and> doc_ok d' \<and> d_pinned d' = [] \<and> d_text d' = bs \<and>
     (\<forall>w. slot_get (ws_views ws) w \<noteq> None \<longrightarrow> slot_get (ws_views ws1) w \<noteq> None) \<and>
     (\<forall>u. Some u \<in> set (ws_views ws1) \<longrightarrow> lists_ok u \<and> (v_doc u \<noteq> i \<longrightarrow> view_fits (ws_docs ws) u))"

lemma reload_other_run:
  assumes "ws_inv ws" "find_doc (ws_docs ws) i = Some d" "doc_slot i = Some s"
  shows "\<exists>ok ts d'. reload_tracked d bs [] = (ok, ts, d') \<and> reloaded i s bs ws d' (ws_update_doc i (\<lambda>_. d') ws)"
proof -
  note inv = ws_invD [OF assms(1)]
  have d: "d_id d = i" "doc_ok d" "d_pinned d = []" using docs_inv_find [OF inv(1) assms(2)] by simp_all
  have s: "s < length (ws_docs ws)" "ws_docs ws ! s = Some d" using assms(2,3) by (auto simp: find_doc_Some)
  obtain ok ts d' where r: "reload_tracked d bs [] = (ok, ts, d')" by (metis prod_cases3)
  have c: "doc_carries d [] d' ts" by (rule reload_carries [OF r])
  obtain T S r0 t0 where "doc_inv T S r0 t0 d" using d(2) by (auto simp: doc_ok_def)
  then have "d_text d' = bs" by (rule reload_inv(2) [OF _ r])
  moreover have "doc_ok d'" by (rule reload_doc_ok [OF d(2) r])
  moreover have "d_id d' = i" "d_pinned d' = []" using c d by (simp_all add: doc_carries_def)
  moreover have "\<exists>vs rs. ws_update_doc i (\<lambda>_. d') ws = ws\<lparr>ws_docs := (ws_docs ws)[s := Some d'], ws_views := vs, ws_registers := rs\<rparr>"
    unfolding update_doc_eq [OF assms(3) s] by (intro exI [of _ "ws_views ws"] exI [of _ "ws_registers ws"]) simp
  ultimately show ?thesis using r views_lists [OF inv(2)] by (simp add: reloaded_def update_doc_eq [OF assms(3) s] del: not_None_eq slot_get_Some)
qed

lemma reload_focused_run:
  assumes "ws_inv ws" "find_doc (ws_docs ws) i = Some d" "doc_slot i = Some s" "focused_buffer ws = Some i"
  shows "\<exists>ok d' ws1. with_focused (with_tracked (\<lambda>d ts. reload_tracked d bs ts)) ws = Some (ok, ws1) \<and> reloaded i s bs ws d' ws1"
proof -
  note inv = ws_invD [OF assms(1)]
  let ?f = "with_tracked (\<lambda>d ts. reload_tracked d bs ts)"
  have d: "d_id d = i" using docs_inv_find [OF inv(1) assms(2)] by simp
  obtain vid v where v: "focused_vid ws = Some vid" "vid < length (ws_views ws)" "ws_views ws ! vid = Some v" "v_doc v = i"
    using assms(4) by (auto intro: focused_at [OF assms(1)])
  then have vg: "slot_get (ws_views ws) vid = Some v" "find_doc (ws_docs ws) (v_doc v) = Some d" "doc_slot (v_doc v) = Some s"
    using assms(2,3) by simp_all
  have lo: "editor_ok (lent vid v d ws)" by (rule lent_ok [OF inv(1,2) vg(1,2)])
  obtain ok st' where f: "?f (lent vid v d ws) = (ok, st')" by (cases "?f (lent vid v d ws)")
  have h: "half_keeps (lent vid v d ws) st'" by (rule reload_half [OF lo f])
  then have hc: "carries (d_text d) (d_text (es_doc st')) (d_pinned (es_doc (lent vid v d ws))) (d_pinned (es_doc st'))"
    by (simp add: half_keeps_def lent_def)
  from with_view_result [where f = ?f and ws = ws and vid = vid, OF inv(1,2,5) vg hc f] obtain vs where
    c: "carried_views (carried (d_text d) (d_text (es_doc st'))) i (d_text (es_doc st')) ((ws_views ws)[vid := None]) vs"
    and w: "with_view vid ?f ws = Some (ok, ws\<lparr>ws_docs := (ws_docs ws)[s := Some ((es_doc st')\<lparr>d_pinned := []\<rparr>)],
      ws_views := vs[vid := Some ((es_view st')\<lparr>v_registers := v_registers v\<rparr>)], ws_registers := v_registers (es_view st')\<rparr>)"
    unfolding v(4) by blast
  let ?d' = "(es_doc st')\<lparr>d_pinned := []\<rparr>" and ?v' = "(es_view st')\<lparr>v_registers := v_registers v\<rparr>"
  have len: "length vs = length (ws_views ws)" using c by (simp add: carried_views_def)
  obtain ts' where rt: "reload_tracked (es_doc (lent vid v d ws)) bs (view_tracked (es_view (lent vid v d ws))) = (ok, ts', es_doc st')"
    using f by (auto simp: with_tracked_def split: prod.splits)
  obtain T S r0 t0 where "doc_inv T S r0 t0 (es_doc (lent vid v d ws))" using lo by (auto simp: editor_ok_def doc_ok_def)
  then have tx: "d_text ?d' = bs" using reload_inv(2) [OF _ rt] by simp
  have dk: "doc_ok ?d'" using pin_doc_ok [of "es_doc st'" "[]"] h by (simp add: half_keeps_def)
  have live: "slot_get (vs[vid := Some ?v']) w \<noteq> None" if w: "slot_get (ws_views ws) w \<noteq> None" for w
    using carried_live [OF c, of w] w v(2) len by (simp add: slot_get_update del: slot_get_Some not_None_eq)
  have vw: "lists_ok u \<and> (v_doc u \<noteq> i \<longrightarrow> view_fits (ws_docs ws) u)" if u: "Some u \<in> set (vs[vid := Some ?v'])" for u
  proof (cases "u = ?v'")
    case True
    then show ?thesis using h v(4) by (simp add: half_keeps_def lent_def lists_ok_def)
  next
    case False
    then have "Some u \<in> set vs" using u set_update_subset_insert [of vs vid "Some ?v'"] by auto
    moreover have "lists_ok x \<and> view_fits (ws_docs ws) x" if "Some x \<in> set ((ws_views ws)[vid := None])" for x
      using that set_update_subset_insert [of "ws_views ws" vid None] views_lists [OF inv(2), of x] by auto
    ultimately show ?thesis using carried_lists [OF c] by blast
  qed
  let ?ws1 = "ws\<lparr>ws_docs := (ws_docs ws)[s := Some ?d'], ws_views := vs[vid := Some ?v'], ws_registers := v_registers (es_view st')\<rparr>"
  have id': "d_id ?d' = i" "d_pinned ?d' = []" using h d by (simp_all add: half_keeps_def lent_def)
  have "\<exists>vs rs. ?ws1 = ws\<lparr>ws_docs := (ws_docs ws)[s := Some ?d'], ws_views := vs, ws_registers := rs\<rparr>" by blast
  moreover have "ws_views ?ws1 = vs[vid := Some ?v']" by simp
  ultimately have "reloaded i s bs ws ?d' ?ws1" unfolding reloaded_def using id' tx dk live vw by metis
  moreover have "with_focused ?f ws = Some (ok, ?ws1)" using v(1) w by (simp add: with_focused_def)
  ultimately show ?thesis by blast
qed

lemma reloaded_settled:
  assumes "ws_inv ws" "find_doc (ws_docs ws) i \<noteq> None" "doc_slot i = Some s" "reloaded i s bs ws d' ws1"
  shows "ws_inv (ws1\<lparr>ws_views := map (resettle i (d_text d')) (ws_views ws1)\<rparr>)" "ws_docs ws1 = (ws_docs ws)[s := Some d']"
    "find_doc (ws_docs ws1) j = (if j = i then Some d' else find_doc (ws_docs ws) j)"
proof -
  note inv = ws_invD [OF assms(1)]
  obtain vs rs where w1: "ws1 = ws\<lparr>ws_docs := (ws_docs ws)[s := Some d'], ws_views := vs, ws_registers := rs\<rparr>"
    and d': "d_id d' = i" "doc_ok d'" "d_pinned d' = []" "d_text d' = bs"
    and live: "\<And>w. slot_get (ws_views ws) w \<noteq> None \<Longrightarrow> slot_get vs w \<noteq> None"
    and vw: "\<And>u. Some u \<in> set vs \<Longrightarrow> lists_ok u \<and> (v_doc u \<noteq> i \<longrightarrow> view_fits (ws_docs ws) u)"
    using assms(4) by (auto simp: reloaded_def simp del: not_None_eq slot_get_Some)
  note sd = swap_doc [OF inv(1,4) assms(3,2) d'(1-3)]
  have vi: "views_inv ((ws_docs ws)[s := Some d']) (map (resettle i (d_text d')) vs)"
    by (rule resettle_views [where docs = "ws_docs ws"]) (use vw sd(3) in auto)
  have "layout_inv vs (ws_windows ws) (ws_focus ws)" using inv(3) live by (rule layout_inv_views)
  then have li: "layout_inv (map (resettle i (d_text d')) vs) (ws_windows ws) (ws_focus ws)" by (rule resettle_layout)
  show "ws_inv (ws1\<lparr>ws_views := map (resettle i (d_text d')) (ws_views ws1)\<rparr>)" using vi li sd(1,2) inv(5) by (simp add: w1 ws_inv_def)
  show "ws_docs ws1 = (ws_docs ws)[s := Some d']" by (simp add: w1)
  show "find_doc (ws_docs ws1) j = (if j = i then Some d' else find_doc (ws_docs ws) j)" using sd(3) by (simp add: w1)
qed

text \<open>A file that already holds the buffer's bytes only marks it saved.\<close>

lemma mark_saved_doc:
  assumes "ws_inv ws" "find_doc (ws_docs ws) i = Some d" "doc_slot i = Some s"
  shows "ws_inv (ws\<lparr>ws_docs := (ws_docs ws)[s := Some (mark_saved d)]\<rparr>)"
    "find_doc ((ws_docs ws)[s := Some (mark_saved d)]) j = (if j = i then Some (mark_saved d) else find_doc (ws_docs ws) j)"
    "d_text (mark_saved d) = d_text d"
proof -
  note inv = ws_invD [OF assms(1)]
  have d: "d_id d = i" "doc_ok d" "d_pinned d = []" using docs_inv_find [OF inv(1) assms(2)] by simp_all
  obtain T S r0 t0 where "doc_inv T S r0 t0 d" using d(2) by (auto simp: doc_ok_def)
  then have ok: "doc_ok (mark_saved d)" unfolding doc_ok_def using mark_saved_inv by blast
  have m: "d_id (mark_saved d) = i" "d_pinned (mark_saved d) = []" using d by (simp_all add: mark_saved_def sync_undo_def)
  show tx: "d_text (mark_saved d) = d_text d" by (simp add: mark_saved_def sync_undo_def)
  have ne: "find_doc (ws_docs ws) i \<noteq> None" using assms(2) by simp
  note sd = swap_doc [OF inv(1,4) assms(3) ne m(1) ok m(2)]
  show "find_doc ((ws_docs ws)[s := Some (mark_saved d)]) j = (if j = i then Some (mark_saved d) else find_doc (ws_docs ws) j)" by (rule sd(3))
  have "view_fits ((ws_docs ws)[s := Some (mark_saved d)]) u" if "view_fits (ws_docs ws) u" for u
    using that assms(2) tx by (auto simp: view_fits_def sd(3))
  then have "views_inv ((ws_docs ws)[s := Some (mark_saved d)]) (ws_views ws)" using inv(2) by (simp add: views_inv_fits)
  then show "ws_inv (ws\<lparr>ws_docs := (ws_docs ws)[s := Some (mark_saved d)]\<rparr>)" using sd(1,2) inv(3,5) by (simp add: ws_inv_def)
qed

lemma reload_undoable_ok:
  assumes "ws_inv ws"
  shows "\<exists>ok ws'. reload_undoable i bs ws = Some (ok, ws') \<and> ws_inv ws' \<and>
    (doc_is_live ws i \<longrightarrow> map_option d_text (find_doc (ws_docs ws') i) = Some bs) \<and>
    (\<forall>j. j \<noteq> i \<longrightarrow> find_doc (ws_docs ws') j = find_doc (ws_docs ws) j)"
proof (cases "find_doc (ws_docs ws) i")
  case None
  then show ?thesis using assms by (auto simp: reload_undoable_def ws_document_eq doc_is_live_def)
next
  case (Some d)
  obtain s where s: "doc_slot i = Some s" "s < length (ws_docs ws)" "ws_docs ws ! s = Some d" using Some by (auto simp: find_doc_Some)
  show ?thesis
  proof (cases "d_text d = bs")
    case True
    then show ?thesis using mark_saved_doc [OF assms Some s(1)] Some
      by (auto simp: reload_undoable_def ws_document_eq update_doc_eq [OF s])
  next
    case False
    obtain cur where cur: "focused_buffer ws = Some cur" by (rule focused_at [OF assms]) (blast intro: that)
    define run where "run = (if i = cur then with_focused (with_tracked (\<lambda>d ts. reload_tracked d bs ts)) ws
      else (case reload_tracked d bs [] of (ok, _, d') \<Rightarrow> Some (ok, ws_update_doc i (\<lambda>_. d') ws)))"
    have "\<exists>ok d' ws1. run = Some (ok, ws1) \<and> reloaded i s bs ws d' ws1"
    proof (cases "i = cur")
      case True
      then show ?thesis using reload_focused_run [OF assms Some s(1), of bs] cur by (simp add: run_def)
    next
      case notcur: False
      then show ?thesis using reload_other_run [OF assms Some s(1), of bs] by (auto simp: run_def)
    qed
    then obtain ok d' ws1 where r: "run = Some (ok, ws1)" "reloaded i s bs ws d' ws1" by blast
    have "find_doc (ws_docs ws) i \<noteq> None" using Some by simp
    note set = reloaded_settled [OF assms this s(1) r(2)]
    have "d_text d' = bs" using r(2) by (simp add: reloaded_def)
    moreover have "reload_undoable i bs ws = Some (ok, ws1\<lparr>ws_views := map (resettle i (d_text d')) (ws_views ws1)\<rparr>)"
      using Some False cur r(1) set(2) s by (simp add: reload_undoable_def ws_document_eq run_def get_at_def)
    ultimately show ?thesis using set(1,3) by simp
  qed
qed

end
