(* ===== verification/Workspace_Ops.thy ===== *)
theory Workspace_Ops
  imports Workspace_Buffers
begin

text \<open>
  The modelled operations of the workspace as one type, what the caller owes for each, and that each returns and keeps
  \<open>ws_inv\<close>; commands that leave the document alone change nothing but their view and the registers.
\<close>

section \<open>Options\<close>

lemma all_views_ok:
  assumes "ws_inv ws" "\<And>u. v_doc (f u) = v_doc u" "\<And>b u. view_inv b u \<Longrightarrow> view_inv b (f u)"
  shows "ws_inv (all_views f ws)"
proof -
  note inv = ws_invD [OF assms(1)]
  have "views_inv (ws_docs ws) (map (map_option f) (ws_views ws))"
    by (rule views_inv_map [OF inv(2)]) (use assms(2,3) in \<open>blast intro: view_fits_change\<close>)
  moreover have "layout_inv (map (map_option f) (ws_views ws)) (ws_windows ws) (ws_focus ws)"
    by (rule layout_inv_views [OF inv(3)]) (auto simp: slot_get_None)
  ultimately show ?thesis using inv by (simp add: all_views_def ws_inv_def)
qed

lemma update_options_inv [simp]: "v_doc (update_options f v) = v_doc v" "view_inv b (update_options f v) = view_inv b v"
  by (simp_all add: update_options_def)

lemma option_steps_ok:
  assumes "ws_inv ws"
  shows "ws_inv (set_default_search_case ig sm ws)" "ws_inv (ws_set_caret_gravity g ws)" "ws_inv (set_keep_jumps on ws)"
  using assms by (simp_all add: set_default_search_case_def ws_set_caret_gravity_def set_keep_jumps_def all_views_ok)

lemma on_focused_ok:
  assumes "ws_inv ws" "\<And>u. v_doc (f u) = v_doc u" "\<And>b u. view_inv b u \<Longrightarrow> view_inv b (f u)"
  shows "\<exists>ws'. on_window (ws_focus ws) f ws = Some ws' \<and> ws_inv ws'"
proof -
  have "ws_focus ws < length (ws_windows ws)" using ws_invD(3) [OF assms(1)] by (simp add: layout_inv_def)
  then show ?thesis using on_window_ok [OF assms(1), of "ws_focus ws" f] assms(2,3) by blast
qed

lemma focus_kept [simp]: "ws_focus (ws\<lparr>ws_defaults := os\<rparr>) = ws_focus ws" "ws_focus (ws\<lparr>ws_window_defaults := wo\<rparr>) = ws_focus ws"
  by simp_all

lemma set_option_ok: "ws_inv ws \<Longrightarrow> \<exists>ws'. set_option_in opt level ws = Some ws' \<and> ws_inv ws'"
  using on_focused_ok [of "ws\<lparr>ws_defaults := options_set opt (ws_defaults ws)\<rparr>" "update_options (options_set opt)"]
    on_focused_ok [of ws "update_options (options_set opt)"]
  by (auto simp: set_option_in_def all_views_ok Let_def)

lemma set_indent_ok: "ws_inv ws \<Longrightarrow> \<exists>ws'. ws_set_indent w style ws = Some ws' \<and> ws_inv ws'"
  using on_focused_ok [of "ws\<lparr>ws_defaults := options_set_indent w style (ws_defaults ws)\<rparr>" "update_options (options_set_indent w style)"]
  by (simp add: ws_set_indent_def)

lemma window_options_ok: "ws_inv ws \<Longrightarrow> \<exists>ws'. update_window_options level change ws = Some ws' \<and> ws_inv ws'"
  using on_focused_ok [of "ws\<lparr>ws_window_defaults := change (ws_window_defaults ws)\<rparr>" "\<lambda>v. v\<lparr>v_window := change (v_window v)\<rparr>"]
    on_focused_ok [of ws "\<lambda>v. v\<lparr>v_window := change (v_window v)\<rparr>"]
  by (auto simp: update_window_options_def Let_def)

section \<open>Commands that leave the document alone\<close>

lemma rested_same:
  assumes "view_inv b u"
  shows "rested b (pinned_of u) u = u"
proof -
  have "tracked_pos (map (\<lambda>t. t\<lparr>tk_restore := False\<rparr>) ts) = tracked_pos ts" for ts
    by (rule ext) (simp add: tracked_pos_def get_at_def)
  then have "untrack (map (\<lambda>t. t\<lparr>tk_restore := False\<rparr>) (view_tracked u)) u = u"
    using untrack_tracked [of u] assms by (simp add: untrack_def view_inv_def)
  moreover have "snap b (min (v_cursor u) (length b)) = v_cursor u"
    using snap_in_fixed [of b "v_cursor u"] assms by (simp add: snap_in_def view_inv_def)
  ultimately show ?thesis by (simp add: rested_def pinned_of_def or_zero_def)
qed

lemma carried_same:
  assumes "carried_views (=) i b vs vs'" "\<And>u. Some u \<in> set vs \<Longrightarrow> v_doc u = i \<Longrightarrow> view_inv b u"
  shows "vs' = vs"
proof (rule nth_equalityI)
  show "length vs' = length vs" using assms(1) by (simp add: carried_views_def)
  fix j assume "j < length vs'"
  then have j: "j < length vs" using assms(1) by (simp add: carried_views_def)
  show "vs' ! j = vs ! j"
  proof (cases "vs ! j")
    case None
    then show ?thesis using carried_views_None [OF assms(1) j] by simp
  next
    case (Some u)
    then have "Some u \<in> set vs" using j nth_mem by metis
    then show ?thesis using carried_viewsD [OF assms(1) j Some] assms(2) rested_same Some
      by (cases "v_doc u = i") (auto simp: list_all2_eq [symmetric])
  qed
qed

lemma quiet_command:
  assumes "ws_inv ws" "focused_vid ws = Some vid" "slot_get (ws_views ws) vid = Some v" "find_doc (ws_docs ws) (v_doc v) = Some d"
    and f: "f (lent vid v d ws) = (r, st')" and same: "es_doc st' = es_doc (lent vid v d ws)"
  shows "with_focused f ws = Some (r, ws\<lparr>ws_views := (ws_views ws)[vid := Some ((es_view st')\<lparr>v_registers := v_registers v\<rparr>)],
    ws_registers := v_registers (es_view st')\<rparr>)"
proof -
  note inv = ws_invD [OF assms(1)]
  obtain s where s: "doc_slot (v_doc v) = Some s" "s < length (ws_docs ws)" "ws_docs ws ! s = Some d" using assms(4) by (auto simp: find_doc_Some)
  have "list_all2 (=) (d_pinned (es_doc (lent vid v d ws))) (d_pinned (es_doc st'))" by (simp add: same list_all2_eq [symmetric])
  from with_view_result [where f = f and ws = ws and vid = vid, OF inv(1,2,5) assms(3,4) s(1) this f] obtain vs where
    c: "carried_views (=) (v_doc v) (d_text (es_doc st')) ((ws_views ws)[vid := None]) vs"
    and w: "with_view vid f ws = Some (r, ws\<lparr>ws_docs := (ws_docs ws)[s := Some ((es_doc st')\<lparr>d_pinned := []\<rparr>)],
      ws_views := vs[vid := Some ((es_view st')\<lparr>v_registers := v_registers v\<rparr>)], ws_registers := v_registers (es_view st')\<rparr>)"
    by blast
  have d: "d_pinned d = []" using docs_inv_find [OF inv(1) assms(4)] by simp
  have "view_inv (d_text d) u" if u: "Some u \<in> set ((ws_views ws)[vid := None])" "v_doc u = v_doc v" for u
  proof -
    have "Some u \<in> set (ws_views ws)" using u(1) set_update_subset_insert [of "ws_views ws" vid None] by auto
    then show ?thesis using inv(2) u(2) assms(4) by (auto simp: views_inv_fits view_fits_def)
  qed
  then have vs: "vs = (ws_views ws)[vid := None]" using carried_same c by (simp add: same lent_def)
  have "(es_doc st')\<lparr>d_pinned := []\<rparr> = d" using d by (simp add: same lent_def)
  then have "(ws_docs ws)[s := Some ((es_doc st')\<lparr>d_pinned := []\<rparr>)] = ws_docs ws" using s by (metis list_update_id)
  then show ?thesis using w vs by (simp add: with_focused_def assms(2))
qed

section \<open>Sequences of operations\<close>

text \<open>
  One entry per modelled operation of the workspace that changes its state.  Of the commands that run on the focused
  window through the lent view, the modelled ones are here: a batch of edits, placing the cursor, and the two register
  writes.  The commands of the planner (\<^verbatim>\<open>Workspace::apply\<close>, \<^verbatim>\<open>substitute\<close>, \<^verbatim>\<open>global\<close>, the line commands) are not.
\<close>

datatype ws_op =
    ApplyEdits "(nat \<times> nat \<times> bytes) list" transaction_origin | SetCursor nat
  | SetRegisterRaw reg_name bytes | SetSpecialRegisters "bytes option" "bytes option" "bytes option" "bytes option"
  | FocusNext | FocusPrev | FocusWindow nat | SplitWindow split_dir | CloseFocused | Only
  | SetTop nat nat | SetTextCols nat nat | SetLeftcol nat nat | SetSkipcol nat nat | SetScroll nat nat nat
  | SetScrolloff "int option" | PushJump nat | PlaceCursor nat | MarkOnLine sub_range nat
  | AddBuffer bytes "nat list option" | FocusBuffer u64 | CycleBuffer bool | RemoveBuffer u64
  | SetAlternate "u64 option" | SetBufferName u64 "nat list" | SetFocusedName "nat list" | ClearFocusedName
  | ReloadFocused bytes | ReloadUndoable u64 bytes
  | SearchCase bool bool | CaretGravity caret_gravity | KeepJumps bool | SetIndent nat indent_style
  | SetOption editor_option option_level | WindowOptions option_level "window_options \<Rightarrow> window_options"
  | AlternateRegister "bytes option" | TakeBeep | Beep | SetOrigin transaction_origin

fun run_op :: "ws_op \<Rightarrow> workspace \<Rightarrow> workspace option" where
  "run_op (ApplyEdits es o1) ws = map_option snd (ws_apply_edits es o1 ws)"
| "run_op (SetCursor p) ws = map_option snd (set_focused_cursor p ws)"
| "run_op (SetRegisterRaw n bs) ws = map_option snd (ws_set_register_raw n bs ws)"
| "run_op (SetSpecialRegisters a b c d) ws = map_option snd (ws_set_special_registers a b c d ws)"
| "run_op FocusNext ws = Some (focus_next ws)"
| "run_op FocusPrev ws = Some (focus_prev ws)"
| "run_op (FocusWindow i) ws = Some (focus_window i ws)"
| "run_op (SplitWindow dir) ws = map_option snd (ws_split_window dir ws)"
| "run_op CloseFocused ws = map_option snd (close_focused ws)"
| "run_op Only ws = map_option snd (only ws)"
| "run_op (SetTop i n) ws = ws_set_top i n ws"
| "run_op (SetTextCols i n) ws = ws_set_text_cols i n ws"
| "run_op (SetLeftcol i n) ws = ws_set_leftcol i n ws"
| "run_op (SetSkipcol i n) ws = ws_set_skipcol i n ws"
| "run_op (SetScroll i n h) ws = ws_set_scroll i n h ws"
| "run_op (SetScrolloff so) ws = set_focused_scrolloff so ws"
| "run_op (PushJump p) ws = push_focused_jump p ws"
| "run_op (PlaceCursor p) ws = place_focused_cursor p ws"
| "run_op (MarkOnLine rg c) ws = set_mark_on_line rg c ws"
| "run_op (AddBuffer bs n) ws = Some (snd (add_buffer bs n ws))"
| "run_op (FocusBuffer i) ws = map_option snd (focus_buffer i ws)"
| "run_op (CycleBuffer fw) ws = cycle_buffer fw ws"
| "run_op (RemoveBuffer i) ws = map_option snd (remove_buffer i ws)"
| "run_op (SetAlternate i) ws = Some (ws_set_alternate i ws)"
| "run_op (SetBufferName i n) ws = set_buffer_name i n ws"
| "run_op (SetFocusedName n) ws = set_focused_buffer_name n ws"
| "run_op ClearFocusedName ws = clear_focused_buffer_name ws"
| "run_op (ReloadFocused bs) ws = reload_focused bs ws"
| "run_op (ReloadUndoable i bs) ws = map_option snd (reload_undoable i bs ws)"
| "run_op (SearchCase ig sm) ws = Some (set_default_search_case ig sm ws)"
| "run_op (CaretGravity g) ws = Some (ws_set_caret_gravity g ws)"
| "run_op (KeepJumps on) ws = Some (set_keep_jumps on ws)"
| "run_op (SetIndent w st) ws = ws_set_indent w st ws"
| "run_op (SetOption o1 l) ws = set_option_in o1 l ws"
| "run_op (WindowOptions l f) ws = update_window_options l f ws"
| "run_op (AlternateRegister n) ws = Some (ws_set_alternate_register n ws)"
| "run_op TakeBeep ws = Some (snd (take_beep ws))"
| "run_op Beep ws = Some (ws_beep ws)"
| "run_op (SetOrigin o1) ws = Some (ws_set_origin o1 ws)"

text \<open>
  What the caller owes: a window index in range, an offset on a boundary of the focused text, an alternate that is
  live, an id that was issued, room for one more document id; and, for a change of the text, that the other views of
  the buffer hold no position of a running command.
\<close>

definition focus_idle :: "workspace \<Rightarrow> bool" where
  "focus_idle ws \<longleftrightarrow> (case focused_vid ws of None \<Rightarrow> True | Some vid \<Rightarrow> others_idle vid ws)"

definition in_focus :: "workspace \<Rightarrow> nat \<Rightarrow> bool" where
  "in_focus ws p \<longleftrightarrow> (case focused_doc ws of None \<Rightarrow> True | Some d \<Rightarrow> spot (d_text d) p)"

fun op_ok :: "ws_op \<Rightarrow> workspace \<Rightarrow> bool" where
  "op_ok (ApplyEdits es o1) ws = focus_idle ws"
| "op_ok (SetTop i n) ws = (i < length (ws_windows ws))"
| "op_ok (SetTextCols i n) ws = (i < length (ws_windows ws))"
| "op_ok (SetLeftcol i n) ws = (i < length (ws_windows ws))"
| "op_ok (SetSkipcol i n) ws = (i < length (ws_windows ws))"
| "op_ok (SetScroll i n h) ws = (i < length (ws_windows ws))"
| "op_ok (PushJump p) ws = in_focus ws p"
| "op_ok (PlaceCursor p) ws = in_focus ws p"
| "op_ok (AddBuffer bs n) ws = (length (ws_docs ws) + 1 < 2 ^ 64)"
| "op_ok (RemoveBuffer i) ws = (length (ws_docs ws) + 1 < 2 ^ 64)"
| "op_ok (SetAlternate i) ws = (case i of None \<Rightarrow> True | Some a \<Rightarrow> doc_is_live ws a)"
| "op_ok (SetBufferName i n) ws = (i \<noteq> 0)"
| "op_ok _ ws = True"

lemma set_cursor_text [simp]: "es_doc (editor_set_cursor p st) = es_doc st"
  by (simp add: editor_set_cursor_def on_view_def Let_def)

lemma on_registers_text [simp]: "es_doc (snd (on_registers g st)) = es_doc st"
  by (simp add: on_registers_def on_view_def)

lemma focused_command:
  assumes "ws_inv ws" "command f" "focus_idle ws \<or> (\<forall>st. d_text (es_doc (snd (f st))) = d_text (es_doc st))"
  shows "\<exists>ws'. map_option snd (with_focused f ws) = Some ws' \<and> ws_inv ws'"
proof -
  have "others_idle vid ws \<or> (\<forall>st. d_text (es_doc (snd (f st))) = d_text (es_doc st))" if "focused_vid ws = Some vid" for vid
    using assms(3) that by (auto simp: focus_idle_def)
  from with_focused_ok [OF assms(1,2) this] show ?thesis by auto
qed

lemma window_setting:
  assumes "ws_inv ws" "k < length (ws_windows ws)" "\<And>u. v_doc (f u) = v_doc u" "\<And>b u. view_inv b u \<Longrightarrow> view_inv b (f u)"
  shows "\<exists>ws'. on_window k f ws = Some ws' \<and> ws_inv ws'"
  using on_window_ok [OF assms(1,2), of f] assms(3,4) by blast

lemma focused_doc_view:
  assumes "ws_inv ws" "focused_doc ws = Some d" "ws_views ws ! (ws_windows ws ! ws_focus ws) = Some u" "find_doc (ws_docs ws) (v_doc u) = Some e"
  shows "e = d"
proof -
  obtain v d' where "ws_views ws ! (ws_windows ws ! ws_focus ws) = Some v" "focused_doc ws = Some d'" "find_doc (ws_docs ws) (v_doc v) = Some d'"
    by (rule focused_at [OF assms(1)]) (blast intro: that)
  then show ?thesis using assms(2-4) by simp
qed

lemma push_jump_doc [simp]: "v_doc (push_jump p v) = v_doc v"
  by (simp add: push_jump_def Let_def)

lemma push_focused_jump_ok:
  assumes "ws_inv ws" "in_focus ws p"
  shows "\<exists>ws'. push_focused_jump p ws = Some ws' \<and> ws_inv ws'"
proof -
  obtain d where d: "focused_doc ws = Some d" "ws_focus ws < length (ws_windows ws)" by (rule focused_at [OF assms(1)]) (blast intro: that)
  have "spot (d_text d) p" using assms(2) d(1) by (simp add: in_focus_def)
  then show ?thesis
    using on_window_ok [OF assms(1) d(2), of "push_jump p"] focused_doc_view [OF assms(1) d(1)] push_jump_inv
    unfolding push_focused_jump_def by (metis push_jump_doc)
qed

lemma set_named_mark_ok: "view_inv b v \<Longrightarrow> spot b p \<Longrightarrow> view_inv b (set_named_mark c p v) \<and> v_doc (set_named_mark c p v) = v_doc v"
  by (auto simp: set_named_mark_def view_inv_def marks_ok_def session_ok_def lists_ok_def list_all_iff
      dest!: subsetD [OF set_update_subset_insert] split: option.splits)

lemma set_mark_on_line_ok:
  assumes "ws_inv ws"
  shows "\<exists>ws'. set_mark_on_line rg c ws = Some ws' \<and> ws_inv ws'"
proof -
  obtain d where d: "focused_doc ws = Some d" "ws_focus ws < length (ws_windows ws)" by (rule focused_at [OF assms(1)]) (blast intro: that)
  let ?f = "\<lambda>v. set_named_mark c (nth_line_start (d_text d) (mark_line rg (d_text d) (v_cursor v))) v"
  have "\<exists>ws'. on_window (ws_focus ws) ?f ws = Some ws' \<and> ws_inv ws' \<and> ws_docs ws' = ws_docs ws \<and> ws_windows ws' = ws_windows ws \<and> ws_focus ws' = ws_focus ws"
  proof (rule on_window_ok [OF assms d(2)])
    fix u e assume "find_doc (ws_docs ws) (v_doc u) = Some e" "ws_views ws ! (ws_windows ws ! ws_focus ws) = Some u" "view_inv (d_text e) u"
    then show "v_doc (?f u) = v_doc u \<and> view_inv (d_text e) (?f u)"
      using focused_doc_view [OF assms d(1)] set_named_mark_ok line_start_spot by blast
  qed
  then show ?thesis using d(1) by (auto simp: set_mark_on_line_def)
qed

lemma run_op_ok:
  assumes "ws_inv ws" "op_ok op ws"
  shows "\<exists>ws'. run_op op ws = Some ws' \<and> ws_inv ws'"
proof -
  note ok = assms(1)
  have f: "ws_focus ws < length (ws_windows ws)" using ws_invD(3) [OF ok] by (simp add: layout_inv_def)
  note win = window_setting [OF ok]
  show ?thesis
  proof (cases op)
    case (ApplyEdits es o1)
    then show ?thesis using focused_command [OF ok edits_command.command_axioms] assms(2) by (simp add: ws_apply_edits_def)
  next
    case (SetCursor p)
    then show ?thesis using focused_command [OF ok cursor_command.command_axioms] by (simp add: set_focused_cursor_def)
  next
    case (SetRegisterRaw n bs)
    then show ?thesis using focused_command [OF ok registers_command.command_axioms] by (simp add: ws_set_register_raw_def)
  next
    case (SetSpecialRegisters a b c d)
    then show ?thesis using focused_command [OF ok registers_command.command_axioms] by (simp add: ws_set_special_registers_def)
  next
    case (SplitWindow dir)
    then show ?thesis using split_ok [OF ok, of dir] by auto
  next
    case CloseFocused
    then show ?thesis using close_focused_ok [OF ok] by auto
  next
    case Only
    then show ?thesis using only_ok [OF ok] by auto
  next
    case (PushJump p)
    then show ?thesis using push_focused_jump_ok [OF ok] assms(2) by simp
  next
    case (PlaceCursor p)
    then have "spot (d_text d) (min p (length (d_text d)))" if "focused_doc ws = Some d" for d
      using assms(2) that by (simp add: in_focus_def spot_def min_absorb1)
    then show ?thesis using place_cursor_ok [OF ok, of p] PlaceCursor by auto
  next
    case (AddBuffer bs n)
    then show ?thesis using add_buffer_ok [OF ok, of bs n] assms(2) by auto
  next
    case (FocusBuffer i)
    then show ?thesis using focus_buffer_ok [OF ok, of i] by auto
  next
    case (CycleBuffer fw)
    obtain k where "focused_buffer ws = Some (ws_order ws ! k)" "k < length (ws_order ws)" by (rule focused_in_order [OF ok])
    from cycle_buffer_ok [OF ok this, of fw] show ?thesis using CycleBuffer by auto
  next
    case (RemoveBuffer i)
    then have "length (ws_docs ws) + 1 < 2 ^ 64" using assms(2) by simp
    from remove_buffer_ok [OF ok this, of i] show ?thesis using RemoveBuffer by auto
  next
    case (SetAlternate i)
    then show ?thesis using set_alternate_ok [OF ok, of i] assms(2) by (auto split: option.splits)
  next
    case (ReloadFocused bs)
    then show ?thesis using reload_focused_ok [OF ok, of bs] by auto
  next
    case (ReloadUndoable i bs)
    then show ?thesis using reload_undoable_ok [OF ok, of i bs] by auto
  qed (use ok f assms(2) win focus_moves_ok set_buffer_name_ok set_focused_name_ok option_steps_ok set_indent_ok set_option_ok
      window_options_ok set_mark_on_line_ok in
      \<open>simp_all add: ws_set_top_def ws_set_text_cols_def ws_set_leftcol_def ws_set_skipcol_def ws_set_scroll_def
        set_focused_scrolloff_def set_focused_buffer_name_def clear_focused_buffer_name_def ws_set_alternate_register_def
        take_beep_def ws_beep_def ws_set_origin_def\<close>)
qed

fun run_ops :: "ws_op list \<Rightarrow> workspace \<Rightarrow> workspace option" where
  "run_ops [] ws = Some ws"
| "run_ops (op # ops) ws = do { ws' \<leftarrow> run_op op ws; run_ops ops ws' }"

fun ops_ok :: "ws_op list \<Rightarrow> workspace \<Rightarrow> bool" where
  "ops_ok [] ws = True"
| "ops_ok (op # ops) ws = (op_ok op ws \<and> (case run_op op ws of None \<Rightarrow> True | Some ws' \<Rightarrow> ops_ok ops ws'))"

lemma run_ops_ok: "ws_inv ws \<Longrightarrow> ops_ok ops ws \<Longrightarrow> \<exists>ws'. run_ops ops ws = Some ws' \<and> ws_inv ws'"
proof (induction ops arbitrary: ws)
  case (Cons op ops)
  from Cons.prems run_op_ok [of ws op] obtain ws1 where "run_op op ws = Some ws1" "ws_inv ws1" by auto
  then show ?case using Cons by auto
qed simp

lemma doc_key_0 [simp]: "doc_key 0 = 1"
  by (simp add: doc_key_def)

lemma find_doc_Nil [simp]: "find_doc [] j = None"
  by (cases "doc_slot j") (simp_all add: find_doc_def slot_get_None)

lemma ws_new_inv: "ws_inv (ws_new b)"
proof -
  let ?d = "mark_saved (document_new 1 b)" and ?v = "es_view (editor_new b)"
  have d: "doc_ok ?d" "d_id ?d = 1" "d_pinned ?d = []" "d_text ?d = b" by (simp_all add: document_new_def fresh_doc_ok)
  have ed: "es_doc (editor_new b) = ?d" by (simp add: editor_new_def on_view_def Let_def)
  have vd: "v_doc ?v = 1" "view_inv b ?v"
    by (simp_all add: editor_new_def on_view_def Let_def d(2) view_fresh_inv) (simp add: view_fresh_def)
  have o: "ws_views (ws_new b) = [Some ?v]" "ws_docs (ws_new b) = [Some ?d]" "ws_order (ws_new b) = [1]" "ws_names (ws_new b) = [None]"
    "ws_alt (ws_new b) = None" "ws_windows (ws_new b) = [0]" "ws_focus (ws_new b) = 0" "ws_pins (ws_new b) = []"
    by (simp_all add: ws_new_def Let_def ed d(2))
  have fd: "find_doc [Some ?d] j = (if j = 1 then Some ?d else None)" for j
    using find_doc_append [of "[]" "Some ?d" j] by simp
  have di: "docs_inv [Some ?d]" using d by (simp add: docs_inv_def nth_Cons split: nat.splits)
  have vi: "views_inv [Some ?d] [Some ?v]" using d(4) vd by (simp add: views_inv_fits view_fits_def fd)
  have li: "layout_inv [Some ?v] [0] 0" by (simp add: layout_inv_def)
  have oi: "order_inv [Some ?d] [None] [1] None" by (simp add: order_inv_def fd)
  show ?thesis using di vi li oi by (simp add: ws_inv_def o)
qed

lemma editor_new_view [simp]: "v_doc (es_view (editor_new b)) = 1" "session_free (es_view (editor_new b))"
  by (simp_all add: editor_new_def on_view_def Let_def document_new_def fresh_doc_ok) (simp_all add: view_fresh_def session_free_def)

lemma ws_new_sel [simp]:
  "ws_views (ws_new b) = [Some (es_view (editor_new b))]" "ws_windows (ws_new b) = [0]" "ws_focus (ws_new b) = 0"
  "length (ws_docs (ws_new b)) = 1" "ws_registers (ws_new b) = registers_new"
  by (simp_all add: ws_new_def Let_def)

lemma ws_new_live [simp]: "doc_is_live (ws_new b) 1"
  by (simp add: doc_is_live_def ws_document_def doc_slot_def slot_get_def get_at_def ws_new_def Let_def)

end
