(* ===== verification/Workspace_Laws.thy ===== *)
theory Workspace_Laws
  imports Workspace_Ops
begin

text \<open>
  What the workspace as a whole promises: no sequence of the modelled operations panics or breaks the source's own invariant
  walker; what a command touches is exactly what it was lent; the windows of an edited buffer follow the edit; a
  removed buffer is gone and no other document changes; the buffer walk reaches every buffer.
\<close>

section \<open>Safety\<close>

text \<open>
  C3: the workspace's own operations never panic and never break its invariants.  From a fresh workspace, whatever
  operations of \<open>ws_op\<close> follow in whatever order (batches of edits, the cursor and the registers of the focused window;
  splitting, closing and focusing windows; window settings; adding, focusing, walking, reloading and removing buffers;
  jumps, marks, names and options), no index is out of range, no \<^verbatim>\<open>expect\<close> fails, and
  \<^verbatim>\<open>Workspace::assert_invariants\<close> holds at the end.  The planner's commands are not among them.  The caller owes what
  \<open>op_ok\<close> says: a window index in range for a window setting, a position on a boundary of the focused text for a jump or a
  placed cursor, a live alternate, an id other than zero for a name, room for one more 64-bit document id when a buffer
  is added or removed, and, for a batch of edits, that no other view of the buffer holds a selection anchor, an Emacs mark
  or the start of an insertion, since those are not carried.\<close>

theorem workspace_never_panics:
  assumes "ops_ok ops (ws_new b)"
  shows "\<exists>ws. run_ops ops (ws_new b) = Some ws \<and> ws_assert_invariants ws"
  using run_ops_ok [OF ws_new_inv assms] ws_inv_asserts by blast

theorem workspace_never_panics_witness:
  "\<exists>ws. run_ops [AddBuffer [97] None, ApplyEdits [(0, 1, [98])] UserInput, FocusBuffer 2, SplitWindow Horizontal, CycleBuffer True,
      CloseFocused, ReloadFocused [99]] (ws_new [104, 105]) = Some ws \<and> ws_assert_invariants ws"
proof (rule workspace_never_panics)
  have "focus_idle (snd (add_buffer [97] None (ws_new [104, 105])))"
    by (auto simp: focus_idle_def others_idle_def add_buffer_def push_view_def focused_vid_def get_at_def view_fresh_def session_free_def Let_def
        nth_Cons split: nat.splits)
  moreover have "length (ws_docs (ws_new [104, 105])) = 1" by simp
  ultimately show "ops_ok [AddBuffer [97] None, ApplyEdits [(0, 1, [98])] UserInput, FocusBuffer 2, SplitWindow Horizontal, CycleBuffer True,
      CloseFocused, ReloadFocused [99]] (ws_new [104, 105])"
    by (simp split: option.split)
qed

section \<open>The register store\<close>

text \<open>
  C11: lending the registers is exact.  A command that only writes a register changes the shared store by exactly that
  write and nothing else of the workspace: the view lent gets its own store back, and every pinned position of the other
  views is read back where it was.\<close>

theorem registers_lent_exactly:
  assumes "ws_inv ws"
  shows "ws_set_register_raw name bs ws = Some ((), ws\<lparr>ws_registers := set_macro (ws_registers ws) name (charwise bs)\<rparr>) \<and>
    ws_set_special_registers search ex inserted file ws =
      Some ((), ws\<lparr>ws_registers := set_special (ws_registers ws) search ex inserted file\<rparr>)"
proof -
  have "with_focused (on_registers g) ws = Some ((), ws\<lparr>ws_registers := g (ws_registers ws)\<rparr>)" for g
  proof -
    obtain vid v d where v: "focused_vid ws = Some vid" "vid < length (ws_views ws)" "ws_views ws ! vid = Some v" "find_doc (ws_docs ws) (v_doc v) = Some d"
      by (rule focused_at [OF assms]) (blast intro: that)
    let ?st = "lent vid v d ws"
    have "on_registers g ?st = ((), on_view (\<lambda>v. v\<lparr>v_registers := g (v_registers v)\<rparr>) ?st)" by (simp add: on_registers_def)
    from quiet_command [where f = "on_registers g" and ws = ws, OF assms v(1) _ v(4) this] v have
      "with_focused (on_registers g) ws = Some ((), ws\<lparr>ws_views := (ws_views ws)[vid := Some v], ws_registers := g (ws_registers ws)\<rparr>)"
      by (simp add: on_view_def lent_def)
    moreover have "(ws_views ws)[vid := Some v] = ws_views ws" using v(2,3) by (metis list_update_id)
    ultimately show ?thesis by simp
  qed
  then show ?thesis by (simp add: ws_set_register_raw_def ws_set_special_registers_def)
qed

theorem registers_lent_exactly_witness:
  "ws_set_register_raw (Some 97) [104] (ws_new [105]) =
     Some ((), (ws_new [105])\<lparr>ws_registers := set_macro registers_new (Some 97) (charwise [104])\<rparr>)"
  using registers_lent_exactly [OF ws_new_inv, where name = "Some 97" and bs = "[104]"] by simp

section \<open>Edits seen from the other windows\<close>

lemma apply_edits_pinned:
  assumes "editor_apply_edits edits origin st = (True, st')"
  shows "\<exists>es. edit_list_new (map (\<lambda>(s, e, t). edit_replace s (e - s) t) edits) = Inr es \<and>
    d_text (es_doc st') = apply_to es (d_text (es_doc st)) \<and>
    d_pinned (es_doc st') = (if es = [] then d_pinned (es_doc st)
      else map (\<lambda>t. tracked_apply t es (line_map_new (d_text (es_doc st)) (d_text (es_doc st')) es)) (d_pinned (es_doc st)))"
  using assms
proof (cases rule: apply_edits_cases)
  case (applied es r st1)
  let ?txn = "with_hint (transaction_new (d_revision (es_doc st)) es origin) BreakBefore"
  have doc: "es_doc st' = es_doc st1" by (simp add: applied(6) settle_offsets_def on_view_def Let_def)
  obtain ts where t: "apply_inner (es_doc st) ?txn True (view_tracked (es_view st)) = (Inr r, ts, es_doc st1)"
    using applied(4) by (auto simp: editor_apply_txn_def with_tracked_def apply_tracked_def split: prod.splits)
  have te: "t_edits ?txn = es" by (simp add: with_hint_def transaction_new_def)
  have wf: "edits_wf (t_edits ?txn)" using edit_list_new_wf [OF applied(3)] by (simp add: te)
  from wf t have "d_pinned (es_doc st1) = (if es = [] then d_pinned (es_doc st)
      else map (\<lambda>t. tracked_apply t es (line_map_new (d_text (es_doc st)) (d_text (es_doc st1)) es)) (d_pinned (es_doc st)))"
  proof (cases rule: apply_inner_cases)
    case committed
    then show ?thesis using commit_tracks(3) [of "es_doc st" ?txn True] te by fastforce
  qed (use te in auto)
  then show ?thesis using applied(3,5) by (simp add: doc)
qed simp_all

definition cursor_follows :: "edit_list \<Rightarrow> bytes \<Rightarrow> bytes \<Rightarrow> nat \<Rightarrow> nat" where
  "cursor_follows es b b' c = (if es = [] then c else snap_in b' (or_zero (map_offset (line_map_new b b' es) c Cursor)))"

lemma rested_cursor:
  assumes "list_all2 (\<lambda>t t'. t' = (if es = [] then t else tracked_apply t es (line_map_new b b' es))) (pinned_of u) q"
    and "es = [] \<Longrightarrow> spot b' (v_cursor u)"
  shows "v_cursor (rested b' q u) = cursor_follows es b b' (v_cursor u)"
proof -
  obtain q1 t where q: "q = q1 @ [t]"
    "t = (if es = [] then (tracked_line (Some (v_cursor u)) Cursor)\<lparr>tk_restore := False\<rparr>
      else tracked_apply ((tracked_line (Some (v_cursor u)) Cursor)\<lparr>tk_restore := False\<rparr>) es (line_map_new b b' es))"
    using assms(1) by (auto simp: pinned_of_def list_all2_append1 list_all2_Cons1)
  show ?thesis
  proof (cases "es = []")
    case True
    then show ?thesis using q assms(2) snap_in_fixed [of b' "v_cursor u"] by (simp add: rested_def cursor_follows_def snap_in_def or_zero_def)
  next
    case False
    then have "tk_pos t = map_offset (line_map_new b b' es) (v_cursor u) Cursor"
      using q(2) by (simp add: tracked_apply_def tracked_line_def)
    then show ?thesis using False q(1) by (simp add: rested_def cursor_follows_def snap_in_def)
  qed
qed

lemma apply_edits_run:
  assumes "ws_inv ws" "focused_vid ws = Some vid" "slot_get (ws_views ws) vid = Some v" "find_doc (ws_docs ws) (v_doc v) = Some d"
    and "\<not> edits_refused (d_text d) edits" "edit_list_new (map (\<lambda>(s, e, t). edit_replace s (e - s) t) edits) = Inr es"
  shows "\<exists>ws' d'. ws_apply_edits edits origin ws = Some (True, ws') \<and> ws_document ws' (v_doc v) = Some d' \<and> d_text d' = apply_to es (d_text d)"
proof -
  note inv = ws_invD [OF assms(1)]
  obtain s where s: "doc_slot (v_doc v) = Some s" "s < length (ws_docs ws)" using assms(4) by (auto simp: find_doc_Some)
  let ?f = "editor_apply_edits edits origin" and ?st = "lent vid v d ws"
  have tx: "d_text (es_doc ?st) = d_text d" by (simp add: lent_def)
  obtain ok st' where f: "?f ?st = (ok, st')" by (cases "?f ?st")
  then have ok: "ok" using assms(5,6) by (auto elim!: apply_edits_cases simp: tx)
  with f have f1: "?f ?st = (True, st')" by simp
  have st: "d_text (es_doc st') = apply_to es (d_text d)" using apply_edits_pinned [OF f1] assms(6) tx by auto
  have "editor_keeps ?st st'" using edits_command.run_keeps [OF lent_ok [OF inv(1,2) assms(3,4)], of edits origin] f by simp
  then have k: "carries (d_text d) (d_text (es_doc st')) (d_pinned (es_doc ?st)) (d_pinned (es_doc st'))" by (simp add: editor_keeps_def tx)
  from with_view_result [where f = ?f and ws = ws and vid = vid, OF inv(1,2,5) assms(3,4) s(1) k f1] obtain vs where
    "with_view vid ?f ws = Some (True, ws\<lparr>ws_docs := (ws_docs ws)[s := Some ((es_doc st')\<lparr>d_pinned := []\<rparr>)],
      ws_views := vs[vid := Some ((es_view st')\<lparr>v_registers := v_registers v\<rparr>)], ws_registers := v_registers (es_view st')\<rparr>)" by blast
  then show ?thesis using find_doc_update [OF s] st assms(2) by (simp add: ws_apply_edits_def with_focused_def ws_document_eq)
qed

text \<open>
  C4: a batch of edits through the focused window is all or nothing, and every other window follows it.  Refused (an
  empty or oversized batch, a range out of order, out of the text or inside a character, two edits that overlap), it
  leaves the whole workspace as it was.  Applied, the buffer's text is the edit list applied; no other document
  changes; the views of other buffers are untouched; and the cursor of every other view of the buffer is where the
  edits carry its position, on a character boundary of the new text.\<close>

theorem windows_follow_edit:
  assumes "ws_inv ws" "focused_vid ws = Some vid" "focused_buffer ws = Some i" "ws_document ws i = Some d"
    and "ws_apply_edits edits origin ws = Some (ok, ws')"
  shows "if ok then
      \<exists>es d'. edit_list_new (map (\<lambda>(s, e, t). edit_replace s (e - s) t) edits) = Inr es \<and> \<not> edits_refused (d_text d) edits \<and>
        ws_document ws' i = Some d' \<and> d_text d' = apply_to es (d_text d) \<and> (\<forall>j. j \<noteq> i \<longrightarrow> ws_document ws' j = ws_document ws j) \<and>
        (\<forall>w u. w \<noteq> vid \<and> slot_get (ws_views ws) w = Some u \<longrightarrow>
          (\<exists>u'. slot_get (ws_views ws') w = Some u' \<and>
            (if v_doc u = i then v_cursor u' = cursor_follows es (d_text d) (d_text d') (v_cursor u) else u' = u)))
    else ws' = ws \<and> (edits_refused (d_text d) edits \<or> isl (edit_list_new (map (\<lambda>(s, e, t). edit_replace s (e - s) t) edits)))"
proof -
  note inv = ws_invD [OF assms(1)]
  obtain v where v: "vid < length (ws_views ws)" "ws_views ws ! vid = Some v" "v_doc v = i"
    by (rule focused_at [OF assms(1)]) (use assms(2,3) that in simp)
  have vg: "slot_get (ws_views ws) vid = Some v" "find_doc (ws_docs ws) (v_doc v) = Some d" using v assms(4) by (simp_all add: ws_document_eq)
  obtain s where s: "doc_slot (v_doc v) = Some s" "s < length (ws_docs ws)" using vg(2) by (auto simp: find_doc_Some)
  let ?st = "lent vid v d ws" and ?f = "editor_apply_edits edits origin"
  obtain ok' st' where f: "?f ?st = (ok', st')" by (cases "?f ?st")
  have tx: "d_text (es_doc ?st) = d_text d" by (simp add: lent_def)
  show ?thesis
  proof (cases ok')
    case False
    with f have st: "st' = ?st" and why: "edits_refused (d_text d) edits \<or> isl (edit_list_new (map (\<lambda>(s, e, t). edit_replace s (e - s) t) edits))"
      by (auto elim!: apply_edits_cases simp: tx)
    have "(es_view ?st)\<lparr>v_registers := v_registers v\<rparr> = v" "v_registers (es_view ?st) = ws_registers ws" by (simp_all add: lent_def)
    then have "with_focused ?f ws = Some (ok', ws\<lparr>ws_views := (ws_views ws)[vid := Some v]\<rparr>)"
      using quiet_command [where f = ?f and ws = ws, OF assms(1,2) vg f] st by simp
    moreover have "(ws_views ws)[vid := Some v] = ws_views ws" using v(1,2) by (metis list_update_id)
    ultimately have "ok = ok'" "ws' = ws" using assms(5) by (simp_all add: ws_apply_edits_def)
    then show ?thesis using False why by simp
  next
    case True
    have f1: "?f ?st = (True, st')" using f True by simp
    from apply_edits_pinned [OF f1] tx obtain es where
      es: "edit_list_new (map (\<lambda>(s, e, t). edit_replace s (e - s) t) edits) = Inr es" "d_text (es_doc st') = apply_to es (d_text d)"
        "d_pinned (es_doc st') = (if es = [] then d_pinned (es_doc ?st)
          else map (\<lambda>t. tracked_apply t es (line_map_new (d_text d) (d_text (es_doc st')) es)) (d_pinned (es_doc ?st)))"
      by auto
    have ref: "\<not> edits_refused (d_text d) edits" using f True by (auto elim!: apply_edits_cases simp: tx)
    let ?P = "\<lambda>t t'. t' = (if es = [] then t else tracked_apply t es (line_map_new (d_text d) (d_text (es_doc st')) es))"
    have "list_all2 ?P (d_pinned (es_doc ?st)) (d_pinned (es_doc st'))" by (simp add: es(3) list_all2_conv_all_nth)
    from with_view_result [where f = ?f and ws = ws and vid = vid, OF inv(1,2,5) vg s(1) this f] obtain vs where
      c: "carried_views ?P (v_doc v) (d_text (es_doc st')) ((ws_views ws)[vid := None]) vs"
      and w: "with_view vid ?f ws = Some (ok', ws\<lparr>ws_docs := (ws_docs ws)[s := Some ((es_doc st')\<lparr>d_pinned := []\<rparr>)],
        ws_views := vs[vid := Some ((es_view st')\<lparr>v_registers := v_registers v\<rparr>)], ws_registers := v_registers (es_view st')\<rparr>)"
      by blast
    have ws': "ok = ok'" "ws_docs ws' = (ws_docs ws)[s := Some ((es_doc st')\<lparr>d_pinned := []\<rparr>)]"
      "ws_views ws' = vs[vid := Some ((es_view st')\<lparr>v_registers := v_registers v\<rparr>)]"
      using assms(2,5) w by (auto simp: ws_apply_edits_def with_focused_def)
    have fd: "find_doc (ws_docs ws') j = (if j = v_doc v then Some ((es_doc st')\<lparr>d_pinned := []\<rparr>) else find_doc (ws_docs ws) j)" for j
      unfolding ws'(2) by (rule find_doc_update [OF s])
    have others: "\<exists>u'. slot_get (ws_views ws') w = Some u' \<and>
        (if v_doc u = i then v_cursor u' = cursor_follows es (d_text d) (d_text (es_doc st')) (v_cursor u) else u' = u)"
      if u: "w \<noteq> vid" "slot_get (ws_views ws) w = Some u" for w u
    proof -
      have at: "w < length ((ws_views ws)[vid := None])" "(ws_views ws)[vid := None] ! w = Some u" using u by simp_all
      have len: "length vs = length (ws_views ws)" using c by (simp add: carried_views_def)
      show ?thesis
      proof (cases "v_doc u = i")
        case True
        then obtain q where q: "list_all2 ?P (pinned_of u) q" "vs ! w = Some (rested (d_text (es_doc st')) q u)"
          using carried_viewsD(1) [OF c at] v(3) by auto
        have "view_inv (d_text d) u" using views_invD [OF inv(2) u(2)] True vg(2) v(3) by simp
        then have "es = [] \<Longrightarrow> spot (d_text (es_doc st')) (v_cursor u)" using es(2) by (simp add: view_inv_def)
        from rested_cursor [OF q(1) this] show ?thesis using True q(2) u len by (simp add: ws'(3))
      next
        case False
        then show ?thesis using carried_viewsD(2) [OF c at] v(3) u len by (simp add: ws'(3))
      qed
    qed
    have "ok" using True ws'(1) by simp
    then show ?thesis
      unfolding if_P [OF \<open>ok\<close>]
    proof (intro exI [of _ es] exI [of _ "(es_doc st')\<lparr>d_pinned := []\<rparr>"] conjI allI impI)
      fix w u assume a: "w \<noteq> vid \<and> slot_get (ws_views ws) w = Some u"
      have dt: "d_text ((es_doc st')\<lparr>d_pinned := []\<rparr>) = d_text (es_doc st')" by simp
      show "\<exists>u'. slot_get (ws_views ws') w = Some u' \<and>
          (if v_doc u = i then v_cursor u' = cursor_follows es (d_text d) (d_text ((es_doc st')\<lparr>d_pinned := []\<rparr>)) (v_cursor u) else u' = u)"
        unfolding dt by (rule others [OF conjunct1 [OF a] conjunct2 [OF a]])
    qed (use es(1,2) ref fd v(3) in \<open>simp_all add: ws_document_eq\<close>)
  qed
qed

section \<open>Removing a buffer\<close>

text \<open>
  C9: removing a live buffer removes that document and no other.  Afterwards its id is dead and no longer the
  alternate, every other document is byte for byte the one it was, no window is closed, the windows that showed it all
  show one live buffer instead (a fresh empty one when it was the last), the other windows show what they showed, and
  the workspace's invariants hold.  A dead id is refused and leaves the whole workspace as it was.  (A new buffer may take
  the place of the last one, so there is room for one more 64-bit id.)\<close>

theorem removed_buffer_gone:
  assumes "ws_inv ws" "length (ws_docs ws) + 1 < 2 ^ 64"
  shows "\<exists>ws'. remove_buffer i ws = Some (doc_is_live ws i, ws') \<and> (\<not> doc_is_live ws i \<longrightarrow> ws' = ws) \<and>
    ws_assert_invariants ws' \<and> \<not> doc_is_live ws' i \<and> ws_alternate ws' \<noteq> Some i \<and>
    (\<forall>j. j \<noteq> i \<and> doc_is_live ws j \<longrightarrow> ws_document ws' j = ws_document ws j) \<and> length (ws_windows ws') = length (ws_windows ws) \<and>
    (\<exists>rep. (doc_is_live ws i \<longrightarrow> rep \<noteq> i \<and> doc_is_live ws' rep) \<and>
      (\<forall>k < length (ws_windows ws). shown_doc ws' k = (if shown_doc ws k = Some i then Some rep else shown_doc ws k)))"
proof (cases "doc_is_live ws i")
  case True
  from remove_buffer_ok [OF assms, of i] True obtain ws' rep where
    r: "remove_buffer i ws = Some (True, ws')" "ws_inv ws'" "find_doc (ws_docs ws') i = None"
      "\<forall>j. j \<noteq> i \<longrightarrow> find_doc (ws_docs ws) j \<noteq> None \<longrightarrow> find_doc (ws_docs ws') j = find_doc (ws_docs ws) j"
      "length (ws_windows ws') = length (ws_windows ws)" "ws_alt ws' \<noteq> Some i" "rep \<noteq> i" "find_doc (ws_docs ws') rep \<noteq> None"
      "\<forall>k < length (ws_windows ws). shown_doc ws' k = (if shown_doc ws k = Some i then Some rep else shown_doc ws k)"
    by auto
  have "ws_alternate ws' \<noteq> Some i" using r(6) by (auto simp: ws_alternate_def split: option.splits)
  then show ?thesis
    using r(1,3-5,7-9) ws_inv_asserts [OF r(2)] True by (intro exI [of _ ws'] conjI exI [of _ rep]) (simp_all add: doc_is_live_def ws_document_eq)
next
  case False
  have "shown_doc ws k \<noteq> Some i" if kl: "k < length (ws_windows ws)" for k
  proof -
    obtain vid v d where "ws_windows ws ! k = vid" "vid < length (ws_views ws)" "ws_views ws ! vid = Some v" "find_doc (ws_docs ws) (v_doc v) = Some d"
      by (rule window_at [OF assms(1) kl]) (blast intro: that)
    then show ?thesis using False by (auto simp: shown_doc_def slot_get_def get_at_def doc_is_live_def ws_document_eq)
  qed
  moreover have "remove_buffer i ws = Some (False, ws)" using False by (simp add: remove_buffer_def)
  moreover have "ws_alternate ws \<noteq> Some i" using False by (auto simp: ws_alternate_def split: option.splits if_splits)
  ultimately show ?thesis using False ws_inv_asserts [OF assms(1)] by (intro exI [of _ ws]) auto
qed

section \<open>Walking the buffers\<close>

fun cycle_times :: "bool \<Rightarrow> nat \<Rightarrow> workspace \<Rightarrow> workspace option" where
  "cycle_times forward 0 ws = Some ws"
| "cycle_times forward (Suc n) ws = do { ws' \<leftarrow> cycle_buffer forward ws; cycle_times forward n ws' }"

lemma cycle_times_ok:
  assumes "ws_inv ws" "focused_buffer ws = Some (ws_order ws ! k)" "k < length (ws_order ws)"
  shows "\<exists>ws'. cycle_times True n ws = Some ws' \<and> ws_inv ws' \<and> ws_order ws' = ws_order ws \<and>
    focused_buffer ws' = Some (ws_order ws ! ((k + n) mod length (ws_order ws)))"
  using assms
proof (induction n arbitrary: ws k)
  case (Suc n)
  let ?N = "length (ws_order ws)"
  from cycle_buffer_ok [OF Suc.prems, of True] obtain ws1 where
    w: "cycle_buffer True ws = Some ws1" "ws_inv ws1" "ws_order ws1 = ws_order ws" "focused_buffer ws1 = Some (ws_order ws1 ! ((k + 1) mod ?N))"
    by (auto simp: cycle_target_def)
  have "(k + 1) mod ?N < length (ws_order ws1)" using Suc.prems(3) w(3) by (cases ?N) simp_all
  from Suc.IH [OF w(2,4) this] show ?case by (simp add: w(1,3) mod_simps)
qed simp

text \<open>
  C10: walking the buffers reaches every buffer.  From any state of the workspace, some number of \<open>:bnext\<close> steps, fewer
  than there are buffers, brings a given live buffer into the focused window; as many steps as there are buffers come
  back to the buffer one started from; and a \<open>:bprevious\<close> undoes a \<open>:bnext\<close>.\<close>

theorem cycling_reaches:
  assumes "ws_inv ws" "doc_is_live ws i"
  shows "(\<exists>n ws'. n < length (ws_order ws) \<and> cycle_times True n ws = Some ws' \<and> focused_buffer ws' = Some i) \<and>
    (\<exists>ws'. cycle_times True (length (ws_order ws)) ws = Some ws' \<and> focused_buffer ws' = focused_buffer ws) \<and>
    (\<exists>ws1 ws2. cycle_buffer True ws = Some ws1 \<and> cycle_buffer False ws1 = Some ws2 \<and> focused_buffer ws2 = focused_buffer ws)"
proof -
  let ?o = "ws_order ws" and ?N = "length (ws_order ws)"
  obtain k where k: "focused_buffer ws = Some (?o ! k)" "k < ?N" by (rule focused_in_order [OF assms(1)])
  have "i \<in> set ?o" using ws_invD(4) [OF assms(1)] assms(2) by (simp add: order_inv_def doc_is_live_def ws_document_eq)
  then obtain m where m: "m < ?N" "?o ! m = i" by (auto simp: in_set_conv_nth)
  let ?n = "(m + ?N - k) mod ?N"
  have pos: "0 < ?N" using k(2) by linarith
  have "(k + ?n) mod ?N = (k + (m + ?N - k)) mod ?N" by (simp add: mod_simps)
  also have "\<dots> = m" using k(2) m(1) by simp
  finally have "(k + ?n) mod ?N = m" .
  then have a: "\<exists>n ws'. n < ?N \<and> cycle_times True n ws = Some ws' \<and> focused_buffer ws' = Some i"
    using cycle_times_ok [OF assms(1) k, of ?n] m mod_less_divisor [OF pos] by (intro exI [of _ ?n]) auto
  have b: "\<exists>ws'. cycle_times True ?N ws = Some ws' \<and> focused_buffer ws' = focused_buffer ws"
    using cycle_times_ok [OF assms(1) k, of ?N] k by auto
  from cycle_buffer_ok [OF assms(1) k, of True] obtain ws1 where
    w: "cycle_buffer True ws = Some ws1" "ws_inv ws1" "ws_order ws1 = ?o" "focused_buffer ws1 = Some (ws_order ws1 ! ((k + 1) mod ?N))"
    by (auto simp: cycle_target_def)
  have l: "(k + 1) mod ?N < length (ws_order ws1)" using k(2) w(3) by (cases ?N) simp_all
  have "((k + 1) mod ?N + ?N - 1) mod ?N = k"
  proof (cases "k + 1 = ?N")
    case False
    then have "(k + 1) mod ?N = k + 1" using k(2) by simp
    then show ?thesis using k(2) by simp
  qed (use k(2) in simp)
  then show ?thesis using a b w cycle_buffer_ok [OF w(2,4) l, of False] k(1) by (auto simp: cycle_target_def)
qed

theorem removed_buffer_gone_witness:
  "\<exists>ws'. remove_buffer 1 (ws_new [104]) = Some (True, ws') \<and> ws_assert_invariants ws' \<and> ws_document ws' 1 = None"
proof -
  have "length (ws_docs (ws_new [104])) + 1 < 2 ^ 64" by simp
  from removed_buffer_gone [OF ws_new_inv this, of 1] obtain ws' where
    "remove_buffer 1 (ws_new [104]) = Some (doc_is_live (ws_new [104]) 1, ws')" "ws_assert_invariants ws'" "\<not> doc_is_live ws' 1" by blast
  moreover from this(3) have "ws_document ws' 1 = None" by (simp add: doc_is_live_def)
  ultimately show ?thesis by simp
qed

theorem cycling_reaches_witness:
  "\<exists>n ws'. cycle_times True n (snd (add_buffer [97] None (ws_new [104]))) = Some ws' \<and> focused_buffer ws' = Some 2"
proof -
  have "length (ws_docs (ws_new [104])) + 1 < 2 ^ 64" by simp
  from add_buffer_ok [OF ws_new_inv this, of "[97]" None] have inv: "ws_inv (snd (add_buffer [97] None (ws_new [104])))" by auto
  have "doc_is_live (snd (add_buffer [97] None (ws_new [104]))) 2"
    by (simp add: doc_is_live_def ws_document_def doc_slot_def slot_get_def get_at_def ws_new_def add_buffer_def push_view_def Let_def)
  from cycling_reaches [OF inv this] show ?thesis by blast
qed

section \<open>Positions that are not carried\<close>

text \<open>
  C31: what \<^verbatim>\<open>Workspace::reclaim\<close> does not carry.  Only the marks and the cursor of the other views are pinned, so a
  view that is left with the Emacs mark set keeps that offset while another window edits the buffer: whenever the
  buffer becomes shorter than the mark, the workspace no longer meets its own \<^verbatim>\<open>assert_invariants\<close>, and the mark is
  out of the text when its window is focused again.\<close>

theorem stale_mark_breaks_walker:
  assumes "ws_inv ws" "focused_vid ws = Some vid" "focused_buffer ws = Some i" "w \<noteq> vid" "slot_get (ws_views ws) w = Some u"
    and "v_doc u = i" "v_mark u = Some m" "ws_apply_edits edits origin ws = Some (ok, ws')" "ws_document ws' i = Some d'" "length (d_text d') < m"
  shows "\<not> ws_assert_invariants ws'"
proof -
  note inv = ws_invD [OF assms(1)]
  obtain v d where v: "slot_get (ws_views ws) vid = Some v" "v_doc v = i" "find_doc (ws_docs ws) (v_doc v) = Some d"
    by (rule focused_at [OF assms(1)]) (use assms(2,3) that in simp)
  obtain s where s: "doc_slot (v_doc v) = Some s" "s < length (ws_docs ws)" using v(3) by (auto simp: find_doc_Some)
  let ?f = "editor_apply_edits edits origin"
  have ok: "editor_ok (lent vid v d ws)" by (rule lent_ok [OF inv(1,2) v(1,3)])
  obtain r st' where f: "?f (lent vid v d ws) = (r, st')" by (cases "?f (lent vid v d ws)")
  have "editor_keeps (lent vid v d ws) st'" using edits_command.run_keeps [OF ok, of edits origin] f by simp
  then have k: "carries (d_text d) (d_text (es_doc st')) (d_pinned (es_doc (lent vid v d ws))) (d_pinned (es_doc st'))"
    by (simp add: editor_keeps_def lent_def)
  from with_view_result [where f = ?f and ws = ws and vid = vid, OF inv(1,2,5) v(1,3) s(1) k f] obtain vs where
    c: "carried_views (carried (d_text d) (d_text (es_doc st'))) (v_doc v) (d_text (es_doc st')) ((ws_views ws)[vid := None]) vs"
    and e: "ws' = ws\<lparr>ws_docs := (ws_docs ws)[s := Some ((es_doc st')\<lparr>d_pinned := []\<rparr>)],
      ws_views := vs[vid := Some ((es_view st')\<lparr>v_registers := v_registers v\<rparr>)], ws_registers := v_registers (es_view st')\<rparr>"
    using assms(2,8) by (auto simp: ws_apply_edits_def with_focused_def)
  have at: "w < length ((ws_views ws)[vid := None])" "(ws_views ws)[vid := None] ! w = Some u" using assms(4,5) by simp_all
  obtain q where "vs ! w = Some (rested (d_text (es_doc st')) q u)" using carried_viewsD(1) [OF c at] assms(6) v(2) by auto
  then have u': "ws_views ws' ! w = Some (rested (d_text (es_doc st')) q u)" using assms(4) by (simp add: e)
  have "w < length (ws_views ws')" using c at(1) by (simp add: e carried_views_def)
  moreover have "\<not> view_assert_invariants (d_text d') (rested (d_text (es_doc st')) q u)"
    using assms(7,10) by (simp add: view_assert_invariants_def check_opt_def check_pos_def rested_def)
  ultimately show ?thesis using u' assms(6,9) by (force simp: ws_assert_invariants_def)
qed

text \<open>Two windows on the text \<open>hi\<close>, the mark of the first at its end; the second deletes everything.\<close>

abbreviation marked_view :: editor_view where
  "marked_view \<equiv> (es_view (editor_new [104, 105]))\<lparr>v_mark := Some 2\<rparr>"

abbreviation marked_ws :: workspace where
  "marked_ws \<equiv> (ws_new [104, 105])\<lparr>ws_views := [Some marked_view, Some (es_view (editor_new [104, 105]))], ws_windows := [0, 1], ws_focus := 1\<rparr>"

lemma marked_doc:
  "\<exists>d. find_doc (ws_docs (ws_new [104, 105])) 1 = Some d \<and> d_text d = [104, 105]"
  by (simp add: ws_new_def Let_def find_doc_def doc_slot_def slot_get_def get_at_def editor_new_def on_view_def document_new_def fresh_doc_ok)

lemma marked_ws_inv: "ws_inv marked_ws"
proof -
  note n = ws_invD [OF ws_new_inv [of "[104, 105]"]]
  obtain d where d: "find_doc (ws_docs (ws_new [104, 105])) 1 = Some d" "d_text d = [104, 105]" using marked_doc by blast
  have "view_fits (ws_docs (ws_new [104, 105])) (es_view (editor_new [104, 105]))" using n(2) by (simp add: views_inv_fits)
  then have i: "view_inv [104, 105] (es_view (editor_new [104, 105]))" using d by (simp add: view_fits_def)
  have "spot [104, 105] 2" using is_boundary_length [of "[104, 105]"] by (simp add: spot_def numeral_2_eq_2)
  then have "view_inv [104, 105] marked_view" using i by (simp add: view_inv_def marks_ok_def session_ok_def lists_ok_def)
  then have "view_fits (ws_docs (ws_new [104, 105])) marked_view" using d by (simp add: view_fits_def)
  then have "views_inv (ws_docs (ws_new [104, 105])) [Some marked_view, Some (es_view (editor_new [104, 105]))]"
    using n(2) by (simp add: views_inv_fits)
  then show ?thesis using n(1,4,5) by (simp add: ws_inv_def layout_inv_def nth_Cons')
qed

lemma marked_ws_focus: "focused_vid marked_ws = Some 1" "focused_buffer marked_ws = Some 1" "slot_get (ws_views marked_ws) 0 = Some marked_view"
  by (simp_all add: focused_buffer_def focused_view_of_def focused_vid_def get_at_def slot_get_def)

lemma marked_ws_edit:
  "\<exists>ws' d d'. ws_document marked_ws 1 = Some d \<and> d_text d = [104, 105] \<and>
    ws_apply_edits [(0, 2, [])] UserInput marked_ws = Some (True, ws') \<and> ws_document ws' 1 = Some d' \<and> d_text d' = []"
proof -
  obtain d where d: "find_doc (ws_docs marked_ws) 1 = Some d" "d_text d = [104, 105]" using marked_doc by auto
  have v: "slot_get (ws_views marked_ws) 1 = Some (es_view (editor_new [104, 105]))"
    "find_doc (ws_docs marked_ws) (v_doc (es_view (editor_new [104, 105]))) = Some d" using d by simp_all
  have e: "\<not> edits_refused (d_text d) [(0, 2, [])]"
    by (simp add: d(2) edits_refused_def MAX_APPLY_EDITS_def MAX_APPLY_EDIT_BYTES_def edit_boundary_def is_cont_def)
  have "edit_list_new (map (\<lambda>(s, e, t). edit_replace s (e - s) t) [(0, 2, [])]) = Inr [edit_replace 0 2 []]"
    by (simp add: edit_list_new_single changes_something_def edit_replace_def)
  from apply_edits_run [OF marked_ws_inv marked_ws_focus(1) v e this, of UserInput] obtain ws' d' where "ws_apply_edits [(0, 2, [])] UserInput marked_ws = Some (True, ws')" "ws_document ws' 1 = Some d'"
    "d_text d' = apply_to [edit_replace 0 2 []] [104, 105]"
    using d by auto
  moreover have "apply_to [edit_replace 0 2 []] [104, 105 :: byte] = []"
    by (simp add: apply_to_def edit_replace_def edit_end_def slice_def)
  ultimately show ?thesis using d by (simp add: ws_document_eq)
qed

theorem stale_mark_breaks_walker_witness:
  "\<exists>ws'. ws_assert_invariants marked_ws \<and> ws_apply_edits [(0, 2, [])] UserInput marked_ws = Some (True, ws') \<and> \<not> ws_assert_invariants ws'"
proof -
  obtain ws' d' where "ws_apply_edits [(0, 2, [])] UserInput marked_ws = Some (True, ws')" "ws_document ws' 1 = Some d'" "length (d_text d') < 2"
    using marked_ws_edit by auto
  moreover from stale_mark_breaks_walker [OF marked_ws_inv marked_ws_focus(1,2) _ marked_ws_focus(3) _ _ this] have "\<not> ws_assert_invariants ws'"
    by simp
  ultimately show ?thesis using ws_inv_asserts [OF marked_ws_inv] by blast
qed

theorem windows_follow_edit_witness:
  "\<exists>ws' u'. ws_apply_edits [(0, 2, [])] UserInput marked_ws = Some (True, ws') \<and> slot_get (ws_views ws') 0 = Some u' \<and>
    v_cursor u' = cursor_follows [edit_replace 0 2 []] [104, 105] [] 0"
proof -
  obtain ws' d d' where w: "ws_document marked_ws 1 = Some d" "d_text d = [104, 105]"
    "ws_apply_edits [(0, 2, [])] UserInput marked_ws = Some (True, ws')" "ws_document ws' 1 = Some d'" "d_text d' = []"
    using marked_ws_edit by blast
  have "v_cursor marked_view = 0" by (simp add: editor_new_def on_view_def Let_def) (simp add: view_fresh_def)
  moreover have el: "edit_list_new (map (\<lambda>(s, e, t). edit_replace s (e - s) t) [(0, 2, [])]) = Inr [edit_replace 0 2 []]"
    by (simp add: edit_list_new_single changes_something_def edit_replace_def)
  from windows_follow_edit [OF marked_ws_inv marked_ws_focus(1,2) w(1,3), unfolded if_True el] w(4) have
    "\<forall>k u. k \<noteq> 1 \<and> slot_get (ws_views marked_ws) k = Some u \<longrightarrow> (\<exists>u'. slot_get (ws_views ws') k = Some u' \<and>
      (if v_doc u = 1 then v_cursor u' = cursor_follows [edit_replace 0 2 []] (d_text d) (d_text d') (v_cursor u) else u' = u))" by auto
  from this [THEN spec [of _ 0], THEN spec [of _ marked_view]] marked_ws_focus(3) obtain u' where
    "slot_get (ws_views ws') 0 = Some u'"
    "if v_doc marked_view = 1 then v_cursor u' = cursor_follows [edit_replace 0 2 []] (d_text d) (d_text d') (v_cursor marked_view) else u' = marked_view"
    using zero_neq_one [where 'a = nat] by blast
  ultimately show ?thesis using w(2,3,5) by auto
qed

end
