(* ===== verification/Expr.thy ===== *)
theory Expr
  imports Tab_Stops "HOL-Library.Signed_Division"
begin

text \<open>
  The evaluator of the expression register, \<^verbatim>\<open>crates/core/src/expr.rs\<close>: the lexer, the recursive-descent parser
  that computes as it reads, and the arithmetic.  A string is its list of characters, a character its code point, an
  \<^verbatim>\<open>i64\<close> a 64-bit word read signed.  The reason text of a parse or type error is left out.  A parser state is the
  tokens not yet consumed; the number of open parentheses is an argument, since a parser that returns has closed
  the ones it opened.  Each method takes what an open parenthesis does with the tokens after it, and
  \<open>parse_concat\<close> ties the knot: its recursion ends at \<open>MAX_DEPTH\<close>.  The loops may not end for an arbitrary operand
  parser, so they return \<open>None\<close> then; \<open>Expr_Laws\<close> proves that they always end here.

  \<^verbatim>\<open>f64\<close> is a type parameter with the standard library's operations on it as the record \<open>float_ops\<close>; its \<open>fl_show\<close>
  is \<^verbatim>\<open>format_vim_float\<close>, which is built on \<^verbatim>\<open>format!\<close> and not modelled.
\<close>

section \<open>Values and tokens\<close>

type_synonym i64 = "64 word"

datatype expr_error = ExprEmpty | ExprParse | ExprType | ExprDivByZero | ExprOverflow | ExprTooDeep

datatype 'f expr_value = VInt i64 | VFloat 'f | VStr "nat list"

datatype 'f expr_token =
    TInt i64 | TFloat 'f | TStr "nat list" | TPlus | TMinus | TStar | TSlash | TPercent | TDot | TLParen | TRParen

record 'f float_ops =
  fl_parse :: "nat list \<Rightarrow> 'f option"
  fl_of_int :: "i64 \<Rightarrow> 'f"
  fl_neg :: "'f \<Rightarrow> 'f"
  fl_add :: "'f \<Rightarrow> 'f \<Rightarrow> 'f"
  fl_sub :: "'f \<Rightarrow> 'f \<Rightarrow> 'f"
  fl_mul :: "'f \<Rightarrow> 'f \<Rightarrow> 'f"
  fl_div :: "'f \<Rightarrow> 'f \<Rightarrow> 'f"
  fl_is_zero :: "'f \<Rightarrow> bool"
  fl_show :: "'f \<Rightarrow> nat list"

definition show_i64 :: "i64 \<Rightarrow> nat list" where
  "show_i64 i = (if sint i < 0 then 45 # show_dec (nat (- sint i)) else show_dec (nat (sint i)))"

fun into_display :: "'f float_ops \<Rightarrow> 'f expr_value \<Rightarrow> nat list" where
  "into_display fo (VInt i) = show_i64 i"
| "into_display fo (VFloat f) = fl_show fo f"
| "into_display fo (VStr s) = s"

section \<open>The lexer\<close>

text \<open>Each lexer of one token takes the text from its first character on and returns the token and the rest.\<close>

definition digits_of :: "nat list \<Rightarrow> nat list" where
  "digits_of cs = takeWhile is_ascii_digit cs"

definition starts_digit :: "nat list \<Rightarrow> bool" where
  "starts_digit cs \<longleftrightarrow> (case cs of [] \<Rightarrow> False | c # _ \<Rightarrow> is_ascii_digit c)"

text \<open>The fraction and the exponent after the integer part: what they take, empty when there is none.\<close>

definition lex_fraction :: "nat list \<Rightarrow> nat list" where
  "lex_fraction cs = (case cs of c # ds \<Rightarrow> if c = 46 \<and> starts_digit ds then c # digits_of ds else [] | [] \<Rightarrow> [])"

definition lex_exponent :: "nat list \<Rightarrow> nat list" where
  "lex_exponent cs =
     (case cs of
        [] \<Rightarrow> []
      | c # ds \<Rightarrow>
          if c = 101 \<or> c = 69 then
            (let sg = (case ds of d # _ \<Rightarrow> if d = 43 \<or> d = 45 then [d] else [] | [] \<Rightarrow> []);
                 es = drop (length sg) ds
             in if starts_digit es then c # sg @ digits_of es else [])
          else [])"

definition i64_of :: "nat list \<Rightarrow> i64 option" where
  "i64_of ds = (case usize_of ds 0 of None \<Rightarrow> None | Some n \<Rightarrow> if n < 2 ^ 63 then Some (of_nat n) else None)"

definition lex_number :: "'f float_ops \<Rightarrow> nat list \<Rightarrow> expr_error + 'f expr_token \<times> nat list" where
  "lex_number fo cs =
     (let ds = digits_of cs; r1 = drop (length ds) cs;
          fr = lex_fraction r1; r2 = drop (length fr) r1;
          ex = lex_exponent r2; r3 = drop (length ex) r2;
          txt = ds @ fr @ ex
      in if fr \<noteq> [] \<or> ex \<noteq> [] then (case fl_parse fo txt of None \<Rightarrow> Inl ExprParse | Some f \<Rightarrow> Inr (TFloat f, r3))
         else (case i64_of txt of None \<Rightarrow> Inl ExprParse | Some n \<Rightarrow> Inr (TInt n, r3)))"

fun lex_single_quote :: "nat list \<Rightarrow> nat list \<Rightarrow> expr_error + 'f expr_token \<times> nat list" where
  "lex_single_quote out [] = Inl ExprParse"
| "lex_single_quote out (c # cs) =
     (if c = 39 then
        (case cs of
           d # ds \<Rightarrow> if d = 39 then lex_single_quote (out @ [39]) ds else Inr (TStr out, cs)
         | [] \<Rightarrow> Inr (TStr out, []))
      else lex_single_quote (out @ [c]) cs)"

definition unescape :: "nat \<Rightarrow> nat" where
  "unescape c = (if c = 110 then 10 else if c = 116 then 9 else if c = 114 then 13 else c)"

fun lex_double_quote :: "nat list \<Rightarrow> nat list \<Rightarrow> expr_error + 'f expr_token \<times> nat list" where
  "lex_double_quote out [] = Inl ExprParse"
| "lex_double_quote out (c # cs) =
     (if c = 34 then Inr (TStr out, cs)
      else if c = 92 then
        (case cs of d # ds \<Rightarrow> lex_double_quote (out @ [unescape d]) ds | [] \<Rightarrow> lex_double_quote (out @ [92]) [])
      else lex_double_quote (out @ [c]) cs)"

definition lex_symbol :: "nat \<Rightarrow> 'f expr_token option" where
  "lex_symbol c =
     (if c = 43 then Some TPlus else if c = 45 then Some TMinus else if c = 42 then Some TStar
      else if c = 47 then Some TSlash else if c = 37 then Some TPercent else if c = 46 then Some TDot
      else if c = 40 then Some TLParen else if c = 41 then Some TRParen else None)"

lemma lex_single_quote_rest: "lex_single_quote out cs = Inr (t, rest) \<Longrightarrow> length rest < length cs"
  by (induction out cs rule: lex_single_quote.induct) (auto split: if_splits list.splits)

lemma lex_double_quote_rest: "lex_double_quote out cs = Inr (t, rest) \<Longrightarrow> length rest < length cs"
  by (induction out cs rule: lex_double_quote.induct) (auto split: if_splits list.splits)

lemma lex_number_rest: "starts_digit cs \<Longrightarrow> lex_number fo cs = Inr (t, rest) \<Longrightarrow> length rest < length cs"
  by (cases cs) (auto simp: lex_number_def digits_of_def starts_digit_def Let_def split: if_splits option.splits)

text \<open>One token at the front of the text.\<close>

definition lex_one :: "'f float_ops \<Rightarrow> nat \<Rightarrow> nat list \<Rightarrow> expr_error + 'f expr_token \<times> nat list" where
  "lex_one fo c cs =
     (case lex_symbol c of
        Some t \<Rightarrow> Inr (t, cs)
      | None \<Rightarrow>
          if c = 39 then lex_single_quote [] cs
          else if c = 34 then lex_double_quote [] cs
          else if is_ascii_digit c then lex_number fo (c # cs)
          else Inl ExprParse)"

lemma lex_one_rest: "lex_one fo c cs = Inr (t, rest) \<Longrightarrow> length rest < Suc (length cs)"
  using lex_number_rest [of "c # cs" fo t rest] lex_single_quote_rest [of "[]" cs t rest] lex_double_quote_rest [of "[]" cs t rest]
  by (auto simp: lex_one_def starts_digit_def split: if_splits option.splits)

function expr_lex :: "'f float_ops \<Rightarrow> nat list \<Rightarrow> expr_error + 'f expr_token list" where
  "expr_lex fo [] = Inr []"
| "expr_lex fo (c # cs) =
     (if c = 32 \<or> c = 9 \<or> c = 13 \<or> c = 10 then expr_lex fo cs
      else case lex_one fo c cs of
        Inl e \<Rightarrow> Inl e
      | Inr (t, rest) \<Rightarrow> (case expr_lex fo rest of Inl e \<Rightarrow> Inl e | Inr ts \<Rightarrow> Inr (t # ts)))"
  by pat_completeness auto
termination
  by (relation "measure (\<lambda>(_, cs). length cs)") (auto dest!: lex_one_rest)

section \<open>Arithmetic\<close>

datatype arith_op = OpAdd | OpSub | OpMul | OpDiv | OpRem

text \<open>\<^verbatim>\<open>checked_neg\<close>, \<^verbatim>\<open>checked_div\<close> and \<^verbatim>\<open>checked_rem\<close>: \<open>None\<close> on overflow (the divisor is not zero).\<close>

definition i64_min :: i64 where "i64_min = 2 ^ 63"

definition checked_neg :: "i64 \<Rightarrow> i64 option" where
  "checked_neg a = (if a = i64_min then None else Some (- a))"

definition checked_div :: "i64 \<Rightarrow> i64 \<Rightarrow> i64 option" where
  "checked_div a b = (if a = i64_min \<and> b = - 1 then None else Some (word_of_int (sint a sdiv sint b)))"

definition checked_rem :: "i64 \<Rightarrow> i64 \<Rightarrow> i64 option" where
  "checked_rem a b = (if a = i64_min \<and> b = - 1 then None else Some (word_of_int (sint a smod sint b)))"

definition or_overflow :: "i64 option \<Rightarrow> expr_error + 'f expr_value" where
  "or_overflow x = (case x of None \<Rightarrow> Inl ExprOverflow | Some v \<Rightarrow> Inr (VInt v))"

fun int_arith :: "i64 \<Rightarrow> i64 \<Rightarrow> arith_op \<Rightarrow> expr_error + 'f expr_value" where
  "int_arith a b OpAdd = Inr (VInt (a + b))"
| "int_arith a b OpSub = Inr (VInt (a - b))"
| "int_arith a b OpMul = Inr (VInt (a * b))"
| "int_arith a b OpDiv = (if b = 0 then Inl ExprDivByZero else or_overflow (checked_div a b))"
| "int_arith a b OpRem = (if b = 0 then Inl ExprDivByZero else or_overflow (checked_rem a b))"

fun float_arith :: "'f float_ops \<Rightarrow> 'f \<Rightarrow> 'f \<Rightarrow> arith_op \<Rightarrow> expr_error + 'f expr_value" where
  "float_arith fo a b OpAdd = Inr (VFloat (fl_add fo a b))"
| "float_arith fo a b OpSub = Inr (VFloat (fl_sub fo a b))"
| "float_arith fo a b OpMul = Inr (VFloat (fl_mul fo a b))"
| "float_arith fo a b OpDiv = (if fl_is_zero fo b then Inl ExprDivByZero else Inr (VFloat (fl_div fo a b)))"
| "float_arith fo a b OpRem = Inl ExprType"

fun arith_values :: "'f float_ops \<Rightarrow> 'f expr_value \<Rightarrow> 'f expr_value \<Rightarrow> arith_op \<Rightarrow> expr_error + 'f expr_value" where
  "arith_values fo (VInt a) (VInt b) op = int_arith a b op"
| "arith_values fo (VInt a) (VFloat b) op = float_arith fo (fl_of_int fo a) b op"
| "arith_values fo (VFloat a) (VInt b) op = float_arith fo a (fl_of_int fo b) op"
| "arith_values fo (VFloat a) (VFloat b) op = float_arith fo a b op"
| "arith_values fo _ _ op = Inl ExprType"

fun negate :: "'f float_ops \<Rightarrow> 'f expr_value \<Rightarrow> expr_error + 'f expr_value" where
  "negate fo (VInt i) = or_overflow (checked_neg i)"
| "negate fo (VFloat f) = Inr (VFloat (fl_neg fo f))"
| "negate fo (VStr s) = Inl ExprType"

text \<open>A sign in front of a value; a plus only checks that it is a number.\<close>

fun apply_sign :: "'f float_ops \<Rightarrow> bool \<Rightarrow> 'f expr_value \<Rightarrow> expr_error + 'f expr_value" where
  "apply_sign fo True v = negate fo v"
| "apply_sign fo False (VStr s) = Inl ExprType"
| "apply_sign fo False v = Inr v"

fun apply_signs :: "'f float_ops \<Rightarrow> bool list \<Rightarrow> 'f expr_value \<Rightarrow> expr_error + 'f expr_value" where
  "apply_signs fo [] v = Inr v"
| "apply_signs fo (m # ms) v = (case apply_sign fo m v of Inl e \<Rightarrow> Inl e | Inr v' \<Rightarrow> apply_signs fo ms v')"

section \<open>The parser\<close>

definition MAX_DEPTH :: nat where "MAX_DEPTH = 1000"

definition term_op :: "'f expr_token \<Rightarrow> arith_op option" where
  "term_op t = (case t of TStar \<Rightarrow> Some OpMul | TSlash \<Rightarrow> Some OpDiv | TPercent \<Rightarrow> Some OpRem | _ \<Rightarrow> None)"

definition add_op :: "'f expr_token \<Rightarrow> arith_op option" where
  "add_op t = (case t of TPlus \<Rightarrow> Some OpAdd | TMinus \<Rightarrow> Some OpSub | _ \<Rightarrow> None)"

definition dot_op :: "'f expr_token \<Rightarrow> unit option" where
  "dot_op t = (case t of TDot \<Rightarrow> Some () | _ \<Rightarrow> None)"

definition next_op :: "('f expr_token \<Rightarrow> 'o option) \<Rightarrow> 'f expr_token list \<Rightarrow> 'o option" where
  "next_op f ts = (case ts of [] \<Rightarrow> None | t # _ \<Rightarrow> f t)"

text \<open>The run of signs, as booleans (\<open>True\<close> for a minus), and what follows it.\<close>

fun take_signs :: "'f expr_token list \<Rightarrow> bool list \<times> 'f expr_token list" where
  "take_signs (TMinus # ts) = (let (ms, r) = take_signs ts in (True # ms, r))"
| "take_signs (TPlus # ts) = (let (ms, r) = take_signs ts in (False # ms, r))"
| "take_signs ts = ([], ts)"

type_synonym 'f parsed = "(expr_error + 'f expr_value \<times> 'f expr_token list) option"

text \<open>Sequencing of parsers: no result, an error, or the value and the rest.\<close>

definition and_then :: "'f parsed \<Rightarrow> ('f expr_value \<Rightarrow> 'f expr_token list \<Rightarrow> 'f parsed) \<Rightarrow> 'f parsed" where
  "and_then p f = Option.bind p (\<lambda>x. case x of Inl e \<Rightarrow> Some (Inl e) | Inr (v, r) \<Rightarrow> f v r)"

definition and_calc :: "expr_error + 'f expr_value \<Rightarrow> ('f expr_value \<Rightarrow> 'f parsed) \<Rightarrow> 'f parsed" where
  "and_calc x f = (case x of Inl e \<Rightarrow> Some (Inl e) | Inr v \<Rightarrow> f v)"

text \<open>
  The loop of a left-associative level: while the next token is an operator of the level, read the operand after it
  with the next tighter level and compute.
\<close>

partial_function (option) op_loop ::
  "('f expr_token \<Rightarrow> 'o option) \<Rightarrow> ('f expr_value \<Rightarrow> 'f expr_value \<Rightarrow> 'o \<Rightarrow> expr_error + 'f expr_value)
    \<Rightarrow> ('f expr_token list \<Rightarrow> 'f parsed) \<Rightarrow> 'f expr_value \<Rightarrow> 'f expr_token list \<Rightarrow> 'f parsed" where
  "op_loop ops ap operand left ts =
     (case next_op ops ts of
        None \<Rightarrow> Some (Inr (left, ts))
      | Some op \<Rightarrow> Option.bind (operand (tl ts)) (\<lambda>x.
          case x of
            Inl e \<Rightarrow> Some (Inl e)
          | Inr (right, r) \<Rightarrow>
              (case ap left right op of Inl e \<Rightarrow> Some (Inl e) | Inr v \<Rightarrow> op_loop ops ap operand v r)))"

text \<open>The methods of the parser, \<open>nested\<close> being what an open parenthesis does with the tokens after it.\<close>

definition parse_primary :: "('f expr_token list \<Rightarrow> 'f parsed) \<Rightarrow> 'f expr_token list \<Rightarrow> 'f parsed" where
  "parse_primary nested ts =
     (case ts of
        TInt i # r \<Rightarrow> Some (Inr (VInt i, r))
      | TFloat f # r \<Rightarrow> Some (Inr (VFloat f, r))
      | TStr s # r \<Rightarrow> Some (Inr (VStr s, r))
      | TLParen # r \<Rightarrow>
          and_then (nested r) (\<lambda>v r'. case r' of TRParen # r2 \<Rightarrow> Some (Inr (v, r2)) | _ \<Rightarrow> Some (Inl ExprParse))
      | _ \<Rightarrow> Some (Inl ExprParse))"

definition parse_unary ::
  "'f float_ops \<Rightarrow> ('f expr_token list \<Rightarrow> 'f parsed) \<Rightarrow> 'f expr_token list \<Rightarrow> 'f parsed" where
  "parse_unary fo nested ts =
     (let (ms, r) = take_signs ts in
      and_then (parse_primary nested r) (\<lambda>v r'. and_calc (apply_signs fo (rev ms) v) (\<lambda>v'. Some (Inr (v', r')))))"

definition parse_term ::
  "'f float_ops \<Rightarrow> ('f expr_token list \<Rightarrow> 'f parsed) \<Rightarrow> 'f expr_token list \<Rightarrow> 'f parsed" where
  "parse_term fo nested ts =
     and_then (parse_unary fo nested ts) (op_loop term_op (arith_values fo) (parse_unary fo nested))"

definition parse_additive ::
  "'f float_ops \<Rightarrow> ('f expr_token list \<Rightarrow> 'f parsed) \<Rightarrow> 'f expr_token list \<Rightarrow> 'f parsed" where
  "parse_additive fo nested ts =
     and_then (parse_term fo nested ts) (op_loop add_op (arith_values fo) (parse_term fo nested))"

definition concat_values :: "'f float_ops \<Rightarrow> 'f expr_value \<Rightarrow> 'f expr_value \<Rightarrow> unit \<Rightarrow> expr_error + 'f expr_value" where
  "concat_values fo left right op = Inr (VStr (into_display fo left @ into_display fo right))"

definition concat_level ::
  "'f float_ops \<Rightarrow> ('f expr_token list \<Rightarrow> 'f parsed) \<Rightarrow> 'f expr_token list \<Rightarrow> 'f parsed" where
  "concat_level fo nested ts =
     and_then (parse_additive fo nested ts) (op_loop dot_op (concat_values fo) (parse_additive fo nested))"

text \<open>The parser at \<open>d\<close> open parentheses.\<close>

function parse_concat :: "'f float_ops \<Rightarrow> nat \<Rightarrow> 'f expr_token list \<Rightarrow> 'f parsed" where
  "parse_concat fo d ts =
     concat_level fo (\<lambda>r. if MAX_DEPTH \<le> d + 1 then Some (Inl ExprTooDeep) else parse_concat fo (d + 1) r) ts"
  by pat_completeness auto
termination
  by (relation "measure (\<lambda>(_, d, _). MAX_DEPTH - d)") auto

declare parse_concat.simps [simp del]

text \<open>\<open>eval\<close> and \<open>eval_or_empty\<close>.\<close>

definition expr_eval :: "'f float_ops \<Rightarrow> nat list \<Rightarrow> (expr_error + nat list) option" where
  "expr_eval fo input =
     (if str_trim input = [] then Some (Inl ExprEmpty)
      else case expr_lex fo input of
        Inl e \<Rightarrow> Some (Inl e)
      | Inr ts \<Rightarrow>
          (case parse_concat fo 0 ts of
             None \<Rightarrow> None
           | Some (Inl e) \<Rightarrow> Some (Inl e)
           | Some (Inr (v, r)) \<Rightarrow> if r = [] then Some (Inr (into_display fo v)) else Some (Inl ExprParse)))"

definition eval_or_empty :: "'f float_ops \<Rightarrow> nat list \<Rightarrow> nat list option" where
  "eval_or_empty fo input = map_option (\<lambda>r. case r of Inl _ \<Rightarrow> [] | Inr s \<Rightarrow> s) (expr_eval fo input)"

end
