(* ===== verification/Expr_Laws.thy ===== *)
theory Expr_Laws
  imports Expr
begin

text \<open>
  The evaluator of the expression register against its documentation: it always returns, a text written from an
  expression tree evaluates to the value of the tree (so the precedences, the left associativity and the order in
  which errors show are the documented ones), 999 parentheses nest and 1000 do not, and the integer results are the
  exact ones of \<^verbatim>\<open>i64\<close> arithmetic.
\<close>

section \<open>Sequencing\<close>

lemma and_then_simps [simp]:
  "and_then None f = None"
  "and_then (Some (Inl e)) f = Some (Inl e)"
  "and_then (Some (Inr (v, r))) f = f v r"
  by (simp_all add: and_then_def)

lemma and_calc_simps [simp]:
  "and_calc (Inl e) f = Some (Inl e)"
  "and_calc (Inr v) f = f v"
  by (simp_all add: and_calc_def)

lemma and_then_assoc: "and_then (and_then p f) g = and_then p (\<lambda>v r. and_then (f v r) g)"
proof (cases p)
  case (Some x)
  then show ?thesis by (cases x) auto
qed simp

lemma and_then_calc: "and_then (and_calc x f) g = and_calc x (\<lambda>v. and_then (f v) g)"
  by (cases x) simp_all

lemma and_then_some: "and_then p (\<lambda>v r. Some (Inr (v, r))) = p"
proof (cases p)
  case (Some x)
  then show ?thesis by (cases x) auto
qed simp

lemma op_loop_unfold:
  "op_loop ops ap operand left ts =
     (case next_op ops ts of
        None \<Rightarrow> Some (Inr (left, ts))
      | Some op \<Rightarrow> and_then (operand (tl ts)) (\<lambda>right r. and_calc (ap left right op) (\<lambda>v. op_loop ops ap operand v r)))"
  by (simp add: op_loop.simps [of ops ap operand left ts] and_then_def and_calc_def cong: option.case_cong)

lemma op_loop_stop: "next_op ops ts = None \<Longrightarrow> op_loop ops ap operand left ts = Some (Inr (left, ts))"
  by (simp add: op_loop_unfold)

section \<open>The parser returns\<close>

text \<open>A parser that always returns and takes at least one token.\<close>

definition good_parser :: "('f expr_token list \<Rightarrow> 'f parsed) \<Rightarrow> bool" where
  "good_parser p \<longleftrightarrow> (\<forall>ts. p ts \<noteq> None \<and> (\<forall>v r. p ts = Some (Inr (v, r)) \<longrightarrow> length r < length ts))"

lemma good_parserE [consumes 1]:
  assumes "good_parser p"
  obtains (error) e where "p ts = Some (Inl e)" | (result) v r where "p ts = Some (Inr (v, r))" "length r < length ts"
  using assms unfolding good_parser_def
  by (metis not_None_eq old.sum.exhaust surj_pair)

lemma good_parserI:
  "(\<And>ts. (\<exists>e. p ts = Some (Inl e)) \<or> (\<exists>v r. p ts = Some (Inr (v, r)) \<and> length r < length ts)) \<Longrightarrow> good_parser p"
  unfolding good_parser_def by (metis Inl_Inr_False Inr_inject Pair_inject option.distinct(1) option.inject)

lemma next_op_some: "next_op ops ts = Some op \<Longrightarrow> length (tl ts) < length ts"
  by (cases ts) (simp_all add: next_op_def)

lemma op_loop_good:
  assumes "good_parser p"
  shows "(\<exists>e. op_loop ops ap p left ts = Some (Inl e)) \<or>
    (\<exists>v r. op_loop ops ap p left ts = Some (Inr (v, r)) \<and> length r \<le> length ts)"
proof (induction "length ts" arbitrary: left ts rule: less_induct)
  case less
  show ?case
  proof (cases "next_op ops ts")
    case None
    then show ?thesis by (simp add: op_loop_stop)
  next
    case (Some op)
    then have tl: "length (tl ts) < length ts" by (rule next_op_some)
    from assms show ?thesis
    proof (cases rule: good_parserE [where ts = "tl ts"])
      case (error e)
      then show ?thesis using Some by (simp add: op_loop_unfold)
    next
      case (result right r)
      show ?thesis
      proof (cases "ap left right op")
        case (Inl e)
        then show ?thesis using Some result by (simp add: op_loop_unfold)
      next
        case (Inr v)
        have "length r < length ts" using result(2) tl by simp
        from less.hyps [OF this, of v] this show ?thesis using Some result(1) Inr
          by (subst (1 2) op_loop_unfold) fastforce
      qed
    qed
  qed
qed

lemma level_good:
  assumes "good_parser p"
  shows "good_parser (\<lambda>ts. and_then (p ts) (op_loop ops ap p))"
proof (rule good_parserI)
  fix ts
  from assms show "(\<exists>e. and_then (p ts) (op_loop ops ap p) = Some (Inl e)) \<or>
    (\<exists>v r. and_then (p ts) (op_loop ops ap p) = Some (Inr (v, r)) \<and> length r < length ts)"
  proof (cases rule: good_parserE [where ts = "ts"])
    case (result v r)
    then show ?thesis using op_loop_good [OF assms, of ops ap v r] by fastforce
  qed simp
qed

lemma take_signs_length: "take_signs ts = (ms, r) \<Longrightarrow> length r \<le> length ts"
  by (induction ts arbitrary: ms r rule: take_signs.induct) (fastforce split: prod.splits)+

lemma primary_good:
  assumes "good_parser nested"
  shows "good_parser (parse_primary nested)"
proof (rule good_parserI)
  fix ts
  show "(\<exists>e. parse_primary nested ts = Some (Inl e)) \<or>
    (\<exists>v r. parse_primary nested ts = Some (Inr (v, r)) \<and> length r < length ts)"
  proof (cases "\<exists>r. ts = TLParen # r")
    case True
    then obtain r where ts: "ts = TLParen # r" by blast
    from assms show ?thesis
      by (cases rule: good_parserE [where ts = "r"]) (auto simp: parse_primary_def ts split: list.splits expr_token.splits)
  qed (auto simp: parse_primary_def split: list.splits expr_token.splits)
qed

lemma unary_good:
  fixes fo :: "'f float_ops"
  assumes "good_parser nested"
  shows "good_parser (parse_unary fo nested)"
proof (rule good_parserI)
  fix ts :: "'f expr_token list"
  obtain ms r where s: "take_signs ts = (ms, r)" by fastforce
  from primary_good [OF assms]
  show "(\<exists>e. parse_unary fo nested ts = Some (Inl e)) \<or>
    (\<exists>v r. parse_unary fo nested ts = Some (Inr (v, r)) \<and> length r < length ts)"
  proof (cases rule: good_parserE [where ts = "r"])
    case (result v r')
    then show ?thesis using take_signs_length [OF s]
      by (cases "apply_signs fo (rev ms) v") (auto simp: parse_unary_def s)
  qed (simp add: parse_unary_def s)
qed

lemma levels_good:
  assumes "good_parser nested"
  shows "good_parser (parse_term fo nested)" "good_parser (parse_additive fo nested)" "good_parser (concat_level fo nested)"
proof -
  show t: "good_parser (parse_term fo nested)"
    using level_good [OF unary_good [OF assms]] by (simp add: parse_term_def [abs_def])
  show a: "good_parser (parse_additive fo nested)"
    using level_good [OF t] by (simp add: parse_additive_def [abs_def])
  show "good_parser (concat_level fo nested)"
    using level_good [OF a] by (simp add: concat_level_def [abs_def])
qed

lemma parse_concat_good: "good_parser (parse_concat fo d)"
proof (induction "MAX_DEPTH - d" arbitrary: d rule: less_induct)
  case less
  let ?nested = "\<lambda>r. if MAX_DEPTH \<le> d + 1 then Some (Inl ExprTooDeep) else parse_concat fo (d + 1) r"
  have "good_parser ?nested"
    using less.hyps [of "d + 1"] by (cases "MAX_DEPTH \<le> d + 1") (simp_all add: good_parser_def)
  then have "good_parser (concat_level fo ?nested)" by (rule levels_good)
  then show ?case by (simp add: parse_concat.simps [abs_def])
qed

text \<open>
  C34: The evaluation of the expression register always returns, whatever the input: no run of signs, of operators
  or of parentheses keeps the parser going.
\<close>

theorem expr_always_returns: "\<exists>r. expr_eval fo input = Some r"
proof (cases "expr_lex fo input")
  case (Inr ts)
  from parse_concat_good [of fo 0] show ?thesis
    by (cases rule: good_parserE [where ts = "ts"]) (auto simp: expr_eval_def Inr)
qed (simp add: expr_eval_def)

section \<open>Expression trees\<close>

text \<open>
  The abstract syntax the documentation describes: literals, signs, arithmetic and concatenation.  The precedence
  levels are 0 for concatenation, 1 for \<^verbatim>\<open>+ -\<close>, 2 for \<^verbatim>\<open>* / %\<close>, 3 for a sign and 4 for a literal.
\<close>

datatype 'f expr_tree =
    Lit "'f expr_value"
  | Sign bool "'f expr_tree"
  | Bin arith_op "'f expr_tree" "'f expr_tree"
  | Cat "'f expr_tree" "'f expr_tree"

fun tree_value :: "'f float_ops \<Rightarrow> 'f expr_tree \<Rightarrow> expr_error + 'f expr_value" where
  "tree_value fo (Lit v) = Inr v"
| "tree_value fo (Sign m e) = (case tree_value fo e of Inl x \<Rightarrow> Inl x | Inr v \<Rightarrow> apply_sign fo m v)"
| "tree_value fo (Bin op a b) =
     (case tree_value fo a of Inl x \<Rightarrow> Inl x
      | Inr va \<Rightarrow> (case tree_value fo b of Inl x \<Rightarrow> Inl x | Inr vb \<Rightarrow> arith_values fo va vb op))"
| "tree_value fo (Cat a b) =
     (case tree_value fo a of Inl x \<Rightarrow> Inl x
      | Inr va \<Rightarrow>
          (case tree_value fo b of Inl x \<Rightarrow> Inl x
           | Inr vb \<Rightarrow> Inr (VStr (into_display fo va @ into_display fo vb))))"

fun op_prec :: "arith_op \<Rightarrow> nat" where
  "op_prec OpAdd = 1"
| "op_prec OpSub = 1"
| "op_prec OpMul = 2"
| "op_prec OpDiv = 2"
| "op_prec OpRem = 2"

fun prec :: "'f expr_tree \<Rightarrow> nat" where
  "prec (Lit v) = 4"
| "prec (Sign m e) = 3"
| "prec (Bin op a b) = op_prec op"
| "prec (Cat a b) = 0"

fun op_token :: "arith_op \<Rightarrow> 'f expr_token" where
  "op_token OpAdd = TPlus"
| "op_token OpSub = TMinus"
| "op_token OpMul = TStar"
| "op_token OpDiv = TSlash"
| "op_token OpRem = TPercent"

fun value_token :: "'f expr_value \<Rightarrow> 'f expr_token" where
  "value_token (VInt i) = TInt i"
| "value_token (VFloat f) = TFloat f"
| "value_token (VStr s) = TStr s"

definition sign_token :: "bool \<Rightarrow> 'f expr_token" where
  "sign_token m = (if m then TMinus else TPlus)"

text \<open>The tokens of a tree, with parentheses only where the precedence needs them, and how deep these nest.\<close>

definition wrap :: "nat \<Rightarrow> 'f expr_tree \<Rightarrow> 'f expr_token list \<Rightarrow> 'f expr_token list" where
  "wrap l e ts = (if prec e < l then TLParen # ts @ [TRParen] else ts)"

fun tree_tokens :: "'f expr_tree \<Rightarrow> 'f expr_token list" where
  "tree_tokens (Lit v) = [value_token v]"
| "tree_tokens (Sign m e) = sign_token m # wrap 3 e (tree_tokens e)"
| "tree_tokens (Bin op a b) =
     wrap (op_prec op) a (tree_tokens a) @ op_token op # wrap (Suc (op_prec op)) b (tree_tokens b)"
| "tree_tokens (Cat a b) = wrap 0 a (tree_tokens a) @ TDot # wrap 1 b (tree_tokens b)"

definition wrap_depth :: "nat \<Rightarrow> 'f expr_tree \<Rightarrow> nat \<Rightarrow> nat" where
  "wrap_depth l e d = (if prec e < l then Suc d else d)"

fun tree_depth :: "'f expr_tree \<Rightarrow> nat" where
  "tree_depth (Lit v) = 0"
| "tree_depth (Sign m e) = wrap_depth 3 e (tree_depth e)"
| "tree_depth (Bin op a b) =
     max (wrap_depth (op_prec op) a (tree_depth a)) (wrap_depth (Suc (op_prec op)) b (tree_depth b))"
| "tree_depth (Cat a b) = max (wrap_depth 0 a (tree_depth a)) (wrap_depth 1 b (tree_depth b))"

text \<open>
  The parser of a level at \<open>d\<close> open parentheses, the loop of the level, and all the loops from the tightest one up to
  the level, which is what happens to a value read by \<open>parse_unary\<close> before the level returns it.
\<close>

definition nested_at :: "'f float_ops \<Rightarrow> nat \<Rightarrow> 'f expr_token list \<Rightarrow> 'f parsed" where
  "nested_at fo d r = (if MAX_DEPTH \<le> d + 1 then Some (Inl ExprTooDeep) else parse_concat fo (d + 1) r)"

fun level :: "'f float_ops \<Rightarrow> nat \<Rightarrow> nat \<Rightarrow> 'f expr_token list \<Rightarrow> 'f parsed" where
  "level fo d l =
     (if l = 0 then concat_level fo (nested_at fo d)
      else if l = 1 then parse_additive fo (nested_at fo d)
      else if l = 2 then parse_term fo (nested_at fo d)
      else if l = 3 then parse_unary fo (nested_at fo d)
      else parse_primary (nested_at fo d))"

declare level.simps [simp del]

fun loop_at :: "'f float_ops \<Rightarrow> nat \<Rightarrow> nat \<Rightarrow> 'f expr_value \<Rightarrow> 'f expr_token list \<Rightarrow> 'f parsed" where
  "loop_at fo d l v ts =
     (if l = 0 then op_loop dot_op (concat_values fo) (level fo d 1) v ts
      else if l = 1 then op_loop add_op (arith_values fo) (level fo d 2) v ts
      else if l = 2 then op_loop term_op (arith_values fo) (level fo d 3) v ts
      else Some (Inr (v, ts)))"

declare loop_at.simps [simp del]

definition loops :: "'f float_ops \<Rightarrow> nat \<Rightarrow> nat \<Rightarrow> 'f expr_value \<Rightarrow> 'f expr_token list \<Rightarrow> 'f parsed" where
  "loops fo d l v ts =
     (if 2 < l then Some (Inr (v, ts))
      else if l = 2 then loop_at fo d 2 v ts
      else if l = 1 then and_then (loop_at fo d 2 v ts) (loop_at fo d 1)
      else and_then (and_then (loop_at fo d 2 v ts) (loop_at fo d 1)) (loop_at fo d 0))"

lemma parse_concat_level: "parse_concat fo d = level fo d 0"
  by (rule ext) (simp add: parse_concat.simps level.simps nested_at_def [abs_def])

lemma level_step: "l < 3 \<Longrightarrow> level fo d l ts = and_then (level fo d (Suc l) ts) (loop_at fo d l)"
  by (cases "l = 0"; cases "l = 1"; cases "l = 2")
    (simp_all add: level.simps loop_at.simps [abs_def] concat_level_def parse_additive_def parse_term_def numeral_2_eq_2 numeral_3_eq_3)

lemma loops_step: "l < 3 \<Longrightarrow> loops fo d l v ts = and_then (loops fo d (Suc l) v ts) (loop_at fo d l)"
  by (cases "l = 0"; cases "l = 1"; cases "l = 2") (simp_all add: loops_def numeral_2_eq_2)

text \<open>The level of the operator a text begins with; 0 when it begins with none.\<close>

definition head_level :: "'f expr_token list \<Rightarrow> nat" where
  "head_level ts = (case ts of [] \<Rightarrow> 0 | t # _ \<Rightarrow> if term_op t \<noteq> None then 2 else if add_op t \<noteq> None then 1 else 0)"

lemma loop_at_stop: "head_level ts < l \<Longrightarrow> loop_at fo d l v ts = Some (Inr (v, ts))"
  by (cases ts) (auto simp: loop_at.simps head_level_def next_op_def op_loop_unfold split: if_splits)

lemma loops_stop: "head_level ts < l \<Longrightarrow> loops fo d l v ts = Some (Inr (v, ts))"
  by (auto simp: loops_def loop_at_stop)

lemma loops_at_own: "head_level ts \<le> l \<Longrightarrow> l < 3 \<Longrightarrow> loops fo d l v ts = loop_at fo d l v ts"
  by (simp add: loops_step loops_stop)

text \<open>A level that reads a value and runs its loops passes that on to every looser level.\<close>

lemma level_down:
  assumes "level fo d p ts = and_calc x (\<lambda>v. loops fo d p v rest)" "l \<le> p" "p \<le> 3"
  shows "level fo d l ts = and_calc x (\<lambda>v. loops fo d l v rest)"
  using assms(2)
proof (induction rule: inc_induct)
  case (step n)
  then have "n < 3" using assms(3) by simp
  then show ?case using step by (simp add: level_step loops_step and_then_calc)
qed (rule assms(1))

lemma primary_paren:
  "parse_primary nested (TLParen # r) =
     and_then (nested r) (\<lambda>v r'. case r' of TRParen # r2 \<Rightarrow> Some (Inr (v, r2)) | _ \<Rightarrow> Some (Inl ExprParse))"
  by (simp add: parse_primary_def)

lemma unary_no_sign:
  assumes "t \<noteq> TMinus" "t \<noteq> TPlus"
  shows "parse_unary fo nested (t # ts) = parse_primary nested (t # ts)"
proof -
  have "take_signs (t # ts) = ([], t # ts)" using assms by (cases t) simp_all
  then show ?thesis by (simp add: parse_unary_def and_then_some)
qed

lemma level_literal: "level fo d 3 (value_token v # rest) = Some (Inr (v, rest))"
  by (cases v) (simp_all add: level.simps unary_no_sign parse_primary_def)

lemma level_paren:
  assumes "d + 1 < MAX_DEPTH" "level fo (d + 1) 0 (ts @ TRParen # rest) = and_calc x (\<lambda>v. loops fo (d + 1) 0 v (TRParen # rest))"
  shows "level fo d 3 (TLParen # ts @ TRParen # rest) = and_calc x (\<lambda>v. Some (Inr (v, rest)))"
proof -
  have end0: "loops fo d 0 v (TRParen # rest) = Some (Inr (v, TRParen # rest))" for d v
    by (simp add: loops_def loop_at.simps op_loop_unfold next_op_def term_op_def add_op_def dot_op_def)
  have "nested_at fo d (ts @ TRParen # rest) = and_calc x (\<lambda>v. Some (Inr (v, TRParen # rest)))"
    using assms by (simp add: nested_at_def parse_concat_level end0)
  then show ?thesis by (simp add: level.simps unary_no_sign primary_paren and_then_calc)
qed

lemma apply_signs_snoc:
  "apply_signs fo (ms @ [m]) v = (case apply_signs fo ms v of Inl e \<Rightarrow> Inl e | Inr v' \<Rightarrow> apply_sign fo m v')"
  by (induction ms arbitrary: v) (auto split: sum.splits)

lemma unary_sign:
  "parse_unary fo nested (sign_token m # ts) =
     and_then (parse_unary fo nested ts) (\<lambda>v r. and_calc (apply_sign fo m v) (\<lambda>v'. Some (Inr (v', r))))"
proof -
  obtain ms r where s: "take_signs ts = (ms, r)" by fastforce
  then have "take_signs (sign_token m # ts) = (m # ms, r)" by (simp add: sign_token_def)
  moreover have "and_calc (apply_signs fo (rev (m # ms)) v) (\<lambda>v'. Some (Inr (v', r'))) =
      and_then (and_calc (apply_signs fo (rev ms) v) (\<lambda>v'. Some (Inr (v', r'))))
        (\<lambda>v r. and_calc (apply_sign fo m v) (\<lambda>v'. Some (Inr (v', r))))" for v r'
    by (cases "apply_signs fo (rev ms) v") (simp_all add: apply_signs_snoc)
  ultimately show ?thesis by (simp add: parse_unary_def s and_then_assoc del: rev.simps)
qed

text \<open>The claim about a tree at its own level, and what follows for a tree that may be in parentheses.\<close>

definition parses :: "'f float_ops \<Rightarrow> 'f expr_tree \<Rightarrow> bool" where
  "parses fo e \<longleftrightarrow>
     (\<forall>d rest. d + tree_depth e < MAX_DEPTH \<longrightarrow> head_level rest \<le> prec e \<longrightarrow>
        level fo d (min 3 (prec e)) (tree_tokens e @ rest) =
          and_calc (tree_value fo e) (\<lambda>v. loops fo d (min 3 (prec e)) v rest))"

lemma parses_wrapped:
  assumes "parses fo e" "l \<le> 3" "d + wrap_depth l e (tree_depth e) < MAX_DEPTH" "prec e < l \<or> head_level rest \<le> prec e"
  shows "level fo d l (wrap l e (tree_tokens e) @ rest) = and_calc (tree_value fo e) (\<lambda>v. loops fo d l v rest)"
proof (cases "prec e < l")
  case False
  then have "level fo d (min 3 (prec e)) (tree_tokens e @ rest) =
      and_calc (tree_value fo e) (\<lambda>v. loops fo d (min 3 (prec e)) v rest)"
    using assms by (simp add: parses_def wrap_depth_def)
  from level_down [OF this] show ?thesis using False assms(2) by (simp add: wrap_def)
next
  case True
  then have d: "(d + 1) + tree_depth e < MAX_DEPTH" using assms(3) by (simp add: wrap_depth_def)
  have "level fo (d + 1) (min 3 (prec e)) (tree_tokens e @ TRParen # rest) =
      and_calc (tree_value fo e) (\<lambda>v. loops fo (d + 1) (min 3 (prec e)) v (TRParen # rest))"
    using assms(1) d by (simp add: parses_def head_level_def term_op_def add_op_def)
  from level_down [OF this, of 0]
  have "level fo (d + 1) 0 (tree_tokens e @ TRParen # rest) =
      and_calc (tree_value fo e) (\<lambda>v. loops fo (d + 1) 0 v (TRParen # rest))" by simp
  with d have "level fo d 3 (TLParen # tree_tokens e @ TRParen # rest) = and_calc (tree_value fo e) (\<lambda>v. loops fo d 3 v rest)"
    using level_paren [of d fo "tree_tokens e" rest "tree_value fo e"] by (simp add: loops_def)
  from level_down [OF this assms(2)] show ?thesis using True by (simp add: wrap_def)
qed

lemma parses_lit: "parses fo (Lit v)"
  by (simp add: parses_def level_literal loops_def)

lemma parses_sign:
  fixes fo :: "'f float_ops"
  assumes "parses fo e"
  shows "parses fo (Sign m e)"
  unfolding parses_def
proof (intro allI impI)
  fix d and rest :: "'f expr_token list"
  assume a: "d + tree_depth (Sign m e) < MAX_DEPTH" "head_level rest \<le> prec (Sign m e)"
  have "head_level rest \<le> 2" by (simp add: head_level_def split: list.split)
  then have "level fo d 3 (wrap 3 e (tree_tokens e) @ rest) = and_calc (tree_value fo e) (\<lambda>v. loops fo d 3 v rest)"
    using a by (intro parses_wrapped [OF assms]) auto
  then show "level fo d (min 3 (prec (Sign m e))) (tree_tokens (Sign m e) @ rest) =
      and_calc (tree_value fo (Sign m e)) (\<lambda>v. loops fo d (min 3 (prec (Sign m e))) v rest)"
    by (simp add: level.simps unary_sign and_then_calc loops_def and_calc_def split: sum.splits)
qed

text \<open>One round of a loop over an operand that parses.\<close>

lemma loop_round:
  assumes "level fo d (Suc l) ts = and_calc x (\<lambda>v. loops fo d (Suc l) v rest)" "head_level rest \<le> l" "l < 3"
    and "\<And>v. loop_at fo d l va (t # ts) = and_then (level fo d (Suc l) ts) (\<lambda>vb r. and_calc (f vb) (\<lambda>v. loop_at fo d l v r))"
    and "head_level (t # ts) \<le> l"
  shows "loops fo d l va (t # ts) = and_calc x (\<lambda>vb. and_calc (f vb) (\<lambda>v. loops fo d l v rest))"
proof -
  have s: "loops fo d (Suc l) v rest = Some (Inr (v, rest))" for v using assms(2) by (intro loops_stop) simp
  show ?thesis
    using assms(4) by (simp add: loops_at_own [OF assms(5) assms(3)] loops_at_own [OF assms(2,3)] assms(1) and_then_calc s)
qed

lemma op_prec_bounds: "op_prec op = 1 \<or> op_prec op = 2"
  by (cases op) simp_all

lemma head_level_op [simp]: "head_level (op_token op # ts) = op_prec op"
  by (cases op) (simp_all add: head_level_def term_op_def add_op_def)

lemma loop_at_op:
  "loop_at fo d (op_prec op) va (op_token op # ts) =
     and_then (level fo d (Suc (op_prec op)) ts)
       (\<lambda>vb r. and_calc (arith_values fo va vb op) (\<lambda>v. loop_at fo d (op_prec op) v r))"
  by (cases op)
    (simp_all add: loop_at.simps [abs_def] op_loop_unfold [of _ _ _ va] next_op_def term_op_def add_op_def numeral_2_eq_2 numeral_3_eq_3)

lemma loop_at_dot:
  "loop_at fo d 0 va (TDot # ts) =
     and_then (level fo d (Suc 0) ts) (\<lambda>vb r. and_calc (concat_values fo va vb ()) (\<lambda>v. loop_at fo d 0 v r))"
  by (simp add: loop_at.simps [abs_def] op_loop_unfold [of _ _ _ va] next_op_def dot_op_def)

lemma parses_bin:
  fixes fo :: "'f float_ops"
  assumes "parses fo a" "parses fo b"
  shows "parses fo (Bin op a b)"
  unfolding parses_def
proof (intro allI impI)
  fix d and rest :: "'f expr_token list"
  let ?p = "op_prec op"
  let ?tb = "wrap (Suc ?p) b (tree_tokens b) @ rest"
  assume dep: "d + tree_depth (Bin op a b) < MAX_DEPTH" and hd: "head_level rest \<le> prec (Bin op a b)"
  have p: "?p < 3" "min 3 ?p = ?p" using op_prec_bounds [of op] by auto
  have a: "level fo d ?p (wrap ?p a (tree_tokens a) @ op_token op # ?tb) =
      and_calc (tree_value fo a) (\<lambda>v. loops fo d ?p v (op_token op # ?tb))"
    using dep p by (intro parses_wrapped [OF assms(1)]) auto
  have b: "level fo d (Suc ?p) ?tb = and_calc (tree_value fo b) (\<lambda>v. loops fo d (Suc ?p) v rest)"
    using dep p hd by (intro parses_wrapped [OF assms(2)]) auto
  have "loops fo d ?p va (op_token op # ?tb) =
      and_calc (tree_value fo b) (\<lambda>vb. and_calc (arith_values fo va vb op) (\<lambda>v. loops fo d ?p v rest))" for va
    using b hd p by (intro loop_round [OF b _ _ loop_at_op]) auto
  then show "level fo d (min 3 (prec (Bin op a b))) (tree_tokens (Bin op a b) @ rest) =
      and_calc (tree_value fo (Bin op a b)) (\<lambda>v. loops fo d (min 3 (prec (Bin op a b))) v rest)"
    using a p by (simp add: and_calc_def split: sum.splits)
qed

lemma parses_cat:
  fixes fo :: "'f float_ops"
  assumes "parses fo a" "parses fo b"
  shows "parses fo (Cat a b)"
  unfolding parses_def
proof (intro allI impI)
  fix d and rest :: "'f expr_token list"
  let ?tb = "wrap 1 b (tree_tokens b) @ rest"
  assume dep: "d + tree_depth (Cat a b) < MAX_DEPTH" and hd: "head_level rest \<le> prec (Cat a b)"
  have a: "level fo d 0 (wrap 0 a (tree_tokens a) @ TDot # ?tb) =
      and_calc (tree_value fo a) (\<lambda>v. loops fo d 0 v (TDot # ?tb))"
    using dep by (intro parses_wrapped [OF assms(1)]) (auto simp: head_level_def term_op_def add_op_def)
  have b: "level fo d (Suc 0) ?tb = and_calc (tree_value fo b) (\<lambda>v. loops fo d (Suc 0) v rest)"
    using dep hd by (simp only: One_nat_def [symmetric], intro parses_wrapped [OF assms(2)]) auto
  have "loops fo d 0 va (TDot # ?tb) =
      and_calc (tree_value fo b) (\<lambda>vb. and_calc (concat_values fo va vb ()) (\<lambda>v. loops fo d 0 v rest))" for va
    using hd by (intro loop_round [OF b _ _ loop_at_dot]) (auto simp: head_level_def term_op_def add_op_def)
  then show "level fo d (min 3 (prec (Cat a b))) (tree_tokens (Cat a b) @ rest) =
      and_calc (tree_value fo (Cat a b)) (\<lambda>v. loops fo d (min 3 (prec (Cat a b))) v rest)"
    using a by (simp add: and_calc_def concat_values_def split: sum.splits)
qed

lemma tree_parses: "parses fo e"
  by (induction e) (simp_all add: parses_lit parses_sign parses_bin parses_cat)

lemma parse_tree:
  assumes "tree_depth e < MAX_DEPTH"
  shows "parse_concat fo 0 (tree_tokens e) = and_calc (tree_value fo e) (\<lambda>v. Some (Inr (v, [])))"
proof -
  have "level fo 0 0 (wrap 0 e (tree_tokens e) @ []) = and_calc (tree_value fo e) (\<lambda>v. loops fo 0 0 v [])"
    using assms by (intro parses_wrapped [OF tree_parses]) (auto simp: wrap_depth_def head_level_def)
  moreover have "loops fo 0 0 v [] = Some (Inr (v, []))" for v
    by (simp add: loops_def loop_at.simps op_loop_unfold next_op_def)
  ultimately show ?thesis by (simp add: wrap_def parse_concat_level)
qed

section \<open>Texts\<close>

text \<open>
  The text of a token: a decimal, a single-quoted string with its quotes doubled, a symbol.  A tree is written with
  every token followed by a space.  Float literals depend on the float parser and are left out of the written trees.
\<close>

definition quoted :: "nat list \<Rightarrow> nat list" where
  "quoted s = concat (map (\<lambda>c. if c = 39 then [39, 39] else [c]) s)"

fun token_text :: "'f expr_token \<Rightarrow> nat list" where
  "token_text (TInt i) = show_dec (unat i)"
| "token_text (TFloat f) = []"
| "token_text (TStr s) = 39 # quoted s @ [39]"
| "token_text TPlus = [43]"
| "token_text TMinus = [45]"
| "token_text TStar = [42]"
| "token_text TSlash = [47]"
| "token_text TPercent = [37]"
| "token_text TDot = [46]"
| "token_text TLParen = [40]"
| "token_text TRParen = [41]"

definition tokens_text :: "'f expr_token list \<Rightarrow> nat list" where
  "tokens_text ts = concat (map (\<lambda>t. token_text t @ [32]) ts)"

fun written :: "'f expr_token \<Rightarrow> bool" where
  "written (TInt i) \<longleftrightarrow> unat i < 2 ^ 63"
| "written (TFloat f) \<longleftrightarrow> False"
| "written _ \<longleftrightarrow> True"

lemma takeWhile_digits:
  "list_all is_ascii_digit ds \<Longrightarrow> digits_of (ds @ 32 # rest) = ds"
  by (induction ds) (simp_all add: digits_of_def is_ascii_digit_def)

lemma lex_number_decimal:
  fixes fo :: "'f float_ops"
  assumes "unat i < 2 ^ 63"
  shows "lex_number fo (show_dec (unat i) @ 32 # rest) = Inr (TInt i, 32 # rest)"
proof -
  have "unat i < 2 ^ 64" by (rule less_trans [OF assms]) simp
  then have "i64_of (show_dec (unat i)) = Some i" using assms by (simp add: i64_of_def usize_of_show)
  moreover have "digits_of (show_dec (unat i) @ 32 # rest) = show_dec (unat i)"
    using show_dec_digits by (intro takeWhile_digits) simp
  ultimately show ?thesis by (simp add: lex_number_def lex_fraction_def lex_exponent_def Let_def)
qed

lemma lex_single_quote_quoted:
  "lex_single_quote out (quoted s @ 39 # 32 # rest) = Inr (TStr (out @ s), 32 # rest)"
  by (induction s arbitrary: out) (auto simp: quoted_def)

lemma token_text_head:
  assumes "written t"
  obtains c cs where "token_text t = c # cs" "c \<notin> {32, 9, 13, 10}" "\<not> is_whitespace c"
    "lex_one fo c (cs @ 32 # rest) = Inr (t, 32 # rest)"
proof (cases t)
  case (TInt i)
  obtain c cs where s: "show_dec (unat i) = c # cs" using show_dec_digits [of "unat i"] by (cases "show_dec (unat i)") auto
  then have c: "is_ascii_digit c" using show_dec_digits [of "unat i"] by simp
  then have "lex_one fo c (cs @ 32 # rest) = lex_number fo (c # cs @ 32 # rest)"
    by (auto simp: lex_one_def lex_symbol_def is_ascii_digit_def)
  then show thesis using that [of c cs] c s TInt assms lex_number_decimal [of i fo rest]
    by (auto simp: is_ascii_digit_def is_whitespace_def)
next
  case (TStr s)
  then show thesis
    by (intro that [of 39 "quoted s @ [39]"]) (simp_all add: lex_one_def lex_symbol_def is_whitespace_def lex_single_quote_quoted)
qed (use assms that in \<open>auto simp: lex_one_def lex_symbol_def is_whitespace_def\<close>)

lemma lex_space: "expr_lex fo (32 # cs) = expr_lex fo cs"
  by simp

lemma lex_text:
  "list_all written ts \<Longrightarrow> expr_lex fo (tokens_text ts @ s) = (case expr_lex fo s of Inl e \<Rightarrow> Inl e | Inr us \<Rightarrow> Inr (ts @ us))"
proof (induction ts)
  case Nil
  then show ?case by (simp add: tokens_text_def split: sum.split)
next
  case (Cons t ts)
  then have w: "written t" by simp
  obtain c cs where c: "token_text t = c # cs" "c \<notin> {32, 9, 13, 10}"
    "lex_one fo c (cs @ 32 # tokens_text ts @ s) = Inr (t, 32 # tokens_text ts @ s)"
    by (rule token_text_head [OF w, of fo "tokens_text ts @ s"]) auto
  have "tokens_text (t # ts) @ s = c # cs @ 32 # tokens_text ts @ s" using c(1) by (simp add: tokens_text_def)
  then show ?case using Cons c(2,3) by (auto split: sum.split)
qed

lemma str_trim_nonempty:
  assumes "c \<in> set s" "\<not> is_whitespace c"
  shows "str_trim s \<noteq> []"
proof -
  have "set s = set (takeWhile is_whitespace s) \<union> set (dropWhile is_whitespace s)"
    by (simp flip: set_append)
  with assms have "c \<in> set (dropWhile is_whitespace s)" by (auto dest: set_takeWhileD)
  with assms(2) show ?thesis by (auto simp: str_trim_def)
qed

lemma text_not_blank:
  assumes "ts \<noteq> []" "list_all written ts"
  shows "str_trim (tokens_text ts @ s) \<noteq> []"
proof -
  obtain t us where ts: "ts = t # us" using assms(1) by (cases ts) auto
  then have w: "written t" using assms(2) by simp
  obtain c cs where "token_text t = c # cs" "\<not> is_whitespace c" by (rule token_text_head [OF w]) auto
  then show ?thesis using ts by (intro str_trim_nonempty [of c]) (auto simp: tokens_text_def)
qed

lemma eval_text:
  assumes "ts \<noteq> []" "list_all written ts"
  shows "expr_eval fo (tokens_text ts @ s) =
    (case expr_lex fo s of
       Inl e \<Rightarrow> Some (Inl e)
     | Inr us \<Rightarrow>
         (case parse_concat fo 0 (ts @ us) of
            None \<Rightarrow> None
          | Some (Inl e) \<Rightarrow> Some (Inl e)
          | Some (Inr (v, r)) \<Rightarrow> if r = [] then Some (Inr (into_display fo v)) else Some (Inl ExprParse)))"
  using text_not_blank [OF assms] by (simp add: expr_eval_def lex_text [OF assms(2)] split: sum.split)

fun writable :: "'f expr_tree \<Rightarrow> bool" where
  "writable (Lit v) \<longleftrightarrow> written (value_token v)"
| "writable (Sign m e) \<longleftrightarrow> writable e"
| "writable (Bin op a b) \<longleftrightarrow> writable a \<and> writable b"
| "writable (Cat a b) \<longleftrightarrow> writable a \<and> writable b"

lemma written_op: "written (op_token op)"
  by (cases op) simp_all

lemma writable_tokens: "writable e \<Longrightarrow> list_all written (tree_tokens e)"
  by (induction e) (simp_all add: wrap_def sign_token_def written_op)

lemma tree_tokens_nonempty [simp]: "tree_tokens e \<noteq> []"
  by (cases e) simp_all

definition display_result :: "'f float_ops \<Rightarrow> expr_error + 'f expr_value \<Rightarrow> expr_error + nat list" where
  "display_result fo x = (case x of Inl e \<Rightarrow> Inl e | Inr v \<Rightarrow> Inr (into_display fo v))"

text \<open>
  C24: The text written from an expression tree, with parentheses only where the documented precedence
  (concatenation loosest, then plus and minus, then times, division and remainder, then signs) and left
  associativity need them, evaluates to the display of the tree's value, or to the first error of the tree read from
  left to right, as long as fewer than 1000 parentheses nest.
\<close>

theorem expr_evaluates_tree:
  assumes "tree_depth e < 1000" "writable e"
  shows "expr_eval fo (tokens_text (tree_tokens e)) = Some (display_result fo (tree_value fo e))"
  using eval_text [OF tree_tokens_nonempty writable_tokens [OF assms(2)], of fo "[]"]
    parse_tree [of e fo] assms(1)
  by (simp add: MAX_DEPTH_def display_result_def and_calc_def split: sum.splits)

theorem expr_evaluates_tree_witness:
  "\<forall>fo :: unit float_ops.
     expr_eval fo [49, 48, 32, 45, 32, 40, 32, 50, 32, 43, 32, 51, 32, 41, 32, 42, 32, 52, 32, 45, 32, 49, 32] =
       Some (Inr [45, 49, 49])"
proof
  fix fo :: "unit float_ops"
  let ?n = "\<lambda>i. Lit (VInt i) :: unit expr_tree"
  let ?e = "Bin OpSub (Bin OpSub (?n 10) (Bin OpMul (Bin OpAdd (?n 2) (?n 3)) (?n 4))) (?n 1)"
  have "tokens_text (tree_tokens ?e) =
      [49, 48, 32, 45, 32, 40, 32, 50, 32, 43, 32, 51, 32, 41, 32, 42, 32, 52, 32, 45, 32, 49, 32]"
    by (simp add: tokens_text_def wrap_def show_dec.simps)
  moreover have "display_result fo (tree_value fo ?e) = Inr [45, 49, 49]"
    by (simp add: display_result_def show_i64_def show_dec.simps)
  ultimately show "expr_eval fo [49, 48, 32, 45, 32, 40, 32, 50, 32, 43, 32, 51, 32, 41, 32, 42, 32, 52, 32, 45, 32, 49, 32] =
      Some (Inr [45, 49, 49])"
    using expr_evaluates_tree [of ?e fo] by (simp add: wrap_depth_def)
qed

section \<open>Nesting\<close>

lemma loops_closing: "loops fo d 0 v (replicate k TRParen) = Some (Inr (v, replicate k TRParen))"
  by (cases k) (simp_all add: loops_def loop_at.simps op_loop_unfold next_op_def term_op_def add_op_def dot_op_def)

lemma head_level_closing [simp]: "head_level (replicate k TRParen) = 0"
  by (cases k) (simp_all add: head_level_def term_op_def add_op_def)

text \<open>A tree in \<open>n\<close> pairs of parentheses, with any number of closing ones after it.\<close>

lemma nested_tree:
  assumes "d + n + tree_depth e < MAX_DEPTH"
  shows "level fo d 0 (replicate n TLParen @ tree_tokens e @ replicate n TRParen @ replicate k TRParen) =
    and_calc (tree_value fo e) (\<lambda>v. loops fo d 0 v (replicate k TRParen))"
  using assms
proof (induction n arbitrary: d k)
  case 0
  then have "level fo d 0 (wrap 0 e (tree_tokens e) @ replicate k TRParen) =
      and_calc (tree_value fo e) (\<lambda>v. loops fo d 0 v (replicate k TRParen))"
    by (intro parses_wrapped [OF tree_parses]) (auto simp: wrap_depth_def)
  then show ?case by (simp add: wrap_def)
next
  case (Suc n)
  let ?ts = "replicate n TLParen @ tree_tokens e @ replicate n TRParen"
  have "level fo (d + 1) 0 (?ts @ TRParen # replicate k TRParen) =
      and_calc (tree_value fo e) (\<lambda>v. loops fo (d + 1) 0 v (TRParen # replicate k TRParen))"
    using Suc.IH [of "d + 1" "Suc k"] Suc.prems by simp
  moreover have "d + 1 < MAX_DEPTH" using Suc.prems by simp
  ultimately have "level fo d 3 (TLParen # ?ts @ TRParen # replicate k TRParen) =
      and_calc (tree_value fo e) (\<lambda>v. loops fo d 3 v (replicate k TRParen))"
    using level_paren [of d fo ?ts "replicate k TRParen" "tree_value fo e"] by (simp add: loops_def)
  from level_down [OF this, of 0] show ?case by (simp add: replicate_app_Cons_same)
qed

lemma too_deep: "d < MAX_DEPTH \<Longrightarrow> MAX_DEPTH \<le> d + n \<Longrightarrow> level fo d 0 (replicate n TLParen @ ts) = Some (Inl ExprTooDeep)"
proof (induction n arbitrary: d)
  case (Suc n)
  have "nested_at fo d (replicate n TLParen @ ts) = Some (Inl ExprTooDeep)"
    using Suc.IH [of "d + 1"] Suc.prems by (simp add: nested_at_def parse_concat_level)
  then have "level fo d 3 (replicate (Suc n) TLParen @ ts) = and_calc (Inl ExprTooDeep) (\<lambda>v. loops fo d 3 v [])"
    by (simp add: level.simps unary_no_sign primary_paren)
  from level_down [OF this, of 0] show ?case by simp
qed simp

lemma lex_opens: "expr_lex fo s = Inr us \<Longrightarrow> expr_lex fo (replicate n 40 @ s) = Inr (replicate n TLParen @ us)"
  by (induction n) (simp_all add: lex_one_def lex_symbol_def)

lemma written_parens: "list_all written (replicate n TLParen)" "list_all written (replicate n TRParen)"
  by (induction n) simp_all

text \<open>
  C25: An expression may stand in parentheses as long as fewer than 1000 nest: in \<open>n\<close> more pairs its value is the
  same.  Any text that lexes and begins with 1000 or more open parentheses is refused as too deep, whatever follows.
\<close>

theorem expr_nesting_limit:
  assumes "writable e" "expr_lex fo s = Inr us"
  shows "(n + tree_depth e < 1000 \<longrightarrow>
      expr_eval fo (tokens_text (replicate n TLParen @ tree_tokens e @ replicate n TRParen)) =
        Some (display_result fo (tree_value fo e))) \<and>
    (1000 \<le> n \<longrightarrow> expr_eval fo (replicate n 40 @ s) = Some (Inl ExprTooDeep))"
proof (intro conjI impI)
  let ?ts = "replicate n TLParen @ tree_tokens e @ replicate n TRParen"
  assume "n + tree_depth e < 1000"
  then have "parse_concat fo 0 ?ts = and_calc (tree_value fo e) (\<lambda>v. Some (Inr (v, [])))"
    using nested_tree [of 0 n e fo 0] loops_closing [of fo 0 _ 0] by (simp add: parse_concat_level MAX_DEPTH_def)
  moreover have "list_all written ?ts" using writable_tokens [OF assms(1)] by (simp add: written_parens)
  ultimately show "expr_eval fo (tokens_text ?ts) = Some (display_result fo (tree_value fo e))"
    using eval_text [of ?ts fo "[]"]
    by (simp add: display_result_def and_calc_def split: sum.splits)
next
  assume "1000 \<le> n"
  moreover from this have "str_trim (replicate n 40 @ s) \<noteq> []"
    by (intro str_trim_nonempty [of 40]) (simp_all add: is_whitespace_def)
  ultimately show "expr_eval fo (replicate n 40 @ s) = Some (Inl ExprTooDeep)"
    using too_deep [of 0 n fo us] by (simp add: expr_eval_def lex_opens [OF assms(2)] parse_concat_level MAX_DEPTH_def)
qed

theorem expr_nesting_limit_witness:
  "\<forall>fo :: unit float_ops.
     expr_eval fo (tokens_text (replicate 999 TLParen @ [TInt 7 :: unit expr_token] @ replicate 999 TRParen)) = Some (Inr [55]) \<and>
     expr_eval fo (replicate 1000 40 @ [55]) = Some (Inl ExprTooDeep)"
proof
  fix fo :: "unit float_ops"
  let ?e = "Lit (VInt 7) :: unit expr_tree"
  have lexed: "expr_lex fo [55] = Inr [TInt 7]"
    by (simp add: lex_one_def lex_symbol_def lex_number_def digits_of_def lex_fraction_def lex_exponent_def i64_of_def Let_def is_ascii_digit_def)
  have w: "writable ?e" by simp
  have r: "display_result fo (tree_value fo ?e) = Inr [55]" by (simp add: display_result_def show_i64_def show_dec.simps)
  have "expr_eval fo (tokens_text (replicate 999 TLParen @ tree_tokens ?e @ replicate 999 TRParen)) = Some (Inr [55])"
    using expr_nesting_limit [OF w lexed, of 999] unfolding r by simp
  moreover have "expr_eval fo (replicate 1000 40 @ [55]) = Some (Inl ExprTooDeep)"
    using expr_nesting_limit [OF w lexed, of 1000] by simp
  ultimately show "expr_eval fo (tokens_text (replicate 999 TLParen @ [TInt 7 :: unit expr_token] @ replicate 999 TRParen)) = Some (Inr [55]) \<and>
     expr_eval fo (replicate 1000 40 @ [55]) = Some (Inl ExprTooDeep)"
    by simp
qed

section \<open>Integers\<close>

lemma sint_min: "sint i64_min = - (2 ^ 63)"
  by (simp add: i64_min_def)

lemma sint_range: "- (2 ^ 63) \<le> sint (a :: i64)" "sint (a :: i64) < 2 ^ 63"
  using sint_ge [of a] sint_lt [of a] by simp_all

lemma sint_of_range: "- (2 ^ 63) \<le> x \<Longrightarrow> x < 2 ^ 63 \<Longrightarrow> sint (word_of_int x :: i64) = x"
  by (simp add: sint_sbintrunc' signed_take_bit_int_eq_self)

lemma sint_eq_min: "a = i64_min \<longleftrightarrow> sint a = - (2 ^ 63)"
  using sint_min by (metis signed_word_eqI)

lemma sint_eq_minus1: "b = - 1 \<longleftrightarrow> sint (b :: i64) = - 1"
  by (metis signed_word_eqI sint_n1)

lemma sint_eq_zero: "b = 0 \<longleftrightarrow> sint (b :: i64) = 0"
  by (metis signed_word_eqI signed_0)

lemma sdiv_upper:
  fixes x y m :: int
  assumes "- m \<le> x" "x < m" "\<not> (x = - m \<and> y = - 1)"
  shows "x sdiv y < m"
proof -
  consider "y = 0" | "y = 1" | "y = - 1" | "2 \<le> \<bar>y\<bar>" by linarith
  then show ?thesis
  proof cases
    case 4
    have "\<bar>x\<bar> div \<bar>y\<bar> \<le> \<bar>x\<bar> div 2" using 4 by (intro zdiv_mono2) auto
    moreover have "x sdiv y \<le> \<bar>x\<bar> div \<bar>y\<bar>"
      using 4 by (simp add: signed_divide_int_def sgn_if pos_imp_zdiv_nonneg_iff)
    ultimately show ?thesis using assms(1,2) by linarith
  qed (use assms in \<open>auto simp: signed_divide_int_def sgn_if\<close>)
qed

lemma smod_bounds:
  fixes x y :: int
  assumes "y \<noteq> 0"
  shows "\<bar>x smod y\<bar> < \<bar>y\<bar>" "0 \<le> x smod y * x"
  using smod_int_range [OF assms, of x] assms by (auto simp: signed_modulo_int_def sgn_if zero_le_mult_iff mult_le_0_iff)

text \<open>What the checked division and remainder compute when they do not overflow.\<close>

lemma sint_checked_div:
  assumes "checked_div a b = Some q"
  shows "sint q = sint a sdiv sint b"
proof -
  have n: "\<not> (sint a = - (2 ^ 63) \<and> sint b = - 1)" and q: "q = word_of_int (sint a sdiv sint b)"
    using assms by (auto simp: checked_div_def sint_eq_min sint_eq_minus1 split: if_splits)
  have "- (2 ^ 63) \<le> sint a sdiv sint b" using sdiv_int_range [of "sint a" "sint b"] sint_range [of a] by auto
  moreover have "sint a sdiv sint b < 2 ^ 63" by (rule sdiv_upper [OF sint_range n])
  ultimately show ?thesis by (simp only: q sint_of_range)
qed

lemma sint_checked_rem:
  assumes "checked_rem a b = Some r" "b \<noteq> 0"
  shows "sint r = sint a smod sint b"
proof -
  have q: "r = word_of_int (sint a smod sint b)" using assms by (auto simp: checked_rem_def split: if_splits)
  have "\<bar>sint a smod sint b\<bar> < \<bar>sint b\<bar>" using assms(2) by (intro smod_bounds) (simp add: sint_eq_zero)
  then show ?thesis using sint_range [of b] by (simp only: q sint_of_range) 
qed

text \<open>
  Integer division and remainder of the calculator: by zero both are the division error, they overflow exactly
  when the true quotient is \<open>2 ^ 63\<close>, and otherwise they are the exact quotient and remainder of division that
  truncates toward zero, the remainder having the sign of the dividend.
\<close>

theorem int_division_exact:
  "case (int_arith a b OpDiv, int_arith a b OpRem) of
     (Inr (VInt q), Inr (VInt r)) \<Rightarrow>
       sint q * sint b + sint r = sint a \<and> \<bar>sint r\<bar> < \<bar>sint b\<bar> \<and> 0 \<le> sint r * sint a
   | (Inl ExprDivByZero, Inl ExprDivByZero) \<Rightarrow> sint b = 0
   | (Inl ExprOverflow, Inl ExprOverflow) \<Rightarrow> sint b \<noteq> 0 \<and> sint a sdiv sint b = 2 ^ 63
   | _ \<Rightarrow> False"
proof (cases "b = 0")
  case False
  show ?thesis
  proof (cases "a = i64_min \<and> b = - 1")
    case True
    then show ?thesis using False by (simp add: checked_div_def checked_rem_def or_overflow_def sint_min)
  next
    case ok: False
    obtain q where q: "checked_div a b = Some q" using ok by (auto simp: checked_div_def)
    obtain r where r: "checked_rem a b = Some r" using ok by (auto simp: checked_rem_def)
    have b: "sint b \<noteq> 0" using False by (simp add: sint_eq_zero)
    show ?thesis
      using sint_checked_div [OF q] sint_checked_rem [OF r False] smod_bounds [OF b, of "sint a"] False
      by (simp add: q r or_overflow_def sdiv_mult_smod_eq)
  qed
qed simp

end
