(* ===== verification/Motion_Lines.thy ===== *)
theory Motion_Lines
  imports Char_Boundary
begin

text \<open>
  The motions of \<^verbatim>\<open>crates/core/src/motion.rs\<close> that work on bytes and lines: columns, paragraphs, sections, unmatched
  brackets, methods, Emacs words, line jumps.  A line break belongs to the line it ends, and a buffer that ends in one
  has no line after it (\<open>content_end\<close>).
\<close>

section \<open>Lines and columns\<close>

definition content_end :: "bytes \<Rightarrow> nat" where
  "content_end b = (if last_opt b = Some newline then length b - 1 else length b)"

definition at_nul :: "bytes \<Rightarrow> nat \<Rightarrow> bool" where
  "at_nul b p \<longleftrightarrow> length b \<le> p \<or> b ! p = newline"

definition at_bol :: "bytes \<Rightarrow> nat \<Rightarrow> bool" where
  "at_bol b p \<longleftrightarrow> p = 0 \<or> (p \<le> length b \<and> b ! (p - 1) = newline)"

fun at_col_loop :: "bytes \<Rightarrow> nat \<Rightarrow> nat \<Rightarrow> nat \<Rightarrow> nat" where
  "at_col_loop b e 0 i = i"
| "at_col_loop b e (Suc c) i = (if e \<le> i then i else at_col_loop b e c (next_boundary b i))"

definition mv_at_col :: "bytes \<Rightarrow> nat \<Rightarrow> nat \<Rightarrow> nat" where
  "mv_at_col b start col = (let e = line_end b start in min (at_col_loop b e col start) e)"

text \<open>\<^verbatim>\<open>utf8_chunks\<close>: the valid characters and the bytes of no valid character, counted.\<close>

function count_chars :: "bytes \<Rightarrow> nat" where
  "count_chars b =
     (if b = [] then 0
      else 1 + count_chars (drop (case char_len_at b 0 of Some w \<Rightarrow> max 1 w | None \<Rightarrow> 1) b))"
  by auto
termination
  by (relation "measure length") (auto split: option.splits)

declare count_chars.simps [simp del]

definition col_of :: "bytes \<Rightarrow> nat \<Rightarrow> nat \<Rightarrow> nat" where
  "col_of b start pos = count_chars (slice start pos b)"

definition mv_up :: "bytes \<Rightarrow> nat \<Rightarrow> nat" where
  "mv_up b cur =
     (let ls = line_start b cur in if ls = 0 then cur else mv_at_col b (line_start b (ls - 1)) (col_of b ls cur))"

definition mv_down :: "bytes \<Rightarrow> nat \<Rightarrow> nat" where
  "mv_down b cur =
     (let le = line_end b cur in
      if content_end b \<le> le then cur else mv_at_col b (le + 1) (col_of b (line_start b cur) cur))"

function skip_blanks :: "bytes \<Rightarrow> nat \<Rightarrow> nat \<Rightarrow> nat" where
  "skip_blanks b le i = (if i < le \<and> i < length b \<and> (b ! i = 32 \<or> b ! i = 9) then skip_blanks b le (next_boundary b i) else i)"
  by pat_completeness auto

lemma next_boundary_loop_ge: "i \<le> next_boundary_loop b i"
  by (induction b i rule: next_boundary_loop.induct) (subst next_boundary_loop.simps, auto)

lemma next_boundary_gt: "i < length b \<Longrightarrow> i < next_boundary b i"
  using next_boundary_loop_ge [of "min (i + 1) (length b)" b] by (simp add: next_boundary_def)

termination skip_blanks
  by (relation "measure (\<lambda>(b, le, i). length b - i)") (auto intro!: diff_less_mono2 next_boundary_gt)

declare skip_blanks.simps [simp del]

definition first_non_blank :: "bytes \<Rightarrow> nat \<Rightarrow> nat" where
  "first_non_blank b p = (let ls = line_start b p in skip_blanks b (line_end b ls) ls)"

fun nth_line_loop :: "bytes \<Rightarrow> nat \<Rightarrow> nat \<Rightarrow> nat" where
  "nth_line_loop b 0 ls = ls"
| "nth_line_loop b (Suc n) ls =
     (let le = line_end b ls in if content_end b \<le> le then ls else nth_line_loop b n (le + 1))"

definition mv_nth_line_start :: "bytes \<Rightarrow> nat \<Rightarrow> nat" where
  "mv_nth_line_start b n = nth_line_loop b (max 1 n - 1) 0"

definition last_line_start :: "bytes \<Rightarrow> nat" where
  "last_line_start b = line_start b (content_end b)"

fun lines_down_loop :: "bytes \<Rightarrow> nat \<Rightarrow> nat \<Rightarrow> nat" where
  "lines_down_loop b 0 ls = ls"
| "lines_down_loop b (Suc n) ls =
     (let le = line_end b ls in if length b \<le> le + 1 then ls else lines_down_loop b n (le + 1))"

definition lines_down :: "bytes \<Rightarrow> nat \<Rightarrow> nat \<Rightarrow> nat" where
  "lines_down b pos n = lines_down_loop b n (line_start b pos)"

definition wrap_right :: "bytes \<Rightarrow> nat \<Rightarrow> nat" where
  "wrap_right b c =
     (let le = line_end b c; n = next_boundary b c
      in if n < le then n else if le + 1 < length b then le + 1 else c)"

definition wrap_left :: "bytes \<Rightarrow> nat \<Rightarrow> nat" where
  "wrap_left b c =
     (let ls = line_start b c in
      if ls < c then prev_boundary b c
      else if ls = 0 then c
      else if line_start b (ls - 1) < ls - 1 then prev_boundary b (ls - 1) else ls - 1)"

fun repeat_step :: "nat \<Rightarrow> (nat \<Rightarrow> nat) \<Rightarrow> nat \<Rightarrow> nat" where
  "repeat_step 0 f c = c"
| "repeat_step (Suc n) f c = (let next = f c in if next = c then c else repeat_step n f next)"

section \<open>Paragraphs\<close>

definition is_blank_line :: "bytes \<Rightarrow> nat \<Rightarrow> bool" where
  "is_blank_line b ls \<longleftrightarrow> length b \<le> ls \<or> b ! ls = newline"

function next_para_loop :: "bytes \<Rightarrow> nat \<Rightarrow> bool \<Rightarrow> nat option" where
  "next_para_loop b ls did =
     (let did' = (did \<or> \<not> is_blank_line b ls); le = line_end b ls in
      if length b \<le> le + 1 then None
      else if did' \<and> is_blank_line b (le + 1) then Some (le + 1)
      else next_para_loop b (le + 1) did')"
  by pat_completeness auto

lemma line_end_ge: "length b > line_end b ls + 1 \<Longrightarrow> ls \<le> line_end b ls"
  using line_end_bounds(1) [of ls b] by (simp add: min_def split: if_splits)

lemma next_line_shorter: "line_end b ls + 1 < length b \<Longrightarrow> length b - (line_end b ls + 1) < length b - ls"
  using line_end_ge [of b ls] by linarith

termination next_para_loop
  by (relation "measure (\<lambda>(b, ls, did). length b - ls)") (auto simp: not_le intro!: next_line_shorter [simplified])

declare next_para_loop.simps [simp del]

definition next_para_boundary :: "bytes \<Rightarrow> nat \<Rightarrow> nat option" where
  "next_para_boundary b pos = next_para_loop b (line_start b pos) False"

lemma line_start_before: "0 < ls \<Longrightarrow> line_start b (ls - 1) < ls"
  using line_start_le [of b "ls - 1"] by (simp add: min_def split: if_splits)

function prev_para_loop :: "bytes \<Rightarrow> nat \<Rightarrow> bool \<Rightarrow> nat option" where
  "prev_para_loop b ls did =
     (if ls = 0 then None
      else let prev_ls = line_start b (ls - 1) in
        if did \<and> is_blank_line b prev_ls then Some prev_ls
        else prev_para_loop b prev_ls (did \<or> \<not> is_blank_line b prev_ls))"
  by pat_completeness auto
termination
  by (relation "measure (\<lambda>(b, ls, did). ls)") (auto intro: line_start_before [simplified])

declare prev_para_loop.simps [simp del]

definition prev_para_boundary :: "bytes \<Rightarrow> nat \<Rightarrow> nat option" where
  "prev_para_boundary b pos =
     (let ls = line_start b pos in prev_para_loop b ls (\<not> is_blank_line b ls))"

text \<open>\<open>pg\<close> is \<^verbatim>\<open>prev_grapheme\<close>; the boolean is set when the landing is the edge of the buffer.\<close>

definition para_edge :: "(bytes \<Rightarrow> nat \<Rightarrow> nat) \<Rightarrow> bytes \<Rightarrow> bool \<Rightarrow> nat" where
  "para_edge pg b forward =
     (if forward then (let le = content_end b; ls = line_start b le in if ls < le then pg b le else le) else 0)"

fun paragraph_loop :: "(bytes \<Rightarrow> nat \<Rightarrow> nat) \<Rightarrow> bytes \<Rightarrow> bool \<Rightarrow> nat \<Rightarrow> nat \<Rightarrow> (nat \<times> bool) option" where
  "paragraph_loop pg b forward 0 c = Some (c, False)"
| "paragraph_loop pg b forward (Suc n) c =
     (case (if forward then next_para_boundary b c else prev_para_boundary b c) of
        Some t \<Rightarrow> paragraph_loop pg b forward n t
      | None \<Rightarrow> if 0 < n then None else Some (para_edge pg b forward, True))"

definition paragraph_landing :: "(bytes \<Rightarrow> nat \<Rightarrow> nat) \<Rightarrow> bytes \<Rightarrow> nat \<Rightarrow> bool \<Rightarrow> nat \<Rightarrow> (nat \<times> bool) option" where
  "paragraph_landing pg b cur forward n = paragraph_loop pg b forward n cur"

definition paragraph_target :: "(bytes \<Rightarrow> nat \<Rightarrow> nat) \<Rightarrow> bytes \<Rightarrow> nat \<Rightarrow> bool \<Rightarrow> nat \<Rightarrow> nat" where
  "paragraph_target pg b cur forward n = (case paragraph_landing pg b cur forward n of None \<Rightarrow> cur | Some (t, _) \<Rightarrow> t)"

section \<open>The paragraph object\<close>

definition mv_line_starts :: "bytes \<Rightarrow> nat list" where
  "mv_line_starts b = 0 # map Suc (filter (\<lambda>i. b ! i = newline \<and> i < content_end b) [0..<length b])"

definition line_of_starts :: "nat list \<Rightarrow> nat \<Rightarrow> nat" where
  "line_of_starts starts pos = partition_point (\<lambda>s. s \<le> pos) starts - 1"

definition white_line :: "bytes \<Rightarrow> nat list \<Rightarrow> nat \<Rightarrow> bool" where
  "white_line b starts l \<longleftrightarrow>
     (let ls = starts ! l in list_all (\<lambda>c. c = 32 \<or> c = 9) (slice ls (line_end b ls) b))"

definition start_ps :: "bytes \<Rightarrow> nat list \<Rightarrow> nat \<Rightarrow> bool" where
  "start_ps b starts l \<longleftrightarrow>
     (let ls = starts ! l in length b \<le> ls \<or> b ! ls = newline \<or> b ! ls = 0x0C)"

fun para_up :: "(nat \<Rightarrow> bool) \<Rightarrow> (nat \<Rightarrow> bool) \<Rightarrow> bool \<Rightarrow> nat \<Rightarrow> nat" where
  "para_up white ps front 0 = 0"
| "para_up white ps front (Suc s) =
     (if (if front then \<not> white s else white s \<or> ps (Suc s)) then Suc s else para_up white ps front s)"

function skip_lines :: "(nat \<Rightarrow> bool) \<Rightarrow> nat \<Rightarrow> nat \<Rightarrow> nat" where
  "skip_lines P lst next = (if next \<le> lst \<and> P next then skip_lines P lst (next + 1) else next)"
  by pat_completeness auto
termination
  by (relation "measure (\<lambda>(P, lst, next). Suc lst - next)") auto

declare skip_lines.simps [simp del]

fun para_take :: "(nat \<Rightarrow> bool) \<Rightarrow> (nat \<Rightarrow> bool) \<Rightarrow> nat \<Rightarrow> bool \<Rightarrow> bool \<Rightarrow> nat \<Rightarrow> nat \<Rightarrow> nat option" where
  "para_take white ps lst include front 0 next = Some next"
| "para_take white ps lst include front (Suc i) next =
     (if lst < next then None
      else let do_white = (\<not> include \<and> white next);
               n1 = (if include \<or> \<not> do_white then skip_lines (\<lambda>l. \<not> white l \<and> \<not> ps l) lst (next + 1) else next)
           in if i = 0 \<and> front \<and> include then Some n1
              else para_take white ps lst include front i (if include \<or> do_white then skip_lines white lst n1 else n1))"

fun para_back :: "(nat \<Rightarrow> bool) \<Rightarrow> nat \<Rightarrow> nat" where
  "para_back white 0 = 0"
| "para_back white (Suc s) = (if white s then para_back white s else Suc s)"

definition paragraph_lines :: "bytes \<Rightarrow> nat \<Rightarrow> nat \<Rightarrow> bool \<Rightarrow> (nat \<times> nat) option" where
  "paragraph_lines b cur count include =
     (let starts = mv_line_starts b; lst = length starts - 1; white = white_line b starts; ps = start_ps b starts;
          row = line_of_starts starts cur; front = white row;
          start = para_up white ps front row;
          next = skip_lines white lst start;
          i = max 1 count - (if \<not> include \<and> front then 1 else 0)
      in case para_take white ps lst include front i next of
           None \<Rightarrow> None
         | Some next' \<Rightarrow>
             let e = next' - 1 in
             Some (if \<not> front \<and> \<not> white e \<and> include then para_back white start else start, e))"

definition paragraph_span :: "bytes \<Rightarrow> nat \<Rightarrow> nat \<Rightarrow> bool \<Rightarrow> nat \<times> nat" where
  "paragraph_span b cur count around =
     (if b = [] then (0, 0)
      else case paragraph_lines b cur count around of
        None \<Rightarrow> (cur, cur)
      | Some (first, lst) \<Rightarrow>
          (let starts = mv_line_starts b; le = line_end b (starts ! lst)
           in (starts ! first, if le < length b then le + 1 else le)))"

definition paragraph_fails :: "bytes \<Rightarrow> nat \<Rightarrow> nat \<Rightarrow> bool \<Rightarrow> bool" where
  "paragraph_fails b cur count around \<longleftrightarrow> b \<noteq> [] \<and> paragraph_lines b cur count around = None"

section \<open>Sections\<close>

definition is_section_line :: "bytes \<Rightarrow> nat \<Rightarrow> bool \<Rightarrow> bool" where
  "is_section_line b ls ends =
     (case get_at b ls of
        Some c \<Rightarrow> c = 0x0C \<or> c = (if ends then 125 else 123)
      | None \<Rightarrow> False)"

lemma content_end_le: "content_end b \<le> length b"
  by (simp add: content_end_def)

lemma line_end_before_content: "line_end b ls < content_end b \<Longrightarrow> ls \<le> line_end b ls"
  using line_end_bounds(1) [of ls b] content_end_le [of b] by (simp add: min_def split: if_splits)

function scan_section_fwd :: "bytes \<Rightarrow> bool \<Rightarrow> nat \<Rightarrow> nat option" where
  "scan_section_fwd b ends cur =
     (let le = line_end b cur in
      if content_end b \<le> le then None
      else if is_section_line b (le + 1) ends then Some (le + 1)
      else scan_section_fwd b ends (le + 1))"
  by pat_completeness auto

lemma next_content_line_shorter: "line_end b ls < content_end b \<Longrightarrow> length b - (line_end b ls + 1) < length b - ls"
  using line_end_before_content [of b ls] content_end_le [of b] by linarith

termination scan_section_fwd
  by (relation "measure (\<lambda>(b, ends, cur). length b - cur)") (auto simp: not_le intro!: next_content_line_shorter [simplified])

declare scan_section_fwd.simps [simp del]

function scan_section_back :: "bytes \<Rightarrow> bool \<Rightarrow> nat \<Rightarrow> nat option" where
  "scan_section_back b ends cur =
     (if cur = 0 then None
      else let cur' = line_start b (cur - 1) in
        if is_section_line b cur' ends then Some cur' else scan_section_back b ends cur')"
  by pat_completeness auto
termination
  by (relation "measure (\<lambda>(b, ends, cur). cur)") (auto intro: line_start_before [simplified])

declare scan_section_back.simps [simp del]

fun next_section_loop :: "bytes \<Rightarrow> bool \<Rightarrow> nat \<Rightarrow> nat \<Rightarrow> nat" where
  "next_section_loop b ends 0 ls = ls"
| "next_section_loop b ends (Suc n) ls =
     (case scan_section_fwd b ends ls of Some f \<Rightarrow> next_section_loop b ends n f | None \<Rightarrow> last_line_start b)"

definition next_section_line :: "bytes \<Rightarrow> nat \<Rightarrow> nat \<Rightarrow> bool \<Rightarrow> nat" where
  "next_section_line b pos count ends = next_section_loop b ends (max 1 count) (line_start b pos)"

fun prev_section_loop :: "bytes \<Rightarrow> bool \<Rightarrow> nat \<Rightarrow> nat \<Rightarrow> nat" where
  "prev_section_loop b ends 0 ls = ls"
| "prev_section_loop b ends (Suc n) ls =
     (case scan_section_back b ends ls of Some f \<Rightarrow> prev_section_loop b ends n f | None \<Rightarrow> 0)"

definition prev_section_line :: "bytes \<Rightarrow> nat \<Rightarrow> nat \<Rightarrow> bool \<Rightarrow> nat" where
  "prev_section_line b pos count ends = prev_section_loop b ends (max 1 count) (line_start b pos)"

section \<open>Brackets and methods\<close>

text \<open>The scans of \<^verbatim>\<open>unmatched_bracket\<close>: \<open>r\<close> brackets remain, at nesting \<open>d\<close>; the backward one reads the byte before \<open>i\<close>.\<close>

function bracket_fwd :: "bytes \<Rightarrow> byte \<Rightarrow> byte \<Rightarrow> nat \<Rightarrow> nat \<Rightarrow> nat \<Rightarrow> nat option" where
  "bracket_fwd b op cl r d i =
     (if length b \<le> i then None
      else if b ! i = op then bracket_fwd b op cl r (d + 1) (i + 1)
      else if b ! i = cl then
        if d = 0 then (if r - 1 = 0 then Some i else bracket_fwd b op cl (r - 1) d (i + 1))
        else bracket_fwd b op cl r (d - 1) (i + 1)
      else bracket_fwd b op cl r d (i + 1))"
  by pat_completeness auto
termination
  by (relation "measure (\<lambda>(b, op, cl, r, d, i). length b - i)") auto

declare bracket_fwd.simps [simp del]

fun bracket_back :: "bytes \<Rightarrow> byte \<Rightarrow> byte \<Rightarrow> nat \<Rightarrow> nat \<Rightarrow> nat \<Rightarrow> nat option" where
  "bracket_back b op cl r d 0 = None"
| "bracket_back b op cl r d (Suc i) =
     (if b ! i = cl then bracket_back b op cl r (d + 1) i
      else if b ! i = op then
        if d = 0 then (if r - 1 = 0 then Some i else bracket_back b op cl (r - 1) d i)
        else bracket_back b op cl r (d - 1) i
      else bracket_back b op cl r d i)"

definition unmatched_bracket :: "bytes \<Rightarrow> nat \<Rightarrow> byte \<Rightarrow> byte \<Rightarrow> bool \<Rightarrow> nat \<Rightarrow> nat" where
  "unmatched_bracket b cursor op cl forward count =
     (case (if forward then bracket_fwd b op cl (max 1 count) 0 (cursor + 1)
            else bracket_back b op cl (max 1 count) 0 (min cursor (length b))) of
        Some i \<Rightarrow> i
      | None \<Rightarrow> cursor)"

definition find_enclosing_brace :: "bytes \<Rightarrow> nat \<Rightarrow> bool \<Rightarrow> nat option" where
  "find_enclosing_brace b cursor forward =
     (let t = unmatched_bracket b cursor 123 125 forward 1 in if t = cursor then None else Some t)"

lemma bracket_fwd_range: "bracket_fwd b op cl r d i = Some t \<Longrightarrow> i \<le> t \<and> t < length b"
proof (induction "length b - i" arbitrary: op cl r d i rule: less_induct)
  case less
  show ?case
  proof (cases "i < length b")
    case True
    then have "length b - (i + 1) < length b - i" by linarith
    note IH = less.hyps [OF this]
    show ?thesis using less.prems True unfolding bracket_fwd.simps [of b op cl r d i]
      by (auto split: if_splits dest!: IH [simplified])
  qed (use less.prems in \<open>simp add: bracket_fwd.simps [of b op cl r d i]\<close>)
qed

lemma bracket_back_range: "bracket_back b op cl r d i = Some t \<Longrightarrow> t < i"
  by (induction b op cl r d i rule: bracket_back.induct) (auto split: if_splits)

lemma find_enclosing_brace_moves:
  assumes "find_enclosing_brace b cursor forward = Some t"
  shows "if forward then cursor < t \<and> t < length b else t < cursor \<and> t < length b"
proof (cases forward)
  case True
  then have "bracket_fwd b 123 125 1 0 (cursor + 1) = Some t"
    using assms by (simp add: find_enclosing_brace_def unmatched_bracket_def Let_def split: if_splits option.splits)
  from bracket_fwd_range [OF this] True show ?thesis by simp
next
  case False
  then have "bracket_back b 123 125 1 0 (min cursor (length b)) = Some t"
    using assms by (simp add: find_enclosing_brace_def unmatched_bracket_def Let_def split: if_splits option.splits)
  from bracket_back_range [OF this] False show ?thesis by simp
qed

text \<open>Phase 1 of \<^verbatim>\<open>method_target\<close>: walk out of the nesting, keeping the last two braces found.\<close>

function method_out :: "bytes \<Rightarrow> bool \<Rightarrow> nat \<Rightarrow> nat option \<Rightarrow> nat option \<Rightarrow> nat option \<times> nat option" where
  "method_out b forward cur new_pos prev_pos =
     (case find_enclosing_brace b cur forward of
        None \<Rightarrow> (new_pos, prev_pos)
      | Some pos \<Rightarrow> method_out b forward pos (Some pos) new_pos)"
  by pat_completeness auto
termination
proof (relation "measure (\<lambda>(b, forward, cur, _). if forward then length b - cur else cur)")
  fix b forward cur new_pos prev_pos pos
  assume "find_enclosing_brace b cur forward = Some pos"
  from find_enclosing_brace_moves [OF this]
  show "((b, forward, pos, Some pos, new_pos), (b, forward, cur, new_pos, prev_pos))
      \<in> measure (\<lambda>(b, forward, cur, _). if forward then length b - cur else cur)"
    by (cases forward) (auto intro: diff_less_mono2)
qed simp

declare method_out.simps [simp del]

text \<open>The scan of phase 2 for the next brace in the direction, \<open>None\<close> at the edge of the buffer.\<close>

function scan_brace :: "bytes \<Rightarrow> bool \<Rightarrow> nat \<Rightarrow> nat option" where
  "scan_brace b forward cur =
     (case (if forward then (let nx = next_boundary b cur in if length b \<le> nx then None else Some nx)
            else if cur = 0 then None else Some (prev_boundary b cur)) of
        None \<Rightarrow> None
      | Some nc \<Rightarrow> if b ! nc = 123 \<or> b ! nc = 125 then Some nc else scan_brace b forward nc)"
  by pat_completeness auto

lemma prev_boundary_less: "0 < p \<Longrightarrow> prev_boundary b p < p"
  using prev_boundary_loop_le [of b "min p (length b)"] by (cases "length b") (auto simp: prev_boundary_def min_def split: if_splits)

lemma next_boundary_less_length: "next_boundary b p < length b \<Longrightarrow> p < next_boundary b p"
  using next_boundary_loop_ge [of "min (p + 1) (length b)" b] by (simp add: next_boundary_def min_def split: if_splits)

lemma scan_shorter: "next_boundary b p < length b \<Longrightarrow> length b - next_boundary b p < length b - p"
  using next_boundary_less_length [of b p] by linarith

termination scan_brace
  by (relation "measure (\<lambda>(b, forward, cur). if forward then length b - cur else cur)")
    (auto simp: Let_def not_le intro!: scan_shorter prev_boundary_less split: if_splits)

declare scan_brace.simps [simp del]

text \<open>Phase 2, \<open>Suc n\<close> braces still to take; \<open>None\<close> is the error on which the cursor stays put.\<close>

fun method_scan :: "bytes \<Rightarrow> bool \<Rightarrow> bool \<Rightarrow> nat \<Rightarrow> nat \<Rightarrow> nat option \<Rightarrow> nat option \<Rightarrow> nat option" where
  "method_scan b forward norm 0 cur new_pos pos = pos"
| "method_scan b forward norm (Suc n) cur new_pos pos =
     (case scan_brace b forward cur of
        None \<Rightarrow> pos
      | Some nc \<Rightarrow>
          if (b ! nc = (if forward then 125 else 123) \<and> norm) \<or> (n = 0 \<and> \<not> norm) then Some nc
          else if new_pos = None then method_scan b forward norm n nc (Some nc) (Some nc)
          else (case find_enclosing_brace b nc forward of
                  Some m \<Rightarrow> method_scan b forward norm n m new_pos (Some m)
                | None \<Rightarrow> None))"

definition method_target :: "bytes \<Rightarrow> nat \<Rightarrow> bool \<Rightarrow> bool \<Rightarrow> nat \<Rightarrow> nat" where
  "method_target b cursor forward ends count =
     (let old_pos = min cursor (length b); norm = ((\<not> forward) = (\<not> ends));
          (new_pos, prev_pos) = method_out b forward old_pos None None;
          r = (case prev_pos of
                 Some pp \<Rightarrow> method_scan b forward norm (max 1 count - (if norm then 1 else 0)) pp new_pos (Some pp)
               | None \<Rightarrow> method_scan b forward norm (max 1 count) old_pos new_pos None)
      in case r of Some p \<Rightarrow> p | None \<Rightarrow> old_pos)"

section \<open>Emacs words\<close>

definition is_ascii_alphanumeric :: "byte \<Rightarrow> bool" where
  "is_ascii_alphanumeric c \<longleftrightarrow> (48 \<le> c \<and> c \<le> 57) \<or> (65 \<le> c \<and> c \<le> 90) \<or> (97 \<le> c \<and> c \<le> 122)"

definition is_emacs_word :: "byte \<Rightarrow> bool" where
  "is_emacs_word c \<longleftrightarrow> is_ascii_alphanumeric c \<or> 0x80 \<le> c"

function run_fwd :: "(byte \<Rightarrow> bool) \<Rightarrow> bytes \<Rightarrow> nat \<Rightarrow> nat" where
  "run_fwd P b i = (if i < length b \<and> P (b ! i) then run_fwd P b (i + 1) else i)"
  by pat_completeness auto
termination
  by (relation "measure (\<lambda>(P, b, i). length b - i)") auto

declare run_fwd.simps [simp del]

fun run_back :: "(byte \<Rightarrow> bool) \<Rightarrow> bytes \<Rightarrow> nat \<Rightarrow> nat" where
  "run_back P b 0 = 0"
| "run_back P b (Suc i) = (if P (b ! i) then run_back P b i else Suc i)"

definition emacs_word_fwd :: "bytes \<Rightarrow> nat \<Rightarrow> nat" where
  "emacs_word_fwd b pos = run_fwd is_emacs_word b (run_fwd (\<lambda>c. \<not> is_emacs_word c) b (min pos (length b)))"

definition emacs_word_back :: "bytes \<Rightarrow> nat \<Rightarrow> nat" where
  "emacs_word_back b pos = run_back is_emacs_word b (run_back (\<lambda>c. \<not> is_emacs_word c) b (min pos (length b)))"

end
