(* ===== verification/Motion_Laws.thy ===== *)
theory Motion_Laws
  imports Motion_Lines
begin

text \<open>
  What the byte and line motions compute, each against a declarative search of the buffer: an unmatched bracket is
  the first place where the closing brackets outnumber the opening ones by the count, \<open>count\<close> paragraphs or sections
  away is the \<open>count\<close>-th stop of a list of stops, and a repeated step is the iterated function.
\<close>

section \<open>First hits\<close>

lemma find_same_first:
  assumes "\<And>t. t \<in> set xs \<Longrightarrow> P' t \<Longrightarrow> P t"
    and "\<And>i. i < length xs \<Longrightarrow> P (xs ! i) \<Longrightarrow> \<not> P' (xs ! i) \<Longrightarrow> \<exists>j < i. P (xs ! j)"
  shows "find P xs = find P' xs"
proof (cases "find P xs")
  case None
  then have "find P' xs = None" using assms(1) by (auto simp: find_None_iff)
  with None show ?thesis by simp
next
  case (Some t)
  then obtain i where i: "i < length xs" "P (xs ! i)" "t = xs ! i" "\<forall>j < i. \<not> P (xs ! j)" by (auto simp: find_Some_iff)
  have "P' (xs ! i)" using assms(2) [OF i(1,2)] i(4) by blast
  moreover have "\<forall>j < i. \<not> P' (xs ! j)" using i(1,4) assms(1) by (metis less_trans nth_mem)
  ultimately have "find P' xs = Some t" using i by (auto simp: find_Some_iff)
  with Some show ?thesis by simp
qed

lemma find_upt: "find P [a..<n] = (if a < n then if P a then Some a else find P [Suc a..<n] else None)"
  by (simp add: upt_rec)

lemma find_append: "find P (xs @ ys) = (case find P xs of None \<Rightarrow> find P ys | Some x \<Rightarrow> Some x)"
  by (induction xs) simp_all

lemma find_none: "(\<And>t. t \<in> set xs \<Longrightarrow> \<not> P t) \<Longrightarrow> find P xs = None"
  by (simp add: find_None_iff)

lemma find_skip:
  assumes "a \<le> c" "\<And>t. a \<le> t \<Longrightarrow> t < c \<Longrightarrow> \<not> P t"
  shows "find P [a..<n] = find P [c..<n]"
proof (cases "c \<le> n")
  case True
  then have "[a..<n] = [a..<c] @ [c..<n]" using upt_add_eq_append [of a c "n - c"] assms(1) by simp
  moreover have "find P [a..<c] = None" using assms(2) by (auto simp: find_None_iff)
  ultimately show ?thesis by (simp add: find_append)
qed (use assms in \<open>auto simp: find_None_iff\<close>)

lemma find_skip_rev:
  assumes "a \<le> c" "\<And>t. a \<le> t \<Longrightarrow> t < c \<Longrightarrow> \<not> P t"
  shows "find P (rev [0..<c]) = find P (rev [0..<a])"
proof -
  have "[0..<c] = [0..<a] @ [a..<c]" using upt_add_eq_append [of 0 a "c - a"] assms(1) by simp
  moreover have "find P (rev [a..<c]) = None" using assms(2) by (auto simp: find_None_iff)
  ultimately show ?thesis by (simp add: find_append)
qed

lemma find_cong_on: "(\<And>t. t \<in> set xs \<Longrightarrow> P t = Q t) \<Longrightarrow> find P xs = find Q xs"
  by (rule find_cong) simp_all

lemma find_filter: "find Q (filter P xs) = find (\<lambda>t. P t \<and> Q t) xs"
  by (induction xs) simp_all

lemma get_at_0_filter: "get_at (filter P xs) 0 = find P xs"
  by (induction xs) (auto simp: get_at_def split: if_splits)

text \<open>In a strictly ordered list the element after the \<open>i\<close>-th is the first one beyond it.\<close>

lemma find_beyond:
  assumes "sorted_wrt R xs" "i < length xs" "\<And>x y. R x y \<Longrightarrow> \<not> R y x"
  shows "find (R (xs ! i)) xs = get_at xs (Suc i)"
proof -
  have below: "\<not> R (xs ! i) (xs ! j)" if "j \<le> i" for j
    using sorted_wrt_nth_less [OF assms(1), of j i] assms(2,3) that by (cases "j = i") auto
  show ?thesis
  proof (cases "Suc i < length xs")
    case True
    then have "find (R (xs ! i)) xs = Some (xs ! Suc i)"
      using sorted_wrt_nth_less [OF assms(1), of i "Suc i"] below by (auto simp: find_Some_iff less_Suc_eq_le)
    with True show ?thesis by (simp add: get_at_def)
  next
    case False
    then have "find (R (xs ! i)) xs = None" using below by (auto simp: find_None_iff in_set_conv_nth)
    with False show ?thesis by (simp add: get_at_def)
  qed
qed

section \<open>Repeated steps\<close>

text \<open>Leaving the loop at a fixpoint does not change what \<open>n\<close> steps give.\<close>

theorem repeat_step_iterates: "repeat_step n f c = (f ^^ n) c"
proof (induction n arbitrary: c)
  case (Suc n)
  have "(f ^^ m) c = c" if "f c = c" for m using that by (induction m) simp_all
  with Suc show ?case by (simp add: Let_def funpow_swap1)
qed simp

section \<open>Unmatched brackets\<close>

text \<open>How many more closing than opening brackets a text has.\<close>

definition excess :: "byte \<Rightarrow> byte \<Rightarrow> bytes \<Rightarrow> int" where
  "excess cl op xs = int (count_list xs cl) - int (count_list xs op)"

lemma excess_simps [simp]:
  "excess cl op [] = 0"
  "excess cl op (x # xs) = (if x = cl then 1 else 0) - (if x = op then 1 else 0) + excess cl op xs"
  "excess cl op (xs @ ys) = excess cl op xs + excess cl op ys"
  by (simp_all add: excess_def)

lemma bracket_fwd_first:
  assumes "op \<noteq> cl"
  shows "0 < r \<Longrightarrow> bracket_fwd b op cl r d i = find (\<lambda>t. excess cl op (slice i (t + 1) b) = int (r + d)) [i..<length b]"
proof (induction "length b - i" arbitrary: r d i rule: less_induct)
  case less
  show ?case
  proof (cases "i < length b")
    case True
    then have "length b - (i + 1) < length b - i" by linarith
    note IH = less.hyps [OF this, simplified]
    let ?c = "(if b ! i = cl then 1 else 0) - (if b ! i = op then 1 else 0) :: int"
    have tail: "find (\<lambda>t. excess cl op (slice i (t + 1) b) = k) [Suc i..<length b] =
        find (\<lambda>t. excess cl op (slice (Suc i) (t + 1) b) = k - ?c) [Suc i..<length b]" for k
      by (rule find_cong_on) (auto simp: slice_Cons)
    have "excess cl op (slice i (i + 1) b) = ?c" using True by (simp add: slice_Cons)
    then have step: "find (\<lambda>t. excess cl op (slice i (t + 1) b) = k) [i..<length b] =
        (if ?c = k then Some i
         else find (\<lambda>t. excess cl op (slice (Suc i) (t + 1) b) = k - ?c) [Suc i..<length b])" for k
      unfolding find_upt [of _ i] using True by (simp only: tail if_True simp_thms)
    consider "b ! i = op" | "b ! i = cl" "d = 0" | "b ! i = cl" "0 < d" | "b ! i \<noteq> op" "b ! i \<noteq> cl" by blast
    then show ?thesis
      unfolding step bracket_fwd.simps [of b op cl r d i] using True less.prems assms
      by cases (auto simp: IH algebra_simps of_nat_diff)
  qed (simp add: bracket_fwd.simps [of b op cl r d i])
qed

lemma bracket_back_first:
  assumes "op \<noteq> cl"
  shows "0 < r \<Longrightarrow> i \<le> length b \<Longrightarrow>
    bracket_back b op cl r d i = find (\<lambda>t. excess op cl (slice t i b) = int (r + d)) (rev [0..<i])"
proof (induction i arbitrary: r d)
  case (Suc i)
  let ?c = "(if b ! i = op then 1 else 0) - (if b ! i = cl then 1 else 0) :: int"
  have tail: "find (\<lambda>t. excess op cl (slice t (Suc i) b) = k) (rev [0..<i]) =
      find (\<lambda>t. excess op cl (slice t i b) = k - ?c) (rev [0..<i])" for k
    using Suc.prems by (intro find_cong_on) (auto simp: slice_snoc)
  have "excess op cl (slice i (Suc i) b) = ?c" using Suc.prems by (simp add: slice_snoc)
  then have step: "find (\<lambda>t. excess op cl (slice t (Suc i) b) = k) (rev [0..<Suc i]) =
      (if ?c = k then Some i else find (\<lambda>t. excess op cl (slice t i b) = k - ?c) (rev [0..<i]))" for k
    by (simp add: tail)
  have IH: "0 < r' \<Longrightarrow> bracket_back b op cl r' d' i = find (\<lambda>t. excess op cl (slice t i b) = int (r' + d')) (rev [0..<i])" for r' d'
    using Suc by simp
  consider "b ! i = op" "d = 0" | "b ! i = op" "0 < d" | "b ! i = cl" | "b ! i \<noteq> op" "b ! i \<noteq> cl" by blast
  then show ?case unfolding step using Suc.prems assms by cases (auto simp: IH algebra_simps of_nat_diff)
qed simp

text \<open>
  C27: The unmatched-bracket motions go, forward, to the first place after the cursor where the closing brackets passed
  outnumber the opening ones by the count, and backward to the nearest place before it where the opening ones do;
  where there is none they stay.
\<close>

theorem unmatched_bracket_spec:
  assumes "op \<noteq> cl"
  shows "unmatched_bracket b cursor op cl forward count =
    (let n = int (max 1 count) in
     case (if forward then find (\<lambda>t. excess cl op (slice (cursor + 1) (t + 1) b) = n) [cursor + 1..<length b]
           else find (\<lambda>t. excess op cl (slice t (min cursor (length b)) b) = n) (rev [0..<min cursor (length b)])) of
       Some t \<Rightarrow> t
     | None \<Rightarrow> cursor)"
  using bracket_fwd_first [OF assms, of "max 1 count" b 0 "cursor + 1"]
    bracket_back_first [OF assms, of "max 1 count" "min cursor (length b)" b 0]
  by (simp add: unmatched_bracket_def Let_def del: upt_Suc)

text \<open>\<^verbatim>\<open>a(b(c)d)\<close> from the \<^verbatim>\<open>d\<close>: back to the outer parenthesis, forward to its partner.\<close>

theorem unmatched_bracket_spec_witness:
  "unmatched_bracket [97, 40, 98, 40, 99, 41, 100, 41] 6 40 41 False 1 = 1 \<and>
   unmatched_bracket [97, 40, 98, 40, 99, 41, 100, 41] 6 40 41 True 1 = 7"
  using unmatched_bracket_spec [of 40 41 "[97, 40, 98, 40, 99, 41, 100, 41]" 6 False 1]
    unmatched_bracket_spec [of 40 41 "[97, 40, 98, 40, 99, 41, 100, 41]" 6 True 1]
  by (simp add: slice_def upt_rec excess_def)

section \<open>Walks over stops\<close>

text \<open>\<open>n\<close> steps, or how many were left over when one found nothing.\<close>

fun take_steps :: "(nat \<Rightarrow> nat option) \<Rightarrow> nat \<Rightarrow> nat \<Rightarrow> nat + nat" where
  "take_steps step 0 c = Inr c"
| "take_steps step (Suc n) c = (case step c of Some t \<Rightarrow> take_steps step n t | None \<Rightarrow> Inl n)"

text \<open>A step that goes from its start to the first of a list of stops and from each stop to the next.\<close>

locale stop_walk =
  fixes step :: "nat \<Rightarrow> nat option" and start :: nat and stops :: "nat list"
  assumes from_start: "step start = get_at stops 0"
    and from_stop: "i < length stops \<Longrightarrow> step (stops ! i) = get_at stops (Suc i)"
begin

lemma steps_from_stop:
  "i < length stops \<Longrightarrow>
   take_steps step n (stops ! i) = (if i + n < length stops then Inr (stops ! (i + n)) else Inl (i + n - length stops))"
proof (induction n arbitrary: i)
  case (Suc n)
  show ?case
  proof (cases "Suc i < length stops")
    case True
    then have "step (stops ! i) = Some (stops ! Suc i)" using from_stop [OF Suc.prems] by (simp add: get_at_def)
    then show ?thesis using Suc.IH [OF True] by simp
  next
    case False
    then have "step (stops ! i) = None" using from_stop [OF Suc.prems] by (simp add: get_at_def)
    moreover have "length stops = Suc i" using False Suc.prems by simp
    ultimately show ?thesis by simp
  qed
qed simp

lemma steps_from_start:
  "take_steps step n start =
     (if n = 0 then Inr start else if n \<le> length stops then Inr (stops ! (n - 1)) else Inl (n - length stops - 1))"
proof (cases n)
  case (Suc m)
  show ?thesis
  proof (cases "stops = []")
    case False
    then have "step start = Some (stops ! 0)" using from_start by (simp add: get_at_def)
    moreover have "0 < length stops" using False by simp
    ultimately show ?thesis using Suc steps_from_stop [of 0 m] by auto
  qed (use Suc from_start in \<open>simp add: get_at_def\<close>)
qed simp

end

text \<open>A step that finds the first hit beyond a position, over the hits of a list ordered in its direction.\<close>

lemma stop_walkI:
  assumes "sorted_wrt R xs" "\<And>x y. R x y \<Longrightarrow> \<not> R y x"
    and "step start = find P xs"
    and "\<And>s. s \<in> set xs \<Longrightarrow> P s \<Longrightarrow> step s = find (\<lambda>t. P t \<and> R s t) xs"
  shows "stop_walk step start (filter P xs)"
proof
  show "step start = get_at (filter P xs) 0" using assms(3) by (simp add: get_at_0_filter)
  fix i assume i: "i < length (filter P xs)"
  then have "filter P xs ! i \<in> set (filter P xs)" by (rule nth_mem)
  then have "step (filter P xs ! i) = find (R (filter P xs ! i)) (filter P xs)" by (simp add: assms(4) find_filter)
  also have "\<dots> = get_at (filter P xs) (Suc i)"
    using sorted_wrt_filter [OF assms(1)] i assms(2) by (rule find_beyond)
  finally show "step (filter P xs ! i) = get_at (filter P xs) (Suc i)" .
qed

section \<open>Line starts\<close>

lemma at_bol_line_start: "at_bol b (line_start b p)"
  by (cases rule: line_start_cases [of b p]) (auto simp: at_bol_def)

lemma line_start_le_length: "line_start b p \<le> length b"
  using line_start_le [of b p] by simp

lemma line_start_self: "at_bol b s \<Longrightarrow> s \<le> length b \<Longrightarrow> line_start b s = s"
  by (rule line_start_eqI) (auto simp: at_bol_def)

lemma no_newline_from_bol:
  assumes "at_bol b ls" "ls \<le> length b" "ls \<le> t" "t < line_end b ls"
  shows "b ! t \<noteq> newline"
  using no_newline_on_line [of b ls t] assms by (simp add: line_start_self)

lemma not_bol_on_line:
  assumes "at_bol b ls" "ls \<le> length b" "ls < t" "t \<le> line_end b ls"
  shows "\<not> at_bol b t"
  using no_newline_from_bol [OF assms(1,2), of "t - 1"] assms(3,4) by (auto simp: at_bol_def)

lemma line_end_newline:
  assumes "line_end b ls < length b"
  shows "b ! line_end b ls = newline"
  using assms by (cases rule: line_end_cases [of b ls]) auto

lemma at_bol_next: "line_end b ls < length b \<Longrightarrow> at_bol b (line_end b ls + 1)"
  using line_end_newline [of b ls] by (simp add: at_bol_def)

lemma line_end_blank: "ls < length b \<Longrightarrow> b ! ls = newline \<Longrightarrow> line_end b ls = ls"
  by (rule line_end_eqI) auto

text \<open>A search for something only a line start can be goes from line to line.\<close>

lemma find_next_line:
  assumes "at_bol b ls" "ls \<le> length b" "\<And>t. P t \<Longrightarrow> at_bol b t"
  shows "find P [Suc ls..<length b] =
    (if line_end b ls + 1 < length b then
       (if P (line_end b ls + 1) then Some (line_end b ls + 1) else find P [Suc (line_end b ls + 1)..<length b])
     else None)"
proof -
  have le: "ls \<le> line_end b ls" using line_end_bounds(1) [of ls b] assms(2) by simp
  have "\<not> P t" if "Suc ls \<le> t" "t < line_end b ls + 1" for t
    using not_bol_on_line [OF assms(1,2), of t] assms(3) [of t] that by auto
  then have "find P [Suc ls..<length b] = find P [line_end b ls + 1..<length b]"
    using le by (intro find_skip) auto
  then show ?thesis using find_upt [of P "line_end b ls + 1" "length b"] by simp
qed

lemma find_prev_line:
  assumes "at_bol b ls" "0 < ls" "ls \<le> length b" "\<And>t. P t \<Longrightarrow> at_bol b t"
  shows "find P (rev [0..<ls]) =
    (if P (line_start b (ls - 1)) then Some (line_start b (ls - 1)) else find P (rev [0..<line_start b (ls - 1)]))"
proof -
  let ?pl = "line_start b (ls - 1)"
  have pl: "?pl < ls" using assms(2) by (rule line_start_before)
  have "\<not> at_bol b t" if "Suc ?pl \<le> t" "t < ls" for t
  proof -
    have "b ! (t - 1) \<noteq> newline"
    proof (cases rule: line_start_cases [of b "ls - 1"])
      case first
      moreover have "t - 1 < ls - 1" "t - 1 < length b" using that assms(3) by linarith+
      ultimately show ?thesis using nth_mem_take [of "t - 1" "ls - 1" b] by auto
    next
      case (after i)
      have "i < t - 1" "t - 1 < ls - 1" "t - 1 < length b" using after(1) that assms(3) by linarith+
      with after(5) show ?thesis by blast
    qed
    then show ?thesis using that by (auto simp: at_bol_def)
  qed
  then have "find P (rev [0..<ls]) = find P (rev [0..<Suc ?pl])"
    using pl assms(4) by (intro find_skip_rev) auto
  then show ?thesis by simp
qed

section \<open>Sections\<close>

lemma section_in_text: "is_section_line b t ends \<Longrightarrow> t < length b"
  by (auto simp: is_section_line_def get_at_def split: option.splits if_splits)

lemma scan_section_fwd_first:
  "at_bol b ls \<Longrightarrow> ls \<le> length b \<Longrightarrow>
   scan_section_fwd b ends ls = find (\<lambda>t. at_bol b t \<and> is_section_line b t ends) [Suc ls..<length b]"
proof (induction "length b - ls" arbitrary: ls rule: less_induct)
  case less
  let ?P = "\<lambda>t. at_bol b t \<and> is_section_line b t ends" and ?le = "line_end b ls"
  have find: "find ?P [Suc ls..<length b] =
      (if ?le + 1 < length b then (if ?P (?le + 1) then Some (?le + 1) else find ?P [Suc (?le + 1)..<length b]) else None)"
    using less.prems by (intro find_next_line) auto
  show ?case
  proof (cases "content_end b \<le> ?le")
    case True
    then have "length b \<le> ?le + 1" by (auto simp: content_end_def split: if_splits)
    then show ?thesis unfolding find using True by (simp add: scan_section_fwd.simps [of b ends ls] Let_def)
  next
    case False
    then have lt: "?le < content_end b" by simp
    then have nl: "?le < length b" using content_end_le [of b] by simp
    have bol: "at_bol b (?le + 1)" using nl by (rule at_bol_next)
    have shorter: "length b - (?le + 1) < length b - ls" using lt by (rule next_content_line_shorter)
    have IH: "scan_section_fwd b ends (?le + 1) = find ?P [Suc (?le + 1)..<length b]"
      using less.hyps [OF shorter bol] nl by simp
    show ?thesis unfolding find scan_section_fwd.simps [of b ends ls] Let_def
      using False bol IH section_in_text [of b "?le + 1" ends] by auto
  qed
qed

lemma scan_section_back_first:
  "at_bol b ls \<Longrightarrow> ls \<le> length b \<Longrightarrow>
   scan_section_back b ends ls = find (\<lambda>t. at_bol b t \<and> is_section_line b t ends) (rev [0..<ls])"
proof (induction ls rule: less_induct)
  case (less ls)
  show ?case
  proof (cases "ls = 0")
    case False
    let ?pl = "line_start b (ls - 1)"
    have pl: "?pl < ls" using False by (intro line_start_before) simp
    have IH: "scan_section_back b ends ?pl = find (\<lambda>t. at_bol b t \<and> is_section_line b t ends) (rev [0..<?pl])"
      using less.IH [OF pl at_bol_line_start line_start_le_length] .
    have "find (\<lambda>t. at_bol b t \<and> is_section_line b t ends) (rev [0..<ls]) =
        (if at_bol b ?pl \<and> is_section_line b ?pl ends then Some ?pl
         else find (\<lambda>t. at_bol b t \<and> is_section_line b t ends) (rev [0..<?pl]))"
      using False less.prems by (intro find_prev_line) auto
    then show ?thesis using False IH at_bol_line_start [of b "ls - 1"]
      by (simp add: scan_section_back.simps [of b ends ls] Let_def)
  qed (simp add: scan_section_back.simps [of b ends 0])
qed

lemma find_above: "find Q [Suc s..<n] = find (\<lambda>t. s < t \<and> Q t) [0..<n]"
proof -
  have "find (\<lambda>t. s < t \<and> Q t) [0..<n] = find (\<lambda>t. s < t \<and> Q t) [Suc s..<n]" by (rule find_skip) auto
  also have "\<dots> = find Q [Suc s..<n]" by (rule find_cong_on) auto
  finally show ?thesis by simp
qed

lemma find_below:
  assumes "s \<le> n"
  shows "find Q (rev [0..<s]) = find (\<lambda>t. t < s \<and> Q t) (rev [0..<n])"
proof -
  have "find (\<lambda>t. t < s \<and> Q t) (rev [0..<n]) = find (\<lambda>t. t < s \<and> Q t) (rev [0..<s])"
    using assms by (intro find_skip_rev) auto
  also have "\<dots> = find Q (rev [0..<s])" by (rule find_cong_on) auto
  finally show ?thesis by simp
qed

lemma sorted_down: "sorted_wrt (>) (rev [0..<n])"
  by (simp add: sorted_wrt_rev)

text \<open>The section lines after a line, from the nearest on, and those before it, from the nearest back.\<close>

definition sections_after :: "bytes \<Rightarrow> bool \<Rightarrow> nat \<Rightarrow> nat list" where
  "sections_after b ends ls = filter (\<lambda>t. ls < t \<and> at_bol b t \<and> is_section_line b t ends) [0..<length b]"

definition sections_before :: "bytes \<Rightarrow> bool \<Rightarrow> nat \<Rightarrow> nat list" where
  "sections_before b ends ls = filter (\<lambda>t. t < ls \<and> at_bol b t \<and> is_section_line b t ends) (rev [0..<length b])"

interpretation section_fwd: stop_walk "scan_section_fwd b ends" "line_start b pos" "sections_after b ends (line_start b pos)"
  for b ends pos
  unfolding sections_after_def
proof (rule stop_walkI [where R = "(<)"])
  let ?P = "\<lambda>t. at_bol b t \<and> is_section_line b t ends"
  show "scan_section_fwd b ends (line_start b pos) = find (\<lambda>t. line_start b pos < t \<and> ?P t) [0..<length b]"
    by (simp add: scan_section_fwd_first [OF at_bol_line_start line_start_le_length] find_above)
  fix s assume "s \<in> set [0..<length b]" "line_start b pos < s \<and> ?P s"
  then have "scan_section_fwd b ends s = find (\<lambda>t. s < t \<and> ?P t) [0..<length b]"
    by (simp add: scan_section_fwd_first find_above)
  also have "\<dots> = find (\<lambda>t. (line_start b pos < t \<and> ?P t) \<and> s < t) [0..<length b]"
    using \<open>line_start b pos < s \<and> ?P s\<close> by (intro find_cong_on) auto
  finally show "scan_section_fwd b ends s = find (\<lambda>t. (line_start b pos < t \<and> ?P t) \<and> s < t) [0..<length b]" .
qed auto

interpretation section_back: stop_walk "scan_section_back b ends" "line_start b pos" "sections_before b ends (line_start b pos)"
  for b ends pos
  unfolding sections_before_def
proof (rule stop_walkI [where R = "(>)", OF sorted_down])
  let ?P = "\<lambda>t. at_bol b t \<and> is_section_line b t ends"
  show "scan_section_back b ends (line_start b pos) = find (\<lambda>t. t < line_start b pos \<and> ?P t) (rev [0..<length b])"
    by (simp add: scan_section_back_first [OF at_bol_line_start line_start_le_length] find_below [OF line_start_le_length])
  fix s assume "s \<in> set (rev [0..<length b])" "s < line_start b pos \<and> ?P s"
  then have "scan_section_back b ends s = find (\<lambda>t. t < s \<and> ?P t) (rev [0..<length b])"
    by (simp add: scan_section_back_first find_below [of s "length b"])
  also have "\<dots> = find (\<lambda>t. (t < line_start b pos \<and> ?P t) \<and> t < s) (rev [0..<length b])"
    using \<open>s < line_start b pos \<and> ?P s\<close> by (intro find_cong_on) auto
  finally show "scan_section_back b ends s = find (\<lambda>t. (t < line_start b pos \<and> ?P t) \<and> s > t) (rev [0..<length b])" .
qed auto

lemma next_section_loop_steps:
  "next_section_loop b ends n ls = (case take_steps (scan_section_fwd b ends) n ls of Inr t \<Rightarrow> t | Inl _ \<Rightarrow> last_line_start b)"
  by (induction n arbitrary: ls) (simp_all split: option.split)

lemma prev_section_loop_steps:
  "prev_section_loop b ends n ls = (case take_steps (scan_section_back b ends) n ls of Inr t \<Rightarrow> t | Inl _ \<Rightarrow> 0)"
  by (induction n arbitrary: ls) (simp_all split: option.split)

text \<open>
  The section motions go to the \<open>count\<close>-th section line after (before) the cursor's line, or to the last (first) line
  when there are fewer.
\<close>

theorem section_motions_spec:
  "next_section_line b pos count ends =
     (let ss = sections_after b ends (line_start b pos); n = max 1 count
      in if n \<le> length ss then ss ! (n - 1) else last_line_start b)"
  "prev_section_line b pos count ends =
     (let ss = sections_before b ends (line_start b pos); n = max 1 count
      in if n \<le> length ss then ss ! (n - 1) else 0)"
  by (simp_all add: next_section_line_def prev_section_line_def next_section_loop_steps prev_section_loop_steps
      section_fwd.steps_from_start section_back.steps_from_start Let_def)

section \<open>Paragraphs\<close>

text \<open>
  A stop after a line is an empty line that follows a non-empty one at or after it; a stop before a line is an empty
  line that precedes a non-empty one at or before it.
\<close>

definition stop_after :: "bytes \<Rightarrow> nat \<Rightarrow> nat \<Rightarrow> bool" where
  "stop_after b ls t \<longleftrightarrow> ls + 2 \<le> t \<and> b ! t = newline \<and> b ! (t - 1) = newline \<and> b ! (t - 2) \<noteq> newline"

definition stop_before :: "bytes \<Rightarrow> nat \<Rightarrow> nat \<Rightarrow> bool" where
  "stop_before b ls t \<longleftrightarrow> t < ls \<and> at_bol b t \<and> b ! t = newline \<and> t + 1 < length b \<and> b ! (t + 1) \<noteq> newline"

text \<open>Any empty line.\<close>

definition empty_line :: "bytes \<Rightarrow> nat \<Rightarrow> bool" where
  "empty_line b t \<longleftrightarrow> at_bol b t \<and> b ! t = newline"

text \<open>From a line that is not empty the first empty line is the first stop.\<close>

lemma first_empty_is_stop:
  assumes "ls < length b" "b ! ls \<noteq> newline"
  shows "find (empty_line b) [Suc ls..<length b] = find (stop_after b ls) [Suc ls..<length b]"
proof (rule find_same_first)
  fix t assume "t \<in> set [Suc ls..<length b]" "stop_after b ls t"
  then show "empty_line b t" by (simp add: stop_after_def empty_line_def at_bol_def)
next
  fix i assume i: "i < length [Suc ls..<length b]" "empty_line b ([Suc ls..<length b] ! i)"
    "\<not> stop_after b ls ([Suc ls..<length b] ! i)"
  let ?t = "Suc ls + i"
  have t: "b ! ?t = newline" "b ! (?t - 1) = newline" "\<not> stop_after b ls ?t"
    using i by (simp_all add: empty_line_def at_bol_def)
  then have "0 < i" using assms(2) by (cases i) auto
  then have "b ! (?t - 2) = newline" using t by (auto simp: stop_after_def)
  then have "empty_line b (Suc ls + (i - 1))" using t(2) \<open>0 < i\<close> i(1)
    by (cases i) (auto simp: empty_line_def at_bol_def)
  then show "\<exists>j < i. empty_line b ([Suc ls..<length b] ! j)" using \<open>0 < i\<close> i(1) by (intro exI [of _ "i - 1"]) auto
qed

lemma para_loop_skipped:
  "at_bol b ls \<Longrightarrow> ls \<le> length b \<Longrightarrow> next_para_loop b ls True = find (empty_line b) [Suc ls..<length b]"
proof (induction "length b - ls" arbitrary: ls rule: less_induct)
  case less
  let ?le = "line_end b ls"
  have find: "find (empty_line b) [Suc ls..<length b] =
      (if ?le + 1 < length b then (if empty_line b (?le + 1) then Some (?le + 1) else find (empty_line b) [Suc (?le + 1)..<length b])
       else None)"
    using less.prems by (intro find_next_line) (auto simp: empty_line_def)
  show ?case
  proof (cases "?le + 1 < length b")
    case True
    then have bol: "at_bol b (?le + 1)" by (intro at_bol_next) simp
    have IH: "next_para_loop b (?le + 1) True = find (empty_line b) [Suc (?le + 1)..<length b]"
      using less.hyps [OF next_line_shorter [OF True] bol] True by simp
    show ?thesis unfolding find next_para_loop.simps [of b ls True] Let_def
      using True bol IH by (simp add: is_blank_line_def empty_line_def)
  qed (simp add: find next_para_loop.simps [of b ls True] Let_def)
qed

lemma para_loop_first:
  "at_bol b ls \<Longrightarrow> ls \<le> length b \<Longrightarrow> next_para_loop b ls False = find (stop_after b ls) [Suc ls..<length b]"
proof (induction "length b - ls" arbitrary: ls rule: less_induct)
  case less
  show ?case
  proof (cases "is_blank_line b ls")
    case False
    then have "next_para_loop b ls False = next_para_loop b ls True"
      by (simp add: next_para_loop.simps [of b ls] Let_def)
    then show ?thesis using False less.prems para_loop_skipped [of b ls] first_empty_is_stop [of ls b]
      by (simp add: is_blank_line_def)
  next
    case blank: True
    show ?thesis
    proof (cases "ls + 1 < length b")
      case True
      then have le: "line_end b ls = ls" using blank by (intro line_end_blank) (auto simp: is_blank_line_def)
      have shorter: "length b - (ls + 1) < length b - ls" using True by linarith
      have bol: "at_bol b (ls + 1)" using at_bol_next [of b ls] True le by simp
      have "stop_after b (ls + 1) t = stop_after b ls t" for t
        using blank True by (cases "t = ls + 2") (auto simp: stop_after_def is_blank_line_def)
      then have same: "stop_after b (ls + 1) = stop_after b ls" by (rule ext)
      have "next_para_loop b ls False = next_para_loop b (ls + 1) False"
        using True blank by (simp add: next_para_loop.simps [of b ls False] Let_def le)
      also have "\<dots> = find (stop_after b (ls + 1)) [Suc (ls + 1)..<length b]"
        using less.hyps [OF shorter bol] True by simp
      also have "\<dots> = find (stop_after b ls) [Suc (ls + 1)..<length b]"
        by (simp only: same)
      also have "\<dots> = find (stop_after b ls) [Suc ls..<length b]"
        using find_upt [of "stop_after b ls" "Suc ls" "length b"] True by (simp add: stop_after_def)
      finally show ?thesis .
    next
      case False
      then have "length b \<le> line_end b ls + 1" using line_end_bounds(1) [of ls b] less.prems(2) by simp
      moreover have "find (stop_after b ls) [Suc ls..<length b] = None" using False by (simp add: find_None_iff)
      ultimately show ?thesis by (simp add: next_para_loop.simps [of b ls False] Let_def)
    qed
  qed
qed

lemma next_para_boundary_first:
  "next_para_boundary b p = find (stop_after b (line_start b p)) [0..<length b]"
proof -
  have "find (stop_after b (line_start b p)) [0..<length b] = find (stop_after b (line_start b p)) [Suc (line_start b p)..<length b]"
    by (intro find_skip) (auto simp: stop_after_def)
  then show ?thesis
    by (simp add: next_para_boundary_def para_loop_first [OF at_bol_line_start line_start_le_length])
qed

text \<open>The same upward: from a line that is not empty the nearest empty line above is a stop.\<close>

lemma nearest_empty_is_stop:
  assumes "at_bol b ls" "ls < length b" "b ! ls \<noteq> newline" "ls \<le> from"
  shows "find (empty_line b) (rev [0..<ls]) = find (stop_before b from) (rev [0..<ls])"
proof (rule find_same_first)
  fix t assume "t \<in> set (rev [0..<ls])" "stop_before b from t"
  then show "empty_line b t" by (simp add: stop_before_def empty_line_def)
next
  fix i
  let ?t = "ls - Suc i"
  assume i: "i < length (rev [0..<ls])" "empty_line b (rev [0..<ls] ! i)" "\<not> stop_before b from (rev [0..<ls] ! i)"
  then have t: "?t < ls" "empty_line b ?t" "\<not> stop_before b from ?t" by (simp_all add: rev_nth)
  then have nl: "b ! (?t + 1) = newline" using assms(2,4) by (auto simp: stop_before_def empty_line_def)
  then have "0 < i" using assms(3) t(1) by (cases i) auto
  have "at_bol b (?t + 1)" using t(2) assms(2) t(1) by (simp add: at_bol_def empty_line_def)
  moreover have "?t + 1 = ls - Suc (i - 1)" using \<open>0 < i\<close> i(1) by auto
  ultimately have "empty_line b (rev [0..<ls] ! (i - 1))" using nl i(1) \<open>0 < i\<close> by (simp add: rev_nth empty_line_def)
  then show "\<exists>j < i. empty_line b (rev [0..<ls] ! j)" using \<open>0 < i\<close> by (intro exI [of _ "i - 1"]) auto
qed

lemma para_back_skipped:
  "at_bol b ls \<Longrightarrow> ls \<le> length b \<Longrightarrow> prev_para_loop b ls True = find (empty_line b) (rev [0..<ls])"
proof (induction ls rule: less_induct)
  case (less ls)
  show ?case
  proof (cases "ls = 0")
    case False
    let ?pl = "line_start b (ls - 1)"
    have pl: "?pl < ls" using False by (intro line_start_before) simp
    have IH: "prev_para_loop b ?pl True = find (empty_line b) (rev [0..<?pl])"
      using less.IH [OF pl at_bol_line_start line_start_le_length] .
    have "find (empty_line b) (rev [0..<ls]) =
        (if empty_line b ?pl then Some ?pl else find (empty_line b) (rev [0..<?pl]))"
      using False less.prems by (intro find_prev_line) (auto simp: empty_line_def)
    moreover have "is_blank_line b ?pl \<longleftrightarrow> empty_line b ?pl"
      using at_bol_line_start [of b "ls - 1"] pl less.prems(2) by (simp add: is_blank_line_def empty_line_def)
    ultimately show ?thesis using False IH by (simp add: prev_para_loop.simps [of b ls True] Let_def)
  qed (simp add: prev_para_loop.simps [of b 0])
qed

lemma stop_before_bol: "stop_before b from t \<Longrightarrow> at_bol b t"
  by (simp add: stop_before_def)

lemma para_back_first:
  "at_bol b ls \<Longrightarrow> ls \<le> length b \<Longrightarrow>
   prev_para_loop b ls (\<not> is_blank_line b ls) = find (stop_before b ls) (rev [0..<ls])"
proof (induction ls rule: less_induct)
  case (less ls)
  show ?case
  proof (cases "is_blank_line b ls")
    case False
    then show ?thesis using less.prems para_back_skipped [of b ls] nearest_empty_is_stop [of b ls ls]
      by (simp add: is_blank_line_def)
  next
    case blank: True
    show ?thesis
    proof (cases "ls = 0")
      case False
      let ?pl = "line_start b (ls - 1)"
      have pl: "?pl < ls" using False by (intro line_start_before) simp
      have bol: "at_bol b ?pl" by (rule at_bol_line_start)
      have "\<not> stop_before b ls ?pl"
      proof
        assume st: "stop_before b ls ?pl"
        then have "line_end b ?pl = ?pl" by (intro line_end_blank) (auto simp: stop_before_def)
        moreover have "at_bol b (?pl + 1)" using st by (simp add: stop_before_def at_bol_def)
        moreover have "line_start b (ls - 1) \<le> ls - 1" using line_start_le [of b "ls - 1"] by simp
        ultimately have "ls = ?pl + 1"
        proof -
          have "line_start b (ls - 1) = ?pl + 1" if "?pl + 1 < ls"
          proof -
            have "b ! ?pl = newline" using st by (simp add: stop_before_def)
            moreover have "?pl < ls - 1" "?pl < length b" using that less.prems(2) by auto
            ultimately show ?thesis
              by (cases rule: line_start_cases [of b "ls - 1"]) (use nth_mem_take [of ?pl "ls - 1" b] in auto)
          qed
          then show ?thesis using pl by (metis Suc_eq_plus1 Suc_lessI n_not_Suc_n)
        qed
        then show False using st blank by (auto simp: stop_before_def is_blank_line_def)
      qed
      then have skip: "find (stop_before b ls) (rev [0..<ls]) = find (stop_before b ls) (rev [0..<?pl])"
        using find_prev_line [of b ls "stop_before b ls"] False less.prems stop_before_bol by simp
      also have "\<dots> = find (stop_before b ?pl) (rev [0..<?pl])"
        using pl by (intro find_cong_on) (auto simp: stop_before_def)
      also have "\<dots> = prev_para_loop b ?pl (\<not> is_blank_line b ?pl)"
        using less.IH [OF pl bol line_start_le_length] by simp
      also have "\<dots> = prev_para_loop b ls (\<not> is_blank_line b ls)"
        using False blank by (simp add: prev_para_loop.simps [of b ls] Let_def)
      finally show ?thesis by simp
    qed (simp add: prev_para_loop.simps [of b 0])
  qed
qed

lemma prev_para_boundary_first:
  "prev_para_boundary b p = find (stop_before b (line_start b p)) (rev [0..<length b])"
proof -
  have "find (stop_before b (line_start b p)) (rev [0..<length b]) = find (stop_before b (line_start b p)) (rev [0..<line_start b p])"
    using line_start_le_length by (intro find_skip_rev) (auto simp: stop_before_def)
  then show ?thesis
    by (simp add: prev_para_boundary_def Let_def para_back_first [OF at_bol_line_start line_start_le_length])
qed

text \<open>The stops after a line, nearest first, and those before it.\<close>

definition stops_after :: "bytes \<Rightarrow> nat \<Rightarrow> nat list" where
  "stops_after b ls = filter (stop_after b ls) [0..<length b]"

definition stops_before :: "bytes \<Rightarrow> nat \<Rightarrow> nat list" where
  "stops_before b ls = filter (stop_before b ls) (rev [0..<length b])"

interpretation para_fwd: stop_walk "next_para_boundary b" cur "stops_after b (line_start b cur)" for b cur
  unfolding stops_after_def
proof (rule stop_walkI [where R = "(<)"])
  fix s assume s: "s \<in> set [0..<length b]" "stop_after b (line_start b cur) s"
  then have "line_start b s = s" by (intro line_start_self) (auto simp: stop_after_def at_bol_def)
  then have "next_para_boundary b s = find (stop_after b s) [0..<length b]" by (simp add: next_para_boundary_first)
  moreover have "stop_after b s t = (stop_after b (line_start b cur) t \<and> s < t)" for t
    using s(2) by (cases "t = s + 1") (auto simp: stop_after_def)
  then have "find (stop_after b s) [0..<length b] = find (\<lambda>t. stop_after b (line_start b cur) t \<and> s < t) [0..<length b]"
    by (intro find_cong_on)
  ultimately show "next_para_boundary b s = find (\<lambda>t. stop_after b (line_start b cur) t \<and> s < t) [0..<length b]"
    by (rule trans)
qed (auto simp: next_para_boundary_first)

interpretation para_back: stop_walk "prev_para_boundary b" cur "stops_before b (line_start b cur)" for b cur
  unfolding stops_before_def
proof (rule stop_walkI [where R = "(>)", OF sorted_down])
  fix s assume s: "s \<in> set (rev [0..<length b])" "stop_before b (line_start b cur) s"
  then have "line_start b s = s" by (intro line_start_self) (auto simp: stop_before_def)
  then have "prev_para_boundary b s = find (stop_before b s) (rev [0..<length b])" by (simp add: prev_para_boundary_first)
  moreover have "find (stop_before b s) (rev [0..<length b]) =
      find (\<lambda>t. stop_before b (line_start b cur) t \<and> s > t) (rev [0..<length b])"
    using s(2) by (intro find_cong_on) (auto simp: stop_before_def)
  ultimately show "prev_para_boundary b s = find (\<lambda>t. stop_before b (line_start b cur) t \<and> s > t) (rev [0..<length b])"
    by (rule trans)
qed (auto simp: prev_para_boundary_first)

lemma paragraph_loop_steps:
  "paragraph_loop pg b True n c =
     (case take_steps (next_para_boundary b) n c of
        Inr t \<Rightarrow> Some (t, False)
      | Inl k \<Rightarrow> if k = 0 then Some (para_edge pg b True, True) else None)"
  "paragraph_loop pg b False n c =
     (case take_steps (prev_para_boundary b) n c of
        Inr t \<Rightarrow> Some (t, False)
      | Inl k \<Rightarrow> if k = 0 then Some (para_edge pg b False, True) else None)"
  by (induction n arbitrary: c) (simp_all split: option.split)

text \<open>
  C26: \<open>count\<close> paragraphs forward (back) is the \<open>count\<close>-th empty line after the cursor's line that follows a line with
  text (before it that precedes one); one more than there are goes to the edge of the buffer, and more fail.
\<close>

theorem paragraph_landing_spec:
  "paragraph_landing pg b cur forward n =
     (let ss = (if forward then stops_after b (line_start b cur) else stops_before b (line_start b cur))
      in if n = 0 then Some (cur, False)
         else if n \<le> length ss then Some (ss ! (n - 1), False)
         else if n = length ss + 1 then Some (para_edge pg b forward, True)
         else None)"
  by (cases forward)
    (simp_all add: paragraph_landing_def paragraph_loop_steps para_fwd.steps_from_start para_back.steps_from_start Let_def
      del: take_steps.simps)

section \<open>The paragraph object\<close>

lemma para_up_le: "para_up white ps front s \<le> s"
  by (induction white ps front s rule: para_up.induct) auto

lemma para_up_front:
  "para_up white ps True s \<le> l \<Longrightarrow> l \<le> s \<Longrightarrow> white s \<Longrightarrow> white l"
  by (induction white ps True s rule: para_up.induct) (auto simp: le_Suc_eq split: if_splits)

lemma para_up_text:
  "para_up white ps False s < l \<Longrightarrow> l \<le> s \<Longrightarrow> \<not> white s \<Longrightarrow> \<not> white l \<and> \<not> ps l"
  by (induction white ps False s rule: para_up.induct) (auto simp: le_Suc_eq split: if_splits)

lemma para_up_start: "\<not> white s \<Longrightarrow> \<not> white (para_up white ps False s)"
  by (induction white ps False s rule: para_up.induct) auto

lemma skip_lines_ge: "n \<le> skip_lines P lst n"
  by (induction P lst n rule: skip_lines.induct) (subst skip_lines.simps, auto)

lemma skip_lines_le: "n \<le> Suc lst \<Longrightarrow> skip_lines P lst n \<le> Suc lst"
  by (induction P lst n rule: skip_lines.induct) (subst skip_lines.simps, auto)

lemma skip_lines_past:
  "(\<And>l. n \<le> l \<Longrightarrow> l \<le> m \<Longrightarrow> P l) \<Longrightarrow> n \<le> Suc m \<Longrightarrow> m \<le> lst \<Longrightarrow> m < skip_lines P lst n"
proof (induction P lst n rule: skip_lines.induct)
  case (1 P lst n)
  show ?case
  proof (cases "n \<le> m")
    case True
    then show ?thesis using 1 by (subst skip_lines.simps) auto
  next
    case False
    then show ?thesis using skip_lines_ge [of n P lst] by simp
  qed
qed

lemma para_take_bounds:
  "para_take white ps lst include front i n = Some m \<Longrightarrow> n \<le> Suc lst \<Longrightarrow> n \<le> m \<and> m \<le> Suc lst"
proof (induction i arbitrary: n)
  case (Suc i)
  let ?n1 = "if include \<or> \<not> (\<not> include \<and> white n) then skip_lines (\<lambda>l. \<not> white l \<and> \<not> ps l) lst (n + 1) else n"
  let ?n2 = "if include \<or> (\<not> include \<and> white n) then skip_lines white lst ?n1 else ?n1"
  have n: "n \<le> lst" using Suc.prems by (simp split: if_splits)
  then have n1: "n \<le> ?n1" "?n1 \<le> Suc lst"
    using skip_lines_ge [of "n + 1" "\<lambda>l. \<not> white l \<and> \<not> ps l" lst] skip_lines_le [of "n + 1" lst] by auto
  then have n2: "n \<le> ?n2" "?n2 \<le> Suc lst"
    using skip_lines_ge [of ?n1 white lst] skip_lines_le [of ?n1 lst white] by (auto simp del: skip_lines.simps)
  show ?case
  proof (cases "i = 0 \<and> front \<and> include")
    case True
    then show ?thesis using Suc.prems(1) n n1 by (simp add: Let_def)
  next
    case False
    then have "para_take white ps lst include front i ?n2 = Some m"
      using Suc.prems(1) n by (simp only: para_take.simps Let_def if_False not_less [symmetric] split: if_splits) 
    from Suc.IH [OF this n2(2)] n2(1) show ?thesis by simp
  qed
qed simp

lemma para_take_first:
  assumes "para_take white ps lst include front (Suc i) n = Some m" "\<not> white n" "n \<le> lst"
  shows "skip_lines (\<lambda>l. \<not> white l \<and> \<not> ps l) lst (n + 1) \<le> m"
proof -
  let ?n1 = "skip_lines (\<lambda>l. \<not> white l \<and> \<not> ps l) lst (n + 1)"
  let ?n2 = "if include then skip_lines white lst ?n1 else ?n1"
  have n1: "?n1 \<le> Suc lst" using assms(3) by (intro skip_lines_le) simp
  then have n2: "?n1 \<le> ?n2" "?n2 \<le> Suc lst" using skip_lines_ge [of ?n1 white lst] skip_lines_le [of ?n1 lst white] by auto
  show ?thesis
  proof (cases "i = 0 \<and> front \<and> include")
    case True
    then show ?thesis using assms by (simp add: Let_def)
  next
    case False
    then have "para_take white ps lst include front i ?n2 = Some m" using assms by (simp add: Let_def split: if_splits)
    from para_take_bounds [OF this n2(2)] n2(1) show ?thesis by simp
  qed
qed

text \<open>
  The paragraph object, when it does not fail, takes whole existing lines around the cursor's line, for any count.
\<close>

theorem paragraph_object_around_cursor:
  assumes "paragraph_lines b cur count include = Some (s, e)"
  shows "s \<le> line_of_starts (mv_line_starts b) cur \<and> line_of_starts (mv_line_starts b) cur \<le> e \<and> e < length (mv_line_starts b)"
proof -
  define starts where "starts = mv_line_starts b"
  define lst where "lst = length starts - 1"
  define white where "white = white_line b starts"
  define ps where "ps = start_ps b starts"
  define row where "row = line_of_starts starts cur"
  define start where "start = para_up white ps (white row) row"
  define i where "i = max 1 count - (if \<not> include \<and> white row then 1 else 0)"
  note defs = starts_def lst_def white_def ps_def row_def start_def i_def
  have ne: "length starts = Suc lst" by (simp add: defs mv_line_starts_def)
  have row: "row \<le> lst" using partition_point_le [of "\<lambda>s. s \<le> cur" starts]
    unfolding row_def lst_def line_of_starts_def by (rule diff_le_mono)
  have start: "start \<le> row" by (simp add: start_def para_up_le)
  obtain m where m: "para_take white ps lst include (white row) i (skip_lines white lst start) = Some m"
    and e: "e = m - 1" and s: "s \<le> start"
  proof -
    have "para_back white start \<le> start" for start by (induction start) auto
    then show ?thesis using assms that unfolding defs
      by (auto simp: paragraph_lines_def Let_def split: option.splits if_splits)
  qed
  have sk: "skip_lines white lst start \<le> Suc lst" using row start by (intro skip_lines_le) simp
  note bounds = para_take_bounds [OF m sk]
  have "row < m"
  proof (cases "white row")
    case True
    have "row < skip_lines white lst start"
      using True row start para_up_front [of white ps row] by (intro skip_lines_past) (auto simp: start_def)
    then show ?thesis using bounds by simp
  next
    case False
    then have nw: "\<not> white start" by (simp add: start_def para_up_start)
    have "skip_lines white lst start = start" using nw by (simp add: skip_lines.simps [of white lst start])
    moreover obtain i' where "i = Suc i'" using False by (cases i) (simp_all add: i_def)
    ultimately have f: "skip_lines (\<lambda>l. \<not> white l \<and> \<not> ps l) lst (start + 1) \<le> m"
      using para_take_first [of white ps lst "include" "white row" i' start m] m nw start row by simp
    have "row < skip_lines (\<lambda>l. \<not> white l \<and> \<not> ps l) lst (start + 1)"
      using False row start para_up_text [of white ps row] by (intro skip_lines_past) (auto simp: start_def)
    with f show ?thesis by simp
  qed
  then have "row \<le> e" "e < length starts" "s \<le> row" using bounds e s start ne by linarith+
  then show ?thesis by (simp add: starts_def [symmetric] row_def [symmetric])
qed

theorem paragraph_object_around_cursor_witness:
  "paragraph_lines [97, 10, 98, 10, 10, 99] 2 1 False = Some (0, 1) \<and>
   0 \<le> line_of_starts (mv_line_starts [97, 10, 98, 10, 10, 99]) 2 \<and>
   line_of_starts (mv_line_starts [97, 10, 98, 10, 10, 99]) 2 \<le> 1"
proof -
  have "paragraph_lines [97, 10, 98, 10, 10, 99] 2 1 False = Some (0, 1)" by code_simp
  with paragraph_object_around_cursor [OF this] show ?thesis by simp
qed

section \<open>Methods\<close>

lemma bracket_fwd_lands: "bracket_fwd b op cl r d i = Some t \<Longrightarrow> b ! t = cl"
proof (induction "length b - i" arbitrary: op cl r d i rule: less_induct)
  case less
  show ?case
  proof (cases "i < length b")
    case True
    then have "length b - (i + 1) < length b - i" by linarith
    note IH = less.hyps [OF this]
    show ?thesis using less.prems True unfolding bracket_fwd.simps [of b op cl r d i]
      by (auto split: if_splits dest!: IH [simplified])
  qed (use less.prems in \<open>simp add: bracket_fwd.simps [of b op cl r d i]\<close>)
qed

lemma bracket_back_lands: "bracket_back b op cl r d i = Some t \<Longrightarrow> b ! t = op"
  by (induction b op cl r d i rule: bracket_back.induct) (auto split: if_splits)

lemma find_enclosing_brace_lands:
  "find_enclosing_brace b cursor forward = Some t \<Longrightarrow> t < length b \<and> (b ! t = 123 \<or> b ! t = 125)"
  using find_enclosing_brace_moves [of b cursor forward t] bracket_fwd_lands [of b 123 125 1 0 "cursor + 1" t]
    bracket_back_lands [of b 123 125 1 0 "min cursor (length b)" t]
  by (cases forward) (auto simp: find_enclosing_brace_def unmatched_bracket_def Let_def split: if_splits option.splits)

lemma scan_brace_lands:
  "scan_brace b forward cur = Some t \<Longrightarrow> cur \<le> length b \<Longrightarrow> t < length b \<and> (b ! t = 123 \<or> b ! t = 125)"
proof (induction b forward cur rule: scan_brace.induct)
  case (1 b forward cur)
  let ?s = "if forward then (let nx = next_boundary b cur in if length b \<le> nx then None else Some nx)
      else if cur = 0 then None else Some (prev_boundary b cur)"
  obtain nc where nc: "?s = Some nc" using 1(2) unfolding scan_brace.simps [of b forward cur] by (auto split: option.splits)
  have lt: "nc < length b"
    using nc 1(3) prev_boundary_less [of cur b] by (auto simp: Let_def split: if_splits)
  show ?case
  proof (cases "b ! nc = 123 \<or> b ! nc = 125")
    case True
    then show ?thesis using 1(2) lt unfolding scan_brace.simps [of b forward cur] nc by auto
  next
    case False
    then have "scan_brace b forward nc = Some t" using 1(2) unfolding scan_brace.simps [of b forward cur] nc by auto
    with 1(1) [OF nc False] lt show ?thesis by simp
  qed
qed

lemma method_scan_lands:
  assumes "cur \<le> length b" "\<forall>p. pos = Some p \<longrightarrow> p < length b \<and> (b ! p = 123 \<or> b ! p = 125)"
    and "method_scan b forward norm n cur new_pos pos = Some t"
  shows "t < length b \<and> (b ! t = 123 \<or> b ! t = 125)"
  using assms
proof (induction n arbitrary: cur new_pos pos)
  case (Suc n)
  show ?case
  proof (cases "scan_brace b forward cur")
    case None
    then show ?thesis using Suc.prems by simp
  next
    case (Some nc)
    note lands = scan_brace_lands [OF Some Suc.prems(1)]
    show ?thesis
    proof (cases "find_enclosing_brace b nc forward")
      case None
      then show ?thesis using Suc.prems(3) Some lands Suc.IH [of nc "Some nc" "Some nc"] by (auto split: if_splits)
    next
      case (Some m)
      from find_enclosing_brace_lands [OF this] show ?thesis
        using Suc.prems(3) Some \<open>scan_brace b forward cur = Some nc\<close> lands Suc.IH [of nc "Some nc" "Some nc"]
          Suc.IH [of m "Some m" new_pos] by (auto split: if_splits)
    qed
  qed
qed simp

lemma method_out_lands:
  assumes "method_out b forward cur new_pos prev_pos = (n, Some p)"
    and "\<forall>p. new_pos = Some p \<longrightarrow> p < length b \<and> (b ! p = 123 \<or> b ! p = 125)"
    and "\<forall>p. prev_pos = Some p \<longrightarrow> p < length b \<and> (b ! p = 123 \<or> b ! p = 125)"
  shows "p < length b \<and> (b ! p = 123 \<or> b ! p = 125)"
  using assms
proof (induction b forward cur new_pos prev_pos rule: method_out.induct)
  case (1 b forward cur new_pos prev_pos)
  show ?case
  proof (cases "find_enclosing_brace b cur forward")
    case None
    then show ?thesis using 1(2,4) by (simp add: method_out.simps [of b forward cur])
  next
    case (Some q)
    then have "method_out b forward q (Some q) new_pos = (n, Some p)"
      using 1(2) by (simp add: method_out.simps [of b forward cur])
    from 1(1) [OF Some this] find_enclosing_brace_lands [OF Some] 1(3) show ?thesis by simp
  qed
qed

text \<open>A method motion ends on a brace or stays where it is.\<close>

theorem method_target_lands:
  "method_target b cursor forward ends count = min cursor (length b) \<or>
   (method_target b cursor forward ends count < length b \<and>
    (b ! method_target b cursor forward ends count = 123 \<or> b ! method_target b cursor forward ends count = 125))"
proof -
  obtain n p where o: "method_out b forward (min cursor (length b)) None None = (n, p)" by fastforce
  let ?norm = "(\<not> forward) = (\<not> ends)"
  show ?thesis
  proof (cases p)
    case None
    then show ?thesis
      using method_scan_lands [of "min cursor (length b)" b None forward ?norm "max 1 count" n]
      by (cases "method_scan b forward ?norm (max 1 count) (min cursor (length b)) n None")
        (simp_all add: method_target_def Let_def o)
  next
    case (Some pp)
    then have "pp < length b \<and> (b ! pp = 123 \<or> b ! pp = 125)" using method_out_lands o by blast
    then show ?thesis
      using method_scan_lands [of pp b "Some pp" forward ?norm "max 1 count - (if ?norm then 1 else 0)" n]
      by (cases "method_scan b forward ?norm (max 1 count - (if ?norm then 1 else 0)) pp n (Some pp)")
        (simp_all add: method_target_def Let_def o Some)
  qed
qed

end
