(* ===== verification/Search_Walk.thy ===== *)
theory Search_Walk
  imports Prelude
begin

text \<open>
  \<^verbatim>\<open>walk_count\<close> of \<^verbatim>\<open>crates/core/src/editor/search.rs\<close>: \<open>count\<close> search steps, cut short once a landing repeats.  The map
  of the landings seen gives the number of steps each was reached after.
\<close>

section \<open>Definitions\<close>

fun step_times :: "(nat \<Rightarrow> nat option) \<Rightarrow> nat \<Rightarrow> nat \<Rightarrow> nat option" where
  "step_times step 0 pos = Some pos"
| "step_times step (Suc n) pos = (case step pos of None \<Rightarrow> None | Some p \<Rightarrow> step_times step n p)"

function walk_loop :: "(nat \<Rightarrow> nat option) \<Rightarrow> nat \<Rightarrow> (nat \<rightharpoonup> nat) \<Rightarrow> nat \<Rightarrow> nat \<Rightarrow> nat option" where
  "walk_loop step count seen i pos =
     (if i < count then
        (case seen pos of
           Some j \<Rightarrow> step_times step ((count - i) mod (i - j)) pos
         | None \<Rightarrow> (case step pos of None \<Rightarrow> None | Some p \<Rightarrow> walk_loop step count (seen(pos \<mapsto> i)) (i + 1) p))
      else Some pos)"
  by pat_completeness auto
termination
  by (relation "measure (\<lambda>(step, count, seen, i, pos). count - i)") auto

declare walk_loop.simps [simp del]

definition walk_count :: "nat \<Rightarrow> nat \<Rightarrow> (nat \<Rightarrow> nat option) \<Rightarrow> nat option" where
  "walk_count start count step = walk_loop step (max 1 count) Map.empty 0 start"

section \<open>The shortcut is exact\<close>

lemma step_times_add: "step_times step (m + n) p = Option.bind (step_times step m p) (step_times step n)"
  by (induction m arbitrary: p) (simp_all split: option.split)

lemma step_times_period:
  assumes "step_times step k p = Some p"
  shows "step_times step n p = step_times step (n mod k) p"
proof -
  have "step_times step (q * k + r) p = step_times step r p" for q r
    using assms by (induction q) (simp_all add: add.assoc step_times_add [of _ k])
  from this [of "n div k" "n mod k"] show ?thesis by (simp add: div_mult_mod_eq)
qed

lemma walk_loop_exact:
  assumes "step_times step i start = Some pos" "i \<le> count"
    and "\<And>p j. seen p = Some j \<Longrightarrow> j < i \<and> step_times step j start = Some p"
  shows "walk_loop step count seen i pos = step_times step count start"
  using assms
proof (induction step count seen i pos rule: walk_loop.induct)
  case (1 step count seen i pos)
  have rest: "step_times step count start = step_times step (count - i) pos"
    using 1(2,3) step_times_add [of step i "count - i" start] by simp
  show ?case
  proof (cases "i < count")
    case True
    show ?thesis
    proof (cases "seen pos")
      case (Some j)
      then have j: "j < i" "step_times step j start = Some pos" using 1(4) by auto
      then have "step_times step (i - j) pos = Some pos"
        using 1(2) step_times_add [of step j "i - j" start] by simp
      from step_times_period [OF this, of "count - i"] show ?thesis
        using True Some rest by (simp add: walk_loop.simps [of step count seen i pos])
    next
      case None
      show ?thesis
      proof (cases "step pos")
        case none: None
        have "step_times step (count - i) pos = None" using none True by (cases "count - i") simp_all
        then show ?thesis using True None none rest by (simp add: walk_loop.simps [of step count seen i pos])
      next
        case (Some p)
        have first: "step_times step (i + 1) start = Some p" using 1(2) Some step_times_add [of step i 1 start] by simp
        have others: "j < i + 1 \<and> step_times step j start = Some q" if "(seen(pos \<mapsto> i)) q = Some j" for q j
          using that 1(2,4) by (fastforce split: if_splits)
        have "walk_loop step count (seen(pos \<mapsto> i)) (i + 1) p = step_times step count start"
          by (rule 1(1) [OF True None Some first _ others]) (use True in simp_all)
        then show ?thesis using True None Some by (simp add: walk_loop.simps [of step count seen i pos])
      qed
    qed
  next
    case False
    then have "walk_loop step count seen i pos = Some pos" by (simp add: walk_loop.simps [of step count seen i pos])
    then show ?thesis using rest False 1(3) by simp
  qed
qed

text \<open>
  C28: A search with any count, however large, lands where that many single steps (at least one) would, or fails when one
  of them fails: taking the rest of the steps modulo the period of the landings changes nothing.
\<close>

theorem walk_count_exact: "walk_count start count step = step_times step (max 1 count) start"
  unfolding walk_count_def by (rule walk_loop_exact) simp_all

end
