(* ===== verification/Crc32c.thy ===== *)
theory Crc32c
  imports Prelude
begin

unbundle bit_operations_syntax

text \<open>
  The CRC32C of \<^verbatim>\<open>apps/tui/src/persist/rj01.rs\<close>, which guards every journal record.  The table-driven routine
  is shown equal to the bit-by-bit division it stands for, and to tell any two byte strings apart that differ
  in one byte.
\<close>

section \<open>The routine\<close>

definition crc_step :: "u32 \<Rightarrow> u32" where
  "crc_step c = (if c AND 1 \<noteq> 0 then 0x82F63B78 XOR drop_bit 1 c else drop_bit 1 c)"

definition crc_table :: "u32 list" where
  "crc_table = map (\<lambda>n. (crc_step ^^ 8) (of_nat n)) [0..<256]"

definition crc_byte :: "u32 \<Rightarrow> byte \<Rightarrow> u32" where
  "crc_byte crc b = crc_table ! unat ((crc XOR ucast b) AND 0xFF) XOR drop_bit 8 crc"

definition crc32c :: "bytes \<Rightarrow> u32" where
  "crc32c bs = foldl crc_byte 0xFFFFFFFF bs XOR 0xFFFFFFFF"

section \<open>The division it stands for\<close>

text \<open>One byte of the message is eight steps of the division.\<close>

definition crc_bitwise :: "bytes \<Rightarrow> u32" where
  "crc_bitwise bs = foldl (\<lambda>crc b. (crc_step ^^ 8) (crc XOR ucast b)) 0xFFFFFFFF bs XOR 0xFFFFFFFF"

section \<open>Lemmas\<close>

lemma xor_cancel: "a XOR c = b XOR c \<longleftrightarrow> a = (b :: 'a :: len word)" "c XOR a = c XOR b \<longleftrightarrow> a = b"
  by (metis xor.assoc xor_self_eq xor.right_neutral, metis xor.commute xor.assoc xor_self_eq xor.right_neutral)

lemma crc_step_bits: "crc_step c = (if bit c 0 then 0x82F63B78 else 0) XOR drop_bit 1 c"
  by (simp add: crc_step_def and_one_eq odd_iff_mod_2_eq_one bit_0)

lemma crc_step_xor: "crc_step (a XOR b) = crc_step a XOR crc_step b"
  by (rule bit_word_eqI) (auto simp: crc_step_bits bit_xor_iff bit_drop_bit_eq)

lemma crc_steps_xor: "(crc_step ^^ n) (a XOR b) = (crc_step ^^ n) a XOR (crc_step ^^ n) b"
  by (induction n arbitrary: a b) (simp_all add: funpow_swap1 crc_step_xor)

lemma crc_steps_shift: "\<forall>i < n. \<not> bit c i \<Longrightarrow> (crc_step ^^ n) c = drop_bit n c"
proof (induction n arbitrary: c)
  case (Suc n)
  then have "crc_step c = drop_bit 1 c" by (simp add: crc_step_bits)
  moreover have "(crc_step ^^ n) (drop_bit 1 c) = drop_bit n (drop_bit 1 c)"
    using Suc.prems by (intro Suc.IH) (simp add: bit_drop_bit_eq)
  ultimately show ?case by (simp add: funpow_swap1 drop_bit_drop_bit)
qed simp

lemma low_byte: "x AND 0xFF = take_bit 8 (x :: u32)"
  by (simp add: take_bit_eq_mask mask_numeral)

lemma crc_table_nth: "crc_table ! unat (x AND 0xFF) = (crc_step ^^ 8) (x AND 0xFF)"
proof -
  have "unat (x AND 0xFF) < 256" by (simp add: low_byte take_bit_eq_mod unat_mod)
  then show ?thesis by (simp add: crc_table_def)
qed

lemma crc_byte_steps: "crc_byte crc b = (crc_step ^^ 8) (crc XOR ucast b)"
proof -
  let ?x = "crc XOR ucast b"
  let ?high = "?x XOR (?x AND 0xFF)"
  have "\<forall>i < 8. \<not> bit ?high i" by (simp add: low_byte bit_xor_iff bit_take_bit_iff)
  then have "(crc_step ^^ 8) ?high = drop_bit 8 ?high" by (rule crc_steps_shift)
  moreover have "drop_bit 8 ?high = drop_bit 8 crc"
    by (rule bit_word_eqI) (auto simp: low_byte bit_xor_iff bit_take_bit_iff bit_drop_bit_eq bit_ucast_iff dest: bit_imp_le_length)
  ultimately have "(crc_step ^^ 8) ((?x AND 0xFF) XOR ?high) = (crc_step ^^ 8) (?x AND 0xFF) XOR drop_bit 8 crc"
    by (simp add: crc_steps_xor)
  moreover have "(?x AND 0xFF) XOR ?high = ?x" by (simp add: xor.left_commute)
  ultimately show ?thesis by (simp add: crc_byte_def crc_table_nth)
qed

lemma crc_step_top: "bit (crc_step c) 31 = bit c 0"
proof -
  have "bit (0x82F63B78 :: u32) 31" by (simp add: bit_numeral_word_iff)
  moreover have "\<not> bit c 32" using bit_imp_le_length [of c 32] by auto
  ultimately show ?thesis by (simp add: crc_step_bits bit_xor_iff bit_drop_bit_eq)
qed

lemma crc_step_inj: "crc_step a = crc_step b \<Longrightarrow> a = b"
proof -
  assume e: "crc_step a = crc_step b"
  then have low: "bit a 0 = bit b 0" by (metis crc_step_top)
  then have "drop_bit 1 a = drop_bit 1 b" using e by (simp add: crc_step_bits xor_cancel split: if_splits)
  then have "bit a n = bit b n" for n
    using low by (cases n) (metis, metis bit_drop_bit_eq comp_apply plus_1_eq_Suc)
  then show "a = b" by (simp add: bit_eq_iff)
qed

lemma crc_steps_inj: "(crc_step ^^ n) a = (crc_step ^^ n) b \<Longrightarrow> a = b"
  by (induction n) (auto dest: crc_step_inj)

lemma foldl_crc_inj: "foldl crc_byte a bs = foldl crc_byte b bs \<Longrightarrow> a = b"
proof (induction bs arbitrary: a b)
  case (Cons x bs)
  then have "crc_byte a x = crc_byte b x" by simp
  then show ?case using crc_steps_inj [of 8 "a XOR ucast x" "b XOR ucast x"] by (simp add: crc_byte_steps xor_cancel)
qed simp

lemma crc_one_byte:
  assumes "crc32c (pre @ [b] @ post) = crc32c (pre @ [c] @ post)"
  shows "b = c"
proof -
  let ?s = "foldl crc_byte 0xFFFFFFFF pre"
  have "foldl crc_byte (crc_byte ?s b) post = foldl crc_byte (crc_byte ?s c) post" using assms by (simp add: crc32c_def xor_cancel)
  then have "crc_byte ?s b = crc_byte ?s c" by (rule foldl_crc_inj)
  then have "(ucast b :: u32) = ucast c"
    using crc_steps_inj [of 8 "?s XOR ucast b" "?s XOR ucast c"] by (simp add: crc_byte_steps xor_cancel)
  then show "b = c" using ucast_up_ucast_id [where 'a = 8 and 'b = 32] by (simp add: is_up) metis
qed

section \<open>Properties\<close>

text \<open>
  C40: the table-driven CRC computes the polynomial division bit by bit, and a record damaged in any single byte
  has another checksum.\<close>

theorem crc32c_correct:
  "crc32c bs = crc_bitwise bs \<and> (crc32c (pre @ [b] @ post) = crc32c (pre @ [c] @ post) \<longleftrightarrow> b = c)"
proof -
  have "crc_byte = (\<lambda>crc b. (crc_step ^^ 8) (crc XOR ucast b))" by (intro ext) (rule crc_byte_steps)
  then show ?thesis using crc_one_byte by (auto simp: crc32c_def crc_bitwise_def)
qed

end
