(* ===== verification/Rj01_Codec.thy ===== *)
theory Rj01_Codec
  imports Change_Log File_Format Crc32c
begin

unbundle bit_operations_syntax

text \<open>
  The record format of the recovery journal (\<^verbatim>\<open>apps/tui/src/persist/rj01.rs\<close>): encoding into framed,
  checksummed records and the bounds-checked decoding of one record.  A body that appends to the output is a
  function on the output; a read that fails is a \<open>fault\<close>; the 32-byte arrays are lists.  The journal writes the
  64-bit sequence numbers of the undo nodes, which the history counts as natural numbers.
\<close>

section \<open>Little-endian integers\<close>

definition le_bytes :: "nat \<Rightarrow> 'a :: len word \<Rightarrow> bytes" where
  "le_bytes n w = map (\<lambda>i. ucast (drop_bit (8 * i) w)) [0..<n]"

definition from_le :: "bytes \<Rightarrow> 'a :: len word" where
  "from_le bs = foldr (\<lambda>b w. push_bit 8 w OR ucast b) bs 0"

definition le32 :: "bytes \<Rightarrow> u32" where
  "le32 b = from_le (take 4 b)"

definition le64 :: "bytes \<Rightarrow> u64" where
  "le64 b = from_le (take 8 b)"

section \<open>Constants and kinds\<close>

definition MAGIC :: bytes where
  "MAGIC = [0x52, 0x4A, 0x30, 0x31]"

definition END_MAGIC :: bytes where
  "END_MAGIC = [0x72, 0x6A, 0x30, 0x31]"

definition SCHEMA_MAJOR :: byte where
  "SCHEMA_MAJOR = 1"

definition SCHEMA_MINOR :: byte where
  "SCHEMA_MINOR = 0"

definition SCHEMA :: "16 word" where
  "SCHEMA = push_bit 8 (ucast SCHEMA_MAJOR) OR ucast SCHEMA_MINOR"

definition HEAD :: nat where
  "HEAD = 16"

definition TRAIL :: nat where
  "TRAIL = 8"

datatype kind = KHeader | KCheckpoint | KEdit | KMeta | KMarker

definition kind_u8 :: "kind \<Rightarrow> byte" where
  "kind_u8 k = (case k of KHeader \<Rightarrow> 1 | KCheckpoint \<Rightarrow> 2 | KEdit \<Rightarrow> 3 | KMeta \<Rightarrow> 4 | KMarker \<Rightarrow> 5)"

definition kind_from_u8 :: "byte \<Rightarrow> kind option" where
  "kind_from_u8 b =
     (if b = 1 then Some KHeader else if b = 2 then Some KCheckpoint else if b = 3 then Some KEdit
      else if b = 4 then Some KMeta else if b = 5 then Some KMarker else None)"

section \<open>Records\<close>

record owner =
  ow_pid :: u32
  ow_host :: bytes
  ow_start_ms :: u64

datatype base = BaseCheckpoint | BaseDisk u64 bytes

record header =
  hd_owner :: owner
  hd_path :: bytes
  hd_format :: file_format
  hd_created_ms :: u64
  hd_base :: base

datatype meta =
    SavePoint u64 u64 bytes
  | MetaFormat file_format
  | Rename bytes

record edit_meta =
  em_seq :: u64
  em_timestamp_ms :: u64

record edit_record =
  er_meta :: edit_meta
  er_base_revision :: u64
  er_result_revision :: u64
  er_origin :: transaction_origin
  er_group_hint :: group_hint
  er_kind :: change_kind
  er_forward :: edit_list
  er_inverse :: edit_list

datatype rj_record =
    RHeader header
  | RCheckpoint u64 u64 bytes
  | REdit edit_record
  | RMeta meta
  | RMarker u64
  | Skipped

section \<open>One-byte encodings\<close>

definition format_bits :: "file_format \<Rightarrow> byte" where
  "format_bits f = of_bool (f_eol f = Crlf) OR push_bit 1 (of_bool (f_bom f)) OR push_bit 2 (of_bool (f_final_newline f))"

definition format_from_bits :: "byte \<Rightarrow> file_format" where
  "format_from_bits b =
     \<lparr>f_eol = (if b AND 1 \<noteq> 0 then Crlf else Lf), f_bom = (b AND 2 \<noteq> 0), f_final_newline = (b AND 4 \<noteq> 0),
      f_eof = False, f_binary = False\<rparr>"

definition origin_u8 :: "transaction_origin \<Rightarrow> byte" where
  "origin_u8 og = (case og of UserInput \<Rightarrow> 0 | Macro \<Rightarrow> 1 | Plugin \<Rightarrow> 2 | Lsp \<Rightarrow> 3 | AiAgent \<Rightarrow> 4 | RemotePeer \<Rightarrow> 5)"

definition origin_from :: "byte \<Rightarrow> transaction_origin option" where
  "origin_from b =
     (if b = 0 then Some UserInput else if b = 1 then Some Macro else if b = 2 then Some Plugin
      else if b = 3 then Some Lsp else if b = 4 then Some AiAgent else if b = 5 then Some RemotePeer else None)"

definition hint_u8 :: "group_hint \<Rightarrow> byte" where
  "hint_u8 h = (case h of Continue \<Rightarrow> 0 | BreakBefore \<Rightarrow> 1 | JoinPrev \<Rightarrow> 2)"

definition hint_from :: "byte \<Rightarrow> group_hint option" where
  "hint_from b = (if b = 0 then Some Continue else if b = 1 then Some BreakBefore else if b = 2 then Some JoinPrev else None)"

section \<open>Encoding\<close>

datatype io_error = FileTooLarge nat

definition frame :: "bytes \<Rightarrow> kind \<Rightarrow> (bytes \<Rightarrow> bytes) \<Rightarrow> (io_error + unit) \<times> bytes" where
  "frame out k body =
     (let start = length out;
          o1 = body (out @ replicate HEAD 0);
          len = length o1 - start - HEAD
      in if 2 ^ 32 \<le> len then (Inl (FileTooLarge len), take start o1)
         else
           let h = MAGIC @ le_bytes 2 SCHEMA @ [kind_u8 k, 0] @ le_bytes 4 (of_nat len :: u32);
               payload = drop (start + HEAD) o1
           in (Inr (), take start o1 @ h @ le_bytes 4 (crc32c h) @ payload @ le_bytes 4 (crc32c payload) @ END_MAGIC))"

definition put_u64 :: "bytes \<Rightarrow> u64 \<Rightarrow> bytes" where
  "put_u64 out v = out @ le_bytes 8 v"

definition put_u32 :: "bytes \<Rightarrow> u32 \<Rightarrow> bytes" where
  "put_u32 out v = out @ le_bytes 4 v"

definition put_u8 :: "bytes \<Rightarrow> byte \<Rightarrow> bytes" where
  "put_u8 out v = out @ [v]"

definition u32_len :: "nat \<Rightarrow> u32" where
  "u32_len n = (if n < 2 ^ 32 then of_nat n else - 1)"

definition put_bytes :: "bytes \<Rightarrow> bytes \<Rightarrow> bytes" where
  "put_bytes out b = put_u32 out (u32_len (length b)) @ b"

definition put_edit :: "edit \<Rightarrow> bytes \<Rightarrow> bytes" where
  "put_edit e out = put_bytes (put_u64 (put_u64 out (of_nat (epos e))) (of_nat (edel e))) (eins e)"

definition put_list :: "bytes \<Rightarrow> edit_list \<Rightarrow> bytes" where
  "put_list out es = fold put_edit es (put_u32 out (u32_len (length es)))"

definition encode_header :: "bytes \<Rightarrow> header \<Rightarrow> (io_error + unit) \<times> bytes" where
  "encode_header out h =
     frame out KHeader (\<lambda>o1.
       let o2 = put_u32 o1 (ow_pid (hd_owner h));
           o3 = put_bytes o2 (ow_host (hd_owner h));
           o4 = put_u64 o3 (ow_start_ms (hd_owner h));
           o5 = put_bytes o4 (hd_path h);
           o6 = put_u8 o5 (format_bits (hd_format h));
           o7 = put_u64 o6 (hd_created_ms h)
       in case hd_base h of
            BaseCheckpoint \<Rightarrow> put_u8 o7 0
          | BaseDisk len sha \<Rightarrow> put_u64 (put_u8 o7 1) len @ sha)"

definition encode_checkpoint :: "bytes \<Rightarrow> u64 \<Rightarrow> u64 \<Rightarrow> bytes \<Rightarrow> (io_error + unit) \<times> bytes" where
  "encode_checkpoint out nd rv tx =
     frame out KCheckpoint (\<lambda>o1. put_u64 (put_u64 (put_u64 o1 nd) rv) (of_nat (length tx)) @ tx)"

definition encode_edit :: "bytes \<Rightarrow> edit_meta \<Rightarrow> change_entry \<Rightarrow> (io_error + unit) \<times> bytes" where
  "encode_edit out m e =
     frame out KEdit (\<lambda>o1.
       let o2 = put_u64 o1 (em_seq m);
           o3 = put_u64 o2 (c_base_revision e);
           o4 = put_u64 o3 (c_result_revision e);
           o5 = put_u8 o4 (origin_u8 (c_origin e));
           o6 = put_u8 o5 (hint_u8 (c_group_hint e));
           o7 = put_u64 o6 (em_timestamp_ms m);
           o8 = (case c_kind e of
                   Fresh nd pa \<Rightarrow> put_u64 (put_u64 (put_u8 o7 0) (of_nat nd)) (of_nat pa)
                 | Navigate nd \<Rightarrow> put_u64 (put_u8 o7 1) (of_nat nd))
       in put_list (put_list o8 (c_forward e)) (c_inverse e))"

definition encode_meta :: "bytes \<Rightarrow> meta \<Rightarrow> (io_error + unit) \<times> bytes" where
  "encode_meta out m =
     frame out KMeta (\<lambda>o1.
       case m of
         SavePoint nd len sha \<Rightarrow> put_u64 (put_u64 (put_u8 o1 0) nd) len @ sha
       | MetaFormat f \<Rightarrow> put_u8 (put_u8 o1 1) (format_bits f)
       | Rename p \<Rightarrow> put_bytes (put_u8 o1 2) p)"

definition encode_marker :: "bytes \<Rightarrow> u64 \<Rightarrow> (io_error + unit) \<times> bytes" where
  "encode_marker out t = frame out KMarker (\<lambda>o1. put_u64 o1 t)"

section \<open>The cursor\<close>

text \<open>
  A reader answers a value and the cursor after it, or why there is none: \<open>Bad\<close> is the \<^verbatim>\<open>None\<close> of the source;
  \<open>EndPanic\<close> is no value of it but the panic of \<^verbatim>\<open>Edit::end\<close> inside \<^verbatim>\<open>EditList::new\<close>, with the edit's position and
  length.  \<open>rbind\<close> is the source's \<^verbatim>\<open>?\<close>.
\<close>

datatype fault = Bad | EndPanic nat nat

record cursor =
  cu_b :: bytes
  cu_i :: nat

type_synonym 'a reader = "cursor \<Rightarrow> fault + ('a \<times> cursor)"

definition rbind :: "fault + 'a \<Rightarrow> ('a \<Rightarrow> fault + 'b) \<Rightarrow> fault + 'b" where
  "rbind x f = (case x of Inl e \<Rightarrow> Inl e | Inr v \<Rightarrow> f v)"

definition or_bad :: "'a option \<Rightarrow> fault + 'a" where
  "or_bad x = (case x of None \<Rightarrow> Inl Bad | Some v \<Rightarrow> Inr v)"

lemma rbind_simps [simp]: "rbind (Inl e) f = Inl e" "rbind (Inr v) f = f v"
  by (simp_all add: rbind_def)

lemma rbind_Inr_iff: "rbind x f = Inr y \<longleftrightarrow> (\<exists>v. x = Inr v \<and> f v = Inr y)"
  by (cases x) simp_all

lemma rbind_Inl_iff: "rbind x f = Inl e \<longleftrightarrow> x = Inl e \<or> (\<exists>v. x = Inr v \<and> f v = Inl e)"
  by (cases x) simp_all

lemma or_bad_simps [simp]: "or_bad None = Inl Bad" "or_bad (Some v) = Inr v"
  by (simp_all add: or_bad_def)

lemma or_bad_Inr_iff [simp]: "or_bad x = Inr v \<longleftrightarrow> x = Some v"
  by (cases x) simp_all

lemma or_bad_Inl_iff [simp]: "or_bad x = Inl e \<longleftrightarrow> x = None \<and> e = Bad"
  by (cases x) auto

definition cur_take :: "nat \<Rightarrow> bytes reader" where
  "cur_take n c =
     (let e = cu_i c + n in
      if 2 ^ 64 \<le> e then Inl Bad
      else if e \<le> length (cu_b c) then Inr (slice (cu_i c) e (cu_b c), c\<lparr>cu_i := e\<rparr>)
      else Inl Bad)"

definition cur_u8 :: "byte reader" where
  "cur_u8 c = rbind (cur_take 1 c) (\<lambda>(s, c). Inr (s ! 0, c))"

definition cur_u32 :: "u32 reader" where
  "cur_u32 c = rbind (cur_take 4 c) (\<lambda>(s, c). Inr (le32 s, c))"

definition cur_u64 :: "u64 reader" where
  "cur_u64 c = rbind (cur_take 8 c) (\<lambda>(s, c). Inr (le64 s, c))"

definition cur_usize64 :: "nat reader" where
  "cur_usize64 c = rbind (cur_u64 c) (\<lambda>(v, c). Inr (unat v, c))"

definition cur_bytes :: "bytes reader" where
  "cur_bytes c = rbind (cur_u32 c) (\<lambda>(n, c). cur_take (unat n) c)"

definition cur_sha :: "bytes reader" where
  "cur_sha c = cur_take 32 c"

definition cur_rest :: "cursor \<Rightarrow> nat" where
  "cur_rest c = length (cu_b c) - cu_i c"

fun list_loop :: "nat \<Rightarrow> edit_list reader" where
  "list_loop 0 c = Inr ([], c)"
| "list_loop (Suc n) c =
     rbind (cur_usize64 c) (\<lambda>(p, c).
     rbind (cur_usize64 c) (\<lambda>(d, c).
     rbind (cur_bytes c) (\<lambda>(ins, c).
     rbind (list_loop n c) (\<lambda>(es, c).
     Inr (edit_replace p d ins # es, c)))))"

text \<open>\<^verbatim>\<open>EditList::new(edits).ok()\<close>: the error becomes \<^verbatim>\<open>None\<close>, the panic stays one.\<close>

definition list_ok :: "edit list \<Rightarrow> fault + edit_list" where
  "list_ok es =
     (case edit_list_new es of Inr l \<Rightarrow> Inr l | Inl (EndOverflow p d) \<Rightarrow> Inl (EndPanic p d) | Inl _ \<Rightarrow> Inl Bad)"

definition cur_list :: "edit_list reader" where
  "cur_list c =
     rbind (cur_u32 c) (\<lambda>(n, c).
     if cur_rest c div 20 < unat n then Inl Bad
     else
       rbind (list_loop (unat n) c) (\<lambda>(es, c).
       rbind (list_ok es) (\<lambda>l. Inr (l, c))))"

section \<open>Decoding\<close>

definition decode_base :: "base reader" where
  "decode_base c =
     rbind (cur_u8 c) (\<lambda>(tag, c).
     if tag = 0 then Inr (BaseCheckpoint, c)
     else if tag = 1 then
       rbind (cur_u64 c) (\<lambda>(len, c).
       rbind (cur_sha c) (\<lambda>(sha, c).
       Inr (BaseDisk len sha, c)))
     else Inl Bad)"

definition decode_header :: "header reader" where
  "decode_header c =
     rbind (cur_u32 c) (\<lambda>(pid, c).
     rbind (cur_bytes c) (\<lambda>(host, c).
     rbind (cur_u64 c) (\<lambda>(start_ms, c).
     rbind (cur_bytes c) (\<lambda>(path, c).
     rbind (cur_u8 c) (\<lambda>(fb, c).
     rbind (cur_u64 c) (\<lambda>(created_ms, c).
     rbind (decode_base c) (\<lambda>(ba, c).
     Inr (\<lparr>hd_owner = \<lparr>ow_pid = pid, ow_host = host, ow_start_ms = start_ms\<rparr>, hd_path = path,
           hd_format = format_from_bits fb, hd_created_ms = created_ms, hd_base = ba\<rparr>, c))))))))"

definition decode_kind :: "change_kind reader" where
  "decode_kind c =
     rbind (cur_u8 c) (\<lambda>(tag, c).
     if tag = 0 then
       rbind (cur_u64 c) (\<lambda>(nd, c).
       rbind (cur_u64 c) (\<lambda>(pa, c).
       Inr (Fresh (unat nd) (unat pa), c)))
     else if tag = 1 then rbind (cur_u64 c) (\<lambda>(nd, c). Inr (Navigate (unat nd), c))
     else Inl Bad)"

definition decode_edit :: "edit_record reader" where
  "decode_edit c =
     rbind (cur_u64 c) (\<lambda>(sq, c).
     rbind (cur_u64 c) (\<lambda>(base_rv, c).
     rbind (cur_u64 c) (\<lambda>(result_rv, c).
     rbind (cur_u8 c) (\<lambda>(ob, c).
     rbind (or_bad (origin_from ob)) (\<lambda>og.
     rbind (cur_u8 c) (\<lambda>(hb, c).
     rbind (or_bad (hint_from hb)) (\<lambda>hint.
     rbind (cur_u64 c) (\<lambda>(ts, c).
     rbind (decode_kind c) (\<lambda>(k, c).
     rbind (cur_list c) (\<lambda>(fwd, c).
     rbind (cur_list c) (\<lambda>(bwd, c).
     Inr (\<lparr>er_meta = \<lparr>em_seq = sq, em_timestamp_ms = ts\<rparr>, er_base_revision = base_rv, er_result_revision = result_rv,
           er_origin = og, er_group_hint = hint, er_kind = k, er_forward = fwd, er_inverse = bwd\<rparr>, c))))))))))))"

definition decode_meta :: "meta reader" where
  "decode_meta c =
     rbind (cur_u8 c) (\<lambda>(tag, c).
     if tag = 0 then
       rbind (cur_u64 c) (\<lambda>(nd, c).
       rbind (cur_u64 c) (\<lambda>(len, c).
       rbind (cur_sha c) (\<lambda>(sha, c).
       Inr (SavePoint nd len sha, c))))
     else if tag = 1 then rbind (cur_u8 c) (\<lambda>(fb, c). Inr (MetaFormat (format_from_bits fb), c))
     else if tag = 2 then rbind (cur_bytes c) (\<lambda>(p, c). Inr (Rename p, c))
     else Inl Bad)"

definition decode_checkpoint :: "rj_record reader" where
  "decode_checkpoint c =
     rbind (cur_u64 c) (\<lambda>(nd, c).
     rbind (cur_u64 c) (\<lambda>(rv, c).
     rbind (cur_usize64 c) (\<lambda>(n, c).
     rbind (cur_take n c) (\<lambda>(tx, c).
     Inr (RCheckpoint nd rv tx, c)))))"

definition decode_payload :: "kind option \<Rightarrow> bool \<Rightarrow> rj_record reader" where
  "decode_payload k newer_minor c =
     (case k of
        None \<Rightarrow> if newer_minor then Inr (Skipped, c) else Inl Bad
      | Some KHeader \<Rightarrow> rbind (decode_header c) (\<lambda>(h, c). Inr (RHeader h, c))
      | Some KCheckpoint \<Rightarrow> decode_checkpoint c
      | Some KEdit \<Rightarrow> rbind (decode_edit c) (\<lambda>(e, c). Inr (REdit e, c))
      | Some KMeta \<Rightarrow> rbind (decode_meta c) (\<lambda>(m, c). Inr (RMeta m, c))
      | Some KMarker \<Rightarrow> rbind (cur_u64 c) (\<lambda>(t, c). Inr (RMarker t, c)))"

text \<open>\<open>Panicked\<close> is no value of \<^verbatim>\<open>Stop\<close>: reading the record panicked.\<close>

datatype stop = Torn | Corrupt | NewerMajor byte | Panicked nat nat

definition read_record :: "bytes \<Rightarrow> nat \<Rightarrow> stop + (rj_record \<times> nat)" where
  "read_record raw at =
     (let rest = drop (min at (length raw)) raw in
      if length rest < HEAD then Inl Torn
      else
        let h = take HEAD rest in
        if take 4 h \<noteq> MAGIC then Inl Corrupt
        else if crc32c (take 12 h) \<noteq> le32 (slice 12 16 h) then Inl Corrupt
        else
          let ver = from_le [h ! 4, h ! 5] :: 16 word;
              major = ucast (drop_bit 8 ver) :: byte;
              minor = ucast ver :: byte
          in if major \<noteq> SCHEMA_MAJOR then Inl (NewerMajor major)
             else
               let len = unat (le32 (slice 8 12 h)); e = HEAD + len + TRAIL in
               if 2 ^ 64 \<le> e then Inl Torn
               else if length rest < e then Inl Torn
               else
                 let payload = slice HEAD (HEAD + len) rest;
                     trail = slice (HEAD + len) e rest
                 in if crc32c payload \<noteq> le32 (take 4 trail) \<or> drop 4 trail \<noteq> END_MAGIC then Inl Corrupt
                    else
                      let newer_minor = SCHEMA_MINOR < minor in
                      case decode_payload (kind_from_u8 (h ! 6)) newer_minor \<lparr>cu_b = payload, cu_i = 0\<rparr> of
                        Inr (r, c) \<Rightarrow>
                          if cur_rest c = 0 \<or> newer_minor \<or> r = Skipped then Inr (r, at + e) else Inl Corrupt
                      | Inl Bad \<Rightarrow> Inl Corrupt
                      | Inl (EndPanic p d) \<Rightarrow> Inl (Panicked p d))"

end
