(* ===== verification/Rj01_Laws.thy ===== *)
theory Rj01_Laws
  imports Rj01_Codec
begin

unbundle bit_operations_syntax

text \<open>
  Reading back what was written: \<open>rd p xs v\<close> says the reader \<open>p\<close> takes exactly the bytes \<open>xs\<close> for the value
  \<open>v\<close>, whatever follows them.  The rules compose along the decoders, so every record decodes to what was encoded.
\<close>

section \<open>Little-endian integers\<close>

lemma length_le_bytes [simp]: "length (le_bytes n w) = n"
  by (simp add: le_bytes_def)

lemma le_bytes_Suc: "le_bytes (Suc n) w = ucast w # le_bytes n (drop_bit 8 w)"
  by (simp add: le_bytes_def upt_conv_Cons map_Suc_upt [symmetric] drop_bit_drop_bit add.commute del: upt_Suc)

lemma from_le_bytes: "from_le (le_bytes n w) = take_bit (8 * n) (w :: 'a :: len word)"
proof (induction n arbitrary: w)
  case (Suc n)
  have "from_le (le_bytes (Suc n) w) = push_bit 8 (take_bit (8 * n) (drop_bit 8 w)) OR (ucast (ucast w :: byte) :: 'a word)"
    using Suc by (simp add: le_bytes_Suc from_le_def)
  also have "\<dots> = take_bit (8 * Suc n) w"
    by (rule bit_word_eqI)
      (auto simp: bit_or_iff bit_push_bit_iff bit_take_bit_iff bit_drop_bit_eq bit_ucast_iff dest: bit_imp_le_length)
  finally show ?case .
qed (simp add: le_bytes_def from_le_def)

lemma le32_le_bytes: "le32 (le_bytes 4 w @ xs) = w"
  by (simp add: le32_def from_le_bytes take_bit_word_eq_self)

lemma le64_le_bytes: "le64 (le_bytes 8 w @ xs) = w"
  by (simp add: le64_def from_le_bytes take_bit_word_eq_self)

section \<open>Readers\<close>

definition ahead :: "cursor \<Rightarrow> bytes" where
  "ahead c = drop (cu_i c) (cu_b c)"

definition cur_ok :: "cursor \<Rightarrow> bool" where
  "cur_ok c \<longleftrightarrow> cu_i c \<le> length (cu_b c) \<and> length (cu_b c) < 2 ^ 64"

definition advance :: "cursor \<Rightarrow> nat \<Rightarrow> cursor" where
  "advance c n = c\<lparr>cu_i := cu_i c + n\<rparr>"

definition rd :: "'a reader \<Rightarrow> bytes \<Rightarrow> 'a \<Rightarrow> bool" where
  "rd p xs v \<longleftrightarrow> (\<forall>c rest. cur_ok c \<and> ahead c = xs @ rest \<longrightarrow> p c = Inr (v, advance c (length xs)))"

lemma advance_facts:
  assumes "cur_ok c" "ahead c = xs @ rest"
  shows "cur_ok (advance c (length xs))" "ahead (advance c (length xs)) = rest" "cur_rest c = length xs + length rest"
proof -
  have "length (ahead c) = length xs + length rest" using assms(2) by simp
  then have "length (cu_b c) - cu_i c = length xs + length rest" by (simp add: ahead_def)
  then show "cur_ok (advance c (length xs))" "cur_rest c = length xs + length rest"
    using assms(1) unfolding cur_ok_def advance_def cur_rest_def by auto
  show "ahead (advance c (length xs)) = rest"
    using assms(2) unfolding ahead_def advance_def
    by (metis add.commute append_eq_conv_conj cursor.select_convs(1,2) cursor.surjective cursor.update_convs(2) drop_drop)
qed

lemma advance_add [simp]: "advance (advance c m) n = advance c (m + n)"
  by (simp add: advance_def add.assoc)

lemma rd_take: "rd (cur_take (length xs)) xs xs"
  unfolding rd_def
proof (intro allI impI)
  fix c rest assume a: "cur_ok c \<and> ahead c = xs @ rest"
  then have "cu_i c + length xs \<le> length (cu_b c)" using advance_facts(1) [of c xs rest] by (simp add: cur_ok_def advance_def)
  moreover from this have "slice (cu_i c) (cu_i c + length xs) (cu_b c) = xs" using a by (simp add: slice_def ahead_def [symmetric])
  ultimately show "cur_take (length xs) c = Inr (xs, advance c (length xs))"
    using a by (simp add: cur_take_def Let_def cur_ok_def advance_def)
qed

lemma rd_ret: "rd (\<lambda>c. Inr (v, c)) [] v"
  by (simp add: rd_def advance_def)

lemma rd_bind:
  assumes "rd p xs v" "rd (q v) ys w" "zs = xs @ ys"
  shows "rd (\<lambda>c. rbind (p c) (\<lambda>(x, c'). q x c')) zs w"
  unfolding rd_def
proof (intro allI impI)
  fix c rest assume a: "cur_ok c \<and> ahead c = zs @ rest"
  then have b: "p c = Inr (v, advance c (length xs))" using assms(1,3) by (simp add: rd_def)
  have "cur_ok (advance c (length xs))" "ahead (advance c (length xs)) = ys @ rest"
    using advance_facts(1,2) [of c xs "ys @ rest"] a assms(3) by simp_all
  then have "q v (advance c (length xs)) = Inr (w, advance c (length zs))" using assms(2,3) by (simp add: rd_def)
  then show "rbind (p c) (\<lambda>(x, c'). q x c') = Inr (w, advance c (length zs))" using b by simp
qed

lemma rd_u8: "rd cur_u8 [b] b"
  unfolding cur_u8_def [abs_def] using rd_take [of "[b]"] by (intro rd_bind [where xs = "[b]" and v = "[b]"]) (simp_all add: rd_ret)

lemma rd_u32: "rd cur_u32 (le_bytes 4 v) v"
  unfolding cur_u32_def [abs_def] using rd_take [of "le_bytes 4 v"] rd_ret [of v] le32_le_bytes [of v "[]"]
  by (intro rd_bind [where xs = "le_bytes 4 v" and v = "le_bytes 4 v"]) simp_all

lemma rd_u64: "rd cur_u64 (le_bytes 8 v) v"
  unfolding cur_u64_def [abs_def] using rd_take [of "le_bytes 8 v"] rd_ret [of v] le64_le_bytes [of v "[]"]
  by (intro rd_bind [where xs = "le_bytes 8 v" and v = "le_bytes 8 v"]) simp_all

lemma rd_usize64: "n < 2 ^ 64 \<Longrightarrow> rd cur_usize64 (le_bytes 8 (of_nat n :: u64)) n"
  unfolding cur_usize64_def [abs_def] using rd_ret [of n]
  by (intro rd_bind [OF rd_u64 [of "of_nat n"], where ys = "[]"]) (simp_all add: unat_of_nat)

lemma u32_len_unat [simp]: "n < 2 ^ 32 \<Longrightarrow> unat (u32_len n) = n"
  by (simp add: u32_len_def unat_of_nat)

lemma rd_bytes: "length b < 2 ^ 32 \<Longrightarrow> rd cur_bytes (le_bytes 4 (u32_len (length b)) @ b) b"
  unfolding cur_bytes_def [abs_def] using rd_take [of b] by (intro rd_bind [OF rd_u32]) simp_all

lemma rd_sha: "length sha = 32 \<Longrightarrow> rd cur_sha sha sha"
  unfolding cur_sha_def [abs_def] using rd_take [of sha] by simp

section \<open>Edit lists\<close>

definition edit_bytes :: "edit \<Rightarrow> bytes" where
  "edit_bytes e = le_bytes 8 (of_nat (epos e) :: u64) @ le_bytes 8 (of_nat (edel e) :: u64) @
     le_bytes 4 (u32_len (length (eins e))) @ eins e"

definition list_payload :: "edit_list \<Rightarrow> bytes" where
  "list_payload es = le_bytes 4 (u32_len (length es)) @ concat (map edit_bytes es)"

definition edit_fits :: "edit \<Rightarrow> bool" where
  "edit_fits e \<longleftrightarrow> epos e < 2 ^ 64 \<and> edel e < 2 ^ 64 \<and> length (eins e) < 2 ^ 32"

lemma put_list_eq: "put_list out es = out @ list_payload es"
proof -
  have "fold put_edit es o1 = o1 @ concat (map edit_bytes es)" for o1
    by (induction es arbitrary: o1) (simp_all add: put_edit_def put_bytes_def put_u32_def put_u64_def edit_bytes_def)
  then show ?thesis by (simp add: put_list_def list_payload_def put_u32_def)
qed

lemma rd_list_loop:
  "list_all edit_fits es \<Longrightarrow> rd (list_loop (length es)) (concat (map edit_bytes es)) es"
proof (induction es)
  case Nil
  then show ?case using rd_ret [of "[]"] by simp
next
  case (Cons e es)
  then have f: "epos e < 2 ^ 64" "edel e < 2 ^ 64" "length (eins e) < 2 ^ 32"
    and l: "rd (list_loop (length es)) (concat (map edit_bytes es)) es" by (simp_all add: edit_fits_def)
  have e: "edit_replace (epos e) (edel e) (eins e) = e" by (simp add: edit_replace_def)
  have 4: "rd (\<lambda>c. rbind (list_loop (length es) c) (\<lambda>(es', c). Inr (edit_replace (epos e) (edel e) (eins e) # es', c)))
      (concat (map edit_bytes es)) (e # es)"
    by (rule rd_bind [OF l]) (simp_all add: e rd_ret)
  have "rd (list_loop (Suc (length es))) (edit_bytes e @ concat (map edit_bytes es)) (e # es)"
    unfolding list_loop.simps(2) [abs_def]
    by (rule rd_bind [OF rd_usize64 [OF f(1)]], rule rd_bind [OF rd_usize64 [OF f(2)]], rule rd_bind [OF rd_bytes [OF f(3)]],
        rule 4, rule refl, rule refl, simp add: edit_bytes_def)
  then show ?case by (simp del: list_loop.simps)
qed

lemma concat_edit_bytes: "20 * length es \<le> length (concat (map edit_bytes es))"
  by (induction es) (simp_all add: edit_bytes_def)

lemma edit_list_new_id: "edits_wf es \<Longrightarrow> edit_list_new es = Inr es"
proof -
  assume wf: "edits_wf es"
  then have "sorted (map epos es)" unfolding edits_wf_def by (auto simp: sorted_map elim!: sorted_wrt_mono_rel [rotated])
  moreover have "filter changes_something es = es" using wf by (auto simp: edits_wf_def filter_id_conv)
  ultimately show ?thesis using wf unfolding edit_list_new_Inr_iff by (simp add: sort_key_id_if_sorted)
qed

lemma rd_list:
  assumes "list_all edit_fits es" "edits_wf es" "length es < 2 ^ 32"
  shows "rd cur_list (list_payload es) es"
  unfolding list_payload_def cur_list_def [abs_def]
proof (rule rd_bind [OF rd_u32 _ refl])
  show "rd (\<lambda>c. if cur_rest c div 20 < unat (u32_len (length es)) then Inl Bad
      else rbind (list_loop (unat (u32_len (length es))) c)
        (\<lambda>(es, c). rbind (list_ok es) (\<lambda>l. Inr (l, c)))) (concat (map edit_bytes es)) es"
    unfolding rd_def
  proof (intro allI impI)
    fix c rest assume a: "cur_ok c \<and> ahead c = concat (map edit_bytes es) @ rest"
    have "20 * length es \<le> cur_rest c" using advance_facts(3) [of c _ rest] a concat_edit_bytes [of es] by auto
    moreover have "list_ok es = Inr es" using edit_list_new_id [OF assms(2)] by (simp add: list_ok_def)
    moreover have "list_loop (length es) c = Inr (es, advance c (length (concat (map edit_bytes es))))"
      using rd_list_loop [OF assms(1)] a by (simp add: rd_def)
    ultimately show "(if cur_rest c div 20 < unat (u32_len (length es)) then Inl Bad
      else rbind (list_loop (unat (u32_len (length es))) c)
        (\<lambda>(es, c). rbind (list_ok es) (\<lambda>l. Inr (l, c)))) =
      Inr (es, advance c (length (concat (map edit_bytes es))))"
      using assms(3) by simp
  qed
qed

section \<open>Payloads\<close>

definition bytes_payload :: "bytes \<Rightarrow> bytes" where
  "bytes_payload b = le_bytes 4 (u32_len (length b)) @ b"

definition base_payload :: "base \<Rightarrow> bytes" where
  "base_payload ba = (case ba of BaseCheckpoint \<Rightarrow> [0] | BaseDisk len sha \<Rightarrow> [1] @ le_bytes 8 len @ sha)"

definition header_payload :: "header \<Rightarrow> bytes" where
  "header_payload h = le_bytes 4 (ow_pid (hd_owner h)) @ bytes_payload (ow_host (hd_owner h)) @ le_bytes 8 (ow_start_ms (hd_owner h)) @
     bytes_payload (hd_path h) @ [format_bits (hd_format h)] @ le_bytes 8 (hd_created_ms h) @ base_payload (hd_base h)"

definition kind_payload :: "change_kind \<Rightarrow> bytes" where
  "kind_payload k = (case k of Fresh nd pa \<Rightarrow> [0] @ le_bytes 8 (of_nat nd :: u64) @ le_bytes 8 (of_nat pa :: u64)
     | Navigate nd \<Rightarrow> [1] @ le_bytes 8 (of_nat nd :: u64))"

definition edit_payload :: "edit_record \<Rightarrow> bytes" where
  "edit_payload e = le_bytes 8 (em_seq (er_meta e)) @ le_bytes 8 (er_base_revision e) @ le_bytes 8 (er_result_revision e) @
     [origin_u8 (er_origin e)] @ [hint_u8 (er_group_hint e)] @ le_bytes 8 (em_timestamp_ms (er_meta e)) @
     kind_payload (er_kind e) @ list_payload (er_forward e) @ list_payload (er_inverse e)"

definition meta_payload :: "meta \<Rightarrow> bytes" where
  "meta_payload m = (case m of SavePoint nd len sha \<Rightarrow> [0] @ le_bytes 8 nd @ le_bytes 8 len @ sha
     | MetaFormat f \<Rightarrow> [1] @ [format_bits f] | Rename p \<Rightarrow> [2] @ bytes_payload p)"

definition checkpoint_payload :: "u64 \<Rightarrow> u64 \<Rightarrow> bytes \<Rightarrow> bytes" where
  "checkpoint_payload nd rv tx = le_bytes 8 nd @ le_bytes 8 rv @ le_bytes 8 (of_nat (length tx) :: u64) @ tx"

definition framed :: "kind \<Rightarrow> bytes \<Rightarrow> bytes" where
  "framed k p =
     (let h = MAGIC @ le_bytes 2 SCHEMA @ [kind_u8 k, 0] @ le_bytes 4 (of_nat (length p) :: u32)
      in h @ le_bytes 4 (crc32c h) @ p @ le_bytes 4 (crc32c p) @ END_MAGIC)"

definition frame_result :: "bytes \<Rightarrow> kind \<Rightarrow> bytes \<Rightarrow> (io_error + unit) \<times> bytes" where
  "frame_result out k p = (if 2 ^ 32 \<le> length p then (Inl (FileTooLarge (length p)), out) else (Inr (), out @ framed k p))"

lemma frame_append:
  assumes "\<And>o1. body o1 = o1 @ p"
  shows "frame out k body = frame_result out k p"
  by (simp add: frame_def assms Let_def framed_def frame_result_def)

definition entry_of_record :: "edit_record \<Rightarrow> change_entry" where
  "entry_of_record e = \<lparr>c_base_revision = er_base_revision e, c_result_revision = er_result_revision e,
     c_origin = er_origin e, c_group_hint = er_group_hint e, c_forward = er_forward e, c_inverse = er_inverse e,
     c_kind = er_kind e\<rparr>"

definition record_of_entry :: "edit_meta \<Rightarrow> change_entry \<Rightarrow> edit_record" where
  "record_of_entry m e = \<lparr>er_meta = m, er_base_revision = c_base_revision e, er_result_revision = c_result_revision e,
     er_origin = c_origin e, er_group_hint = c_group_hint e, er_kind = c_kind e, er_forward = c_forward e,
     er_inverse = c_inverse e\<rparr>"

text \<open>The writer's five functions by the record they write.\<close>

definition encode :: "bytes \<Rightarrow> rj_record \<Rightarrow> (io_error + unit) \<times> bytes" where
  "encode out r =
     (case r of
        RHeader h \<Rightarrow> encode_header out h
      | RCheckpoint nd rv tx \<Rightarrow> encode_checkpoint out nd rv tx
      | REdit e \<Rightarrow> encode_edit out (er_meta e) (entry_of_record e)
      | RMeta m \<Rightarrow> encode_meta out m
      | RMarker t \<Rightarrow> encode_marker out t
      | Skipped \<Rightarrow> (Inr (), out))"

definition record_kind :: "rj_record \<Rightarrow> kind" where
  "record_kind r = (case r of RHeader _ \<Rightarrow> KHeader | RCheckpoint _ _ _ \<Rightarrow> KCheckpoint | REdit _ \<Rightarrow> KEdit | RMeta _ \<Rightarrow> KMeta
     | RMarker _ \<Rightarrow> KMarker | Skipped \<Rightarrow> KMarker)"

definition record_payload :: "rj_record \<Rightarrow> bytes" where
  "record_payload r = (case r of RHeader h \<Rightarrow> header_payload h | RCheckpoint nd rv tx \<Rightarrow> checkpoint_payload nd rv tx
     | REdit e \<Rightarrow> edit_payload e | RMeta m \<Rightarrow> meta_payload m | RMarker t \<Rightarrow> le_bytes 8 t | Skipped \<Rightarrow> [])"

lemmas put_simps = put_list_eq put_u8_def put_u32_def put_u64_def put_bytes_def Let_def

lemmas payload_defs = header_payload_def base_payload_def bytes_payload_def edit_payload_def kind_payload_def
  meta_payload_def checkpoint_payload_def

lemma encode_eqs:
  "encode_header out h = frame_result out KHeader (header_payload h)"
  "encode_checkpoint out nd rv tx = frame_result out KCheckpoint (checkpoint_payload nd rv tx)"
  "encode_edit out (er_meta e) (entry_of_record e) = frame_result out KEdit (edit_payload e)"
  "encode_meta out m = frame_result out KMeta (meta_payload m)"
  "encode_marker out t = frame_result out KMarker (le_bytes 8 t)"
  unfolding encode_header_def encode_checkpoint_def encode_edit_def encode_meta_def encode_marker_def entry_of_record_def
  by (rule frame_append; simp add: put_simps payload_defs split: base.split change_kind.split meta.split)+

lemma encode_frame: "r \<noteq> Skipped \<Longrightarrow> encode out r = frame_result out (record_kind r) (record_payload r)"
  by (cases r) (simp_all add: encode_def record_kind_def record_payload_def encode_eqs)

section \<open>Decoding a payload\<close>

lemma rd_val: "v = w \<Longrightarrow> rd (\<lambda>c. Inr (v, c)) [] w"
  using rd_ret by simp

lemma rd_lift: "x = Some v \<Longrightarrow> rd (q v) ys w \<Longrightarrow> rd (\<lambda>c. rbind (or_bad x) (\<lambda>v. q v c)) ys w"
  by simp

text \<open>What the format byte can carry.\<close>

definition format_fits :: "file_format \<Rightarrow> bool" where
  "format_fits f \<longleftrightarrow> f_eol f \<noteq> Cr \<and> \<not> f_eof f \<and> \<not> f_binary f"

lemma format_bits_back: "format_fits f \<Longrightarrow> format_from_bits (format_bits f) = f"
  by (cases f; cases "f_eol f") (auto simp: format_fits_def format_bits_def format_from_bits_def)

lemma origin_back: "origin_from (origin_u8 og) = Some og"
  by (cases og) (simp_all add: origin_from_def origin_u8_def)

lemma hint_back: "hint_from (hint_u8 h) = Some h"
  by (cases h) (simp_all add: hint_from_def hint_u8_def)

lemma kind_back: "kind_from_u8 (kind_u8 k) = Some k"
  by (cases k) (simp_all add: kind_from_u8_def kind_u8_def)

lemma rd_base:
  assumes "\<forall>len sha. ba = BaseDisk len sha \<longrightarrow> length sha = 32"
  shows "rd decode_base (base_payload ba) ba"
proof (cases ba)
  case BaseCheckpoint
  then show ?thesis unfolding decode_base_def [abs_def] base_payload_def
    by (intro rd_bind [OF rd_u8 [of 0]]) (auto intro: rd_val)
next
  case (BaseDisk len sha)
  have "rd (\<lambda>c. rbind (cur_u64 c) (\<lambda>(len, c). rbind (cur_sha c) (\<lambda>(sha, c). Inr (BaseDisk len sha, c))))
      (le_bytes 8 len @ sha) ba"
    by (rule rd_bind [OF rd_u64 [of len]], rule rd_bind [OF rd_sha [of sha]]) (use assms BaseDisk in \<open>auto intro: rd_val\<close>)
  then show ?thesis unfolding decode_base_def [abs_def] base_payload_def BaseDisk
    by (intro rd_bind [OF rd_u8 [of 1]]) auto
qed

lemma rd_header:
  assumes "length (header_payload h) < 2 ^ 32" "format_fits (hd_format h)"
    "\<forall>len sha. hd_base h = BaseDisk len sha \<longrightarrow> length sha = 32"
  shows "rd decode_header (header_payload h) h"
proof -
  have l: "length (ow_host (hd_owner h)) < 2 ^ 32" "length (hd_path h) < 2 ^ 32"
    using assms(1) by (simp_all add: header_payload_def bytes_payload_def)
  show ?thesis
    unfolding decode_header_def [abs_def]
    by (rule rd_bind [OF rd_u32 [of "ow_pid (hd_owner h)"]], rule rd_bind [OF rd_bytes [OF l(1)]],
        rule rd_bind [OF rd_u64 [of "ow_start_ms (hd_owner h)"]], rule rd_bind [OF rd_bytes [OF l(2)]],
        rule rd_bind [OF rd_u8 [of "format_bits (hd_format h)"]], rule rd_bind [OF rd_u64 [of "hd_created_ms h"]],
        rule rd_bind [OF rd_base [OF assms(3)]], rule rd_val, simp add: format_bits_back [OF assms(2)],
        (rule refl)+) (simp add: header_payload_def bytes_payload_def)
qed

lemma rd_kind:
  assumes "case k of Fresh nd pa \<Rightarrow> nd < 2 ^ 64 \<and> pa < 2 ^ 64 | Navigate nd \<Rightarrow> nd < 2 ^ 64"
  shows "rd decode_kind (kind_payload k) k"
proof (cases k)
  case (Fresh nd pa)
  have "rd (\<lambda>c. rbind (cur_u64 c) (\<lambda>(nd, c). rbind (cur_u64 c) (\<lambda>(pa, c). Inr (Fresh (unat nd) (unat pa), c))))
      (le_bytes 8 (of_nat nd :: u64) @ le_bytes 8 (of_nat pa :: u64)) k"
    by (rule rd_bind [OF rd_u64 [of "of_nat nd"]], rule rd_bind [OF rd_u64 [of "of_nat pa"]])
      (use assms Fresh in \<open>auto intro!: rd_val simp: unat_of_nat\<close>)
  then show ?thesis unfolding decode_kind_def [abs_def] kind_payload_def Fresh
    by (intro rd_bind [OF rd_u8 [of 0]]) auto
next
  case (Navigate nd)
  have "rd (\<lambda>c. rbind (cur_u64 c) (\<lambda>(nd, c). Inr (Navigate (unat nd), c))) (le_bytes 8 (of_nat nd :: u64)) k"
    by (rule rd_bind [OF rd_u64 [of "of_nat nd"]]) (use assms Navigate in \<open>auto intro!: rd_val simp: unat_of_nat\<close>)
  then show ?thesis unfolding decode_kind_def [abs_def] kind_payload_def Navigate
    by (intro rd_bind [OF rd_u8 [of 1]]) auto
qed

definition list_fits :: "edit_list \<Rightarrow> bool" where
  "list_fits es \<longleftrightarrow> edits_wf es \<and> list_all (\<lambda>e. epos e < 2 ^ 64 \<and> edel e < 2 ^ 64) es"

lemma rd_list_fits:
  assumes "list_fits es" "length (list_payload es) < 2 ^ 32"
  shows "rd cur_list (list_payload es) es"
proof (rule rd_list)
  have "length (eins e) \<le> length (concat (map edit_bytes es))" if "e \<in> set es" for e
    using split_list [OF that] by (auto simp: edit_bytes_def)
  then show "list_all edit_fits es"
    using assms by (fastforce simp: list_fits_def list_all_iff edit_fits_def list_payload_def)
  show "length es < 2 ^ 32" using assms(2) concat_edit_bytes [of es] by (simp add: list_payload_def)
qed (use assms in \<open>simp add: list_fits_def\<close>)

definition edit_record_fits :: "edit_record \<Rightarrow> bool" where
  "edit_record_fits e \<longleftrightarrow> list_fits (er_forward e) \<and> list_fits (er_inverse e) \<and>
     (case er_kind e of Fresh nd pa \<Rightarrow> nd < 2 ^ 64 \<and> pa < 2 ^ 64 | Navigate nd \<Rightarrow> nd < 2 ^ 64)"

lemma rd_edit:
  assumes "length (edit_payload e) < 2 ^ 32" "edit_record_fits e"
  shows "rd decode_edit (edit_payload e) e"
proof -
  have k: "case er_kind e of Fresh nd pa \<Rightarrow> nd < 2 ^ 64 \<and> pa < 2 ^ 64 | Navigate nd \<Rightarrow> nd < 2 ^ 64"
    using assms(2) by (simp add: edit_record_fits_def)
  have f: "rd cur_list (list_payload (er_forward e)) (er_forward e)" "rd cur_list (list_payload (er_inverse e)) (er_inverse e)"
    using assms by (auto intro!: rd_list_fits simp: edit_record_fits_def edit_payload_def)
  show ?thesis
    unfolding decode_edit_def [abs_def]
    by (rule rd_bind [OF rd_u64 [of "em_seq (er_meta e)"]], rule rd_bind [OF rd_u64 [of "er_base_revision e"]],
        rule rd_bind [OF rd_u64 [of "er_result_revision e"]], rule rd_bind [OF rd_u8 [of "origin_u8 (er_origin e)"]],
        rule rd_lift [OF origin_back], rule rd_bind [OF rd_u8 [of "hint_u8 (er_group_hint e)"]],
        rule rd_lift [OF hint_back], rule rd_bind [OF rd_u64 [of "em_timestamp_ms (er_meta e)"]],
        rule rd_bind [OF rd_kind [OF k]], rule rd_bind [OF f(1)], rule rd_bind [OF f(2)], rule rd_val, simp,
        (rule refl)+) (simp add: edit_payload_def)
qed

definition meta_fits :: "meta \<Rightarrow> bool" where
  "meta_fits m \<longleftrightarrow> (case m of SavePoint nd len sha \<Rightarrow> length sha = 32 | MetaFormat f \<Rightarrow> format_fits f | Rename p \<Rightarrow> True)"

lemma rd_meta:
  assumes "length (meta_payload m) < 2 ^ 32" "meta_fits m"
  shows "rd decode_meta (meta_payload m) m"
proof (cases m)
  case (SavePoint nd len sha)
  have sha: "length sha = 32" using assms(2) SavePoint by (simp add: meta_fits_def)
  have "rd (\<lambda>c. rbind (cur_u64 c) (\<lambda>(nd, c). rbind (cur_u64 c) (\<lambda>(len, c). rbind (cur_sha c)
      (\<lambda>(sha, c). Inr (SavePoint nd len sha, c))))) (le_bytes 8 nd @ le_bytes 8 len @ sha) m"
    by (rule rd_bind [OF rd_u64 [of nd]], rule rd_bind [OF rd_u64 [of len]], rule rd_bind [OF rd_sha [OF sha]], rule rd_val,
        simp add: SavePoint, (rule refl)+) simp
  then show ?thesis unfolding decode_meta_def [abs_def] meta_payload_def SavePoint
    by (intro rd_bind [OF rd_u8 [of 0]]) auto
next
  case (MetaFormat f)
  have "rd (\<lambda>c. rbind (cur_u8 c) (\<lambda>(fb, c). Inr (MetaFormat (format_from_bits fb), c))) [format_bits f] m"
    by (rule rd_bind [OF rd_u8 [of "format_bits f"]], rule rd_val)
      (use assms(2) MetaFormat in \<open>simp_all add: meta_fits_def format_bits_back\<close>)
  then show ?thesis unfolding decode_meta_def [abs_def] meta_payload_def MetaFormat
    by (intro rd_bind [OF rd_u8 [of 1]]) auto
next
  case (Rename p)
  have "length p < 2 ^ 32" using assms(1) Rename by (simp add: meta_payload_def bytes_payload_def)
  then have "rd (\<lambda>c. rbind (cur_bytes c) (\<lambda>(p, c). Inr (Rename p, c))) (bytes_payload p) m"
    unfolding bytes_payload_def by (rule rd_bind [OF rd_bytes]) (simp_all add: Rename rd_val)
  then show ?thesis unfolding decode_meta_def [abs_def] meta_payload_def Rename
    by (intro rd_bind [OF rd_u8 [of 2]]) auto
qed

lemma rd_checkpoint:
  assumes "length tx < 2 ^ 32"
  shows "rd decode_checkpoint (checkpoint_payload nd rv tx) (RCheckpoint nd rv tx)"
proof -
  have "length tx < 2 ^ 64" using assms by simp
  then show ?thesis unfolding decode_checkpoint_def [abs_def]
    by - (rule rd_bind [OF rd_u64 [of nd]], rule rd_bind [OF rd_u64 [of rv]], rule rd_bind [OF rd_usize64 [of "length tx"]],
        assumption, rule rd_bind [OF rd_take [of tx]], rule rd_val, rule refl, (rule refl)+, simp add: checkpoint_payload_def)
qed

text \<open>What a record may hold so that it is read back exactly.\<close>

definition representable :: "rj_record \<Rightarrow> bool" where
  "representable r \<longleftrightarrow>
     (case r of
        RHeader h \<Rightarrow> format_fits (hd_format h) \<and> (\<forall>len sha. hd_base h = BaseDisk len sha \<longrightarrow> length sha = 32)
      | REdit e \<Rightarrow> edit_record_fits e
      | RMeta m \<Rightarrow> meta_fits m
      | Skipped \<Rightarrow> False
      | _ \<Rightarrow> True)"

lemma rd_payload:
  assumes "representable r" "length (record_payload r) < 2 ^ 32"
  shows "rd (decode_payload (Some (record_kind r)) nm) (record_payload r) r"
proof (cases r)
  case (RHeader h)
  then show ?thesis using assms unfolding decode_payload_def [abs_def] record_kind_def record_payload_def
    by (simp add: representable_def record_payload_def) (rule rd_bind [OF rd_header [of h]], auto intro: rd_val)
next
  case (RCheckpoint nd rv tx)
  then show ?thesis using assms(2) rd_checkpoint [of tx nd rv] unfolding decode_payload_def [abs_def] record_kind_def record_payload_def
    by (simp add: checkpoint_payload_def)
next
  case (REdit e)
  then show ?thesis using assms unfolding decode_payload_def [abs_def] record_kind_def record_payload_def
    by (simp add: representable_def record_payload_def) (rule rd_bind [OF rd_edit [of e]], auto intro: rd_val)
next
  case (RMeta m)
  then show ?thesis using assms unfolding decode_payload_def [abs_def] record_kind_def record_payload_def
    by (simp add: representable_def record_payload_def) (rule rd_bind [OF rd_meta [of m]], auto intro: rd_val)
next
  case (RMarker t)
  then show ?thesis unfolding decode_payload_def [abs_def] record_kind_def record_payload_def
    by simp (rule rd_bind [OF rd_u64 [of t]], auto intro: rd_val)
qed (use assms in \<open>simp add: representable_def\<close>)

section \<open>Reading a record\<close>

definition head12 :: "kind \<Rightarrow> nat \<Rightarrow> bytes" where
  "head12 k n = MAGIC @ le_bytes 2 SCHEMA @ [kind_u8 k, 0] @ le_bytes 4 (of_nat n :: u32)"

lemma length_head12 [simp]: "length (head12 k n) = 12"
  by (simp add: head12_def MAGIC_def)

lemma framed_head: "framed k p = head12 k (length p) @ le_bytes 4 (crc32c (head12 k (length p))) @ p @ le_bytes 4 (crc32c p) @ END_MAGIC"
  by (simp add: framed_def head12_def Let_def)

lemma length_END_MAGIC [simp]: "length END_MAGIC = 4"
  by (simp add: END_MAGIC_def)

lemma length_framed [simp]: "length (framed k p) = 24 + length p"
  by (simp add: framed_head)

lemma schema_bytes: "le_bytes 2 SCHEMA = [0, 1]"
  by (simp add: le_bytes_def SCHEMA_def SCHEMA_MAJOR_def SCHEMA_MINOR_def upt_rec)

lemma read_record_header_bad:
  assumes "length h = 12" "length hc = 4" "take 4 h \<noteq> MAGIC \<or> crc32c h \<noteq> le32 hc"
  shows "read_record (pre @ h @ hc @ r) (length pre) = Inl Corrupt"
  using assms by (auto simp: read_record_def Let_def HEAD_def slice_def)

lemma read_record_header_ok:
  assumes n: "n < 2 ^ 32"
  shows "read_record (pre @ head12 k n @ le_bytes 4 (crc32c (head12 k n)) @ r) (length pre) =
    (if length r < n + 8 then Inl Torn
     else if crc32c (take n r) \<noteq> le32 (slice n (n + 4) r) \<or> slice (n + 4) (n + 8) r \<noteq> END_MAGIC then Inl Corrupt
     else case decode_payload (Some k) False \<lparr>cu_b = take n r, cu_i = 0\<rparr> of
            Inr (rec, c) \<Rightarrow> if cur_rest c = 0 \<or> rec = Skipped then Inr (rec, length pre + (24 + n)) else Inl Corrupt
          | Inl Bad \<Rightarrow> Inl Corrupt
          | Inl (EndPanic p d) \<Rightarrow> Inl (Panicked p d))"
proof -
  let ?h = "head12 k n" and ?crc = "le_bytes 4 (crc32c (head12 k n))"
  let ?rest = "?h @ ?crc @ r"
  have h: "take 4 ?h = MAGIC" "[?h ! 4, ?h ! 5] = [0, 1]" "?h ! 6 = kind_u8 k" "slice 8 12 ?h = le_bytes 4 (of_nat n :: u32)"
    by (simp_all add: head12_def schema_bytes MAGIC_def slice_def)
  have t: "take 16 ?rest = ?h @ ?crc" "take 12 (?h @ ?crc) = ?h" "slice 12 16 (?h @ ?crc) = ?crc"
    "(?h @ ?crc) ! 4 = ?h ! 4" "(?h @ ?crc) ! 5 = ?h ! 5" "(?h @ ?crc) ! 6 = ?h ! 6" "slice 8 12 (?h @ ?crc) = slice 8 12 ?h"
    "take 4 (?h @ ?crc) = take 4 ?h"
    by (simp_all add: slice_def nth_append)
  have v: "(from_le [0, 1] :: 16 word) = 256" by (simp add: from_le_def)
  have len: "unat (le32 (le_bytes 4 (of_nat n :: u32))) = n" using le32_le_bytes [of "of_nat n" "[]"] n by (simp add: unat_of_nat)
  have sl: "slice 16 (16 + n) ?rest = take n r" "slice (16 + n) (16 + n + 8) ?rest = slice n (n + 8) r"
    by (simp_all add: slice_def)
  have tr: "take 4 (slice n (n + 8) r) = slice n (n + 4) r" "drop 4 (slice n (n + 8) r) = slice (n + 4) (n + 8) r"
    by (simp_all add: slice_def drop_take add.commute)
  have nm: "SCHEMA_MINOR < (ucast (256 :: 16 word) :: byte) \<longleftrightarrow> False" "(ucast (drop_bit 8 (256 :: 16 word)) :: byte) = SCHEMA_MAJOR"
    by (simp_all add: SCHEMA_MINOR_def SCHEMA_MAJOR_def)
  have crc: "crc32c ?h \<noteq> le32 ?crc \<longleftrightarrow> False" "MAGIC \<noteq> MAGIC \<longleftrightarrow> False" "SCHEMA_MAJOR \<noteq> SCHEMA_MAJOR \<longleftrightarrow> False"
    using le32_le_bytes [of "crc32c ?h" "[]"] by simp_all
  have len24: "16 + n + 8 = 24 + n" by simp
  have rest: "drop (min (length pre) (length (pre @ ?rest))) (pre @ ?rest) = ?rest" by simp
  have long: "length ?rest < 16 \<longleftrightarrow> False" "length ?rest < 16 + n + 8 \<longleftrightarrow> length r < n + 8" "2 ^ 64 \<le> 16 + n + 8 \<longleftrightarrow> False" using n by auto
  show ?thesis
    unfolding read_record_def Let_def HEAD_def TRAIL_def rest t h v len sl tr nm kind_back long if_False
    unfolding crc if_False simp_thms by (simp only: len24)
qed

lemma read_framed:
  assumes "representable r" "length (record_payload r) < 2 ^ 32"
  shows "read_record (pre @ framed (record_kind r) (record_payload r) @ post) (length pre) =
    Inr (r, length pre + length (framed (record_kind r) (record_payload r)))"
proof -
  let ?p = "record_payload r" and ?k = "record_kind r"
  let ?r = "?p @ le_bytes 4 (crc32c ?p) @ END_MAGIC @ post"
  have "decode_payload (Some ?k) False \<lparr>cu_b = ?p, cu_i = 0\<rparr> = Inr (r, advance \<lparr>cu_b = ?p, cu_i = 0\<rparr> (length ?p))"
    using rd_payload [OF assms, of False] assms(2) by (simp add: rd_def cur_ok_def ahead_def)
  moreover have "cur_rest (advance \<lparr>cu_b = ?p, cu_i = 0\<rparr> (length ?p)) = 0" by (simp add: cur_rest_def advance_def)
  moreover have "slice (length ?p) (length ?p + 4) ?r = le_bytes 4 (crc32c ?p)" "slice (length ?p + 4) (length ?p + 8) ?r = END_MAGIC"
    by (simp_all add: slice_def)
  ultimately show ?thesis
    using read_record_header_ok [OF assms(2), of pre ?k ?r] le32_le_bytes [of "crc32c ?p" "[]"] by (simp add: framed_head)
qed

lemma read_torn:
  assumes "length p < 2 ^ 32" "m < length (framed k p)"
  shows "read_record (pre @ take m (framed k p)) (length pre) = Inl Torn"
proof (cases "m < 16")
  case True
  then show ?thesis by (simp add: read_record_def HEAD_def)
next
  case False
  let ?q = "take (m - 16) (p @ le_bytes 4 (crc32c p) @ END_MAGIC)"
  have "take m (framed k p) = head12 k (length p) @ le_bytes 4 (crc32c (head12 k (length p))) @ ?q"
  proof -
    have "framed k p = (head12 k (length p) @ le_bytes 4 (crc32c (head12 k (length p)))) @ (p @ le_bytes 4 (crc32c p) @ END_MAGIC)"
      by (simp only: framed_head append_assoc)
    moreover have "length (head12 k (length p) @ le_bytes 4 (crc32c (head12 k (length p)))) = 16" by simp
    ultimately show ?thesis using False by (simp only: take_append) simp
  qed
  moreover have "length ?q < length p + 8" using assms(2) by auto
  ultimately show ?thesis by (simp only: read_record_header_ok [OF assms(1)] if_True)
qed

section \<open>Damage\<close>

lemma from_le_bound: "bit (from_le bs :: 'a :: len word) i \<Longrightarrow> i < 8 * length bs"
proof (induction bs arbitrary: i)
  case (Cons b bs)
  then have "bit (push_bit 8 (from_le bs :: 'a word)) i \<or> bit (ucast b :: 'a word) i" by (simp add: from_le_def bit_or_iff)
  then show ?case
    using Cons.IH [of "i - 8"] by (auto simp: bit_push_bit_iff bit_ucast_iff dest: bit_imp_le_length)
qed (simp add: from_le_def)

lemma le_bytes_from: "8 * length bs \<le> LENGTH('a) \<Longrightarrow> le_bytes (length bs) (from_le bs :: 'a :: len word) = bs"
proof (induction bs)
  case (Cons b bs)
  let ?w = "from_le bs :: 'a word" and ?v = "from_le (b # bs) :: 'a word"
  have v: "?v = push_bit 8 ?w OR ucast b" by (simp add: from_le_def)
  have "(ucast ?v :: byte) = b"
    by (rule bit_word_eqI) (use Cons.prems in \<open>auto simp: v bit_ucast_iff bit_or_iff bit_push_bit_iff dest: bit_imp_le_length\<close>)
  moreover have "drop_bit 8 ?v = ?w"
  proof (rule bit_word_eqI)
    fix n assume "n < LENGTH('a)"
    show "bit (drop_bit 8 ?v) n = bit ?w n"
      using from_le_bound [of bs n, where 'a = 'a] Cons.prems
      by (auto simp: v bit_drop_bit_eq bit_or_iff bit_push_bit_iff bit_ucast_iff dest: bit_imp_le_length)
  qed
  ultimately show ?case using Cons by (simp add: le_bytes_Suc)
qed (simp add: le_bytes_def)

lemma le32_inj: "length xs = 4 \<Longrightarrow> length ys = 4 \<Longrightarrow> le32 xs = le32 ys \<Longrightarrow> xs = ys"
  using le_bytes_from [of xs, where 'a = 32] le_bytes_from [of ys, where 'a = 32] by (simp add: le32_def)

lemma list_update_split: "i < length xs \<Longrightarrow> xs[i := b] = take i xs @ [b] @ drop (Suc i) xs"
  by (simp add: upd_conv_take_nth_drop)

lemma crc_damage: "i < length xs \<Longrightarrow> b \<noteq> xs ! i \<Longrightarrow> crc32c (xs[i := b]) \<noteq> crc32c xs"
proof
  assume i: "i < length xs" "b \<noteq> xs ! i" and "crc32c (xs[i := b]) = crc32c xs"
  moreover have "take i xs @ [xs ! i] @ drop (Suc i) xs = xs" using id_take_nth_drop [OF i(1)] by simp
  ultimately have "crc32c (take i xs @ [b] @ drop (Suc i) xs) = crc32c (take i xs @ [xs ! i] @ drop (Suc i) xs)"
    by (simp only: list_update_split)
  from crc_one_byte [OF this] i(2) show False by simp
qed

lemma update_middle:
  assumes "length xs \<le> i" "i < length xs + length ys"
  shows "(xs @ ys @ zs)[i := b] = xs @ ys[i - length xs := b] @ zs \<and> (xs @ ys @ zs) ! i = ys ! (i - length xs) \<and>
    i - length xs < length ys"
  using assms by (auto simp: list_update_append nth_append)

lemma update_differs: "i < length xs \<Longrightarrow> b \<noteq> xs ! i \<Longrightarrow> xs[i := b] \<noteq> xs"
  by (metis nth_list_update_eq)

text \<open>A record changed in one byte is the parts of the frame with one of them changed in one byte.\<close>

lemma read_damaged:
  assumes len: "length p < 2 ^ 32" and i: "i < length (framed k p)" and b: "b \<noteq> framed k p ! i"
  shows "read_record (pre @ (framed k p)[i := b] @ post) (length pre) = Inl Corrupt"
proof -
  define h where "h = head12 k (length p)"
  define hc where "hc = le_bytes 4 (crc32c h)"
  define pc where "pc = le_bytes 4 (crc32c p)"
  let ?n = "length p"
  have f: "framed k p = h @ hc @ p @ pc @ END_MAGIC" by (simp add: framed_head h_def hc_def pc_def)
  have l: "length h = 12" "length hc = 4" "length pc = 4" by (simp_all add: h_def hc_def pc_def)
  have c: "le32 hc = crc32c h" "le32 pc = crc32c p"
    using le32_le_bytes [of "crc32c h" "[]"] le32_le_bytes [of "crc32c p" "[]"] by (simp_all add: hc_def pc_def)
  note ok = read_record_header_ok [OF len, where pre = pre and k = k, folded h_def, folded hc_def]
  consider "i < 12" | "12 \<le> i" "i < 16" | "16 \<le> i" "i < 16 + ?n" | "16 + ?n \<le> i" "i < 20 + ?n" | "20 + ?n \<le> i" "i < 24 + ?n"
    using i by fastforce
  then show ?thesis
  proof cases
    case 1
    have m: "(framed k p)[i := b] = h[i := b] @ hc @ p @ pc @ END_MAGIC" "framed k p ! i = h ! i"
      using update_middle [of "[]" i h "hc @ p @ pc @ END_MAGIC" b] 1 by (simp_all add: f l)
    have "crc32c (h[i := b]) \<noteq> le32 hc" using crc_damage [of i h b] 1 b m(2) by (simp add: l c)
    then show ?thesis using read_record_header_bad [of "h[i := b]" hc pre "p @ pc @ END_MAGIC @ post"] by (simp add: m(1) l)
  next
    case 2
    have m: "(framed k p)[i := b] = h @ hc[i - 12 := b] @ p @ pc @ END_MAGIC" "framed k p ! i = hc ! (i - 12)" "i - 12 < 4"
      using update_middle [of h i hc "p @ pc @ END_MAGIC" b] 2 by (simp_all add: f l)
    have "hc[i - 12 := b] \<noteq> hc" using update_differs [of "i - 12" hc b] m(2,3) b by (simp add: l)
    then have "crc32c h \<noteq> le32 (hc[i - 12 := b])" using le32_inj [of "hc[i - 12 := b]" hc] l c by auto
    then show ?thesis using read_record_header_bad [of h "hc[i - 12 := b]" pre "p @ pc @ END_MAGIC @ post"] by (simp add: m(1) l)
  next
    case 3
    let ?q = "p[i - 16 := b]"
    have m: "(framed k p)[i := b] = h @ hc @ ?q @ pc @ END_MAGIC" "framed k p ! i = p ! (i - 16)" "i - 16 < ?n"
      using update_middle [of "h @ hc" i p "pc @ END_MAGIC" b] 3 by (simp_all add: f l)
    have "crc32c ?q \<noteq> crc32c p" using crc_damage [of "i - 16" p b] m(2,3) b by simp
    moreover have "slice ?n (?n + 4) (?q @ pc @ END_MAGIC @ post) = pc" using l by (simp add: slice_def)
    ultimately show ?thesis using ok [where r = "?q @ pc @ END_MAGIC @ post"] by (simp add: m(1) l c)
  next
    case 4
    let ?t = "pc[i - (16 + ?n) := b]"
    have m: "(framed k p)[i := b] = h @ hc @ p @ ?t @ END_MAGIC" "framed k p ! i = pc ! (i - (16 + ?n))" "i - (16 + ?n) < 4"
      using update_middle [of "h @ hc @ p" i pc END_MAGIC b] 4 by (simp_all add: f l)
    have "?t \<noteq> pc" using update_differs [of "i - (16 + ?n)" pc b] m(2,3) b l by simp
    then have "crc32c p \<noteq> le32 ?t" using le32_inj [of ?t pc] l c by auto
    moreover have "slice ?n (?n + 4) (p @ ?t @ END_MAGIC @ post) = ?t" using l by (simp add: slice_def)
    ultimately show ?thesis using ok [where r = "p @ ?t @ END_MAGIC @ post"] by (simp add: m(1) l)
  next
    case 5
    let ?t = "END_MAGIC[i - (20 + ?n) := b]"
    have m: "(framed k p)[i := b] = h @ hc @ p @ pc @ ?t" "framed k p ! i = END_MAGIC ! (i - (20 + ?n))" "i - (20 + ?n) < 4"
      using update_middle [of "h @ hc @ p @ pc" i END_MAGIC "[]" b] 5 by (simp_all add: f l)
    have "?t \<noteq> END_MAGIC" using update_differs [of "i - (20 + ?n)" END_MAGIC b] m(2,3) b l by simp
    moreover have "slice (?n + 4) (?n + 8) (p @ pc @ ?t @ post) = ?t" using l by (simp add: slice_def)
    ultimately show ?thesis using ok [where r = "p @ pc @ ?t @ post"] by (simp add: m(1) l)
  qed
qed

section \<open>Properties\<close>

text \<open>
  C19: a \<open>representable\<close> record that fits its frame is appended to the journal and read back exactly, whatever is
  written after it; one too large for the frame is refused and the journal's bytes stay as they were.  Representable
  are the records whose edit lists are sorted and disjoint with 64-bit numbers, whose hashes have 32 bytes, and whose
  file format the format byte can carry: a \<^verbatim>\<open>mac\<close> or binary format, or one with an end-of-file mark, is written
  without an error too but not read back, as the comment in the source says.\<close>

theorem record_round_trip:
  assumes "representable r" "encode out r = (res, out')"
  shows "case res of
      Inr _ \<Rightarrow> read_record (out' @ post) (length out) = Inr (r, length out') \<and> take (length out) out' = out
    | Inl (FileTooLarge n) \<Rightarrow> out' = out \<and> 2 ^ 32 \<le> n \<and> n = length (record_payload r)"
proof -
  have "r \<noteq> Skipped" using assms(1) by (auto simp: representable_def)
  then have e: "frame_result out (record_kind r) (record_payload r) = (res, out')" using assms(2) encode_frame by simp
  show ?thesis
  proof (cases "length (record_payload r) < 2 ^ 32")
    case True
    then have "res = Inr ()" "out' = out @ framed (record_kind r) (record_payload r)" using e by (auto simp: frame_result_def)
    then show ?thesis using read_framed [OF assms(1) True, of out post] by simp
  next
    case False
    then show ?thesis using e by (auto simp: frame_result_def)
  qed
qed

theorem record_round_trip_witness:
  "read_record (snd (encode [1, 2] (RMarker 7)) @ [9]) 2 = Inr (RMarker 7, length (snd (encode [1, 2] (RMarker 7))))"
proof -
  have "representable (RMarker 7)" by (simp add: representable_def)
  moreover have "encode [1, 2] (RMarker 7) = (Inr (), snd (encode [1, 2] (RMarker 7)))"
    by (simp add: encode_frame frame_result_def record_payload_def)
  ultimately show ?thesis using record_round_trip [of "RMarker 7" "[1, 2]" "Inr ()" _ "[9]"] by (simp add: numeral_2_eq_2)
qed

text \<open>
  C20: a torn record is reported torn wherever the write stopped, and a record damaged in any one byte (magic, header,
  length, checksums, payload or end mark) is reported corrupt: neither is ever read as a record.\<close>

theorem record_damage_detected:
  assumes "r \<noteq> Skipped" "encode [] r = (Inr (), bs)"
  shows "(\<forall>m < length bs. read_record (pre @ take m bs) (length pre) = Inl Torn) \<and>
    (\<forall>i < length bs. \<forall>b. b \<noteq> bs ! i \<longrightarrow> read_record (pre @ bs[i := b] @ post) (length pre) = Inl Corrupt)"
proof -
  have e: "frame_result [] (record_kind r) (record_payload r) = (Inr (), bs)" using assms encode_frame by simp
  then have "length (record_payload r) < 2 ^ 32" "bs = framed (record_kind r) (record_payload r)"
    by (auto simp: frame_result_def split: if_splits)
  then show ?thesis using read_torn read_damaged by blast
qed

theorem record_damage_detected_witness:
  "read_record (take 20 (snd (encode [] (RMarker 7)))) 0 = Inl Torn"
proof -
  have e: "encode [] (RMarker 7) = (Inr (), snd (encode [] (RMarker 7)))"
    by (simp add: encode_frame frame_result_def record_payload_def)
  moreover have "20 < length (snd (encode [] (RMarker 7)))" by (simp add: encode_frame frame_result_def record_payload_def)
  ultimately show ?thesis using record_damage_detected [OF _ e, of "[]" "[]"] by simp
qed

end
