(* ===== verification/Gap_Buffer.thy ===== *)
theory Gap_Buffer
  imports Edits "HOL-Library.Monad_Syntax"
begin

text \<open>
  The gap buffer the journal replay edits (\<^verbatim>\<open>Gap\<close> in \<^verbatim>\<open>apps/tui/src/persist/rj01.rs\<close>).  A slice or a
  subtraction that would panic makes the operation \<open>None\<close>.  The locale \<open>edit_buffer\<close> is what the replay relies
  on: a buffer that holds a text and can apply a checked edit list to it; the gap buffer is one.
\<close>

section \<open>The buffer\<close>

record gap =
  g_buf :: bytes
  g_start :: nat
  g_end :: nat

definition gap_new :: "bytes \<Rightarrow> gap" where
  "gap_new tx = \<lparr>g_buf = tx, g_start = length tx, g_end = length tx\<rparr>"

definition gap_len :: "gap \<Rightarrow> nat" where
  "gap_len g = length (g_buf g) - (g_end g - g_start g)"

text \<open>\<^verbatim>\<open>buf.copy_within(lo..hi, dest)\<close>, \<^verbatim>\<open>buf[at..at + ins.len()].copy_from_slice(ins)\<close> and \<^verbatim>\<open>a - b\<close>.\<close>

definition copy_within :: "bytes \<Rightarrow> nat \<Rightarrow> nat \<Rightarrow> nat \<Rightarrow> bytes option" where
  "copy_within buf lo hi dest =
     (if lo \<le> hi \<and> hi \<le> length buf \<and> dest + (hi - lo) \<le> length buf
      then Some (take dest buf @ slice lo hi buf @ drop (dest + (hi - lo)) buf) else None)"

definition copy_into :: "bytes \<Rightarrow> nat \<Rightarrow> bytes \<Rightarrow> bytes option" where
  "copy_into buf at ins =
     (if at + length ins \<le> length buf then Some (take at buf @ ins @ drop (at + length ins) buf) else None)"

definition usub :: "nat \<Rightarrow> nat \<Rightarrow> nat option" where
  "usub a b = (if b \<le> a then Some (a - b) else None)"

definition move_to :: "gap \<Rightarrow> nat \<Rightarrow> gap option" where
  "move_to g at =
     (if at < g_start g then
        do {
          let n = g_start g - at;
          d \<leftarrow> usub (g_end g) n;
          b \<leftarrow> copy_within (g_buf g) at (g_start g) d;
          Some \<lparr>g_buf = b, g_start = at, g_end = d\<rparr>
        }
      else if g_start g < at then
        do {
          let n = at - g_start g;
          b \<leftarrow> copy_within (g_buf g) (g_end g) (g_end g + n) (g_start g);
          Some \<lparr>g_buf = b, g_start = g_start g + n, g_end = g_end g + n\<rparr>
        }
      else Some g)"

definition gap_reserve :: "gap \<Rightarrow> nat \<Rightarrow> gap option" where
  "gap_reserve g n =
     do {
       gp \<leftarrow> usub (g_end g) (g_start g);
       if n \<le> gp then Some g
       else do {
         let grow = max (max (n - gp) (length (g_buf g))) 64;
         tail \<leftarrow> usub (length (g_buf g)) (g_end g);
         let b1 = g_buf g @ replicate grow 0;
         let len = length b1;
         b2 \<leftarrow> copy_within b1 (g_end g) (g_end g + tail) (len - tail);
         Some (g\<lparr>g_buf := b2, g_end := g_end g + grow\<rparr>)
       }
     }"

text \<open>One edit of \<^verbatim>\<open>Gap::apply\<close>: the sum \<^verbatim>\<open>e.pos.0 + e.del\<close> panics when it does not fit.\<close>

definition gap_edit :: "gap \<Rightarrow> edit \<Rightarrow> gap option" where
  "gap_edit g e =
     do {
       g1 \<leftarrow> (if end_panics e (gap_len g) then None else move_to g (edit_end e));
       s \<leftarrow> usub (g_start g1) (edel e);
       g2 \<leftarrow> gap_reserve (g1\<lparr>g_start := s\<rparr>) (length (eins e));
       b \<leftarrow> copy_into (g_buf g2) (g_start g2) (eins e);
       Some (g2\<lparr>g_buf := b, g_start := g_start g2 + length (eins e)\<rparr>)
     }"

fun gap_edits :: "gap \<Rightarrow> edit list \<Rightarrow> gap option" where
  "gap_edits g [] = Some g"
| "gap_edits g (e # es) = do { g1 \<leftarrow> gap_edit g e; gap_edits g1 es }"

definition gap_apply :: "gap \<Rightarrow> edit_list \<Rightarrow> gap option" where
  "gap_apply g es = gap_edits g (rev es)"

definition into_vec :: "gap \<Rightarrow> bytes option" where
  "into_vec g =
     (if g_start g \<le> g_end g \<and> g_end g \<le> length (g_buf g) then Some (take (g_start g) (g_buf g) @ drop (g_end g) (g_buf g)) else None)"

section \<open>What a replay needs of its buffer\<close>

locale edit_buffer =
  fixes buf_ok :: "'b \<Rightarrow> bool"
    and content :: "'b \<Rightarrow> bytes"
    and mk :: "bytes \<Rightarrow> 'b"
    and len :: "'b \<Rightarrow> nat"
    and app :: "'b \<Rightarrow> edit_list \<Rightarrow> 'b option"
    and out :: "'b \<Rightarrow> bytes option"
  assumes mk_ok: "buf_ok (mk t)" "content (mk t) = t"
    and len_content: "buf_ok b \<Longrightarrow> len b = length (content b)"
    and app_ok: "buf_ok b \<Longrightarrow> edits_valid es (content b) \<Longrightarrow>
      \<exists>b'. app b es = Some b' \<and> buf_ok b' \<and> content b' = apply_to es (content b)"
    and out_content: "buf_ok b \<Longrightarrow> out b = Some (content b)"
begin

text \<open>An edit list of the journal is applied only when it fits; then the buffer holds the edited text.\<close>

lemma checked_app:
  assumes "buf_ok b" "edits_wf es" "check_bounds es (len b) = Inr ()"
  shows "\<exists>b'. app b es = Some b' \<and> buf_ok b' \<and> content b' = apply_to es (content b) \<and> out b' = Some (apply_to es (content b)) \<and>
    len b' = length (apply_to es (content b))"
proof -
  have "in_bounds es (length (content b))" using assms(1,3) len_content by (simp only: check_bounds_Inr_iff)
  then have "edits_valid es (content b)" using assms(2) by (simp add: edits_valid_def)
  from app_ok [OF assms(1) this] show ?thesis using out_content len_content by metis
qed

lemma misfit:
  assumes "buf_ok b" "check_bounds es (len b) \<noteq> Inr ()"
  shows "\<not> edits_valid es (content b)"
  using assms len_content check_bounds_Inr_iff by (metis edits_valid_def)

end

section \<open>The gap buffer holds a text\<close>

definition gap_ok :: "gap \<Rightarrow> bool" where
  "gap_ok g \<longleftrightarrow> g_start g \<le> g_end g \<and> g_end g \<le> length (g_buf g)"

definition gap_text :: "gap \<Rightarrow> bytes" where
  "gap_text g = take (g_start g) (g_buf g) @ drop (g_end g) (g_buf g)"

lemma gap_len_text: "gap_ok g \<Longrightarrow> gap_len g = length (gap_text g)"
  by (simp add: gap_ok_def gap_len_def gap_text_def)

lemma move_to_facts:
  assumes "gap_ok g" "at \<le> length (gap_text g)"
  shows "\<exists>g'. move_to g at = Some g' \<and> gap_ok g' \<and> gap_text g' = gap_text g \<and> g_start g' = at"
proof -
  let ?b = "g_buf g" and ?s = "g_start g" and ?e = "g_end g"
  have g: "?s \<le> ?e" "?e \<le> length ?b" using assms(1) by (simp_all add: gap_ok_def)
  have at: "at \<le> ?s + (length ?b - ?e)" using assms(2) g by (simp add: gap_text_def)
  consider "at < ?s" | "?s < at" | "at = ?s" by linarith
  then show ?thesis
  proof cases
    case 1
    let ?n = "?s - at" and ?d = "?e - (?s - at)"
    have d: "at \<le> ?d" "?d + ?n = ?e" "?d \<le> length ?b" "?n \<le> ?e" using 1 g by auto
    let ?b' = "take ?d ?b @ slice at ?s ?b @ drop ?e ?b"
    have m: "move_to g at = Some \<lparr>g_buf = ?b', g_start = at, g_end = ?d\<rparr>"
      using 1 g d by (simp add: move_to_def usub_def copy_within_def)
    have "take at ?b' = take at ?b" "drop ?d ?b' = slice at ?s ?b @ drop ?e ?b" using d g by simp_all
    moreover have "take at ?b @ slice at ?s ?b = take ?s ?b" using 1 slice_append_slice [of 0 at ?s ?b] by (simp add: slice_0)
    ultimately have "gap_text \<lparr>g_buf = ?b', g_start = at, g_end = ?d\<rparr> = gap_text g"
      by (simp add: gap_text_def flip: append_assoc)
    then show ?thesis using m d g 1 by (simp add: gap_ok_def)
  next
    case 2
    define n where "n = at - ?s"
    define b' where "b' = take ?s ?b @ slice ?e (?e + n) ?b @ drop (?s + n) ?b"
    have n: "?e + n \<le> length ?b" "?s + n = at" "?s + n \<le> length ?b" using 2 at g by (auto simp: n_def)
    have m: "move_to g at = Some \<lparr>g_buf = b', g_start = ?s + n, g_end = ?e + n\<rparr>"
      using 2 n by (simp add: move_to_def copy_within_def b'_def flip: n_def)
    have "take (?s + n) b' = take ?s ?b @ slice ?e (?e + n) ?b" "drop (?e + n) b' = drop (?e + n) ?b"
      using n g by (simp_all add: min_absorb1 b'_def)
    then have "gap_text \<lparr>g_buf = b', g_start = ?s + n, g_end = ?e + n\<rparr> = gap_text g"
      by (simp add: gap_text_def slice_append_drop)
    moreover have "length b' = length ?b" using n g by (simp add: b'_def)
    ultimately show ?thesis using m n g by (simp add: gap_ok_def)
  next
    case 3
    then show ?thesis using assms(1) by (simp add: move_to_def)
  qed
qed

lemma gap_reserve_facts:
  assumes "gap_ok g"
  shows "\<exists>g'. gap_reserve g n = Some g' \<and> gap_ok g' \<and> gap_text g' = gap_text g \<and> g_start g' = g_start g \<and> n \<le> g_end g' - g_start g'"
proof -
  let ?b = "g_buf g" and ?s = "g_start g" and ?e = "g_end g"
  have g: "?s \<le> ?e" "?e \<le> length ?b" using assms by (simp_all add: gap_ok_def)
  show ?thesis
  proof (cases "n \<le> ?e - ?s")
    case True
    then show ?thesis using assms g by (simp add: gap_reserve_def usub_def)
  next
    case False
    define gp where "gp = ?e - ?s"
    define grow where "grow = max (max (n - gp) (length ?b)) 64"
    have gp: "usub ?e ?s = Some gp" "usub (length ?b) ?e = Some (length ?b - ?e)" "\<not> n \<le> gp" using g False by (simp_all add: usub_def gp_def)
    let ?b1 = "?b @ replicate grow 0"
    let ?b2 = "take (?e + grow) ?b1 @ drop ?e ?b"
    have "copy_within ?b1 ?e (length ?b) (?e + grow) = Some ?b2"
      using g by (simp add: copy_within_def slice_def)
    moreover have "length ?b1 - (length ?b - ?e) = ?e + grow" "?e + (length ?b - ?e) = length ?b" using g by simp_all
    ultimately have r: "gap_reserve g n = Some (g\<lparr>g_buf := ?b2, g_end := ?e + grow\<rparr>)"
      using gp by (simp only: gap_reserve_def Let_def Option.bind.bind_lunit if_False grow_def [symmetric] length_append)
    have "take ?s ?b2 = take ?s ?b" "drop (?e + grow) ?b2 = drop ?e ?b" using g by simp_all
    then have "gap_text (g\<lparr>g_buf := ?b2, g_end := ?e + grow\<rparr>) = gap_text g" by (simp add: gap_text_def)
    then show ?thesis using r g by (auto simp: gap_ok_def grow_def gp_def)
  qed
qed

lemma gap_edit_facts:
  assumes "gap_ok g" "edit_end e \<le> length (gap_text g)"
  shows "\<exists>g'. gap_edit g e = Some g' \<and> gap_ok g' \<and> gap_text g' = splice_edit e (gap_text g)"
proof -
  let ?at = "epos e + edel e" and ?t = "gap_text g"
  have at: "?at \<le> length ?t" using assms(2) by (simp add: edit_end_def)
  obtain g1 where g1: "move_to g ?at = Some g1" "gap_ok g1" "gap_text g1 = ?t" "g_start g1 = ?at"
    using move_to_facts [OF assms(1) at] by blast
  let ?h = "g1\<lparr>g_start := epos e\<rparr>"
  have h: "gap_ok ?h" using g1(2,4) by (simp add: gap_ok_def)
  have "take ?at ?t = take ?at (g_buf g1)" "drop ?at ?t = drop (g_end g1) (g_buf g1)"
    using g1(2,4) unfolding g1(3) [symmetric] by (simp_all add: gap_text_def gap_ok_def)
  note cut = this
  have "take (epos e) ?t = take (epos e) (take ?at ?t)" by (simp add: min_absorb1)
  also have "\<dots> = take (epos e) (g_buf g1)" unfolding cut(1) by (simp add: min_absorb1)
  finally have ht: "gap_text ?h = take (epos e) ?t @ drop ?at ?t" unfolding cut(2) by (simp add: gap_text_def)
  obtain g2 where g2: "gap_reserve ?h (length (eins e)) = Some g2" "gap_ok g2" "gap_text g2 = gap_text ?h" "g_start g2 = epos e"
      "length (eins e) \<le> g_end g2 - g_start g2"
    using gap_reserve_facts [OF h, of "length (eins e)"] by auto
  let ?b = "take (epos e) (g_buf g2) @ eins e @ drop (epos e + length (eins e)) (g_buf g2)"
  let ?g = "g2\<lparr>g_buf := ?b, g_start := epos e + length (eins e)\<rparr>"
  have fit: "epos e + length (eins e) \<le> g_end g2" "g_end g2 \<le> length (g_buf g2)" "epos e \<le> g_end g2" using g2(2,4,5) by (auto simp: gap_ok_def)
  moreover have "\<not> end_panics e (gap_len g)" using assms(2) gap_len_text [OF assms(1)] by (simp add: end_panics_def)
  ultimately have "gap_edit g e = Some ?g" using g1 g2 by (simp add: gap_edit_def usub_def copy_into_def edit_end_def)
  moreover have "gap_ok ?g" using fit by (simp add: gap_ok_def)
  moreover have "gap_text ?g = take (epos e) (g_buf g2) @ eins e @ drop (g_end g2) (g_buf g2)"
    using fit by (simp add: gap_text_def)
  moreover have "take (epos e) (g_buf g2) = take (epos e) ?t" "drop (g_end g2) (g_buf g2) = drop ?at ?t"
  proof -
    have l: "length (take (epos e) (g_buf g2)) = length (take (epos e) ?t)" using fit at by simp
    have "take (epos e) (g_buf g2) @ drop (g_end g2) (g_buf g2) = take (epos e) ?t @ drop ?at ?t"
      using g2(3,4) ht by (simp add: gap_text_def)
    then show "take (epos e) (g_buf g2) = take (epos e) ?t" "drop (g_end g2) (g_buf g2) = drop ?at ?t"
      using l append_eq_append_conv by blast+
  qed
  ultimately show ?thesis by (simp add: splice_edit_def edit_end_def)
qed

lemma gap_apply_facts:
  assumes "gap_ok g" "edits_valid es (gap_text g)"
  shows "\<exists>g'. gap_apply g es = Some g' \<and> gap_ok g' \<and> gap_text g' = apply_to es (gap_text g)"
proof -
  have run: "from_ok es 0 (length (gap_text g)) \<Longrightarrow> \<exists>g'. gap_edits g (rev es) = Some g' \<and> gap_ok g' \<and> gap_text g' = apply_to es (gap_text g)"
  proof (induction es)
    case Nil
    then show ?case using assms(1) by (simp add: apply_to_out)
  next
    case (Cons e es)
    let ?t = "gap_text g"
    have e: "edit_end e \<le> length ?t" "from_ok es (edit_end e) (length ?t)" "from_ok es 0 (length ?t)"
      using Cons.prems by (auto simp: from_ok_Cons intro: from_ok_weaken)
    obtain g1 where g1: "gap_edits g (rev es) = Some g1" "gap_ok g1" "gap_text g1 = apply_to es ?t" using Cons.IH [OF e(3)] by blast
    have "edit_end e \<le> length (apply_to es ?t)"
      using out_from_past [OF e(2), of 0] e(1) by (simp add: apply_to_out)
    then obtain g2 where g2: "gap_edit g1 e = Some g2" "gap_ok g2" "gap_text g2 = splice_edit e (apply_to es ?t)"
      using gap_edit_facts [OF g1(2), of e] g1(3) by auto
    have "gap_edits g (xs @ ys) = Option.bind (gap_edits g xs) (\<lambda>g'. gap_edits g' ys)" for g xs ys
      by (induction xs arbitrary: g) (simp_all add: Option.bind_assoc)
    then show ?case using g1(1) g2 apply_to_Cons [OF Cons.prems] by simp
  qed
  show ?thesis unfolding gap_apply_def by (rule run) (use assms(2) in \<open>simp add: edits_valid_def from_okI\<close>)
qed

interpretation gb: edit_buffer gap_ok gap_text gap_new gap_len gap_apply into_vec
proof unfold_locales
  show "gap_ok (gap_new t)" "gap_text (gap_new t) = t" for t by (simp_all add: gap_ok_def gap_text_def gap_new_def)
  show "gap_ok b \<Longrightarrow> gap_len b = length (gap_text b)" for b by (rule gap_len_text)
  show "gap_ok b \<Longrightarrow> edits_valid es (gap_text b) \<Longrightarrow>
      \<exists>b'. gap_apply b es = Some b' \<and> gap_ok b' \<and> gap_text b' = apply_to es (gap_text b)" for b es
    by (rule gap_apply_facts)
  show "gap_ok b \<Longrightarrow> into_vec b = Some (gap_text b)" for b by (simp add: into_vec_def gap_ok_def gap_text_def)
qed

section \<open>Properties\<close>

text \<open>
  the gap buffer is the text it stands for.  A new one holds its text; applying an edit list that passes the
  bounds check moves, grows and overwrites without one copy, slice or subtraction out of range, and the bytes taken
  out afterwards are the edit list applied to the text it held.\<close>

theorem gap_buffer_refines:
  assumes "gap_ok g" "edits_wf es" "check_bounds es (gap_len g) = Inr ()"
  shows "gap_ok (gap_new t) \<and> into_vec (gap_new t) = Some t \<and>
    (\<exists>g'. gap_apply g es = Some g' \<and> gap_ok g' \<and> into_vec g' = Some (apply_to es (gap_text g)) \<and>
       gap_text g' = apply_to es (gap_text g))"
proof -
  obtain g' where "gap_apply g es = Some g'" "gap_ok g'" "gap_text g' = apply_to es (gap_text g)" "into_vec g' = Some (apply_to es (gap_text g))"
    using gb.checked_app [OF assms] by blast
  moreover have "into_vec (gap_new t) = Some t" using gb.out_content [OF gb.mk_ok(1)] gb.mk_ok(2) by simp
  ultimately show ?thesis using gb.mk_ok(1) by simp
qed

theorem gap_buffer_refines_witness:
  "into_vec (the (gap_apply (gap_new [104, 105]) [edit_insert 0 [33], edit_delete 1 1])) = Some [33, 104]"
proof -
  have "gap_ok (gap_new [104, 105])" "edits_wf [edit_insert 0 [33], edit_delete 1 1]"
    "check_bounds [edit_insert 0 [33], edit_delete 1 1] (gap_len (gap_new [104, 105])) = Inr ()"
    by (simp_all add: gap_ok_def gap_new_def gap_len_def edits_wf_def changes_something_def edit_insert_def edit_delete_def
        edit_end_def end_panics_def)
  from gap_buffer_refines [OF this, of "[]"]
  have "into_vec (the (gap_apply (gap_new [104, 105]) [edit_insert 0 [33], edit_delete 1 1])) =
      Some (apply_to [edit_insert 0 [33], edit_delete 1 1] (gap_text (gap_new [104, 105])))" by auto
  then show ?thesis
    by (simp add: gap_text_def gap_new_def apply_to_def edit_insert_def edit_delete_def edit_end_def slice_def)
qed

end
