(* ===== verification/Rj01_Replay.thy ===== *)
theory Rj01_Replay
  imports Rj01_Laws Gap_Buffer
begin

text \<open>
  The forward replay of a recovery journal (\<^verbatim>\<open>replay\<close> in \<^verbatim>\<open>apps/tui/src/persist/rj01.rs\<close>): it reads record
  after record, rebuilds the text in a gap buffer and stops at the first record that is not intact.  SHA-256, which
  the source takes from the \<^verbatim>\<open>sha2\<close> crate, is the parameter \<open>sha\<close>.  A panic, of the buffer or of \<^verbatim>\<open>Edit::end\<close>
  on an edit whose end does not fit a \<^verbatim>\<open>usize\<close>, makes the whole replay \<open>None\<close>.
\<close>

section \<open>The replay\<close>

datatype unreplayable = UNewerMajor byte | DiskChanged nat

record replay_result =
  rp_header :: "header option"
  rp_text :: "bytes option"
  rp_unreplayable :: "unreplayable option"
  rp_changes :: nat
  rp_last_change_ms :: "u64 option"
  rp_last_marker_ms :: "u64 option"
  rp_lost_tail :: bool
  rp_last_good :: nat
  rp_format :: "file_format option"
  rp_saved :: "meta option"

definition replay_default :: replay_result where
  "replay_default =
     \<lparr>rp_header = None, rp_text = None, rp_unreplayable = None, rp_changes = 0, rp_last_change_ms = None,
      rp_last_marker_ms = None, rp_lost_tail = False, rp_last_good = 0, rp_format = None, rp_saved = None\<rparr>"

definition replay_header :: "(bytes \<Rightarrow> bytes) \<Rightarrow> bytes option \<Rightarrow> header \<Rightarrow> replay_result \<Rightarrow> gap option \<Rightarrow> replay_result \<times> gap option" where
  "replay_header sha disk h r tx =
     (let r1 = r\<lparr>rp_format := Some (hd_format h)\<rparr>;
          (r2, tx') =
            (case hd_base h of
               BaseDisk len want \<Rightarrow>
                 (case disk of
                    Some d \<Rightarrow>
                      if of_nat (length d) = len \<and> sha d = want then (r1, Some (gap_new d))
                      else (r1\<lparr>rp_unreplayable := Some (DiskChanged 0)\<rparr>, tx)
                  | None \<Rightarrow> (r1\<lparr>rp_unreplayable := Some (DiskChanged 0)\<rparr>, tx))
             | BaseCheckpoint \<Rightarrow> (r1, tx))
      in (r2\<lparr>rp_header := Some h\<rparr>, tx'))"

definition replay_edit :: "edit_record \<Rightarrow> replay_result \<Rightarrow> gap option \<Rightarrow> (bool \<times> replay_result \<times> gap option) option" where
  "replay_edit e r tx =
     (let r1 = r\<lparr>rp_changes := rp_changes r + 1, rp_last_change_ms := Some (em_timestamp_ms (er_meta e))\<rparr>
      in case rp_unreplayable r1 of
           Some (DiskChanged n) \<Rightarrow> Some (True, r1\<lparr>rp_unreplayable := Some (DiskChanged (n + 1))\<rparr>, tx)
         | _ \<Rightarrow>
             (case tx of
                None \<Rightarrow> Some (False, r1, tx)
              | Some t \<Rightarrow>
                  (case check_bounds (er_forward e) (gap_len t) of
                     Inr _ \<Rightarrow> map_option (\<lambda>t'. (True, r1, Some t')) (gap_apply t (er_forward e))
                   | Inl (EndOverflow _ _) \<Rightarrow> None
                   | Inl _ \<Rightarrow> Some (False, r1, tx))))"

definition replay_meta :: "meta \<Rightarrow> replay_result \<Rightarrow> replay_result" where
  "replay_meta m r =
     (case m of
        MetaFormat f \<Rightarrow> r\<lparr>rp_format := Some f\<rparr>
      | SavePoint _ _ _ \<Rightarrow> r\<lparr>rp_saved := Some m\<rparr>
      | Rename p \<Rightarrow> r\<lparr>rp_header := map_option (\<lambda>h. h\<lparr>hd_path := p\<rparr>) (rp_header r)\<rparr>)"

definition replay_record ::
  "(bytes \<Rightarrow> bytes) \<Rightarrow> bytes option \<Rightarrow> rj_record \<Rightarrow> replay_result \<Rightarrow> gap option \<Rightarrow> (bool \<times> replay_result \<times> gap option) option" where
  "replay_record sha disk rec r tx =
     (if rp_header r = None then
        (case rec of
           RHeader h \<Rightarrow> let (r', tx') = replay_header sha disk h r tx in Some (True, r', tx')
         | _ \<Rightarrow> Some (False, r, tx))
      else
        case rec of
          RHeader _ \<Rightarrow> Some (False, r, tx)
        | RCheckpoint _ _ t \<Rightarrow> Some (True, r\<lparr>rp_unreplayable := None, rp_changes := 0\<rparr>, Some (gap_new t))
        | REdit e \<Rightarrow> replay_edit e r tx
        | RMeta m \<Rightarrow> Some (True, replay_meta m r, tx)
        | RMarker t \<Rightarrow> Some (True, r\<lparr>rp_last_marker_ms := Some t\<rparr>, tx)
        | Skipped \<Rightarrow> Some (True, r, tx))"

lemma read_record_progress: "read_record raw at = Inr (rec, next) \<Longrightarrow> at + HEAD + TRAIL \<le> next \<and> next \<le> length raw"
proof -
  assume r: "read_record raw at = Inr (rec, next)"
  let ?rest = "drop (min at (length raw)) raw"
  let ?n = "unat (le32 (slice 8 12 (take HEAD ?rest)))"
  have n: "\<not> length ?rest < HEAD + ?n + TRAIL" "next = at + (HEAD + ?n + TRAIL)"
    using r unfolding read_record_def Let_def
    by (simp_all only: sum.inject sum.distinct prod.inject simp_thms split: if_split_asm sum.split_asm fault.split_asm prod.split_asm)
  then have "at < length raw" by (auto simp: HEAD_def)
  with n show ?thesis by auto
qed

function rj_loop ::
  "(bytes \<Rightarrow> bytes) \<Rightarrow> bytes \<Rightarrow> bytes option \<Rightarrow> nat \<Rightarrow> replay_result \<Rightarrow> gap option \<Rightarrow> (replay_result \<times> gap option) option" where
  "rj_loop sha raw disk at r tx =
     (if length raw \<le> at then Some (r, tx)
      else case read_record raw at of
        Inl (NewerMajor v) \<Rightarrow>
          if rp_header r = None then Some (r\<lparr>rp_unreplayable := Some (UNewerMajor v)\<rparr>, tx)
          else Some (r\<lparr>rp_lost_tail := True\<rparr>, tx)
      | Inl (Panicked _ _) \<Rightarrow> None
      | Inl _ \<Rightarrow> Some (r\<lparr>rp_lost_tail := True\<rparr>, tx)
      | Inr (rec, next) \<Rightarrow>
          (case replay_record sha disk rec r tx of
             None \<Rightarrow> None
           | Some (ok, r', tx') \<Rightarrow>
               if ok then rj_loop sha raw disk next (r'\<lparr>rp_last_good := next\<rparr>) tx'
               else Some (r'\<lparr>rp_lost_tail := True\<rparr>, tx')))"
  by pat_completeness auto
termination
  by (relation "measure (\<lambda>(sha, raw, disk, at, r, tx). length raw - at)")
    (auto simp: HEAD_def dest!: read_record_progress)

declare rj_loop.simps [simp del]

definition rj_replay :: "(bytes \<Rightarrow> bytes) \<Rightarrow> bytes \<Rightarrow> bytes option \<Rightarrow> replay_result option" where
  "rj_replay sha raw disk =
     (case rj_loop sha raw disk 0 replay_default None of
        None \<Rightarrow> None
      | Some (r, tx) \<Rightarrow>
          if rp_unreplayable r = None then
            (case tx of None \<Rightarrow> Some (r\<lparr>rp_text := None\<rparr>) | Some t \<Rightarrow> map_option (\<lambda>v. r\<lparr>rp_text := Some v\<rparr>) (into_vec t))
          else Some r)"

section \<open>The meaning of a journal\<close>

text \<open>
  What the records say, over the plain text: the specification the replay implements.  An edit that starts within the
  text and whose end needs more than 64 bits has no answer.
\<close>

definition say_header :: "(bytes \<Rightarrow> bytes) \<Rightarrow> bytes option \<Rightarrow> header \<Rightarrow> replay_result \<Rightarrow> bytes option \<Rightarrow> replay_result \<times> bytes option" where
  "say_header sha disk h r tx =
     (let r1 = r\<lparr>rp_format := Some (hd_format h), rp_header := Some h\<rparr>
      in case hd_base h of
           BaseCheckpoint \<Rightarrow> (r1, tx)
         | BaseDisk len want \<Rightarrow>
             if \<exists>d. disk = Some d \<and> of_nat (length d) = len \<and> sha d = want then (r1, disk)
             else (r1\<lparr>rp_unreplayable := Some (DiskChanged 0)\<rparr>, tx))"

definition overflows :: "edit_list \<Rightarrow> nat \<Rightarrow> bool" where
  "overflows es len \<longleftrightarrow> (\<exists>e \<in> set es. epos e \<le> len \<and> end_panics e len)"

definition say_edit :: "edit_record \<Rightarrow> replay_result \<Rightarrow> bytes option \<Rightarrow> (bool \<times> replay_result \<times> bytes option) option" where
  "say_edit e r tx =
     (let r1 = r\<lparr>rp_changes := rp_changes r + 1, rp_last_change_ms := Some (em_timestamp_ms (er_meta e))\<rparr>
      in case rp_unreplayable r of
           Some (DiskChanged n) \<Rightarrow> Some (True, r1\<lparr>rp_unreplayable := Some (DiskChanged (n + 1))\<rparr>, tx)
         | _ \<Rightarrow>
             (case tx of
                None \<Rightarrow> Some (False, r1, None)
              | Some t \<Rightarrow>
                  if in_bounds (er_forward e) (length t) then Some (True, r1, Some (apply_to (er_forward e) t))
                  else if overflows (er_forward e) (length t) then None
                  else Some (False, r1, tx)))"

definition say ::
  "(bytes \<Rightarrow> bytes) \<Rightarrow> bytes option \<Rightarrow> rj_record \<Rightarrow> replay_result \<Rightarrow> bytes option \<Rightarrow> (bool \<times> replay_result \<times> bytes option) option" where
  "say sha disk rec r tx =
     (case rec of
        RHeader h \<Rightarrow> if rp_header r = None then Some (True, say_header sha disk h r tx) else Some (False, r, tx)
      | _ \<Rightarrow>
          if rp_header r = None then Some (False, r, tx)
          else case rec of
            RCheckpoint _ _ t \<Rightarrow> Some (True, r\<lparr>rp_unreplayable := None, rp_changes := 0\<rparr>, Some t)
          | REdit e \<Rightarrow> say_edit e r tx
          | RMeta m \<Rightarrow> Some (True, replay_meta m r, tx)
          | RMarker t \<Rightarrow> Some (True, r\<lparr>rp_last_marker_ms := Some t\<rparr>, tx)
          | _ \<Rightarrow> Some (True, r, tx))"

text \<open>The replay's step does what the record says, or both have no answer.\<close>

definition text_of :: "bool \<times> replay_result \<times> gap option \<Rightarrow> bool \<times> replay_result \<times> bytes option" where
  "text_of s = (case s of (b, r, tx) \<Rightarrow> (b, r, map_option gap_text tx))"

lemma replay_record_says:
  assumes ok: "\<forall>t. tx = Some t \<longrightarrow> gap_ok t" and wf: "\<forall>e. rec = REdit e \<longrightarrow> edits_wf (er_forward e)"
  shows "map_option text_of (replay_record sha disk rec r tx) = say sha disk rec r (map_option gap_text tx) \<and>
    (\<forall>b r' t. replay_record sha disk rec r tx = Some (b, r', Some t) \<longrightarrow> gap_ok t)"
proof (cases "\<exists>e t. rp_header r \<noteq> None \<and> rec = REdit e \<and> tx = Some t \<and> (\<forall>n. rp_unreplayable r \<noteq> Some (DiskChanged n))")
  case True
  then obtain e t where c: "rp_header r \<noteq> None" "rec = REdit e" "tx = Some t" "\<forall>n. rp_unreplayable r \<noteq> Some (DiskChanged n)" by blast
  have t: "gap_ok t" "edits_wf (er_forward e)" using ok wf c by simp_all
  let ?r = "r\<lparr>rp_changes := rp_changes r + 1, rp_last_change_ms := Some (em_timestamp_ms (er_meta e))\<rparr>"
  let ?cb = "check_bounds (er_forward e) (gap_len t)" and ?n = "length (gap_text t)"
  have len: "gap_len t = ?n" by (rule gb.len_content [OF t(1)])
  have a: "replay_record sha disk rec r tx =
      (case ?cb of Inr _ \<Rightarrow> map_option (\<lambda>t'. (True, ?r, Some t')) (gap_apply t (er_forward e))
       | Inl (EndOverflow _ _) \<Rightarrow> None | Inl _ \<Rightarrow> Some (False, ?r, Some t))"
    using c by (cases "rp_unreplayable r"; cases "the (rp_unreplayable r)"; cases "rp_header r")
      (simp_all add: replay_record_def replay_edit_def Let_def del: One_nat_def)
  have s: "say sha disk rec r (map_option gap_text tx) =
      (if in_bounds (er_forward e) ?n then Some (True, ?r, Some (apply_to (er_forward e) (gap_text t)))
       else if overflows (er_forward e) ?n then None else Some (False, ?r, map_option gap_text tx))"
    using c by (auto simp: say_def say_edit_def Let_def split: option.splits unreplayable.splits)
  show ?thesis
  proof (cases ?cb)
    case (Inr u)
    then have ib: "in_bounds (er_forward e) ?n" using check_bounds_Inr_iff [of "er_forward e" ?n] by (simp add: len)
    obtain t' where "gap_apply t (er_forward e) = Some t'" "gap_ok t'" "gap_text t' = apply_to (er_forward e) (gap_text t)"
      using gb.checked_app [OF t] Inr by auto
    then show ?thesis using Inr ib a s by (simp add: text_of_def)
  next
    case (Inl err)
    then have ib: "\<not> in_bounds (er_forward e) ?n" using check_bounds_Inr_iff [of "er_forward e" ?n] by (simp add: len)
    have ov: "overflows (er_forward e) ?n \<longleftrightarrow> (\<exists>p d. err = EndOverflow p d)"
      using check_bounds_panics_iff [OF t(2), of "gap_len t"] Inl unfolding len overflows_def by auto
    show ?thesis using Inl ib ov a s t(1) c(3) by (cases err) (auto simp: text_of_def)
  qed
next
  case other: False
  show ?thesis
  proof (cases rec)
    case (RHeader h)
    have "\<exists>r' tx'. replay_header sha disk h r tx = (r', tx') \<and> say_header sha disk h r (map_option gap_text tx) = (r', map_option gap_text tx') \<and>
        (\<forall>t. tx' = Some t \<longrightarrow> gap_ok t)"
      using ok by (cases "hd_base h"; cases disk) (simp_all add: replay_header_def say_header_def Let_def gb.mk_ok)
    then show ?thesis using RHeader ok by (auto simp: replay_record_def say_def text_of_def)
  next
    case (REdit e)
    consider "rp_header r = None" | n where "rp_header r \<noteq> None" "rp_unreplayable r = Some (DiskChanged n)"
      | "rp_header r \<noteq> None" "tx = None" "\<forall>n. rp_unreplayable r \<noteq> Some (DiskChanged n)"
      using other REdit by (cases tx) auto
    then show ?thesis
    proof cases
      case 1
      then show ?thesis using REdit ok by (auto simp: replay_record_def say_def text_of_def)
    next
      case 2
      then show ?thesis using REdit ok by (auto simp: replay_record_def say_def replay_edit_def say_edit_def Let_def text_of_def)
    next
      case 3
      then show ?thesis using REdit
        by (cases "rp_unreplayable r"; cases "the (rp_unreplayable r)"; cases "rp_header r")
          (simp_all add: replay_record_def say_def replay_edit_def say_edit_def Let_def text_of_def)
    qed
  qed (use ok in \<open>auto simp: replay_record_def say_def gb.mk_ok text_of_def\<close>)
qed

lemma replay_record_step:
  assumes "\<forall>t. tx = Some t \<longrightarrow> gap_ok t" "\<forall>e. rec = REdit e \<longrightarrow> edits_wf (er_forward e)"
  obtains "replay_record sha disk rec r tx = None" "say sha disk rec r (map_option gap_text tx) = None"
  | b r' tx' where "replay_record sha disk rec r tx = Some (b, r', tx')"
      "say sha disk rec r (map_option gap_text tx) = Some (b, r', map_option gap_text tx')" "\<forall>t. tx' = Some t \<longrightarrow> gap_ok t"
proof (cases "replay_record sha disk rec r tx")
  case None
  then show ?thesis using replay_record_says [OF assms, of sha disk r] by (intro that(1)) auto
next
  case (Some s)
  obtain b r' tx' where "s = (b, r', tx')" by (cases s)
  then show ?thesis using Some replay_record_says [OF assms, of sha disk r] by (intro that(2)) (auto simp: text_of_def dest: sym)
qed

text \<open>Only the loop moves \<open>rp_last_good\<close>.\<close>

lemma say_last_good: "say sha disk rec r tx = Some (b, r', tx') \<Longrightarrow> rp_last_good r' = rp_last_good r"
  by (cases rec)
    (auto simp: say_def say_header_def say_edit_def replay_meta_def Let_def
      split: if_splits option.splits base.splits unreplayable.splits meta.splits)

section \<open>Every input\<close>

text \<open>
  \<open>words_at b i p d\<close>: the 16 bytes at \<open>i\<close> are the position \<open>p\<close> and the length \<open>d\<close> of an edit.  \<open>reads b V p\<close>: on
  the bytes \<open>b\<close> the reader \<open>p\<close> gives values that satisfy \<open>V\<close>, and panics only on an edit of \<open>b\<close> whose end does not fit.
\<close>

definition words_at :: "bytes \<Rightarrow> nat \<Rightarrow> nat \<Rightarrow> nat \<Rightarrow> bool" where
  "words_at b i p d \<longleftrightarrow> i + 16 \<le> length b \<and> unat (le64 (drop i b)) = p \<and> unat (le64 (drop (i + 8) b)) = d"

definition reads :: "bytes \<Rightarrow> ('a \<Rightarrow> bool) \<Rightarrow> 'a reader \<Rightarrow> bool" where
  "reads b V p \<longleftrightarrow>
     (\<forall>c. cu_b c = b \<longrightarrow>
       (case p c of
          Inr (v, c') \<Rightarrow> cu_b c' = b \<and> V v
        | Inl (EndPanic q d) \<Rightarrow> 2 ^ 64 \<le> q + d \<and> (\<exists>i. words_at b i q d)
        | Inl Bad \<Rightarrow> True))"

lemma readsD:
  assumes "reads b V p" "cu_b c = b"
  shows "p c = Inr (v, c') \<Longrightarrow> V v" "p c = Inl (EndPanic q d) \<Longrightarrow> 2 ^ 64 \<le> q + d \<and> (\<exists>i. words_at b i q d)"
  using assms(1) [unfolded reads_def, THEN spec, THEN mp, OF assms(2)] by simp_all

lemma reads_ret: "V v \<Longrightarrow> reads b V (\<lambda>c. Inr (v, c))" and reads_bad: "reads b V (\<lambda>c. Inl Bad)"
  by (simp_all add: reads_def)

lemma reads_bind:
  assumes "reads b V p" "\<And>v. V v \<Longrightarrow> reads b W (q v)"
  shows "reads b W (\<lambda>c. rbind (p c) (\<lambda>(v, c'). q v c'))"
  unfolding reads_def
proof (intro allI impI)
  fix c :: cursor assume c: "cu_b c = b"
  show "case rbind (p c) (\<lambda>(v, c'). q v c') of Inr (v, c') \<Rightarrow> cu_b c' = b \<and> W v
      | Inl (EndPanic q d) \<Rightarrow> 2 ^ 64 \<le> q + d \<and> (\<exists>i. words_at b i q d) | Inl Bad \<Rightarrow> True"
  proof (cases "p c")
    case (Inl f)
    then show ?thesis using assms(1) c by (cases f) (auto simp: reads_def)
  next
    case (Inr vc)
    obtain v c' where vc: "vc = (v, c')" by (cases vc)
    then have "cu_b c' = b" "V v" using assms(1) c Inr by (auto simp: reads_def)
    then show ?thesis using assms(2) [of v] Inr vc by (simp add: reads_def)
  qed
qed

lemma reads_or_bad: "(\<And>v. reads b V (q v)) \<Longrightarrow> reads b V (\<lambda>c. rbind (or_bad x) (\<lambda>v. q v c))"
  by (cases x) (simp_all add: reads_bad)

lemma reads_if: "reads b V p \<Longrightarrow> reads b V q \<Longrightarrow> reads b V (\<lambda>c. if P then p c else q c)"
  by (cases P) simp_all

lemma reads_take: "reads b (\<lambda>_. True) (cur_take n)"
  by (simp add: reads_def cur_take_def Let_def)

lemma reads_u8: "reads b (\<lambda>_. True) cur_u8" and reads_u32: "reads b (\<lambda>_. True) cur_u32"
  and reads_u64: "reads b (\<lambda>_. True) cur_u64"
  unfolding cur_u8_def [abs_def] cur_u32_def [abs_def] cur_u64_def [abs_def]
  by (rule reads_bind [OF reads_take], rule reads_ret, simp)+

lemma reads_usize64: "reads b (\<lambda>_. True) cur_usize64" and reads_bytes: "reads b (\<lambda>_. True) cur_bytes"
  and reads_sha: "reads b (\<lambda>_. True) cur_sha"
  unfolding cur_usize64_def [abs_def] cur_bytes_def [abs_def] cur_sha_def [abs_def]
  by (rule reads_bind [OF reads_u64], rule reads_ret, simp) (rule reads_bind [OF reads_u32], rule reads_take, rule reads_take)

lemmas reads_basic = reads_take reads_u8 reads_u32 reads_u64 reads_usize64 reads_bytes reads_sha

lemma take_took: "cur_take n c = Inr (s, c') \<Longrightarrow> s = slice (cu_i c) (cu_i c + n) (cu_b c) \<and> c' = c\<lparr>cu_i := cu_i c + n\<rparr> \<and>
    cu_i c + n \<le> length (cu_b c)"
  unfolding cur_take_def Let_def by (simp only: sum.inject sum.distinct prod.inject split: if_split_asm)

lemma usize64_took:
  assumes "cur_usize64 c = Inr (v, c')"
  shows "v = unat (le64 (drop (cu_i c) (cu_b c))) \<and> c' = c\<lparr>cu_i := cu_i c + 8\<rparr> \<and> cu_i c + 8 \<le> length (cu_b c)"
proof -
  obtain s where "cur_take 8 c = Inr (s, c')" "v = unat (le64 s)"
    using assms by (auto simp: cur_usize64_def cur_u64_def rbind_Inr_iff)
  then show ?thesis using take_took [of 8 c s c'] by (simp add: le64_def slice_def)
qed

lemma usize64_twice:
  assumes "cur_usize64 c = Inr (p, c1)" "cur_usize64 c1 = Inr (d, c2)"
  shows "words_at (cu_b c) (cu_i c) p d \<and> cu_b c2 = cu_b c"
  using usize64_took [OF assms(1)] usize64_took [OF assms(2)] by (simp add: words_at_def)

definition written_edits :: "bytes \<Rightarrow> edit list \<Rightarrow> bool" where
  "written_edits b es \<longleftrightarrow> (\<forall>e \<in> set es. \<exists>i. words_at b i (epos e) (edel e))"

lemma reads_list_loop: "reads b (written_edits b) (list_loop n)"
proof (induction n)
  case 0
  show ?case by (simp add: reads_def written_edits_def)
next
  case (Suc n)
  have two: "reads b (\<lambda>(p, d). \<exists>i. words_at b i p d) (\<lambda>c. rbind (cur_usize64 c) (\<lambda>(p, c). rbind (cur_usize64 c) (\<lambda>(d, c). Inr ((p, d), c))))"
    (is "reads b ?V ?two")
  proof -
    have "reads b (\<lambda>_. True) ?two"
      by (rule reads_bind [OF reads_usize64], rule reads_bind [OF reads_usize64], rule reads_ret, simp)
    note base = this
    show ?thesis unfolding reads_def
    proof (intro allI impI)
      fix c :: cursor assume c: "cu_b c = b"
      show "case ?two c of Inr (v, c') \<Rightarrow> cu_b c' = b \<and> ?V v
          | Inl (EndPanic q d) \<Rightarrow> 2 ^ 64 \<le> q + d \<and> (\<exists>i. words_at b i q d) | Inl Bad \<Rightarrow> True"
      proof (cases "?two c")
        case (Inl f)
        then show ?thesis using base c by (cases f) (auto simp: reads_def)
      next
        case (Inr v)
        then obtain p d c1 c2 where "v = ((p, d), c2)" "cur_usize64 c = Inr (p, c1)" "cur_usize64 c1 = Inr (d, c2)"
          by (auto simp: rbind_Inr_iff)
        then show ?thesis using usize64_twice [of c p c1 d c2] c Inr by auto
      qed
    qed
  qed
  have "reads b (written_edits b) (\<lambda>c. rbind (?two c) (\<lambda>(pd, c). rbind (cur_bytes c) (\<lambda>(ins, c). rbind (list_loop n c) (\<lambda>(es, c).
      Inr (edit_replace (fst pd) (snd pd) ins # es, c)))))"
    by (rule reads_bind [OF two], rule reads_bind [OF reads_bytes], rule reads_bind [OF Suc.IH], rule reads_ret)
      (auto simp: written_edits_def edit_replace_def)
  moreover have "list_loop (Suc n) = (\<lambda>c. rbind (?two c) (\<lambda>(pd, c). rbind (cur_bytes c) (\<lambda>(ins, c). rbind (list_loop n c) (\<lambda>(es, c).
      Inr (edit_replace (fst pd) (snd pd) ins # es, c)))))"
    by (rule ext) (simp add: rbind_def split: sum.splits)
  ultimately show ?case by simp
qed

lemma reads_list: "reads b (\<lambda>es. edits_wf es \<and> written_edits b es) cur_list"
proof -
  have ok: "reads b (\<lambda>es. edits_wf es \<and> written_edits b es) (\<lambda>c. rbind (list_ok es) (\<lambda>l. Inr (l, c)))" if "written_edits b es" for es
  proof (cases "edit_list_new es")
    case (Inr l)
    then have "edits_wf l" "set l \<subseteq> set es" using edit_list_new_Inr_iff [THEN iffD1, OF Inr] by auto
    then show ?thesis using Inr that by (auto simp: list_ok_def reads_def written_edits_def)
  next
    case (Inl err)
    show ?thesis
    proof (cases err)
      case (EndOverflow q d)
      then show ?thesis using edit_list_new_panics [of es q d] Inl that
        by (fastforce simp: list_ok_def reads_def written_edits_def edit_end_def)
    qed (use Inl in \<open>simp_all add: list_ok_def reads_bad\<close>)
  qed
  show ?thesis unfolding cur_list_def [abs_def]
  proof (rule reads_bind [OF reads_u32])
    fix n :: u32
    have "reads b (\<lambda>es. edits_wf es \<and> written_edits b es) (\<lambda>c. rbind (list_loop (unat n) c) (\<lambda>(es, c). rbind (list_ok es) (\<lambda>l. Inr (l, c))))"
      by (rule reads_bind [OF reads_list_loop ok])
    then show "reads b (\<lambda>es. edits_wf es \<and> written_edits b es) (\<lambda>c. if cur_rest c div 20 < unat n then Inl Bad
        else rbind (list_loop (unat n) c) (\<lambda>(es, c). rbind (list_ok es) (\<lambda>l. Inr (l, c))))"
      by (simp add: reads_def)
  qed
qed

definition record_written :: "bytes \<Rightarrow> rj_record \<Rightarrow> bool" where
  "record_written b rec \<longleftrightarrow> (\<forall>e. rec = REdit e \<longrightarrow> edits_wf (er_forward e) \<and> written_edits b (er_forward e))"

lemma reads_kind: "reads b (\<lambda>_. True) decode_kind" and reads_base: "reads b (\<lambda>_. True) decode_base"
  unfolding decode_kind_def [abs_def] decode_base_def [abs_def]
  by (rule reads_bind [OF reads_u8], intro reads_if reads_bad reads_bind [OF reads_u64] reads_bind [OF reads_sha] reads_ret TrueI)+

lemma reads_header: "reads b (\<lambda>_. True) decode_header" and reads_meta: "reads b (\<lambda>_. True) decode_meta"
  unfolding decode_header_def [abs_def] decode_meta_def [abs_def]
  by (intro reads_if reads_bad reads_bind [OF reads_u8] reads_bind [OF reads_u32] reads_bind [OF reads_u64] reads_bind [OF reads_bytes]
      reads_bind [OF reads_base] reads_bind [OF reads_sha] reads_ret TrueI)+

lemma reads_edit: "reads b (\<lambda>e. edits_wf (er_forward e) \<and> written_edits b (er_forward e)) decode_edit"
  unfolding decode_edit_def [abs_def]
  by (rule reads_bind [OF reads_u64], rule reads_bind [OF reads_u64], rule reads_bind [OF reads_u64], rule reads_bind [OF reads_u8],
      rule reads_or_bad, rule reads_bind [OF reads_u8], rule reads_or_bad, rule reads_bind [OF reads_u64],
      rule reads_bind [OF reads_kind], rule reads_bind [OF reads_list], rule reads_bind [OF reads_list], rule reads_ret) simp

lemma reads_checkpoint: "reads b (record_written b) decode_checkpoint"
  unfolding decode_checkpoint_def [abs_def]
  by (rule reads_bind [OF reads_u64], rule reads_bind [OF reads_u64], rule reads_bind [OF reads_usize64], rule reads_bind [OF reads_take],
      rule reads_ret) (simp add: record_written_def)

lemma reads_payload: "reads b (record_written b) (decode_payload k nm)"
proof (cases k)
  case None
  then show ?thesis by (simp add: reads_def decode_payload_def record_written_def)
next
  case (Some kd)
  then show ?thesis unfolding decode_payload_def [abs_def]
    by (cases kd) (auto intro!: reads_checkpoint reads_bind [OF reads_header] reads_bind [OF reads_edit] reads_bind [OF reads_meta]
        reads_bind [OF reads_u64] reads_ret simp: record_written_def)
qed

lemma words_at_slice:
  assumes "words_at (slice lo hi (drop n raw)) i p d"
  shows "words_at raw (n + lo + i) p d"
proof -
  let ?s = "slice lo hi (drop n raw)"
  have i: "i + 16 \<le> length ?s" using assms by (simp add: words_at_def)
  have "take 8 (drop j ?s) = take 8 (drop (n + lo + j) raw)" if "j + 8 \<le> length ?s" for j
  proof -
    have "j + 8 \<le> hi - lo" using that by (simp add: slice_def)
    then show ?thesis by (simp add: slice_def drop_take take_take add.commute add.left_commute min_absorb1)
  qed
  from this [of i] this [of "i + 8"] i have
    "le64 (drop i ?s) = le64 (drop (n + lo + i) raw)" "le64 (drop (i + 8) ?s) = le64 (drop (n + lo + (i + 8)) raw)"
    by (simp_all add: le64_def)
  moreover have "i + 16 \<le> length raw - (n + lo)" using i by (simp add: slice_def add.commute)
  then have "n + lo + i + 16 \<le> length raw" by linarith
  ultimately show ?thesis using assms by (simp add: words_at_def add.assoc)
qed

text \<open>What reading a record can give, apart from a stop of the source: an edit record well formed, or a panic.\<close>

lemma read_record_edit:
  assumes "read_record raw at = Inr (REdit e, next)"
  shows "edits_wf (er_forward e)" "written_edits raw (er_forward e)"
proof -
  let ?rest = "drop (min at (length raw)) raw"
  let ?n = "unat (le32 (slice 8 12 (take HEAD ?rest)))"
  let ?p = "slice HEAD (HEAD + ?n) ?rest"
  obtain k nm c' where d: "decode_payload k nm \<lparr>cu_b = ?p, cu_i = 0\<rparr> = Inr (REdit e, c')"
    using assms unfolding read_record_def Let_def
    by (simp only: sum.inject sum.distinct prod.inject simp_thms split: if_split_asm sum.split_asm prod.split_asm fault.split_asm)
  have "record_written ?p (REdit e)" using readsD(1) [OF reads_payload _ d] by simp
  then show "edits_wf (er_forward e)" "written_edits raw (er_forward e)"
    using words_at_slice [of HEAD "HEAD + ?n" "min at (length raw)" raw] by (auto simp: record_written_def written_edits_def) blast
qed

lemma read_record_panics:
  assumes "read_record raw at = Inl (Panicked p d)"
  shows "2 ^ 64 \<le> p + d \<and> (\<exists>i. words_at raw i p d)"
proof -
  let ?rest = "drop (min at (length raw)) raw"
  let ?n = "unat (le32 (slice 8 12 (take HEAD ?rest)))"
  let ?p = "slice HEAD (HEAD + ?n) ?rest"
  obtain k nm where dp: "decode_payload k nm \<lparr>cu_b = ?p, cu_i = 0\<rparr> = Inl (EndPanic p d)"
    using assms unfolding read_record_def Let_def
    by (simp only: sum.inject sum.distinct stop.inject stop.distinct prod.inject simp_thms
        split: if_split_asm sum.split_asm prod.split_asm fault.split_asm)
  have "2 ^ 64 \<le> p + d \<and> (\<exists>i. words_at ?p i p d)" using readsD(2) [OF reads_payload _ dp] by simp
  then show ?thesis using words_at_slice [of HEAD "HEAD + ?n" "min at (length raw)" raw] by auto
qed

text \<open>Where the replay of \<open>raw\<close> can panic: at a record that holds an edit whose end does not fit.\<close>

definition overflow_at :: "bytes \<Rightarrow> nat \<Rightarrow> nat \<Rightarrow> nat \<Rightarrow> bool" where
  "overflow_at raw at p d \<longleftrightarrow>
     2 ^ 64 \<le> p + d \<and> (\<exists>i. words_at raw i p d) \<and>
     (read_record raw at = Inl (Panicked p d) \<or>
      (\<exists>e nxt. read_record raw at = Inr (REdit e, nxt) \<and> (\<exists>x \<in> set (er_forward e). epos x = p \<and> edel x = d)))"

lemma say_panics:
  assumes "say sha disk rec r tx = None"
  shows "\<exists>e x. rec = REdit e \<and> x \<in> set (er_forward e) \<and> 2 ^ 64 \<le> epos x + edel x"
  using assms by (cases rec)
    (auto simp: say_def say_edit_def overflows_def end_panics_def edit_end_def Let_def split: if_splits option.splits unreplayable.splits)

lemma rj_loop_outcome:
  "(\<forall>t. tx = Some t \<longrightarrow> gap_ok t) \<Longrightarrow> rp_last_good r \<le> length raw \<Longrightarrow>
     case rj_loop sha raw disk at r tx of
       Some (r', tx') \<Rightarrow> (\<forall>t. tx' = Some t \<longrightarrow> gap_ok t) \<and> rp_last_good r' \<le> length raw
     | None \<Rightarrow> \<exists>a p d. overflow_at raw a p d"
proof (induction sha raw disk at r tx rule: rj_loop.induct)
  case (1 sha raw disk at r tx)
  show ?case
  proof (cases "at < length raw")
    case False
    then show ?thesis using 1(2,3) by (simp add: rj_loop.simps)
  next
    case at: True
    show ?thesis
    proof (cases "read_record raw at")
      case (Inl st)
      then have "overflow_at raw at p d" if "st = Panicked p d" for p d
        using read_record_panics that by (simp add: overflow_at_def)
      then show ?thesis using 1(2,3) at Inl by (cases st) (auto simp: rj_loop.simps [of _ _ _ at])
    next
      case (Inr p)
      obtain rec nxt where p: "p = (rec, nxt)" by (cases p)
      have wf: "\<forall>e. rec = REdit e \<longrightarrow> edits_wf (er_forward e)" using read_record_edit(1) Inr p by blast
      from 1(2) wf show ?thesis
      proof (cases rule: replay_record_step [where sha = sha and disk = disk and r = r])
        case 1
        from say_panics [OF this(2)] obtain e x where e: "rec = REdit e" "x \<in> set (er_forward e)" "2 ^ 64 \<le> epos x + edel x" by blast
        then have "overflow_at raw at (epos x) (edel x)"
          using read_record_edit(2) Inr p unfolding overflow_at_def written_edits_def by blast
        then show ?thesis using at Inr p 1(1) by (auto simp: rj_loop.simps [of _ _ _ at])
      next
        case (2 b r' tx')
        have lg: "rp_last_good r' \<le> length raw" "nxt \<le> length raw"
          using say_last_good [OF 2(2)] 1(3) read_record_progress Inr p by auto
        have step: "rj_loop sha raw disk at r tx =
            (if b then rj_loop sha raw disk nxt (r'\<lparr>rp_last_good := nxt\<rparr>) tx' else Some (r'\<lparr>rp_lost_tail := True\<rparr>, tx'))"
          using at Inr p 2(1) by (simp add: rj_loop.simps [of _ _ _ at])
        show ?thesis
        proof (cases b)
          case True
          show ?thesis using 1(1) [OF _ Inr p [symmetric] 2(1) refl refl True] at 2(3) lg(2) step True by simp
        next
          case False
          then show ?thesis using step 2(3) lg(1) by simp
        qed
      qed
    qed
  qed
qed

section \<open>A written journal\<close>

definition bytes_of :: "rj_record \<Rightarrow> bytes" where
  "bytes_of rec = framed (record_kind rec) (record_payload rec)"

definition writable :: "rj_record \<Rightarrow> bool" where
  "writable rec \<longleftrightarrow> representable rec \<and> length (record_payload rec) < 2 ^ 32"

text \<open>The writer appends its records one after another, stopping at one that is refused.\<close>

fun encode_all :: "bytes \<Rightarrow> rj_record list \<Rightarrow> bytes option" where
  "encode_all out [] = Some out"
| "encode_all out (rec # rs) =
     (case encode out rec of (Inr _, out') \<Rightarrow> encode_all out' rs | (Inl _, _) \<Rightarrow> None)"

lemma encode_all_bytes:
  "list_all representable rs \<Longrightarrow> encode_all out rs = Some raw \<Longrightarrow> list_all writable rs \<and> raw = out @ concat (map bytes_of rs)"
proof (induction rs arbitrary: out)
  case (Cons rec rs)
  then have "rec \<noteq> Skipped" by (auto simp: representable_def)
  then have e: "encode out rec = frame_result out (record_kind rec) (record_payload rec)" by (rule encode_frame)
  then have s: "length (record_payload rec) < 2 ^ 32" using Cons.prems(2) by (auto simp: frame_result_def split: if_splits)
  then have "encode_all (out @ bytes_of rec) rs = Some raw" using Cons.prems(2) e by (simp add: frame_result_def bytes_of_def)
  from Cons.IH [OF _ this] Cons.prems(1) s show ?case by (simp add: writable_def)
qed simp

text \<open>
  What a list of records says from offset \<open>at\<close> on; \<open>torn\<close> tells whether bytes follow that are no intact record.
\<close>

fun interp :: "(bytes \<Rightarrow> bytes) \<Rightarrow> bytes option \<Rightarrow> bool \<Rightarrow> nat \<Rightarrow> rj_record list \<Rightarrow> replay_result \<Rightarrow> bytes option \<Rightarrow>
    (replay_result \<times> bytes option) option" where
  "interp sha disk torn at [] r tx = Some (if torn then r\<lparr>rp_lost_tail := True\<rparr> else r, tx)"
| "interp sha disk torn at (rec # rs) r tx =
     (case say sha disk rec r tx of
        None \<Rightarrow> None
      | Some (ok, r', tx') \<Rightarrow>
          if ok then
            interp sha disk torn (at + length (bytes_of rec)) rs (r'\<lparr>rp_last_good := at + length (bytes_of rec)\<rparr>) tx'
          else Some (r'\<lparr>rp_lost_tail := True\<rparr>, tx'))"

definition interp_result :: "(bytes \<Rightarrow> bytes) \<Rightarrow> bytes option \<Rightarrow> bool \<Rightarrow> rj_record list \<Rightarrow> replay_result option" where
  "interp_result sha disk torn rs =
     map_option (\<lambda>(r, tx). if rp_unreplayable r = None then r\<lparr>rp_text := tx\<rparr> else r)
       (interp sha disk torn 0 rs replay_default None)"

text \<open>Bytes at which reading stops, wherever they stand.\<close>

definition unreadable :: "bytes \<Rightarrow> bool" where
  "unreadable tail \<longleftrightarrow> tail \<noteq> [] \<and> (\<forall>pre. read_record (pre @ tail) (length pre) \<in> {Inl Torn, Inl Corrupt})"

lemma rj_loop_says:
  assumes "list_all writable rs" "\<forall>t. tx = Some t \<longrightarrow> gap_ok t" "tail = [] \<or> unreadable tail"
  shows "map_option (map_prod id (map_option gap_text)) (rj_loop sha (pre @ concat (map bytes_of rs) @ tail) disk (length pre) r tx) =
      interp sha disk (tail \<noteq> []) (length pre) rs r (map_option gap_text tx) \<and>
    (\<forall>r' t. rj_loop sha (pre @ concat (map bytes_of rs) @ tail) disk (length pre) r tx = Some (r', Some t) \<longrightarrow> gap_ok t)"
  using assms
proof (induction rs arbitrary: pre r tx)
  case Nil
  show ?case
  proof (cases "tail = []")
    case True
    then show ?thesis using Nil(2) by (simp add: rj_loop.simps)
  next
    case False
    then have "read_record (pre @ tail) (length pre) = Inl Torn \<or> read_record (pre @ tail) (length pre) = Inl Corrupt"
      using Nil(3) by (auto simp: unreadable_def)
    then show ?thesis using Nil(2) False by (auto simp: rj_loop.simps [of _ _ _ "length pre"])
  qed
next
  case (Cons rec rs)
  let ?raw = "pre @ concat (map bytes_of (rec # rs)) @ tail" and ?n = "length (pre @ bytes_of rec)"
  have w: "representable rec" "length (record_payload rec) < 2 ^ 32" using Cons.prems(1) by (simp_all add: writable_def)
  have rd: "read_record ?raw (length pre) = Inr (rec, ?n)"
    using read_framed [OF w, of pre "concat (map bytes_of rs) @ tail"] by (simp add: bytes_of_def)
  have lt: "\<not> length ?raw \<le> length pre" by (simp add: bytes_of_def)
  have wf: "\<forall>e. rec = REdit e \<longrightarrow> edits_wf (er_forward e)" using read_record_edit(1) rd by blast
  from Cons.prems(2) wf show ?case
  proof (cases rule: replay_record_step [where sha = sha and disk = disk and r = r])
    case 1
    have "rj_loop sha ?raw disk (length pre) r tx = None"
      using lt rd 1(1) by (simp only: rj_loop.simps [of _ _ _ "length pre"] if_False sum.case prod.case option.case)
    then show ?thesis using 1(2) by simp
  next
    case (2 b r' tx')
    have step: "rj_loop sha ?raw disk (length pre) r tx =
        (if b then rj_loop sha ?raw disk ?n (r'\<lparr>rp_last_good := ?n\<rparr>) tx' else Some (r'\<lparr>rp_lost_tail := True\<rparr>, tx'))"
      using lt rd 2(1) by (simp only: rj_loop.simps [of _ _ _ "length pre"] if_False sum.case prod.case option.case)
    have raw: "?raw = (pre @ bytes_of rec) @ concat (map bytes_of rs) @ tail" by simp
    have "list_all writable rs" using Cons.prems(1) by simp
    note IH = Cons.IH [OF this 2(3) Cons.prems(3), of "pre @ bytes_of rec" "r'\<lparr>rp_last_good := ?n\<rparr>", folded raw]
    show ?thesis
    proof (cases b)
      case True
      then show ?thesis unfolding step using IH 2(2) by simp
    next
      case False
      then show ?thesis unfolding step using 2(2,3) by simp
    qed
  qed
qed

lemma rj_replay_says:
  assumes "list_all writable rs" "tail = [] \<or> unreadable tail"
  shows "rj_replay sha (concat (map bytes_of rs) @ tail) disk = interp_result sha disk (tail \<noteq> []) rs"
proof -
  let ?l = "rj_loop sha (concat (map bytes_of rs) @ tail) disk 0 replay_default None"
  have l: "map_option (map_prod id (map_option gap_text)) ?l = interp sha disk (tail \<noteq> []) 0 rs replay_default None"
    "\<forall>r t. ?l = Some (r, Some t) \<longrightarrow> gap_ok t"
    using rj_loop_says [OF assms(1) _ assms(2), of None sha "[]" disk replay_default] by simp_all
  show ?thesis
  proof (cases ?l)
    case (Some s)
    obtain r tx where "s = (r, tx)" by (cases s)
    then show ?thesis using Some l(2) l(1) [symmetric]
      by (cases tx) (simp_all add: rj_replay_def interp_result_def gb.out_content)
  qed (use l(1) [symmetric] in \<open>simp add: rj_replay_def interp_result_def\<close>)
qed

lemma torn_unreadable:
  assumes "length p < 2 ^ 32" "0 < m" "m < length (framed k p)"
  shows "unreadable (take m (framed k p))"
proof -
  have "take m (framed k p) \<noteq> []" using assms(2) by (metis length_framed take_eq_Nil add_is_0 less_numeral_extra(3) list.size(3) zero_neq_numeral)
  then show ?thesis using read_torn [OF assms(1,3)] by (simp add: unreadable_def)
qed

lemma damaged_unreadable:
  assumes "length p < 2 ^ 32" "i < length (framed k p)" "b \<noteq> framed k p ! i"
  shows "unreadable ((framed k p)[i := b] @ post)"
proof -
  have "(framed k p)[i := b] \<noteq> []" by (metis length_framed length_list_update add_is_0 list.size(3) zero_neq_numeral)
  then show ?thesis using read_damaged [OF assms] by (simp add: unreadable_def)
qed

section \<open>Properties\<close>

text \<open>
  C18: the only panic of the replay is the overflow of \<^verbatim>\<open>Edit::end\<close>.  Whatever bytes a journal file holds and whatever
  the disk text is, the replay ends; either it does not panic, and the offset it reports as the end of the intact part
  lies within the file, or the file holds, next to each other, the 64-bit position and length of an edit whose sum needs
  more than 64 bits, in an edit record that passes its checksums: one that is decoded, or one that \<^verbatim>\<open>EditList::new\<close>
  panics on while it is decoded.\<close>

theorem replay_panics_only_on_overflow:
  "case rj_replay sha raw disk of
     Some r \<Rightarrow> rp_last_good r \<le> length raw
   | None \<Rightarrow> \<exists>at i p d. words_at raw i p d \<and> 2 ^ 64 \<le> p + d \<and>
       (read_record raw at = Inl (Panicked p d) \<or>
        (\<exists>e nxt. read_record raw at = Inr (REdit e, nxt) \<and> (\<exists>x \<in> set (er_forward e). epos x = p \<and> edel x = d)))"
proof (cases "rj_loop sha raw disk 0 replay_default None")
  case None
  then have "\<exists>a p d. overflow_at raw a p d"
    using rj_loop_outcome [of None replay_default raw sha disk 0] by (simp add: replay_default_def)
  then show ?thesis using None unfolding overflow_at_def rj_replay_def by simp blast
next
  case (Some s)
  obtain r tx where "s = (r, tx)" by (cases s)
  then have "\<forall>t. tx = Some t \<longrightarrow> gap_ok t" "rp_last_good r \<le> length raw"
    using rj_loop_outcome [of None replay_default raw sha disk 0] Some by (simp_all add: replay_default_def)
  then show ?thesis using Some \<open>s = (r, tx)\<close> by (cases tx) (auto simp: rj_replay_def gb.out_content)
qed

text \<open>
  That panic is reachable with checksums that hold: a journal of a header, a checkpoint of a text and one edit record
  that deletes \<open>2 ^ 64 - 1\<close> bytes from a position within the text, but not from its start, is written without an error,
  and its replay panics in \<^verbatim>\<open>check_bounds\<close>.  (A release build wraps instead: the end is then below the position, the
  check passes, and \<^verbatim>\<open>Gap::apply\<close> moves the gap to that end and subtracts the length from it.)
\<close>

abbreviation overflow_record :: "nat \<Rightarrow> edit_record" where
  "overflow_record p \<equiv> \<lparr>er_meta = \<lparr>em_seq = 1, em_timestamp_ms = 9\<rparr>, er_base_revision = 0, er_result_revision = 1,
     er_origin = UserInput, er_group_hint = BreakBefore, er_kind = Fresh 1 0,
     er_forward = [edit_delete p (2 ^ 64 - 1)], er_inverse = []\<rparr>"

theorem overflowing_record_panics:
  assumes "hd_base h = BaseCheckpoint" "format_fits (hd_format h)" "0 < p" "p \<le> length t" "length t < 2 ^ 64"
    and "encode_all [] [RHeader h, RCheckpoint 0 0 t, REdit (overflow_record p)] = Some raw"
  shows "rj_replay sha raw disk = None"
proof -
  let ?rs = "[RHeader h, RCheckpoint 0 0 t, REdit (overflow_record p)]"
  have "list_all representable ?rs"
    using assms(1-5) by (simp add: representable_def edit_record_fits_def list_fits_def changes_something_def edit_delete_def)
  from encode_all_bytes [OF this assms(6)] have w: "list_all writable ?rs" "raw = concat (map bytes_of ?rs) @ []" by simp_all
  have e: "\<not> edit_end (edit_delete p (2 ^ 64 - 1)) \<le> length t" "end_panics (edit_delete p (2 ^ 64 - 1)) (length t)"
    using assms(3-5) by (simp_all add: edit_end_def edit_delete_def end_panics_def)
  have "epos (edit_delete p n) = p" for n by (simp add: edit_delete_def)
  then have "interp_result sha disk False ?rs = None"
    using assms(1,4) e by (simp add: interp_result_def say_def say_header_def say_edit_def overflows_def replay_default_def Let_def)
  then show ?thesis using rj_replay_says [OF w(1), of "[]" sha disk] by (simp only: w(2) simp_thms)
qed

theorem overflowing_record_panics_witness:
  "\<exists>raw. encode_all [] [RHeader \<lparr>hd_owner = \<lparr>ow_pid = 1, ow_host = [97], ow_start_ms = 2\<rparr>, hd_path = [47], hd_format = format_default,
      hd_created_ms = 3, hd_base = BaseCheckpoint\<rparr>, RCheckpoint 0 0 [104, 105], REdit (overflow_record 1)] = Some raw \<and>
    rj_replay (\<lambda>_. []) raw None = None"
proof -
  let ?h = "\<lparr>hd_owner = \<lparr>ow_pid = 1, ow_host = [97], ow_start_ms = 2\<rparr>, hd_path = [47], hd_format = format_default,
      hd_created_ms = 3, hd_base = BaseCheckpoint\<rparr>"
  obtain raw where raw: "encode_all [] [RHeader ?h, RCheckpoint 0 0 [104, 105], REdit (overflow_record 1)] = Some raw"
    by (simp add: encode_frame frame_result_def record_payload_def header_payload_def bytes_payload_def base_payload_def
        checkpoint_payload_def edit_payload_def kind_payload_def list_payload_def edit_bytes_def edit_delete_def)
  have "hd_base ?h = BaseCheckpoint" "format_fits (hd_format ?h)" by (simp_all add: format_fits_def format_default_def)
  from overflowing_record_panics [OF this _ _ _ raw, of "\<lambda>_. []" None] raw show ?thesis by simp
qed

text \<open>
  C13: the replay of a written journal is what its records say, also after a crash.  The records one after another
  decode and apply to exactly the specified header, text, counts and marks; when the last write was torn at any byte,
  or a record was damaged in any one byte, the result is what the records before it say, with the lost tail
  reported, and nothing after it is used.  An edit that ends past the text makes its record and what follows the lost
  tail, except that one that starts within the text and whose end needs more than 64 bits has no answer on either
  side: the replay panics.\<close>

theorem replay_refines_records:
  assumes "list_all representable rs" "encode_all [] rs = Some raw" "representable rec" "encode [] rec = (Inr (), bs)"
  shows "rj_replay sha raw disk = interp_result sha disk False rs \<and>
    (\<forall>m. 0 < m \<and> m < length bs \<longrightarrow> rj_replay sha (raw @ take m bs) disk = interp_result sha disk True rs) \<and>
    (\<forall>i b post. i < length bs \<and> b \<noteq> bs ! i \<longrightarrow> rj_replay sha (raw @ bs[i := b] @ post) disk = interp_result sha disk True rs)"
proof -
  have w: "list_all writable rs" "raw = concat (map bytes_of rs)" using encode_all_bytes [OF assms(1,2)] by simp_all
  have "rec \<noteq> Skipped" using assms(3) by (auto simp: representable_def)
  then have "length (record_payload rec) < 2 ^ 32" "bs = framed (record_kind rec) (record_payload rec)"
    using assms(4) by (auto simp: encode_frame frame_result_def split: if_splits)
  then have t: "0 < m \<Longrightarrow> m < length bs \<Longrightarrow> unreadable (take m bs)" "i < length bs \<Longrightarrow> b \<noteq> bs ! i \<Longrightarrow> unreadable (bs[i := b] @ post)"
    for m i b post using torn_unreadable damaged_unreadable by blast+
  have "rj_replay sha (raw @ tail) disk = interp_result sha disk True rs" if "unreadable tail" for tail
    using rj_replay_says [OF w(1), of tail sha disk] that by (simp add: w(2) unreadable_def)
  moreover have "rj_replay sha raw disk = interp_result sha disk False rs"
    using rj_replay_says [OF w(1), of "[]" sha disk] by (simp add: w(2))
  ultimately show ?thesis using t by blast
qed

theorem replay_refines_records_witness:
  "\<exists>raw. encode_all [] [RHeader \<lparr>hd_owner = \<lparr>ow_pid = 1, ow_host = [97], ow_start_ms = 2\<rparr>, hd_path = [47], hd_format = format_default,
      hd_created_ms = 3, hd_base = BaseCheckpoint\<rparr>, RCheckpoint 0 0 [104]] = Some raw \<and>
    map_option rp_text (rj_replay (\<lambda>_. []) (raw @ take 9 (snd (encode [] (RMarker 5)))) None) = Some (Some [104])"
proof -
  let ?h = "\<lparr>hd_owner = \<lparr>ow_pid = 1, ow_host = [97], ow_start_ms = 2\<rparr>, hd_path = [47], hd_format = format_default,
      hd_created_ms = 3, hd_base = BaseCheckpoint\<rparr>"
  let ?rs = "[RHeader ?h, RCheckpoint 0 0 [104]]"
  have r: "list_all representable ?rs" "representable (RMarker 5)"
    by (simp_all add: representable_def format_fits_def format_default_def)
  obtain raw where raw: "encode_all [] ?rs = Some raw"
    by (simp add: encode_frame frame_result_def record_payload_def header_payload_def bytes_payload_def base_payload_def
        checkpoint_payload_def)
  have e: "encode [] (RMarker 5) = (Inr (), snd (encode [] (RMarker 5)))" "9 < length (snd (encode [] (RMarker 5)))"
    by (simp_all add: encode_frame frame_result_def record_payload_def)
  have "rj_replay (\<lambda>_. []) (raw @ take 9 (snd (encode [] (RMarker 5)))) None = interp_result (\<lambda>_. []) None True ?rs"
    using replay_refines_records [OF r(1) raw r(2) e(1), of "\<lambda>_. []" None] e(2) by simp
  moreover have "map_option rp_text (interp_result (\<lambda>_. []) None True ?rs) = Some (Some [104])"
    by (simp add: interp_result_def say_def say_header_def replay_default_def Let_def)
  ultimately show ?thesis using raw by simp
qed

end
