(* ===== verification/Recovery.thy ===== *)
theory Recovery
  imports Document_Laws Rj01_Replay
begin

text \<open>
  From the document to its recovery journal: the drained changes as edit records, and what the records of one
  drain say when they are replayed.
\<close>

definition edits_in_64 :: "edit_list \<Rightarrow> bool" where
  "edits_in_64 es \<longleftrightarrow> list_all (\<lambda>e. epos e < 2 ^ 64 \<and> edel e < 2 ^ 64) es"

text \<open>The offsets and the node numbers of a change fit the 64 bits the journal gives them.\<close>

definition entry_in_64 :: "change_entry \<Rightarrow> bool" where
  "entry_in_64 e \<longleftrightarrow> edits_in_64 (c_forward e) \<and> edits_in_64 (c_inverse e) \<and>
     (case c_kind e of Fresh nd pa \<Rightarrow> nd < 2 ^ 64 \<and> pa < 2 ^ 64 | Navigate nd \<Rightarrow> nd < 2 ^ 64)"

lemma chain_records_fit:
  "log_chain es r t r' t' \<Longrightarrow> e \<in> set es \<Longrightarrow> entry_in_64 e \<Longrightarrow> edit_record_fits (record_of_entry m e)"
proof (induction es arbitrary: r t)
  case (Cons a es)
  show ?case
  proof (cases "e = a")
    case True
    have v: "edits_valid (c_forward a) t" "c_inverse a = inverse_edits (c_forward a) t" using Cons.prems(1) by simp_all
    then have "edits_wf (c_forward a)" "edits_wf (c_inverse a)"
      using inverse_edits_wf(1) [of "c_forward a" t] by (simp_all add: edits_valid_def)
    then show ?thesis using Cons.prems(3) True
      by (simp add: edit_record_fits_def record_of_entry_def list_fits_def entry_in_64_def edits_in_64_def)
  qed (use Cons in auto)
qed simp

lemma drained_chain:
  assumes "log_inv l r t r' t'" "drain l t' r' nd = (Changes es, l')"
  shows "log_chain es r t r' t'"
  using assms by (auto simp: drain_def log_inv_def wants_def Let_def split: if_splits option.splits)

lemma log_chain_take: "log_chain es r t r' t' \<Longrightarrow> \<exists>r1 t1. log_chain (take k es) r t r1 t1"
proof (induction es arbitrary: k r t)
  case Nil
  show ?case by (intro exI [of _ r] exI [of _ t]) simp
next
  case (Cons e es)
  show ?case
  proof (cases k)
    case 0
    then show ?thesis by (intro exI [of _ r] exI [of _ t]) simp
  next
    case (Suc n)
    then show ?thesis using Cons by auto
  qed
qed

text \<open>Replaying the records of a chain of changes gives the chain's text.\<close>

lemma interp_edits:
  assumes "rp_header r \<noteq> None" "rp_unreplayable r = None" "log_chain es r0 t r1 t1" "length ms = length es"
  shows "\<exists>r'. interp sha disk torn at (map REdit (map2 record_of_entry ms es)) r (Some t) = Some (r', Some t1) \<and>
    rp_unreplayable r' = None \<and> rp_changes r' = rp_changes r + length es \<and> rp_lost_tail r' = (torn \<or> rp_lost_tail r)"
  using assms
proof (induction es arbitrary: ms r r0 t at)
  case (Cons e es)
  from Cons.prems obtain m ms' where ms: "ms = m # ms'" by (cases ms) auto
  let ?e = "record_of_entry m e"
  let ?r = "r\<lparr>rp_changes := rp_changes r + 1, rp_last_change_ms := Some (em_timestamp_ms (er_meta ?e))\<rparr>"
  have v: "edits_valid (c_forward e) t" using Cons.prems(3) by simp
  then have s: "say sha disk (REdit ?e) r (Some t) = Some (True, ?r, Some (apply_to (c_forward e) t))"
    using Cons.prems(1,2) by (simp add: say_def say_edit_def record_of_entry_def edits_valid_def)
  have "\<exists>r'. interp sha disk torn (at + length (bytes_of (REdit ?e))) (map REdit (map2 record_of_entry ms' es))
      (?r\<lparr>rp_last_good := at + length (bytes_of (REdit ?e))\<rparr>) (Some (apply_to (c_forward e) t)) = Some (r', Some t1) \<and>
    rp_unreplayable r' = None \<and> rp_changes r' = rp_changes r + 1 + length es \<and> rp_lost_tail r' = (torn \<or> rp_lost_tail r)"
  proof -
    let ?r1 = "?r\<lparr>rp_last_good := at + length (bytes_of (REdit ?e))\<rparr>"
    have "rp_header ?r1 \<noteq> None" "rp_unreplayable ?r1 = None" "length ms' = length es" using Cons.prems ms by simp_all
    moreover have "log_chain es (c_result_revision e) (apply_to (c_forward e) t) r1 t1" using Cons.prems(3) unfolding log_chain.simps by blast
    ultimately show ?thesis
      using Cons.IH [of ?r1 "c_result_revision e" "apply_to (c_forward e) t" ms' "at + length (bytes_of (REdit ?e))"] by simp
  qed
  then show ?case using s by (simp add: ms)
qed auto

lemma interp_journal:
  assumes "hd_base h = BaseCheckpoint" "log_chain es r0 t r1 t1" "length ms = length es"
  shows "\<exists>r. interp_result sha disk torn (RHeader h # RCheckpoint nd rv t # map REdit (map2 record_of_entry ms es)) = Some r \<and>
    rp_text r = Some t1 \<and> rp_changes r = length es \<and> rp_lost_tail r = torn"
proof -
  let ?r = "replay_default\<lparr>rp_format := Some (hd_format h), rp_header := Some h\<rparr>"
  let ?at = "length (bytes_of (RHeader h))"
  let ?r2 = "?r\<lparr>rp_last_good := ?at, rp_unreplayable := None, rp_changes := 0, rp_last_good := ?at + length (bytes_of (RCheckpoint nd rv t))\<rparr>"
  have r2: "rp_header ?r2 \<noteq> None" "rp_unreplayable ?r2 = None" "rp_changes ?r2 = 0" "\<not> rp_lost_tail ?r2"
    by (simp_all add: replay_default_def)
  obtain r where r: "interp sha disk torn (?at + length (bytes_of (RCheckpoint nd rv t))) (map REdit (map2 record_of_entry ms es)) ?r2 (Some t) =
      Some (r, Some t1)" "rp_unreplayable r = None" "rp_changes r = length es" "rp_lost_tail r = torn"
    using interp_edits [OF r2(1,2) assms(2,3), of sha disk torn "?at + length (bytes_of (RCheckpoint nd rv t))"] r2(3,4) by auto
  have "interp sha disk torn 0 (RHeader h # RCheckpoint nd rv t # map REdit (map2 record_of_entry ms es)) replay_default None = Some (r, Some t1)"
    using r(1) assms(1) by (simp add: say_def say_header_def replay_default_def Let_def)
  then show ?thesis using r(2-4) by (simp add: interp_result_def)
qed

text \<open>A file cut off anywhere holds whole records and at most one torn one.\<close>

lemma cut_records:
  assumes "\<forall>x \<in> set xs. f x \<noteq> []"
  shows "\<exists>k m. k \<le> length xs \<and> take n (concat (map f xs)) = concat (map f (take k xs)) @ (if k < length xs then take m (f (xs ! k)) else []) \<and>
    (k < length xs \<longrightarrow> m < length (f (xs ! k))) \<and> (length (concat (map f xs)) \<le> n \<longrightarrow> k = length xs)"
  using assms
proof (induction xs arbitrary: n)
  case (Cons x xs)
  show ?case
  proof (cases "n < length (f x)")
    case True
    then show ?thesis by (intro exI [of _ 0] exI [of _ n]) simp
  next
    case False
    obtain k m where k: "k \<le> length xs" "k < length xs \<longrightarrow> m < length (f (xs ! k))"
      "take (n - length (f x)) (concat (map f xs)) = concat (map f (take k xs)) @ (if k < length xs then take m (f (xs ! k)) else [])"
      "length (concat (map f xs)) \<le> n - length (f x) \<longrightarrow> k = length xs"
      using Cons.IH [of "n - length (f x)"] Cons.prems by auto
    have "take n (concat (map f (x # xs))) = f x @ take (n - length (f x)) (concat (map f xs))" using False by simp
    then show ?thesis using k False by (intro exI [of _ "Suc k"] exI [of _ m]) auto
  qed
qed simp

lemma bytes_of_nonempty: "bytes_of rec \<noteq> []"
  by (metis bytes_of_def length_framed list.size(3) add_is_0 zero_neq_numeral)

lemma journal_cut:
  assumes h: "hd_base h = BaseCheckpoint" "format_fits (hd_format h)" and c: "log_chain es r0 t r1 t1" "list_all entry_in_64 es"
    and ms: "length ms = length es"
    and raw: "encode_all [] (RHeader h # RCheckpoint nd rv t # map REdit (map2 record_of_entry ms es)) = Some raw"
    and base: "encode_all [] [RHeader h, RCheckpoint nd rv t] = Some bs" and n: "length bs \<le> n"
  shows "\<exists>k r. k \<le> length es \<and> rj_replay sha (take n raw) disk = Some r \<and>
    rp_text r = Some (fold (\<lambda>e t. apply_to (c_forward e) t) (take k es) t) \<and> rp_changes r = k \<and> (length raw \<le> n \<longrightarrow> k = length es \<and> \<not> rp_lost_tail r)"
proof -
  let ?es = "map REdit (map2 record_of_entry ms es)"
  have "e \<in> set (map2 record_of_entry ms es) \<Longrightarrow> edit_record_fits e" for e
    using chain_records_fit [OF c(1)] c(2) by (auto simp: list_all_iff dest!: set_zip_rightD)
  then have "list_all representable (RHeader h # RCheckpoint nd rv t # ?es)" using h by (auto simp: representable_def list_all_iff)
  note w = encode_all_bytes [OF this raw]
  have bs: "bs = bytes_of (RHeader h) @ bytes_of (RCheckpoint nd rv t)"
    using encode_all_bytes [OF _ base] h by (simp add: representable_def)
  have raw': "raw = bs @ concat (map bytes_of ?es)" using w bs by simp
  obtain k m where k: "k \<le> length ?es" "k < length ?es \<longrightarrow> m < length (bytes_of (?es ! k))"
      "take (n - length bs) (concat (map bytes_of ?es)) = concat (map bytes_of (take k ?es)) @ (if k < length ?es then take m (bytes_of (?es ! k)) else [])"
      "length (concat (map bytes_of ?es)) \<le> n - length bs \<longrightarrow> k = length ?es"
    using cut_records [of ?es bytes_of "n - length bs"] bytes_of_nonempty by blast
  define tail where "tail = (if k < length ?es then take m (bytes_of (?es ! k)) else [])"
  let ?rs = "RHeader h # RCheckpoint nd rv t # take k ?es"
  have cut: "take n raw = concat (map bytes_of ?rs) @ tail" using n k(3) by (simp add: raw' bs tail_def)
  have we: "\<forall>x \<in> set ?es. writable x" "writable (RHeader h)" "writable (RCheckpoint nd rv t)"
    using w by (simp_all only: list_all_iff list.set ball_simps simp_thms) blast+
  then have wr: "list_all writable ?rs" using set_take_subset [of k ?es] by (simp only: list_all_iff list.set ball_simps simp_thms) blast
  have "tail = [] \<or> unreadable tail"
  proof (cases "tail = []")
    case False
    then have l: "k < length ?es" "0 < m" by (auto simp: tail_def split: if_splits)
    then have "writable (?es ! k)" using we(1) nth_mem by blast
    then show ?thesis using torn_unreadable [of "record_payload (?es ! k)" m "record_kind (?es ! k)"] k(2) l
      by (simp add: tail_def writable_def bytes_of_def)
  qed simp
  note rep = rj_replay_says [OF wr this, of sha disk, folded cut]
  have len: "length ?es = length es" using ms by simp
  obtain r2 t2 where ch: "log_chain (take k es) r0 t r2 t2" using log_chain_take [OF c(1)] by blast
  have tk: "take k ?es = map REdit (map2 record_of_entry (take k ms) (take k es))" by (simp add: take_map take_zip)
  have "length (take k ms) = length (take k es)" using ms by simp
  from interp_journal [OF h(1) ch this, of sha disk "tail \<noteq> []" nd rv]
  obtain r where "interp_result sha disk (tail \<noteq> []) ?rs = Some r" "rp_text r = Some t2" "rp_changes r = k" "rp_lost_tail r = (tail \<noteq> [])"
    using k(1) len unfolding tk by auto
  moreover have "fold (\<lambda>e t. apply_to (c_forward e) t) (take k es) t = t2" by (rule log_chain_forward [OF ch])
  moreover have "length raw \<le> n \<longrightarrow> k = length es \<and> tail = []" using k(4) len by (auto simp: raw' tail_def)
  ultimately show ?thesis using rep k(1) len by auto
qed

end
