(* ===== verification/Spec2Isabelle.thy ===== *)
theory Spec2Isabelle
  imports Keymap Register_Laws Diff_Unified Snippet Lsp_Codec Line_Index Workspace_Laws Tab_Stops Expr_Laws Motion_Laws Search_Walk Char_Boundary Recovery
begin

text \<open>
  A verification library for the editing kernel of \<^verbatim>\<open>ruse\<close>, a modal text editor in Rust, and for the crash
  recovery and other self-contained parts of its terminal frontend.

  \<^bold>\<open>The program.\<close>  \<^verbatim>\<open>crates/core\<close> is the kernel without input or output: a document is a byte buffer with a
  revision, changed only by transactions of sorted, disjoint edits; each change is recorded in an undo tree, moves
  the anchors (cursors, marks, diagnostics) and may be logged for a journal.  \<^verbatim>\<open>apps/tui\<close> is the frontend; its
  \<^verbatim>\<open>persist\<close> modules write the journal and rebuild the text from it after a crash.  A change flows
  \<open>edit list \<rightarrow> transaction \<rightarrow> document \<rightarrow> undo tree, anchors, line undo, change log \<rightarrow> journal records \<rightarrow> replay\<close>,
  and the theories follow that order.

  \<^bold>\<open>The theories.\<close>
  \<^item> \<open>Prelude\<close>: bytes, slices, searches, with the collections \<open>slice_simps\<close> and \<open>scan_simps\<close>.
  \<^item> \<open>Pos\<close>, \<open>Char_Boundary\<close> (\<^verbatim>\<open>core/src/pos.rs\<close>, the character boundaries of \<^verbatim>\<open>motion.rs\<close>): line arithmetic
    against the list of line starts; snapping to the greatest boundary.
  \<^item> \<open>Motion_Lines\<close>, \<open>Motion_Laws\<close> (\<^verbatim>\<open>motion.rs\<close>), \<open>Search_Walk\<close> (\<^verbatim>\<open>editor/search.rs\<close>): the motions over bytes and
    lines, each against a declarative search of the buffer; the locale \<open>stop_walk\<close> makes a counted walk the count-th
    element of a list of stops.  The counted walk of a search.
  \<^item> \<open>Edits\<close> (\<^verbatim>\<open>edit.rs\<close>): \<open>edit_list_new\<close>, \<open>check_bounds\<close>, \<open>apply_to\<close>, \<open>inverse_edits\<close>, \<open>lines_changed\<close>.  One
    pass equals splicing; the inverse restores; the insertion fast path equals the general difference.
  \<^item> \<open>Transactions\<close> (\<^verbatim>\<open>transaction.rs\<close>), \<open>Undo_History\<close>, \<open>Undo_Walks\<close> (\<^verbatim>\<open>undo.rs\<close>): the undo tree as a list of
    nodes; a locale of invertible changes carries the text of every node through undo, redo and chronological steps.
  \<^item> \<open>Change_Log\<close> (\<^verbatim>\<open>change_log.rs\<close>): a drain chains from the last drained text to the current one.
  \<^item> \<open>Line_Starts\<close> (line table of \<^verbatim>\<open>document.rs\<close>), \<open>Line_Undo\<close> (\<^verbatim>\<open>line_undo.rs\<close>), \<open>Undo_Cursor\<close>
    (\<^verbatim>\<open>undo_cursor.rs\<close>).
  \<^item> \<open>Anchor_Map\<close>, \<open>Line_Map\<close>, \<open>Fenwick\<close>, \<open>Anchor_Store\<close>, \<open>Anchor_Sweep\<close>, \<open>Anchor_Refine\<close>, \<open>Anchor_Apply\<close>
    (\<^verbatim>\<open>anchor.rs\<close>): the rule of one anchor, the store with its generations and lazy shifts, and that the batched
    sweep moves every anchor as its own rule does.
  \<^item> \<open>Document\<close> (all operations of \<^verbatim>\<open>document.rs\<close> and \<^verbatim>\<open>snapshot.rs\<close>), \<open>Document_Inv\<close> (its invariant),
    \<open>Document_Steps\<close>, \<open>Document_Safety\<close> (the steps \<open>edit_step\<close> and the reachable documents \<open>doc_reach\<close>),
    \<open>Document_Laws\<close> (its properties).
  \<^item> \<open>File_Format\<close> (\<^verbatim>\<open>persist/encoding.rs\<close>): detection, reading and writing of line endings.
  \<^item> \<open>Crc32c\<close>, \<open>Rj01_Codec\<close>, \<open>Rj01_Laws\<close>, \<open>Gap_Buffer\<close>, \<open>Rj01_Replay\<close> (\<^verbatim>\<open>persist/rj01.rs\<close>): the checksum, the
    record format and its round trip, the replay buffer behind the locale \<open>edit_buffer\<close>, the replay and its
    specification \<open>interp\<close>.
  \<^item> \<open>Recovery\<close> and this theory: the document and its journal together.
  \<^item> \<open>Line_Diff\<close>, \<open>Diff_Search\<close>, \<open>Diff_Unified\<close> (\<^verbatim>\<open>persist/diff.rs\<close>): the difference shown before a recovery.
    The furthest points of Myers' rounds are a recursive function \<open>far\<close>; the array and the trace hold them, the walk
    back is a script, and the first finished round is the smallest cost.
  \<^item> \<open>Registers\<close>, \<open>Register_Laws\<close> (\<^verbatim>\<open>core/src/register.rs\<close>): the store, the abstract register file \<open>view\<close> it
    refines, the rings as histories, and the restoring of a trace through the locale \<open>slot_file\<close>.
  \<^item> \<open>Keymap\<close> (\<^verbatim>\<open>core/src/keymap.rs\<close>): the ranked layers, resolution against its declaration, the collapse and
    the static check.
  \<^item> \<open>Lsp_Codec\<close> (\<^verbatim>\<open>lsp/codec.rs\<close>), \<open>Snippet\<close> (\<^verbatim>\<open>lsp/snippet.rs\<close>), \<open>Line_Index\<close> (\<^verbatim>\<open>line_index.rs\<close>): the
    framing of the language server's messages, the expansion of snippets, and the cached line starts of the panes.
  \<^item> \<open>Tab_Stops\<close> (the tab stops of \<^verbatim>\<open>cells.rs\<close>), \<open>Editor_Options\<close> (the option values of \<^verbatim>\<open>editor/mod.rs\<close> and
    \<^verbatim>\<open>window_options.rs\<close>): padding and filling up to a column, the parsing of stop lists, the settings of a trace.
  \<^item> \<open>Expr\<close>, \<open>Expr_Laws\<close> (\<^verbatim>\<open>expr.rs\<close>): the expression register.  The text of an expression tree evaluates to the
    tree's value, parentheses nest up to 999 deep, evaluation always returns, integer division is exact.
  \<^item> \<open>View\<close>, \<open>View_Laws\<close> (\<^verbatim>\<open>editor/mod.rs\<close>): a view with its cursor, marks, change list and jumplist, the positions it
    has tracked through an edit, batches of edits; the invariant the source asserts of it, the walks over its lists.
  \<^item> \<open>Editor_Commands\<close>: the contract \<open>command\<close> of what runs on a lent document and view, met by batches of edits,
    cursor placement and register writes.
  \<^item> \<open>Workspace\<close> (\<^verbatim>\<open>workspace.rs\<close>), \<open>Workspace_Lend\<close>, \<open>Workspace_Inv\<close>, \<open>Workspace_Buffers\<close>, \<open>Workspace_Ops\<close>,
    \<open>Workspace_Laws\<close>: the arenas of documents and views, the windows and the buffer list; lending and reclaiming; the
    invariant \<open>ws_inv\<close> and that every operation returns and keeps it; its properties.

  \<^bold>\<open>Conventions.\<close>  A \<^verbatim>\<open>usize\<close> is a natural number, except where the code checks for overflow or an outside value can
  overflow it; so are the counters of undo nodes and groups (\<^verbatim>\<open>u64\<close>) and the depth and count of the bracket motion
  (\<^verbatim>\<open>u32\<close>), which differ only past their width.  \<^verbatim>\<open>Edit::end\<close> adds a position and a length that a
  journal or a client supplies: \<open>end_panics\<close> says when the sum leaves \<^verbatim>\<open>usize\<close>, and every operation that calls it on
  such values (\<open>check_bounds\<close>, \<open>edit_list_new\<close>, the transaction, the record reader, the replay) then gives the outcome
  \<open>EndOverflow\<close>, \<open>TxnEndOverflow\<close>, \<open>EndPanic\<close>, \<open>Panicked\<close> or \<open>None\<close>.  These outcomes are the panic of a build with
  overflow checks (debug, tests, fuzzing), not error values of the source; a build without them wraps the sum and is
  not modelled from there on.  Revisions and the journal's integers are 64-bit words, anchor generations 32-bit words that
  wrap.  \<^verbatim>\<open>&mut self\<close> is a state passed and returned, \<^verbatim>\<open>&mut [Tracked]\<close> is returned updated.  Errors are values of
  a sum type; a failed \<^verbatim>\<open>expect\<close>, \<^verbatim>\<open>unreachable!\<close> or slice is \<open>None\<close>, a constructor of its own, or excluded by
  a predicate ending in \<open>_safe\<close> or \<open>_ok\<close> that is proved.  Lazily filled caches (\<^verbatim>\<open>OnceLock\<close>) are options, and the
  readers that fill them return the state.  The loops over the undo tree take the number of nodes as fuel, which is
  enough because every step moves to a smaller or a larger node index; this is part of what is proved.  The offset
  an anchor stores is an integer, because its lazy shift may make the stored part negative.  \<^verbatim>\<open>Arc\<close> sharing is
  invisible: what is shared is immutable.  SHA-256 is the parameter \<open>sha\<close>.  The snippet parser takes fuel, and more
  than the length of the snippet is enough; the other loops end by a measure, except the operator loop of the expression parser, which is an option-valued
  partial function proved to return.  Floating-point numbers are a type parameter with their operations.  \<^verbatim>\<open>serde_json\<close> and the Unicode letter
  tests are arguments; an in-memory list stands for a reader or a writer.

  \<^bold>\<open>What is shown.\<close>  Every document reachable by the operations keeps every condition of the source's invariant walker;
  transactions are atomic, and panic exactly when the end of an edit overflows; undo restores bytes; an unmodified document is the saved one; anchors resolve as their
  rules say and stay in the text; drains and journals reproduce the text, also when the file is torn or damaged; the
  replay panics on no input but one with an edit whose end overflows, and on such a record it does, although its
  checksum holds (\<open>overflowing_record_panics\<close>); files survive opening and saving.  The difference shown for a recovery
  is a shortest script, found exactly within its bounds, and nothing of it is lost but what it counts; a removed
  anchor resolves again only when its 32-bit generation has gone all the way round; registers keep what was yanked and deleted, in order;
  keys resolve as the layers declare; the message stream stays in step; every snippet is expanded.  No sequence of
  the modelled operations of the workspace, called as the source asks, panics or breaks its invariants; the windows of a buffer follow the edits made through
  another one; walking and removing buffers do what they say.  One gap of the source is proved too: the Emacs mark
  and the anchors of a view that is not focused are not carried.

  \<^bold>\<open>Not modelled.\<close>  Grapheme and cell columns (third-party Unicode crates); the Unicode case and class tables
  (generated); the planner and the Ex commands (\<^verbatim>\<open>editor/planner.rs\<close>, \<^verbatim>\<open>range.rs\<close>, \<^verbatim>\<open>substitute.rs\<close>, \<^verbatim>\<open>search.rs\<close>,
  \<^verbatim>\<open>command.rs\<close>), of which the workspace sees only the contract \<open>command\<close>, which is proved of the commands modelled; nothing is
  claimed of the others; the motions of \<^verbatim>\<open>motion.rs\<close> that step by grapheme cluster, \<^verbatim>\<open>textobj.rs\<close>, \<^verbatim>\<open>pattern.rs\<close>; the clipboard provider; the
  frontend's input, rendering, configuration, terminal and remote parts and the language server process; the
  journal's threads, locks and file operations, atomic saves, backups and retention (file-system calls).  Next in
  order: the remaining motions and text objects, the planner's commands one by one against the contract, the journal set of
  \<^verbatim>\<open>rjs0.rs\<close>.
\<close>

section \<open>Crash recovery, end to end\<close>

text \<open>
  C1: what the editor had is what the journal gives back.  Take any reachable document, drain its change log, let it be
  edited, undone, redone, saved and reloaded in any way, drain it again, and write a journal of a header, a
  checkpoint of the text at the first drain and one record per drained change.  Replaying the whole file rebuilds
  the document's text byte for byte; replaying a file cut off at any byte after the checkpoint, as a crash leaves it,
  rebuilds the text after a prefix of the changes.  (The offsets and undo node numbers fit 64 bits, and the file
  format is one the format byte can carry.)\<close>

theorem crash_recovery:
  assumes "doc_reach d" "drain_changes d = (dr1, d1)" "undrained\<^sup>*\<^sup>* d1 d2" "drain_changes d2 = (Changes es, d3)"
    and "hd_base h = BaseCheckpoint" "format_fits (hd_format h)" "list_all entry_in_64 es" "length ms = length es"
    and "encode_all [] (RHeader h # RCheckpoint nd rv (d_text d) # map REdit (map2 record_of_entry ms es)) = Some raw"
    and "encode_all [] [RHeader h, RCheckpoint nd rv (d_text d)] = Some bs"
  shows "(\<exists>r. rj_replay sha raw disk = Some r \<and> rp_text r = Some (d_text d2) \<and> rp_changes r = length es \<and> \<not> rp_lost_tail r) \<and>
    (\<forall>n \<ge> length bs. \<exists>k r. k \<le> length es \<and> rj_replay sha (take n raw) disk = Some r \<and> rp_changes r = k \<and>
       rp_text r = Some (fold (\<lambda>e t. apply_to (c_forward e) t) (take k es) (d_text d)))"
proof -
  obtain T S r0 t0 where "doc_inv T S r0 t0 d" using doc_reach_inv [OF assms(1)] by blast
  from undrained_steps_inv [OF assms(3) drain_changes_inv(1) [OF this assms(2)]]
  obtain T' S' where i: "doc_inv T' S' (d_revision d) (d_text d) d2" by blast
  have "log_chain es (d_revision d) (d_text d) (d_revision d2) (d_text d2)"
    using i assms(4) drained_chain by (auto simp: doc_inv_def drain_changes_def split: prod.splits)
  note cut = journal_cut [OF assms(5,6) this assms(7-10)] and fwd = log_chain_forward [OF this]
  have "length bs \<le> max (length bs) (length raw)" by simp
  from cut [OF this, of sha disk] fwd
  have "\<exists>r. rj_replay sha raw disk = Some r \<and> rp_text r = Some (d_text d2) \<and> rp_changes r = length es \<and> \<not> rp_lost_tail r" by auto
  then show ?thesis using cut by blast
qed

text \<open>A concrete journal: one change typed between the two drains.\<close>

abbreviation logged_doc :: document where
  "logged_doc \<equiv> sample_doc\<lparr>d_changes := log_default\<lparr>l_recording := True\<rparr>\<rparr>"

abbreviation logged_changed :: document where
  "logged_changed \<equiv> snd (snd (apply_tracked logged_doc sample_txn []))"

abbreviation sample_entry :: change_entry where
  "sample_entry \<equiv> \<lparr>c_base_revision = 0, c_result_revision = 1, c_origin = UserInput, c_group_hint = BreakBefore,
     c_forward = [edit_insert 2 [33]], c_inverse = [edit_delete 2 1], c_kind = Fresh 1 0\<rparr>"

abbreviation sample_header :: header where
  "sample_header \<equiv> \<lparr>hd_owner = \<lparr>ow_pid = 1, ow_host = [97], ow_start_ms = 2\<rparr>, hd_path = [47], hd_format = format_default,
     hd_created_ms = 3, hd_base = BaseCheckpoint\<rparr>"

lemma logged_start: "drain_changes (record_changes sample_doc True) = (Checkpoint Started [104, 105] 0 0, logged_doc)"
  by (simp add: drain_changes_def record_changes_def set_recording_def log_default_def log_clear_def drain_def starting_at_def
      rebuild_index_def current_seq_def history_new_def)

lemma logged_changed_eq: "logged_changed = snd (commit logged_doc sample_txn True [])"
  by (simp add: apply_tracked_def apply_inner_def starting_at_def rebuild_index_def with_hint_def transaction_new_def
      edit_insert_def edit_end_def end_panics_def split_beta Let_def)

lemma logged_changed_drain: "fst (drain_changes logged_changed) = Changes [sample_entry]"
proof -
  have "d_changes logged_changed = log_default\<lparr>l_recording := True, l_entries := [sample_entry], l_bytes := 33\<rparr>"
    unfolding logged_changed_eq
    by (simp add: commit_def Let_def split_beta record_in_changes rebuild_index_def starting_at_def with_hint_def transaction_new_def
        log_push_def wants_def log_default_def default_cap_def payload_bytes_def list_bytes_def EDIT_OVERHEAD_def next_rev_def
        record_change_def history_new_def group_for_def fresh_group_def current_seq_def inverse_edits_def
        edit_insert_def edit_delete_def edit_end_def push_inverse_def from_sorted_def effective_hint_eq)
  then show ?thesis by (simp add: drain_changes_def drain_def log_default_def split_beta)
qed

theorem crash_recovery_witness:
  "\<exists>raw r. encode_all [] (RHeader sample_header # RCheckpoint 0 0 [104, 105] #
       map REdit (map2 record_of_entry [\<lparr>em_seq = 1, em_timestamp_ms = 9\<rparr>] [sample_entry])) = Some raw \<and>
    rj_replay (\<lambda>_. []) raw None = Some r \<and> rp_text r = Some (d_text logged_changed) \<and> rp_changes r = 1"
proof -
  let ?ms = "[\<lparr>em_seq = 1, em_timestamp_ms = 9\<rparr>]"
  let ?d = "record_changes sample_doc True"
  have d: "doc_reach ?d" by (rule reach_edit [OF reach_start step_record])
  have "edit_step logged_doc logged_changed" by (rule step_apply [OF sample_wf]) (simp add: prod_eq_iff)
  then have st: "undrained\<^sup>*\<^sup>* logged_doc logged_changed" by (intro r_into_rtranclp und_edit)
  have dr: "drain_changes logged_changed = (Changes [sample_entry], snd (drain_changes logged_changed))"
    by (metis logged_changed_drain prod.collapse)
  have tx: "d_text ?d = [104, 105]" by (simp add: record_changes_def starting_at_def rebuild_index_def)
  have f: "hd_base sample_header = BaseCheckpoint" "format_fits (hd_format sample_header)" "list_all entry_in_64 [sample_entry]"
    "length ?ms = length [sample_entry]"
    by (simp_all add: format_fits_def format_default_def entry_in_64_def edits_in_64_def edit_insert_def edit_delete_def)
  have p: "record_payload (RHeader sample_header) = header_payload sample_header"
    "length (header_payload sample_header) < 2 ^ 32" "length (checkpoint_payload 0 0 [104, 105]) < 2 ^ 32"
    "length (edit_payload (record_of_entry \<lparr>em_seq = 1, em_timestamp_ms = 9\<rparr> sample_entry)) < 2 ^ 32"
    by (simp_all add: record_payload_def payload_defs edit_payload_def kind_payload_def list_payload_def edit_bytes_def
        record_of_entry_def edit_insert_def edit_delete_def)
  obtain bs where bs: "encode_all [] [RHeader sample_header, RCheckpoint 0 0 (d_text ?d)] = Some bs"
    using p by (simp add: tx encode_frame frame_result_def record_payload_def)
  obtain raw where raw: "encode_all [] (RHeader sample_header # RCheckpoint 0 0 (d_text ?d) # map REdit (map2 record_of_entry ?ms [sample_entry])) = Some raw"
    using p by (simp add: tx encode_frame frame_result_def record_payload_def)
  show ?thesis using crash_recovery [OF d logged_start st dr f raw bs, of "\<lambda>_. []" None] raw unfolding tx by auto
qed

end
